(* ===== verification/Prelude.thy ===== *)
theory Prelude
  imports Main "HOL-Library.Word"
begin

unbundle bit_operations_syntax

text \<open>
  Shared vocabulary of the development: the machine types of the Rust sources, their byte
  order conversions, I/O results as sums, and the generic lemmas the components share.

  \<^item> A Rust \<open>u8\<close>, \<open>u16\<close>, \<open>u32\<close>, \<open>u64\<close> is a word of that width; a \<open>usize\<close> (an index, a length)
    is a \<^typ>\<open>nat\<close>, and every \<open>checked_add\<close> or \<open>checked_mul\<close> on it tests the bound \<open>2 ^ 64\<close>
    of the aarch64 targets.
  \<^item> An \<open>io::Result\<close> is a sum: \<open>Inl\<close> holds the error (its kind and the fixed part of its
    message, without the interpolated values), \<open>Inr\<close> the value. \<open>bind_io\<close> is the \<open>?\<close> operator.
    \<open>RustPanic\<close> is the outcome of an index or slice out of bounds where the source does not
    check the bound itself.
  \<^item> A byte string is a list of 8-bit words; Rust text is a \<^typ>\<open>string\<close>, one character per byte.
\<close>

section \<open>Machine types\<close>

type_synonym u8 = "8 word"
type_synonym u16 = "16 word"
type_synonym u32 = "32 word"
type_synonym u64 = "64 word"
type_synonym bytes = "8 word list"

definition usize_limit :: nat where
  "usize_limit = 2 ^ 64"

definition bytes_of :: "string \<Rightarrow> bytes" where
  "bytes_of s = map of_char s"

lemma length_bytes_of [simp]: "length (bytes_of s) = length s"
  by (simp add: bytes_of_def)

section \<open>Results of fallible operations\<close>

datatype error_kind =
    InvalidData
  | InvalidInput
  | NotFound
  | UnexpectedEof
  | WriteZero
  | Unsupported
  | PermissionDenied
  | ResourceBusy
  | AlreadyExists
  | BrokenPipe
  | ConnectionAborted
  | ConnectionReset
  | NotConnected
  | TimedOut
  | Interrupted
  | WouldBlock
  | OtherError
  | OsErrno nat

datatype io_error =
    IoError (kind_of: error_kind) (message_of: string)
  | RustPanic

type_synonym 'a io = "io_error + 'a"

definition bind_io :: "'e + 'a \<Rightarrow> ('a \<Rightarrow> 'e + 'b) \<Rightarrow> 'e + 'b" where
  "bind_io m f = (case m of Inl e \<Rightarrow> Inl e | Inr x \<Rightarrow> f x)"

abbreviation invalid_data :: "string \<Rightarrow> 'a io" where
  "invalid_data msg \<equiv> Inl (IoError InvalidData msg)"

abbreviation invalid_input :: "string \<Rightarrow> 'a io" where
  "invalid_input msg \<equiv> Inl (IoError InvalidInput msg)"

text \<open>\<open>ok_or\<close> is Rust's \<open>Option::ok_or_else\<close>.\<close>

definition ok_or :: "'e \<Rightarrow> 'a option \<Rightarrow> 'e + 'a" where
  "ok_or e m = (case m of None \<Rightarrow> Inl e | Some x \<Rightarrow> Inr x)"

lemma bind_io_simps [simp]:
  "bind_io (Inl e) f = Inl e"
  "bind_io (Inr x) f = f x"
  by (simp_all add: bind_io_def)

lemma bind_io_eq_Inr [simp]:
  "bind_io m f = Inr y \<longleftrightarrow> (\<exists>x. m = Inr x \<and> f x = Inr y)"
  by (cases m) auto

lemma bind_io_cong [fundef_cong]:
  "m = m' \<Longrightarrow> (\<And>x. m' = Inr x \<Longrightarrow> f x = g x) \<Longrightarrow> bind_io m f = bind_io m' g"
  by (cases m') auto

lemma ok_or_simps [simp]:
  "ok_or e None = Inl e"
  "ok_or e (Some x) = Inr x"
  by (simp_all add: ok_or_def)

lemma ok_or_eq_Inr [simp]: "ok_or e m = Inr x \<longleftrightarrow> m = Some x"
  by (cases m) auto

lemma ok_or_eq_Inl [simp]: "ok_or e m = Inl e' \<longleftrightarrow> m = None \<and> e' = e"
  by (cases m) auto

text \<open>
  \<open>OsErrno n\<close> stands for an error straight from a system call, whose \<open>raw_os_error()\<close> is \<open>Some(n)\<close>;
  \<open>decode_errno\<close> is the part of the standard library's table from error numbers to kinds that
  the sources test, and \<open>plain_kind\<close> is \<open>err.kind()\<close>.
\<close>

definition decode_errno :: "nat \<Rightarrow> error_kind" where
  "decode_errno n =
     (if n = 1 \<or> n = 13 then PermissionDenied
      else if n = 2 then NotFound
      else if n = 4 then Interrupted
      else if n = 11 then WouldBlock
      else if n = 16 then ResourceBusy
      else if n = 17 then AlreadyExists
      else if n = 22 then InvalidInput
      else if n = 32 then BrokenPipe
      else if n = 38 \<or> n = 95 then Unsupported
      else if n = 103 then ConnectionAborted
      else if n = 104 then ConnectionReset
      else if n = 107 then NotConnected
      else if n = 110 then TimedOut
      else OtherError)"

definition plain_kind :: "error_kind \<Rightarrow> error_kind" where
  "plain_kind k = (case k of OsErrno n \<Rightarrow> decode_errno n | _ \<Rightarrow> k)"

text \<open>\<open>map_err\<close> with a message put before the error's; the new error has the kind but not the number.\<close>

definition map_err_prefix :: "string \<Rightarrow> 'a io \<Rightarrow> 'a io" where
  "map_err_prefix msg r = (case r of Inl (IoError k m) \<Rightarrow> Inl (IoError (plain_kind k) (msg @ m)) | _ \<Rightarrow> r)"

lemma map_err_prefix_Inr [simp]: "map_err_prefix msg r = Inr x \<longleftrightarrow> r = Inr x"
  by (auto simp: map_err_prefix_def split: sum.splits io_error.splits)

text \<open>\<open>map_io\<close> runs a fallible function over a list and stops at the first error, as a loop of \<open>?\<close> calls.\<close>

primrec map_io :: "('a \<Rightarrow> 'e + 'b) \<Rightarrow> 'a list \<Rightarrow> 'e + 'b list" where
  "map_io f [] = Inr []"
| "map_io f (x # xs) = bind_io (f x) (\<lambda>y. bind_io (map_io f xs) (\<lambda>ys. Inr (y # ys)))"

lemma map_io_cong [fundef_cong]:
  "xs = ys \<Longrightarrow> (\<And>x. x \<in> set ys \<Longrightarrow> f x = g x) \<Longrightarrow> map_io f xs = map_io g ys"
  by (induction ys arbitrary: xs) (auto simp: bind_io_def split: sum.splits)

lemma map_io_Inr: "(\<And>x. x \<in> set xs \<Longrightarrow> f x = Inr (g x)) \<Longrightarrow> map_io f xs = Inr (map g xs)"
  by (induction xs) auto

lemma map_io_elem: "map_io f xs = Inr ys \<Longrightarrow> y \<in> set ys \<Longrightarrow> \<exists>x \<in> set xs. f x = Inr y"
  by (induction xs arbitrary: ys) auto

lemma map_io_length: "map_io f xs = Inr ys \<Longrightarrow> length ys = length xs"
  by (induction xs arbitrary: ys) auto

lemma map_io_all: "(\<And>x y. f x = Inr y \<Longrightarrow> P y) \<Longrightarrow> map_io f xs = Inr ys \<Longrightarrow> \<forall>y \<in> set ys. P y"
  by (induction xs arbitrary: ys) auto

text \<open>\<open>fold_io\<close> threads a state through a fallible step.\<close>

primrec fold_io :: "('s \<Rightarrow> 'a \<Rightarrow> 'e + 's) \<Rightarrow> 's \<Rightarrow> 'a list \<Rightarrow> 'e + 's" where
  "fold_io f s [] = Inr s"
| "fold_io f s (x # xs) = bind_io (f s x) (\<lambda>s. fold_io f s xs)"

lemma fold_io_append: "fold_io f s (xs @ ys) = bind_io (fold_io f s xs) (\<lambda>s. fold_io f s ys)"
  by (induction xs arbitrary: s) (simp_all add: bind_io_def split: sum.splits)

lemma bind_io_assoc: "bind_io (bind_io m f) g = bind_io m (\<lambda>x. bind_io (f x) g)"
  by (cases m) simp_all

section \<open>Checked arithmetic\<close>

definition checked_add :: "'w::len word \<Rightarrow> 'w word \<Rightarrow> 'w word option" where
  "checked_add a b = (if unat a + unat b < 2 ^ LENGTH('w) then Some (a + b) else None)"

definition checked_mul :: "'w::len word \<Rightarrow> 'w word \<Rightarrow> 'w word option" where
  "checked_mul a b = (if unat a * unat b < 2 ^ LENGTH('w) then Some (a * b) else None)"

definition checked_add_usize :: "nat \<Rightarrow> nat \<Rightarrow> nat option" where
  "checked_add_usize a b = (if a + b < usize_limit then Some (a + b) else None)"

definition checked_mul_usize :: "nat \<Rightarrow> nat \<Rightarrow> nat option" where
  "checked_mul_usize a b = (if a * b < usize_limit then Some (a * b) else None)"

lemma checked_add_Some [simp]:
  "checked_add a b = Some (c::'w::len word) \<longleftrightarrow> unat c = unat a + unat b"
proof -
  have "unat (a + b) = unat a + unat b" if "unat a + unat b < 2 ^ LENGTH('w)"
    using that by (simp add: unat_word_ariths)
  moreover have "unat a + unat b < 2 ^ LENGTH('w)" if "unat c = unat a + unat b"
    by (simp only: that [symmetric] unsigned_less)
  ultimately show ?thesis
    by (auto simp: checked_add_def intro: word_unat_eq_iff [THEN iffD2])
qed

lemma checked_mul_Some [simp]:
  "checked_mul a b = Some (c::'w::len word) \<longleftrightarrow> unat c = unat a * unat b"
proof -
  have "unat (a * b) = unat a * unat b" if "unat a * unat b < 2 ^ LENGTH('w)"
    using that by (simp add: unat_word_ariths)
  moreover have "unat a * unat b < 2 ^ LENGTH('w)" if "unat c = unat a * unat b"
    by (simp only: that [symmetric] unsigned_less)
  ultimately show ?thesis
    by (auto simp: checked_mul_def intro: word_unat_eq_iff [THEN iffD2])
qed

lemma unat_less_u64: "unat (a::u64) < 2 ^ 64"
  by (rule order_less_le_trans [OF unsigned_less]) simp

lemma unat_less_u32: "unat (a::u32) < 2 ^ 32"
  by (rule order_less_le_trans [OF unsigned_less]) simp

lemma unat_less_u16: "unat (a::u16) < 2 ^ 16"
  by (rule order_less_le_trans [OF unsigned_less]) simp

lemma unat_less_u8: "unat (a::u8) < 256"
  by (rule order_less_le_trans [OF unsigned_less]) simp

lemma unat_of_nat_exact: "n < 2 ^ LENGTH('w) \<Longrightarrow> unat (of_nat n :: 'w::len word) = n"
  by (simp add: unsigned_of_nat take_bit_nat_eq_self)

lemma unat_of_nat_u32: "n < 2 ^ 32 \<Longrightarrow> unat (of_nat n :: u32) = n"
  by (rule unat_of_nat_exact) simp

lemma unat_of_nat_u64: "n < 2 ^ 64 \<Longrightarrow> unat (of_nat n :: u64) = n"
  by (rule unat_of_nat_exact) simp

lemma unat_add_exact: "unat a + unat b < 2 ^ LENGTH('w) \<Longrightarrow> unat (a + b :: 'w::len word) = unat a + unat b"
  by (simp add: unat_word_ariths)

lemma checked_add_sum: "checked_add a b = Some c \<Longrightarrow> c = a + b"
  by (simp only: checked_add_def split: if_splits) simp_all

lemma checked_add_None: "checked_add a b = None \<longleftrightarrow> 2 ^ LENGTH('w) \<le> unat a + unat (b::'w::len word)"
  by (simp add: checked_add_def not_less)

lemma checked_add_usize_Some [simp]:
  "checked_add_usize a b = Some c \<longleftrightarrow> c = a + b \<and> a + b < usize_limit"
  by (auto simp: checked_add_usize_def)

lemma checked_mul_usize_Some [simp]:
  "checked_mul_usize a b = Some c \<longleftrightarrow> c = a * b \<and> a * b < usize_limit"
  by (auto simp: checked_mul_usize_def)

text \<open>Code equations that compute the overflow tests on binary integers.\<close>

lemma checked_add_code [code]:
  "checked_add a b = (if uint a + uint b < 2 ^ LENGTH('w) then Some (a + b :: 'w::len word) else None)"
proof -
  have "unat a + unat b < 2 ^ LENGTH('w) \<longleftrightarrow> int (unat a + unat b) < int (2 ^ LENGTH('w))"
    by (simp only: of_nat_less_iff)
  then show ?thesis by (simp add: checked_add_def)
qed

lemma checked_mul_code [code]:
  "checked_mul a b = (if uint a * uint b < 2 ^ LENGTH('w) then Some (a * b :: 'w::len word) else None)"
proof -
  have "unat a * unat b < 2 ^ LENGTH('w) \<longleftrightarrow> int (unat a * unat b) < int (2 ^ LENGTH('w))"
    by (simp only: of_nat_less_iff)
  then show ?thesis by (simp add: checked_mul_def)
qed

lemma checked_add_usize_code [code]:
  "checked_add_usize a b = (if int a + int b < 18446744073709551616 then Some (a + b) else None)"
  by (auto simp: checked_add_usize_def usize_limit_def)

lemma checked_mul_usize_code [code]:
  "checked_mul_usize a b = (if int a * int b < 18446744073709551616 then Some (a * b) else None)"
proof -
  have "a * b < usize_limit \<longleftrightarrow> int (a * b) < int usize_limit"
    by (simp only: of_nat_less_iff)
  then show ?thesis by (simp add: checked_mul_usize_def usize_limit_def)
qed

section \<open>Slices\<close>

text \<open>
  \<open>slice_get xs a b\<close> is \<open>xs.get(a..b)\<close>: \<open>None\<close> where the range does not lie in the slice.
  \<open>splice xs a ys\<close> overwrites the bytes from \<open>a\<close> on with \<open>ys\<close> (\<open>copy_from_slice\<close> into
  \<open>xs[a..a + ys.len()]\<close>), used where that range lies in \<open>xs\<close>.
\<close>

definition slice :: "'a list \<Rightarrow> nat \<Rightarrow> nat \<Rightarrow> 'a list" where
  "slice xs a b = take (b - a) (drop a xs)"

definition slice_get :: "'a list \<Rightarrow> nat \<Rightarrow> nat \<Rightarrow> 'a list option" where
  "slice_get xs a b = (if a \<le> b \<and> b \<le> length xs then Some (slice xs a b) else None)"

definition splice :: "'a list \<Rightarrow> nat \<Rightarrow> 'a list \<Rightarrow> 'a list" where
  "splice xs a ys = take a xs @ ys @ drop (a + length ys) xs"

text \<open>\<open>index_slice xs a b\<close> is \<open>&xs[a..b]\<close>, which panics out of bounds.\<close>

definition index_slice :: "'a list \<Rightarrow> nat \<Rightarrow> nat \<Rightarrow> 'a list io" where
  "index_slice xs a b = (if a \<le> b \<and> b \<le> length xs then Inr (slice xs a b) else Inl RustPanic)"

lemma index_slice_Inr [simp]: "index_slice xs a b = Inr ys \<longleftrightarrow> a \<le> b \<and> b \<le> length xs \<and> ys = slice xs a b"
  by (auto simp: index_slice_def)

lemma slice_get_Some [simp]:
  "slice_get xs a b = Some ys \<longleftrightarrow> a \<le> b \<and> b \<le> length xs \<and> ys = slice xs a b"
  by (auto simp: slice_get_def)

lemma length_slice [simp]: "b \<le> length xs \<Longrightarrow> length (slice xs a b) = b - a"
  by (simp add: slice_def)

lemma slice_append_left: "b \<le> length xs \<Longrightarrow> slice (xs @ ys) a b = slice xs a b"
  by (simp add: slice_def)

lemma slice_append_right: "length xs \<le> a \<Longrightarrow> slice (xs @ ys) a b = slice ys (a - length xs) (b - length xs)"
  by (simp add: slice_def)

lemma slice_exact: "a = length xs \<Longrightarrow> b = length xs + length ys \<Longrightarrow> slice (xs @ ys @ zs) a b = ys"
  by (simp add: slice_def)

lemma slice_split: "a \<le> b \<Longrightarrow> b \<le> c \<Longrightarrow> slice xs a c = slice xs a b @ slice xs b c"
proof -
  assume "a \<le> b" "b \<le> c"
  then have "drop b xs = drop (b - a) (drop a xs)" and "c - a = (b - a) + (c - b)" by simp_all
  then show ?thesis by (simp only: slice_def take_add)
qed

lemma slice_one: "a < length xs \<Longrightarrow> slice xs a (Suc a) = [xs ! a]"
  by (simp add: slice_def take_Suc_conv_app_nth)

lemma slice_full [simp]: "slice xs 0 (length xs) = xs"
  by (simp add: slice_def)

lemma slice_replicate [simp]: "b \<le> n \<Longrightarrow> slice (replicate n x) a b = replicate (b - a) x"
  by (simp add: slice_def drop_replicate take_replicate min_def)

lemma length_splice [simp]: "a + length ys \<le> length xs \<Longrightarrow> length (splice xs a ys) = length xs"
  by (simp add: splice_def)

lemma slice_splice_same: "a + length ys \<le> length xs \<Longrightarrow> b = a + length ys \<Longrightarrow> slice (splice xs a ys) a b = ys"
  by (simp add: splice_def slice_def)

lemma slice_splice_before: "b \<le> a \<Longrightarrow> a + length ys \<le> length xs \<Longrightarrow> slice (splice xs a ys) c b = slice xs c b"
  by (cases "c \<le> b") (auto simp: splice_def slice_def take_drop min_def)

lemma slice_splice_after:
  "a + length ys \<le> c \<Longrightarrow> a + length ys \<le> length xs \<Longrightarrow> slice (splice xs a ys) c b = slice xs c b"
  by (simp add: splice_def slice_def min_def)

lemma nth_splice:
  "a + length ys \<le> length xs \<Longrightarrow> i < length xs \<Longrightarrow>
   splice xs a ys ! i = (if a \<le> i \<and> i < a + length ys then ys ! (i - a) else xs ! i)"
  by (auto simp: splice_def nth_append min_def)

section \<open>Text as bytes\<close>

lemma of_char_inject: "(of_char a :: u8) = of_char b \<longleftrightarrow> a = b"
proof
  assume eq: "(of_char a :: u8) = of_char b"
  have "(of_char c :: u8) = of_nat (of_char c)" "(of_char c :: nat) < 2 ^ LENGTH(8)" for c
    by (simp_all add: of_nat_of_char)
  then have "(of_char a :: nat) = of_char b"
    using eq unat_of_nat_exact [where 'w = 8] by metis
  then show "a = b" by simp
qed simp

lemma bytes_of_inject: "bytes_of s = bytes_of t \<longleftrightarrow> s = t"
  by (simp add: bytes_of_def inj_map_eq_map inj_def of_char_inject)

lemma bytes_of_eq_Nil [simp]: "bytes_of s = [] \<longleftrightarrow> s = []"
  by (simp add: bytes_of_def)

lemma bytes_of_no_nul: "CHR 0x00 \<notin> set s \<Longrightarrow> 0 \<notin> set (bytes_of s)"
proof
  assume nz: "CHR 0x00 \<notin> set s" and "0 \<in> set (bytes_of s)"
  then obtain c where c: "c \<in> set s" "(of_char c :: u8) = 0" by (auto simp: bytes_of_def)
  moreover have "(of_char (CHR 0x00) :: u8) = 0" by code_simp
  ultimately have "c = CHR 0x00" using of_char_inject [of c "CHR 0x00"] by simp
  then show False using nz c(1) by blast
qed

definition is_power_of_two :: "u64 \<Rightarrow> bool" where
  "is_power_of_two w \<longleftrightarrow> length (filter (bit w) [0..<64]) = 1"

section \<open>Chunks\<close>

text \<open>Rust's \<open>chunks_exact\<close>; a chunk size of zero, which panics there, does not occur.\<close>

function chunks_exact :: "nat \<Rightarrow> 'a list \<Rightarrow> 'a list list" where
  "chunks_exact n xs = (if n = 0 \<or> length xs < n then [] else take n xs # chunks_exact n (drop n xs))"
  by pat_completeness auto
termination by (relation "measure (\<lambda>(n, xs). length xs)") auto

declare chunks_exact.simps [simp del]

lemma length_chunks_exact: "0 < n \<Longrightarrow> length (chunks_exact n xs) = length xs div n"
proof (induction n xs rule: chunks_exact.induct)
  case (1 n xs)
  show ?case
  proof (cases "length xs < n")
    case True
    then show ?thesis by (subst chunks_exact.simps) simp
  next
    case False
    then have "length (chunks_exact n (drop n xs)) = length (drop n xs) div n" using 1 by simp
    then show ?thesis using False "1.prems" by (subst chunks_exact.simps) (simp add: le_div_geq)
  qed
qed

lemma chunks_exact_nth: "0 < n \<Longrightarrow> i * n + n \<le> length xs \<Longrightarrow> chunks_exact n xs ! i = slice xs (i * n) (i * n + n)"
proof (induction n xs arbitrary: i rule: chunks_exact.induct)
  case (1 n xs)
  have c: "chunks_exact n xs = take n xs # chunks_exact n (drop n xs)" using "1.prems" by (subst chunks_exact.simps) auto
  show ?case
  proof (cases i)
    case 0
    then show ?thesis by (simp add: c slice_def)
  next
    case (Suc j)
    have "chunks_exact n (drop n xs) ! j = slice (drop n xs) (j * n) (j * n + n)"
      using "1.IH" [of j] "1.prems" Suc by simp
    then show ?thesis by (simp add: c Suc slice_def ac_simps)
  qed
qed

end
