(* ===== verification/Bytes.thy ===== *)
theory Bytes
  imports Prelude
begin

unbundle bit_operations_syntax

text \<open>
  Byte order conversions (\<open>from_be_bytes\<close>, \<open>to_le_bytes\<close> and their kin) at every width the
  sources use, bounds-checked field access on byte buffers, and the interface \<open>byte_codec\<close>:
  an encoder and a decoder that are inverse on strings of a fixed length. What a field read
  returns after a field write is proved once from that interface and used for device trees,
  GPT headers and kernel image headers alike.
\<close>

section \<open>Byte order\<close>

definition from_be_bytes :: "bytes \<Rightarrow> 'w::len word" where
  "from_be_bytes bs = foldl (\<lambda>acc b. push_bit 8 acc OR ucast b) 0 bs"

definition to_be_bytes :: "nat \<Rightarrow> 'w::len word \<Rightarrow> bytes" where
  "to_be_bytes n w = map (\<lambda>i. ucast (drop_bit (8 * i) w)) (rev [0..<n])"

definition from_le_bytes :: "bytes \<Rightarrow> 'w::len word" where
  "from_le_bytes bs = from_be_bytes (rev bs)"

definition to_le_bytes :: "nat \<Rightarrow> 'w::len word \<Rightarrow> bytes" where
  "to_le_bytes n w = rev (to_be_bytes n w)"

lemma length_to_be_bytes [simp]: "length (to_be_bytes n w) = n"
  by (simp add: to_be_bytes_def)

lemma length_to_le_bytes [simp]: "length (to_le_bytes n w) = n"
  by (simp add: to_le_bytes_def)

lemma from_be_bytes_snoc:
  "from_be_bytes (bs @ [b]) = (push_bit 8 (from_be_bytes bs) OR ucast b :: 'w::len word)"
  by (simp add: from_be_bytes_def)

lemma bit_from_be_bytes:
  "bit (from_be_bytes bs :: 'w::len word) k \<longleftrightarrow>
     k < LENGTH('w) \<and> k < 8 * length bs \<and> bit (rev bs ! (k div 8)) (k mod 8)"
proof (induction bs arbitrary: k rule: rev_induct)
  case Nil
  then show ?case by (simp add: from_be_bytes_def)
next
  case (snoc b bs)
  show ?case
  proof (cases "k < 8")
    case True
    then show ?thesis
      by (auto simp: from_be_bytes_snoc bit_simps)
  next
    case False
    then have "k div 8 = Suc ((k - 8) div 8)" and "k mod 8 = (k - 8) mod 8"
      by (simp_all add: le_div_geq le_mod_geq)
    then show ?thesis
      using False snoc.IH [of "k - 8"] by (auto simp: from_be_bytes_snoc bit_simps dest: bit_imp_le_length)
  qed
qed

lemma rev_to_be_bytes_nth: "i < n \<Longrightarrow> rev (to_be_bytes n w) ! i = ucast (drop_bit (8 * i) w)"
  by (simp add: to_be_bytes_def rev_map)

lemma from_be_bytes_to_be_bytes:
  assumes "LENGTH('w) \<le> 8 * n"
  shows "from_be_bytes (to_be_bytes n w) = (w :: 'w::len word)"
proof (rule bit_word_eqI)
  fix k assume k: "k < LENGTH('w)"
  then have "k div 8 < n" using assms by (simp add: less_mult_imp_div_less)
  then show "bit (from_be_bytes (to_be_bytes n w) :: 'w word) k = bit w k"
    using k assms by (simp add: bit_from_be_bytes rev_to_be_bytes_nth bit_simps)
qed

lemma to_be_bytes_from_be_bytes:
  assumes "length bs = n" and "8 * n \<le> LENGTH('w)"
  shows "to_be_bytes n (from_be_bytes bs :: 'w::len word) = bs"
proof -
  have "rev (to_be_bytes n (from_be_bytes bs :: 'w word)) = rev bs"
  proof (rule nth_equalityI)
    fix i assume "i < length (rev (to_be_bytes n (from_be_bytes bs :: 'w word)))"
    then have i: "i < n" by simp
    show "rev (to_be_bytes n (from_be_bytes bs :: 'w word)) ! i = rev bs ! i"
    proof (rule bit_word_eqI)
      fix k assume "k < LENGTH(8)"
      then have k: "k < 8" by simp
      then have "8 * i + k < 8 * n" using i by simp
      then show "bit (rev (to_be_bytes n (from_be_bytes bs :: 'w word)) ! i) k = bit (rev bs ! i) k"
        using i k assms by (simp add: rev_to_be_bytes_nth bit_simps bit_from_be_bytes)
    qed
  qed (simp add: assms)
  then show ?thesis by simp
qed

lemma from_be_bytes_zero [simp]: "from_be_bytes (replicate n 0) = 0"
  by (rule bit_word_eqI) (simp add: bit_from_be_bytes)

section \<open>The codec interface\<close>

text \<open>
  \<open>read_field\<close> and \<open>write_field\<close> are the shape of every bounds-checked accessor of the
  sources: an error where the field does not lie in the buffer, the decoded value otherwise.
\<close>

definition read_field :: "nat \<Rightarrow> (bytes \<Rightarrow> 'v) \<Rightarrow> io_error \<Rightarrow> bytes \<Rightarrow> nat \<Rightarrow> 'v io" where
  "read_field n dec err data off =
     (if off + n \<le> length data then Inr (dec (slice data off (off + n))) else Inl err)"

definition write_field :: "('v \<Rightarrow> bytes) \<Rightarrow> io_error \<Rightarrow> bytes \<Rightarrow> nat \<Rightarrow> 'v \<Rightarrow> bytes io" where
  "write_field enc err data off v =
     (if off + length (enc v) \<le> length data then Inr (splice data off (enc v)) else Inl err)"

lemma read_field_Inr [simp]:
  "read_field n dec err data off = Inr v \<longleftrightarrow> off + n \<le> length data \<and> v = dec (slice data off (off + n))"
  by (auto simp: read_field_def)

lemma write_field_Inr [simp]:
  "write_field enc err data off v = Inr data' \<longleftrightarrow>
     off + length (enc v) \<le> length data \<and> data' = splice data off (enc v)"
  by (auto simp: write_field_def)

locale byte_codec =
  fixes width :: nat
    and enc :: "'v \<Rightarrow> bytes"
    and dec :: "bytes \<Rightarrow> 'v"
  assumes enc_length: "length (enc v) = width"
    and dec_enc: "dec (enc v) = v"
    and enc_dec: "length bs = width \<Longrightarrow> enc (dec bs) = bs"
begin

lemma enc_inject: "enc v = enc w \<longleftrightarrow> v = w"
  by (metis dec_enc)

lemma dec_inject: "length xs = width \<Longrightarrow> length ys = width \<Longrightarrow> dec xs = dec ys \<longleftrightarrow> xs = ys"
  by (metis enc_dec)

lemma read_at_front:
  "off = length pre \<Longrightarrow> read_field width dec err (pre @ enc v @ post) off = Inr v"
  by (simp add: read_field_def slice_exact enc_length dec_enc)

lemma read_after_write:
  "write_field enc err data off v = Inr data' \<Longrightarrow> read_field width dec err' data' off = Inr v"
  by (auto simp: enc_length slice_splice_same dec_enc)

lemma read_other_after_write:
  assumes "write_field enc err data off v = Inr data'"
    and "p + n \<le> off \<or> off + width \<le> p"
  shows "read_field n d err' data' p = read_field n d err' data p"
  using assms by (auto simp: read_field_def enc_length slice_splice_before slice_splice_after)

lemma write_keeps_length: "write_field enc err data off v = Inr data' \<Longrightarrow> length data' = length data"
  by (auto simp: enc_length)

lemma read_in_prefix:
  "off + n \<le> length xs \<Longrightarrow> read_field n d err (xs @ ys) off = read_field n d err xs off"
  by (simp add: read_field_def slice_append_left)

end

interpretation be32: byte_codec 4 "to_be_bytes 4 :: u32 \<Rightarrow> bytes" from_be_bytes
  by unfold_locales (simp_all add: from_be_bytes_to_be_bytes to_be_bytes_from_be_bytes)

interpretation be64: byte_codec 8 "to_be_bytes 8 :: u64 \<Rightarrow> bytes" from_be_bytes
  by unfold_locales (simp_all add: from_be_bytes_to_be_bytes to_be_bytes_from_be_bytes)

interpretation le16: byte_codec 2 "to_le_bytes 2 :: u16 \<Rightarrow> bytes" from_le_bytes
  by unfold_locales
    (simp_all add: from_le_bytes_def to_le_bytes_def from_be_bytes_to_be_bytes to_be_bytes_from_be_bytes)

interpretation le32: byte_codec 4 "to_le_bytes 4 :: u32 \<Rightarrow> bytes" from_le_bytes
  by unfold_locales
    (simp_all add: from_le_bytes_def to_le_bytes_def from_be_bytes_to_be_bytes to_be_bytes_from_be_bytes)

interpretation le64: byte_codec 8 "to_le_bytes 8 :: u64 \<Rightarrow> bytes" from_le_bytes
  by unfold_locales
    (simp_all add: from_le_bytes_def to_le_bytes_def from_be_bytes_to_be_bytes to_be_bytes_from_be_bytes)

section \<open>Searching byte strings\<close>

text \<open>
  \<open>position p xs\<close> is \<open>iter().position(p)\<close>, the index of the first element that satisfies
  \<open>p\<close>; \<open>split_on z xs\<close> is \<open>split(|b| b == z)\<close>, the maximal runs without \<open>z\<close>, empty ones
  included.
\<close>

primrec position :: "('a \<Rightarrow> bool) \<Rightarrow> 'a list \<Rightarrow> nat option" where
  "position p [] = None"
| "position p (x # xs) = (if p x then Some 0 else map_option Suc (position p xs))"

primrec split_on :: "'a \<Rightarrow> 'a list \<Rightarrow> 'a list list" where
  "split_on z [] = [[]]"
| "split_on z (x # xs) =
     (if x = z then [] # split_on z xs
      else (case split_on z xs of [] \<Rightarrow> [[x]] | ys # yss \<Rightarrow> (x # ys) # yss))"

lemma position_Some:
  "position p xs = Some i \<longleftrightarrow> i < length xs \<and> p (xs ! i) \<and> (\<forall>j < i. \<not> p (xs ! j))"
proof (induction xs arbitrary: i)
  case Nil
  then show ?case by simp
next
  case (Cons x xs)
  show ?case
  proof (cases i)
    case 0
    then show ?thesis using Cons by auto
  next
    case (Suc k)
    then show ?thesis using Cons [of k] by (auto simp: less_Suc_eq_0_disj)
  qed
qed

lemma position_None: "position p xs = None \<longleftrightarrow> (\<forall>x \<in> set xs. \<not> p x)"
  by (induction xs) auto

lemma position_append_first:
  "(\<forall>x \<in> set xs. \<not> p x) \<Longrightarrow> p y \<Longrightarrow> position p (xs @ y # ys) = Some (length xs)"
  by (induction xs) auto

lemma split_on_not_Nil [simp]: "split_on z xs \<noteq> []"
  by (induction xs) (auto split: list.splits)

lemma split_on_no_sep: "z \<notin> set xs \<Longrightarrow> split_on z xs = [xs]"
  by (induction xs) auto

lemma split_on_append_sep: "z \<notin> set xs \<Longrightarrow> split_on z (xs @ z # ys) = xs # split_on z ys"
  by (induction xs) auto

lemma split_on_elem_no_sep: "ys \<in> set (split_on z xs) \<Longrightarrow> z \<notin> set ys"
  by (induction xs arbitrary: ys) (auto split: list.splits if_splits)

end
