(* ===== verification/RustText.thy ===== *)
theory RustText
  imports Bytes
begin

text \<open>
  The parts of Rust's \<open>str\<close> and integer parsing the modelled sources call, on \<^typ>\<open>string\<close>:
  trimming and splitting at white space, \<open>split_once\<close>, \<open>strip_prefix\<close>, \<open>strip_suffix\<close>,
  \<open>lines\<close>, and \<open>from_str_radix\<close>. White space is the ASCII part of \<open>char::is_whitespace\<close>:
  the kernel files and configuration the sources read are ASCII.
\<close>

section \<open>White space\<close>

definition is_space :: "char \<Rightarrow> bool" where
  "is_space c \<longleftrightarrow> (let n = of_char c :: nat in n = 32 \<or> (9 \<le> n \<and> n \<le> 13))"

definition trim_start :: "string \<Rightarrow> string" where
  "trim_start s = dropWhile is_space s"

definition trim_end :: "string \<Rightarrow> string" where
  "trim_end s = rev (dropWhile is_space (rev s))"

definition trim :: "string \<Rightarrow> string" where
  "trim s = trim_end (trim_start s)"

primrec split_by :: "('a \<Rightarrow> bool) \<Rightarrow> 'a list \<Rightarrow> 'a list list" where
  "split_by p [] = [[]]"
| "split_by p (x # xs) =
     (if p x then [] # split_by p xs
      else (case split_by p xs of [] \<Rightarrow> [[x]] | ys # yss \<Rightarrow> (x # ys) # yss))"

definition split_whitespace :: "string \<Rightarrow> string list" where
  "split_whitespace s = filter (\<lambda>w. w \<noteq> []) (split_by is_space s)"

lemma split_by_elem: "w \<in> set (split_by p xs) \<Longrightarrow> x \<in> set w \<Longrightarrow> x \<in> set xs \<and> \<not> p x"
  by (induction xs arbitrary: w) (fastforce split: list.splits if_splits)+

lemma split_by_not_Nil [simp]: "split_by p xs \<noteq> []"
  by (induction xs) (auto split: list.splits)

lemma split_by_no_sep: "\<forall>x \<in> set w. \<not> p x \<Longrightarrow> split_by p w = [w]"
  by (induction w) auto

lemma split_by_append_sep: "\<forall>x \<in> set w. \<not> p x \<Longrightarrow> p z \<Longrightarrow> split_by p (w @ z # xs) = w # split_by p xs"
  by (induction w) auto

section \<open>Prefixes, suffixes, separators\<close>

fun strip_prefix :: "'a list \<Rightarrow> 'a list \<Rightarrow> 'a list option" where
  "strip_prefix [] s = Some s"
| "strip_prefix (p # ps) [] = None"
| "strip_prefix (p # ps) (c # cs) = (if p = c then strip_prefix ps cs else None)"

definition starts_with :: "'a list \<Rightarrow> 'a list \<Rightarrow> bool" where
  "starts_with p s \<longleftrightarrow> strip_prefix p s \<noteq> None"

definition strip_suffix :: "'a list \<Rightarrow> 'a list \<Rightarrow> 'a list option" where
  "strip_suffix p s = map_option rev (strip_prefix (rev p) (rev s))"

fun split_once :: "'a \<Rightarrow> 'a list \<Rightarrow> ('a list \<times> 'a list) option" where
  "split_once z [] = None"
| "split_once z (c # cs) =
     (if c = z then Some ([], cs) else map_option (\<lambda>(l, r). (c # l, r)) (split_once z cs))"

definition join_with :: "'a list \<Rightarrow> 'a list list \<Rightarrow> 'a list" where
  "join_with sep xss = (case xss of [] \<Rightarrow> [] | xs # rest \<Rightarrow> xs @ concat (map (\<lambda>ys. sep @ ys) rest))"

text \<open>\<open>str::lines\<close>: split after every line feed, drop it and one carriage return before it.\<close>

definition newline :: char where
  "newline = CHR 0x0A"

definition chomp_cr :: "string \<Rightarrow> string" where
  "chomp_cr s = (if s \<noteq> [] \<and> last s = CHR 0x0D then butlast s else s)"

definition text_lines :: "string \<Rightarrow> string list" where
  "text_lines s =
     (let ps = split_on newline s
      in map chomp_cr (butlast ps) @ (if last ps = [] then [] else [last ps]))"

lemma strip_prefix_Some [simp]: "strip_prefix p s = Some t \<longleftrightarrow> s = p @ t"
  by (induction p s rule: strip_prefix.induct) auto

lemma strip_prefix_append [simp]: "strip_prefix p (p @ t) = Some t"
  by simp

lemma starts_with_iff: "starts_with p s \<longleftrightarrow> (\<exists>t. s = p @ t)"
  by (auto simp: starts_with_def)

lemma strip_suffix_Some [simp]: "strip_suffix p s = Some t \<longleftrightarrow> s = t @ p"
proof -
  have "s = t @ p \<longleftrightarrow> rev s = rev p @ rev t"
    by (metis rev_append rev_rev_ident)
  then show ?thesis
    by (auto simp: strip_suffix_def)
qed

lemma split_once_Some: "split_once z s = Some (l, r) \<longleftrightarrow> s = l @ z # r \<and> z \<notin> set l"
proof (induction s arbitrary: l)
  case Nil
  then show ?case by simp
next
  case (Cons c s)
  show ?case
    by (cases l) (auto simp: Cons.IH)
qed

lemma split_once_None: "split_once z s = None \<longleftrightarrow> z \<notin> set s"
  by (induction s) auto

lemma split_once_append: "z \<notin> set l \<Longrightarrow> split_once z (l @ z # r) = Some (l, r)"
  by (simp add: split_once_Some)

section \<open>Numbers\<close>

text \<open>
  \<open>from_str_radix\<close> for unsigned types: an optional plus sign, at least one digit, every
  character a digit of the radix (either case), and no overflow of the type.
\<close>

definition digit_value :: "nat \<Rightarrow> char \<Rightarrow> nat option" where
  "digit_value radix c =
     (let n = of_char c :: nat;
          d = (if 48 \<le> n \<and> n \<le> 57 then n - 48
               else if 97 \<le> n \<and> n \<le> 122 then n - 87
               else if 65 \<le> n \<and> n \<le> 90 then n - 55
               else radix)
      in if d < radix then Some d else None)"

fun digits_value :: "nat \<Rightarrow> nat \<Rightarrow> string \<Rightarrow> nat option" where
  "digits_value radix acc [] = Some acc"
| "digits_value radix acc (c # cs) =
     (case digit_value radix c of None \<Rightarrow> None | Some d \<Rightarrow> digits_value radix (radix * acc + d) cs)"

definition parse_radix :: "nat \<Rightarrow> nat \<Rightarrow> string \<Rightarrow> nat option" where
  "parse_radix radix limit s =
     (let body = (case s of c # cs \<Rightarrow> if c = CHR ''+'' then cs else s | [] \<Rightarrow> s)
      in if body = [] then None
         else (case digits_value radix 0 body of
                 None \<Rightarrow> None
               | Some n \<Rightarrow> if n < limit then Some n else None))"

definition parse_u64 :: "nat \<Rightarrow> string \<Rightarrow> 64 word option" where
  "parse_u64 radix s = map_option of_nat (parse_radix radix (2 ^ 64) s)"

definition parse_u8 :: "nat \<Rightarrow> string \<Rightarrow> 8 word option" where
  "parse_u8 radix s = map_option of_nat (parse_radix radix (2 ^ 8) s)"

text \<open>Lower-case hexadecimal formatting, \<open>{:x}\<close>, and its zero-padded form \<open>{:0nx}\<close>.\<close>

definition hex_digit :: "nat \<Rightarrow> char" where
  "hex_digit d = (if d < 10 then char_of (48 + d) else char_of (87 + d))"

fun hex_of :: "nat \<Rightarrow> string" where
  "hex_of n = (if n < 16 then [hex_digit n] else hex_of (n div 16) @ [hex_digit (n mod 16)])"

declare hex_of.simps [simp del]

text \<open>Decimal formatting, \<open>{n}\<close>.\<close>

fun decimal_of :: "nat \<Rightarrow> string" where
  "decimal_of n = (if n < 10 then [char_of (48 + n)] else decimal_of (n div 10) @ [char_of (48 + n mod 10)])"

declare decimal_of.simps [simp del]

lemma decimal_of_value: "foldl (\<lambda>acc c. 10 * acc + (of_char c - 48 :: nat)) 0 (decimal_of n) = n"
proof (induction n rule: decimal_of.induct)
  case (1 n)
  then show ?case by (subst decimal_of.simps) auto
qed

lemma decimal_of_inject: "decimal_of a = decimal_of b \<longleftrightarrow> a = b"
  by (metis decimal_of_value)

definition hex_padded :: "nat \<Rightarrow> nat \<Rightarrow> string" where
  "hex_padded width n = replicate (width - length (hex_of n)) (CHR ''0'') @ hex_of n"

lemma digit_value_hex_digit: "d < 16 \<Longrightarrow> digit_value 16 (hex_digit d) = Some d"
  by (auto simp: digit_value_def hex_digit_def Let_def)

lemma digits_value_append:
  "digits_value radix acc (s @ t) =
     (case digits_value radix acc s of None \<Rightarrow> None | Some a \<Rightarrow> digits_value radix a t)"
  by (induction radix acc s rule: digits_value.induct) (auto split: option.splits)

lemma digits_value_hex_of: "digits_value 16 0 (hex_of n) = Some n"
proof (induction n rule: hex_of.induct)
  case (1 n)
  show ?case
  proof (cases "n < 16")
    case True
    then show ?thesis by (subst hex_of.simps) (simp add: digit_value_hex_digit)
  next
    case False
    with 1 show ?thesis
      by (subst hex_of.simps) (simp add: digits_value_append digit_value_hex_digit)
  qed
qed

section \<open>UTF-8\<close>

text \<open>
  \<open>str::from_utf8\<close> accepts exactly the well-formed UTF-8 strings (no overlong forms, no
  surrogates, nothing above U+10FFFF). \<open>text_of\<close> reads validated bytes as text.
\<close>

definition is_cont :: "u8 \<Rightarrow> bool" where
  "is_cont b \<longleftrightarrow> 0x80 \<le> b \<and> b \<le> 0xBF"

fun utf8_valid :: "bytes \<Rightarrow> bool" where
  "utf8_valid [] = True"
| "utf8_valid (b # bs) =
     (if b < 0x80 then utf8_valid bs
      else if 0xC2 \<le> b \<and> b \<le> 0xDF then
        (case bs of c1 # cs \<Rightarrow> is_cont c1 \<and> utf8_valid cs | _ \<Rightarrow> False)
      else if 0xE0 \<le> b \<and> b \<le> 0xEF then
        (case bs of c1 # c2 # cs \<Rightarrow>
           (if b = 0xE0 then 0xA0 \<le> c1 \<and> c1 \<le> 0xBF
            else if b = 0xED then 0x80 \<le> c1 \<and> c1 \<le> 0x9F
            else is_cont c1) \<and> is_cont c2 \<and> utf8_valid cs
         | _ \<Rightarrow> False)
      else if 0xF0 \<le> b \<and> b \<le> 0xF4 then
        (case bs of c1 # c2 # c3 # cs \<Rightarrow>
           (if b = 0xF0 then 0x90 \<le> c1 \<and> c1 \<le> 0xBF
            else if b = 0xF4 then 0x80 \<le> c1 \<and> c1 \<le> 0x8F
            else is_cont c1) \<and> is_cont c2 \<and> is_cont c3 \<and> utf8_valid cs
         | _ \<Rightarrow> False)
      else False)"

definition text_of :: "bytes \<Rightarrow> string" where
  "text_of bs = map (\<lambda>b. char_of (unat b)) bs"

lemma utf8_valid_ascii: "\<forall>b \<in> set bs. b < 0x80 \<Longrightarrow> utf8_valid bs"
  by (induction bs) auto

lemma length_text_of [simp]: "length (text_of bs) = length bs"
  by (simp add: text_of_def)

lemma char_of_unat_inject: "char_of (unat (a::u8)) = (char_of (unat b) :: char) \<longleftrightarrow> a = b"
proof
  assume "char_of (unat a) = (char_of (unat b) :: char)"
  then have "(of_char (char_of (unat a)) :: nat) = of_char (char_of (unat b))" by simp
  then have "unat a mod 256 = unat b mod 256" by simp
  moreover have "unat a < 256" "unat b < 256"
    by (rule unat_less_u8)+
  ultimately have "unat a = unat b" by simp
  then show "a = b" by (simp only: word_unat_eq_iff)
qed simp

lemma text_of_inject [simp]: "text_of xs = text_of ys \<longleftrightarrow> xs = ys"
proof -
  have "inj (\<lambda>b::u8. char_of (unat b) :: char)"
    by (simp only: inj_def char_of_unat_inject) blast
  then show ?thesis by (simp add: text_of_def inj_map_eq_map)
qed

lemma starts_with_bytes_of: "starts_with (bytes_of p) (bytes_of s) \<longleftrightarrow> starts_with p s"
  by (induction p s rule: strip_prefix.induct) (simp_all add: starts_with_def bytes_of_def of_char_inject)

end
