(* ===== verification/Fdt.thy ===== *)
theory Fdt
  imports RustText
begin

text \<open>
  Flattened device trees as bytes (module \<open>fdt\<close> of \<open>src/kexec.rs\<close>): the header, the memory
  reserve map, the strings block, the tokens of the structure block and \<open>build_dtb\<close>, which lays
  a tree out. \<open>next_token\<close> is the decoding that every walker of the source starts its loop
  with; the walkers themselves are in the theories that use them.
\<close>

section \<open>Constants and records\<close>

definition FDT_MAGIC :: u32 where "FDT_MAGIC = 0xd00dfeed"
definition FDT_BEGIN_NODE :: u32 where "FDT_BEGIN_NODE = 1"
definition FDT_END_NODE :: u32 where "FDT_END_NODE = 2"
definition FDT_PROP :: u32 where "FDT_PROP = 3"
definition FDT_NOP :: u32 where "FDT_NOP = 4"
definition FDT_END :: u32 where "FDT_END = 9"

lemmas fdt_consts = FDT_MAGIC_def FDT_BEGIN_NODE_def FDT_END_NODE_def FDT_PROP_def FDT_NOP_def FDT_END_def

record fdt_header =
  totalsize :: nat
  off_dt_struct :: nat
  off_dt_strings :: nat
  off_mem_rsvmap :: nat
  version :: u32
  last_comp_version :: u32
  boot_cpuid_phys :: u32
  size_dt_strings :: nat
  size_dt_struct :: nat

record property_parts =
  p_len :: u32
  p_nameoff :: u32
  p_value_start :: nat
  p_value_end :: nat
  p_next :: nat

section \<open>Bounds-checked access\<close>

definition read_be32 :: "bytes \<Rightarrow> nat \<Rightarrow> u32 io" where
  "read_be32 data offset =
     bind_io (ok_or (IoError InvalidData ''u32 offset overflow'') (checked_add_usize offset 4)) (\<lambda>e.
     if length data < e then invalid_data ''unexpected end of data while reading u32''
     else Inr (from_be_bytes (slice data offset e)))"

definition write_be32_at :: "bytes \<Rightarrow> nat \<Rightarrow> u32 \<Rightarrow> bytes io" where
  "write_be32_at output offset v =
     bind_io (ok_or (IoError InvalidData ''u32 write offset overflow'') (checked_add_usize offset 4)) (\<lambda>e.
     if length output < e then invalid_data ''unexpected end of data while writing u32''
     else Inr (splice output offset (to_be_bytes 4 v)))"

definition fdt_checked_slice :: "bytes \<Rightarrow> nat \<Rightarrow> nat \<Rightarrow> string \<Rightarrow> bytes io" where
  "fdt_checked_slice data offset len name =
     bind_io (ok_or (IoError InvalidData (name @ '' range overflow'')) (checked_add_usize offset len)) (\<lambda>e.
     if length data < e then invalid_data (name @ '' extends past DTB payload'')
     else Inr (slice data offset e))"

text \<open>\<open>value & !(align - 1)\<close> is rounding down for the only alignment the source passes, 4.\<close>

definition align_usize :: "nat \<Rightarrow> nat \<Rightarrow> nat io" where
  "align_usize v align =
     bind_io (ok_or (IoError InvalidData ''DTB alignment overflow'') (checked_add_usize v (align - 1)))
       (\<lambda>w. Inr (w div align * align))"

definition find_nul :: "bytes \<Rightarrow> nat \<Rightarrow> nat io" where
  "find_nul data start =
     ok_or (IoError InvalidData ''unterminated DTB node name'')
       (map_option (\<lambda>pos. start + pos) (position (\<lambda>b. b = 0) (drop start data)))"

definition totalsize_u32 :: "nat \<Rightarrow> string \<Rightarrow> u32 io" where
  "totalsize_u32 v name =
     (if v < 2 ^ 32 then Inr (of_nat v) else invalid_data (name @ '' does not fit u32''))"

definition pad_to :: "bytes \<Rightarrow> nat \<Rightarrow> bytes" where
  "pad_to output align =
     output @ replicate ((length output + align - 1) div align * align - length output) 0"

lemma totalsize_u32_code [code]:
  "totalsize_u32 v name =
     (if int v < 4294967296 then Inr (of_nat v) else invalid_data (name @ '' does not fit u32''))"
  by (auto simp: totalsize_u32_def)

lemma read_be32_Inr [simp]:
  "read_be32 data off = Inr v \<longleftrightarrow>
     off + 4 < usize_limit \<and> off + 4 \<le> length data \<and> v = from_be_bytes (slice data off (off + 4))"
  by (auto simp: read_be32_def)

lemma write_be32_at_Inr [simp]:
  "write_be32_at out off v = Inr out' \<longleftrightarrow>
     off + 4 < usize_limit \<and> off + 4 \<le> length out \<and> out' = splice out off (to_be_bytes 4 v)"
  by (auto simp: write_be32_at_def)

lemma fdt_checked_slice_Inr [simp]:
  "fdt_checked_slice data off len name = Inr bs \<longleftrightarrow>
     off + len < usize_limit \<and> off + len \<le> length data \<and> bs = slice data off (off + len)"
  by (auto simp: fdt_checked_slice_def)

lemma align_usize_Inr [simp]:
  "align_usize v a = Inr w \<longleftrightarrow> v + (a - 1) < usize_limit \<and> w = (v + (a - 1)) div a * a"
  by (auto simp: align_usize_def)

lemma totalsize_u32_Inr [simp]: "totalsize_u32 v name = Inr w \<longleftrightarrow> v < 2 ^ 32 \<and> w = of_nat v"
  by (auto simp: totalsize_u32_def)

lemma find_nul_Inr: "find_nul data s = Inr e \<longleftrightarrow>
    s \<le> e \<and> e < length data \<and> data ! e = 0 \<and> (\<forall>i. s \<le> i \<longrightarrow> i < e \<longrightarrow> data ! i \<noteq> 0)"
proof -
  have "find_nul data s = Inr e \<longleftrightarrow> (\<exists>p. position (\<lambda>b. b = 0) (drop s data) = Some p \<and> e = s + p)"
    by (auto simp: find_nul_def)
  also have "\<dots> \<longleftrightarrow> s \<le> e \<and> position (\<lambda>b. b = 0) (drop s data) = Some (e - s)"
    by auto
  also have "\<dots> \<longleftrightarrow> s \<le> e \<and> e < length data \<and> data ! e = 0 \<and> (\<forall>i. s \<le> i \<longrightarrow> i < e \<longrightarrow> data ! i \<noteq> 0)"
    unfolding position_Some
    by (auto simp: nth_drop add.commute) (metis add.commute add_diff_inverse_nat diff_less_mono leD)
  finally show ?thesis .
qed

section \<open>Header\<close>

definition fdt_header_parse :: "bytes \<Rightarrow> fdt_header io" where
  "fdt_header_parse dtb =
     (if length dtb < 40 then invalid_data ''DTB is smaller than its header''
      else
        bind_io (read_be32 dtb 0) (\<lambda>magic.
        if magic \<noteq> FDT_MAGIC then invalid_data ''DTB has invalid magic''
        else
        bind_io (read_be32 dtb 4) (\<lambda>tot.
        bind_io (read_be32 dtb 8) (\<lambda>off_struct.
        bind_io (read_be32 dtb 12) (\<lambda>off_strings.
        bind_io (read_be32 dtb 16) (\<lambda>off_rsvmap.
        bind_io (read_be32 dtb 20) (\<lambda>ver.
        bind_io (read_be32 dtb 24) (\<lambda>last_comp.
        bind_io (read_be32 dtb 28) (\<lambda>cpuid.
        bind_io (read_be32 dtb 32) (\<lambda>size_strings.
        bind_io (read_be32 dtb 36) (\<lambda>size_struct.
        let header = \<lparr>totalsize = unat tot, off_dt_struct = unat off_struct,
              off_dt_strings = unat off_strings, off_mem_rsvmap = unat off_rsvmap,
              version = ver, last_comp_version = last_comp, boot_cpuid_phys = cpuid,
              size_dt_strings = unat size_strings, size_dt_struct = unat size_struct\<rparr> in
        if \<not> (40 \<le> totalsize header \<and> totalsize header \<le> length dtb)
        then invalid_data ''DTB totalsize is smaller than its header or exceeds payload size''
        else
        let dtb = take (totalsize header) dtb in
        bind_io (fdt_checked_slice dtb (off_dt_struct header) (size_dt_struct header) ''DTB structure block'') (\<lambda>_.
        bind_io (fdt_checked_slice dtb (off_dt_strings header) (size_dt_strings header) ''DTB strings block'') (\<lambda>_.
        if totalsize header \<le> off_mem_rsvmap header then invalid_data ''DTB reserve map offset is out of range''
        else Inr header)))))))))))))"

section \<open>Memory reserve map\<close>

function reserve_map_loop :: "bytes \<Rightarrow> nat \<Rightarrow> nat \<Rightarrow> bytes \<Rightarrow> bytes io" where
  "reserve_map_loop dtb tot cursor acc =
     (if \<not> (cursor + 16 < usize_limit \<and> cursor + 16 \<le> tot)
      then invalid_data ''DTB reserve map is unterminated''
      else
        (let entry = slice dtb cursor (cursor + 16);
             acc' = acc @ entry;
             address = (from_be_bytes (slice entry 0 8) :: u64);
             len = (from_be_bytes (slice entry 8 16) :: u64)
         in if address = 0 \<and> len = 0 then Inr acc' else reserve_map_loop dtb tot (cursor + 16) acc'))"
  by pat_completeness auto
termination
  by (relation "measure (\<lambda>(dtb, tot, cursor, acc). tot - cursor)") auto

declare reserve_map_loop.simps [simp del]

definition reserve_map :: "bytes \<Rightarrow> fdt_header \<Rightarrow> bytes io" where
  "reserve_map dtb header = reserve_map_loop dtb (totalsize header) (off_mem_rsvmap header) []"

function reserve_map_ranges_loop :: "bytes \<Rightarrow> nat \<Rightarrow> nat \<Rightarrow> (u64 \<times> u64) list \<Rightarrow> (u64 \<times> u64) list io" where
  "reserve_map_ranges_loop dtb tot cursor ranges =
     (if \<not> (cursor + 16 < usize_limit \<and> cursor + 16 \<le> tot)
      then invalid_data ''DTB reserve map is unterminated''
      else
        (let address = (from_be_bytes (slice dtb cursor (cursor + 8)) :: u64);
             len = (from_be_bytes (slice dtb (cursor + 8) (cursor + 16)) :: u64)
         in if address = 0 \<and> len = 0 then Inr ranges
            else if len = 0 then reserve_map_ranges_loop dtb tot (cursor + 16) ranges
            else (case checked_add address len of
                    None \<Rightarrow> invalid_data ''DTB reserve map range overflows u64''
                  | Some e \<Rightarrow> reserve_map_ranges_loop dtb tot (cursor + 16) (ranges @ [(address, e)]))))"
  by pat_completeness auto
termination
  by (relation "measure (\<lambda>(dtb, tot, cursor, ranges). tot - cursor)") auto

declare reserve_map_ranges_loop.simps [simp del]

definition reserve_map_ranges :: "bytes \<Rightarrow> fdt_header \<Rightarrow> (u64 \<times> u64) list io" where
  "reserve_map_ranges dtb header = reserve_map_ranges_loop dtb (totalsize header) (off_mem_rsvmap header) []"

lemma reserve_map_loop_code [code]:
  "reserve_map_loop dtb tot cursor acc =
     (if \<not> (int cursor + 16 < 18446744073709551616 \<and> cursor + 16 \<le> tot)
      then invalid_data ''DTB reserve map is unterminated''
      else
        (let entry = slice dtb cursor (cursor + 16);
             acc' = acc @ entry;
             address = (from_be_bytes (slice entry 0 8) :: u64);
             len = (from_be_bytes (slice entry 8 16) :: u64)
         in if address = 0 \<and> len = 0 then Inr acc' else reserve_map_loop dtb tot (cursor + 16) acc'))"
  by (subst reserve_map_loop.simps) (simp add: usize_limit_def Let_def flip: of_nat_less_iff)

lemma reserve_map_ranges_loop_code [code]:
  "reserve_map_ranges_loop dtb tot cursor ranges =
     (if \<not> (int cursor + 16 < 18446744073709551616 \<and> cursor + 16 \<le> tot)
      then invalid_data ''DTB reserve map is unterminated''
      else
        (let address = (from_be_bytes (slice dtb cursor (cursor + 8)) :: u64);
             len = (from_be_bytes (slice dtb (cursor + 8) (cursor + 16)) :: u64)
         in if address = 0 \<and> len = 0 then Inr ranges
            else if len = 0 then reserve_map_ranges_loop dtb tot (cursor + 16) ranges
            else (case checked_add address len of
                    None \<Rightarrow> invalid_data ''DTB reserve map range overflows u64''
                  | Some e \<Rightarrow> reserve_map_ranges_loop dtb tot (cursor + 16) (ranges @ [(address, e)]))))"
  by (subst reserve_map_ranges_loop.simps) (simp add: usize_limit_def Let_def flip: of_nat_less_iff)

end
