(* ===== verification/FdtStrings.thy ===== *)
theory FdtStrings
  imports Fdt
begin

text \<open>
  The strings block of a device tree: \<open>string_at\<close> reads the NUL-terminated name at an offset,
  \<open>ensure_string\<close> finds a name or appends it. The interface \<open>string_table\<close> states what the
  writers of trees rely on.
\<close>

definition string_at :: "bytes \<Rightarrow> u32 \<Rightarrow> bytes option" where
  "string_at strings offset =
     (let start = unat offset in
      if length strings \<le> start then None
      else map_option (\<lambda>e. slice strings start (start + e)) (position (\<lambda>b. b = 0) (drop start strings)))"

text \<open>The search loop of \<open>ensure_string\<close>: the offset of an existing entry equal to \<open>name\<close>.\<close>

function find_entry_from :: "bytes \<Rightarrow> bytes \<Rightarrow> nat \<Rightarrow> nat option" where
  "find_entry_from strings name cursor =
     (if cursor < length strings then
        (case position (\<lambda>b. b = 0) (drop cursor strings) of
           None \<Rightarrow> None
         | Some relative_end \<Rightarrow>
             if slice strings cursor (cursor + relative_end) = name then Some cursor
             else find_entry_from strings name (cursor + relative_end + 1))
      else None)"
  by pat_completeness auto
termination
  by (relation "measure (\<lambda>(strings, name, cursor). length strings - cursor)") auto

declare find_entry_from.simps [simp del]

definition ensure_string :: "bytes \<Rightarrow> bytes \<Rightarrow> (bytes \<times> u32) io" where
  "ensure_string strings name =
     (case find_entry_from strings name 0 of
        Some cursor \<Rightarrow> bind_io (totalsize_u32 cursor ''DTB string offset'') (\<lambda>o'. Inr (strings, o'))
      | None \<Rightarrow>
          bind_io (totalsize_u32 (length strings) ''DTB string offset'') (\<lambda>o'. Inr (strings @ name @ [0], o')))"

lemma string_at_Some:
  "string_at strings off = Some name \<longleftrightarrow>
     (\<exists>pre post. strings = pre @ name @ 0 # post \<and> length pre = unat off \<and> 0 \<notin> set name)"
proof
  assume "string_at strings off = Some name"
  then obtain e where off: "unat off < length strings"
    and e: "position (\<lambda>b. b = 0) (drop (unat off) strings) = Some e"
    and name: "name = slice strings (unat off) (unat off + e)"
    by (auto simp: string_at_def Let_def split: if_splits)
  have e': "e < length (drop (unat off) strings)" "drop (unat off) strings ! e = 0"
    "\<forall>j < e. drop (unat off) strings ! j \<noteq> 0"
    using e by (auto simp: position_Some)
  have "drop (unat off) strings = name @ 0 # drop (Suc e) (drop (unat off) strings)"
    using e' name by (metis add_diff_cancel_left' id_take_nth_drop slice_def)
  then have "strings = take (unat off) strings @ name @ 0 # drop (Suc e) (drop (unat off) strings)"
    by (metis append_take_drop_id)
  moreover have "0 \<notin> set name"
    using e' name by (auto simp: slice_def in_set_conv_nth)
  moreover have "length (take (unat off) strings) = unat off" using off by simp
  ultimately show "\<exists>pre post. strings = pre @ name @ 0 # post \<and> length pre = unat off \<and> 0 \<notin> set name"
    by blast
next
  assume "\<exists>pre post. strings = pre @ name @ 0 # post \<and> length pre = unat off \<and> 0 \<notin> set name"
  then obtain pre post where s: "strings = pre @ name @ 0 # post" "length pre = unat off" "0 \<notin> set name"
    by blast
  then have "position (\<lambda>b. b = 0) (drop (unat off) strings) = Some (length name)"
    using position_append_first [of name "\<lambda>b. b = 0" 0 post] by auto
  moreover have "unat off < length strings"
    using s by (metis add_less_cancel_left length_append length_greater_0_conv append_is_Nil_conv add.right_neutral list.distinct(1))
  ultimately show "string_at strings off = Some name"
    using s by (simp add: string_at_def slice_exact)
qed

lemma find_entry_from_Some:
  "find_entry_from strings name cursor = Some k \<Longrightarrow>
   cursor \<le> k \<and> k < length strings \<and>
   (\<exists>e. position (\<lambda>b. b = 0) (drop k strings) = Some e \<and> slice strings k (k + e) = name)"
proof (induction strings name cursor rule: find_entry_from.induct)
  case (1 strings name cursor)
  show ?case
  proof (cases "slice strings cursor (cursor + the (position (\<lambda>b. b = 0) (drop cursor strings))) = name")
    case True
    then show ?thesis
      using "1.prems" by (auto simp: find_entry_from.simps [of _ _ cursor] split: if_splits option.splits)
  next
    case False
    then show ?thesis
      using "1.prems" "1.IH" by (auto simp: find_entry_from.simps [of _ _ cursor] split: if_splits option.splits)
  qed
qed

lemma ensure_string_at:
  assumes "ensure_string strings name = Inr (strings', off)" and "0 \<notin> set name"
  shows "string_at strings' off = Some name"
proof (cases "find_entry_from strings name 0")
  case None
  then have "strings' = strings @ name @ [0]" "length strings < 2 ^ 32" "off = of_nat (length strings)"
    using assms by (auto simp: ensure_string_def)
  then show ?thesis
    using assms(2) unfolding string_at_Some
    by (intro exI [of _ strings] exI [of _ "[]"]) (simp add: unat_of_nat_u32)
next
  case (Some k)
  then have k: "strings' = strings" "k < 2 ^ 32" "off = of_nat k"
    using assms by (auto simp: ensure_string_def)
  then have "unat off = k" by (simp add: unat_of_nat_u32)
  then show ?thesis
    using find_entry_from_Some [OF Some] k(1) by (auto simp: string_at_def Let_def)
qed

lemma string_at_append: "string_at strings off = Some name \<Longrightarrow> string_at (strings @ suf) off = Some name"
  by (fastforce simp: string_at_Some)

lemma ensure_string_extends:
  "ensure_string strings name = Inr (strings', off) \<Longrightarrow> \<exists>suf. strings' = strings @ suf"
  by (auto simp: ensure_string_def split: option.splits)

section \<open>The interface of the strings block\<close>

text \<open>
  Interning a name yields an offset that reads back as the name, and keeps every name that was
  readable before. Whole lists of names can then be interned one after the other.
\<close>

locale string_table =
  fixes intern :: "'t \<Rightarrow> 'n \<Rightarrow> ('t \<times> 'k) io"
    and at :: "'t \<Rightarrow> 'k \<Rightarrow> 'n option"
    and name_ok :: "'n \<Rightarrow> bool"
  assumes intern_at: "intern t n = Inr (t', k) \<Longrightarrow> name_ok n \<Longrightarrow> at t' k = Some n"
    and intern_keeps: "intern t n = Inr (t', k) \<Longrightarrow> at t k' = Some m \<Longrightarrow> at t' k' = Some m"
begin

primrec intern_all :: "'t \<Rightarrow> 'n list \<Rightarrow> ('t \<times> 'k list) io" where
  "intern_all t [] = Inr (t, [])"
| "intern_all t (n # ns) =
     bind_io (intern t n) (\<lambda>(t', k). bind_io (intern_all t' ns) (\<lambda>(t'', ks). Inr (t'', k # ks)))"

lemma intern_all_keeps: "intern_all t ns = Inr (t', ks) \<Longrightarrow> at t k' = Some m \<Longrightarrow> at t' k' = Some m"
  by (induction ns arbitrary: t ks) (fastforce dest: intern_keeps)+

lemma intern_all_at:
  "intern_all t ns = Inr (t', ks) \<Longrightarrow> \<forall>n \<in> set ns. name_ok n \<Longrightarrow> map (at t') ks = map Some ns"
proof (induction ns arbitrary: t ks)
  case Nil
  then show ?case by auto
next
  case (Cons n ns)
  then obtain t1 k ks' where "intern t n = Inr (t1, k)" "intern_all t1 ns = Inr (t', ks')" "ks = k # ks'"
    by auto
  then show ?case
    using Cons.IH [of t1 ks'] Cons.prems(2) intern_at [of t n t1 k] intern_all_keeps [of t1 ns t' ks' k n]
    by simp
qed

lemma interned_pair:
  assumes "intern t n = Inr (t1, k)" and "intern t1 n' = Inr (t2, k')" and "name_ok n" and "name_ok n'"
  shows "at t2 k = Some n \<and> at t2 k' = Some n'"
  using assms intern_at intern_keeps by blast

end

interpretation st: string_table ensure_string string_at "\<lambda>name. 0 \<notin> set name"
  by unfold_locales
    (auto simp: ensure_string_at dest!: ensure_string_extends intro: string_at_append)

end
