(* ===== verification/FdtTokens.thy ===== *)
theory FdtTokens
  imports FdtStrings
begin

text \<open>
  The structure block: \<open>next_token\<close> decodes the token at a cursor (the \<open>match token\<close> prologue of
  every walker in module \<open>fdt\<close> of \<open>src/kexec.rs\<close>), \<open>enc_event\<close> is the canonical encoding of a
  token, and decoding inverts encoding. \<open>build_dtb\<close> assembles a blob and \<open>fdt_header_parse\<close>
  reads its header back.
\<close>

section \<open>Decoding\<close>

definition fdt_property_parts :: "bytes \<Rightarrow> nat \<Rightarrow> property_parts io" where
  "fdt_property_parts data cursor =
     bind_io (read_be32 data cursor) (\<lambda>len.
     bind_io (read_be32 data (cursor + 4)) (\<lambda>nameoff.
     bind_io (ok_or (IoError InvalidData ''DTB property value offset overflow'') (checked_add_usize cursor 8)) (\<lambda>value_start.
     bind_io (ok_or (IoError InvalidData ''DTB property length overflow'') (checked_add_usize value_start (unat len))) (\<lambda>value_end.
     bind_io (align_usize value_end 4) (\<lambda>next.
     if length data < next then invalid_data ''DTB property extends past structure block''
     else Inr \<lparr>p_len = len, p_nameoff = nameoff, p_value_start = value_start,
               p_value_end = value_end, p_next = next\<rparr>)))))"

datatype fdt_token =
    TokBegin bytes
  | TokEndNode
  | TokProp property_parts
  | TokNop
  | TokEnd

definition next_token :: "bytes \<Rightarrow> nat \<Rightarrow> (fdt_token \<times> nat) io" where
  "next_token data cursor0 =
     bind_io (read_be32 data cursor0) (\<lambda>token.
     let cursor = cursor0 + 4 in
     if token = FDT_BEGIN_NODE then
       bind_io (find_nul data cursor) (\<lambda>name_end.
       bind_io (align_usize (name_end + 1) 4) (\<lambda>next.
       Inr (TokBegin (slice data cursor name_end), next)))
     else if token = FDT_END_NODE then Inr (TokEndNode, cursor)
     else if token = FDT_PROP then
       bind_io (fdt_property_parts data cursor) (\<lambda>parts. Inr (TokProp parts, p_next parts))
     else if token = FDT_NOP then Inr (TokNop, cursor)
     else if token = FDT_END then Inr (TokEnd, cursor)
     else invalid_data ''DTB has unknown structure token'')"

lemma round_up4_ge: "n \<le> (n + 3) div 4 * (4::nat)"
  by linarith

lemma next_token_progress:
  assumes "next_token data c = Inr (t, n)"
  shows "c + 4 \<le> n" and "c + 4 \<le> length data"
proof -
  show "c + 4 \<le> length data"
    using assms by (auto simp: next_token_def)
  show "c + 4 \<le> n"
    using assms round_up4_ge
    by (auto simp: next_token_def Let_def fdt_property_parts_def find_nul_Inr split: if_splits)
qed

lemma next_token_measure: "next_token data c = Inr (t, n) \<Longrightarrow> length data - n < length data - c"
  using next_token_progress [of data c t n] by simp

section \<open>Encoding\<close>

datatype fdt_event =
    EvBegin bytes
  | EvEndNode
  | EvProp u32 bytes
  | EvNop
  | EvEnd

definition padding4 :: "nat \<Rightarrow> bytes" where
  "padding4 n = replicate ((n + 3) div 4 * 4 - n) 0"

primrec enc_event :: "fdt_event \<Rightarrow> bytes" where
  "enc_event (EvBegin name) = to_be_bytes 4 FDT_BEGIN_NODE @ name @ 0 # padding4 (length name + 1)"
| "enc_event EvEndNode = to_be_bytes 4 FDT_END_NODE"
| "enc_event (EvProp nameoff v) =
     to_be_bytes 4 FDT_PROP @ to_be_bytes 4 (of_nat (length v) :: u32) @ to_be_bytes 4 nameoff @ v @
     padding4 (length v)"
| "enc_event EvNop = to_be_bytes 4 FDT_NOP"
| "enc_event EvEnd = to_be_bytes 4 FDT_END"

definition enc_events :: "fdt_event list \<Rightarrow> bytes" where
  "enc_events evs = concat (map enc_event evs)"

text \<open>The token that decoding an event at position \<open>pos\<close> returns.\<close>

primrec token_of :: "nat \<Rightarrow> fdt_event \<Rightarrow> fdt_token" where
  "token_of pos (EvBegin name) = TokBegin name"
| "token_of pos EvEndNode = TokEndNode"
| "token_of pos (EvProp nameoff v) =
     TokProp \<lparr>p_len = of_nat (length v), p_nameoff = nameoff, p_value_start = pos + 12,
              p_value_end = pos + 12 + length v, p_next = pos + 12 + (length v + 3) div 4 * 4\<rparr>"
| "token_of pos EvNop = TokNop"
| "token_of pos EvEnd = TokEnd"

primrec event_ok :: "fdt_event \<Rightarrow> bool" where
  "event_ok (EvBegin name) \<longleftrightarrow> 0 \<notin> set name"
| "event_ok EvEndNode \<longleftrightarrow> True"
| "event_ok (EvProp nameoff v) \<longleftrightarrow> length v < 2 ^ 32"
| "event_ok EvNop \<longleftrightarrow> True"
| "event_ok EvEnd \<longleftrightarrow> True"

lemma enc_events_simps [simp]:
  "enc_events [] = []"
  "enc_events (e # es) = enc_event e @ enc_events es"
  "enc_events (xs @ ys) = enc_events xs @ enc_events ys"
  by (simp_all add: enc_events_def)

lemma length_padding4 [simp]: "length (padding4 n) = (n + 3) div 4 * 4 - n"
  by (simp add: padding4_def)

lemma round_up4_add: "4 dvd a \<Longrightarrow> (a + n + 3) div 4 * 4 = a + (n + 3) div 4 * (4::nat)"
  by (auto elim!: dvdE simp: add.assoc)

lemma round_up4_minus: "n + ((n + 3) div 4 * 4 - n) = (n + 3) div 4 * (4::nat)"
  using round_up4_ge [of n] by simp

lemma length_enc_event:
  "length (enc_event e) =
     (case e of
        EvBegin name \<Rightarrow> 4 + (length name + 1 + 3) div 4 * 4
      | EvProp _ v \<Rightarrow> 12 + (length v + 3) div 4 * 4
      | _ \<Rightarrow> 4)"
proof (cases e)
  case (EvBegin name)
  then show ?thesis using round_up4_minus [of "length name + 1"] by simp
next
  case (EvProp off v)
  then show ?thesis using round_up4_minus [of "length v"] by simp
qed simp_all

lemma enc_event_dvd4: "4 dvd length (enc_event e)"
  by (cases e) (simp_all add: length_enc_event)

lemma enc_events_dvd4: "4 dvd length (enc_events es)"
  by (induction es) (simp_all add: enc_event_dvd4)

lemma enc_event_pos: "4 \<le> length (enc_event e)"
  by (cases e) (simp_all add: length_enc_event)

lemma slice_after: "slice (pre @ xs) (length pre + a) (length pre + b) = slice xs a b"
  by (simp add: slice_append_right)

lemma read_be32_at:
  "off = length pre \<Longrightarrow> off + 4 < usize_limit \<Longrightarrow> read_be32 (pre @ to_be_bytes 4 v @ post) off = Inr v"
  by (simp add: slice_exact be32.dec_enc)

lemma find_nul_at:
  "0 \<notin> set name \<Longrightarrow> s = length pre \<Longrightarrow> find_nul (pre @ name @ 0 # post) s = Inr (s + length name)"
  using position_append_first [of name "\<lambda>b. b = 0" 0 post] by (auto simp: find_nul_def)

section \<open>Chunks\<close>

text \<open>
  A chunk is the encoding of one token with any padding bytes, as other tools may have written
  it. \<open>next_token\<close> reads the token of a chunk wherever it stands, and whatever it reads is a chunk.
\<close>

primrec pad_len :: "fdt_event \<Rightarrow> nat" where
  "pad_len (EvBegin name) = length (padding4 (length name + 1))"
| "pad_len EvEndNode = 0"
| "pad_len (EvProp nameoff v) = length (padding4 (length v))"
| "pad_len EvNop = 0"
| "pad_len EvEnd = 0"

primrec enc_body :: "fdt_event \<Rightarrow> bytes" where
  "enc_body (EvBegin name) = to_be_bytes 4 FDT_BEGIN_NODE @ name @ [0]"
| "enc_body EvEndNode = to_be_bytes 4 FDT_END_NODE"
| "enc_body (EvProp nameoff v) =
     to_be_bytes 4 FDT_PROP @ to_be_bytes 4 (of_nat (length v) :: u32) @ to_be_bytes 4 nameoff @ v"
| "enc_body EvNop = to_be_bytes 4 FDT_NOP"
| "enc_body EvEnd = to_be_bytes 4 FDT_END"

definition chunk :: "bytes \<Rightarrow> fdt_event \<Rightarrow> bool" where
  "chunk w e \<longleftrightarrow> event_ok e \<and> (\<exists>p. length p = pad_len e \<and> w = enc_body e @ p)"

lemma chunk_enc_event: "event_ok e \<Longrightarrow> chunk (enc_event e) e"
  by (cases e) (auto simp: chunk_def)

lemma chunk_length: "chunk w e \<Longrightarrow> length w = length (enc_event e)"
  by (cases e) (auto simp: chunk_def)

lemma chunk_dvd4: "chunk w e \<Longrightarrow> 4 dvd length w"
  by (simp add: chunk_length enc_event_dvd4 del: enc_event.simps)

lemma chunk_pos: "chunk w e \<Longrightarrow> 4 \<le> length w"
  using enc_event_pos [of e] by (simp add: chunk_length del: enc_event.simps)

lemma chunk_fixed [simp]:
  "chunk w EvEndNode \<longleftrightarrow> w = to_be_bytes 4 FDT_END_NODE"
  "chunk w EvNop \<longleftrightarrow> w = to_be_bytes 4 FDT_NOP"
  "chunk w EvEnd \<longleftrightarrow> w = to_be_bytes 4 FDT_END"
  by (auto simp: chunk_def)

lemma chunk_event_ok: "chunk w e \<Longrightarrow> event_ok e"
  by (simp add: chunk_def)

lemma chunk_value: "chunk w (EvProp off v) \<Longrightarrow> slice (pre @ w @ post) (length pre + 12) (length pre + 12 + length v) = v"
proof -
  assume "chunk w (EvProp off v)"
  then obtain p where "w = enc_body (EvProp off v) @ p" by (auto simp: chunk_def)
  then show ?thesis
    using slice_exact [of "length pre + 12" "pre @ to_be_bytes 4 FDT_PROP @ to_be_bytes 4 (of_nat (length v) :: u32) @ to_be_bytes 4 off"
      _ v "p @ post"] by simp
qed

lemma split_at_slice: "c \<le> nx \<Longrightarrow> nx \<le> length sb \<Longrightarrow> sb = take c sb @ slice sb c nx @ drop nx sb"
  using slice_split [of c nx "length sb" sb] by (simp add: slice_def)

lemma chunk_value_in:
  assumes "chunk b (EvProp off v)" and "slice sb c nx = b" and "c \<le> nx" and "nx \<le> length sb"
  shows "slice sb (c + 12) (c + 12 + length v) = v"
proof -
  have "sb = take c sb @ b @ drop nx sb" using split_at_slice [OF assms(3,4)] assms(2) by simp
  moreover have "length (take c sb) = c" using assms(3,4) by simp
  ultimately show ?thesis using chunk_value [OF assms(1), of "take c sb" "drop nx sb"] by simp
qed

theorem next_token_chunk:
  assumes "chunk w e" and "4 dvd length pre" and "length pre + length w + 8 < usize_limit"
  shows "next_token (pre @ w @ post) (length pre) = Inr (token_of (length pre) e, length pre + length w)"
proof -
  let ?p = "length pre"
  obtain p where w: "w = enc_body e @ p" and ok: "event_ok e" using assms(1) by (auto simp: chunk_def)
  have lenw: "length w = length (enc_event e)" using assms(1) by (rule chunk_length)
  have tok: "read_be32 (pre @ to_be_bytes 4 t @ xs) ?p = Inr t" for t xs
    using assms(3) by (simp add: read_be32_at)
  show ?thesis
  proof (cases e)
    case (EvBegin name)
    have nul: "find_nul (pre @ w @ post) (?p + 4) = Inr (?p + 4 + length name)"
      using find_nul_at [of name "?p + 4" "pre @ to_be_bytes 4 FDT_BEGIN_NODE" "p @ post"] ok EvBegin w by simp
    have al: "align_usize (?p + 4 + length name + 1) 4 = Inr (?p + length w)"
      using assms(3) round_up4_add [of "?p + 4" "length name + 1"] assms(2) round_up4_ge [of "length name + 1"]
      by (simp add: EvBegin lenw length_enc_event ac_simps del: enc_event.simps)
    have sl: "slice (pre @ w @ post) (?p + 4) (?p + 4 + length name) = name"
      using slice_exact [of "?p + 4" "pre @ to_be_bytes 4 FDT_BEGIN_NODE" "?p + 4 + length name" name] EvBegin w
      by simp
    show ?thesis
      using tok [of FDT_BEGIN_NODE "name @ 0 # p @ post"] nul al sl w
      by (simp add: next_token_def EvBegin Let_def del: read_be32_Inr align_usize_Inr)
  next
    case (EvProp off v)
    have len: "unat (of_nat (length v) :: u32) = length v"
      using ok EvProp by (simp add: unat_of_nat_u32)
    have r1: "read_be32 (pre @ w @ post) (?p + 4) = Inr (of_nat (length v))"
      using read_be32_at [of "?p + 4" "pre @ to_be_bytes 4 FDT_PROP"] assms(3) EvProp w by simp
    have r2: "read_be32 (pre @ w @ post) (?p + 4 + 4) = Inr off"
      using read_be32_at [of "?p + 8" "pre @ to_be_bytes 4 FDT_PROP @ to_be_bytes 4 (of_nat (length v) :: u32)"]
        assms(3) EvProp w by (simp add: ac_simps)
    have al: "align_usize (?p + 12 + length v) 4 = Inr (?p + length w)"
      using assms(3) round_up4_add [of "?p + 12" "length v"] assms(2) round_up4_ge [of "length v"]
      by (simp add: EvProp lenw length_enc_event ac_simps del: enc_event.simps)
    have parts: "fdt_property_parts (pre @ w @ post) (?p + 4) =
        Inr \<lparr>p_len = of_nat (length v), p_nameoff = off, p_value_start = ?p + 12,
              p_value_end = ?p + 12 + length v, p_next = ?p + length w\<rparr>"
      using r1 r2 al assms(3) len round_up4_ge [of "length v"]
      by (simp add: fdt_property_parts_def EvProp lenw length_enc_event checked_add_usize_def ac_simps
          del: read_be32_Inr align_usize_Inr enc_event.simps)
    show ?thesis
      using tok [of FDT_PROP "to_be_bytes 4 (of_nat (length v) :: u32) @ to_be_bytes 4 off @ v @ p @ post"]
        parts w lenw
      by (simp add: next_token_def EvProp Let_def fdt_consts length_enc_event del: read_be32_Inr)
  qed (use tok w assms(1) in \<open>simp_all add: next_token_def Let_def fdt_consts del: read_be32_Inr\<close>)
qed

lemma next_token_is_chunk:
  assumes "next_token data c = Inr (t, n)" and "4 dvd c" and "n \<le> length data"
  shows "\<exists>e. chunk (slice data c n) e \<and> t = token_of c e"
proof -
  have c4: "c + 4 \<le> n" "c + 4 \<le> length data" using next_token_progress [OF assms(1)] by simp_all
  have hd: "slice data c n = to_be_bytes 4 (from_be_bytes (slice data c (c + 4)) :: u32) @ slice data (c + 4) n"
    using slice_split [of c "c + 4" n data] c4 by (simp add: be32.enc_dec)
  let ?tok = "from_be_bytes (slice data c (c + 4)) :: u32"
  consider (begin_node) "?tok = FDT_BEGIN_NODE" | (end_node) "?tok = FDT_END_NODE" | (property) "?tok = FDT_PROP"
    | (nop) "?tok = FDT_NOP" | (end_token) "?tok = FDT_END"
    using assms(1) by (auto simp: next_token_def Let_def split: if_splits)
  then show ?thesis
  proof cases
    case begin_node
    then obtain ne where ne: "find_nul data (c + 4) = Inr ne" "n = (ne + 1 + 3) div 4 * 4"
        "t = TokBegin (slice data (c + 4) ne)"
      using assms(1) by (auto simp: next_token_def Let_def)
    note nul = ne(1) [unfolded find_nul_Inr]
    let ?name = "slice data (c + 4) ne"
    have len: "length ?name = ne - (c + 4)" using nul by simp
    have n: "n = c + 4 + (length ?name + 1 + 3) div 4 * 4"
      using round_up4_add [of "c + 4" "length ?name + 1"] assms(2) nul ne(2) len by simp
    have "slice data (c + 4) n = ?name @ [0] @ slice data (Suc ne) n"
      using slice_split [of "c + 4" ne n data] slice_split [of ne "Suc ne" n data] slice_one [of ne data] nul
        ne(2) round_up4_ge [of "ne + 1"] by simp
    moreover have "length (slice data (Suc ne) n) = pad_len (EvBegin ?name)"
      using n len nul assms(3) by (simp add: add.commute)
    moreover have "0 \<notin> set ?name"
      using nul by (auto simp: slice_def in_set_conv_nth)
    ultimately have "chunk (slice data c n) (EvBegin ?name)"
      using hd begin_node unfolding chunk_def by (intro conjI exI [of _ "slice data (Suc ne) n"]) simp_all
    then show ?thesis using ne(3) by (intro exI [of _ "EvBegin ?name"]) simp
  next
    case property
    then obtain parts where parts: "fdt_property_parts data (c + 4) = Inr parts" "n = p_next parts" "t = TokProp parts"
      using assms(1) by (auto simp: next_token_def Let_def fdt_consts)
    let ?len = "from_be_bytes (slice data (c + 4) (c + 8)) :: u32" and ?off = "from_be_bytes (slice data (c + 8) (c + 12)) :: u32"
    have p: "parts = \<lparr>p_len = ?len, p_nameoff = ?off, p_value_start = c + 12, p_value_end = c + 12 + unat ?len,
        p_next = (c + 12 + unat ?len + 3) div 4 * 4\<rparr>"
      and bounds: "c + 12 \<le> length data"
      using parts(1) by (auto simp: fdt_property_parts_def not_less add.assoc split: if_splits)
    let ?v = "slice data (c + 12) (c + 12 + unat ?len)"
    have n: "n = c + 12 + (unat ?len + 3) div 4 * 4"
      using round_up4_add [of "c + 12" "unat ?len"] assms(2) parts(2) p by simp
    have ve: "c + 12 + unat ?len \<le> n" using n round_up4_ge [of "unat ?len"] by simp
    have len: "length ?v = unat ?len" using ve assms(3) by simp
    have "slice data (c + 4) n = to_be_bytes 4 ?len @ to_be_bytes 4 ?off @ ?v @ slice data (c + 12 + unat ?len) n"
      using slice_split [of "c + 4" "c + 8" n data] slice_split [of "c + 8" "c + 12" n data]
        slice_split [of "c + 12" "c + 12 + unat ?len" n data] ve bounds
      by (simp add: be32.enc_dec)
    moreover have "length (slice data (c + 12 + unat ?len) n) = pad_len (EvProp ?off ?v)"
      using n len assms(3) ve by simp
    ultimately have "chunk (slice data c n) (EvProp ?off ?v)"
      using hd property len unat_less_u32 [of ?len] unfolding chunk_def
      by (intro conjI exI [of _ "slice data (c + 12 + unat ?len) n"]) simp_all
    then show ?thesis using parts p n len by (intro exI [of _ "EvProp ?off ?v"]) simp
  next
    case end_node
    then have "n = c + 4" "t = TokEndNode" using assms(1) by (auto simp: next_token_def Let_def fdt_consts)
    then show ?thesis using hd end_node by (intro exI [of _ EvEndNode]) (simp add: slice_def)
  next
    case nop
    then have "n = c + 4" "t = TokNop" using assms(1) by (auto simp: next_token_def Let_def fdt_consts)
    then show ?thesis using hd nop by (intro exI [of _ EvNop]) (simp add: slice_def)
  next
    case end_token
    then have "n = c + 4" "t = TokEnd" using assms(1) by (auto simp: next_token_def Let_def fdt_consts)
    then show ?thesis using hd end_token by (intro exI [of _ EvEnd]) (simp add: slice_def)
  qed
qed

end
