(* ===== verification/FdtBuild.thy ===== *)
theory FdtBuild
  imports FdtTokens
begin

text \<open>
  Laying a device tree blob out, \<open>build_dtb\<close> of \<open>src/kexec.rs\<close>, and reading it back: the header
  of a built blob parses to the offsets of its blocks, and the structure, strings and reserve map
  blocks that a reader then slices out are the ones it was built from.
\<close>

definition fdt_write_begin_node :: "bytes \<Rightarrow> bytes \<Rightarrow> bytes" where
  "fdt_write_begin_node output name = pad_to (output @ to_be_bytes 4 FDT_BEGIN_NODE @ name @ [0]) 4"

definition fdt_write_prop :: "bytes \<Rightarrow> u32 \<Rightarrow> bytes \<Rightarrow> bytes" where
  "fdt_write_prop output nameoff v =
     pad_to (output @ to_be_bytes 4 FDT_PROP @ to_be_bytes 4 (of_nat (length v) :: u32) @
             to_be_bytes 4 nameoff @ v) 4"

definition write_be32 :: "bytes \<Rightarrow> u32 \<Rightarrow> bytes" where
  "write_be32 output v = output @ to_be_bytes 4 v"

lemma pad_to_aligned: "4 dvd length out \<Longrightarrow> pad_to (out @ xs) 4 = out @ xs @ padding4 (length xs)"
proof -
  assume "4 dvd length out"
  then have "(length (out @ xs) + 4 - 1) div 4 * 4 - length (out @ xs) = (length xs + 3) div 4 * 4 - length xs"
    using round_up4_add [of "length out" "length xs"] by (simp add: ac_simps)
  then show ?thesis by (simp only: pad_to_def padding4_def append_assoc)
qed

lemma padding4_shift: "padding4 (4 + n) = padding4 n"
  using round_up4_add [of 4 n] by (simp add: padding4_def)

lemma fdt_write_begin_node_enc:
  "4 dvd length out \<Longrightarrow> fdt_write_begin_node out name = out @ enc_event (EvBegin name)"
  using padding4_shift [of "length name + 1"] by (simp add: fdt_write_begin_node_def pad_to_aligned)

lemma fdt_write_prop_enc:
  "4 dvd length out \<Longrightarrow> fdt_write_prop out off v = out @ enc_event (EvProp off v)"
  using padding4_shift [of "8 + length v"] padding4_shift [of "4 + length v"] padding4_shift [of "length v"]
  by (simp add: fdt_write_prop_def pad_to_aligned)

definition build_dtb :: "fdt_header \<Rightarrow> bytes \<Rightarrow> bytes \<Rightarrow> bytes \<Rightarrow> bytes io" where
  "build_dtb old_header rsvmap struct_block strings =
     (let output = pad_to (replicate 40 0 @ rsvmap) 4;
          off_struct = length output;
          output = output @ struct_block;
          size_struct = length struct_block;
          off_strings = length output;
          output = output @ strings;
          tot = length output in
      bind_io (write_be32_at output 0 FDT_MAGIC) (\<lambda>output.
      bind_io (totalsize_u32 tot ''DTB totalsize'') (\<lambda>v.
      bind_io (write_be32_at output 4 v) (\<lambda>output.
      bind_io (totalsize_u32 off_struct ''DTB structure offset'') (\<lambda>v.
      bind_io (write_be32_at output 8 v) (\<lambda>output.
      bind_io (totalsize_u32 off_strings ''DTB strings offset'') (\<lambda>v.
      bind_io (write_be32_at output 12 v) (\<lambda>output.
      bind_io (write_be32_at output 16 40) (\<lambda>output.
      bind_io (write_be32_at output 20 (version old_header)) (\<lambda>output.
      bind_io (write_be32_at output 24 (last_comp_version old_header)) (\<lambda>output.
      bind_io (write_be32_at output 28 (boot_cpuid_phys old_header)) (\<lambda>output.
      bind_io (totalsize_u32 (length strings) ''DTB strings size'') (\<lambda>v.
      bind_io (write_be32_at output 32 v) (\<lambda>output.
      bind_io (totalsize_u32 size_struct ''DTB structure size'') (\<lambda>v.
      write_be32_at output 36 v)))))))))))))))"

text \<open>The ten header words, in order.\<close>

definition header_words :: "fdt_header \<Rightarrow> u32 list" where
  "header_words h =
     [FDT_MAGIC, of_nat (totalsize h), of_nat (off_dt_struct h), of_nat (off_dt_strings h),
      of_nat (off_mem_rsvmap h), version h, last_comp_version h, boot_cpuid_phys h,
      of_nat (size_dt_strings h), of_nat (size_dt_struct h)]"

definition enc_words :: "u32 list \<Rightarrow> bytes" where
  "enc_words ws = concat (map (to_be_bytes 4) ws)"

lemma length_enc_words [simp]: "length (enc_words ws) = 4 * length ws"
  by (induction ws) (simp_all add: enc_words_def)

lemma enc_words_simps [simp]:
  "enc_words [] = []"
  "enc_words (w # ws) = to_be_bytes 4 w @ enc_words ws"
  "enc_words (us @ ws) = enc_words us @ enc_words ws"
  by (simp_all add: enc_words_def)

lemma write_next_word:
  assumes "off = 4 * length ws" and "4 * n + length rest < usize_limit" and "length ws + m = n" and "0 < m"
  shows "write_be32_at (enc_words ws @ replicate (4 * m) 0 @ rest) off v =
    Inr (enc_words (ws @ [v]) @ replicate (4 * (m - 1)) 0 @ rest)"
proof -
  obtain k where k: "m = Suc k" using assms(4) gr0_implies_Suc by blast
  have "replicate (4 * m) (0::u8) = replicate 4 0 @ replicate (4 * k) 0"
    by (simp add: k flip: replicate_add)
  then show ?thesis
    using assms k by (simp add: splice_def)
qed

lemma read_nth_word:
  assumes "i < length ws" and "4 * length ws + length rest < usize_limit" and "off = 4 * i"
  shows "read_be32 (enc_words ws @ rest) off = Inr (ws ! i)"
proof -
  have "enc_words ws = enc_words (take i ws) @ to_be_bytes 4 (ws ! i) @ enc_words (drop (Suc i) ws)"
    using assms(1) by (metis enc_words_simps(2,3) id_take_nth_drop)
  moreover have "off = length (enc_words (take i ws))"
    using assms by simp
  ultimately show ?thesis
    using read_be32_at [of off "enc_words (take i ws)" "ws ! i" "enc_words (drop (Suc i) ws) @ rest"] assms
    by simp
qed

text \<open>The header that \<open>build_dtb\<close> writes.\<close>

definition built_header :: "fdt_header \<Rightarrow> bytes \<Rightarrow> bytes \<Rightarrow> bytes \<Rightarrow> fdt_header" where
  "built_header old rsvmap struct_block strings =
     (let off_struct = (40 + length rsvmap + 3) div 4 * 4 in
      \<lparr>totalsize = off_struct + length struct_block + length strings,
       off_dt_struct = off_struct,
       off_dt_strings = off_struct + length struct_block,
       off_mem_rsvmap = 40,
       version = version old, last_comp_version = last_comp_version old,
       boot_cpuid_phys = boot_cpuid_phys old,
       size_dt_strings = length strings,
       size_dt_struct = length struct_block\<rparr>)"

lemma build_dtb_layout:
  assumes "totalsize (built_header old rm sb st) < 2 ^ 32"
  shows "build_dtb old rm sb st =
    Inr (enc_words (header_words (built_header old rm sb st)) @ rm @ padding4 (length rm) @ sb @ st)"
proof -
  let ?h = "built_header old rm sb st"
  let ?rest = "rm @ padding4 (length rm) @ sb @ st"
  have pad: "pad_to (replicate 40 0 @ rm) 4 = replicate 40 0 @ rm @ padding4 (length rm)"
    by (rule pad_to_aligned) simp
  have off: "40 + (length rm + (length (padding4 (length rm)))) = (40 + length rm + 3) div 4 * 4"
    using round_up4_minus [of "length rm"] round_up4_add [of 40 "length rm"] by simp
  have len: "40 + length ?rest = totalsize ?h"
    using off by (simp add: built_header_def Let_def)
  have lim: "4 * 10 + length ?rest < usize_limit"
    using len assms by (simp add: usize_limit_def)
  have small: "totalsize ?h < 2 ^ 32" "off_dt_struct ?h < 2 ^ 32" "off_dt_strings ?h < 2 ^ 32"
    "length st < 2 ^ 32" "length sb < 2 ^ 32"
    using assms by (simp_all add: built_header_def Let_def)
  note w = write_next_word [where rest = ?rest and n = 10, OF _ lim]
  have w0: "write_be32_at (replicate 40 0 @ ?rest) 0 v = Inr (enc_words [v] @ replicate 36 0 @ ?rest)" for v
    using w [of 0 "[]" 10 v] by simp
  have w1: "write_be32_at (enc_words [a] @ replicate 36 0 @ ?rest) 4 v =
      Inr (enc_words [a, v] @ replicate 32 0 @ ?rest)" for a v
    using w [of 4 "[a]" 9 v] by simp
  have w2: "write_be32_at (enc_words [a, b] @ replicate 32 0 @ ?rest) 8 v =
      Inr (enc_words [a, b, v] @ replicate 28 0 @ ?rest)" for a b v
    using w [of 8 "[a, b]" 8 v] by simp
  have w3: "write_be32_at (enc_words [a, b, c] @ replicate 28 0 @ ?rest) 12 v =
      Inr (enc_words [a, b, c, v] @ replicate 24 0 @ ?rest)" for a b c v
    using w [of 12 "[a, b, c]" 7 v] by simp
  have w4: "write_be32_at (enc_words [a, b, c, d] @ replicate 24 0 @ ?rest) 16 v =
      Inr (enc_words [a, b, c, d, v] @ replicate 20 0 @ ?rest)" for a b c d v
    using w [of 16 "[a, b, c, d]" 6 v] by simp
  have w5: "write_be32_at (enc_words [a, b, c, d, e] @ replicate 20 0 @ ?rest) 20 v =
      Inr (enc_words [a, b, c, d, e, v] @ replicate 16 0 @ ?rest)" for a b c d e v
    using w [of 20 "[a, b, c, d, e]" 5 v] by simp
  have w6: "write_be32_at (enc_words [a, b, c, d, e, f] @ replicate 16 0 @ ?rest) 24 v =
      Inr (enc_words [a, b, c, d, e, f, v] @ replicate 12 0 @ ?rest)" for a b c d e f v
    using w [of 24 "[a, b, c, d, e, f]" 4 v] by simp
  have w7: "write_be32_at (enc_words [a, b, c, d, e, f, g] @ replicate 12 0 @ ?rest) 28 v =
      Inr (enc_words [a, b, c, d, e, f, g, v] @ replicate 8 0 @ ?rest)" for a b c d e f g v
    using w [of 28 "[a, b, c, d, e, f, g]" 3 v] by simp
  have w8: "write_be32_at (enc_words [a, b, c, d, e, f, g, h] @ replicate 8 0 @ ?rest) 32 v =
      Inr (enc_words [a, b, c, d, e, f, g, h, v] @ replicate 4 0 @ ?rest)" for a b c d e f g h v
    using w [of 32 "[a, b, c, d, e, f, g, h]" 2 v] by simp
  have w9: "write_be32_at (enc_words [a, b, c, d, e, f, g, h, i] @ replicate 4 0 @ ?rest) 36 v =
      Inr (enc_words [a, b, c, d, e, f, g, h, i, v] @ ?rest)" for a b c d e f g h i v
    using w [of 36 "[a, b, c, d, e, f, g, h, i]" 1 v] by simp
  have offs: "length (replicate 40 0 @ rm @ padding4 (length rm)) = off_dt_struct ?h"
    "length ((replicate 40 0 @ rm @ padding4 (length rm)) @ sb) = off_dt_strings ?h"
    "length (((replicate 40 0 @ rm @ padding4 (length rm)) @ sb) @ st) = totalsize ?h"
    using off by (simp_all add: built_header_def Let_def)
  have tot: "totalsize_u32 n m = Inr (of_nat n)" if "n < 2 ^ 32" for n m
    using that by simp
  show ?thesis
    unfolding build_dtb_def Let_def pad offs
    by (simp only: append_assoc tot [OF small(1)] tot [OF small(2)] tot [OF small(3)] tot [OF small(4)]
        tot [OF small(5)] bind_io_simps w0 w1 w2 w3 w4 w5 w6 w7 w8 w9)
      (simp add: header_words_def built_header_def Let_def)
qed

lemma build_dtb_too_big:
  "2 ^ 32 \<le> totalsize (built_header old rm sb st) \<Longrightarrow> build_dtb old rm sb st \<noteq> Inr dtb"
proof
  assume big: "2 ^ 32 \<le> totalsize (built_header old rm sb st)" and run: "build_dtb old rm sb st = Inr dtb"
  have "length (((pad_to (replicate 40 0 @ rm) 4) @ sb) @ st) = totalsize (built_header old rm sb st)"
    using pad_to_aligned [of "replicate 40 0" rm] round_up4_minus [of "length rm"] round_up4_add [of 40 "length rm"]
    by (simp add: built_header_def Let_def)
  then show False using run big by (simp add: build_dtb_def Let_def)
qed

lemma build_dtb_Inr:
  "build_dtb old rm sb st = Inr dtb \<longleftrightarrow>
     totalsize (built_header old rm sb st) < 2 ^ 32 \<and>
     dtb = enc_words (header_words (built_header old rm sb st)) @ rm @ padding4 (length rm) @ sb @ st"
  using build_dtb_layout [of old rm sb st] build_dtb_too_big [of old rm sb st dtb]
  by (cases "totalsize (built_header old rm sb st) < 2 ^ 32") auto

lemma length_header_words [simp]: "length (header_words h) = 10"
  by (simp add: header_words_def)

lemma length_built:
  "length (enc_words (header_words (built_header old rm sb st)) @ rm @ padding4 (length rm) @ sb @ st) =
     totalsize (built_header old rm sb st)"
  using round_up4_minus [of "length rm"] round_up4_add [of 40 "length rm"]
  by (simp add: built_header_def Let_def)

lemma header_parse_built:
  assumes "build_dtb old rm sb st = Inr dtb" and "rm \<noteq> []"
  shows "fdt_header_parse dtb = Inr (built_header old rm sb st)"
proof -
  let ?h = "built_header old rm sb st"
  have dtb: "dtb = enc_words (header_words ?h) @ rm @ padding4 (length rm) @ sb @ st"
    and small: "totalsize ?h < 2 ^ 32"
    using assms(1) by (simp_all add: build_dtb_Inr)
  have len: "length dtb = totalsize ?h" unfolding dtb by (rule length_built)
  have rd: "read_be32 dtb off = Inr (header_words ?h ! i)" if "i < 10" "off = 4 * i" for i off
    unfolding dtb using that len small
    by (intro read_nth_word) (auto simp: dtb usize_limit_def)
  note r = rd [of 0 0] rd [of 1 4] rd [of 2 8] rd [of 3 12] rd [of 4 16] rd [of 5 20] rd [of 6 24]
    rd [of 7 28] rd [of 8 32] rd [of 9 36]
  have fields: "unat (of_nat n :: u32) = n" if "n \<le> totalsize ?h" for n
    using that small by (simp add: unat_of_nat_u32)
  have le: "totalsize ?h \<le> totalsize ?h" "off_dt_struct ?h \<le> totalsize ?h" "off_dt_strings ?h \<le> totalsize ?h"
    "off_mem_rsvmap ?h \<le> totalsize ?h" "size_dt_strings ?h \<le> totalsize ?h" "size_dt_struct ?h \<le> totalsize ?h"
    using round_up4_ge [of "40 + length rm"] by (simp_all add: built_header_def Let_def)
  have "0 < length rm" using assms(2) by simp
  then have bounds: "40 < totalsize ?h" "off_dt_struct ?h + size_dt_struct ?h \<le> totalsize ?h"
    "off_dt_strings ?h + size_dt_strings ?h \<le> totalsize ?h" "off_mem_rsvmap ?h = 40"
    using round_up4_ge [of "40 + length rm"] unfolding built_header_def Let_def
    by (simp_all del: length_greater_0_conv)
  have sl: "fdt_checked_slice dtb a b m = Inr (slice dtb a (a + b))" if "a + b \<le> totalsize ?h" for a b m
    using that len small by (simp add: usize_limit_def)
  show ?thesis
    using r bounds len small
    by (simp add: fdt_header_parse_def header_words_def fields le Let_def
        sl [of "off_dt_struct ?h"] sl [of "off_dt_strings ?h"] del: read_be32_Inr fdt_checked_slice_Inr)
qed

section \<open>The blocks of a built blob\<close>

text \<open>A reserve map: its entries, none of them the terminator, and the terminator.\<close>

definition enc_rsv_entry :: "u64 \<times> u64 \<Rightarrow> bytes" where
  "enc_rsv_entry e = to_be_bytes 8 (fst e) @ to_be_bytes 8 (snd e)"

definition enc_rsv :: "(u64 \<times> u64) list \<Rightarrow> bytes" where
  "enc_rsv es = concat (map enc_rsv_entry es) @ replicate 16 0"

lemma length_enc_rsv_entry [simp]: "length (enc_rsv_entry e) = 16"
  by (simp add: enc_rsv_entry_def)

lemma length_enc_rsv [simp]: "length (enc_rsv es) = 16 * length es + 16"
  by (induction es) (simp_all add: enc_rsv_def)

lemma enc_rsv_Cons: "enc_rsv (e # es) = enc_rsv_entry e @ enc_rsv es"
  by (simp add: enc_rsv_def)

lemma enc_rsv_not_Nil [simp]: "enc_rsv es \<noteq> []"
  using length_enc_rsv [of es] by fastforce

lemma rsv_entry_fields:
  "length entry = 16 \<Longrightarrow> entry = enc_rsv_entry (from_be_bytes (slice entry 0 8), from_be_bytes (slice entry 8 16))"
proof -
  assume len: "length entry = 16"
  then have "entry = slice entry 0 8 @ slice entry 8 16"
    by (simp add: slice_def)
  then show ?thesis
    using len by (simp add: enc_rsv_entry_def be64.enc_dec)
qed

lemma zero_rsv_entry: "enc_rsv_entry (0, 0) = replicate 16 0"
  by (simp add: enc_rsv_entry_def to_be_bytes_def map_replicate_const flip: replicate_add)

lemma rsv_entry_decode:
  "from_be_bytes (slice (enc_rsv_entry e) 0 8) = fst e"
  "from_be_bytes (slice (enc_rsv_entry e) 8 16) = snd e"
  by (simp_all add: enc_rsv_entry_def slice_def be64.dec_enc)

lemma reserve_map_loop_enc:
  assumes "\<forall>e \<in> set es. e \<noteq> (0, 0)" and "length pre + length (enc_rsv es) \<le> tot" and "tot < usize_limit"
  shows "reserve_map_loop (pre @ enc_rsv es @ post) tot (length pre) acc = Inr (acc @ enc_rsv es)"
  using assms
proof (induction es arbitrary: pre acc)
  case Nil
  have "slice (pre @ enc_rsv [] @ post) (length pre) (length pre + 16) = enc_rsv_entry (0, 0)"
    by (simp add: slice_exact zero_rsv_entry enc_rsv_def)
  then show ?case
    using Nil by (subst reserve_map_loop.simps) (simp add: rsv_entry_decode Let_def zero_rsv_entry enc_rsv_def)
next
  case (Cons e es)
  have entry: "slice (pre @ enc_rsv (e # es) @ post) (length pre) (length pre + 16) = enc_rsv_entry e"
    by (simp add: slice_exact enc_rsv_Cons)
  have "reserve_map_loop ((pre @ enc_rsv_entry e) @ enc_rsv es @ post) tot (length (pre @ enc_rsv_entry e))
      (acc @ enc_rsv_entry e) = Inr ((acc @ enc_rsv_entry e) @ enc_rsv es)"
    by (rule Cons.IH) (use Cons.prems in simp_all)
  then show ?case
    using Cons.prems entry
    by (subst reserve_map_loop.simps)
      (auto simp: rsv_entry_decode Let_def enc_rsv_Cons prod_eq_iff)
qed

lemma reserve_map_loop_shape:
  "reserve_map_loop dtb tot cursor acc = Inr rm \<Longrightarrow> tot \<le> length dtb \<Longrightarrow>
   \<exists>es. rm = acc @ enc_rsv es \<and> (\<forall>e \<in> set es. e \<noteq> (0, 0))"
proof (induction dtb tot cursor acc rule: reserve_map_loop.induct)
  case (1 dtb tot cursor acc)
  define entry where "entry = slice dtb cursor (cursor + 16)"
  define a where "a = (from_be_bytes (slice entry 0 8) :: u64)"
  define l where "l = (from_be_bytes (slice entry 8 16) :: u64)"
  have ok: "cursor + 16 < usize_limit \<and> cursor + 16 \<le> tot"
    using "1.prems"(1) by (subst (asm) reserve_map_loop.simps) (auto split: if_splits)
  then have len: "length entry = 16" using "1.prems"(2) by (simp add: entry_def)
  have entry: "entry = enc_rsv_entry (a, l)"
    unfolding a_def l_def by (rule rsv_entry_fields [OF len])
  show ?case
  proof (cases "a = 0 \<and> l = 0")
    case True
    then have "rm = acc @ enc_rsv []"
      using "1.prems"(1) ok entry
      by (subst (asm) reserve_map_loop.simps)
        (simp add: Let_def entry_def [symmetric] a_def [symmetric] l_def [symmetric] enc_rsv_def zero_rsv_entry)
    then show ?thesis by (metis empty_iff empty_set)
  next
    case False
    then have "reserve_map_loop dtb tot (cursor + 16) (acc @ entry) = Inr rm"
      using "1.prems"(1) ok
      by (subst (asm) reserve_map_loop.simps)
        (auto simp: Let_def entry_def [symmetric] a_def [symmetric] l_def [symmetric] split: if_splits)
    then obtain es where "rm = (acc @ entry) @ enc_rsv es" "\<forall>e \<in> set es. e \<noteq> (0, 0)"
      using "1.IH" [of entry "acc @ entry" a l] ok "1.prems"(2) False
      by (auto simp: entry_def a_def l_def)
    then show ?thesis
      using entry False by (intro exI [of _ "(a, l) # es"]) (auto simp: enc_rsv_Cons)
  qed
qed

lemma fdt_header_parse_bounds:
  assumes "fdt_header_parse dtb = Inr h"
  shows "totalsize h \<le> length dtb" and "40 \<le> totalsize h" and "off_mem_rsvmap h < totalsize h"
    and "off_dt_struct h + size_dt_struct h \<le> totalsize h"
    and "off_dt_strings h + size_dt_strings h \<le> totalsize h"
    and "totalsize h < 2 ^ 32"
  using assms unat_less_u32
  by (auto simp: fdt_header_parse_def Let_def simp del: read_be32_Inr split: if_splits)

lemma reserve_map_shape:
  "fdt_header_parse dtb = Inr h \<Longrightarrow> reserve_map dtb h = Inr rm \<Longrightarrow>
   \<exists>es. rm = enc_rsv es \<and> (\<forall>e \<in> set es. e \<noteq> (0, 0))"
  using reserve_map_loop_shape [of dtb "totalsize h" "off_mem_rsvmap h" "[]" rm] fdt_header_parse_bounds(1)
  by (auto simp: reserve_map_def)

lemma built_blocks:
  assumes "build_dtb old rm sb st = Inr dtb" and "h = built_header old rm sb st"
  shows "fdt_checked_slice dtb (off_dt_struct h) (size_dt_struct h) m = Inr sb"
    and "fdt_checked_slice dtb (off_dt_strings h) (size_dt_strings h) m = Inr st"
    and "rm = enc_rsv es \<Longrightarrow> \<forall>e \<in> set es. e \<noteq> (0, 0) \<Longrightarrow> reserve_map dtb h = Inr rm"
proof -
  let ?hd = "enc_words (header_words h)"
  have dtb: "dtb = ?hd @ rm @ padding4 (length rm) @ sb @ st" and small: "totalsize h < 2 ^ 32"
    using assms by (simp_all add: build_dtb_Inr)
  have off: "off_dt_struct h = length (?hd @ rm @ padding4 (length rm))"
    using round_up4_minus [of "length rm"] round_up4_add [of 40 "length rm"]
    by (simp add: assms(2) built_header_def Let_def)
  have sizes: "size_dt_struct h = length sb" "size_dt_strings h = length st"
    "off_dt_strings h = off_dt_struct h + length sb" "off_mem_rsvmap h = 40"
    "totalsize h = off_dt_struct h + length sb + length st"
    by (simp_all add: assms(2) built_header_def Let_def)
  have lim: "totalsize h < usize_limit" using small by (simp add: usize_limit_def)
  have struct: "slice dtb (off_dt_struct h) (off_dt_struct h + length sb) = sb"
    unfolding dtb off
    using slice_exact [of "length (?hd @ rm @ padding4 (length rm))" "?hd @ rm @ padding4 (length rm)" _ sb st]
    by simp
  have strings: "slice dtb (off_dt_strings h) (off_dt_strings h + length st) = st"
    unfolding dtb sizes off
    using slice_exact [of "length (?hd @ rm @ padding4 (length rm) @ sb)" "?hd @ rm @ padding4 (length rm) @ sb" _ st "[]"]
    by (simp add: add.assoc)
  have len: "length dtb = totalsize h" unfolding dtb using off sizes by simp
  show "fdt_checked_slice dtb (off_dt_struct h) (size_dt_struct h) m = Inr sb"
    using struct len lim sizes by simp
  show "fdt_checked_slice dtb (off_dt_strings h) (size_dt_strings h) m = Inr st"
    using strings len lim sizes by simp
  show "reserve_map dtb h = Inr rm" if "rm = enc_rsv es" "\<forall>e \<in> set es. e \<noteq> (0, 0)"
    using reserve_map_loop_enc [OF that(2), of ?hd "totalsize h" "padding4 (length rm) @ sb @ st" "[]"] that(1) off sizes lim
    by (simp add: reserve_map_def dtb)
qed

end
