(* ===== verification/ContractTree.thy ===== *)
theory ContractTree
  imports FdtBuild
begin

text \<open>
  The owned device tree of \<open>src/kexec.rs\<close> (\<open>ContractNode\<close>): its accessors, the parser
  \<open>contract_tree\<close>, the writer and \<open>build_contract_tree\<close>. The main result is the round trip:
  parsing a blob that was written from a well-formed tree gives that tree back.
\<close>

section \<open>Nodes\<close>

datatype node = Node (nname: bytes) (nprops: "(bytes \<times> bytes) list") (nchildren: "node list")

abbreviation PROP_STATUS :: bytes where "PROP_STATUS \<equiv> bytes_of ''status''"
abbreviation PROP_REG :: bytes where "PROP_REG \<equiv> bytes_of ''reg''"
abbreviation PROP_ADDRESS_CELLS :: bytes where "PROP_ADDRESS_CELLS \<equiv> bytes_of ''#address-cells''"
abbreviation PROP_SIZE_CELLS :: bytes where "PROP_SIZE_CELLS \<equiv> bytes_of ''#size-cells''"

definition node_new :: "bytes \<Rightarrow> node" where
  "node_new name = Node name [] []"

definition get_prop :: "node \<Rightarrow> bytes \<Rightarrow> bytes option" where
  "get_prop n name = map_of (nprops n) name"

fun set_assoc :: "('a \<times> 'b) list \<Rightarrow> 'a \<Rightarrow> 'b \<Rightarrow> ('a \<times> 'b) list" where
  "set_assoc [] k v = [(k, v)]"
| "set_assoc ((k', v') # ps) k v = (if k' = k then (k, v) # ps else (k', v') # set_assoc ps k v)"

definition set_prop :: "node \<Rightarrow> bytes \<Rightarrow> bytes \<Rightarrow> node" where
  "set_prop n name v = Node (nname n) (set_assoc (nprops n) name v) (nchildren n)"

definition remove_prop :: "node \<Rightarrow> bytes \<Rightarrow> node" where
  "remove_prop n name = Node (nname n) (filter (\<lambda>(k, _). k \<noteq> name) (nprops n)) (nchildren n)"

definition child :: "node \<Rightarrow> bytes \<Rightarrow> node option" where
  "child n name = find (\<lambda>c. nname c = name) (nchildren n)"

definition property_status_enabled :: "bytes \<Rightarrow> bool" where
  "property_status_enabled v =
     (let v = (case strip_suffix [0] v of Some w \<Rightarrow> w | None \<Rightarrow> v)
      in v = bytes_of ''ok'' \<or> v = bytes_of ''okay'')"

definition enabled :: "node \<Rightarrow> bool" where
  "enabled n = (case get_prop n PROP_STATUS of None \<Rightarrow> True | Some v \<Rightarrow> property_status_enabled v)"

definition compatible :: "node \<Rightarrow> bytes \<Rightarrow> bool" where
  "compatible n v =
     (case get_prop n (bytes_of ''compatible'') of
        None \<Rightarrow> False | Some l \<Rightarrow> v \<in> set (split_on 0 l))"

definition property_u32 :: "bytes \<Rightarrow> u32 io" where
  "property_u32 v = (if length v \<noteq> 4 then invalid_data ''DTB property is not one cell'' else Inr (from_be_bytes v))"

definition cells :: "node \<Rightarrow> bytes \<Rightarrow> u32 \<Rightarrow> u32 io" where
  "cells n name dflt =
     (case get_prop n name of Some v \<Rightarrow> property_u32 v | None \<Rightarrow> Inr dflt)"

lemma node_sel_simps [simp]:
  "nname (set_prop n k v) = nname n" "nchildren (set_prop n k v) = nchildren n"
  "nname (remove_prop n k) = nname n" "nchildren (remove_prop n k) = nchildren n"
  by (simp_all add: set_prop_def remove_prop_def)

lemma map_of_set_assoc: "map_of (set_assoc ps k v) = (map_of ps)(k \<mapsto> v)"
  by (induction ps k v rule: set_assoc.induct) (auto simp: fun_eq_iff)

lemma get_set_prop [simp]: "get_prop (set_prop n k v) k' = (if k' = k then Some v else get_prop n k')"
  by (simp add: get_prop_def set_prop_def map_of_set_assoc)

lemma get_remove_prop [simp]: "get_prop (remove_prop n k) k' = (if k' = k then None else get_prop n k')"
proof -
  have "map_of (filter (\<lambda>(x, _). x \<noteq> k) ps) k' = (if k' = k then None else map_of ps k')" for ps :: "(bytes \<times> bytes) list"
    by (induction ps) auto
  then show ?thesis by (simp add: get_prop_def remove_prop_def)
qed

lemma set_assoc_fresh: "k \<notin> fst ` set ps \<Longrightarrow> set_assoc ps k v = ps @ [(k, v)]"
  by (induction ps k v rule: set_assoc.induct) auto

section \<open>Parsing\<close>

function contract_loop :: "bytes \<Rightarrow> bytes \<Rightarrow> nat \<Rightarrow> node list \<Rightarrow> node option \<Rightarrow> node io" where
  "contract_loop structure strings cursor stack root =
     bind_io (next_token structure cursor) (\<lambda>tn.
     case tn of (tok, next) \<Rightarrow>
     (case tok of
        TokBegin name \<Rightarrow>
          if stack = [] \<and> (root \<noteq> None \<or> name \<noteq> []) then invalid_data ''DTB must have exactly one unnamed root''
          else if 64 \<le> length stack then invalid_data ''DTB exceeds maximum node nesting depth''
          else contract_loop structure strings next (node_new name # stack) root
      | TokEndNode \<Rightarrow>
          (case stack of
             [] \<Rightarrow> invalid_data ''DTB has unmatched END_NODE''
           | [n] \<Rightarrow> contract_loop structure strings next [] (Some n)
           | n # parent # up \<Rightarrow>
               if child parent (nname n) \<noteq> None then invalid_data ''DTB has duplicate sibling node names''
               else contract_loop structure strings next
                      (Node (nname parent) (nprops parent) (nchildren parent @ [n]) # up) root)
      | TokProp parts \<Rightarrow>
          (case string_at strings (p_nameoff parts) of
             None \<Rightarrow> invalid_data ''DTB property has invalid string offset''
           | Some name \<Rightarrow>
               (case stack of
                  [] \<Rightarrow> invalid_data ''DTB property outside a node''
                | n # up \<Rightarrow>
                    if get_prop n name \<noteq> None \<or> nchildren n \<noteq> []
                    then invalid_data ''DTB has duplicate property or property after child nodes''
                    else contract_loop structure strings next
                           (set_prop n name (slice structure (p_value_start parts) (p_value_end parts)) # up) root))
      | TokNop \<Rightarrow> contract_loop structure strings next stack root
      | TokEnd \<Rightarrow>
          if stack = [] then ok_or (IoError InvalidData ''DTB has no root node'') root
          else invalid_data ''DTB has unterminated nodes''))"
  by pat_completeness auto
termination
  by (relation "measure (\<lambda>(structure, strings, cursor, stack, root). length structure - cursor)")
    (auto dest!: next_token_measure)

declare contract_loop.simps [simp del]

definition contract_tree :: "bytes \<Rightarrow> node io" where
  "contract_tree dtb =
     bind_io (fdt_header_parse dtb) (\<lambda>header.
     bind_io (fdt_checked_slice dtb (off_dt_struct header) (size_dt_struct header) ''DTB structure block'') (\<lambda>structure.
     bind_io (fdt_checked_slice dtb (off_dt_strings header) (size_dt_strings header) ''DTB strings block'') (\<lambda>strings.
     contract_loop structure strings 0 [] None)))"

section \<open>Writing\<close>

fun write_props :: "(bytes \<times> bytes) list \<Rightarrow> bytes \<times> bytes \<Rightarrow> (bytes \<times> bytes) io" where
  "write_props [] (structure, strings) = Inr (structure, strings)"
| "write_props ((name, v) # ps) (structure, strings) =
     bind_io (ensure_string strings name) (\<lambda>so.
     write_props ps (fdt_write_prop structure (snd so) v, fst so))"

fun write_node :: "node \<Rightarrow> bytes \<times> bytes \<Rightarrow> (bytes \<times> bytes) io"
  and write_nodes :: "node list \<Rightarrow> bytes \<times> bytes \<Rightarrow> (bytes \<times> bytes) io" where
  "write_node (Node name props children) (structure, strings) =
     bind_io (write_props props (fdt_write_begin_node structure name, strings)) (\<lambda>ss.
     bind_io (write_nodes children ss) (\<lambda>ss.
     Inr (write_be32 (fst ss) FDT_END_NODE, snd ss)))"
| "write_nodes [] ss = Inr ss"
| "write_nodes (c # cs) ss = bind_io (write_node c ss) (\<lambda>ss. write_nodes cs ss)"

definition build_contract_tree :: "bytes \<Rightarrow> node \<Rightarrow> bytes \<Rightarrow> bytes io" where
  "build_contract_tree dtb root rsvmap =
     bind_io (fdt_header_parse dtb) (\<lambda>header.
     bind_io (write_node root ([], [])) (\<lambda>ss.
     build_dtb header rsvmap (write_be32 (fst ss) FDT_END) (snd ss)))"

section \<open>Trees as bytes\<close>

text \<open>
  The grammar of the structure block: the bytes of a list of properties, of a node and of a list
  of nodes. \<open>FDT_NOP\<close> tokens may stand anywhere and padding bytes are arbitrary.
\<close>

abbreviation nop_bytes :: bytes where "nop_bytes \<equiv> to_be_bytes 4 FDT_NOP"
abbreviation end_node_bytes :: bytes where "end_node_bytes \<equiv> to_be_bytes 4 FDT_END_NODE"
abbreviation end_bytes :: bytes where "end_bytes \<equiv> to_be_bytes 4 FDT_END"

inductive props_bytes :: "bytes \<Rightarrow> (bytes \<times> bytes) list \<Rightarrow> bytes \<Rightarrow> bool" for strings where
  props_Nil: "props_bytes strings [] []"
| props_Nop: "props_bytes strings ps w \<Longrightarrow> props_bytes strings ps (nop_bytes @ w)"
| props_Cons:
    "chunk b (EvProp off v) \<Longrightarrow> string_at strings off = Some k \<Longrightarrow> props_bytes strings ps w \<Longrightarrow>
     props_bytes strings ((k, v) # ps) (b @ w)"

inductive node_bytes :: "bytes \<Rightarrow> node \<Rightarrow> bytes \<Rightarrow> bool"
  and nodes_bytes :: "bytes \<Rightarrow> node list \<Rightarrow> bytes \<Rightarrow> bool" for strings where
  node_Node:
    "chunk b (EvBegin name) \<Longrightarrow> props_bytes strings ps u \<Longrightarrow> nodes_bytes strings cs w \<Longrightarrow>
     node_bytes strings (Node name ps cs) (b @ u @ w @ end_node_bytes)"
| nodes_Nil: "nodes_bytes strings [] []"
| nodes_Nop: "nodes_bytes strings cs w \<Longrightarrow> nodes_bytes strings cs (nop_bytes @ w)"
| nodes_Cons: "node_bytes strings c u \<Longrightarrow> nodes_bytes strings cs w \<Longrightarrow> nodes_bytes strings (c # cs) (u @ w)"

inductive_cases node_bytes_NodeE: "node_bytes strings (Node name ps cs) w"

lemmas tree_bytes_intros = props_bytes.intros node_bytes_nodes_bytes.intros

lemma props_bytes_append: "props_bytes s ps w \<Longrightarrow> props_bytes (s @ t) ps w"
  by (induction rule: props_bytes.induct) (auto intro: props_bytes.intros string_at_append)

lemma node_bytes_append:
  "node_bytes s n w \<Longrightarrow> node_bytes (s @ t) n w"
  "nodes_bytes s ns w \<Longrightarrow> nodes_bytes (s @ t) ns w"
  by (induction rule: node_bytes_nodes_bytes.inducts) (auto intro: tree_bytes_intros props_bytes_append)

lemma props_bytes_dvd4: "props_bytes s ps w \<Longrightarrow> 4 dvd length w"
  by (induction rule: props_bytes.induct) (auto intro: dvd_add chunk_dvd4)

lemma node_bytes_dvd4:
  "node_bytes s n w \<Longrightarrow> 4 dvd length w"
  "nodes_bytes s ns w \<Longrightarrow> 4 dvd length w"
  by (induction rule: node_bytes_nodes_bytes.inducts) (auto intro!: dvd_add dest: chunk_dvd4 props_bytes_dvd4)

lemma props_bytes_join: "props_bytes s ps w \<Longrightarrow> props_bytes s qs u \<Longrightarrow> props_bytes s (ps @ qs) (w @ u)"
  by (induction rule: props_bytes.induct) (auto intro: props_bytes.intros)

lemma nodes_bytes_join:
  "node_bytes s n w \<Longrightarrow> True"
  "nodes_bytes s ps w \<Longrightarrow> nodes_bytes s qs u \<Longrightarrow> nodes_bytes s (ps @ qs) (w @ u)"
  by (induction rule: node_bytes_nodes_bytes.inducts) (auto intro: node_bytes_nodes_bytes.intros)

text \<open>
  \<open>node_wf d n\<close>: a tree the parser accepts at nesting depth \<open>d\<close>, that is NUL-free names,
  properties with distinct names and values whose length fits the 32-bit field, siblings with
  distinct names and at most 64 levels.
\<close>

fun node_wf :: "nat \<Rightarrow> node \<Rightarrow> bool" where
  "node_wf d (Node name ps cs) \<longleftrightarrow>
     d < 64 \<and> 0 \<notin> set name \<and> distinct (map fst ps) \<and>
     (\<forall>(k, v) \<in> set ps. 0 \<notin> set k \<and> length v < 2 ^ 32) \<and>
     distinct (map nname cs) \<and> (\<forall>c \<in> set cs. node_wf (Suc d) c)"



text \<open>The writer produces such bytes, over strings that extend the given ones.\<close>

lemma write_props_bytes:
  assumes "write_props ps (sb, strings) = Inr (sb', strings')" and "4 dvd length sb"
    and "\<forall>(k, v) \<in> set ps. 0 \<notin> set k \<and> length v < 2 ^ 32"
  shows "\<exists>w suf. strings' = strings @ suf \<and> sb' = sb @ w \<and> props_bytes strings' ps w"
  using assms
proof (induction ps arbitrary: sb strings)
  case Nil
  then show ?case by (auto intro: props_bytes.intros)
next
  case (Cons p ps)
  obtain k v where p: "p = (k, v)" by (cases p)
  obtain st1 off where so: "ensure_string strings k = Inr (st1, off)"
    and rest: "write_props ps (fdt_write_prop sb off v, st1) = Inr (sb', strings')"
    using Cons.prems(1) p by auto
  let ?b = "enc_event (EvProp off v)"
  have w: "fdt_write_prop sb off v = sb @ ?b"
    using Cons.prems(2) by (rule fdt_write_prop_enc)
  have b: "chunk ?b (EvProp off v)" using Cons.prems(3) p by (intro chunk_enc_event) auto
  obtain u suf where u: "strings' = st1 @ suf" "sb' = (sb @ ?b) @ u" "props_bytes strings' ps u"
    using Cons.IH [of "sb @ ?b" st1] rest Cons.prems(2,3) w chunk_dvd4 [OF b] p by auto
  obtain suf1 where suf1: "st1 = strings @ suf1" using ensure_string_extends [OF so] by blast
  have "string_at strings' off = Some k"
    using st.intern_at [OF so] Cons.prems(3) u(1) string_at_append p by auto
  then have "props_bytes strings' (p # ps) (?b @ u)"
    unfolding p using u(3) b by (intro props_bytes.intros)
  then show ?case
    using u suf1 by (intro exI [of _ "?b @ u"] exI [of _ "suf1 @ suf"]) simp
qed

lemma write_node_bytes:
  "write_node n ss = Inr ss' \<Longrightarrow> node_wf d n \<Longrightarrow> 4 dvd length (fst ss) \<Longrightarrow>
   \<exists>w suf. snd ss' = snd ss @ suf \<and> fst ss' = fst ss @ w \<and> node_bytes (snd ss') n w"
  "write_nodes ns ss = Inr ss' \<Longrightarrow> \<forall>c \<in> set ns. node_wf (Suc d) c \<Longrightarrow> 4 dvd length (fst ss) \<Longrightarrow>
   \<exists>w suf. snd ss' = snd ss @ suf \<and> fst ss' = fst ss @ w \<and> nodes_bytes (snd ss') ns w"
proof (induction n ss and ns ss arbitrary: d ss' and d ss' rule: write_node_write_nodes.induct)
  case (1 name ps cs sb strings)
  let ?b = "enc_event (EvBegin name)"
  obtain s1 t1 s2 t2 where run: "write_props ps (fdt_write_begin_node sb name, strings) = Inr (s1, t1)"
      "write_nodes cs (s1, t1) = Inr (s2, t2)" "ss' = (write_be32 s2 FDT_END_NODE, t2)"
    using "1.prems"(1) by auto
  have b: "fdt_write_begin_node sb name = sb @ ?b" "chunk ?b (EvBegin name)"
    using "1.prems"(2,3) by (auto simp del: enc_event.simps intro: fdt_write_begin_node_enc chunk_enc_event)
  have al: "4 dvd length (sb @ ?b)"
    using "1.prems"(3) chunk_dvd4 [OF b(2)] by simp
  have wf: "\<forall>(k, v) \<in> set ps. 0 \<notin> set k \<and> length v < 2 ^ 32" "\<forall>c \<in> set cs. node_wf (Suc d) c"
    using "1.prems"(2) by auto
  obtain u suf where u: "t1 = strings @ suf" "s1 = (sb @ ?b) @ u" "props_bytes t1 ps u"
    using write_props_bytes [OF run(1) [unfolded b(1)] al wf(1)] by blast
  have "4 dvd length s1" unfolding u(2) length_append by (intro dvd_add al [unfolded length_append] props_bytes_dvd4 [OF u(3)])
  then obtain w suf' where w: "t2 = t1 @ suf'" "s2 = s1 @ w" "nodes_bytes t2 cs w"
    using "1.IH" [OF run(1,2) wf(2)] by auto
  have "node_bytes t2 (Node name ps cs) (?b @ u @ w @ end_node_bytes)"
    using props_bytes_append [OF u(3), of suf'] w(1,3) by (intro node_bytes_nodes_bytes.intros b(2)) simp_all
  then show ?case
    using run(3) u w
    by (intro exI [of _ "?b @ u @ w @ end_node_bytes"] exI [of _ "suf @ suf'"]) (simp add: write_be32_def)
next
  case (2 ss)
  then show ?case by (auto intro: node_bytes_nodes_bytes.intros)
next
  case (3 c cs ss)
  obtain ss1 where run: "write_node c ss = Inr ss1" "write_nodes cs ss1 = Inr ss'"
    using "3.prems"(1) by auto
  obtain u suf where u: "snd ss1 = snd ss @ suf" "fst ss1 = fst ss @ u" "node_bytes (snd ss1) c u"
    using "3.IH"(1) [OF run(1)] "3.prems"(2,3) by (metis list.set_intros(1))
  have "4 dvd length (fst ss1)" using u(2) "3.prems"(3) node_bytes_dvd4(1) [OF u(3)] by simp
  then obtain w suf' where w: "snd ss' = snd ss1 @ suf'" "fst ss' = fst ss1 @ w"
      "nodes_bytes (snd ss') cs w"
    using "3.IH"(2) [OF run, of d] "3.prems"(2) by (metis list.set_intros(2))
  show ?case
    using u w node_bytes_append(1) [of "snd ss1" c u suf']
    by (intro exI [of _ "u @ w"] exI [of _ "suf @ suf'"]) (auto intro: node_bytes_nodes_bytes.intros)
qed

section \<open>The writer succeeds on trees that fit\<close>

text \<open>An upper bound of the bytes a tree takes in the structure and strings blocks together.\<close>

definition props_bound :: "(bytes \<times> bytes) list \<Rightarrow> nat" where
  "props_bound ps = sum_list (map (\<lambda>(k, v). length k + length v + 16) ps)"

fun tree_bound :: "node \<Rightarrow> nat" where
  "tree_bound (Node name ps cs) = length name + 12 + props_bound ps + sum_list (map tree_bound cs)"

lemma length_pad_to_le: "length (pad_to xs 4) \<le> length xs + 3"
  by (simp add: pad_to_def)

lemma ensure_string_total:
  assumes "length st < 2 ^ 32"
  shows "\<exists>st' off. ensure_string st k = Inr (st', off) \<and> length st' \<le> length st + length k + 1"
proof (cases "find_entry_from st k 0")
  case None
  then have "ensure_string st k = Inr (st @ k @ [0], of_nat (length st))"
    using assms by (auto simp: ensure_string_def)
  then show ?thesis by simp
next
  case (Some c)
  then have "c < 2 ^ 32" using find_entry_from_Some [OF Some] assms by simp
  then have "ensure_string st k = Inr (st, of_nat c)" using Some by (auto simp: ensure_string_def)
  then show ?thesis by simp
qed

abbreviation blocks_length :: "bytes \<times> bytes \<Rightarrow> nat" where
  "blocks_length ss \<equiv> length (fst ss) + length (snd ss)"

lemma write_props_total:
  "blocks_length ss + props_bound ps < 2 ^ 32 \<Longrightarrow>
   \<exists>ss'. write_props ps ss = Inr ss' \<and> blocks_length ss' \<le> blocks_length ss + props_bound ps"
proof (induction ps ss rule: write_props.induct)
  case (2 k v ps sb st)
  obtain st' off where so: "ensure_string st k = Inr (st', off)" "length st' \<le> length st + length k + 1"
    using ensure_string_total [of st k] "2.prems" by auto
  have "length (fdt_write_prop sb off v) \<le> length sb + length v + 15"
    using length_pad_to_le [of "sb @ to_be_bytes 4 FDT_PROP @ to_be_bytes 4 (of_nat (length v) :: u32) @ to_be_bytes 4 off @ v"]
    by (simp add: fdt_write_prop_def)
  then have "blocks_length (fdt_write_prop sb off v, st') \<le> blocks_length (sb, st) + (length k + length v + 16)"
    using so(2) by simp
  moreover from this have "\<exists>ss'. write_props ps (fdt_write_prop sb off v, st') = Inr ss' \<and>
      blocks_length ss' \<le> blocks_length (fdt_write_prop sb off v, st') + props_bound ps"
    using "2.IH" [of "(st', off)"] so(1) "2.prems" by (simp add: props_bound_def)
  ultimately show ?case using so(1) by (fastforce simp: props_bound_def)
qed simp

lemma write_node_total:
  "blocks_length ss + tree_bound n < 2 ^ 32 \<Longrightarrow>
   \<exists>ss'. write_node n ss = Inr ss' \<and> blocks_length ss' \<le> blocks_length ss + tree_bound n"
  "blocks_length ss + sum_list (map tree_bound ns) < 2 ^ 32 \<Longrightarrow>
   \<exists>ss'. write_nodes ns ss = Inr ss' \<and> blocks_length ss' \<le> blocks_length ss + sum_list (map tree_bound ns)"
proof (induction n ss and ns ss rule: write_node_write_nodes.induct)
  case (1 name ps cs sb st)
  let ?ss = "(fdt_write_begin_node sb name, st)"
  have start: "blocks_length ?ss \<le> blocks_length (sb, st) + length name + 8"
    using length_pad_to_le [of "sb @ to_be_bytes 4 FDT_BEGIN_NODE @ name @ [0]"] by (simp add: fdt_write_begin_node_def)
  then obtain ss1 where ss1: "write_props ps ?ss = Inr ss1" "blocks_length ss1 \<le> blocks_length ?ss + props_bound ps"
    using write_props_total [of ?ss ps] "1.prems" by auto
  then obtain ss2 where ss2: "write_nodes cs ss1 = Inr ss2"
      "blocks_length ss2 \<le> blocks_length ss1 + sum_list (map tree_bound cs)"
    using "1.IH" [of ss1] start "1.prems" by auto
  have "write_node (Node name ps cs) (sb, st) = Inr (write_be32 (fst ss2) FDT_END_NODE, snd ss2)"
    using ss1(1) ss2(1) by simp
  moreover have "blocks_length (write_be32 (fst ss2) FDT_END_NODE, snd ss2) \<le> blocks_length (sb, st) + tree_bound (Node name ps cs)"
    using start ss1(2) ss2(2) by (simp add: write_be32_def)
  ultimately show ?case by blast
next
  case (3 c cs ss)
  obtain ss1 where ss1: "write_node c ss = Inr ss1" "blocks_length ss1 \<le> blocks_length ss + tree_bound c"
    using "3.IH"(1) "3.prems" by auto
  then show ?case using "3.IH"(2) [of ss1] "3.prems" by fastforce
qed simp

lemma build_contract_tree_fits:
  assumes "fdt_header_parse dtb = Inr h" and "tree_bound root + length rm + 48 < 2 ^ 32"
  shows "\<exists>out. build_contract_tree dtb root rm = Inr out"
proof -
  obtain ss where ss: "write_node root ([], []) = Inr ss" "blocks_length ss \<le> tree_bound root"
    using write_node_total(1) [of "([], [])" root] assms(2) by auto
  let ?h = "built_header h rm (write_be32 (fst ss) FDT_END) (snd ss)"
  have "(40 + length rm + 3) div 4 * 4 \<le> 43 + length rm" by simp
  then have "totalsize ?h < 2 ^ 32"
    using ss(2) assms(2) by (simp add: built_header_def Let_def write_be32_def)
  then show ?thesis
    using build_dtb_layout [of h rm "write_be32 (fst ss) FDT_END" "snd ss"] assms(1) ss(1) by (simp add: build_contract_tree_def)
qed

text \<open>One step of the parser on a chunk.\<close>

lemma contract_loop_chunk:
  assumes "chunk w e" and "4 dvd length pre" and "length pre + length w + 8 < usize_limit"
  shows "contract_loop (pre @ w @ post) strings (length pre) stack root =
    (let sb = pre @ w @ post; nx = length pre + length w in
     case e of
       EvBegin name \<Rightarrow>
         if stack = [] \<and> (root \<noteq> None \<or> name \<noteq> []) then invalid_data ''DTB must have exactly one unnamed root''
         else if 64 \<le> length stack then invalid_data ''DTB exceeds maximum node nesting depth''
         else contract_loop sb strings nx (node_new name # stack) root
     | EvEndNode \<Rightarrow>
         (case stack of
            [] \<Rightarrow> invalid_data ''DTB has unmatched END_NODE''
          | [n] \<Rightarrow> contract_loop sb strings nx [] (Some n)
          | n # parent # up \<Rightarrow>
              if child parent (nname n) \<noteq> None then invalid_data ''DTB has duplicate sibling node names''
              else contract_loop sb strings nx
                     (Node (nname parent) (nprops parent) (nchildren parent @ [n]) # up) root)
     | EvProp off v \<Rightarrow>
         (case string_at strings off of
            None \<Rightarrow> invalid_data ''DTB property has invalid string offset''
          | Some name \<Rightarrow>
              (case stack of
                 [] \<Rightarrow> invalid_data ''DTB property outside a node''
               | n # up \<Rightarrow>
                   if get_prop n name \<noteq> None \<or> nchildren n \<noteq> []
                   then invalid_data ''DTB has duplicate property or property after child nodes''
                   else contract_loop sb strings nx (set_prop n name v # up) root))
     | EvNop \<Rightarrow> contract_loop sb strings nx stack root
     | EvEnd \<Rightarrow>
         if stack = [] then ok_or (IoError InvalidData ''DTB has no root node'') root
         else invalid_data ''DTB has unterminated nodes'')"
proof (cases e)
  case (EvProp off v)
  show ?thesis
    by (subst contract_loop.simps, subst next_token_chunk [OF assms])
      (use chunk_value [OF assms(1) [unfolded EvProp], of pre post] in
        \<open>simp add: EvProp Let_def cong: option.case_cong list.case_cong if_cong\<close>)
qed (subst contract_loop.simps, subst next_token_chunk [OF assms],
     simp add: Let_def cong: option.case_cong list.case_cong if_cong)+

text \<open>The parser inverts the grammar, below a stack of open nodes.\<close>

lemma contract_loop_props:
  "props_bytes strings ps w \<Longrightarrow> distinct (map fst qs @ map fst ps) \<Longrightarrow> 4 dvd length pre \<Longrightarrow>
   length pre + length w + 8 < usize_limit \<Longrightarrow>
   contract_loop (pre @ w @ post) strings (length pre) (Node name qs [] # up) root =
   contract_loop (pre @ w @ post) strings (length pre + length w) (Node name (qs @ ps) [] # up) root"
proof (induction arbitrary: qs pre rule: props_bytes.induct)
  case props_Nil
  then show ?case by simp
next
  case (props_Nop ps w)
  then show ?case
    using contract_loop_chunk [of nop_bytes EvNop pre "w @ post" strings] props_Nop.IH [of qs "pre @ nop_bytes"]
    by (simp add: add.assoc)
next
  case (props_Cons b off v k ps w)
  have b: "4 dvd length b" using props_Cons.hyps(1) by (rule chunk_dvd4)
  have fresh: "get_prop (Node name qs []) k = None" "set_assoc qs k v = qs @ [(k, v)]"
    using props_Cons.prems(1) by (auto simp: get_prop_def map_of_eq_None_iff intro: set_assoc_fresh)
  have "contract_loop (pre @ b @ (w @ post)) strings (length pre) (Node name qs [] # up) root =
      contract_loop (pre @ b @ (w @ post)) strings (length pre + length b) (Node name (qs @ [(k, v)]) [] # up) root"
    using props_Cons.hyps(1,2) props_Cons.prems(2,3) fresh
    by (subst contract_loop_chunk [OF props_Cons.hyps(1)]) (simp_all add: set_prop_def)
  also have "\<dots> = contract_loop ((pre @ b) @ w @ post) strings
      (length (pre @ b) + length w) (Node name ((qs @ [(k, v)]) @ ps) [] # up) root"
    using props_Cons.IH [of "qs @ [(k, v)]" "pre @ b"] props_Cons.prems b by (simp add: add.assoc)
  finally show ?case by (simp add: add.assoc)
qed

text \<open>What closing a node does to the stack: it is hung below its parent, or becomes the root.\<close>

fun close_node :: "node \<Rightarrow> node list \<Rightarrow> node option \<Rightarrow> node list \<times> node option" where
  "close_node n [] root = ([], Some n)"
| "close_node n (p # up) root = (Node (nname p) (nprops p) (nchildren p @ [n]) # up, root)"

lemma child_None: "child p name = None \<longleftrightarrow> name \<notin> nname ` set (nchildren p)"
  by (auto simp: child_def find_None_iff)

lemma contract_loop_nodes:
  "node_bytes strings n w \<Longrightarrow> node_wf (length stack) n \<Longrightarrow> 4 dvd length pre \<Longrightarrow>
   length pre + length w + 8 < usize_limit \<Longrightarrow>
   (case stack of [] \<Rightarrow> nname n = [] \<and> root = None | p # _ \<Rightarrow> child p (nname n) = None) \<Longrightarrow>
   contract_loop (pre @ w @ post) strings (length pre) stack root =
   (case close_node n stack root of (stack', root') \<Rightarrow>
      contract_loop (pre @ w @ post) strings (length pre + length w) stack' root')"
  "nodes_bytes strings ns w \<Longrightarrow> \<forall>n \<in> set ns. node_wf (Suc (length up)) n \<Longrightarrow> 4 dvd length pre \<Longrightarrow>
   length pre + length w + 8 < usize_limit \<Longrightarrow> distinct (map nname (cs @ ns)) \<Longrightarrow>
   contract_loop (pre @ w @ post) strings (length pre) (Node name ps cs # up) root =
   contract_loop (pre @ w @ post) strings (length pre + length w) (Node name ps (cs @ ns) # up) root"
proof (induction arbitrary: stack pre post root and cs pre post up name ps root rule: node_bytes_nodes_bytes.inducts)
  case (node_Node b name ps u ns w)
  let ?e = end_node_bytes
  let ?all = "pre @ b @ u @ w @ ?e @ post"
  have lim: "length pre + length b + length u + length w + length ?e + 8 < usize_limit"
    using node_Node.prems(3) by (simp add: add.assoc)
  have al: "4 dvd length (pre @ b)" "4 dvd length (pre @ b @ u)" "4 dvd length (pre @ b @ u @ w)"
    unfolding length_append using node_Node.prems(2) chunk_dvd4 [OF node_Node(1)] props_bytes_dvd4 [OF node_Node(2)]
      node_bytes_dvd4(2) [OF node_Node(3)] by (simp_all only: dvd_add)
  have "contract_loop ?all strings (length pre) stack root =
      contract_loop ?all strings (length (pre @ b)) (Node name [] [] # stack) root"
    using node_Node.prems node_Node(1) lim
    by (subst contract_loop_chunk [OF node_Node(1)]) (auto simp: node_new_def split: list.splits)
  also have "\<dots> = contract_loop ?all strings (length (pre @ b @ u)) (Node name ps [] # stack) root"
    using contract_loop_props [OF node_Node(2), of "[]" "pre @ b" "w @ ?e @ post" name stack root]
      node_Node.prems(1,2) lim al by (simp add: add.assoc)
  also have "\<dots> = contract_loop ?all strings (length (pre @ b @ u @ w)) (Node name ps ns # stack) root"
    using node_Node.IH(3) [where up = stack and pre = "pre @ b @ u" and cs = "[]" and post = "?e @ post"]
      node_Node.prems(1,2) lim al by (simp add: add.assoc)
  also have "\<dots> = (case close_node (Node name ps ns) stack root of (stack', root') \<Rightarrow>
      contract_loop ?all strings (length (pre @ b @ u @ w @ ?e)) stack' root')"
    using contract_loop_chunk [of ?e EvEndNode "pre @ b @ u @ w" post] node_Node.prems lim al
    by (cases stack) (simp_all add: add.assoc)
  finally show ?case by (simp add: add.assoc)
next
  case nodes_Nil
  then show ?case by simp
next
  case (nodes_Nop ns w)
  then show ?case
    using contract_loop_chunk [of nop_bytes EvNop pre "w @ post" strings]
      nodes_Nop.IH(2) [where up = up and pre = "pre @ nop_bytes" and cs = cs and post = post]
    by (simp add: add.assoc)
next
  case (nodes_Cons c u ns w)
  have al: "4 dvd length (pre @ u)"
    using nodes_Cons.prems(2) node_bytes_dvd4(1) [OF nodes_Cons(1)] by simp
  have lim: "length pre + length u + length w + 8 < usize_limit"
    using nodes_Cons.prems(3) by (simp add: add.assoc)
  have "contract_loop (pre @ u @ w @ post) strings (length pre) (Node name ps cs # up) root =
      contract_loop (pre @ u @ w @ post) strings (length (pre @ u)) (Node name ps (cs @ [c]) # up) root"
    using nodes_Cons.IH(2) [where stack = "Node name ps cs # up" and pre = pre and post = "w @ post"] nodes_Cons.prems lim
    by (simp add: child_None)
  also have "\<dots> = contract_loop (pre @ u @ w @ post) strings
      (length (pre @ u) + length w) (Node name ps ((cs @ [c]) @ ns) # up) root"
    using nodes_Cons.IH(4) [where up = up and pre = "pre @ u" and cs = "cs @ [c]" and post = post] nodes_Cons.prems lim al
    by simp
  finally show ?case by (simp add: add.assoc)
qed

text \<open>
  A structure block of a tree: the root node, \<open>FDT_NOP\<close> tokens around it, the end token, and
  bytes after it that no walker reads.
\<close>

inductive nops :: "bytes \<Rightarrow> bool" where
  nops_Nil: "nops []"
| nops_Cons: "nops w \<Longrightarrow> nops (nop_bytes @ w)"

definition tree_block :: "bytes \<Rightarrow> node \<Rightarrow> bytes \<Rightarrow> bool" where
  "tree_block strings root sb \<longleftrightarrow>
     node_wf 0 root \<and> nname root = [] \<and>
     (\<exists>u w v rest. sb = u @ w @ v @ end_bytes @ rest \<and> nops u \<and> node_bytes strings root w \<and> nops v)"

lemma tree_block_append: "tree_block s root sb \<Longrightarrow> tree_block (s @ t) root sb"
  unfolding tree_block_def using node_bytes_append(1) by blast

lemma nops_dvd4: "nops w \<Longrightarrow> 4 dvd length w"
  by (induction rule: nops.induct) auto

lemma contract_loop_nops:
  "nops w \<Longrightarrow> 4 dvd length pre \<Longrightarrow> length pre + length w + 8 < usize_limit \<Longrightarrow>
   contract_loop (pre @ w @ post) strings (length pre) stack root =
   contract_loop (pre @ w @ post) strings (length pre + length w) stack root"
proof (induction arbitrary: pre rule: nops.induct)
  case (nops_Cons w)
  then show ?case
    using contract_loop_chunk [of nop_bytes EvNop pre "w @ post" strings stack root] nops_Cons.IH [of "pre @ nop_bytes"]
    by (simp add: add.assoc)
qed simp

lemma contract_loop_tree_block:
  assumes "tree_block strings root sb" and "length sb + 8 < usize_limit"
  shows "contract_loop sb strings 0 [] None = Inr root"
proof -
  obtain u w v rest where sb: "sb = u @ w @ v @ end_bytes @ rest" "nops u" "node_bytes strings root w" "nops v"
    and wf: "node_wf 0 root" "nname root = []"
    using assms(1) by (auto simp: tree_block_def)
  have al: "4 dvd length u" "4 dvd length (u @ w)" "4 dvd length (u @ w @ v)"
    using sb nops_dvd4 node_bytes_dvd4 by (simp_all add: dvd_add)
  have "contract_loop sb strings 0 [] None = contract_loop sb strings (length u) [] None"
    using contract_loop_nops [OF sb(2), of "[]" "w @ v @ end_bytes @ rest"] assms(2) by (simp add: sb(1))
  also have "\<dots> = contract_loop sb strings (length (u @ w)) [] (Some root)"
    using contract_loop_nodes(1) [OF sb(3), of "[]" u None "v @ end_bytes @ rest"] assms(2) wf al by (simp add: sb(1))
  also have "\<dots> = contract_loop sb strings (length (u @ w @ v)) [] (Some root)"
    using contract_loop_nops [OF sb(4), of "u @ w" "end_bytes @ rest"] assms(2) al by (simp add: sb(1) add.assoc)
  also have "\<dots> = Inr root"
    using contract_loop_chunk [of end_bytes EvEnd "u @ w @ v" rest strings "[]" "Some root"] assms(2) al by (simp add: sb(1))
  finally show ?thesis .
qed

section \<open>What the parser returns is well formed\<close>

fun stack_wf :: "node list \<Rightarrow> bool" where
  "stack_wf [] \<longleftrightarrow> True"
| "stack_wf (n # up) \<longleftrightarrow> node_wf (length up) n \<and> (up = [] \<longrightarrow> nname n = []) \<and> stack_wf up"

definition root_wf :: "node option \<Rightarrow> bool" where
  "root_wf root \<longleftrightarrow> (\<forall>r. root = Some r \<longrightarrow> node_wf 0 r \<and> nname r = [])"

lemma node_wf_iff:
  "node_wf d n \<longleftrightarrow>
     d < 64 \<and> 0 \<notin> set (nname n) \<and> distinct (map fst (nprops n)) \<and>
     (\<forall>(k, v) \<in> set (nprops n). 0 \<notin> set k \<and> length v < 2 ^ 32) \<and>
     distinct (map nname (nchildren n)) \<and> (\<forall>c \<in> set (nchildren n). node_wf (Suc d) c)"
  by (cases n) simp

lemma next_token_begin_name: "next_token data c = Inr (TokBegin name, n) \<Longrightarrow> 0 \<notin> set name"
  by (auto simp: next_token_def Let_def find_nul_Inr slice_def in_set_conv_nth split: if_splits)

lemma next_token_prop_len:
  assumes "next_token data c = Inr (TokProp parts, n)"
  shows "p_value_start parts \<le> p_value_end parts" and "p_value_end parts \<le> length data"
    and "p_value_end parts - p_value_start parts < 2 ^ 32"
proof -
  obtain len where p: "p_value_end parts = p_value_start parts + unat (len :: u32)" "p_next parts \<le> length data"
      "p_next parts = (p_value_end parts + 3) div 4 * 4"
    using assms by (auto simp: next_token_def Let_def fdt_property_parts_def not_less split: if_splits)
  show "p_value_start parts \<le> p_value_end parts" using p by simp
  show "p_value_end parts \<le> length data" using p round_up4_ge [of "p_value_end parts"] by simp
  show "p_value_end parts - p_value_start parts < 2 ^ 32" using p unat_less_u32 [of len] by simp
qed

lemma string_at_no_nul: "string_at strings off = Some name \<Longrightarrow> 0 \<notin> set name"
  by (auto simp: string_at_Some)

lemma set_prop_wf:
  assumes "node_wf d n" and "get_prop n k = None" and "0 \<notin> set k" and "length v < 2 ^ 32"
  shows "node_wf d (set_prop n k v)"
proof -
  have fresh: "k \<notin> fst ` set (nprops n)"
    using assms(2) by (simp add: get_prop_def map_of_eq_None_iff)
  show ?thesis
    using assms fresh set_assoc_fresh [OF fresh, of v] by (auto simp: node_wf_iff [of d] set_prop_def)
qed

lemma contract_loop_wf:
  "contract_loop sb strings cursor stack root = Inr r \<Longrightarrow> stack_wf stack \<Longrightarrow> root_wf root \<Longrightarrow>
   node_wf 0 r \<and> nname r = []"
proof (induction sb strings cursor stack root rule: contract_loop.induct)
  case (1 sb strings cursor stack root)
  obtain tok nx where tn: "next_token sb cursor = Inr (tok, nx)"
    using "1.prems"(1) by (subst (asm) contract_loop.simps) auto
  note run = "1.prems"(1) [unfolded contract_loop.simps [of sb strings cursor] tn bind_io_simps prod.case]
  show ?case
  proof (cases tok)
    case (TokBegin name)
    then have step: "contract_loop sb strings nx (node_new name # stack) root = Inr r"
      "stack = [] \<longrightarrow> root = None \<and> name = []" "length stack < 64"
      using run by (auto split: if_splits)
    have "stack_wf (node_new name # stack)"
      using step(2,3) "1.prems"(2) next_token_begin_name [OF tn [unfolded TokBegin]]
      by (simp add: node_wf_iff [of "length stack"] node_new_def)
    then show ?thesis using "1.IH"(1) [OF tn refl TokBegin] step "1.prems"(3) by auto
  next
    case TokEndNode
    show ?thesis
    proof (cases stack)
      case Nil
      then show ?thesis using run TokEndNode by simp
    next
      case (Cons n up)
      show ?thesis
      proof (cases up)
        case Nil
        then have "contract_loop sb strings nx [] (Some n) = Inr r" using run TokEndNode Cons by simp
        moreover have "root_wf (Some n)" using "1.prems"(2) Cons Nil by (simp add: root_wf_def)
        ultimately show ?thesis using "1.IH"(2) [OF tn refl TokEndNode Cons Nil] by simp
      next
        case (Cons parent up')
        note stack = \<open>stack = n # up\<close> Cons
        let ?p = "Node (nname parent) (nprops parent) (nchildren parent @ [n])"
        have step: "child parent (nname n) = None" "contract_loop sb strings nx (?p # up') root = Inr r"
          using run TokEndNode stack by (auto split: if_splits)
        have "node_wf (length up') ?p"
          using "1.prems"(2) stack step(1) by (auto simp: node_wf_iff [of "length up'"] child_None)
        then have "stack_wf (?p # up')" using "1.prems"(2) stack by simp
        then show ?thesis using "1.IH"(3) [OF tn refl TokEndNode stack] step "1.prems"(3) by simp
      qed
    qed
  next
    case (TokProp parts)
    show ?thesis
    proof (cases "string_at strings (p_nameoff parts)")
      case None
      then show ?thesis using run TokProp by simp
    next
      case (Some name)
      show ?thesis
      proof (cases stack)
        case Nil
        then show ?thesis using run TokProp Some by simp
      next
        case (Cons n up)
        let ?v = "slice sb (p_value_start parts) (p_value_end parts)"
        have step: "get_prop n name = None" "nchildren n = []"
          "contract_loop sb strings nx (set_prop n name ?v # up) root = Inr r"
          using run TokProp Some Cons by (auto split: if_splits)
        have "length ?v < 2 ^ 32"
          using next_token_prop_len [OF tn [unfolded TokProp]] by simp
        then have "stack_wf (set_prop n name ?v # up)"
          using "1.prems"(2) Cons step(1) string_at_no_nul [OF Some] by (auto intro: set_prop_wf)
        then show ?thesis
          using "1.IH"(4) [OF tn refl TokProp Some Cons] step "1.prems"(3) by auto
      qed
    qed
  next
    case TokNop
    then show ?thesis using "1.IH"(5) [OF tn refl TokNop] run "1.prems" by simp
  next
    case TokEnd
    then show ?thesis using run "1.prems"(3) by (auto simp: root_wf_def split: if_splits)
  qed
qed


text \<open>Every tree that \<open>contract_tree\<close> accepts, from any input bytes, is well formed: its root is
  the single unnamed one, no node repeats a property or a child name, names hold no NUL, values
  fit the 32-bit length field and nesting stays within 64 levels.\<close>

theorem contract_tree_wf:
  assumes "contract_tree dtb = Inr root"
  shows "node_wf 0 root \<and> nname root = []"
  using assms contract_loop_wf by (auto simp: contract_tree_def root_wf_def)

section \<open>The grammar is exactly what the parser accepts\<close>

lemma contract_loop_step:
  assumes "contract_loop sb strings c stack root = Inr r" and "4 dvd c"
  shows "\<exists>b e nx. next_token sb c = Inr (token_of c e, nx) \<and> c + 4 \<le> nx \<and> nx \<le> length sb \<and> 4 dvd nx \<and>
    slice sb c nx = b \<and> chunk b e"
proof -
  have "\<exists>t nx. next_token sb c = Inr (t, nx) \<and> c + 4 \<le> nx \<and> nx \<le> length sb"
  proof -
    obtain t nx where tn: "next_token sb c = Inr (t, nx)"
      using assms(1) by (subst (asm) contract_loop.simps) auto
    have fits: "c' + 4 \<le> length sb" if "contract_loop sb strings c' st' rt' = Inr r" for c' st' rt'
      using that by (subst (asm) contract_loop.simps) (auto dest: next_token_progress(2))
    have "nx \<le> length sb"
    proof (cases t)
      case TokEnd
      then show ?thesis using tn by (auto simp: next_token_def Let_def split: if_splits)
    next
      case TokEndNode
      then show ?thesis using tn by (auto simp: next_token_def Let_def split: if_splits)
    next
      case TokNop
      then show ?thesis using tn by (auto simp: next_token_def Let_def split: if_splits)
    next
      case (TokProp parts)
      then show ?thesis using tn by (auto simp: next_token_def fdt_property_parts_def Let_def not_less split: if_splits)
    next
      case (TokBegin name)
      then obtain st' rt' where "contract_loop sb strings nx st' rt' = Inr r"
        using assms(1) tn by (subst (asm) contract_loop.simps) (auto split: if_splits)
      then show ?thesis using fits by fastforce
    qed
    then show ?thesis using tn next_token_progress(1) [OF tn] by blast
  qed
  then obtain t nx where tn: "next_token sb c = Inr (t, nx)" "c + 4 \<le> nx" "nx \<le> length sb" by blast
  obtain e where e: "chunk (slice sb c nx) e" "t = token_of c e"
    using next_token_is_chunk [OF tn(1) assms(2) tn(3)] by blast
  have "4 dvd nx"
    using chunk_dvd4 [OF e(1)] tn(2,3) assms(2) by (metis dvd_add_right_iff le_add_diff_inverse length_slice add_leE)
  then show ?thesis using tn e by blast
qed

lemma props_nops_nodes: "props_bytes strings ps w \<Longrightarrow> ps = [] \<Longrightarrow> nodes_bytes strings [] w"
  by (induction rule: props_bytes.induct) (auto intro: node_bytes_nodes_bytes.intros)

definition body_of :: "bytes \<Rightarrow> bytes \<Rightarrow> nat \<Rightarrow> nat \<Rightarrow> node \<Rightarrow> node \<Rightarrow> bool" where
  "body_of strings sb c c' n n' \<longleftrightarrow>
     (\<exists>u w ps cs. c \<le> c' \<and> c' \<le> length sb \<and> 4 dvd c' \<and> slice sb c c' = u @ w @ end_node_bytes \<and>
        props_bytes strings ps u \<and> nodes_bytes strings cs w \<and> (nchildren n \<noteq> [] \<longrightarrow> ps = []) \<and>
        n' = Node (nname n) (nprops n @ ps) (nchildren n @ cs))"

lemma body_of_node:
  assumes "body_of strings sb nx c' (node_new name) n'" and "slice sb c nx = b" and "chunk b (EvBegin name)"
    and "c \<le> nx"
  shows "node_bytes strings n' (slice sb c c') \<and> nname n' = name \<and> nx \<le> c' \<and> c' \<le> length sb \<and> 4 dvd c'"
  using assms slice_split [of c nx c' sb]
  by (auto simp: body_of_def node_new_def intro: node_bytes_nodes_bytes.intros)

lemma contract_loop_body:
  "contract_loop sb strings c (n # up) root = Inr r \<Longrightarrow> 4 dvd c \<Longrightarrow>
   \<exists>c' n' st rt. body_of strings sb c c' n n' \<and> close_node n' up root = (st, rt) \<and>
     contract_loop sb strings c' st rt = Inr r"
proof (induction "length sb - c" arbitrary: c n up root rule: less_induct)
  case less
  obtain b e nx where st: "next_token sb c = Inr (token_of c e, nx)" "c + 4 \<le> nx" "nx \<le> length sb" "4 dvd nx"
      "slice sb c nx = b" "chunk b e"
    using contract_loop_step [OF less.prems] by blast
  have smaller: "length sb - c1 < length sb - c" if "nx \<le> c1" for c1 using st(2,3) that by linarith
  note run = less.prems(1) [unfolded contract_loop.simps [of sb strings c] st(1) bind_io_simps prod.case]
  show ?case
  proof (cases e)
    case (EvBegin name)
    then have go: "contract_loop sb strings nx (node_new name # n # up) root = Inr r"
      using run by (auto split: if_splits)
    obtain c1 m where m: "body_of strings sb nx c1 (node_new name) m"
        "contract_loop sb strings c1 (Node (nname n) (nprops n) (nchildren n @ [m]) # up) root = Inr r"
      using less.hyps [OF smaller [OF order_refl] go st(4)] by auto
    have node: "node_bytes strings m (slice sb c c1)" "nx \<le> c1" "c1 \<le> length sb" "4 dvd c1"
      using body_of_node [OF m(1) st(5) st(6) [unfolded EvBegin]] st(2) by auto
    obtain c2 n' s' r' where rest: "body_of strings sb c1 c2 (Node (nname n) (nprops n) (nchildren n @ [m])) n'"
        "close_node n' up root = (s', r')" "contract_loop sb strings c2 s' r' = Inr r"
      using less.hyps [OF smaller [OF node(2)] m(2) node(4)] by blast
    obtain u w cs where rb: "c1 \<le> c2" "c2 \<le> length sb" "4 dvd c2" "slice sb c1 c2 = u @ w @ end_node_bytes"
        "props_bytes strings [] u" "nodes_bytes strings cs w" "n' = Node (nname n) (nprops n) (nchildren n @ [m] @ cs)"
      using rest(1) by (auto simp: body_of_def)
    have "nodes_bytes strings (m # cs) (slice sb c c1 @ u @ w)"
      using nodes_bytes_join(2) [OF props_nops_nodes [OF rb(5) refl] rb(6)] node(1)
      by (auto intro: node_bytes_nodes_bytes.intros)
    moreover have "slice sb c c2 = [] @ (slice sb c c1 @ u @ w) @ end_node_bytes"
      using slice_split [of c c1 c2 sb] node(2) rb(1,4) st(2) by simp
    ultimately have "body_of strings sb c c2 n n'"
      unfolding body_of_def using rb node(2) st(2) props_Nil
      by (intro exI [of _ "[]"] exI [of _ "slice sb c c1 @ u @ w"] exI [of _ "m # cs"]) simp
    then show ?thesis using rest by blast
  next
    case EvEndNode
    obtain s' r' where close: "close_node n up root = (s', r')" by (cases "close_node n up root")
    then have "contract_loop sb strings nx s' r' = Inr r"
      using run EvEndNode by (cases up) (auto split: if_splits)
    moreover have "body_of strings sb c nx n n"
      unfolding body_of_def using st EvEndNode tree_bytes_intros
      by (intro exI [of _ "[]"]) auto
    ultimately show ?thesis using close by blast
  next
    case (EvProp off v)
    then obtain k where k: "string_at strings off = Some k" "get_prop n k = None" "nchildren n = []"
        "contract_loop sb strings nx (set_prop n k v # up) root = Inr r"
      using run chunk_value_in [OF st(6) [unfolded EvProp] st(5)] st(2,3)
      by (auto split: option.splits if_splits)
    have fresh: "set_prop n k v = Node (nname n) (nprops n @ [(k, v)]) []"
      using k(2,3) by (simp add: set_prop_def set_assoc_fresh get_prop_def map_of_eq_None_iff)
    obtain c2 n' s' r' where rest: "body_of strings sb nx c2 (set_prop n k v) n'"
        "close_node n' up root = (s', r')" "contract_loop sb strings c2 s' r' = Inr r"
      using less.hyps [OF smaller [OF order_refl] k(4) st(4)] by blast
    obtain u w ps cs where rb: "nx \<le> c2" "c2 \<le> length sb" "4 dvd c2" "slice sb nx c2 = u @ w @ end_node_bytes"
        "props_bytes strings ps u" "nodes_bytes strings cs w" "n' = Node (nname n) (nprops n @ (k, v) # ps) cs"
      using rest(1) fresh by (auto simp: body_of_def)
    have "slice sb c c2 = (b @ u) @ w @ end_node_bytes"
      using slice_split [of c nx c2 sb] rb(1,4) st(2,5) by simp
    then have "body_of strings sb c c2 n n'"
      unfolding body_of_def using rb st(2) k(3) props_Cons [OF st(6) [unfolded EvProp] k(1) rb(5)]
      by (intro exI [of _ "b @ u"] exI [of _ w] exI [of _ "(k, v) # ps"] exI [of _ cs]) simp
    then show ?thesis using rest by blast
  next
    case EvNop
    then have go: "contract_loop sb strings nx (n # up) root = Inr r" using run by simp
    obtain c2 n' s' r' where rest: "body_of strings sb nx c2 n n'"
        "close_node n' up root = (s', r')" "contract_loop sb strings c2 s' r' = Inr r"
      using less.hyps [OF smaller [OF order_refl] go st(4)] by blast
    obtain u w ps cs where rb: "nx \<le> c2" "c2 \<le> length sb" "4 dvd c2" "slice sb nx c2 = u @ w @ end_node_bytes"
        "props_bytes strings ps u" "nodes_bytes strings cs w" "nchildren n \<noteq> [] \<longrightarrow> ps = []"
        "n' = Node (nname n) (nprops n @ ps) (nchildren n @ cs)"
      using rest(1) by (auto simp: body_of_def)
    have "slice sb c c2 = (nop_bytes @ u) @ w @ end_node_bytes"
      using slice_split [of c nx c2 sb] rb(1,4) st EvNop by simp
    then have "body_of strings sb c c2 n n'"
      unfolding body_of_def using rb st(2) props_Nop [OF rb(5)]
      by (intro exI [of _ "nop_bytes @ u"] exI [of _ w] exI [of _ ps] exI [of _ cs]) simp
    then show ?thesis using rest by blast
  next
    case EvEnd
    then show ?thesis using run by simp
  qed
qed


lemma contract_loop_closed:
  "contract_loop sb strings c [] (Some x) = Inr r \<Longrightarrow> 4 dvd c \<Longrightarrow>
   r = x \<and> (\<exists>v rest. drop c sb = v @ end_bytes @ rest \<and> nops v)"
proof (induction "length sb - c" arbitrary: c rule: less_induct)
  case less
  obtain b e nx where st: "next_token sb c = Inr (token_of c e, nx)" "c + 4 \<le> nx" "nx \<le> length sb" "4 dvd nx"
      "slice sb c nx = b" "chunk b e"
    using contract_loop_step [OF less.prems] by blast
  note run = less.prems(1) [unfolded contract_loop.simps [of sb strings c] st(1) bind_io_simps prod.case]
  have split: "drop c sb = b @ drop nx sb"
    using slice_split [of c nx "length sb" sb] st(2,3,5) by (simp add: slice_def)
  show ?case
  proof (cases e)
    case EvNop
    then have "contract_loop sb strings nx [] (Some x) = Inr r" using run by simp
    moreover have "length sb - nx < length sb - c" using st(2,3) by linarith
    ultimately obtain v rest where "r = x" "drop nx sb = v @ end_bytes @ rest" "nops v"
      using less.hyps [of nx] st(4) by blast
    moreover from this have "drop c sb = (nop_bytes @ v) @ end_bytes @ rest" using split st(6) EvNop by simp
    ultimately show ?thesis using nops_Cons [of v] by blast
  next
    case EvEnd
    then have "r = x" "drop c sb = [] @ end_bytes @ drop nx sb" using run st(6) split by simp_all
    then show ?thesis using nops_Nil by blast
  qed (use run in \<open>auto split: option.splits\<close>)
qed

lemma contract_loop_start:
  "contract_loop sb strings c [] None = Inr r \<Longrightarrow> 4 dvd c \<Longrightarrow>
   \<exists>u w v rest. drop c sb = u @ w @ v @ end_bytes @ rest \<and> nops u \<and> node_bytes strings r w \<and> nops v"
proof (induction "length sb - c" arbitrary: c rule: less_induct)
  case less
  obtain b e nx where st: "next_token sb c = Inr (token_of c e, nx)" "c + 4 \<le> nx" "nx \<le> length sb" "4 dvd nx"
      "slice sb c nx = b" "chunk b e"
    using contract_loop_step [OF less.prems] by blast
  note run = less.prems(1) [unfolded contract_loop.simps [of sb strings c] st(1) bind_io_simps prod.case]
  have split: "drop c sb = slice sb c c1 @ drop c1 sb" if "c \<le> c1" "c1 \<le> length sb" for c1
    using slice_split [of c c1 "length sb" sb] that by (simp add: slice_def)
  show ?case
  proof (cases e)
    case (EvBegin name)
    then have "contract_loop sb strings nx (node_new name # []) None = Inr r"
      using run by (auto split: if_splits)
    then obtain c1 m where m: "body_of strings sb nx c1 (node_new name) m" "contract_loop sb strings c1 [] (Some m) = Inr r"
      using contract_loop_body [OF _ st(4)] by force
    have node: "node_bytes strings m (slice sb c c1)" "nx \<le> c1" "c1 \<le> length sb" "4 dvd c1"
      using body_of_node [OF m(1) st(5) st(6) [unfolded EvBegin]] st(2) by auto
    obtain v rest where "m = r" "drop c1 sb = v @ end_bytes @ rest" "nops v"
      using contract_loop_closed [OF m(2) node(4)] by blast
    moreover have "c \<le> c1" using node(2) st(2) by simp
    ultimately have "drop c sb = [] @ slice sb c c1 @ v @ end_bytes @ rest \<and> node_bytes strings r (slice sb c c1)"
      using split [of c1] node(1,3) by simp
    then show ?thesis using nops_Nil \<open>nops v\<close> by blast
  next
    case EvNop
    then have "contract_loop sb strings nx [] None = Inr r" using run by simp
    moreover have "length sb - nx < length sb - c" using st(2,3) by linarith
    ultimately obtain u w v rest where ih: "drop nx sb = u @ w @ v @ end_bytes @ rest" "nops u" "node_bytes strings r w" "nops v"
      using less.hyps [of nx] st(4) by blast
    have "drop c sb = (nop_bytes @ u) @ w @ v @ end_bytes @ rest"
      using split [of nx] st(2,3,5,6) EvNop ih(1) by simp
    then show ?thesis using ih nops_Cons [of u] by blast
  qed (use run in \<open>auto split: option.splits\<close>)
qed

theorem contract_loop_grammar:
  assumes "length sb + 8 < usize_limit"
  shows "contract_loop sb strings 0 [] None = Inr root \<longleftrightarrow> tree_block strings root sb"
proof
  assume run: "contract_loop sb strings 0 [] None = Inr root"
  then have "node_wf 0 root \<and> nname root = []" by (rule contract_loop_wf) (simp_all add: root_wf_def)
  then show "tree_block strings root sb"
    using contract_loop_start [OF run] unfolding tree_block_def by (simp only: dvd_0_right drop_0)
qed (rule contract_loop_tree_block [OF _ assms])

lemma contract_tree_block:
  assumes "contract_tree dtb = Inr root"
  obtains h sb strings where "fdt_header_parse dtb = Inr h"
    and "\<And>m. fdt_checked_slice dtb (off_dt_struct h) (size_dt_struct h) m = Inr sb"
    and "\<And>m. fdt_checked_slice dtb (off_dt_strings h) (size_dt_strings h) m = Inr strings"
    and "tree_block strings root sb" and "length sb < 2 ^ 32"
proof -
  obtain h sb strings where h: "fdt_header_parse dtb = Inr h"
    and sb: "fdt_checked_slice dtb (off_dt_struct h) (size_dt_struct h) ''DTB structure block'' = Inr sb"
    and strings: "fdt_checked_slice dtb (off_dt_strings h) (size_dt_strings h) ''DTB strings block'' = Inr strings"
    and run: "contract_loop sb strings 0 [] None = Inr root"
    using assms by (auto simp: contract_tree_def)
  have "length sb < 2 ^ 32"
    using sb fdt_header_parse_bounds(4,6) [OF h] by auto
  then show ?thesis
    using that [OF h] sb strings run contract_loop_grammar [of sb strings root] by (auto simp: usize_limit_def)
qed

section \<open>The round trip\<close>

lemma header_of_built:
  "build_dtb old rm sb st = Inr out \<Longrightarrow> rm \<noteq> [] \<Longrightarrow>
   \<exists>h. fdt_header_parse out = Inr h \<and> h = built_header old rm sb st \<and>
       length sb + length st < 2 ^ 32"
  using header_parse_built [of old rm sb st out] by (auto simp: build_dtb_Inr built_header_def Let_def)

lemma contract_tree_of_block:
  assumes "build_dtb old rm sb st = Inr out" and "rm \<noteq> []" and "tree_block st root sb"
  shows "contract_tree out = Inr root"
proof -
  obtain h where h: "fdt_header_parse out = Inr h" "h = built_header old rm sb st" "length sb + length st < 2 ^ 32"
    using header_of_built [OF assms(1,2)] by auto
  note blocks = built_blocks(1,2) [OF assms(1) h(2)]
  have "contract_loop sb st 0 [] None = Inr root"
    using contract_loop_tree_block [OF assms(3)] h(3) by (simp add: usize_limit_def)
  then show ?thesis
    using h(1) by (simp add: contract_tree_def blocks del: fdt_checked_slice_Inr)
qed

lemma build_dtb_keeps_reserve_map:
  assumes "fdt_header_parse dtb = Inr h" and "reserve_map dtb h = Inr rm" and "build_dtb old rm sb st = Inr out"
  shows "\<exists>h'. fdt_header_parse out = Inr h' \<and> reserve_map out h' = Inr rm" and "rm \<noteq> []"
proof -
  obtain es where es: "rm = enc_rsv es" "\<forall>e \<in> set es. e \<noteq> (0, 0)"
    using reserve_map_shape [OF assms(1,2)] by blast
  then show ne: "rm \<noteq> []" by simp
  obtain h' where h': "fdt_header_parse out = Inr h'" "h' = built_header old rm sb st"
    using header_of_built [OF assms(3) ne] by auto
  then show "\<exists>h'. fdt_header_parse out = Inr h' \<and> reserve_map out h' = Inr rm"
    using built_blocks(3) [OF assms(3) h'(2) es] by blast
qed

lemma build_contract_tree_parses:
  assumes "build_contract_tree dtb root (enc_rsv es) = Inr out" and "node_wf 0 root" and "nname root = []"
    and "\<forall>e \<in> set es. e \<noteq> (0, 0)"
  shows "contract_tree out = Inr root \<and>
    (\<exists>h. fdt_header_parse out = Inr h \<and> reserve_map out h = Inr (enc_rsv es))"
proof -
  obtain old sb st where sb: "write_node root ([], []) = Inr (sb, st)"
    and out: "build_dtb old (enc_rsv es) (write_be32 sb FDT_END) st = Inr out"
    using assms(1) by (auto simp: build_contract_tree_def)
  have "node_bytes st root sb" using write_node_bytes(1) [OF sb assms(2)] by auto
  then have block: "tree_block st root (write_be32 sb FDT_END)"
    using assms(2,3) nops_Nil unfolding tree_block_def write_be32_def
    by (metis append_Nil append_Nil2)
  obtain h where h: "fdt_header_parse out = Inr h" "h = built_header old (enc_rsv es) (write_be32 sb FDT_END) st"
    "length (write_be32 sb FDT_END) + length st < 2 ^ 32"
    using header_of_built [OF out] by auto
  note blocks = built_blocks [OF out h(2)]
  have "contract_loop (write_be32 sb FDT_END) st 0 [] None = Inr root"
    using contract_loop_tree_block [OF block] h(3) by (simp add: usize_limit_def)
  then show ?thesis
    using h(1) blocks(3) [OF refl assms(4)]
    by (simp add: contract_tree_def blocks(1,2) del: fdt_checked_slice_Inr)
qed

text \<open>C23: Writing a well-formed tree and parsing the blob gives the tree back, and the memory reserve
  map of the blob is the one that was passed in.\<close>

theorem contract_tree_build:
  assumes "build_contract_tree dtb root (enc_rsv es) = Inr out" and "node_wf 0 root" and "nname root = []"
    and "\<forall>e \<in> set es. e \<noteq> (0, 0)"
  shows "contract_tree out = Inr root \<and>
    (\<exists>h. fdt_header_parse out = Inr h \<and> reserve_map out h = Inr (enc_rsv es))"
  using build_contract_tree_parses [OF assms] by blast

definition demo_blob :: bytes where
  "demo_blob =
     (case build_dtb \<lparr>totalsize = 0, off_dt_struct = 0, off_dt_strings = 0, off_mem_rsvmap = 0,
        version = 17, last_comp_version = 16, boot_cpuid_phys = 0, size_dt_strings = 0, size_dt_struct = 0\<rparr>
        (enc_rsv [(0x80000000, 0x1000)]) (enc_events [EvBegin [], EvBegin (bytes_of ''chosen''), EvEndNode, EvEndNode, EvEnd]) []
      of Inr b \<Rightarrow> b | Inl _ \<Rightarrow> [])"

definition demo_tree :: node where
  "demo_tree =
     Node [] [(bytes_of ''model'', bytes_of ''demo'' @ [0]), (bytes_of ''serial'', [])]
       [Node (bytes_of ''chosen'') [(bytes_of ''model'', [1, 2, 3])] [], Node (bytes_of ''cpus'') [] []]"

lemma contract_tree_wf_witness:
  "contract_tree demo_blob = Inr (Node [] [] [Node (bytes_of ''chosen'') [] []]) \<and>
   node_wf 0 (Node [] [] [Node (bytes_of ''chosen'') [] []])"
proof -
  have run: "contract_tree demo_blob = Inr (Node [] [] [Node (bytes_of ''chosen'') [] []])"
    by code_simp
  show ?thesis using run contract_tree_wf [OF run] by simp
qed

lemma contract_tree_build_witness:
  "\<exists>out. build_contract_tree demo_blob demo_tree (enc_rsv [(0x80000000, 0x1000)]) = Inr out \<and>
     contract_tree out = Inr demo_tree"
proof -
  obtain out where run: "build_contract_tree demo_blob demo_tree (enc_rsv [(0x80000000, 0x1000)]) = Inr out"
  proof -
    have "\<not> isl (build_contract_tree demo_blob demo_tree (enc_rsv [(0x80000000, 0x1000)]))" by code_simp
    then show ?thesis using that by (cases "build_contract_tree demo_blob demo_tree (enc_rsv [(0x80000000, 0x1000)])") auto
  qed
  have "node_wf 0 demo_tree" "nname demo_tree = []"
    by (simp_all add: demo_tree_def bytes_of_def)
  then show ?thesis using run contract_tree_build [OF run] by auto
qed

end
