(* ===== verification/FdtPatch.thy ===== *)
theory FdtPatch
  imports ContractTree
begin

text \<open>
  Rewriting the \<open>/chosen\<close> node of a device tree (\<open>patch_chosen\<close> of \<open>src/kexec.rs\<close>): the walker
  copies the structure block token by token, drops the boot properties of \<open>/chosen\<close> and inserts
  the new ones. Read back as a tree, the result is the input tree with just that node changed.
\<close>

abbreviation PROP_BOOTARGS :: bytes where "PROP_BOOTARGS \<equiv> bytes_of ''bootargs''"
abbreviation PROP_INITRD_START :: bytes where "PROP_INITRD_START \<equiv> bytes_of ''linux,initrd-start''"
abbreviation PROP_INITRD_END :: bytes where "PROP_INITRD_END \<equiv> bytes_of ''linux,initrd-end''"
abbreviation PROP_BOOTED_FROM_KEXEC :: bytes where "PROP_BOOTED_FROM_KEXEC \<equiv> bytes_of ''linux,booted-from-kexec''"
abbreviation chosen_name :: bytes where "chosen_name \<equiv> bytes_of ''chosen''"

record chosen_offsets =
  co_bootargs :: u32
  co_initrd_start :: u32
  co_initrd_end :: u32
  co_booted_from_kexec :: u32

definition is_root :: "bytes list \<Rightarrow> bool" where
  "is_root stack \<longleftrightarrow> length stack = 1 \<and> stack ! 0 = []"

definition is_chosen :: "bytes list \<Rightarrow> bool" where
  "is_chosen stack \<longleftrightarrow> length stack = 2 \<and> stack ! 0 = [] \<and> stack ! 1 = chosen_name"

definition should_replace_chosen_prop :: "bytes \<Rightarrow> bool" where
  "should_replace_chosen_prop name \<longleftrightarrow>
     name = PROP_BOOTARGS \<or> name = PROP_INITRD_START \<or> name = PROP_INITRD_END \<or> name = PROP_BOOTED_FROM_KEXEC"

definition append_chosen_props :: "bytes \<Rightarrow> chosen_offsets \<Rightarrow> string \<Rightarrow> (u64 \<times> u64) option \<Rightarrow> bytes" where
  "append_chosen_props output offsets cmdline initrd =
     (let output = (if cmdline \<noteq> [] then fdt_write_prop output (co_bootargs offsets) (bytes_of cmdline @ [0]) else output);
          output = (case initrd of
                      Some (s, e) \<Rightarrow>
                        fdt_write_prop (fdt_write_prop output (co_initrd_start offsets) (to_be_bytes 8 s))
                          (co_initrd_end offsets) (to_be_bytes 8 e)
                    | None \<Rightarrow> output)
      in fdt_write_prop output (co_booted_from_kexec offsets) [])"

function patch_loop ::
  "bytes \<Rightarrow> bytes \<Rightarrow> chosen_offsets \<Rightarrow> string \<Rightarrow> (u64 \<times> u64) option \<Rightarrow>
   nat \<Rightarrow> bytes \<Rightarrow> bytes list \<Rightarrow> bool \<Rightarrow> bool \<Rightarrow> bytes io" where
  "patch_loop sb strings offsets cmdline initrd cursor output stack saw_root saw_chosen =
     bind_io (next_token sb cursor) (\<lambda>tn.
     case tn of (tok, nx) \<Rightarrow>
     (case tok of
        TokBegin name \<Rightarrow>
          (let output = fdt_write_begin_node output name in
           if stack = [] \<and> name \<noteq> [] then invalid_data ''DTB root node name is not empty''
           else
             (let saw_root = (saw_root \<or> stack = []); stack = stack @ [name] in
              if is_chosen stack
              then patch_loop sb strings offsets cmdline initrd nx
                     (append_chosen_props output offsets cmdline initrd) stack saw_root True
              else patch_loop sb strings offsets cmdline initrd nx output stack saw_root saw_chosen))
      | TokEndNode \<Rightarrow>
          (let add = is_root stack \<and> \<not> saw_chosen;
               output = (if add
                 then write_be32 (append_chosen_props (fdt_write_begin_node output chosen_name) offsets cmdline initrd) FDT_END_NODE
                 else output);
               output = write_be32 output FDT_END_NODE in
           if stack = [] then invalid_data ''DTB structure has too many END_NODE tokens''
           else patch_loop sb strings offsets cmdline initrd nx output (butlast stack) saw_root (saw_chosen \<or> add))
      | TokProp parts \<Rightarrow>
          (let prop_name = (case string_at strings (p_nameoff parts) of Some name \<Rightarrow> name | None \<Rightarrow> []);
               output = (if \<not> (is_chosen stack \<and> should_replace_chosen_prop prop_name)
                         then output @ slice sb cursor nx else output) in
           patch_loop sb strings offsets cmdline initrd nx output stack saw_root saw_chosen)
      | TokNop \<Rightarrow>
          patch_loop sb strings offsets cmdline initrd nx (output @ slice sb cursor nx) stack saw_root saw_chosen
      | TokEnd \<Rightarrow>
          if \<not> saw_root then invalid_data ''DTB structure has no root node''
          else if stack \<noteq> [] then invalid_data ''DTB structure ended before all nodes were closed''
          else Inr (write_be32 output FDT_END)))"
  by pat_completeness auto
termination
  by (relation "measure (\<lambda>(sb, strings, offsets, cmdline, initrd, cursor, _). length sb - cursor)")
    (auto dest!: next_token_measure)

declare patch_loop.simps [simp del]

definition patch_structure_block ::
  "bytes \<Rightarrow> bytes \<Rightarrow> chosen_offsets \<Rightarrow> string \<Rightarrow> (u64 \<times> u64) option \<Rightarrow> bytes io" where
  "patch_structure_block struct_block strings offsets cmdline initrd =
     patch_loop struct_block strings offsets cmdline initrd 0 [] [] False False"

definition patch_chosen :: "bytes \<Rightarrow> string \<Rightarrow> (u64 \<times> u64) option \<Rightarrow> bytes io" where
  "patch_chosen dtb cmdline initrd =
     bind_io (fdt_header_parse dtb) (\<lambda>header.
     bind_io (reserve_map dtb header) (\<lambda>rsv.
     bind_io (fdt_checked_slice dtb (off_dt_struct header) (size_dt_struct header) ''DTB structure block'') (\<lambda>struct_block.
     bind_io (fdt_checked_slice dtb (off_dt_strings header) (size_dt_strings header) ''DTB strings block'') (\<lambda>strings.
     bind_io (ensure_string strings PROP_BOOTARGS) (\<lambda>(strings, o1).
     bind_io (ensure_string strings PROP_INITRD_START) (\<lambda>(strings, o2).
     bind_io (ensure_string strings PROP_INITRD_END) (\<lambda>(strings, o3).
     bind_io (ensure_string strings PROP_BOOTED_FROM_KEXEC) (\<lambda>(strings, o4).
     bind_io (patch_structure_block struct_block strings
                \<lparr>co_bootargs = o1, co_initrd_start = o2, co_initrd_end = o3, co_booted_from_kexec = o4\<rparr>
                cmdline initrd) (\<lambda>new_struct.
     build_dtb header rsv new_struct strings)))))))))"

section \<open>The tree that is meant\<close>

definition chosen_props :: "string \<Rightarrow> (u64 \<times> u64) option \<Rightarrow> (bytes \<times> bytes) list" where
  "chosen_props cmdline initrd =
     (if cmdline \<noteq> [] then [(PROP_BOOTARGS, bytes_of cmdline @ [0])] else []) @
     (case initrd of
        Some (s, e) \<Rightarrow> [(PROP_INITRD_START, to_be_bytes 8 s), (PROP_INITRD_END, to_be_bytes 8 e)]
      | None \<Rightarrow> []) @
     [(PROP_BOOTED_FROM_KEXEC, [])]"

definition patch_chosen_node :: "string \<Rightarrow> (u64 \<times> u64) option \<Rightarrow> node \<Rightarrow> node" where
  "patch_chosen_node cmdline initrd n =
     Node (nname n)
       (chosen_props cmdline initrd @ filter (\<lambda>(k, _). \<not> should_replace_chosen_prop k) (nprops n))
       (nchildren n)"

definition patch_child :: "string \<Rightarrow> (u64 \<times> u64) option \<Rightarrow> node \<Rightarrow> node" where
  "patch_child cmdline initrd c = (if nname c = chosen_name then patch_chosen_node cmdline initrd c else c)"

definition patch_tree :: "string \<Rightarrow> (u64 \<times> u64) option \<Rightarrow> node \<Rightarrow> node" where
  "patch_tree cmdline initrd n =
     Node (nname n) (nprops n)
       (map (patch_child cmdline initrd) (nchildren n) @
        (if chosen_name \<in> nname ` set (nchildren n) then []
         else [patch_chosen_node cmdline initrd (node_new chosen_name)]))"

section \<open>The walker reads the grammar\<close>

definition offsets_ok :: "bytes \<Rightarrow> chosen_offsets \<Rightarrow> bool" where
  "offsets_ok strings o' \<longleftrightarrow>
     string_at strings (co_bootargs o') = Some PROP_BOOTARGS \<and>
     string_at strings (co_initrd_start o') = Some PROP_INITRD_START \<and>
     string_at strings (co_initrd_end o') = Some PROP_INITRD_END \<and>
     string_at strings (co_booted_from_kexec o') = Some PROP_BOOTED_FROM_KEXEC"

lemma write_prop_bytes:
  assumes "4 dvd length out" and "length v < 2 ^ 32" and "string_at strings off = Some k"
  shows "\<exists>w. fdt_write_prop out off v = out @ w \<and> props_bytes strings [(k, v)] w \<and> 4 dvd length (out @ w)"
proof -
  let ?w = "enc_event (EvProp off v)"
  have c: "chunk ?w (EvProp off v)" using assms(2) by (intro chunk_enc_event) simp
  then have "props_bytes strings [(k, v)] (?w @ [])"
    using assms(3) by (intro props_bytes.intros)
  moreover have "4 dvd length (out @ ?w)" using assms(1) chunk_dvd4 [OF c] by simp
  ultimately show ?thesis using fdt_write_prop_enc [OF assms(1)] by auto
qed

lemma append_chosen_bytes:
  assumes "4 dvd length out" and "length cmdline < 2 ^ 32 - 1" and "offsets_ok strings o'"
  shows "\<exists>w. append_chosen_props out o' cmdline initrd = out @ w \<and>
    props_bytes strings (chosen_props cmdline initrd) w \<and> 4 dvd length (out @ w)"
proof -
  note ok = assms(3) [unfolded offsets_ok_def]
  obtain u where u: "(if cmdline \<noteq> [] then fdt_write_prop out (co_bootargs o') (bytes_of cmdline @ [0]) else out) = out @ u"
      "props_bytes strings (if cmdline \<noteq> [] then [(PROP_BOOTARGS, bytes_of cmdline @ [0])] else []) u" "4 dvd length (out @ u)"
  proof (cases "cmdline = []")
    case True
    then show ?thesis using that [of "[]"] assms(1) props_Nil by simp
  next
    case False
    have "length (bytes_of cmdline @ [0]) < 2 ^ 32" using assms(2) by simp
    then show ?thesis using write_prop_bytes [OF assms(1), of "bytes_of cmdline @ [0]" strings] ok False that by fastforce
  qed
  obtain v where v: "(case initrd of
        Some (s, e) \<Rightarrow> fdt_write_prop (fdt_write_prop (out @ u) (co_initrd_start o') (to_be_bytes 8 s))
                      (co_initrd_end o') (to_be_bytes 8 e)
      | None \<Rightarrow> out @ u) = out @ u @ v"
      "props_bytes strings (case initrd of
        Some (s, e) \<Rightarrow> [(PROP_INITRD_START, to_be_bytes 8 s), (PROP_INITRD_END, to_be_bytes 8 e)] | None \<Rightarrow> []) v"
      "4 dvd length (out @ u @ v)"
  proof (cases initrd)
    case None
    then show ?thesis using that [of "[]"] u(3) props_Nil by simp
  next
    case (Some r)
    obtain s e where r: "r = (s, e)" by (cases r)
    obtain v1 where v1: "fdt_write_prop (out @ u) (co_initrd_start o') (to_be_bytes 8 s) = (out @ u) @ v1"
        "props_bytes strings [(PROP_INITRD_START, to_be_bytes 8 s)] v1" "4 dvd length ((out @ u) @ v1)"
      using write_prop_bytes [OF u(3), of "to_be_bytes 8 s" strings] ok by auto
    obtain v2 where v2: "fdt_write_prop ((out @ u) @ v1) (co_initrd_end o') (to_be_bytes 8 e) = ((out @ u) @ v1) @ v2"
        "props_bytes strings [(PROP_INITRD_END, to_be_bytes 8 e)] v2" "4 dvd length (((out @ u) @ v1) @ v2)"
      using write_prop_bytes [OF v1(3), of "to_be_bytes 8 e" strings] ok by auto
    show ?thesis
      by (rule that [of "v1 @ v2"]) (use Some r v1 v2 props_bytes_join [OF v1(2) v2(2)] in simp_all)
  qed
  obtain w where w: "fdt_write_prop (out @ u @ v) (co_booted_from_kexec o') [] = (out @ u @ v) @ w"
      "props_bytes strings [(PROP_BOOTED_FROM_KEXEC, [])] w" "4 dvd length ((out @ u @ v) @ w)"
    using write_prop_bytes [OF v(3), of "[]" strings] ok by auto
  show ?thesis
    using u(1) v(1) w props_bytes_join [OF u(2) props_bytes_join [OF v(2) w(2)]]
    by (intro exI [of _ "u @ v @ w"]) (simp add: append_chosen_props_def Let_def chosen_props_def)
qed

lemma patch_loop_chunk:
  assumes "chunk w e" and "4 dvd length pre" and "length pre + length w + 8 < usize_limit"
  shows "patch_loop (pre @ w @ post) strings offs cmdline initrd (length pre) out stack sr sc =
    (let go = patch_loop (pre @ w @ post) strings offs cmdline initrd (length pre + length w) in
     case e of
       EvBegin name \<Rightarrow>
         if stack = [] \<and> name \<noteq> [] then invalid_data ''DTB root node name is not empty''
         else if is_chosen (stack @ [name])
         then go (append_chosen_props (fdt_write_begin_node out name) offs cmdline initrd) (stack @ [name]) (sr \<or> stack = []) True
         else go (fdt_write_begin_node out name) (stack @ [name]) (sr \<or> stack = []) sc
     | EvEndNode \<Rightarrow>
         if stack = [] then invalid_data ''DTB structure has too many END_NODE tokens''
         else go (write_be32
               (if is_root stack \<and> \<not> sc
                then write_be32 (append_chosen_props (fdt_write_begin_node out chosen_name) offs cmdline initrd) FDT_END_NODE
                else out) FDT_END_NODE) (butlast stack) sr (sc \<or> is_root stack)
     | EvProp off v \<Rightarrow>
         go (if is_chosen stack \<and> should_replace_chosen_prop (case string_at strings off of Some k \<Rightarrow> k | None \<Rightarrow> [])
             then out else out @ w) stack sr sc
     | EvNop \<Rightarrow> go (out @ w) stack sr sc
     | EvEnd \<Rightarrow>
         if \<not> sr then invalid_data ''DTB structure has no root node''
         else if stack \<noteq> [] then invalid_data ''DTB structure ended before all nodes were closed''
         else Inr (write_be32 out FDT_END))"
proof -
  have w: "slice (pre @ w @ post) (length pre) (length pre + length w) = w" by (simp add: slice_exact)
  show ?thesis
    by (subst patch_loop.simps, subst next_token_chunk [OF assms])
      (cases e; simp add: Let_def w cong: if_cong; auto)
qed


lemma patch_props_keep:
  "props_bytes strings ps w \<Longrightarrow> \<not> is_chosen stack \<Longrightarrow> 4 dvd length pre \<Longrightarrow>
   length pre + length w + 8 < usize_limit \<Longrightarrow>
   patch_loop (pre @ w @ post) strings offs cmdline initrd (length pre) out stack sr sc =
   patch_loop (pre @ w @ post) strings offs cmdline initrd (length pre + length w) (out @ w) stack sr sc"
proof (induction arbitrary: pre out rule: props_bytes.induct)
  case props_Nil
  then show ?case by simp
next
  case (props_Nop ps w)
  then show ?case
    using patch_loop_chunk [of nop_bytes EvNop pre "w @ post" strings] props_Nop.IH [of "pre @ nop_bytes" "out @ nop_bytes"]
    by (simp add: add.assoc Let_def)
next
  case (props_Cons b off v k ps w)
  then show ?case
    using patch_loop_chunk [OF props_Cons.hyps(1), of pre "w @ post" strings] chunk_dvd4 [OF props_Cons.hyps(1)]
      props_Cons.IH [of "pre @ b" "out @ b"]
    by (simp add: add.assoc Let_def)
qed

lemma patch_props_chosen:
  "props_bytes strings ps w \<Longrightarrow> is_chosen stack \<Longrightarrow> 4 dvd length pre \<Longrightarrow>
   length pre + length w + 8 < usize_limit \<Longrightarrow>
   \<exists>w'. props_bytes strings (filter (\<lambda>(k, _). \<not> should_replace_chosen_prop k) ps) w' \<and>
     patch_loop (pre @ w @ post) strings offs cmdline initrd (length pre) out stack sr sc =
     patch_loop (pre @ w @ post) strings offs cmdline initrd (length pre + length w) (out @ w') stack sr sc"
proof (induction arbitrary: pre out rule: props_bytes.induct)
  case props_Nil
  then show ?case by (auto intro: props_bytes.intros)
next
  case (props_Nop ps w)
  then obtain w' where w': "props_bytes strings (filter (\<lambda>(k, _). \<not> should_replace_chosen_prop k) ps) w'"
      "patch_loop ((pre @ nop_bytes) @ w @ post) strings offs cmdline initrd (length (pre @ nop_bytes)) (out @ nop_bytes) stack sr sc =
       patch_loop ((pre @ nop_bytes) @ w @ post) strings offs cmdline initrd (length (pre @ nop_bytes) + length w) ((out @ nop_bytes) @ w') stack sr sc"
    using props_Nop.IH [of "pre @ nop_bytes" "out @ nop_bytes"] by auto
  show ?case
    using patch_loop_chunk [of nop_bytes EvNop pre "w @ post" strings] props_Nop.prems w' 
    by (intro exI [of _ "nop_bytes @ w'"]) (simp add: add.assoc Let_def props_bytes.props_Nop)
next
  case (props_Cons b off v k ps w)
  let ?u = "if should_replace_chosen_prop k then [] else b"
  obtain w' where w': "props_bytes strings (filter (\<lambda>(k, _). \<not> should_replace_chosen_prop k) ps) w'"
      "patch_loop ((pre @ b) @ w @ post) strings offs cmdline initrd (length (pre @ b)) (out @ ?u) stack sr sc =
       patch_loop ((pre @ b) @ w @ post) strings offs cmdline initrd (length (pre @ b) + length w) ((out @ ?u) @ w') stack sr sc"
    using props_Cons.IH [of "pre @ b" "out @ ?u"] props_Cons.prems chunk_dvd4 [OF props_Cons.hyps(1)] by auto
  have "props_bytes strings (filter (\<lambda>(k, _). \<not> should_replace_chosen_prop k) ((k, v) # ps)) (?u @ w')"
    using w'(1) props_bytes.props_Cons [OF props_Cons.hyps(1,2)] by simp
  then show ?case
    using patch_loop_chunk [OF props_Cons.hyps(1), of pre "w @ post" strings] props_Cons.prems props_Cons.hyps(2) w'(2)
    by (intro exI [of _ "?u @ w'"]) (cases "should_replace_chosen_prop k"; simp add: add.assoc Let_def)
qed

lemma is_chosen_snoc: "is_chosen (stack @ [name]) \<longleftrightarrow> stack = [[]] \<and> name = chosen_name"
  by (cases stack) (auto simp: is_chosen_def)

lemma is_root_snoc: "is_root (stack @ [name]) \<longleftrightarrow> stack = [] \<and> name = []"
  by (cases stack) (auto simp: is_root_def)

lemma begin_bytes:
  "4 dvd length out \<Longrightarrow> chunk b (EvBegin name) \<Longrightarrow>
   \<exists>b'. chunk b' (EvBegin name) \<and> fdt_write_begin_node out name = out @ b' \<and> 4 dvd length (out @ b')"
  using fdt_write_begin_node_enc [of out name] chunk_enc_event [OF chunk_event_ok, of b "EvBegin name"]
    chunk_dvd4 [of "enc_event (EvBegin name)" "EvBegin name"]
  by (intro exI [of _ "enc_event (EvBegin name)"]) (simp del: enc_event.simps add: dvd_add)

text \<open>A node off the path to \<open>/chosen\<close> is copied.\<close>

lemma patch_nodes_keep:
  "node_bytes strings n w \<Longrightarrow> stack \<noteq> [] \<Longrightarrow> \<not> is_chosen (stack @ [nname n]) \<Longrightarrow> 4 dvd length pre \<Longrightarrow>
   4 dvd length out \<Longrightarrow> length pre + length w + 8 < usize_limit \<Longrightarrow>
   \<exists>w'. node_bytes strings n w' \<and>
     patch_loop (pre @ w @ post) strings offs cmdline initrd (length pre) out stack sr sc =
     patch_loop (pre @ w @ post) strings offs cmdline initrd (length pre + length w) (out @ w') stack sr sc"
  "nodes_bytes strings ns w \<Longrightarrow> 2 \<le> length stack \<Longrightarrow> 4 dvd length pre \<Longrightarrow>
   4 dvd length out \<Longrightarrow> length pre + length w + 8 < usize_limit \<Longrightarrow>
   \<exists>w'. nodes_bytes strings ns w' \<and>
     patch_loop (pre @ w @ post) strings offs cmdline initrd (length pre) out stack sr sc =
     patch_loop (pre @ w @ post) strings offs cmdline initrd (length pre + length w) (out @ w') stack sr sc"
proof (induction arbitrary: pre post out stack and pre post out stack rule: node_bytes_nodes_bytes.inducts)
  case (node_Node b name ps u ns w)
  let ?all = "pre @ b @ u @ w @ end_node_bytes @ post"
  let ?go = "patch_loop ?all strings offs cmdline initrd"
  have lim: "length pre + length b + length u + length w + length end_node_bytes + 8 < usize_limit"
    using node_Node.prems(5) by (simp add: add.assoc)
  have al: "4 dvd length (pre @ b)" "4 dvd length (pre @ b @ u)" "4 dvd length (pre @ b @ u @ w)"
    unfolding length_append using node_Node.prems(3) chunk_dvd4 [OF node_Node(1)] props_bytes_dvd4 [OF node_Node(2)]
      node_bytes_dvd4(2) [OF node_Node(3)] by (simp_all only: dvd_add)
  obtain b' where b': "chunk b' (EvBegin name)" "fdt_write_begin_node out name = out @ b'" "4 dvd length (out @ b')"
    using begin_bytes [OF node_Node.prems(4) node_Node(1)] by blast
  have al': "4 dvd length (out @ b' @ u)" using b'(3) props_bytes_dvd4 [OF node_Node(2)] by (simp add: add.assoc [symmetric])
  have "?go (length pre) out stack sr sc = ?go (length (pre @ b)) (out @ b') (stack @ [name]) sr sc"
    using patch_loop_chunk [OF node_Node(1), of pre "u @ w @ end_node_bytes @ post" strings] node_Node.prems lim b'(2)
    by (simp add: Let_def)
  also have "\<dots> = ?go (length (pre @ b @ u)) (out @ b' @ u) (stack @ [name]) sr sc"
    using patch_props_keep [OF node_Node(2), of "stack @ [name]" "pre @ b" "w @ end_node_bytes @ post"]
      node_Node.prems(2) lim al by (simp add: add.assoc)
  finally have 1: "?go (length pre) out stack sr sc = ?go (length (pre @ b @ u)) (out @ b' @ u) (stack @ [name]) sr sc" .
  have "2 \<le> length (stack @ [name])" using node_Node.prems(1) by (cases stack) auto
  then obtain w' where w': "nodes_bytes strings ns w'"
      "?go (length (pre @ b @ u)) (out @ b' @ u) (stack @ [name]) sr sc =
       ?go (length (pre @ b @ u) + length w) ((out @ b' @ u) @ w') (stack @ [name]) sr sc"
    using node_Node.IH(3) [of "stack @ [name]" "pre @ b @ u" "out @ b' @ u" "end_node_bytes @ post"] al al' lim
    by (auto simp: add.assoc)
  have "?go (length (pre @ b @ u) + length w) ((out @ b' @ u) @ w') (stack @ [name]) sr sc =
      ?go (length (pre @ b @ u @ w @ end_node_bytes)) (out @ b' @ u @ w' @ end_node_bytes) stack sr sc"
    using patch_loop_chunk [of end_node_bytes EvEndNode "pre @ b @ u @ w" post strings] al lim node_Node.prems(1)
    by (simp add: add.assoc Let_def write_be32_def is_root_snoc)
  then show ?case
    using 1 w'(2) node_bytes_nodes_bytes.node_Node [OF b'(1) node_Node(2) w'(1)]
    by (intro exI [of _ "b' @ u @ w' @ end_node_bytes"]) (simp add: add.assoc)
next
  case nodes_Nil
  then show ?case by (auto intro: node_bytes_nodes_bytes.intros)
next
  case (nodes_Nop ns w)
  then obtain w' where w': "nodes_bytes strings ns w'"
      "patch_loop ((pre @ nop_bytes) @ w @ post) strings offs cmdline initrd (length (pre @ nop_bytes)) (out @ nop_bytes) stack sr sc =
       patch_loop ((pre @ nop_bytes) @ w @ post) strings offs cmdline initrd (length (pre @ nop_bytes) + length w) ((out @ nop_bytes) @ w') stack sr sc"
    using nodes_Nop.IH(2) [of stack "pre @ nop_bytes" "out @ nop_bytes" post] by auto
  show ?case
    using patch_loop_chunk [of nop_bytes EvNop pre "w @ post" strings] nodes_Nop.prems w'
    by (intro exI [of _ "nop_bytes @ w'"]) (simp add: add.assoc Let_def node_bytes_nodes_bytes.nodes_Nop)
next
  case (nodes_Cons c u ns w)
  have al: "4 dvd length (pre @ u)" using nodes_Cons.prems(2) node_bytes_dvd4(1) [OF nodes_Cons(1)] by simp
  have st: "stack \<noteq> []" "\<not> is_chosen (stack @ [nname c])" using nodes_Cons.prems(1) by (auto simp: is_chosen_snoc)
  obtain u' where u': "node_bytes strings c u'"
      "patch_loop (pre @ u @ w @ post) strings offs cmdline initrd (length pre) out stack sr sc =
       patch_loop (pre @ u @ w @ post) strings offs cmdline initrd (length pre + length u) (out @ u') stack sr sc"
    using nodes_Cons.IH(2) [of stack pre out "w @ post"] st nodes_Cons.prems by auto
  have "4 dvd length (out @ u')" using nodes_Cons.prems(3) node_bytes_dvd4(1) [OF u'(1)] by simp
  then obtain w' where w': "nodes_bytes strings ns w'"
      "patch_loop ((pre @ u) @ w @ post) strings offs cmdline initrd (length (pre @ u)) (out @ u') stack sr sc =
       patch_loop ((pre @ u) @ w @ post) strings offs cmdline initrd (length (pre @ u) + length w) ((out @ u') @ w') stack sr sc"
    using nodes_Cons.IH(4) [of stack "pre @ u" "out @ u'" post] nodes_Cons.prems al by auto
  show ?case
    using u' w' node_bytes_nodes_bytes.nodes_Cons [OF u'(1) w'(1)]
    by (intro exI [of _ "u' @ w'"]) (simp add: add.assoc)
qed


text \<open>The \<open>/chosen\<close> node gets the new properties first and loses the old ones.\<close>

lemma patch_chosen_bytes:
  assumes "node_bytes strings n w" and "nname n = chosen_name" and "4 dvd length pre" and "4 dvd length out"
    and "length pre + length w + 8 < usize_limit" and "length cmdline < 2 ^ 32 - 1" and "offsets_ok strings offs"
  shows "\<exists>w'. node_bytes strings (patch_chosen_node cmdline initrd n) w' \<and>
    patch_loop (pre @ w @ post) strings offs cmdline initrd (length pre) out [[]] sr sc =
    patch_loop (pre @ w @ post) strings offs cmdline initrd (length pre + length w) (out @ w') [[]] sr True"
proof -
  obtain ps cs where n: "n = Node chosen_name ps cs" using assms(2) by (cases n) auto
  obtain b u v where w: "w = b @ u @ v @ end_node_bytes" "chunk b (EvBegin chosen_name)" "props_bytes strings ps u"
      "nodes_bytes strings cs v"
    using assms(1) unfolding n by (auto elim!: node_bytes_NodeE)
  let ?all = "pre @ b @ u @ v @ end_node_bytes @ post"
  let ?go = "patch_loop ?all strings offs cmdline initrd"
  let ?st = "[[], chosen_name]"
  have chosen: "is_chosen ?st" by (simp add: is_chosen_def)
  have al: "4 dvd length (pre @ b)" "4 dvd length (pre @ b @ u)" "4 dvd length (pre @ b @ u @ v)"
    unfolding length_append using assms(3) chunk_dvd4 [OF w(2)] props_bytes_dvd4 [OF w(3)]
      node_bytes_dvd4(2) [OF w(4)] by (simp_all only: dvd_add)
  have lim: "length pre + length b + length u + length v + length end_node_bytes + 8 < usize_limit"
    using assms(5) w(1) by (simp add: add.assoc)
  obtain b' where b': "chunk b' (EvBegin chosen_name)" "fdt_write_begin_node out chosen_name = out @ b'" "4 dvd length (out @ b')"
    using begin_bytes [OF assms(4) w(2)] by blast
  obtain q where q: "append_chosen_props (out @ b') offs cmdline initrd = (out @ b') @ q"
      "props_bytes strings (chosen_props cmdline initrd) q" "4 dvd length ((out @ b') @ q)"
    using append_chosen_bytes [OF b'(3) assms(6,7)] by blast
  have 1: "?go (length pre) out [[]] sr sc = ?go (length (pre @ b)) (out @ b' @ q) ?st sr True"
    using patch_loop_chunk [OF w(2), of pre "u @ v @ end_node_bytes @ post" strings] assms(3) lim b'(2) q(1)
    by (simp add: Let_def is_chosen_def)
  obtain u' where u': "props_bytes strings (filter (\<lambda>(k, _). \<not> should_replace_chosen_prop k) ps) u'"
      "?go (length (pre @ b)) (out @ b' @ q) ?st sr True = ?go (length (pre @ b @ u)) (out @ b' @ q @ u') ?st sr True"
    using patch_props_chosen [OF w(3) chosen, of "pre @ b" "v @ end_node_bytes @ post" offs cmdline initrd "out @ b' @ q" sr True] al lim
    by (auto simp: add.assoc)
  have "4 dvd length (out @ b' @ q @ u')" using q(3) props_bytes_dvd4 [OF u'(1)] by (simp add: add.assoc [symmetric])
  then obtain v' where v': "nodes_bytes strings cs v'"
      "?go (length (pre @ b @ u)) (out @ b' @ q @ u') ?st sr True = ?go (length (pre @ b @ u @ v)) (out @ b' @ q @ u' @ v') ?st sr True"
    using patch_nodes_keep(2) [OF w(4), of ?st "pre @ b @ u" "out @ b' @ q @ u'" "end_node_bytes @ post" offs cmdline initrd sr True] al lim
    by (auto simp: add.assoc)
  have 2: "?go (length (pre @ b @ u @ v)) (out @ b' @ q @ u' @ v') ?st sr True =
      ?go (length pre + length w) (out @ b' @ q @ u' @ v' @ end_node_bytes) [[]] sr True"
    using patch_loop_chunk [of end_node_bytes EvEndNode "pre @ b @ u @ v" post strings] al lim
    by (simp add: add.assoc Let_def write_be32_def is_root_def w(1))
  have "node_bytes strings (patch_chosen_node cmdline initrd n) (b' @ (q @ u') @ v' @ end_node_bytes)"
    unfolding patch_chosen_node_def n node.sel
    by (rule node_bytes_nodes_bytes.node_Node [OF b'(1) props_bytes_join [OF q(2) u'(1)] v'(1)])
  then show ?thesis
    using 1 2 u'(2) v'(2) w(1) by (intro exI [of _ "b' @ (q @ u') @ v' @ end_node_bytes"]) simp
qed

lemma patch_root_children:
  "node_bytes strings n w \<Longrightarrow> True"
  "nodes_bytes strings cs w \<Longrightarrow> 4 dvd length pre \<Longrightarrow> 4 dvd length out \<Longrightarrow>
   length pre + length w + 8 < usize_limit \<Longrightarrow> length cmdline < 2 ^ 32 - 1 \<Longrightarrow> offsets_ok strings offs \<Longrightarrow>
   \<exists>w'. nodes_bytes strings (map (patch_child cmdline initrd) cs) w' \<and>
     patch_loop (pre @ w @ post) strings offs cmdline initrd (length pre) out [[]] sr sc =
     patch_loop (pre @ w @ post) strings offs cmdline initrd (length pre + length w) (out @ w') [[]] sr
       (sc \<or> chosen_name \<in> nname ` set cs)"
proof (induction arbitrary: and pre post out sc rule: node_bytes_nodes_bytes.inducts)
  case nodes_Nil
  then show ?case by (auto intro: node_bytes_nodes_bytes.intros)
next
  case (nodes_Nop cs w)
  then obtain w' where w': "nodes_bytes strings (map (patch_child cmdline initrd) cs) w'"
      "patch_loop ((pre @ nop_bytes) @ w @ post) strings offs cmdline initrd (length (pre @ nop_bytes)) (out @ nop_bytes) [[]] sr sc =
       patch_loop ((pre @ nop_bytes) @ w @ post) strings offs cmdline initrd (length (pre @ nop_bytes) + length w)
         ((out @ nop_bytes) @ w') [[]] sr (sc \<or> chosen_name \<in> nname ` set cs)"
    using nodes_Nop.IH(2) [of "pre @ nop_bytes" "out @ nop_bytes" post sc] by auto
  show ?case
    using patch_loop_chunk [of nop_bytes EvNop pre "w @ post" strings] nodes_Nop.prems w'
    by (intro exI [of _ "nop_bytes @ w'"]) (simp add: add.assoc Let_def node_bytes_nodes_bytes.nodes_Nop)
next
  case (nodes_Cons c u cs w)
  let ?go = "patch_loop (pre @ u @ w @ post) strings offs cmdline initrd"
  have al: "4 dvd length (pre @ u)" using nodes_Cons.prems(1) node_bytes_dvd4(1) [OF nodes_Cons(1)] by simp
  have lim: "length pre + length u + 8 < usize_limit" using nodes_Cons.prems(3) by simp
  have "\<exists>u'. node_bytes strings (patch_child cmdline initrd c) u' \<and>
      ?go (length pre) out [[]] sr sc = ?go (length pre + length u) (out @ u') [[]] sr (sc \<or> nname c = chosen_name)"
  proof (cases "nname c = chosen_name")
    case True
    then show ?thesis
      using patch_chosen_bytes [OF nodes_Cons(1) True nodes_Cons.prems(1,2) lim nodes_Cons.prems(4,5), of initrd "w @ post" sr sc]
      by (simp add: patch_child_def)
  next
    case False
    then show ?thesis
      using patch_nodes_keep(1) [OF nodes_Cons(1), of "[[]]" pre out "w @ post" offs cmdline initrd sr sc] nodes_Cons.prems(1,2) lim
      by (simp add: patch_child_def is_chosen_def)
  qed
  then obtain u' where u': "node_bytes strings (patch_child cmdline initrd c) u'"
      "?go (length pre) out [[]] sr sc = ?go (length pre + length u) (out @ u') [[]] sr (sc \<or> nname c = chosen_name)" by blast
  have "4 dvd length (out @ u')" using nodes_Cons.prems(2) node_bytes_dvd4(1) [OF u'(1)] by simp
  then obtain w' where w': "nodes_bytes strings (map (patch_child cmdline initrd) cs) w'"
      "patch_loop ((pre @ u) @ w @ post) strings offs cmdline initrd (length (pre @ u)) (out @ u') [[]] sr (sc \<or> nname c = chosen_name) =
       patch_loop ((pre @ u) @ w @ post) strings offs cmdline initrd (length (pre @ u) + length w) ((out @ u') @ w') [[]] sr
         ((sc \<or> nname c = chosen_name) \<or> chosen_name \<in> nname ` set cs)"
    using nodes_Cons.IH(4) [of "pre @ u" "out @ u'" post "sc \<or> nname c = chosen_name"] nodes_Cons.prems al by auto
  have "nodes_bytes strings (map (patch_child cmdline initrd) (c # cs)) (u' @ w')"
    using node_bytes_nodes_bytes.nodes_Cons [OF u'(1) w'(1)] by simp
  moreover have "(sc \<or> chosen_name \<in> nname ` set (c # cs)) = ((sc \<or> nname c = chosen_name) \<or> chosen_name \<in> nname ` set cs)"
    by auto
  ultimately show ?case
    using u'(2) w'(2) by (intro exI [of _ "u' @ w'"]) (simp add: add.assoc)
qed simp

lemma patch_nops:
  "nops w \<Longrightarrow> 4 dvd length pre \<Longrightarrow> length pre + length w + 8 < usize_limit \<Longrightarrow>
   patch_loop (pre @ w @ post) strings offs cmdline initrd (length pre) out stack sr sc =
   patch_loop (pre @ w @ post) strings offs cmdline initrd (length pre + length w) (out @ w) stack sr sc"
proof (induction arbitrary: pre out rule: nops.induct)
  case (nops_Cons w)
  then show ?case
    using patch_loop_chunk [of nop_bytes EvNop pre "w @ post" strings] nops_Cons.IH [of "pre @ nop_bytes" "out @ nop_bytes"]
    by (simp add: add.assoc Let_def)
qed simp


lemma new_chosen_bytes:
  assumes "4 dvd length out" and "length cmdline < 2 ^ 32 - 1" and "offsets_ok strings offs"
  shows "\<exists>w. node_bytes strings (patch_chosen_node cmdline initrd (node_new chosen_name)) w \<and>
    write_be32 (append_chosen_props (fdt_write_begin_node out chosen_name) offs cmdline initrd) FDT_END_NODE = out @ w"
proof -
  have "chunk (enc_event (EvBegin chosen_name)) (EvBegin chosen_name)"
    by (rule chunk_enc_event) (simp add: bytes_of_def)
  then obtain b where b: "chunk b (EvBegin chosen_name)" "fdt_write_begin_node out chosen_name = out @ b" "4 dvd length (out @ b)"
    using begin_bytes [OF assms(1)] by blast
  obtain q where q: "append_chosen_props (out @ b) offs cmdline initrd = (out @ b) @ q"
      "props_bytes strings (chosen_props cmdline initrd) q"
    using append_chosen_bytes [OF b(3) assms(2,3)] by blast
  have "node_bytes strings (patch_chosen_node cmdline initrd (node_new chosen_name)) (b @ q @ [] @ end_node_bytes)"
    unfolding patch_chosen_node_def node_new_def node.sel using q(2)
    by (intro node_bytes_nodes_bytes.intros b(1)) simp
  then show ?thesis
    using b(2) q(1) by (intro exI [of _ "b @ q @ end_node_bytes"]) (simp add: write_be32_def)
qed

lemma patch_root_bytes:
  assumes "node_bytes strings root w" and "nname root = []" and "4 dvd length pre" and "4 dvd length out"
    and "length pre + length w + 8 < usize_limit" and "length cmdline < 2 ^ 32 - 1" and "offsets_ok strings offs"
  shows "\<exists>w'. node_bytes strings (patch_tree cmdline initrd root) w' \<and>
    patch_loop (pre @ w @ post) strings offs cmdline initrd (length pre) out [] sr False =
    patch_loop (pre @ w @ post) strings offs cmdline initrd (length pre + length w) (out @ w') [] True True"
proof -
  obtain ps cs where n: "root = Node [] ps cs" using assms(2) by (cases root) auto
  obtain b u v where w: "w = b @ u @ v @ end_node_bytes" "chunk b (EvBegin [])" "props_bytes strings ps u" "nodes_bytes strings cs v"
    using assms(1) unfolding n by (auto elim!: node_bytes_NodeE)
  let ?all = "pre @ b @ u @ v @ end_node_bytes @ post"
  let ?go = "patch_loop ?all strings offs cmdline initrd"
  let ?saw = "chosen_name \<in> nname ` set cs"
  have al: "4 dvd length (pre @ b)" "4 dvd length (pre @ b @ u)" "4 dvd length (pre @ b @ u @ v)"
    unfolding length_append using assms(3) chunk_dvd4 [OF w(2)] props_bytes_dvd4 [OF w(3)]
      node_bytes_dvd4(2) [OF w(4)] by (simp_all only: dvd_add)
  have lim: "length pre + length b + length u + length v + length end_node_bytes + 8 < usize_limit"
    using assms(5) w(1) by (simp add: add.assoc)
  obtain b' where b': "chunk b' (EvBegin [])" "fdt_write_begin_node out [] = out @ b'" "4 dvd length (out @ b')"
    using begin_bytes [OF assms(4) w(2)] by blast
  have 1: "?go (length pre) out [] sr False = ?go (length (pre @ b)) (out @ b') [[]] True False"
    using patch_loop_chunk [OF w(2), of pre "u @ v @ end_node_bytes @ post" strings] assms(3) lim b'(2)
    by (simp add: Let_def is_chosen_def)
  have 2: "?go (length (pre @ b)) (out @ b') [[]] True False = ?go (length (pre @ b @ u)) (out @ b' @ u) [[]] True False"
    using patch_props_keep [OF w(3), of "[[]]" "pre @ b" "v @ end_node_bytes @ post" offs cmdline initrd "out @ b'" True False] al lim
    by (simp add: add.assoc is_chosen_def)
  have al2: "4 dvd length (out @ b' @ u)" using b'(3) props_bytes_dvd4 [OF w(3)] by (simp add: add.assoc [symmetric])
  obtain v' where v': "nodes_bytes strings (map (patch_child cmdline initrd) cs) v'"
      "?go (length (pre @ b @ u)) (out @ b' @ u) [[]] True False = ?go (length (pre @ b @ u @ v)) (out @ b' @ u @ v') [[]] True ?saw"
    using patch_root_children(2) [OF w(4), of "pre @ b @ u" "out @ b' @ u" cmdline offs initrd "end_node_bytes @ post" True False]
      al al2 lim assms(6,7) by (auto simp: add.assoc)
  have al3: "4 dvd length (out @ b' @ u @ v')" using al2 node_bytes_dvd4(2) [OF v'(1)] by (simp add: add.assoc [symmetric])
  obtain q where q: "node_bytes strings (patch_chosen_node cmdline initrd (node_new chosen_name)) q"
      "write_be32 (append_chosen_props (fdt_write_begin_node (out @ b' @ u @ v') chosen_name) offs cmdline initrd) FDT_END_NODE =
       (out @ b' @ u @ v') @ q"
    using new_chosen_bytes [OF al3 assms(6,7)] by blast
  let ?q = "if ?saw then [] else q"
  have 3: "?go (length (pre @ b @ u @ v)) (out @ b' @ u @ v') [[]] True ?saw =
      ?go (length pre + length w) (out @ b' @ u @ (v' @ ?q) @ end_node_bytes) [] True True"
    using patch_loop_chunk [of end_node_bytes EvEndNode "pre @ b @ u @ v" post strings] al lim q(2)
    by (simp add: add.assoc Let_def write_be32_def is_root_def w(1))
  have "nodes_bytes strings (if ?saw then [] else [patch_chosen_node cmdline initrd (node_new chosen_name)]) ?q"
    using node_bytes_nodes_bytes.nodes_Cons [OF q(1) node_bytes_nodes_bytes.nodes_Nil]
    by (simp add: node_bytes_nodes_bytes.nodes_Nil)
  then have "node_bytes strings (patch_tree cmdline initrd root) (b' @ u @ (v' @ ?q) @ end_node_bytes)"
    unfolding patch_tree_def n node.sel
    by (rule node_bytes_nodes_bytes.node_Node [OF b'(1) w(3) nodes_bytes_join(2) [OF v'(1)]])
  then show ?thesis
    using 1 2 v'(2) 3 w(1) by (intro exI [of _ "b' @ u @ (v' @ ?q) @ end_node_bytes"]) simp
qed

lemma should_replace_chosen_props:
  "(k, v) \<in> set (chosen_props cmdline initrd) \<Longrightarrow> should_replace_chosen_prop k"
  by (auto simp: chosen_props_def should_replace_chosen_prop_def split: option.splits if_splits)

lemma chosen_props_wf:
  assumes "length cmdline < 2 ^ 32 - 1"
  shows "distinct (map fst (chosen_props cmdline initrd))"
    and "\<forall>(k, v) \<in> set (chosen_props cmdline initrd). 0 \<notin> set k \<and> length v < 2 ^ 32"
  using assms by (auto simp: chosen_props_def bytes_of_def split: option.splits)

lemma patch_chosen_node_wf:
  assumes "node_wf d n" and "length cmdline < 2 ^ 32 - 1"
  shows "node_wf d (patch_chosen_node cmdline initrd n)"
proof -
  have "distinct (map fst (chosen_props cmdline initrd @ filter (\<lambda>(k, _). \<not> should_replace_chosen_prop k) (nprops n)))"
    using assms chosen_props_wf(1) [OF assms(2), of initrd] should_replace_chosen_props [of _ _ cmdline initrd]
    by (auto simp: node_wf_iff [of d n] distinct_map_filter)
  then show ?thesis
    using assms chosen_props_wf(2) [OF assms(2), of initrd]
    by (auto simp: node_wf_iff [of d] patch_chosen_node_def)
qed

lemma nname_patch_child [simp]: "nname (patch_child cmdline initrd c) = nname c"
  by (simp add: patch_child_def patch_chosen_node_def)

lemma patch_tree_wf:
  assumes "node_wf 0 root" and "length cmdline < 2 ^ 32 - 1"
  shows "node_wf 0 (patch_tree cmdline initrd root)"
proof -
  have new: "node_wf (Suc 0) (patch_chosen_node cmdline initrd (node_new chosen_name))"
    by (rule patch_chosen_node_wf [OF _ assms(2)]) (simp add: node_new_def bytes_of_def)
  have child: "node_wf (Suc 0) (patch_child cmdline initrd c)" if "c \<in> set (nchildren root)" for c
    using that assms patch_chosen_node_wf [of "Suc 0" c cmdline initrd]
    by (simp add: patch_child_def node_wf_iff [of 0 root])
  have "distinct (map nname (nchildren (patch_tree cmdline initrd root)))"
    using assms(1) by (auto simp: node_wf_iff [of 0 root] patch_tree_def patch_chosen_node_def node_new_def o_def)
  then show ?thesis
    using assms(1) new child by (auto simp: node_wf_iff [of 0 root] node_wf_iff [of 0 "patch_tree cmdline initrd root"] patch_tree_def)
qed

lemma patch_structure_block_tree:
  assumes "tree_block strings root sb" and "length sb + 8 < usize_limit" and "length cmdline < 2 ^ 32 - 1"
    and "offsets_ok strings offs"
  shows "\<exists>sb'. patch_structure_block sb strings offs cmdline initrd = Inr sb' \<and>
    tree_block strings (patch_tree cmdline initrd root) sb'"
proof -
  obtain u w v rest where sb: "sb = u @ w @ v @ end_bytes @ rest" "nops u" "node_bytes strings root w" "nops v"
    and wf: "node_wf 0 root" "nname root = []"
    using assms(1) by (auto simp: tree_block_def)
  have al: "4 dvd length u" "4 dvd length (u @ w)" "4 dvd length (u @ w @ v)"
    using sb nops_dvd4 node_bytes_dvd4 by (simp_all add: dvd_add)
  let ?go = "patch_loop sb strings offs cmdline initrd"
  have 1: "?go 0 [] [] False False = ?go (length u) u [] False False"
    using patch_nops [OF sb(2), of "[]" "w @ v @ end_bytes @ rest" strings offs cmdline initrd "[]"] assms(2) by (simp add: sb(1))
  obtain w' where w': "node_bytes strings (patch_tree cmdline initrd root) w'"
      "?go (length u) u [] False False = ?go (length (u @ w)) (u @ w') [] True True"
    using patch_root_bytes [OF sb(3) wf(2), of u u cmdline offs initrd "v @ end_bytes @ rest" False] al assms(2-4) by (auto simp: sb(1))
  have 2: "?go (length (u @ w)) (u @ w') [] True True = ?go (length (u @ w @ v)) (u @ w' @ v) [] True True"
    using patch_nops [OF sb(4), of "u @ w" "end_bytes @ rest" strings offs cmdline initrd "u @ w'" "[]" True True] assms(2) al
    by (simp add: sb(1) add.assoc)
  have 3: "?go (length (u @ w @ v)) (u @ w' @ v) [] True True = Inr (u @ w' @ v @ end_bytes @ [])"
    using patch_loop_chunk [of end_bytes EvEnd "u @ w @ v" rest strings offs cmdline initrd "u @ w' @ v" "[]" True True] assms(2) al
    by (simp add: sb(1) write_be32_def)
  have "tree_block strings (patch_tree cmdline initrd root) (u @ w' @ v @ end_bytes @ [])"
    unfolding tree_block_def
    using wf assms(3) sb(2,4) w'(1) patch_tree_wf
    by (intro conjI exI [of _ u] exI [of _ w'] exI [of _ v] exI [of _ "[]"]) (simp_all add: patch_tree_def)
  then show ?thesis
    using 1 w'(2) 2 3 by (auto simp: patch_structure_block_def)
qed


text \<open>C24: Patching commutes with reading the tree: the blob that \<open>patch_chosen\<close> returns parses to the input's
  tree in which exactly \<open>/chosen\<close> changed. Its boot properties are the command line, the initrd
  bounds where there is an initrd and the kexec mark; stale ones are gone, every other property and
  node stays, and \<open>/chosen\<close> is created where it was missing. The memory reserve map is kept.\<close>

theorem patch_chosen_tree:
  assumes "contract_tree dtb = Inr root" and "patch_chosen dtb cmdline initrd = Inr out"
    and "length cmdline < 2 ^ 32 - 1"
  shows "contract_tree out = Inr (patch_tree cmdline initrd root) \<and>
    (\<exists>h h' rm. fdt_header_parse dtb = Inr h \<and> fdt_header_parse out = Inr h' \<and>
       reserve_map dtb h = Inr rm \<and> reserve_map out h' = Inr rm)"
proof -
  obtain h sb st where h: "fdt_header_parse dtb = Inr h"
    and sb: "\<And>m. fdt_checked_slice dtb (off_dt_struct h) (size_dt_struct h) m = Inr sb"
    and st: "\<And>m. fdt_checked_slice dtb (off_dt_strings h) (size_dt_strings h) m = Inr st"
    and block: "tree_block st root sb" and len: "length sb < 2 ^ 32"
    using contract_tree_block [OF assms(1)] by blast
  obtain rm s1 o1 s2 o2 s3 o3 s4 o4 sb' where rm: "reserve_map dtb h = Inr rm"
    and strs: "ensure_string st PROP_BOOTARGS = Inr (s1, o1)" "ensure_string s1 PROP_INITRD_START = Inr (s2, o2)"
      "ensure_string s2 PROP_INITRD_END = Inr (s3, o3)" "ensure_string s3 PROP_BOOTED_FROM_KEXEC = Inr (s4, o4)"
    and patch: "patch_structure_block sb s4 \<lparr>co_bootargs = o1, co_initrd_start = o2, co_initrd_end = o3,
          co_booted_from_kexec = o4\<rparr> cmdline initrd = Inr sb'"
    and out: "build_dtb h rm sb' s4 = Inr out"
    using assms(2) h sb st by (auto simp: patch_chosen_def simp del: fdt_checked_slice_Inr)
  let ?o = "\<lparr>co_bootargs = o1, co_initrd_start = o2, co_initrd_end = o3, co_booted_from_kexec = o4\<rparr>"
  have names: "0 \<notin> set PROP_BOOTARGS" "0 \<notin> set PROP_INITRD_START" "0 \<notin> set PROP_INITRD_END"
    "0 \<notin> set PROP_BOOTED_FROM_KEXEC"
    by (simp_all add: bytes_of_def)
  have "offsets_ok s4 ?o"
    using st.intern_at [OF strs(1) names(1)] st.intern_at [OF strs(2) names(2)] st.intern_at [OF strs(3) names(3)]
      st.intern_at [OF strs(4) names(4)] st.intern_keeps [OF strs(2)] st.intern_keeps [OF strs(3)] st.intern_keeps [OF strs(4)]
    by (simp add: offsets_ok_def)
  moreover obtain suf where "s4 = st @ suf"
    using ensure_string_extends [OF strs(1)] ensure_string_extends [OF strs(2)] ensure_string_extends [OF strs(3)]
      ensure_string_extends [OF strs(4)] by auto
  then have "tree_block s4 root sb" using block tree_block_append by simp
  ultimately have "tree_block s4 (patch_tree cmdline initrd root) sb'"
    using patch_structure_block_tree [of s4 root sb cmdline ?o initrd] assms(3) len patch by (auto simp: usize_limit_def)
  then show ?thesis
    using contract_tree_of_block [OF out] build_dtb_keeps_reserve_map [OF h rm out] h rm by blast
qed

lemma patch_chosen_tree_witness:
  "\<exists>out. patch_chosen demo_blob ''quiet'' (Some (0x48000000, 0x48100000)) = Inr out \<and>
     contract_tree out = Inr (Node [] [] [Node chosen_name
       [(PROP_BOOTARGS, bytes_of ''quiet'' @ [0]), (PROP_INITRD_START, [0, 0, 0, 0, 0x48, 0, 0, 0]),
        (PROP_INITRD_END, [0, 0, 0, 0, 0x48, 0x10, 0, 0]), (PROP_BOOTED_FROM_KEXEC, [])] []])"
proof -
  let ?run = "patch_chosen demo_blob ''quiet'' (Some (0x48000000, 0x48100000))"
  have tree: "contract_tree demo_blob = Inr (Node [] [] [Node chosen_name [] []])" by code_simp
  have "\<not> isl ?run" by code_simp
  then obtain out where run: "?run = Inr out" by (cases ?run) auto
  moreover have "patch_tree ''quiet'' (Some (0x48000000, 0x48100000)) (Node [] [] [Node chosen_name [] []]) =
      Node [] [] [Node chosen_name
       [(PROP_BOOTARGS, bytes_of ''quiet'' @ [0]), (PROP_INITRD_START, [0, 0, 0, 0, 0x48, 0, 0, 0]),
        (PROP_INITRD_END, [0, 0, 0, 0, 0x48, 0x10, 0, 0]), (PROP_BOOTED_FROM_KEXEC, [])] []]"
    by code_simp
  ultimately show ?thesis using patch_chosen_tree [OF tree run] by simp
qed

end
