(* ===== verification/FdtMemory.thy ===== *)
theory FdtMemory
  imports FdtPatch
begin

text \<open>
  Grafting the memory nodes of the running system into a supplied device tree (\<open>graft_memory\<close> of
  \<open>src/kexec.rs\<close>): \<open>skip_loop\<close>, \<open>copy_loop\<close>, \<open>extract_loop\<close> and \<open>graft_loop\<close> are the loops of
  \<open>skip_node_subtree\<close>, \<open>copy_node_subtree\<close>, \<open>extract_memory_fragments\<close> and
  \<open>graft_memory_structure\<close>. On the bytes of a tree they do what \<open>graft_memory_tree\<close> says.
\<close>


definition is_memory_node_name :: "bytes \<Rightarrow> bool" where
  "is_memory_node_name name \<longleftrightarrow> name = bytes_of ''memory'' \<or> starts_with (bytes_of ''memory@'') name"

function skip_loop :: "bytes \<Rightarrow> nat \<Rightarrow> nat \<Rightarrow> nat io" where
  "skip_loop sb cursor depth =
     bind_io (next_token sb cursor) (\<lambda>tn.
     case tn of (tok, nx) \<Rightarrow>
     (case tok of
        TokBegin name \<Rightarrow> skip_loop sb nx (depth + 1)
      | TokEndNode \<Rightarrow>
          if depth = 0 then invalid_data ''DTB structure has too many END_NODE tokens''
          else if depth - 1 = 0 then Inr nx
          else skip_loop sb nx (depth - 1)
      | TokProp parts \<Rightarrow> skip_loop sb nx depth
      | TokNop \<Rightarrow> skip_loop sb nx depth
      | TokEnd \<Rightarrow> invalid_data ''DTB node subtree is unterminated''))"
  by pat_completeness auto
termination
  by (relation "measure (\<lambda>(sb, cursor, depth). length sb - cursor)") (auto dest!: next_token_measure)

definition skip_node_subtree :: "bytes \<Rightarrow> nat \<Rightarrow> nat io" where
  "skip_node_subtree struct_block start = skip_loop struct_block start 0"

function copy_loop :: "bytes \<Rightarrow> bytes \<Rightarrow> nat \<Rightarrow> nat \<Rightarrow> bytes \<Rightarrow> bytes \<Rightarrow> (bytes \<times> nat \<times> bytes) io" where
  "copy_loop sb strings cursor depth output output_strings =
     bind_io (next_token sb cursor) (\<lambda>tn.
     case tn of (tok, nx) \<Rightarrow>
     (case tok of
        TokBegin name \<Rightarrow>
          bind_io (index_slice sb cursor nx) (\<lambda>raw.
          copy_loop sb strings nx (depth + 1) (output @ raw) output_strings)
      | TokEndNode \<Rightarrow>
          if depth = 0 then invalid_data ''DTB structure has too many END_NODE tokens''
          else
            (let output = output @ slice sb cursor nx in
             if depth - 1 = 0 then Inr (output, nx, output_strings)
             else copy_loop sb strings nx (depth - 1) output output_strings)
      | TokProp parts \<Rightarrow>
          (case string_at strings (p_nameoff parts) of
             None \<Rightarrow> invalid_data ''DTB property name offset is out of range''
           | Some name \<Rightarrow>
               bind_io (ensure_string output_strings name) (\<lambda>so.
               copy_loop sb strings nx depth
                 (pad_to (write_be32 (write_be32 (write_be32 output FDT_PROP) (p_len parts)) (snd so) @
                          slice sb (p_value_start parts) (p_value_end parts)) 4)
                 (fst so)))
      | TokNop \<Rightarrow> copy_loop sb strings nx depth (output @ slice sb cursor nx) output_strings
      | TokEnd \<Rightarrow> invalid_data ''DTB node subtree is unterminated''))"
  by pat_completeness auto
termination
  by (relation "measure (\<lambda>(sb, strings, cursor, _). length sb - cursor)") (auto dest!: next_token_measure)

declare skip_loop.simps [simp del] copy_loop.simps [simp del]

definition copy_node_subtree :: "bytes \<Rightarrow> bytes \<Rightarrow> nat \<Rightarrow> bytes \<Rightarrow> (bytes \<times> nat \<times> bytes) io" where
  "copy_node_subtree struct_block strings start output_strings =
     copy_loop struct_block strings start 0 [] output_strings"

lemma skip_loop_progress: "skip_loop sb cursor depth = Inr nx \<Longrightarrow> cursor < nx \<and> cursor < length sb"
proof (induction sb cursor depth rule: skip_loop.induct)
  case (1 sb cursor depth)
  obtain tok n1 where t: "next_token sb cursor = Inr (tok, n1)"
    using "1.prems" by (subst (asm) skip_loop.simps) auto
  note run = "1.prems" [unfolded skip_loop.simps [of sb cursor] t bind_io_simps prod.case]
  note pos = next_token_progress [OF t]
  show ?case
  proof (cases tok)
    case (TokBegin name)
    then show ?thesis using run pos "1.IH"(1) [OF t refl TokBegin] by simp
  next
    case TokEndNode
    then show ?thesis using run pos "1.IH"(2) [OF t refl TokEndNode] by (auto split: if_splits)
  next
    case (TokProp parts)
    then show ?thesis using run pos "1.IH"(3) [OF t refl TokProp] by simp
  next
    case TokNop
    then show ?thesis using run pos "1.IH"(4) [OF t refl TokNop] by simp
  qed (use run in simp)
qed

lemma copy_loop_progress:
  "copy_loop sb strings cursor depth out os = Inr (d, nx, os') \<Longrightarrow> cursor < nx \<and> cursor < length sb"
proof (induction sb strings cursor depth out os rule: copy_loop.induct)
  case (1 sb strings cursor depth out os)
  obtain tok n1 where t: "next_token sb cursor = Inr (tok, n1)"
    using "1.prems" by (subst (asm) copy_loop.simps) auto
  note run = "1.prems" [unfolded copy_loop.simps [of sb strings cursor] t bind_io_simps prod.case]
  note pos = next_token_progress [OF t]
  show ?case
  proof (cases tok)
    case (TokBegin name)
    then show ?thesis using run pos "1.IH"(1) [OF t refl TokBegin] by auto
  next
    case TokEndNode
    then show ?thesis using run pos "1.IH"(2) [OF t refl TokEndNode] by (auto simp: Let_def split: if_splits)
  next
    case (TokProp parts)
    then show ?thesis using run pos "1.IH"(3) [OF t refl TokProp] by (force split: option.splits)
  next
    case TokNop
    then show ?thesis using run pos "1.IH"(4) [OF t refl TokNop] by simp
  qed (use run in simp)
qed

lemma skip_copy_measure:
  "skip_loop sb cursor depth = Inr nx \<Longrightarrow> length sb - nx < length sb - cursor"
  "copy_loop sb strings cursor depth out os = Inr (d, nx, os') \<Longrightarrow> length sb - nx < length sb - cursor"
  using skip_loop_progress [of sb cursor depth nx] copy_loop_progress [of sb strings cursor depth out os d nx os'] by (auto intro: diff_less_mono2)

function extract_loop ::
  "bytes \<Rightarrow> bytes \<Rightarrow> bytes \<Rightarrow> nat \<Rightarrow> nat \<Rightarrow> bool \<Rightarrow> bytes list \<Rightarrow> (bytes list \<times> bytes) io" where
  "extract_loop sb strings output_strings cursor depth saw_root memory =
     bind_io (next_token sb cursor) (\<lambda>tn.
     case tn of (tok, nx) \<Rightarrow>
     (case tok of
        TokBegin name \<Rightarrow>
          if depth = 0 then
            (if saw_root then invalid_data ''DTB structure has multiple root nodes''
             else if name \<noteq> [] then invalid_data ''DTB root node name is not empty''
             else extract_loop sb strings output_strings nx 1 True memory)
          else if depth = 1 \<and> is_memory_node_name name then
            bind_io (copy_node_subtree sb strings cursor output_strings) (\<lambda>dns.
            case dns of (data, nx, output_strings) \<Rightarrow>
            extract_loop sb strings output_strings nx depth saw_root (memory @ [data]))
          else extract_loop sb strings output_strings nx (depth + 1) saw_root memory
      | TokEndNode \<Rightarrow>
          if depth = 0 then invalid_data ''DTB structure has too many END_NODE tokens''
          else extract_loop sb strings output_strings nx (depth - 1) saw_root memory
      | TokProp parts \<Rightarrow> extract_loop sb strings output_strings nx depth saw_root memory
      | TokNop \<Rightarrow> extract_loop sb strings output_strings nx depth saw_root memory
      | TokEnd \<Rightarrow>
          if \<not> saw_root then invalid_data ''DTB structure has no root node''
          else if depth \<noteq> 0 then invalid_data ''DTB structure ended before all nodes were closed''
          else Inr (memory, output_strings)))"
  by pat_completeness auto
termination
  by (relation "measure (\<lambda>(sb, strings, output_strings, cursor, _). length sb - cursor)")
    (auto simp: copy_node_subtree_def dest!: next_token_measure skip_copy_measure)

function graft_loop :: "bytes \<Rightarrow> bytes list \<Rightarrow> nat \<Rightarrow> nat \<Rightarrow> bool \<Rightarrow> bool \<Rightarrow> bytes \<Rightarrow> bytes io" where
  "graft_loop sb memory cursor depth saw_root inserted output =
     bind_io (next_token sb cursor) (\<lambda>tn.
     case tn of (tok, nx) \<Rightarrow>
     (case tok of
        TokBegin name \<Rightarrow>
          if depth = 0 then
            (if saw_root then invalid_data ''DTB structure has multiple root nodes''
             else if name \<noteq> [] then invalid_data ''DTB root node name is not empty''
             else bind_io (index_slice sb cursor nx) (\<lambda>raw.
                  graft_loop sb memory nx 1 True inserted (output @ raw)))
          else if depth = 1 \<and> is_memory_node_name name then
            bind_io (skip_node_subtree sb cursor) (\<lambda>nx.
            graft_loop sb memory nx depth saw_root inserted output)
          else
            (let add = depth = 1 \<and> \<not> inserted;
                 output = (if add then output @ concat memory else output) in
             bind_io (index_slice sb cursor nx) (\<lambda>raw.
             graft_loop sb memory nx (depth + 1) saw_root (inserted \<or> add) (output @ raw)))
      | TokEndNode \<Rightarrow>
          if depth = 0 then invalid_data ''DTB structure has too many END_NODE tokens''
          else
            (let add = depth = 1 \<and> \<not> inserted;
                 output = (if add then output @ concat memory else output) in
             graft_loop sb memory nx (depth - 1) saw_root (inserted \<or> add) (output @ slice sb cursor nx))
      | TokProp parts \<Rightarrow> graft_loop sb memory nx depth saw_root inserted (output @ slice sb cursor nx)
      | TokNop \<Rightarrow> graft_loop sb memory nx depth saw_root inserted (output @ slice sb cursor nx)
      | TokEnd \<Rightarrow>
          if \<not> saw_root then invalid_data ''DTB structure has no root node''
          else if depth \<noteq> 0 then invalid_data ''DTB structure ended before all nodes were closed''
          else Inr (output @ slice sb cursor nx)))"
  by pat_completeness auto
termination
  by (relation "measure (\<lambda>(sb, memory, cursor, _). length sb - cursor)")
    (auto simp: skip_node_subtree_def dest!: next_token_measure skip_copy_measure)

declare extract_loop.simps [simp del] graft_loop.simps [simp del]

definition extract_memory_fragments :: "bytes \<Rightarrow> bytes \<Rightarrow> bytes \<Rightarrow> (bytes list \<times> bytes) io" where
  "extract_memory_fragments struct_block strings output_strings =
     extract_loop struct_block strings output_strings 0 0 False []"

definition graft_memory_structure :: "bytes \<Rightarrow> bytes list \<Rightarrow> bytes io" where
  "graft_memory_structure struct_block memory = graft_loop struct_block memory 0 0 False False []"

definition graft_memory :: "bytes \<Rightarrow> bytes \<Rightarrow> bytes io" where
  "graft_memory dtb live_dtb =
     bind_io (fdt_header_parse dtb) (\<lambda>header.
     bind_io (reserve_map dtb header) (\<lambda>rsv.
     bind_io (fdt_checked_slice dtb (off_dt_struct header) (size_dt_struct header) ''DTB structure block'') (\<lambda>struct_block.
     bind_io (fdt_checked_slice dtb (off_dt_strings header) (size_dt_strings header) ''DTB strings block'') (\<lambda>strings.
     bind_io (fdt_header_parse live_dtb) (\<lambda>live_header.
     bind_io (fdt_checked_slice live_dtb (off_dt_struct live_header) (size_dt_struct live_header)
                ''live DTB structure block'') (\<lambda>live_struct_block.
     bind_io (fdt_checked_slice live_dtb (off_dt_strings live_header) (size_dt_strings live_header)
                ''live DTB strings block'') (\<lambda>live_strings.
     bind_io (extract_memory_fragments live_struct_block live_strings strings) (\<lambda>(memory, strings).
     if memory = [] then invalid_data ''live DTB has no root memory nodes''
     else
       bind_io (graft_memory_structure struct_block memory) (\<lambda>new_struct.
       build_dtb header rsv new_struct strings)))))))))"


section \<open>The grafted tree\<close>

definition is_memory_node :: "node \<Rightarrow> bool" where
  "is_memory_node n \<longleftrightarrow> is_memory_node_name (nname n)"

definition graft_memory_tree :: "node \<Rightarrow> node \<Rightarrow> node" where
  "graft_memory_tree root live =
     Node (nname root) (nprops root)
       (filter is_memory_node (nchildren live) @ filter (\<lambda>c. \<not> is_memory_node c) (nchildren root))"

section \<open>The walkers read the grammar\<close>

lemma skip_loop_chunk:
  assumes "chunk w e" and "4 dvd length pre" and "length pre + length w + 8 < usize_limit"
  shows "skip_loop (pre @ w @ post) (length pre) depth =
    (let go = skip_loop (pre @ w @ post) (length pre + length w) in
     case e of
       EvBegin name \<Rightarrow> go (depth + 1)
     | EvEndNode \<Rightarrow>
         if depth = 0 then invalid_data ''DTB structure has too many END_NODE tokens''
         else if depth - 1 = 0 then Inr (length pre + length w) else go (depth - 1)
     | EvProp off v \<Rightarrow> go depth
     | EvNop \<Rightarrow> go depth
     | EvEnd \<Rightarrow> invalid_data ''DTB node subtree is unterminated'')"
  by (subst skip_loop.simps, subst next_token_chunk [OF assms]) (cases e; simp add: Let_def)

lemma skip_props:
  "props_bytes strings ps w \<Longrightarrow> 4 dvd length pre \<Longrightarrow> length pre + length w + 8 < usize_limit \<Longrightarrow>
   skip_loop (pre @ w @ post) (length pre) d = skip_loop (pre @ w @ post) (length pre + length w) d"
proof (induction arbitrary: pre rule: props_bytes.induct)
  case (props_Nop ps w)
  then show ?case
    using skip_loop_chunk [of nop_bytes EvNop pre "w @ post"] props_Nop.IH [of "pre @ nop_bytes"]
    by (simp add: add.assoc Let_def)
next
  case (props_Cons b off v k ps w)
  then show ?case
    using skip_loop_chunk [OF props_Cons.hyps(1), of pre "w @ post"] chunk_dvd4 [OF props_Cons.hyps(1)]
      props_Cons.IH [of "pre @ b"]
    by (simp add: add.assoc Let_def)
qed simp

lemma skip_nodes:
  "node_bytes strings n w \<Longrightarrow> 4 dvd length pre \<Longrightarrow> length pre + length w + 8 < usize_limit \<Longrightarrow>
   skip_loop (pre @ w @ post) (length pre) d =
   (if d = 0 then Inr (length pre + length w) else skip_loop (pre @ w @ post) (length pre + length w) d)"
  "nodes_bytes strings ns w \<Longrightarrow> 4 dvd length pre \<Longrightarrow> length pre + length w + 8 < usize_limit \<Longrightarrow>
   skip_loop (pre @ w @ post) (length pre) (Suc d) = skip_loop (pre @ w @ post) (length pre + length w) (Suc d)"
proof (induction arbitrary: pre post d and pre post d rule: node_bytes_nodes_bytes.inducts)
  case (node_Node b name ps u ns w)
  let ?go = "skip_loop (pre @ b @ u @ w @ end_node_bytes @ post)"
  have al: "4 dvd length (pre @ b)" "4 dvd length (pre @ b @ u)" "4 dvd length (pre @ b @ u @ w)"
    unfolding length_append using node_Node.prems(1) chunk_dvd4 [OF node_Node(1)] props_bytes_dvd4 [OF node_Node(2)]
      node_bytes_dvd4(2) [OF node_Node(3)] by (simp_all only: dvd_add)
  have lim: "length pre + length b + length u + length w + length end_node_bytes + 8 < usize_limit"
    using node_Node.prems(2) by (simp add: add.assoc)
  have "?go (length pre) d = ?go (length (pre @ b)) (Suc d)"
    using skip_loop_chunk [OF node_Node(1), of pre "u @ w @ end_node_bytes @ post"] node_Node.prems lim by simp
  also have "\<dots> = ?go (length (pre @ b @ u)) (Suc d)"
    using skip_props [OF node_Node(2), of "pre @ b" "w @ end_node_bytes @ post"] al lim by (simp add: add.assoc)
  also have "\<dots> = ?go (length (pre @ b @ u @ w)) (Suc d)"
    using node_Node.IH(3) [of "pre @ b @ u" "end_node_bytes @ post" d] al lim by (simp add: add.assoc)
  finally show ?case
    using skip_loop_chunk [of end_node_bytes EvEndNode "pre @ b @ u @ w" post] al lim by (simp add: add.assoc)
next
  case (nodes_Nop ns w)
  then show ?case
    using skip_loop_chunk [of nop_bytes EvNop pre "w @ post"] nodes_Nop.IH(2) [of "pre @ nop_bytes" post d]
    by (simp add: add.assoc Let_def)
next
  case (nodes_Cons c u ns w)
  then show ?case
    using nodes_Cons.IH(2) [of pre "w @ post" "Suc d"] nodes_Cons.IH(4) [of "pre @ u" post d] node_bytes_dvd4(1) [OF nodes_Cons(1)]
    by (simp add: add.assoc)
qed simp

lemma graft_loop_chunk:
  assumes "chunk w e" and "4 dvd length pre" and "length pre + length w + 8 < usize_limit"
  shows "graft_loop (pre @ w @ post) memory (length pre) depth sr ins out =
    (let go = graft_loop (pre @ w @ post) memory (length pre + length w) in
     case e of
       EvBegin name \<Rightarrow>
         if depth = 0 then
           (if sr then invalid_data ''DTB structure has multiple root nodes''
            else if name \<noteq> [] then invalid_data ''DTB root node name is not empty''
            else go 1 True ins (out @ w))
         else if depth = 1 \<and> is_memory_node_name name then
           bind_io (skip_node_subtree (pre @ w @ post) (length pre)) (\<lambda>nx.
           graft_loop (pre @ w @ post) memory nx depth sr ins out)
         else go (depth + 1) sr (ins \<or> depth = 1)
                ((if depth = 1 \<and> \<not> ins then out @ concat memory else out) @ w)
     | EvEndNode \<Rightarrow>
         if depth = 0 then invalid_data ''DTB structure has too many END_NODE tokens''
         else go (depth - 1) sr (ins \<or> depth = 1) ((if depth = 1 \<and> \<not> ins then out @ concat memory else out) @ w)
     | EvProp off v \<Rightarrow> go depth sr ins (out @ w)
     | EvNop \<Rightarrow> go depth sr ins (out @ w)
     | EvEnd \<Rightarrow>
         if \<not> sr then invalid_data ''DTB structure has no root node''
         else if depth \<noteq> 0 then invalid_data ''DTB structure ended before all nodes were closed''
         else Inr (out @ w))"
proof -
  have w: "slice (pre @ w @ post) (length pre) (length pre + length w) = w" by (simp add: slice_exact)
  have raw: "index_slice (pre @ w @ post) (length pre) (length pre + length w) = Inr w"
    by (simp add: w)
  show ?thesis
    by (subst graft_loop.simps, subst next_token_chunk [OF assms])
      (cases e; simp add: Let_def w raw cong: if_cong del: index_slice_Inr; auto)
qed


lemma graft_props:
  "props_bytes strings ps w \<Longrightarrow> 4 dvd length pre \<Longrightarrow> length pre + length w + 8 < usize_limit \<Longrightarrow>
   graft_loop (pre @ w @ post) memory (length pre) d sr ins out =
   graft_loop (pre @ w @ post) memory (length pre + length w) d sr ins (out @ w)"
proof (induction arbitrary: pre out rule: props_bytes.induct)
  case (props_Nop ps w)
  then show ?case
    using graft_loop_chunk [of nop_bytes EvNop pre "w @ post"] props_Nop.IH [of "pre @ nop_bytes" "out @ nop_bytes"]
    by (simp add: add.assoc Let_def)
next
  case (props_Cons b off v k ps w)
  then show ?case
    using graft_loop_chunk [OF props_Cons.hyps(1), of pre "w @ post"] chunk_dvd4 [OF props_Cons.hyps(1)]
      props_Cons.IH [of "pre @ b" "out @ b"]
    by (simp add: add.assoc Let_def)
qed simp

text \<open>Below the root's children, and for the root's own once memory is in place, nodes are copied.\<close>

lemma graft_nodes_keep:
  "node_bytes strings n w \<Longrightarrow> 2 \<le> d \<or> d = 1 \<and> \<not> is_memory_node n \<and> ins \<Longrightarrow> 4 dvd length pre \<Longrightarrow>
   length pre + length w + 8 < usize_limit \<Longrightarrow>
   graft_loop (pre @ w @ post) memory (length pre) d sr ins out =
   graft_loop (pre @ w @ post) memory (length pre + length w) d sr ins (out @ w)"
  "nodes_bytes strings ns w \<Longrightarrow> 2 \<le> d \<Longrightarrow> 4 dvd length pre \<Longrightarrow>
   length pre + length w + 8 < usize_limit \<Longrightarrow>
   graft_loop (pre @ w @ post) memory (length pre) d sr ins out =
   graft_loop (pre @ w @ post) memory (length pre + length w) d sr ins (out @ w)"
proof (induction arbitrary: pre post d out and pre post d out rule: node_bytes_nodes_bytes.inducts)
  case (node_Node b name ps u ns w)
  let ?go = "graft_loop (pre @ b @ u @ w @ end_node_bytes @ post) memory"
  have al: "4 dvd length (pre @ b)" "4 dvd length (pre @ b @ u)" "4 dvd length (pre @ b @ u @ w)"
    unfolding length_append using node_Node.prems(2) chunk_dvd4 [OF node_Node(1)] props_bytes_dvd4 [OF node_Node(2)]
      node_bytes_dvd4(2) [OF node_Node(3)] by (simp_all only: dvd_add)
  have lim: "length pre + length b + length u + length w + length end_node_bytes + 8 < usize_limit"
    using node_Node.prems(3) by (simp add: add.assoc)
  have "?go (length pre) d sr ins out = ?go (length (pre @ b)) (Suc d) sr ins (out @ b)"
    using graft_loop_chunk [OF node_Node(1), of pre "u @ w @ end_node_bytes @ post"] node_Node.prems lim
    by (auto simp: Let_def is_memory_node_def)
  also have "\<dots> = ?go (length (pre @ b @ u)) (Suc d) sr ins (out @ b @ u)"
    using graft_props [OF node_Node(2), of "pre @ b" "w @ end_node_bytes @ post"] al lim by (simp add: add.assoc)
  also have "\<dots> = ?go (length (pre @ b @ u @ w)) (Suc d) sr ins (out @ b @ u @ w)"
    using node_Node.IH(3) [of "Suc d" "pre @ b @ u" "end_node_bytes @ post" "out @ b @ u"] node_Node.prems(1) al lim
    by (auto simp: add.assoc)
  finally show ?case
    using graft_loop_chunk [of end_node_bytes EvEndNode "pre @ b @ u @ w" post] node_Node.prems(1) al lim
    by (auto simp: add.assoc Let_def)
next
  case (nodes_Nop ns w)
  then show ?case
    using graft_loop_chunk [of nop_bytes EvNop pre "w @ post"] nodes_Nop.IH(2) [of d "pre @ nop_bytes" post "out @ nop_bytes"]
    by (simp add: add.assoc Let_def)
next
  case (nodes_Cons c u ns w)
  then show ?case
    using nodes_Cons.IH(2) [of d pre "w @ post"] nodes_Cons.IH(4) [of d "pre @ u" post "out @ u"]
      node_bytes_dvd4(1) [OF nodes_Cons(1)]
    by (simp add: add.assoc)
qed simp

text \<open>\<open>frag_bytes\<close>: the memory fragments are the bytes of these nodes.\<close>

definition frag_bytes :: "bytes \<Rightarrow> node list \<Rightarrow> bytes list \<Rightarrow> bool" where
  "frag_bytes strings ns frags \<longleftrightarrow> list_all2 (node_bytes strings) ns frags"

lemma frag_bytes_concat: "frag_bytes strings ns frags \<Longrightarrow> nodes_bytes strings ns (concat frags)"
  unfolding frag_bytes_def
  by (induction rule: list_all2_induct) (auto intro: node_bytes_nodes_bytes.intros)

lemma graft_children:
  "node_bytes strings n w \<Longrightarrow> True"
  "nodes_bytes strings cs w \<Longrightarrow> 4 dvd length pre \<Longrightarrow> length pre + length w + 8 < usize_limit \<Longrightarrow>
   frag_bytes strings mems memory \<Longrightarrow>
   \<exists>w'. nodes_bytes strings ((if \<not> ins \<and> (\<exists>c \<in> set cs. \<not> is_memory_node c) then mems else []) @
                             filter (\<lambda>c. \<not> is_memory_node c) cs) w' \<and>
     graft_loop (pre @ w @ post) memory (length pre) 1 sr ins out =
     graft_loop (pre @ w @ post) memory (length pre + length w) 1 sr
       (ins \<or> (\<exists>c \<in> set cs. \<not> is_memory_node c)) (out @ w')"
proof (induction arbitrary: and pre post out ins rule: node_bytes_nodes_bytes.inducts)
  case nodes_Nil
  then show ?case by (auto intro: node_bytes_nodes_bytes.intros)
next
  case (nodes_Nop cs w)
  have "4 dvd length (pre @ nop_bytes)" "length (pre @ nop_bytes) + length w + 8 < usize_limit"
    using nodes_Nop.prems by (simp_all add: add.assoc)
  then obtain w' where w': "nodes_bytes strings ((if \<not> ins \<and> (\<exists>c \<in> set cs. \<not> is_memory_node c) then mems else []) @
                             filter (\<lambda>c. \<not> is_memory_node c) cs) w'"
      "graft_loop ((pre @ nop_bytes) @ w @ post) memory (length (pre @ nop_bytes)) 1 sr ins (out @ nop_bytes) =
       graft_loop ((pre @ nop_bytes) @ w @ post) memory (length (pre @ nop_bytes) + length w) 1 sr
         (ins \<or> (\<exists>c \<in> set cs. \<not> is_memory_node c)) ((out @ nop_bytes) @ w')"
    using nodes_Nop.IH(2) [of "pre @ nop_bytes" ins post "out @ nop_bytes"] nodes_Nop.prems(3) by blast
  show ?case
    using graft_loop_chunk [of nop_bytes EvNop pre "w @ post"] nodes_Nop.prems w'
    by (intro exI [of _ "nop_bytes @ w'"]) (simp add: add.assoc Let_def node_bytes_nodes_bytes.nodes_Nop)
next
  case (nodes_Cons c u cs w)
  let ?all = "pre @ u @ w @ post"
  have al: "4 dvd length (pre @ u)" using nodes_Cons.prems(1) node_bytes_dvd4(1) [OF nodes_Cons(1)] by simp
  have lim: "length pre + length u + 8 < usize_limit" using nodes_Cons.prems(2) by simp
  obtain b name x where u: "u = b @ x" "chunk b (EvBegin name)" "name = nname c"
    using nodes_Cons(1) by (cases rule: node_bytes.cases) auto
  have limb: "length pre + length b + 8 < usize_limit" using lim u(1) by simp
  let ?ins = "ins \<or> \<not> is_memory_node c"
  obtain u' where u': "nodes_bytes strings ((if \<not> ins \<and> \<not> is_memory_node c then mems else []) @
        (if is_memory_node c then [] else [c])) u'"
      "graft_loop ?all memory (length pre) 1 sr ins out = graft_loop ?all memory (length (pre @ u)) 1 sr ?ins (out @ u')"
  proof (cases "is_memory_node c")
    case True
    then have "graft_loop ?all memory (length pre) 1 sr ins out = graft_loop ?all memory (length (pre @ u)) 1 sr ins out"
      using graft_loop_chunk [OF u(2) nodes_Cons.prems(1) limb, of "x @ w @ post"]
        skip_nodes(1) [OF nodes_Cons(1) nodes_Cons.prems(1) lim, of "w @ post" 0] u
      by (simp add: is_memory_node_def skip_node_subtree_def)
    then show ?thesis using that [of "[]"] True by (simp add: node_bytes_nodes_bytes.nodes_Nil)
  next
    case False
    let ?m = "if ins then [] else concat memory"
    have "graft_loop ?all memory (length pre) 1 sr ins out = graft_loop ?all memory (length pre) 1 sr True (out @ ?m)"
      using graft_loop_chunk [OF u(2) nodes_Cons.prems(1) limb, of "x @ w @ post"] False u
      by (simp add: is_memory_node_def Let_def)
    also have "\<dots> = graft_loop ?all memory (length (pre @ u)) 1 sr True (out @ ?m @ u)"
      using graft_nodes_keep(1) [OF nodes_Cons(1) _ nodes_Cons.prems(1) lim, of 1 True "w @ post" memory sr "out @ ?m"] False
      by simp
    finally show ?thesis
      using that [of "?m @ u"] False nodes_bytes_join(2) [OF frag_bytes_concat [OF nodes_Cons.prems(3)], of "[c]" "u @ []"]
        node_bytes_nodes_bytes.nodes_Cons [OF nodes_Cons(1) node_bytes_nodes_bytes.nodes_Nil] by (cases ins) simp_all
  qed
  obtain w' where w': "nodes_bytes strings ((if \<not> ?ins \<and> (\<exists>c \<in> set cs. \<not> is_memory_node c) then mems else []) @
                             filter (\<lambda>c. \<not> is_memory_node c) cs) w'"
      "graft_loop ((pre @ u) @ w @ post) memory (length (pre @ u)) 1 sr ?ins (out @ u') =
       graft_loop ((pre @ u) @ w @ post) memory (length (pre @ u) + length w) 1 sr
         (?ins \<or> (\<exists>c \<in> set cs. \<not> is_memory_node c)) ((out @ u') @ w')"
    using nodes_Cons.IH(4) [of "pre @ u" ?ins post "out @ u'"] nodes_Cons.prems al by auto
  have "nodes_bytes strings ((if \<not> ins \<and> (\<exists>c \<in> set (c # cs). \<not> is_memory_node c) then mems else []) @
      filter (\<lambda>c. \<not> is_memory_node c) (c # cs)) (u' @ w')"
    using nodes_bytes_join(2) [OF u'(1) w'(1)] by (cases ins; cases "is_memory_node c") simp_all
  moreover have "(ins \<or> (\<exists>c \<in> set (c # cs). \<not> is_memory_node c)) = (?ins \<or> (\<exists>c \<in> set cs. \<not> is_memory_node c))"
    by auto
  ultimately show ?case
    using u'(2) w'(2) by (intro exI [of _ "u' @ w'"]) (simp add: add.assoc)
qed simp


section \<open>Copying the memory nodes\<close>

lemma copy_loop_chunk:
  assumes "chunk w e" and "4 dvd length pre" and "length pre + length w + 8 < usize_limit" and "4 dvd length out"
  shows "copy_loop (pre @ w @ post) strings (length pre) depth out os =
    (let go = copy_loop (pre @ w @ post) strings (length pre + length w) in
     case e of
       EvBegin name \<Rightarrow> go (depth + 1) (out @ w) os
     | EvEndNode \<Rightarrow>
         if depth = 0 then invalid_data ''DTB structure has too many END_NODE tokens''
         else if depth - 1 = 0 then Inr (out @ w, length pre + length w, os)
         else go (depth - 1) (out @ w) os
     | EvProp off v \<Rightarrow>
         (case string_at strings off of
            None \<Rightarrow> invalid_data ''DTB property name offset is out of range''
          | Some name \<Rightarrow>
              bind_io (ensure_string os name) (\<lambda>so. go depth (out @ enc_event (EvProp (snd so) v)) (fst so)))
     | EvNop \<Rightarrow> go depth (out @ w) os
     | EvEnd \<Rightarrow> invalid_data ''DTB node subtree is unterminated'')"
proof (cases e)
  case (EvProp off v)
  have v: "slice (pre @ w @ post) (length pre + 12) (length pre + 12 + length v) = v"
    using chunk_value assms(1) EvProp by blast
  have "pad_to (write_be32 (write_be32 (write_be32 out FDT_PROP) (of_nat (length v))) nameoff @ v) 4 =
      out @ enc_event (EvProp nameoff v)" for nameoff
    using fdt_write_prop_enc [OF assms(4)] by (simp add: write_be32_def fdt_write_prop_def)
  then show ?thesis
    by (subst copy_loop.simps, subst next_token_chunk [OF assms(1-3)])
      (simp add: EvProp v Let_def del: enc_event.simps cong: option.case_cong)
next
  case (EvBegin name)
  have raw: "index_slice (pre @ w @ post) (length pre) (length pre + length w) = Inr w"
    by (simp add: slice_exact)
  show ?thesis
    by (subst copy_loop.simps, subst next_token_chunk [OF assms(1-3)]) (simp add: EvBegin raw Let_def del: index_slice_Inr)
qed (subst copy_loop.simps, subst next_token_chunk [OF assms(1-3)], simp add: slice_exact Let_def)+

lemma copy_props:
  "props_bytes strings ps w \<Longrightarrow> copy_loop (pre @ w @ post) strings (length pre) d out os = Inr r \<Longrightarrow>
   4 dvd length pre \<Longrightarrow> 4 dvd length out \<Longrightarrow> length pre + length w + 8 < usize_limit \<Longrightarrow>
   \<exists>w' suf. props_bytes (os @ suf) ps w' \<and>
     copy_loop (pre @ w @ post) strings (length pre + length w) d (out @ w') (os @ suf) = Inr r"
proof (induction arbitrary: pre out os rule: props_bytes.induct)
  case props_Nil
  then show ?case by (intro exI [of _ "[]"]) (simp add: props_bytes.props_Nil)
next
  case (props_Nop ps w)
  have "copy_loop ((pre @ nop_bytes) @ w @ post) strings (length (pre @ nop_bytes)) d (out @ nop_bytes) os = Inr r"
    using copy_loop_chunk [of nop_bytes EvNop pre out "w @ post" strings] props_Nop.prems by (simp add: add.assoc Let_def)
  then obtain w' suf where "props_bytes (os @ suf) ps w'"
      "copy_loop ((pre @ nop_bytes) @ w @ post) strings (length (pre @ nop_bytes) + length w) d ((out @ nop_bytes) @ w') (os @ suf) = Inr r"
    using props_Nop.IH [of "pre @ nop_bytes" "out @ nop_bytes" os] props_Nop.prems by (auto simp: add.assoc)
  then show ?case
    by (intro exI [of _ "nop_bytes @ w'"] exI [of _ suf]) (simp add: add.assoc props_bytes.props_Nop)
next
  case (props_Cons b off v k ps w)
  have lim: "length pre + length b + 8 < usize_limit" using props_Cons.prems(4) by simp
  obtain os1 off' where so: "ensure_string os k = Inr (os1, off')"
    and go: "copy_loop ((pre @ b) @ w @ post) strings (length (pre @ b)) d (out @ enc_event (EvProp off' v)) os1 = Inr r"
    using copy_loop_chunk [OF props_Cons.hyps(1) props_Cons.prems(2) lim props_Cons.prems(3), of "w @ post" strings d os]
      props_Cons.prems(1) props_Cons.hyps(2) by (auto simp: Let_def)
  have c: "chunk (enc_event (EvProp off' v)) (EvProp off' v)"
    using chunk_event_ok [OF props_Cons.hyps(1)] by (intro chunk_enc_event) simp
  have "4 dvd length (out @ enc_event (EvProp off' v))" "4 dvd length (pre @ b)"
    using props_Cons.prems(2,3) chunk_dvd4 [OF c] chunk_dvd4 [OF props_Cons.hyps(1)] by simp_all
  then obtain w' suf where w': "props_bytes (os1 @ suf) ps w'"
      "copy_loop ((pre @ b) @ w @ post) strings (length (pre @ b) + length w) d ((out @ enc_event (EvProp off' v)) @ w') (os1 @ suf) = Inr r"
    using props_Cons.IH [OF go] props_Cons.prems(4) by (auto simp: add.assoc)
  obtain suf1 where suf1: "os1 = os @ suf1" using ensure_string_extends [OF so] by blast
  have "string_at (os1 @ suf) off' = Some k"
    using st.intern_at [OF so string_at_no_nul [OF props_Cons.hyps(2)]] string_at_append by blast
  then have "props_bytes (os1 @ suf) ((k, v) # ps) (enc_event (EvProp off' v) @ w')"
    by (rule props_bytes.props_Cons [OF c _ w'(1)])
  then show ?case
    using w'(2) suf1 by (intro exI [of _ "enc_event (EvProp off' v) @ w'"] exI [of _ "suf1 @ suf"])
      (simp add: add.assoc del: enc_event.simps)
qed

lemma copy_nodes:
  "node_bytes strings n w \<Longrightarrow> copy_loop (pre @ w @ post) strings (length pre) d out os = Inr r \<Longrightarrow>
   4 dvd length pre \<Longrightarrow> 4 dvd length out \<Longrightarrow> length pre + length w + 8 < usize_limit \<Longrightarrow>
   \<exists>w' suf. node_bytes (os @ suf) n w' \<and>
     (if d = 0 then r = (out @ w', length pre + length w, os @ suf)
      else copy_loop (pre @ w @ post) strings (length pre + length w) d (out @ w') (os @ suf) = Inr r)"
  "nodes_bytes strings ns w \<Longrightarrow> copy_loop (pre @ w @ post) strings (length pre) (Suc d) out os = Inr r \<Longrightarrow>
   4 dvd length pre \<Longrightarrow> 4 dvd length out \<Longrightarrow> length pre + length w + 8 < usize_limit \<Longrightarrow>
   \<exists>w' suf. nodes_bytes (os @ suf) ns w' \<and>
     copy_loop (pre @ w @ post) strings (length pre + length w) (Suc d) (out @ w') (os @ suf) = Inr r"
proof (induction arbitrary: pre post d out os and pre post d out os rule: node_bytes_nodes_bytes.inducts)
  case (node_Node b name ps u ns w)
  let ?go = "copy_loop (pre @ b @ u @ w @ end_node_bytes @ post) strings"
  have al: "4 dvd length (pre @ b)" "4 dvd length (pre @ b @ u)" "4 dvd length (pre @ b @ u @ w)"
    unfolding length_append using node_Node.prems(2) chunk_dvd4 [OF node_Node(1)] props_bytes_dvd4 [OF node_Node(2)]
      node_bytes_dvd4(2) [OF node_Node(3)] by (simp_all only: dvd_add)
  have lim: "length pre + length b + length u + length w + length end_node_bytes + 8 < usize_limit"
    using node_Node.prems(4) by (simp add: add.assoc)
  have limb: "length pre + length b + 8 < usize_limit" using lim by simp
  have alb: "4 dvd length (out @ b)" using node_Node.prems(3) chunk_dvd4 [OF node_Node(1)] by simp
  have 1: "?go (length (pre @ b)) (Suc d) (out @ b) os = Inr r"
    using copy_loop_chunk [OF node_Node(1) node_Node.prems(2) limb node_Node.prems(3), of "u @ w @ end_node_bytes @ post" strings d os]
      node_Node.prems(1) by simp
  obtain u' suf where u': "props_bytes (os @ suf) ps u'"
      "?go (length (pre @ b @ u)) (Suc d) (out @ b @ u') (os @ suf) = Inr r"
    using copy_props [OF node_Node(2), of "pre @ b" "w @ end_node_bytes @ post" "Suc d" "out @ b" os r] 1 al alb lim
    by (auto simp: add.assoc)
  have alu: "4 dvd length (out @ b @ u')" using alb props_bytes_dvd4 [OF u'(1)] by (simp add: add.assoc [symmetric])
  obtain w' suf' where w': "nodes_bytes ((os @ suf) @ suf') ns w'"
      "?go (length (pre @ b @ u @ w)) (Suc d) (out @ b @ u' @ w') ((os @ suf) @ suf') = Inr r"
    using node_Node.IH(3) [of "pre @ b @ u" "end_node_bytes @ post" d "out @ b @ u'" "os @ suf"] u'(2) al alu lim
    by (auto simp: add.assoc)
  have alw: "4 dvd length (out @ b @ u' @ w')" using alu node_bytes_dvd4(2) [OF w'(1)] by (simp add: add.assoc [symmetric])
  have node: "node_bytes (os @ suf @ suf') (Node name ps ns) (b @ u' @ w' @ end_node_bytes)"
    using props_bytes_append [OF u'(1), of suf'] w'(1)
    by (intro node_bytes_nodes_bytes.node_Node node_Node(1)) simp_all
  show ?case
    by (intro exI [of _ "b @ u' @ w' @ end_node_bytes"] exI [of _ "suf @ suf'"])
      (use node w'(2) copy_loop_chunk [of end_node_bytes EvEndNode "pre @ b @ u @ w" "out @ b @ u' @ w'" post strings "Suc d" "os @ suf @ suf'"]
         al alw lim in \<open>auto simp: add.assoc\<close>)
next
  case nodes_Nil
  then show ?case by (intro exI [of _ "[]"]) (simp add: node_bytes_nodes_bytes.nodes_Nil)
next
  case (nodes_Nop ns w)
  have "copy_loop ((pre @ nop_bytes) @ w @ post) strings (length (pre @ nop_bytes)) (Suc d) (out @ nop_bytes) os = Inr r"
    using copy_loop_chunk [of nop_bytes EvNop pre out "w @ post" strings] nodes_Nop.prems by (simp add: add.assoc Let_def)
  then obtain w' suf where "nodes_bytes (os @ suf) ns w'"
      "copy_loop ((pre @ nop_bytes) @ w @ post) strings (length (pre @ nop_bytes) + length w) (Suc d) ((out @ nop_bytes) @ w') (os @ suf) = Inr r"
    using nodes_Nop.IH(2) [of "pre @ nop_bytes" post d "out @ nop_bytes" os] nodes_Nop.prems by (auto simp: add.assoc)
  then show ?case
    by (intro exI [of _ "nop_bytes @ w'"] exI [of _ suf]) (simp add: add.assoc node_bytes_nodes_bytes.nodes_Nop)
next
  case (nodes_Cons c u ns w)
  have al: "4 dvd length (pre @ u)" using nodes_Cons.prems(2) node_bytes_dvd4(1) [OF nodes_Cons(1)] by simp
  obtain u' suf where u': "node_bytes (os @ suf) c u'"
      "copy_loop ((pre @ u) @ w @ post) strings (length (pre @ u)) (Suc d) (out @ u') (os @ suf) = Inr r"
    using nodes_Cons.IH(2) [of pre "w @ post" "Suc d" out os] nodes_Cons.prems by (auto simp: add.assoc)
  have "4 dvd length (out @ u')" using nodes_Cons.prems(3) node_bytes_dvd4(1) [OF u'(1)] by simp
  then obtain w' suf' where w': "nodes_bytes ((os @ suf) @ suf') ns w'"
      "copy_loop ((pre @ u) @ w @ post) strings (length (pre @ u) + length w) (Suc d) ((out @ u') @ w') ((os @ suf) @ suf') = Inr r"
    using nodes_Cons.IH(4) [OF u'(2)] nodes_Cons.prems al by (auto simp: add.assoc)
  have "nodes_bytes (os @ suf @ suf') (c # ns) (u' @ w')"
    using node_bytes_append(1) [OF u'(1), of suf'] w'(1) by (intro node_bytes_nodes_bytes.nodes_Cons) simp_all
  then show ?case
    using w'(2) by (intro exI [of _ "u' @ w'"] exI [of _ "suf @ suf'"]) (simp add: add.assoc)
qed


lemma extract_loop_chunk:
  assumes "chunk w e" and "4 dvd length pre" and "length pre + length w + 8 < usize_limit"
  shows "extract_loop (pre @ w @ post) strings os (length pre) depth sr memory =
    (let go = extract_loop (pre @ w @ post) strings os (length pre + length w) in
     case e of
       EvBegin name \<Rightarrow>
         if depth = 0 then
           (if sr then invalid_data ''DTB structure has multiple root nodes''
            else if name \<noteq> [] then invalid_data ''DTB root node name is not empty''
            else go 1 True memory)
         else if depth = 1 \<and> is_memory_node_name name then
           bind_io (copy_node_subtree (pre @ w @ post) strings (length pre) os) (\<lambda>dns.
           case dns of (data, nx, os) \<Rightarrow>
           extract_loop (pre @ w @ post) strings os nx depth sr (memory @ [data]))
         else go (depth + 1) sr memory
     | EvEndNode \<Rightarrow>
         if depth = 0 then invalid_data ''DTB structure has too many END_NODE tokens''
         else go (depth - 1) sr memory
     | EvProp off v \<Rightarrow> go depth sr memory
     | EvNop \<Rightarrow> go depth sr memory
     | EvEnd \<Rightarrow>
         if \<not> sr then invalid_data ''DTB structure has no root node''
         else if depth \<noteq> 0 then invalid_data ''DTB structure ended before all nodes were closed''
         else Inr (memory, os))"
  by (subst extract_loop.simps, subst next_token_chunk [OF assms]) (cases e; simp add: Let_def)

lemma extract_props:
  "props_bytes strings ps w \<Longrightarrow> 4 dvd length pre \<Longrightarrow> length pre + length w + 8 < usize_limit \<Longrightarrow>
   extract_loop (pre @ w @ post) strings os (length pre) d sr memory =
   extract_loop (pre @ w @ post) strings os (length pre + length w) d sr memory"
proof (induction arbitrary: pre rule: props_bytes.induct)
  case (props_Nop ps w)
  then show ?case
    using extract_loop_chunk [of nop_bytes EvNop pre "w @ post"] props_Nop.IH [of "pre @ nop_bytes"]
    by (simp add: add.assoc Let_def)
next
  case (props_Cons b off v k ps w)
  then show ?case
    using extract_loop_chunk [OF props_Cons.hyps(1), of pre "w @ post"] chunk_dvd4 [OF props_Cons.hyps(1)]
      props_Cons.IH [of "pre @ b"]
    by (simp add: add.assoc Let_def)
qed simp

lemma extract_nodes_skip:
  "node_bytes strings n w \<Longrightarrow> 2 \<le> d \<or> d = 1 \<and> \<not> is_memory_node n \<Longrightarrow> 4 dvd length pre \<Longrightarrow>
   length pre + length w + 8 < usize_limit \<Longrightarrow>
   extract_loop (pre @ w @ post) strings os (length pre) d sr memory =
   extract_loop (pre @ w @ post) strings os (length pre + length w) d sr memory"
  "nodes_bytes strings ns w \<Longrightarrow> 2 \<le> d \<Longrightarrow> 4 dvd length pre \<Longrightarrow>
   length pre + length w + 8 < usize_limit \<Longrightarrow>
   extract_loop (pre @ w @ post) strings os (length pre) d sr memory =
   extract_loop (pre @ w @ post) strings os (length pre + length w) d sr memory"
proof (induction arbitrary: pre post d and pre post d rule: node_bytes_nodes_bytes.inducts)
  case (node_Node b name ps u ns w)
  let ?go = "extract_loop (pre @ b @ u @ w @ end_node_bytes @ post) strings os"
  have al: "4 dvd length (pre @ b)" "4 dvd length (pre @ b @ u)" "4 dvd length (pre @ b @ u @ w)"
    unfolding length_append using node_Node.prems(2) chunk_dvd4 [OF node_Node(1)] props_bytes_dvd4 [OF node_Node(2)]
      node_bytes_dvd4(2) [OF node_Node(3)] by (simp_all only: dvd_add)
  have lim: "length pre + length b + length u + length w + length end_node_bytes + 8 < usize_limit"
    using node_Node.prems(3) by (simp add: add.assoc)
  have "?go (length pre) d sr memory = ?go (length (pre @ b)) (Suc d) sr memory"
    using extract_loop_chunk [OF node_Node(1), of pre "u @ w @ end_node_bytes @ post"] node_Node.prems lim
    by (auto simp: Let_def is_memory_node_def)
  also have "\<dots> = ?go (length (pre @ b @ u)) (Suc d) sr memory"
    using extract_props [OF node_Node(2), of "pre @ b" "w @ end_node_bytes @ post"] al lim by (simp add: add.assoc)
  also have "\<dots> = ?go (length (pre @ b @ u @ w)) (Suc d) sr memory"
    using node_Node.IH(3) [of "Suc d" "pre @ b @ u" "end_node_bytes @ post"] node_Node.prems(1) al lim
    by (auto simp: add.assoc)
  finally show ?case
    using extract_loop_chunk [of end_node_bytes EvEndNode "pre @ b @ u @ w" post] node_Node.prems(1) al lim
    by (auto simp: add.assoc Let_def)
next
  case (nodes_Nop ns w)
  then show ?case
    using extract_loop_chunk [of nop_bytes EvNop pre "w @ post"] nodes_Nop.IH(2) [of d "pre @ nop_bytes" post]
    by (simp add: add.assoc Let_def)
next
  case (nodes_Cons c u ns w)
  then show ?case
    using nodes_Cons.IH(2) [of d pre "w @ post"] nodes_Cons.IH(4) [of d "pre @ u" post] node_bytes_dvd4(1) [OF nodes_Cons(1)]
    by (simp add: add.assoc)
qed simp

lemma frag_bytes_append: "frag_bytes s ns fs \<Longrightarrow> frag_bytes (s @ t) ns fs"
  unfolding frag_bytes_def by (erule list_all2_mono) (rule node_bytes_append(1))

lemma extract_children:
  "node_bytes strings n w \<Longrightarrow> True"
  "nodes_bytes strings cs w \<Longrightarrow> extract_loop (pre @ w @ post) strings os (length pre) 1 sr memory = Inr r \<Longrightarrow>
   4 dvd length pre \<Longrightarrow> length pre + length w + 8 < usize_limit \<Longrightarrow>
   \<exists>frags suf. frag_bytes (os @ suf) (filter is_memory_node cs) frags \<and>
     extract_loop (pre @ w @ post) strings (os @ suf) (length pre + length w) 1 sr (memory @ frags) = Inr r"
proof (induction arbitrary: and pre post os memory rule: node_bytes_nodes_bytes.inducts)
  case nodes_Nil
  then show ?case by (intro exI [of _ "[]"]) (simp add: frag_bytes_def)
next
  case (nodes_Nop cs w)
  have "extract_loop ((pre @ nop_bytes) @ w @ post) strings os (length (pre @ nop_bytes)) 1 sr memory = Inr r"
    using extract_loop_chunk [of nop_bytes EvNop pre "w @ post"] nodes_Nop.prems by (simp add: add.assoc Let_def)
  then obtain frags suf where "frag_bytes (os @ suf) (filter is_memory_node cs) frags"
      "extract_loop ((pre @ nop_bytes) @ w @ post) strings (os @ suf) (length (pre @ nop_bytes) + length w) 1 sr (memory @ frags) = Inr r"
    using nodes_Nop.IH(2) [of "pre @ nop_bytes" post os memory] nodes_Nop.prems by (auto simp: add.assoc)
  then show ?case by (intro exI [of _ frags] exI [of _ suf]) (simp add: add.assoc)
next
  case (nodes_Cons c u cs w)
  have al: "4 dvd length (pre @ u)" using nodes_Cons.prems(2) node_bytes_dvd4(1) [OF nodes_Cons(1)] by simp
  have lim: "length pre + length u + 8 < usize_limit" using nodes_Cons.prems(3) by simp
  have "\<exists>fs suf. frag_bytes (os @ suf) (filter is_memory_node [c]) fs \<and>
      extract_loop ((pre @ u) @ w @ post) strings (os @ suf) (length (pre @ u)) 1 sr (memory @ fs) = Inr r"
  proof (cases "is_memory_node c")
    case True
    obtain b name x where u: "u = b @ x" "chunk b (EvBegin name)" "name = nname c"
      using nodes_Cons(1) by (cases rule: node_bytes.cases) auto
    obtain data nx os1 where cp: "copy_loop (pre @ u @ w @ post) strings (length pre) 0 [] os = Inr (data, nx, os1)"
        "extract_loop (pre @ u @ w @ post) strings os1 nx 1 sr (memory @ [data]) = Inr r"
      using nodes_Cons.prems(1) extract_loop_chunk [OF u(2) nodes_Cons.prems(2), of "x @ w @ post"] lim True u
      by (auto simp: is_memory_node_def copy_node_subtree_def)
    obtain suf where "node_bytes (os @ suf) c data" "nx = length pre + length u" "os1 = os @ suf"
      using copy_nodes(1) [OF nodes_Cons(1) cp(1) nodes_Cons.prems(2) _ lim] by auto
    then show ?thesis using cp(2) True by (intro exI [of _ "[data]"] exI [of _ suf]) (simp add: frag_bytes_def)
  next
    case False
    then show ?thesis
      using extract_nodes_skip(1) [OF nodes_Cons(1) _ nodes_Cons.prems(2) lim, of 1 "w @ post"] nodes_Cons.prems(1)
      by (intro exI [of _ "[]"]) (simp add: frag_bytes_def)
  qed
  then obtain fs suf where fs: "frag_bytes (os @ suf) (filter is_memory_node [c]) fs"
      "extract_loop ((pre @ u) @ w @ post) strings (os @ suf) (length (pre @ u)) 1 sr (memory @ fs) = Inr r"
    by blast
  have "length (pre @ u) + length w + 8 < usize_limit" using nodes_Cons.prems(3) by (simp add: add.assoc)
  then obtain frags suf' where fr: "frag_bytes ((os @ suf) @ suf') (filter is_memory_node cs) frags"
      "extract_loop ((pre @ u) @ w @ post) strings ((os @ suf) @ suf') (length (pre @ u) + length w) 1 sr ((memory @ fs) @ frags) = Inr r"
    using nodes_Cons.IH(4) [OF fs(2) al] by blast
  have "frag_bytes (os @ suf @ suf') (filter is_memory_node (c # cs)) (fs @ frags)"
    using frag_bytes_append [OF fs(1), of suf'] fr(1) list_all2_appendI
    by (cases "is_memory_node c") (fastforce simp: frag_bytes_def)+
  then show ?case
    using fr(2) by (intro exI [of _ "fs @ frags"] exI [of _ "suf @ suf'"]) (simp add: add.assoc)
qed simp


section \<open>Whole blobs\<close>

lemma extract_nops:
  "nops w \<Longrightarrow> 4 dvd length pre \<Longrightarrow> length pre + length w + 8 < usize_limit \<Longrightarrow>
   extract_loop (pre @ w @ post) strings os (length pre) d sr memory =
   extract_loop (pre @ w @ post) strings os (length pre + length w) d sr memory"
proof (induction arbitrary: pre rule: nops.induct)
  case (nops_Cons w)
  then show ?case
    using extract_loop_chunk [of nop_bytes EvNop pre "w @ post"] nops_Cons.IH [of "pre @ nop_bytes"]
    by (simp add: add.assoc Let_def)
qed simp

lemma graft_nops:
  "nops w \<Longrightarrow> 4 dvd length pre \<Longrightarrow> length pre + length w + 8 < usize_limit \<Longrightarrow>
   graft_loop (pre @ w @ post) memory (length pre) d sr ins out =
   graft_loop (pre @ w @ post) memory (length pre + length w) d sr ins (out @ w)"
proof (induction arbitrary: pre out rule: nops.induct)
  case (nops_Cons w)
  then show ?case
    using graft_loop_chunk [of nop_bytes EvNop pre "w @ post"] nops_Cons.IH [of "pre @ nop_bytes" "out @ nop_bytes"]
    by (simp add: add.assoc Let_def)
qed simp

lemma extract_memory_fragments_tree:
  assumes "tree_block strings root sb" and "length sb + 8 < usize_limit"
    and "extract_memory_fragments sb strings os = Inr (memory, os')"
  shows "frag_bytes os' (filter is_memory_node (nchildren root)) memory \<and> (\<exists>suf. os' = os @ suf)"
proof -
  obtain x w y rest where sb: "sb = x @ w @ y @ end_bytes @ rest" "nops x" "node_bytes strings root w" "nops y"
    and wf: "nname root = []"
    using assms(1) by (auto simp: tree_block_def)
  obtain ps cs where n: "root = Node [] ps cs" using wf by (cases root) auto
  obtain b u v where w: "w = b @ u @ v @ end_node_bytes" "chunk b (EvBegin [])" "props_bytes strings ps u" "nodes_bytes strings cs v"
    using sb(3) unfolding n by (auto elim!: node_bytes_NodeE)
  have all: "sb = x @ b @ u @ v @ end_node_bytes @ y @ end_bytes @ rest" using sb(1) w(1) by simp
  have al: "4 dvd length x" "4 dvd length (x @ b)" "4 dvd length (x @ b @ u)" "4 dvd length (x @ b @ u @ v)"
    "4 dvd length (x @ b @ u @ v @ end_node_bytes)" "4 dvd length (x @ b @ u @ v @ end_node_bytes @ y)"
    unfolding length_append using nops_dvd4 [OF sb(2)] nops_dvd4 [OF sb(4)] chunk_dvd4 [OF w(2)] props_bytes_dvd4 [OF w(3)]
      node_bytes_dvd4(2) [OF w(4)] by (simp_all add: dvd_add)
  have lim: "length x + length b + length u + length v + length end_node_bytes + length y + length end_bytes + 8 < usize_limit"
    using assms(2) all by simp
  let ?go = "extract_loop sb strings"
  have "?go os 0 0 False [] = ?go os (length x) 0 False []"
    using extract_nops [OF sb(2), of "[]" "w @ y @ end_bytes @ rest"] lim by (simp add: sb(1))
  also have "\<dots> = ?go os (length (x @ b)) 1 True []"
    using extract_loop_chunk [OF w(2) al(1), of "u @ v @ end_node_bytes @ y @ end_bytes @ rest"] lim by (simp add: all)
  also have "\<dots> = ?go os (length (x @ b @ u)) 1 True []"
    using extract_props [OF w(3) al(2), of "v @ end_node_bytes @ y @ end_bytes @ rest"] lim by (simp add: all add.assoc)
  finally have run: "extract_loop ((x @ b @ u) @ v @ end_node_bytes @ y @ end_bytes @ rest) strings os (length (x @ b @ u)) 1 True [] =
      Inr (memory, os')"
    using assms(3) by (simp add: extract_memory_fragments_def all)
  have "length (x @ b @ u) + length v + 8 < usize_limit" using lim by simp
  then obtain frags suf where fr: "frag_bytes (os @ suf) (filter is_memory_node cs) frags"
      "extract_loop ((x @ b @ u) @ v @ end_node_bytes @ y @ end_bytes @ rest) strings (os @ suf) (length (x @ b @ u) + length v) 1 True ([] @ frags) =
       Inr (memory, os')"
    using extract_children(2) [OF w(4) run al(3)] by blast
  have "?go (os @ suf) (length (x @ b @ u @ v)) 1 True frags = ?go (os @ suf) (length (x @ b @ u @ v @ end_node_bytes)) 0 True frags"
    using extract_loop_chunk [of end_node_bytes EvEndNode "x @ b @ u @ v" "y @ end_bytes @ rest"] al(4) lim by (simp add: all add.assoc)
  also have "\<dots> = ?go (os @ suf) (length (x @ b @ u @ v @ end_node_bytes @ y)) 0 True frags"
    using extract_nops [OF sb(4) al(5), of "end_bytes @ rest"] lim by (simp add: all add.assoc)
  also have "\<dots> = Inr (frags, os @ suf)"
    using extract_loop_chunk [of end_bytes EvEnd "x @ b @ u @ v @ end_node_bytes @ y" rest] al(6) lim by (simp add: all add.assoc)
  finally have "frags = memory \<and> os @ suf = os'" using fr(2) by (simp add: all add.assoc)
  then show ?thesis using fr(1) by (auto simp: n)
qed

lemma graft_memory_tree_wf:
  assumes "node_wf 0 root" and "node_wf 0 live"
  shows "node_wf 0 (graft_memory_tree root live)"
  using assms distinct_map_filter
  by (auto simp: node_wf_iff [of 0 root] node_wf_iff [of 0 live] node_wf_iff [of 0 "graft_memory_tree root live"]
      graft_memory_tree_def is_memory_node_def distinct_map_filter)

lemma graft_memory_structure_tree:
  assumes "tree_block strings root sb" and "length sb + 8 < usize_limit" and "node_wf 0 live"
    and "frag_bytes strings (filter is_memory_node (nchildren live)) memory"
  shows "\<exists>sb'. graft_memory_structure sb memory = Inr sb' \<and> tree_block strings (graft_memory_tree root live) sb'"
proof -
  obtain x w y rest where sb: "sb = x @ w @ y @ end_bytes @ rest" "nops x" "node_bytes strings root w" "nops y"
    and wf: "nname root = []" "node_wf 0 root"
    using assms(1) by (auto simp: tree_block_def)
  obtain ps cs where n: "root = Node [] ps cs" using wf(1) by (cases root) auto
  obtain b u v where w: "w = b @ u @ v @ end_node_bytes" "chunk b (EvBegin [])" "props_bytes strings ps u" "nodes_bytes strings cs v"
    using sb(3) unfolding n by (auto elim!: node_bytes_NodeE)
  have all: "sb = x @ b @ u @ v @ end_node_bytes @ y @ end_bytes @ rest" using sb(1) w(1) by simp
  have al: "4 dvd length x" "4 dvd length (x @ b)" "4 dvd length (x @ b @ u)" "4 dvd length (x @ b @ u @ v)"
    "4 dvd length (x @ b @ u @ v @ end_node_bytes)" "4 dvd length (x @ b @ u @ v @ end_node_bytes @ y)"
    unfolding length_append using nops_dvd4 [OF sb(2)] nops_dvd4 [OF sb(4)] chunk_dvd4 [OF w(2)] props_bytes_dvd4 [OF w(3)]
      node_bytes_dvd4(2) [OF w(4)] by (simp_all add: dvd_add)
  have lim: "length x + length b + length u + length v + length end_node_bytes + length y + length end_bytes + 8 < usize_limit"
    using assms(2) all by simp
  let ?go = "graft_loop sb memory"
  let ?any = "\<exists>c \<in> set cs. \<not> is_memory_node c"
  let ?mems = "filter is_memory_node (nchildren live)"
  have "?go 0 0 False False [] = ?go (length x) 0 False False x"
    using graft_nops [OF sb(2), of "[]" "w @ y @ end_bytes @ rest" memory 0 False False "[]"] lim by (simp add: sb(1))
  also have "\<dots> = ?go (length (x @ b)) 1 True False (x @ b)"
    using graft_loop_chunk [OF w(2) al(1), of "u @ v @ end_node_bytes @ y @ end_bytes @ rest"] lim by (simp add: all)
  also have "\<dots> = ?go (length (x @ b @ u)) 1 True False (x @ b @ u)"
    using graft_props [OF w(3) al(2), of "v @ end_node_bytes @ y @ end_bytes @ rest"] lim by (simp add: all add.assoc)
  finally have 1: "?go 0 0 False False [] = ?go (length (x @ b @ u)) 1 True False (x @ b @ u)" .
  obtain v' where v': "nodes_bytes strings ((if ?any then ?mems else []) @ filter (\<lambda>c. \<not> is_memory_node c) cs) v'"
      "?go (length (x @ b @ u)) 1 True False (x @ b @ u) = ?go (length (x @ b @ u @ v)) 1 True ?any (x @ b @ u @ v')"
    using graft_children(2) [OF w(4) al(3) _ assms(4), of False "end_node_bytes @ y @ end_bytes @ rest" True "x @ b @ u"] lim
    by (auto simp: all add.assoc)
  let ?m = "if ?any then [] else concat memory"
  have 2: "?go (length (x @ b @ u @ v)) 1 True ?any (x @ b @ u @ v') =
      ?go (length (x @ b @ u @ v @ end_node_bytes)) 0 True True (x @ b @ u @ (v' @ ?m) @ end_node_bytes)"
    using graft_loop_chunk [of end_node_bytes EvEndNode "x @ b @ u @ v" "y @ end_bytes @ rest"] al(4) lim
    by (simp add: all add.assoc Let_def)
  have 3: "\<dots> = ?go (length (x @ b @ u @ v @ end_node_bytes @ y)) 0 True True (x @ b @ u @ (v' @ ?m) @ end_node_bytes @ y)"
    using graft_nops [OF sb(4) al(5), of "end_bytes @ rest"] lim by (simp add: all add.assoc)
  have 4: "\<dots> = Inr (x @ (b @ u @ (v' @ ?m) @ end_node_bytes) @ y @ end_bytes @ [])"
    using graft_loop_chunk [of end_bytes EvEnd "x @ b @ u @ v @ end_node_bytes @ y" rest] al(6) lim by (simp add: all add.assoc)
  have "nodes_bytes strings (?mems @ filter (\<lambda>c. \<not> is_memory_node c) cs) (v' @ ?m)"
    using v'(1) nodes_bytes_join(2) [OF v'(1) frag_bytes_concat [OF assms(4)]] by (cases ?any) (auto simp: filter_empty_conv)
  then have "node_bytes strings (graft_memory_tree root live) (b @ u @ (v' @ ?m) @ end_node_bytes)"
    unfolding graft_memory_tree_def n node.sel by (intro node_bytes_nodes_bytes.node_Node w(2,3)) simp
  then have "tree_block strings (graft_memory_tree root live) (x @ (b @ u @ (v' @ ?m) @ end_node_bytes) @ y @ end_bytes @ [])"
    unfolding tree_block_def using graft_memory_tree_wf [OF wf(2) assms(3)] wf(1) sb(2,4) 
    by (intro conjI exI [of _ x] exI [of _ "b @ u @ (v' @ ?m) @ end_node_bytes"] exI [of _ y] exI [of _ "[]"])
      (simp_all add: graft_memory_tree_def)
  then show ?thesis using 1 v'(2) 2 3 4 by (auto simp: graft_memory_structure_def)
qed

text \<open>C25: Grafting commutes with reading the trees: the result parses to the supplied tree with its root memory
  nodes replaced by those of the live tree, properties and sub-nodes included, ahead of the other
  children and with nothing else changed; the supplied reserve map is kept. The live tree has at
  least one memory node whenever grafting succeeds.\<close>

theorem graft_memory_tree_result:
  assumes "contract_tree dtb = Inr root" and "contract_tree live_dtb = Inr live"
    and "graft_memory dtb live_dtb = Inr out"
  shows "contract_tree out = Inr (graft_memory_tree root live) \<and>
    filter is_memory_node (nchildren live) \<noteq> [] \<and>
    (\<exists>h h' rm. fdt_header_parse dtb = Inr h \<and> fdt_header_parse out = Inr h' \<and>
       reserve_map dtb h = Inr rm \<and> reserve_map out h' = Inr rm)"
proof -
  obtain h sb st where h: "fdt_header_parse dtb = Inr h"
    and sb: "\<And>m. fdt_checked_slice dtb (off_dt_struct h) (size_dt_struct h) m = Inr sb"
    and st: "\<And>m. fdt_checked_slice dtb (off_dt_strings h) (size_dt_strings h) m = Inr st"
    and block: "tree_block st root sb" and len: "length sb < 2 ^ 32"
    using contract_tree_block [OF assms(1)] by blast
  obtain lh lsb lst where lh: "fdt_header_parse live_dtb = Inr lh"
    and lsb: "\<And>m. fdt_checked_slice live_dtb (off_dt_struct lh) (size_dt_struct lh) m = Inr lsb"
    and lst: "\<And>m. fdt_checked_slice live_dtb (off_dt_strings lh) (size_dt_strings lh) m = Inr lst"
    and lblock: "tree_block lst live lsb" and llen: "length lsb < 2 ^ 32"
    using contract_tree_block [OF assms(2)] by blast
  obtain rm memory st' sb' where rm: "reserve_map dtb h = Inr rm"
    and ex: "extract_memory_fragments lsb lst st = Inr (memory, st')" and ne: "memory \<noteq> []"
    and gr: "graft_memory_structure sb memory = Inr sb'" and out: "build_dtb h rm sb' st' = Inr out"
    using assms(3) h sb st lh lsb lst by (auto simp: graft_memory_def simp del: fdt_checked_slice_Inr split: if_splits)
  have fr: "frag_bytes st' (filter is_memory_node (nchildren live)) memory" "\<exists>suf. st' = st @ suf"
    using extract_memory_fragments_tree [OF lblock _ ex] llen by (simp_all add: usize_limit_def)
  have "tree_block st' root sb" using fr(2) block tree_block_append by auto
  moreover have "node_wf 0 live" using lblock by (simp add: tree_block_def)
  ultimately have "tree_block st' (graft_memory_tree root live) sb'"
    using graft_memory_structure_tree [OF _ _ _ fr(1)] len gr by (fastforce simp: usize_limit_def)
  moreover have "filter is_memory_node (nchildren live) \<noteq> []" using fr(1) ne by (auto simp: frag_bytes_def)
  ultimately show ?thesis
    using contract_tree_of_block [OF out] build_dtb_keeps_reserve_map [OF h rm out] h rm by blast
qed

definition demo_live :: bytes where
  "demo_live = (case build_contract_tree demo_blob
     (Node [] [] [Node (bytes_of ''memory@8'')
        [(PROP_REG, [0, 0, 0, 0x80])] []]) (enc_rsv [])
     of Inr b \<Rightarrow> b | Inl _ \<Rightarrow> [])"

lemma graft_memory_tree_result_witness:
  "\<exists>out. graft_memory demo_blob demo_live = Inr out \<and>
     contract_tree out = Inr (Node [] []
       [Node (bytes_of ''memory@8'')
          [(PROP_REG, [0, 0, 0, 0x80])] [],
        Node chosen_name [] []])"
proof -
  let ?run = "graft_memory demo_blob demo_live"
  let ?mem = "Node (bytes_of ''memory@8'')
          [(PROP_REG, [0, 0, 0, 0x80])] []"
  have tree: "contract_tree demo_blob = Inr (Node [] [] [Node chosen_name [] []])" by code_simp
  have live: "contract_tree demo_live = Inr (Node [] [] [?mem])" by code_simp
  have "\<not> isl ?run" by code_simp
  then obtain out where run: "?run = Inr out" by (cases ?run) auto
  moreover have "graft_memory_tree (Node [] [] [Node chosen_name [] []]) (Node [] [] [?mem]) =
      Node [] [] [?mem, Node chosen_name [] []]"
    by code_simp
  ultimately show ?thesis using graft_memory_tree_result [OF tree live run] by simp
qed

text \<open>A structure block that ends inside the padding of a node name makes grafting panic: the copied range
  is not checked against the block, while the walkers that only advance the cursor report an error.\<close>

theorem graft_panics_on_unpadded_name:
  "graft_memory_structure [0, 0, 0, 1, 0] memory = Inl RustPanic \<and>
   copy_node_subtree [0, 0, 0, 1, 0] [] 0 [] = Inl RustPanic \<and>
   skip_node_subtree [0, 0, 0, 1, 0] 0 = invalid_data ''unexpected end of data while reading u32''"
proof (intro conjI)
  show "graft_memory_structure [0, 0, 0, 1, 0] memory = Inl RustPanic" by code_simp
  show "copy_node_subtree [0, 0, 0, 1, 0] [] 0 [] = Inl RustPanic" by code_simp
  show "skip_node_subtree [0, 0, 0, 1, 0] 0 = invalid_data ''unexpected end of data while reading u32''" by code_simp
qed
end
