(* ===== verification/FdtReserved.thy ===== *)
theory FdtReserved
  imports FdtMemory
begin

text \<open>
  The memory a device tree reserves (\<open>reserved_ranges\<close> of \<open>src/kexec.rs\<close>): the entries of the
  memory reserve map and the \<open>reg\<close> ranges of the children of \<open>/reserved-memory\<close>. The structure walk
  is shown to be a fold over the tree, and the fold to collect what \<open>tree_reserved_ranges\<close> says.
\<close>


section \<open>Cells\<close>

definition decode_cells :: "bytes \<Rightarrow> u64" where
  "decode_cells cs =
     foldl (\<lambda>v cell. push_bit 32 v OR ucast (from_be_bytes cell :: u32)) 0 (chunks_exact 4 cs)"

text \<open>One tuple of a \<open>reg\<close> value: no range where the size is zero.\<close>

definition decode_reg_tuple :: "u32 \<Rightarrow> bytes \<Rightarrow> (u64 \<times> u64) list io" where
  "decode_reg_tuple address_cells tup =
     (let address_bytes = unat address_cells * 4;
          address = decode_cells (take address_bytes tup);
          sz = decode_cells (drop address_bytes tup)
      in if sz = 0 then Inr []
         else bind_io (ok_or (IoError InvalidData ''reserved-memory reg range overflows u64'')
                         (checked_add address sz)) (\<lambda>e. Inr [(address, e)]))"

definition decode_reg_ranges :: "bytes \<Rightarrow> u32 \<Rightarrow> u32 \<Rightarrow> (u64 \<times> u64) list io" where
  "decode_reg_ranges reg address_cells size_cells =
     bind_io (ok_or (IoError InvalidData ''reserved-memory reg cell count overflow'') (checked_add address_cells size_cells)) (\<lambda>tuple_cells.
     if \<not> (1 \<le> address_cells \<and> address_cells \<le> 2) \<or> \<not> (1 \<le> size_cells \<and> size_cells \<le> 2)
     then invalid_data ''unsupported reserved-memory reg format''
     else
       bind_io (ok_or (IoError InvalidData ''reserved-memory reg tuple size overflow'')
                  (checked_mul_usize (unat tuple_cells) 4)) (\<lambda>tuple_bytes.
       if length reg mod tuple_bytes \<noteq> 0 then invalid_data ''reserved-memory reg property has a partial tuple''
       else bind_io (map_io (decode_reg_tuple address_cells) (chunks_exact tuple_bytes reg)) (\<lambda>rss. Inr (concat rss))))"

record reserved_child =
  rc_enabled :: bool
  rc_reg :: "bytes option"

record reserved_state =
  rs_stack :: "bytes list"
  rs_root_address_cells :: u32
  rs_root_size_cells :: u32
  rs_address_cells :: "u32 option"
  rs_size_cells :: "u32 option"
  rs_child :: "reserved_child option"
  rs_ranges :: "(u64 \<times> u64) list"

abbreviation reserved_name :: bytes where "reserved_name \<equiv> bytes_of ''reserved-memory''"

definition is_reserved_memory :: "bytes list \<Rightarrow> bool" where
  "is_reserved_memory stack \<longleftrightarrow> length stack = 2 \<and> stack ! 0 = [] \<and> stack ! 1 = reserved_name"

definition is_reserved_memory_child :: "bytes list \<Rightarrow> bool" where
  "is_reserved_memory_child stack \<longleftrightarrow> length stack = 3 \<and> stack ! 0 = [] \<and> stack ! 1 = reserved_name"

text \<open>The \<open>FDT_PROP\<close> and \<open>FDT_END_NODE\<close> arms of the loop, up to the next iteration.\<close>

definition reserved_prop :: "reserved_state \<Rightarrow> bytes \<Rightarrow> bytes \<Rightarrow> reserved_state io" where
  "reserved_prop s name v =
     (if is_root (rs_stack s) then
        (if name = PROP_ADDRESS_CELLS then bind_io (property_u32 v) (\<lambda>c. Inr (s\<lparr>rs_root_address_cells := c\<rparr>))
         else if name = PROP_SIZE_CELLS then bind_io (property_u32 v) (\<lambda>c. Inr (s\<lparr>rs_root_size_cells := c\<rparr>))
         else Inr s)
      else if is_reserved_memory (rs_stack s) then
        (if name = PROP_ADDRESS_CELLS then bind_io (property_u32 v) (\<lambda>c. Inr (s\<lparr>rs_address_cells := Some c\<rparr>))
         else if name = PROP_SIZE_CELLS then bind_io (property_u32 v) (\<lambda>c. Inr (s\<lparr>rs_size_cells := Some c\<rparr>))
         else Inr s)
      else if is_reserved_memory_child (rs_stack s) then
        bind_io (ok_or (IoError InvalidData ''missing reserved-memory child state'') (rs_child s)) (\<lambda>child.
        if name = PROP_REG then Inr (s\<lparr>rs_child := Some (child\<lparr>rc_reg := Some v\<rparr>)\<rparr>)
        else if name = PROP_STATUS then Inr (s\<lparr>rs_child := Some (child\<lparr>rc_enabled := property_status_enabled v\<rparr>)\<rparr>)
        else Inr s)
      else Inr s)"

definition reserved_end_node :: "reserved_state \<Rightarrow> reserved_state io" where
  "reserved_end_node s =
     bind_io
       (if is_reserved_memory_child (rs_stack s) then
          bind_io (ok_or (IoError InvalidData ''missing reserved-memory child state'') (rs_child s)) (\<lambda>child.
          (case rc_reg child of
             Some reg \<Rightarrow>
               if rc_enabled child then
                 bind_io (decode_reg_ranges reg
                            (case rs_address_cells s of Some c \<Rightarrow> c | None \<Rightarrow> rs_root_address_cells s)
                            (case rs_size_cells s of Some c \<Rightarrow> c | None \<Rightarrow> rs_root_size_cells s)) (\<lambda>rgs.
                 Inr (s\<lparr>rs_child := None, rs_ranges := rs_ranges s @ rgs\<rparr>))
               else Inr (s\<lparr>rs_child := None\<rparr>)
           | None \<Rightarrow> Inr (s\<lparr>rs_child := None\<rparr>)))
        else Inr s)
       (\<lambda>s. if rs_stack s = [] then invalid_data ''DTB structure has too many END_NODE tokens''
            else Inr (s\<lparr>rs_stack := butlast (rs_stack s)\<rparr>))"

definition reserved_begin_node :: "reserved_state \<Rightarrow> bytes \<Rightarrow> reserved_state" where
  "reserved_begin_node s name =
     (let s = s\<lparr>rs_stack := rs_stack s @ [name]\<rparr> in
      if is_reserved_memory_child (rs_stack s)
      then s\<lparr>rs_child := Some \<lparr>rc_enabled = True, rc_reg = None\<rparr>\<rparr> else s)"

function reserved_loop :: "bytes \<Rightarrow> bytes \<Rightarrow> nat \<Rightarrow> reserved_state \<Rightarrow> (u64 \<times> u64) list io" where
  "reserved_loop sb strings cursor s =
     bind_io (next_token sb cursor) (\<lambda>tn.
     case tn of (tok, nx) \<Rightarrow>
     (case tok of
        TokBegin name \<Rightarrow> reserved_loop sb strings nx (reserved_begin_node s name)
      | TokEndNode \<Rightarrow> bind_io (reserved_end_node s) (\<lambda>s. reserved_loop sb strings nx s)
      | TokProp parts \<Rightarrow>
          (case string_at strings (p_nameoff parts) of
             None \<Rightarrow> invalid_data ''DTB property name offset is out of range''
           | Some name \<Rightarrow>
               bind_io (reserved_prop s name (slice sb (p_value_start parts) (p_value_end parts))) (\<lambda>s.
               reserved_loop sb strings nx s))
      | TokNop \<Rightarrow> reserved_loop sb strings nx s
      | TokEnd \<Rightarrow>
          if rs_stack s \<noteq> [] then invalid_data ''DTB structure ended before all nodes were closed''
          else Inr (rs_ranges s)))"
  by pat_completeness auto
termination
  by (relation "measure (\<lambda>(sb, strings, cursor, s). length sb - cursor)") (auto dest!: next_token_measure)

declare reserved_loop.simps [simp del]

definition reserved_memory_node_ranges :: "bytes \<Rightarrow> bytes \<Rightarrow> (u64 \<times> u64) list io" where
  "reserved_memory_node_ranges struct_block strings =
     reserved_loop struct_block strings 0
       \<lparr>rs_stack = [], rs_root_address_cells = 2, rs_root_size_cells = 1, rs_address_cells = None,
        rs_size_cells = None, rs_child = None, rs_ranges = []\<rparr>"

definition reserved_ranges :: "bytes \<Rightarrow> (u64 \<times> u64) list io" where
  "reserved_ranges dtb =
     bind_io (fdt_header_parse dtb) (\<lambda>header.
     bind_io (reserve_map_ranges dtb header) (\<lambda>ranges.
     bind_io (fdt_checked_slice dtb (off_dt_struct header) (size_dt_struct header) ''DTB structure block'') (\<lambda>struct_block.
     bind_io (fdt_checked_slice dtb (off_dt_strings header) (size_dt_strings header) ''DTB strings block'') (\<lambda>strings.
     bind_io (reserved_memory_node_ranges struct_block strings) (\<lambda>node_ranges.
     Inr (ranges @ node_ranges))))))"

section \<open>What the reservations of a tree are\<close>

definition node_reserved_ranges :: "u32 \<Rightarrow> u32 \<Rightarrow> node \<Rightarrow> (u64 \<times> u64) list io" where
  "node_reserved_ranges ac sc n =
     (case get_prop n PROP_REG of
        Some reg \<Rightarrow> if enabled n then decode_reg_ranges reg ac sc else Inr []
      | None \<Rightarrow> Inr [])"

definition tree_reserved_ranges :: "node \<Rightarrow> (u64 \<times> u64) list io" where
  "tree_reserved_ranges root =
     bind_io (cells root PROP_ADDRESS_CELLS 2) (\<lambda>rac.
     bind_io (cells root PROP_SIZE_CELLS 1) (\<lambda>rsc.
     case child root reserved_name of
       None \<Rightarrow> Inr []
     | Some r \<Rightarrow>
         bind_io (cells r PROP_ADDRESS_CELLS rac) (\<lambda>ac.
         bind_io (cells r PROP_SIZE_CELLS rsc) (\<lambda>sc.
         bind_io (map_io (node_reserved_ranges ac sc) (nchildren r)) (\<lambda>rss. Inr (concat rss))))))"


section \<open>The loop as a fold over the tree\<close>

abbreviation reserved_prop_step :: "reserved_state \<Rightarrow> bytes \<times> bytes \<Rightarrow> reserved_state io" where
  "reserved_prop_step s p \<equiv> reserved_prop s (fst p) (snd p)"

fun reserved_node :: "reserved_state \<Rightarrow> node \<Rightarrow> reserved_state io"
  and reserved_nodes :: "reserved_state \<Rightarrow> node list \<Rightarrow> reserved_state io" where
  "reserved_node s (Node name ps cs) =
     bind_io (fold_io reserved_prop_step (reserved_begin_node s name) ps) (\<lambda>s.
     bind_io (reserved_nodes s cs) reserved_end_node)"
| "reserved_nodes s [] = Inr s"
| "reserved_nodes s (c # cs) = bind_io (reserved_node s c) (\<lambda>s. reserved_nodes s cs)"

lemma reserved_loop_chunk:
  assumes "chunk w e" and "4 dvd length pre" and "length pre + length w + 8 < usize_limit"
  shows "reserved_loop (pre @ w @ post) strings (length pre) s =
    (let go = reserved_loop (pre @ w @ post) strings (length pre + length w) in
     case e of
       EvBegin name \<Rightarrow> go (reserved_begin_node s name)
     | EvEndNode \<Rightarrow> bind_io (reserved_end_node s) go
     | EvProp off v \<Rightarrow>
         (case string_at strings off of
            None \<Rightarrow> invalid_data ''DTB property name offset is out of range''
          | Some name \<Rightarrow> bind_io (reserved_prop s name v) go)
     | EvNop \<Rightarrow> go s
     | EvEnd \<Rightarrow>
         if rs_stack s \<noteq> [] then invalid_data ''DTB structure ended before all nodes were closed''
         else Inr (rs_ranges s))"
proof (cases e)
  case (EvProp off v)
  have v: "slice (pre @ w @ post) (length pre + 12) (length pre + 12 + length v) = v"
    using chunk_value assms(1) EvProp by blast
  show ?thesis
    by (subst reserved_loop.simps, subst next_token_chunk [OF assms])
      (simp add: EvProp v Let_def cong: option.case_cong)
qed (subst reserved_loop.simps, subst next_token_chunk [OF assms], simp add: Let_def)+

lemma reserved_loop_props:
  "props_bytes strings ps w \<Longrightarrow> 4 dvd length pre \<Longrightarrow> length pre + length w + 8 < usize_limit \<Longrightarrow>
   reserved_loop (pre @ w @ post) strings (length pre) s =
   bind_io (fold_io reserved_prop_step s ps) (reserved_loop (pre @ w @ post) strings (length pre + length w))"
proof (induction arbitrary: pre s rule: props_bytes.induct)
  case (props_Nop ps w)
  then show ?case
    using reserved_loop_chunk [of nop_bytes EvNop pre "w @ post"] props_Nop.IH [of "pre @ nop_bytes"]
    by (simp add: add.assoc Let_def)
next
  case (props_Cons b off v k ps w)
  have "reserved_loop (pre @ b @ w @ post) strings (length (pre @ b)) =
      (\<lambda>s1. bind_io (fold_io reserved_prop_step s1 ps) (reserved_loop (pre @ b @ w @ post) strings (length (pre @ b) + length w)))"
    using props_Cons.IH [of "pre @ b"] props_Cons.prems chunk_dvd4 [OF props_Cons.hyps(1)] by (intro ext) simp
  then show ?case
    using reserved_loop_chunk [OF props_Cons.hyps(1) props_Cons.prems(1), of "w @ post" strings s] props_Cons.prems props_Cons.hyps(2)
    by (simp add: add.assoc Let_def bind_io_assoc)
qed simp

lemma reserved_loop_nodes:
  "node_bytes strings n w \<Longrightarrow> 4 dvd length pre \<Longrightarrow> length pre + length w + 8 < usize_limit \<Longrightarrow>
   reserved_loop (pre @ w @ post) strings (length pre) s =
   bind_io (reserved_node s n) (reserved_loop (pre @ w @ post) strings (length pre + length w))"
  "nodes_bytes strings ns w \<Longrightarrow> 4 dvd length pre \<Longrightarrow> length pre + length w + 8 < usize_limit \<Longrightarrow>
   reserved_loop (pre @ w @ post) strings (length pre) s =
   bind_io (reserved_nodes s ns) (reserved_loop (pre @ w @ post) strings (length pre + length w))"
proof (induction arbitrary: pre post s and pre post s rule: node_bytes_nodes_bytes.inducts)
  case (node_Node b name ps u ns w)
  let ?go = "reserved_loop (pre @ b @ u @ w @ end_node_bytes @ post) strings"
  have al: "4 dvd length (pre @ b)" "4 dvd length (pre @ b @ u)" "4 dvd length (pre @ b @ u @ w)"
    unfolding length_append using node_Node.prems(1) chunk_dvd4 [OF node_Node(1)] props_bytes_dvd4 [OF node_Node(2)]
      node_bytes_dvd4(2) [OF node_Node(3)] by (simp_all only: dvd_add)
  have lim: "length pre + length b + length u + length w + length end_node_bytes + 8 < usize_limit"
    using node_Node.prems(2) by (simp add: add.assoc)
  have 1: "?go (length pre) s = ?go (length (pre @ b)) (reserved_begin_node s name)"
    using reserved_loop_chunk [OF node_Node(1), of pre "u @ w @ end_node_bytes @ post"] node_Node.prems lim by simp
  have 2: "?go (length (pre @ b)) = (\<lambda>s1. bind_io (fold_io reserved_prop_step s1 ps) (?go (length (pre @ b @ u))))"
    using reserved_loop_props [OF node_Node(2), of "pre @ b" "w @ end_node_bytes @ post"] al lim by (intro ext) (simp add: add.assoc)
  have 3: "?go (length (pre @ b @ u)) = (\<lambda>s1. bind_io (reserved_nodes s1 ns) (?go (length (pre @ b @ u @ w))))"
    using node_Node.IH(3) [of "pre @ b @ u" "end_node_bytes @ post"] al lim by (intro ext) (simp add: add.assoc)
  have 4: "?go (length (pre @ b @ u @ w)) = (\<lambda>s1. bind_io (reserved_end_node s1) (?go (length (pre @ b @ u @ w @ end_node_bytes))))"
    using reserved_loop_chunk [of end_node_bytes EvEndNode "pre @ b @ u @ w" post] al lim by (intro ext) (simp add: add.assoc)
  show ?case
    using 1 by (simp add: 2 3 4 bind_io_assoc del: length_append) (simp add: add.assoc)?
next
  case (nodes_Nop ns w)
  then show ?case
    using reserved_loop_chunk [of nop_bytes EvNop pre "w @ post"] nodes_Nop.IH(2) [of "pre @ nop_bytes" post s]
    by (simp add: add.assoc Let_def)
next
  case (nodes_Cons c u ns w)
  have "reserved_loop (pre @ u @ w @ post) strings (length (pre @ u)) =
      (\<lambda>s1. bind_io (reserved_nodes s1 ns) (reserved_loop (pre @ u @ w @ post) strings (length (pre @ u) + length w)))"
    using nodes_Cons.IH(4) [of "pre @ u" post] nodes_Cons.prems node_bytes_dvd4(1) [OF nodes_Cons(1)] by (intro ext) simp
  then show ?case
    using nodes_Cons.IH(2) [of pre "w @ post" s] nodes_Cons.prems by (simp add: add.assoc bind_io_assoc)
qed simp

section \<open>What the fold collects\<close>

definition quiet :: "bytes list \<Rightarrow> bool" where
  "quiet stack \<longleftrightarrow> 2 \<le> length stack \<and> stack ! 1 \<noteq> reserved_name \<or> 4 \<le> length stack"

lemma quiet_snoc: "quiet stack \<Longrightarrow> quiet (stack @ [name])"
  by (auto simp: quiet_def nth_append)

lemma quiet_not:
  "quiet stack \<Longrightarrow> \<not> is_root stack \<and> \<not> is_reserved_memory stack \<and> \<not> is_reserved_memory_child stack"
  by (auto simp: quiet_def is_root_def is_reserved_memory_def is_reserved_memory_child_def)

lemma quiet_props: "quiet (rs_stack s) \<Longrightarrow> fold_io reserved_prop_step s ps = Inr s"
  by (induction ps) (simp_all add: reserved_prop_def quiet_not)

lemma quiet_nodes:
  "quiet (rs_stack s @ [nname n]) \<Longrightarrow> reserved_node s n = Inr s"
  "quiet (rs_stack s) \<Longrightarrow> reserved_nodes s ns = Inr s"
proof (induction s n and s ns rule: reserved_node_reserved_nodes.induct)
  case (1 s name ps cs)
  then have b: "reserved_begin_node s name = s\<lparr>rs_stack := rs_stack s @ [name]\<rparr>"
    by (simp add: reserved_begin_node_def quiet_not)
  have "reserved_nodes (s\<lparr>rs_stack := rs_stack s @ [name]\<rparr>) cs = Inr (s\<lparr>rs_stack := rs_stack s @ [name]\<rparr>)"
    using 1 b quiet_props [of "s\<lparr>rs_stack := rs_stack s @ [name]\<rparr>" ps] by simp
  then show ?case
    using 1 b quiet_props [of "s\<lparr>rs_stack := rs_stack s @ [name]\<rparr>" ps] by (simp add: reserved_end_node_def quiet_not)
next
  case (3 s c cs)
  then show ?case using quiet_snoc by simp
qed simp

lemma child_props:
  "rs_stack s = [[], reserved_name, name] \<Longrightarrow> rs_child s = Some c \<Longrightarrow> distinct (map fst ps) \<Longrightarrow>
   fold_io reserved_prop_step s ps =
   Inr (s\<lparr>rs_child := Some
     \<lparr>rc_enabled = (case map_of ps PROP_STATUS of None \<Rightarrow> rc_enabled c | Some v \<Rightarrow> property_status_enabled v),
      rc_reg = (case map_of ps PROP_REG of None \<Rightarrow> rc_reg c | Some v \<Rightarrow> Some v)\<rparr>\<rparr>)"
proof (induction ps arbitrary: s c)
  case (Cons p ps)
  obtain k v where p: "p = (k, v)" by (cases p)
  have fresh: "map_of ps k = None" using Cons.prems(3) p by (auto simp: map_of_eq_None_iff)
  have ne: "PROP_REG \<noteq> PROP_STATUS" by (simp add: bytes_of_def)
  let ?c = "if k = PROP_REG then c\<lparr>rc_reg := Some v\<rparr>
            else if k = PROP_STATUS then c\<lparr>rc_enabled := property_status_enabled v\<rparr> else c"
  have "reserved_prop_step s p = Inr (s\<lparr>rs_child := Some ?c\<rparr>)"
    using Cons.prems(1,2) p
    by (auto simp: reserved_prop_def is_root_def is_reserved_memory_def is_reserved_memory_child_def)
  then show ?case
    using Cons.IH [of "s\<lparr>rs_child := Some ?c\<rparr>" ?c] Cons.prems p fresh ne by (auto cong: option.case_cong)
qed simp

lemma reserved_child_node:
  assumes "rs_stack s = [[], reserved_name]" and "distinct (map fst (nprops n))"
  shows "reserved_node s n =
    bind_io (node_reserved_ranges (case rs_address_cells s of Some c \<Rightarrow> c | None \<Rightarrow> rs_root_address_cells s)
                (case rs_size_cells s of Some c \<Rightarrow> c | None \<Rightarrow> rs_root_size_cells s) n) (\<lambda>rgs.
    Inr (s\<lparr>rs_child := None, rs_ranges := rs_ranges s @ rgs\<rparr>))"
proof (cases n)
  case (Node name ps cs)
  let ?s1 = "reserved_begin_node s name"
  have s1: "?s1 = s\<lparr>rs_stack := [[], reserved_name, name], rs_child := Some \<lparr>rc_enabled = True, rc_reg = None\<rparr>\<rparr>"
    using assms(1) by (simp add: reserved_begin_node_def is_reserved_memory_child_def)
  have d: "distinct (map fst ps)" using assms(2) Node by simp
  have q: "reserved_nodes s2 cs = Inr s2" if "rs_stack s2 = [[], reserved_name, name]" for s2
  proof -
    have "reserved_nodes s2 ds = Inr s2" for ds
    proof (induction ds)
      case (Cons x ds)
      have "quiet (rs_stack s2 @ [nname x])" using that by (simp add: quiet_def)
      then show ?case using Cons quiet_nodes(1) by simp
    qed simp
    then show ?thesis .
  qed
  have props: "fold_io reserved_prop_step ?s1 ps = Inr (s\<lparr>rs_stack := [[], reserved_name, name], rs_child := Some
     \<lparr>rc_enabled = (case map_of ps PROP_STATUS of None \<Rightarrow> True | Some v \<Rightarrow> property_status_enabled v),
      rc_reg = map_of ps PROP_REG\<rparr>\<rparr>)"
    using child_props [of ?s1 name "\<lparr>rc_enabled = True, rc_reg = None\<rparr>" ps] d
    by (cases "map_of ps PROP_REG"; cases "map_of ps PROP_STATUS") (simp_all add: s1)
  have pop: "s\<lparr>rs_child := None, rs_ranges := R, rs_stack := [[], reserved_name]\<rparr> = s\<lparr>rs_child := None, rs_ranges := R\<rparr>"
    "s\<lparr>rs_child := None, rs_stack := [[], reserved_name]\<rparr> = s\<lparr>rs_child := None, rs_ranges := rs_ranges s\<rparr>" for R
    using assms(1) by (cases s, simp)+
  show ?thesis
    by (cases "map_of ps PROP_REG"; cases "map_of ps PROP_STATUS")
      (simp_all add: Node props q pop reserved_end_node_def is_reserved_memory_child_def node_reserved_ranges_def
        get_prop_def enabled_def bind_io_assoc cong: option.case_cong if_cong)
qed

lemma reserved_children:
  "rs_stack s = [[], reserved_name] \<Longrightarrow> \<forall>c \<in> set cs. distinct (map fst (nprops c)) \<Longrightarrow> reserved_nodes s cs = Inr s' \<Longrightarrow>
   \<exists>rss. map_io (node_reserved_ranges (case rs_address_cells s of Some c \<Rightarrow> c | None \<Rightarrow> rs_root_address_cells s)
                (case rs_size_cells s of Some c \<Rightarrow> c | None \<Rightarrow> rs_root_size_cells s)) cs = Inr rss \<and>
     rs_ranges s' = rs_ranges s @ concat rss \<and> rs_stack s' = rs_stack s"
proof (induction cs arbitrary: s)
  case (Cons c cs)
  obtain rgs where rgs: "node_reserved_ranges (case rs_address_cells s of Some c \<Rightarrow> c | None \<Rightarrow> rs_root_address_cells s)
                (case rs_size_cells s of Some c \<Rightarrow> c | None \<Rightarrow> rs_root_size_cells s) c = Inr rgs"
      "reserved_nodes (s\<lparr>rs_child := None, rs_ranges := rs_ranges s @ rgs\<rparr>) cs = Inr s'"
    using Cons.prems reserved_child_node [of s c] by auto
  show ?case
    using Cons.IH [OF _ _ rgs(2)] Cons.prems(1,2) rgs(1) by (auto cong: option.case_cong)
qed simp


text \<open>The cell counts that the properties of the root and of \<open>/reserved-memory\<close> leave in the state.\<close>

definition cells_of :: "(bytes \<times> bytes) list \<Rightarrow> bytes \<Rightarrow> u32 option io" where
  "cells_of ps name = (case map_of ps name of None \<Rightarrow> Inr None | Some v \<Rightarrow> bind_io (property_u32 v) (\<lambda>c. Inr (Some c)))"

lemma cells_of_cells:
  "cells_of (nprops n) name = Inr c \<Longrightarrow> cells n name d = Inr (case c of Some x \<Rightarrow> x | None \<Rightarrow> d)"
  by (auto simp: cells_of_def cells_def get_prop_def split: option.splits)

lemma address_not_size: "PROP_ADDRESS_CELLS \<noteq> PROP_SIZE_CELLS"
  by (simp add: bytes_of_def)

lemma reserved_memory_props:
  "rs_stack s = [[], reserved_name] \<Longrightarrow> distinct (map fst ps) \<Longrightarrow> fold_io reserved_prop_step s ps = Inr s' \<Longrightarrow>
   \<exists>ac sc. cells_of ps PROP_ADDRESS_CELLS = Inr ac \<and> cells_of ps PROP_SIZE_CELLS = Inr sc \<and>
     s' = s\<lparr>rs_address_cells := (if ac = None then rs_address_cells s else ac),
            rs_size_cells := (if sc = None then rs_size_cells s else sc)\<rparr>"
proof (induction ps arbitrary: s)
  case Nil
  then show ?case by (simp add: cells_of_def)
next
  case (Cons p ps)
  obtain k v where p: "p = (k, v)" by (cases p)
  have fresh: "map_of ps k = None" using Cons.prems(2) p by (auto simp: map_of_eq_None_iff)
  obtain s1 where s1: "reserved_prop s k v = Inr s1" "fold_io reserved_prop_step s1 ps = Inr s'"
    using Cons.prems(3) p by auto
  have st: "rs_stack s1 = [[], reserved_name]"
    using s1(1) Cons.prems(1) by (auto simp: reserved_prop_def is_root_def is_reserved_memory_def split: if_splits)
  obtain ac sc where IH: "cells_of ps PROP_ADDRESS_CELLS = Inr ac" "cells_of ps PROP_SIZE_CELLS = Inr sc"
      "s' = s1\<lparr>rs_address_cells := (if ac = None then rs_address_cells s1 else ac),
            rs_size_cells := (if sc = None then rs_size_cells s1 else sc)\<rparr>"
    using Cons.IH [OF st _ s1(2)] Cons.prems(2) by auto
  show ?case
    using IH s1(1) Cons.prems(1) fresh address_not_size p
    by (auto simp: reserved_prop_def is_root_def is_reserved_memory_def cells_of_def split: if_splits option.splits)
qed

lemma reserved_root_props:
  "rs_stack s = [[]] \<Longrightarrow> distinct (map fst ps) \<Longrightarrow> fold_io reserved_prop_step s ps = Inr s' \<Longrightarrow>
   \<exists>ac sc. cells_of ps PROP_ADDRESS_CELLS = Inr ac \<and> cells_of ps PROP_SIZE_CELLS = Inr sc \<and>
     s' = s\<lparr>rs_root_address_cells := (case ac of None \<Rightarrow> rs_root_address_cells s | Some c \<Rightarrow> c),
            rs_root_size_cells := (case sc of None \<Rightarrow> rs_root_size_cells s | Some c \<Rightarrow> c)\<rparr>"
proof (induction ps arbitrary: s)
  case Nil
  then show ?case by (simp add: cells_of_def)
next
  case (Cons p ps)
  obtain k v where p: "p = (k, v)" by (cases p)
  have fresh: "map_of ps k = None" using Cons.prems(2) p by (auto simp: map_of_eq_None_iff)
  obtain s1 where s1: "reserved_prop s k v = Inr s1" "fold_io reserved_prop_step s1 ps = Inr s'"
    using Cons.prems(3) p by auto
  have st: "rs_stack s1 = [[]]"
    using s1(1) Cons.prems(1) by (auto simp: reserved_prop_def is_root_def split: if_splits)
  obtain ac sc where IH: "cells_of ps PROP_ADDRESS_CELLS = Inr ac" "cells_of ps PROP_SIZE_CELLS = Inr sc"
      "s' = s1\<lparr>rs_root_address_cells := (case ac of None \<Rightarrow> rs_root_address_cells s1 | Some c \<Rightarrow> c),
            rs_root_size_cells := (case sc of None \<Rightarrow> rs_root_size_cells s1 | Some c \<Rightarrow> c)\<rparr>"
    using Cons.IH [OF st _ s1(2)] Cons.prems(2) by auto
  show ?case
    using IH s1(1) Cons.prems(1) fresh address_not_size p
    by (auto simp: reserved_prop_def is_root_def cells_of_def split: if_splits option.splits)
qed

lemma reserved_memory_node:
  assumes "rs_stack s = [[]]" and "rs_address_cells s = None" and "rs_size_cells s = None"
    and "nname r = reserved_name" and "node_wf d r" and "reserved_node s r = Inr s'"
  shows "\<exists>ac sc rss. cells r PROP_ADDRESS_CELLS (rs_root_address_cells s) = Inr ac \<and>
    cells r PROP_SIZE_CELLS (rs_root_size_cells s) = Inr sc \<and>
    map_io (node_reserved_ranges ac sc) (nchildren r) = Inr rss \<and>
    rs_ranges s' = rs_ranges s @ concat rss \<and> rs_stack s' = [[]]"
proof -
  obtain ps cs where r: "r = Node reserved_name ps cs" using assms(4) by (cases r) auto
  have wf: "distinct (map fst ps)" "\<forall>c \<in> set cs. distinct (map fst (nprops c))"
    using assms(5) r by (auto simp: node_wf_iff [of "Suc d"])
  let ?s1 = "s\<lparr>rs_stack := [[], reserved_name]\<rparr>"
  have b: "reserved_begin_node s reserved_name = ?s1"
    using assms(1) by (simp add: reserved_begin_node_def is_reserved_memory_child_def)
  obtain s2 s3 where run: "fold_io reserved_prop_step ?s1 ps = Inr s2" "reserved_nodes s2 cs = Inr s3" "reserved_end_node s3 = Inr s'"
    using assms(6) r b by auto
  obtain ac sc where c: "cells_of ps PROP_ADDRESS_CELLS = Inr ac" "cells_of ps PROP_SIZE_CELLS = Inr sc"
      "s2 = ?s1\<lparr>rs_address_cells := (if ac = None then rs_address_cells ?s1 else ac),
            rs_size_cells := (if sc = None then rs_size_cells ?s1 else sc)\<rparr>"
    using reserved_memory_props [OF _ wf(1) run(1)] by auto
  let ?ac = "case ac of Some x \<Rightarrow> x | None \<Rightarrow> rs_root_address_cells s"
  let ?sc = "case sc of Some x \<Rightarrow> x | None \<Rightarrow> rs_root_size_cells s"
  have "rs_stack s2 = [[], reserved_name]" using c(3) by simp
  then obtain rss where rss: "map_io (node_reserved_ranges ?ac ?sc) cs = Inr rss"
      "rs_ranges s3 = rs_ranges s @ concat rss" "rs_stack s3 = [[], reserved_name]"
    using reserved_children [OF _ wf(2) run(2)] c(3) assms(2,3) by (cases ac; cases sc) auto
  have "cells r PROP_ADDRESS_CELLS (rs_root_address_cells s) = Inr ?ac" "cells r PROP_SIZE_CELLS (rs_root_size_cells s) = Inr ?sc"
    using cells_of_cells [of r] c(1,2) r by simp_all
  moreover have "rs_ranges s' = rs_ranges s3" "rs_stack s' = [[]]"
    using run(3) rss(3) by (auto simp: reserved_end_node_def is_reserved_memory_child_def)
  ultimately show ?thesis using rss r by auto
qed

lemma reserved_root_children:
  "rs_stack s = [[]] \<Longrightarrow> rs_address_cells s = None \<Longrightarrow> rs_size_cells s = None \<Longrightarrow> \<forall>c \<in> set cs. node_wf d c \<Longrightarrow>
   distinct (map nname cs) \<Longrightarrow> reserved_nodes s cs = Inr s' \<Longrightarrow>
   rs_stack s' = [[]] \<and>
   (case find (\<lambda>c. nname c = reserved_name) cs of
      None \<Rightarrow> rs_ranges s' = rs_ranges s
    | Some r \<Rightarrow> \<exists>ac sc rss. cells r PROP_ADDRESS_CELLS (rs_root_address_cells s) = Inr ac \<and>
        cells r PROP_SIZE_CELLS (rs_root_size_cells s) = Inr sc \<and>
        map_io (node_reserved_ranges ac sc) (nchildren r) = Inr rss \<and> rs_ranges s' = rs_ranges s @ concat rss)"
proof (induction cs arbitrary: s)
  case (Cons c cs)
  obtain s1 where s1: "reserved_node s c = Inr s1" "reserved_nodes s1 cs = Inr s'"
    using Cons.prems(6) by auto
  show ?case
  proof (cases "nname c = reserved_name")
    case True
    obtain ac sc rss where c: "cells c PROP_ADDRESS_CELLS (rs_root_address_cells s) = Inr ac"
        "cells c PROP_SIZE_CELLS (rs_root_size_cells s) = Inr sc" "map_io (node_reserved_ranges ac sc) (nchildren c) = Inr rss"
        "rs_ranges s1 = rs_ranges s @ concat rss" "rs_stack s1 = [[]]"
      using reserved_memory_node [OF Cons.prems(1-3) True _ s1(1), of d] Cons.prems(4) by force
    have "reserved_name \<notin> nname ` set cs" using Cons.prems(5) True by simp
    then have "\<forall>x \<in> set cs. nname x \<noteq> reserved_name" by (metis image_eqI)
    then have "reserved_nodes s1 cs = Inr s1"
    proof (induction cs)
      case (Cons x xs)
      have "quiet (rs_stack s1 @ [nname x])" using Cons.prems c(5) by (simp add: quiet_def)
      then show ?case using Cons quiet_nodes(1) by simp
    qed simp
    then show ?thesis using True c s1(2) by auto
  next
    case False
    have "quiet (rs_stack s @ [nname c])" using False Cons.prems(1) by (simp add: quiet_def)
    then have "s1 = s" using quiet_nodes(1) s1(1) by auto
    then show ?thesis using Cons.IH [OF Cons.prems(1-3) _ _ s1(2) [unfolded \<open>s1 = s\<close>]] Cons.prems(4,5) False by auto
  qed
qed simp

lemma reserved_loop_nops:
  "nops w \<Longrightarrow> 4 dvd length pre \<Longrightarrow> length pre + length w + 8 < usize_limit \<Longrightarrow>
   reserved_loop (pre @ w @ post) strings (length pre) s = reserved_loop (pre @ w @ post) strings (length pre + length w) s"
proof (induction arbitrary: pre rule: nops.induct)
  case (nops_Cons w)
  then show ?case
    using reserved_loop_chunk [of nop_bytes EvNop pre "w @ post"] nops_Cons.IH [of "pre @ nop_bytes"]
    by (simp add: add.assoc Let_def)
qed simp

lemma reserved_memory_node_ranges_tree:
  assumes "tree_block strings root sb" and "length sb + 8 < usize_limit"
    and "reserved_memory_node_ranges sb strings = Inr rs"
  shows "tree_reserved_ranges root = Inr rs"
proof -
  obtain x w y rest where sb: "sb = x @ w @ y @ end_bytes @ rest" "nops x" "node_bytes strings root w" "nops y"
    and wf: "nname root = []" "node_wf 0 root"
    using assms(1) by (auto simp: tree_block_def)
  obtain ps cs where n: "root = Node [] ps cs" using wf(1) by (cases root) auto
  have al: "4 dvd length x" "4 dvd length (x @ w)" "4 dvd length (x @ w @ y)"
    using nops_dvd4 [OF sb(2)] nops_dvd4 [OF sb(4)] node_bytes_dvd4(1) [OF sb(3)] by (simp_all add: dvd_add)
  have lim: "length x + length w + length y + length end_bytes + 8 < usize_limit" using assms(2) sb(1) by simp
  let ?s = "\<lparr>rs_stack = [], rs_root_address_cells = 2, rs_root_size_cells = 1, rs_address_cells = None,
        rs_size_cells = None, rs_child = None, rs_ranges = []\<rparr> :: reserved_state"
  let ?go = "reserved_loop sb strings"
  have "?go 0 ?s = ?go (length x) ?s"
    using reserved_loop_nops [OF sb(2), of "[]" "w @ y @ end_bytes @ rest"] lim by (simp add: sb(1))
  also have "\<dots> = bind_io (reserved_node ?s root) (?go (length (x @ w)))"
    using reserved_loop_nodes(1) [OF sb(3) al(1), of "y @ end_bytes @ rest"] lim by (simp add: sb(1))
  also have "?go (length (x @ w)) = (\<lambda>s. ?go (length (x @ w @ y)) s)"
    using reserved_loop_nops [OF sb(4) al(2), of "end_bytes @ rest"] lim by (intro ext) (simp add: sb(1) add.assoc)
  also have "\<dots> = (\<lambda>s. if rs_stack s \<noteq> [] then invalid_data ''DTB structure ended before all nodes were closed'' else Inr (rs_ranges s))"
    using reserved_loop_chunk [of end_bytes EvEnd "x @ w @ y" rest strings] al(3) lim by (intro ext) (simp add: sb(1) add.assoc)
  finally obtain s' where s': "reserved_node ?s root = Inr s'" "rs_ranges s' = rs"
    using assms(3) by (auto simp: reserved_memory_node_ranges_def split: if_splits)
  let ?s1 = "?s\<lparr>rs_stack := [[]]\<rparr>"
  have "reserved_begin_node ?s [] = ?s1" by (simp add: reserved_begin_node_def is_reserved_memory_child_def)
  then obtain s2 s3 where run: "fold_io reserved_prop_step ?s1 ps = Inr s2" "reserved_nodes s2 cs = Inr s3" "reserved_end_node s3 = Inr s'"
    using s'(1) n by auto
  have wfc: "distinct (map fst ps)" "\<forall>c \<in> set cs. node_wf (Suc 0) c" "distinct (map nname cs)" using wf(2) n by auto
  obtain ac sc where c: "cells_of ps PROP_ADDRESS_CELLS = Inr ac" "cells_of ps PROP_SIZE_CELLS = Inr sc"
      "s2 = ?s1\<lparr>rs_root_address_cells := (case ac of None \<Rightarrow> 2 | Some c \<Rightarrow> c),
            rs_root_size_cells := (case sc of None \<Rightarrow> 1 | Some c \<Rightarrow> c)\<rparr>"
    using reserved_root_props [OF _ wfc(1) run(1)] by (force cong: option.case_cong)
  have s2: "rs_stack s2 = [[]]" "rs_address_cells s2 = None" "rs_size_cells s2 = None" "rs_ranges s2 = []" using c(3) by simp_all
  have cells: "cells root PROP_ADDRESS_CELLS 2 = Inr (rs_root_address_cells s2)" "cells root PROP_SIZE_CELLS 1 = Inr (rs_root_size_cells s2)"
    using cells_of_cells [of root] c n by simp_all
  note ch = reserved_root_children [OF s2(1-3) wfc(2,3) run(2)]
  have "rs_ranges s' = rs_ranges s3"
    using run(3) ch by (auto simp: reserved_end_node_def is_reserved_memory_child_def)
  then show ?thesis
    using ch cells s'(2) s2(4) n by (auto simp: tree_reserved_ranges_def child_def split: option.splits)
qed


section \<open>The reserve map as ranges\<close>

definition entry_ranges :: "(u64 \<times> u64) list \<Rightarrow> (u64 \<times> u64) list" where
  "entry_ranges es = map (\<lambda>(a, l). (a, a + l)) (filter (\<lambda>(a, l). l \<noteq> 0) es)"

definition entry_ok :: "u64 \<times> u64 \<Rightarrow> bool" where
  "entry_ok e \<longleftrightarrow> e \<noteq> (0, 0) \<and> (snd e \<noteq> 0 \<longrightarrow> unat (fst e) + unat (snd e) < 2 ^ 64)"

lemma entry_ranges_simps [simp]:
  "entry_ranges [] = []"
  "entry_ranges ((a, l) # es) = (if l = 0 then entry_ranges es else (a, a + l) # entry_ranges es)"
  by (simp_all add: entry_ranges_def)

lemma entry_ranges_nonempty: "\<forall>e \<in> set es. entry_ok e \<Longrightarrow> \<forall>(a, e) \<in> set (entry_ranges es). a < e"
proof clarify
  fix a e
  assume ok: "\<forall>e \<in> set es. entry_ok e" and "(a, e) \<in> set (entry_ranges es)"
  then obtain l where "(a, l) \<in> set es" "l \<noteq> 0" "e = a + l" by (auto simp: entry_ranges_def)
  then have "unat e = unat a + unat l" "0 < unat l"
    using ok unat_add_exact [of a l] by (auto simp: entry_ok_def unat_gt_0)
  then show "a < e" by (simp add: word_less_nat_alt)
qed

lemma slice_slice: "b \<le> d \<Longrightarrow> slice (slice xs a (a + d)) c b = slice xs (a + c) (a + b)"
  by (simp add: slice_def drop_take min_def add.commute)

lemma reserve_map_ranges_loop_entries:
  "reserve_map_ranges_loop dtb tot c acc = Inr rs \<Longrightarrow> tot \<le> length dtb \<Longrightarrow>
   \<exists>es. reserve_map_loop dtb tot c bs = Inr (bs @ enc_rsv es) \<and> rs = acc @ entry_ranges es \<and> (\<forall>e \<in> set es. entry_ok e)"
proof (induction dtb tot c acc arbitrary: bs rule: reserve_map_ranges_loop.induct)
  case (1 dtb tot c acc)
  let ?entry = "slice dtb c (c + 16)"
  let ?a = "from_be_bytes (slice dtb c (c + 8)) :: u64" and ?l = "from_be_bytes (slice dtb (c + 8) (c + 16)) :: u64"
  have ok: "c + 16 < usize_limit \<and> c + 16 \<le> tot"
    using "1.prems"(1) by (subst (asm) reserve_map_ranges_loop.simps) (auto split: if_splits)
  have fields: "slice ?entry 0 8 = slice dtb c (c + 8)" "slice ?entry 8 16 = slice dtb (c + 8) (c + 16)"
    using slice_slice [of 8 16 dtb c 0] slice_slice [of 16 16 dtb c 8] by simp_all
  have entry: "?entry = enc_rsv_entry (?a, ?l)"
    using rsv_entry_fields [of ?entry] fields ok "1.prems"(2) by simp
  have step: "reserve_map_loop dtb tot c bs =
      (if ?a = 0 \<and> ?l = 0 then Inr (bs @ ?entry) else reserve_map_loop dtb tot (c + 16) (bs @ ?entry))"
    using ok by (subst reserve_map_loop.simps) (simp add: Let_def fields)
  note run = "1.prems"(1) [unfolded reserve_map_ranges_loop.simps [of dtb tot c] Let_def]
  show ?case
  proof (cases "?a = 0 \<and> ?l = 0")
    case True
    then have "?entry = enc_rsv []" using entry by (simp add: enc_rsv_def zero_rsv_entry)
    then show ?thesis using True run step ok by (intro exI [of _ "[]"]) simp
  next
    case nz: False
    show ?thesis
    proof (cases "?l = 0")
      case True
      then have go: "reserve_map_ranges_loop dtb tot (c + 16) acc = Inr rs" using run ok nz by simp
      obtain es where es: "reserve_map_loop dtb tot (c + 16) (bs @ ?entry) = Inr ((bs @ ?entry) @ enc_rsv es)"
          "rs = acc @ entry_ranges es" "\<forall>e \<in> set es. entry_ok e"
        using "1.IH"(1) [OF _ refl refl nz True go "1.prems"(2)] ok by blast
      show ?thesis
        using es step nz True entry
        by (intro exI [of _ "(?a, ?l) # es"]) (simp add: enc_rsv_Cons entry_ok_def)
    next
      case False
      then obtain e where e: "checked_add ?a ?l = Some e" and
          go: "reserve_map_ranges_loop dtb tot (c + 16) (acc @ [(?a, e)]) = Inr rs"
        using run ok nz by (auto split: option.splits)
      obtain es where es: "reserve_map_loop dtb tot (c + 16) (bs @ ?entry) = Inr ((bs @ ?entry) @ enc_rsv es)"
          "rs = (acc @ [(?a, e)]) @ entry_ranges es" "\<forall>e \<in> set es. entry_ok e"
        using "1.IH"(2) [OF _ refl refl nz False e go "1.prems"(2)] ok by blast
      have "unat ?a + unat ?l < 2 ^ 64" "e = ?a + ?l"
        using e unat_less_u64 [of e] checked_add_sum [OF e] by simp_all
      then show ?thesis
        using es step nz False entry
        by (intro exI [of _ "(?a, ?l) # es"]) (auto simp: enc_rsv_Cons entry_ok_def)
    qed
  qed
qed

lemma reserve_map_ranges_none:
  assumes h: "fdt_header_parse dtb = Inr h" and rm: "reserve_map dtb h = Inr (enc_rsv [])"
  shows "reserve_map_ranges dtb h = Inr []"
proof -
  let ?c = "off_mem_rsvmap h" and ?t = "totalsize h"
  let ?e = "slice dtb ?c (?c + 16)"
  have lim: "?c + 16 < usize_limit \<and> ?c + 16 \<le> ?t"
    using rm by (subst (asm) reserve_map_def, subst (asm) reserve_map_loop.simps) (auto split: if_splits)
  have len: "length ?e = 16" using lim fdt_header_parse_bounds(1) [OF h] by simp
  have "(from_be_bytes (slice ?e 0 8) :: u64) = 0 \<and> (from_be_bytes (slice ?e 8 16) :: u64) = 0"
  proof (rule ccontr)
    assume "\<not> ?thesis"
    then have "reserve_map_loop dtb ?t (?c + 16) ?e = Inr (enc_rsv [])"
      using rm lim by (subst (asm) reserve_map_def, subst (asm) reserve_map_loop.simps) (simp add: Let_def split: if_splits)
    then obtain es where "enc_rsv [] = ?e @ enc_rsv es"
      using reserve_map_loop_shape fdt_header_parse_bounds(1) [OF h] by blast
    then have "length (enc_rsv []) = length ?e + length (enc_rsv es)" by (metis length_append)
    then show False using len by simp
  qed
  then show ?thesis
    using lim slice_slice [of 8 16 dtb ?c 0] slice_slice [of 16 16 dtb ?c 8]
    by (subst reserve_map_ranges_def, subst reserve_map_ranges_loop.simps) (simp add: Let_def)
qed

definition nonempty_ranges :: "(u64 \<times> u64) list \<Rightarrow> bool" where
  "nonempty_ranges rs \<longleftrightarrow> (\<forall>(a, e) \<in> set rs. a < e)"

lemma decode_reg_tuple_nonempty: "decode_reg_tuple ac tup = Inr rs \<Longrightarrow> nonempty_ranges rs"
  by (auto simp: decode_reg_tuple_def nonempty_ranges_def Let_def word_less_nat_alt unat_gt_0 split: if_splits)

lemma decode_reg_ranges_nonempty: "decode_reg_ranges reg ac sc = Inr rs \<Longrightarrow> nonempty_ranges rs"
  using map_io_all [of "decode_reg_tuple ac" nonempty_ranges, OF decode_reg_tuple_nonempty]
  by (fastforce simp: decode_reg_ranges_def nonempty_ranges_def split: if_splits)

lemma node_reserved_ranges_nonempty: "node_reserved_ranges ac sc n = Inr rs \<Longrightarrow> nonempty_ranges rs"
  by (auto simp: node_reserved_ranges_def nonempty_ranges_def [of "[]"] dest: decode_reg_ranges_nonempty split: option.splits if_splits)

lemma tree_reserved_ranges_nonempty: "tree_reserved_ranges root = Inr rs \<Longrightarrow> nonempty_ranges rs"
  using map_io_all [of "node_reserved_ranges ac sc" nonempty_ranges for ac sc, OF node_reserved_ranges_nonempty]
  by (fastforce simp: tree_reserved_ranges_def nonempty_ranges_def split: option.splits)

lemma reserved_ranges_spec:
  assumes "contract_tree dtb = Inr root" and "reserved_ranges dtb = Inr rs"
  shows "\<exists>h es node_rs. fdt_header_parse dtb = Inr h \<and> reserve_map dtb h = Inr (enc_rsv es) \<and>
     tree_reserved_ranges root = Inr node_rs \<and> rs = entry_ranges es @ node_rs"
    and "nonempty_ranges rs"
proof -
  obtain h sb st where h: "fdt_header_parse dtb = Inr h"
    and sb: "\<And>m. fdt_checked_slice dtb (off_dt_struct h) (size_dt_struct h) m = Inr sb"
    and st: "\<And>m. fdt_checked_slice dtb (off_dt_strings h) (size_dt_strings h) m = Inr st"
    and block: "tree_block st root sb" and len: "length sb < 2 ^ 32"
    using contract_tree_block [OF assms(1)] by blast
  obtain r1 node_rs where run: "reserve_map_ranges dtb h = Inr r1" "reserved_memory_node_ranges sb st = Inr node_rs"
      "rs = r1 @ node_rs"
    using assms(2) h sb st by (auto simp: reserved_ranges_def simp del: fdt_checked_slice_Inr)
  obtain es where es: "reserve_map dtb h = Inr (enc_rsv es)" "r1 = entry_ranges es" "\<forall>e \<in> set es. entry_ok e"
    using reserve_map_ranges_loop_entries [of dtb "totalsize h" "off_mem_rsvmap h" "[]" r1 "[]"] run(1)
      fdt_header_parse_bounds(1) [OF h] by (auto simp: reserve_map_ranges_def reserve_map_def)
  have tree: "tree_reserved_ranges root = Inr node_rs"
    using reserved_memory_node_ranges_tree [OF block _ run(2)] len by (simp add: usize_limit_def)
  then show "\<exists>h es node_rs. fdt_header_parse dtb = Inr h \<and> reserve_map dtb h = Inr (enc_rsv es) \<and>
     tree_reserved_ranges root = Inr node_rs \<and> rs = entry_ranges es @ node_rs"
    using h es(1,2) run(3) by blast
  show "nonempty_ranges rs"
    using run(3) es(2) entry_ranges_nonempty [OF es(3)] tree_reserved_ranges_nonempty [OF tree]
    by (auto simp: nonempty_ranges_def)
qed

text \<open>C26: For a blob that parses as a tree, \<open>reserved_ranges\<close> returns every reservation and nothing else:
  the non-empty entries of the memory reserve map, in order, then the \<open>reg\<close> ranges of the enabled
  children of \<open>/reserved-memory\<close>, decoded with that node's cell counts or else the root's.
  Each range returned is non-empty.\<close>

theorem reserved_ranges_complete:
  assumes "contract_tree dtb = Inr root" and "reserved_ranges dtb = Inr rs"
  shows "nonempty_ranges rs \<and>
    (\<exists>h es node_rs. fdt_header_parse dtb = Inr h \<and> reserve_map dtb h = Inr (enc_rsv es) \<and>
       tree_reserved_ranges root = Inr node_rs \<and> rs = entry_ranges es @ node_rs)"
  using reserved_ranges_spec [OF assms] by blast

definition demo_reserved_tree :: node where
  "demo_reserved_tree = Node [] []
     [Node reserved_name [(PROP_SIZE_CELLS, [0, 0, 0, 2])]
        [Node [0x61] [(PROP_REG, [0, 0, 0, 0, 0x90, 0, 0, 0, 0, 0, 0, 0, 0, 0, 0x20, 0])] [],
         Node [0x62] [(PROP_REG, [0, 0, 0, 0, 0xA0, 0, 0, 0, 0, 0, 0, 0, 0, 0, 0x20, 0]), (PROP_STATUS, bytes_of ''disabled'' @ [0])] []]]"

lemma demo_reserved_ranges:
  "tree_reserved_ranges demo_reserved_tree = Inr [(0x90000000, 0x90002000)]"
  by code_simp

lemma reserved_ranges_complete_witness:
  "\<exists>dtb rs. contract_tree dtb = Inr demo_reserved_tree \<and> reserved_ranges dtb = Inr rs \<and>
     rs = [(0x80000000, 0x80001000), (0x90000000, 0x90002000)] \<and> nonempty_ranges rs"
proof -
  let ?build = "build_contract_tree demo_blob demo_reserved_tree (enc_rsv [(0x80000000, 0x1000)])"
  let ?dtb = "case ?build of Inr b \<Rightarrow> b | Inl _ \<Rightarrow> []"
  have tree: "contract_tree ?dtb = Inr demo_reserved_tree" by code_simp
  have run: "reserved_ranges ?dtb = Inr [(0x80000000, 0x80001000), (0x90000000, 0x90002000)]" by code_simp
  show ?thesis using tree run reserved_ranges_complete [OF tree run] by blast
qed

end
