(* ===== verification/SpinTable.thy ===== *)
theory SpinTable
  imports FdtReserved
begin

text \<open>
  The spin-table hand-over (\<open>graft_spin_table\<close> of \<open>src/kexec.rs\<close>): secondary CPUs that the running
  kernel parked on a page of its own are described to the next kernel in the boot entry's own
  device tree. The CPUs of the target get the page's release addresses, PSCI is disabled, and the
  page is reserved in \<open>/reserved-memory\<close> and in the memory reserve map.
\<close>

section \<open>Definitions\<close>

definition SPIN_TABLE_COMPAT :: bytes where "SPIN_TABLE_COMPAT = bytes_of ''pocketboot,spin-table-v1''"
definition SPIN_TABLE_BYTES :: u64 where "SPIN_TABLE_BYTES = 0x1000"
definition SPIN_TABLE_SLOTS :: u64 where "SPIN_TABLE_SLOTS = 0x400"
definition SPIN_TABLE_STRIDE :: u64 where "SPIN_TABLE_STRIDE = 0x80"

lemmas spin_table_consts = SPIN_TABLE_COMPAT_def SPIN_TABLE_BYTES_def SPIN_TABLE_SLOTS_def SPIN_TABLE_STRIDE_def

record spin_contract =
  st_base :: u64

text \<open>A property value that is text with its terminating NUL.\<close>

abbreviation zstr :: "string \<Rightarrow> bytes" where "zstr s \<equiv> bytes_of s @ [0]"

definition release_addr :: "spin_contract \<Rightarrow> u64 \<Rightarrow> bytes" where
  "release_addr contract mpidr =
     to_be_bytes 8 (st_base contract + SPIN_TABLE_SLOTS + mpidr * SPIN_TABLE_STRIDE)"

text \<open>
  \<open>cpu_nodes\<close>: the enabled CPUs by MPIDR. The \<open>BTreeMap\<close> is an association list in key order.
\<close>

definition cpu_step :: "u32 \<Rightarrow> (u64 \<times> nat) list \<Rightarrow> nat \<times> node \<Rightarrow> (u64 \<times> nat) list io" where
  "cpu_step address_cells result ic =
     (case ic of (index, cpu) \<Rightarrow>
        if get_prop cpu (bytes_of ''device_type'') \<noteq> Some (zstr ''cpu'') \<or> \<not> enabled cpu then Inr result
        else
          bind_io (ok_or (IoError InvalidData ''CPU has no reg property'') (get_prop cpu PROP_REG)) (\<lambda>reg.
          if length reg \<noteq> unat address_cells * 4 then invalid_data ''CPU reg property does not encode one MPIDR''
          else
            (let mpidr = decode_cells reg in
             if mpidr AND NOT 0xff00ffffff \<noteq> 0 \<or> mpidr \<in> fst ` set result
             then invalid_data ''CPU reg contains an invalid or duplicate MPIDR''
             else Inr (insort_key fst (mpidr, index) result))))"

definition cpu_nodes :: "node \<Rightarrow> (u64 \<times> nat) list io" where
  "cpu_nodes root =
     bind_io (ok_or (IoError InvalidData ''DTB has no /cpus node'') (child root (bytes_of ''cpus''))) (\<lambda>cpus.
     bind_io (cells cpus PROP_ADDRESS_CELLS 2) (\<lambda>address_cells.
     if \<not> (1 \<le> address_cells \<and> address_cells \<le> 2) then invalid_data ''unsupported /cpus cell format''
     else
       bind_io (cells cpus PROP_SIZE_CELLS 0) (\<lambda>size_cells.
       if size_cells \<noteq> 0 then invalid_data ''unsupported /cpus cell format''
       else fold_io (cpu_step address_cells) [] (enumerate 0 (nchildren cpus)))))"

definition is_spin_table_cpu :: "node \<Rightarrow> bool" where
  "is_spin_table_cpu cpu \<longleftrightarrow>
     enabled cpu \<and> get_prop cpu (bytes_of ''device_type'') = Some (zstr ''cpu'') \<and>
     get_prop cpu (bytes_of ''enable-method'') = Some (zstr ''spin-table'')"

definition is_contract_node :: "node \<Rightarrow> bool" where
  "is_contract_node n =
     (case get_prop n (bytes_of ''compatible'') of
        None \<Rightarrow> False
      | Some v \<Rightarrow> list_ex (starts_with (bytes_of ''pocketboot,spin-table-'')) (split_on 0 v))"

definition reserved_cells :: "node \<Rightarrow> node \<Rightarrow> (u32 \<times> u32) io" where
  "reserved_cells root reserved =
     (if \<not> enabled reserved \<or> get_prop reserved (bytes_of ''ranges'') \<noteq> Some []
      then invalid_data ''spin-table requires an enabled /reserved-memory with empty ranges''
      else
        bind_io (cells reserved PROP_ADDRESS_CELLS 0) (\<lambda>address_cells.
        bind_io (cells reserved PROP_SIZE_CELLS 0) (\<lambda>size_cells.
        let bad = invalid_data ''unsupported or inconsistent spin-table reserved-memory cell format'' in
        if \<not> (1 \<le> address_cells \<and> address_cells \<le> 2) \<or> \<not> (1 \<le> size_cells \<and> size_cells \<le> 2) then bad
        else
          bind_io (cells root PROP_ADDRESS_CELLS 2) (\<lambda>rac.
          if address_cells \<noteq> rac then bad
          else
            bind_io (cells root PROP_SIZE_CELLS 1) (\<lambda>rsc.
            if size_cells \<noteq> rsc then bad else Inr (address_cells, size_cells))))))"

definition spin_table_contract :: "node \<Rightarrow> spin_contract option io" where
  "spin_table_contract root =
     (if \<not> (case child root (bytes_of ''cpus'') of
               None \<Rightarrow> False | Some cpus \<Rightarrow> list_ex is_spin_table_cpu (nchildren cpus))
      then Inr None
      else
        (case filter is_contract_node
               (case child root reserved_name of None \<Rightarrow> [] | Some n \<Rightarrow> nchildren n) of
           [] \<Rightarrow> invalid_data ''live spin-table CPUs have no owned parking contract''
         | _ # _ # _ \<Rightarrow> invalid_data ''live DTB has multiple spin-table parking reservations''
         | [owned] \<Rightarrow>
             if \<not> compatible owned SPIN_TABLE_COMPAT \<or> \<not> enabled owned \<or>
                get_prop owned (bytes_of ''no-map'') \<noteq> Some [] \<or> get_prop owned (bytes_of ''reusable'') \<noteq> None
             then invalid_data ''invalid or unsupported live spin-table parking reservation''
             else
               bind_io (reserved_cells root (the (child root reserved_name))) (\<lambda>(address_cells, size_cells).
               bind_io (ok_or (IoError InvalidData ''live spin-table reservation has no reg'') (get_prop owned PROP_REG)) (\<lambda>reg.
               bind_io (decode_reg_ranges reg address_cells size_cells) (\<lambda>ranges.
               if length ranges \<noteq> 1 \<or> length reg \<noteq> unat (address_cells + size_cells) * 4
               then invalid_data ''spin-table v1 requires exactly one reservation range''
               else
                 (case hd ranges of (base, e) \<Rightarrow>
                  if base = 0 \<or> base mod SPIN_TABLE_BYTES \<noteq> 0 \<or> e - base \<noteq> SPIN_TABLE_BYTES
                  then invalid_data ''spin-table v1 requires one aligned 4 KiB page''
                  else
                    bind_io (cpu_nodes root) (\<lambda>cpus.
                    if map fst cpus \<noteq> [0, 1, 2, 3]
                    then invalid_data ''spin-table v1 requires enabled CPU MPIDRs 0 through 3''
                    else
                      (let nodes = nchildren (the (child root (bytes_of ''cpus''))) in
                       if list_ex (\<lambda>(mpidr, index).
                            get_prop (nodes ! index) (bytes_of ''enable-method'') \<noteq> Some (zstr ''spin-table'') \<or>
                            get_prop (nodes ! index) (bytes_of ''cpu-release-addr'') \<noteq>
                              Some (release_addr \<lparr>st_base = base\<rparr> mpidr)) cpus
                       then invalid_data ''live CPU release address or enable method does not match spin-table v1''
                       else Inr (Some \<lparr>st_base = base\<rparr>)))))))))"

definition encode_cells :: "u64 \<Rightarrow> u32 \<Rightarrow> bytes io" where
  "encode_cells v count =
     (if count = 1 \<and> v \<le> 0xffffffff then Inr (to_be_bytes 4 (ucast v :: u32))
      else if count = 2 then Inr (to_be_bytes 8 v)
      else invalid_data ''spin-table physical address does not fit destination DTB cells'')"

fun update_first :: "('a \<Rightarrow> bool) \<Rightarrow> ('a \<Rightarrow> 'a) \<Rightarrow> 'a list \<Rightarrow> 'a list" where
  "update_first P f [] = []"
| "update_first P f (x # xs) = (if P x then f x # xs else x # update_first P f xs)"

definition push_child :: "node \<Rightarrow> node \<Rightarrow> node" where
  "push_child n c = Node (nname n) (nprops n) (nchildren n @ [c])"

definition with_children :: "node \<Rightarrow> node list \<Rightarrow> node" where
  "with_children n cs = Node (nname n) (nprops n) cs"

definition parking_name :: "spin_contract \<Rightarrow> bytes" where
  "parking_name contract = bytes_of (''spin-table@'' @ hex_of (unat (st_base contract)))"

text \<open>The loop over the existing reservations: is the page reserved already, and by its owner only?\<close>

definition parking_step :: "spin_contract \<Rightarrow> u32 \<Rightarrow> u32 \<Rightarrow> bool \<Rightarrow> node \<Rightarrow> bool io" where
  "parking_step contract address_cells size_cells already_reserved n =
     (let page_end = st_base contract + SPIN_TABLE_BYTES in
      bind_io (case get_prop n PROP_REG of
                 Some reg \<Rightarrow> decode_reg_ranges reg address_cells size_cells
               | None \<Rightarrow> Inr []) (\<lambda>ranges.
      let overlap = list_ex (\<lambda>(s, other_end). s < page_end \<and> st_base contract < other_end) ranges in
      if overlap \<or> is_contract_node n \<or> nname n = parking_name contract then
        (if \<not> enabled n \<or> \<not> compatible n SPIN_TABLE_COMPAT \<or> get_prop n (bytes_of ''no-map'') \<noteq> Some [] \<or>
            get_prop n (bytes_of ''reusable'') \<noteq> None \<or> ranges \<noteq> [(st_base contract, page_end)] \<or> already_reserved
         then invalid_data ''destination reserved-memory conflicts with the live spin-table page''
         else Inr True)
      else Inr already_reserved))"

definition parking_root :: "node \<Rightarrow> node io" where
  "parking_root root =
     (case child root reserved_name of
        Some _ \<Rightarrow> Inr root
      | None \<Rightarrow>
          bind_io (cells root PROP_ADDRESS_CELLS 2) (\<lambda>ac.
          bind_io (cells root PROP_SIZE_CELLS 1) (\<lambda>sc.
          Inr (push_child root
            (set_prop (set_prop (set_prop (node_new reserved_name)
               PROP_ADDRESS_CELLS (to_be_bytes 4 ac)) PROP_SIZE_CELLS (to_be_bytes 4 sc)) (bytes_of ''ranges'') [])))))"

definition parking_node :: "spin_contract \<Rightarrow> u32 \<Rightarrow> u32 \<Rightarrow> node io" where
  "parking_node contract address_cells size_cells =
     bind_io (encode_cells (st_base contract) address_cells) (\<lambda>r1.
     bind_io (encode_cells SPIN_TABLE_BYTES size_cells) (\<lambda>r2.
     Inr (set_prop (set_prop (set_prop (node_new (parking_name contract))
            (bytes_of ''compatible'') (SPIN_TABLE_COMPAT @ [0])) (bytes_of ''no-map'') []) PROP_REG (r1 @ r2))))"

definition graft_parking_reservation :: "node \<Rightarrow> spin_contract \<Rightarrow> node io" where
  "graft_parking_reservation root contract =
     bind_io (parking_root root) (\<lambda>root.
     bind_io (reserved_cells root (the (child root reserved_name))) (\<lambda>(address_cells, size_cells).
     bind_io (fold_io (parking_step contract address_cells size_cells) False
                (nchildren (the (child root reserved_name)))) (\<lambda>already_reserved.
     if already_reserved then Inr root
     else
       bind_io (parking_node contract address_cells size_cells) (\<lambda>n.
       Inr (with_children root
              (update_first (\<lambda>c. nname c = reserved_name) (\<lambda>r. push_child r n) (nchildren root)))))))"

definition is_psci :: "node \<Rightarrow> bool" where
  "is_psci n \<longleftrightarrow> list_ex (compatible n) [bytes_of ''arm,psci'', bytes_of ''arm,psci-0.2'', bytes_of ''arm,psci-1.0'']"

record power_domain_provider =
  pd_phandle :: u32
  pd_cells :: u32
  pd_psci :: bool

fun visit_providers :: "bool \<Rightarrow> power_domain_provider list \<Rightarrow> node \<Rightarrow> power_domain_provider list io"
  and visit_children :: "bool \<Rightarrow> power_domain_provider list \<Rightarrow> node list \<Rightarrow> power_domain_provider list io" where
  "visit_providers psci_parent providers (Node name ps cs) =
     (let n = Node name ps cs; psci = psci_parent \<or> is_psci n in
      bind_io
        (case get_prop n (bytes_of ''#power-domain-cells'') of
           None \<Rightarrow> Inr providers
         | Some pcells \<Rightarrow>
             (case (case get_prop n (bytes_of ''phandle'') of
                      Some p \<Rightarrow> Some p | None \<Rightarrow> get_prop n (bytes_of ''linux,phandle'')) of
                None \<Rightarrow> Inr providers
              | Some phandle \<Rightarrow>
                  bind_io (property_u32 phandle) (\<lambda>phandle.
                  if phandle = 0 \<or> phandle = 0xffffffff \<or> phandle \<in> pd_phandle ` set providers
                  then invalid_data ''invalid or duplicate power-domain provider phandle''
                  else
                    bind_io (property_u32 pcells) (\<lambda>c.
                    Inr (providers @ [\<lparr>pd_phandle = phandle, pd_cells = c, pd_psci = psci\<rparr>])))))
        (\<lambda>providers. visit_children psci providers cs))"
| "visit_children psci providers [] = Inr providers"
| "visit_children psci providers (c # cs) =
     bind_io (visit_providers psci providers c) (\<lambda>providers. visit_children psci providers cs)"

definition power_domain_providers :: "node \<Rightarrow> power_domain_provider list io" where
  "power_domain_providers root = visit_providers False [] root"

function domains_loop ::
  "power_domain_provider list \<Rightarrow> bytes \<Rightarrow> nat \<Rightarrow> bytes \<Rightarrow> bool list \<Rightarrow> (bytes \<times> bool list) io" where
  "domains_loop providers domains offset retained keep_names =
     (if offset < length domains then
        bind_io (read_be32 domains offset) (\<lambda>phandle.
        case find (\<lambda>p. pd_phandle p = phandle) providers of
          None \<Rightarrow> invalid_data ''CPU power-domains refers to an unknown provider''
        | Some provider \<Rightarrow>
            (let nbytes = (unat (pd_cells provider) + 1) * 4 in
             if length domains - offset < nbytes then invalid_data ''CPU power-domains contains a partial provider tuple''
             else domains_loop providers domains (offset + nbytes)
                    (if \<not> pd_psci provider then retained @ slice domains offset (offset + nbytes) else retained)
                    (keep_names @ [\<not> pd_psci provider])))
      else Inr (retained, keep_names))"
  by pat_completeness auto
termination
  by (relation "measure (\<lambda>(providers, domains, offset, _). length domains - offset)") auto

declare domains_loop.simps [simp del]

definition remove_psci_cpu_domains :: "node \<Rightarrow> power_domain_provider list \<Rightarrow> node io" where
  "remove_psci_cpu_domains cpu providers =
     (case get_prop cpu (bytes_of ''power-domains'') of
        None \<Rightarrow> Inr cpu
      | Some domains \<Rightarrow>
          if length domains mod 4 \<noteq> 0 then invalid_data ''CPU power-domains contains a partial cell''
          else
            bind_io (domains_loop providers domains 0 [] []) (\<lambda>(retained, keep_names).
            bind_io
              (case get_prop cpu (bytes_of ''power-domain-names'') of
                 None \<Rightarrow> Inr None
               | Some names \<Rightarrow>
                   (case strip_suffix [0] names of
                      None \<Rightarrow> invalid_data ''unterminated CPU power-domain-names''
                    | Some names \<Rightarrow>
                        (let names = split_on 0 names in
                         if length names \<noteq> length keep_names
                         then invalid_data ''CPU power-domain-names does not match its provider tuples''
                         else Inr (Some (concat (map (\<lambda>(name, keep). if keep then name @ [0] else []) (zip names keep_names)))))))
              (\<lambda>retained_names.
               if retained = [] then
                 Inr (remove_prop (remove_prop cpu (bytes_of ''power-domains'')) (bytes_of ''power-domain-names''))
               else
                 (let cpu = set_prop cpu (bytes_of ''power-domains'') retained in
                  Inr (case retained_names of
                         Some names \<Rightarrow> set_prop cpu (bytes_of ''power-domain-names'') names
                       | None \<Rightarrow> cpu)))))"

definition psci_state_node :: "node \<Rightarrow> bool" where
  "psci_state_node c \<longleftrightarrow>
     \<not> (get_prop c (bytes_of ''entry-method'') \<noteq> Some (zstr ''psci'') \<and>
        get_prop c (bytes_of ''arm,psci-suspend-param'') = None)"

fun disable_psci :: "node \<Rightarrow> node"
  and disable_psci_children :: "node list \<Rightarrow> node list" where
  "disable_psci (Node name ps cs) =
     (let n = Node name ps cs;
          n = (if is_psci n then set_prop n PROP_STATUS (zstr ''disabled'') else n)
      in with_children n (disable_psci_children cs))"
| "disable_psci_children [] = []"
| "disable_psci_children (c # cs) =
     (if psci_state_node c then disable_psci_children cs else disable_psci c # disable_psci_children cs)"

definition validate_parking_reserve_map :: "bytes \<Rightarrow> spin_contract \<Rightarrow> bool io" where
  "validate_parking_reserve_map dtb contract =
     bind_io (fdt_header_parse dtb) (\<lambda>header.
     let page_end = st_base contract + SPIN_TABLE_BYTES in
     bind_io (reserve_map_ranges dtb header) (\<lambda>ranges.
     fold_io (\<lambda>already_reserved (s, existing_end).
        if s < page_end \<and> st_base contract < existing_end then
          (if (s, existing_end) \<noteq> (st_base contract, page_end)
           then invalid_data ''DTB reserve map overlaps the spin-table page''
           else Inr True)
        else Inr already_reserved) False ranges))"

text \<open>The loop body over the target's CPUs, on the children of \<open>/cpus\<close>.\<close>

definition handoff_cpu :: "spin_contract \<Rightarrow> power_domain_provider list \<Rightarrow> node list \<Rightarrow> u64 \<times> nat \<Rightarrow> node list io" where
  "handoff_cpu contract providers nodes mi =
     (case mi of (mpidr, index) \<Rightarrow>
        (let cpu = nodes ! index;
             cpu = set_prop cpu (bytes_of ''enable-method'') (zstr ''spin-table'');
             cpu = set_prop cpu (bytes_of ''cpu-release-addr'') (release_addr contract mpidr);
             cpu = remove_prop cpu (bytes_of ''cpu-idle-states'') in
         bind_io (remove_psci_cpu_domains cpu providers) (\<lambda>cpu. Inr (nodes[index := cpu]))))"

definition graft_spin_table :: "bytes \<Rightarrow> bytes \<Rightarrow> bytes io" where
  "graft_spin_table dtb live_dtb =
     bind_io (contract_tree live_dtb) (\<lambda>live.
     bind_io (spin_table_contract live) (\<lambda>c.
     case c of
       None \<Rightarrow> Inr dtb
     | Some contract \<Rightarrow>
         bind_io (fdt_header_parse live_dtb) (\<lambda>live_header.
         let bad_boot_cpu = invalid_data ''spin-table v1 requires CPU0 as the boot CPU'' in
         if boot_cpuid_phys live_header \<noteq> 0 then bad_boot_cpu
         else
         bind_io (fdt_header_parse dtb) (\<lambda>header.
         if boot_cpuid_phys header \<noteq> 0 then bad_boot_cpu
         else
         bind_io (graft_parking_reservation live contract) (\<lambda>live.
         bind_io (validate_parking_reserve_map live_dtb contract) (\<lambda>_.
         bind_io (contract_tree dtb) (\<lambda>target.
         bind_io (cpu_nodes live) (\<lambda>live_cpus.
         bind_io (cpu_nodes target) (\<lambda>target_cpus.
         if map fst live_cpus \<noteq> map fst target_cpus
         then invalid_data ''destination CPU MPIDRs do not match the live spin-table CPUs''
         else
         bind_io (power_domain_providers target) (\<lambda>providers.
         bind_io (fold_io (handoff_cpu contract providers)
                    (nchildren (the (child target (bytes_of ''cpus'')))) target_cpus) (\<lambda>cpus.
         let target = with_children target
               (update_first (\<lambda>c. nname c = bytes_of ''cpus'') (\<lambda>c. with_children c cpus) (nchildren target));
             target = disable_psci target in
         bind_io (graft_parking_reservation target contract) (\<lambda>target.
         bind_io (fdt_header_parse dtb) (\<lambda>header.
         bind_io (reserve_map dtb header) (\<lambda>reservations.
         bind_io (validate_parking_reserve_map dtb contract) (\<lambda>already_reserved.
         let reservations =
           (if \<not> already_reserved
            then take (length reservations - 16) reservations @ to_be_bytes 8 (st_base contract) @
                 to_be_bytes 8 SPIN_TABLE_BYTES @ replicate 16 0
            else reservations) in
         build_contract_tree dtb target reservations)))))))))))))))"


section \<open>Cells\<close>

lemma chunks_exact_append: "length (a :: 'a list) = n \<Longrightarrow> n \<noteq> 0 \<Longrightarrow> chunks_exact n (a @ b) = a # chunks_exact n b"
  by (subst chunks_exact.simps) auto

lemma chunks_exact_Nil [simp]: "chunks_exact n [] = []"
  by (subst chunks_exact.simps) auto

lemma from_be_bytes_append4:
  assumes "length ys = 4"
  shows "(from_be_bytes (xs @ ys) :: u64) = push_bit 32 (from_be_bytes xs) OR ucast (from_be_bytes ys :: u32)"
proof (rule bit_word_eqI)
  fix k assume "k < LENGTH(64)"
  then have k: "k < 64" by simp
  show "bit (from_be_bytes (xs @ ys) :: u64) k = bit (push_bit 32 (from_be_bytes xs) OR ucast (from_be_bytes ys :: u32) :: u64) k"
  proof (cases "k < 32")
    case True
    then have "k div 8 < 4" by simp
    then show ?thesis using True assms by (simp add: bit_from_be_bytes bit_simps nth_append)
  next
    case False
    then obtain j where j: "k = 8 * 4 + j" using nat_le_iff_add [of 32 k] by auto
    have "k div 8 = 4 + j div 8" "k mod 8 = j mod 8" unfolding j by (simp, rule mod_mult_self4)
    then show ?thesis using j k assms by (simp add: bit_from_be_bytes bit_simps nth_append)
  qed
qed

lemma decode_cells_one: "length bs = 4 \<Longrightarrow> decode_cells bs = ucast (from_be_bytes bs :: u32)"
  using chunks_exact_append [of bs 4 "[]"] by (simp add: decode_cells_def)

lemma decode_cells_two: "length bs = 8 \<Longrightarrow> decode_cells bs = from_be_bytes bs"
proof -
  assume len: "length bs = 8"
  have "chunks_exact 4 (take 4 bs @ drop 4 bs) = [take 4 bs, drop 4 bs]"
    using len chunks_exact_append [of "take 4 bs" 4 "drop 4 bs"] chunks_exact_append [of "drop 4 bs" 4 "[]"] by simp
  then have "decode_cells bs = push_bit 32 (ucast (from_be_bytes (take 4 bs) :: u32)) OR ucast (from_be_bytes (drop 4 bs) :: u32)"
    by (simp add: decode_cells_def)
  also have "(ucast (from_be_bytes (take 4 bs) :: u32) :: u64) = from_be_bytes (take 4 bs)"
    using from_be_bytes_append4 [of "take 4 bs" "[]"] len by (simp add: from_be_bytes_def)
  finally show ?thesis
    using from_be_bytes_append4 [of "drop 4 bs" "take 4 bs"] len by simp
qed

lemma encode_cells_length: "encode_cells v n = Inr bs \<Longrightarrow> length bs = unat n * 4 \<and> (n = 1 \<or> n = 2)"
  by (auto simp: encode_cells_def split: if_splits)

lemma decode_encode_cells: "encode_cells v n = Inr bs \<Longrightarrow> decode_cells bs = v"
proof -
  assume run: "encode_cells v n = Inr bs"
  consider (one) "n = 1" "v \<le> 0xffffffff" "bs = to_be_bytes 4 (ucast v :: u32)" | (two) "bs = to_be_bytes 8 v"
    using run by (auto simp: encode_cells_def split: if_splits)
  then show ?thesis
  proof cases
    case one
    have "unat v < 2 ^ 32" using one(2) by (simp add: word_le_nat_alt)
    then have "(ucast (ucast v :: u32) :: u64) = v"
      by (intro word_unat_eq_iff [THEN iffD2]) (simp add: unsigned_ucast_eq unsigned_take_bit_eq take_bit_nat_eq_self)
    then show ?thesis using one(3) by (simp add: decode_cells_one be32.dec_enc)
  qed (simp add: decode_cells_two be64.dec_enc)
qed


section \<open>Edits of trees\<close>

lemma map_fst_set_assoc: "map fst (set_assoc ps k v) = (if k \<in> fst ` set ps then map fst ps else map fst ps @ [k])"
  by (induction ps k v rule: set_assoc.induct) auto

lemma in_set_assoc: "(a, b) \<in> set (set_assoc ps k v) \<Longrightarrow> (a, b) \<in> set ps \<or> (a, b) = (k, v)"
  by (induction ps k v rule: set_assoc.induct) (auto split: if_splits)

lemma set_prop_any_wf:
  assumes "node_wf d n" and "0 \<notin> set k" and "length v < 2 ^ 32"
  shows "node_wf d (set_prop n k v)"
proof -
  have "distinct (map fst (set_assoc (nprops n) k v))"
    using assms(1) by (auto simp: node_wf_iff [of d n] map_fst_set_assoc)
  moreover have "\<forall>(a, b) \<in> set (set_assoc (nprops n) k v). 0 \<notin> set a \<and> length b < 2 ^ 32"
    using assms by (auto simp: node_wf_iff [of d n] dest!: in_set_assoc)
  ultimately show ?thesis using assms(1) by (auto simp: node_wf_iff [of d] set_prop_def)
qed

lemma remove_prop_wf: "node_wf d n \<Longrightarrow> node_wf d (remove_prop n k)"
  by (auto simp: node_wf_iff [of d] remove_prop_def distinct_map_filter case_prod_unfold)

lemma get_prop_wf: "node_wf d n \<Longrightarrow> get_prop n k = Some v \<Longrightarrow> length v < 2 ^ 32"
  by (auto simp: node_wf_iff [of d] get_prop_def dest!: map_of_SomeD)

lemma child_Some: "child n name = Some c \<Longrightarrow> c \<in> set (nchildren n) \<and> nname c = name"
  by (auto simp: child_def find_Some_iff)

lemma child_in: "node_wf d n \<Longrightarrow> c \<in> set (nchildren n) \<Longrightarrow> child n (nname c) = Some c"
proof -
  assume wf: "node_wf d n" and c: "c \<in> set (nchildren n)"
  then obtain c' where c': "child n (nname c) = Some c'" using child_None [of n "nname c"] by (cases "child n (nname c)") auto
  have "inj_on nname (set (nchildren n))" using wf by (auto simp: node_wf_iff [of d] distinct_map)
  then show ?thesis using c c' child_Some [OF c'] by (auto dest: inj_onD)
qed

lemma map_nname_update_first: "(\<And>x. nname (f x) = nname x) \<Longrightarrow> map nname (update_first P f xs) = map nname xs"
  by (induction xs) auto

lemma in_update_first: "y \<in> set (update_first P f xs) \<Longrightarrow> y \<in> set xs \<or> (\<exists>x \<in> set xs. P x \<and> y = f x)"
  by (induction xs) (auto split: if_splits)

lemma find_update_first:
  "(\<And>x. nname (f x) = nname x) \<Longrightarrow>
   find (\<lambda>c. nname c = a) (update_first (\<lambda>c. nname c = b) f xs) =
   (if a = b then map_option f (find (\<lambda>c. nname c = a) xs) else find (\<lambda>c. nname c = a) xs)"
  by (induction xs) auto

lemma with_children_wf:
  "node_wf d n \<Longrightarrow> distinct (map nname cs) \<Longrightarrow> \<forall>c \<in> set cs. node_wf (Suc d) c \<Longrightarrow> node_wf d (with_children n cs)"
  by (simp add: node_wf_iff [of d] with_children_def)

lemma tree_edit_simps [simp]:
  "nname (push_child n c) = nname n" "nprops (push_child n c) = nprops n" "nchildren (push_child n c) = nchildren n @ [c]"
  "nname (with_children n cs) = nname n" "nprops (with_children n cs) = nprops n" "nchildren (with_children n cs) = cs"
  "get_prop (push_child n c) k = get_prop n k" "get_prop (with_children n cs) k = get_prop n k"
  "enabled (push_child n c) = enabled n" "enabled (with_children n cs) = enabled n"
  "cells (push_child n c) k d = cells n k d" "cells (with_children n cs) k d = cells n k d"
  by (simp_all add: push_child_def with_children_def get_prop_def enabled_def cells_def)

section \<open>The parking reservation\<close>

text \<open>What the hand-over contract promises of the page.\<close>

definition contract_ok :: "spin_contract \<Rightarrow> bool" where
  "contract_ok c \<longleftrightarrow> st_base c \<noteq> 0 \<and> unat (st_base c) mod 4096 = 0 \<and> unat (st_base c) + 4096 < 2 ^ 64"

definition page_reserved :: "spin_contract \<Rightarrow> node \<Rightarrow> bool" where
  "page_reserved c root \<longleftrightarrow>
     (\<exists>r ac sc n reg. child root reserved_name = Some r \<and> reserved_cells root r = Inr (ac, sc) \<and>
        n \<in> set (nchildren r) \<and> enabled n \<and> compatible n SPIN_TABLE_COMPAT \<and>
        get_prop n (bytes_of ''no-map'') = Some [] \<and> get_prop n (bytes_of ''reusable'') = None \<and>
        get_prop n PROP_REG = Some reg \<and>
        decode_reg_ranges reg ac sc = Inr [(st_base c, st_base c + SPIN_TABLE_BYTES)])"

lemma spin_table_contract_SomeD:
  assumes run: "spin_table_contract root = Inr (Some c)"
  obtains owned ac sc reg e cpus where
    "filter is_contract_node (case child root reserved_name of None \<Rightarrow> [] | Some n \<Rightarrow> nchildren n) = [owned]"
    "compatible owned SPIN_TABLE_COMPAT" "enabled owned"
    "get_prop owned (bytes_of ''no-map'') = Some []" "get_prop owned (bytes_of ''reusable'') = None"
    "reserved_cells root (the (child root reserved_name)) = Inr (ac, sc)"
    "get_prop owned PROP_REG = Some reg" "decode_reg_ranges reg ac sc = Inr [(st_base c, e)]"
    "st_base c \<noteq> 0" "st_base c mod SPIN_TABLE_BYTES = 0" "e - st_base c = SPIN_TABLE_BYTES"
    "cpu_nodes root = Inr cpus" "map fst cpus = [0, 1, 2, 3]"
proof -
  let ?xs = "filter is_contract_node (case child root reserved_name of None \<Rightarrow> [] | Some n \<Rightarrow> nchildren n)"
  obtain owned where xs: "?xs = [owned]"
    using run unfolding spin_table_contract_def by (cases ?xs; cases "tl ?xs") (simp_all split: if_split_asm)
  have ok: "compatible owned SPIN_TABLE_COMPAT" "enabled owned"
      "get_prop owned (bytes_of ''no-map'') = Some []" "get_prop owned (bytes_of ''reusable'') = None"
    using run unfolding spin_table_contract_def xs by (simp_all split: if_split_asm)
  obtain ac sc where rc: "reserved_cells root (the (child root reserved_name)) = Inr (ac, sc)"
    using run unfolding spin_table_contract_def xs by (auto simp: ok split: if_split_asm)
  obtain reg where reg: "get_prop owned PROP_REG = Some reg"
    using run unfolding spin_table_contract_def xs by (cases "get_prop owned PROP_REG") (simp_all add: ok rc split: if_split_asm)
  obtain rs where rs: "decode_reg_ranges reg ac sc = Inr rs"
    using run unfolding spin_table_contract_def xs by (cases "decode_reg_ranges reg ac sc") (simp_all add: ok rc reg split: if_split_asm)
  have "length rs = 1"
    using run unfolding spin_table_contract_def xs by (simp add: ok rc reg rs split: if_split_asm)
  then obtain b e where be: "rs = [(b, e)]" by (cases rs) auto
  have b: "b \<noteq> 0" "b mod SPIN_TABLE_BYTES = 0" "e - b = SPIN_TABLE_BYTES"
    using run unfolding spin_table_contract_def xs by (simp_all add: ok rc reg rs be split: if_split_asm)
  obtain cpus where cpus: "cpu_nodes root = Inr cpus"
    using run unfolding spin_table_contract_def xs by (cases "cpu_nodes root") (simp_all add: ok rc reg rs be b split: if_split_asm)
  have ids: "map fst cpus = [0, 1, 2, 3]" and c: "c = \<lparr>st_base = b\<rparr>"
    using run unfolding spin_table_contract_def xs by (simp_all add: ok rc reg rs be b cpus Let_def split: if_split_asm)
  show ?thesis using that [of owned ac sc reg e cpus] xs ok rc reg rs be b cpus ids c by simp
qed

lemma spin_table_contract_ok: "spin_table_contract root = Inr (Some c) \<Longrightarrow> contract_ok c"
proof -
  assume run: "spin_table_contract root = Inr (Some c)"
  from spin_table_contract_SomeD [OF run] obtain reg ac sc e where d: "decode_reg_ranges reg ac sc = Inr [(st_base c, e)]"
      "st_base c \<noteq> 0" "st_base c mod SPIN_TABLE_BYTES = 0" "e - st_base c = SPIN_TABLE_BYTES"
    by metis
  have "st_base c < e" using decode_reg_ranges_nonempty [OF d(1)] by (simp add: nonempty_ranges_def)
  then have "unat (st_base c) + 4096 = unat e"
    using d(4) unat_sub [of "st_base c" e] by (simp add: spin_table_consts order_less_imp_le word_less_nat_alt word_le_nat_alt)
  moreover have "unat (st_base c) mod 4096 = 0" using arg_cong [OF d(3), of unat] by (simp add: spin_table_consts unat_mod_distrib)
  ultimately show ?thesis
    using d(2) unat_less_u64 [of e] by (simp add: contract_ok_def)
qed

lemma hex_of_no_nul: "0 \<notin> set (bytes_of (hex_of n))"
proof (induction n rule: hex_of.induct)
  case (1 n)
  have "list_all (\<lambda>d. 0 \<notin> set (bytes_of [hex_digit d])) [0..<16]" by code_simp
  then have digit: "0 \<notin> set (bytes_of [hex_digit d])" if "d < 16" for d
    using that by (simp add: list_all_iff)
  show ?case
  proof (cases "n < 16")
    case True
    then show ?thesis using digit [of n] by (subst hex_of.simps) simp
  next
    case False
    then show ?thesis using 1 digit [of "n mod 16"] by (subst hex_of.simps) (simp add: bytes_of_def)
  qed
qed

lemma parking_name_no_nul: "0 \<notin> set (parking_name c)"
  using hex_of_no_nul by (simp add: parking_name_def bytes_of_def)

text \<open>What no edit of the hand-over changes: the root's own properties and the children but one.\<close>

definition same_but :: "bytes \<Rightarrow> node \<Rightarrow> node \<Rightarrow> bool" where
  "same_but k a b \<longleftrightarrow>
     nname b = nname a \<and> nprops b = nprops a \<and> (\<forall>j. j \<noteq> k \<longrightarrow> child b j = child a j)"

lemma same_but_trans: "same_but k a b \<Longrightarrow> same_but k b c \<Longrightarrow> same_but k a c"
  by (simp add: same_but_def)

lemma child_push_child: "child n k = None \<Longrightarrow> child (push_child n c) k' = (if k' = k \<and> nname c = k then Some c else if nname c = k' \<and> child n k' = None then Some c else child n k')"
proof -
  have "find P (xs @ [c]) = (case find P xs of Some x \<Rightarrow> Some x | None \<Rightarrow> if P c then Some c else None)" for P xs
    by (induction xs) auto
  then show "child n k = None \<Longrightarrow> ?thesis" by (auto simp: child_def split: option.splits)
qed

lemma parking_root_ok:
  assumes "node_wf 0 root" and "parking_root root = Inr r1"
  obtains r where "node_wf 0 r1" and "same_but reserved_name root r1" and "child r1 reserved_name = Some r"
    and "\<And>n. n \<in> set (nchildren r1) \<Longrightarrow> n \<in> set (nchildren root) \<or> n = r \<and> nchildren r = []
            \<and> get_prop r (bytes_of ''compatible'') = None \<and> \<not> psci_state_node r"
proof (cases "child root reserved_name")
  case (Some r)
  then show ?thesis using assms that [of r] by (auto simp: parking_root_def same_but_def)
next
  case None
  then obtain ac sc where r1: "r1 = push_child root (set_prop (set_prop (set_prop (node_new reserved_name)
        PROP_ADDRESS_CELLS (to_be_bytes 4 (ac :: u32))) PROP_SIZE_CELLS (to_be_bytes 4 (sc :: u32))) (bytes_of ''ranges'') [])"
    using assms(2) by (auto simp: parking_root_def)
  define r where "r = set_prop (set_prop (set_prop (node_new reserved_name)
        PROP_ADDRESS_CELLS (to_be_bytes 4 ac)) PROP_SIZE_CELLS (to_be_bytes 4 sc)) (bytes_of ''ranges'') []"
  have name: "nname r = reserved_name" by (simp add: r_def node_new_def)
  have "node_wf (Suc 0) (node_new reserved_name)" by (simp add: node_new_def bytes_of_def)
  then have wf: "node_wf (Suc 0) r" unfolding r_def by (intro set_prop_any_wf) (simp_all add: bytes_of_def)
  have kids: "nchildren r = []" "get_prop r (bytes_of ''compatible'') = None" "\<not> psci_state_node r"
    by (simp_all add: r_def node_new_def psci_state_node_def get_prop_def bytes_of_def set_prop_def)
  have "child r1 k = (if k = reserved_name then Some r else child root k)" for k
    using None name child_push_child [OF None, of r k] unfolding r1 r_def [symmetric] by auto
  moreover have "node_wf 0 r1"
    using assms(1) wf None name unfolding r1 r_def [symmetric]
    by (auto simp: node_wf_iff [of 0] child_None)
  ultimately show ?thesis
    using that [of r] kids unfolding r1 r_def [symmetric] by (auto simp: same_but_def)
qed

lemma parking_step_Inr:
  assumes "parking_step c ac sc a n = Inr b"
  shows "a \<Longrightarrow> b" and "\<not> b \<Longrightarrow> nname n \<noteq> parking_name c"
    and "b \<Longrightarrow> \<not> a \<Longrightarrow> \<exists>reg. enabled n \<and> compatible n SPIN_TABLE_COMPAT \<and> get_prop n (bytes_of ''no-map'') = Some [] \<and>
           get_prop n (bytes_of ''reusable'') = None \<and> get_prop n PROP_REG = Some reg \<and>
           decode_reg_ranges reg ac sc = Inr [(st_base c, st_base c + SPIN_TABLE_BYTES)]"
proof -
  obtain ranges where r: "(case get_prop n PROP_REG of Some reg \<Rightarrow> decode_reg_ranges reg ac sc | None \<Rightarrow> Inr []) = Inr ranges"
    using assms unfolding parking_step_def Let_def bind_io_eq_Inr by blast
  note run = assms [unfolded parking_step_def Let_def r bind_io_simps]
  show "a \<Longrightarrow> b" using run by (simp split: if_split_asm)
  show "\<not> b \<Longrightarrow> nname n \<noteq> parking_name c" using run by (simp split: if_split_asm)
  assume "b" "\<not> a"
  then have "enabled n" "compatible n SPIN_TABLE_COMPAT" "get_prop n (bytes_of ''no-map'') = Some []"
      "get_prop n (bytes_of ''reusable'') = None" "ranges = [(st_base c, st_base c + SPIN_TABLE_BYTES)]"
    using run by (simp_all split: if_split_asm)
  then show "\<exists>reg. enabled n \<and> compatible n SPIN_TABLE_COMPAT \<and> get_prop n (bytes_of ''no-map'') = Some [] \<and>
           get_prop n (bytes_of ''reusable'') = None \<and> get_prop n PROP_REG = Some reg \<and>
           decode_reg_ranges reg ac sc = Inr [(st_base c, st_base c + SPIN_TABLE_BYTES)]"
    using r by (cases "get_prop n PROP_REG") simp_all
qed

lemma parking_steps_Inr:
  assumes "fold_io (parking_step c ac sc) a ns = Inr b"
  shows "a \<Longrightarrow> b" and "\<not> b \<Longrightarrow> parking_name c \<notin> nname ` set ns"
    and "b \<Longrightarrow> \<not> a \<Longrightarrow> \<exists>n \<in> set ns. \<exists>reg. enabled n \<and> compatible n SPIN_TABLE_COMPAT \<and> get_prop n (bytes_of ''no-map'') = Some [] \<and>
           get_prop n (bytes_of ''reusable'') = None \<and> get_prop n PROP_REG = Some reg \<and>
           decode_reg_ranges reg ac sc = Inr [(st_base c, st_base c + SPIN_TABLE_BYTES)]"
  using assms
proof (induction ns arbitrary: a)
  case (Cons n ns)
  {
    case 1
    then obtain a' where a': "parking_step c ac sc a n = Inr a'" "fold_io (parking_step c ac sc) a' ns = Inr b" by auto
    show ?case using Cons.IH(1) [OF parking_step_Inr(1) [OF a'(1) 1(1)] a'(2)] .
  next
    case 2
    then obtain a' where a': "parking_step c ac sc a n = Inr a'" "fold_io (parking_step c ac sc) a' ns = Inr b" by auto
    have "\<not> a'" using Cons.IH(1) [OF _ a'(2)] 2(1) by blast
    then show ?case using Cons.IH(2) [OF 2(1) a'(2)] parking_step_Inr(2) [OF a'(1)] by auto
  next
    case 3
    then obtain a' where a': "parking_step c ac sc a n = Inr a'" "fold_io (parking_step c ac sc) a' ns = Inr b" by auto
    show ?case
    proof (cases a')
      case True
      then show ?thesis using parking_step_Inr(3) [OF a'(1)] 3(2) by (meson list.set_intros(1))
    next
      case False
      then show ?thesis using Cons.IH(3) [OF 3(1) _ a'(2)] by (meson list.set_intros(2))
    qed
  }
qed simp_all

lemma decode_parking_reg:
  assumes "encode_cells (st_base c) ac = Inr r1" and "encode_cells SPIN_TABLE_BYTES sc = Inr r2" and "contract_ok c"
  shows "decode_reg_ranges (r1 @ r2) ac sc = Inr [(st_base c, st_base c + SPIN_TABLE_BYTES)]"
proof -
  note l1 = encode_cells_length [OF assms(1)] and l2 = encode_cells_length [OF assms(2)]
  have sum: "unat (ac + sc) = unat ac + unat sc" "checked_add ac sc = Some (ac + sc)"
    using l1 l2 by auto
  have page: "checked_add (st_base c) SPIN_TABLE_BYTES = Some (st_base c + SPIN_TABLE_BYTES)"
    using assms(3) unat_add_exact [of "st_base c" "0x1000"] by (simp add: contract_ok_def spin_table_consts)
  have "chunks_exact (unat (ac + sc) * 4) (r1 @ r2) = [r1 @ r2]"
    using chunks_exact_append [of "r1 @ r2" "unat (ac + sc) * 4" "[]"] l1 l2 sum by fastforce
  moreover have "decode_reg_tuple ac (r1 @ r2) = Inr [(st_base c, st_base c + SPIN_TABLE_BYTES)]"
    using l1 page decode_encode_cells [OF assms(1)] decode_encode_cells [OF assms(2)]
    by (simp add: decode_reg_tuple_def SPIN_TABLE_BYTES_def Let_def del: checked_add_Some)
  ultimately show ?thesis
    using l1 l2 sum(2) by (auto simp: decode_reg_ranges_def checked_mul_usize_def usize_limit_def simp del: checked_add_Some)
qed

lemma parking_node_ok:
  assumes "parking_node c ac sc = Inr n" and "contract_ok c"
  shows "nname n = parking_name c" "nchildren n = []" "node_wf 2 n" "enabled n" "compatible n SPIN_TABLE_COMPAT"
    "get_prop n (bytes_of ''no-map'') = Some []" "get_prop n (bytes_of ''reusable'') = None"
    "\<exists>reg. get_prop n PROP_REG = Some reg \<and> decode_reg_ranges reg ac sc = Inr [(st_base c, st_base c + SPIN_TABLE_BYTES)]"
    "\<not> is_psci n" "\<not> psci_state_node n"
proof -
  obtain r1 r2 where r: "encode_cells (st_base c) ac = Inr r1" "encode_cells SPIN_TABLE_BYTES sc = Inr r2"
    and n: "n = set_prop (set_prop (set_prop (node_new (parking_name c))
            (bytes_of ''compatible'') (SPIN_TABLE_COMPAT @ [0])) (bytes_of ''no-map'') []) PROP_REG (r1 @ r2)"
    using assms(1) by (auto simp: parking_node_def)
  have props: "get_prop n k = (if k = PROP_REG then Some (r1 @ r2) else if k = bytes_of ''no-map'' then Some []
      else if k = bytes_of ''compatible'' then Some (SPIN_TABLE_COMPAT @ [0]) else None)" for k
    by (simp add: n node_new_def get_prop_def [of "Node _ [] []"])
  show "nname n = parking_name c" "nchildren n = []" by (simp_all add: n node_new_def)
  have "node_wf 2 (node_new (parking_name c))" using parking_name_no_nul by (simp add: node_new_def)
  then show "node_wf 2 n"
    unfolding n using encode_cells_length [OF r(1)] encode_cells_length [OF r(2)]
    by (intro set_prop_any_wf) (auto simp: bytes_of_def SPIN_TABLE_COMPAT_def)
  show "enabled n" "get_prop n (bytes_of ''no-map'') = Some []" "get_prop n (bytes_of ''reusable'') = None" "\<not> psci_state_node n"
    by (simp_all add: enabled_def psci_state_node_def props bytes_of_def)
  have split: "split_on 0 (SPIN_TABLE_COMPAT @ [0]) = [SPIN_TABLE_COMPAT, []]"
    by code_simp
  show "compatible n SPIN_TABLE_COMPAT" "\<not> is_psci n"
    by (simp_all add: compatible_def is_psci_def props split) (simp_all add: SPIN_TABLE_COMPAT_def bytes_of_def)
  show "\<exists>reg. get_prop n PROP_REG = Some reg \<and> decode_reg_ranges reg ac sc = Inr [(st_base c, st_base c + SPIN_TABLE_BYTES)]"
    using decode_parking_reg [OF r assms(2)] by (simp add: props)
qed

lemma child_with_update:
  assumes "\<And>x. nname (f x) = nname x"
  shows "child (with_children n (update_first (\<lambda>c. nname c = b) f (nchildren n))) k =
    (if k = b then map_option f (child n b) else child n k)"
  using find_update_first [OF assms, where a = k and b = b and xs = "nchildren n"] by (simp add: child_def)

lemma update_child_wf:
  assumes "node_wf d n" and "\<And>x. nname (f x) = nname x"
    and "\<And>r. r \<in> set (nchildren n) \<Longrightarrow> nname r = b \<Longrightarrow> node_wf (Suc d) (f r)"
  shows "node_wf d (with_children n (update_first (\<lambda>c. nname c = b) f (nchildren n)))"
proof (rule with_children_wf [OF assms(1)])
  show "distinct (map nname (update_first (\<lambda>c. nname c = b) f (nchildren n)))"
    using assms(1,2) by (simp add: map_nname_update_first node_wf_iff [of d])
  show "\<forall>c \<in> set (update_first (\<lambda>c. nname c = b) f (nchildren n)). node_wf (Suc d) c"
    using assms(1,3) by (auto simp: node_wf_iff [of d n] dest!: in_update_first)
qed

lemma reserved_cells_edit:
  assumes "nprops root' = nprops root" and "nprops r' = nprops r"
  shows "reserved_cells root' r' = reserved_cells root r"
proof -
  have "get_prop root' = get_prop root" "get_prop r' = get_prop r" using assms by (simp_all add: get_prop_def fun_eq_iff)
  then have "cells root' = cells root" "cells r' = cells r" "enabled r' = enabled r" "get_prop r' = get_prop r"
    by (simp_all add: cells_def enabled_def fun_eq_iff)
  then show ?thesis by (simp only: reserved_cells_def)
qed

lemma graft_parking_ok:
  assumes wf: "node_wf 0 root" and ok: "contract_ok c" and run: "graft_parking_reservation root c = Inr out"
  shows "node_wf 0 out" and "same_but reserved_name root out" and "page_reserved c out"
proof -
  obtain r1 ac sc already where root: "parking_root root = Inr r1"
    and cells: "reserved_cells r1 (the (child r1 reserved_name)) = Inr (ac, sc)"
    and fold: "fold_io (parking_step c ac sc) False (nchildren (the (child r1 reserved_name))) = Inr already"
    and rest: "(if already then Inr r1 else bind_io (parking_node c ac sc) (\<lambda>n. Inr (with_children r1
              (update_first (\<lambda>c. nname c = reserved_name) (\<lambda>r. push_child r n) (nchildren r1))))) = Inr out"
    using run unfolding graft_parking_reservation_def by (auto simp del: if_split_asm)
  obtain r where r: "node_wf 0 r1" "same_but reserved_name root r1" "child r1 reserved_name = Some r"
    using parking_root_ok [OF wf root] by metis
  have "node_wf 0 out \<and> same_but reserved_name root out \<and> page_reserved c out"
  proof (cases already)
    case True
    then show ?thesis
      using parking_steps_Inr(3) [OF fold True] rest r cells unfolding page_reserved_def by fastforce
  next
    case False
    then obtain n where n: "parking_node c ac sc = Inr n"
      and out: "out = with_children r1 (update_first (\<lambda>c. nname c = reserved_name) (\<lambda>r. push_child r n) (nchildren r1))"
      using rest by auto
    note pn = parking_node_ok [OF n ok]
    have fresh: "parking_name c \<notin> nname ` set (nchildren r)" using parking_steps_Inr(2) [OF fold False] r(3) by simp
    have r': "node_wf (Suc 0) r" using r(1) child_Some [OF r(3)] by (auto simp: node_wf_iff [of 0])
    have wf': "node_wf (Suc 0) (push_child r n)"
      using r' fresh pn(1,3) by (auto simp: node_wf_iff [of "Suc 0"] numeral_2_eq_2)
    have at: "child out k = (if k = reserved_name then Some (push_child r n) else child r1 k)" for k
      unfolding out using child_with_update [of "\<lambda>r. push_child r n" r1 reserved_name k] r(3) by simp
    have "node_wf 0 out"
      unfolding out
    proof (rule update_child_wf [OF r(1)])
      fix q assume "q \<in> set (nchildren r1)" "nname q = reserved_name"
      then have "q = r" using child_in [OF r(1)] r(3) by fastforce
      then show "node_wf (Suc 0) (push_child q n)" using wf' by simp
    qed simp
    moreover have "same_but reserved_name root out"
      using r(2) by (simp add: same_but_def at) (simp add: out)
    moreover have "reserved_cells out (push_child r n) = Inr (ac, sc)"
      using cells reserved_cells_edit [of out r1 "push_child r n" r] r(3) by (simp add: out)
    ultimately show ?thesis
      using pn(4-8) at [of reserved_name] unfolding page_reserved_def by fastforce
  qed
  then show "node_wf 0 out" and "same_but reserved_name root out" and "page_reserved c out" by auto
qed

section \<open>The CPUs\<close>

definition is_cpu :: "node \<Rightarrow> bool" where
  "is_cpu n \<longleftrightarrow> enabled n \<and> get_prop n (bytes_of ''device_type'') = Some (zstr ''cpu'')"

text \<open>\<open>has_mpidr n m\<close>: the node's \<open>reg\<close> is the MPIDR \<open>m\<close>.\<close>

definition has_mpidr :: "node \<Rightarrow> u64 \<Rightarrow> bool" where
  "has_mpidr n m \<longleftrightarrow> (\<exists>reg. get_prop n PROP_REG = Some reg \<and> decode_cells reg = m)"

lemma cpu_step_Inr:
  assumes "cpu_step ac acc (i, n) = Inr res"
  shows "set acc \<subseteq> set res" and "is_cpu n \<Longrightarrow> \<exists>m. (m, i) \<in> set res"
    and "(m, j) \<in> set res \<Longrightarrow> (m, j) \<in> set acc \<or> j = i \<and> has_mpidr n m"
proof -
  show "set acc \<subseteq> set res" "is_cpu n \<Longrightarrow> \<exists>m. (m, i) \<in> set res"
      "(m, j) \<in> set res \<Longrightarrow> (m, j) \<in> set acc \<or> j = i \<and> has_mpidr n m"
    using assms by (auto simp: cpu_step_def is_cpu_def has_mpidr_def Let_def set_insort_key split: if_split_asm)
qed

lemma cpu_steps_Inr:
  assumes "fold_io (cpu_step ac) acc ins = Inr res"
  shows "set acc \<subseteq> set res \<and> (\<forall>(i, n) \<in> set ins. is_cpu n \<longrightarrow> (\<exists>m. (m, i) \<in> set res)) \<and>
    (\<forall>(m, j) \<in> set res. (m, j) \<in> set acc \<or> (\<exists>n. (j, n) \<in> set ins \<and> has_mpidr n m))"
  using assms
proof (induction ins arbitrary: acc)
  case (Cons a ins)
  obtain i n where a: "a = (i, n)" by force
  obtain acc' where acc': "cpu_step ac acc (i, n) = Inr acc'" "fold_io (cpu_step ac) acc' ins = Inr res"
    using Cons.prems a by auto
  show ?case using Cons.IH [OF acc'(2)] cpu_step_Inr [OF acc'(1)] unfolding a by fastforce
qed simp

lemma cpu_nodes_Inr:
  assumes "cpu_nodes root = Inr res"
  obtains cpus where "child root (bytes_of ''cpus'') = Some cpus"
    and "\<And>i. i < length (nchildren cpus) \<Longrightarrow> is_cpu (nchildren cpus ! i) \<Longrightarrow> \<exists>m. (m, i) \<in> set res"
    and "\<And>m i. (m, i) \<in> set res \<Longrightarrow> i < length (nchildren cpus) \<and> has_mpidr (nchildren cpus ! i) m"
proof -
  obtain cpus ac where c: "child root (bytes_of ''cpus'') = Some cpus"
    and f: "fold_io (cpu_step ac) [] (enumerate 0 (nchildren cpus)) = Inr res"
    using assms unfolding cpu_nodes_def by (auto split: if_split_asm)
  have mem: "(i, n) \<in> set (enumerate 0 (nchildren cpus)) \<longleftrightarrow> i < length (nchildren cpus) \<and> n = nchildren cpus ! i" for i n
    by (auto simp: in_set_enumerate_eq)
  note all = cpu_steps_Inr [OF f]
  show ?thesis
  proof (rule that [OF c])
    fix i assume "i < length (nchildren cpus)" "is_cpu (nchildren cpus ! i)"
    then show "\<exists>m. (m, i) \<in> set res" using all mem by blast
  next
    fix m i assume "(m, i) \<in> set res"
    then show "i < length (nchildren cpus) \<and> has_mpidr (nchildren cpus ! i) m" using all mem by fastforce
  qed
qed

lemma domains_loop_length:
  "domains_loop providers domains off retained keep = Inr (r, k) \<Longrightarrow> length retained \<le> off \<Longrightarrow> off \<le> length domains \<Longrightarrow>
   length r \<le> length domains"
proof (induction providers domains off retained keep rule: domains_loop.induct)
  case (1 providers domains off retained keep)
  show ?case
  proof (cases "off < length domains")
    case True
    then obtain ph pr where ph: "read_be32 domains off = Inr ph" "find (\<lambda>p. pd_phandle p = ph) providers = Some pr"
      using "1.prems"(1) by (subst (asm) domains_loop.simps) (auto split: option.splits)
    have go: "\<not> length domains - off < (unat (pd_cells pr) + 1) * 4"
      using "1.prems"(1) True ph by (subst (asm) domains_loop.simps) (auto simp: Let_def split: if_split_asm)
    let ?n = "(unat (pd_cells pr) + 1) * 4"
    let ?r = "if \<not> pd_psci pr then retained @ slice domains off (off + ?n) else retained"
    have "domains_loop providers domains (off + ?n) ?r (keep @ [\<not> pd_psci pr]) = Inr (r, k)"
      using "1.prems"(1) True ph go by (subst (asm) domains_loop.simps) (simp only: Let_def if_True if_False bind_io_simps option.case)
    moreover have "length ?r \<le> off + ?n" "off + ?n \<le> length domains" using "1.prems"(2) True go by auto
    ultimately show ?thesis using "1.IH" [OF True ph refl go] by blast
  next
    case False
    then show ?thesis using "1.prems" by (subst (asm) domains_loop.simps) simp
  qed
qed

lemma concat_kept_length:
  "length (concat (map (\<lambda>(name, keep). if keep then name @ [0] else []) (zip names ks))) \<le> sum_list (map (\<lambda>n. Suc (length n)) names)"
proof (induction names arbitrary: ks)
  case (Cons n names)
  show ?case
  proof (cases ks)
    case (Cons k ks')
    then show ?thesis using Cons.IH [of ks'] by simp
  qed simp
qed simp

lemma split_on_length: "sum_list (map (\<lambda>n. Suc (length n)) (split_on z xs)) = Suc (length xs)"
proof (induction xs)
  case (Cons x xs)
  then show ?case by (cases "split_on z xs") auto
qed simp

lemma remove_psci_cpu_domains_ok:
  assumes run: "remove_psci_cpu_domains cpu ps = Inr cpu'"
  shows "nname cpu' = nname cpu" and "nchildren cpu' = nchildren cpu"
    and "node_wf d cpu \<Longrightarrow> node_wf d cpu'"
    and "k \<noteq> bytes_of ''power-domains'' \<Longrightarrow> k \<noteq> bytes_of ''power-domain-names'' \<Longrightarrow> get_prop cpu' k = get_prop cpu k"
proof -
  let ?pd = "bytes_of ''power-domains''" and ?pn = "bytes_of ''power-domain-names''"
  have "cpu' = cpu \<or> cpu' = remove_prop (remove_prop cpu ?pd) ?pn \<or>
      (\<exists>r ds. get_prop cpu ?pd = Some ds \<and> length r \<le> length ds \<and>
         (cpu' = set_prop cpu ?pd r \<or>
          (\<exists>ns old. get_prop cpu ?pn = Some old \<and> length ns \<le> length old \<and> cpu' = set_prop (set_prop cpu ?pd r) ?pn ns)))"
  proof (cases "get_prop cpu ?pd")
    case None
    then show ?thesis using run by (simp add: remove_psci_cpu_domains_def)
  next
    case (Some ds)
    then obtain r ks where loop: "domains_loop ps ds 0 [] [] = Inr (r, ks)"
      using run by (auto simp: remove_psci_cpu_domains_def split: if_split_asm)
    have len: "length r \<le> length ds" using domains_loop_length [OF loop] by simp
    note run' = run [unfolded remove_psci_cpu_domains_def Some option.case loop bind_io_simps prod.case Let_def]
    show ?thesis
    proof (cases "get_prop cpu ?pn")
      case None
      then show ?thesis using run' Some len by (auto split: if_split_asm)
    next
      case n: (Some old)
      then obtain names where names: "old = names @ [0]"
        using run' by (cases "strip_suffix [0] old") (auto split: if_split_asm)
      then have ss: "strip_suffix [0] (names @ [0]) = Some names" by simp
      let ?ns = "concat (map (\<lambda>(name, keep). if keep then name @ [0] else []) (zip (split_on 0 names) ks))"
      have "cpu' = remove_prop (remove_prop cpu ?pd) ?pn \<or> cpu' = set_prop (set_prop cpu ?pd r) ?pn ?ns"
        using run' by (simp add: n names ss split: if_split_asm)
      moreover have "length ?ns \<le> length old"
        using concat_kept_length [of "split_on 0 names" ks] split_on_length [of 0 names] names by simp
      ultimately show ?thesis using Some len n by blast
    qed
  qed
  then show "nname cpu' = nname cpu" "nchildren cpu' = nchildren cpu"
      "k \<noteq> ?pd \<Longrightarrow> k \<noteq> ?pn \<Longrightarrow> get_prop cpu' k = get_prop cpu k"
    by auto
  show "node_wf d cpu'" if wf: "node_wf d cpu"
    using \<open>cpu' = cpu \<or> _\<close>
  proof (elim disjE exE conjE)
    fix r ds assume "get_prop cpu ?pd = Some ds" "length r \<le> length ds" "cpu' = set_prop cpu ?pd r"
    then show ?thesis using get_prop_wf [OF wf, of ?pd ds] wf by (auto intro!: set_prop_any_wf simp: bytes_of_def)
  next
    fix r ds ns old
    assume "get_prop cpu ?pd = Some ds" "length r \<le> length ds" "get_prop cpu ?pn = Some old" "length ns \<le> length old"
      "cpu' = set_prop (set_prop cpu ?pd r) ?pn ns"
    then show ?thesis
      using get_prop_wf [OF wf, of ?pd ds] get_prop_wf [OF wf, of ?pn old] wf by (auto intro!: set_prop_any_wf simp: bytes_of_def)
  qed (use wf in \<open>simp_all add: remove_prop_wf\<close>)
qed

text \<open>A CPU handed to the parking page: what the target kernel reads of it.\<close>

definition handed_over :: "spin_contract \<Rightarrow> node \<Rightarrow> bool" where
  "handed_over c n \<longleftrightarrow>
     (\<exists>m. has_mpidr n m \<and> get_prop n (bytes_of ''enable-method'') = Some (zstr ''spin-table'') \<and>
        get_prop n (bytes_of ''cpu-release-addr'') = Some (release_addr c m) \<and>
        get_prop n (bytes_of ''cpu-idle-states'') = None)"

lemma handoff_cpu_Inr:
  assumes run: "handoff_cpu c ps nodes (m, i) = Inr nodes'" and i: "i < length nodes" and m: "has_mpidr (nodes ! i) m"
  shows "length nodes' = length nodes" and "map nname nodes' = map nname nodes"
    and "handed_over c (nodes' ! i)" and "j \<noteq> i \<Longrightarrow> nodes' ! j = nodes ! j"
    and "has_mpidr (nodes' ! i) m'  \<longleftrightarrow> has_mpidr (nodes ! i) m'" and "is_cpu (nodes' ! i) \<longleftrightarrow> is_cpu (nodes ! i)"
    and "node_wf d (nodes ! i) \<Longrightarrow> node_wf d (nodes' ! i)"
proof -
  let ?cpu = "remove_prop (set_prop (set_prop (nodes ! i) (bytes_of ''enable-method'') (zstr ''spin-table''))
         (bytes_of ''cpu-release-addr'') (release_addr c m)) (bytes_of ''cpu-idle-states'')"
  obtain cpu where cpu: "remove_psci_cpu_domains ?cpu ps = Inr cpu" "nodes' = nodes[i := cpu]"
    using run by (auto simp: handoff_cpu_def Let_def)
  note same = remove_psci_cpu_domains_ok [OF cpu(1)]
  have name: "nname cpu = nname (nodes ! i)" using same(1) by simp
  show "length nodes' = length nodes" "j \<noteq> i \<Longrightarrow> nodes' ! j = nodes ! j" using cpu(2) by simp_all
  show "map nname nodes' = map nname nodes"
    using cpu(2) name i by (simp add: map_update list_update_same_conv)
  have props: "get_prop cpu PROP_REG = get_prop (nodes ! i) PROP_REG"
      "get_prop cpu (bytes_of ''device_type'') = get_prop (nodes ! i) (bytes_of ''device_type'')"
      "get_prop cpu PROP_STATUS = get_prop (nodes ! i) PROP_STATUS"
      "get_prop cpu (bytes_of ''enable-method'') = Some (zstr ''spin-table'')"
      "get_prop cpu (bytes_of ''cpu-release-addr'') = Some (release_addr c m)"
      "get_prop cpu (bytes_of ''cpu-idle-states'') = None"
    by (subst same(4); simp add: bytes_of_def)+
  show "handed_over c (nodes' ! i)" "has_mpidr (nodes' ! i) m' \<longleftrightarrow> has_mpidr (nodes ! i) m'" "is_cpu (nodes' ! i) \<longleftrightarrow> is_cpu (nodes ! i)"
    using props m i cpu(2) by (auto simp: handed_over_def has_mpidr_def is_cpu_def enabled_def)
  show "node_wf d (nodes' ! i)" if wf: "node_wf d (nodes ! i)"
  proof -
    have "node_wf d ?cpu" using wf by (intro remove_prop_wf set_prop_any_wf) (simp_all add: bytes_of_def release_addr_def)
    then show ?thesis using same(3) cpu(2) i by simp
  qed
qed

lemma handoff_cpus_Inr:
  assumes "fold_io (handoff_cpu c ps) nodes xs = Inr nodes'"
    and "\<And>m i. (m, i) \<in> set xs \<Longrightarrow> i < length nodes \<and> has_mpidr (nodes ! i) m"
    and "\<And>i. i < length nodes \<Longrightarrow> node_wf d (nodes ! i)"
  shows "map nname nodes' = map nname nodes \<and>
    (\<forall>i < length nodes. node_wf d (nodes' ! i) \<and> (is_cpu (nodes' ! i) \<longleftrightarrow> is_cpu (nodes ! i)) \<and>
       (handed_over c (nodes ! i) \<or> i \<in> snd ` set xs \<longrightarrow> handed_over c (nodes' ! i)))"
  using assms
proof (induction xs arbitrary: nodes)
  case (Cons x xs)
  obtain m i where x: "x = (m, i)" by force
  obtain n1 where n1: "handoff_cpu c ps nodes (m, i) = Inr n1" "fold_io (handoff_cpu c ps) n1 xs = Inr nodes'"
    using Cons.prems(1) x by auto
  have i: "i < length nodes" "has_mpidr (nodes ! i) m" using Cons.prems(2) x by auto
  note step = handoff_cpu_Inr [OF n1(1) i]
  have mp: "has_mpidr (n1 ! j) m' \<longleftrightarrow> has_mpidr (nodes ! j) m'" for j m' using step(4) [of j] step(5) [of m'] by (cases "j = i") auto
  have hyp: "\<And>m i. (m, i) \<in> set xs \<Longrightarrow> i < length n1 \<and> has_mpidr (n1 ! i) m"
    using Cons.prems(2) mp step(1) by auto
  have wf: "\<And>j. j < length n1 \<Longrightarrow> node_wf d (n1 ! j)"
    using Cons.prems(3) step(1,4,7) by metis
  note IH = Cons.IH [OF n1(2) hyp wf]
  have cpu: "is_cpu (n1 ! j) \<longleftrightarrow> is_cpu (nodes ! j)" for j using step(4,6) by (cases "j = i") auto
  have ho: "handed_over c (nodes ! j) \<or> j = i \<Longrightarrow> handed_over c (n1 ! j)" for j using step(3,4) by (cases "j = i") auto
  show ?case
  proof (intro conjI allI impI)
    fix j assume j: "j < length nodes" and h: "handed_over c (nodes ! j) \<or> j \<in> snd ` set (x # xs)"
    then show "handed_over c (nodes' ! j)" using IH ho [of j] step(1) x by auto
  qed (use IH step(1,2) cpu in auto)
qed simp

section \<open>Disabling PSCI\<close>

text \<open>No enabled PSCI node, and no PSCI idle state, in the tree.\<close>

fun no_psci :: "node \<Rightarrow> bool" where
  "no_psci (Node name ps cs) \<longleftrightarrow>
     (is_psci (Node name ps cs) \<longrightarrow> \<not> enabled (Node name ps cs)) \<and>
     (\<forall>c \<in> set cs. \<not> psci_state_node c \<and> no_psci c)"

lemma no_psci_iff: "no_psci n \<longleftrightarrow> (is_psci n \<longrightarrow> \<not> enabled n) \<and> (\<forall>c \<in> set (nchildren n). \<not> psci_state_node c \<and> no_psci c)"
  by (cases n) simp

lemma get_prop_cong: "nprops a = nprops b \<Longrightarrow> get_prop a k = get_prop b k"
  by (simp add: get_prop_def)

lemma node_cong:
  assumes "nprops a = nprops b"
  shows "enabled a = enabled b" "is_psci a = is_psci b" "psci_state_node a = psci_state_node b" "is_cpu a = is_cpu b"
    "handed_over c a = handed_over c b"
  using get_prop_cong [OF assms]
  by (simp_all add: enabled_def is_psci_def compatible_def psci_state_node_def is_cpu_def handed_over_def has_mpidr_def)

lemma disable_psci_props:
  "nname (disable_psci n) = nname n"
  "nprops (disable_psci n) = (if is_psci n then nprops (set_prop n PROP_STATUS (zstr ''disabled'')) else nprops n)"
  "nchildren (disable_psci n) = disable_psci_children (nchildren n)"
  by (cases n; simp add: Let_def)+

lemma set_disable_psci_children: "set (disable_psci_children cs) = disable_psci ` {c \<in> set cs. \<not> psci_state_node c}"
  by (induction cs) auto

lemma nname_disable_psci_children: "map nname (disable_psci_children cs) = map nname (filter (\<lambda>c. \<not> psci_state_node c) cs)"
  by (induction cs) (simp_all add: disable_psci_props)

lemma disable_psci_is:
  "enabled (disable_psci n) \<Longrightarrow> nprops (disable_psci n) = nprops n \<and> \<not> is_psci n"
proof -
  have "\<not> enabled (disable_psci n)" if "is_psci n"
  proof -
    have "get_prop (disable_psci n) PROP_STATUS = Some (zstr ''disabled'')"
      using that get_prop_cong [of "disable_psci n" "set_prop n PROP_STATUS (zstr ''disabled'')" PROP_STATUS]
      by (simp add: disable_psci_props)
    moreover have "\<not> property_status_enabled (zstr ''disabled'')" by code_simp
    ultimately show ?thesis by (simp add: enabled_def)
  qed
  then show "enabled (disable_psci n) \<Longrightarrow> nprops (disable_psci n) = nprops n \<and> \<not> is_psci n"
    by (auto simp: disable_psci_props)
qed

lemma disable_psci_ok:
  "node_wf d n \<Longrightarrow> node_wf d (disable_psci n)" "no_psci (disable_psci n)"
proof (induction n arbitrary: d)
  case (Node name ps cs)
  let ?n = "Node name ps cs"
  {
    case 1
    have wf: "node_wf d (if is_psci ?n then set_prop ?n PROP_STATUS (zstr ''disabled'') else ?n)"
      using 1 by (auto intro!: set_prop_any_wf simp del: node_wf.simps simp: bytes_of_def)
    have kids: "\<forall>c \<in> set (disable_psci_children cs). node_wf (Suc d) c"
      using 1 Node(1) by (auto simp: set_disable_psci_children)
    have "distinct (map nname cs)" using 1 by simp
    then have names: "distinct (map nname (disable_psci_children cs))"
      by (simp only: nname_disable_psci_children distinct_map_filter)
    show ?case using with_children_wf [OF wf names kids] by (simp add: Let_def)
  next
    case 2
    have "psci_state_node (disable_psci c) = psci_state_node c" for c
      using node_cong(3) [of "disable_psci c" c]
      by (cases "is_psci c") (auto simp: psci_state_node_def disable_psci_props get_prop_cong [of "disable_psci c" "set_prop c PROP_STATUS (zstr ''disabled'')"] bytes_of_def)
    then have "\<forall>c \<in> set (disable_psci_children cs). \<not> psci_state_node c \<and> no_psci c"
      using Node(2) by (auto simp: set_disable_psci_children)
    moreover have "is_psci (disable_psci ?n) \<Longrightarrow> \<not> enabled (disable_psci ?n)"
      using disable_psci_is [of ?n] node_cong(2) [of "disable_psci ?n" ?n] by blast
    ultimately show ?case unfolding no_psci_iff [of "disable_psci ?n"] disable_psci_props(3) by simp
  }
qed

lemma no_psci_push:
  assumes "no_psci q" and "no_psci n" and "\<not> psci_state_node n"
  shows "no_psci (push_child q n)"
  using assms node_cong [of "push_child q n" q] by (auto simp: no_psci_iff [of q] no_psci_iff [of "push_child q n"])

lemma graft_parking_no_psci:
  assumes "node_wf 0 root" and "contract_ok c" and run: "graft_parking_reservation root c = Inr out" and np: "no_psci root"
  shows "no_psci out"
proof -
  obtain r1 ac sc already where root: "parking_root root = Inr r1"
    and rest: "(if already then Inr r1 else bind_io (parking_node c ac sc) (\<lambda>n. Inr (with_children r1
              (update_first (\<lambda>c. nname c = reserved_name) (\<lambda>r. push_child r n) (nchildren r1))))) = Inr out"
    using run unfolding graft_parking_reservation_def by (auto simp del: if_split_asm)
  obtain r where r: "same_but reserved_name root r1"
    "\<And>n. n \<in> set (nchildren r1) \<Longrightarrow> n \<in> set (nchildren root) \<or> n = r \<and> nchildren r = []
            \<and> get_prop r (bytes_of ''compatible'') = None \<and> \<not> psci_state_node r"
    by (rule parking_root_ok [OF assms(1) root]) (rule that, assumption+)
  have "\<not> psci_state_node n \<and> no_psci n" if "n \<in> set (nchildren r1)" for n
    using r(2) [OF that] np by (auto simp: no_psci_iff [of root] no_psci_iff [of n] is_psci_def compatible_def)
  then have np1: "no_psci r1"
    using np node_cong [of r1 root] r(1) by (auto simp: no_psci_iff [of root] no_psci_iff [of r1] same_but_def)
  show ?thesis
  proof (cases already)
    case True
    then show ?thesis using rest np1 by simp
  next
    case False
    then obtain n where n: "parking_node c ac sc = Inr n"
      and out: "out = with_children r1 (update_first (\<lambda>c. nname c = reserved_name) (\<lambda>r. push_child r n) (nchildren r1))"
      using rest by auto
    have n': "no_psci n" "\<not> psci_state_node n" using parking_node_ok [OF n assms(2)] by (auto simp: no_psci_iff [of n])
    have kids: "\<not> psci_state_node x \<and> no_psci x" if "x \<in> set (nchildren out)" for x
      using that np1 no_psci_push [OF _ n'] node_cong(3) [of "push_child q n" q for q]
      by (auto simp: out no_psci_iff [of r1] dest!: in_update_first)
    have "nprops out = nprops r1" by (simp add: out)
    from node_cong(1,2) [OF this] show ?thesis
      using np1 kids unfolding no_psci_iff [of out] no_psci_iff [of r1] by simp
  qed
qed

section \<open>The hand-over\<close>

definition cpus_parked :: "spin_contract \<Rightarrow> node \<Rightarrow> bool" where
  "cpus_parked c root \<longleftrightarrow>
     (\<forall>cpus. child root (bytes_of ''cpus'') = Some cpus \<longrightarrow> (\<forall>n \<in> set (nchildren cpus). is_cpu n \<longrightarrow> handed_over c n))"

lemma child_disable_psci:
  assumes "node_wf d n" and "child (disable_psci n) k = Some c2"
  obtains q where "child n k = Some q" and "c2 = disable_psci q"
proof -
  obtain q where q: "q \<in> set (nchildren n)" "c2 = disable_psci q" "nname c2 = k"
    using child_Some [OF assms(2)] by (auto simp: disable_psci_props set_disable_psci_children)
  then show ?thesis using that child_in [OF assms(1) q(1)] by (simp add: disable_psci_props)
qed

lemma handoff_tree:
  assumes wf: "node_wf 0 t" and cpu: "cpu_nodes t = Inr tcpus" and ok: "contract_ok c"
    and fold: "fold_io (handoff_cpu c ps) (nchildren (the (child t (bytes_of ''cpus'')))) tcpus = Inr cpus"
    and graft: "graft_parking_reservation (disable_psci (with_children t
        (update_first (\<lambda>c. nname c = bytes_of ''cpus'') (\<lambda>c. with_children c cpus) (nchildren t)))) c = Inr t3"
  shows "node_wf 0 t3" and "nname t3 = nname t" and "cpus_parked c t3" and "no_psci t3" and "page_reserved c t3"
proof -
  define t1 where "t1 = with_children t (update_first (\<lambda>c. nname c = bytes_of ''cpus'') (\<lambda>c. with_children c cpus) (nchildren t))"
  obtain cp where cp: "child t (bytes_of ''cpus'') = Some cp"
    and live: "\<And>i. i < length (nchildren cp) \<Longrightarrow> is_cpu (nchildren cp ! i) \<Longrightarrow> \<exists>m. (m, i) \<in> set tcpus"
    and ids: "\<And>m i. (m, i) \<in> set tcpus \<Longrightarrow> i < length (nchildren cp) \<and> has_mpidr (nchildren cp ! i) m"
    using cpu_nodes_Inr [OF cpu] by metis
  have wfc: "node_wf (Suc 0) cp" using wf child_Some [OF cp] by (auto simp: node_wf_iff [of 0])
  have fold': "fold_io (handoff_cpu c ps) (nchildren cp) tcpus = Inr cpus" using fold cp by simp
  have "\<And>i. i < length (nchildren cp) \<Longrightarrow> node_wf (Suc (Suc 0)) (nchildren cp ! i)"
    using wfc by (simp add: node_wf_iff [of "Suc 0"])
  note ho = handoff_cpus_Inr [OF fold' ids this]
  have len: "length cpus = length (nchildren cp)" using ho map_eq_imp_length_eq by blast
  have parked: "handed_over c n" if "n \<in> set cpus" "is_cpu n" for n
    using that ho live len by (force simp: in_set_conv_nth)
  have wfcp: "node_wf (Suc 0) (with_children cp cpus)"
  proof (rule with_children_wf [OF wfc])
    show "distinct (map nname cpus)" using ho wfc by (simp add: node_wf_iff [of "Suc 0"])
    show "\<forall>c \<in> set cpus. node_wf (Suc (Suc 0)) c" using ho len by (auto simp: in_set_conv_nth)
  qed
  have wf1: "node_wf 0 t1"
    unfolding t1_def
  proof (rule update_child_wf [OF wf])
    fix r assume "r \<in> set (nchildren t)" "nname r = bytes_of ''cpus''"
    then have "r = cp" using child_in [OF wf] cp by fastforce
    then show "node_wf (Suc 0) (with_children r cpus)" using wfcp by simp
  qed simp
  have at1: "child t1 (bytes_of ''cpus'') = Some (with_children cp cpus)"
    using child_with_update [of "\<lambda>c. with_children c cpus" t "bytes_of ''cpus''" "bytes_of ''cpus''"] cp by (simp add: t1_def)
  note wf2 = disable_psci_ok(1) [OF wf1] and np2 = disable_psci_ok(2) [of t1]
  note g = graft_parking_ok [OF wf2 ok graft [folded t1_def]]
  show "node_wf 0 t3" "page_reserved c t3" by (rule g)+
  show "no_psci t3" by (rule graft_parking_no_psci [OF wf2 ok graft [folded t1_def] np2])
  show "nname t3 = nname t" using g(2) by (simp add: same_but_def disable_psci_props t1_def)
  show "cpus_parked c t3"
    unfolding cpus_parked_def
  proof (intro allI impI ballI)
    fix c3 n assume c3: "child t3 (bytes_of ''cpus'') = Some c3" and n: "n \<in> set (nchildren c3)" "is_cpu n"
    have "child (disable_psci t1) (bytes_of ''cpus'') = Some c3"
      using c3 g(2) by (simp add: same_but_def bytes_of_def)
    then have "c3 = disable_psci (with_children cp cpus)" using child_disable_psci [OF wf1] at1 by (metis option.inject)
    then obtain n1 where n1: "n1 \<in> set cpus" "n = disable_psci n1"
      using n by (auto simp: disable_psci_props set_disable_psci_children)
    have "nprops n = nprops n1" using disable_psci_is [of n1] n(2) n1(2) by (auto simp: is_cpu_def)
    then show "handed_over c n" using parked [OF n1(1)] n(2) node_cong [of n n1] by simp
  qed
qed

lemma reserve_map_ranges_entries:
  assumes "fdt_header_parse dtb = Inr h" and "reserve_map_ranges dtb h = Inr rs"
  obtains es where "reserve_map dtb h = Inr (enc_rsv es)" and "rs = entry_ranges es"
  using reserve_map_ranges_loop_entries [of dtb "totalsize h" "off_mem_rsvmap h" "[]" rs "[]"] assms(2)
    fdt_header_parse_bounds(1) [OF assms(1)] by (auto simp: reserve_map_ranges_def reserve_map_def)

lemma parking_reserve_steps:
  assumes "fold_io (\<lambda>already (s, existing_end).
        if s < page_end \<and> base < existing_end then
          (if (s, existing_end) \<noteq> (base, page_end) then invalid_data msg else Inr True)
        else Inr already) a rs = Inr True"
  shows "a \<or> (base, page_end :: u64) \<in> set rs"
  using assms
proof (induction rs arbitrary: a)
  case (Cons r rs)
  obtain s e where r: "r = (s, e)" by force
  show ?case
  proof (cases "s < page_end \<and> base < e")
    case True
    then show ?thesis using Cons.prems by (cases "r = (base, page_end)") (auto simp: r)
  next
    case False
    have "fold_io (\<lambda>already (s, existing_end).
        if s < page_end \<and> base < existing_end then
          (if (s, existing_end) \<noteq> (base, page_end) then invalid_data msg else Inr True)
        else Inr already) a rs = Inr True"
      using Cons.prems by (simp only: r fold_io.simps prod.case False if_False bind_io_simps)
    then show ?thesis using Cons.IH by auto
  qed
qed simp

lemma validate_parking_reserved:
  assumes "fdt_header_parse dtb = Inr h" and "validate_parking_reserve_map dtb c = Inr True"
    and "reserve_map dtb h = Inr rm"
  obtains es where "rm = enc_rsv es" and "(st_base c, SPIN_TABLE_BYTES) \<in> set es"
proof -
  obtain rs where rs: "reserve_map_ranges dtb h = Inr rs"
    and fold: "fold_io (\<lambda>already (s, existing_end).
        if s < st_base c + SPIN_TABLE_BYTES \<and> st_base c < existing_end then
          (if (s, existing_end) \<noteq> (st_base c, st_base c + SPIN_TABLE_BYTES)
           then invalid_data ''DTB reserve map overlaps the spin-table page'' else Inr True)
        else Inr already) False rs = Inr True"
    using assms(1,2) by (auto simp: validate_parking_reserve_map_def Let_def simp del: if_split_asm)
  obtain es where es: "reserve_map dtb h = Inr (enc_rsv es)" "rs = entry_ranges es"
    using reserve_map_ranges_entries [OF assms(1) rs] by metis
  have "(st_base c, st_base c + SPIN_TABLE_BYTES) \<in> set (entry_ranges es)"
    using parking_reserve_steps [OF fold] es(2) by simp
  then obtain l where "(st_base c, l) \<in> set es" "st_base c + l = st_base c + SPIN_TABLE_BYTES"
    by (auto simp: entry_ranges_def)
  then show ?thesis using that [of es] es(1) assms(3) by simp
qed

lemma enc_rsv_append: "take (length (enc_rsv es) - 16) (enc_rsv es) @ enc_rsv_entry e @ replicate 16 0 = enc_rsv (es @ [e])"
  by (simp add: enc_rsv_def)

lemma enc_rsv_inj: "enc_rsv xs = enc_rsv ys \<Longrightarrow> xs = ys"
proof -
  have entry: "enc_rsv_entry a @ us = enc_rsv_entry b @ vs \<longleftrightarrow> a = b \<and> us = vs" for a b us vs
  proof -
    have "enc_rsv_entry a = enc_rsv_entry b \<Longrightarrow> a = b" by (metis rsv_entry_decode prod_eqI)
    then show ?thesis by (auto simp: append_eq_append_conv)
  qed
  assume eq: "enc_rsv xs = enc_rsv ys"
  then have "length xs = length ys" using arg_cong [OF eq, of length] unfolding length_enc_rsv by linarith
  then show "xs = ys" using eq
    by (induction xs ys rule: list_induct2) (simp_all add: enc_rsv_Cons entry)
qed

lemma if_invalid_Inr: "(if b then invalid_data m else x) = Inr y \<longleftrightarrow> \<not> b \<and> x = Inr y"
  by simp

lemma graft_spin_table_Some:
  assumes "contract_tree live_dtb = Inr live" and "spin_table_contract live = Inr (Some c)"
    and "graft_spin_table dtb live_dtb = Inr out"
  obtains h t tcpus ps cpus t3 rm already where
    "contract_tree dtb = Inr t" "cpu_nodes t = Inr tcpus"
    "fold_io (handoff_cpu c ps) (nchildren (the (child t (bytes_of ''cpus'')))) tcpus = Inr cpus"
    "graft_parking_reservation (disable_psci (with_children t
        (update_first (\<lambda>c. nname c = bytes_of ''cpus'') (\<lambda>c. with_children c cpus) (nchildren t)))) c = Inr t3"
    "fdt_header_parse dtb = Inr h" "reserve_map dtb h = Inr rm" "validate_parking_reserve_map dtb c = Inr already"
    "build_contract_tree dtb t3 (if \<not> already then take (length rm - 16) rm @ to_be_bytes 8 (st_base c) @
         to_be_bytes 8 SPIN_TABLE_BYTES @ replicate 16 0 else rm) = Inr out"
proof -
  note run = assms(3) [unfolded graft_spin_table_def assms(1,2) Let_def bind_io_simps option.case bind_io_eq_Inr if_invalid_Inr]
  from run show ?thesis by (elim exE conjE) (rule that)
qed

lemma graft_spin_table_result:
  assumes "contract_tree live_dtb = Inr live" and "spin_table_contract live = Inr (Some c)"
    and "graft_spin_table dtb live_dtb = Inr out"
  shows "\<exists>root h es. contract_tree out = Inr root \<and> cpus_parked c root \<and> no_psci root \<and> page_reserved c root \<and>
     fdt_header_parse out = Inr h \<and> reserve_map out h = Inr (enc_rsv es) \<and> (st_base c, SPIN_TABLE_BYTES) \<in> set es"
proof -
  note ok = spin_table_contract_ok [OF assms(2)]
  obtain h t tcpus ps cpus t3 rm already where t: "contract_tree dtb = Inr t" "cpu_nodes t = Inr tcpus"
    "fold_io (handoff_cpu c ps) (nchildren (the (child t (bytes_of ''cpus'')))) tcpus = Inr cpus"
    "graft_parking_reservation (disable_psci (with_children t
        (update_first (\<lambda>c. nname c = bytes_of ''cpus'') (\<lambda>c. with_children c cpus) (nchildren t)))) c = Inr t3"
    and rm: "fdt_header_parse dtb = Inr h" "reserve_map dtb h = Inr rm" "validate_parking_reserve_map dtb c = Inr already"
    and out: "build_contract_tree dtb t3 (if \<not> already then take (length rm - 16) rm @ to_be_bytes 8 (st_base c) @
         to_be_bytes 8 SPIN_TABLE_BYTES @ replicate 16 0 else rm) = Inr out"
    using graft_spin_table_Some [OF assms] by metis
  have wf: "node_wf 0 t" "nname t = []"
    using contract_tree_block [OF t(1)] by (auto simp: tree_block_def)
  note tree = handoff_tree [OF wf(1) t(2) ok t(3,4)]
  obtain es0 where es0: "rm = enc_rsv es0" "\<forall>e \<in> set es0. e \<noteq> (0, 0)"
    using reserve_map_shape [OF rm(1,2)] by blast
  obtain es where es: "(if \<not> already then take (length rm - 16) rm @ to_be_bytes 8 (st_base c) @
         to_be_bytes 8 SPIN_TABLE_BYTES @ replicate 16 0 else rm) = enc_rsv es"
      "\<forall>e \<in> set es. e \<noteq> (0, 0)" "(st_base c, SPIN_TABLE_BYTES) \<in> set es"
  proof (cases already)
    case True
    then obtain es1 where "rm = enc_rsv es1" "(st_base c, SPIN_TABLE_BYTES) \<in> set es1"
      using validate_parking_reserved [OF rm(1) _ rm(2)] rm(3) by metis
    moreover obtain es2 where "rm = enc_rsv es2" "\<forall>e \<in> set es2. e \<noteq> (0, 0)" using es0 by blast
    ultimately show ?thesis using that [of es1] True enc_rsv_inj by auto
  next
    case False
    then show ?thesis
      using that [of "es0 @ [(st_base c, SPIN_TABLE_BYTES)]"] es0 ok enc_rsv_append [of es0 "(st_base c, SPIN_TABLE_BYTES)"]
      by (auto simp: enc_rsv_entry_def SPIN_TABLE_BYTES_def)
  qed
  show ?thesis
    using build_contract_tree_parses [OF out [unfolded es(1)] tree(1) _ es(2)] tree wf(2) es(3) by auto
qed

text \<open>C12: When the live tree has spin-table CPUs with an owned parking page, the blob that
  \<open>graft_spin_table\<close> returns parses as a tree in which every enabled CPU is released through the page at the
  slot of its MPIDR, no PSCI node is enabled and no PSCI idle state is left, and in which the page is
  reserved twice: by an enabled no-map child of \<open>/reserved-memory\<close> and by an entry of the memory reserve map.\<close>

theorem spin_table_handoff:
  assumes "contract_tree live_dtb = Inr live" and "spin_table_contract live = Inr (Some c)"
    and "graft_spin_table dtb live_dtb = Inr out"
  shows "\<exists>root h es. contract_tree out = Inr root \<and> cpus_parked c root \<and> no_psci root \<and> page_reserved c root \<and>
     fdt_header_parse out = Inr h \<and> reserve_map out h = Inr (enc_rsv es) \<and> (st_base c, SPIN_TABLE_BYTES) \<in> set es"
  by (rule graft_spin_table_result [OF assms])

section \<open>CPU power domains\<close>

text \<open>A \<open>power-domains\<close> value as its list of provider tuples.\<close>

definition domain_tuples :: "power_domain_provider list \<Rightarrow> (power_domain_provider \<times> bytes) list \<Rightarrow> bool" where
  "domain_tuples ps ts \<longleftrightarrow>
     (\<forall>(p, t) \<in> set ts. length t = (unat (pd_cells p) + 1) * 4 \<and>
        find (\<lambda>q. pd_phandle q = from_be_bytes (take 4 t)) ps = Some p)"

lemma domains_loop_tuples:
  "domain_tuples ps ts \<Longrightarrow> length pre + length (concat (map snd ts)) < usize_limit \<Longrightarrow>
   domains_loop ps (pre @ concat (map snd ts)) (length pre) r ks =
   Inr (r @ concat (map snd (filter (\<lambda>t. \<not> pd_psci (fst t)) ts)), ks @ map (\<lambda>t. \<not> pd_psci (fst t)) ts)"
proof (induction ts arbitrary: pre r ks)
  case Nil
  then show ?case by (subst domains_loop.simps) simp
next
  case (Cons pt ts)
  obtain p t where pt: "pt = (p, t)" by force
  have t: "length t = (unat (pd_cells p) + 1) * 4" "find (\<lambda>q. pd_phandle q = from_be_bytes (take 4 t)) ps = Some p"
    and rest: "domain_tuples ps ts"
    using Cons.prems(1) by (auto simp: domain_tuples_def pt)
  let ?d = "pre @ t @ concat (map snd ts)"
  have d: "pre @ concat (map snd (pt # ts)) = ?d" by (simp add: pt)
  have four: "slice ?d (length pre) (length pre + 4) = take 4 t" using t(1) by (simp add: slice_def pt)
  then have ph: "read_be32 ?d (length pre) = Inr (from_be_bytes (take 4 t))"
    using t(1) Cons.prems(2) by (simp add: read_be32_def pt)
  have tup: "slice ?d (length pre) (length pre + length t) = t" by (simp add: slice_def pt)
  have "domains_loop ps ?d (length pre) r ks =
      domains_loop ps ((pre @ t) @ concat (map snd ts)) (length (pre @ t)) (if \<not> pd_psci p then r @ t else r) (ks @ [\<not> pd_psci p])"
  proof -
    have "length pre < length ?d" "\<not> length ?d - length pre < length t" using t(1) by (simp_all add: pt)
    then show ?thesis
      by (subst domains_loop.simps)
        (simp only: if_True if_False ph bind_io_simps t(2) option.case Let_def t(1) [symmetric] tup append_assoc length_append)
  qed
  also have "\<dots> = Inr ((if \<not> pd_psci p then r @ t else r) @ concat (map snd (filter (\<lambda>t. \<not> pd_psci (fst t)) ts)),
      (ks @ [\<not> pd_psci p]) @ map (\<lambda>t. \<not> pd_psci (fst t)) ts)"
    using Cons.prems(2) by (intro Cons.IH [OF rest]) (simp add: pt)
  finally show ?case unfolding d by (simp add: pt)
qed

lemma split_on_joined:
  "names \<noteq> [] \<Longrightarrow> \<forall>n \<in> set names. z \<notin> set n \<Longrightarrow>
   \<exists>s. concat (map (\<lambda>n. n @ [z]) names) = s @ [z] \<and> split_on z s = names"
proof (induction names)
  case (Cons n names)
  show ?case
  proof (cases "names = []")
    case True
    then show ?thesis using Cons.prems by (simp add: split_on_no_sep)
  next
    case False
    then obtain s where s: "concat (map (\<lambda>n. n @ [z]) names) = s @ [z]" "split_on z s = names"
      using Cons by auto
    then show ?thesis using Cons.prems by (intro exI [of _ "n @ z # s"]) (simp add: split_on_append_sep)
  qed
qed simp

lemma kept_names:
  "length names = length ts \<Longrightarrow>
   concat (map (\<lambda>(name, keep). if keep then name @ [z] else []) (zip names (map (\<lambda>t. \<not> pd_psci (fst t)) ts))) =
   concat (map (\<lambda>(name, _). name @ [z]) (filter (\<lambda>(_, t). \<not> pd_psci (fst t)) (zip names ts)))"
  by (induction names ts rule: list_induct2) auto

text \<open>Of a CPU's \<open>power-domains\<close>, \<open>remove_psci_cpu_domains\<close> keeps exactly the provider tuples that
  are not PSCI's, in order and with their names, and drops both properties when none is left.\<close>

theorem psci_domains_removed:
  assumes "get_prop cpu (bytes_of ''power-domains'') = Some (concat (map snd ts))" and "domain_tuples ps ts" and "ts \<noteq> []"
    and "get_prop cpu (bytes_of ''power-domain-names'') = Some (concat (map (\<lambda>n. n @ [0]) names))"
    and "length names = length ts" and "\<forall>n \<in> set names. 0 \<notin> set n" and "length (concat (map snd ts)) < usize_limit"
  defines "kept \<equiv> filter (\<lambda>(_, t). \<not> pd_psci (fst t)) (zip names ts)"
  shows "\<exists>cpu'. remove_psci_cpu_domains cpu ps = Inr cpu' \<and>
    (if kept = []
     then get_prop cpu' (bytes_of ''power-domains'') = None \<and> get_prop cpu' (bytes_of ''power-domain-names'') = None
     else get_prop cpu' (bytes_of ''power-domains'') = Some (concat (map (\<lambda>(_, t). snd t) kept)) \<and>
          get_prop cpu' (bytes_of ''power-domain-names'') = Some (concat (map (\<lambda>(n, _). n @ [0]) kept)))"
proof -
  let ?ds = "concat (map snd ts)" and ?ks = "map (\<lambda>t. \<not> pd_psci (fst t)) ts"
  let ?r = "concat (map snd (filter (\<lambda>t. \<not> pd_psci (fst t)) ts))"
  have loop: "domains_loop ps ?ds 0 [] [] = Inr (?r, ?ks)"
    using domains_loop_tuples [OF assms(2), of "[]" "[]" "[]"] assms(7) by simp
  have "domain_tuples ps us \<Longrightarrow> 4 dvd length (concat (map snd us))" for us
    by (induction us) (auto simp: domain_tuples_def)
  then have al: "length ?ds mod 4 = 0" using assms(2) by (simp add: dvd_eq_mod_eq_0)
  have "names \<noteq> []" using assms(3,5) by auto
  then obtain s where s: "concat (map (\<lambda>n. n @ [0]) names) = s @ [0]" "split_on 0 s = names"
    using split_on_joined [of names 0] assms(6) by auto
  then have strip: "strip_suffix [0] (concat (map (\<lambda>n. n @ [0]) names)) = Some s" by simp
  have run: "remove_psci_cpu_domains cpu ps =
    (if ?r = [] then Inr (remove_prop (remove_prop cpu (bytes_of ''power-domains'')) (bytes_of ''power-domain-names''))
     else Inr (set_prop (set_prop cpu (bytes_of ''power-domains'') ?r) (bytes_of ''power-domain-names'')
        (concat (map (\<lambda>(n, _). n @ [0]) kept))))"
    unfolding remove_psci_cpu_domains_def assms(1,4) option.case loop bind_io_simps prod.case strip Let_def s(2) kept_def
    using al assms(5) kept_names [OF assms(5), of 0] by (simp del: concat_eq_Nil_conv)
  have zip: "?r = concat (map (\<lambda>(_, t). snd t) kept)"
    unfolding kept_def using assms(5) by (induction names ts rule: list_induct2) auto
  have "?r = [] \<longleftrightarrow> kept = []"
  proof
    assume "?r = []"
    then have "\<forall>(n, t) \<in> set kept. snd t = []" unfolding zip by auto
    moreover have "\<forall>(n, t) \<in> set kept. snd t \<noteq> []"
      using assms(2) by (fastforce simp: kept_def domain_tuples_def dest: set_zip_rightD)
    ultimately show "kept = []" by (cases kept) auto
  qed (simp add: zip)
  then show ?thesis
    unfolding run by (auto simp: zip bytes_of_def)
qed

section \<open>A board to hand over\<close>

lemma split_on_zstr: "CHR 0x00 \<notin> set s \<Longrightarrow> split_on 0 (zstr s) = [bytes_of s, []]"
  using split_on_append_sep [OF bytes_of_no_nul, of s "[]"] by simp

definition demo_live_tree :: node where
  "demo_live_tree = Node [] [(PROP_ADDRESS_CELLS, [0, 0, 0, 2]), (PROP_SIZE_CELLS, [0, 0, 0, 2])]
     [Node (bytes_of ''cpus'') [(PROP_ADDRESS_CELLS, [0, 0, 0, 1]), (PROP_SIZE_CELLS, [0, 0, 0, 0])]
        (map (\<lambda>n. Node (bytes_of (''cpu'' @ [n]))
     ([(bytes_of ''device_type'', zstr ''cpu''), (PROP_REG, [0,0,0, of_char n - 48])] @ [(bytes_of ''enable-method'', zstr ''spin-table''),
            (bytes_of ''cpu-release-addr'', release_addr \<lparr>st_base = 0x80000000\<rparr> (of_char n - 48))]) []) ''0123''),
      Node reserved_name [(PROP_ADDRESS_CELLS, [0, 0, 0, 2]), (PROP_SIZE_CELLS, [0, 0, 0, 2]), (bytes_of ''ranges'', [])]
        [Node (bytes_of ''spin-table@80000000'')
           [(bytes_of ''compatible'', SPIN_TABLE_COMPAT @ [0]), (bytes_of ''no-map'', []),
            (PROP_REG, to_be_bytes 8 (0x80000000 :: u64) @ to_be_bytes 8 (0x1000 :: u64))] []],
       Node (bytes_of ''psci'') [(bytes_of ''compatible'', zstr ''arm,psci-1.0'')] []]"

lemmas demo_eval = demo_live_tree_def bytes_of_inject split_on_zstr starts_with_bytes_of child_def get_prop_def enabled_def compatible_def cells_def property_u32_def

lemma demo_cpus: "cpu_nodes demo_live_tree = Inr [(0,0),(1,1),(2,2),(3,3)]"
  by (simp add: demo_eval cpu_nodes_def cpu_step_def enumerate_eq_zip decode_cells_one from_be_bytes_def word_le_nat_alt)


definition demo_contract :: spin_contract where
  "demo_contract = \<lparr>st_base = 0x80000000\<rparr>"

lemma demo_prefixes: "starts_with ''pocketboot,spin-table-'' ''pocketboot,spin-table-v1''" "\<not> starts_with ''pocketboot,spin-table-'' ''arm,psci-1.0''"
  by (simp_all add: starts_with_def)

lemma demo_parking_reg: "decode_reg_ranges (to_be_bytes 8 (0x80000000 :: u64) @ to_be_bytes 8 (0x1000 :: u64)) 2 2 = Inr [(0x80000000, 0x80001000)]"
  using decode_parking_reg [of demo_contract 2 "to_be_bytes 8 (0x80000000 :: u64)" 2 "to_be_bytes 8 (0x1000 :: u64)"]
  by (simp add: demo_contract_def encode_cells_def contract_ok_def spin_table_consts)

lemmas demo_eval_more = demo_eval demo_prefixes demo_parking_reg is_contract_node_def is_spin_table_cpu_def enumerate_eq_zip decode_cells_one decode_cells_two from_be_bytes_def word_le_nat_alt
    property_status_enabled_def reserved_cells_def spin_table_consts is_psci_def psci_state_node_def

lemma demo_live_contract: "spin_table_contract demo_live_tree = Inr (Some demo_contract)"
  unfolding spin_table_contract_def demo_cpus
  by (simp add: demo_eval_more demo_contract_def)

lemma demo_parking_root: "parking_root demo_live_tree = Inr demo_live_tree" by (simp add: parking_root_def demo_eval)

lemma demo_live_parked: "graft_parking_reservation demo_live_tree demo_contract = Inr demo_live_tree"
  unfolding graft_parking_reservation_def demo_parking_root bind_io_simps
  by (simp add: demo_eval_more parking_step_def demo_contract_def bytes_of_def [of "[]"] parking_name_def)

lemma demo_providers: "power_domain_providers demo_live_tree = Inr []"
  by (simp add: power_domain_providers_def demo_eval_more)

lemma demo_handoff: "fold_io (handoff_cpu demo_contract []) (nchildren (the (child demo_live_tree (bytes_of ''cpus'')))) [(0,0),(1,1),(2,2),(3,3)] = Inr (nchildren (the (child demo_live_tree (bytes_of ''cpus''))))"
  by (simp add: demo_eval_more demo_contract_def handoff_cpu_def remove_psci_cpu_domains_def set_prop_def remove_prop_def)


definition demo_psci_off :: node where "demo_psci_off = set_prop (Node (bytes_of ''psci'') [(bytes_of ''compatible'', zstr ''arm,psci-1.0'')] []) PROP_STATUS (zstr ''disabled'')"

lemma demo_target_parked: "\<exists>t. graft_parking_reservation (disable_psci (with_children demo_live_tree
        (update_first (\<lambda>c. nname c = bytes_of ''cpus'') (\<lambda>c. with_children c (nchildren (the (child demo_live_tree (bytes_of ''cpus''))))) (nchildren demo_live_tree)))) demo_contract = Inr t
   \<and> tree_bound t < 5000"
proof -
  let ?t = "Node [] (nprops demo_live_tree) (butlast (nchildren demo_live_tree) @ [demo_psci_off])"
  have d: "disable_psci (with_children demo_live_tree
        (update_first (\<lambda>c. nname c = bytes_of ''cpus'') (\<lambda>c. with_children c (nchildren (the (child demo_live_tree (bytes_of ''cpus''))))) (nchildren demo_live_tree)))
     = ?t"
    by (simp add: demo_eval_more Let_def with_children_def demo_psci_off_def set_prop_def)
  have "parking_root ?t = Inr ?t" by (simp add: parking_root_def demo_eval)
  then have "graft_parking_reservation ?t demo_contract = Inr ?t"
    unfolding graft_parking_reservation_def
    by (simp add: demo_eval_more parking_step_def demo_contract_def parking_name_def)
  moreover have "tree_bound ?t < 5000" by (simp add: demo_live_tree_def demo_psci_off_def props_bound_def set_prop_def SPIN_TABLE_COMPAT_def release_addr_def)
  ultimately show ?thesis unfolding d by blast
qed

lemma demo_live_tree_wf: "node_wf 0 demo_live_tree" "nname demo_live_tree = []" "tree_bound demo_live_tree < 5000"
  by (simp_all add: demo_live_tree_def bytes_of_inject bytes_of_no_nul props_bound_def SPIN_TABLE_COMPAT_def release_addr_def)

lemma spin_table_handoff_witness: "\<exists>dtb out root. contract_tree dtb = Inr demo_live_tree \<and> graft_spin_table dtb dtb = Inr out \<and> contract_tree out = Inr root \<and> cpus_parked demo_contract root \<and> no_psci root"
proof -
  obtain h where h: "fdt_header_parse demo_blob = Inr h" "boot_cpuid_phys h = 0"
  proof -
    have "case fdt_header_parse demo_blob of Inr h \<Rightarrow> boot_cpuid_phys h = 0 | Inl _ \<Rightarrow> False" by code_simp
    then show ?thesis using that by (cases "fdt_header_parse demo_blob") auto
  qed
  obtain dtb where dtb: "build_contract_tree demo_blob demo_live_tree (enc_rsv []) = Inr dtb"
    using build_contract_tree_fits [OF h(1), of demo_live_tree "enc_rsv []"] demo_live_tree_wf(3) by auto
  obtain h' where h': "fdt_header_parse dtb = Inr h'" "reserve_map dtb h' = Inr (enc_rsv [])" and live: "contract_tree dtb = Inr demo_live_tree"
    using build_contract_tree_parses [OF dtb demo_live_tree_wf(1,2)] by auto
  have cpu0: "boot_cpuid_phys h' = 0"
    using dtb h h'(1) header_of_built by (fastforce simp: build_contract_tree_def built_header_def Let_def)
  have v: "validate_parking_reserve_map dtb demo_contract = Inr False"
    using reserve_map_ranges_none [OF h'] h'(1) by (simp add: validate_parking_reserve_map_def Let_def)
  obtain t where t: "graft_parking_reservation (disable_psci (with_children demo_live_tree
        (update_first (\<lambda>c. nname c = bytes_of ''cpus'') (\<lambda>c. with_children c (nchildren (the (child demo_live_tree (bytes_of ''cpus''))))) (nchildren demo_live_tree)))) demo_contract = Inr t"
     "tree_bound t < 5000" using demo_target_parked by blast
  let ?rm = "take (length (enc_rsv []) - 16) (enc_rsv []) @ to_be_bytes 8 (st_base demo_contract) @ to_be_bytes 8 SPIN_TABLE_BYTES @ replicate 16 0"
  obtain out where out: "build_contract_tree dtb t ?rm = Inr out"
    using build_contract_tree_fits [OF h'(1), of t ?rm] t(2) by auto
  have run: "graft_spin_table dtb dtb = Inr out"
    unfolding graft_spin_table_def live bind_io_simps demo_live_contract option.case h'(1) Let_def cpu0 demo_live_parked v demo_cpus demo_providers demo_handoff t(1) h'(2)
    using out by simp
  show ?thesis using live run spin_table_handoff [OF live demo_live_contract run] by blast
qed

definition demo_cpu :: "(bytes \<times> bytes) list \<Rightarrow> node" where
  "demo_cpu ps = Node (bytes_of ''cpu@0'') ps []"

lemma psci_domains_removed_witness:
  "\<exists>cpu'. remove_psci_cpu_domains
       (demo_cpu [(bytes_of ''power-domains'', [0, 0, 0, 1, 0, 0, 0, 2, 0, 0, 0, 9]), (bytes_of ''power-domain-names'', zstr ''psci'' @ zstr ''perf'')])
       [\<lparr>pd_phandle = 1, pd_cells = 0, pd_psci = True\<rparr>, \<lparr>pd_phandle = 2, pd_cells = 1, pd_psci = False\<rparr>] = Inr cpu' \<and>
     get_prop cpu' (bytes_of ''power-domains'') = Some [0, 0, 0, 2, 0, 0, 0, 9] \<and>
     get_prop cpu' (bytes_of ''power-domain-names'') = Some (zstr ''perf'')"
proof -
  let ?ps = "[\<lparr>pd_phandle = 1, pd_cells = 0, pd_psci = True\<rparr>, \<lparr>pd_phandle = 2, pd_cells = 1, pd_psci = False\<rparr>]"
  let ?ts = "[(\<lparr>pd_phandle = 1, pd_cells = 0, pd_psci = True\<rparr>, [0, 0, 0, 1]), (\<lparr>pd_phandle = 2, pd_cells = 1, pd_psci = False\<rparr>, [0, 0, 0, 2, 0, 0, 0, 9])]"
  have ts: "domain_tuples ?ps ?ts" by (simp add: domain_tuples_def from_be_bytes_def)
  show ?thesis
    using psci_domains_removed [OF _ ts, of "demo_cpu [(bytes_of ''power-domains'', [0, 0, 0, 1, 0, 0, 0, 2, 0, 0, 0, 9]), (bytes_of ''power-domain-names'', zstr ''psci'' @ zstr ''perf'')]"
      "[bytes_of ''psci'', bytes_of ''perf'']"]
    by (simp add: demo_cpu_def get_prop_def bytes_of_def usize_limit_def)
qed

definition has_spin_table_cpu :: "node \<Rightarrow> bool" where
  "has_spin_table_cpu root \<longleftrightarrow>
     (\<exists>cpus n. child root (bytes_of ''cpus'') = Some cpus \<and> n \<in> set (nchildren cpus) \<and> is_spin_table_cpu n)"

definition has_contract_node :: "node \<Rightarrow> bool" where
  "has_contract_node root \<longleftrightarrow>
     (\<exists>r n. child root reserved_name = Some r \<and> n \<in> set (nchildren r) \<and> is_contract_node n)"

text \<open>Without a live spin-table CPU the boot entry's blob is returned as it is; with one but without a parking
  reservation that the loader owns, the hand-over is refused rather than guessed.\<close>

theorem graft_spin_table_guard:
  assumes "contract_tree live_dtb = Inr live"
  shows "(\<not> has_spin_table_cpu live \<longrightarrow> graft_spin_table dtb live_dtb = Inr dtb) \<and>
    (has_spin_table_cpu live \<and> \<not> has_contract_node live \<longrightarrow>
       graft_spin_table dtb live_dtb = invalid_data ''live spin-table CPUs have no owned parking contract'')"
proof (intro conjI impI)
  assume "\<not> has_spin_table_cpu live"
  then have "spin_table_contract live = Inr None"
    by (auto simp: has_spin_table_cpu_def spin_table_contract_def list_ex_iff split: option.splits)
  then show "graft_spin_table dtb live_dtb = Inr dtb" by (simp add: graft_spin_table_def assms)
next
  assume spin: "has_spin_table_cpu live \<and> \<not> has_contract_node live"
  have none: "filter is_contract_node (case child live reserved_name of None \<Rightarrow> [] | Some n \<Rightarrow> nchildren n) = []"
  proof (cases "child live reserved_name")
    case (Some r)
    then have "\<forall>n \<in> set (nchildren r). \<not> is_contract_node n" using spin unfolding has_contract_node_def by blast
    then show ?thesis by (simp add: Some filter_empty_conv)
  qed simp
  have some: "(case child live (bytes_of ''cpus'') of None \<Rightarrow> False | Some cpus \<Rightarrow> list_ex is_spin_table_cpu (nchildren cpus))"
    using spin by (auto simp: has_spin_table_cpu_def list_ex_iff)
  have "spin_table_contract live = invalid_data ''live spin-table CPUs have no owned parking contract''"
    using some unfolding spin_table_contract_def none by simp
  then show "graft_spin_table dtb live_dtb = invalid_data ''live spin-table CPUs have no owned parking contract''"
    by (simp add: graft_spin_table_def assms)
qed

lemma graft_spin_table_guard_witness:
  "graft_spin_table [] demo_blob = Inr []"
proof -
  have run: "contract_tree demo_blob = Inr (Node [] [] [Node (bytes_of ''chosen'') [] []])" by code_simp
  have "\<not> has_spin_table_cpu (Node [] [] [Node (bytes_of ''chosen'') [] []])"
    by (simp add: has_spin_table_cpu_def child_def bytes_of_def)
  then show ?thesis using graft_spin_table_guard [OF run] by blast
qed

end
