(* ===== verification/PhysMem.thy ===== *)
theory PhysMem
  imports RustText
begin

unbundle bit_operations_syntax

text \<open>
  Physical memory ranges and the placement of kexec segments (module \<open>aarch64\<close> of
  \<open>src/kexec.rs\<close>): reading the usable RAM from \<open>/proc/iomem\<close>, adding and subtracting ranges,
  and the first-fit search \<open>find_region\<close>. The interface \<open>address_ranges\<close> states what a range
  list promises as a set of addresses; \<open>region_search\<close> states what a search promises its caller.
\<close>

section \<open>Ranges\<close>

record phys_range =
  rstart :: u64
  rend :: u64

definition PAGE_SIZE :: u64 where
  "PAGE_SIZE = 4096"

definition phys_range_new :: "u64 \<Rightarrow> u64 \<Rightarrow> phys_range option" where
  "phys_range_new s e = (if s < e then Some \<lparr>rstart = s, rend = e\<rparr> else None)"

definition overlaps :: "phys_range \<Rightarrow> phys_range \<Rightarrow> bool" where
  "overlaps a b \<longleftrightarrow> rstart a < rend b \<and> rstart b < rend a"

definition merge_into :: "phys_range list \<Rightarrow> phys_range \<Rightarrow> phys_range list" where
  "merge_into merged r =
     (if merged \<noteq> [] \<and> rstart r \<le> rend (last merged)
      then butlast merged @ [(last merged)\<lparr>rend := max (rend (last merged)) (rend r)\<rparr>]
      else merged @ [r])"

definition add_range :: "phys_range list \<Rightarrow> phys_range \<Rightarrow> phys_range list" where
  "add_range ranges r = foldl merge_into [] (sort_key rstart (ranges @ [r]))"

definition subtract_pieces :: "phys_range \<Rightarrow> phys_range \<Rightarrow> phys_range list" where
  "subtract_pieces remove rg =
     (if \<not> overlaps rg remove then [rg]
      else
        (case (if rstart rg < rstart remove
               then phys_range_new (rstart rg) (min (rstart remove) (rend rg)) else None) of
           Some left \<Rightarrow> [left] | None \<Rightarrow> []) @
        (case (if rend remove < rend rg
               then phys_range_new (max (rend remove) (rstart rg)) (rend rg) else None) of
           Some right \<Rightarrow> [right] | None \<Rightarrow> []))"

definition subtract_range :: "phys_range list \<Rightarrow> phys_range \<Rightarrow> phys_range list" where
  "subtract_range ranges remove = concat (map (subtract_pieces remove) ranges)"

section \<open>Reading \<open>/proc/iomem\<close>\<close>

definition parse_iomem_line :: "string \<Rightarrow> (phys_range \<times> string) option" where
  "parse_iomem_line line =
     Option.bind (split_once (CHR '':'') (trim_start line)) (\<lambda>(raw_range, raw_name).
     Option.bind (split_once (CHR ''-'') (trim raw_range)) (\<lambda>(s, e).
     Option.bind (parse_u64 16 s) (\<lambda>s.
     Option.bind (Option.bind (parse_u64 16 e) (\<lambda>e. checked_add e 1)) (\<lambda>e.
     Option.bind (phys_range_new s e) (\<lambda>r.
     Some (r, trim raw_name))))))"

definition apply_iomem_line :: "phys_range list \<Rightarrow> string \<Rightarrow> phys_range list" where
  "apply_iomem_line ranges line =
     (case parse_iomem_line line of
        None \<Rightarrow> ranges
      | Some (rg, name) \<Rightarrow>
          if name = ''System RAM'' then add_range ranges rg
          else if name \<in> {''Kernel code'', ''Kernel data'', ''Kernel bss''} then ranges
          else subtract_range ranges rg)"

definition parse_iomem :: "string \<Rightarrow> phys_range list" where
  "parse_iomem iomem = sort_key rstart (foldl apply_iomem_line [] (text_lines iomem))"

text \<open>\<open>read_usable_memory\<close>, given the text of \<open>/proc/iomem\<close>.\<close>

definition read_usable_memory :: "string \<Rightarrow> phys_range list io" where
  "read_usable_memory iomem =
     (let ranges = parse_iomem iomem
      in if ranges = [] then invalid_data ''no usable System RAM ranges found in /proc/iomem''
         else Inr ranges)"

section \<open>Alignment\<close>

definition align_up :: "u64 \<Rightarrow> u64 \<Rightarrow> u64 option" where
  "align_up value align = map_option (\<lambda>v. v AND NOT (align - 1)) (checked_add value (align - 1))"

definition align_down :: "u64 \<Rightarrow> u64 \<Rightarrow> u64" where
  "align_down value align = value AND NOT (align - 1)"

definition page_align :: "u64 \<Rightarrow> u64 io" where
  "page_align value =
     ok_or (IoError InvalidInput ''size overflow'')
       (map_option (\<lambda>v. v AND NOT (PAGE_SIZE - 1)) (checked_add value (PAGE_SIZE - 1)))"

definition checked_add_phys :: "u64 \<Rightarrow> u64 \<Rightarrow> u64 io" where
  "checked_add_phys left right =
     ok_or (IoError InvalidInput ''physical address overflow'') (checked_add left right)"

lemma checked_add_phys_Inr [simp]:
  "checked_add_phys a b = Inr c \<longleftrightarrow> unat c = unat a + unat b"
  by (simp add: checked_add_phys_def)

lemma and_not_as_diff: "v AND NOT m = v - (v AND m :: u64)"
proof -
  have "v - (v AND m) = v AND NOT (v AND m)"
    by (rule disjunctive_diff) (simp add: bit_simps)
  also have "\<dots> = v AND NOT m"
    by (rule bit_word_eqI) (auto simp: bit_simps)
  finally show ?thesis by simp
qed

lemma and_not_ge: "unat v - unat (m::u64) \<le> unat (v AND NOT m)"
proof -
  have "v AND NOT m = v - (v AND m)"
    by (subst and_not_as_diff) simp
  moreover have "v AND m \<le> v"
    by (rule word_and_le2)
  ultimately have "unat (v AND NOT m) = unat v - unat (v AND m)"
    by (simp add: unat_sub)
  moreover have "unat (v AND m) \<le> unat m"
    using word_and_le1 word_le_nat_alt by blast
  ultimately show ?thesis by linarith
qed

lemma align_up_ge: "align_up v a = Some w \<Longrightarrow> unat v \<le> unat w"
proof -
  assume "align_up v a = Some w"
  then obtain s where "unat s = unat v + unat (a - 1)" and "w = s AND NOT (a - 1)"
    by (auto simp: align_up_def)
  then show ?thesis using and_not_ge [of s "a - 1"] by simp
qed

section \<open>Range lists as sets of addresses\<close>

definition range_addrs :: "phys_range \<Rightarrow> u64 set" where
  "range_addrs r = {a. rstart r \<le> a \<and> a < rend r}"

definition addr_set :: "phys_range list \<Rightarrow> u64 set" where
  "addr_set rs = (\<Union>r \<in> set rs. range_addrs r)"

definition ranges_ok :: "phys_range list \<Rightarrow> bool" where
  "ranges_ok rs \<longleftrightarrow> (\<forall>r \<in> set rs. rstart r < rend r) \<and> sorted_wrt (\<lambda>a b. rend a \<le> rstart b) rs"

lemma addr_set_simps [simp]:
  "addr_set [] = {}"
  "addr_set (r # rs) = range_addrs r \<union> addr_set rs"
  "addr_set (rs @ rs') = addr_set rs \<union> addr_set rs'"
  by (auto simp: addr_set_def)

lemma addr_set_mono: "set rs \<subseteq> set rs' \<Longrightarrow> addr_set rs \<subseteq> addr_set rs'"
  by (auto simp: addr_set_def)

lemma ranges_ok_Nil [simp]: "ranges_ok []"
  by (simp add: ranges_ok_def)

lemma ranges_ok_snoc:
  "ranges_ok (rs @ [r]) \<longleftrightarrow> ranges_ok rs \<and> rstart r < rend r \<and> (\<forall>x \<in> set rs. rend x \<le> rstart r)"
  by (auto simp: ranges_ok_def sorted_wrt_append)

lemma ranges_ok_sorted: "ranges_ok rs \<Longrightarrow> sorted (map rstart rs)"
proof -
  assume ok: "ranges_ok rs"
  then have "sorted_wrt (\<lambda>a b. rend a \<le> rstart b) rs" and ne: "\<forall>r \<in> set rs. rstart r < rend r"
    by (simp_all add: ranges_ok_def)
  then have "sorted_wrt (\<lambda>a b. rstart a \<le> rstart b) rs"
    by (elim sorted_wrt_mono_rel [rotated]) force
  then show ?thesis by (simp add: sorted_wrt_map)
qed

lemma overlaps_iff_addrs:
  "rstart a < rend a \<Longrightarrow> rstart b < rend b \<Longrightarrow> overlaps a b \<longleftrightarrow> range_addrs a \<inter> range_addrs b \<noteq> {}"
proof
  assume ne: "rstart a < rend a" "rstart b < rend b" and "overlaps a b"
  then have "max (rstart a) (rstart b) \<in> range_addrs a \<inter> range_addrs b"
    by (auto simp: overlaps_def range_addrs_def max_def)
  then show "range_addrs a \<inter> range_addrs b \<noteq> {}" by blast
qed (auto simp: overlaps_def range_addrs_def)

lemma merge_into_step:
  assumes "ranges_ok m" "rstart r < rend r" "m \<noteq> [] \<longrightarrow> rstart (last m) \<le> rstart r"
  shows "ranges_ok (merge_into m r)"
    and "addr_set (merge_into m r) = addr_set m \<union> range_addrs r"
    and "merge_into m r \<noteq> [] \<and> rstart (last (merge_into m r)) \<le> rstart r"
proof -
  have "ranges_ok (merge_into m r) \<and> addr_set (merge_into m r) = addr_set m \<union> range_addrs r \<and>
    merge_into m r \<noteq> [] \<and> rstart (last (merge_into m r)) \<le> rstart r"
  proof (cases m rule: rev_cases)
    case Nil
    with assms show ?thesis by (simp add: merge_into_def ranges_ok_def)
  next
    case (snoc m' l)
    have before: "rend x \<le> rstart r" if "x \<in> set m'" for x
      using assms(1,3) that snoc by (force simp: ranges_ok_snoc)
    show ?thesis
    proof (cases "rstart r \<le> rend l")
      case True
      then have "range_addrs (l\<lparr>rend := max (rend l) (rend r)\<rparr>) = range_addrs l \<union> range_addrs r"
        using assms(3) snoc by (auto simp: range_addrs_def max_def)
      moreover have "rstart l < max (rend l) (rend r)"
        using assms(1) snoc by (simp add: ranges_ok_snoc less_max_iff_disj)
      ultimately show ?thesis
        using True assms snoc by (simp add: merge_into_def ranges_ok_snoc Un_assoc)
    next
      case False
      then show ?thesis
        using assms snoc before by (auto simp: merge_into_def ranges_ok_def sorted_wrt_append)
    qed
  qed
  then show "ranges_ok (merge_into m r)"
    and "addr_set (merge_into m r) = addr_set m \<union> range_addrs r"
    and "merge_into m r \<noteq> [] \<and> rstart (last (merge_into m r)) \<le> rstart r"
    by blast+
qed

lemma foldl_merge_into:
  assumes "ranges_ok m" "\<forall>r \<in> set rs. rstart r < rend r" "sorted (map rstart rs)"
    and "m \<noteq> [] \<longrightarrow> (\<forall>r \<in> set rs. rstart (last m) \<le> rstart r)"
  shows "ranges_ok (foldl merge_into m rs) \<and> addr_set (foldl merge_into m rs) = addr_set m \<union> addr_set rs"
  using assms
proof (induction rs arbitrary: m)
  case Nil
  then show ?case by simp
next
  case (Cons r rs)
  have step: "m \<noteq> [] \<longrightarrow> rstart (last m) \<le> rstart r" "rstart r < rend r"
    using Cons.prems by simp_all
  note m = merge_into_step [OF Cons.prems(1) step(2,1)]
  have "\<forall>x \<in> set rs. rstart (last (merge_into m r)) \<le> rstart x"
    using m(3) Cons.prems(3) by force
  then show ?case
    using Cons.IH [OF m(1)] Cons.prems m(2) by (simp add: Un_assoc)
qed

lemma addr_set_sort_key [simp]: "addr_set (sort_key f rs) = addr_set rs"
  by (simp add: addr_set_def)

lemma add_range_correct:
  assumes "\<forall>x \<in> set rs. rstart x < rend x" "rstart r < rend r"
  shows "ranges_ok (add_range rs r) \<and> addr_set (add_range rs r) = addr_set rs \<union> range_addrs r"
  using foldl_merge_into [of "[]" "sort_key rstart (rs @ [r])"] assms
  by (auto simp: add_range_def)

lemma subtract_pieces_addrs: "addr_set (subtract_pieces rm r) = range_addrs r - range_addrs rm"
  by (auto simp: subtract_pieces_def phys_range_new_def overlaps_def range_addrs_def min_def max_def
      split: if_splits)

lemma subtract_range_addrs: "addr_set (subtract_range rs rm) = addr_set rs - range_addrs rm"
  by (induction rs) (auto simp: subtract_range_def subtract_pieces_addrs)

lemma subtract_pieces_within:
  "x \<in> set (subtract_pieces rm r) \<Longrightarrow> rstart r < rend r \<Longrightarrow>
   rstart r \<le> rstart x \<and> rend x \<le> rend r \<and> rstart x < rend x"
  by (auto simp: subtract_pieces_def phys_range_new_def min_def max_def split: if_splits)

lemma subtract_pieces_ok:
  "rstart r < rend r \<Longrightarrow> rstart rm \<le> rend rm \<Longrightarrow> ranges_ok (subtract_pieces rm r)"
  by (auto simp: subtract_pieces_def phys_range_new_def ranges_ok_def overlaps_def min_def max_def)

lemma subtract_range_ok:
  "ranges_ok rs \<Longrightarrow> rstart rm \<le> rend rm \<Longrightarrow> ranges_ok (subtract_range rs rm)"
proof (induction rs)
  case Nil
  then show ?case by (simp add: subtract_range_def)
next
  case (Cons r rs)
  have ok: "ranges_ok rs" "rstart r < rend r" "\<forall>y \<in> set rs. rstart y < rend y \<and> rend r \<le> rstart y"
    using Cons.prems by (auto simp: ranges_ok_def)
  have "rend a \<le> rstart b"
    if a: "a \<in> set (subtract_pieces rm r)" and b: "b \<in> set (subtract_range rs rm)" for a b
  proof -
    obtain y where "y \<in> set rs" "b \<in> set (subtract_pieces rm y)"
      using b by (auto simp: subtract_range_def)
    then have "rstart y \<le> rstart b" using ok(3) subtract_pieces_within by blast
    moreover have "rend a \<le> rend r" using a ok(2) subtract_pieces_within by blast
    ultimately show ?thesis using ok(3) \<open>y \<in> set rs\<close> by force
  qed
  moreover have "ranges_ok (subtract_range rs rm)" "ranges_ok (subtract_pieces rm r)"
    using Cons.IH Cons.prems(2) ok subtract_pieces_ok by blast+
  ultimately show ?case
    by (auto simp: subtract_range_def ranges_ok_def sorted_wrt_append)
qed

section \<open>The range list interface\<close>

text \<open>
  A store of address ranges, seen as the set of addresses it holds. The client facts, for a
  whole list of additions or removals, are proved from these laws alone.
\<close>

locale address_ranges =
  fixes addrs :: "'s \<Rightarrow> u64 set"
    and ok :: "'s \<Rightarrow> bool"
    and add :: "'s \<Rightarrow> phys_range \<Rightarrow> 's"
    and sub :: "'s \<Rightarrow> phys_range \<Rightarrow> 's"
  assumes add_ok: "ok s \<Longrightarrow> rstart r < rend r \<Longrightarrow> ok (add s r)"
    and add_addrs: "ok s \<Longrightarrow> rstart r < rend r \<Longrightarrow> addrs (add s r) = addrs s \<union> range_addrs r"
    and sub_ok: "ok s \<Longrightarrow> rstart r \<le> rend r \<Longrightarrow> ok (sub s r)"
    and sub_addrs: "ok s \<Longrightarrow> addrs (sub s r) = addrs s - range_addrs r"
begin

lemma sub_all:
  "ok s \<Longrightarrow> \<forall>r \<in> set rs. rstart r \<le> rend r \<Longrightarrow>
   ok (foldl sub s rs) \<and> addrs (foldl sub s rs) = addrs s - addr_set rs"
proof (induction rs arbitrary: s)
  case Nil
  then show ?case by simp
next
  case (Cons r rs)
  then have "ok (sub s r)" by (simp add: sub_ok)
  with Cons show ?case by (auto simp: sub_addrs)
qed

lemma add_all:
  "ok s \<Longrightarrow> \<forall>r \<in> set rs. rstart r < rend r \<Longrightarrow>
   ok (foldl add s rs) \<and> addrs (foldl add s rs) = addrs s \<union> addr_set rs"
proof (induction rs arbitrary: s)
  case Nil
  then show ?case by simp
next
  case (Cons r rs)
  then have "ok (add s r)" by (simp add: add_ok)
  with Cons show ?case by (auto simp: add_addrs)
qed

end

lemma ranges_ok_nonempty: "ranges_ok rs \<Longrightarrow> \<forall>r \<in> set rs. rstart r < rend r"
  by (simp add: ranges_ok_def)

interpretation ar: address_ranges addr_set ranges_ok add_range subtract_range
  by unfold_locales
    (simp_all add: add_range_correct [OF ranges_ok_nonempty] subtract_range_ok subtract_range_addrs)

section \<open>What \<open>parse_iomem\<close> computes\<close>

text \<open>
  The abstract reading of \<open>/proc/iomem\<close>: every line changes a set of usable addresses, in the
  order of the file.
\<close>

definition iomem_effect :: "u64 set \<Rightarrow> string \<Rightarrow> u64 set" where
  "iomem_effect A line =
     (case parse_iomem_line line of
        None \<Rightarrow> A
      | Some (r, name) \<Rightarrow>
          if name = ''System RAM'' then A \<union> range_addrs r
          else if name \<in> {''Kernel code'', ''Kernel data'', ''Kernel bss''} then A
          else A - range_addrs r)"

lemma parse_iomem_line_nonempty: "parse_iomem_line line = Some (r, name) \<Longrightarrow> rstart r < rend r"
  by (auto simp: parse_iomem_line_def phys_range_new_def split: Option.bind_splits if_splits)

lemma apply_iomem_line_correct:
  "ranges_ok rs \<Longrightarrow>
   ranges_ok (apply_iomem_line rs line) \<and> addr_set (apply_iomem_line rs line) = iomem_effect (addr_set rs) line"
  using parse_iomem_line_nonempty
  by (auto simp: apply_iomem_line_def iomem_effect_def ar.add_ok ar.add_addrs ar.sub_ok ar.sub_addrs
      order_less_imp_le split: option.splits)

lemma foldl_apply_iomem_line:
  "ranges_ok rs \<Longrightarrow>
   ranges_ok (foldl apply_iomem_line rs ls) \<and>
   addr_set (foldl apply_iomem_line rs ls) = foldl iomem_effect (addr_set rs) ls"
proof (induction ls arbitrary: rs)
  case Nil
  then show ?case by simp
next
  case (Cons l ls)
  with apply_iomem_line_correct [of rs l] show ?case by fastforce
qed

text \<open>
  C22: \<open>parse_iomem\<close> refines the abstract reading of the file: its range list is sorted, its
  ranges are non-empty and pairwise disjoint, and the addresses it holds are exactly those that
  the lines of the file add and do not remove afterwards. It holds for every input text.
\<close>

theorem parse_iomem_refines:
  "ranges_ok (parse_iomem text) \<and>
   addr_set (parse_iomem text) = foldl iomem_effect {} (text_lines text)"
proof -
  have run: "ranges_ok (foldl apply_iomem_line [] (text_lines text))"
    "addr_set (foldl apply_iomem_line [] (text_lines text)) = foldl iomem_effect {} (text_lines text)"
    using foldl_apply_iomem_line [of "[]" "text_lines text"] by simp_all
  then have "sort_key rstart (foldl apply_iomem_line [] (text_lines text)) =
      foldl apply_iomem_line [] (text_lines text)"
    by (simp add: sort_key_id_if_sorted ranges_ok_sorted)
  with run show ?thesis by (simp add: parse_iomem_def)
qed

end
