(* ===== verification/Placement.thy ===== *)
theory Placement
  imports PhysMem
begin

unbundle bit_operations_syntax

text \<open>
  \<open>find_region\<close> of \<open>src/kexec.rs\<close>: the first-fit search for an aligned hole in the usable RAM
  that misses every segment already placed. The search loop is \<open>place_in\<close>; it terminates because
  every conflict moves the candidate past the end of the segment it hits.
\<close>

section \<open>Alignment by masking\<close>

lemma power_of_two_exp: "is_power_of_two a \<Longrightarrow> \<exists>k < 64. a = 2 ^ k"
proof -
  assume "is_power_of_two a"
  then obtain k where "filter (bit a) [0..<64] = [k]"
    by (auto simp: is_power_of_two_def length_Suc_conv)
  then have k: "{i \<in> {0..<64}. bit a i} = {k}"
    by (metis atLeastLessThan_upt empty_set list.simps(15) set_filter)
  then have "k < 64" and "bit a k" by auto
  moreover have "a = 2 ^ k"
  proof (rule bit_word_eqI)
    fix i assume "i < LENGTH(64)"
    then have "bit a i \<longleftrightarrow> i = k" using k by auto
    then show "bit a i = bit (2 ^ k :: 64 word) i"
      using \<open>i < LENGTH(64)\<close> by (auto simp: bit_simps)
  qed
  ultimately show ?thesis by blast
qed

lemma unat_exp64: "k < 64 \<Longrightarrow> unat (2 ^ k :: u64) = 2 ^ k"
proof -
  assume "k < 64"
  then have "(2::nat) ^ k < 2 ^ 64" by (rule power_strict_increasing) simp
  then have "take_bit 64 ((2::nat) ^ k) = 2 ^ k" by (rule take_bit_nat_eq_self)
  moreover have "(2 ^ k :: u64) = of_nat (2 ^ k)" by simp
  ultimately show ?thesis by (simp only: unsigned_of_nat) simp
qed

lemma power_of_two_dec: "is_power_of_two a \<Longrightarrow> 0 < unat a \<and> unat (a - 1) = unat a - 1"
proof -
  assume "is_power_of_two a"
  then obtain k where "k < 64" "a = 2 ^ k" using power_of_two_exp by blast
  then have "unat a \<noteq> 0" by (simp add: unat_exp64)
  then have "a \<noteq> 0" by auto
  then show ?thesis by (simp add: unat_gt_0 unat_minus_one)
qed

lemma and_not_dec_exp:
  assumes "k < 64"
  shows "unat (v AND NOT (2 ^ k - 1) :: u64) = unat v div 2 ^ k * 2 ^ k"
proof -
  have "v AND NOT (2 ^ k - 1) = push_bit k (drop_bit k v)"
    by (simp add: bit_word_eqI bit_simps flip: mask_eq_exp_minus_1) (auto simp: bit_simps intro!: bit_word_eqI)
  moreover have "unat (push_bit k (drop_bit k v)) = unat v div 2 ^ k * 2 ^ k"
  proof -
    have "unat v div 2 ^ k * 2 ^ k \<le> unat v" by simp
    also have "\<dots> < 2 ^ LENGTH(64)" by (rule unsigned_less)
    finally show ?thesis
      by (simp add: push_bit_eq_mult drop_bit_eq_div unat_div unat_word_ariths unat_exp64 [OF assms] mult.commute)
  qed
  ultimately show ?thesis by simp
qed

lemma round_up_le:
  fixes q v k :: nat
  assumes "k dvd q" "v \<le> q" "0 < k"
  shows "(v + (k - 1)) div k * k \<le> q"
proof -
  obtain c where c: "q = c * k" using assms(1) by (auto simp: dvd_def mult.commute)
  have "(v + (k - 1)) div k < c + 1"
    using assms c by (simp add: less_mult_imp_div_less algebra_simps)
  then have "(v + (k - 1)) div k \<le> c" by linarith
  then show ?thesis unfolding c by (rule mult_le_mono1)
qed

lemma align_up_power:
  assumes "is_power_of_two a" "align_up v a = Some w"
  shows "unat a dvd unat w" and "unat v \<le> unat w"
    and "unat a dvd q \<Longrightarrow> unat v \<le> q \<Longrightarrow> unat w \<le> q"
proof -
  obtain k where k: "k < 64" "a = 2 ^ k" using assms(1) power_of_two_exp by blast
  then have a: "unat a = 2 ^ k" by (simp add: unat_exp64)
  obtain s where s: "unat s = unat v + unat (a - 1)" "w = s AND NOT (a - 1)"
    using assms(2) by (auto simp: align_up_def)
  have w: "unat w = (unat v + (2 ^ k - 1)) div 2 ^ k * 2 ^ k"
    using s k power_of_two_dec [OF assms(1)] by (simp add: and_not_dec_exp unat_exp64)
  show "unat a dvd unat w" by (simp add: a w)
  show "unat v \<le> unat w" using assms(2) by (rule align_up_ge)
  show "unat a dvd q \<Longrightarrow> unat v \<le> q \<Longrightarrow> unat w \<le> q"
    unfolding a w by (rule round_up_le) simp_all
qed

lemma align_up_defined:
  "is_power_of_two a \<Longrightarrow> unat v + unat a \<le> 2 ^ 64 \<Longrightarrow> \<exists>w. align_up v a = Some w"
proof -
  assume p: "is_power_of_two a" and b: "unat v + unat a \<le> 2 ^ 64"
  have "unat v + unat (a - 1) < 2 ^ 64"
    using power_of_two_dec [OF p] b by linarith
  then show ?thesis by (simp add: align_up_def checked_add_def)
qed

lemma page_align_facts:
  assumes "page_align v = Inr w"
  shows "unat v \<le> unat w" and "4096 dvd unat w" and "unat w < unat v + 4096"
proof -
  obtain s where s: "unat s = unat v + 4095" "w = s AND NOT (4096 - 1)"
    using assms by (auto simp: page_align_def PAGE_SIZE_def)
  have "unat (s AND NOT (2 ^ 12 - 1)) = unat s div 2 ^ 12 * 2 ^ 12"
    by (rule and_not_dec_exp) simp
  then have w: "unat w = (unat v + 4095) div 4096 * 4096"
    using s by simp
  show "unat v \<le> unat w" "4096 dvd unat w" "unat w < unat v + 4096"
    unfolding w by simp_all
qed

lemma align_down_facts:
  assumes "is_power_of_two a"
  shows "unat (align_down v a) = unat v div unat a * unat a"
proof -
  obtain k where "k < 64" "a = 2 ^ k" using assms power_of_two_exp by blast
  then show ?thesis by (simp add: align_down_def and_not_dec_exp unat_exp64)
qed

section \<open>The search\<close>

text \<open>
  \<open>place_in\<close> is the inner \<open>while\<close> of \<open>find_region\<close> over one usable range. Its result is \<open>None\<close>
  where a \<open>?\<close> leaves the whole function, \<open>Some None\<close> where the range is exhausted, and
  \<open>Some (Some c)\<close> where the candidate \<open>c\<close> is taken.
\<close>

function place_in :: "phys_range list \<Rightarrow> u64 \<Rightarrow> u64 \<Rightarrow> u64 \<Rightarrow> u64 \<Rightarrow> u64 option option" where
  "place_in occupied sz align hi candidate =
     (case checked_add candidate sz of
        None \<Rightarrow> None
      | Some candidate_end \<Rightarrow>
          if candidate_end \<le> hi then
            (case filter (overlaps \<lparr>rstart = candidate, rend = candidate_end\<rparr>) occupied of
               [] \<Rightarrow> Some (Some candidate)
             | c # cs \<Rightarrow>
                 (case align_up (rend (arg_min_list rend (c # cs))) align of
                    None \<Rightarrow> None
                  | Some candidate' \<Rightarrow> place_in occupied sz align hi candidate'))
          else Some None)"
  by pat_completeness auto
termination
proof (relation "measure (\<lambda>(occupied, sz, align, hi, candidate). 2 ^ 64 - unat candidate)")
  fix occupied :: "phys_range list" and sz align hi candidate candidate_end candidate' :: u64 and c cs
  assume hit: "filter (overlaps \<lparr>rstart = candidate, rend = candidate_end\<rparr>) occupied = c # cs"
    and up: "align_up (rend (arg_min_list rend (c # cs))) align = Some candidate'"
  have "arg_min_list rend (c # cs) \<in> set (c # cs)"
    by (rule arg_min_list_in) simp
  then have "candidate < rend (arg_min_list rend (c # cs))"
    unfolding hit [symmetric] by (auto simp: overlaps_def)
  then have "unat candidate < unat candidate'"
    using align_up_ge [OF up] by (simp add: word_less_nat_alt)
  moreover have "unat candidate' < 2 ^ 64"
    by (rule unat_less_u64)
  ultimately show "((occupied, sz, align, hi, candidate'), (occupied, sz, align, hi, candidate))
      \<in> measure (\<lambda>(occupied, sz, align, hi, candidate). 2 ^ 64 - unat candidate)"
    by simp
qed simp

declare place_in.simps [simp del]

fun scan_usable :: "phys_range list \<Rightarrow> u64 \<Rightarrow> u64 \<Rightarrow> u64 \<Rightarrow> u64 \<Rightarrow> phys_range list \<Rightarrow> u64 option" where
  "scan_usable occupied sz align lo hi [] = None"
| "scan_usable occupied sz align lo hi (r # rs) =
     (let s = max (rstart r) lo; e = min (rend r) hi in
      case checked_add s sz of
        None \<Rightarrow> None
      | Some se \<Rightarrow>
          if e < se then scan_usable occupied sz align lo hi rs
          else
            (case align_up s align of
               None \<Rightarrow> None
             | Some candidate \<Rightarrow>
                 (case place_in occupied sz align e candidate of
                    None \<Rightarrow> None
                  | Some (Some p) \<Rightarrow> Some p
                  | Some None \<Rightarrow> scan_usable occupied sz align lo hi rs)))"

definition find_region ::
  "phys_range list \<Rightarrow> phys_range list \<Rightarrow> u64 \<Rightarrow> u64 \<Rightarrow> u64 \<Rightarrow> u64 \<Rightarrow> u64 option" where
  "find_region usable occupied sz align lo hi =
     (if sz = 0 \<or> \<not> is_power_of_two align then None
      else scan_usable occupied sz align lo hi usable)"

text \<open>
  What a placement promises: the segment \<open>[p, p + sz)\<close> is aligned, does not wrap, lies
  between the bounds and inside one usable range, and misses everything already placed.
\<close>

definition fits :: "phys_range list \<Rightarrow> phys_range list \<Rightarrow> u64 \<Rightarrow> u64 \<Rightarrow> u64 \<Rightarrow> u64 \<Rightarrow> u64 \<Rightarrow> bool" where
  "fits usable occupied sz align lo hi p \<longleftrightarrow>
     unat align dvd unat p \<and> lo \<le> p \<and> unat p + unat sz \<le> unat hi \<and>
     (\<exists>r \<in> set usable. rstart r \<le> p \<and> unat p + unat sz \<le> unat (rend r)) \<and>
     (\<forall>r \<in> set occupied. \<not> overlaps \<lparr>rstart = p, rend = p + sz\<rparr> r)"

lemma place_in_found:
  assumes "is_power_of_two align" "place_in occupied sz align hi c = Some (Some p)"
    and "unat align dvd unat c"
  shows "c \<le> p \<and> unat align dvd unat p \<and> unat p + unat sz \<le> unat hi \<and>
    (\<forall>r \<in> set occupied. \<not> overlaps \<lparr>rstart = p, rend = p + sz\<rparr> r)"
  using assms
proof (induction occupied sz align hi c rule: place_in.induct)
  case (1 occupied sz align hi c)
  from "1.prems"(2) obtain ce where ce: "checked_add c sz = Some ce" "ce \<le> hi"
    by (subst (asm) place_in.simps) (auto split: option.splits if_splits)
  then have sum: "unat ce = unat c + unat sz" "ce = c + sz"
    using checked_add_sum [of c sz ce] by auto
  show ?case
  proof (cases "filter (overlaps \<lparr>rstart = c, rend = ce\<rparr>) occupied")
    case Nil
    then have "p = c" using "1.prems"(2) ce by (simp add: place_in.simps [of occupied])
    then show ?thesis
      using Nil ce sum "1.prems"(3) by (simp add: filter_empty_conv word_le_nat_alt)
  next
    case (Cons d ds)
    then obtain c' where c': "align_up (rend (arg_min_list rend (d # ds))) align = Some c'"
      and rec: "place_in occupied sz align hi c' = Some (Some p)"
      using "1.prems"(2) ce by (simp add: place_in.simps [of occupied sz align hi c] split: option.splits)
    have "arg_min_list rend (d # ds) \<in> set (d # ds)" by (rule arg_min_list_in) simp
    then have "c < rend (arg_min_list rend (d # ds))"
      unfolding Cons [symmetric] by (auto simp: overlaps_def)
    then have "c \<le> c'" using align_up_ge [OF c'] by (simp add: word_le_nat_alt word_less_nat_alt)
    moreover note "1.IH" [OF ce(1,2) Cons c' "1.prems"(1) rec align_up_power(1) [OF "1.prems"(1) c']]
    ultimately show ?thesis by auto
  qed
qed

lemma place_in_least:
  assumes "is_power_of_two align" "place_in occupied sz align hi c = Some res"
    and "c \<le> q" "unat align dvd unat q" "unat q + unat sz \<le> unat hi"
    and "\<forall>r \<in> set occupied. \<not> overlaps \<lparr>rstart = q, rend = q + sz\<rparr> r"
  shows "\<exists>p. res = Some p \<and> p \<le> q"
  using assms
proof (induction occupied sz align hi c rule: place_in.induct)
  case (1 occupied sz align hi c)
  have "unat q + unat sz < 2 ^ 64"
    using "1.prems"(5) unat_less_u64 [of hi] by linarith
  then have q: "unat (q + sz) = unat q + unat sz"
    by (simp add: unat_add_exact)
  obtain ce where ce: "checked_add c sz = Some ce"
    using "1.prems"(2) by (subst (asm) place_in.simps) (auto split: option.splits)
  then have sum: "unat ce = unat c + unat sz" by simp
  have "ce \<le> hi" using "1.prems"(3,5) sum by (simp add: word_le_nat_alt)
  show ?case
  proof (cases "filter (overlaps \<lparr>rstart = c, rend = ce\<rparr>) occupied")
    case Nil
    then have "res = Some c"
      using "1.prems"(2) ce \<open>ce \<le> hi\<close> by (simp add: place_in.simps [of occupied])
    then show ?thesis using "1.prems"(3) by simp
  next
    case (Cons d ds)
    define m where "m = arg_min_list rend (d # ds)"
    have "m \<in> set (d # ds)" unfolding m_def by (rule arg_min_list_in) simp
    then have m: "m \<in> set occupied" "c < rend m" "rstart m < ce"
      unfolding Cons [symmetric] by (auto simp: overlaps_def)
    obtain c' where c': "align_up (rend m) align = Some c'"
      and rec: "place_in occupied sz align hi c' = Some res"
      using "1.prems"(2) ce \<open>ce \<le> hi\<close> Cons
      by (simp add: place_in.simps [of occupied sz align hi c] m_def split: option.splits)
    have "rstart m < q + sz"
      using m(3) sum q "1.prems"(3) by (simp add: word_less_nat_alt word_le_nat_alt)
    then have "rend m \<le> q"
      using "1.prems"(6) m(1) by (force simp: overlaps_def)
    then have "c' \<le> q"
      using align_up_power(3) [OF "1.prems"(1) c' "1.prems"(4)] by (simp add: word_le_nat_alt)
    with "1.IH" [OF ce \<open>ce \<le> hi\<close> Cons c' [unfolded m_def] "1.prems"(1) rec] "1.prems"(4,5,6)
    show ?thesis by simp
  qed
qed

text \<open>
  No arithmetic of the search can overflow when every address plus the segment and its
  alignment stays below \<open>2 ^ 64\<close>, as on hardware with at most 52 physical address bits.
\<close>

definition search_no_overflow :: "phys_range list \<Rightarrow> phys_range list \<Rightarrow> u64 \<Rightarrow> u64 \<Rightarrow> u64 \<Rightarrow> bool" where
  "search_no_overflow usable occupied sz align lo \<longleftrightarrow>
     (\<forall>r \<in> set usable \<union> set occupied. unat (rend r) + unat align + unat sz \<le> 2 ^ 64) \<and>
     unat lo + unat align + unat sz \<le> 2 ^ 64"

lemma align_up_less: "is_power_of_two a \<Longrightarrow> align_up v a = Some w \<Longrightarrow> unat w < unat v + unat a"
proof -
  assume p: "is_power_of_two a" and "align_up v a = Some w"
  then obtain s where s: "unat s = unat v + unat (a - 1)" "w = s AND NOT (a - 1)"
    by (auto simp: align_up_def)
  have "unat w \<le> unat s" using s(2) word_and_le2 word_le_nat_alt by blast
  then show ?thesis using s(1) power_of_two_dec [OF p] by linarith
qed

lemma place_in_defined:
  assumes "is_power_of_two align" "unat c + unat sz < 2 ^ 64"
    and "\<forall>r \<in> set occupied. unat (rend r) + unat align + unat sz \<le> 2 ^ 64"
  shows "place_in occupied sz align hi c \<noteq> None"
  using assms
proof (induction occupied sz align hi c rule: place_in.induct)
  case (1 occupied sz align hi c)
  have ce: "checked_add c sz = Some (c + sz)"
    using "1.prems"(2) by (simp add: unat_add_exact)
  show ?case
  proof (cases "c + sz \<le> hi \<and> filter (overlaps \<lparr>rstart = c, rend = c + sz\<rparr>) occupied \<noteq> []")
    case False
    then show ?thesis
      by (subst place_in.simps) (auto simp del: checked_add_Some simp add: ce split: list.splits)
  next
    case True
    then obtain d ds where Cons: "filter (overlaps \<lparr>rstart = c, rend = c + sz\<rparr>) occupied = d # ds"
      by (meson neq_Nil_conv)
    define m where "m = arg_min_list rend (d # ds)"
    have "m \<in> set (d # ds)" unfolding m_def by (rule arg_min_list_in) simp
    then have m: "m \<in> set occupied" unfolding Cons [symmetric] by simp
    obtain c' where c': "align_up (rend m) align = Some c'"
      using align_up_defined [OF "1.prems"(1), of "rend m"] "1.prems"(3) m by fastforce
    have "unat c' + unat sz < 2 ^ 64"
      using align_up_less [OF "1.prems"(1) c'] "1.prems"(3) m by fastforce
    with "1.IH" [OF ce _ Cons c' [unfolded m_def] "1.prems"(1)] True "1.prems"(3)
    have "place_in occupied sz align hi c' \<noteq> None" by blast
    then show ?thesis
      using True ce Cons c'
      by (simp add: place_in.simps [of occupied sz align hi c] m_def del: checked_add_Some)
  qed
qed

section \<open>The search over all usable ranges\<close>

lemma scan_usable_fits:
  assumes "is_power_of_two align" "scan_usable occupied sz align lo hi usable = Some p"
  shows "fits usable occupied sz align lo hi p"
  using assms(2)
proof (induction usable)
  case Nil
  then show ?case by simp
next
  case (Cons r rs)
  define s where "s = max (rstart r) lo"
  define e where "e = min (rend r) hi"
  obtain se where se: "checked_add s sz = Some se"
    using Cons.prems by (auto simp: s_def Let_def split: option.splits)
  show ?case
  proof (cases "scan_usable occupied sz align lo hi rs = Some p")
    case True
    then show ?thesis using Cons.IH by (auto simp: fits_def)
  next
    case False
    with Cons.prems se obtain c where c: "align_up s align = Some c"
      and p: "place_in occupied sz align e c = Some (Some p)"
      by (auto simp: Let_def s_def [symmetric] e_def [symmetric] simp del: checked_add_Some
          split: option.splits if_splits)
    note found = place_in_found [OF assms(1) p align_up_power(1) [OF assms(1) c]]
    have "s \<le> c" using align_up_ge [OF c] by (simp add: word_le_nat_alt)
    also have "c \<le> p" using found by blast
    finally have "s \<le> p" .
    then have "rstart r \<le> p" "lo \<le> p" by (simp_all add: s_def)
    moreover have "unat e \<le> unat (rend r)" "unat e \<le> unat hi"
      by (simp_all add: e_def flip: word_le_nat_alt)
    ultimately show ?thesis
      using found by (fastforce simp: fits_def)
  qed
qed

lemma scan_usable_least:
  assumes pow: "is_power_of_two align" and run: "scan_usable occupied sz align lo hi usable = Some p"
    and ok: "ranges_ok usable" and q: "fits usable occupied sz align lo hi q"
  shows "p \<le> q"
  using run ok q
proof (induction usable)
  case Nil
  then show ?case by simp
next
  case (Cons r rs)
  define s where "s = max (rstart r) lo"
  define e where "e = min (rend r) hi"
  have ok: "ranges_ok rs" "\<forall>x \<in> set rs. rend r \<le> rstart x"
    using Cons.prems(2) by (auto simp: ranges_ok_def)
  show ?case
  proof (cases "rstart r \<le> q \<and> unat q + unat sz \<le> unat (rend r)")
    case True
    then have sq: "s \<le> q" "unat q + unat sz \<le> unat e"
      using Cons.prems(3) by (auto simp: fits_def s_def e_def min_def)
    obtain se where se: "checked_add s sz = Some se"
      using Cons.prems(1) by (auto simp: s_def Let_def split: option.splits)
    then have "se \<le> e" using sq by (simp add: word_le_nat_alt)
    then obtain c res where c: "align_up s align = Some c"
      and res: "place_in occupied sz align e c = Some res"
      and p: "res = Some p \<or> res = None"
      using Cons.prems(1) se
      by (auto simp: Let_def s_def [symmetric] e_def [symmetric] simp del: checked_add_Some
          split: option.splits if_splits)
    have "c \<le> q"
      using align_up_power(3) [OF pow c, of "unat q"] sq Cons.prems(3)
      by (simp add: fits_def word_le_nat_alt)
    then show ?thesis
      using place_in_least [OF pow res, of q] sq Cons.prems(3) p by (auto simp: fits_def)
  next
    case False
    then have q: "fits rs occupied sz align lo hi q"
      using Cons.prems(3) by (auto simp: fits_def)
    show ?thesis
    proof (cases "scan_usable occupied sz align lo hi rs = Some p")
      case True
      then show ?thesis using Cons.IH ok(1) q by blast
    next
      case False
      have "fits [r] occupied sz align lo hi p"
        using scan_usable_fits [of align occupied sz lo hi "[r]" p, OF pow] Cons.prems(1) False
        by (auto simp: Let_def split: option.splits if_splits)
      then have "p \<le> rend r" by (auto simp: fits_def word_le_nat_alt)
      then show ?thesis using q ok(2) by (auto simp: fits_def)
    qed
  qed
qed

lemma scan_usable_complete:
  assumes pow: "is_power_of_two align" and no: "search_no_overflow usable occupied sz align lo"
    and ok: "ranges_ok usable" and q: "fits usable occupied sz align lo hi q"
  shows "scan_usable occupied sz align lo hi usable \<noteq> None"
  using no ok q
proof (induction usable)
  case Nil
  then show ?case by (simp add: fits_def)
next
  case (Cons r rs)
  define s where "s = max (rstart r) lo"
  define e where "e = min (rend r) hi"
  have IH: "scan_usable occupied sz align lo hi rs \<noteq> None" if "fits rs occupied sz align lo hi q"
    using Cons.IH Cons.prems(1,2) that by (auto simp: search_no_overflow_def ranges_ok_def)
  have "unat (rstart r) \<le> unat (rend r)"
    using Cons.prems(2) by (simp add: ranges_ok_def word_less_nat_alt)
  then have s: "unat s + unat align + unat sz \<le> 2 ^ 64"
    using Cons.prems(1) by (auto simp: s_def max_def search_no_overflow_def)
  then have se: "checked_add s sz = Some (s + sz)"
    using power_of_two_dec [OF pow] by (simp add: unat_add_exact)
  show ?case
  proof (cases "e < s + sz")
    case True
    then have "\<not> (rstart r \<le> q \<and> unat q + unat sz \<le> unat (rend r))"
      using Cons.prems(3) se by (auto simp: fits_def s_def e_def max_def min_def word_less_nat_alt word_le_nat_alt split: if_splits)
    then have "fits rs occupied sz align lo hi q"
      using Cons.prems(3) by (auto simp: fits_def)
    then show ?thesis
      using IH se True by (simp add: Let_def s_def [symmetric] e_def [symmetric] del: checked_add_Some)
  next
    case False
    obtain c where c: "align_up s align = Some c"
      using align_up_defined [OF pow, of s] s by auto
    have "unat c + unat sz < 2 ^ 64"
      using align_up_less [OF pow c] s by linarith
    moreover have "\<forall>x \<in> set occupied. unat (rend x) + unat align + unat sz \<le> 2 ^ 64"
      using Cons.prems(1) by (simp add: search_no_overflow_def)
    ultimately obtain res where res: "place_in occupied sz align e c = Some res"
      using place_in_defined [OF pow] by blast
    show ?thesis
    proof (cases res)
      case None
      have "\<not> (rstart r \<le> q \<and> unat q + unat sz \<le> unat (rend r))"
      proof
        assume "rstart r \<le> q \<and> unat q + unat sz \<le> unat (rend r)"
        then have sq: "s \<le> q" "unat q + unat sz \<le> unat e"
          using Cons.prems(3) by (auto simp: fits_def s_def e_def min_def)
        have "c \<le> q"
          using align_up_power(3) [OF pow c, of "unat q"] sq Cons.prems(3)
          by (simp add: fits_def word_le_nat_alt)
        then show False
          using place_in_least [OF pow res, of q] sq Cons.prems(3) None by (auto simp: fits_def)
      qed
      then have "fits rs occupied sz align lo hi q"
        using Cons.prems(3) by (auto simp: fits_def)
      then show ?thesis
        using IH se False c res None
        by (simp add: Let_def s_def [symmetric] e_def [symmetric] del: checked_add_Some)
    next
      case (Some p)
      then show ?thesis
        using se False c res
        by (simp add: Let_def s_def [symmetric] e_def [symmetric] del: checked_add_Some)
    qed
  qed
qed

section \<open>The search interface\<close>

text \<open>
  What the kexec loader relies on: a returned address fits. From that alone, placing segments
  one after the other keeps them apart and inside the usable RAM.
\<close>

definition placed_ok :: "phys_range list \<Rightarrow> phys_range list \<Rightarrow> bool" where
  "placed_ok usable occ \<longleftrightarrow>
     (\<forall>r \<in> set occ. rstart r < rend r \<and> (\<exists>u \<in> set usable. rstart u \<le> rstart r \<and> rend r \<le> rend u)) \<and>
     sorted_wrt (\<lambda>a b. \<not> overlaps a b) occ"

lemma placed_ok_Nil [simp]: "placed_ok usable []"
  by (simp add: placed_ok_def)

lemma placed_ok_addrs: "placed_ok usable occ \<Longrightarrow> addr_set occ \<subseteq> addr_set usable"
  unfolding placed_ok_def addr_set_def range_addrs_def
  by (blast intro: order_trans order_less_le_trans)

locale region_search =
  fixes search :: "phys_range list \<Rightarrow> phys_range list \<Rightarrow> u64 \<Rightarrow> u64 \<Rightarrow> u64 \<Rightarrow> u64 \<Rightarrow> u64 option"
  assumes search_fits: "search usable occupied sz align lo hi = Some p \<Longrightarrow> fits usable occupied sz align lo hi p"
    and search_size: "search usable occupied sz align lo hi = Some p \<Longrightarrow> sz \<noteq> 0"
begin

lemma search_end:
  assumes "search usable occupied sz align lo hi = Some p"
  shows "checked_add p sz = Some (p + sz)" and "p < p + sz" and "p + sz \<le> hi" and "lo \<le> p"
    and "unat (p + sz) = unat p + unat sz"
proof -
  have le: "unat p + unat sz \<le> unat hi" and lo: "lo \<le> p"
    using search_fits [OF assms] by (simp_all add: fits_def)
  then have sum: "unat (p + sz) = unat p + unat sz"
    using unat_less_u64 [of hi] by (simp add: unat_add_exact)
  moreover have "0 < unat sz"
    using search_size [OF assms] by (simp add: unat_gt_0)
  ultimately show "checked_add p sz = Some (p + sz)" and "p < p + sz" and "p + sz \<le> hi"
    and "unat (p + sz) = unat p + unat sz"
    using le by (simp_all add: word_less_nat_alt word_le_nat_alt)
  show "lo \<le> p" by (rule lo)
qed

lemma place_next:
  assumes "placed_ok usable occ" and "search usable occ sz align lo hi = Some p"
  shows "placed_ok usable (occ @ [\<lparr>rstart = p, rend = p + sz\<rparr>])"
proof -
  have f: "fits usable occ sz align lo hi p" by (rule search_fits) fact
  note e = search_end [OF assms(2)]
  obtain u where "u \<in> set usable" "rstart u \<le> p" "p + sz \<le> rend u"
    using f e(5) by (auto simp: fits_def word_le_nat_alt)
  then show ?thesis
    using assms(1) f e(2) by (fastforce simp: placed_ok_def fits_def sorted_wrt_append overlaps_def)
qed

end

lemma find_region_fits: "find_region usable occupied sz align lo hi = Some p \<Longrightarrow> fits usable occupied sz align lo hi p"
  using scan_usable_fits by (auto simp: find_region_def split: if_splits)

interpretation fr: region_search find_region
  by unfold_locales (auto simp: find_region_fits find_region_def split: if_splits)

section \<open>Properties of the search\<close>

text \<open>
  C20: an address that \<open>find_region\<close> returns is a correct placement: it is a multiple of the
  alignment, not below the lower bound, the segment does not wrap around and ends at or below the
  upper bound, it lies inside one usable range, and it overlaps no occupied range.
\<close>

theorem find_region_sound:
  "find_region usable occupied sz align lo hi = Some p \<Longrightarrow> fits usable occupied sz align lo hi p"
  by (rule fr.search_fits)

definition demo_usable :: "phys_range list" where
  "demo_usable = [\<lparr>rstart = 0x40001000, rend = 0x40400000\<rparr>, \<lparr>rstart = 0x80000000, rend = 0x80900000\<rparr>]"

lemma demo_find_region:
  "find_region demo_usable [\<lparr>rstart = 0x80000000, rend = 0x80210000\<rparr>] 0x300000 0x200000 0 0xffffffffffffffff
     = Some 0x80400000"
  by code_simp

theorem find_region_sound_witness:
  "fits demo_usable [\<lparr>rstart = 0x80000000, rend = 0x80210000\<rparr>] 0x300000 0x200000 0 0xffffffffffffffff 0x80400000"
  by (rule find_region_sound [OF demo_find_region])

text \<open>
  C21: \<open>find_region\<close> is complete and first-fit. For sorted disjoint usable ranges and addresses
  that leave room for the arithmetic of the search, whenever any placement exists the search
  returns one, and no placement lies below the one it returns.
\<close>

theorem find_region_first_fit:
  assumes "ranges_ok usable" and "is_power_of_two align" and "sz \<noteq> 0"
    and "search_no_overflow usable occupied sz align lo"
    and "fits usable occupied sz align lo hi q"
  shows "\<exists>p \<le> q. find_region usable occupied sz align lo hi = Some p"
proof -
  obtain p where "scan_usable occupied sz align lo hi usable = Some p"
    using scan_usable_complete [OF assms(2,4,1,5)] by blast
  moreover from this have "p \<le> q"
    using scan_usable_least assms by blast
  ultimately show ?thesis using assms(2,3) by (simp add: find_region_def)
qed

theorem find_region_first_fit_witness:
  "\<exists>p \<le> 0x80600000. find_region demo_usable [] 0x300000 0x200000 0 0xffffffffffffffff = Some p"
proof (rule find_region_first_fit)
  show "ranges_ok demo_usable" by (simp add: ranges_ok_def demo_usable_def)
  show "is_power_of_two 0x200000" by code_simp
  show "search_no_overflow demo_usable [] 0x300000 0x200000 0"
    by (simp add: search_no_overflow_def demo_usable_def)
  show "fits demo_usable [] 0x300000 0x200000 0 0xffffffffffffffff 0x80600000"
    by (simp add: fits_def demo_usable_def)
qed simp

end
