(* ===== verification/Pe.thy ===== *)
theory Pe
  imports RustText
begin

text \<open>
  The PE/COFF reader, \<open>src/pe.rs\<close>: bounds-checked access with overflow tests, the DOS, COFF
  and optional headers, and the section table. What is accepted is exactly
  the PE format, stated by its field offsets.
\<close>

record section_rec =
  sec_name :: bytes
  sec_data :: bytes
  sec_raw_offset :: nat

record pe_image =
  pe_data :: bytes
  pe_machine :: u16
  pe_sections :: "section_rec list"

definition DOS_MAGIC :: bytes where "DOS_MAGIC = [0x4D, 0x5A]"
definition PE_SIGNATURE :: bytes where "PE_SIGNATURE = [0x50, 0x45, 0, 0]"
definition DOS_E_LFANEW_OFFSET :: nat where "DOS_E_LFANEW_OFFSET = 60"
definition COFF_HEADER_SIZE :: nat where "COFF_HEADER_SIZE = 20"
definition SECTION_HEADER_SIZE :: nat where "SECTION_HEADER_SIZE = 40"
definition PE32_PLUS_MAGIC :: u16 where "PE32_PLUS_MAGIC = 0x20b"
definition IMAGE_FILE_MACHINE_ARM64 :: u16 where "IMAGE_FILE_MACHINE_ARM64 = 0xaa64"

lemmas pe_consts = DOS_MAGIC_def PE_SIGNATURE_def DOS_E_LFANEW_OFFSET_def COFF_HEADER_SIZE_def
  SECTION_HEADER_SIZE_def PE32_PLUS_MAGIC_def IMAGE_FILE_MACHINE_ARM64_def

section \<open>Checked access\<close>

definition pe_checked_add :: "nat \<Rightarrow> nat \<Rightarrow> string \<Rightarrow> nat io" where
  "pe_checked_add l r description =
     ok_or (IoError InvalidData (description @ '' offset overflows'')) (checked_add_usize l r)"

definition pe_checked_mul :: "nat \<Rightarrow> nat \<Rightarrow> string \<Rightarrow> nat io" where
  "pe_checked_mul l r description =
     ok_or (IoError InvalidData (description @ '' overflows'')) (checked_mul_usize l r)"

definition pe_checked_slice :: "bytes \<Rightarrow> nat \<Rightarrow> nat \<Rightarrow> string \<Rightarrow> bytes io" where
  "pe_checked_slice data offset len description =
     bind_io (pe_checked_add offset len description) (\<lambda>e.
     ok_or (IoError InvalidData (description @ '' exceeds PE image'')) (slice_get data offset e))"

definition pe_read_u16 :: "bytes \<Rightarrow> nat \<Rightarrow> string \<Rightarrow> u16 io" where
  "pe_read_u16 data offset description =
     bind_io (pe_checked_slice data offset 2 description) (\<lambda>bs. Inr (from_le_bytes bs))"

definition pe_read_u32 :: "bytes \<Rightarrow> nat \<Rightarrow> string \<Rightarrow> u32 io" where
  "pe_read_u32 data offset description =
     bind_io (pe_checked_slice data offset 4 description) (\<lambda>bs. Inr (from_le_bytes bs))"

lemma pe_checked_slice_Inr [simp]:
  "pe_checked_slice data offset len d = Inr bs \<longleftrightarrow>
     offset + len < usize_limit \<and> offset + len \<le> length data \<and> bs = slice data offset (offset + len)"
  by (auto simp: pe_checked_slice_def pe_checked_add_def)

section \<open>Parsing\<close>

text \<open>The body of the section loop, for the section header at \<open>offset\<close>.\<close>

definition pe_parse_section :: "bytes \<Rightarrow> nat \<Rightarrow> section_rec io" where
  "pe_parse_section data offset =
     bind_io (pe_checked_slice data offset SECTION_HEADER_SIZE ''section header'') (\<lambda>raw.
     let name = slice raw 0 8;
         len = unat (from_le_bytes (slice raw 16 20) :: u32);
         data_offset = unat (from_le_bytes (slice raw 20 24) :: u32)
     in bind_io (pe_checked_slice data data_offset len ''section data'') (\<lambda>section_data.
        Inr \<lparr>sec_name = name, sec_data = section_data, sec_raw_offset = data_offset\<rparr>))"

definition pe_parse :: "bytes \<Rightarrow> pe_image option io" where
  "pe_parse data =
     (if slice_get data 0 (length DOS_MAGIC) \<noteq> Some DOS_MAGIC then Inr None
      else
        bind_io (pe_read_u32 data DOS_E_LFANEW_OFFSET ''DOS e_lfanew'') (\<lambda>lfanew.
        let pe_offset = unat lfanew in
        bind_io (pe_checked_slice data pe_offset (length PE_SIGNATURE) ''PE signature'') (\<lambda>signature.
        if signature \<noteq> PE_SIGNATURE then invalid_data ''MZ image does not contain a PE/COFF signature''
        else
        bind_io (pe_checked_add pe_offset (length PE_SIGNATURE) ''COFF header offset'') (\<lambda>coff_offset.
        bind_io (pe_checked_slice data coff_offset COFF_HEADER_SIZE ''COFF header'') (\<lambda>_.
        bind_io (pe_read_u16 data coff_offset ''COFF machine'') (\<lambda>machine.
        bind_io (pe_read_u16 data (coff_offset + 2) ''COFF section count'') (\<lambda>count.
        let section_count = unat count in
        bind_io (pe_read_u16 data (coff_offset + 16) ''COFF optional header size'') (\<lambda>opt.
        let optional_header_size = unat opt in
        bind_io (pe_checked_add coff_offset COFF_HEADER_SIZE ''optional header offset'') (\<lambda>optional_header_offset.
        bind_io (pe_checked_slice data optional_header_offset optional_header_size ''optional header'') (\<lambda>_.
        bind_io (pe_read_u16 data optional_header_offset ''optional header magic'') (\<lambda>optional_magic.
        if optional_magic \<noteq> PE32_PLUS_MAGIC then invalid_data ''PE/COFF optional header is not PE32+''
        else
        bind_io (pe_checked_add optional_header_offset optional_header_size ''section table offset'') (\<lambda>section_table_offset.
        bind_io (pe_checked_mul section_count SECTION_HEADER_SIZE ''section table size'') (\<lambda>section_table_size.
        bind_io (pe_checked_slice data section_table_offset section_table_size ''section table'') (\<lambda>_.
        bind_io
          (map_io (\<lambda>index. pe_parse_section data (section_table_offset + index * SECTION_HEADER_SIZE))
             [0..<section_count]) (\<lambda>sections.
        Inr (Some \<lparr>pe_data = data, pe_machine = machine, pe_sections = sections\<rparr>))))))))))))))))"

text \<open>\<open>section_name\<close>: the bytes before the first NUL of the eight (then read as lossy UTF-8).\<close>

definition section_name_bytes :: "bytes \<Rightarrow> bytes" where
  "section_name_bytes name =
     (case position (\<lambda>b. b = 0) name of None \<Rightarrow> name | Some len \<Rightarrow> take len name)"

section \<open>The file format\<close>

text \<open>
  The PE/COFF format as its specification lays it out: at 60 the offset of the signature; after its
  four bytes the COFF header with the machine at 0, the section count at 2 and the size of the
  optional header at 16 of its 20 bytes; the optional header, which opens with the PE32+ magic; and
  the section headers of 40 bytes each, with the name in the first 8, SizeOfRawData at 16 and
  PointerToRawData at 20. \<open>le_number\<close> is the value of little-endian bytes.
\<close>

primrec le_number :: "bytes \<Rightarrow> nat" where
  "le_number [] = 0"
| "le_number (b # bs) = unat b + 256 * le_number bs"

definition number_at :: "bytes \<Rightarrow> nat \<Rightarrow> nat \<Rightarrow> nat" where
  "number_at data off width = le_number (slice data off (off + width))"

definition section_at :: "bytes \<Rightarrow> nat \<Rightarrow> section_rec \<Rightarrow> bool" where
  "section_at data header s \<longleftrightarrow>
     (let size = number_at data (header + 16) 4; raw = number_at data (header + 20) 4 in
      sec_name s = slice data header (header + 8) \<and> sec_raw_offset s = raw \<and>
      raw + size \<le> length data \<and> sec_data s = slice data raw (raw + size))"

definition is_pe_file :: "bytes \<Rightarrow> pe_image \<Rightarrow> bool" where
  "is_pe_file data img \<longleftrightarrow>
     64 \<le> length data \<and> take 2 data = [0x4D, 0x5A] \<and>
     (let pe = number_at data 60 4; coff = pe + 4; count = number_at data (coff + 2) 2; opt = coff + 20;
          table = opt + number_at data (coff + 16) 2 in
      slice data pe coff = [0x50, 0x45, 0, 0] \<and> opt + 2 \<le> length data \<and> number_at data opt 2 = 0x20b \<and>
      table + 40 * count \<le> length data \<and>
      pe_data img = data \<and> unat (pe_machine img) = number_at data coff 2 \<and> length (pe_sections img) = count \<and>
      (\<forall>i < count. section_at data (table + 40 * i) (pe_sections img ! i)))"

lemma from_le_bytes_Cons: "from_le_bytes (b # bs) = (push_bit 8 (from_le_bytes bs) OR ucast b :: 'w::len word)"
  by (simp add: from_le_bytes_def from_be_bytes_snoc)

lemma le_number_bound: "le_number bs < 256 ^ length bs"
proof (induction bs)
  case (Cons b bs)
  moreover have "unat b < 256" using unsigned_less [of b, where ?'a = nat] by simp
  ultimately show ?case by simp
qed simp

lemma unat_from_le_bytes:
  assumes "8 * length bs \<le> LENGTH('w)"
  shows "unat (from_le_bytes bs :: 'w::len word) = le_number bs"
  using assms
proof (induction bs)
  case Nil
  then show ?case by (simp add: from_le_bytes_def from_be_bytes_def)
next
  case (Cons b bs)
  let ?w = "from_le_bytes bs :: 'w word"
  have pow: "(256 :: nat) ^ length bs * 256 = 2 ^ (8 * length (b # bs))"
    by (simp add: power_add power_mult)
  have le: "(2 :: nat) ^ (8 * length (b # bs)) \<le> 2 ^ LENGTH('w)"
    using Cons.prems by (intro power_increasing) auto
  have "256 * le_number bs + unat b < 2 ^ (8 * length (b # bs))"
    using le_number_bound [of "b # bs"] pow by (simp add: mult.commute)
  then have lt: "256 * le_number bs + unat b < 2 ^ LENGTH('w)" using le by linarith
  have "unat (push_bit 8 ?w) = 256 * le_number bs"
    using Cons lt by (simp add: unsigned_push_bit_eq push_bit_nat_def mult.commute take_bit_nat_eq_self)
  moreover have "unat (ucast b :: 'w word) = unat b"
    using lt by (simp add: unsigned_ucast_eq take_bit_nat_eq_self)
  moreover have "push_bit 8 ?w AND ucast b = 0"
    by (rule bit_word_eqI) (auto simp: bit_simps dest: bit_imp_le_length)
  ultimately have "unat (push_bit 8 ?w OR ucast b) = 256 * le_number bs + unat b"
    using lt by (simp add: disjunctive_add_eq_or [symmetric] unat_word_ariths)
  then show ?case by (simp add: from_le_bytes_Cons)
qed

lemma number_at_u16:
  "off + 2 \<le> length data \<Longrightarrow> unat (from_le_bytes (slice data off (off + 2)) :: u16) = number_at data off 2"
  by (simp add: unat_from_le_bytes number_at_def)

lemma number_at_u32:
  "off + 4 \<le> length data \<Longrightarrow> unat (from_le_bytes (slice data off (off + 4)) :: u32) = number_at data off 4"
  by (simp add: unat_from_le_bytes number_at_def)

lemma number_at_word16: "off + 2 \<le> length data \<Longrightarrow> \<exists>w :: u16. unat w = number_at data off 2"
  using number_at_u16 by blast

lemma number_at_word32: "off + 4 \<le> length data \<Longrightarrow> \<exists>w :: u32. unat w = number_at data off 4"
  using number_at_u32 by blast

lemma pe_read_u16_Inr:
  "length data < usize_limit \<Longrightarrow>
   pe_read_u16 data off d = Inr w \<longleftrightarrow> off + 2 \<le> length data \<and> unat w = number_at data off 2"
  by (auto simp: pe_read_u16_def unsigned_word_eqI simp flip: number_at_u16 intro!: word_unat_eq_iff [THEN iffD2])

lemma pe_read_u32_Inr:
  "length data < usize_limit \<Longrightarrow>
   pe_read_u32 data off d = Inr w \<longleftrightarrow> off + 4 \<le> length data \<and> unat w = number_at data off 4"
  by (auto simp: pe_read_u32_def simp flip: number_at_u32 intro!: word_unat_eq_iff [THEN iffD2])

lemma slice_of_slice: "a \<le> b \<Longrightarrow> c + b \<le> d \<Longrightarrow> slice (slice xs c d) a b = slice xs (c + a) (c + b)"
  by (simp add: slice_def drop_take add.commute)

lemma pe_parse_section_iff:
  assumes "length data < usize_limit" and "header + 40 \<le> length data"
  shows "pe_parse_section data header = Inr s \<longleftrightarrow> section_at data header s"
proof -
  have raw: "unat (from_le_bytes (slice (slice data header (header + 40)) 20 24) :: u32) = number_at data (header + 20) 4"
    and size: "unat (from_le_bytes (slice (slice data header (header + 40)) 16 20) :: u32) = number_at data (header + 16) 4"
    using assms number_at_u32 [of "header + 20" data] number_at_u32 [of "header + 16" data]
    by (simp_all add: slice_of_slice add.assoc)
  show ?thesis
    using assms raw size
    by (cases s) (auto simp: pe_parse_section_def section_at_def Let_def pe_consts slice_of_slice)
qed

lemma map_io_list_all2: "map_io f xs = Inr ys \<longleftrightarrow> list_all2 (\<lambda>x y. f x = Inr y) xs ys"
  by (induction xs arbitrary: ys) (auto simp: list_all2_Cons1)

text \<open>
  C27: what is parsed is the PE format. An image is accepted exactly when the bytes are a PE32+ file
  by the layout above, and then the result holds those bytes, the machine of the COFF header and,
  for each section header in order, its name, its PointerToRawData and the SizeOfRawData bytes of
  the file from there, all in bounds.
\<close>

theorem pe_parse_exact:
  assumes "length data < usize_limit"
  shows "pe_parse data = Inr (Some img) \<longleftrightarrow> is_pe_file data img"
proof -
  let ?coff = "number_at data 60 4 + 4"
  let ?table = "?coff + 20 + number_at data (?coff + 16) 2" and ?count = "number_at data (?coff + 2) 2"
  have loop: "map_io (\<lambda>i. pe_parse_section data (?table + i * 40)) [0..<?count] = Inr ss \<longleftrightarrow>
      length ss = ?count \<and> (\<forall>i < ?count. section_at data (?table + 40 * i) (ss ! i))"
    if "?table + 40 * ?count \<le> length data" for ss
  proof -
    have "?table + i * 40 + 40 \<le> length data" if "i < ?count" for i
      using that \<open>?table + 40 * ?count \<le> length data\<close> by linarith
    then show ?thesis
      using assms by (auto simp: map_io_list_all2 list_all2_conv_all_nth pe_parse_section_iff mult.commute)
  qed
  have take: "slice data 0 2 = take 2 data" by (simp add: slice_def)
  have len: "length DOS_MAGIC = 2" "length PE_SIGNATURE = 4" by (simp_all add: pe_consts)
  show ?thesis
  proof
    assume "pe_parse data = Inr (Some img)"
    then show "is_pe_file data img"
      using assms loop unfolding pe_parse_def Let_def is_pe_file_def unfolding len unfolding pe_consts
      by (auto simp: pe_read_u16_Inr pe_read_u32_Inr pe_checked_add_def pe_checked_mul_def take
            mult.commute split: if_splits)
  next
    assume pe: "is_pe_file data img"
    then have bounds: "64 \<le> length data" "?coff + 22 \<le> length data" "?table + 40 * ?count \<le> length data"
      by (auto simp: is_pe_file_def Let_def)
    obtain p :: u32 where p: "unat p = number_at data 60 4" using bounds number_at_word32 [of 60 data] by auto
    obtain c :: u16 where c: "unat c = ?count" using bounds number_at_word16 [of "?coff + 2" data] by auto
    obtain t :: u16 where t: "unat t = number_at data (?coff + 16) 2" using bounds number_at_word16 [of "?coff + 16" data] by auto
    have read: "pe_read_u32 data 60 d = Inr p" "pe_read_u16 data (?coff + 2) d = Inr c" "pe_read_u16 data (?coff + 16) d = Inr t" for d
      using bounds assms p c t by (simp_all add: pe_read_u16_Inr pe_read_u32_Inr)
    have magic: "pe_read_u16 data (?coff + 20) d = Inr 0x20b" "pe_read_u16 data ?coff d = Inr (pe_machine img)" for d
      using bounds assms pe by (simp_all add: pe_read_u16_Inr is_pe_file_def Let_def)
    show "pe_parse data = Inr (Some img)"
      using pe assms loop [of "pe_sections img"] unfolding pe_parse_def Let_def is_pe_file_def unfolding len unfolding pe_consts
      by (cases img) (auto simp: read [simplified] magic [simplified] p c [simplified] t [simplified] pe_checked_add_def pe_checked_mul_def take mult.commute)
  qed
qed

text \<open>A small PE32+ file with one section, as the tests of the source build it.\<close>

definition demo_pe_of :: "bytes \<Rightarrow> bytes" where
  "demo_pe_of data =
     DOS_MAGIC @ replicate 58 0 @ [64, 0, 0, 0] @ PE_SIGNATURE @
     [0x64, 0xaa, 1, 0] @ replicate 12 0 @ [2, 0, 0, 0] @ [0x0b, 0x02] @
     [0x2e, 0x74, 0x65, 0x78, 0x74, 0, 0, 0] @ replicate 8 0 @
     to_le_bytes 4 (of_nat (length data) :: u32) @ [130, 0, 0, 0] @ replicate 16 0 @ data"

definition demo_pe :: bytes where
  "demo_pe = demo_pe_of [7, 8, 9]"

definition demo_pe_image :: pe_image where
  "demo_pe_image =
     \<lparr>pe_data = demo_pe, pe_machine = IMAGE_FILE_MACHINE_ARM64,
      pe_sections = [\<lparr>sec_name = [0x2e, 0x74, 0x65, 0x78, 0x74, 0, 0, 0], sec_data = [7, 8, 9],
                      sec_raw_offset = 130\<rparr>]\<rparr>"

lemma demo_pe_parses: "pe_parse demo_pe = Inr (Some demo_pe_image)"
  by code_simp

lemma pe_parse_exact_witness:
  "is_pe_file demo_pe demo_pe_image \<and> \<not> is_pe_file demo_pe (demo_pe_image\<lparr>pe_sections := []\<rparr>)"
proof -
  have "length demo_pe < usize_limit"
    by (simp add: demo_pe_def demo_pe_of_def pe_consts usize_limit_def)
  note exact = pe_parse_exact [OF this]
  show ?thesis
    unfolding exact [symmetric] by (simp add: demo_pe_parses demo_pe_image_def)
qed

end
