(* ===== verification/Zboot.thy ===== *)
theory Zboot
  imports RustText
begin

text \<open>
  The Linux EFI zboot header reader, \<open>src/zboot.rs\<close>: the magic fields, the payload range and
  the NUL-padded compression name.
\<close>

datatype compression = CompGzip | CompZstd | CompUnsupported

record zboot_image =
  zb_payload :: bytes
  zb_compression :: compression
  zb_compression_name :: string
  zb_payload_offset :: nat

definition DOS_SIGNATURE :: bytes where "DOS_SIGNATURE = [0x4D, 0x5A, 0, 0]"
definition ZBOOT_MAGIC :: bytes where "ZBOOT_MAGIC = [0x7A, 0x69, 0x6D, 0x67]"
definition LINUX_PE_MAGIC :: bytes where "LINUX_PE_MAGIC = to_le_bytes 4 (0x818223cd :: u32)"
definition PAYLOAD_OFFSET_OFFSET :: nat where "PAYLOAD_OFFSET_OFFSET = 8"
definition PAYLOAD_SIZE_OFFSET :: nat where "PAYLOAD_SIZE_OFFSET = 12"
definition COMPRESSION_OFFSET :: nat where "COMPRESSION_OFFSET = 24"
definition COMPRESSION_LEN :: nat where "COMPRESSION_LEN = 8"
definition LINUX_PE_MAGIC_OFFSET :: nat where "LINUX_PE_MAGIC_OFFSET = 56"
definition ZBOOT_MIN_HEADER_SIZE :: nat where "ZBOOT_MIN_HEADER_SIZE = 64"

lemmas zboot_consts = DOS_SIGNATURE_def ZBOOT_MAGIC_def LINUX_PE_MAGIC_def PAYLOAD_OFFSET_OFFSET_def
  PAYLOAD_SIZE_OFFSET_def COMPRESSION_OFFSET_def COMPRESSION_LEN_def LINUX_PE_MAGIC_OFFSET_def
  ZBOOT_MIN_HEADER_SIZE_def

definition zboot_read_u32 :: "bytes \<Rightarrow> nat \<Rightarrow> string \<Rightarrow> u32 io" where
  "zboot_read_u32 data offset description =
     bind_io (ok_or (IoError InvalidData (description @ '' is truncated'')) (slice_get data offset (offset + 4)))
       (\<lambda>bs. Inr (from_le_bytes bs))"

definition zboot_compression_name :: "bytes \<Rightarrow> string io" where
  "zboot_compression_name data =
     bind_io (ok_or (IoError InvalidData ''zboot compression field is truncated'')
       (slice_get data COMPRESSION_OFFSET (COMPRESSION_OFFSET + COMPRESSION_LEN))) (\<lambda>raw.
     let len = (case position (\<lambda>b. b = 0) raw of None \<Rightarrow> length raw | Some n \<Rightarrow> n) in
     if len = 0 then invalid_data ''zboot compression field is empty''
     else if utf8_valid (take len raw) then Inr (text_of (take len raw))
     else invalid_data ''zboot compression field is not UTF-8'')"

definition zboot_parse :: "bytes \<Rightarrow> zboot_image option io" where
  "zboot_parse data =
     (if slice_get data 0 (length DOS_SIGNATURE) \<noteq> Some DOS_SIGNATURE \<or> slice_get data 4 8 \<noteq> Some ZBOOT_MAGIC
      then Inr None
      else if length data < ZBOOT_MIN_HEADER_SIZE then invalid_data ''zboot header is truncated''
      else if slice_get data LINUX_PE_MAGIC_OFFSET (LINUX_PE_MAGIC_OFFSET + length LINUX_PE_MAGIC) \<noteq> Some LINUX_PE_MAGIC
      then invalid_data ''zboot header has invalid Linux PE magic''
      else
        bind_io (zboot_read_u32 data PAYLOAD_OFFSET_OFFSET ''zboot payload offset'') (\<lambda>off.
        bind_io (zboot_read_u32 data PAYLOAD_SIZE_OFFSET ''zboot payload size'') (\<lambda>len.
        let payload_offset = unat off; payload_size = unat len in
        bind_io (ok_or (IoError InvalidData ''zboot payload end overflows'')
          (checked_add_usize payload_offset payload_size)) (\<lambda>payload_end.
        bind_io (ok_or (IoError InvalidData ''zboot payload exceeds image'')
          (slice_get data payload_offset payload_end)) (\<lambda>payload.
        if payload = [] then invalid_data ''zboot payload is empty''
        else
          bind_io (zboot_compression_name data) (\<lambda>name.
          Inr (Some
            \<lparr>zb_payload = payload,
             zb_compression =
               (if name = ''gzip'' then CompGzip else if name = ''zstd'' then CompZstd else CompUnsupported),
             zb_compression_name = name,
             zb_payload_offset = payload_offset\<rparr>)))))))"

text \<open>
  An accepted zboot header describes a non-empty payload that is exactly the slice of the
  file at the header's payload offset and size fields, and the decompressor is chosen by the
  compression name alone.
\<close>

theorem zboot_parse_payload:
  assumes "zboot_parse data = Inr (Some z)"
  shows "zb_payload z \<noteq> [] \<and>
    zb_payload_offset z = unat (from_le_bytes (slice data 8 12) :: u32) \<and>
    zb_payload z = slice data (zb_payload_offset z)
      (zb_payload_offset z + unat (from_le_bytes (slice data 12 16) :: u32)) \<and>
    zb_payload_offset z + length (zb_payload z) \<le> length data \<and>
    (zb_compression z = CompGzip \<longleftrightarrow> zb_compression_name z = ''gzip'') \<and>
    (zb_compression z = CompZstd \<longleftrightarrow> zb_compression_name z = ''zstd'')"
  using assms
  by (auto simp: zboot_parse_def zboot_read_u32_def Let_def zboot_consts split: if_splits)

definition demo_zboot :: bytes where
  "demo_zboot =
     DOS_SIGNATURE @ ZBOOT_MAGIC @ [64, 0, 0, 0] @ [3, 0, 0, 0] @ replicate 8 0 @
     [0x7A, 0x73, 0x74, 0x64, 0, 0, 0, 0] @ replicate 24 0 @ LINUX_PE_MAGIC @ replicate 4 0 @ [1, 2, 3]"

lemma demo_zboot_parses:
  "zboot_parse demo_zboot =
     Inr (Some \<lparr>zb_payload = [1, 2, 3], zb_compression = CompZstd,
                zb_compression_name = ''zstd'', zb_payload_offset = 64\<rparr>)"
  by code_simp

theorem zboot_parse_payload_witness:
  "slice demo_zboot 64 (64 + unat (from_le_bytes (slice demo_zboot 12 16) :: u32)) = [1, 2, 3]"
  using zboot_parse_payload [OF demo_zboot_parses] by simp

end
