(* ===== verification/KernelImage.thy ===== *)
theory KernelImage
  imports Pe Zboot
begin

text \<open>
  Preparing the kernel payload for kexec (\<open>prepare_kernel_payload_bytes\<close> and the scans of
  \<open>src/kexec.rs\<close>): a raw arm64 Image passes through, a gzip payload is decompressed, and an
  arm64 Image is extracted from a PE/COFF wrapper (zboot payload, raw or gzipped section). The
  decompressors of the crates flate2 and ruzstd are parameters.
\<close>

record decoders =
  multi_gz_decode :: "bytes \<Rightarrow> error_kind + bytes"
  gz_decode :: "bytes \<Rightarrow> error_kind + bytes"
  zstd_open :: "bytes \<Rightarrow> bool"
  zstd_decode :: "bytes \<Rightarrow> error_kind + bytes"

definition GZIP_MAGIC :: bytes where "GZIP_MAGIC = [0x1f, 0x8b]"
definition ARM64_IMAGE_MAGIC_OFFSET :: nat where "ARM64_IMAGE_MAGIC_OFFSET = 56"
definition ARM64_IMAGE_MAGIC_BYTES :: bytes where "ARM64_IMAGE_MAGIC_BYTES = [0x41, 0x52, 0x4d, 0x64]"
definition ARM64_IMAGE_MIN_SIZE :: nat where "ARM64_IMAGE_MIN_SIZE = 64"
definition ARM64_PAGE_SIZE :: u64 where "ARM64_PAGE_SIZE = 4096"

lemmas kernel_consts = GZIP_MAGIC_def ARM64_IMAGE_MAGIC_OFFSET_def ARM64_IMAGE_MAGIC_BYTES_def
  ARM64_IMAGE_MIN_SIZE_def ARM64_PAGE_SIZE_def

definition is_raw_arm64_image :: "bytes \<Rightarrow> bool" where
  "is_raw_arm64_image payload =
     (if length payload < ARM64_IMAGE_MIN_SIZE \<or>
         slice_get payload ARM64_IMAGE_MAGIC_OFFSET
           (ARM64_IMAGE_MAGIC_OFFSET + length ARM64_IMAGE_MAGIC_BYTES) \<noteq> Some ARM64_IMAGE_MAGIC_BYTES
      then False
      else (from_le_bytes (slice payload 8 16) :: u64) mod ARM64_PAGE_SIZE = 0)"

text \<open>\<open>windows(n).position(|w| w == pat)\<close>: the first offset at which \<open>pat\<close> occurs.\<close>

definition find_window :: "bytes \<Rightarrow> bytes \<Rightarrow> nat option" where
  "find_window pat xs = position (\<lambda>i. slice xs i (i + length pat) = pat) [0..<Suc (length xs) - length pat]"

definition find_raw_arm64_image :: "bytes \<Rightarrow> (nat \<times> bytes) option" where
  "find_raw_arm64_image payload =
     Option.bind (find_window ARM64_IMAGE_MAGIC_BYTES payload) (\<lambda>magic_offset.
       if magic_offset < ARM64_IMAGE_MAGIC_OFFSET then None
       else
         (let start = magic_offset - ARM64_IMAGE_MAGIC_OFFSET; img = drop start payload
          in if is_raw_arm64_image img then Some (start, img) else None))"

definition decompress_embedded_gzip :: "decoders \<Rightarrow> bytes \<Rightarrow> bytes io" where
  "decompress_embedded_gzip dec payload =
     (case gz_decode dec payload of
        Inl k \<Rightarrow> Inl (IoError k ''decompress embedded gzip kernel image'')
      | Inr d \<Rightarrow> Inr d)"

lemma find_window_Some:
  "find_window pat xs = Some i \<longleftrightarrow>
     i + length pat < Suc (length xs) \<and> slice xs i (i + length pat) = pat \<and>
     (\<forall>j < i. slice xs j (j + length pat) \<noteq> pat)"
  by (auto simp: find_window_def position_Some)

lemma find_window_None:
  "find_window pat xs = None \<longleftrightarrow> (\<forall>i. i + length pat \<le> length xs \<longrightarrow> slice xs i (i + length pat) \<noteq> pat)"
  by (auto simp: find_window_def position_None)

text \<open>The scan loop of \<open>find_gzipped_arm64_image\<close>, from \<open>search_offset\<close> on.\<close>

function scan_gzip :: "decoders \<Rightarrow> bytes \<Rightarrow> nat \<Rightarrow> (nat \<times> bytes) option" where
  "scan_gzip dec payload search_offset =
     (case find_window GZIP_MAGIC (drop search_offset payload) of
        None \<Rightarrow> None
      | Some relative_offset \<Rightarrow>
          let offset = search_offset + relative_offset in
          (case decompress_embedded_gzip dec (drop offset payload) of
             Inr d \<Rightarrow> if is_raw_arm64_image d then Some (offset, d) else scan_gzip dec payload (offset + 1)
           | Inl e \<Rightarrow> scan_gzip dec payload (offset + 1)))"
  by pat_completeness auto
termination
  by (relation "measure (\<lambda>(dec, payload, off). length payload - off)")
    (auto simp: find_window_Some GZIP_MAGIC_def)

declare scan_gzip.simps [simp del]

definition find_gzipped_arm64_image :: "decoders \<Rightarrow> bytes \<Rightarrow> (nat \<times> bytes) option io" where
  "find_gzipped_arm64_image dec payload = Inr (scan_gzip dec payload 0)"

definition decompress_toplevel_gzip :: "decoders \<Rightarrow> bytes \<Rightarrow> bytes io" where
  "decompress_toplevel_gzip dec payload =
     (case multi_gz_decode dec payload of
        Inl k \<Rightarrow> Inl (IoError k ''decompress gzip kernel image'')
      | Inr d \<Rightarrow> Inr d)"

definition decompress_zstd :: "decoders \<Rightarrow> bytes \<Rightarrow> bytes io" where
  "decompress_zstd dec payload =
     (if \<not> zstd_open dec payload then invalid_data ''create zstd decoder''
      else (case zstd_decode dec payload of
              Inl k \<Rightarrow> Inl (IoError k ''decompress zstd payload'')
            | Inr d \<Rightarrow> Inr d))"

definition decompress_zboot_payload :: "decoders \<Rightarrow> zboot_image \<Rightarrow> bytes io" where
  "decompress_zboot_payload dec img =
     (case zb_compression img of
        CompGzip \<Rightarrow>
          (case decompress_embedded_gzip dec (zb_payload img) of
             Inl e \<Rightarrow> Inl (IoError (kind_of e) (''decompress gzip zboot payload: '' @ message_of e))
           | Inr d \<Rightarrow> Inr d)
      | CompZstd \<Rightarrow> decompress_zstd dec (zb_payload img)
      | CompUnsupported \<Rightarrow> invalid_data (''unsupported zboot compression type '' @ zb_compression_name img))"

text \<open>The two section scans of \<open>extract_pe_arm64_kernel\<close>, in the order of the section table.\<close>

fun scan_sections_raw :: "section_rec list \<Rightarrow> bytes option" where
  "scan_sections_raw [] = None"
| "scan_sections_raw (s # ss) =
     (case find_raw_arm64_image (sec_data s) of
        Some (_, img) \<Rightarrow> Some img
      | None \<Rightarrow> scan_sections_raw ss)"

fun scan_sections_gzip :: "decoders \<Rightarrow> section_rec list \<Rightarrow> bytes option io" where
  "scan_sections_gzip dec [] = Inr None"
| "scan_sections_gzip dec (s # ss) =
     bind_io (find_gzipped_arm64_image dec (sec_data s)) (\<lambda>found.
       case found of
         Some (_, img) \<Rightarrow> Inr (Some img)
       | None \<Rightarrow> scan_sections_gzip dec ss)"

definition extract_pe_arm64_kernel :: "decoders \<Rightarrow> pe_image \<Rightarrow> bytes io" where
  "extract_pe_arm64_kernel dec pe =
     bind_io (zboot_parse (pe_data pe)) (\<lambda>z.
       case z of
         Some zboot \<Rightarrow>
           bind_io (decompress_zboot_payload dec zboot) (\<lambda>img.
             if \<not> is_raw_arm64_image img
             then invalid_data ''zboot payload did not decompress to a raw arm64 Image''
             else Inr img)
       | None \<Rightarrow>
           (case scan_sections_raw (pe_sections pe) of
              Some img \<Rightarrow> Inr img
            | None \<Rightarrow>
                bind_io (scan_sections_gzip dec (pe_sections pe)) (\<lambda>found.
                  case found of
                    Some img \<Rightarrow> Inr img
                  | None \<Rightarrow> invalid_data ''PE/COFF ARM64 kernel does not contain a supported zboot, raw, or gzipped arm64 Image payload'')))"

definition prepare_kernel_payload_bytes :: "decoders \<Rightarrow> bytes \<Rightarrow> bytes option io" where
  "prepare_kernel_payload_bytes dec payload =
     (if is_raw_arm64_image payload then Inr None
      else if starts_with GZIP_MAGIC payload then
        bind_io (decompress_toplevel_gzip dec payload) (\<lambda>d. Inr (Some d))
      else
        bind_io (pe_parse payload) (\<lambda>pe.
          case pe of
            None \<Rightarrow> Inr None
          | Some pe \<Rightarrow>
              if pe_machine pe \<noteq> IMAGE_FILE_MACHINE_ARM64 then invalid_data ''PE/COFF image is not ARM64''
              else bind_io (extract_pe_arm64_kernel dec pe) (\<lambda>img. Inr (Some img))))"

section \<open>Properties\<close>

lemma scan_sections_raw_raw: "scan_sections_raw ss = Some img \<Longrightarrow> is_raw_arm64_image img"
  by (induction ss)
    (auto simp: find_raw_arm64_image_def Let_def split: option.splits Option.bind_splits if_splits)

definition gzip_candidate :: "decoders \<Rightarrow> bytes \<Rightarrow> nat \<Rightarrow> bytes \<Rightarrow> bool" where
  "gzip_candidate dec payload off d \<longleftrightarrow>
     off + 2 \<le> length payload \<and> slice payload off (off + 2) = GZIP_MAGIC \<and>
     gz_decode dec (drop off payload) = Inr d \<and> is_raw_arm64_image d"

lemma slice_drop: "slice (drop n xs) a b = slice xs (n + a) (n + b)"
  by (simp add: slice_def add.commute)

lemma scan_gzip_least:
  assumes "off \<le> length payload"
  shows "(case scan_gzip dec payload off of
            None \<Rightarrow> \<forall>k d. off \<le> k \<longrightarrow> \<not> gzip_candidate dec payload k d
          | Some (o', d') \<Rightarrow> off \<le> o' \<and> gzip_candidate dec payload o' d' \<and>
              (\<forall>k d. off \<le> k \<longrightarrow> k < o' \<longrightarrow> \<not> gzip_candidate dec payload k d))"
  using assms
proof (induction dec payload off rule: scan_gzip.induct)
  case (1 dec payload off)
  show ?case
  proof (cases "find_window GZIP_MAGIC (drop off payload)")
    case None
    have "\<not> gzip_candidate dec payload k d" if "off \<le> k" for k d
    proof
      assume "gzip_candidate dec payload k d"
      then have "k - off + 2 \<le> length (drop off payload)"
        and "slice (drop off payload) (k - off) (k - off + 2) = GZIP_MAGIC"
        using that by (auto simp: gzip_candidate_def slice_drop)
      then show False using None by (auto simp: find_window_None GZIP_MAGIC_def)
    qed
    then show ?thesis using None by (simp add: scan_gzip.simps [of dec payload off])
  next
    case (Some rel)
    define o1 where "o1 = off + rel"
    have o1: "o1 + 2 \<le> length payload" "slice payload o1 (o1 + 2) = GZIP_MAGIC"
      using Some 1(3) by (auto simp: o1_def find_window_Some slice_drop GZIP_MAGIC_def add.assoc)
    have before: "\<not> gzip_candidate dec payload k d" if "off \<le> k" "k < o1" for k d
    proof
      assume "gzip_candidate dec payload k d"
      then have "slice (drop off payload) (k - off) (k - off + length GZIP_MAGIC) = GZIP_MAGIC"
        using that by (simp add: gzip_candidate_def slice_drop GZIP_MAGIC_def)
      moreover have "k - off < rel" using that by (simp add: o1_def)
      ultimately show False using Some unfolding find_window_Some by blast
    qed
    have here: "gzip_candidate dec payload o1 d \<longleftrightarrow>
        decompress_embedded_gzip dec (drop o1 payload) = Inr d \<and> is_raw_arm64_image d" for d
      using o1 by (auto simp: gzip_candidate_def decompress_embedded_gzip_def split: sum.splits)
    show ?thesis
    proof (cases "\<exists>d. gzip_candidate dec payload o1 d")
      case True
      then obtain d where d: "gzip_candidate dec payload o1 d" by blast
      then have "scan_gzip dec payload off = Some (o1, d)"
        using Some here [of d] by (simp add: scan_gzip.simps [of dec payload off] o1_def Let_def)
      then show ?thesis using d before o1_def by auto
    next
      case False
      then have rec: "scan_gzip dec payload off = scan_gzip dec payload (Suc o1)"
        using Some here
        by (auto simp: scan_gzip.simps [of dec payload off] o1_def Let_def split: sum.splits)
      have IH: "case scan_gzip dec payload (Suc o1) of
            None \<Rightarrow> \<forall>k d. Suc o1 \<le> k \<longrightarrow> \<not> gzip_candidate dec payload k d
          | Some (o', d') \<Rightarrow> Suc o1 \<le> o' \<and> gzip_candidate dec payload o' d' \<and>
              (\<forall>k d. Suc o1 \<le> k \<longrightarrow> k < o' \<longrightarrow> \<not> gzip_candidate dec payload k d)"
      proof (cases "decompress_embedded_gzip dec (drop o1 payload)")
        case (Inl e)
        then show ?thesis using "1.IH"(1) [OF Some o1_def Inl] o1(1) by (auto split: option.splits)
      next
        case (Inr d)
        then have "\<not> is_raw_arm64_image d" using False here by blast
        then show ?thesis using "1.IH"(2) [OF Some o1_def Inr] o1(1) by (auto split: option.splits)
      qed
      have split: "\<not> gzip_candidate dec payload k d" if "off \<le> k" "Suc o1 \<le> k \<longrightarrow> \<not> gzip_candidate dec payload k d" for k d
        using that before False by (metis not_less_eq_eq le_neq_implies_less nat_le_linear)
      show ?thesis
        unfolding rec using IH split
        by (cases "scan_gzip dec payload (Suc o1)") (auto simp: o1_def)
    qed
  qed
qed

lemma scan_sections_gzip_raw: "scan_sections_gzip dec ss = Inr (Some d) \<Longrightarrow> is_raw_arm64_image d"
proof (induction ss)
  case (Cons s ss)
  then show ?case
    using scan_gzip_least [of 0 "sec_data s" dec]
    by (auto simp: find_gzipped_arm64_image_def gzip_candidate_def split: option.splits)
qed simp

lemma extract_pe_arm64_kernel_raw:
  assumes "extract_pe_arm64_kernel dec pe = Inr img"
  shows "is_raw_arm64_image img"
proof (cases "zboot_parse (pe_data pe)")
  case (Inl e)
  then show ?thesis using assms by (simp add: extract_pe_arm64_kernel_def)
next
  case (Inr z)
  show ?thesis
  proof (cases z)
    case (Some zb)
    then show ?thesis using assms Inr by (auto simp: extract_pe_arm64_kernel_def split: if_splits)
  next
    case None
    then show ?thesis
      using assms Inr scan_sections_raw_raw scan_sections_gzip_raw
      by (auto simp: extract_pe_arm64_kernel_def split: option.splits)
  qed
qed

text \<open>
  C28: a kernel image that preparation extracts from a PE/COFF file is a raw arm64 Image, whatever
  the decompressors return; only the top-level gzip path hands its output on unchecked.
\<close>

theorem prepared_pe_kernel_is_raw_image:
  assumes "prepare_kernel_payload_bytes dec payload = Inr (Some img)"
    and "\<not> starts_with GZIP_MAGIC payload"
  shows "is_raw_arm64_image img"
proof -
  obtain pe where "extract_pe_arm64_kernel dec pe = Inr img"
    using assms by (auto simp: prepare_kernel_payload_bytes_def split: if_splits option.splits)
  then show ?thesis by (rule extract_pe_arm64_kernel_raw)
qed

text \<open>
  The embedded gzip scan finds an image exactly when the section has one, and returns the
  first: the least offset that carries the gzip magic and decompresses to a raw arm64 Image.
\<close>

theorem find_gzipped_arm64_image_first:
  "find_gzipped_arm64_image dec payload = Inr (Some (off, d)) \<longleftrightarrow>
     gzip_candidate dec payload off d \<and> (\<forall>k < off. \<forall>d'. \<not> gzip_candidate dec payload k d')"
proof -
  have u: "gzip_candidate dec payload k d1 \<Longrightarrow> gzip_candidate dec payload k d2 \<Longrightarrow> d1 = d2" for k d1 d2
    by (auto simp: gzip_candidate_def)
  show ?thesis
  proof (cases "scan_gzip dec payload 0")
    case None
    then show ?thesis
      using scan_gzip_least [of 0 payload dec] by (simp add: find_gzipped_arm64_image_def)
  next
    case (Some r)
    obtain o' d' where r: "r = (o', d')" by (cases r)
    have least: "gzip_candidate dec payload o' d'" "\<forall>k < o'. \<forall>d. \<not> gzip_candidate dec payload k d"
      using scan_gzip_least [of 0 payload dec] Some r by auto
    have "off = o' \<and> d = d'" if "gzip_candidate dec payload off d"
      and "\<forall>k < off. \<forall>d'. \<not> gzip_candidate dec payload k d'"
      using that least u by (metis linorder_neqE_nat)
    then show ?thesis using Some r least by (auto simp: find_gzipped_arm64_image_def)
  qed
qed

section \<open>Concrete runs\<close>

definition demo_raw_image :: bytes where
  "demo_raw_image = replicate 56 0 @ ARM64_IMAGE_MAGIC_BYTES @ replicate 4 0"

text \<open>Decompressors that know one archive: three bytes that start with the gzip magic.\<close>

definition demo_decoders :: decoders where
  "demo_decoders =
     (let f = (\<lambda>xs. if xs = [0x1f, 0x8b, 7] then Inr demo_raw_image else Inl InvalidData)
      in \<lparr>multi_gz_decode = f, gz_decode = f, zstd_open = (\<lambda>_. True), zstd_decode = f\<rparr>)"

lemma demo_prepare:
  "prepare_kernel_payload_bytes demo_decoders (demo_pe_of [0x1f, 0x8b, 0x1f, 0x8b, 7]) = Inr (Some demo_raw_image)"
  by code_simp

lemma demo_not_gzip: "\<not> starts_with GZIP_MAGIC (demo_pe_of [0x1f, 0x8b, 0x1f, 0x8b, 7])"
  by code_simp

theorem prepared_pe_kernel_is_raw_image_witness: "is_raw_arm64_image demo_raw_image"
  by (rule prepared_pe_kernel_is_raw_image [OF demo_prepare demo_not_gzip])

lemma find_gzipped_arm64_image_first_witness:
  "gzip_candidate demo_decoders [9, 0x1f, 0x8b, 0, 0x1f, 0x8b, 7] 4 demo_raw_image \<and>
   \<not> gzip_candidate demo_decoders [9, 0x1f, 0x8b, 0, 0x1f, 0x8b, 7] 1 demo_raw_image"
proof -
  have "find_gzipped_arm64_image demo_decoders [9, 0x1f, 0x8b, 0, 0x1f, 0x8b, 7] = Inr (Some (4, demo_raw_image))"
    by code_simp
  then show ?thesis unfolding find_gzipped_arm64_image_first by simp
qed

text \<open>
  The raw scan looks at the first occurrence of the arm64 magic only. There is a section
  holding a raw arm64 Image at a later offset that the scan does not find, because four magic
  bytes stand before it, so the PE/COFF kernel is rejected although it contains an Image.
\<close>

theorem raw_scan_misses_later_image:
  "is_raw_arm64_image (drop 4 (ARM64_IMAGE_MAGIC_BYTES @ demo_raw_image)) \<and>
   find_raw_arm64_image (ARM64_IMAGE_MAGIC_BYTES @ demo_raw_image) = None \<and>
   prepare_kernel_payload_bytes demo_decoders (demo_pe_of (ARM64_IMAGE_MAGIC_BYTES @ demo_raw_image)) =
     invalid_data ''PE/COFF ARM64 kernel does not contain a supported zboot, raw, or gzipped arm64 Image payload''"
proof (intro conjI)
  show "is_raw_arm64_image (drop 4 (ARM64_IMAGE_MAGIC_BYTES @ demo_raw_image))" by code_simp
  show "find_raw_arm64_image (ARM64_IMAGE_MAGIC_BYTES @ demo_raw_image) = None" by code_simp
  show "prepare_kernel_payload_bytes demo_decoders (demo_pe_of (ARM64_IMAGE_MAGIC_BYTES @ demo_raw_image)) =
     invalid_data ''PE/COFF ARM64 kernel does not contain a supported zboot, raw, or gzipped arm64 Image payload''"
    by code_simp
qed

end
