(* ===== verification/KexecLoad.thy ===== *)
theory KexecLoad
  imports SpinTable Placement KernelImage
begin

text \<open>
  Loading a kernel (\<open>KexecImage\<close> and the module \<open>arm64\<close> of \<open>src/kexec.rs\<close>): the arm64 Image
  header, the trampoline, the plan of the segments (\<open>load\<close> up to the system call) and the
  preparation of the device tree. The system call, the contents of \<open>/proc/iomem\<close> and
  \<open>/sys/firmware/fdt\<close> and the linker symbols of the trampoline are arguments. The plan is built by
  \<open>find_region\<close> calls whose interface \<open>region_search\<close> keeps the placed ranges apart.
\<close>

section \<open>The arm64 Image header\<close>

definition KEXEC_SEGMENT_MAX :: nat where "KEXEC_SEGMENT_MAX = 16"
definition SZ_2M :: u64 where "SZ_2M = 2 * 1024 * 1024"
definition SZ_1G :: u64 where "SZ_1G = 1024 * 1024 * 1024"
definition SZ_32G :: u64 where "SZ_32G = 32 * SZ_1G"
definition SZ_16M :: u64 where "SZ_16M = 16 * 1024 * 1024"
definition ARM64_IMAGE_MAGIC :: u32 where "ARM64_IMAGE_MAGIC = 0x644d5241"
definition MAX_DTB_SIZE :: nat where "MAX_DTB_SIZE = 2 * 1024 * 1024"

lemmas kexec_consts = KEXEC_SEGMENT_MAX_def SZ_2M_def SZ_1G_def SZ_32G_def SZ_16M_def ARM64_IMAGE_MAGIC_def MAX_DTB_SIZE_def

record image_header =
  text_offset :: u64
  image_size :: u64

record loaded_segment =
  seg_name :: string
  seg_data :: bytes
  seg_phys :: u64
  seg_memsz :: u64

definition image_header_parse :: "bytes \<Rightarrow> image_header io" where
  "image_header_parse kern =
     (if length kern < 64 then invalid_data ''arm64 Image is smaller than its 64-byte header''
      else if (from_le_bytes (slice kern 56 60) :: u32) \<noteq> ARM64_IMAGE_MAGIC
      then invalid_data ''kernel is not a raw arm64 Image''
      else
        (let raw_text_offset = (from_le_bytes (slice kern 8 16) :: u64);
             raw_image_size = (from_le_bytes (slice kern 16 24) :: u64)
         in Inr (if raw_image_size = 0
                 then \<lparr>text_offset = 0x80000, image_size = max (of_nat (length kern)) SZ_16M\<rparr>
                 else \<lparr>text_offset = raw_text_offset, image_size = raw_image_size\<rparr>)))"

section \<open>The trampoline\<close>

text \<open>
  The trampoline is data of the running binary between two linker symbols. Its instructions are the
  assembly block of the source; the bytes the assembler makes of them, and the addresses, are the
  environment's: \<open>tr_code\<close> holds the bytes from \<open>__pb_tramp_start\<close> (at \<open>tr_start\<close>) to
  \<open>__pb_tramp_end\<close>.
\<close>

record trampoline_symbols =
  tr_code :: bytes
  tr_start :: nat
  tr_end :: nat
  tr_kernel_slot :: nat
  tr_dtb_slot :: nat

definition build_trampoline :: "trampoline_symbols \<Rightarrow> u64 \<Rightarrow> u64 \<Rightarrow> bytes io" where
  "build_trampoline syms kernel_entry dtb_addr =
     (if \<not> (tr_start syms \<le> tr_kernel_slot syms \<and> tr_kernel_slot syms + 8 \<le> tr_end syms \<and>
             tr_start syms \<le> tr_dtb_slot syms \<and> tr_dtb_slot syms + 8 \<le> tr_end syms)
      then invalid_data ''invalid arm64 trampoline symbol layout''
      else
        (let kernel_offset = tr_kernel_slot syms - tr_start syms;
             dtb_offset = tr_dtb_slot syms - tr_start syms
         in Inr (splice (splice (tr_code syms) kernel_offset (to_le_bytes 8 kernel_entry)) dtb_offset (to_le_bytes 8 dtb_addr))))"

section \<open>Planning the segments\<close>

definition exclude_reserved :: "phys_range list \<Rightarrow> (u64 \<times> u64) list \<Rightarrow> phys_range list" where
  "exclude_reserved usable reserved =
     foldl (\<lambda>usable (s, e). subtract_range usable \<lparr>rstart = s, rend = e\<rparr>) usable reserved"

abbreviation other_error :: "string \<Rightarrow> 'a io" where "other_error msg \<equiv> Inl (IoError OtherError msg)"

text \<open>The initrd step of \<open>load\<close>: a missing or empty initrd takes no memory.\<close>

definition place_initrd ::
  "phys_range list \<Rightarrow> phys_range list \<Rightarrow> u64 \<Rightarrow> u64 \<Rightarrow> bytes option \<Rightarrow>
   (phys_range list \<times> loaded_segment list \<times> (u64 \<times> u64) option) io" where
  "place_initrd usable occupied kernel_entry kernel_memsz initrd =
     (case initrd of
        None \<Rightarrow> Inr (occupied, [], None)
      | Some initrd \<Rightarrow>
          if initrd = [] then Inr (occupied, [], None)
          else
            bind_io (page_align (of_nat (length initrd))) (\<lambda>initrd_memsz.
            bind_io (checked_add_phys kernel_entry kernel_memsz) (\<lambda>lo.
            bind_io (checked_add_phys (align_down kernel_entry SZ_1G) SZ_32G) (\<lambda>hi.
            bind_io (ok_or (IoError OtherError ''no suitable RAM hole for initrd'')
                       (find_region usable occupied initrd_memsz PAGE_SIZE lo hi)) (\<lambda>initrd_phys.
            bind_io (checked_add_phys initrd_phys (of_nat (length initrd))) (\<lambda>initrd_end.
            bind_io (checked_add_phys initrd_phys initrd_memsz) (\<lambda>e.
            Inr (occupied @ [\<lparr>rstart = initrd_phys, rend = e\<rparr>],
                 [\<lparr>seg_name = ''initrd'', seg_data = initrd, seg_phys = initrd_phys, seg_memsz = initrd_memsz\<rparr>],
                 Some (initrd_phys, initrd_end)))))))))"

text \<open>
  \<open>load\<close> up to the system call: the entry point and the segments. The contents of
  \<open>/proc/iomem\<close> and the trampoline symbols are arguments.
\<close>

definition arm64_plan ::
  "trampoline_symbols \<Rightarrow> string io \<Rightarrow> bytes \<Rightarrow> bytes option \<Rightarrow> bytes \<Rightarrow> string \<Rightarrow> (u64 \<times> loaded_segment list) io" where
  "arm64_plan syms iomem kern initrd dtb cmdline =
     (if kern = [] then invalid_input ''kernel payload is empty''
      else if dtb = [] then invalid_input ''DTB payload is empty''
      else
      bind_io (image_header_parse kern) (\<lambda>header.
      if text_offset header mod PAGE_SIZE \<noteq> 0 then invalid_data ''arm64 Image text_offset is not page-aligned''
      else
      bind_io (bind_io iomem read_usable_memory) (\<lambda>usable.
      bind_io (reserved_ranges dtb) (\<lambda>reserved.
      let usable = exclude_reserved usable reserved in
      if usable = [] then invalid_data ''destination DTB reservations exclude all usable System RAM''
      else
      bind_io (page_align (max (image_size header) (of_nat (length kern)))) (\<lambda>kernel_memsz.
      bind_io (checked_add_phys (text_offset header) kernel_memsz) (\<lambda>kernel_region_size.
      bind_io (ok_or (IoError OtherError ''no suitable RAM hole for kernel'')
                 (find_region usable [] kernel_region_size SZ_2M 0 0xffffffffffffffff)) (\<lambda>kernel_base.
      bind_io (checked_add_phys kernel_base (text_offset header)) (\<lambda>kernel_entry.
      bind_io (checked_add_phys kernel_base kernel_region_size) (\<lambda>e.
      let occupied = [\<lparr>rstart = kernel_base, rend = e\<rparr>];
          segments = [\<lparr>seg_name = ''kernel'', seg_data = kern, seg_phys = kernel_entry, seg_memsz = kernel_memsz\<rparr>] in
      bind_io (place_initrd usable occupied kernel_entry kernel_memsz initrd) (\<lambda>(occupied, initrd_segments, initrd_range).
      let segments = segments @ initrd_segments in
      bind_io (patch_chosen dtb cmdline initrd_range) (\<lambda>patched_dtb.
      if MAX_DTB_SIZE < length patched_dtb then invalid_data ''patched DTB is too large''
      else
      bind_io (page_align (of_nat (length patched_dtb))) (\<lambda>dtb_memsz.
      bind_io (checked_add_phys kernel_entry kernel_memsz) (\<lambda>lo.
      bind_io (ok_or (IoError OtherError ''no suitable RAM hole for DTB'')
                 (find_region usable occupied dtb_memsz SZ_2M lo 0xffffffffffffffff)) (\<lambda>dtb_phys.
      bind_io (checked_add_phys dtb_phys dtb_memsz) (\<lambda>e.
      let occupied = occupied @ [\<lparr>rstart = dtb_phys, rend = e\<rparr>];
          segments = segments @ [\<lparr>seg_name = ''dtb'', seg_data = patched_dtb, seg_phys = dtb_phys, seg_memsz = dtb_memsz\<rparr>] in
      bind_io (build_trampoline syms kernel_entry dtb_phys) (\<lambda>trampoline.
      bind_io (page_align (of_nat (length trampoline))) (\<lambda>trampoline_memsz.
      bind_io (ok_or (IoError OtherError ''no suitable RAM hole for trampoline'')
                 (find_region usable occupied trampoline_memsz PAGE_SIZE lo 0xffffffffffffffff)) (\<lambda>trampoline_phys.
      let segments = segments @
        [\<lparr>seg_name = ''trampoline'', seg_data = trampoline, seg_phys = trampoline_phys, seg_memsz = trampoline_memsz\<rparr>] in
      if KEXEC_SEGMENT_MAX < length segments then invalid_input ''too many kexec segments''
      else Inr (trampoline_phys, segments)))))))))))))))))))"

text \<open>\<open>load\<close>: the plan is handed to the system call, which is a parameter.\<close>

definition arm64_load ::
  "(u64 \<Rightarrow> loaded_segment list \<Rightarrow> unit io) \<Rightarrow> trampoline_symbols \<Rightarrow> string io \<Rightarrow>
   bytes \<Rightarrow> bytes option \<Rightarrow> bytes \<Rightarrow> string \<Rightarrow> unit io" where
  "arm64_load kexec_load syms iomem kern initrd dtb cmdline =
     bind_io (arm64_plan syms iomem kern initrd dtb cmdline) (\<lambda>(entry, segments). kexec_load entry segments)"

section \<open>The staged image\<close>

text \<open>A file of the image is the result of reading it (\<open>read_payload\<close>).\<close>

record kexec_image =
  ki_kernel :: "bytes io"
  ki_initrd :: "bytes io option"
  ki_dtb :: "bytes io option"
  ki_cmdline :: string

definition kexec_image_new :: "bytes io \<Rightarrow> bytes io option \<Rightarrow> bytes io option \<Rightarrow> string \<Rightarrow> kexec_image io" where
  "kexec_image_new kern initrd dtb cmdline =
     (if 0 \<in> set (bytes_of cmdline) then invalid_input ''cmdline contains NUL byte''
      else Inr \<lparr>ki_kernel = kern, ki_initrd = initrd, ki_dtb = dtb, ki_cmdline = cmdline\<rparr>)"

definition read_current_dtb :: "bytes io \<Rightarrow> bytes io" where
  "read_current_dtb firmware_fdt =
     bind_io (map_err_prefix ''no DTB supplied and /sys/firmware/fdt could not be read: '' firmware_fdt) (\<lambda>dtb.
     graft_spin_table dtb dtb)"

definition with_live_memory :: "bytes io \<Rightarrow> bytes \<Rightarrow> bytes io" where
  "with_live_memory firmware_fdt dtb =
     bind_io (map_err_prefix
        ''DTB supplied but /sys/firmware/fdt could not be read for /memory graft: '' firmware_fdt) (\<lambda>live_dtb.
     bind_io (graft_memory dtb live_dtb) (\<lambda>grafted.
     graft_spin_table grafted live_dtb))"

definition kexec_image_load ::
  "(u64 \<Rightarrow> loaded_segment list \<Rightarrow> unit io) \<Rightarrow> trampoline_symbols \<Rightarrow> string io \<Rightarrow> bytes io \<Rightarrow> kexec_image \<Rightarrow> unit io" where
  "kexec_image_load kexec_load syms iomem firmware_fdt img =
     bind_io (ki_kernel img) (\<lambda>kern.
     bind_io (case ki_initrd img of None \<Rightarrow> Inr None | Some r \<Rightarrow> bind_io r (\<lambda>b. Inr (Some b))) (\<lambda>initrd.
     bind_io (case ki_dtb img of
                Some r \<Rightarrow> bind_io r (with_live_memory firmware_fdt)
              | None \<Rightarrow> read_current_dtb firmware_fdt) (\<lambda>dtb.
     arm64_load kexec_load syms iomem kern initrd dtb (ki_cmdline img))))"

section \<open>Segments\<close>

definition seg_range :: "loaded_segment \<Rightarrow> phys_range" where
  "seg_range s = \<lparr>rstart = seg_phys s, rend = seg_phys s + seg_memsz s\<rparr>"

definition seg_ok :: "loaded_segment \<Rightarrow> bool" where
  "seg_ok s \<longleftrightarrow>
     4096 dvd unat (seg_phys s) \<and> 4096 dvd unat (seg_memsz s) \<and>
     unat (seg_phys s) + unat (seg_memsz s) < 2 ^ 64 \<and> length (seg_data s) \<le> unat (seg_memsz s)"

lemma seg_range_end: "seg_ok s \<Longrightarrow> unat (rend (seg_range s)) = unat (seg_phys s) + unat (seg_memsz s)"
  by (simp add: seg_ok_def seg_range_def unat_add_exact)

text \<open>The segments planned so far, against the ranges they occupy.\<close>

definition plan_inv :: "phys_range list \<Rightarrow> phys_range list \<Rightarrow> loaded_segment list \<Rightarrow> bool" where
  "plan_inv usable occ segs \<longleftrightarrow>
     placed_ok usable occ \<and>
     list_all2 (\<lambda>r s. seg_ok s \<and> rstart r \<le> seg_phys s \<and> rend (seg_range s) = rend r) occ segs"

lemma plan_inv_Nil [simp]: "plan_inv usable [] []"
  by (simp add: plan_inv_def)

lemma plan_inv_place:
  assumes "plan_inv usable occ segs" and "find_region usable occ sz al lo hi = Some p"
    and "p \<le> seg_phys s" and "seg_ok s" and "seg_phys s + seg_memsz s = p + sz"
  shows "plan_inv usable (occ @ [\<lparr>rstart = p, rend = p + sz\<rparr>]) (segs @ [s])"
  using assms fr.place_next [of usable occ sz al lo hi p]
  by (simp add: plan_inv_def seg_range_def list_all2_appendI)

definition apart :: "loaded_segment list \<Rightarrow> bool" where
  "apart segs \<longleftrightarrow> sorted_wrt (\<lambda>a b. \<not> overlaps (seg_range a) (seg_range b)) segs"

lemma plan_inv_result:
  assumes "plan_inv usable occ segs"
  shows "\<forall>s \<in> set segs. seg_ok s" and "apart segs" and "addr_set (map seg_range segs) \<subseteq> addr_set usable"
proof -
  have len: "length occ = length segs" and at: "\<And>i. i < length segs \<Longrightarrow> seg_ok (segs ! i) \<and>
      rstart (occ ! i) \<le> seg_phys (segs ! i) \<and> rend (seg_range (segs ! i)) = rend (occ ! i)"
    using assms by (auto simp: plan_inv_def list_all2_conv_all_nth)
  show "\<forall>s \<in> set segs. seg_ok s" using at by (auto simp: in_set_conv_nth)
  have sub: "rstart (occ ! i) \<le> rstart (seg_range (segs ! i))" if "i < length segs" for i
    using at [OF that] by (simp add: seg_range_def)
  show "apart segs"
    unfolding apart_def sorted_wrt_iff_nth_less
  proof (intro allI impI)
    fix i j assume ij: "i < j" "j < length segs"
    then have "\<not> overlaps (occ ! i) (occ ! j)"
      using assms len by (simp add: plan_inv_def placed_ok_def sorted_wrt_iff_nth_less)
    then show "\<not> overlaps (seg_range (segs ! i)) (seg_range (segs ! j))"
      using at [of i] at [of j] sub [of i] sub [of j] ij by (auto simp: overlaps_def)
  qed
  have "addr_set (map seg_range segs) \<subseteq> addr_set occ"
  proof
    fix x assume "x \<in> addr_set (map seg_range segs)"
    then obtain i where i: "i < length segs" "x \<in> range_addrs (seg_range (segs ! i))"
      by (auto simp: addr_set_def in_set_conv_nth)
    then have "x \<in> range_addrs (occ ! i)" using at [OF i(1)] sub [OF i(1)] by (auto simp: range_addrs_def)
    then show "x \<in> addr_set occ" using i(1) len by (auto simp: addr_set_def)
  qed
  then show "addr_set (map seg_range segs) \<subseteq> addr_set usable"
    using placed_ok_addrs assms by (auto simp: plan_inv_def)
qed

definition reserved_addrs :: "(u64 \<times> u64) list \<Rightarrow> u64 set" where
  "reserved_addrs rs = {x. \<exists>(s, e) \<in> set rs. s \<le> x \<and> x < e}"

lemma exclude_reserved_addrs: "addr_set (exclude_reserved usable rs) = addr_set usable - reserved_addrs rs"
proof (induction rs arbitrary: usable)
  case (Cons r rs)
  then show ?case
    by (cases r) (auto simp: exclude_reserved_def subtract_range_addrs reserved_addrs_def range_addrs_def)
qed (simp add: exclude_reserved_def reserved_addrs_def)

section \<open>What a plan contains\<close>

lemma if_err_Inr: "(if b then Inl e else x) = Inr y \<longleftrightarrow> \<not> b \<and> x = Inr y"
  by simp

lemma case_triple_Inr: "(case p of (a, b, c) \<Rightarrow> f a b c) = Inr y \<longleftrightarrow> (\<exists>a b c. p = (a, b, c) \<and> f a b c = Inr y)"
  by (cases p) auto

definition initrd_placed :: "bytes option \<Rightarrow> u64 \<Rightarrow> u64 \<Rightarrow> loaded_segment list \<Rightarrow> (u64 \<times> u64) option \<Rightarrow> bool" where
  "initrd_placed initrd kernel_entry kernel_memsz segs r \<longleftrightarrow>
     (case initrd of
        Some b \<Rightarrow> b \<noteq> [] \<longrightarrow>
          (\<exists>s. segs = [s] \<and> seg_name s = ''initrd'' \<and> seg_data s = b \<and>
             r = Some (seg_phys s, seg_phys s + of_nat (length b)) \<and>
             unat kernel_entry + unat kernel_memsz \<le> unat (seg_phys s) \<and>
             unat (seg_phys s) + unat (seg_memsz s) \<le> unat kernel_entry div 2 ^ 30 * 2 ^ 30 + 2 ^ 35)
      | None \<Rightarrow> True) \<and>
     ((initrd = None \<or> initrd = Some []) \<longrightarrow> segs = [] \<and> r = None)"

lemma page_align_length:
  assumes "page_align (of_nat (length xs)) = Inr m" and "length xs < 2 ^ 64"
  shows "length xs \<le> unat m" and "4096 dvd unat m" and "xs \<noteq> [] \<Longrightarrow> m \<noteq> 0"
  using page_align_facts [OF assms(1)] assms(2) by (auto simp: unat_of_nat_u64)

lemma place_initrd_Inr:
  assumes run: "place_initrd usable occ kernel_entry kernel_memsz initrd = Inr (occ', segs, r)"
    and inv: "plan_inv usable occ ks" and len: "\<forall>b. initrd = Some b \<longrightarrow> length b < 2 ^ 64"
  shows "plan_inv usable occ' (ks @ segs)" and "initrd_placed initrd kernel_entry kernel_memsz segs r" and "length segs \<le> 1"
proof -
  have "plan_inv usable occ' (ks @ segs) \<and> initrd_placed initrd kernel_entry kernel_memsz segs r \<and> length segs \<le> 1"
  proof (cases "initrd = None \<or> initrd = Some []")
    case True
    then show ?thesis using run inv by (auto simp: place_initrd_def initrd_placed_def)
  next
    case False
    then obtain b where b: "initrd = Some b" "b \<noteq> []" by auto
    obtain m lo hi p ie e where m: "page_align (of_nat (length b)) = Inr m"
      and lo: "unat lo = unat kernel_entry + unat kernel_memsz"
      and hi: "unat hi = unat (align_down kernel_entry SZ_1G) + unat SZ_32G"
      and p: "find_region usable occ m PAGE_SIZE lo hi = Some p"
      and ie: "unat ie = unat p + unat (of_nat (length b) :: u64)" and e: "unat e = unat p + unat m"
      and res: "occ' = occ @ [\<lparr>rstart = p, rend = e\<rparr>]"
        "segs = [\<lparr>seg_name = ''initrd'', seg_data = b, seg_phys = p, seg_memsz = m\<rparr>]" "r = Some (p, ie)"
      using run b by (auto simp: place_initrd_def)
    have pm: "length b \<le> unat m" "4096 dvd unat m" using page_align_length [OF m] len b(1) by auto
    note f = find_region_fits [OF p] and se = fr.search_end [OF p]
    have e': "e = p + m" "ie = p + of_nat (length b)"
      using e ie unat_less_u64 [of e] unat_less_u64 [of ie] by (simp_all add: word_unat_eq_iff unat_add_exact)
    have ok: "seg_ok \<lparr>seg_name = ''initrd'', seg_data = b, seg_phys = p, seg_memsz = m\<rparr>"
      using f pm e unat_less_u64 [of e] by (simp add: seg_ok_def fits_def PAGE_SIZE_def)
    have win: "unat (align_down kernel_entry SZ_1G) = unat kernel_entry div 2 ^ 30 * 2 ^ 30"
    proof -
      have "is_power_of_two SZ_1G" by code_simp
      then show ?thesis by (simp add: align_down_facts kexec_consts)
    qed
    have "initrd_placed initrd kernel_entry kernel_memsz segs r"
      using b res e' f lo hi win by (simp add: initrd_placed_def fits_def word_le_nat_alt kexec_consts)
    moreover have "plan_inv usable occ' (ks @ segs)"
      using plan_inv_place [OF inv p _ ok] by (simp add: res e')
    ultimately show ?thesis by (simp add: res)
  qed
  then show "plan_inv usable occ' (ks @ segs)" "initrd_placed initrd kernel_entry kernel_memsz segs r" "length segs \<le> 1"
    by auto
qed

definition syms_ok :: "trampoline_symbols \<Rightarrow> bool" where
  "syms_ok syms \<longleftrightarrow> length (tr_code syms) = tr_end syms - tr_start syms \<and> tr_end syms < usize_limit"

lemma build_trampoline_length: "build_trampoline syms k d = Inr t \<Longrightarrow> syms_ok syms \<Longrightarrow> length t = length (tr_code syms) \<and> t \<noteq> []"
proof -
  assume run: "build_trampoline syms k d = Inr t" and ok: "syms_ok syms"
  have sl: "tr_start syms \<le> tr_kernel_slot syms \<and> tr_kernel_slot syms + 8 \<le> tr_end syms \<and>
             tr_start syms \<le> tr_dtb_slot syms \<and> tr_dtb_slot syms + 8 \<le> tr_end syms"
    and t: "t = splice (splice (tr_code syms) (tr_kernel_slot syms - tr_start syms) (to_le_bytes 8 k)) (tr_dtb_slot syms - tr_start syms) (to_le_bytes 8 d)"
    using run by (simp_all add: build_trampoline_def Let_def split: if_split_asm)
  have "tr_kernel_slot syms - tr_start syms + 8 \<le> length (tr_code syms)" "tr_dtb_slot syms - tr_start syms + 8 \<le> length (tr_code syms)"
    using sl ok by (auto simp: syms_ok_def)
  then have "length t = length (tr_code syms)" by (simp add: t)
  moreover have "0 < length (tr_code syms)" using sl ok by (simp add: syms_ok_def)
  ultimately show "length t = length (tr_code syms) \<and> t \<noteq> []" by auto
qed

text \<open>The shape of a plan, read off the definition.\<close>

definition plan_shape ::
  "trampoline_symbols \<Rightarrow> bytes \<Rightarrow> bytes option \<Rightarrow> bytes \<Rightarrow> string \<Rightarrow> u64 \<Rightarrow> loaded_segment list \<Rightarrow> bool" where
  "plan_shape syms kern initrd dtb cmdline entry segs \<longleftrightarrow>
     (\<exists>h k isegs d t r.
        image_header_parse kern = Inr h \<and> segs = [k] @ isegs @ [d, t] \<and>
        map seg_name segs = [''kernel''] @ map seg_name isegs @ [''dtb'', ''trampoline''] \<and>
        seg_data k = kern \<and> unat (image_size h) \<le> unat (seg_memsz k) \<and>
        (\<exists>base :: u64. unat (seg_phys k) = unat base + unat (text_offset h) \<and> 2 ^ 21 dvd unat base) \<and>
        initrd_placed initrd (seg_phys k) (seg_memsz k) isegs r \<and>
        patch_chosen dtb cmdline r = Inr (seg_data d) \<and> length (seg_data d) \<le> 2 ^ 21 \<and>
        2 ^ 21 dvd unat (seg_phys d) \<and> unat (seg_phys k) + unat (seg_memsz k) \<le> unat (seg_phys d) \<and>
        build_trampoline syms (seg_phys k) (seg_phys d) = Inr (seg_data t) \<and> entry = seg_phys t)"

lemma arm64_plan_Inr:
  assumes run: "arm64_plan syms (Inr text) kern initrd dtb cmdline = Inr (entry, segs)"
    and len: "length kern < 2 ^ 64" "\<forall>b. initrd = Some b \<longrightarrow> length b < 2 ^ 64" "syms_ok syms"
  shows "\<exists>reserved occ. reserved_ranges dtb = Inr reserved \<and>
      plan_inv (exclude_reserved (parse_iomem text) reserved) occ segs"
    and "plan_shape syms kern initrd dtb cmdline entry segs" and "length segs \<le> 4"
proof -
  note u = run [unfolded arm64_plan_def Let_def bind_io_simps bind_io_eq_Inr if_err_Inr ok_or_eq_Inr case_triple_Inr checked_add_phys_Inr]
  then obtain h usable0 reserved m rsz base ke e occ isegs r pd dm lo dp e2 tr tm tp where
    h: "image_header_parse kern = Inr h" "\<not> text_offset h mod PAGE_SIZE \<noteq> 0"
    and us: "read_usable_memory text = Inr usable0" "reserved_ranges dtb = Inr reserved"
    and m: "page_align (max (image_size h) (of_nat (length kern))) = Inr m"
    and rsz: "unat rsz = unat (text_offset h) + unat m"
    and base: "find_region (exclude_reserved usable0 reserved) [] rsz SZ_2M 0 0xffffffffffffffff = Some base"
    and ke: "unat ke = unat base + unat (text_offset h)" and e: "unat e = unat base + unat rsz"
    and ini: "place_initrd (exclude_reserved usable0 reserved) [\<lparr>rstart = base, rend = e\<rparr>] ke m initrd = Inr (occ, isegs, r)"
    and pd: "patch_chosen dtb cmdline r = Inr pd" "\<not> MAX_DTB_SIZE < length pd"
    and dm: "page_align (of_nat (length pd)) = Inr dm" and lo: "unat lo = unat ke + unat m"
    and dp: "find_region (exclude_reserved usable0 reserved) occ dm SZ_2M lo 0xffffffffffffffff = Some dp"
    and e2: "unat e2 = unat dp + unat dm"
    and tr: "build_trampoline syms ke dp = Inr tr" and tm: "page_align (of_nat (length tr)) = Inr tm"
    and tp: "find_region (exclude_reserved usable0 reserved) (occ @ [\<lparr>rstart = dp, rend = e2\<rparr>]) tm PAGE_SIZE lo 0xffffffffffffffff = Some tp"
    and res: "(Inr (tp, (([\<lparr>seg_name = ''kernel'', seg_data = kern, seg_phys = ke, seg_memsz = m\<rparr>] @ isegs) @
         [\<lparr>seg_name = ''dtb'', seg_data = pd, seg_phys = dp, seg_memsz = dm\<rparr>]) @
         [\<lparr>seg_name = ''trampoline'', seg_data = tr, seg_phys = tp, seg_memsz = tm\<rparr>]) :: (u64 \<times> loaded_segment list) io) = Inr (entry, segs)"
    by (elim exE conjE, hypsubst) (rule that, assumption+)
  let ?us = "exclude_reserved usable0 reserved"
  let ?k = "\<lparr>seg_name = ''kernel'', seg_data = kern, seg_phys = ke, seg_memsz = m\<rparr>"
  let ?d = "\<lparr>seg_name = ''dtb'', seg_data = pd, seg_phys = dp, seg_memsz = dm\<rparr>"
  let ?t = "\<lparr>seg_name = ''trampoline'', seg_data = tr, seg_phys = tp, seg_memsz = tm\<rparr>"
  have segs: "entry = tp" "segs = [?k] @ isegs @ [?d, ?t]" using res by auto
  have exact: "e = base + rsz" "e2 = dp + dm" "ke = base + text_offset h" "ke + m = base + rsz"
    using e e2 ke rsz unat_less_u64 [of e] unat_less_u64 [of e2] unat_less_u64 [of ke]
    by (simp_all add: word_unat_eq_iff unat_add_exact)
  have km: "unat (image_size h) \<le> unat m" "length kern \<le> unat m" "4096 dvd unat m"
    using page_align_facts [OF m] len(1) by (auto simp: max_def word_le_nat_alt unat_of_nat_u64 split: if_split_asm)
  have pow: "4096 dvd (n :: nat)" if "2097152 dvd n" for n using dvd_trans [OF _ that, of 4096] by simp
  have off: "4096 dvd unat (text_offset h)"
  proof -
    have "text_offset h mod 4096 = 0" using h(2) by (simp add: PAGE_SIZE_def)
    from arg_cong [OF this, of unat] show ?thesis by (simp add: unat_mod_distrib dvd_eq_mod_eq_0)
  qed
  note f1 = find_region_fits [OF base] and f2 = find_region_fits [OF dp] and f3 = find_region_fits [OF tp]
  have al: "2097152 dvd unat base" "2097152 dvd unat dp" "4096 dvd unat tp"
    using f1 f2 f3 by (simp_all add: fits_def kexec_consts PAGE_SIZE_def)
  have okk: "seg_ok ?k"
    using km off pow [OF al(1)] ke e rsz unat_less_u64 [of e] by (simp add: seg_ok_def dvd_add)
  have inv1: "plan_inv ?us [\<lparr>rstart = base, rend = e\<rparr>] [?k]"
    using plan_inv_place [OF plan_inv_Nil base _ okk] ke exact(4) by (simp add: exact(1) word_le_nat_alt)
  note ini' = place_initrd_Inr [OF ini inv1 len(2)]
  have dlen: "length pd < 2 ^ 64" using pd(2) by (simp add: MAX_DTB_SIZE_def)
  note pm = page_align_length [OF dm dlen]
  have okd: "seg_ok ?d" using pow [OF al(2)] e2 unat_less_u64 [of e2] pm by (simp add: seg_ok_def)
  have inv2: "plan_inv ?us (occ @ [\<lparr>rstart = dp, rend = e2\<rparr>]) (([?k] @ isegs) @ [?d])"
    using plan_inv_place [OF ini'(1) dp _ okd] by (simp add: exact(2))
  have tlen: "length tr < 2 ^ 64"
    using build_trampoline_length [OF tr len(3)] len(3) by (auto simp: syms_ok_def usize_limit_def)
  note tm' = page_align_length [OF tm tlen]
  have okt: "seg_ok ?t" using al(3) tm' fr.search_end(5) [OF tp] unat_less_u64 [of "tp + tm"] by (simp add: seg_ok_def)
  have inv3: "plan_inv ?us ((occ @ [\<lparr>rstart = dp, rend = e2\<rparr>]) @ [\<lparr>rstart = tp, rend = tp + tm\<rparr>]) ((([?k] @ isegs) @ [?d]) @ [?t])"
    using plan_inv_place [OF inv2 tp _ okt] by simp
  show "length segs \<le> 4" using ini'(3) by (simp add: segs)
  have "usable0 = parse_iomem text" using us(1) by (simp add: read_usable_memory_def Let_def split: if_split_asm)
  then show "\<exists>reserved occ. reserved_ranges dtb = Inr reserved \<and>
      plan_inv (exclude_reserved (parse_iomem text) reserved) occ segs"
    using us(2) inv3 segs(2) by (metis append_assoc append_Cons append_Nil)
  have "unat ke + unat m \<le> unat dp" using f2 lo by (simp add: fits_def word_le_nat_alt)
  then show "plan_shape syms kern initrd dtb cmdline entry segs"
    unfolding plan_shape_def segs using h(1) km(1) ke al ini'(2) pd tr
    by (intro exI [of _ h] exI [of _ ?k] exI [of _ isegs] exI [of _ ?d] exI [of _ ?t] exI [of _ r])
      (auto simp: MAX_DTB_SIZE_def)
qed

section \<open>Running the trampoline\<close>

text \<open>
  The instructions of the assembly block, with the offset of the literal for the two loads, and what
  they do to the registers.
\<close>

datatype tramp_instr =
    LoadLiteral nat nat
  | MoveZero nat
  | BranchReg nat

definition trampoline_program :: "trampoline_symbols \<Rightarrow> tramp_instr list" where
  "trampoline_program syms =
     [LoadLiteral 17 (tr_kernel_slot syms - tr_start syms), LoadLiteral 0 (tr_dtb_slot syms - tr_start syms),
      MoveZero 1, MoveZero 2, MoveZero 3, BranchReg 17]"

record cpu_regs =
  xreg :: "nat \<Rightarrow> u64"
  branch_to :: "u64 option"

fun tramp_step :: "bytes \<Rightarrow> cpu_regs \<Rightarrow> tramp_instr \<Rightarrow> cpu_regs" where
  "tramp_step seg s (LoadLiteral r off) = s\<lparr>xreg := (xreg s)(r := from_le_bytes (slice seg off (off + 8)))\<rparr>"
| "tramp_step seg s (MoveZero r) = s\<lparr>xreg := (xreg s)(r := 0)\<rparr>"
| "tramp_step seg s (BranchReg r) = s\<lparr>branch_to := Some (xreg s r)\<rparr>"

definition run_trampoline :: "trampoline_symbols \<Rightarrow> bytes \<Rightarrow> cpu_regs \<Rightarrow> cpu_regs" where
  "run_trampoline syms seg s = foldl (tramp_step seg) s (trampoline_program syms)"

text \<open>In the assembly block the kernel slot comes before the dtb slot.\<close>

definition syms_layout :: "trampoline_symbols \<Rightarrow> bool" where
  "syms_layout syms \<longleftrightarrow> syms_ok syms \<and> tr_kernel_slot syms + 8 \<le> tr_dtb_slot syms"

lemma run_trampoline_jumps:
  assumes "build_trampoline syms kernel_entry dtb_addr = Inr seg" and "syms_layout syms"
  shows "branch_to (run_trampoline syms seg s) = Some kernel_entry" "xreg (run_trampoline syms seg s) 0 = dtb_addr"
    "\<forall>r \<in> {1, 2, 3}. xreg (run_trampoline syms seg s) r = 0"
    "take (tr_kernel_slot syms - tr_start syms) seg = take (tr_kernel_slot syms - tr_start syms) (tr_code syms)"
proof -
  let ?ko = "tr_kernel_slot syms - tr_start syms" and ?do = "tr_dtb_slot syms - tr_start syms"
  have sl: "tr_start syms \<le> tr_kernel_slot syms \<and> tr_kernel_slot syms + 8 \<le> tr_end syms \<and>
             tr_start syms \<le> tr_dtb_slot syms \<and> tr_dtb_slot syms + 8 \<le> tr_end syms"
    and seg: "seg = splice (splice (tr_code syms) ?ko (to_le_bytes 8 kernel_entry)) ?do (to_le_bytes 8 dtb_addr)"
    using assms(1) by (simp_all add: build_trampoline_def Let_def split: if_split_asm)
  have in_range: "?ko + 8 \<le> length (tr_code syms)" "?do + 8 \<le> length (tr_code syms)" "?ko + 8 \<le> ?do"
    using sl assms(2) by (auto simp: syms_ok_def syms_layout_def)
  have k: "slice seg ?ko (?ko + 8) = to_le_bytes 8 kernel_entry"
    using in_range by (simp add: seg slice_splice_before slice_splice_same)
  have d: "slice seg ?do (?do + 8) = to_le_bytes 8 dtb_addr"
    using in_range by (simp add: seg slice_splice_same)
  have "slice seg 0 ?ko = slice (tr_code syms) 0 ?ko"
    using in_range by (simp add: seg slice_splice_before)
  then show "take ?ko seg = take ?ko (tr_code syms)" by (simp add: slice_def)
  show "branch_to (run_trampoline syms seg s) = Some kernel_entry" "xreg (run_trampoline syms seg s) 0 = dtb_addr"
    "\<forall>r \<in> {1, 2, 3}. xreg (run_trampoline syms seg s) r = 0"
    by (simp_all add: run_trampoline_def trampoline_program_def k d le64.dec_enc)
qed

definition demo_syms :: trampoline_symbols where
  "demo_syms = \<lparr>tr_code = replicate 40 0, tr_start = 4096, tr_end = 4136, tr_kernel_slot = 4120, tr_dtb_slot = 4128\<rparr>"

definition demo_kernel :: bytes where
  "demo_kernel = replicate 8 0 @ to_le_bytes 8 (0x80000 :: u64) @ to_le_bytes 8 (0x200000 :: u64) @ replicate 32 0 @ [0x41, 0x52, 0x4d, 0x64, 0, 0, 0, 0]"

definition demo_iomem :: string where
  "demo_iomem = ''80000000-8fffffff : System RAM''"


lemma demo_usable_iomem: "read_usable_memory demo_iomem = Inr [\<lparr>rstart = 0x80000000, rend = 0x90000000\<rparr>]"
proof -
  have l: "text_lines demo_iomem = [demo_iomem]" by (simp add: text_lines_def demo_iomem_def newline_def)
  have "parse_iomem_line demo_iomem = Some (\<lparr>rstart = 0x80000000, rend = 0x90000000\<rparr>, ''System RAM'')"
    by (simp add: demo_iomem_def parse_iomem_line_def trim_def trim_start_def trim_end_def is_space_def parse_u64_def parse_radix_def
      digit_value_def phys_range_new_def checked_add_def Let_def)
  then show ?thesis
    by (simp add: read_usable_memory_def parse_iomem_def l apply_iomem_line_def add_range_def merge_into_def Let_def)
qed

lemma demo_plan_parts:
  "image_header_parse demo_kernel = Inr \<lparr>text_offset = 0x80000, image_size = 0x200000\<rparr>"
  "reserved_ranges demo_blob = Inr [(0x80000000, 0x80001000)]"
  "exclude_reserved [\<lparr>rstart = 0x80000000, rend = 0x90000000\<rparr>] [(0x80000000, 0x80001000)] = [\<lparr>rstart = 0x80001000, rend = 0x90000000\<rparr>]"
  "page_align (max 0x200000 (of_nat (length demo_kernel))) = Inr 0x200000"
  "find_region [\<lparr>rstart = 0x80001000, rend = 0x90000000\<rparr>] [] 0x280000 SZ_2M 0 0xffffffffffffffff = Some 0x80200000"
  "place_initrd [\<lparr>rstart = 0x80001000, rend = 0x90000000\<rparr>] [\<lparr>rstart = 0x80200000, rend = 0x80480000\<rparr>] 0x80280000 0x200000 (Some [1, 2, 3]) =
     Inr ([\<lparr>rstart = 0x80200000, rend = 0x80480000\<rparr>, \<lparr>rstart = 0x80480000, rend = 0x80481000\<rparr>],
          [\<lparr>seg_name = ''initrd'', seg_data = [1, 2, 3], seg_phys = 0x80480000, seg_memsz = 0x1000\<rparr>], Some (0x80480000, 0x80480003))"
  "page_align 245 = Inr 0x1000" "page_align 40 = Inr 0x1000"
  "find_region [\<lparr>rstart = 0x80001000, rend = 0x90000000\<rparr>] [\<lparr>rstart = 0x80200000, rend = 0x80480000\<rparr>, \<lparr>rstart = 0x80480000, rend = 0x80481000\<rparr>]
     0x1000 SZ_2M 0x80480000 0xffffffffffffffff = Some 0x80600000"
  "find_region [\<lparr>rstart = 0x80001000, rend = 0x90000000\<rparr>] [\<lparr>rstart = 0x80200000, rend = 0x80480000\<rparr>, \<lparr>rstart = 0x80480000, rend = 0x80481000\<rparr>,
     \<lparr>rstart = 0x80600000, rend = 0x80601000\<rparr>] 0x1000 4096 0x80480000 0xffffffffffffffff = Some 0x80481000"
  by code_simp+

lemma demo_plan:
  "\<exists>segs. arm64_plan demo_syms (Inr demo_iomem) demo_kernel (Some [1, 2, 3]) demo_blob ''quiet'' = Inr (0x80481000, segs) \<and>
     map seg_phys segs = [0x80280000, 0x80480000, 0x80600000, 0x80481000]"
proof -
  let ?patch = "patch_chosen demo_blob ''quiet'' (Some (0x80480000, 0x80480003))"
  have "case ?patch of Inr p \<Rightarrow> length p = 245 | Inl _ \<Rightarrow> False" by code_simp
  then obtain pd where pd: "?patch = Inr pd" "length pd = 245" by (cases ?patch) auto
  obtain tr where tr: "build_trampoline demo_syms 0x80280000 0x80600000 = Inr tr" "length tr = 40"
    by (simp add: build_trampoline_def demo_syms_def Let_def splice_def)
  have "length demo_blob \<noteq> 0" by code_simp
  then have ne: "demo_kernel \<noteq> []" "demo_blob \<noteq> []" by (auto simp: demo_kernel_def)
  show ?thesis
    unfolding arm64_plan_def
    using ne pd tr
    by (simp add: demo_plan_parts demo_usable_iomem PAGE_SIZE_def checked_add_phys_def checked_add_def MAX_DTB_SIZE_def KEXEC_SEGMENT_MAX_def Let_def
        del: checked_add_Some)
qed

section \<open>Properties of the loader\<close>

text \<open>C1: Every plan the loader makes is safe to copy into memory: each segment is page aligned, does not wrap
  around and holds its data, no two segments overlap, and all of them lie in System RAM that
  \<open>/proc/iomem\<close> reports and outside everything the destination device tree reserves.\<close>

theorem kexec_plan_safe:
  assumes "arm64_plan syms (Inr text) kern initrd dtb cmdline = Inr (entry, segs)"
    and "length kern < 2 ^ 64" and "\<forall>b. initrd = Some b \<longrightarrow> length b < 2 ^ 64" and "syms_ok syms"
  shows "\<exists>reserved. reserved_ranges dtb = Inr reserved \<and> (\<forall>s \<in> set segs. seg_ok s) \<and> apart segs \<and>
    length segs \<le> KEXEC_SEGMENT_MAX \<and>
    addr_set (map seg_range segs) \<subseteq> addr_set (parse_iomem text) - reserved_addrs reserved"
proof -
  obtain reserved occ where r: "reserved_ranges dtb = Inr reserved"
    and inv: "plan_inv (exclude_reserved (parse_iomem text) reserved) occ segs"
    using arm64_plan_Inr(1) [OF assms] by blast
  show ?thesis
    using r plan_inv_result [OF inv] arm64_plan_Inr(3) [OF assms] by (auto simp: exclude_reserved_addrs KEXEC_SEGMENT_MAX_def)
qed

lemma kexec_plan_safe_witness:
  "\<exists>segs. arm64_plan demo_syms (Inr demo_iomem) demo_kernel (Some [1, 2, 3]) demo_blob ''quiet'' = Inr (0x80481000, segs) \<and> apart segs"
proof -
  obtain segs where run: "arm64_plan demo_syms (Inr demo_iomem) demo_kernel (Some [1, 2, 3]) demo_blob ''quiet'' = Inr (0x80481000, segs)"
    using demo_plan by blast
  have "\<exists>reserved. reserved_ranges demo_blob = Inr reserved \<and> (\<forall>s \<in> set segs. seg_ok s) \<and> apart segs \<and>
    length segs \<le> KEXEC_SEGMENT_MAX \<and>
    addr_set (map seg_range segs) \<subseteq> addr_set (parse_iomem demo_iomem) - reserved_addrs reserved"
    by (rule kexec_plan_safe [OF run]) (simp_all add: demo_kernel_def syms_ok_def demo_syms_def usize_limit_def)
  then show ?thesis using run by blast
qed

text \<open>C2: The plan obeys the arm64 boot protocol: the kernel is at its text offset from a 2 MiB aligned base with room
  for its image, the initrd lies after it within the 32 GiB window, the device tree is the patched one (pointing
  at that initrd), at most 2 MiB and 2 MiB aligned, and the entry point is a trampoline that jumps to the
  kernel with the device tree in \<open>x0\<close> and zeros in \<open>x1\<close> to \<open>x3\<close>.\<close>

theorem kexec_plan_boots:
  assumes "arm64_plan syms (Inr text) kern initrd dtb cmdline = Inr (entry, segs)"
    and "length kern < 2 ^ 64" and "\<forall>b. initrd = Some b \<longrightarrow> length b < 2 ^ 64" and "syms_layout syms"
  shows "plan_shape syms kern initrd dtb cmdline entry segs \<and>
    (\<forall>regs. branch_to (run_trampoline syms (seg_data (last segs)) regs) = Some (seg_phys (hd segs)) \<and>
       xreg (run_trampoline syms (seg_data (last segs)) regs) 0 = seg_phys (last (butlast segs)) \<and>
       (\<forall>r \<in> {1, 2, 3}. xreg (run_trampoline syms (seg_data (last segs)) regs) r = 0))"
proof -
  have shape: "plan_shape syms kern initrd dtb cmdline entry segs"
    using arm64_plan_Inr(2) [OF assms(1-3)] assms(4) by (simp add: syms_layout_def)
  obtain k isegs d t where segs: "segs = [k] @ isegs @ [d, t]"
    and tr: "build_trampoline syms (seg_phys k) (seg_phys d) = Inr (seg_data t)"
    using shape by (auto simp: plan_shape_def)
  note jump = run_trampoline_jumps [OF tr assms(4)]
  have ends: "last segs = t" "hd segs = k" "last (butlast segs) = d" by (simp_all add: segs butlast_append)
  show ?thesis
    using shape jump(1-3) unfolding ends by blast
qed

lemma kexec_plan_boots_witness:
  "\<exists>segs. arm64_plan demo_syms (Inr demo_iomem) demo_kernel (Some [1, 2, 3]) demo_blob ''quiet'' = Inr (0x80481000, segs) \<and>
     plan_shape demo_syms demo_kernel (Some [1, 2, 3]) demo_blob ''quiet'' 0x80481000 segs"
proof -
  obtain segs where run: "arm64_plan demo_syms (Inr demo_iomem) demo_kernel (Some [1, 2, 3]) demo_blob ''quiet'' = Inr (0x80481000, segs)"
    using demo_plan by blast
  have "plan_shape demo_syms demo_kernel (Some [1, 2, 3]) demo_blob ''quiet'' 0x80481000 segs"
    by (rule kexec_plan_boots [OF run, THEN conjunct1]) (simp_all add: demo_kernel_def syms_layout_def syms_ok_def demo_syms_def usize_limit_def)
  then show ?thesis using run by blast
qed

section \<open>The parking page survives\<close>

text \<open>
  The segments planned for a tree that went through the spin-table hand-over stay off the page on
  which the live CPUs are parked.
\<close>

lemma plan_avoids_parking_page:
  assumes "contract_tree live_dtb = Inr live" and "spin_table_contract live = Inr (Some c)"
    and "graft_spin_table dtb live_dtb = Inr final"
    and "arm64_plan syms (Inr text) kern initrd final cmdline = Inr (entry, segs)"
    and "length kern < 2 ^ 64" and "\<forall>b. initrd = Some b \<longrightarrow> length b < 2 ^ 64" and "syms_ok syms"
  shows "addr_set (map seg_range segs) \<inter> range_addrs \<lparr>rstart = st_base c, rend = st_base c + SPIN_TABLE_BYTES\<rparr> = {}"
proof -
  obtain root h es where root: "contract_tree final = Inr root" "fdt_header_parse final = Inr h" "reserve_map final h = Inr (enc_rsv es)"
    and es: "(st_base c, SPIN_TABLE_BYTES) \<in> set es"
    using graft_spin_table_result [OF assms(1-3)] by blast
  obtain reserved occ where r: "reserved_ranges final = Inr reserved"
    and inv: "plan_inv (exclude_reserved (parse_iomem text) reserved) occ segs"
    using arm64_plan_Inr(1) [OF assms(4-7)] by blast
  obtain node_rs where rs: "reserved = entry_ranges es @ node_rs"
    using reserved_ranges_spec(1) [OF root(1) r] root(2,3) enc_rsv_inj by fastforce
  have "(st_base c, st_base c + SPIN_TABLE_BYTES) \<in> set reserved"
    using es by (auto simp: rs entry_ranges_def SPIN_TABLE_BYTES_def)
  then have "range_addrs \<lparr>rstart = st_base c, rend = st_base c + SPIN_TABLE_BYTES\<rparr> \<subseteq> reserved_addrs reserved"
    by (force simp: range_addrs_def reserved_addrs_def)
  then show ?thesis using plan_inv_result(3) [OF inv] by (auto simp: exclude_reserved_addrs)
qed

end
