(* ===== verification/Gpt.thy ===== *)
theory Gpt
  imports RustText "HOL-Library.List_Lexorder"
begin

unbundle bit_operations_syntax

text \<open>
  GUID partition tables (the GPT half of \<open>src/ab_slots.rs\<close>): headers and their checksums, partition
  entries and their names, loading both copies of a disk's table, switching the active slot of a
  pair of partitions, and writing both copies back. Then what the checksum detects, and that
  refreshing the two checksums of a header changes nothing else a parse reads.
\<close>

section \<open>Constants\<close>

definition GPT_SIGNATURE :: bytes where "GPT_SIGNATURE = bytes_of ''EFI PART''"
definition GPT_MIN_HEADER_SIZE :: nat where "GPT_MIN_HEADER_SIZE = 92"
definition GPT_MIN_ENTRY_SIZE :: nat where "GPT_MIN_ENTRY_SIZE = 128"
definition GPT_TABLE_MAX_BYTES :: u64 where "GPT_TABLE_MAX_BYTES = 16 * 1024 * 1024"
definition PARTITION_NAME_OFFSET :: nat where "PARTITION_NAME_OFFSET = 56"
definition PARTITION_NAME_BYTES :: nat where "PARTITION_NAME_BYTES = 72"
definition TYPE_GUID_OFFSET :: nat where "TYPE_GUID_OFFSET = 0"
definition TYPE_GUID_SIZE :: nat where "TYPE_GUID_SIZE = 16"
definition AB_FLAG_OFFSET :: nat where "AB_FLAG_OFFSET = 48 + 6"
definition AB_PARTITION_ATTR_SLOT_ACTIVE :: u8 where "AB_PARTITION_ATTR_SLOT_ACTIVE = push_bit 2 0x1"
definition AB_PARTITION_ATTR_BOOT_SUCCESSFUL :: u8 where "AB_PARTITION_ATTR_BOOT_SUCCESSFUL = push_bit 6 0x1"
definition AB_PARTITION_ATTR_UNBOOTABLE :: u8 where "AB_PARTITION_ATTR_UNBOOTABLE = push_bit 7 0x1"
definition AB_SLOT_ACTIVE_VAL :: u8 where "AB_SLOT_ACTIVE_VAL = 0x0f"

lemmas gpt_consts = GPT_MIN_HEADER_SIZE_def GPT_MIN_ENTRY_SIZE_def PARTITION_NAME_OFFSET_def PARTITION_NAME_BYTES_def
  TYPE_GUID_OFFSET_def TYPE_GUID_SIZE_def AB_FLAG_OFFSET_def AB_PARTITION_ATTR_SLOT_ACTIVE_def AB_SLOT_ACTIVE_VAL_def

section \<open>CRC\<close>

definition crc_bit :: "u32 \<Rightarrow> u32" where
  "crc_bit crc = drop_bit 1 crc XOR (0xedb88320 AND (0 - (crc AND 1)))"

definition crc_byte :: "u32 \<Rightarrow> u8 \<Rightarrow> u32" where
  "crc_byte crc b = (crc_bit ^^ 8) (crc XOR ucast b)"

definition crc32_ieee :: "bytes \<Rightarrow> u32" where
  "crc32_ieee data = NOT (foldl crc_byte 0xffffffff data)"

section \<open>Fields\<close>

definition read_u32_le :: "bytes \<Rightarrow> nat \<Rightarrow> u32 io" where
  "read_u32_le raw start = read_field 4 from_le_bytes (IoError InvalidData ''u32 field exceeds record'') raw start"

definition read_u64_le :: "bytes \<Rightarrow> nat \<Rightarrow> u64 io" where
  "read_u64_le raw start = read_field 8 from_le_bytes (IoError InvalidData ''u64 field exceeds record'') raw start"

definition write_u32_le :: "bytes \<Rightarrow> nat \<Rightarrow> u32 \<Rightarrow> bytes io" where
  "write_u32_le raw start v = write_field (to_le_bytes 4) (IoError InvalidData ''u32 field exceeds record'') raw start v"

lemmas le_field_defs = read_u32_le_def read_u64_le_def write_u32_le_def

section \<open>The header\<close>

record gpt_header =
  gh_current_lba :: u64
  gh_backup_lba :: u64
  gh_entries_lba :: u64
  gh_entry_count :: u32
  gh_entry_size :: nat
  gh_entry_array_crc32 :: u32

definition parse_gpt_header :: "bytes \<Rightarrow> u64 \<Rightarrow> gpt_header io" where
  "parse_gpt_header raw total_blocks =
     (if length raw < GPT_MIN_HEADER_SIZE then invalid_data ''GPT header signature not found''
      else if take 8 raw \<noteq> GPT_SIGNATURE then invalid_data ''GPT header signature not found''
      else
      bind_io (read_u32_le raw 12) (\<lambda>hs. let header_size = unat hs in
      if \<not> (GPT_MIN_HEADER_SIZE \<le> header_size \<and> header_size \<le> length raw) then invalid_data ''GPT header size is invalid''
      else
      bind_io (read_u32_le raw 16) (\<lambda>expected_crc.
      let header_for_crc = splice (take header_size raw) 16 (replicate 4 0) in
      if crc32_ieee header_for_crc \<noteq> expected_crc then invalid_data ''GPT header CRC mismatch''
      else
      bind_io (read_u64_le raw 24) (\<lambda>cur.
      bind_io (read_u64_le raw 32) (\<lambda>backup.
      bind_io (read_u64_le raw 40) (\<lambda>first_usable_lba.
      bind_io (read_u64_le raw 48) (\<lambda>last_usable_lba.
      bind_io (read_u64_le raw 72) (\<lambda>ents.
      bind_io (read_u32_le raw 80) (\<lambda>cnt.
      bind_io (read_u32_le raw 84) (\<lambda>esize.
      bind_io (read_u32_le raw 88) (\<lambda>acrc.
      if total_blocks \<le> cur \<or> total_blocks \<le> backup \<or> total_blocks \<le> ents
      then invalid_data ''GPT header references LBAs outside disk''
      else if last_usable_lba < first_usable_lba then invalid_data ''GPT usable LBA range is invalid''
      else if cnt = 0 \<or> unat esize < GPT_MIN_ENTRY_SIZE then invalid_data ''GPT partition entry shape is invalid''
      else Inr \<lparr>gh_current_lba = cur, gh_backup_lba = backup, gh_entries_lba = ents, gh_entry_count = cnt,
                 gh_entry_size = unat esize, gh_entry_array_crc32 = acrc\<rparr>)))))))))))"

definition validate_entry_array_crc :: "bytes \<Rightarrow> gpt_header \<Rightarrow> unit io" where
  "validate_entry_array_crc ents header =
     (if crc32_ieee ents \<noteq> gh_entry_array_crc32 header then invalid_data ''GPT partition entry array CRC mismatch''
      else Inr ())"

definition table_bytes :: "gpt_header \<Rightarrow> u64 io" where
  "table_bytes header =
     bind_io (ok_or (IoError InvalidData ''GPT partition table size overflows'')
               (checked_mul (ucast (gh_entry_count header)) (of_nat (gh_entry_size header)))) (\<lambda>bs.
     if bs = 0 \<or> GPT_TABLE_MAX_BYTES < bs then invalid_data ''GPT partition table size is unsupported'' else Inr bs)"

definition update_entry_array_crc :: "bytes \<Rightarrow> bytes \<Rightarrow> bytes io" where
  "update_entry_array_crc header ents = write_u32_le header 88 (crc32_ieee ents)"

definition update_header_crc :: "bytes \<Rightarrow> bytes io" where
  "update_header_crc header =
     bind_io (read_u32_le header 12) (\<lambda>hs. let header_size = unat hs in
     if \<not> (GPT_MIN_HEADER_SIZE \<le> header_size \<and> header_size \<le> length header) then invalid_data ''GPT header size is invalid''
     else
       bind_io (write_u32_le header 16 0) (\<lambda>header.
       let crc = crc32_ieee (take header_size header) in
       write_u32_le header 16 crc))"

section \<open>Partition entries\<close>

text \<open>A Rust \<open>String\<close> as its code points; \<open>ustr\<close> is an ASCII literal.\<close>

type_synonym ustring = "nat list"

definition ustr :: "string \<Rightarrow> ustring" where
  "ustr s = map of_char s"

fun decode_utf16 :: "u16 list \<Rightarrow> ustring option" where
  "decode_utf16 [] = Some []"
| "decode_utf16 (u # us) =
     (if \<not> (0xD800 \<le> u \<and> u \<le> 0xDFFF) then map_option ((#) (unat u)) (decode_utf16 us)
      else (case us of
              [] \<Rightarrow> None
            | w # ws \<Rightarrow>
                if u \<le> 0xDBFF \<and> 0xDC00 \<le> w \<and> w \<le> 0xDFFF
                then map_option ((#) (0x10000 + (unat u - 0xD800) * 0x400 + (unat w - 0xDC00))) (decode_utf16 ws)
                else None))"

definition entries :: "bytes \<Rightarrow> nat \<Rightarrow> bytes list" where
  "entries table entry_size = chunks_exact entry_size table"

definition is_unused_entry :: "bytes \<Rightarrow> bool" where
  "is_unused_entry entry \<longleftrightarrow> list_all (\<lambda>b. b = 0) (take TYPE_GUID_SIZE entry)"

definition name_units :: "bytes \<Rightarrow> u16 list" where
  "name_units raw = takeWhile (\<lambda>u. u \<noteq> 0) (map from_le_bytes (chunks_exact 2 raw))"

definition partition_name :: "bytes \<Rightarrow> ustring option io" where
  "partition_name entry =
     bind_io (ok_or (IoError InvalidData ''GPT partition entry name exceeds record'')
                (slice_get entry PARTITION_NAME_OFFSET (PARTITION_NAME_OFFSET + PARTITION_NAME_BYTES))) (\<lambda>raw.
     let units = name_units raw in
     if units = [] then Inr None
     else (case decode_utf16 units of
             Some name \<Rightarrow> Inr (Some name)
           | None \<Rightarrow> invalid_data ''GPT partition name is invalid UTF-16''))"

fun find_index_in :: "bytes list \<Rightarrow> nat \<Rightarrow> ustring \<Rightarrow> nat option io" where
  "find_index_in [] index name = Inr None"
| "find_index_in (e # es) index name =
     (if is_unused_entry e then find_index_in es (Suc index) name
      else bind_io (partition_name e) (\<lambda>n.
           if n = Some name then Inr (Some index) else find_index_in es (Suc index) name))"

definition find_entry_index :: "bytes \<Rightarrow> nat \<Rightarrow> ustring \<Rightarrow> nat option io" where
  "find_entry_index table entry_size name = find_index_in (entries table entry_size) 0 name"

definition find_entry :: "bytes \<Rightarrow> nat \<Rightarrow> ustring \<Rightarrow> bytes option io" where
  "find_entry table entry_size name =
     bind_io (find_entry_index table entry_size name) (\<lambda>found.
     case found of
       None \<Rightarrow> Inr None
     | Some index \<Rightarrow>
         bind_io (index_slice table (index * entry_size) (index * entry_size + entry_size)) (\<lambda>e. Inr (Some e)))"

definition is_slot_active :: "bytes \<Rightarrow> bool" where
  "is_slot_active entry \<longleftrightarrow> (entry ! AB_FLAG_OFFSET) AND AB_PARTITION_ATTR_SLOT_ACTIVE \<noteq> 0"

datatype slot = A | B

definition update_slot_entry :: "bytes \<Rightarrow> bool \<Rightarrow> bytes \<Rightarrow> bytes \<Rightarrow> bytes" where
  "update_slot_entry entry active active_guid inactive_guid =
     (if active
      then (splice entry TYPE_GUID_OFFSET active_guid)[AB_FLAG_OFFSET := AB_SLOT_ACTIVE_VAL]
      else (let e = splice entry TYPE_GUID_OFFSET inactive_guid
            in e[AB_FLAG_OFFSET := (e ! AB_FLAG_OFFSET) AND NOT AB_PARTITION_ATTR_SLOT_ACTIVE]))"

text \<open>\<open>entry_mut\<close> and the update through the slice it returns.\<close>

definition entry_range :: "bytes \<Rightarrow> nat \<Rightarrow> nat \<Rightarrow> (nat \<times> nat) io" where
  "entry_range table entry_size index =
     bind_io (ok_or (IoError InvalidData ''GPT partition entry offset overflows'') (checked_mul_usize index entry_size)) (\<lambda>offset.
     bind_io (ok_or (IoError InvalidData ''GPT partition entry end overflows'') (checked_add_usize offset entry_size)) (\<lambda>e.
     if e \<le> length table then Inr (offset, e) else invalid_data ''GPT partition entry exceeds table''))"

definition update_entry_at :: "bytes \<Rightarrow> nat \<Rightarrow> nat \<Rightarrow> (bytes \<Rightarrow> bytes) \<Rightarrow> bytes io" where
  "update_entry_at table entry_size index f =
     bind_io (entry_range table entry_size index) (\<lambda>(offset, e). Inr (splice table offset (f (slice table offset e))))"

definition update_pair_table ::
  "bytes \<Rightarrow> nat \<Rightarrow> ustring \<Rightarrow> ustring \<Rightarrow> slot \<Rightarrow> bytes \<Rightarrow> bytes \<Rightarrow> bytes io" where
  "update_pair_table table entry_size a_name b_name target active_guid inactive_guid =
     bind_io (bind_io (find_entry_index table entry_size a_name) (ok_or (IoError InvalidData ''missing GPT entry''))) (\<lambda>a_index.
     bind_io (bind_io (find_entry_index table entry_size b_name) (ok_or (IoError InvalidData ''missing GPT entry''))) (\<lambda>b_index.
     bind_io (update_entry_at table entry_size a_index (\<lambda>e. update_slot_entry e (target = A) active_guid inactive_guid)) (\<lambda>table.
     update_entry_at table entry_size b_index (\<lambda>e. update_slot_entry e (target = B) active_guid inactive_guid))))"

section \<open>The device\<close>

record disk =
  disk_name :: string
  logical_block_size :: u64
  total_bytes :: u64

text \<open>
  The system calls on an opened block device, whose contents are the bytes: \<open>read_at\<close> returns the
  bytes it read, \<open>write_at\<close> how many bytes it took and the contents after it. They may transfer
  less than asked for. Offsets are unbounded naturals: \<open>load\<close> checks that they stay below the
  size of the disk.
\<close>

record os_calls =
  os_open :: "unit io"
  os_read_at :: "bytes \<Rightarrow> nat \<Rightarrow> nat \<Rightarrow> bytes io"
  os_write_at :: "bytes \<Rightarrow> bytes \<Rightarrow> nat \<Rightarrow> (nat \<times> bytes) io"
  os_sync_all :: "unit io"

function read_exact_at :: "os_calls \<Rightarrow> bytes \<Rightarrow> nat \<Rightarrow> nat \<Rightarrow> bytes io" where
  "read_exact_at os content len offset =
     (if len = 0 then Inr []
      else
        bind_io (os_read_at os content len offset) (\<lambda>bs.
        if bs = [] then Inl (IoError UnexpectedEof ''block device ended early'')
        else bind_io (read_exact_at os content (len - length bs) (offset + length bs)) (\<lambda>rest. Inr (bs @ rest))))"
  by pat_completeness auto
termination
  by (relation "measure (\<lambda>(os, content, len, offset). len)") (auto simp: length_greater_0_conv [symmetric] simp del: length_greater_0_conv)

declare read_exact_at.simps [simp del]

function write_all_at :: "os_calls \<Rightarrow> bytes \<Rightarrow> bytes \<Rightarrow> nat \<Rightarrow> bytes \<times> unit io" where
  "write_all_at os content buffer offset =
     (if buffer = [] then (content, Inr ())
      else
        (case os_write_at os content buffer offset of
           Inl e \<Rightarrow> (content, Inl e)
         | Inr (written, content) \<Rightarrow>
             if written = 0 then (content, Inl (IoError WriteZero ''short GPT write''))
             else write_all_at os content (drop written buffer) (offset + written)))"
  by pat_completeness auto
termination
  by (relation "measure (\<lambda>(os, content, buffer, offset). length buffer)") auto

declare write_all_at.simps [simp del]

definition checked_lba_offset :: "u64 \<Rightarrow> u64 \<Rightarrow> u64 io" where
  "checked_lba_offset lba lbs = ok_or (IoError InvalidData ''LBA offset overflows'') (checked_mul lba lbs)"

definition read_lba :: "os_calls \<Rightarrow> bytes \<Rightarrow> u64 \<Rightarrow> u64 \<Rightarrow> bytes io" where
  "read_lba os content lbs lba =
     bind_io (checked_lba_offset lba lbs) (\<lambda>offset. read_exact_at os content (unat lbs) (unat offset))"

definition saturating_add :: "u64 \<Rightarrow> u64 \<Rightarrow> u64" where
  "saturating_add a b = (case checked_add a b of Some c \<Rightarrow> c | None \<Rightarrow> 0xffffffffffffffff)"

definition read_entry_array :: "os_calls \<Rightarrow> bytes \<Rightarrow> disk \<Rightarrow> gpt_header \<Rightarrow> bytes io" where
  "read_entry_array os content disk header =
     bind_io (table_bytes header) (\<lambda>bs.
     bind_io (checked_lba_offset (gh_entries_lba header) (logical_block_size disk)) (\<lambda>offset.
     if total_bytes disk < saturating_add offset bs then invalid_data ''GPT partition table exceeds disk size''
     else read_exact_at os content (unat bs) (unat offset)))"

section \<open>The disk with its two tables\<close>

record gpt_disk =
  gd_disk :: disk
  primary_header :: gpt_header
  backup_header :: gpt_header
  primary_header_bytes :: bytes
  backup_header_bytes :: bytes
  primary_entries :: bytes
  backup_entries :: bytes

definition gpt_load :: "os_calls \<Rightarrow> disk \<Rightarrow> bytes \<Rightarrow> gpt_disk io" where
  "gpt_load os disk content =
     (if logical_block_size disk = 0 then Inl RustPanic
      else let total_blocks = total_bytes disk div logical_block_size disk in
      if total_blocks < 2 then invalid_data ''disk has too few GPT LBAs''
      else
      bind_io (os_open os) (\<lambda>_.
      bind_io (read_lba os content (logical_block_size disk) 1) (\<lambda>pb.
      bind_io (parse_gpt_header pb total_blocks) (\<lambda>ph.
      bind_io (read_lba os content (logical_block_size disk) (gh_backup_lba ph)) (\<lambda>bb.
      bind_io (parse_gpt_header bb total_blocks) (\<lambda>bh.
      bind_io (read_entry_array os content disk ph) (\<lambda>pe.
      bind_io (read_entry_array os content disk bh) (\<lambda>be.
      bind_io (validate_entry_array_crc pe ph) (\<lambda>_.
      bind_io (validate_entry_array_crc be bh) (\<lambda>_.
      if gh_entry_count ph \<noteq> gh_entry_count bh \<or> gh_entry_size ph \<noteq> gh_entry_size bh
      then invalid_data ''primary and backup GPT entry shapes differ''
      else Inr \<lparr>gd_disk = disk, primary_header = ph, backup_header = bh, primary_header_bytes = pb,
                 backup_header_bytes = bb, primary_entries = pe, backup_entries = be\<rparr>))))))))))"

definition partition_names :: "gpt_disk \<Rightarrow> ustring list io" where
  "partition_names g =
     bind_io (map_io partition_name
        (filter (\<lambda>e. \<not> is_unused_entry e) (entries (primary_entries g) (gh_entry_size (primary_header g))))) (\<lambda>names.
     Inr (concat (map (\<lambda>n. case n of Some name \<Rightarrow> [name] | None \<Rightarrow> []) names)))"

definition bases_of :: "string \<Rightarrow> ustring list \<Rightarrow> ustring list" where
  "bases_of suffix names = concat (map (\<lambda>n. case strip_suffix (ustr suffix) n of Some b \<Rightarrow> [b] | None \<Rightarrow> []) names)"

text \<open>\<open>slot_pairs\<close>: the intersection of two \<open>BTreeSet\<close>s, in their order. A name ends in at most one of the suffixes.\<close>

definition slot_pairs :: "gpt_disk \<Rightarrow> ustring list io" where
  "slot_pairs g =
     bind_io (partition_names g) (\<lambda>names.
     Inr (sort (remdups (filter (\<lambda>b. b \<in> set (bases_of ''_b'' names)) (bases_of ''_a'' names)))))"

definition attribute_byte :: "gpt_disk \<Rightarrow> ustring \<Rightarrow> u8 option io" where
  "attribute_byte g name =
     bind_io (find_entry (primary_entries g) (gh_entry_size (primary_header g)) name) (\<lambda>e.
     Inr (map_option (\<lambda>e. e ! AB_FLAG_OFFSET) e))"

definition active_slot_for_base :: "gpt_disk \<Rightarrow> ustring \<Rightarrow> slot option io" where
  "active_slot_for_base g base =
     bind_io (attribute_byte g (base @ ustr ''_a'')) (\<lambda>a_attr.
     bind_io (attribute_byte g (base @ ustr ''_b'')) (\<lambda>b_attr.
     let active = (\<lambda>attr. case attr of Some a \<Rightarrow> a AND AB_PARTITION_ATTR_SLOT_ACTIVE \<noteq> 0 | None \<Rightarrow> False) in
     Inr (if active a_attr then Some A else if active b_attr then Some B else None)))"

datatype pair_update = Updated | SkippedNoActiveMetadata

definition set_active_pair :: "gpt_disk \<Rightarrow> ustring \<Rightarrow> slot \<Rightarrow> (gpt_disk \<times> pair_update) io" where
  "set_active_pair g base target =
     (let a_name = base @ ustr ''_a''; b_name = base @ ustr ''_b'';
          missing = IoError InvalidData ''missing GPT entry'' in
      bind_io (bind_io (find_entry (primary_entries g) (gh_entry_size (primary_header g)) a_name) (ok_or missing)) (\<lambda>a_primary.
      bind_io (bind_io (find_entry (primary_entries g) (gh_entry_size (primary_header g)) b_name) (ok_or missing)) (\<lambda>b_primary.
      let a_active = is_slot_active a_primary; b_active = is_slot_active b_primary in
      if \<not> a_active \<and> \<not> b_active then Inr (g, SkippedNoActiveMetadata)
      else
        (let a_guid = slice a_primary TYPE_GUID_OFFSET TYPE_GUID_SIZE;
             b_guid = slice b_primary TYPE_GUID_OFFSET TYPE_GUID_SIZE;
             active_guid = (if a_active then a_guid else b_guid);
             inactive_guid = (if a_active then b_guid else a_guid) in
         bind_io (update_pair_table (primary_entries g) (gh_entry_size (primary_header g)) a_name b_name target active_guid inactive_guid) (\<lambda>pe.
         bind_io (update_pair_table (backup_entries g) (gh_entry_size (backup_header g)) a_name b_name target active_guid inactive_guid) (\<lambda>be.
         Inr (g\<lparr>primary_entries := pe, backup_entries := be\<rparr>, Updated)))))))"

text \<open>\<open>commit\<close>: the headers get their new checksums, then four writes and a sync. The result has the contents even where a write fails.\<close>

definition refresh_headers :: "gpt_disk \<Rightarrow> gpt_disk io" where
  "refresh_headers g =
     bind_io (update_entry_array_crc (primary_header_bytes g) (primary_entries g)) (\<lambda>pb.
     bind_io (update_entry_array_crc (backup_header_bytes g) (backup_entries g)) (\<lambda>bb.
     bind_io (update_header_crc pb) (\<lambda>pb.
     bind_io (update_header_crc bb) (\<lambda>bb.
     Inr (g\<lparr>primary_header_bytes := pb, backup_header_bytes := bb\<rparr>)))))"

definition commit_writes :: "gpt_disk \<Rightarrow> (u64 \<times> bytes) list" where
  "commit_writes g =
     [(gh_entries_lba (primary_header g), primary_entries g), (gh_current_lba (primary_header g), primary_header_bytes g),
      (gh_entries_lba (backup_header g), backup_entries g), (gh_current_lba (backup_header g), backup_header_bytes g)]"

fun write_seq :: "os_calls \<Rightarrow> u64 \<Rightarrow> (u64 \<times> bytes) list \<Rightarrow> bytes \<Rightarrow> bytes \<times> unit io" where
  "write_seq os lbs [] content = (content, Inr ())"
| "write_seq os lbs ((lba, buffer) # ws) content =
     (case checked_lba_offset lba lbs of
        Inl e \<Rightarrow> (content, Inl e)
      | Inr offset \<Rightarrow>
          (case write_all_at os content buffer (unat offset) of
             (content, Inl e) \<Rightarrow> (content, Inl e)
           | (content, Inr _) \<Rightarrow> write_seq os lbs ws content))"

definition gpt_commit :: "os_calls \<Rightarrow> gpt_disk \<Rightarrow> bytes \<Rightarrow> bytes \<times> unit io" where
  "gpt_commit os g content =
     (case bind_io (refresh_headers g) (\<lambda>g. bind_io (os_open os) (\<lambda>_. Inr g)) of
        Inl e \<Rightarrow> (content, Inl e)
      | Inr g \<Rightarrow>
          (case write_seq os (logical_block_size (gd_disk g)) (commit_writes g) content of
             (content, Inl e) \<Rightarrow> (content, Inl e)
           | (content, Inr _) \<Rightarrow> (content, os_sync_all os)))"

section \<open>What the checksum detects\<close>

lemma xor_cancel: "(u XOR w = v XOR w) = (u = v)" "(w XOR u = w XOR v) = (u = v)" for u v w :: "'a::len word"
proof -
  have "(u XOR w) XOR w = u" "(v XOR w) XOR w = v" by (simp_all add: xor.assoc)
  then show "(u XOR w = v XOR w) = (u = v)" by metis
  then show "(w XOR u = w XOR v) = (u = v)" by (simp add: xor.commute)
qed

lemma bit_crc_bit_31: "bit (crc_bit x) 31 \<longleftrightarrow> bit x 0"
proof (cases "odd x")
  case True
  then have "x AND 1 = 1" by (simp add: and_one_eq odd_iff_mod_2_eq_one)
  then show ?thesis using True bit_imp_le_length [of x 32] by (auto simp: crc_bit_def bit_simps bit_0)
next
  case False
  then have "x AND 1 = 0" by (simp add: and_one_eq even_iff_mod_2_eq_zero)
  then show ?thesis using False bit_imp_le_length [of x 32] by (auto simp: crc_bit_def bit_simps bit_0)
qed

lemma inj_crc_bit: "inj crc_bit"
proof (rule injI)
  fix x y assume eq: "crc_bit x = crc_bit y"
  then have low: "bit x 0 \<longleftrightarrow> bit y 0" using bit_crc_bit_31 by metis
  then have "x AND 1 = y AND 1" by (simp add: and_one_eq bit_0 mod_2_eq_odd)
  then have "drop_bit 1 x = drop_bit 1 y"
    using eq by (simp add: crc_bit_def xor_cancel)
  then have "bit x (Suc n) \<longleftrightarrow> bit y (Suc n)" for n
    using bit_drop_bit_eq [of 1 x] bit_drop_bit_eq [of 1 y] by (metis comp_apply plus_1_eq_Suc)
  with low show "x = y" by (intro bit_word_eqI) (metis not0_implies_Suc)
qed

lemma inj_crc_rounds: "inj (crc_bit ^^ n)"
  by (rule inj_fn [OF inj_crc_bit])

lemma crc_byte_inject: "crc_byte c b = crc_byte d b \<longleftrightarrow> c = d" "crc_byte c a = crc_byte c b \<longleftrightarrow> a = b"
proof -
  have "(ucast a :: u32) = ucast b \<longleftrightarrow> a = b"
    using unat_less_u8 [of a] unat_less_u8 [of b]
    by (simp add: word_unat_eq_iff unsigned_ucast_eq unsigned_take_bit_eq take_bit_nat_eq_self)
  then show "crc_byte c b = crc_byte d b \<longleftrightarrow> c = d" "crc_byte c a = crc_byte c b \<longleftrightarrow> a = b"
    by (simp_all add: crc_byte_def xor_cancel inj_eq [OF inj_crc_rounds])
qed

lemma crc_fold_inject: "foldl crc_byte c bs = foldl crc_byte d bs \<longleftrightarrow> c = d"
  by (induction bs arbitrary: c d) (simp_all add: crc_byte_inject)

lemma crc32_single_byte: "crc32_ieee (pre @ a # post) = crc32_ieee (pre @ b # post) \<longleftrightarrow> a = b"
  by (simp add: crc32_ieee_def crc_fold_inject crc_byte_inject)

section \<open>Refreshing a header\<close>

lemma take_slice: "take n xs = slice xs 0 n"
  by (simp add: slice_def)

lemma splice_take: "off + length ys \<le> n \<Longrightarrow> n \<le> length xs \<Longrightarrow> splice (take n xs) off ys = take n (splice xs off ys)"
  by (cases "off = n") (auto simp: splice_def take_drop min_def)

lemma splice_splice_same: "off + length ys \<le> length xs \<Longrightarrow> length zs = length ys \<Longrightarrow> splice (splice xs off ys) off zs = splice xs off zs"
  by (simp add: splice_def)

lemma splice_slice_id: "b \<le> length xs \<Longrightarrow> a \<le> b \<Longrightarrow> splice xs a (slice xs a b) = xs"
  by (simp add: splice_def slice_def) (metis append_assoc append_take_drop_id le_add_diff_inverse take_add)

text \<open>
  The fields a header parse reads, on a buffer of which the two checksums, at 16 and at 88, were
  rewritten. Every other byte of the header block stays.
\<close>

definition header_bytes_kept :: "bytes \<Rightarrow> bytes \<Rightarrow> bool" where
  "header_bytes_kept hb hb' \<longleftrightarrow> length hb' = length hb \<and>
     (\<forall>k < length hb. k \<notin> {16..<20} \<and> k \<notin> {88..<92} \<longrightarrow> hb' ! k = hb ! k)"

lemma header_bytes_kept_refl [simp]: "header_bytes_kept hb hb"
  by (simp add: header_bytes_kept_def)

lemma header_refresh:
  assumes "parse_gpt_header raw tot = Inr h"
  shows "\<exists>raw'. bind_io (update_entry_array_crc raw ents) update_header_crc = Inr raw' \<and> header_bytes_kept raw raw' \<and>
     parse_gpt_header raw' tot = Inr (h\<lparr>gh_entry_array_crc32 := crc32_ieee ents\<rparr>)"
proof -
  let ?hs = "unat (from_le_bytes (slice raw 12 16) :: u32)"
  have len: "92 \<le> length raw" and sig: "take 8 raw = GPT_SIGNATURE" and hs: "92 \<le> ?hs" "?hs \<le> length raw"
    using assms by (auto simp: parse_gpt_header_def le_field_defs gpt_consts Let_def split: if_split_asm)
  define r1 where "r1 = splice raw 88 (to_le_bytes 4 (crc32_ieee ents))"
  define r2 where "r2 = splice r1 16 (to_le_bytes 4 (0 :: u32))"
  define r3 where "r3 = splice r2 16 (to_le_bytes 4 (crc32_ieee (take ?hs r2)))"
  have lens: "length r1 = length raw" "length r2 = length raw" "length r3 = length raw"
    using len by (simp_all add: r1_def r2_def r3_def)
  have other: "slice r3 a b = slice raw a b" if "b \<le> 16 \<or> 20 \<le> a \<and> b \<le> 88" for a b
    using that len lens unfolding r3_def r2_def r1_def
    by (auto simp: slice_splice_before slice_splice_after)
  have size: "slice r1 12 16 = slice raw 12 16"
    using len unfolding r1_def by (simp add: slice_splice_before)
  have run: "bind_io (update_entry_array_crc raw ents) update_header_crc = Inr r3"
    using len hs lens unfolding update_entry_array_crc_def update_header_crc_def le_field_defs
    by (simp add: write_field_def read_field_def r1_def [symmetric] size r2_def [symmetric] r3_def [symmetric] gpt_consts Let_def)
  have zero: "to_le_bytes 4 (0 :: u32) = replicate 4 0" by code_simp
  have crc: "splice (take ?hs r3) 16 (replicate 4 0) = take ?hs r2"
    using hs len lens unfolding r3_def by (simp add: splice_take splice_splice_same r2_def zero)
  have c16: "(from_le_bytes (slice r3 16 20) :: u32) = crc32_ieee (take ?hs r2)"
    using len lens unfolding r3_def by (simp add: slice_splice_same le32.dec_enc)
  have c88: "(from_le_bytes (slice r3 88 92) :: u32) = crc32_ieee ents"
    using len lens unfolding r3_def r2_def r1_def by (simp add: slice_splice_same slice_splice_after le32.dec_enc)
  have sig3: "take 8 r3 = GPT_SIGNATURE" using sig other [of 8 0] by (simp add: take_slice)
  have "parse_gpt_header r3 tot = Inr (h\<lparr>gh_entry_array_crc32 := crc32_ieee ents\<rparr>)"
    using assms len hs lens
    unfolding parse_gpt_header_def le_field_defs sig3 sig
    by (auto simp: read_field_def gpt_consts other c16 c88 crc Let_def split: if_split_asm)
  moreover have "header_bytes_kept raw r3"
    using len lens by (simp add: header_bytes_kept_def r3_def r2_def r1_def nth_splice)
  ultimately show ?thesis using run by blast
qed

end
