(* ===== verification/GptTable.thy ===== *)
theory GptTable
  imports Gpt
begin

unbundle bit_operations_syntax

text \<open>
  The entry array as a table addressed by index: the interface \<open>indexed_table\<close>, provided by
  \<open>update_entry_at\<close>; the search by partition name; and what updating a pair does to every
  byte of the table (\<open>entries_switched\<close>) and of the headers (\<open>headers_kept\<close>).
\<close>

section \<open>Tables of entries\<close>

text \<open>
  The interface of a table whose elements are addressed by index: an update changes the element it
  names and no other. What two updates do is proved from it.
\<close>

locale indexed_table =
  fixes get :: "'t \<Rightarrow> nat \<Rightarrow> 'e option"
    and upd :: "'t \<Rightarrow> nat \<Rightarrow> ('e \<Rightarrow> 'e) \<Rightarrow> 't io"
    and ok :: "'t \<Rightarrow> bool"
    and keeps :: "('e \<Rightarrow> 'e) \<Rightarrow> bool"
  assumes upd_total: "ok t \<Longrightarrow> get t i = Some e \<Longrightarrow> keeps f \<Longrightarrow> \<exists>t'. upd t i f = Inr t' \<and> ok t'"
    and get_upd: "ok t \<Longrightarrow> keeps f \<Longrightarrow> upd t i f = Inr t' \<Longrightarrow>
       get t' j = (if j = i then map_option f (get t j) else get t j)"
begin

lemma two_updates:
  assumes "ok t" and "keeps f" and "keeps g" and "get t i = Some a" and "get t j = Some b" and "i \<noteq> j"
  shows "\<exists>t1 t2. upd t i f = Inr t1 \<and> upd t1 j g = Inr t2 \<and> ok t2 \<and>
    (\<forall>k. get t2 k = (if k = i then Some (f a) else if k = j then Some (g b) else get t k))"
proof -
  obtain t1 where t1: "upd t i f = Inr t1" "ok t1" using upd_total assms by blast
  have "get t1 j = Some b" using get_upd [OF assms(1,2) t1(1)] assms by simp
  then obtain t2 where t2: "upd t1 j g = Inr t2" "ok t2" using upd_total t1(2) assms(3) by blast
  then show ?thesis
    using t1 get_upd [OF assms(1,2) t1(1)] get_upd [OF t1(2) assms(3) t2(1)] assms by auto
qed

end

definition entry_get :: "nat \<Rightarrow> bytes \<Rightarrow> nat \<Rightarrow> bytes option" where
  "entry_get es table i = (if i < length (entries table es) then Some (entries table es ! i) else None)"

definition table_ok :: "nat \<Rightarrow> bytes \<Rightarrow> bool" where
  "table_ok es table \<longleftrightarrow> 128 \<le> es \<and> length table < usize_limit"

definition keeps_size :: "nat \<Rightarrow> (bytes \<Rightarrow> bytes) \<Rightarrow> bool" where
  "keeps_size es f \<longleftrightarrow> (\<forall>e. length e = es \<longrightarrow> length (f e) = es)"

lemma entry_in_table: "table_ok es t \<Longrightarrow> i < length (entries t es) \<longleftrightarrow> i * es + es \<le> length t"
proof -
  assume ok: "table_ok es t"
  then have "i < length t div es \<longleftrightarrow> Suc i * es \<le> length t"
    by (simp add: table_ok_def Suc_le_eq [symmetric] less_eq_div_iff_mult_less_eq)
  then show ?thesis using ok by (simp add: entries_def table_ok_def length_chunks_exact ac_simps)
qed

lemma entry_nth:
  assumes "table_ok es t" and "i < length (entries t es)"
  shows "entries t es ! i = slice t (i * es) (i * es + es)" and "length (entries t es ! i) = es"
proof -
  have "i * es + es \<le> length t" using assms entry_in_table by blast
  then show "entries t es ! i = slice t (i * es) (i * es + es)" "length (entries t es ! i) = es"
    using assms(1) by (simp_all add: entries_def table_ok_def chunks_exact_nth)
qed

lemma update_entry_at_ok:
  assumes "table_ok es t" and "i < length (entries t es)"
  shows "update_entry_at t es i f = Inr (splice t (i * es) (f (entries t es ! i)))"
proof -
  have "i * es + es \<le> length t" using assms entry_in_table by blast
  then show ?thesis
    using assms entry_nth [OF assms]
    by (auto simp: update_entry_at_def entry_range_def checked_mul_usize_def checked_add_usize_def table_ok_def)
qed

lemma update_entry_at_Inr:
  "table_ok es t \<Longrightarrow> update_entry_at t es i f = Inr t' \<Longrightarrow> i < length (entries t es)"
  by (auto simp: update_entry_at_def entry_range_def entry_in_table split: if_splits)

lemma updated_entries:
  assumes ok: "table_ok es t" and i: "i < length (entries t es)" and k: "length e = es"
  shows "length (splice t (i * es) e) = length t" and "entries (splice t (i * es) e) es = (entries t es)[i := e]"
proof -
  have lim: "i * es + es \<le> length t" using ok i entry_in_table by blast
  then show len: "length (splice t (i * es) e) = length t" using k by simp
  then have ok': "table_ok es (splice t (i * es) e)" using ok by (simp add: table_ok_def)
  show "entries (splice t (i * es) e) es = (entries t es)[i := e]"
  proof (rule nth_equalityI)
    show l: "length (entries (splice t (i * es) e) es) = length ((entries t es)[i := e])"
      using ok len by (simp add: entries_def length_chunks_exact table_ok_def)
    fix j assume j: "j < length (entries (splice t (i * es) e) es)"
    then have j': "j < length (entries t es)" using l by simp
    have "slice (splice t (i * es) e) (j * es) (j * es + es) = (if j = i then e else slice t (j * es) (j * es + es))"
    proof (cases j i rule: linorder_cases)
      case less
      then have "j * es + es \<le> i * es" by (metis Suc_leI add.commute mult_Suc mult_le_mono1)
      then show ?thesis using less lim k by (simp add: slice_splice_before)
    next
      case greater
      then have "i * es + es \<le> j * es" by (metis Suc_leI add.commute mult_Suc mult_le_mono1)
      then show ?thesis using greater lim k by (simp add: slice_splice_after)
    qed (use lim k in \<open>simp add: slice_splice_same\<close>)
    then show "entries (splice t (i * es) e) es ! j = (entries t es)[i := e] ! j"
      using entry_nth(1) [OF ok' j] entry_nth(1) [OF ok j'] j' by (auto simp: nth_list_update)
  qed
qed

lemma splice_other_entry:
  assumes "table_ok es t" and "i < length (entries t es)" and "length e = es" and "k < length t" and "k div es \<noteq> i"
  shows "splice t (i * es) e ! k = t ! k"
proof -
  have "i * es + es \<le> length t" using assms(1,2) entry_in_table by blast
  moreover have "\<not> (i * es \<le> k \<and> k < i * es + es)"
    using assms(5) by (metis add.commute div_nat_eqI mult.commute mult_Suc_right)
  ultimately show ?thesis using assms(3,4) by (auto simp: nth_splice)
qed

interpretation et: indexed_table "entry_get es" "\<lambda>t i f. update_entry_at t es i f" "table_ok es" "keeps_size es" for es
proof unfold_locales
  fix t i e f assume ok: "table_ok es t" and e: "entry_get es t i = Some e" and f: "keeps_size es f"
  then have i: "i < length (entries t es)" by (auto simp: entry_get_def split: if_splits)
  have "length (f (entries t es ! i)) = es" using f entry_nth(2) [OF ok i] by (simp add: keeps_size_def)
  then show "\<exists>t'. update_entry_at t es i f = Inr t' \<and> table_ok es t'"
    using update_entry_at_ok [OF ok i] updated_entries(1) [OF ok i] ok by (auto simp: table_ok_def)
next
  fix t f i t' j assume ok: "table_ok es t" and f: "keeps_size es f" and run: "update_entry_at t es i f = Inr t'"
  have i: "i < length (entries t es)" using update_entry_at_Inr [OF ok run] .
  have "length (f (entries t es ! i)) = es" using f entry_nth(2) [OF ok i] by (simp add: keeps_size_def)
  then have "entries t' es = (entries t es)[i := f (entries t es ! i)]"
    using run update_entry_at_ok [OF ok i] updated_entries(2) [OF ok i] by auto
  then show "entry_get es t' j = (if j = i then map_option f (entry_get es t j) else entry_get es t j)"
    using i by (auto simp: entry_get_def)
qed

section \<open>Finding entries by name\<close>

text \<open>What the search reads of an entry.\<close>

definition entry_key :: "bytes \<Rightarrow> bool \<times> ustring option io" where
  "entry_key e = (is_unused_entry e, partition_name e)"

definition named :: "ustring \<Rightarrow> bytes \<Rightarrow> bool" where
  "named name e \<longleftrightarrow> \<not> is_unused_entry e \<and> partition_name e = Inr (Some name)"

lemma find_index_in_key:
  "map entry_key es = map entry_key es' \<Longrightarrow> find_index_in es k name = find_index_in es' k name"
proof (induction es arbitrary: es' k)
  case (Cons e es)
  then obtain e' es'' where e': "es' = e' # es''" "entry_key e = entry_key e'" "map entry_key es = map entry_key es''"
    by (cases es') auto
  show ?case using e'(2) by (simp add: e'(1) entry_key_def Cons.IH [OF e'(3)] cong: if_cong)
qed simp

lemma find_index_in_Some:
  "find_index_in es k name = Inr (Some i) \<Longrightarrow> k \<le> i \<and> i - k < length es \<and> named name (es ! (i - k))"
proof (induction es arbitrary: k)
  case (Cons e es)
  show ?case
  proof (cases "\<not> is_unused_entry e \<and> partition_name e = Inr (Some name)")
    case True
    then show ?thesis using Cons.prems by (simp add: named_def)
  next
    case False
    then have "find_index_in es (Suc k) name = Inr (Some i)"
      using Cons.prems by (auto split: if_splits)
    note IH = Cons.IH [OF this]
    then have "i - k = Suc (i - Suc k)" "k \<le> i" by arith+
    then show ?thesis using IH by simp
  qed
qed simp

lemma find_entry_index_Some:
  "find_entry_index t es name = Inr (Some i) \<Longrightarrow> i < length (entries t es) \<and> named name (entries t es ! i)"
  using find_index_in_Some [of "entries t es" 0 name i] by (simp add: find_entry_index_def)

lemma find_entry_Inr:
  assumes "table_ok es t" and "find_entry t es name = Inr r"
  shows "\<exists>i. find_entry_index t es name = Inr i \<and> r = map_option (\<lambda>i. entries t es ! i) i"
proof -
  obtain i where i: "find_entry_index t es name = Inr i"
    using assms(2) by (auto simp: find_entry_def)
  then show ?thesis
    using assms(2) find_entry_index_Some [of t es name] entry_nth(1) [OF assms(1)]
    by (cases i) (auto simp: find_entry_def)
qed

lemma find_entry_Some:
  "table_ok es t \<Longrightarrow> find_entry t es name = Inr (Some e) \<Longrightarrow>
   \<exists>i. find_entry_index t es name = Inr (Some i) \<and> e = entries t es ! i"
  using find_entry_Inr [of es t name "Some e"] by (auto simp: eq_commute [of "Some e"])

lemma find_entry_of_index:
  assumes "table_ok es t" and "find_entry_index t es name = Inr i"
  shows "find_entry t es name = Inr (map_option (\<lambda>i. entries t es ! i) i)"
proof (cases i)
  case (Some j)
  then have j: "j < length (entries t es)" using find_entry_index_Some assms(2) by blast
  then have "j * es + es \<le> length t" using assms(1) entry_in_table by blast
  then show ?thesis using assms Some entry_nth(1) [OF assms(1) j] by (simp add: find_entry_def index_slice_def)
qed (use assms in \<open>simp add: find_entry_def\<close>)

section \<open>Updating one entry\<close>

definition guid_ok :: "bytes \<Rightarrow> bool" where
  "guid_ok g \<longleftrightarrow> length g = 16 \<and> \<not> list_all (\<lambda>b. b = 0) g"

lemma guid_of_entry: "128 \<le> length e \<Longrightarrow> \<not> is_unused_entry e \<Longrightarrow> guid_ok (slice e TYPE_GUID_OFFSET TYPE_GUID_SIZE)"
  by (simp add: guid_ok_def is_unused_entry_def gpt_consts slice_def)

lemma update_slot_entry_facts:
  assumes "128 \<le> length e" and "guid_ok a" and "guid_ok i"
  shows "length (update_slot_entry e act a i) = length e"
    and "take 16 (update_slot_entry e act a i) = (if act then a else i)"
    and "update_slot_entry e act a i ! 54 = (if act then 0x0f else (e ! 54) AND NOT 4)"
    and "\<And>j. 16 \<le> j \<Longrightarrow> j \<noteq> 54 \<Longrightarrow> j < length e \<Longrightarrow> update_slot_entry e act a i ! j = e ! j"
proof -
  have l: "length a = 16" "length i = 16" using assms by (simp_all add: guid_ok_def)
  show len: "length (update_slot_entry e act a i) = length e"
    using l assms(1) by (simp add: update_slot_entry_def gpt_consts Let_def)
  show "take 16 (update_slot_entry e act a i) = (if act then a else i)"
    using l assms(1) by (simp add: update_slot_entry_def gpt_consts Let_def splice_def)
  show "update_slot_entry e act a i ! 54 = (if act then 0x0f else (e ! 54) AND NOT 4)"
    using l assms(1) by (simp add: update_slot_entry_def gpt_consts Let_def splice_def nth_append)
  show "update_slot_entry e act a i ! j = e ! j" if "16 \<le> j" "j \<noteq> 54" "j < length e" for j
    using l assms(1) that by (simp add: update_slot_entry_def gpt_consts Let_def splice_def nth_append)
qed

lemma update_slot_entry_key:
  assumes "128 \<le> length e" and "guid_ok a" and "guid_ok i" and "\<not> is_unused_entry e"
  shows "entry_key (update_slot_entry e act a i) = entry_key e"
proof -
  note f = update_slot_entry_facts [OF assms(1-3), where act = act]
  have "slice (update_slot_entry e act a i) 56 128 = slice e 56 128"
  proof (rule nth_equalityI)
    fix j assume "j < length (slice (update_slot_entry e act a i) 56 128)"
    then have "j < 72" using assms(1) f(1) by simp
    then show "slice (update_slot_entry e act a i) 56 128 ! j = slice e 56 128 ! j"
      using f(4) [of "56 + j"] assms(1) f(1) by (simp add: slice_def)
  qed (use assms(1) f(1) in simp)
  then have "partition_name (update_slot_entry e act a i) = partition_name e"
    using assms(1) f(1) by (simp add: partition_name_def slice_get_def gpt_consts)
  moreover have "\<not> is_unused_entry (update_slot_entry e act a i)"
    using f(2) assms(2,3) by (simp add: is_unused_entry_def gpt_consts guid_ok_def)
  ultimately show ?thesis using assms(4) by (simp add: entry_key_def)
qed

lemma keeps_size_update:
  "128 \<le> es \<Longrightarrow> guid_ok a \<Longrightarrow> guid_ok i \<Longrightarrow> keeps_size es (\<lambda>e. update_slot_entry e act a i)"
  by (simp add: keeps_size_def update_slot_entry_facts(1))

section \<open>Updating a pair\<close>

text \<open>The table after an update of a pair: the two named entries changed, every other one kept.\<close>

definition pair_updated :: "nat \<Rightarrow> ustring \<Rightarrow> slot \<Rightarrow> bytes \<Rightarrow> bytes \<Rightarrow> bytes \<Rightarrow> bytes \<Rightarrow> bool" where
  "pair_updated es base target active inactive t t' \<longleftrightarrow>
     (\<exists>i j. find_entry_index t es (base @ ustr ''_a'') = Inr (Some i) \<and> find_entry_index t es (base @ ustr ''_b'') = Inr (Some j) \<and>
        i \<noteq> j \<and> length t' = length t \<and> (\<forall>k < length t. k div es \<noteq> i \<and> k div es \<noteq> j \<longrightarrow> t' ! k = t ! k) \<and>
        entries t' es = (entries t es)[i := update_slot_entry (entries t es ! i) (target = A) active inactive,
                                       j := update_slot_entry (entries t es ! j) (target = B) active inactive])"

lemma suffixes_differ: "base @ ustr ''_a'' \<noteq> base @ ustr ''_b''"
  by (simp add: ustr_def)

lemma ok_or_Inr_iff: "bind_io m (ok_or e) = Inr x \<longleftrightarrow> m = Inr (Some x)"
  by (cases m) auto

lemma map_update_id: "i < length xs \<Longrightarrow> (map f xs)[i := f (xs ! i)] = map f xs"
  by (metis list_update_id nth_map)

lemma update_pair_table_Inr:
  assumes ok: "table_ok es t" and guids: "guid_ok active" "guid_ok inactive"
    and run: "update_pair_table t es (base @ ustr ''_a'') (base @ ustr ''_b'') target active inactive = Inr t'"
  shows "pair_updated es base target active inactive t t'" and "table_ok es t'"
proof -
  let ?f = "\<lambda>e. update_slot_entry e (target = A) active inactive" and ?g = "\<lambda>e. update_slot_entry e (target = B) active inactive"
  obtain i j t1 where i: "find_entry_index t es (base @ ustr ''_a'') = Inr (Some i)"
    and j: "find_entry_index t es (base @ ustr ''_b'') = Inr (Some j)"
    and t1: "update_entry_at t es i ?f = Inr t1" and t': "update_entry_at t1 es j ?g = Inr t'"
    using run unfolding update_pair_table_def bind_io_eq_Inr [of "bind_io m f" for m f] ok_or_Inr_iff by auto
  note fi = find_entry_index_Some [OF i] and fj = find_entry_index_Some [OF j]
  have ij: "i \<noteq> j" using fi fj suffixes_differ [of base] by (auto simp: named_def)
  have es: "128 \<le> es" using ok by (simp add: table_ok_def)
  have len: "length (?f (entries t es ! i)) = es" "length (?g (entries t es ! j)) = es"
    using keeps_size_update [OF es guids] entry_nth(2) [OF ok] fi fj by (simp_all add: keeps_size_def)
  have t1': "t1 = splice t (i * es) (?f (entries t es ! i))" using t1 update_entry_at_ok [OF ok] fi by auto
  then have ok1: "table_ok es t1" and e1: "entries t1 es = (entries t es)[i := ?f (entries t es ! i)]" and l1: "length t1 = length t"
    using updated_entries [OF ok _ len(1), of i] fi ok by (auto simp: table_ok_def)
  have j1: "j < length (entries t1 es)" "entries t1 es ! j = entries t es ! j" using fj ij e1 by auto
  have t2: "t' = splice t1 (j * es) (?g (entries t es ! j))" using t' update_entry_at_ok [OF ok1 j1(1)] j1(2) by auto
  have "t' ! k = t ! k" if "k < length t" "k div es \<noteq> i" "k div es \<noteq> j" for k
    using that fi j1 l1 splice_other_entry [OF ok _ len(1), of i k] splice_other_entry [OF ok1 j1(1) len(2), of k]
    by (simp add: t1' t2)
  then show "pair_updated es base target active inactive t t'"
    unfolding pair_updated_def
    using i j ij updated_entries [OF ok1 j1(1) len(2)] e1 l1 t2 by auto
  show "table_ok es t'" using updated_entries(1) [OF ok1 j1(1) len(2)] ok1 t2 by (simp add: table_ok_def)
qed

lemma pair_updated_keys:
  assumes "table_ok es t" and "guid_ok active" and "guid_ok inactive" and "pair_updated es base target active inactive t t'"
  shows "map entry_key (entries t' es) = map entry_key (entries t es)"
proof -
  obtain i j where i: "find_entry_index t es (base @ ustr ''_a'') = Inr (Some i)"
    and j: "find_entry_index t es (base @ ustr ''_b'') = Inr (Some j)"
    and e: "entries t' es = (entries t es)[i := update_slot_entry (entries t es ! i) (target = A) active inactive,
                                       j := update_slot_entry (entries t es ! j) (target = B) active inactive]"
    using assms(4) by (auto simp: pair_updated_def)
  note fi = find_entry_index_Some [OF i] and fj = find_entry_index_Some [OF j]
  have k: "entry_key (update_slot_entry (entries t es ! m) act active inactive) = entry_key (entries t es ! m)"
    if "m < length (entries t es) \<and> named n (entries t es ! m)" for m n act
    using that assms(1-3) entry_nth(2) [OF assms(1), of m] by (intro update_slot_entry_key) (auto simp: table_ok_def named_def)
  show ?thesis
    using k [OF fi] k [OF fj] fi fj by (simp add: e map_update map_update_id)
qed

lemma find_entry_index_same:
  "map entry_key (entries t' es) = map entry_key (entries t es) \<Longrightarrow> find_entry_index t' es name = find_entry_index t es name"
  unfolding find_entry_index_def by (rule find_index_in_key)

section \<open>What a switch does to a table\<close>

text \<open>
  The bytes a switch of pairs writes, by the layout of an entry: the 16 bytes of the type GUID and
  the flag byte at 54, of the two entries of each switched pair. Every other byte of the table stays.
\<close>

definition slot_written :: "bool \<Rightarrow> bytes \<Rightarrow> bytes \<Rightarrow> bytes \<Rightarrow> bool" where
  "slot_written act guid e e' \<longleftrightarrow> length e' = length e \<and> take 16 e' = guid \<and>
     e' ! 54 = (if act then 0x0f else (e ! 54) AND NOT 4) \<and>
     (\<forall>j < length e. 16 \<le> j \<and> j \<noteq> 54 \<longrightarrow> e' ! j = e ! j)"

definition entries_switched :: "nat \<Rightarrow> slot \<Rightarrow> ustring set \<Rightarrow> (ustring \<Rightarrow> bytes \<times> bytes) \<Rightarrow> bytes \<Rightarrow> bytes \<Rightarrow> bool" where
  "entries_switched es slot bs guids t t' \<longleftrightarrow> length t' = length t \<and>
     (\<forall>b \<in> bs. \<exists>i j. find_entry_index t es (b @ ustr ''_a'') = Inr (Some i) \<and> find_entry_index t es (b @ ustr ''_b'') = Inr (Some j) \<and>
        slot_written (slot = A) (if slot = A then fst (guids b) else snd (guids b)) (entries t es ! i) (entries t' es ! i) \<and>
        slot_written (slot = B) (if slot = B then fst (guids b) else snd (guids b)) (entries t es ! j) (entries t' es ! j)) \<and>
     (\<forall>k < length t. (\<forall>b \<in> bs. find_entry_index t es (b @ ustr ''_a'') \<noteq> Inr (Some (k div es)) \<and>
                               find_entry_index t es (b @ ustr ''_b'') \<noteq> Inr (Some (k div es))) \<longrightarrow> t' ! k = t ! k)"

lemma entries_switched_none [simp]: "entries_switched es slot {} guids t t"
  by (simp add: entries_switched_def)

lemma slot_written_update:
  "128 \<le> length e \<Longrightarrow> guid_ok a \<Longrightarrow> guid_ok i \<Longrightarrow> slot_written act (if act then a else i) e (update_slot_entry e act a i)"
  using update_slot_entry_facts [of e a i, where act = act] by (simp add: slot_written_def)

lemma pair_updated_switched:
  assumes ok: "table_ok es t" and guids: "guid_ok active" "guid_ok inactive" "gs base = (active, inactive)"
    and up: "pair_updated es base slot active inactive t t'"
  shows "entries_switched es slot {base} gs t t'"
proof -
  obtain i j where i: "find_entry_index t es (base @ ustr ''_a'') = Inr (Some i)"
    and j: "find_entry_index t es (base @ ustr ''_b'') = Inr (Some j)" and ij: "i \<noteq> j" and len: "length t' = length t"
    and keep: "\<forall>k < length t. k div es \<noteq> i \<and> k div es \<noteq> j \<longrightarrow> t' ! k = t ! k"
    and e: "entries t' es = (entries t es)[i := update_slot_entry (entries t es ! i) (slot = A) active inactive,
                                       j := update_slot_entry (entries t es ! j) (slot = B) active inactive]"
    using up by (auto simp: pair_updated_def)
  note fi = find_entry_index_Some [OF i] and fj = find_entry_index_Some [OF j]
  have "128 \<le> length (entries t es ! m)" if "m < length (entries t es)" for m
    using ok entry_nth(2) [OF ok that] by (simp add: table_ok_def)
  then show ?thesis
    using i j ij len keep fi fj slot_written_update [OF _ guids(1,2), of "entries t es ! i" "slot = A"]
      slot_written_update [OF _ guids(1,2), of "entries t es ! j" "slot = B"]
    by (auto simp: entries_switched_def e guids(3))
qed

lemma entry_kept:
  assumes "table_ok es t" and "length t' = length t" and "i < length (entries t es)" and "\<forall>k < length t. k div es = i \<longrightarrow> t' ! k = t ! k"
  shows "entries t' es ! i = entries t es ! i"
proof -
  have ok': "table_ok es t'" using assms(1,2) by (simp add: table_ok_def)
  have i': "i < length (entries t' es)" using assms(1-3) ok' by (simp add: entry_in_table)
  have lim: "i * es + es \<le> length t" using assms(1,3) entry_in_table by blast
  have "slice t' (i * es) (i * es + es) = slice t (i * es) (i * es + es)"
  proof (rule nth_equalityI)
    fix j assume "j < length (slice t' (i * es) (i * es + es))"
    then have j: "j < es" using lim assms(2) by simp
    then have "(i * es + j) div es = i" by simp
    then show "slice t' (i * es) (i * es + es) ! j = slice t (i * es) (i * es + es) ! j"
      using assms(2,4) lim j by (simp add: slice_def)
  qed (use lim assms(2) in simp)
  then show ?thesis using entry_nth(1) [OF ok' i'] entry_nth(1) [OF assms(1,3)] by simp
qed

lemma found_names: "find_entry_index t es n = Inr (Some i) \<Longrightarrow> find_entry_index t es m = Inr (Some i) \<Longrightarrow> n = m"
  using find_entry_index_Some [of t es n i] find_entry_index_Some [of t es m i] by (simp add: named_def)

lemma pair_names_differ:
  "base @ ustr ''_a'' = base' @ ustr ''_a'' \<longleftrightarrow> base = base'" "base @ ustr ''_b'' = base' @ ustr ''_b'' \<longleftrightarrow> base = base'"
  "base @ ustr ''_a'' \<noteq> base' @ ustr ''_b''" "base @ ustr ''_b'' \<noteq> base' @ ustr ''_a''"
  by (simp_all add: ustr_def)

text \<open>A switch of one pair followed by a switch of others is a switch of all of them: they have no entry in common.\<close>

lemma entries_switched_insert:
  assumes ok: "table_ok es t" and base: "base \<notin> bs" and keys: "map entry_key (entries h es) = map entry_key (entries t es)"
    and one: "entries_switched es slot {base} gs t h" and more: "entries_switched es slot bs gs h t'"
  shows "entries_switched es slot (insert base bs) gs t t'"
proof -
  note same = find_entry_index_same [OF keys]
  have len: "length h = length t" "length t' = length t" using one more by (simp_all add: entries_switched_def)
  then have okh: "table_ok es h" using ok by (simp add: table_ok_def)
  have n: "length (entries h es) = length (entries t es)" using keys by (metis length_map)
  have later: "entries t' es ! i = entries h es ! i"
    if "find_entry_index t es (base @ ustr s) = Inr (Some i)" "s \<in> {''_a'', ''_b''}" for s i
  proof (rule entry_kept [OF okh])
    show "i < length (entries h es)" using find_entry_index_Some [OF that(1)] n by simp
    have "find_entry_index t es (b @ ustr x) \<noteq> Inr (Some i)" if "b \<in> bs" "x \<in> {''_a'', ''_b''}" for b x
      using found_names [OF \<open>find_entry_index t es (base @ ustr s) = Inr (Some i)\<close>, of "b @ ustr x"] that \<open>s \<in> _\<close> base
      by (auto simp: pair_names_differ)
    then show "\<forall>k < length h. k div es = i \<longrightarrow> t' ! k = h ! k"
      using more by (auto simp: entries_switched_def same)
  qed (use len in simp)
  have before: "entries h es ! i = entries t es ! i"
    if "b \<in> bs" "find_entry_index t es (b @ ustr s) = Inr (Some i)" "s \<in> {''_a'', ''_b''}" for b s i
  proof (rule entry_kept [OF ok])
    show "i < length (entries t es)" using find_entry_index_Some [OF that(2)] by simp
    have "find_entry_index t es (base @ ustr x) \<noteq> Inr (Some i)" if "x \<in> {''_a'', ''_b''}" for x
      using found_names [OF \<open>find_entry_index t es (b @ ustr s) = Inr (Some i)\<close>, of "base @ ustr x"] that \<open>s \<in> _\<close> \<open>b \<in> bs\<close> base
      by (auto simp: pair_names_differ)
    then show "\<forall>k < length t. k div es = i \<longrightarrow> h ! k = t ! k"
      using one by (auto simp: entries_switched_def)
  qed (use len in simp)
  show ?thesis
    unfolding entries_switched_def
  proof (intro conjI ballI allI impI)
    show "length t' = length t" by (rule len)
  next
    fix b assume b: "b \<in> insert base bs"
    show "\<exists>i j. find_entry_index t es (b @ ustr ''_a'') = Inr (Some i) \<and> find_entry_index t es (b @ ustr ''_b'') = Inr (Some j) \<and>
        slot_written (slot = A) (if slot = A then fst (gs b) else snd (gs b)) (entries t es ! i) (entries t' es ! i) \<and>
        slot_written (slot = B) (if slot = B then fst (gs b) else snd (gs b)) (entries t es ! j) (entries t' es ! j)"
    proof (cases "b = base")
      case True
      obtain i j where "find_entry_index t es (base @ ustr ''_a'') = Inr (Some i)" "find_entry_index t es (base @ ustr ''_b'') = Inr (Some j)"
        "slot_written (slot = A) (if slot = A then fst (gs base) else snd (gs base)) (entries t es ! i) (entries h es ! i)"
        "slot_written (slot = B) (if slot = B then fst (gs base) else snd (gs base)) (entries t es ! j) (entries h es ! j)"
        using one by (auto simp: entries_switched_def)
      then show ?thesis using later True by fastforce
    next
      case False
      then have b: "b \<in> bs" using b by simp
      then obtain i j where "find_entry_index t es (b @ ustr ''_a'') = Inr (Some i)" "find_entry_index t es (b @ ustr ''_b'') = Inr (Some j)"
        "slot_written (slot = A) (if slot = A then fst (gs b) else snd (gs b)) (entries h es ! i) (entries t' es ! i)"
        "slot_written (slot = B) (if slot = B then fst (gs b) else snd (gs b)) (entries h es ! j) (entries t' es ! j)"
        using more by (fastforce simp: entries_switched_def same)
      then show ?thesis using before [OF b] by fastforce
    qed
  next
    fix k assume k: "k < length t"
      "\<forall>b \<in> insert base bs. find_entry_index t es (b @ ustr ''_a'') \<noteq> Inr (Some (k div es)) \<and>
         find_entry_index t es (b @ ustr ''_b'') \<noteq> Inr (Some (k div es))"
    then have "h ! k = t ! k" using one by (simp add: entries_switched_def)
    moreover have "t' ! k = h ! k" using k more len by (simp add: entries_switched_def same)
    ultimately show "t' ! k = t ! k" by simp
  qed
qed

definition gpt_ok :: "gpt_disk \<Rightarrow> bool" where
  "gpt_ok g \<longleftrightarrow> table_ok (gh_entry_size (primary_header g)) (primary_entries g) \<and>
     table_ok (gh_entry_size (backup_header g)) (backup_entries g)"

text \<open>
  The type GUIDs of a pair, by the primary table: that of the entry with the active bit (\<open>_a\<close>, where
  both have it), and that of the other.
\<close>

definition pair_guids :: "gpt_disk \<Rightarrow> ustring \<Rightarrow> bytes \<times> bytes" where
  "pair_guids g base =
     (case (find_entry (primary_entries g) (gh_entry_size (primary_header g)) (base @ ustr ''_a''),
            find_entry (primary_entries g) (gh_entry_size (primary_header g)) (base @ ustr ''_b'')) of
        (Inr (Some a), Inr (Some b)) \<Rightarrow>
          if a ! 54 AND 4 \<noteq> 0 then (take 16 a, take 16 b) else (take 16 b, take 16 a)
      | _ \<Rightarrow> ([], []))"

text \<open>Nothing of the headers changes but their two checksums.\<close>

definition headers_kept :: "gpt_disk \<Rightarrow> gpt_disk \<Rightarrow> bool" where
  "headers_kept g g' \<longleftrightarrow> gd_disk g' = gd_disk g \<and>
     (\<exists>x. primary_header g' = (primary_header g)\<lparr>gh_entry_array_crc32 := x\<rparr>) \<and>
     (\<exists>x. backup_header g' = (backup_header g)\<lparr>gh_entry_array_crc32 := x\<rparr>) \<and>
     header_bytes_kept (primary_header_bytes g) (primary_header_bytes g') \<and>
     header_bytes_kept (backup_header_bytes g) (backup_header_bytes g')"

text \<open>A switch of the pairs \<open>bs\<close> of a disk: in both tables, and nothing else of them or of the headers.\<close>

definition disk_switched :: "slot \<Rightarrow> ustring set \<Rightarrow> gpt_disk \<Rightarrow> gpt_disk \<Rightarrow> bool" where
  "disk_switched slot bs g g' \<longleftrightarrow> headers_kept g g' \<and>
     entries_switched (gh_entry_size (primary_header g)) slot bs (pair_guids g) (primary_entries g) (primary_entries g') \<and>
     entries_switched (gh_entry_size (backup_header g)) slot bs (pair_guids g) (backup_entries g) (backup_entries g')"

lemma set_active_pair_Inr:
  assumes ok: "gpt_ok g" and run: "set_active_pair g base target = Inr (g', Updated)"
  shows "\<exists>active inactive. guid_ok active \<and> guid_ok inactive \<and> gpt_ok g' \<and> pair_guids g base = (active, inactive) \<and>
     (\<exists>pe be. g' = g\<lparr>primary_entries := pe, backup_entries := be\<rparr>) \<and>
     pair_updated (gh_entry_size (primary_header g)) base target active inactive (primary_entries g) (primary_entries g') \<and>
     pair_updated (gh_entry_size (backup_header g)) base target active inactive (backup_entries g) (backup_entries g')"
proof -
  let ?es = "gh_entry_size (primary_header g)" and ?t = "primary_entries g"
  have okp: "table_ok ?es ?t" and okb: "table_ok (gh_entry_size (backup_header g)) (backup_entries g)" using ok by (simp_all add: gpt_ok_def)
  obtain a b where a: "find_entry ?t ?es (base @ ustr ''_a'') = Inr (Some a)" and b: "find_entry ?t ?es (base @ ustr ''_b'') = Inr (Some b)"
    using run [unfolded set_active_pair_def Let_def bind_io_eq_Inr ok_or_eq_Inr] by (elim exE conjE, hypsubst) (rule that)
  let ?ga = "slice a TYPE_GUID_OFFSET TYPE_GUID_SIZE" and ?gb = "slice b TYPE_GUID_OFFSET TYPE_GUID_SIZE"
  let ?act = "if is_slot_active a then ?ga else ?gb" and ?ina = "if is_slot_active a then ?gb else ?ga"
  have guid: "guid_ok (slice e TYPE_GUID_OFFSET TYPE_GUID_SIZE)" if fe: "find_entry ?t ?es n = Inr (Some e)" for e n
  proof -
    obtain i where i: "find_entry_index ?t ?es n = Inr (Some i)" "e = entries ?t ?es ! i"
      using find_entry_Some [OF okp fe] by blast
    show ?thesis
      using find_entry_index_Some [OF i(1)] i(2) entry_nth(2) [OF okp, of i] okp by (intro guid_of_entry) (auto simp: table_ok_def named_def)
  qed
  have g: "guid_ok ?act" "guid_ok ?ina" using guid [OF a] guid [OF b] by simp_all
  obtain pe be where pe: "update_pair_table ?t ?es (base @ ustr ''_a'') (base @ ustr ''_b'') target ?act ?ina = Inr pe"
    and be: "update_pair_table (backup_entries g) (gh_entry_size (backup_header g)) (base @ ustr ''_a'') (base @ ustr ''_b'') target ?act ?ina = Inr be"
    and g': "g' = g\<lparr>primary_entries := pe, backup_entries := be\<rparr>"
    using run unfolding set_active_pair_def Let_def a b bind_io_simps ok_or_simps by (auto split: if_split_asm)
  have "pair_guids g base = (?act, ?ina)"
    by (simp add: pair_guids_def a b is_slot_active_def gpt_consts slice_def)
  then show ?thesis
    using g update_pair_table_Inr [OF okp g pe] update_pair_table_Inr [OF okb g be] g'
    by (intro exI [of _ ?act] exI [of _ ?ina]) (auto simp: gpt_ok_def)
qed

lemma attribute_after_update:
  assumes ok: "table_ok es t" and guids: "guid_ok active" "guid_ok inactive"
    and up: "pair_updated es base target active inactive t t'" and ok': "table_ok es t'"
  shows "\<exists>ea. find_entry t' es (base @ ustr ''_a'') = Inr (Some ea) \<and> (is_slot_active ea \<longleftrightarrow> target = A)"
    and "\<exists>eb. find_entry t' es (base @ ustr ''_b'') = Inr (Some eb) \<and> (is_slot_active eb \<longleftrightarrow> target = B)"
    and "name \<noteq> base @ ustr ''_a'' \<Longrightarrow> name \<noteq> base @ ustr ''_b'' \<Longrightarrow> find_entry t' es name = find_entry t es name"
proof -
  obtain i j where i: "find_entry_index t es (base @ ustr ''_a'') = Inr (Some i)"
    and j: "find_entry_index t es (base @ ustr ''_b'') = Inr (Some j)" and ij: "i \<noteq> j"
    and e: "entries t' es = (entries t es)[i := update_slot_entry (entries t es ! i) (target = A) active inactive,
                                       j := update_slot_entry (entries t es ! j) (target = B) active inactive]"
    using up by (auto simp: pair_updated_def)
  note fi = find_entry_index_Some [OF i] and fj = find_entry_index_Some [OF j]
  note keys = pair_updated_keys [OF ok guids up]
  have act: "is_slot_active (update_slot_entry (entries t es ! m) b active inactive) \<longleftrightarrow> b" if "m < length (entries t es)" for m b
  proof -
    have "128 \<le> length (entries t es ! m)" using ok entry_nth(2) [OF ok that] by (simp add: table_ok_def)
    note f = update_slot_entry_facts(3) [OF this guids, of b]
    have "(0x0f :: u8) AND 4 \<noteq> 0" by simp
    moreover have "((entries t es ! m ! 54) AND NOT 4) AND 4 = 0" by (simp add: and.assoc)
    ultimately show ?thesis using f by (simp add: is_slot_active_def gpt_consts)
  qed
  show "\<exists>ea. find_entry t' es (base @ ustr ''_a'') = Inr (Some ea) \<and> (is_slot_active ea \<longleftrightarrow> target = A)"
    using find_entry_of_index [OF ok', of "base @ ustr ''_a''"] find_entry_index_same [OF keys] i fi fj ij act by (simp add: e)
  show "\<exists>eb. find_entry t' es (base @ ustr ''_b'') = Inr (Some eb) \<and> (is_slot_active eb \<longleftrightarrow> target = B)"
    using find_entry_of_index [OF ok', of "base @ ustr ''_b''"] find_entry_index_same [OF keys] j fi fj ij act by (simp add: e)
  assume n: "name \<noteq> base @ ustr ''_a''" "name \<noteq> base @ ustr ''_b''"
  show "find_entry t' es name = find_entry t es name"
  proof (cases "find_entry_index t es name")
    case (Inl x)
    then show ?thesis using find_entry_index_same [OF keys, of name] by (simp add: find_entry_def)
  next
    case (Inr m)
    have "entries t' es ! k = entries t es ! k" if "m = Some k" for k
      using find_entry_index_Some [of t es name k] fi fj n Inr that by (auto simp: e named_def nth_list_update)
    then show ?thesis
      using find_entry_of_index [OF ok Inr] find_entry_of_index [OF ok', of name m] find_entry_index_same [OF keys, of name] Inr
      by (cases m) auto
  qed
qed

lemma headers_kept_same:
  "headers_kept g g" "headers_kept (g\<lparr>primary_entries := pe, backup_entries := be\<rparr>) g' = headers_kept g g'"
  "headers_kept g (g\<lparr>primary_entries := pe, backup_entries := be\<rparr>)"
  by (auto simp: headers_kept_def intro: exI [of _ "gh_entry_array_crc32 (primary_header g)"]
      exI [of _ "gh_entry_array_crc32 (backup_header g)"])

lemma disk_switched_none [simp]: "disk_switched slot {} g g"
  by (simp add: disk_switched_def headers_kept_same)

lemma entries_switched_guids:
  "(\<And>b. b \<in> bs \<Longrightarrow> gs b = gs' b) \<Longrightarrow> entries_switched es slot bs gs t t' = entries_switched es slot bs gs' t t'"
  by (simp add: entries_switched_def cong: ball_cong)

lemma pair_guids_other:
  assumes ok: "gpt_ok g" and run: "set_active_pair g base target = Inr (g', Updated)" and b: "b \<noteq> base"
  shows "pair_guids g' b = pair_guids g b"
proof -
  obtain active inactive where g: "guid_ok active" "guid_ok inactive" "gpt_ok g'"
    and h: "primary_header g' = primary_header g"
    and up: "pair_updated (gh_entry_size (primary_header g)) base target active inactive (primary_entries g) (primary_entries g')"
    using set_active_pair_Inr [OF ok run] by force
  have okp: "table_ok (gh_entry_size (primary_header g)) (primary_entries g)" "table_ok (gh_entry_size (primary_header g)) (primary_entries g')"
    using ok g(3) h by (simp_all add: gpt_ok_def)
  note after = attribute_after_update(3) [OF okp(1) g(1,2) up okp(2)]
  show ?thesis using b by (simp add: pair_guids_def h after pair_names_differ)
qed

text \<open>One pair switched, then others: all of them are.\<close>

lemma disk_switched_insert:
  assumes ok: "gpt_ok g" and run: "set_active_pair g base slot = Inr (h, Updated)" and base: "base \<notin> bs"
    and more: "disk_switched slot bs h g'"
  shows "disk_switched slot (insert base bs) g g'"
proof -
  obtain active inactive where g: "guid_ok active" "guid_ok inactive" "pair_guids g base = (active, inactive)"
    and h: "\<exists>pe be. h = g\<lparr>primary_entries := pe, backup_entries := be\<rparr>"
    and p: "pair_updated (gh_entry_size (primary_header g)) base slot active inactive (primary_entries g) (primary_entries h)"
    and b: "pair_updated (gh_entry_size (backup_header g)) base slot active inactive (backup_entries g) (backup_entries h)"
    using set_active_pair_Inr [OF ok run] by blast
  have okt: "table_ok (gh_entry_size (primary_header g)) (primary_entries g)" "table_ok (gh_entry_size (backup_header g)) (backup_entries g)"
    using ok by (simp_all add: gpt_ok_def)
  have hd: "primary_header h = primary_header g" "backup_header h = backup_header g" "headers_kept h g' = headers_kept g g'"
    using h by (auto simp: headers_kept_same)
  have gs: "entries_switched es slot bs (pair_guids h) t t' = entries_switched es slot bs (pair_guids g) t t'" for es t t'
    using pair_guids_other [OF ok run] base by (intro entries_switched_guids) metis
  note m = more [unfolded disk_switched_def hd gs]
  note one = pair_updated_switched [where gs = "pair_guids g", OF _ g]
  show ?thesis
    unfolding disk_switched_def
    using m entries_switched_insert [OF okt(1) base pair_updated_keys [OF okt(1) g(1,2) p] one [OF okt(1) p]]
      entries_switched_insert [OF okt(2) base pair_updated_keys [OF okt(2) g(1,2) b] one [OF okt(2) b]]
    by blast
qed

lemma disk_switched_one:
  assumes "gpt_ok g" and "set_active_pair g base slot = Inr (g', Updated)"
  shows "disk_switched slot {base} g g'"
  using disk_switched_insert [OF assms, of "{}" g'] by simp

lemma active_bit: "is_slot_active e \<longleftrightarrow> (e ! AB_FLAG_OFFSET) AND AB_PARTITION_ATTR_SLOT_ACTIVE \<noteq> 0"
  by (simp add: is_slot_active_def)

lemma set_active_pair_activates:
  assumes ok: "gpt_ok g" and run: "set_active_pair g base target = Inr (g', Updated)"
  shows "active_slot_for_base g' base = Inr (Some target)"
    and "name \<noteq> base @ ustr ''_a'' \<Longrightarrow> name \<noteq> base @ ustr ''_b'' \<Longrightarrow> attribute_byte g' name = attribute_byte g name"
proof -
  obtain active inactive where g: "guid_ok active" "guid_ok inactive" "gpt_ok g'"
    and h: "primary_header g' = primary_header g"
    and up: "pair_updated (gh_entry_size (primary_header g)) base target active inactive (primary_entries g) (primary_entries g')"
    using set_active_pair_Inr [OF ok run] by force
  have okp: "table_ok (gh_entry_size (primary_header g)) (primary_entries g)" "table_ok (gh_entry_size (primary_header g)) (primary_entries g')"
    using ok g(3) h by (simp_all add: gpt_ok_def)
  note after = attribute_after_update [OF okp(1) g(1,2) up okp(2)]
  obtain ea where ea: "find_entry (primary_entries g') (gh_entry_size (primary_header g)) (base @ ustr ''_a'') = Inr (Some ea)"
      "is_slot_active ea \<longleftrightarrow> target = A" using after(1) by blast
  obtain eb where eb: "find_entry (primary_entries g') (gh_entry_size (primary_header g)) (base @ ustr ''_b'') = Inr (Some eb)"
      "is_slot_active eb \<longleftrightarrow> target = B" using after(2) by blast
  have attr: "attribute_byte g' (base @ ustr ''_a'') = Inr (Some (ea ! AB_FLAG_OFFSET))"
      "attribute_byte g' (base @ ustr ''_b'') = Inr (Some (eb ! AB_FLAG_OFFSET))"
    by (simp_all add: attribute_byte_def h ea(1) eb(1) del: bind_io_eq_Inr)
  show "active_slot_for_base g' base = Inr (Some target)"
    unfolding active_slot_for_base_def attr bind_io_simps Let_def option.case active_bit [symmetric] ea(2) eb(2)
    by (cases target) simp_all
  show "name \<noteq> base @ ustr ''_a'' \<Longrightarrow> name \<noteq> base @ ustr ''_b'' \<Longrightarrow> attribute_byte g' name = attribute_byte g name"
    using after(3) [of name] by (simp add: attribute_byte_def h)
qed

end
