(* ===== verification/GptDisk.thy ===== *)
theory GptDisk
  imports GptTable
begin

unbundle bit_operations_syntax

text \<open>
  The partition tables on a device: the transfer loops against an abstract device (\<open>os_ok\<close> makes
  short transfers, \<open>os_honest\<close> and \<open>os_faithful\<close> may also fail), loading as the presence of two valid copies
  (\<open>copy_at\<close>), and committing as a sequence of four region writes. The last section states that a
  switch of slots survives a reload and a failing write.
\<close>

section \<open>Transfers\<close>

text \<open>Reads succeed within the bounds of the device, and so do writes, each possibly short.\<close>

definition os_reads :: "os_calls \<Rightarrow> bool" where
  "os_reads os \<longleftrightarrow> os_open os = Inr () \<and>
     (\<forall>c len off. 0 < len \<longrightarrow> off + len \<le> length c \<longrightarrow>
        (\<exists>n. 0 < n \<and> n \<le> len \<and> os_read_at os c len off = Inr (slice c off (off + n))))"

definition os_ok :: "os_calls \<Rightarrow> bool" where
  "os_ok os \<longleftrightarrow> os_reads os \<and> os_sync_all os = Inr () \<and>
     (\<forall>c buf off. buf \<noteq> [] \<longrightarrow> off + length buf \<le> length c \<longrightarrow>
        (\<exists>n. 0 < n \<and> n \<le> length buf \<and> os_write_at os c buf off = Inr (n, splice c off (take n buf))))"

lemma read_exact_at_ok:
  assumes "os_reads os"
  shows "off + len \<le> length c \<Longrightarrow> read_exact_at os c len off = Inr (slice c off (off + len))"
proof (induction len arbitrary: off rule: less_induct)
  case (less len)
  show ?case
  proof (cases "len = 0")
    case False
    then have "0 < len" by simp
    then obtain n where n: "0 < n" "n \<le> len" "os_read_at os c len off = Inr (slice c off (off + n))"
      using assms less.prems unfolding os_reads_def by blast
    then have bs: "length (slice c off (off + n)) = n" "slice c off (off + n) \<noteq> []"
      using less.prems by (auto simp flip: length_greater_0_conv)
    have "read_exact_at os c (len - n) (off + n) = Inr (slice c (off + n) (off + len))"
      using less.IH [of "len - n" "off + n"] n less.prems by simp
    then show ?thesis
      using n bs False slice_split [of off "off + n" "off + len" c] by (subst read_exact_at.simps) simp
  qed (subst read_exact_at.simps, simp add: slice_def)
qed

text \<open>Opening and reading may fail at any point, but what a read does return is what the device holds there.\<close>

definition os_faithful :: "os_calls \<Rightarrow> bool" where
  "os_faithful os \<longleftrightarrow>
     (\<forall>c len off bs. 0 < len \<longrightarrow> off + len \<le> length c \<longrightarrow> os_read_at os c len off = Inr bs \<longrightarrow>
        length bs \<le> len \<and> bs = slice c off (off + length bs))"

lemma os_reads_faithful: "os_reads os \<Longrightarrow> os_faithful os"
  unfolding os_reads_def os_faithful_def by (metis add_le_cancel_left diff_add_inverse length_slice order_trans sum.inject(2))

lemma read_exact_at_faithful:
  assumes "os_faithful os"
  shows "off + len \<le> length c \<Longrightarrow> read_exact_at os c len off = Inr bs \<Longrightarrow> bs = slice c off (off + len)"
proof (induction len arbitrary: off bs rule: less_induct)
  case (less len)
  note run = less.prems(2) [unfolded read_exact_at.simps [of os c len off]]
  show ?case
  proof (cases "len = 0")
    case True
    then show ?thesis using run by (simp add: slice_def)
  next
    case False
    then obtain xs rest where x: "os_read_at os c len off = Inr xs" "xs \<noteq> []" "bs = xs @ rest"
        "read_exact_at os c (len - length xs) (off + length xs) = Inr rest"
      using run by (auto split: if_splits)
    have xs: "length xs \<le> len" "xs = slice c off (off + length xs)"
      using assms False less.prems(1) x(1) unfolding os_faithful_def by blast+
    have "rest = slice c (off + length xs) (off + len)"
      using less.IH [OF _ _ x(4)] x(2) xs(1) False less.prems(1) by simp
    then show ?thesis
      using slice_split [of off "off + length xs" "off + len" c] x(3) xs by simp
  qed
qed

lemma os_ok_reads: "os_ok os \<Longrightarrow> os_reads os"
  by (simp add: os_ok_def)

lemma splice_append: "off + length (xs @ ys) \<le> length c \<Longrightarrow> splice (splice c off xs) (off + length xs) ys = splice c off (xs @ ys)"
  by (simp add: splice_def ac_simps)

lemma splice_Nil [simp]: "off \<le> length c \<Longrightarrow> splice c off [] = c"
  by (simp add: splice_def)

lemma write_all_at_ok:
  assumes "os_ok os"
  shows "off + length buf \<le> length c \<Longrightarrow> write_all_at os c buf off = (splice c off buf, Inr ())"
proof (induction "length buf" arbitrary: buf c off rule: less_induct)
  case less
  show ?case
  proof (cases "buf = []")
    case False
    then obtain n where n: "0 < n" "n \<le> length buf" "os_write_at os c buf off = Inr (n, splice c off (take n buf))"
      using assms less.prems unfolding os_ok_def by blast
    have "write_all_at os (splice c off (take n buf)) (drop n buf) (off + n) =
        (splice (splice c off (take n buf)) (off + n) (drop n buf), Inr ())"
      using less.hyps [of "drop n buf" "off + n" "splice c off (take n buf)"] n less.prems by simp
    also have "splice (splice c off (take n buf)) (off + n) (drop n buf) = splice c off buf"
      using splice_append [of off "take n buf" "drop n buf" c] n(2) less.prems by simp
    finally show ?thesis
      using n False by (subst write_all_at.simps) simp
  qed (use less.prems in \<open>subst write_all_at.simps, simp\<close>)
qed

text \<open>A device that may fail, but writes nothing except a prefix of what it is given, where it is told.\<close>

definition os_honest :: "os_calls \<Rightarrow> bool" where
  "os_honest os \<longleftrightarrow>
     (\<forall>c buf off n c'. os_write_at os c buf off = Inr (n, c') \<longrightarrow> n \<le> length buf \<and> c' = splice c off (take n buf))"

lemma write_all_at_honest:
  assumes "os_honest os"
  shows "off + length buf \<le> length c \<Longrightarrow> write_all_at os c buf off = (c', r) \<Longrightarrow>
    \<exists>k \<le> length buf. c' = splice c off (take k buf) \<and> (r = Inr () \<longrightarrow> k = length buf)"
proof (induction "length buf" arbitrary: buf c off rule: less_induct)
  case less
  note run = less.prems(2) [unfolded write_all_at.simps [of os c buf off]]
  show ?case
  proof (cases "buf = []")
    case True
    then show ?thesis using run less.prems(1) by auto
  next
    case False
    show ?thesis
    proof (cases "os_write_at os c buf off")
      case (Inl e)
      then have "c' = c" "r = Inl e" using run False by simp_all
      then show ?thesis using less.prems by (intro exI [of _ 0]) simp
    next
      case (Inr p)
      then obtain n where p: "os_write_at os c buf off = Inr (n, splice c off (take n buf))" "n \<le> length buf"
        using assms by (cases p) (auto simp: os_honest_def)
      show ?thesis
      proof (cases "n = 0")
        case True
        then have "c' = c" "\<exists>e. r = Inl e" using run False p less.prems(1) by auto
        then show ?thesis using less.prems by (intro exI [of _ 0]) auto
      next
        case nz: False
        have "write_all_at os (splice c off (take n buf)) (drop n buf) (off + n) = (c', r)"
          using run False p nz by simp
        then obtain k where k: "k \<le> length (drop n buf)"
            "c' = splice (splice c off (take n buf)) (off + n) (take k (drop n buf))" "r = Inr () \<longrightarrow> k = length (drop n buf)"
          using less.hyps [of "drop n buf" "off + n" "splice c off (take n buf)"] p(2) nz False less.prems(1) by auto
        have "c' = splice c off (take n buf @ take k (drop n buf))"
          using k(1,2) p(2) less.prems(1) splice_append [of off "take n buf" "take k (drop n buf)" c] by simp
        then show ?thesis
          using k(1,3) p(2) by (intro exI [of _ "n + k"]) (simp add: take_add)
      qed
    qed
  qed
qed

section \<open>Copies of the table on a device\<close>

text \<open>Byte offset of a logical block.\<close>

definition lba_off :: "disk \<Rightarrow> u64 \<Rightarrow> nat" where
  "lba_off d lba = unat lba * unat (logical_block_size d)"

definition dev_ok :: "disk \<Rightarrow> bytes \<Rightarrow> bool" where
  "dev_ok d c \<longleftrightarrow> length c = unat (total_bytes d) \<and> unat (total_bytes d) < 2 ^ 64 - 1 \<and> 512 \<le> unat (logical_block_size d)"

abbreviation total_blocks :: "disk \<Rightarrow> u64" where
  "total_blocks d \<equiv> total_bytes d div logical_block_size d"

text \<open>A valid copy: a header that parses at \<open>lba\<close> and the entry array it describes, with the right checksum.\<close>

definition copy_at :: "disk \<Rightarrow> bytes \<Rightarrow> u64 \<Rightarrow> gpt_header \<Rightarrow> bytes \<Rightarrow> bytes \<Rightarrow> bool" where
  "copy_at d c lba h hb es \<longleftrightarrow>
     length hb = unat (logical_block_size d) \<and> lba_off d lba + unat (logical_block_size d) \<le> length c \<and>
     slice c (lba_off d lba) (lba_off d lba + unat (logical_block_size d)) = hb \<and> parse_gpt_header hb (total_blocks d) = Inr h \<and>
     table_bytes h = Inr (of_nat (length es)) \<and> length es < 2 ^ 64 \<and>
     lba_off d (gh_entries_lba h) + length es \<le> length c \<and>
     slice c (lba_off d (gh_entries_lba h)) (lba_off d (gh_entries_lba h) + length es) = es \<and>
     crc32_ieee es = gh_entry_array_crc32 h"

lemma block_in_range:
  assumes "dev_ok d c" and "lba < total_blocks d"
  shows "lba_off d lba + unat (logical_block_size d) \<le> length c"
    and "checked_lba_offset lba (logical_block_size d) = Inr (of_nat (lba_off d lba))" and "lba_off d lba < 2 ^ 64"
proof -
  have "unat lba < unat (total_bytes d) div unat (logical_block_size d)"
    using assms(2) by (simp add: word_less_nat_alt unat_div_distrib)
  then have "Suc (unat lba) * unat (logical_block_size d) \<le> unat (total_bytes d)"
    using assms(1) by (metis Suc_leI div_times_less_eq_dividend mult_le_mono1 order_trans)
  then show r: "lba_off d lba + unat (logical_block_size d) \<le> length c"
    using assms(1) by (simp add: lba_off_def dev_ok_def)
  then show l: "lba_off d lba < 2 ^ 64" using assms(1) by (simp add: dev_ok_def)
  then show "checked_lba_offset lba (logical_block_size d) = Inr (of_nat (lba_off d lba))"
    by (simp add: checked_lba_offset_def checked_mul_def lba_off_def)
qed

lemma read_lba_ok:
  assumes "os_reads os" and "dev_ok d c" and "lba < total_blocks d"
  shows "read_lba os c (logical_block_size d) lba = Inr (slice c (lba_off d lba) (lba_off d lba + unat (logical_block_size d)))"
  using block_in_range [OF assms(2,3)] read_exact_at_ok [OF assms(1)]
  by (simp add: read_lba_def unat_of_nat_u64)

lemma parse_header_lbas:
  assumes "parse_gpt_header raw tot = Inr h"
  shows "gh_current_lba h < tot" and "gh_backup_lba h < tot" and "gh_entries_lba h < tot" and "128 \<le> gh_entry_size h"
  using assms by (auto simp: parse_gpt_header_def Let_def gpt_consts split: if_split_asm)

lemma read_entry_array_run:
  assumes "dev_ok d c" and "gh_entries_lba h < total_blocks d"
  shows "read_entry_array os c d h = bind_io (table_bytes h) (\<lambda>n.
      if \<not> lba_off d (gh_entries_lba h) + unat n \<le> length c then invalid_data ''GPT partition table exceeds disk size''
      else read_exact_at os c (unat n) (lba_off d (gh_entries_lba h)))"
proof -
  let ?off = "lba_off d (gh_entries_lba h)"
  note b = block_in_range [OF assms]
  have off: "unat (word_of_nat ?off :: u64) = ?off" by (rule unat_of_nat_u64 [OF b(3)])
  have sat: "(total_bytes d < saturating_add (of_nat ?off) n) \<longleftrightarrow> \<not> ?off + unat n \<le> length c" for n
  proof (cases "?off + unat n < 2 ^ 64")
    case True
    then show ?thesis
      using b(3) assms(1) by (auto simp: saturating_add_def checked_add_def unat_of_nat_u64 word_less_nat_alt unat_add_exact dev_ok_def)
  next
    case False
    then show ?thesis
      using b(3) assms(1) by (auto simp: saturating_add_def checked_add_def unat_of_nat_u64 word_less_nat_alt dev_ok_def)
  qed
  show ?thesis unfolding read_entry_array_def b(2) bind_io_simps sat off ..
qed

text \<open>The array a header describes, as it lies on the device.\<close>

definition array_at :: "disk \<Rightarrow> bytes \<Rightarrow> gpt_header \<Rightarrow> bytes \<Rightarrow> bool" where
  "array_at d c h es \<longleftrightarrow>
     table_bytes h = Inr (of_nat (length es)) \<and> length es < 2 ^ 64 \<and> lba_off d (gh_entries_lba h) + length es \<le> length c \<and>
     slice c (lba_off d (gh_entries_lba h)) (lba_off d (gh_entries_lba h) + length es) = es"

lemma read_entry_array_faithful:
  assumes "os_faithful os" and "dev_ok d c" and "gh_entries_lba h < total_blocks d" and "read_entry_array os c d h = Inr es"
  shows "array_at d c h es"
proof -
  obtain n where n: "table_bytes h = Inr n" "lba_off d (gh_entries_lba h) + unat n \<le> length c"
      "es = slice c (lba_off d (gh_entries_lba h)) (lba_off d (gh_entries_lba h) + unat n)"
    using read_exact_at_faithful [OF assms(1)] assms(4) unfolding read_entry_array_run [OF assms(2,3)]
    by (auto split: if_split_asm)
  then have "length es = unat n" by simp
  then show ?thesis using n unat_less_u64 [of n] by (simp add: array_at_def)
qed

lemma read_entry_array_Inr:
  assumes "os_reads os" and "dev_ok d c" and "gh_entries_lba h < total_blocks d"
  shows "read_entry_array os c d h = Inr es \<longleftrightarrow> array_at d c h es"
proof
  show "read_entry_array os c d h = Inr es \<Longrightarrow> array_at d c h es"
    by (rule read_entry_array_faithful [OF os_reads_faithful [OF assms(1)] assms(2,3)])
  assume "array_at d c h es"
  then show "read_entry_array os c d h = Inr es"
    using read_exact_at_ok [OF assms(1), of "lba_off d (gh_entries_lba h)" "length es" c]
    unfolding read_entry_array_run [OF assms(2,3)] by (simp add: array_at_def unat_of_nat_u64)
qed

lemma header_at_iff:
  assumes "os_reads os" and "dev_ok d c" and "lba < total_blocks d"
  shows "read_lba os c (logical_block_size d) lba = Inr hb \<longleftrightarrow>
    length hb = unat (logical_block_size d) \<and> lba_off d lba + unat (logical_block_size d) \<le> length c \<and>
    slice c (lba_off d lba) (lba_off d lba + unat (logical_block_size d)) = hb"
  using read_lba_ok [OF assms] block_in_range(1) [OF assms(2,3)] by auto

lemma read_lba_faithful:
  assumes "os_faithful os" and "dev_ok d c" and "lba < total_blocks d" and "read_lba os c (logical_block_size d) lba = Inr hb"
  shows "length hb = unat (logical_block_size d) \<and> lba_off d lba + unat (logical_block_size d) \<le> length c \<and>
    slice c (lba_off d lba) (lba_off d lba + unat (logical_block_size d)) = hb"
proof -
  note b = block_in_range [OF assms(2,3)]
  have "read_exact_at os c (unat (logical_block_size d)) (lba_off d lba) = Inr hb"
    using assms(4) b(2,3) by (simp add: read_lba_def unat_of_nat_u64)
  then have "hb = slice c (lba_off d lba) (lba_off d lba + unat (logical_block_size d))"
    by (rule read_exact_at_faithful [OF assms(1) b(1)])
  then show ?thesis using b(1) by simp
qed

lemma validate_Inr [simp]: "validate_entry_array_crc es h = Inr u \<longleftrightarrow> crc32_ieee es = gh_entry_array_crc32 h"
  by (simp add: validate_entry_array_crc_def)

text \<open>A disk that loads holds both copies; one that holds them loads, where reads succeed.\<close>

lemma gpt_load_faithful:
  assumes os: "os_faithful os" and dev: "dev_ok d c" and load: "gpt_load os d c = Inr g"
  shows "2 \<le> total_blocks d \<and> gd_disk g = d \<and>
    copy_at d c 1 (primary_header g) (primary_header_bytes g) (primary_entries g) \<and>
    copy_at d c (gh_backup_lba (primary_header g)) (backup_header g) (backup_header_bytes g) (backup_entries g) \<and>
    gh_entry_count (primary_header g) = gh_entry_count (backup_header g) \<and>
    gh_entry_size (primary_header g) = gh_entry_size (backup_header g)"
proof -
  have lbs: "logical_block_size d \<noteq> 0" using dev by (auto simp: dev_ok_def)
  note run = load [unfolded gpt_load_def Let_def if_not_P [OF lbs]]
  then have tb: "2 \<le> total_blocks d" by (auto simp: not_less split: if_split_asm)
  then have one: "1 < total_blocks d" by (simp add: word_less_nat_alt word_le_nat_alt)
  obtain pb ph bb bh pe be where s: "read_lba os c (logical_block_size d) 1 = Inr pb"
      "parse_gpt_header pb (total_blocks d) = Inr ph" "read_lba os c (logical_block_size d) (gh_backup_lba ph) = Inr bb"
      "parse_gpt_header bb (total_blocks d) = Inr bh" "read_entry_array os c d ph = Inr pe" "read_entry_array os c d bh = Inr be"
      "validate_entry_array_crc pe ph = Inr ()" "validate_entry_array_crc be bh = Inr ()"
      "gh_entry_count ph = gh_entry_count bh" "gh_entry_size ph = gh_entry_size bh"
      "g = \<lparr>gd_disk = d, primary_header = ph, backup_header = bh, primary_header_bytes = pb,
               backup_header_bytes = bb, primary_entries = pe, backup_entries = be\<rparr>"
    using run by (auto split: if_split_asm)
  note lp = parse_header_lbas [OF s(2)] and lb = parse_header_lbas [OF s(4)]
  show ?thesis
    using tb s read_lba_faithful [OF os dev one s(1)] read_lba_faithful [OF os dev lp(2) s(3)]
      read_entry_array_faithful [OF os dev lp(3) s(5)] read_entry_array_faithful [OF os dev lb(3) s(6)]
    by (simp add: copy_at_def array_at_def)
qed

lemma gpt_load_iff:
  assumes os: "os_reads os" and dev: "dev_ok d c"
  shows "gpt_load os d c = Inr g \<longleftrightarrow>
    2 \<le> total_blocks d \<and> gd_disk g = d \<and>
    copy_at d c 1 (primary_header g) (primary_header_bytes g) (primary_entries g) \<and>
    copy_at d c (gh_backup_lba (primary_header g)) (backup_header g) (backup_header_bytes g) (backup_entries g) \<and>
    gh_entry_count (primary_header g) = gh_entry_count (backup_header g) \<and>
    gh_entry_size (primary_header g) = gh_entry_size (backup_header g)" (is "?l \<longleftrightarrow> ?r")
proof
  show "?l \<Longrightarrow> ?r" by (rule gpt_load_faithful [OF os_reads_faithful [OF os] dev])
  assume r: ?r
  have open_ok: "os_open os = Inr ()" using os by (simp add: os_reads_def)
  have one: "1 < total_blocks d" using r by (simp add: word_less_nat_alt word_le_nat_alt)
  have lbs: "logical_block_size d \<noteq> 0" using dev by (auto simp: dev_ok_def)
  have par: "parse_gpt_header (primary_header_bytes g) (total_blocks d) = Inr (primary_header g)"
    "parse_gpt_header (backup_header_bytes g) (total_blocks d) = Inr (backup_header g)" using r by (simp_all add: copy_at_def)
  note lp = parse_header_lbas [OF par(1)] and lb = parse_header_lbas [OF par(2)]
  have rd: "read_lba os c (logical_block_size d) 1 = Inr (primary_header_bytes g)"
      "read_lba os c (logical_block_size d) (gh_backup_lba (primary_header g)) = Inr (backup_header_bytes g)"
      "read_entry_array os c d (primary_header g) = Inr (primary_entries g)"
      "read_entry_array os c d (backup_header g) = Inr (backup_entries g)"
      "validate_entry_array_crc (primary_entries g) (primary_header g) = Inr ()"
      "validate_entry_array_crc (backup_entries g) (backup_header g) = Inr ()"
    using r header_at_iff [OF os dev one] header_at_iff [OF os dev lp(2)]
      read_entry_array_Inr [OF os dev lp(3)] read_entry_array_Inr [OF os dev lb(3)] by (simp_all add: copy_at_def array_at_def)
  show ?l
    unfolding gpt_load_def Let_def open_ok bind_io_simps rd par if_not_P [OF lbs] using r by (cases g) (simp add: not_less)
qed

section \<open>Sequences of writes\<close>

text \<open>A region is its first byte and its length.\<close>

type_synonym region = "nat \<times> nat"

definition regions_apart :: "region \<Rightarrow> region \<Rightarrow> bool" where
  "regions_apart p q \<longleftrightarrow> fst p + snd p \<le> fst q \<or> fst q + snd q \<le> fst p"

definition bytes_at :: "bytes \<Rightarrow> region \<Rightarrow> bytes" where
  "bytes_at c p = slice c (fst p) (fst p + snd p)"

definition in_bounds :: "bytes \<Rightarrow> region \<Rightarrow> bool" where
  "in_bounds c p \<longleftrightarrow> fst p + snd p \<le> length c"

definition write_region :: "disk \<Rightarrow> u64 \<times> bytes \<Rightarrow> region" where
  "write_region d w = (lba_off d (fst w), length (snd w))"

lemma regions_apart_sym: "regions_apart p q \<longleftrightarrow> regions_apart q p"
  by (auto simp: regions_apart_def)

lemma bytes_at_splice:
  assumes "in_bounds c (off, length buf)" and "in_bounds c p"
  shows "regions_apart (off, length buf) p \<Longrightarrow> bytes_at (splice c off buf) p = bytes_at c p"
    and "p = (off, length buf) \<Longrightarrow> bytes_at (splice c off buf) p = buf"
proof -
  show "bytes_at (splice c off buf) p = bytes_at c p" if "regions_apart (off, length buf) p"
  proof (cases "off + length buf \<le> fst p")
    case True
    then show ?thesis using assms by (simp add: bytes_at_def in_bounds_def slice_splice_after)
  next
    case False
    then show ?thesis using assms that by (simp add: bytes_at_def in_bounds_def regions_apart_def slice_splice_before)
  qed
  show "p = (off, length buf) \<Longrightarrow> bytes_at (splice c off buf) p = buf"
    using assms by (simp add: bytes_at_def in_bounds_def slice_splice_same)
qed

lemma checked_lba_offset_Inr:
  "checked_lba_offset lba (logical_block_size d) = Inr off \<Longrightarrow> unat off = lba_off d lba"
  by (auto simp: checked_lba_offset_def checked_mul_def lba_off_def unat_word_ariths split: if_split_asm)

lemma write_region_frame:
  assumes "os_honest os" and "write_all_at os c buf off = (c', r)"
    and "in_bounds c (off, length buf)"
  shows "length c' = length c" and "in_bounds c p \<Longrightarrow> regions_apart (off, length buf) p \<Longrightarrow> bytes_at c' p = bytes_at c p"
    and "r = Inr () \<Longrightarrow> c' = splice c off buf"
proof -
  obtain k where k: "k \<le> length buf" "c' = splice c off (take k buf)" "r = Inr () \<longrightarrow> k = length buf"
    using write_all_at_honest [OF assms(1) _ assms(2)] assms(3) by (auto simp: in_bounds_def)
  have b: "in_bounds c (off, length (take k buf))" using assms(3) by (simp add: in_bounds_def)
  show "length c' = length c" using b k(2) by (simp add: in_bounds_def)
  show "bytes_at c' p = bytes_at c p" if "in_bounds c p" "regions_apart (off, length buf) p"
  proof -
    have "regions_apart (off, length (take k buf)) p" using that(2) by (auto simp: regions_apart_def)
    then show ?thesis using bytes_at_splice(1) [OF b that(1)] k(2) by simp
  qed
  show "r = Inr () \<Longrightarrow> c' = splice c off buf" using k by simp
qed

lemma write_seq_frame:
  assumes "os_honest os"
  shows "write_seq os (logical_block_size d) ws c = (c', r) \<Longrightarrow> list_all (in_bounds c \<circ> write_region d) ws \<Longrightarrow>
    length c' = length c \<and> (in_bounds c p \<longrightarrow> list_all (\<lambda>w. regions_apart (write_region d w) p) ws \<longrightarrow> bytes_at c' p = bytes_at c p)"
proof (induction ws arbitrary: c)
  case Nil
  then show ?case by simp
next
  case (Cons w ws)
  obtain lba buf where w: "w = (lba, buf)" by (cases w)
  note run = Cons.prems(1) [unfolded w write_seq.simps]
  show ?case
  proof (cases "checked_lba_offset lba (logical_block_size d)")
    case (Inl e)
    then show ?thesis using run by simp
  next
    case (Inr off)
    note off = checked_lba_offset_Inr [OF Inr]
    obtain c1 r1 where wr: "write_all_at os c buf (lba_off d lba) = (c1, r1)" by (cases "write_all_at os c buf (lba_off d lba)")
    have b: "in_bounds c (lba_off d lba, length buf)" using Cons.prems(2) w by (simp add: write_region_def)
    note fr = write_region_frame [OF assms wr b]
    show ?thesis
    proof (cases r1)
      case (Inl e)
      then have "c' = c1" using run Inr off wr by simp
      then show ?thesis using fr(1,2) w by (auto simp: write_region_def)
    next
      case r1: (Inr u)
      have "write_seq os (logical_block_size d) ws c1 = (c', r)" using run Inr off wr r1 by simp
      moreover have ib: "in_bounds c1 = in_bounds c" using fr(1) by (auto simp: in_bounds_def)
      ultimately show ?thesis using Cons.IH [of c1] Cons.prems(2) fr w by (auto simp: write_region_def)
    qed
  qed
qed

lemma write_seq_append:
  "write_seq os lbs (ws @ vs) c =
     (case write_seq os lbs ws c of (c', Inl e) \<Rightarrow> (c', Inl e) | (c', Inr _) \<Rightarrow> write_seq os lbs vs c')"
  by (induction ws arbitrary: c) (auto split: sum.splits prod.splits)

text \<open>When the sequence succeeds every buffer is on the device.\<close>

lemma write_seq_done:
  assumes "os_honest os"
  shows "write_seq os (logical_block_size d) ws c = (c', Inr ()) \<Longrightarrow> list_all (in_bounds c \<circ> write_region d) ws \<Longrightarrow>
    sorted_wrt (\<lambda>v w. regions_apart (write_region d v) (write_region d w)) ws \<Longrightarrow>
    list_all (\<lambda>w. bytes_at c' (write_region d w) = snd w) ws"
proof (induction ws arbitrary: c)
  case Nil
  then show ?case by simp
next
  case (Cons w ws)
  obtain lba buf where w: "w = (lba, buf)" by (cases w)
  note run = Cons.prems(1) [unfolded w write_seq.simps]
  then obtain off where Inr: "checked_lba_offset lba (logical_block_size d) = Inr off"
    by (cases "checked_lba_offset lba (logical_block_size d)") auto
  note off = checked_lba_offset_Inr [OF Inr]
  obtain c1 r1 where wr: "write_all_at os c buf (lba_off d lba) = (c1, r1)" by (cases "write_all_at os c buf (lba_off d lba)")
  then have r1: "r1 = Inr ()" and rest: "write_seq os (logical_block_size d) ws c1 = (c', Inr ())"
    using run Inr off by (auto split: sum.splits)
  have b: "in_bounds c (lba_off d lba, length buf)" using Cons.prems(2) w by (simp add: write_region_def)
  note fr = write_region_frame [OF assms wr b]
  have ib: "in_bounds c1 = in_bounds c" using fr(1) by (auto simp: in_bounds_def)
  have "list_all (\<lambda>v. regions_apart (write_region d v) (write_region d w)) ws"
    using Cons.prems(3) by (auto simp: list_all_iff regions_apart_sym)
  then have "bytes_at c' (write_region d w) = bytes_at c1 (write_region d w)"
    using write_seq_frame [OF assms rest, of "write_region d w"] Cons.prems(2) ib by (simp add: o_def)
  also have "\<dots> = snd w"
    using bytes_at_splice(2) [OF b b] fr(3) [OF r1] w by (simp add: write_region_def)
  finally show ?case using Cons.IH [OF rest] Cons.prems(2,3) ib by (simp add: o_def)
qed

lemma write_seq_ok:
  assumes "os_ok os" and "dev_ok d c"
  shows "list_all (in_bounds c \<circ> write_region d) ws \<Longrightarrow> \<exists>c'. write_seq os (logical_block_size d) ws c = (c', Inr ())"
  using assms(2)
proof (induction ws arbitrary: c)
  case Nil
  then show ?case by simp
next
  case (Cons w ws)
  obtain lba buf where w: "w = (lba, buf)" by (cases w)
  have b: "lba_off d lba + length buf \<le> length c" using Cons.prems(1) w by (simp add: write_region_def in_bounds_def)
  then have off: "checked_lba_offset lba (logical_block_size d) = Inr (of_nat (lba_off d lba))" "lba_off d lba < 2 ^ 64"
    using Cons.prems(2) by (simp_all add: checked_lba_offset_def checked_mul_def lba_off_def dev_ok_def)
  have wr: "write_all_at os c buf (lba_off d lba) = (splice c (lba_off d lba) buf, Inr ())"
    by (rule write_all_at_ok [OF assms(1) b])
  have "length (splice c (lba_off d lba) buf) = length c" using b by simp
  then have "\<exists>c'. write_seq os (logical_block_size d) ws (splice c (lba_off d lba) buf) = (c', Inr ())"
    using Cons.prems by (intro Cons.IH) (auto simp: in_bounds_def dev_ok_def list_all_iff)
  then show ?case using w off wr by (simp add: unat_of_nat_u64)
qed
section \<open>Committing\<close>

text \<open>The four regions a commit writes lie on the disk, apart from each other, and the headers say where they are.\<close>

definition layout_ok :: "gpt_disk \<Rightarrow> bool" where
  "layout_ok g \<longleftrightarrow>
     gh_current_lba (primary_header g) = 1 \<and> gh_current_lba (backup_header g) = gh_backup_lba (primary_header g) \<and>
     sorted_wrt regions_apart (map (write_region (gd_disk g)) (commit_writes g))"

text \<open>The two copies on a device, as \<open>load\<close> finds them.\<close>

definition primary_copy :: "gpt_disk \<Rightarrow> bytes \<Rightarrow> bool" where
  "primary_copy g c \<longleftrightarrow> copy_at (gd_disk g) c 1 (primary_header g) (primary_header_bytes g) (primary_entries g)"

definition backup_copy :: "gpt_disk \<Rightarrow> bytes \<Rightarrow> bool" where
  "backup_copy g c \<longleftrightarrow>
     copy_at (gd_disk g) c (gh_backup_lba (primary_header g)) (backup_header g) (backup_header_bytes g) (backup_entries g)"

text \<open>The four regions the copies occupy, and the rest of the device as it was.\<close>

definition table_regions :: "gpt_disk \<Rightarrow> region list" where
  "table_regions g =
     (let d = gd_disk g; n = unat (logical_block_size d) in
      [(lba_off d (gh_entries_lba (primary_header g)), length (primary_entries g)), (lba_off d 1, n),
       (lba_off d (gh_entries_lba (backup_header g)), length (backup_entries g)),
       (lba_off d (gh_backup_lba (primary_header g)), n)])"

definition rest_kept :: "gpt_disk \<Rightarrow> bytes \<Rightarrow> bytes \<Rightarrow> bool" where
  "rest_kept g c c' \<longleftrightarrow> length c' = length c \<and>
     (\<forall>k < length c. (\<forall>(off, n) \<in> set (table_regions g). k < off \<or> off + n \<le> k) \<longrightarrow> c' ! k = c ! k)"

lemma rest_kept_refl [simp]: "rest_kept g c c"
  by (simp add: rest_kept_def)

lemma bytes_at_one: "k < length c \<Longrightarrow> bytes_at c (k, 1) = [c ! k]"
  by (simp add: bytes_at_def slice_def take_Suc_conv_app_nth hd_drop_conv_nth take_Suc)

text \<open>The tables changed, with the checksums that go with them.\<close>

definition with_tables :: "gpt_disk \<Rightarrow> bytes \<Rightarrow> bytes \<Rightarrow> gpt_disk" where
  "with_tables g pe be = g\<lparr>primary_entries := pe, backup_entries := be\<rparr>"

lemma with_tables_fields [simp]:
  "gd_disk (with_tables g pe be) = gd_disk g" "primary_header (with_tables g pe be) = primary_header g"
  "backup_header (with_tables g pe be) = backup_header g" "primary_header_bytes (with_tables g pe be) = primary_header_bytes g"
  "backup_header_bytes (with_tables g pe be) = backup_header_bytes g"
  "primary_entries (with_tables g pe be) = pe" "backup_entries (with_tables g pe be) = be"
  by (simp_all add: with_tables_def)

definition rechecked :: "gpt_disk \<Rightarrow> gpt_disk" where
  "rechecked g = g\<lparr>primary_header := (primary_header g)\<lparr>gh_entry_array_crc32 := crc32_ieee (primary_entries g)\<rparr>,
                  backup_header := (backup_header g)\<lparr>gh_entry_array_crc32 := crc32_ieee (backup_entries g)\<rparr>\<rparr>"

lemma refresh_headers_ok:
  assumes "parse_gpt_header (primary_header_bytes g) tot = Inr (primary_header g)"
    and "parse_gpt_header (backup_header_bytes g) tot = Inr (backup_header g)"
  shows "\<exists>pb bb. refresh_headers g = Inr (g\<lparr>primary_header_bytes := pb, backup_header_bytes := bb\<rparr>) \<and>
    header_bytes_kept (primary_header_bytes g) pb \<and> header_bytes_kept (backup_header_bytes g) bb \<and>
    parse_gpt_header pb tot = Inr (primary_header (rechecked g)) \<and> parse_gpt_header bb tot = Inr (backup_header (rechecked g))"
proof -
  obtain pb where pb: "bind_io (update_entry_array_crc (primary_header_bytes g) (primary_entries g)) update_header_crc = Inr pb"
      "header_bytes_kept (primary_header_bytes g) pb" "parse_gpt_header pb tot = Inr (primary_header (rechecked g))"
    using header_refresh [OF assms(1), of "primary_entries g"] by (auto simp: rechecked_def)
  obtain bb where bb: "bind_io (update_entry_array_crc (backup_header_bytes g) (backup_entries g)) update_header_crc = Inr bb"
      "header_bytes_kept (backup_header_bytes g) bb" "parse_gpt_header bb tot = Inr (backup_header (rechecked g))"
    using header_refresh [OF assms(2), of "backup_entries g"] by (auto simp: rechecked_def)
  have "refresh_headers g = Inr (g\<lparr>primary_header_bytes := pb, backup_header_bytes := bb\<rparr>)"
    using pb(1) bb(1) by (auto simp: refresh_headers_def)
  then show ?thesis using pb bb by blast
qed

lemma table_bytes_crc [simp]: "table_bytes (h\<lparr>gh_entry_array_crc32 := x\<rparr>) = table_bytes h"
  by (simp add: table_bytes_def)

lemma copy_at_region:
  "copy_at d c lba h hb es \<longleftrightarrow>
     length hb = unat (logical_block_size d) \<and> in_bounds c (write_region d (lba, hb)) \<and>
     bytes_at c (write_region d (lba, hb)) = hb \<and> parse_gpt_header hb (total_blocks d) = Inr h \<and>
     table_bytes h = Inr (of_nat (length es)) \<and> length es < 2 ^ 64 \<and>
     in_bounds c (write_region d (gh_entries_lba h, es)) \<and> bytes_at c (write_region d (gh_entries_lba h, es)) = es \<and>
     crc32_ieee es = gh_entry_array_crc32 h"
  by (auto simp: copy_at_def in_bounds_def bytes_at_def write_region_def)

text \<open>
  Committing changed tables: the pair of checked copies goes from the old one to the new one
  through contents in which at least one copy is valid, whatever write the device fails.
\<close>

lemma gpt_commit_copies:
  assumes dev: "dev_ok (gd_disk g) c" and p: "primary_copy g c" and b: "backup_copy g c" and lay: "layout_ok g"
    and len: "length pe = length (primary_entries g)" "length be = length (backup_entries g)"
    and honest: "os_honest os" and run: "gpt_commit os (with_tables g pe be) c = (c', r)"
  shows "\<exists>pb bb. (let g' = (rechecked (with_tables g pe be))\<lparr>primary_header_bytes := pb, backup_header_bytes := bb\<rparr> in
     (backup_copy g c' \<or> primary_copy g' c') \<and> (r = Inr () \<longrightarrow> primary_copy g' c' \<and> backup_copy g' c')) \<and> rest_kept g c c' \<and>
     header_bytes_kept (primary_header_bytes g) pb \<and> header_bytes_kept (backup_header_bytes g) bb"
proof -
  let ?d = "gd_disk g" and ?g1 = "with_tables g pe be"
  let ?lbs = "logical_block_size ?d" and ?tot = "total_blocks ?d"
  note pc = p [unfolded primary_copy_def copy_at_region] and bc = b [unfolded backup_copy_def copy_at_region]
  obtain pb bb where run1: "refresh_headers ?g1 = Inr (?g1\<lparr>primary_header_bytes := pb, backup_header_bytes := bb\<rparr>)"
      and kept: "header_bytes_kept (primary_header_bytes g) pb" "header_bytes_kept (backup_header_bytes g) bb"
      and parse: "parse_gpt_header pb ?tot = Inr (primary_header (rechecked ?g1))" "parse_gpt_header bb ?tot = Inr (backup_header (rechecked ?g1))"
    using refresh_headers_ok [of ?g1 ?tot] pc bc by (auto simp: with_tables_def)
  have "length pb = length (primary_header_bytes g)" "length bb = length (backup_header_bytes g)"
    using kept by (simp_all add: header_bytes_kept_def)
  note rf = run1 this parse
  define g' where "g' = (rechecked ?g1)\<lparr>primary_header_bytes := pb, backup_header_bytes := bb\<rparr>"
  define ws1 where "ws1 = [(gh_entries_lba (primary_header g), pe), (1, pb)]"
  define ws2 where "ws2 = [(gh_entries_lba (backup_header g), be), (gh_backup_lba (primary_header g), bb)]"
  define R where "R = write_region ?d"
  have wr: "R (l, x) = R (l, y)" if "length x = length y" for l x y
    using that by (simp add: write_region_def R_def)
  have cur: "gh_current_lba (primary_header g) = 1" "gh_current_lba (backup_header g) = gh_backup_lba (primary_header g)"
    using lay by (simp_all add: layout_ok_def)
  have ws: "commit_writes (?g1\<lparr>primary_header_bytes := pb, backup_header_bytes := bb\<rparr>) = ws1 @ ws2"
    by (simp add: commit_writes_def ws1_def ws2_def with_tables_def cur)
  have regions: "map R (commit_writes g) = map R (ws1 @ ws2)"
    unfolding commit_writes_def ws1_def ws2_def cur
    by (simp add: wr [OF len(1)] wr [OF len(2)] wr [OF rf(2)] wr [OF rf(3)])
  have ap: "sorted_wrt regions_apart (map R (ws1 @ ws2))"
    using lay regions by (simp add: layout_ok_def R_def)
  have tr: "table_regions g = map R (ws1 @ ws2)"
    using pc bc rf(2,3) len by (simp add: table_regions_def ws1_def ws2_def R_def write_region_def Let_def)
  have ib: "list_all (in_bounds c) (map R (commit_writes g))"
    using pc bc unfolding commit_writes_def cur R_def by simp
  have ib': "list_all (in_bounds c \<circ> write_region ?d) (ws1 @ ws2)"
    using ib unfolding regions by (simp add: R_def list.pred_map)
  then have ib1: "list_all (in_bounds c \<circ> write_region ?d) ws1" and ib2: "list_all (in_bounds c \<circ> write_region ?d) ws2" by simp_all
  have fields: "gd_disk g' = ?d" "primary_header g' = primary_header (rechecked ?g1)" "backup_header g' = backup_header (rechecked ?g1)"
      "primary_header_bytes g' = pb" "backup_header_bytes g' = bb" "primary_entries g' = pe" "backup_entries g' = be"
    by (simp_all add: g'_def rechecked_def with_tables_def)
  have tables: "table_bytes (primary_header (rechecked ?g1)) = Inr (of_nat (length pe))" "length pe < 2 ^ 64"
      "table_bytes (backup_header (rechecked ?g1)) = Inr (of_nat (length be))" "length be < 2 ^ 64"
    using pc bc len by (simp_all add: rechecked_def with_tables_def)
  have lbas: "gh_entries_lba (primary_header (rechecked ?g1)) = gh_entries_lba (primary_header g)"
      "gh_entries_lba (backup_header (rechecked ?g1)) = gh_entries_lba (backup_header g)"
      "gh_backup_lba (primary_header (rechecked ?g1)) = gh_backup_lba (primary_header g)"
      "gh_entry_array_crc32 (primary_header (rechecked ?g1)) = crc32_ieee pe"
      "gh_entry_array_crc32 (backup_header (rechecked ?g1)) = crc32_ieee be"
    by (simp_all add: rechecked_def with_tables_def)
  have hl: "length pb = unat ?lbs" "length bb = unat ?lbs" using pc bc rf(2,3) by simp_all
  have prim: "primary_copy g' x" if "length x = length c" "list_all (\<lambda>w. bytes_at x (R w) = snd w) ws1" for x
  proof -
    have "list_all (in_bounds x \<circ> write_region ?d) ws1" using ib1 that(1) by (simp add: in_bounds_def ws1_def)
    then show ?thesis
      using that(2) tables(2) unfolding primary_copy_def copy_at_region fields rf(4) lbas tables(1)
      by (simp add: ws1_def R_def hl)
  qed
  have backup: "backup_copy g' x" if "length x = length c" "list_all (\<lambda>w. bytes_at x (R w) = snd w) ws2" for x
  proof -
    have "list_all (in_bounds x \<circ> write_region ?d) ws2" using ib2 that(1) by (simp add: in_bounds_def ws2_def)
    then show ?thesis
      using that(2) tables(4) unfolding backup_copy_def copy_at_region fields rf(5) lbas tables(3)
      by (simp add: ws2_def R_def hl)
  qed
  have split: "backup_copy g x \<or> primary_copy g' x" "q = Inr () \<Longrightarrow> primary_copy g' x \<and> backup_copy g' x" "rest_kept g c x"
    if w: "write_seq os ?lbs (ws1 @ ws2) c = (x, q)" for x q
  proof -
    have len': "length x = length c" using write_seq_frame [OF honest w ib'] by simp
    show "rest_kept g c x"
      unfolding rest_kept_def tr
    proof (intro conjI allI impI)
      fix k assume k: "k < length c" "\<forall>(off, n) \<in> set (map R (ws1 @ ws2)). k < off \<or> off + n \<le> k"
      have "in_bounds c (k, 1)" using k(1) by (simp add: in_bounds_def)
      moreover have "list_all (\<lambda>w. regions_apart (write_region ?d w) (k, 1)) (ws1 @ ws2)"
        unfolding list_all_iff
      proof
        fix w assume "w \<in> set (ws1 @ ws2)"
        then have "R w \<in> set (map R (ws1 @ ws2))" by auto
        then have "k < fst (R w) \<or> fst (R w) + snd (R w) \<le> k" using k(2) by (metis (mono_tags, lifting) case_prod_beta')
        then show "regions_apart (write_region ?d w) (k, 1)" by (auto simp: R_def regions_apart_def)
      qed
      ultimately have "bytes_at x (k, 1) = bytes_at c (k, 1)" using write_seq_frame [OF honest w ib'] by blast
      then show "x ! k = c ! k" using k(1) len' bytes_at_one [of k x] bytes_at_one [of k c] by simp
    qed (rule len')
    show "primary_copy g' x \<and> backup_copy g' x" if "q = Inr ()"
      using write_seq_done [OF honest w [unfolded that] ib' ap [unfolded R_def sorted_wrt_map]] prim [OF len'] backup [OF len']
      by (simp add: R_def)
    obtain c1 q1 where w1: "write_seq os ?lbs ws1 c = (c1, q1)" by (cases "write_seq os ?lbs ws1 c")
    have len1: "length c1 = length c" using write_seq_frame [OF honest w1 ib1] by simp
    show "backup_copy g x \<or> primary_copy g' x"
    proof (cases q1)
      case (Inl e)
      then have x: "x = c1" using w w1 by (simp add: write_seq_append)
      have keep: "bytes_at c1 p = bytes_at c p" if "p \<in> set (map R ws2)" for p
      proof -
        have "list_all (\<lambda>w. regions_apart (write_region ?d w) p) ws1" using ap that by (auto simp: sorted_wrt_append list_all_iff R_def)
        moreover have "in_bounds c p" using ib2 that by (auto simp: list_all_iff R_def)
        ultimately show ?thesis using write_seq_frame [OF honest w1 ib1] by blast
      qed
      have rs: "set (map R ws2) = {R (gh_entries_lba (backup_header g), backup_entries g), R (gh_backup_lba (primary_header g), backup_header_bytes g)}"
        by (simp add: ws2_def wr [OF len(2)] wr [OF rf(3)])
      have "backup_copy g x"
        using bc keep [unfolded rs, unfolded R_def] unfolding x backup_copy_def copy_at_region in_bounds_def len1 by simp
      then show ?thesis ..
    next
      case (Inr u)
      then have w2: "write_seq os ?lbs ws2 c1 = (x, q)" using w w1 by (simp add: write_seq_append)
      have ib2': "list_all (in_bounds c1 \<circ> write_region ?d) ws2" using ib2 len1 by (simp add: in_bounds_def ws2_def)
      have d1: "list_all (\<lambda>w. bytes_at c1 (write_region ?d w) = snd w) ws1"
        using Inr w1 ap by (intro write_seq_done [OF honest _ ib1]) (auto simp: R_def sorted_wrt_map sorted_wrt_append)
      have "list_all (\<lambda>w. bytes_at x (write_region ?d w) = snd w) ws1"
        unfolding list_all_iff
      proof
        fix v assume v: "v \<in> set ws1"
        have "list_all (\<lambda>w. regions_apart (write_region ?d w) (write_region ?d v)) ws2"
          using ap v by (auto simp: sorted_wrt_append list_all_iff R_def regions_apart_sym)
        moreover have "in_bounds c1 (write_region ?d v)" using ib1 v len1 by (auto simp: list_all_iff in_bounds_def)
        ultimately have "bytes_at x (write_region ?d v) = bytes_at c1 (write_region ?d v)"
          using write_seq_frame [OF honest w2 ib2'] by blast
        then show "bytes_at x (write_region ?d v) = snd v" using d1 v by (simp add: list_all_iff)
      qed
      then show ?thesis using prim [OF len'] by (simp add: R_def)
    qed
  qed
  have lbs: "logical_block_size (gd_disk (?g1\<lparr>primary_header_bytes := pb, backup_header_bytes := bb\<rparr>)) = ?lbs"
    by (simp add: with_tables_def)
  note run' = run [unfolded gpt_commit_def rf(1) bind_io_simps]
  have "(backup_copy g c' \<or> primary_copy g' c') \<and> (r = Inr () \<longrightarrow> primary_copy g' c' \<and> backup_copy g' c') \<and> rest_kept g c c'"
  proof (cases "os_open os")
    case (Inl e)
    then show ?thesis using run' b by auto
  next
    case (Inr u)
    obtain x q where w: "write_seq os ?lbs (ws1 @ ws2) c = (x, q)" by (cases "write_seq os ?lbs (ws1 @ ws2) c")
    have "c' = x" "r = Inr () \<longrightarrow> q = Inr ()" using run' Inr w by (auto simp: lbs ws split: sum.splits)
    then show ?thesis using split [OF w] by blast
  qed
  then show ?thesis using kept unfolding g'_def Let_def by blast
qed

lemma load_copies:
  assumes "os_faithful os" and "dev_ok d c" and "gpt_load os d c = Inr g"
  shows "gd_disk g = d" and "dev_ok (gd_disk g) c" and "primary_copy g c" and "backup_copy g c" and "gpt_ok g"
    and "2 \<le> total_blocks d"
    and "gh_entry_count (primary_header g) = gh_entry_count (backup_header g)"
    and "gh_entry_size (primary_header g) = gh_entry_size (backup_header g)"
proof -
  note l = gpt_load_faithful [OF assms]
  show d: "gd_disk g = d" and "2 \<le> total_blocks d" and "gh_entry_count (primary_header g) = gh_entry_count (backup_header g)"
    and "gh_entry_size (primary_header g) = gh_entry_size (backup_header g)" using l by simp_all
  then show "dev_ok (gd_disk g) c" "primary_copy g c" "backup_copy g c"
    using l assms(2) by (simp_all add: primary_copy_def backup_copy_def)
  have "128 \<le> gh_entry_size (primary_header g)" "128 \<le> gh_entry_size (backup_header g)"
    using l parse_header_lbas(4) by (auto simp: copy_at_def)
  then show "gpt_ok g" using l by (auto simp: gpt_ok_def table_ok_def copy_at_def usize_limit_def)
qed

lemma load_of_copies:
  assumes "os_reads os" and "dev_ok d c" and "gd_disk g = d" and "primary_copy g c" and "backup_copy g c" and "2 \<le> total_blocks d"
    and "gh_entry_count (primary_header g) = gh_entry_count (backup_header g)"
    and "gh_entry_size (primary_header g) = gh_entry_size (backup_header g)"
  shows "gpt_load os d c = Inr g"
  using assms gpt_load_iff [OF assms(1,2), of g] by (simp add: primary_copy_def backup_copy_def)

lemma set_active_pair_tables:
  assumes "gpt_ok g" and "set_active_pair g base target = Inr (g1, Updated)"
  shows "g1 = with_tables g (primary_entries g1) (backup_entries g1)"
    and "length (primary_entries g1) = length (primary_entries g)" and "length (backup_entries g1) = length (backup_entries g)"
  using set_active_pair_Inr [OF assms] by (auto simp: with_tables_def pair_updated_def)

lemma gpt_commit_ok:
  assumes dev: "dev_ok (gd_disk g) c" and p: "primary_copy g c" and b: "backup_copy g c" and lay: "layout_ok g"
    and len: "length pe = length (primary_entries g)" "length be = length (backup_entries g)" and os: "os_ok os"
  shows "\<exists>c'. gpt_commit os (with_tables g pe be) c = (c', Inr ())"
proof -
  let ?d = "gd_disk g" and ?g1 = "with_tables g pe be"
  let ?tot = "total_blocks ?d"
  note pc = p [unfolded primary_copy_def copy_at_region] and bc = b [unfolded backup_copy_def copy_at_region]
  obtain pb bb where rf: "refresh_headers ?g1 = Inr (?g1\<lparr>primary_header_bytes := pb, backup_header_bytes := bb\<rparr>)"
      "length pb = length (primary_header_bytes g)" "length bb = length (backup_header_bytes g)"
    using refresh_headers_ok [of ?g1 ?tot] pc bc by (auto simp: header_bytes_kept_def)
  let ?ws = "commit_writes (?g1\<lparr>primary_header_bytes := pb, backup_header_bytes := bb\<rparr>)"
  have cur: "gh_current_lba (primary_header g) = 1" "gh_current_lba (backup_header g) = gh_backup_lba (primary_header g)"
    using lay by (simp_all add: layout_ok_def)
  have "list_all (in_bounds c \<circ> write_region ?d) ?ws"
    using pc bc rf(2,3) len by (simp add: commit_writes_def cur write_region_def in_bounds_def)
  then obtain c' where "write_seq os (logical_block_size ?d) ?ws c = (c', Inr ())"
    using write_seq_ok [OF os dev] by blast
  then show ?thesis using os rf(1) by (simp add: gpt_commit_def os_ok_def os_reads_def)
qed

lemma active_slot_for_base_cong:
  "primary_entries g = primary_entries h \<Longrightarrow> gh_entry_size (primary_header g) = gh_entry_size (primary_header h) \<Longrightarrow>
   attribute_byte g = attribute_byte h \<and> active_slot_for_base g = active_slot_for_base h"
  by (simp add: fun_eq_iff attribute_byte_def active_slot_for_base_def)

lemma gpt_commit_reload:
  assumes reads: "os_reads os" and dev: "dev_ok d c" and load: "gpt_load os d c = Inr g" and lay: "layout_ok g"
    and len: "length pe = length (primary_entries g)" "length be = length (backup_entries g)"
    and honest: "os_honest os'" and run: "gpt_commit os' (with_tables g pe be) c = (c', Inr ())"
  shows "\<exists>g2. gpt_load os d c' = Inr g2 \<and> primary_entries g2 = pe \<and> backup_entries g2 = be \<and> headers_kept g g2 \<and> rest_kept g c c'"
proof -
  note l = load_copies [OF os_reads_faithful [OF reads] dev load]
  obtain pb bb where g': "primary_copy ((rechecked (with_tables g pe be))\<lparr>primary_header_bytes := pb, backup_header_bytes := bb\<rparr>) c'"
      "backup_copy ((rechecked (with_tables g pe be))\<lparr>primary_header_bytes := pb, backup_header_bytes := bb\<rparr>) c'" "rest_kept g c c'"
      "header_bytes_kept (primary_header_bytes g) pb" "header_bytes_kept (backup_header_bytes g) bb"
    using gpt_commit_copies [OF l(2-4) lay len honest run] by (auto simp: Let_def)
  have "dev_ok d c'" using dev g'(3) by (simp add: dev_ok_def rest_kept_def)
  then have "gpt_load os d c' = Inr ((rechecked (with_tables g pe be))\<lparr>primary_header_bytes := pb, backup_header_bytes := bb\<rparr>)"
    using l by (intro load_of_copies [OF reads _ _ g'(1,2)]) (simp_all add: rechecked_def)
  moreover have "headers_kept g ((rechecked (with_tables g pe be))\<lparr>primary_header_bytes := pb, backup_header_bytes := bb\<rparr>)"
    using g'(4,5) by (auto simp: headers_kept_def rechecked_def)
  ultimately show ?thesis using g'(3) by (fastforce simp: rechecked_def)
qed

text \<open>A switch of the tables in memory, once committed, is what the disk holds.\<close>

lemma switched_commit:
  assumes reads: "os_reads os" and dev: "dev_ok d c" and load: "gpt_load os d c = Inr g" and lay: "layout_ok g"
    and sw: "disk_switched slot bs g g1" "g1 = with_tables g (primary_entries g1) (backup_entries g1)"
    and honest: "os_honest os'" and run: "gpt_commit os' g1 c = (c', Inr ())"
  shows "\<exists>g2. gpt_load os d c' = Inr g2 \<and> disk_switched slot bs g g2 \<and> rest_kept g c c' \<and>
    attribute_byte g2 = attribute_byte g1 \<and> active_slot_for_base g2 = active_slot_for_base g1"
proof -
  have len: "length (primary_entries g1) = length (primary_entries g)" "length (backup_entries g1) = length (backup_entries g)"
    using sw(1) by (simp_all add: disk_switched_def entries_switched_def)
  have run': "gpt_commit os' (with_tables g (primary_entries g1) (backup_entries g1)) c = (c', Inr ())" using run sw(2) by simp
  obtain g2 where g2: "gpt_load os d c' = Inr g2" "primary_entries g2 = primary_entries g1" "backup_entries g2 = backup_entries g1"
      "headers_kept g g2" "rest_kept g c c'"
    using gpt_commit_reload [OF reads dev load lay len honest run'] by blast
  have "primary_header g1 = primary_header g" by (subst sw(2)) simp
  then have "gh_entry_size (primary_header g2) = gh_entry_size (primary_header g1)" using g2(4) by (auto simp: headers_kept_def)
  then have "attribute_byte g2 = attribute_byte g1 \<and> active_slot_for_base g2 = active_slot_for_base g1"
    using active_slot_for_base_cong [of g2 g1] g2(2) by simp
  moreover have "disk_switched slot bs g g2" using sw(1) g2(2-4) by (simp add: disk_switched_def)
  ultimately show ?thesis using g2(1,5) by blast
qed

lemma entry_get_index: "find_entry_index t es name = Inr (Some i) \<Longrightarrow> entry_get es t i = Some (entries t es ! i)"
  using find_entry_index_Some by (simp add: entry_get_def)

lemma update_pair_table_total:
  assumes ok: "table_ok es t" and guids: "guid_ok active" "guid_ok inactive"
    and i: "find_entry_index t es (base @ ustr ''_a'') = Inr (Some i)" and j: "find_entry_index t es (base @ ustr ''_b'') = Inr (Some j)"
  shows "\<exists>t'. update_pair_table t es (base @ ustr ''_a'') (base @ ustr ''_b'') target active inactive = Inr t'"
proof -
  have es: "128 \<le> es" using ok by (simp add: table_ok_def)
  have "i \<noteq> j" using find_entry_index_Some [OF i] find_entry_index_Some [OF j] suffixes_differ [of base] by (auto simp: named_def)
  then show ?thesis
    using et.two_updates [OF ok keeps_size_update [OF es guids, of "target = A"] keeps_size_update [OF es guids, of "target = B"]
        entry_get_index [OF i] entry_get_index [OF j]] i j
    unfolding update_pair_table_def by auto
qed

text \<open>A pair of which one entry is active is updated, when both tables have both entries.\<close>

lemma set_active_pair_total:
  assumes ok: "gpt_ok g" and a: "find_entry (primary_entries g) (gh_entry_size (primary_header g)) (base @ ustr ''_a'') = Inr (Some ea)"
    and b: "find_entry (primary_entries g) (gh_entry_size (primary_header g)) (base @ ustr ''_b'') = Inr (Some eb)"
    and a': "find_entry (backup_entries g) (gh_entry_size (backup_header g)) (base @ ustr ''_a'') = Inr (Some ea')"
    and b': "find_entry (backup_entries g) (gh_entry_size (backup_header g)) (base @ ustr ''_b'') = Inr (Some eb')"
    and act: "is_slot_active ea \<or> is_slot_active eb"
  shows "\<exists>g1. set_active_pair g base target = Inr (g1, Updated)"
proof -
  have ok': "table_ok (gh_entry_size (primary_header g)) (primary_entries g)" "table_ok (gh_entry_size (backup_header g)) (backup_entries g)"
    using ok by (simp_all add: gpt_ok_def)
  have guid: "guid_ok (slice e TYPE_GUID_OFFSET TYPE_GUID_SIZE)"
    if e: "find_entry (primary_entries g) (gh_entry_size (primary_header g)) n = Inr (Some e)" for e n
  proof -
    obtain i where i: "find_entry_index (primary_entries g) (gh_entry_size (primary_header g)) n = Inr (Some i)"
        "e = entries (primary_entries g) (gh_entry_size (primary_header g)) ! i"
      using find_entry_Some [OF ok'(1) e] by blast
    show ?thesis
      using find_entry_index_Some [OF i(1)] i(2) entry_nth(2) [OF ok'(1), of i] ok'(1)
      by (intro guid_of_entry) (auto simp: table_ok_def named_def)
  qed
  obtain i j i' j' where "find_entry_index (primary_entries g) (gh_entry_size (primary_header g)) (base @ ustr ''_a'') = Inr (Some i)"
      "find_entry_index (primary_entries g) (gh_entry_size (primary_header g)) (base @ ustr ''_b'') = Inr (Some j)"
      "find_entry_index (backup_entries g) (gh_entry_size (backup_header g)) (base @ ustr ''_a'') = Inr (Some i')"
      "find_entry_index (backup_entries g) (gh_entry_size (backup_header g)) (base @ ustr ''_b'') = Inr (Some j')"
    using find_entry_Some [OF ok'(1) a] find_entry_Some [OF ok'(1) b] find_entry_Some [OF ok'(2) a'] find_entry_Some [OF ok'(2) b'] by blast
  then have up: "\<exists>pe. update_pair_table (primary_entries g) (gh_entry_size (primary_header g)) (base @ ustr ''_a'') (base @ ustr ''_b'') target x y = Inr pe"
      "\<exists>be. update_pair_table (backup_entries g) (gh_entry_size (backup_header g)) (base @ ustr ''_a'') (base @ ustr ''_b'') target x y = Inr be"
    if "guid_ok x" "guid_ok y" for x y
    using update_pair_table_total [OF ok'(1) that] update_pair_table_total [OF ok'(2) that] by blast+
  let ?ga = "slice ea TYPE_GUID_OFFSET TYPE_GUID_SIZE" and ?gb = "slice eb TYPE_GUID_OFFSET TYPE_GUID_SIZE"
  let ?act = "if is_slot_active ea then ?ga else ?gb" and ?ina = "if is_slot_active ea then ?gb else ?ga"
  have "guid_ok ?act" "guid_ok ?ina" using guid [OF a] guid [OF b] by simp_all
  note up' = up [OF this]
  then obtain pe be where "update_pair_table (primary_entries g) (gh_entry_size (primary_header g)) (base @ ustr ''_a'') (base @ ustr ''_b'') target ?act ?ina = Inr pe"
      "update_pair_table (backup_entries g) (gh_entry_size (backup_header g)) (base @ ustr ''_a'') (base @ ustr ''_b'') target ?act ?ina = Inr be"
    by blast
  then show ?thesis
    using act unfolding set_active_pair_def Let_def a b bind_io_simps ok_or_simps by simp
qed

section \<open>A sample disk\<close>

definition sample_name :: "string \<Rightarrow> bytes" where
  "sample_name s = concat (map (\<lambda>ch. [of_char ch, 0]) s) @ replicate (72 - 2 * length s) 0"

definition sample_entry :: "u8 \<Rightarrow> u8 \<Rightarrow> string \<Rightarrow> bytes" where
  "sample_entry guid attr s = guid # replicate 53 0 @ [attr, 0] @ sample_name s"

definition sample_table :: bytes where
  "sample_table = sample_entry 1 0x04 ''boot_a'' @ sample_entry 2 0 ''boot_b''"

definition sample_header :: "u64 \<Rightarrow> u64 \<Rightarrow> u64 \<Rightarrow> bytes" where
  "sample_header cur backup ents =
     (let pre = GPT_SIGNATURE @ [0, 0, 1, 0] @ to_le_bytes 4 (92 :: u32);
          post = replicate 4 0 @ to_le_bytes 8 cur @ to_le_bytes 8 backup @ to_le_bytes 8 (4 :: u64) @ to_le_bytes 8 (4 :: u64) @
                 replicate 16 0 @ to_le_bytes 8 ents @ to_le_bytes 4 (2 :: u32) @ to_le_bytes 4 (128 :: u32) @
                 to_le_bytes 4 (crc32_ieee sample_table) @ replicate 420 0
      in pre @ to_le_bytes 4 (crc32_ieee (take 92 (pre @ replicate 4 0 @ post))) @ post)"

lemma sample_header_length: "length (sample_header cur backup ents) = 512"
  by (simp add: sample_header_def GPT_SIGNATURE_def bytes_of_def Let_def)

lemma sample_header_parses:
  assumes "cur < tot" and "backup < tot" and "ents < tot"
  shows "parse_gpt_header (sample_header cur backup ents) tot = Inr \<lparr>gh_current_lba = cur, gh_backup_lba = backup,
     gh_entries_lba = ents, gh_entry_count = 2, gh_entry_size = 128, gh_entry_array_crc32 = crc32_ieee sample_table\<rparr>"
proof -
  have sig: "length GPT_SIGNATURE = 8" by (simp add: GPT_SIGNATURE_def bytes_of_def)
  note len = sample_header_length [of cur backup ents]
  show "parse_gpt_header (sample_header cur backup ents) tot = Inr \<lparr>gh_current_lba = cur, gh_backup_lba = backup,
     gh_entries_lba = ents, gh_entry_count = 2, gh_entry_size = 128, gh_entry_array_crc32 = crc32_ieee sample_table\<rparr>"
    using assms unfolding parse_gpt_header_def len
    by (simp add: le_field_defs read_field_def len gpt_consts Let_def sample_header_def sig slice_def splice_def le32.dec_enc le64.dec_enc not_le)
qed

definition sample_block :: bytes where
  "sample_block = sample_table @ replicate 256 0"

definition sample_disk :: disk where
  "sample_disk = \<lparr>disk_name = ''sda'', logical_block_size = 512, total_bytes = 2560\<rparr>"

definition sample_content :: bytes where
  "sample_content = replicate 512 0 @ sample_header 1 4 2 @ sample_block @ sample_block @ sample_header 4 1 3"

definition sample_gpt :: gpt_disk where
  "sample_gpt = (let h = \<lambda>cur backup ents. \<lparr>gh_current_lba = cur, gh_backup_lba = backup, gh_entries_lba = ents,
       gh_entry_count = 2, gh_entry_size = 128, gh_entry_array_crc32 = crc32_ieee sample_table\<rparr> in
     \<lparr>gd_disk = sample_disk, primary_header = h 1 4 2, backup_header = h 4 1 3,
      primary_header_bytes = sample_header 1 4 2, backup_header_bytes = sample_header 4 1 3,
      primary_entries = sample_table, backup_entries = sample_table\<rparr>)"

text \<open>A device that takes one byte at a time, and one whose writes fail.\<close>

definition slow_os :: os_calls where
  "slow_os = \<lparr>os_open = Inr (), os_read_at = \<lambda>c len off. Inr (slice c off (off + 1)),
              os_write_at = \<lambda>c buf off. Inr (min 1 (length buf), splice c off (take 1 buf)), os_sync_all = Inr ()\<rparr>"

definition broken_os :: os_calls where
  "broken_os = slow_os\<lparr>os_write_at := \<lambda>c buf off. if off < 1536 then Inr (length buf, splice c off buf) else Inl (IoError OtherError ''EIO'')\<rparr>"

lemma slow_os_ok: "os_ok slow_os"
proof -
  have "\<exists>n. 0 < n \<and> n \<le> len \<and> os_read_at slow_os c len off = Inr (slice c off (off + n))" if "0 < len" for c len off
    using that by (intro exI [of _ 1]) (simp add: slow_os_def)
  moreover have "\<exists>n. 0 < n \<and> n \<le> length buf \<and> os_write_at slow_os c buf off = Inr (n, splice c off (take n buf))"
    if "buf \<noteq> []" for buf c off
    using that by (intro exI [of _ 1]) (simp add: slow_os_def Suc_le_eq)
  ultimately show ?thesis by (simp add: os_ok_def os_reads_def) (simp add: slow_os_def)
qed

lemma sample_table_length: "length sample_table = 256"
  by (simp add: sample_table_def sample_entry_def sample_name_def)

lemma sample_dev: "dev_ok sample_disk sample_content"
  by (simp add: dev_ok_def sample_disk_def sample_content_def sample_header_length sample_block_def sample_table_length)


lemma slow_os_honest: "os_honest slow_os" "os_honest broken_os"
  by (auto simp: os_honest_def slow_os_def broken_os_def min_def)

lemma sample_blocks: "total_blocks sample_disk = 5"
  by (simp add: sample_disk_def)

lemma sample_load: "gpt_load slow_os sample_disk sample_content = Inr sample_gpt"
  unfolding gpt_load_iff [OF slow_os_ok [THEN os_ok_reads] sample_dev] sample_gpt_def Let_def copy_at_def sample_blocks
  by (simp add: sample_header_parses sample_header_length)
    (simp add: sample_disk_def sample_content_def lba_off_def sample_header_length slice_def sample_block_def sample_table_length
      table_bytes_def checked_mul_def GPT_TABLE_MAX_BYTES_def)

lemma sample_layout: "layout_ok sample_gpt"
  by (simp add: layout_ok_def sample_gpt_def commit_writes_def write_region_def regions_apart_def lba_off_def sample_disk_def
      sample_header_length sample_table_length Let_def)

lemma sample_entries:
  "find_entry sample_table 128 (ustr ''boot'' @ ustr ''_a'') = Inr (Some (sample_entry 1 0x04 ''boot_a''))"
  "find_entry sample_table 128 (ustr ''boot'' @ ustr ''_b'') = Inr (Some (sample_entry 2 0 ''boot_b''))"
  "is_slot_active (sample_entry 1 0x04 ''boot_a'')"
  by code_simp+

lemma sample_switch: "\<exists>g1. set_active_pair sample_gpt (ustr ''boot'') B = Inr (g1, Updated)"
proof -
  note l = load_copies [OF os_reads_faithful [OF slow_os_ok [THEN os_ok_reads]] sample_dev sample_load]
  have g: "primary_entries sample_gpt = sample_table" "backup_entries sample_gpt = sample_table"
      "gh_entry_size (primary_header sample_gpt) = 128" "gh_entry_size (backup_header sample_gpt) = 128"
    by (simp_all add: sample_gpt_def Let_def)
  show ?thesis
    by (rule set_active_pair_total [OF l(5), unfolded g, OF sample_entries(1,2) sample_entries(1,2)]) (simp add: sample_entries(3))
qed

lemma entry_array_crc_single:
  assumes "validate_entry_array_crc es h = Inr ()" and "i < length es" and "x \<noteq> es ! i"
  shows "validate_entry_array_crc (es[i := x]) h = invalid_data ''GPT partition entry array CRC mismatch''"
proof -
  have "es = take i es @ es ! i # drop (Suc i) es" "es[i := x] = take i es @ x # drop (Suc i) es"
    using assms(2) by (simp_all add: id_take_nth_drop upd_conv_take_nth_drop)
  then have "crc32_ieee (es[i := x]) \<noteq> crc32_ieee es" using crc32_single_byte [of "take i es" x] assms(3) by metis
  then show ?thesis using assms(1) by (simp add: validate_entry_array_crc_def split: if_split_asm)
qed

section \<open>Properties\<close>

text \<open>
  C3: a pair of slots switches, and the switch is persistent. On a device whose transfers may be
  short but do not fail, with both copies of the table valid and laid out apart, take a pair whose
  two entries are in both tables, one of them active. Then \<open>set_active_pair\<close> updates it, the commit
  succeeds, and loading the disk again finds the target slot active. In both tables exactly the
  type GUIDs and flag bytes of the two entries are written: the target gets the type GUID of the
  active entry and the flags of an active slot, the other one the inactive GUID and no active bit.
  Every other byte of the tables, of the header blocks (their two checksums apart) and of the
  device is unchanged.
\<close>

theorem switch_persists:
  assumes "os_ok os" and "os_honest os" and "dev_ok d c" and "gpt_load os d c = Inr g" and "layout_ok g"
    and "find_entry (primary_entries g) (gh_entry_size (primary_header g)) (base @ ustr ''_a'') = Inr (Some ea)"
    and "find_entry (primary_entries g) (gh_entry_size (primary_header g)) (base @ ustr ''_b'') = Inr (Some eb)"
    and "find_entry (backup_entries g) (gh_entry_size (backup_header g)) (base @ ustr ''_a'') = Inr (Some ea')"
    and "find_entry (backup_entries g) (gh_entry_size (backup_header g)) (base @ ustr ''_b'') = Inr (Some eb')"
    and "is_slot_active ea \<or> is_slot_active eb"
  shows "\<exists>g1 c' g2. set_active_pair g base target = Inr (g1, Updated) \<and> gpt_commit os g1 c = (c', Inr ()) \<and>
    gpt_load os d c' = Inr g2 \<and> active_slot_for_base g2 base = Inr (Some target) \<and>
    disk_switched target {base} g g2 \<and> rest_kept g c c'"
proof -
  note reads = os_ok_reads [OF assms(1)]
  note l = load_copies [OF os_reads_faithful [OF reads] assms(3,4)]
  obtain g1 where g1: "set_active_pair g base target = Inr (g1, Updated)"
    using set_active_pair_total [OF l(5) assms(6-10)] by blast
  note t = set_active_pair_tables [OF l(5) g1]
  obtain c' where c': "gpt_commit os g1 c = (c', Inr ())"
    using gpt_commit_ok [OF l(2-4) assms(5) t(2,3) assms(1)] t(1) by auto
  show ?thesis
    using switched_commit [OF reads assms(3-5) disk_switched_one [OF l(5) g1] t(1) assms(2) c'] g1 c'
      set_active_pair_activates(1) [OF l(5) g1] by auto
qed

lemma switch_persists_witness:
  "\<exists>g1 c' g2. set_active_pair sample_gpt (ustr ''boot'') B = Inr (g1, Updated) \<and>
     gpt_commit slow_os g1 sample_content = (c', Inr ()) \<and> gpt_load slow_os sample_disk c' = Inr g2 \<and>
     active_slot_for_base g2 (ustr ''boot'') = Inr (Some B) \<and> disk_switched B {ustr ''boot''} sample_gpt g2 \<and>
     rest_kept sample_gpt sample_content c'"
proof -
  have g: "primary_entries sample_gpt = sample_table" "backup_entries sample_gpt = sample_table"
      "gh_entry_size (primary_header sample_gpt) = 128" "gh_entry_size (backup_header sample_gpt) = 128"
    by (simp_all add: sample_gpt_def Let_def)
  show ?thesis
    by (rule switch_persists [OF slow_os_ok slow_os_honest(1) sample_dev sample_load sample_layout, unfolded g,
          OF sample_entries(1,2) sample_entries(1,2)]) (simp add: sample_entries(3))
qed

text \<open>
  C29: switching is safe against failing writes. Whatever write the device fails, and however short,
  what is on the disk afterwards still has the old backup copy intact or the new primary copy
  complete, each with matching checksums.
\<close>

theorem switch_failure_safe:
  assumes "os_reads os" and "dev_ok d c" and "gpt_load os d c = Inr g" and "layout_ok g"
    and "set_active_pair g base target = Inr (g1, Updated)"
    and "os_honest failing" and "gpt_commit failing g1 c = (c', r)"
  shows "copy_at d c' (gh_backup_lba (primary_header g)) (backup_header g) (backup_header_bytes g) (backup_entries g) \<or>
    (\<exists>h hb. copy_at d c' 1 h hb (primary_entries g1) \<and> gh_entry_size h = gh_entry_size (primary_header g))"
proof -
  note l = load_copies [OF os_reads_faithful [OF assms(1)] assms(2,3)]
  note t = set_active_pair_tables [OF l(5) assms(5)]
  have run: "gpt_commit failing (with_tables g (primary_entries g1) (backup_entries g1)) c = (c', r)"
    using assms(7) t(1) by simp
  show ?thesis
    using gpt_commit_copies [OF l(2-4) assms(4) t(2,3) assms(6) run] l(1)
    by (auto simp: Let_def primary_copy_def backup_copy_def rechecked_def)
qed

theorem switch_failure_safe_witness:
  "\<exists>g1 c' r. set_active_pair sample_gpt (ustr ''boot'') B = Inr (g1, Updated) \<and> gpt_commit broken_os g1 sample_content = (c', r) \<and>
    (copy_at sample_disk c' 4 (backup_header sample_gpt) (backup_header_bytes sample_gpt) (backup_entries sample_gpt) \<or>
     (\<exists>h hb. copy_at sample_disk c' 1 h hb (primary_entries g1)))"
proof -
  obtain g1 where g1: "set_active_pair sample_gpt (ustr ''boot'') B = Inr (g1, Updated)" using sample_switch by blast
  obtain c' r where r: "gpt_commit broken_os g1 sample_content = (c', r)" by (cases "gpt_commit broken_os g1 sample_content")
  have "gh_backup_lba (primary_header sample_gpt) = 4" by (simp add: sample_gpt_def Let_def)
  then show ?thesis
    using switch_failure_safe [OF slow_os_ok [THEN os_ok_reads] sample_dev sample_load sample_layout g1 slow_os_honest(2) r] g1 r by auto
qed

text \<open>An entry array of which a single byte was changed, whichever and to whatever value, is always rejected.\<close>

theorem entry_array_corruption_detected:
  assumes "validate_entry_array_crc es h = Inr ()" and "i < length es" and "x \<noteq> es ! i"
  shows "validate_entry_array_crc (es[i := x]) h = invalid_data ''GPT partition entry array CRC mismatch''"
  by (rule entry_array_crc_single [OF assms])

theorem entry_array_corruption_detected_witness:
  "validate_entry_array_crc (sample_table[54 := 0]) (primary_header sample_gpt) = invalid_data ''GPT partition entry array CRC mismatch''"
proof (rule entry_array_corruption_detected)
  show "validate_entry_array_crc sample_table (primary_header sample_gpt) = Inr ()" by (simp add: sample_gpt_def Let_def)
  show "54 < length sample_table" by (simp add: sample_table_length)
  show "0 \<noteq> sample_table ! 54" by (simp add: sample_table_def sample_entry_def nth_append)
qed

text \<open>
  The transfer loops do what one complete transfer does, however short the transfers the device
  makes, within the bounds of the device.
\<close>

theorem transfers_complete:
  assumes "os_ok os" and "off + n \<le> length c" and "off + length buf \<le> length c"
  shows "read_exact_at os c n off = Inr (slice c off (off + n)) \<and> write_all_at os c buf off = (splice c off buf, Inr ())"
  using read_exact_at_ok [OF os_ok_reads [OF assms(1)] assms(2)] write_all_at_ok [OF assms(1,3)] by simp

theorem transfers_complete_witness:
  "read_exact_at slow_os [1, 2, 3, 4, 5] 3 1 = Inr [2, 3, 4] \<and> write_all_at slow_os [1, 2, 3, 4, 5] [8, 9] 2 = ([1, 2, 8, 9, 5], Inr ())"
  using transfers_complete [OF slow_os_ok, of 1 3 "[1, 2, 3, 4, 5]" "[8, 9]"] transfers_complete [OF slow_os_ok, of 2 0 "[1, 2, 3, 4, 5]" "[8, 9]"]
  by (simp add: slice_def splice_def)

end
