(* ===== verification/Cmdline.thy ===== *)
theory Cmdline
  imports RustText
begin

text \<open>The kernel command line (\<open>src/cmdline.rs\<close>): its words, the values of a key and bare flags.\<close>

record kernel_command_line =
  args :: "string list"

definition cmdline_parse :: "string \<Rightarrow> kernel_command_line" where
  "cmdline_parse contents = \<lparr>args = split_whitespace contents\<rparr>"

definition cmdline_read :: "string io \<Rightarrow> kernel_command_line io" where
  "cmdline_read file = bind_io file (\<lambda>contents. Inr (cmdline_parse contents))"

definition arg_value :: "string \<Rightarrow> string \<Rightarrow> string option" where
  "arg_value key arg =
     Option.bind (strip_prefix key arg) (\<lambda>rest.
     Option.bind (strip_prefix ''='' rest) (\<lambda>v. if v \<noteq> [] then Some v else None))"

definition cmdline_values :: "kernel_command_line \<Rightarrow> string \<Rightarrow> string list" where
  "cmdline_values c key = List.map_filter (arg_value key) (args c)"

definition cmdline_value :: "kernel_command_line \<Rightarrow> string \<Rightarrow> string option" where
  "cmdline_value c key = (case cmdline_values c key of [] \<Rightarrow> None | v # _ \<Rightarrow> Some v)"

definition is_set :: "kernel_command_line \<Rightarrow> string \<Rightarrow> bool" where
  "is_set c key \<longleftrightarrow> list_ex (\<lambda>arg. arg = key) (args c)"

lemma arg_value_Some [simp]: "arg_value key arg = Some v \<longleftrightarrow> v \<noteq> [] \<and> arg = key @ ''='' @ v"
  by (auto simp: arg_value_def bind_eq_Some_conv)

definition word :: "string \<Rightarrow> bool" where
  "word w \<longleftrightarrow> w \<noteq> [] \<and> list_all (\<lambda>c. \<not> is_space c) w"

lemma split_whitespace_join:
  "list_all word ws \<Longrightarrow> split_whitespace (join_with '' '' ws) = ws"
proof (induction ws)
  case Nil
  then show ?case by (simp add: split_whitespace_def join_with_def)
next
  case (Cons w ws)
  have sp: "is_space (CHR '' '')" by (simp add: is_space_def)
  have w: "\<forall>c \<in> set w. \<not> is_space c" "w \<noteq> []" using Cons.prems by (simp_all add: word_def list_all_iff)
  show ?case
  proof (cases ws)
    case Nil
    then show ?thesis using w by (simp add: split_whitespace_def join_with_def split_by_no_sep)
  next
    case (Cons v vs)
    have "join_with '' '' (w # ws) = w @ CHR '' '' # join_with '' '' ws" by (simp add: join_with_def Cons)
    then show ?thesis
      using w Cons.IH Cons.prems by (simp add: split_whitespace_def split_by_append_sep [OF w(1) sp])
  qed
qed

lemma set_map_filter: "set (List.map_filter f xs) = {v. \<exists>x \<in> set xs. f x = Some v}"
  by (induction xs) (auto simp: map_filter_simps split: option.splits)

text \<open>
  A command line made of words parses to these words, and the values of a key are what the
  words \<open>key=value\<close> give, empty values left out.
\<close>

theorem cmdline_roundtrip:
  assumes "list_all word ws"
  shows "args (cmdline_parse (join_with '' '' ws)) = ws \<and>
    set (cmdline_values (cmdline_parse (join_with '' '' ws)) key) = {v. v \<noteq> [] \<and> key @ ''='' @ v \<in> set ws}"
proof -
  have a: "args (cmdline_parse (join_with '' '' ws)) = ws" by (simp add: cmdline_parse_def split_whitespace_join [OF assms])
  show ?thesis unfolding cmdline_values_def a set_map_filter by auto
qed

theorem cmdline_roundtrip_witness:
  "args (cmdline_parse (join_with '' '' [''quiet'', ''slot_suffix=_b''])) = [''quiet'', ''slot_suffix=_b''] \<and>
   set (cmdline_values (cmdline_parse (join_with '' '' [''quiet'', ''slot_suffix=_b''])) ''slot_suffix'') =
     {v. v \<noteq> [] \<and> ''slot_suffix'' @ ''='' @ v \<in> set [''quiet'', ''slot_suffix=_b'']}"
  by (rule cmdline_roundtrip) code_simp

end
