(* ===== verification/AbSlots.thy ===== *)
theory AbSlots
  imports GptDisk Cmdline
begin

unbundle bit_operations_syntax

text \<open>
  A/B slots (the rest of \<open>src/ab_slots.rs\<close>): finding the local flash disks and their partitions
  under \<open>/sys/block\<close>, the queries on slots, and the switch of the active slot over all disks. Then
  what the loop over the pairs of one disk does, and the loop over the disks, as relations between
  the tables before and after (\<open>switched\<close>, \<open>disk_after\<close>).
\<close>

section \<open>Slots\<close>

fun slot_parse :: "string \<Rightarrow> slot option" where
  "slot_parse v =
     (if v \<in> {''0'', ''a'', ''A'', ''_a'', ''_A''} then Some A
      else if v \<in> {''1'', ''b'', ''B'', ''_b'', ''_B''} then Some B
      else None)"

fun slot_name :: "slot \<Rightarrow> string" where
  "slot_name A = ''a''"
| "slot_name B = ''b''"

fun slot_suffix :: "slot \<Rightarrow> string" where
  "slot_suffix A = ''_a''"
| "slot_suffix B = ''_b''"

definition partition_base :: "string \<Rightarrow> string" where
  "partition_base p =
     (case strip_suffix ''_a'' p of
        Some b \<Rightarrow> b
      | None \<Rightarrow> (case strip_suffix ''_b'' p of Some b \<Rightarrow> b | None \<Rightarrow> p))"

section \<open>Block devices\<close>

text \<open>
  One entry of \<open>/sys/block\<close>, as the code reads it: its name, the canonical path, the files
  \<open>removable\<close>, \<open>size\<close> and \<open>queue/logical_block_size\<close> (None where a read fails), whether the node
  under \<open>/dev\<close> exists, and the entries of its directory, each with whether it has a file
  \<open>partition\<close> and the contents of its \<open>uevent\<close>.
\<close>

record block_entry =
  be_name :: string
  be_canonical :: "string option"
  be_removable :: "string option"
  be_size :: "string option"
  be_logical_block_size :: "string option"
  be_dev_exists :: bool
  be_entries :: "(bool \<times> string option) io list io"

text \<open>The system: the entries of \<open>/sys/block\<close> and the calls on each device. The contents of the devices are separate state.\<close>

record system =
  sys_block :: "block_entry io list io"
  sys_os :: "string \<Rightarrow> os_calls"

type_synonym contents = "string \<Rightarrow> bytes"

definition read_trimmed :: "string option \<Rightarrow> string option" where
  "read_trimmed file = Option.bind file (\<lambda>v. if trim v \<noteq> [] then Some (trim v) else None)"

fun find_map :: "('a \<Rightarrow> 'b option) \<Rightarrow> 'a list \<Rightarrow> 'b option" where
  "find_map f [] = None"
| "find_map f (x # xs) = (case f x of Some y \<Rightarrow> Some y | None \<Rightarrow> find_map f xs)"

definition uevent_value :: "string option \<Rightarrow> string \<Rightarrow> string option" where
  "uevent_value file key =
     Option.bind file (\<lambda>contents.
       find_map (\<lambda>line. Option.bind (split_once (CHR ''='') line) (\<lambda>(line_key, v). if line_key = key then Some v else None))
         (text_lines contents))"

definition is_excluded_disk_name :: "string \<Rightarrow> bool" where
  "is_excluded_disk_name n \<longleftrightarrow>
     starts_with ''loop'' n \<or> starts_with ''ram'' n \<or> starts_with ''zram'' n \<or> starts_with ''dm-'' n \<or>
     starts_with ''md'' n \<or> starts_with ''sr'' n"

text \<open>\<open>Path::starts_with\<close> compares whole components.\<close>

definition path_starts_with :: "string \<Rightarrow> string \<Rightarrow> bool" where
  "path_starts_with base p \<longleftrightarrow> p = base \<or> starts_with (base @ ''/'') p"

definition is_virtual_block :: "string option \<Rightarrow> bool" where
  "is_virtual_block canonical =
     (case canonical of Some p \<Rightarrow> path_starts_with ''/sys/devices/virtual/block'' p | None \<Rightarrow> False)"

definition is_lowercase_or_digit :: "char \<Rightarrow> bool" where
  "is_lowercase_or_digit c \<longleftrightarrow> (let n = of_char c :: nat in (97 \<le> n \<and> n \<le> 122) \<or> (48 \<le> n \<and> n \<le> 57))"

definition is_scsi_disk_like_name :: "string \<Rightarrow> bool" where
  "is_scsi_disk_like_name n =
     (case strip_prefix ''sd'' n of
        None \<Rightarrow> False
      | Some suffix \<Rightarrow> suffix \<noteq> [] \<and> list_all is_lowercase_or_digit suffix)"

definition is_local_flash_like_name :: "string \<Rightarrow> bool" where
  "is_local_flash_like_name n \<longleftrightarrow>
     starts_with ''mmcblk'' n \<or> starts_with ''nvme'' n \<or> starts_with ''vd'' n \<or> starts_with ''xvd'' n \<or> is_scsi_disk_like_name n"

definition is_local_flash_disk :: "block_entry \<Rightarrow> bool" where
  "is_local_flash_disk e \<longleftrightarrow>
     \<not> is_excluded_disk_name (be_name e) \<and> \<not> is_virtual_block (be_canonical e) \<and>
     read_trimmed (be_removable e) \<noteq> Some ''1'' \<and> is_local_flash_like_name (be_name e)"

definition DEFAULT_LOGICAL_BLOCK_SIZE :: u64 where "DEFAULT_LOGICAL_BLOCK_SIZE = 512"

definition entry_disk :: "block_entry \<Rightarrow> disk io" where
  "entry_disk e =
     (let sectors_512 = (case Option.bind (read_trimmed (be_size e)) (parse_u64 10) of Some v \<Rightarrow> v | None \<Rightarrow> 0) in
      bind_io (ok_or (IoError InvalidData (''disk '' @ be_name e @ '' byte size overflows'')) (checked_mul sectors_512 512)) (\<lambda>total.
      Inr \<lparr>disk_name = be_name e,
           logical_block_size = (case Option.bind (read_trimmed (be_logical_block_size e)) (parse_u64 10) of
              Some v \<Rightarrow> if 512 \<le> v \<and> is_power_of_two v then v else DEFAULT_LOGICAL_BLOCK_SIZE
            | None \<Rightarrow> DEFAULT_LOGICAL_BLOCK_SIZE),
           total_bytes = total\<rparr>))"

text \<open>\<open>local_disks\<close>, each disk with the entry its \<open>sysfs_path\<close> leads to.\<close>

definition local_disks :: "system \<Rightarrow> (disk \<times> block_entry) list io" where
  "local_disks S =
     bind_io (sys_block S) (\<lambda>es.
     bind_io (map_io (\<lambda>r. bind_io r (\<lambda>e.
        if \<not> is_local_flash_disk e \<or> \<not> be_dev_exists e then Inr [] else bind_io (entry_disk e) (\<lambda>d. Inr [(d, e)]))) es) (\<lambda>dss.
     Inr (sort_key (\<lambda>(d, e). ustr (disk_name d)) (concat dss))))"

record partition_info =
  partname :: "string option"
  part_disk :: disk

definition partition_entry :: "disk \<Rightarrow> (bool \<times> string option) io \<Rightarrow> partition_info list io" where
  "partition_entry d r =
     bind_io r (\<lambda>(is_partition, uevent).
     Inr (if \<not> is_partition then [] else [\<lparr>partname = uevent_value uevent ''PARTNAME'', part_disk = d\<rparr>]))"

definition disk_partitions :: "disk \<times> block_entry \<Rightarrow> partition_info list io" where
  "disk_partitions = (\<lambda>(d, e).
     bind_io (be_entries e) (\<lambda>subs. bind_io (map_io (partition_entry d) subs) (\<lambda>pss. Inr (concat pss))))"

definition list_partitions :: "system \<Rightarrow> partition_info list io" where
  "list_partitions S = bind_io (local_disks S) (\<lambda>ds. bind_io (map_io disk_partitions ds) (\<lambda>pss. Inr (concat pss)))"

definition find_partition :: "system \<Rightarrow> string \<Rightarrow> disk option io" where
  "find_partition S name =
     bind_io (list_partitions S) (\<lambda>ps.
     case filter (\<lambda>p. partname p = Some name) ps of
       [] \<Rightarrow> Inr None
     | [p] \<Rightarrow> Inr (Some (part_disk p))
     | _ \<Rightarrow> invalid_input (''partition '' @ name @ '' is ambiguous''))"

definition partition_pair_exists :: "system \<Rightarrow> string \<Rightarrow> bool io" where
  "partition_pair_exists S base =
     bind_io (find_partition S (base @ ''_a'')) (\<lambda>a.
     if a = None then Inr False
     else bind_io (find_partition S (base @ ''_b'')) (\<lambda>b. Inr (b \<noteq> None)))"

section \<open>Queries\<close>

definition load_disk :: "system \<Rightarrow> contents \<Rightarrow> disk \<Rightarrow> gpt_disk io" where
  "load_disk S c d = gpt_load (sys_os S (disk_name d)) d (c (disk_name d))"

definition slot_count :: "system \<Rightarrow> nat io" where
  "slot_count S = bind_io (partition_pair_exists S ''boot'') (\<lambda>b. Inr (if b then 2 else 0))"

definition has_slot :: "system \<Rightarrow> string \<Rightarrow> bool io" where
  "has_slot S p =
     bind_io (slot_count S) (\<lambda>n. if 0 < n then partition_pair_exists S (partition_base p) else Inr False)"

definition cmdline_slot :: "kernel_command_line \<Rightarrow> slot option" where
  "cmdline_slot cmdline =
     Option.bind (case cmdline_value cmdline ''androidboot.slot_suffix'' of
                    Some v \<Rightarrow> Some v | None \<Rightarrow> cmdline_value cmdline ''slot_suffix'') slot_parse"

definition active_slot :: "system \<Rightarrow> contents \<Rightarrow> slot option io" where
  "active_slot S c =
     bind_io (find_partition S ''boot_a'') (\<lambda>a.
     case a of
       None \<Rightarrow> Inr None
     | Some boot \<Rightarrow>
         bind_io (find_partition S ''boot_b'') (\<lambda>b.
         if b = None then Inr None
         else bind_io (load_disk S c boot) (\<lambda>g. active_slot_for_base g (ustr ''boot''))))"

definition current_slot :: "kernel_command_line \<Rightarrow> system \<Rightarrow> contents \<Rightarrow> slot option io" where
  "current_slot cmdline S c =
     (case cmdline_slot cmdline of Some slot \<Rightarrow> Inr (Some slot) | None \<Rightarrow> active_slot S c)"

definition boot_attribute :: "system \<Rightarrow> contents \<Rightarrow> slot \<Rightarrow> u8 \<Rightarrow> bool option io" where
  "boot_attribute S c slot m =
     bind_io (find_partition S (''boot'' @ slot_suffix slot)) (\<lambda>p.
     case p of
       None \<Rightarrow> Inr None
     | Some boot \<Rightarrow>
         bind_io (load_disk S c boot) (\<lambda>g.
         bind_io (attribute_byte g (ustr (''boot'' @ slot_suffix slot))) (\<lambda>attr.
         Inr (map_option (\<lambda>a. a AND m \<noteq> 0) attr))))"

definition is_slot_successful :: "system \<Rightarrow> contents \<Rightarrow> slot \<Rightarrow> bool option io" where
  "is_slot_successful S c slot = boot_attribute S c slot AB_PARTITION_ATTR_BOOT_SUCCESSFUL"

definition is_slot_unbootable :: "system \<Rightarrow> contents \<Rightarrow> slot \<Rightarrow> bool option io" where
  "is_slot_unbootable S c slot = boot_attribute S c slot AB_PARTITION_ATTR_UNBOOTABLE"

section \<open>Switching\<close>

text \<open>The inner loop: the pairs of one disk. The result has the table, whether it changed, and how many pairs were updated.\<close>

fun switch_pairs :: "slot \<Rightarrow> gpt_disk \<Rightarrow> bool \<Rightarrow> nat \<Rightarrow> ustring list \<Rightarrow> (gpt_disk \<times> bool \<times> nat) io" where
  "switch_pairs slot g changed n [] = Inr (g, changed, n)"
| "switch_pairs slot g changed n (base # bases) =
     (if base = ustr ''xbl'' then switch_pairs slot g changed n bases
      else bind_io (set_active_pair g base slot) (\<lambda>(g, u).
        case u of
          Updated \<Rightarrow> switch_pairs slot g True (n + 1) bases
        | SkippedNoActiveMetadata \<Rightarrow>
            if base = ustr ''boot'' then invalid_data ''boot_a/boot_b have no active slot metadata''
            else switch_pairs slot g changed n bases))"

text \<open>The outer loop. An error leaves the disks already committed as they are.\<close>

fun switch_disks :: "system \<Rightarrow> slot \<Rightarrow> string \<Rightarrow> disk list \<Rightarrow> bool \<Rightarrow> nat \<Rightarrow> contents \<Rightarrow> contents \<times> (bool \<times> nat) io" where
  "switch_disks S slot boot [] saw n c = (c, Inr (saw, n))"
| "switch_disks S slot boot (d # ds) saw n c =
     (case load_disk S c d of
        Inl RustPanic \<Rightarrow> (c, Inl RustPanic)
      | Inl (IoError kind m) \<Rightarrow>
          if disk_name d = boot then (c, Inl (IoError kind (''load GPT for boot slot disk '' @ disk_name d @ '': '' @ m)))
          else switch_disks S slot boot ds saw n c
      | Inr g \<Rightarrow>
          (case bind_io (slot_pairs g) (\<lambda>pairs. bind_io (switch_pairs slot g False n pairs) (\<lambda>r. Inr (pairs, r))) of
             Inl e \<Rightarrow> (c, Inl e)
           | Inr (pairs, g', changed, n') \<Rightarrow>
               let saw' = (saw \<or> ustr ''boot'' \<in> set pairs) in
               if changed
               then (case gpt_commit (sys_os S (disk_name d)) g' (c (disk_name d)) of
                       (content, Inl e) \<Rightarrow> (c(disk_name d := content), Inl e)
                     | (content, Inr _) \<Rightarrow> switch_disks S slot boot ds saw' n' (c(disk_name d := content)))
               else switch_disks S slot boot ds saw' n' c))"

definition set_active_slot :: "system \<Rightarrow> slot \<Rightarrow> contents \<Rightarrow> contents \<times> unit io" where
  "set_active_slot S slot c =
     (let not_found = (\<lambda>m. IoError NotFound m) in
      case bind_io (bind_io (find_partition S ''boot_a'') (ok_or (not_found ''boot_a partition was not found''))) (\<lambda>boot_a.
           bind_io (bind_io (find_partition S ''boot_b'') (ok_or (not_found ''boot_b partition was not found''))) (\<lambda>boot_b.
           if disk_name boot_a \<noteq> disk_name boot_b then invalid_data ''boot_a and boot_b are on different disks''
           else bind_io (local_disks S) (\<lambda>ds. Inr (disk_name boot_a, map fst ds)))) of
        Inl e \<Rightarrow> (c, Inl e)
      | Inr (boot, ds) \<Rightarrow>
          (case switch_disks S slot boot ds False 0 c of
             (c, Inl e) \<Rightarrow> (c, Inl e)
           | (c, Inr (saw, n)) \<Rightarrow>
               (c, if \<not> saw then invalid_data ''boot_a/boot_b partitions were not found in GPT''
                   else if n = 0 then Inl (not_found ''no A/B GPT partition metadata was updated'')
                   else Inr ())))"

section \<open>Switching the pairs of one disk\<close>

definition retabled :: "gpt_disk \<Rightarrow> gpt_disk \<Rightarrow> bool" where
  "retabled g g' \<longleftrightarrow> g' = with_tables g (primary_entries g') (backup_entries g') \<and>
     length (primary_entries g') = length (primary_entries g) \<and> length (backup_entries g') = length (backup_entries g)"

lemma retabled_refl [simp]: "retabled g g"
  by (simp add: retabled_def with_tables_def)

lemma retabled_trans: "retabled g h \<Longrightarrow> retabled h k \<Longrightarrow> retabled g k"
  unfolding retabled_def with_tables_def by (metis gpt_disk.ext_inject gpt_disk.surjective gpt_disk.update_convs(6,7))

text \<open>
  What a switch of the pairs of a disk does: the pairs it writes are those with an active entry,
  \<open>xbl\<close> left out, and \<open>boot\<close> is one of them if it is there at all; each of these has the target
  slot active, and by \<open>disk_switched\<close> nothing else of the tables and headers changes.
\<close>

definition switched_bases :: "gpt_disk \<Rightarrow> ustring list \<Rightarrow> ustring set" where
  "switched_bases g pairs = {b \<in> set pairs. b \<noteq> ustr ''xbl'' \<and> active_slot_for_base g b \<noteq> Inr None}"

definition switched :: "slot \<Rightarrow> ustring list \<Rightarrow> gpt_disk \<Rightarrow> gpt_disk \<Rightarrow> bool" where
  "switched slot pairs g g' \<longleftrightarrow>
     (ustr ''boot'' \<in> set pairs \<longrightarrow> ustr ''boot'' \<in> switched_bases g pairs) \<and>
     (\<forall>b \<in> switched_bases g pairs. active_slot_for_base g' b = Inr (Some slot)) \<and>
     disk_switched slot (switched_bases g pairs) g g'"

lemma active_slot_attributes:
  "attribute_byte g' (base @ ustr ''_a'') = attribute_byte g (base @ ustr ''_a'') \<Longrightarrow>
   attribute_byte g' (base @ ustr ''_b'') = attribute_byte g (base @ ustr ''_b'') \<Longrightarrow>
   active_slot_for_base g' base = active_slot_for_base g base"
  by (simp add: active_slot_for_base_def)

lemma set_active_pair_skipped:
  assumes run: "set_active_pair g base slot = Inr (g', SkippedNoActiveMetadata)"
  shows "g' = g" and "active_slot_for_base g base = Inr None"
proof -
  obtain a b where a: "find_entry (primary_entries g) (gh_entry_size (primary_header g)) (base @ ustr ''_a'') = Inr (Some a)"
    and b: "find_entry (primary_entries g) (gh_entry_size (primary_header g)) (base @ ustr ''_b'') = Inr (Some b)"
    using run [unfolded set_active_pair_def Let_def bind_io_eq_Inr ok_or_eq_Inr] by (elim exE conjE, hypsubst) (rule that)
  note run' = run [unfolded set_active_pair_def Let_def a b bind_io_simps ok_or_simps]
  then have na: "\<not> is_slot_active a" "\<not> is_slot_active b" and g: "g' = g" by (auto split: if_split_asm)
  have attr: "attribute_byte g (base @ ustr ''_a'') = Inr (Some (a ! AB_FLAG_OFFSET))"
      "attribute_byte g (base @ ustr ''_b'') = Inr (Some (b ! AB_FLAG_OFFSET))"
    by (simp_all add: attribute_byte_def a b del: bind_io_eq_Inr)
  show "active_slot_for_base g base = Inr None"
    unfolding active_slot_for_base_def attr bind_io_simps Let_def option.case active_bit [symmetric] using na by simp
  show "g' = g" by (rule g)
qed

lemma set_active_pair_updated:
  assumes "gpt_ok g" and "set_active_pair g base slot = Inr (g', Updated)"
  shows "gpt_ok g'" and "retabled g g'"
  using set_active_pair_Inr [OF assms] set_active_pair_tables [OF assms] unfolding retabled_def by blast+

lemma set_active_pair_had_active:
  assumes run: "set_active_pair g base slot = Inr (g', Updated)"
  shows "active_slot_for_base g base \<noteq> Inr None"
proof -
  obtain a b where a: "find_entry (primary_entries g) (gh_entry_size (primary_header g)) (base @ ustr ''_a'') = Inr (Some a)"
    and b: "find_entry (primary_entries g) (gh_entry_size (primary_header g)) (base @ ustr ''_b'') = Inr (Some b)"
    using run [unfolded set_active_pair_def Let_def bind_io_eq_Inr ok_or_eq_Inr] by (elim exE conjE, hypsubst) (rule that)
  have act: "is_slot_active a \<or> is_slot_active b"
    using run [unfolded set_active_pair_def Let_def a b bind_io_simps ok_or_simps] by (auto split: if_split_asm)
  have attr: "attribute_byte g (base @ ustr ''_a'') = Inr (Some (a ! AB_FLAG_OFFSET))"
      "attribute_byte g (base @ ustr ''_b'') = Inr (Some (b ! AB_FLAG_OFFSET))"
    by (simp_all add: attribute_byte_def a b del: bind_io_eq_Inr)
  show ?thesis
    unfolding active_slot_for_base_def attr bind_io_simps Let_def option.case active_bit [symmetric] using act by auto
qed

lemma switched_bases_cong:
  "(\<And>b. b \<in> set bases \<Longrightarrow> active_slot_for_base h b = active_slot_for_base g b) \<Longrightarrow> switched_bases h bases = switched_bases g bases"
  by (auto simp: switched_bases_def)

lemma switched_bases_Cons:
  "switched_bases g (base # bases) =
     (if base \<noteq> ustr ''xbl'' \<and> active_slot_for_base g base \<noteq> Inr None then insert base (switched_bases g bases) else switched_bases g bases)"
  by (auto simp: switched_bases_def)

text \<open>A pair that is written, then the rest of the pairs.\<close>

lemma switched_Cons:
  assumes ok: "gpt_ok g" and d: "distinct (base # bases)" and x: "base \<noteq> ustr ''xbl''"
    and one: "set_active_pair g base slot = Inr (h, Updated)" and rest: "switched slot bases h g'"
    and keep: "\<And>name. (\<forall>b \<in> set bases. name \<noteq> b @ ustr ''_a'' \<and> name \<noteq> b @ ustr ''_b'') \<Longrightarrow> attribute_byte g' name = attribute_byte h name"
  shows "switched slot (base # bases) g g'"
proof -
  note attr = set_active_pair_activates [OF ok one]
  have other: "active_slot_for_base h b = active_slot_for_base g b" if "b \<in> set bases" for b
    using that d by (intro active_slot_attributes attr(2)) (auto simp: pair_names_differ)
  have bs: "switched_bases h bases = switched_bases g bases" by (rule switched_bases_cong [OF other])
  then have bs': "switched_bases g (base # bases) = insert base (switched_bases h bases)"
    using x set_active_pair_had_active [OF one] by (simp add: switched_bases_Cons)
  have "base \<notin> switched_bases h bases" using d by (simp add: switched_bases_def)
  then have sw: "disk_switched slot (insert base (switched_bases h bases)) g g'"
    using rest by (intro disk_switched_insert [OF ok one]) (simp_all add: switched_def)
  have "active_slot_for_base g' base = active_slot_for_base h base"
    using d by (intro active_slot_attributes keep) (auto simp: pair_names_differ)
  then have "active_slot_for_base g' base = Inr (Some slot)" using attr(1) by simp
  then show ?thesis
    using rest sw unfolding switched_def bs' by auto
qed

lemma switch_pairs_Inr:
  "gpt_ok g \<Longrightarrow> distinct bases \<Longrightarrow> switch_pairs slot g ch n bases = Inr (g', ch', n') \<Longrightarrow>
   gpt_ok g' \<and> retabled g g' \<and> (ch \<longrightarrow> ch') \<and> (\<not> ch' \<longrightarrow> g' = g) \<and> switched slot bases g g' \<and>
   (\<forall>name. (\<forall>b \<in> set bases. name \<noteq> b @ ustr ''_a'' \<and> name \<noteq> b @ ustr ''_b'') \<longrightarrow> attribute_byte g' name = attribute_byte g name)"
proof (induction bases arbitrary: g ch n)
  case Nil
  then show ?case by (simp add: switched_def switched_bases_def)
next
  case (Cons base bases)
  show ?case
  proof (cases "base = ustr ''xbl''")
    case True
    then have "distinct bases" and "switch_pairs slot g ch n bases = Inr (g', ch', n')" using Cons.prems(2,3) by simp_all
    note IH = Cons.IH [OF Cons.prems(1) this]
    have "ustr ''xbl'' \<noteq> ustr ''boot''" by (simp add: ustr_def)
    then have "switched slot (base # bases) g g'" using IH True by (simp add: switched_def switched_bases_Cons)
    then show ?thesis using IH by simp
  next
    case False
    then obtain h u where h: "set_active_pair g base slot = Inr (h, u)"
      using Cons.prems(3) by auto
    note run = Cons.prems(3) [unfolded switch_pairs.simps if_not_P [OF False] h bind_io_simps prod.case]
    have d: "distinct bases" using Cons.prems(2) by simp
    show ?thesis
    proof (cases u)
      case Updated
      note u = h [unfolded Updated]
      note ok = set_active_pair_updated [OF Cons.prems(1) u]
      have run': "switch_pairs slot h True (n + 1) bases = Inr (g', ch', n')" using run Updated by simp
      note IH = Cons.IH [OF ok(1) d run']
      then have "switched slot (base # bases) g g'"
        by (intro switched_Cons [OF Cons.prems(1,2) False u]) simp_all
      then show ?thesis using IH retabled_trans [OF ok(2)] set_active_pair_activates(2) [OF Cons.prems(1) u] by simp
    next
      case SkippedNoActiveMetadata
      note s = set_active_pair_skipped [OF h [unfolded SkippedNoActiveMetadata]]
      have b: "base \<noteq> ustr ''boot''" and run': "switch_pairs slot g ch n bases = Inr (g', ch', n')"
        using run SkippedNoActiveMetadata s(1) by (auto split: if_split_asm)
      note IH = Cons.IH [OF Cons.prems(1) d run']
      then have "switched slot (base # bases) g g'"
        using b s(2) by (simp add: switched_def switched_bases_Cons)
      then show ?thesis using IH by simp
    qed
  qed
qed

lemma slot_pairs_distinct: "slot_pairs g = Inr pairs \<Longrightarrow> distinct pairs"
  by (auto simp: slot_pairs_def)

section \<open>Switching the disks\<close>

text \<open>
  What the switch relies on of a disk, however its calls fail: reads that succeed return what the
  device holds, writes put nothing but a prefix of what they are given where they are told, the
  device has the size the system reports, and the tables of a disk that loads are laid out apart.
\<close>

definition disk_sound :: "system \<Rightarrow> contents \<Rightarrow> disk \<Rightarrow> bool" where
  "disk_sound S c d \<longleftrightarrow> os_faithful (sys_os S (disk_name d)) \<and> os_honest (sys_os S (disk_name d)) \<and>
     dev_ok d (c (disk_name d)) \<and> (\<forall>g. load_disk S c d = Inr g \<longrightarrow> layout_ok g)"

text \<open>A checked copy of a table is there: the old backup, or a primary with the pairs of the disk switched.\<close>

definition copy_left :: "slot \<Rightarrow> gpt_disk \<Rightarrow> bytes \<Rightarrow> bool" where
  "copy_left slot g content \<longleftrightarrow> backup_copy g content \<or>
     (\<exists>pairs h hb es. slot_pairs g = Inr pairs \<and> copy_at (gd_disk g) content 1 h hb es \<and>
        entries_switched (gh_entry_size (primary_header g)) slot (switched_bases g pairs) (pair_guids g) (primary_entries g) es)"

lemma switch_disk_commit:
  assumes sound: "disk_sound S c d" and load: "load_disk S c d = Inr g" and pairs: "slot_pairs g = Inr pairs"
    and sw: "switch_pairs slot g False n pairs = Inr (g', ch, n')"
    and run: "gpt_commit (sys_os S (disk_name d)) g' (c (disk_name d)) = (content, q)"
  shows "copy_left slot g content" and "rest_kept g (c (disk_name d)) content"
    and "q = Inr () \<Longrightarrow> os_reads (sys_os S (disk_name d)) \<Longrightarrow>
      \<exists>g2. gpt_load (sys_os S (disk_name d)) d content = Inr g2 \<and> switched slot pairs g g2"
proof -
  have os: "os_faithful (sys_os S (disk_name d))" "os_honest (sys_os S (disk_name d))" and dev: "dev_ok d (c (disk_name d))"
    and lay: "layout_ok g" using sound load by (simp_all add: disk_sound_def)
  note load' = load [unfolded load_disk_def]
  note l = load_copies [OF os(1) dev load']
  have s: "retabled g g'" "switched slot pairs g g'"
    using switch_pairs_Inr [OF l(5) slot_pairs_distinct [OF pairs] sw] by simp_all
  then have g': "g' = with_tables g (primary_entries g') (backup_entries g')"
    and len: "length (primary_entries g') = length (primary_entries g)" "length (backup_entries g') = length (backup_entries g)"
    by (simp_all add: retabled_def)
  have run': "gpt_commit (sys_os S (disk_name d)) (with_tables g (primary_entries g') (backup_entries g')) (c (disk_name d)) = (content, q)"
    using run g' by simp
  have es: "entries_switched (gh_entry_size (primary_header g)) slot (switched_bases g pairs) (pair_guids g) (primary_entries g) (primary_entries g')"
    using s(2) by (simp add: switched_def disk_switched_def)
  note copies = gpt_commit_copies [OF l(2-4) lay len os(2) run']
  show "rest_kept g (c (disk_name d)) content" using copies by auto
  show "copy_left slot g content"
    using copies es pairs unfolding copy_left_def Let_def primary_copy_def
    by (auto simp: rechecked_def)
  assume q: "q = Inr ()" and reads: "os_reads (sys_os S (disk_name d))"
  show "\<exists>g2. gpt_load (sys_os S (disk_name d)) d content = Inr g2 \<and> switched slot pairs g g2"
    using switched_commit [OF reads dev load' lay _ g' os(2) run [unfolded q]] s(2) unfolding switched_def by fastforce
qed

text \<open>
  What holds of a disk after the loop, given what it held before: a disk that does not load is left
  alone; of one that does, a copy is left and nothing outside its tables is touched; and with a
  result, on a device whose reads succeed, it was switched.
\<close>

definition disk_after :: "system \<Rightarrow> slot \<Rightarrow> contents \<Rightarrow> contents \<Rightarrow> bool \<Rightarrow> disk \<Rightarrow> bool" where
  "disk_after S slot c c' done_ok d \<longleftrightarrow>
     (case load_disk S c d of
        Inl _ \<Rightarrow> c' (disk_name d) = c (disk_name d)
      | Inr g \<Rightarrow> copy_left slot g (c' (disk_name d)) \<and> rest_kept g (c (disk_name d)) (c' (disk_name d)) \<and>
          (done_ok \<longrightarrow> os_reads (sys_os S (disk_name d)) \<longrightarrow>
             (\<exists>pairs g2. slot_pairs g = Inr pairs \<and> load_disk S c' d = Inr g2 \<and> switched slot pairs g g2)))"

lemma load_disk_cong: "c' (disk_name d) = c (disk_name d) \<Longrightarrow> load_disk S c' d = load_disk S c d"
  by (simp add: load_disk_def)

lemma disk_after_cong:
  "c1 (disk_name d) = c (disk_name d) \<Longrightarrow> c2 (disk_name d) = c' (disk_name d) \<Longrightarrow>
   disk_after S slot c1 c2 k d = disk_after S slot c c' k d"
  by (simp add: disk_after_def load_disk_def split: sum.splits)

lemma disk_after_weaken: "disk_after S slot c c' True d \<Longrightarrow> disk_after S slot c c' k d"
  by (auto simp: disk_after_def split: sum.splits)

lemma disk_sound_cong: "c' (disk_name d) = c (disk_name d) \<Longrightarrow> disk_sound S c' d = disk_sound S c d"
  by (simp add: disk_sound_def load_disk_def)

lemma copy_left_initial: "disk_sound S c d \<Longrightarrow> load_disk S c d = Inr g \<Longrightarrow> copy_left slot g (c (disk_name d))"
  using load_copies(4) by (auto simp: disk_sound_def load_disk_def copy_left_def)

lemma disk_after_same: "disk_sound S c d \<Longrightarrow> c' (disk_name d) = c (disk_name d) \<Longrightarrow> disk_after S slot c c' False d"
  using copy_left_initial by (simp add: disk_after_def split: sum.splits)

lemma switch_disks_after:
  "distinct (map disk_name ds) \<Longrightarrow> \<forall>d \<in> set ds. disk_sound S c d \<Longrightarrow> switch_disks S slot boot ds saw n c = (c', r) \<Longrightarrow>
   (\<forall>nm. nm \<notin> disk_name ` set ds \<longrightarrow> c' nm = c nm) \<and> (\<forall>d \<in> set ds. disk_after S slot c c' (\<not> isl r) d)"
proof (induction ds arbitrary: c saw n)
  case Nil
  then show ?case by simp
next
  case (Cons d ds)
  have sound: "disk_sound S c d" and dist: "distinct (map disk_name ds)" and new: "disk_name d \<notin> disk_name ` set ds"
    using Cons.prems(1,2) by auto
  note run = Cons.prems(3) [unfolded switch_disks.simps]
  have stay: ?case if "c' = c" "isl r"
    using that Cons.prems(2) disk_after_same by auto
  text \<open>The rest of the loop, from contents that differ from the first at this disk only.\<close>
  have rest: ?case if rest: "switch_disks S slot boot ds saw2 n2 c2 = (c', r)" and c2: "c2 = c(disk_name d := x)"
      and here: "disk_after S slot c c2 True d" for saw2 n2 c2 x
  proof -
    have other: "c2 (disk_name e) = c (disk_name e)" if "e \<in> set ds" for e
      using that new c2 by (metis fun_upd_other image_eqI)
    have "\<forall>e \<in> set ds. disk_sound S c2 e"
    proof
      fix e assume e: "e \<in> set ds"
      show "disk_sound S c2 e" using disk_sound_cong [of c2 e c, OF other [OF e]] Cons.prems(2) e by simp
    qed
    note IH = Cons.IH [OF dist this rest]
    then have "c' (disk_name d) = c2 (disk_name d)" using new by blast
    then have "disk_after S slot c c' True d" using here disk_after_cong [of c d c c2 c'] by simp
    then have "disk_after S slot c c' (\<not> isl r) d" by (rule disk_after_weaken)
    moreover have "disk_after S slot c c' (\<not> isl r) e" if e: "e \<in> set ds" for e
    proof -
      have "disk_after S slot c2 c' (\<not> isl r) e" using IH e by blast
      then show ?thesis using disk_after_cong [of c2 e c c' c', OF other [OF e]] by simp
    qed
    ultimately show ?thesis using IH c2 by auto
  qed
  show ?case
  proof (cases "load_disk S c d")
    case (Inl e)
    then have "disk_after S slot c c True d" by (simp add: disk_after_def)
    then show ?thesis using run Inl stay rest [of _ _ c "c (disk_name d)"] by (auto split: io_error.splits if_split_asm)
  next
    case (Inr g)
    show ?thesis
    proof (cases "bind_io (slot_pairs g) (\<lambda>pairs. bind_io (switch_pairs slot g False n pairs) (\<lambda>r. Inr (pairs, r)))")
      case (Inl e)
      then have "c' = c" "isl r" using run \<open>load_disk S c d = Inr g\<close> by auto
      then show ?thesis by (rule stay)
    next
      case (Inr t)
      then obtain pairs g' ch n' where t: "t = (pairs, g', ch, n')" "slot_pairs g = Inr pairs"
          "switch_pairs slot g False n pairs = Inr (g', ch, n')" by auto
      note load = \<open>load_disk S c d = Inr g\<close>
      note run' = run [unfolded load Inr t(1) sum.case prod.case Let_def]
      have ok: "gpt_ok g" using load_copies(5) sound load by (auto simp: disk_sound_def load_disk_def)
      show ?thesis
      proof (cases ch)
        case False
        then have "g' = g" "switched slot pairs g g'"
          using switch_pairs_Inr [OF ok slot_pairs_distinct [OF t(2)] t(3)] by auto
        then have "disk_after S slot c c True d"
          using load t(2) copy_left_initial [OF sound load] by (auto simp: disk_after_def)
        then show ?thesis using run' False rest [of _ _ c "c (disk_name d)"] by simp
      next
        case True
        obtain content q where w: "gpt_commit (sys_os S (disk_name d)) g' (c (disk_name d)) = (content, q)"
          by (cases "gpt_commit (sys_os S (disk_name d)) g' (c (disk_name d))")
        let ?c2 = "c(disk_name d := content)"
        note after = switch_disk_commit [OF sound load t(2,3) w]
        show ?thesis
        proof (cases q)
          case (Inl e)
          then have r: "c' = ?c2" "isl r" using run' True w by auto
          have "disk_after S slot c c' False d" using after(1,2) load r(1) by (simp add: disk_after_def)
          moreover have "disk_after S slot c c' False e" if "e \<in> set ds" for e
          proof (rule disk_after_same)
            show "disk_sound S c e" using Cons.prems(2) that by simp
            show "c' (disk_name e) = c (disk_name e)" using that new r(1) by (metis fun_upd_other image_eqI)
          qed
          moreover have "\<forall>nm. nm \<notin> disk_name ` set (d # ds) \<longrightarrow> c' nm = c nm" using r(1) by simp
          ultimately show ?thesis using r(2) by simp
        next
          case (Inr u)
          then have "disk_after S slot c ?c2 True d"
            using after load t(2) by (auto simp: disk_after_def load_disk_def)
          then show ?thesis using run' True w Inr rest [of _ _ ?c2 content] by simp
        qed
      qed
    qed
  qed
qed

end
