(* ===== verification/AbSwitch.thy ===== *)
theory AbSwitch
  imports AbSlots
begin

unbundle bit_operations_syntax

text \<open>
  What a switch of the active slot promises: on success every disk is switched and the new slot is
  the one reported, and however it fails every disk keeps a valid copy of its table. The sample
  system at the end has one disk with one pair of slots.
\<close>

lemma map_io_concat_elem:
  "map_io f xs = Inr yss \<Longrightarrow> y \<in> set (concat yss) \<Longrightarrow> \<exists>x \<in> set xs. \<exists>ys. f x = Inr ys \<and> y \<in> set ys"
  by (induction xs arbitrary: yss) fastforce+

lemma list_partitions_disk:
  assumes "list_partitions S = Inr ps" and "p \<in> set ps"
  shows "\<exists>dss. local_disks S = Inr dss \<and> part_disk p \<in> set (map fst dss)"
proof -
  obtain dss pss where ds: "local_disks S = Inr dss" and pss: "map_io disk_partitions dss = Inr pss" and ps: "ps = concat pss"
    using assms(1) by (auto simp: list_partitions_def)
  obtain d e ys where x: "(d, e) \<in> set dss" "disk_partitions (d, e) = Inr ys" "p \<in> set ys"
    using map_io_concat_elem [OF pss, of p] assms(2) ps by auto
  then obtain subs pss' where s: "map_io (partition_entry d) subs = Inr pss'" "p \<in> set (concat pss')"
    by (auto simp: disk_partitions_def)
  then obtain r ys' where r: "partition_entry d r = Inr ys'" "p \<in> set ys'"
    using map_io_concat_elem [OF s] by blast
  then have "part_disk p = d" by (auto simp: partition_entry_def split: if_split_asm)
  then show ?thesis using ds x(1) by force
qed

lemma find_partition_disk:
  assumes "find_partition S name = Inr (Some d)"
  shows "\<exists>dss. local_disks S = Inr dss \<and> d \<in> set (map fst dss)"
proof -
  obtain ps where ps: "list_partitions S = Inr ps"
    and f: "(case filter (\<lambda>p. partname p = Some name) ps of [] \<Rightarrow> Inr None | [p] \<Rightarrow> Inr (Some (part_disk p))
       | _ \<Rightarrow> invalid_input (''partition '' @ name @ '' is ambiguous'')) = Inr (Some d)"
    using assms by (auto simp only: find_partition_def bind_io_eq_Inr)
  then obtain p where p: "filter (\<lambda>p. partname p = Some name) ps = [p]" "d = part_disk p"
    by (cases "filter (\<lambda>p. partname p = Some name) ps" rule: remdups_adj.cases) auto
  then have "p \<in> set (filter (\<lambda>p. partname p = Some name) ps)" by simp
  then have "p \<in> set ps" by simp
  then show ?thesis using list_partitions_disk [OF ps] p(2) by blast
qed

text \<open>
  Every disk the switch may touch is sound, and no two have a name in common; in a system that is
  ready their reads also succeed.
\<close>

definition system_sound :: "system \<Rightarrow> contents \<Rightarrow> bool" where
  "system_sound S c \<longleftrightarrow>
     (\<forall>ds. local_disks S = Inr ds \<longrightarrow> distinct (map (disk_name \<circ> fst) ds) \<and> (\<forall>d \<in> set (map fst ds). disk_sound S c d))"

definition system_ready :: "system \<Rightarrow> contents \<Rightarrow> bool" where
  "system_ready S c \<longleftrightarrow> system_sound S c \<and>
     (\<forall>ds. local_disks S = Inr ds \<longrightarrow> (\<forall>d \<in> set (map fst ds). os_reads (sys_os S (disk_name d))))"

lemma set_active_slot_after:
  assumes sound: "system_sound S c" and ds: "local_disks S = Inr ds" and run: "set_active_slot S slot c = (c', r)"
  shows "d \<in> set (map fst ds) \<Longrightarrow> disk_after S slot c c' (r = Inr ()) d"
    and "nm \<notin> disk_name ` set (map fst ds) \<Longrightarrow> c' nm = c nm"
proof -
  have dist: "distinct (map disk_name (map fst ds))" and all: "\<forall>d \<in> set (map fst ds). disk_sound S c d"
    using sound ds by (auto simp: system_sound_def)
  consider (early) e where "c' = c" "r = Inl e"
    | (loop) boot c1 r1 where "switch_disks S slot boot (map fst ds) False 0 c = (c1, r1)" "c' = c1" "r = Inr () \<longrightarrow> \<not> isl r1"
    using run ds unfolding set_active_slot_def Let_def by (auto split: sum.splits prod.splits if_splits)
  then have "(d \<in> set (map fst ds) \<longrightarrow> disk_after S slot c c' (r = Inr ()) d) \<and> (nm \<notin> disk_name ` set (map fst ds) \<longrightarrow> c' nm = c nm)"
  proof cases
    case early
    then show ?thesis using disk_after_same [of S c d c slot] all by auto
  next
    case loop
    note after = switch_disks_after [OF dist all, OF loop(1)]
    show ?thesis
    proof (intro conjI impI)
      assume "d \<in> set (map fst ds)"
      then have "disk_after S slot c c' (\<not> isl r1) d" using after loop(2) by blast
      then show "disk_after S slot c c' (r = Inr ()) d" using loop(3) by (auto simp: disk_after_def split: sum.splits)
    next
      assume "nm \<notin> disk_name ` set (map fst ds)"
      then show "c' nm = c nm" using after loop(2) by blast
    qed
  qed
  then show "d \<in> set (map fst ds) \<Longrightarrow> disk_after S slot c c' (r = Inr ()) d" and "nm \<notin> disk_name ` set (map fst ds) \<Longrightarrow> c' nm = c nm"
    by blast+
qed

lemma set_active_slot_switched:
  assumes ready: "system_ready S c" and ds: "local_disks S = Inr ds" and run: "set_active_slot S slot c = (c', Inr ())"
    and d: "d \<in> set (map fst ds)"
  shows "case load_disk S c d of Inl _ \<Rightarrow> c' (disk_name d) = c (disk_name d)
     | Inr g \<Rightarrow> \<exists>pairs g2. slot_pairs g = Inr pairs \<and> load_disk S c' d = Inr g2 \<and> switched slot pairs g g2 \<and>
         rest_kept g (c (disk_name d)) (c' (disk_name d))"
  using set_active_slot_after(1) [OF _ ds run d] ready ds d by (auto simp: disk_after_def system_ready_def split: sum.splits)

lemma entry_disk_facts:
  assumes "entry_disk e = Inr d"
  shows "512 \<le> unat (logical_block_size d)" and "unat (total_bytes d) < 2 ^ 64 - 1" and "disk_name d = be_name e"
proof -
  obtain t where t: "checked_mul (case Option.bind (read_trimmed (be_size e)) (parse_u64 10) of Some v \<Rightarrow> v | None \<Rightarrow> 0) 512 = Some t"
      "total_bytes d = t" "disk_name d = be_name e"
      "logical_block_size d = (case Option.bind (read_trimmed (be_logical_block_size e)) (parse_u64 10) of
              Some v \<Rightarrow> if 512 \<le> v \<and> is_power_of_two v then v else DEFAULT_LOGICAL_BLOCK_SIZE
            | None \<Rightarrow> DEFAULT_LOGICAL_BLOCK_SIZE)"
    using assms by (auto simp: entry_disk_def Let_def)
  show "disk_name d = be_name e" by (rule t(3))
  show "512 \<le> unat (logical_block_size d)"
    using t(4) by (auto simp: DEFAULT_LOGICAL_BLOCK_SIZE_def word_le_nat_alt split: option.splits if_splits)
  obtain s :: u64 where s: "unat s * 512 < 2 ^ 64" "t = s * 512"
    using t(1) by (auto simp: checked_mul_def split: if_split_asm)
  then have "unat t = unat s * 512" by (simp add: unat_word_ariths)
  then show "unat (total_bytes d) < 2 ^ 64 - 1" using s(1) t(2) by (simp; presburger)
qed

lemma set_active_slot_finds: "set_active_slot S slot c = (c', Inr ()) \<Longrightarrow> \<exists>b. find_partition S ''boot_b'' = Inr (Some b)"
  by (auto simp: set_active_slot_def Let_def split: sum.splits prod.splits if_splits)

lemma local_disks_members:
  assumes "local_disks S = Inr ds"
  shows "sorted (map (\<lambda>p. ustr (disk_name (fst p))) ds)"
    and "(d, e) \<in> set ds \<Longrightarrow> is_local_flash_disk e \<and> be_dev_exists e \<and> entry_disk e = Inr d"
proof -
  obtain es dss where es: "map_io (\<lambda>r. bind_io r (\<lambda>e.
        if \<not> is_local_flash_disk e \<or> \<not> be_dev_exists e then Inr [] else bind_io (entry_disk e) (\<lambda>d. Inr [(d, e)]))) es = Inr dss"
    and ds: "ds = sort_key (\<lambda>(d, e). ustr (disk_name d)) (concat dss)"
    using assms by (auto simp: local_disks_def)
  show "sorted (map (\<lambda>p. ustr (disk_name (fst p))) ds)"
    using sorted_sort_key [of "\<lambda>(d, e). ustr (disk_name d)" "concat dss"] by (simp add: ds case_prod_beta')
  assume "(d, e) \<in> set ds"
  then have "(d, e) \<in> set (concat dss)" by (simp add: ds)
  from map_io_concat_elem [OF es this]
  show "is_local_flash_disk e \<and> be_dev_exists e \<and> entry_disk e = Inr d" by (auto split: if_split_asm)
qed

section \<open>A sample system\<close>

definition sample_partition :: "string \<Rightarrow> (bool \<times> string option) io" where
  "sample_partition n = Inr (True, Some (''PARTNAME='' @ n))"

definition sample_block_entry :: block_entry where
  "sample_block_entry = \<lparr>be_name = ''sda'', be_canonical = None, be_removable = None, be_size = Some ''5'',
       be_logical_block_size = None, be_dev_exists = True,
       be_entries = Inr [sample_partition ''boot_a'', sample_partition ''boot_b'']\<rparr>"

definition sample_system :: system where
  "sample_system = \<lparr>sys_block = Inr [Inr sample_block_entry], sys_os = \<lambda>_. slow_os\<rparr>"

definition sample_contents :: contents where
  "sample_contents = (\<lambda>_. sample_content)"

lemma sample_local_disks: "local_disks sample_system = Inr [(sample_disk, sample_block_entry)]"
proof -
  have "read_trimmed (Some ''5'') = Some ''5''" by code_simp
  moreover have "parse_u64 10 ''5'' = Some 5" by (simp add: parse_u64_def parse_radix_def digit_value_def)
  ultimately have "entry_disk sample_block_entry = Inr sample_disk"
    by (simp add: entry_disk_def sample_block_entry_def checked_mul_def sample_disk_def DEFAULT_LOGICAL_BLOCK_SIZE_def)
      (simp add: read_trimmed_def DEFAULT_LOGICAL_BLOCK_SIZE_def)
  moreover have "is_local_flash_disk sample_block_entry" by code_simp
  moreover have "be_dev_exists sample_block_entry" by (simp add: sample_block_entry_def)
  ultimately show ?thesis by (simp add: local_disks_def sample_system_def)
qed

lemma sample_find: "find_partition sample_system ''boot_a'' = Inr (Some sample_disk)" "find_partition sample_system ''boot_b'' = Inr (Some sample_disk)"
proof -
  have "uevent_value (Some (''PARTNAME='' @ ''boot_a'')) ''PARTNAME'' = Some ''boot_a''"
      "uevent_value (Some (''PARTNAME='' @ ''boot_b'')) ''PARTNAME'' = Some ''boot_b''" by code_simp+
  then have "list_partitions sample_system =
      Inr [\<lparr>partname = Some ''boot_a'', part_disk = sample_disk\<rparr>, \<lparr>partname = Some ''boot_b'', part_disk = sample_disk\<rparr>]"
    by (simp add: list_partitions_def sample_local_disks disk_partitions_def sample_block_entry_def sample_partition_def partition_entry_def)
  then show "find_partition sample_system ''boot_a'' = Inr (Some sample_disk)" "find_partition sample_system ''boot_b'' = Inr (Some sample_disk)"
    by (simp_all add: find_partition_def)
qed

lemma sample_load_disk: "load_disk sample_system sample_contents sample_disk = Inr sample_gpt"
  using sample_load by (simp add: load_disk_def sample_system_def sample_contents_def)

lemma sample_names: "map_io partition_name (filter (\<lambda>e. \<not> is_unused_entry e) (entries sample_table 128)) =
   Inr [Some (ustr ''boot_a''), Some (ustr ''boot_b'')]"
  by code_simp

lemma sample_pairs: "slot_pairs sample_gpt = Inr [ustr ''boot'']"
proof -
  have "partition_names sample_gpt = Inr [ustr ''boot_a'', ustr ''boot_b'']"
    using sample_names by (simp add: partition_names_def sample_gpt_def Let_def)
  moreover have "remdups (filter (\<lambda>b. b \<in> set (bases_of ''_b'' [ustr ''boot_a'', ustr ''boot_b''])) (bases_of ''_a'' [ustr ''boot_a'', ustr ''boot_b''])) = [ustr ''boot'']"
    by code_simp
  ultimately show ?thesis by (simp add: slot_pairs_def)
qed

lemma sample_system_ready: "system_ready sample_system sample_contents"
proof -
  have os: "sys_os sample_system n = slow_os" for n by (simp add: sample_system_def)
  have "disk_sound sample_system sample_contents sample_disk"
    using sample_load_disk sample_layout os_reads_faithful [OF slow_os_ok [THEN os_ok_reads]] slow_os_honest(1) sample_dev
    by (simp add: disk_sound_def os sample_contents_def)
  then show ?thesis using sample_local_disks slow_os_ok [THEN os_ok_reads] by (auto simp: system_ready_def system_sound_def os)
qed

text \<open>The same system on a device whose writes fail at the backup table.\<close>

definition broken_system :: system where
  "broken_system = sample_system\<lparr>sys_os := \<lambda>_. broken_os\<rparr>"

lemma broken_os_reads: "os_reads broken_os"
  using slow_os_ok [THEN os_ok_reads] by (simp add: os_reads_def broken_os_def)

lemma broken_system_sound:
  "local_disks broken_system = Inr [(sample_disk, sample_block_entry)]"
  "load_disk broken_system sample_contents sample_disk = Inr sample_gpt" "system_sound broken_system sample_contents"
proof -
  have os: "sys_os broken_system n = broken_os" for n by (simp add: broken_system_def)
  show l: "local_disks broken_system = Inr [(sample_disk, sample_block_entry)]"
    using sample_local_disks by (simp add: local_disks_def broken_system_def)
  show g: "load_disk broken_system sample_contents sample_disk = Inr sample_gpt"
    using sample_load unfolding load_disk_def os sample_contents_def gpt_load_iff [OF broken_os_reads sample_dev]
      gpt_load_iff [OF slow_os_ok [THEN os_ok_reads] sample_dev] .
  have "disk_sound broken_system sample_contents sample_disk"
    using g sample_layout os_reads_faithful [OF broken_os_reads] slow_os_honest(2) sample_dev
    by (simp add: disk_sound_def os sample_contents_def)
  then show "system_sound broken_system sample_contents" using l by (auto simp: system_sound_def)
qed

lemma sample_switch_runs: "\<exists>c'. set_active_slot sample_system B sample_contents = (c', Inr ())"
proof -
  note l = load_copies [OF os_reads_faithful [OF slow_os_ok [THEN os_ok_reads]] sample_dev sample_load]
  obtain g1 where g1: "set_active_pair sample_gpt (ustr ''boot'') B = Inr (g1, Updated)" using sample_switch by blast
  note t = set_active_pair_tables [OF l(5) g1]
  obtain content where w: "gpt_commit slow_os g1 sample_content = (content, Inr ())"
    using gpt_commit_ok [OF l(2-4) sample_layout t(2,3) slow_os_ok] t(1) by auto
  have x: "ustr ''boot'' \<noteq> ustr ''xbl''" by (simp add: ustr_def)
  have sp: "switch_pairs B sample_gpt False 0 [ustr ''boot''] = Inr (g1, True, 1)" using g1 x by simp
  have os: "sys_os sample_system n = slow_os" "sample_contents n = sample_content" for n
    by (simp_all add: sample_system_def sample_contents_def)
  obtain ds where ds: "local_disks sample_system = Inr ds" "map fst ds = [sample_disk]"
    using sample_local_disks by auto
  have "switch_disks sample_system B ''sda'' [sample_disk] False 0 sample_contents =
      (sample_contents(disk_name sample_disk := content), Inr (True, 1))"
    by (simp add: sample_load_disk sample_pairs sp os w Let_def del: switch_pairs.simps)
  moreover have "disk_name sample_disk = ''sda''" by (simp add: sample_disk_def)
  ultimately show ?thesis
    using ds by (simp add: set_active_slot_def sample_find)
qed

section \<open>Properties\<close>

text \<open>
  C4: a switch that reports success has switched every disk whose table loads. The pairs written
  are those with an active entry, \<open>xbl\<close> never, \<open>boot\<close> always where it is there; loading the disk
  again finds the target slot active for each. In both tables only the type GUIDs and flag bytes
  of the entries of these pairs are written, with the values they must have; every other byte of
  the tables (the skipped pairs, \<open>xbl_a\<close> and \<open>xbl_b\<close> included), of the headers but for their
  checksums, and of the disk is as it was. So are the disks whose table does not load, and whatever
  is not one of the local disks.
\<close>

theorem set_active_slot_switches:
  assumes "system_ready S c" and "local_disks S = Inr ds" and "set_active_slot S slot c = (c', Inr ())"
  shows "(\<forall>d \<in> set (map fst ds).
      case load_disk S c d of Inl _ \<Rightarrow> c' (disk_name d) = c (disk_name d)
      | Inr g \<Rightarrow> \<exists>pairs g2. slot_pairs g = Inr pairs \<and> load_disk S c' d = Inr g2 \<and> switched slot pairs g g2 \<and>
          rest_kept g (c (disk_name d)) (c' (disk_name d))) \<and>
    (\<forall>nm. nm \<notin> disk_name ` set (map fst ds) \<longrightarrow> c' nm = c nm)"
proof (intro conjI allI impI ballI)
  fix nm assume "nm \<notin> disk_name ` set (map fst ds)"
  then show "c' nm = c nm"
    using set_active_slot_after(2) [OF _ assms(2,3)] assms(1) by (simp add: system_ready_def)
qed (rule set_active_slot_switched [OF assms])

lemma set_active_slot_switches_witness:
  "\<exists>c' g2. set_active_slot sample_system B sample_contents = (c', Inr ()) \<and>
     load_disk sample_system c' sample_disk = Inr g2 \<and> switched B [ustr ''boot''] sample_gpt g2 \<and>
     rest_kept sample_gpt sample_content (c' ''sda'')"
proof -
  obtain c' where c': "set_active_slot sample_system B sample_contents = (c', Inr ())" using sample_switch_runs by blast
  have "disk_name sample_disk = ''sda''" "sample_contents n = sample_content" for n by (simp_all add: sample_disk_def sample_contents_def)
  then show ?thesis
    using set_active_slot_switches [OF sample_system_ready sample_local_disks c'] sample_load_disk sample_pairs c' by simp
qed

text \<open>
  C5: at whatever point a switch stops, with whatever error of opening, reading, writing or syncing
  this disk or another, every disk that had a valid table is left with its old backup copy, or with
  a complete primary copy in which the pairs are switched and nothing else; outside its two copies
  nothing was written, and a disk whose table did not load is as it was. What is assumed of the
  devices is only that a read which succeeds returns what is there, and that a write puts nothing
  but a prefix of its data at its place.
\<close>

theorem set_active_slot_keeps_a_copy:
  assumes "system_sound S c" and "local_disks S = Inr ds" and "set_active_slot S slot c = (c', r)"
  shows "(\<forall>d \<in> set (map fst ds).
      case load_disk S c d of Inl _ \<Rightarrow> c' (disk_name d) = c (disk_name d)
      | Inr g \<Rightarrow> copy_left slot g (c' (disk_name d)) \<and> rest_kept g (c (disk_name d)) (c' (disk_name d))) \<and>
    (\<forall>nm. nm \<notin> disk_name ` set (map fst ds) \<longrightarrow> c' nm = c nm)"
proof (intro conjI allI impI ballI)
  fix d assume "d \<in> set (map fst ds)"
  then have "disk_after S slot c c' (r = Inr ()) d" by (rule set_active_slot_after(1) [OF assms])
  then show "case load_disk S c d of Inl _ \<Rightarrow> c' (disk_name d) = c (disk_name d)
      | Inr g \<Rightarrow> copy_left slot g (c' (disk_name d)) \<and> rest_kept g (c (disk_name d)) (c' (disk_name d))"
    by (auto simp: disk_after_def split: sum.splits)
qed (rule set_active_slot_after(2) [OF assms])

lemma set_active_slot_keeps_a_copy_witness:
  "\<exists>c' r. set_active_slot broken_system B sample_contents = (c', r) \<and> copy_left B sample_gpt (c' ''sda'') \<and>
     rest_kept sample_gpt sample_content (c' ''sda'')"
proof -
  obtain c' r where c': "set_active_slot broken_system B sample_contents = (c', r)"
    by (cases "set_active_slot broken_system B sample_contents")
  have "disk_name sample_disk = ''sda''" "sample_contents n = sample_content" for n by (simp_all add: sample_disk_def sample_contents_def)
  then show ?thesis
    using set_active_slot_keeps_a_copy [OF broken_system_sound(3,1) c'] broken_system_sound(2) c' by simp
qed

text \<open>After a successful switch, the slot reported as active is the one that was set.\<close>

theorem active_slot_after_switch:
  assumes ready: "system_ready S c" and run: "set_active_slot S slot c = (c', Inr ())"
    and boot: "find_partition S ''boot_a'' = Inr (Some d)" and load: "load_disk S c d = Inr g"
    and pairs: "slot_pairs g = Inr pairs" and b: "ustr ''boot'' \<in> set pairs"
  shows "active_slot S c' = Inr (Some slot)"
proof -
  obtain ds where ds: "local_disks S = Inr ds" "d \<in> set (map fst ds)" using find_partition_disk [OF boot] by blast
  obtain g2 where g2: "load_disk S c' d = Inr g2" "switched slot pairs g g2"
    using set_active_slot_switched [OF ready ds(1) run ds(2)] load pairs by auto
  have "active_slot_for_base g2 (ustr ''boot'') = Inr (Some slot)"
    using g2(2) b by (auto simp: switched_def)
  then show ?thesis using boot g2(1) set_active_slot_finds [OF run] by (auto simp: active_slot_def)
qed

theorem active_slot_after_switch_witness:
  "\<exists>c'. set_active_slot sample_system B sample_contents = (c', Inr ()) \<and> active_slot sample_system c' = Inr (Some B)"
proof -
  obtain c' where c': "set_active_slot sample_system B sample_contents = (c', Inr ())" using sample_switch_runs by blast
  show ?thesis
    using active_slot_after_switch [OF sample_system_ready c' sample_find(1) sample_load_disk sample_pairs] c' by simp
qed

text \<open>
  The disks a switch works on come in the order of their names, are local flash with a device
  node, and have a block size of at least 512 and a size in bytes that did not overflow.
\<close>

theorem local_disks_sound:
  assumes "local_disks S = Inr ds"
  shows "sorted (map (\<lambda>p. ustr (disk_name (fst p))) ds) \<and>
    (\<forall>(d, e) \<in> set ds. is_local_flash_disk e \<and> be_dev_exists e \<and> disk_name d = be_name e \<and>
       512 \<le> unat (logical_block_size d) \<and> unat (total_bytes d) < 2 ^ 64 - 1)"
  using local_disks_members [OF assms] entry_disk_facts by blast

theorem local_disks_sound_witness:
  "sorted (map (\<lambda>p. ustr (disk_name (fst p))) [(sample_disk, sample_block_entry)]) \<and>
   is_local_flash_disk sample_block_entry \<and> be_dev_exists sample_block_entry \<and> disk_name sample_disk = be_name sample_block_entry \<and>
   512 \<le> unat (logical_block_size sample_disk) \<and> unat (total_bytes sample_disk) < 2 ^ 64 - 1"
  using local_disks_sound [OF sample_local_disks] by simp

end
