(* ===== verification/Settle.thy ===== *)
theory Settle
  imports AbSlots
begin

text \<open>
  Waiting for the local flash to settle (\<open>src/settle.rs\<close>): the kernel's uevents, snapshots of
  \<open>/sys/block\<close>, and the polling loop over what each pass meets, its clock and its sleep included.
  Then what a report means, and that the loop returns in time.
\<close>

text \<open>Instants and durations are in nanoseconds.\<close>

definition POLL_INTERVAL :: nat where "POLL_INTERVAL = 50 * 1000000"
definition QUIET_AFTER_PRESENT :: nat where "QUIET_AFTER_PRESENT = 350 * 1000000"

section \<open>Uevents\<close>

record uevent =
  ue_action :: "string option"
  ue_subsystem :: "string option"
  ue_devtype :: "string option"
  ue_devname :: "string option"
  ue_devpath :: "string option"

definition no_uevent :: uevent where
  "no_uevent = \<lparr>ue_action = None, ue_subsystem = None, ue_devtype = None, ue_devname = None, ue_devpath = None\<rparr>"

definition uevent_field :: "uevent \<Rightarrow> string \<Rightarrow> uevent" where
  "uevent_field ev field =
     (case split_once (CHR ''='') field of
        None \<Rightarrow> ev
      | Some (key, v) \<Rightarrow>
          if key = ''ACTION'' then ev\<lparr>ue_action := Some v\<rparr>
          else if key = ''SUBSYSTEM'' then ev\<lparr>ue_subsystem := Some v\<rparr>
          else if key = ''DEVTYPE'' then ev\<lparr>ue_devtype := Some v\<rparr>
          else if key = ''DEVNAME'' then ev\<lparr>ue_devname := Some v\<rparr>
          else if key = ''DEVPATH'' then ev\<lparr>ue_devpath := Some v\<rparr>
          else ev)"

fun uevent_fields :: "uevent \<Rightarrow> bytes list \<Rightarrow> uevent option" where
  "uevent_fields ev [] = Some ev"
| "uevent_fields ev (f # fs) = (if utf8_valid f then uevent_fields (uevent_field ev (text_of f)) fs else None)"

definition uevent_parse :: "bytes \<Rightarrow> uevent option" where
  "uevent_parse bs = uevent_fields no_uevent (filter (\<lambda>f. f \<noteq> []) (split_on 0 bs))"

definition is_relevant_block :: "uevent \<Rightarrow> bool" where
  "is_relevant_block ev =
     (if ue_subsystem ev \<noteq> Some ''block'' then False
      else if ue_action ev \<notin> {Some ''add'', Some ''change'', Some ''remove'', Some ''bind'', Some ''unbind''} then False
      else if ue_devtype ev \<notin> {Some ''disk'', Some ''partition''} then False
      else (case ue_devname ev of Some n \<Rightarrow> is_local_flash_like_name n | None \<Rightarrow> True))"

text \<open>
  The results of successive \<open>recv\<close> calls. \<open>drain\<close> returns at the first that ends it, and has not
  returned (None) where the kernel has delivered nothing that does.
\<close>

datatype recv_result = Received bytes | WouldBlock | RecvInterrupted | RecvFailed io_error

fun drain :: "uevent list \<Rightarrow> recv_result list \<Rightarrow> uevent list io option" where
  "drain events [] = None"
| "drain events (r # rs) =
     (case r of
        Received bs \<Rightarrow>
          if bs \<noteq> [] then drain (case uevent_parse bs of Some ev \<Rightarrow> events @ [ev] | None \<Rightarrow> events) rs
          else Some (Inr events)
      | WouldBlock \<Rightarrow> Some (Inr events)
      | RecvInterrupted \<Rightarrow> drain events rs
      | RecvFailed e \<Rightarrow> Some (Inl e))"

section \<open>Snapshots\<close>

record partition_snapshot =
  ps_name :: string
  ps_dev :: string
  ps_start :: string
  ps_size :: string
  ps_partname :: string

record disk_snapshot =
  ds_name :: string
  ds_dev :: string
  ds_size :: string
  ds_partitions :: "partition_snapshot list"

type_synonym snapshot = "disk_snapshot list"

text \<open>What the code reads of the directory of a disk and of its subdirectories.\<close>

record sys_part =
  sp_name :: string
  sp_partition :: bool
  sp_dev :: "string option"
  sp_start :: "string option"
  sp_size :: "string option"
  sp_uevent :: "string option"

record sys_disk =
  sd_name :: string
  sd_canonical :: "string option"
  sd_removable :: "string option"
  sd_dev :: "string option"
  sd_size :: "string option"
  sd_entries :: "sys_part io list io"

definition or_default :: "string option \<Rightarrow> string" where
  "or_default v = (case v of Some s \<Rightarrow> s | None \<Rightarrow> [])"

definition settle_is_local_flash_disk :: "string \<Rightarrow> string option \<Rightarrow> string option \<Rightarrow> bool" where
  "settle_is_local_flash_disk n canonical removable =
     (if is_excluded_disk_name n \<or> is_virtual_block canonical then False
      else if read_trimmed removable = Some ''1'' then False
      else is_local_flash_like_name n)"

definition partition_snapshot_of :: "sys_part \<Rightarrow> partition_snapshot" where
  "partition_snapshot_of e =
     \<lparr>ps_name = sp_name e, ps_dev = or_default (read_trimmed (sp_dev e)), ps_start = or_default (read_trimmed (sp_start e)),
      ps_size = or_default (read_trimmed (sp_size e)), ps_partname = or_default (uevent_value (sp_uevent e) ''PARTNAME'')\<rparr>"

definition partitions_for :: "sys_part io list io \<Rightarrow> partition_snapshot list io" where
  "partitions_for dir =
     bind_io dir (\<lambda>es.
     bind_io (map_io (\<lambda>r. bind_io r (\<lambda>e. Inr (if \<not> sp_partition e then [] else [partition_snapshot_of e]))) es) (\<lambda>pss.
     Inr (sort_key (\<lambda>p. ustr (ps_name p)) (concat pss))))"

definition capture :: "sys_disk io list io \<Rightarrow> snapshot io" where
  "capture dir =
     bind_io dir (\<lambda>es.
     bind_io (map_io (\<lambda>r. bind_io r (\<lambda>e.
        if \<not> settle_is_local_flash_disk (sd_name e) (sd_canonical e) (sd_removable e) then Inr []
        else bind_io (partitions_for (sd_entries e)) (\<lambda>ps.
             Inr [\<lparr>ds_name = sd_name e, ds_dev = or_default (read_trimmed (sd_dev e)),
                   ds_size = or_default (read_trimmed (sd_size e)), ds_partitions = ps\<rparr>]))) es) (\<lambda>dss.
     Inr (sort_key (\<lambda>d. ustr (ds_name d)) (concat dss))))"

definition snapshot_or_empty :: "sys_disk io list io \<Rightarrow> snapshot" where
  "snapshot_or_empty dir = (case capture dir of Inr s \<Rightarrow> s | Inl _ \<Rightarrow> [])"

definition partition_count :: "snapshot \<Rightarrow> nat" where
  "partition_count s = sum_list (map (\<lambda>d. length (ds_partitions d)) s)"

definition disk_summary :: "disk_snapshot \<Rightarrow> string" where
  "disk_summary d =
     (let partitions = join_with ''|'' (map ps_name (ds_partitions d))
      in ds_name d @ '':'' @ ds_dev d @ '':'' @ ds_size d @ ''['' @ (if partitions = [] then ''-'' else partitions) @ '']'')"

definition summary :: "snapshot \<Rightarrow> string" where
  "summary s = (if s = [] then ''none'' else join_with '','' (map disk_summary s))"

section \<open>Waiting\<close>

record settle_report =
  rp_elapsed :: nat
  rp_timed_out :: bool
  rp_disks :: nat
  rp_partitions :: nat
  rp_events :: u64
  rp_snapshot_changes :: u64
  rp_summary :: string

text \<open>
  What one pass of the loop meets: how long it takes until it reads the clock (a sleep that ran over
  included), what the socket and \<open>/sys/block\<close> return, and how long it takes from there to its end.
  What it observes is that with the clock: at the reading, and at the end.
\<close>

record pass_input =
  pi_delay :: nat
  pi_recv :: "recv_result list"
  pi_block :: "sys_disk io list io"
  pi_work :: nat

record observation =
  ob_now :: nat
  ob_recv :: "recv_result list"
  ob_block :: "sys_disk io list io"
  ob_end :: nat

record settle_state =
  st_socket :: bool
  st_snapshot :: snapshot
  st_last_change :: nat
  st_events :: u64
  st_changes :: u64

definition settle_report_of :: "nat \<Rightarrow> bool \<Rightarrow> observation \<Rightarrow> settle_state \<Rightarrow> settle_report" where
  "settle_report_of start timed_out ob st =
     \<lparr>rp_elapsed = ob_end ob - start, rp_timed_out = timed_out, rp_disks = length (st_snapshot st),
      rp_partitions = partition_count (st_snapshot st), rp_events = st_events st, rp_snapshot_changes = st_changes st,
      rp_summary = summary (st_snapshot st)\<rparr>"

definition observe_events :: "settle_state \<Rightarrow> nat \<Rightarrow> uevent list \<Rightarrow> settle_state" where
  "observe_events st now drained =
     foldl (\<lambda>st ev. if is_relevant_block ev then st\<lparr>st_events := st_events st + 1, st_last_change := now\<rparr> else st) st drained"

definition observe_socket :: "settle_state \<Rightarrow> observation \<Rightarrow> settle_state option" where
  "observe_socket st ob =
     (if st_socket st
      then (case drain [] (ob_recv ob) of
              None \<Rightarrow> None
            | Some (Inr drained) \<Rightarrow> Some (observe_events st (ob_now ob) drained)
            | Some (Inl e) \<Rightarrow> Some (st\<lparr>st_socket := False\<rparr>))
      else Some st)"

definition observe_snapshot :: "settle_state \<Rightarrow> observation \<Rightarrow> settle_state" where
  "observe_snapshot st ob =
     (let next_snapshot = snapshot_or_empty (ob_block ob)
      in if next_snapshot \<noteq> st_snapshot st
         then st\<lparr>st_changes := st_changes st + 1, st_last_change := ob_now ob, st_snapshot := next_snapshot\<rparr>
         else st)"

definition observed_at :: "nat \<Rightarrow> pass_input \<Rightarrow> observation" where
  "observed_at clock p =
     \<lparr>ob_now = clock + pi_delay p, ob_recv = pi_recv p, ob_block = pi_block p, ob_end = clock + pi_delay p + pi_work p\<rparr>"

text \<open>
  The loop, from a reading of the clock, over the passes made so far: None where it has not returned
  yet. A pass that does not return sleeps, and the next one starts when the sleep is over.
\<close>

fun settle_loop :: "nat \<Rightarrow> nat \<Rightarrow> nat \<Rightarrow> settle_state \<Rightarrow> pass_input list \<Rightarrow> settle_report option" where
  "settle_loop start deadline clock st [] = None"
| "settle_loop start deadline clock st (p # ps) =
     (let ob = observed_at clock p; now = ob_now ob in
      case observe_socket st ob of
        None \<Rightarrow> None
      | Some st \<Rightarrow>
          let st = observe_snapshot st ob;
              quiet_for = now - st_last_change st
          in if st_snapshot st \<noteq> [] \<and> QUIET_AFTER_PRESENT \<le> quiet_for then Some (settle_report_of start False ob st)
             else if deadline \<le> now then Some (settle_report_of start True ob st)
             else let remaining = deadline - now
                  in settle_loop start deadline (ob_end ob + min POLL_INTERVAL remaining) st ps)"

text \<open>\<open>setup\<close> is the time until \<open>last_change\<close> is first set.\<close>

definition wait_for_local_flash ::
  "nat \<Rightarrow> nat \<Rightarrow> bool \<Rightarrow> sys_disk io list io \<Rightarrow> nat \<Rightarrow> pass_input list \<Rightarrow> settle_report option" where
  "wait_for_local_flash start max_wait socket_opens block setup ps =
     settle_loop start (start + max_wait) (start + setup)
       \<lparr>st_socket = socket_opens, st_snapshot = snapshot_or_empty block, st_last_change = start + setup, st_events = 0, st_changes = 0\<rparr> ps"

section \<open>The passes with their times\<close>

text \<open>
  What the passes observe, each at its time: a sleep of the poll interval between two, or of what is
  left until the deadline. On these the loop need not keep the clock.
\<close>

fun observations :: "nat \<Rightarrow> nat \<Rightarrow> pass_input list \<Rightarrow> observation list" where
  "observations deadline clock [] = []"
| "observations deadline clock (p # ps) =
     (let ob = observed_at clock p
      in ob # observations deadline (ob_end ob + min POLL_INTERVAL (deadline - ob_now ob)) ps)"

fun stamped_loop :: "nat \<Rightarrow> nat \<Rightarrow> settle_state \<Rightarrow> observation list \<Rightarrow> settle_report option" where
  "stamped_loop start deadline st [] = None"
| "stamped_loop start deadline st (ob # obs) =
     (case observe_socket st ob of
        None \<Rightarrow> None
      | Some st \<Rightarrow>
          let st = observe_snapshot st ob;
              quiet_for = ob_now ob - st_last_change st
          in if st_snapshot st \<noteq> [] \<and> QUIET_AFTER_PRESENT \<le> quiet_for then Some (settle_report_of start False ob st)
             else if deadline \<le> ob_now ob then Some (settle_report_of start True ob st)
             else stamped_loop start deadline st obs)"

lemma settle_loop_stamped:
  "settle_loop start deadline clock st ps = stamped_loop start deadline st (observations deadline clock ps)"
  by (induction ps arbitrary: clock st) (auto simp: Let_def split: option.split)

lemma length_observations [simp]: "length (observations deadline clock ps) = length ps"
  by (induction ps arbitrary: clock) (simp_all add: Let_def)

lemma observations_times:
  "(\<forall>ob \<in> set (observations deadline clock ps). clock \<le> ob_now ob) \<and> sorted (map ob_now (observations deadline clock ps))"
proof (induction ps arbitrary: clock)
  case (Cons p ps)
  let ?ob = "observed_at clock p"
  have "clock \<le> ob_now ?ob" "ob_now ?ob \<le> ob_end ?ob" by (simp_all add: observed_at_def)
  then show ?case
    using Cons [of "ob_end ?ob + min POLL_INTERVAL (deadline - ob_now ?ob)"] by (fastforce simp: Let_def)
qed simp

section \<open>One pass\<close>

text \<open>The events of a pass that count, when the socket delivers them.\<close>

definition pass_events :: "observation \<Rightarrow> uevent list" where
  "pass_events ob = (case drain [] (ob_recv ob) of Some (Inr evs) \<Rightarrow> filter is_relevant_block evs | _ \<Rightarrow> [])"

definition pass_snapshot :: "observation \<Rightarrow> snapshot" where
  "pass_snapshot ob = snapshot_or_empty (ob_block ob)"

definition pass :: "settle_state \<Rightarrow> observation \<Rightarrow> settle_state option" where
  "pass st ob = map_option (\<lambda>st. observe_snapshot st ob) (observe_socket st ob)"

lemma observe_events_facts:
  "st_snapshot (observe_events st now evs) = st_snapshot st"
  "st_socket (observe_events st now evs) = st_socket st"
  "st_last_change (observe_events st now evs) = (if filter is_relevant_block evs = [] then st_last_change st else now)"
proof (induction evs arbitrary: st)
  case (Cons ev evs)
  { case 1 then show ?case using Cons by (simp add: observe_events_def) }
  { case 2 then show ?case using Cons by (simp add: observe_events_def) }
  { case 3 then show ?case using Cons by (simp add: observe_events_def) }
qed (simp_all add: observe_events_def)

lemma pass_facts:
  assumes "pass st ob = Some st'"
  shows "st_snapshot st' = pass_snapshot ob"
    and "st_last_change st' =
      (if st_socket st \<and> pass_events ob \<noteq> [] \<or> pass_snapshot ob \<noteq> st_snapshot st then ob_now ob else st_last_change st)"
    and "st_socket st' \<longleftrightarrow> st_socket st \<and> (\<exists>evs. drain [] (ob_recv ob) = Some (Inr evs))"
  using assms
  by (auto simp: pass_def observe_socket_def observe_snapshot_def pass_snapshot_def pass_events_def observe_events_facts Let_def
      split: option.splits sum.splits if_splits)

lemma stamped_loop_pass:
  "stamped_loop start deadline st (ob # obs) =
     (case pass st ob of
        None \<Rightarrow> None
      | Some st \<Rightarrow>
          if st_snapshot st \<noteq> [] \<and> st_last_change st + QUIET_AFTER_PRESENT \<le> ob_now ob then Some (settle_report_of start False ob st)
          else if deadline \<le> ob_now ob then Some (settle_report_of start True ob st)
          else stamped_loop start deadline st obs)"
proof -
  have "0 < QUIET_AFTER_PRESENT" by (simp add: QUIET_AFTER_PRESENT_def)
  then have "QUIET_AFTER_PRESENT \<le> ob_now ob - t \<longleftrightarrow> t + QUIET_AFTER_PRESENT \<le> ob_now ob" for t by arith
  then show ?thesis by (simp add: pass_def Let_def split: option.split)
qed

section \<open>What a report means\<close>

text \<open>
  The last pass of a run saw the snapshot of the report; over the quiet period before it every pass
  saw the same snapshot and, while the socket worked, no relevant event.
\<close>

definition quiet_at :: "bool \<Rightarrow> observation list \<Rightarrow> nat \<Rightarrow> bool" where
  "quiet_at socket obs k \<longleftrightarrow>
     (\<forall>i \<le> k. ob_now (obs ! k) < ob_now (obs ! i) + QUIET_AFTER_PRESENT \<longrightarrow>
        pass_snapshot (obs ! i) = pass_snapshot (obs ! k) \<and>
        (socket \<and> (\<forall>j < i. \<exists>evs. drain [] (ob_recv (obs ! j)) = Some (Inr evs)) \<longrightarrow> pass_events (obs ! i) = []))"

lemma stamped_loop_report:
  "stamped_loop start deadline st obs = Some rep \<Longrightarrow> sorted (map ob_now obs) \<Longrightarrow> \<forall>ob \<in> set obs. st_last_change st \<le> ob_now ob \<Longrightarrow>
   \<exists>k < length obs. rp_disks rep = length (pass_snapshot (obs ! k)) \<and> rp_partitions rep = partition_count (pass_snapshot (obs ! k)) \<and>
     rp_summary rep = summary (pass_snapshot (obs ! k)) \<and>
     (if rp_timed_out rep then deadline \<le> ob_now (obs ! k)
      else pass_snapshot (obs ! k) \<noteq> [] \<and> quiet_at (st_socket st) obs k \<and>
        st_last_change st + QUIET_AFTER_PRESENT \<le> ob_now (obs ! k) \<and>
        (\<forall>t. (\<forall>ob \<in> set obs. t \<le> ob_now ob) \<longrightarrow> ob_now (obs ! k) < t + QUIET_AFTER_PRESENT \<longrightarrow>
           st_snapshot st = pass_snapshot (obs ! k)))"
proof (induction obs arbitrary: st)
  case Nil
  then show ?case by simp
next
  case (Cons ob obs)
  obtain st' where p: "pass st ob = Some st'"
    using Cons.prems(1) unfolding stamped_loop_pass by (cases "pass st ob") auto
  note f = pass_facts [OF p]
  note run = Cons.prems(1) [unfolded stamped_loop_pass p option.case]
  have q: "0 < QUIET_AFTER_PRESENT" by (simp add: QUIET_AFTER_PRESENT_def)
  have le: "st_last_change st \<le> ob_now ob" using Cons.prems(3) by simp
  show ?case
  proof (cases "st_snapshot st' \<noteq> [] \<and> st_last_change st' + QUIET_AFTER_PRESENT \<le> ob_now ob")
    case True
    then have rep: "rep = settle_report_of start False ob st'" using run by simp
    have "st_last_change st' \<noteq> ob_now ob" using True q by auto
    then have same: "\<not> (st_socket st \<and> pass_events ob \<noteq> [])" "pass_snapshot ob = st_snapshot st" "st_last_change st' = st_last_change st"
      using f(2) by (auto split: if_split_asm)
    show ?thesis
      using True rep same f(1) by (intro exI [of _ 0]) (auto simp: settle_report_of_def quiet_at_def)
  next
    case nq: False
    show ?thesis
    proof (cases "deadline \<le> ob_now ob")
      case True
      then have "rep = settle_report_of start True ob st'" using run nq by simp
      then show ?thesis using True f(1) by (intro exI [of _ 0]) (simp add: settle_report_of_def)
    next
      case False
      then have rest: "stamped_loop start deadline st' obs = Some rep" using run nq by simp
      have later: "\<forall>o' \<in> set obs. ob_now ob \<le> ob_now o'" and sorted: "sorted (map ob_now obs)" using Cons.prems(2) by auto
      have lc: "st_last_change st \<le> st_last_change st'" "st_last_change st' \<le> ob_now ob" using f(2) le by (auto split: if_split_asm)
      then have "\<forall>o' \<in> set obs. st_last_change st' \<le> ob_now o'" using later by (meson le_trans)
      note IH = Cons.IH [OF rest sorted this]
      show ?thesis using IH
      proof (elim exE conjE, goal_cases)
      case (1 k)
      have t: "rp_timed_out rep \<Longrightarrow> deadline \<le> ob_now (obs ! k)" using 1(5) by simp
      have nt: "\<not> rp_timed_out rep \<Longrightarrow> pass_snapshot (obs ! k) \<noteq> [] \<and> quiet_at (st_socket st') obs k \<and>
            st_last_change st' + QUIET_AFTER_PRESENT \<le> ob_now (obs ! k) \<and>
            (\<forall>t. (\<forall>ob \<in> set obs. t \<le> ob_now ob) \<longrightarrow> ob_now (obs ! k) < t + QUIET_AFTER_PRESENT \<longrightarrow>
               st_snapshot st' = pass_snapshot (obs ! k))" using 1(5) by simp
      have quiet: "quiet_at (st_socket st) (ob # obs) (Suc k)" if to: "\<not> rp_timed_out rep"
        unfolding quiet_at_def
      proof (intro allI impI)
        fix i assume i: "i \<le> Suc k" "ob_now ((ob # obs) ! Suc k) < ob_now ((ob # obs) ! i) + QUIET_AFTER_PRESENT"
        show "pass_snapshot ((ob # obs) ! i) = pass_snapshot ((ob # obs) ! Suc k) \<and>
          (st_socket st \<and> (\<forall>j < i. \<exists>evs. drain [] (ob_recv ((ob # obs) ! j)) = Some (Inr evs)) \<longrightarrow> pass_events ((ob # obs) ! i) = [])"
        proof (cases i)
          case 0
          have "st_snapshot st' = pass_snapshot (obs ! k)" using nt [OF to] later i(2) 0 by simp
          moreover have "pass_events ob = []" if "st_socket st"
          proof (rule ccontr)
            assume "pass_events ob \<noteq> []"
            then have "st_last_change st' = ob_now ob" using f(2) that by simp
            then show False using nt [OF to] i(2) 0 by simp
          qed
          ultimately show ?thesis using 0 f(1) by simp
        next
          case (Suc j)
          have sock: "st_socket st'" if "st_socket st" "\<forall>j < i. \<exists>evs. drain [] (ob_recv ((ob # obs) ! j)) = Some (Inr evs)"
            using that f(3) Suc by fastforce
          have "\<forall>m < j. \<exists>evs. drain [] (ob_recv (obs ! m)) = Some (Inr evs)"
            if "\<forall>j < i. \<exists>evs. drain [] (ob_recv ((ob # obs) ! j)) = Some (Inr evs)"
            using that Suc by fastforce
          then show ?thesis using nt [OF to] i Suc sock unfolding quiet_at_def by simp
        qed
      qed
      have stay: "st_snapshot st = pass_snapshot (obs ! k)"
        if to: "\<not> rp_timed_out rep" and b: "\<forall>o' \<in> set (ob # obs). t' \<le> ob_now o'" "ob_now (obs ! k) < t' + QUIET_AFTER_PRESENT" for t'
      proof -
        have "st_snapshot st' = pass_snapshot (obs ! k)" using nt [OF to] b by auto
        moreover have "pass_snapshot ob = st_snapshot st"
        proof (rule ccontr)
          assume "pass_snapshot ob \<noteq> st_snapshot st"
          then have "st_last_change st' = ob_now ob" using f(2) by simp
          then show False using nt [OF to] b by auto
        qed
        ultimately show ?thesis using f(1) by simp
      qed
      show ?thesis
        using 1(1-4) t nt quiet lc(1) stay by (intro exI [of _ "Suc k"]) auto
      qed
    qed
  qed
qed

section \<open>Returning\<close>

text \<open>A pass at which the socket runs dry: \<open>recv\<close> comes to an end.\<close>

definition drains :: "pass_input \<Rightarrow> bool" where
  "drains p \<longleftrightarrow> drain [] (pi_recv p) \<noteq> None"

text \<open>Each sleep brings the deadline nearer by the poll interval, or reaches it.\<close>

lemma settle_loop_returns:
  "\<forall>p \<in> set ps. drains p \<Longrightarrow> deadline \<le> clock + n * POLL_INTERVAL \<Longrightarrow> n < length ps \<Longrightarrow>
   \<exists>rep. settle_loop start deadline clock st ps = Some rep"
proof (induction ps arbitrary: clock st n)
  case (Cons p ps)
  let ?ob = "observed_at clock p"
  have "drain [] (ob_recv ?ob) \<noteq> None" using Cons.prems(1) by (simp add: drains_def observed_at_def)
  then have "observe_socket st ?ob \<noteq> None"
    by (auto simp: observe_socket_def split: option.split sum.split)
  then obtain st' where st': "observe_socket st ?ob = Some st'" by auto
  let ?next = "ob_end ?ob + min POLL_INTERVAL (deadline - ob_now ?ob)"
  have le: "clock \<le> ob_now ?ob" "ob_now ?ob \<le> ob_end ?ob" by (simp_all add: observed_at_def)
  have "\<exists>rep. settle_loop start deadline ?next st2 ps = Some rep" if "\<not> deadline \<le> ob_now ?ob" for st2
  proof (cases n)
    case 0
    then show ?thesis using that le Cons.prems(2) by simp
  next
    case (Suc m)
    then have "deadline \<le> ?next + m * POLL_INTERVAL"
      using that le Cons.prems(2) by (auto simp: min_def)
    then show ?thesis using Cons.IH Cons.prems(1,3) Suc by simp
  qed
  then show ?case by (auto simp: st' Let_def)
qed simp

text \<open>And no sleep goes past the deadline, so that the time of a report is bounded too.\<close>

lemma settle_loop_elapsed:
  "settle_loop start deadline clock st ps = Some rep \<Longrightarrow> \<forall>p \<in> set ps. pi_delay p \<le> D \<and> pi_work p \<le> W \<Longrightarrow>
   clock \<le> bound \<Longrightarrow> deadline + W \<le> bound \<Longrightarrow> rp_elapsed rep \<le> bound + D + W - start"
proof (induction ps arbitrary: clock st)
  case (Cons p ps)
  let ?ob = "observed_at clock p"
  obtain st' where st': "observe_socket st ?ob = Some st'"
    using Cons.prems(1) by (auto simp: Let_def split: option.splits)
  have pw: "pi_delay p \<le> D" "pi_work p \<le> W" using Cons.prems(2) by simp_all
  have fin: "ob_end ?ob - start \<le> bound + D + W - start" using pw Cons.prems(3) by (simp add: observed_at_def)
  have "rp_elapsed rep \<le> bound + D + W - start"
    if "settle_loop start deadline (ob_end ?ob + min POLL_INTERVAL (deadline - ob_now ?ob)) st2 ps = Some rep" "\<not> deadline \<le> ob_now ?ob" for st2
  proof (rule Cons.IH [OF that(1)])
    show "ob_end ?ob + min POLL_INTERVAL (deadline - ob_now ?ob) \<le> bound"
      using that(2) pw Cons.prems(4) by (simp add: observed_at_def)
  qed (use Cons.prems(2,4) in auto)
  then show ?case
    using Cons.prems(1) fin by (auto simp: st' Let_def settle_report_of_def split: if_splits)
qed simp

text \<open>
  C34: the wait returns. If the socket runs dry at each pass, the loop returns within \<open>max_wait / 50 ms\<close>
  (rounded up) further passes after the first, for the sleep between two passes is one of 50 ms or
  ends at the deadline. When it returns, the wait has taken no longer than \<open>max_wait\<close> and the time
  the setup and the passes themselves take: with at most \<open>D\<close> from the end of a sleep until the clock
  is read and at most \<open>W\<close> for the rest of a pass, \<open>setup + D + 2 W\<close> more.
\<close>

theorem wait_returns:
  assumes "\<forall>p \<in> set ps. drains p" and "max_wait \<le> n * POLL_INTERVAL" and "n < length ps"
    and "\<forall>p \<in> set ps. pi_delay p \<le> D \<and> pi_work p \<le> W"
  shows "\<exists>rep. wait_for_local_flash start max_wait socket block setup ps = Some rep \<and>
    rp_elapsed rep \<le> max_wait + setup + D + 2 * W"
proof -
  let ?st = "\<lparr>st_socket = socket, st_snapshot = snapshot_or_empty block, st_last_change = start + setup, st_events = 0, st_changes = 0\<rparr>"
  obtain rep where rep: "settle_loop start (start + max_wait) (start + setup) ?st ps = Some rep"
    using settle_loop_returns [OF assms(1) _ assms(3), of "start + max_wait" "start + setup"] assms(2) by fastforce
  have "rp_elapsed rep \<le> (start + max_wait + setup + W) + D + W - start"
    by (rule settle_loop_elapsed [OF rep assms(4)]) simp_all
  then show ?thesis using rep by (simp add: wait_for_local_flash_def)
qed

text \<open>
  C35: what a report of the wait means. Without a timeout the disks were there and over the last
  350 ms every pass saw the same snapshot and no relevant event; with one the deadline had passed.
  Either way the report describes the snapshot of the last pass.
\<close>

theorem wait_report:
  assumes "wait_for_local_flash start max_wait socket block setup ps = Some rep"
    and "obs = observations (start + max_wait) (start + setup) ps"
  shows "\<exists>k < length obs. rp_disks rep = length (pass_snapshot (obs ! k)) \<and>
     rp_partitions rep = partition_count (pass_snapshot (obs ! k)) \<and> rp_summary rep = summary (pass_snapshot (obs ! k)) \<and>
     (if rp_timed_out rep then start + max_wait \<le> ob_now (obs ! k)
      else rp_disks rep \<noteq> 0 \<and> quiet_at socket obs k \<and> start + setup + QUIET_AFTER_PRESENT \<le> ob_now (obs ! k))"
proof -
  let ?st = "\<lparr>st_socket = socket, st_snapshot = snapshot_or_empty block, st_last_change = start + setup, st_events = 0, st_changes = 0\<rparr>"
  note times = observations_times [of "start + max_wait" "start + setup" ps, folded assms(2)]
  have run: "stamped_loop start (start + max_wait) ?st obs = Some rep"
    using assms(1) by (simp add: wait_for_local_flash_def settle_loop_stamped assms(2))
  have "\<forall>ob \<in> set obs. st_last_change ?st \<le> ob_now ob" using times by simp
  from stamped_loop_report [OF run _ this]
  obtain k where "k < length obs" "rp_disks rep = length (pass_snapshot (obs ! k)) \<and>
     rp_partitions rep = partition_count (pass_snapshot (obs ! k)) \<and> rp_summary rep = summary (pass_snapshot (obs ! k)) \<and>
     (if rp_timed_out rep then start + max_wait \<le> ob_now (obs ! k)
      else pass_snapshot (obs ! k) \<noteq> [] \<and> quiet_at socket obs k \<and> start + setup + QUIET_AFTER_PRESENT \<le> ob_now (obs ! k))"
    using times by (auto split: if_split_asm)
  then show ?thesis by (intro exI [of _ k]) (auto split: if_split_asm)
qed

section \<open>A sample run\<close>

definition sample_sys_disk :: sys_disk where
  "sample_sys_disk = \<lparr>sd_name = ''mmcblk0'', sd_canonical = None, sd_removable = None, sd_dev = None, sd_size = None,
     sd_entries = Inr []\<rparr>"

definition sample_pass :: "nat \<Rightarrow> pass_input" where
  "sample_pass t = \<lparr>pi_delay = t, pi_recv = [Received [65], RecvInterrupted, WouldBlock], pi_block = Inr [Inr sample_sys_disk], pi_work = 0\<rparr>"

lemma sample_pass_drains: "drains (sample_pass t)"
  by (simp add: drains_def sample_pass_def split: option.split)

lemma sample_capture: "snapshot_or_empty (Inr [Inr sample_sys_disk]) = [\<lparr>ds_name = ''mmcblk0'', ds_dev = [], ds_size = [], ds_partitions = []\<rparr>]"
proof -
  have "settle_is_local_flash_disk ''mmcblk0'' None None" by code_simp
  then show ?thesis
    by (simp add: snapshot_or_empty_def capture_def sample_sys_disk_def partitions_for_def or_default_def read_trimmed_def)
qed

lemma wait_returns_witness:
  "\<exists>rep. wait_for_local_flash 0 60000000 True (Inr []) 0 [sample_pass 1000, sample_pass 0, sample_pass 10] = Some rep \<and>
     rp_elapsed rep \<le> 60001000"
proof -
  have "\<exists>rep. wait_for_local_flash 0 60000000 True (Inr []) 0 [sample_pass 1000, sample_pass 0, sample_pass 10] = Some rep \<and>
     rp_elapsed rep \<le> 60000000 + 0 + 1000 + 2 * 0"
  proof (rule wait_returns [where n = 2])
    show "\<forall>p \<in> set [sample_pass 1000, sample_pass 0, sample_pass 10]. drains p" using sample_pass_drains by simp
  qed (simp_all add: sample_pass_def POLL_INTERVAL_def)
  then show ?thesis by simp
qed

lemma wait_report_witness:
  "\<exists>rep obs. wait_for_local_flash 0 60000000000 False (Inr []) 0 [sample_pass 1000, sample_pass 349999000] = Some rep \<and>
     \<not> rp_timed_out rep \<and> rp_disks rep = 1 \<and> map ob_now obs = [1000, 400000000] \<and> quiet_at False obs 1"
proof -
  let ?ps = "[sample_pass 1000, sample_pass 349999000]"
  define obs where obs: "obs = observations (0 + 60000000000) (0 + 0) ?ps"
  obtain rep where rep: "wait_for_local_flash 0 60000000000 False (Inr []) 0 ?ps = Some rep" "\<not> rp_timed_out rep"
    by (simp add: wait_for_local_flash_def observe_socket_def observe_snapshot_def observed_at_def sample_pass_def sample_capture
        QUIET_AFTER_PRESENT_def POLL_INTERVAL_def settle_report_of_def Let_def snapshot_or_empty_def [of "Inr []"] capture_def)
  have times: "map ob_now obs = [1000, 400000000]" and now: "ob_now (obs ! 0) = 1000" "ob_now (obs ! 1) = 400000000" and len: "length obs = 2"
    by (simp_all add: obs observed_at_def sample_pass_def POLL_INTERVAL_def Let_def)
  have snap: "pass_snapshot (obs ! k) = [\<lparr>ds_name = ''mmcblk0'', ds_dev = [], ds_size = [], ds_partitions = []\<rparr>]" if "k < 2" for k
    using that by (auto simp: obs pass_snapshot_def observed_at_def sample_pass_def sample_capture Let_def less_Suc_eq numeral_2_eq_2)
  obtain k where k: "k < 2" "rp_disks rep = length (pass_snapshot (obs ! k))" "quiet_at False obs k"
      "QUIET_AFTER_PRESENT \<le> ob_now (obs ! k)"
    using wait_report [OF rep(1) obs] rep(2) len by auto
  then have "k = 1" using now by (cases "k = 0") (auto simp: QUIET_AFTER_PRESENT_def)
  then have "rp_disks rep = 1" "quiet_at False obs 1" using k snap [of 1] by simp_all
  with rep times show ?thesis by (intro exI [of _ rep] exI [of _ obs] conjI)
qed

end
