(* ===== verification/SortBy.thy ===== *)
theory SortBy
  imports Prelude "HOL-Library.Sorting_Algorithms" "HOL-Library.List_Lexorder" "HOL-Library.Char_ord"
begin

text \<open>
  Rust's \<open>Ordering\<close> and \<open>sort_by\<close>. An \<open>Ordering\<close> is the library's \<open>comp\<close>; \<open>cmp\<close> is
  \<open>Ord::cmp\<close> of a type with a linear order (text compares by bytes), \<open>then_with\<close> chains two
  comparisons. \<open>sort_by\<close> is a stable sort, given as insertion from the right. For a comparison
  function that satisfies the library's locale \<open>comparator\<close> it agrees with the library's sort,
  and its result depends on the input only through the order inside each class of equals; hence
  sorting the concatenation of batches does not depend on the order the batches arrive in, where
  no two batches share a class.
\<close>

section \<open>Comparisons\<close>

definition cmp :: "'a::linorder \<Rightarrow> 'a \<Rightarrow> comp" where
  "cmp a b = (if a < b then Less else if a = b then Equiv else Greater)"

definition then_with :: "comp \<Rightarrow> comp \<Rightarrow> comp" where
  "then_with a b = (case a of Equiv \<Rightarrow> b | _ \<Rightarrow> a)"

lemma cmp_iff [simp]:
  "cmp a b = Less \<longleftrightarrow> a < b" "cmp a b = Equiv \<longleftrightarrow> a = b" "cmp a b = Greater \<longleftrightarrow> b < a"
  by (auto simp: cmp_def)

lemma then_with_simps [simp]:
  "then_with Less c = Less" "then_with Equiv c = c" "then_with Greater c = Greater"
  by (simp_all add: then_with_def)

lemma then_with_Equiv [simp]: "then_with a b = Equiv \<longleftrightarrow> a = Equiv \<and> b = Equiv"
  by (cases a) simp_all

lemma then_with_Less: "then_with a b = Less \<longleftrightarrow> a = Less \<or> a = Equiv \<and> b = Less"
  by (cases a) simp_all

lemma then_with_Greater: "then_with a b = Greater \<longleftrightarrow> a = Greater \<or> a = Equiv \<and> b = Greater"
  by (cases a) simp_all

lemma comparator_cmp_of: "comparator (\<lambda>a b. cmp (f a) (f b :: 'k::linorder))"
  by unfold_locales auto

lemma comparator_cmp_dual: "comparator (\<lambda>a b. cmp (f b) (f a :: 'k::linorder))"
  by unfold_locales auto

lemma comparator_then_with:
  assumes c: "comparator c" and d: "comparator d"
  shows "comparator (\<lambda>x y. then_with (c x y) (d x y))"
proof
  show "then_with (c x x) (d x x) = Equiv" for x
    by (simp add: comparator.refl [OF c] comparator.refl [OF d])
  show "then_with (c x z) (d x z) = Equiv"
    if "then_with (c x y) (d x y) = Equiv" "then_with (c y z) (d y z) = Equiv" for x y z
    using that by (auto intro: comparator.trans_equiv [OF c] comparator.trans_equiv [OF d])
  show "then_with (c x z) (d x z) = Less"
    if "then_with (c x y) (d x y) = Less" "then_with (c y z) (d y z) = Less" for x y z
    using that unfolding then_with_Less
    by (metis comparator.trans_less [OF c] comparator.trans_less [OF d] comparator.trans_equiv [OF c]
        comparator.trans_equiv_less [OF c] comparator.trans_less_equiv [OF c])
  show "then_with (c y x) (d y x) = Greater \<longleftrightarrow> then_with (c x y) (d x y) = Less" for x y
    unfolding then_with_Less then_with_Greater
    by (simp add: comparator.greater_iff_sym_less [OF c] comparator.greater_iff_sym_less [OF d]
        comparator.sym [OF c])
qed

section \<open>Sorting\<close>

primrec insert_by :: "('a \<Rightarrow> 'a \<Rightarrow> comp) \<Rightarrow> 'a \<Rightarrow> 'a list \<Rightarrow> 'a list" where
  "insert_by c y [] = [y]"
| "insert_by c y (x # xs) = (if c y x \<noteq> Greater then y # x # xs else x # insert_by c y xs)"

definition sort_by :: "('a \<Rightarrow> 'a \<Rightarrow> comp) \<Rightarrow> 'a list \<Rightarrow> 'a list" where
  "sort_by c xs = foldr (insert_by c) xs []"

text \<open>\<open>sorted_by\<close>: no element is greater than a later one.\<close>

abbreviation sorted_by :: "('a \<Rightarrow> 'a \<Rightarrow> comp) \<Rightarrow> 'a list \<Rightarrow> bool" where
  "sorted_by c \<equiv> sorted_wrt (\<lambda>x y. c x y \<noteq> Greater)"

lemma insert_by_eq: "comparator c \<Longrightarrow> insert_by c y xs = insort (Abs_comparator c) y xs"
  by (induction xs) (simp_all add: Abs_comparator_inverse)

lemma sort_by_eq: "comparator c \<Longrightarrow> sort_by c xs = sort (Abs_comparator c) xs"
proof (induction xs)
  case Nil
  then show ?case by (simp add: sort_by_def)
next
  case (Cons x xs)
  then have "insert_by c x (sort_by c xs) = insort (Abs_comparator c) x (sort (Abs_comparator c) xs)"
    by (simp add: insert_by_eq)
  then show ?case by (simp add: sort_by_def)
qed

lemma mset_insert_by [simp]: "mset (insert_by c y xs) = add_mset y (mset xs)"
  by (induction xs) auto

lemma mset_sort_by [simp]: "mset (sort_by c xs) = mset xs"
  by (induction xs) (simp_all add: sort_by_def)

lemma set_sort_by [simp]: "set (sort_by c xs) = set xs"
  by (metis mset_sort_by set_mset_mset)

lemma sorted_insert_by:
  assumes c: "comparator c" and s: "sorted_by c xs"
  shows "sorted_by c (insert_by c y xs)"
  using s
proof (induction xs)
  case Nil
  then show ?case by simp
next
  case (Cons x xs)
  have set: "set (insert_by c y xs) = insert y (set xs)"
    by (metis mset_insert_by set_mset_add_mset_insert set_mset_mset)
  show ?case
  proof (cases "c y x = Greater")
    case True
    then have "c x y = Less" by (simp add: comparator.greater_iff_sym_less [OF c])
    then show ?thesis using True Cons set by auto
  next
    case False
    then have "c y z \<noteq> Greater" if "z \<in> set xs" for z
      using Cons.prems that comparator.trans_not_greater [OF c, of y x z] by simp
    then show ?thesis using False Cons.prems by simp
  qed
qed

lemma sorted_sort_by: "comparator c \<Longrightarrow> sorted_by c (sort_by c xs)"
  by (induction xs) (simp_all add: sort_by_def sorted_insert_by)

lemma sort_by_cong_classes:
  assumes c: "comparator c" and m: "mset xs = mset ys"
    and classes: "\<And>x. filter (\<lambda>y. c x y = Equiv) xs = filter (\<lambda>y. c x y = Equiv) ys"
  shows "sort_by c xs = sort_by c ys"
proof -
  let ?c = "Abs_comparator c"
  have "sort ?c xs = sort ?c ys"
  proof (rule sort_eqI)
    show "mset xs = mset (sort ?c ys)" by (simp add: m)
    show "stable_segment ?c x xs = stable_segment ?c x (sort ?c ys)" for x
      using classes [of x] stable_sort [of ?c x ys] c by (simp add: Abs_comparator_inverse)
    show "sorted ?c (sort ?c ys)" by simp
  qed
  then show ?thesis using c by (simp add: sort_by_eq)
qed

section \<open>Batches\<close>

lemma concat_one_batch:
  assumes m: "mset yss = mset zss" and one: "length (filter (\<lambda>ys. ys \<noteq> []) yss) \<le> 1"
  shows "concat yss = concat zss"
proof -
  have c: "concat xss = concat (filter (\<lambda>ys. ys \<noteq> []) xss)" for xss :: "'a list list"
    by (induction xss) auto
  have f: "mset (filter (\<lambda>ys. ys \<noteq> []) yss) = mset (filter (\<lambda>ys. ys \<noteq> []) zss)"
    by (simp add: m)
  have "filter (\<lambda>ys. ys \<noteq> []) yss = filter (\<lambda>ys. ys \<noteq> []) zss"
  proof (cases "filter (\<lambda>ys. ys \<noteq> []) yss")
    case Nil
    then show ?thesis using f by simp
  next
    case (Cons y rest)
    then have "filter (\<lambda>ys. ys \<noteq> []) yss = [y]" using one by (cases rest) auto
    moreover from this f have "{#y#} = mset (filter (\<lambda>ys. ys \<noteq> []) zss)" by simp
    then have "filter (\<lambda>ys. ys \<noteq> []) zss = [y]" by (simp only: mset_single_iff_right)
    ultimately show ?thesis by simp
  qed
  then show ?thesis using c by metis
qed

definition separate :: "('a \<Rightarrow> 'a \<Rightarrow> comp) \<Rightarrow> 'a list list \<Rightarrow> bool" where
  "separate c bs \<longleftrightarrow> sorted_wrt (\<lambda>as bs. \<forall>a \<in> set as. \<forall>b \<in> set bs. c a b \<noteq> Equiv) bs"

lemma separate_one_class:
  assumes c: "comparator c"
  shows "separate c bs \<Longrightarrow> length (filter (\<lambda>ys. ys \<noteq> []) (map (filter (\<lambda>y. c x y = Equiv)) bs)) \<le> 1"
proof (induction bs)
  case Nil
  then show ?case by simp
next
  case (Cons as bs)
  show ?case
  proof (cases "filter (\<lambda>y. c x y = Equiv) as = []")
    case True
    then show ?thesis using Cons by (simp add: separate_def)
  next
    case False
    then obtain a where a: "a \<in> set as" "c x a = Equiv" by (auto simp: filter_empty_conv)
    have "filter (\<lambda>y. c x y = Equiv) b = []" if "b \<in> set bs" for b
      using that a Cons.prems comparator.trans_equiv [OF c, of a x] comparator.sym [OF c, of x a]
      by (auto simp: separate_def filter_empty_conv)
    then have "filter (\<lambda>ys. ys \<noteq> []) (map (filter (\<lambda>y. c x y = Equiv)) bs) = []"
      by (simp add: filter_empty_conv)
    then show ?thesis by simp
  qed
qed

theorem sort_by_batches:
  assumes c: "comparator c" and sep: "separate c bs" and arrival: "mset bs = mset bs'"
  shows "sort_by c (concat bs) = sort_by c (concat bs')"
proof (rule sort_by_cong_classes [OF c])
  have "sum_list (map mset bs) = sum_mset (image_mset mset (mset bs))" for bs :: "'a list list"
    by (simp add: sum_mset_sum_list flip: mset_map)
  then show "mset (concat bs) = mset (concat bs')"
    by (simp add: mset_concat arrival)
  show "filter (\<lambda>y. c x y = Equiv) (concat bs) = filter (\<lambda>y. c x y = Equiv) (concat bs')" for x
  proof -
    let ?f = "filter (\<lambda>y. c x y = Equiv)"
    have "mset (map ?f bs) = mset (map ?f bs')" by (simp only: mset_map arrival)
    then have "concat (map ?f bs) = concat (map ?f bs')"
      by (rule concat_one_batch) (rule separate_one_class [OF c sep])
    then show ?thesis by (simp only: filter_concat)
  qed
qed

text \<open>
  Sorting after every batch, as a loop that reports its progress does, ends in the same list as
  sorting once.
\<close>

lemma filter_sort_by:
  assumes c: "comparator c"
  shows "filter (\<lambda>y. c x y = Equiv) (sort_by c xs) = filter (\<lambda>y. c x y = Equiv) xs"
  using stable_sort [of "Abs_comparator c" x xs] c
  by (simp add: sort_by_eq Abs_comparator_inverse)

lemma sort_by_absorb: "comparator c \<Longrightarrow> sort_by c (sort_by c xs @ ys) = sort_by c (xs @ ys)"
  by (rule sort_by_cong_classes) (simp_all add: filter_sort_by)

lemma sort_by_idem: "comparator c \<Longrightarrow> sort_by c (sort_by c xs) = sort_by c xs"
  using sort_by_absorb [of c xs "[]"] by simp

end
