(* ===== verification/BootPath.thy ===== *)
theory BootPath
  imports RustText SortBy
begin

text \<open>
  Paths as \<open>src/bootflow.rs\<close> uses them. A \<open>Path\<close> is its text; \<open>components\<close>, \<open>path_join\<close>,
  \<open>file_name\<close> and \<open>extension\<close> are the functions of \<open>std::path\<close> on Unix. \<open>resolve_boot_path\<close> is the
  one way from a path in a configuration file to a path below the mount point; what it accepts
  stays below it. The files the code looks at are the record \<open>file_system\<close>.
\<close>

section \<open>Paths\<close>

type_synonym path = string

text \<open>\<open>std::path::Component\<close>; a \<open>Prefix\<close> does not occur on Unix.\<close>

datatype component = RootDir | CurDir | ParentDir | Normal (normal_part: string)

text \<open>The derived order of the enum: by variant, then by the text of a \<open>Normal\<close> component.\<close>

definition component_rank :: "component \<Rightarrow> nat \<times> string" where
  "component_rank c =
     (case c of RootDir \<Rightarrow> (1, []) | CurDir \<Rightarrow> (2, []) | ParentDir \<Rightarrow> (3, []) | Normal s \<Rightarrow> (4, s))"

lemma component_rank_inject: "component_rank a = component_rank b \<longleftrightarrow> a = b"
  by (auto simp: component_rank_def split: component.splits)

instantiation component :: linorder
begin

definition less_eq_component :: "component \<Rightarrow> component \<Rightarrow> bool" where
  "a \<le> b \<longleftrightarrow> fst (component_rank a) < fst (component_rank b) \<or>
     fst (component_rank a) = fst (component_rank b) \<and> snd (component_rank a) \<le> snd (component_rank b)"

definition less_component :: "component \<Rightarrow> component \<Rightarrow> bool" where
  "a < b \<longleftrightarrow> a \<le> b \<and> \<not> b \<le> (a::component)"

instance
proof
  fix a b c :: component
  show "a < b \<longleftrightarrow> a \<le> b \<and> \<not> b \<le> a" by (simp add: less_component_def)
  show "a \<le> a" by (simp add: less_eq_component_def)
  show "a \<le> b \<Longrightarrow> b \<le> c \<Longrightarrow> a \<le> c" by (auto simp: less_eq_component_def)
  show "a \<le> b \<Longrightarrow> b \<le> a \<Longrightarrow> a = b"
    by (auto simp: less_eq_component_def prod_eq_iff simp flip: component_rank_inject)
  show "a \<le> b \<or> b \<le> a" by (auto simp: less_eq_component_def)
qed

end

definition slash :: char where
  "slash = CHR ''/''"

definition segment_component :: "string \<Rightarrow> component" where
  "segment_component s = (if s = ''..'' then ParentDir else Normal s)"

text \<open>
  Empty segments and \<open>.\<close> segments are dropped, but for a leading \<open>.\<close> of a relative path.
\<close>

definition is_absolute :: "path \<Rightarrow> bool" where
  "is_absolute p \<longleftrightarrow> (case p of [] \<Rightarrow> False | c # cs \<Rightarrow> c = slash)"

definition kept_segments :: "path \<Rightarrow> string list" where
  "kept_segments p = filter (\<lambda>s. s \<noteq> [] \<and> s \<noteq> ''.'') (split_by (\<lambda>c. c = slash) p)"

definition components :: "path \<Rightarrow> component list" where
  "components p =
     (if is_absolute p then [RootDir]
      else if hd (split_by (\<lambda>c. c = slash) p) = ''.'' then [CurDir]
      else []) @ map segment_component (kept_segments p)"

definition path_cmp :: "path \<Rightarrow> path \<Rightarrow> comp" where
  "path_cmp p q = cmp (components p) (components q)"

text \<open>\<open>Path::join\<close>, that is \<open>PathBuf::push\<close> on a copy.\<close>

definition path_join :: "path \<Rightarrow> path \<Rightarrow> path" where
  "path_join p q =
     (if is_absolute q then q
      else if p \<noteq> [] \<and> last p \<noteq> slash then p @ slash # q
      else p @ q)"

definition file_name :: "path \<Rightarrow> string option" where
  "file_name p =
     (case components p of [] \<Rightarrow> None
      | cs \<Rightarrow> (case last cs of Normal s \<Rightarrow> Some s | _ \<Rightarrow> None))"

text \<open>\<open>rsplit_once\<close> is \<open>split_once\<close> from the right.\<close>

definition rsplit_once :: "'a \<Rightarrow> 'a list \<Rightarrow> ('a list \<times> 'a list) option" where
  "rsplit_once z s = map_option (\<lambda>(r, l). (rev l, rev r)) (split_once z (rev s))"

definition extension :: "path \<Rightarrow> string option" where
  "extension p =
     (case file_name p of None \<Rightarrow> None
      | Some name \<Rightarrow>
          (case rsplit_once (CHR ''.'') name of None \<Rightarrow> None
           | Some (stem, ext) \<Rightarrow> if stem = [] then None else Some ext))"

section \<open>The file system\<close>

text \<open>
  \<open>read_to_string\<close> fails where the file is not UTF-8; \<open>read_dir\<close> gives the names of a directory,
  or the error of one entry.
\<close>

record file_system =
  fs_read_to_string :: "path \<Rightarrow> string io"
  fs_read :: "path \<Rightarrow> bytes io"
  fs_is_file :: "path \<Rightarrow> bool"
  fs_is_dir :: "path \<Rightarrow> bool"
  fs_exists :: "path \<Rightarrow> bool"
  fs_canonicalize :: "path \<Rightarrow> path io"
  fs_read_dir :: "path \<Rightarrow> string io list io"

section \<open>Paths from configuration files\<close>

text \<open>The loop of \<open>resolve_boot_path\<close> over the components, with the path built so far.\<close>

fun push_components :: "path \<Rightarrow> component list \<Rightarrow> path io" where
  "push_components relative [] = Inr relative"
| "push_components relative (Normal part # cs) = push_components (path_join relative part) cs"
| "push_components relative (CurDir # cs) = push_components relative cs"
| "push_components relative (RootDir # cs) = push_components relative cs"
| "push_components relative (ParentDir # cs) = invalid_data ''unsafe boot path''"

definition resolve_boot_path :: "path \<Rightarrow> string \<Rightarrow> path io" where
  "resolve_boot_path root value =
     (let value = trim value
      in if value = [] then invalid_data ''empty boot path''
         else bind_io (push_components [] (components (dropWhile (\<lambda>c. c = slash) value))) (\<lambda>relative.
           if relative = [] then invalid_data ''empty boot path''
           else Inr (path_join root relative)))"

text \<open>\<open>below root p\<close>: \<open>p\<close> is \<open>root\<close> followed by at least one component, all of them ordinary names.\<close>

definition below :: "path \<Rightarrow> path \<Rightarrow> bool" where
  "below root p \<longleftrightarrow>
     (let r = components root; q = components p
      in take (length r) q = r \<and> length r < length q \<and>
         list_all (\<lambda>c. case c of Normal s \<Rightarrow> True | _ \<Rightarrow> False) (drop (length r) q))"

section \<open>Lemmas on paths\<close>

definition plain_name :: "string \<Rightarrow> bool" where
  "plain_name s \<longleftrightarrow> s \<noteq> [] \<and> slash \<notin> set s \<and> s \<noteq> ''.'' \<and> s \<noteq> ''..''"

lemma below_iff:
  "below root p \<longleftrightarrow> (\<exists>names. names \<noteq> [] \<and> components p = components root @ map Normal names)"
proof
  assume b: "below root p"
  let ?r = "components root" and ?q = "components p"
  have "list_all (\<lambda>c. case c of Normal s \<Rightarrow> True | _ \<Rightarrow> False) cs \<Longrightarrow> \<exists>names. cs = map Normal names" for cs
  proof (induction cs)
    case (Cons c cs)
    then obtain names where "cs = map Normal names" by auto
    with Cons show ?case by (cases c) (auto intro: exI [of _ "normal_part c # names"])
  qed simp
  then obtain names where n: "drop (length ?r) ?q = map Normal names" using b by (auto simp: below_def Let_def)
  have "?q = ?r @ map Normal names"
    using b n by (metis append_take_drop_id below_def)
  moreover have "names \<noteq> []" using n b by (auto simp: below_def Let_def)
  ultimately show "\<exists>names. names \<noteq> [] \<and> ?q = ?r @ map Normal names" by blast
next
  assume "\<exists>names. names \<noteq> [] \<and> components p = components root @ map Normal names"
  then show "below root p" by (auto simp: below_def Let_def list_all_iff)
qed

lemma split_by_Cons_sep: "p z \<Longrightarrow> split_by p (z # xs) = [] # split_by p xs"
  by simp

lemma split_by_append: "p z \<Longrightarrow> split_by p (xs @ z # ys) = split_by p xs @ split_by p ys"
  by (induction xs) (auto split: list.splits)

lemma kept_append: "kept_segments (p @ slash # q) = kept_segments p @ kept_segments q"
  by (simp add: kept_segments_def split_by_append)

lemma kept_plain:
  assumes "plain_name s"
  shows "kept_segments s = [s]"
proof -
  have "split_by (\<lambda>c. c = slash) s = [s]"
    by (rule split_by_no_sep) (use assms in \<open>auto simp: plain_name_def\<close>)
  then show ?thesis using assms by (simp add: kept_segments_def plain_name_def)
qed

lemma kept_trailing: "p = r @ [slash] \<Longrightarrow> kept_segments (p @ q) = kept_segments p @ kept_segments q"
  using kept_append [of r q] kept_append [of r "[]"] by (simp add: kept_segments_def)

lemma hd_split_append: "hd (split_by p (xs @ z # ys)) = (if p z then hd (split_by p xs) else hd (split_by p (xs @ z # ys)))"
  by (simp add: split_by_append hd_append)

lemma kept_join:
  assumes "\<not> is_absolute q"
  shows "kept_segments (path_join p q) = kept_segments p @ kept_segments q"
proof (cases "p = []")
  case True
  then show ?thesis using assms by (simp add: path_join_def kept_segments_def)
next
  case False
  then show ?thesis
    using assms kept_append [of p q] kept_trailing [of p "butlast p" q]
    by (auto simp: path_join_def) (metis append_butlast_last_id)
qed

lemma absolute_join: "is_absolute p \<Longrightarrow> is_absolute (path_join p q)"
  by (auto simp: path_join_def is_absolute_def split: list.splits)

lemma components_join:
  assumes p: "is_absolute p" and q: "\<not> is_absolute q"
  shows "components (path_join p q) = components p @ map segment_component (kept_segments q)"
  using p absolute_join [OF p, of q] kept_join [OF q, of p] by (simp add: components_def)

lemma components_absolute: "is_absolute p \<Longrightarrow> components p = RootDir # map segment_component (kept_segments p)"
  by (simp add: components_def)

lemma kept_elem: "s \<in> set (kept_segments p) \<Longrightarrow> s \<noteq> [] \<and> slash \<notin> set s \<and> s \<noteq> ''.''"
  by (auto simp: kept_segments_def dest: split_by_elem)

lemma plain_not_absolute: "plain_name s \<Longrightarrow> \<not> is_absolute s"
  by (auto simp: plain_name_def is_absolute_def split: list.splits)

lemma segment_component_plain: "plain_name s \<Longrightarrow> segment_component s = Normal s"
  by (simp add: plain_name_def segment_component_def)

text \<open>The relative path the loop builds: the kept names, joined.\<close>

lemma push_components_kept:
  assumes "\<forall>s \<in> set names. s \<noteq> [] \<and> slash \<notin> set s \<and> s \<noteq> ''.''"
    and "relative = [] \<or> \<not> is_absolute relative"
  shows "push_components relative (map segment_component names) =
    (if ''..'' \<in> set names then invalid_data ''unsafe boot path'' else Inr (foldl path_join relative names))"
  using assms
proof (induction names arbitrary: relative)
  case Nil
  then show ?case by simp
next
  case (Cons s names)
  show ?case
  proof (cases "s = ''..''")
    case True
    then show ?thesis by (simp add: segment_component_def)
  next
    case False
    with Cons.prems have "plain_name s" by (simp add: plain_name_def)
    moreover have "\<not> is_absolute (path_join relative s)"
      using plain_not_absolute [OF \<open>plain_name s\<close>] Cons.prems(2)
      by (auto simp: path_join_def is_absolute_def split: list.splits)
    ultimately show ?thesis
      using Cons.IH [of "path_join relative s"] Cons.prems False by (auto simp: segment_component_plain)
  qed
qed

lemma foldl_join_kept:
  assumes "\<forall>s \<in> set names. plain_name s" and "relative = [] \<or> \<not> is_absolute relative"
  shows "kept_segments (foldl path_join relative names) = kept_segments relative @ names \<and>
    (foldl path_join relative names = [] \<or> \<not> is_absolute (foldl path_join relative names))"
  using assms
proof (induction names arbitrary: relative)
  case Nil
  then show ?case by simp
next
  case (Cons s names)
  then have s: "plain_name s" by simp
  have "\<not> is_absolute (path_join relative s)"
    using plain_not_absolute [OF s] Cons.prems(2)
    by (auto simp: path_join_def is_absolute_def split: list.splits)
  then show ?case
    using Cons.IH [of "path_join relative s"] Cons.prems kept_join [OF plain_not_absolute [OF s], of relative] kept_plain [OF s]
    by simp
qed

lemma components_stripped:
  assumes "v = dropWhile (\<lambda>c. c = slash) w"
  shows "\<exists>cs. components v = cs @ map segment_component (kept_segments v) \<and> (cs = [] \<or> cs = [CurDir])"
proof -
  have "\<not> is_absolute (dropWhile (\<lambda>c. c = slash) w)"
    by (induction w) (auto simp: is_absolute_def)
  then have "\<not> is_absolute v" using assms by simp
  then show ?thesis by (auto simp: components_def)
qed

lemma kept_dropWhile: "kept_segments (dropWhile (\<lambda>c. c = slash) w) = kept_segments w"
  by (induction w) (simp_all add: kept_segments_def)

text \<open>
  The exact result: an error where no name is left or one of them is \<open>..\<close>, and else the names
  below the root.
\<close>

lemma resolve_boot_path_eq:
  "resolve_boot_path root value =
     (let names = kept_segments (trim value)
      in if trim value = [] then invalid_data ''empty boot path''
         else if ''..'' \<in> set names then invalid_data ''unsafe boot path''
         else if names = [] then invalid_data ''empty boot path''
         else Inr (path_join root (foldl path_join [] names)))"
proof -
  let ?v = "dropWhile (\<lambda>c. c = slash) (trim value)"
  let ?names = "kept_segments (trim value)"
  obtain cs where cs: "components ?v = cs @ map segment_component ?names" "cs = [] \<or> cs = [CurDir]"
    using components_stripped [OF refl, of "trim value"] by (auto simp: kept_dropWhile)
  have elems: "\<forall>s \<in> set ?names. s \<noteq> [] \<and> slash \<notin> set s \<and> s \<noteq> ''.''" using kept_elem by blast
  have push: "push_components [] (components ?v) =
      (if ''..'' \<in> set ?names then invalid_data ''unsafe boot path'' else Inr (foldl path_join [] ?names))"
    using cs push_components_kept [OF elems, of "[]"] by auto
  have plain: "\<forall>s \<in> set ?names. plain_name s" if "''..'' \<notin> set ?names"
    using elems that by (auto simp: plain_name_def)
  have "foldl path_join [] ?names = [] \<longleftrightarrow> ?names = []" if "''..'' \<notin> set ?names"
    using foldl_join_kept [OF plain [OF that], of "[]"] that by (auto simp: kept_segments_def)
  then show ?thesis
    using push by (auto simp: resolve_boot_path_def Let_def)
qed

lemma resolve_boot_path_components:
  assumes r: "resolve_boot_path root value = Inr p" and abs: "is_absolute root"
  shows "components p = components root @ map Normal (kept_segments (trim value)) \<and>
    kept_segments (trim value) \<noteq> []"
proof -
  let ?names = "kept_segments (trim value)"
  from r have n: "''..'' \<notin> set ?names" "?names \<noteq> []" and p: "p = path_join root (foldl path_join [] ?names)"
    by (auto simp: resolve_boot_path_eq Let_def split: if_splits)
  have plain: "\<forall>s \<in> set ?names. plain_name s"
    using n kept_elem by (fastforce simp: plain_name_def)
  have k: "kept_segments (foldl path_join [] ?names) = ?names"
    and na: "\<not> is_absolute (foldl path_join [] ?names)"
    using foldl_join_kept [OF plain, of "[]"] by (auto simp: kept_segments_def is_absolute_def)
  have "map segment_component ?names = map Normal ?names"
    using plain by (simp add: segment_component_plain)
  then show ?thesis using components_join [OF abs na] k n p by simp
qed

lemma resolve_boot_path_below:
  "resolve_boot_path root value = Inr p \<Longrightarrow> is_absolute root \<Longrightarrow> below root p"
  using resolve_boot_path_components by (fastforce simp: below_iff)

end
