(* ===== verification/GrubVars.thy ===== *)
theory GrubVars
  imports BootPath
begin

text \<open>
  The GRUB variables of a boot partition (\<open>src/bootflow.rs\<close>): assignments in \<open>grub.cfg\<close> and
  \<open>grubenv\<close>, their quoting, the expansion of \<open>$name\<close> and \<open>${name}\<close> in boot entries, and the
  \<open>BlsContext\<close> with the entries directory and the preferred entry they select. A \<open>HashMap\<close> is a
  partial function.
\<close>

section \<open>Characters\<close>

definition is_ascii_digit :: "char \<Rightarrow> bool" where
  "is_ascii_digit c \<longleftrightarrow> (let n = of_char c :: nat in 48 \<le> n \<and> n \<le> 57)"

definition is_ascii_alphabetic :: "char \<Rightarrow> bool" where
  "is_ascii_alphabetic c \<longleftrightarrow> (let n = of_char c :: nat in 65 \<le> n \<and> n \<le> 90 \<or> 97 \<le> n \<and> n \<le> 122)"

definition is_ascii_alphanumeric :: "char \<Rightarrow> bool" where
  "is_ascii_alphanumeric c \<longleftrightarrow> is_ascii_alphabetic c \<or> is_ascii_digit c"

definition ascii_lower :: "char \<Rightarrow> char" where
  "ascii_lower c = (let n = of_char c :: nat in if 65 \<le> n \<and> n \<le> 90 then char_of (n + 32) else c)"

definition to_ascii_lowercase :: "string \<Rightarrow> string" where
  "to_ascii_lowercase s = map ascii_lower s"

section \<open>Assignments\<close>

definition is_grub_identifier :: "string \<Rightarrow> bool" where
  "is_grub_identifier value =
     (case value of [] \<Rightarrow> False
      | first # rest \<Rightarrow> (is_ascii_alphabetic first \<or> first = CHR ''_'') \<and>
          list_all (\<lambda>c. is_ascii_alphanumeric c \<or> c = CHR ''_'') rest)"

definition GRUB_VARIABLE_KEYS :: "string list" where
  "GRUB_VARIABLE_KEYS =
     [''blsdir'', ''kernelopts'', ''next_entry'', ''saved_entry'', ''tuned_initrd'', ''tuned_params'']"

definition GRUB_OPTIONAL_EMPTY_VARIABLES :: "string list" where
  "GRUB_OPTIONAL_EMPTY_VARIABLES = [''grub_users'', ''tuned_initrd'', ''tuned_params'']"

definition is_grub_variable_key :: "string \<Rightarrow> bool" where
  "is_grub_variable_key k \<longleftrightarrow> k \<in> set GRUB_VARIABLE_KEYS"

definition backslash :: char where
  "backslash = CHR 0x5C"

definition double_quote :: char where
  "double_quote = CHR 0x22"

definition single_quote :: char where
  "single_quote = CHR 0x27"

text \<open>The loop of \<open>parse_grub_value\<close> after an opening quote, up to the closing one.\<close>

fun grub_quoted :: "char \<Rightarrow> bool \<Rightarrow> string \<Rightarrow> string" where
  "grub_quoted quote escaped [] = []"
| "grub_quoted quote escaped (ch # chars) =
     (if escaped then ch # grub_quoted quote False chars
      else if ch = backslash then grub_quoted quote True chars
      else if ch = quote then []
      else ch # grub_quoted quote False chars)"

definition parse_grub_value :: "string \<Rightarrow> string" where
  "parse_grub_value value =
     (case value of [] \<Rightarrow> []
      | quote # chars \<Rightarrow>
          if quote = single_quote \<or> quote = double_quote then grub_quoted quote False chars
          else (case split_whitespace value of [] \<Rightarrow> [] | word # _ \<Rightarrow> word))"

definition is_comment :: "string \<Rightarrow> bool" where
  "is_comment line \<longleftrightarrow> starts_with ''#'' line"

definition parse_key_value_assignment :: "string \<Rightarrow> (string \<times> string) option" where
  "parse_key_value_assignment line =
     (if line = [] \<or> is_comment line then None
      else (case split_once (CHR ''='') line of None \<Rightarrow> None
            | Some (k, value) \<Rightarrow>
                (let k = trim k
                 in if \<not> is_grub_identifier k then None
                    else Some (k, parse_grub_value (trim value)))))"

definition grub_set_line :: "string \<Rightarrow> (string \<times> string) option" where
  "grub_set_line line =
     (let line = trim line
      in case strip_prefix ''set'' line of None \<Rightarrow> None
         | Some rest \<Rightarrow>
             if \<not> (case rest of [] \<Rightarrow> False | c # _ \<Rightarrow> is_space c) then None
             else parse_key_value_assignment (trim rest))"

definition parse_grub_set_assignments :: "string \<Rightarrow> (string \<times> string) list" where
  "parse_grub_set_assignments text = List.map_filter grub_set_line (text_lines text)"

definition grubenv_line :: "string \<Rightarrow> (string \<times> string) option" where
  "grubenv_line line =
     (let line = trim line
      in if line = [] \<or> is_comment line then None
         else (case split_once (CHR ''='') line of None \<Rightarrow> None
               | Some (k, value) \<Rightarrow>
                   (let k = trim k
                    in if \<not> is_grub_identifier k then None else Some (k, trim value))))"

definition parse_grubenv_assignments :: "string \<Rightarrow> (string \<times> string) list" where
  "parse_grubenv_assignments text = List.map_filter grubenv_line (text_lines text)"

section \<open>Expansion\<close>

text \<open>
  What \<open>push_grub_variable\<close> appends: the value, nothing for an optional variable that is not set,
  and the token itself for any other.
\<close>

definition push_grub_variable :: "(string \<rightharpoonup> string) \<Rightarrow> string \<Rightarrow> string \<Rightarrow> string" where
  "push_grub_variable variables original_token name =
     (case variables name of Some value \<Rightarrow> value
      | None \<Rightarrow> if name \<notin> set GRUB_OPTIONAL_EMPTY_VARIABLES then original_token else [])"

definition dollar :: char where
  "dollar = CHR ''$''"

definition open_brace :: char where
  "open_brace = CHR 0x7B"

definition close_brace :: char where
  "close_brace = CHR 0x7D"

definition starts_name :: "char \<Rightarrow> bool" where
  "starts_name c \<longleftrightarrow> is_ascii_alphabetic c \<or> c = CHR ''_''"

definition in_name :: "char \<Rightarrow> bool" where
  "in_name c \<longleftrightarrow> is_ascii_alphanumeric c \<or> c = CHR ''_''"

lemma split_once_shorter: "split_once z s = Some (l, r) \<Longrightarrow> length r < length s"
  by (simp add: split_once_Some)

text \<open>The loop over the characters; its argument is what the iterator has left.\<close>

function expand_grub_vars :: "(string \<rightharpoonup> string) \<Rightarrow> string \<Rightarrow> string" where
  "expand_grub_vars variables value =
     (case value of [] \<Rightarrow> []
      | ch # chars \<Rightarrow>
          if ch \<noteq> dollar then ch # expand_grub_vars variables chars
          else (case chars of [] \<Rightarrow> [dollar]
           | nxt # chars' \<Rightarrow>
               if nxt = open_brace then
                 (case split_once close_brace chars' of
                    None \<Rightarrow> dollar # open_brace # chars'
                  | Some (name, rest) \<Rightarrow>
                      push_grub_variable variables (dollar # open_brace # name @ [close_brace]) name @
                      expand_grub_vars variables rest)
               else if \<not> starts_name nxt then dollar # expand_grub_vars variables chars
               else (let name = nxt # takeWhile in_name chars'
                     in push_grub_variable variables (dollar # name) name @
                        expand_grub_vars variables (dropWhile in_name chars'))))"
  by pat_completeness auto
termination
  by (relation "measure (\<lambda>(variables, value). length value)")
    (auto dest!: split_once_shorter simp: less_Suc_eq_le le_SucI length_dropWhile_le)

declare expand_grub_vars.simps [simp del]

section \<open>The context of a boot partition\<close>

record bls_context =
  bc_variables :: "string \<rightharpoonup> string"

definition GRUB_CFG_PATHS :: "path list" where
  "GRUB_CFG_PATHS = [''grub2/grub.cfg'', ''EFI/fedora/grub.cfg'', ''efi/EFI/fedora/grub.cfg'']"

definition GRUB_ENV_PATHS :: "path list" where
  "GRUB_ENV_PATHS = [''grub2/grubenv'', ''EFI/fedora/grubenv'', ''efi/EFI/fedora/grubenv'']"

definition DEFAULT_BLS_DIR :: path where
  "DEFAULT_BLS_DIR = ''loader/entries''"

definition bls_expand :: "bls_context \<Rightarrow> string \<Rightarrow> string" where
  "bls_expand ctx value = expand_grub_vars (bc_variables ctx) value"

definition bls_assign :: "bls_context \<Rightarrow> string \<times> string \<Rightarrow> bls_context" where
  "bls_assign ctx kv =
     (case kv of (k, value) \<Rightarrow>
        if \<not> is_grub_variable_key k then ctx
        else ctx\<lparr>bc_variables := (bc_variables ctx)(k \<mapsto> bls_expand ctx value)\<rparr>)"

definition load_assignments ::
  "file_system \<Rightarrow> path \<Rightarrow> (string \<Rightarrow> (string \<times> string) list) \<Rightarrow> bls_context \<Rightarrow> path \<Rightarrow> bls_context" where
  "load_assignments fs root parse ctx relative =
     (case fs_read_to_string fs (path_join root relative) of
        Inl _ \<Rightarrow> ctx
      | Inr text \<Rightarrow> foldl bls_assign ctx (parse text))"

definition from_boot_root :: "file_system \<Rightarrow> path \<Rightarrow> bls_context" where
  "from_boot_root fs root =
     (let ctx = foldl (load_assignments fs root parse_grub_set_assignments)
        \<lparr>bc_variables = Map.empty\<rparr> GRUB_CFG_PATHS
      in foldl (load_assignments fs root parse_grubenv_assignments) ctx GRUB_ENV_PATHS)"

definition filter_nonempty :: "string option \<Rightarrow> string option" where
  "filter_nonempty v = (case v of None \<Rightarrow> None | Some s \<Rightarrow> if s = [] then None else Some s)"

definition bls_entries_dir :: "bls_context \<Rightarrow> path \<Rightarrow> path io" where
  "bls_entries_dir ctx root =
     (let blsdir = (case filter_nonempty (bc_variables ctx ''blsdir'') of
                      None \<Rightarrow> DEFAULT_BLS_DIR | Some d \<Rightarrow> d)
      in resolve_boot_path root (bls_expand ctx blsdir))"

definition preferred_entry :: "bls_context \<Rightarrow> string option" where
  "preferred_entry ctx =
     filter_nonempty
       (case filter_nonempty (bc_variables ctx ''next_entry'') of
          Some e \<Rightarrow> Some e
        | None \<Rightarrow> bc_variables ctx ''saved_entry'')"

section \<open>Properties of the expansion\<close>

text \<open>
  What expansion means, without a scan: a text is a sequence of tokens, \<open>${name}\<close>, \<open>$name\<close>, an
  opening \<open>${\<close> that is never closed with all that follows it, and single characters for the rest.
  Each token has its text and, under an assignment of the variables, its value: what the variable
  holds, nothing for one of the three optional variables that is not set, and the text of the token
  for any other.
\<close>

datatype grub_token =
    Literal char
  | Braced string
  | Named string
  | Unclosed string

fun token_text :: "grub_token \<Rightarrow> string" where
  "token_text (Literal c) = [c]"
| "token_text (Braced name) = ''${'' @ name @ ''}''"
| "token_text (Named name) = ''$'' @ name"
| "token_text (Unclosed s) = ''${'' @ s"

abbreviation tokens_text :: "grub_token list \<Rightarrow> string" where
  "tokens_text ts \<equiv> concat (map token_text ts)"

definition variable_value :: "(string \<rightharpoonup> string) \<Rightarrow> string \<Rightarrow> string \<Rightarrow> string" where
  "variable_value variables name unset =
     (case variables name of
        Some v \<Rightarrow> v
      | None \<Rightarrow> if name = ''grub_users'' \<or> name = ''tuned_initrd'' \<or> name = ''tuned_params'' then [] else unset)"

fun token_value :: "(string \<rightharpoonup> string) \<Rightarrow> grub_token \<Rightarrow> string" where
  "token_value variables (Literal c) = [c]"
| "token_value variables (Braced name) = variable_value variables name (''${'' @ name @ ''}'')"
| "token_value variables (Named name) = variable_value variables name (''$'' @ name)"
| "token_value variables (Unclosed s) = ''${'' @ s"

text \<open>
  The tokens are cut where they must be: a dollar sign stands alone only where neither a brace nor
  the first character of a name follows, a name in braces ends at the first closing brace, and a
  bare name is as long as it can be.
\<close>

definition name_first :: "char set" where
  "name_first = set ''ABCDEFGHIJKLMNOPQRSTUVWXYZabcdefghijklmnopqrstuvwxyz_''"

definition name_more :: "char set" where
  "name_more = name_first \<union> set ''0123456789''"

definition begins_in :: "char set \<Rightarrow> string \<Rightarrow> bool" where
  "begins_in S s \<longleftrightarrow> s \<noteq> [] \<and> hd s \<in> S"

fun well_cut :: "grub_token list \<Rightarrow> bool" where
  "well_cut [] = True"
| "well_cut (Literal c # ts) \<longleftrightarrow> well_cut ts \<and> \<not> (c = CHR ''$'' \<and> begins_in (insert (CHR ''{'') name_first) (tokens_text ts))"
| "well_cut (Braced name # ts) \<longleftrightarrow> well_cut ts \<and> CHR ''}'' \<notin> set name"
| "well_cut (Named name # ts) \<longleftrightarrow> well_cut ts \<and> begins_in name_first name \<and> set name \<subseteq> name_more \<and> \<not> begins_in name_more (tokens_text ts)"
| "well_cut (Unclosed s # ts) \<longleftrightarrow> ts = [] \<and> CHR ''}'' \<notin> set s"

text \<open>A function that cuts a text, for the proofs.\<close>

function grub_tokens :: "string \<Rightarrow> grub_token list" where
  "grub_tokens s =
     (case s of [] \<Rightarrow> []
      | c # cs \<Rightarrow>
          if c \<noteq> dollar \<or> cs = [] then Literal c # grub_tokens cs
          else if hd cs = open_brace then
            (case split_once close_brace (tl cs) of None \<Rightarrow> [Unclosed (tl cs)]
             | Some (name, rest) \<Rightarrow> Braced name # grub_tokens rest)
          else if starts_name (hd cs) then
            Named (hd cs # takeWhile in_name (tl cs)) # grub_tokens (dropWhile in_name (tl cs))
          else Literal dollar # grub_tokens cs)"
  by pat_completeness auto
termination
  by (relation "measure length")
    (auto dest!: split_once_shorter simp: less_Suc_eq_le le_SucI length_dropWhile_le neq_Nil_conv)

declare grub_tokens.simps [simp del]

lemma grub_tokens_cases:
  "grub_tokens [] = []"
  "c \<noteq> dollar \<Longrightarrow> grub_tokens (c # s) = Literal c # grub_tokens s"
  "grub_tokens [dollar] = [Literal dollar]"
  "split_once close_brace s = None \<Longrightarrow> grub_tokens (dollar # open_brace # s) = [Unclosed s]"
  "split_once close_brace s = Some (name, rest) \<Longrightarrow>
     grub_tokens (dollar # open_brace # s) = Braced name # grub_tokens rest"
  "c \<noteq> open_brace \<Longrightarrow> \<not> starts_name c \<Longrightarrow>
     grub_tokens (dollar # c # s) = Literal dollar # grub_tokens (c # s)"
  "c \<noteq> open_brace \<Longrightarrow> starts_name c \<Longrightarrow>
     grub_tokens (dollar # c # s) = Named (c # takeWhile in_name s) # grub_tokens (dropWhile in_name s)"
  by (simp_all add: grub_tokens.simps [of "[]"] grub_tokens.simps [of "_ # _"])

text \<open>The cases of one step of the scan.\<close>

lemma grub_cases:
  obtains (end_of_text) "s = []"
  | (other) c cs where "s = c # cs" "c \<noteq> dollar"
  | (last) "s = [dollar]"
  | (unclosed) cs where "s = dollar # open_brace # cs" "split_once close_brace cs = None"
  | (braced) cs name rest where "s = dollar # open_brace # cs" "split_once close_brace cs = Some (name, rest)"
  | (literal) c cs where "s = dollar # c # cs" "c \<noteq> open_brace" "\<not> starts_name c"
  | (named) c cs where "s = dollar # c # cs" "c \<noteq> open_brace" "starts_name c"
proof -
  consider "s = []" | c where "s = [c]" | c d cs where "s = c # d # cs" by (metis list.exhaust)
  then show thesis
  proof cases
    case 3
    then show thesis
      using that(2) [of c "d # cs"] that(4) [of cs] that(5) [of cs] that(6) [of d cs] that(7) [of d cs]
      by (cases "split_once close_brace cs") fastforce+
  qed (use that in auto)
qed

lemma starts_name_iff: "starts_name c \<longleftrightarrow> c \<in> name_first"
proof -
  have "\<forall>c. starts_name c \<longleftrightarrow> c \<in> name_first" by code_simp
  then show ?thesis ..
qed

lemma in_name_iff: "in_name c \<longleftrightarrow> c \<in> name_more"
proof -
  have "\<forall>c. in_name c \<longleftrightarrow> c \<in> name_more" by code_simp
  then show ?thesis ..
qed

lemma dollar_not_name: "\<not> starts_name dollar" "dollar \<noteq> open_brace" "\<not> starts_name open_brace"
  by (simp_all add: starts_name_def is_ascii_alphabetic_def dollar_def open_brace_def)

lemma grub_chars: "CHR ''$'' = dollar" "CHR ''{'' = open_brace" "CHR ''}'' = close_brace"
  by (simp_all add: dollar_def open_brace_def close_brace_def)

lemma push_is_value: "push_grub_variable variables unset name = variable_value variables name unset"
  by (simp add: push_grub_variable_def variable_value_def GRUB_OPTIONAL_EMPTY_VARIABLES_def split: option.splits)

lemma grub_tokens_text: "concat (map token_text (grub_tokens s)) = s"
proof (induction s rule: measure_induct_rule [of length])
  case (less s)
  show ?case
  proof (cases s rule: grub_cases)
    case (braced cs name rest)
    then have "cs = name @ close_brace # rest" by (simp add: split_once_Some)
    then show ?thesis using braced less [of rest] by (simp add: grub_tokens_cases grub_chars)
  next
    case (named c cs)
    then show ?thesis
      using less [of "dropWhile in_name cs"] by (simp add: grub_tokens_cases grub_chars less_Suc_eq_le le_SucI length_dropWhile_le)
  qed (use less in \<open>auto simp: grub_tokens_cases grub_chars\<close>)
qed

text \<open>The cut of a text is well cut, and there is no other.\<close>

lemma begins_in_takeWhile: "\<not> begins_in (Collect P) (dropWhile P s)"
  using hd_dropWhile [of P s] by (auto simp: begins_in_def)

lemma name_sets: "name_first = Collect starts_name" "name_more = Collect in_name"
  using starts_name_iff in_name_iff by auto

lemma starts_in_name: "starts_name c \<Longrightarrow> in_name c"
  by (auto simp: starts_name_def in_name_def is_ascii_alphanumeric_def)

lemma grub_tokens_well_cut: "well_cut (grub_tokens s)"
proof (induction s rule: measure_induct_rule [of length])
  case (less s)
  show ?case
  proof (cases s rule: grub_cases)
    case (unclosed cs)
    then show ?thesis by (simp add: grub_tokens_cases grub_chars split_once_None)
  next
    case (braced cs name rest)
    then have "cs = name @ close_brace # rest" "close_brace \<notin> set name" by (simp_all add: split_once_Some)
    then show ?thesis using braced less [of rest] by (simp add: grub_tokens_cases grub_chars)
  next
    case (literal c cs)
    then show ?thesis
      using less [of "c # cs"] by (simp add: grub_tokens_cases grub_chars grub_tokens_text begins_in_def name_sets)
  next
    case (named c cs)
    then have "set (c # takeWhile in_name cs) \<subseteq> Collect in_name" using starts_in_name by (auto dest: set_takeWhileD)
    then show ?thesis
      using named less [of "dropWhile in_name cs"] begins_in_takeWhile [of in_name cs]
      by (simp add: grub_tokens_cases less_Suc_eq_le le_SucI length_dropWhile_le grub_tokens_text begins_in_def name_sets)
  qed (use less in \<open>auto simp: grub_tokens_cases grub_chars begins_in_def\<close>)
qed

lemma takeWhile_exact:
  "set xs \<subseteq> Collect P \<Longrightarrow> \<not> begins_in (Collect P) ys \<Longrightarrow> takeWhile P (xs @ ys) = xs \<and> dropWhile P (xs @ ys) = ys"
  by (induction xs) (cases ys, auto simp: begins_in_def)

lemma grub_tokens_unique: "well_cut ts \<Longrightarrow> grub_tokens (tokens_text ts) = ts"
proof (induction ts)
  case (Cons t ts)
  show ?case
  proof (cases t)
    case (Literal c)
    show ?thesis
    proof (cases "c = dollar")
      case True
      then show ?thesis
        using Cons Literal
        by (cases "tokens_text ts") (auto simp: grub_chars begins_in_def name_sets grub_tokens_cases)
    qed (use Cons Literal in \<open>simp add: grub_tokens_cases\<close>)
  next
    case (Braced name)
    then have "split_once close_brace (name @ close_brace # tokens_text ts) = Some (name, tokens_text ts)"
      using Cons.prems by (simp add: split_once_Some grub_chars)
    then show ?thesis using Cons Braced by (simp add: grub_chars grub_tokens_cases)
  next
    case (Named name)
    then obtain c cs where name: "name = c # cs" "starts_name c" "set cs \<subseteq> Collect in_name" "\<not> begins_in (Collect in_name) (tokens_text ts)"
      using Cons.prems by (cases name) (auto simp: begins_in_def name_sets)
    moreover have "c \<noteq> open_brace" using name(2) dollar_not_name by auto
    ultimately show ?thesis
      using Cons Named takeWhile_exact [OF name(3,4)] by (simp add: grub_chars grub_tokens_cases)
  next
    case (Unclosed s)
    then show ?thesis using Cons.prems by (simp add: grub_chars grub_tokens_cases split_once_None)
  qed
qed (simp add: grub_tokens_cases)

lemma expand_grub_vars_tokens:
  "expand_grub_vars variables s = concat (map (token_value variables) (grub_tokens s))"
proof (induction s rule: measure_induct_rule [of length])
  case (less s)
  show ?case
  proof (cases s rule: grub_cases)
    case (braced cs name rest)
    then show ?thesis using less [of rest] split_once_shorter [of close_brace cs name rest]
      by (subst expand_grub_vars.simps) (simp add: grub_tokens_cases grub_chars push_is_value)
  next
    case (named c cs)
    then show ?thesis
      using less [of "dropWhile in_name cs"]
      by (subst expand_grub_vars.simps)
        (simp add: grub_tokens_cases grub_chars push_is_value less_Suc_eq_le le_SucI length_dropWhile_le Let_def)
  qed (use less in \<open>subst expand_grub_vars.simps, auto simp: grub_tokens_cases grub_chars dollar_not_name\<close>)+
qed

text \<open>What a variable's value holds is not looked at again, and text without a dollar sign stays.\<close>

lemma grub_tokens_no_dollar: "dollar \<notin> set s \<Longrightarrow> grub_tokens s = map Literal s"
  by (induction s) (auto simp: grub_tokens_cases)

lemma concat_map_single: "concat (map (\<lambda>c. [c]) s) = s"
  by (induction s) simp_all

lemma expand_grub_vars_plain: "dollar \<notin> set s \<Longrightarrow> expand_grub_vars variables s = s"
  by (simp add: expand_grub_vars_tokens grub_tokens_no_dollar concat_map_single comp_def)

section \<open>Properties of the assignments\<close>

text \<open>How a value is written between double quotes.\<close>

definition grub_escape :: "string \<Rightarrow> string" where
  "grub_escape s = concat (map (\<lambda>c. if c = backslash \<or> c = double_quote then [backslash, c] else [c]) s)"

lemma grub_quoted_escape: "grub_quoted double_quote False (grub_escape s @ double_quote # rest) = s"
proof (induction s)
  case Nil
  then show ?case by (simp add: grub_escape_def double_quote_def backslash_def)
next
  case (Cons c s)
  then show ?case by (auto simp: grub_escape_def)
qed

lemma trim_id:
  assumes "s \<noteq> []" "\<not> is_space (hd s)" "\<not> is_space (last s)"
  shows "trim s = s"
proof -
  have "dropWhile is_space xs = xs" if "xs \<noteq> []" "\<not> is_space (hd xs)" for xs
    using that by (cases xs) simp_all
  from this [of s] this [of "rev s"] show ?thesis
    using assms by (simp add: trim_def trim_start_def trim_end_def hd_rev)
qed

lemma identifier_chars:
  assumes "is_grub_identifier s"
  shows "s \<noteq> []" "starts_name (hd s)" "\<forall>c \<in> set s. in_name c"
  using assms by (auto simp: is_grub_identifier_def starts_name_def in_name_def is_ascii_alphanumeric_def list_all_iff split: list.splits)

lemma in_name_not: "in_name c \<Longrightarrow> \<not> is_space c \<and> c \<noteq> CHR ''='' \<and> c \<noteq> CHR ''#'' \<and> c \<noteq> newline"
  by (auto simp: in_name_def is_ascii_alphanumeric_def is_ascii_alphabetic_def is_ascii_digit_def is_space_def newline_def Let_def)

lemma identifier_trim: "is_grub_identifier s \<Longrightarrow> trim s = s"
  using identifier_chars [of s] in_name_not by (metis hd_in_set last_in_set trim_id)

lemma grub_set_line_quoted:
  assumes k: "is_grub_identifier k"
  shows "grub_set_line (''set '' @ k @ ''='' @ double_quote # grub_escape v @ [double_quote]) = Some (k, v)"
proof -
  let ?q = "double_quote # grub_escape v @ [double_quote]"
  have q: "\<not> is_space double_quote" "\<not> is_space (CHR ''s'')" "is_space (CHR '' '')"
    by (simp_all add: is_space_def double_quote_def)
  obtain c ks where ks: "k = c # ks" using identifier_chars(1) [OF k] by (cases k) auto
  then have c: "in_name c" using identifier_chars(3) [OF k] by simp
  have "trim (''set '' @ k @ ''='' @ ?q) = ''set '' @ k @ ''='' @ ?q" by (rule trim_id) (simp_all add: q)
  moreover have "trim ('' '' @ k @ ''='' @ ?q) = k @ ''='' @ ?q"
    using trim_id [of "k @ ''='' @ ?q"] q in_name_not [OF c] ks by (simp add: trim_def trim_start_def)
  moreover have "trim ?q = ?q" by (rule trim_id) (simp_all add: q)
  moreover have "split_once (CHR ''='') (k @ ''='' @ ?q) = Some (k, ?q)"
    using identifier_chars(3) [OF k] in_name_not by (auto simp: split_once_Some)
  moreover have "parse_grub_value ?q = v"
    using grub_quoted_escape [of v "[]"] by (simp add: parse_grub_value_def)
  moreover have "\<not> is_comment (k @ ''='' @ ?q)"
    using in_name_not [OF c] ks by (auto simp: is_comment_def starts_with_iff)
  ultimately show ?thesis
    using k q ks by (simp add: grub_set_line_def parse_key_value_assignment_def identifier_trim)
qed

section \<open>Properties of the context\<close>

lemma dom_bls_assign: "dom (bc_variables (bls_assign ctx kv)) \<subseteq> dom (bc_variables ctx) \<union> set GRUB_VARIABLE_KEYS"
  by (auto simp: bls_assign_def is_grub_variable_key_def split: prod.splits if_splits)

lemma dom_load_assignments:
  assumes "dom (bc_variables ctx) \<subseteq> set GRUB_VARIABLE_KEYS"
  shows "dom (bc_variables (load_assignments fs root parse ctx relative)) \<subseteq> set GRUB_VARIABLE_KEYS"
proof -
  have "dom (bc_variables (foldl bls_assign ctx kvs)) \<subseteq> set GRUB_VARIABLE_KEYS" for kvs
    using assms
  proof (induction kvs arbitrary: ctx)
    case (Cons kv kvs)
    show ?case using Cons.IH [of "bls_assign ctx kv"] Cons.prems dom_bls_assign [of ctx kv] by fastforce
  qed simp
  then show ?thesis using assms by (simp add: load_assignments_def split: sum.splits)
qed

lemma dom_from_boot_root: "dom (bc_variables (from_boot_root fs root)) \<subseteq> set GRUB_VARIABLE_KEYS"
  by (simp only: from_boot_root_def Let_def GRUB_CFG_PATHS_def GRUB_ENV_PATHS_def foldl_Cons foldl_Nil)
    (intro dom_load_assignments, simp)

lemma bls_entries_dir_below: "bls_entries_dir ctx root = Inr d \<Longrightarrow> is_absolute root \<Longrightarrow> below root d"
  by (auto simp: bls_entries_dir_def Let_def intro: resolve_boot_path_below)

lemma preferred_entry_nonempty: "preferred_entry ctx = Some e \<Longrightarrow> e \<noteq> []"
  by (auto simp: preferred_entry_def filter_nonempty_def split: option.splits if_splits)

section \<open>Properties\<close>

text \<open>
  C38: expansion is substitution token by token. Every text is cut into tokens in exactly one way,
  by a rule that does not look at the variables, and the expansion puts for each variable token
  the value of its variable, nothing where it is an optional one that is not set, and the token
  itself for any other that is not set; everything else stays, and a value is not expanded again.
\<close>

theorem expand_grub_vars_substitutes:
  "(\<exists>!ts. well_cut ts \<and> concat (map token_text ts) = s) \<and>
   (\<exists>ts. well_cut ts \<and> concat (map token_text ts) = s \<and>
      expand_grub_vars variables s = concat (map (token_value variables) ts))"
proof -
  have "well_cut (grub_tokens s) \<and> tokens_text (grub_tokens s) = s"
    by (simp add: grub_tokens_well_cut grub_tokens_text)
  moreover have "ts = grub_tokens s" if "well_cut ts" "tokens_text ts = s" for ts
    using grub_tokens_unique that by auto
  ultimately show ?thesis using expand_grub_vars_tokens by blast
qed

end
