(* ===== verification/BootEntry.thy ===== *)
theory BootEntry
  imports GrubVars
begin

text \<open>
  Boot entries and boot partition candidates of \<open>src/bootflow.rs\<close>, the orders they are sorted
  by, and the payload paths an entry names.
\<close>

section \<open>Data\<close>

datatype boot_partition_role = Xbootldr | Esp | Nested

definition role_priority :: "boot_partition_role \<Rightarrow> nat" where
  "role_priority r = (case r of Xbootldr \<Rightarrow> 0 | Esp \<Rightarrow> 1 | Nested \<Rightarrow> 2)"

definition role_label :: "boot_partition_role \<Rightarrow> string" where
  "role_label r = (case r of Xbootldr \<Rightarrow> ''xbootldr'' | Esp \<Rightarrow> ''esp'' | Nested \<Rightarrow> ''nested'')"

lemma role_priority_inject: "role_priority r = role_priority s \<longleftrightarrow> r = s"
  by (simp add: role_priority_def split: boot_partition_role.splits)

lemma role_label_inject: "role_label r = role_label s \<longleftrightarrow> r = s"
  by (simp add: role_label_def split: boot_partition_role.splits)

record boot_entry =
  be_id :: string
  be_title :: "string option"
  be_version :: "string option"
  be_architecture :: "string option"
  be_source :: path
  be_role :: boot_partition_role
  be_disk :: string
  be_partition :: string
  be_preferred :: bool
  be_linux :: path
  be_initrds :: "path list"
  be_dtb :: "path option"
  be_options :: "string list"
  be_boot_order :: nat

record partition_candidate =
  bp_disk :: string
  bp_partition :: string
  bp_partno :: nat
  bp_role :: boot_partition_role
  bp_dev_path :: path
  bp_removable :: bool

record mounted_partition =
  mp_root :: path
  mp_fstype :: string

section \<open>Entries\<close>

definition be_cmdline :: "boot_entry \<Rightarrow> string" where
  "be_cmdline e = join_with '' '' (be_options e)"

definition is_directly_bootable :: "boot_entry \<Rightarrow> bool" where
  "is_directly_bootable e \<longleftrightarrow> \<not> list_ex (starts_with ''$'') (split_whitespace (be_cmdline e))"

text \<open>The files an entry opens when it is started.\<close>

definition payload_paths :: "boot_entry \<Rightarrow> path list" where
  "payload_paths e = be_linux e # be_initrds e @ (case be_dtb e of None \<Rightarrow> [] | Some d \<Rightarrow> [d])"

section \<open>Orders\<close>

definition compare_partition_candidates :: "partition_candidate \<Rightarrow> partition_candidate \<Rightarrow> comp" where
  "compare_partition_candidates left right =
     then_with (then_with (then_with
       (cmp (role_priority (bp_role left)) (role_priority (bp_role right)))
       (cmp (bp_removable left) (bp_removable right)))
       (cmp (bp_disk left) (bp_disk right)))
       (cmp (bp_partno left) (bp_partno right))"

definition compare_boot_entries :: "boot_entry \<Rightarrow> boot_entry \<Rightarrow> comp" where
  "compare_boot_entries left right =
     then_with (then_with (then_with (then_with (then_with (then_with
       (cmp (role_priority (be_role left)) (role_priority (be_role right)))
       (cmp (be_preferred right) (be_preferred left)))
       (cmp (be_disk left) (be_disk right)))
       (cmp (be_partition left) (be_partition right)))
       (cmp (be_boot_order left) (be_boot_order right)))
       (cmp (be_id right) (be_id left)))
       (path_cmp (be_source left) (be_source right))"

interpretation partition_order: comparator compare_partition_candidates
  unfolding compare_partition_candidates_def
  by (intro comparator_then_with comparator_cmp_of)

interpretation entry_order: comparator compare_boot_entries
  unfolding compare_boot_entries_def path_cmp_def
  by (intro comparator_then_with comparator_cmp_of comparator_cmp_dual)

lemma compare_partition_candidates_Equiv:
  "compare_partition_candidates p q = Equiv \<longleftrightarrow>
     bp_role p = bp_role q \<and> bp_removable p = bp_removable q \<and> bp_disk p = bp_disk q \<and> bp_partno p = bp_partno q"
  by (auto simp: compare_partition_candidates_def role_priority_inject)

lemma compare_boot_entries_Equiv:
  "compare_boot_entries d e = Equiv \<longleftrightarrow>
     be_role d = be_role e \<and> be_preferred d = be_preferred e \<and> be_disk d = be_disk e \<and>
     be_partition d = be_partition e \<and> be_boot_order d = be_boot_order e \<and> be_id d = be_id e \<and>
     components (be_source d) = components (be_source e)"
  by (auto simp: compare_boot_entries_def path_cmp_def role_priority_inject)

section \<open>Payload paths\<close>

text \<open>
  The loop over the initrds of an entry: every path is resolved and checked in turn, and a missing
  file drops the entry.
\<close>

fun resolve_initrds :: "file_system \<Rightarrow> path \<Rightarrow> string list \<Rightarrow> path list option io" where
  "resolve_initrds fs root [] = Inr (Some [])"
| "resolve_initrds fs root (initrd # rest) =
     bind_io (resolve_boot_path root initrd) (\<lambda>p.
       if \<not> fs_is_file fs p then Inr None
       else bind_io (resolve_initrds fs root rest) (\<lambda>ps. Inr (map_option (\<lambda>ps. p # ps) ps)))"

lemma resolve_initrds_below:
  assumes "resolve_initrds fs root names = Inr (Some ps)" and "is_absolute root"
  shows "\<forall>p \<in> set ps. below root p \<and> fs_is_file fs p"
  using assms by (induction names arbitrary: ps) (auto split: if_splits intro: resolve_boot_path_below)

text \<open>An entry is confined to a mounted partition: all its files are there, and below its root.\<close>

definition confined :: "file_system \<Rightarrow> path \<Rightarrow> boot_entry \<Rightarrow> bool" where
  "confined fs root e \<longleftrightarrow> list_all (\<lambda>p. below root p \<and> fs_is_file fs p) (payload_paths e)"

lemma confinedI:
  assumes "below root (be_linux e)" "fs_is_file fs (be_linux e)"
    and "\<forall>p \<in> set (be_initrds e). below root p \<and> fs_is_file fs p"
    and "\<And>d. be_dtb e = Some d \<Longrightarrow> below root d \<and> fs_is_file fs d"
  shows "confined fs root e"
  using assms by (auto simp: confined_def payload_paths_def list_all_iff split: option.splits)

text \<open>The entry belongs to the partition it was found on.\<close>

definition entry_of :: "partition_candidate \<Rightarrow> boot_entry \<Rightarrow> bool" where
  "entry_of p e \<longleftrightarrow> be_role e = bp_role p \<and> be_disk e = bp_disk p \<and> be_partition e = bp_partition p"

end
