(* ===== verification/ConfigText.thy ===== *)
theory ConfigText
  imports GrubVars
begin

text \<open>
  Configuration text as key and value lines, the form that both kinds of boot configuration
  share: how such lines are written, and what the line-wise functions of the parsers make of them.
\<close>

definition config_key :: "string \<Rightarrow> bool" where
  "config_key k \<longleftrightarrow> k \<noteq> [] \<and> hd k \<noteq> CHR ''#'' \<and> list_all (\<lambda>c. \<not> is_space c) k"

definition line_value :: "string \<Rightarrow> bool" where
  "line_value v \<longleftrightarrow> v \<noteq> [] \<and> newline \<notin> set v \<and> \<not> is_space (hd v) \<and> \<not> is_space (last v)"

definition config_line :: "string \<times> string \<Rightarrow> string" where
  "config_line kv = fst kv @ CHR '' '' # snd kv"

definition config_text :: "(string \<times> string) list \<Rightarrow> string" where
  "config_text kvs = concat (map (\<lambda>kv. config_line kv @ [newline]) kvs)"

definition config_lines_ok :: "(string \<times> string) list \<Rightarrow> bool" where
  "config_lines_ok kvs \<longleftrightarrow> list_all (\<lambda>(k, v). config_key k \<and> line_value v) kvs"

lemma blank_space: "is_space (CHR '' '')" "is_space newline" "is_space (CHR 0x0D)"
  by (simp_all add: is_space_def newline_def)

lemma config_key_no_newline: "config_key k \<Longrightarrow> newline \<notin> set k"
  using blank_space by (auto simp: config_key_def list_all_iff)

lemma config_line_ok:
  assumes k: "config_key k" and v: "line_value v"
  shows "newline \<notin> set (config_line (k, v))" "config_line (k, v) \<noteq> []" "last (config_line (k, v)) \<noteq> CHR 0x0D"
    "trim (config_line (k, v)) = config_line (k, v)" "\<not> is_comment (config_line (k, v))"
    "list_ex is_space (config_line (k, v))"
    "takeWhile (\<lambda>c. \<not> is_space c) (config_line (k, v)) = k"
    "trim (dropWhile (\<lambda>c. \<not> is_space c) (config_line (k, v))) = v"
proof -
  obtain c cs where cs: "k = c # cs" using k by (cases k) (auto simp: config_key_def)
  have sp: "\<forall>x \<in> set k. \<not> is_space x" and c: "\<not> is_space c" "c \<noteq> CHR ''#''"
    using k cs by (auto simp: config_key_def list_all_iff)
  have last: "last (config_line (k, v)) = last v" using v by (simp add: config_line_def line_value_def)
  show "newline \<notin> set (config_line (k, v))"
    using v config_key_no_newline [OF k] by (auto simp: config_line_def line_value_def newline_def)
  show "config_line (k, v) \<noteq> []" by (simp add: config_line_def)
  show "last (config_line (k, v)) \<noteq> CHR 0x0D" using v last blank_space(3) by (auto simp: line_value_def)
  show "trim (config_line (k, v)) = config_line (k, v)"
    by (rule trim_id) (use v c last in \<open>simp_all add: config_line_def cs line_value_def\<close>)
  show "\<not> is_comment (config_line (k, v))" using c by (simp add: is_comment_def config_line_def cs starts_with_def)
  show "list_ex is_space (config_line (k, v))" by (simp add: config_line_def blank_space)
  show "takeWhile (\<lambda>c. \<not> is_space c) (config_line (k, v)) = k"
    using sp by (simp add: config_line_def takeWhile_append2 blank_space)
  have "dropWhile (\<lambda>c. \<not> is_space c) (config_line (k, v)) = CHR '' '' # v"
    using sp by (simp add: config_line_def dropWhile_append2 blank_space)
  moreover have "trim (CHR '' '' # v) = trim v" by (simp add: trim_def trim_start_def blank_space)
  ultimately show "trim (dropWhile (\<lambda>c. \<not> is_space c) (config_line (k, v))) = v"
    using v trim_id [of v] by (simp add: line_value_def)
qed

lemma split_on_lines:
  "\<forall>l \<in> set ls. newline \<notin> set l \<Longrightarrow> split_on newline (concat (map (\<lambda>l. l @ [newline]) ls)) = ls @ [[]]"
  by (induction ls) (simp_all add: split_on_append_sep)

lemma text_lines_render:
  assumes "\<forall>l \<in> set ls. newline \<notin> set l \<and> (l = [] \<or> last l \<noteq> CHR 0x0D)"
  shows "text_lines (concat (map (\<lambda>l. l @ [newline]) ls)) = ls"
proof -
  have "map chomp_cr ls = ls"
    using assms by (induction ls) (auto simp: chomp_cr_def)
  then show ?thesis using assms split_on_lines [of ls] by (simp add: text_lines_def)
qed

lemma text_lines_config:
  assumes "config_lines_ok kvs"
  shows "text_lines (config_text kvs) = map config_line kvs"
proof -
  have "config_text kvs = concat (map (\<lambda>l. l @ [newline]) (map config_line kvs))"
    by (simp add: config_text_def comp_def)
  moreover have "\<forall>l \<in> set (map config_line kvs). newline \<notin> set l \<and> (l = [] \<or> last l \<noteq> CHR 0x0D)"
    using assms config_line_ok(1,3) by (fastforce simp: config_lines_ok_def list_all_iff)
  ultimately show ?thesis using text_lines_render by metis
qed

text \<open>A fold over the lines is a fold over the keys and values, where it is so line by line.\<close>

lemma foldl_config:
  assumes "config_lines_ok kvs"
    and "\<And>s k v. config_key k \<Longrightarrow> line_value v \<Longrightarrow> f s (config_line (k, v)) = g s (k, v)"
  shows "foldl f s (map config_line kvs) = foldl g s kvs"
  using assms by (induction kvs arbitrary: s) (auto simp: config_lines_ok_def)

end
