(* ===== verification/Bls.thy ===== *)
theory Bls
  imports BootEntry ConfigText Cmdline
begin

text \<open>
  Boot loader specification entries (\<open>src/bootflow.rs\<close>): \<open>BlsSnippet::parse\<close>, the choice of the
  device tree from a path or a directory and the compatibles of the board, and
  \<open>parse_bls_file\<close>, which makes a boot entry of a snippet.
\<close>

section \<open>Snippets\<close>

record bls_snippet =
  bls_title :: "string option"
  bls_version :: "string option"
  bls_architecture :: "string option"
  bls_linux :: "string option"
  bls_initrds :: "string list"
  bls_devicetree :: "string option"
  bls_fdtdirs :: "string list"
  bls_options :: "string list"

definition empty_snippet :: bls_snippet where
  "empty_snippet =
     \<lparr>bls_title = None, bls_version = None, bls_architecture = None, bls_linux = None,
      bls_initrds = [], bls_devicetree = None, bls_fdtdirs = [], bls_options = []\<rparr>"

definition bls_set :: "bls_snippet \<Rightarrow> string \<Rightarrow> string \<Rightarrow> bls_snippet" where
  "bls_set s k v =
     (if k = ''title'' then s\<lparr>bls_title := Some v\<rparr>
      else if k = ''version'' then s\<lparr>bls_version := Some v\<rparr>
      else if k = ''architecture'' then s\<lparr>bls_architecture := Some v\<rparr>
      else if k = ''linux'' then s\<lparr>bls_linux := Some v\<rparr>
      else if k = ''initrd'' then s\<lparr>bls_initrds := bls_initrds s @ [v]\<rparr>
      else if k \<in> {''devicetree'', ''fdt'', ''fdtfile''} then s\<lparr>bls_devicetree := Some v\<rparr>
      else if k = ''fdtdir'' then s\<lparr>bls_fdtdirs := bls_fdtdirs s @ [v]\<rparr>
      else if k = ''options'' then s\<lparr>bls_options := bls_options s @ [v]\<rparr>
      else s)"

definition bls_line :: "bls_snippet \<Rightarrow> string \<Rightarrow> bls_snippet" where
  "bls_line s line =
     (let line = trim line
      in if line = [] \<or> is_comment line then s
         else if \<not> list_ex is_space line then s
         else (let v = trim (dropWhile (\<lambda>c. \<not> is_space c) line)
               in if v = [] then s else bls_set s (takeWhile (\<lambda>c. \<not> is_space c) line) v))"

definition bls_parse :: "string \<Rightarrow> bls_snippet" where
  "bls_parse text = foldl bls_line empty_snippet (text_lines text)"

definition non_blank :: "string \<Rightarrow> bool" where
  "non_blank v \<longleftrightarrow> trim v \<noteq> []"

definition requires_dtb :: "bls_snippet \<Rightarrow> bool" where
  "requires_dtb s \<longleftrightarrow>
     (case bls_devicetree s of None \<Rightarrow> False | Some v \<Rightarrow> non_blank v) \<or> list_ex non_blank (bls_fdtdirs s)"

section \<open>Compatibles\<close>

definition FDT_COMPATIBLE_PATH :: path where
  "FDT_COMPATIBLE_PATH = ''/sys/firmware/devicetree/base/compatible''"

definition FDT_MAINLINE_COMPATIBLE_PATH :: path where
  "FDT_MAINLINE_COMPATIBLE_PATH = ''/sys/firmware/devicetree/base/chosen/pocketboot,mainline-compatible''"

fun mainline_values :: "bytes list \<Rightarrow> string list io" where
  "mainline_values [] = Inr []"
| "mainline_values (v # vs) =
     (if \<not> utf8_valid v then invalid_data ''packaged mainline compatible list contains invalid UTF-8''
      else if trim (text_of v) = [] then invalid_data ''packaged mainline compatible list contains an empty string''
      else bind_io (mainline_values vs) (\<lambda>rest. Inr (trim (text_of v) # rest)))"

definition parse_mainline_compatible :: "bytes \<Rightarrow> string list io" where
  "parse_mainline_compatible bs =
     (if bs = [] \<or> last bs \<noteq> 0 then invalid_data ''packaged mainline compatible list is not NUL-terminated''
      else bind_io (mainline_values (split_by (\<lambda>b. b = 0) (butlast bs))) (\<lambda>values.
        if values = [] then invalid_data ''packaged mainline compatible list is empty'' else Inr values))"

definition parse_fdt_strings :: "bytes \<Rightarrow> string list" where
  "parse_fdt_strings bs =
     filter (\<lambda>v. v \<noteq> []) (map (\<lambda>v. trim (text_of v))
       (filter utf8_valid (filter (\<lambda>v. v \<noteq> []) (split_by (\<lambda>b. b = 0) bs))))"

definition read_compatible_property :: "bytes \<Rightarrow> string list io" where
  "read_compatible_property bs =
     (let values = parse_fdt_strings bs
      in if values = [] then invalid_data ''live FDT compatible list is empty or invalid'' else Inr values)"

definition read_fdt_compatibles_from :: "file_system \<Rightarrow> path \<Rightarrow> path \<Rightarrow> string list io" where
  "read_fdt_compatibles_from fs identity_path live_path =
     (case fs_read fs identity_path of
        Inr bs \<Rightarrow> parse_mainline_compatible bs
      | Inl (IoError NotFound _) \<Rightarrow> bind_io (fs_read fs live_path) read_compatible_property
      | Inl (IoError k m) \<Rightarrow> Inl (IoError k (''read mainline identity '' @ m))
      | Inl RustPanic \<Rightarrow> Inl RustPanic)"

definition read_fdt_compatibles :: "file_system \<Rightarrow> string list io" where
  "read_fdt_compatibles fs = read_fdt_compatibles_from fs FDT_MAINLINE_COMPATIBLE_PATH FDT_COMPATIBLE_PATH"

section \<open>Device trees in a directory\<close>

record compatible_name =
  cn_vendor :: string
  cn_name :: string

definition safe_dtb_name_part :: "string \<Rightarrow> string option" where
  "safe_dtb_name_part v =
     (let v = trim v
      in if v \<noteq> [] \<and> v \<noteq> ''.'' \<and> v \<noteq> ''..'' \<and>
            list_all (\<lambda>c. is_ascii_alphanumeric c \<or> c \<in> {CHR ''-'', CHR ''_'', CHR ''.''}) v
         then Some v else None)"

definition parse_compatible_name :: "string \<Rightarrow> compatible_name option" where
  "parse_compatible_name compatible =
     (case split_once (CHR '','') compatible of
        None \<Rightarrow> None
      | Some (vendor, nm) \<Rightarrow>
          (case safe_dtb_name_part vendor of None \<Rightarrow> None
           | Some vendor \<Rightarrow>
               (case safe_dtb_name_part nm of None \<Rightarrow> None
                | Some nm \<Rightarrow> Some \<lparr>cn_vendor = vendor, cn_name = nm\<rparr>)))"

text \<open>Equality of paths is equality of their components.\<close>

definition push_unique_path :: "path list \<Rightarrow> path \<Rightarrow> path list" where
  "push_unique_path paths p =
     (if list_ex (\<lambda>existing. components existing = components p) paths then paths else paths @ [p])"

definition push_dtb_candidate_paths :: "path list \<Rightarrow> compatible_name \<Rightarrow> path list" where
  "push_dtb_candidate_paths paths c =
     push_unique_path (push_unique_path (push_unique_path paths
       (path_join (cn_vendor c) (cn_name c @ ''.dtb'')))
       (cn_name c @ ''.dtb''))
       (cn_vendor c @ '','' @ cn_name c @ ''.dtb'')"

definition push_soc_paths :: "compatible_name \<Rightarrow> path list \<Rightarrow> compatible_name \<Rightarrow> path list" where
  "push_soc_paths board paths soc =
     push_unique_path (push_unique_path paths
       (path_join (cn_vendor soc) (cn_name soc @ ''-'' @ cn_vendor board @ ''-'' @ cn_name board @ ''.dtb'')))
       (path_join (cn_vendor soc) (cn_name soc @ ''-'' @ cn_name board @ ''.dtb''))"

fun board_paths :: "path list \<Rightarrow> compatible_name list \<Rightarrow> path list" where
  "board_paths paths [] = paths"
| "board_paths paths (board # socs) =
     board_paths (foldl (push_soc_paths board) (push_dtb_candidate_paths paths board) socs) socs"

definition fdtdir_candidate_paths :: "string list \<Rightarrow> path list" where
  "fdtdir_candidate_paths compatibles = board_paths [] (List.map_filter parse_compatible_name compatibles)"

definition select_fdtdir_dtb :: "file_system \<Rightarrow> path \<Rightarrow> string list \<Rightarrow> path option" where
  "select_fdtdir_dtb fs fdtdir compatibles =
     List.find (fs_is_file fs) (map (path_join fdtdir) (fdtdir_candidate_paths compatibles))"

text \<open>The loop of \<open>bls_dtb_path\<close> over the directories of a snippet.\<close>

fun fdtdir_dtb :: "file_system \<Rightarrow> path \<Rightarrow> string list \<Rightarrow> string list \<Rightarrow> path option io" where
  "fdtdir_dtb fs root compatibles [] = Inr None"
| "fdtdir_dtb fs root compatibles (fdtdir # rest) =
     bind_io (resolve_boot_path root fdtdir) (\<lambda>p.
       if \<not> fs_is_dir fs p then fdtdir_dtb fs root compatibles rest
       else (case select_fdtdir_dtb fs p compatibles of
               Some dtb \<Rightarrow> Inr (Some dtb)
             | None \<Rightarrow> fdtdir_dtb fs root compatibles rest))"

definition bls_dtb_path :: "file_system \<Rightarrow> path \<Rightarrow> bls_snippet \<Rightarrow> bls_context \<Rightarrow> path option io" where
  "bls_dtb_path fs root bls ctx =
     (case filter_nonempty (map_option trim (bls_devicetree bls)) of
        Some devicetree \<Rightarrow>
          bind_io (resolve_boot_path root (bls_expand ctx devicetree)) (\<lambda>p.
            Inr (if fs_is_file fs p then Some p else None))
      | None \<Rightarrow>
          if bls_fdtdirs bls = [] then Inr None
          else (case read_fdt_compatibles fs of
                  Inl _ \<Rightarrow> Inr None
                | Inr compatibles \<Rightarrow>
                    fdtdir_dtb fs root compatibles
                      (filter (\<lambda>v. v \<noteq> []) (map (\<lambda>v. trim (bls_expand ctx v)) (bls_fdtdirs bls)))))"

section \<open>Entries\<close>

definition architecture_matches :: "string option \<Rightarrow> bool" where
  "architecture_matches v =
     (case v of None \<Rightarrow> True
      | Some v \<Rightarrow> to_ascii_lowercase (trim v) \<in> {''aa64'', ''aarch64'', ''arm64''})"

definition boot_entry_id_matches :: "string \<Rightarrow> string \<Rightarrow> bool" where
  "boot_entry_id_matches filename preferred \<longleftrightarrow>
     filename = preferred \<or> strip_suffix ''.conf'' filename = Some preferred"

definition split_bls_words :: "string \<Rightarrow> string list" where
  "split_bls_words v = split_whitespace v"

definition parse_bls_file ::
  "file_system \<Rightarrow> partition_candidate \<Rightarrow> path \<Rightarrow> path \<Rightarrow> bls_context \<Rightarrow> boot_entry option io" where
  "parse_bls_file fs part root source ctx =
     bind_io (map_err_prefix ''read BLS entry: '' (fs_read_to_string fs source)) (\<lambda>text.
     let bls = bls_parse text
     in if \<not> architecture_matches (bls_architecture bls) then Inr None
        else (case filter_nonempty (bls_linux bls) of
           None \<Rightarrow> Inr None
         | Some linux \<Rightarrow>
             bind_io (resolve_boot_path root (bls_expand ctx linux)) (\<lambda>linux.
             if \<not> fs_is_file fs linux then Inr None
             else
             bind_io (resolve_initrds fs root
                 (concat (map (\<lambda>v. split_bls_words (bls_expand ctx v)) (bls_initrds bls)))) (\<lambda>initrds.
             case initrds of
               None \<Rightarrow> Inr None
             | Some initrds \<Rightarrow>
             bind_io (bls_dtb_path fs root bls ctx) (\<lambda>dtb.
             if dtb = None \<and> requires_dtb bls then Inr None
             else
               (let filename = (case file_name source of Some n \<Rightarrow> n | None \<Rightarrow> source);
                    pref = preferred_entry ctx;
                    preferred = (case pref of None \<Rightarrow> False | Some p \<Rightarrow> boot_entry_id_matches filename p)
                in Inr (Some
                  \<lparr>be_id = filename, be_title = bls_title bls, be_version = bls_version bls,
                   be_architecture = bls_architecture bls, be_source = source, be_role = bp_role part,
                   be_disk = bp_disk part, be_partition = bp_partition part, be_preferred = preferred,
                   be_linux = linux, be_initrds = initrds, be_dtb = dtb,
                   be_options = filter (\<lambda>v. v \<noteq> []) (map (\<lambda>v. trim (bls_expand ctx v)) (bls_options bls)),
                   be_boot_order = (if pref \<noteq> None \<and> \<not> preferred then 1 else 0)\<rparr>)))))))"

section \<open>Files of an entry\<close>

lemma absolute_iff: "is_absolute p \<longleftrightarrow> (\<exists>cs. components p = RootDir # cs)"
  by (auto simp: components_def segment_component_def split: if_splits)

lemma below_absolute: "below root p \<Longrightarrow> is_absolute root \<Longrightarrow> is_absolute p"
  by (auto simp: below_iff absolute_iff)

lemma below_join:
  assumes b: "below root p" and root: "is_absolute root" and q: "\<not> is_absolute q"
    and plain: "\<forall>s \<in> set (kept_segments q). plain_name s"
  shows "below root (path_join p q)"
proof -
  obtain names where n: "names \<noteq> []" "components p = components root @ map Normal names"
    using b unfolding below_iff by blast
  have "components (path_join p q) = components root @ map Normal (names @ kept_segments q)"
    using components_join [OF below_absolute [OF b root] q] n plain by (simp add: segment_component_plain)
  then show ?thesis
    unfolding below_iff using n(1) by (intro exI [of _ "names @ kept_segments q"]) simp
qed

definition relative_plain :: "path \<Rightarrow> bool" where
  "relative_plain q \<longleftrightarrow> \<not> is_absolute q \<and> (\<forall>s \<in> set (kept_segments q). plain_name s)"

lemma relative_plain_name: "plain_name s \<Longrightarrow> relative_plain s"
  by (simp add: relative_plain_def plain_not_absolute kept_plain)

lemma relative_plain_join:
  assumes s: "plain_name s" and t: "plain_name t"
  shows "relative_plain (path_join s t)"
proof -
  have "kept_segments (path_join s t) = [s, t]"
    using kept_join [OF plain_not_absolute [OF t], of s] kept_plain [OF s] kept_plain [OF t] by simp
  moreover have "\<not> is_absolute (path_join s t)"
    using s t plain_not_absolute [OF s] plain_not_absolute [OF t]
    by (cases s) (auto simp: path_join_def is_absolute_def plain_name_def)
  ultimately show ?thesis using s t by (simp add: relative_plain_def)
qed

lemma safe_part_plain:
  assumes "safe_dtb_name_part v = Some w"
  shows "plain_name w \<and> slash \<notin> set w"
proof -
  from assms have w: "w \<noteq> []" "w \<noteq> ''.''" "w \<noteq> ''..''"
    "list_all (\<lambda>c. is_ascii_alphanumeric c \<or> c \<in> {CHR ''-'', CHR ''_'', CHR ''.''}) w"
    by (auto simp: safe_dtb_name_part_def Let_def split: if_splits)
  have "\<not> is_ascii_alphanumeric slash" "slash \<notin> {CHR ''-'', CHR ''_'', CHR ''.''}"
    by (simp_all add: is_ascii_alphanumeric_def is_ascii_alphabetic_def is_ascii_digit_def slash_def)
  then have "slash \<notin> set w" using w(4) by (auto simp: list_all_iff)
  then show ?thesis using w by (simp add: plain_name_def)
qed

lemma plain_dtb: "slash \<notin> set s \<Longrightarrow> plain_name (s @ ''.dtb'')"
  by (auto simp: plain_name_def slash_def append_eq_Cons_conv)

lemma push_unique_all: "list_all P paths \<Longrightarrow> P p \<Longrightarrow> list_all P (push_unique_path paths p)"
  by (simp add: push_unique_path_def)

definition name_safe :: "compatible_name \<Rightarrow> bool" where
  "name_safe c \<longleftrightarrow> plain_name (cn_vendor c) \<and> slash \<notin> set (cn_vendor c) \<and> slash \<notin> set (cn_name c)"

lemma parse_compatible_name_safe: "parse_compatible_name s = Some c \<Longrightarrow> name_safe c"
  by (auto simp: parse_compatible_name_def name_safe_def dest!: safe_part_plain split: option.splits)

lemma slash_not: "slash \<noteq> CHR ''-''" "slash \<noteq> CHR '',''"
  by (simp_all add: slash_def)

lemma push_dtb_candidate_all:
  "list_all relative_plain paths \<Longrightarrow> name_safe c \<Longrightarrow> list_all relative_plain (push_dtb_candidate_paths paths c)"
  using plain_dtb [of "cn_name c"] plain_dtb [of "cn_vendor c @ '','' @ cn_name c"]
  by (auto simp: push_dtb_candidate_paths_def name_safe_def slash_not
      intro!: push_unique_all intro: relative_plain_join relative_plain_name)

lemma push_soc_all:
  "list_all relative_plain paths \<Longrightarrow> name_safe b \<Longrightarrow> name_safe c \<Longrightarrow> list_all relative_plain (push_soc_paths b paths c)"
  using plain_dtb [of "cn_name c @ ''-'' @ cn_vendor b @ ''-'' @ cn_name b"] plain_dtb [of "cn_name c @ ''-'' @ cn_name b"]
  by (auto simp: push_soc_paths_def name_safe_def slash_not intro!: push_unique_all intro: relative_plain_join)

lemma board_paths_all:
  "list_all relative_plain paths \<Longrightarrow> list_all name_safe cs \<Longrightarrow> list_all relative_plain (board_paths paths cs)"
proof (induction paths cs rule: board_paths.induct)
  case (2 paths b socs)
  have "list_all relative_plain (foldl (push_soc_paths b) ps ss)"
    if "list_all relative_plain ps" "list_all name_safe ss" for ps ss
    using that "2.prems" by (induction ss arbitrary: ps) (auto simp: push_soc_all)
  then show ?case using 2 by (simp add: push_dtb_candidate_all)
qed simp

lemma fdtdir_candidates_plain: "p \<in> set (fdtdir_candidate_paths compatibles) \<Longrightarrow> relative_plain p"
proof -
  have "list_all name_safe (List.map_filter parse_compatible_name compatibles)"
    by (auto simp: list_all_iff set_map_filter intro: parse_compatible_name_safe)
  then show "p \<in> set (fdtdir_candidate_paths compatibles) \<Longrightarrow> relative_plain p"
    using board_paths_all [of "[]"] by (auto simp: fdtdir_candidate_paths_def list_all_iff)
qed

lemma select_fdtdir_dtb_below:
  assumes f: "select_fdtdir_dtb fs d compatibles = Some p" and b: "below root d" and root: "is_absolute root"
  shows "below root p \<and> fs_is_file fs p"
proof -
  from f have "p \<in> set (map (path_join d) (fdtdir_candidate_paths compatibles))" "fs_is_file fs p"
    by (auto simp: select_fdtdir_dtb_def find_Some_iff simp del: set_map intro: nth_mem)
  then obtain q where "p = path_join d q" "q \<in> set (fdtdir_candidate_paths compatibles)" "fs_is_file fs p" by auto
  then show ?thesis
    using below_join [OF b root] fdtdir_candidates_plain by (auto simp: relative_plain_def)
qed

lemma fdtdir_dtb_below:
  assumes "fdtdir_dtb fs root compatibles dirs = Inr (Some p)" "is_absolute root"
  shows "below root p \<and> fs_is_file fs p"
  using assms
  by (induction fs root compatibles dirs rule: fdtdir_dtb.induct)
    (auto split: if_splits option.splits dest: resolve_boot_path_below select_fdtdir_dtb_below)

lemma bls_dtb_path_below:
  assumes d: "bls_dtb_path fs root bls ctx = Inr (Some p)" and root: "is_absolute root"
  shows "below root p \<and> fs_is_file fs p"
proof (cases "filter_nonempty (map_option trim (bls_devicetree bls))")
  case None
  with d obtain compatibles dirs where "fdtdir_dtb fs root compatibles dirs = Inr (Some p)"
    by (auto simp: bls_dtb_path_def split: if_splits sum.splits)
  then show ?thesis using root by (rule fdtdir_dtb_below)
next
  case (Some v)
  with d show ?thesis
    using root by (auto simp: bls_dtb_path_def split: if_splits intro: resolve_boot_path_below)
qed

lemma parse_bls_file_Some:
  assumes "parse_bls_file fs part root source ctx = Inr (Some e)"
  obtains contents linux where
    "fs_read_to_string fs source = Inr contents"
    "resolve_boot_path root linux = Inr (be_linux e)" "fs_is_file fs (be_linux e)"
    "resolve_initrds fs root
       (concat (map (\<lambda>v. split_bls_words (bls_expand ctx v)) (bls_initrds (bls_parse contents)))) = Inr (Some (be_initrds e))"
    "bls_dtb_path fs root (bls_parse contents) ctx = Inr (be_dtb e)"
    "be_role e = bp_role part" "be_disk e = bp_disk part" "be_partition e = bp_partition part" "be_source e = source"
  using assms that
  by (auto simp: parse_bls_file_def Let_def split: if_splits option.splits)

lemma parse_bls_file_confined:
  assumes e: "parse_bls_file fs part root source ctx = Inr (Some e)" and root: "is_absolute root"
  shows "confined fs root e \<and> entry_of part e"
  using e
proof (rule parse_bls_file_Some)
  fix contents linux
  assume "resolve_boot_path root linux = Inr (be_linux e)" "fs_is_file fs (be_linux e)"
    "resolve_initrds fs root
       (concat (map (\<lambda>v. split_bls_words (bls_expand ctx v)) (bls_initrds (bls_parse contents)))) = Inr (Some (be_initrds e))"
    "bls_dtb_path fs root (bls_parse contents) ctx = Inr (be_dtb e)"
    "be_role e = bp_role part" "be_disk e = bp_disk part" "be_partition e = bp_partition part"
  then show ?thesis
    using root resolve_boot_path_below resolve_initrds_below bls_dtb_path_below
    by (auto simp: entry_of_def intro!: confinedI)
qed

section \<open>What a snippet says\<close>

text \<open>The last value of a key, and all its values in order.\<close>

definition last_value :: "string set \<Rightarrow> (string \<times> string) list \<Rightarrow> string option" where
  "last_value ks kvs = foldl (\<lambda>r (k, v). if k \<in> ks then Some v else r) None kvs"

definition all_values :: "string \<Rightarrow> (string \<times> string) list \<Rightarrow> string list" where
  "all_values k kvs = map snd (filter (\<lambda>kv. fst kv = k) kvs)"

definition snippet_of :: "(string \<times> string) list \<Rightarrow> bls_snippet" where
  "snippet_of kvs =
     \<lparr>bls_title = last_value {''title''} kvs, bls_version = last_value {''version''} kvs,
      bls_architecture = last_value {''architecture''} kvs, bls_linux = last_value {''linux''} kvs,
      bls_initrds = all_values ''initrd'' kvs,
      bls_devicetree = last_value {''devicetree'', ''fdt'', ''fdtfile''} kvs,
      bls_fdtdirs = all_values ''fdtdir'' kvs, bls_options = all_values ''options'' kvs\<rparr>"

lemma bls_line_config:
  "config_key k \<Longrightarrow> line_value v \<Longrightarrow> bls_line s (config_line (k, v)) = bls_set s k v"
  by (simp add: bls_line_def Let_def config_line_ok line_value_def)

lemma snippet_of_snoc: "snippet_of (kvs @ [(k, v)]) = bls_set (snippet_of kvs) k v"
  by (simp add: snippet_of_def bls_set_def last_value_def all_values_def)

lemma foldl_bls_set: "foldl (\<lambda>s (k, v). bls_set s k v) empty_snippet kvs = snippet_of kvs"
  by (induction kvs rule: rev_induct)
    (auto simp: snippet_of_snoc, simp add: snippet_of_def empty_snippet_def last_value_def all_values_def)

lemma bls_parse_config:
  assumes "config_lines_ok kvs"
  shows "bls_parse (config_text kvs) = snippet_of kvs"
proof -
  have "bls_parse (config_text kvs) = foldl (\<lambda>s (k, v). bls_set s k v) empty_snippet kvs"
    unfolding bls_parse_def text_lines_config [OF assms]
    by (rule foldl_config [OF assms]) (simp add: bls_line_config)
  then show ?thesis by (simp add: foldl_bls_set)
qed

section \<open>Properties\<close>

text \<open>
  C39: parsing a written snippet gives back what it says: for any sequence of key and value lines,
  the last value of a single-valued key (with the three spellings of the device tree key as one)
  and all values of a repeatable key in order; other keys change nothing.
\<close>

theorem bls_parse_render:
  assumes "config_lines_ok kvs"
  shows "bls_parse (config_text kvs) = snippet_of kvs"
  by (rule bls_parse_config [OF assms])

definition demo_snippet :: "(string \<times> string) list" where
  "demo_snippet = [(''title'', ''A''), (''linux'', ''/vmlinuz''), (''initrd'', ''/a''), (''fdt'', ''x.dtb''),
     (''grub_class'', ''kernel''), (''initrd'', ''/b''), (''title'', ''B 2''), (''devicetree'', ''y.dtb'')]"

lemma bls_parse_render_witness:
  "bls_title (bls_parse (config_text demo_snippet)) = Some ''B 2'' \<and>
   bls_initrds (bls_parse (config_text demo_snippet)) = [''/a'', ''/b''] \<and>
   bls_devicetree (bls_parse (config_text demo_snippet)) = Some ''y.dtb''"
proof -
  have ok: "config_lines_ok demo_snippet" by code_simp
  show ?thesis
    unfolding bls_parse_render [OF ok] by (simp add: demo_snippet_def snippet_of_def last_value_def all_values_def)
qed

end
