(* ===== verification/Extlinux.thy ===== *)
theory Extlinux
  imports BootEntry ConfigText Cmdline
begin

text \<open>
  Extlinux configurations (\<open>src/bootflow.rs\<close>): \<open>ExtlinuxConfig::parse\<close>, a machine over the lines
  with the entry being read, and \<open>extlinux_boot_entry\<close>.
\<close>

section \<open>Configurations\<close>

record extlinux_entry =
  ex_label :: string
  ex_menu_label :: "string option"
  ex_kernel :: "string option"
  ex_fdt :: "string option"
  ex_initrds :: "string list"
  ex_append :: "string list"

record extlinux_config =
  ec_default :: "string option"
  ec_entries :: "extlinux_entry list"

text \<open>The two variables of the loop: the configuration and the entry of the last \<open>label\<close>.\<close>

type_synonym extlinux_state = "extlinux_config \<times> extlinux_entry option"

definition new_extlinux_entry :: "string \<Rightarrow> extlinux_entry" where
  "new_extlinux_entry label =
     \<lparr>ex_label = label, ex_menu_label = None, ex_kernel = None, ex_fdt = None, ex_initrds = [], ex_append = []\<rparr>"

definition push_entry :: "extlinux_config \<Rightarrow> extlinux_entry option \<Rightarrow> extlinux_config" where
  "push_entry config current =
     (case current of None \<Rightarrow> config
      | Some entry \<Rightarrow> config\<lparr>ec_entries := ec_entries config @ [entry]\<rparr>)"

definition split_key_value :: "string \<Rightarrow> string \<times> string" where
  "split_key_value line =
     (if list_ex is_space line
      then (takeWhile (\<lambda>c. \<not> is_space c) line, trim (dropWhile (\<lambda>c. \<not> is_space c) line))
      else (line, []))"

definition split_initrd_values :: "string \<Rightarrow> string list" where
  "split_initrd_values v = filter (\<lambda>w. w \<noteq> []) (map trim (split_on (CHR '','') v))"

text \<open>The keys that change the entry being read.\<close>

definition extlinux_entry_key :: "string \<Rightarrow> string \<Rightarrow> extlinux_entry \<Rightarrow> extlinux_entry" where
  "extlinux_entry_key k v entry =
     (if k \<in> {''kernel'', ''linux''} then entry\<lparr>ex_kernel := Some v\<rparr>
      else if k \<in> {''fdt'', ''devicetree''} then entry\<lparr>ex_fdt := Some v\<rparr>
      else if k = ''initrd'' then entry\<lparr>ex_initrds := ex_initrds entry @ split_initrd_values v\<rparr>
      else if k = ''append'' then
        (if v \<noteq> [] \<and> v \<noteq> ''-'' then entry\<lparr>ex_append := ex_append entry @ [v]\<rparr> else entry)
      else if k = ''menu'' then
        (case split_key_value v of (subkey, subvalue) \<Rightarrow>
           if to_ascii_lowercase subkey = ''label'' \<and> subvalue \<noteq> []
           then entry\<lparr>ex_menu_label := Some subvalue\<rparr> else entry)
      else entry)"

definition extlinux_key :: "extlinux_state \<Rightarrow> string \<Rightarrow> string \<Rightarrow> extlinux_state" where
  "extlinux_key st k v =
     (case st of (config, current) \<Rightarrow>
        if k = ''default'' then (if v \<noteq> [] then config\<lparr>ec_default := Some v\<rparr> else config, current)
        else if k = ''label'' then
          (push_entry config current, if v \<noteq> [] then Some (new_extlinux_entry v) else None)
        else (config, map_option (extlinux_entry_key k v) current))"

definition extlinux_line :: "extlinux_state \<Rightarrow> string \<Rightarrow> extlinux_state" where
  "extlinux_line st line =
     (let line = trim line
      in if line = [] \<or> is_comment line then st
         else (case split_key_value line of (k, v) \<Rightarrow> extlinux_key st (to_ascii_lowercase k) v))"

definition extlinux_parse :: "string \<Rightarrow> extlinux_config" where
  "extlinux_parse text =
     (case foldl extlinux_line (\<lparr>ec_default = None, ec_entries = []\<rparr>, None) (text_lines text) of
        (config, current) \<Rightarrow> push_entry config current)"

section \<open>Entries\<close>

definition extlinux_boot_entry ::
  "file_system \<Rightarrow> partition_candidate \<Rightarrow> path \<Rightarrow> path \<Rightarrow> string option \<Rightarrow> extlinux_entry \<Rightarrow> boot_entry option io" where
  "extlinux_boot_entry fs part root source dflt entry =
     (case filter_nonempty (ex_kernel entry) of
        None \<Rightarrow> Inr None
      | Some kern \<Rightarrow>
          bind_io (resolve_boot_path root kern) (\<lambda>linux.
          if \<not> fs_is_file fs linux then Inr None
          else
          bind_io (resolve_initrds fs root (ex_initrds entry)) (\<lambda>initrds.
          case initrds of
            None \<Rightarrow> Inr None
          | Some initrds \<Rightarrow>
          bind_io (case ex_fdt entry of None \<Rightarrow> Inr None
                   | Some fdt \<Rightarrow> bind_io (resolve_boot_path root fdt) (\<lambda>d. Inr (Some d))) (\<lambda>dtb.
          if (case dtb of None \<Rightarrow> False | Some d \<Rightarrow> \<not> fs_is_file fs d) then Inr None
          else
            (let is_default = (dflt = Some (ex_label entry))
             in Inr (Some
               \<lparr>be_id = ''extlinux:'' @ ex_label entry,
                be_title = (case ex_menu_label entry of None \<Rightarrow> Some (ex_label entry) | Some t \<Rightarrow> Some t),
                be_version = None, be_architecture = None, be_source = source, be_role = bp_role part,
                be_disk = bp_disk part, be_partition = bp_partition part, be_preferred = is_default,
                be_linux = linux, be_initrds = initrds, be_dtb = dtb, be_options = ex_append entry,
                be_boot_order = (if is_default then 0 else 1)\<rparr>))))))"

text \<open>Entries that fail or are incomplete are left out.\<close>

definition kept_entry :: "boot_entry option io \<Rightarrow> boot_entry option" where
  "kept_entry r = (case r of Inr (Some e) \<Rightarrow> Some e | Inr None \<Rightarrow> None | Inl _ \<Rightarrow> None)"

lemma kept_entry_Some [simp]: "kept_entry r = Some e \<longleftrightarrow> r = Inr (Some e)"
  by (auto simp: kept_entry_def split: sum.splits option.splits)

definition parse_extlinux_file ::
  "file_system \<Rightarrow> partition_candidate \<Rightarrow> path \<Rightarrow> path \<Rightarrow> boot_entry list io" where
  "parse_extlinux_file fs part root source =
     bind_io (map_err_prefix ''read extlinux config: '' (fs_read_to_string fs source)) (\<lambda>text.
     let config = extlinux_parse text
     in Inr (List.map_filter
          (\<lambda>entry. kept_entry (extlinux_boot_entry fs part root source (ec_default config) entry))
          (ec_entries config)))"

section \<open>Properties\<close>

lemma extlinux_boot_entry_Some:
  assumes "extlinux_boot_entry fs part root source dflt entry = Inr (Some e)"
  obtains kern where
    "ex_kernel entry = Some kern" "kern \<noteq> []"
    "resolve_boot_path root kern = Inr (be_linux e)" "fs_is_file fs (be_linux e)"
    "resolve_initrds fs root (ex_initrds entry) = Inr (Some (be_initrds e))"
    "\<And>d. be_dtb e = Some d \<Longrightarrow> fs_is_file fs d \<and> (\<exists>fdt. ex_fdt entry = Some fdt \<and> resolve_boot_path root fdt = Inr d)"
    "be_id e = ''extlinux:'' @ ex_label entry" "be_preferred e \<longleftrightarrow> dflt = Some (ex_label entry)"
    "be_boot_order e = (if be_preferred e then 0 else 1)"
    "be_options e = ex_append entry" "entry_of part e" "be_source e = source"
  using assms that
  by (auto simp: extlinux_boot_entry_def entry_of_def filter_nonempty_def Let_def split: if_splits option.splits)

lemma extlinux_boot_entry_confined:
  assumes e: "extlinux_boot_entry fs part root source dflt entry = Inr (Some e)" and root: "is_absolute root"
  shows "confined fs root e \<and> entry_of part e"
  using e
proof (rule extlinux_boot_entry_Some)
  fix kern
  assume "resolve_boot_path root kern = Inr (be_linux e)" "fs_is_file fs (be_linux e)"
    "resolve_initrds fs root (ex_initrds entry) = Inr (Some (be_initrds e))"
    "\<And>d. be_dtb e = Some d \<Longrightarrow> fs_is_file fs d \<and> (\<exists>fdt. ex_fdt entry = Some fdt \<and> resolve_boot_path root fdt = Inr d)"
    "entry_of part e"
  then show ?thesis
    using root resolve_boot_path_below resolve_initrds_below
    by (blast intro: confinedI)
qed

lemma parse_extlinux_file_confined:
  assumes "parse_extlinux_file fs part root source = Inr entries" and root: "is_absolute root"
  shows "\<forall>e \<in> set entries. confined fs root e \<and> entry_of part e"
  using assms
  by (auto simp: parse_extlinux_file_def Let_def set_map_filter dest: extlinux_boot_entry_confined)

section \<open>Writing a configuration\<close>

text \<open>
  The lines of an entry, and of a whole configuration. Every field has its own line; an initrd
  value may not hold the comma that separates values.
\<close>

definition opt_line :: "string \<Rightarrow> string option \<Rightarrow> (string \<times> string) list" where
  "opt_line k v = (case v of None \<Rightarrow> [] | Some v \<Rightarrow> [(k, v)])"

definition menu_value :: "string \<Rightarrow> string" where
  "menu_value t = ''label '' @ t"

definition entry_fields :: "extlinux_entry \<Rightarrow> (string \<times> string) list" where
  "entry_fields e =
     opt_line ''menu'' (map_option menu_value (ex_menu_label e)) @ opt_line ''kernel'' (ex_kernel e) @
     opt_line ''fdt'' (ex_fdt e) @ map (Pair ''initrd'') (ex_initrds e) @ map (Pair ''append'') (ex_append e)"

definition entry_lines :: "extlinux_entry \<Rightarrow> (string \<times> string) list" where
  "entry_lines e = (''label'', ex_label e) # entry_fields e"

definition config_lines :: "extlinux_config \<Rightarrow> (string \<times> string) list" where
  "config_lines c = opt_line ''default'' (ec_default c) @ concat (map entry_lines (ec_entries c))"

definition ex_entry_ok :: "extlinux_entry \<Rightarrow> bool" where
  "ex_entry_ok e \<longleftrightarrow>
     line_value (ex_label e) \<and> pred_option line_value (ex_menu_label e) \<and> pred_option line_value (ex_kernel e) \<and>
     pred_option line_value (ex_fdt e) \<and>
     list_all (\<lambda>v. line_value v \<and> CHR '','' \<notin> set v) (ex_initrds e) \<and>
     list_all (\<lambda>v. line_value v \<and> v \<noteq> ''-'') (ex_append e)"

definition config_ok :: "extlinux_config \<Rightarrow> bool" where
  "config_ok c \<longleftrightarrow> pred_option line_value (ec_default c) \<and> list_all ex_entry_ok (ec_entries c)"

lemma split_key_value_config:
  "config_key k \<Longrightarrow> line_value v \<Longrightarrow> split_key_value (config_line (k, v)) = (k, v)"
  by (simp add: split_key_value_def config_line_ok)

lemma extlinux_line_config:
  "config_key k \<Longrightarrow> line_value v \<Longrightarrow>
   extlinux_line st (config_line (k, v)) = extlinux_key st (to_ascii_lowercase k) v"
  by (simp add: extlinux_line_def Let_def config_line_ok split_key_value_config)

definition extlinux_step :: "extlinux_state \<Rightarrow> string \<times> string \<Rightarrow> extlinux_state" where
  "extlinux_step st kv = extlinux_key st (to_ascii_lowercase (fst kv)) (snd kv)"

lemma lower_keys:
  "to_ascii_lowercase ''label'' = ''label''" "to_ascii_lowercase ''default'' = ''default''"
  "to_ascii_lowercase ''menu'' = ''menu''" "to_ascii_lowercase ''kernel'' = ''kernel''"
  "to_ascii_lowercase ''fdt'' = ''fdt''" "to_ascii_lowercase ''initrd'' = ''initrd''"
  "to_ascii_lowercase ''append'' = ''append''"
  by code_simp+

lemma key_config:
  "config_key ''label''" "config_key ''default''" "config_key ''menu''" "config_key ''kernel''"
  "config_key ''fdt''" "config_key ''initrd''" "config_key ''append''"
  by code_simp+

lemma step_opt:
  "foldl extlinux_step (c, Some e) (opt_line k v) =
     (case v of None \<Rightarrow> (c, Some e) | Some v \<Rightarrow> extlinux_key (c, Some e) (to_ascii_lowercase k) v)"
  by (simp add: opt_line_def extlinux_step_def split: option.splits)

lemma step_initrds:
  assumes "list_all (\<lambda>v. line_value v \<and> CHR '','' \<notin> set v) vs"
  shows "foldl extlinux_step (c, Some e) (map (Pair ''initrd'') vs) = (c, Some (e\<lparr>ex_initrds := ex_initrds e @ vs\<rparr>))"
  using assms
proof (induction vs arbitrary: e)
  case (Cons v vs)
  then have "split_initrd_values v = [v]"
    by (simp add: split_initrd_values_def split_on_no_sep line_value_def trim_id)
  then show ?case using Cons by (simp add: extlinux_step_def lower_keys extlinux_key_def extlinux_entry_key_def)
qed simp

lemma step_appends:
  assumes "list_all (\<lambda>v. line_value v \<and> v \<noteq> ''-'') vs"
  shows "foldl extlinux_step (c, Some e) (map (Pair ''append'') vs) = (c, Some (e\<lparr>ex_append := ex_append e @ vs\<rparr>))"
  using assms
proof (induction vs arbitrary: e)
  case (Cons v vs)
  then show ?case by (simp add: extlinux_step_def lower_keys extlinux_key_def extlinux_entry_key_def line_value_def)
qed simp

lemma menu_label_value: "line_value t \<Longrightarrow> split_key_value (menu_value t) = (''label'', t)"
  using split_key_value_config [OF key_config(1), of t] by (simp add: config_line_def menu_value_def)

lemma step_entry_fields:
  assumes "ex_entry_ok e"
  shows "foldl extlinux_step (c, Some (new_extlinux_entry (ex_label e))) (entry_fields e) = (c, Some e)"
proof -
  have menu: "foldl extlinux_step (c, Some d) (opt_line ''menu'' (map_option menu_value (ex_menu_label e))) =
      (c, Some (case ex_menu_label e of None \<Rightarrow> d | Some t \<Rightarrow> d\<lparr>ex_menu_label := Some t\<rparr>))" for d
    using assms
    by (auto simp: step_opt lower_keys extlinux_key_def extlinux_entry_key_def menu_label_value ex_entry_ok_def line_value_def
        split: option.splits)
  have kern: "foldl extlinux_step (c, Some d) (opt_line ''kernel'' (ex_kernel e)) =
      (c, Some (case ex_kernel e of None \<Rightarrow> d | Some t \<Rightarrow> d\<lparr>ex_kernel := Some t\<rparr>))" for d
    by (simp add: step_opt lower_keys extlinux_key_def extlinux_entry_key_def split: option.splits)
  have fdt: "foldl extlinux_step (c, Some d) (opt_line ''fdt'' (ex_fdt e)) =
      (c, Some (case ex_fdt e of None \<Rightarrow> d | Some t \<Rightarrow> d\<lparr>ex_fdt := Some t\<rparr>))" for d
    by (simp add: step_opt lower_keys extlinux_key_def extlinux_entry_key_def split: option.splits)
  show ?thesis
    using assms
    by (simp add: entry_fields_def menu kern fdt step_initrds step_appends ex_entry_ok_def new_extlinux_entry_def
        split: option.splits)
qed

lemma step_entries:
  assumes "list_all ex_entry_ok es"
  shows "(case foldl extlinux_step (c, cur) (concat (map entry_lines es)) of (c, cur) \<Rightarrow> push_entry c cur) =
    (push_entry c cur)\<lparr>ec_entries := ec_entries (push_entry c cur) @ es\<rparr>"
  using assms
proof (induction es arbitrary: c cur)
  case (Cons e es)
  have "extlinux_step (c, cur) (''label'', ex_label e) = (push_entry c cur, Some (new_extlinux_entry (ex_label e)))"
    using Cons.prems by (simp add: extlinux_step_def lower_keys extlinux_key_def ex_entry_ok_def line_value_def)
  then have "foldl extlinux_step (c, cur) (entry_lines e) = (push_entry c cur, Some e)"
    using Cons.prems step_entry_fields by (simp add: entry_lines_def)
  then show ?case using Cons by (simp add: push_entry_def)
qed simp

lemma config_lines_append [simp]: "config_lines_ok (xs @ ys) \<longleftrightarrow> config_lines_ok xs \<and> config_lines_ok ys"
  by (simp add: config_lines_ok_def)

lemma opt_line_wf: "config_key k \<Longrightarrow> pred_option line_value v \<Longrightarrow> config_lines_ok (opt_line k v)"
  by (cases v) (simp_all add: opt_line_def config_lines_ok_def)

lemma list_lines_wf: "config_key k \<Longrightarrow> list_all line_value vs \<Longrightarrow> config_lines_ok (map (Pair k) vs)"
  by (auto simp: config_lines_ok_def list_all_iff)

lemma menu_value_wf: "pred_option line_value v \<Longrightarrow> pred_option line_value (map_option menu_value v)"
  by (cases v) (auto simp: line_value_def newline_def is_space_def menu_value_def)

lemma entry_lines_wf: "ex_entry_ok e \<Longrightarrow> config_lines_ok (entry_lines e)"
proof -
  assume e: "ex_entry_ok e"
  then have "list_all line_value (ex_initrds e)" "list_all line_value (ex_append e)"
    by (auto simp: ex_entry_ok_def list_all_iff)
  then have "config_lines_ok (entry_fields e)"
    using e key_config by (simp add: entry_fields_def ex_entry_ok_def opt_line_wf list_lines_wf menu_value_wf)
  then show ?thesis using e key_config(1) by (simp add: entry_lines_def ex_entry_ok_def config_lines_ok_def)
qed

lemma config_lines_wf:
  assumes "config_ok c"
  shows "config_lines_ok (config_lines c)"
proof -
  have "config_lines_ok (concat (map entry_lines es))" if "list_all ex_entry_ok es" for es
    using that by (induction es) (simp_all add: entry_lines_wf, simp add: config_lines_ok_def)
  then show ?thesis
    using assms key_config(2) by (simp add: config_lines_def config_ok_def opt_line_wf)
qed

lemma extlinux_parse_config:
  assumes ok: "config_ok c"
  shows "extlinux_parse (config_text (config_lines c)) = c"
proof -
  let ?init = "\<lparr>ec_default = None, ec_entries = []\<rparr>"
  have "foldl extlinux_line (?init, None) (map config_line (config_lines c)) =
      foldl extlinux_step (?init, None) (config_lines c)"
    by (rule foldl_config [OF config_lines_wf [OF ok]]) (simp add: extlinux_line_config extlinux_step_def)
  moreover have "foldl extlinux_step (?init, None) (opt_line ''default'' (ec_default c)) =
      (\<lparr>ec_default = ec_default c, ec_entries = []\<rparr>, None)"
    using ok by (auto simp: opt_line_def extlinux_step_def lower_keys extlinux_key_def config_ok_def line_value_def split: option.splits)
  ultimately have "extlinux_parse (config_text (config_lines c)) =
      (case foldl extlinux_step (\<lparr>ec_default = ec_default c, ec_entries = []\<rparr>, None)
         (concat (map entry_lines (ec_entries c))) of (c, cur) \<Rightarrow> push_entry c cur)"
    unfolding extlinux_parse_def text_lines_config [OF config_lines_wf [OF ok]]
    by (simp add: config_lines_def)
  also have "\<dots> = c"
    using ok by (subst step_entries) (simp_all add: config_ok_def push_entry_def)
  finally show ?thesis .
qed

section \<open>Properties\<close>

text \<open>
  C40: parsing a written extlinux configuration gives back the configuration, with its default label
  and its entries in order.
\<close>

theorem extlinux_render_parse:
  assumes "config_ok c"
  shows "extlinux_parse (config_text (config_lines c)) = c"
  by (rule extlinux_parse_config [OF assms])

definition demo_config :: extlinux_config where
  "demo_config =
     \<lparr>ec_default = Some ''b'',
      ec_entries =
        [\<lparr>ex_label = ''a'', ex_menu_label = None, ex_kernel = Some ''/Image'', ex_fdt = None, ex_initrds = [], ex_append = []\<rparr>,
         \<lparr>ex_label = ''b'', ex_menu_label = Some ''B 2'', ex_kernel = Some ''/Image.gz'', ex_fdt = Some ''x.dtb'',
          ex_initrds = [''/i'', ''/j''], ex_append = [''quiet splash'']\<rparr>]\<rparr>"

lemma extlinux_render_parse_witness: "extlinux_parse (config_text (config_lines demo_config)) = demo_config"
proof -
  have "config_ok demo_config"
    by (simp add: demo_config_def config_ok_def ex_entry_ok_def line_value_def newline_def is_space_def)
  then show ?thesis by (rule extlinux_render_parse)
qed

end
