(* ===== verification/BootMedia.thy ===== *)
theory BootMedia
  imports BootEntry AbSlots
begin

unbundle bit_operations_syntax

text \<open>
  Boot media (\<open>src/bootflow.rs\<close>): the local disks, the GPT and MBR partition tables that name boot
  partitions, the partition tables nested in a user data partition, and the mount of a candidate.
  The reads of a device are those of \<open>Gpt\<close> (\<open>bootflow.rs\<close> has its own copies of \<open>read_lba\<close>,
  \<open>read_exact_at\<close>, \<open>read_u32_le\<close>, \<open>read_u64_le\<close> and \<open>crc32_ieee\<close>, with the same text as
  \<open>ab_slots.rs\<close>). A \<open>Path\<close> below \<open>/sys\<close> or \<open>/dev\<close> is read through the record \<open>media\<close>; the crate
  mbrman, the loop device and \<open>mount\<close> are parameters of it.
\<close>

section \<open>The machine\<close>

text \<open>A partition of an MBR as mbrman gives it, with the answers of \<open>is_active\<close> and \<open>is_used\<close>.\<close>

record mbr_partition =
  mb_active :: bool
  mb_used :: bool
  mb_sys :: u8
  mb_starting_lba :: u32
  mb_sectors :: u32

text \<open>The arguments of \<open>LOOP_CONFIGURE\<close> that are not zero.\<close>

record loop_info =
  lo_offset :: u64
  lo_sizelimit :: u64
  lo_flags :: u32
  lo_file_name :: bytes

record loop_config =
  lc_fd :: nat
  lc_block_size :: u32
  lc_info :: loop_info

text \<open>
  \<open>md_nested\<close> is \<open>MBR::read_from\<close> on a device: the numbered partitions of \<open>iter\<close>. \<open>md_open\<close> opens a
  path and gives the file descriptor. \<open>md_loop_free\<close> is the number the kernel offers when a mapping
  (backing device, offset, size) is made, \<open>md_loop_configure\<close> sets up a loop device.
  \<open>md_mount\<close> mounts a device at a path with a file system type and options.
\<close>

record media =
  md_fs :: file_system
  md_os :: "path \<Rightarrow> os_calls"
  md_content :: "path \<Rightarrow> bytes"
  md_nested :: "path \<Rightarrow> (nat \<times> mbr_partition) list io"
  md_open :: "path \<Rightarrow> int io"
  md_loop_free :: "path \<times> u64 \<times> u64 \<Rightarrow> nat io"
  md_loop_configure :: "path \<Rightarrow> loop_config \<Rightarrow> unit io"
  md_mkdir :: "path \<Rightarrow> unit io"
  md_mount :: "path \<Rightarrow> path \<Rightarrow> string \<Rightarrow> string option \<Rightarrow> unit io"

definition SYS_BLOCK :: path where "SYS_BLOCK = ''/sys/block''"
definition DEV :: path where "DEV = ''/dev''"
definition BOOT_MOUNT_ROOT :: path where "BOOT_MOUNT_ROOT = ''/run/pocketboot/boot''"
definition MBR_SIGNATURE :: bytes where "MBR_SIGNATURE = [0x55, 0xaa]"
definition MBR_PARTITION_TABLE_OFFSET :: nat where "MBR_PARTITION_TABLE_OFFSET = 0x1be"
definition MBR_PARTITION_ENTRY_SIZE :: nat where "MBR_PARTITION_ENTRY_SIZE = 16"
definition MBR_PRIMARY_PARTITIONS :: nat where "MBR_PRIMARY_PARTITIONS = 4"
definition GPT_PROTECTIVE_MBR_TYPE :: u8 where "GPT_PROTECTIVE_MBR_TYPE = 0xee"
definition MBR_XBOOTLDR_TYPE :: u8 where "MBR_XBOOTLDR_TYPE = 0xea"
definition MBR_LINUX_PARTITION_TYPE :: u8 where "MBR_LINUX_PARTITION_TYPE = 0x83"
definition USERDATA_PARTNAME :: string where "USERDATA_PARTNAME = ''userdata''"

definition ESP_GUID :: bytes where
  "ESP_GUID = [0x28, 0x73, 0x2a, 0xc1, 0x1f, 0xf8, 0xd2, 0x11, 0xba, 0x4b, 0x00, 0xa0, 0xc9, 0x3e, 0xc9, 0x3b]"

definition XBOOTLDR_GUID :: bytes where
  "XBOOTLDR_GUID = [0xff, 0xc2, 0x13, 0xbc, 0xe6, 0x59, 0x62, 0x42, 0xa3, 0x52, 0xb2, 0x75, 0xfd, 0x6f, 0x71, 0x72]"

section \<open>Disks\<close>

record disk_candidate =
  dc_name :: string
  dc_sysfs_path :: path
  dc_dev_path :: path
  dc_logical_block_size :: u64
  dc_sectors_512 :: u64
  dc_removable :: bool

fun contains_text :: "string \<Rightarrow> string \<Rightarrow> bool" where
  "contains_text p [] = (p = [])"
| "contains_text p (c # cs) = (starts_with p (c # cs) \<or> contains_text p cs)"

definition is_local_disk_name :: "string \<Rightarrow> bool" where
  "is_local_disk_name n \<longleftrightarrow>
     \<not> is_excluded_disk_name n \<and>
     (starts_with ''mmcblk'' n \<or> starts_with ''nvme'' n \<or> starts_with ''vd'' n \<or> starts_with ''xvd'' n \<or>
      is_scsi_disk_like_name n) \<and>
     \<not> contains_text ''boot'' n \<and> \<not> contains_text ''rpmb'' n"

text \<open>\<open>fs::read_to_string(path).ok()\<close>.\<close>

definition read_ok :: "file_system \<Rightarrow> path \<Rightarrow> string option" where
  "read_ok fs p = (case fs_read_to_string fs p of Inl _ \<Rightarrow> None | Inr s \<Rightarrow> Some s)"

definition canonical_of :: "file_system \<Rightarrow> path \<Rightarrow> string option" where
  "canonical_of fs p = (case fs_canonicalize fs p of Inl _ \<Rightarrow> None | Inr s \<Rightarrow> Some s)"

definition disk_entry :: "media \<Rightarrow> string \<Rightarrow> disk_candidate list" where
  "disk_entry m name =
     (let fs = md_fs m; sysfs_path = path_join SYS_BLOCK name; dev_path = path_join DEV name
      in if \<not> is_local_disk_name name \<or> is_virtual_block (canonical_of fs sysfs_path) then []
         else if \<not> fs_exists fs dev_path then []
         else
           [\<lparr>dc_name = name, dc_sysfs_path = sysfs_path, dc_dev_path = dev_path,
             dc_logical_block_size =
               (case Option.bind (read_trimmed (read_ok fs (path_join sysfs_path ''queue/logical_block_size''))) (parse_u64 10) of
                  Some v \<Rightarrow> if 512 \<le> v \<and> is_power_of_two v then v else DEFAULT_LOGICAL_BLOCK_SIZE
                | None \<Rightarrow> DEFAULT_LOGICAL_BLOCK_SIZE),
             dc_sectors_512 =
               (case Option.bind (read_trimmed (read_ok fs (path_join sysfs_path ''size''))) (parse_u64 10) of
                  Some v \<Rightarrow> v | None \<Rightarrow> 0),
             dc_removable = (read_trimmed (read_ok fs (path_join sysfs_path ''removable'')) = Some ''1'')\<rparr>])"

definition compare_disks :: "disk_candidate \<Rightarrow> disk_candidate \<Rightarrow> comp" where
  "compare_disks left right =
     then_with (cmp (dc_removable left) (dc_removable right)) (cmp (dc_name left) (dc_name right))"

definition local_disk_candidates :: "media \<Rightarrow> disk_candidate list io" where
  "local_disk_candidates m =
     bind_io (fs_read_dir (md_fs m) SYS_BLOCK) (\<lambda>names.
     bind_io (map_io (\<lambda>r. bind_io r (\<lambda>name. Inr (disk_entry m name))) names) (\<lambda>dss.
     Inr (sort_by compare_disks (concat dss))))"

interpretation disk_order: comparator compare_disks
  unfolding compare_disks_def by (intro comparator_then_with comparator_cmp_of)

section \<open>Partitions in sysfs\<close>

definition parse_u32_text :: "string \<Rightarrow> nat option" where
  "parse_u32_text s = parse_radix 10 (2 ^ 32) s"

definition sysfs_partno :: "file_system \<Rightarrow> path \<Rightarrow> nat option" where
  "sysfs_partno fs p = Option.bind (read_trimmed (read_ok fs (path_join p ''partition''))) parse_u32_text"

fun find_partno :: "file_system \<Rightarrow> path \<Rightarrow> nat \<Rightarrow> string io list \<Rightarrow> string option io" where
  "find_partno fs sysfs partno [] = Inr None"
| "find_partno fs sysfs partno (r # rs) =
     bind_io r (\<lambda>name.
       let p = path_join sysfs name
       in if \<not> fs_exists fs (path_join p ''partition'') then find_partno fs sysfs partno rs
          else if sysfs_partno fs p = Some partno then Inr (Some name)
          else find_partno fs sysfs partno rs)"

definition partition_name_for_partno :: "file_system \<Rightarrow> path \<Rightarrow> nat \<Rightarrow> string option io" where
  "partition_name_for_partno fs disk_sysfs partno =
     bind_io (fs_read_dir fs disk_sysfs) (find_partno fs disk_sysfs partno)"

text \<open>The candidate a numbered partition of a disk becomes, where the kernel has a device for it.\<close>

definition disk_partition_candidate ::
  "media \<Rightarrow> disk_candidate \<Rightarrow> nat \<Rightarrow> boot_partition_role \<Rightarrow> partition_candidate list io" where
  "disk_partition_candidate m disk partno role =
     bind_io (partition_name_for_partno (md_fs m) (dc_sysfs_path disk) partno) (\<lambda>found.
     Inr (case found of None \<Rightarrow> []
          | Some name \<Rightarrow>
              [\<lparr>bp_disk = dc_name disk, bp_partition = name, bp_partno = partno, bp_role = role,
                bp_dev_path = path_join DEV name, bp_removable = dc_removable disk\<rparr>]))"

section \<open>MBR\<close>

definition mbr_slot :: "bytes \<Rightarrow> nat \<Rightarrow> bytes" where
  "mbr_slot raw index =
     slice raw (MBR_PARTITION_TABLE_OFFSET + index * MBR_PARTITION_ENTRY_SIZE)
       (MBR_PARTITION_TABLE_OFFSET + index * MBR_PARTITION_ENTRY_SIZE + MBR_PARTITION_ENTRY_SIZE)"

definition validate_protective_mbr :: "os_calls \<Rightarrow> bytes \<Rightarrow> unit io" where
  "validate_protective_mbr os content =
     bind_io (read_exact_at os content 512 0) (\<lambda>mbr.
     if slice mbr 510 512 \<noteq> MBR_SIGNATURE then invalid_data ''missing MBR signature before GPT''
     else if list_ex (\<lambda>index. mbr_slot mbr index ! 4 = GPT_PROTECTIVE_MBR_TYPE \<and>
               (from_le_bytes (slice (mbr_slot mbr index) 8 12) :: u32) = 1) [0..<MBR_PRIMARY_PARTITIONS]
     then Inr ()
     else invalid_data ''missing GPT protective MBR partition'')"

definition mbr_boot_slot :: "bytes \<Rightarrow> u64 \<Rightarrow> nat \<Rightarrow> nat list io" where
  "mbr_boot_slot raw disk_sectors_512 index =
     (let slot = mbr_slot raw index;
          start_lba = (ucast (from_le_bytes (slice slot 8 12) :: u32) :: u64);
          sector_count = (ucast (from_le_bytes (slice slot 12 16) :: u32) :: u64)
      in if slot ! 4 \<noteq> MBR_XBOOTLDR_TYPE then Inr []
         else if start_lba = 0 \<or> sector_count = 0 then Inr []
         else
           bind_io (ok_or (IoError InvalidData ''MBR boot partition end LBA overflows'')
                      (checked_add start_lba (sector_count - 1))) (\<lambda>end_lba.
           Inr (if disk_sectors_512 \<noteq> 0 \<and> disk_sectors_512 \<le> end_lba then [] else [index + 1])))"

text \<open>The part numbers of the boot entries.\<close>

definition parse_mbr_boot_entries :: "bytes \<Rightarrow> u64 \<Rightarrow> nat list io" where
  "parse_mbr_boot_entries raw disk_sectors_512 =
     (if length raw < 512 \<or> slice raw 510 512 \<noteq> MBR_SIGNATURE then invalid_data ''missing MBR signature''
      else bind_io (map_io (mbr_boot_slot raw disk_sectors_512) [0..<MBR_PRIMARY_PARTITIONS]) (\<lambda>nss. Inr (concat nss)))"

definition mbr_boot_partitions :: "media \<Rightarrow> disk_candidate \<Rightarrow> partition_candidate list io" where
  "mbr_boot_partitions m disk =
     (let os = md_os m (dc_dev_path disk); content = md_content m (dc_dev_path disk) in
     bind_io (map_err_prefix ''open: '' (os_open os)) (\<lambda>_.
     bind_io (read_exact_at os content 512 0) (\<lambda>mbr.
     bind_io (parse_mbr_boot_entries mbr (dc_sectors_512 disk)) (\<lambda>partnos.
     bind_io (map_io (\<lambda>partno. disk_partition_candidate m disk partno Xbootldr) partnos) (\<lambda>css.
     Inr (concat css))))))"

section \<open>GPT\<close>

record boot_gpt_header =
  bg_first_usable_lba :: u64
  bg_last_usable_lba :: u64
  bg_entries_lba :: u64
  bg_entry_count :: u32
  bg_entry_size :: u32
  bg_entry_array_crc32 :: u32

definition bf_parse_gpt_header :: "bytes \<Rightarrow> u64 \<Rightarrow> boot_gpt_header io" where
  "bf_parse_gpt_header raw blocks =
     (if length raw < GPT_MIN_HEADER_SIZE \<or> take 8 raw \<noteq> GPT_SIGNATURE
      then invalid_data ''GPT header signature not found''
      else
      bind_io (read_u32_le raw 12) (\<lambda>hs. let header_size = unat hs in
      if \<not> (GPT_MIN_HEADER_SIZE \<le> header_size \<and> header_size \<le> length raw) then invalid_data ''GPT header size is invalid''
      else
      bind_io (read_u32_le raw 16) (\<lambda>expected_crc.
      let header_for_crc = splice (take header_size raw) 16 (replicate 4 0) in
      if crc32_ieee header_for_crc \<noteq> expected_crc then invalid_data ''GPT header CRC mismatch''
      else
      bind_io (read_u64_le raw 24) (\<lambda>current_lba.
      bind_io (read_u64_le raw 32) (\<lambda>backup_lba.
      bind_io (read_u64_le raw 40) (\<lambda>first_usable_lba.
      bind_io (read_u64_le raw 48) (\<lambda>last_usable_lba.
      bind_io (read_u64_le raw 72) (\<lambda>entries_lba.
      bind_io (read_u32_le raw 80) (\<lambda>entry_count.
      bind_io (read_u32_le raw 84) (\<lambda>entry_size.
      bind_io (read_u32_le raw 88) (\<lambda>entry_array_crc32.
      if current_lba \<noteq> 1 then invalid_data ''primary GPT header is not at LBA1''
      else if blocks \<le> backup_lba \<or> blocks \<le> entries_lba
      then invalid_data ''GPT header references LBAs outside disk''
      else if last_usable_lba < first_usable_lba then invalid_data ''GPT usable LBA range is invalid''
      else if entry_count = 0 \<or> unat entry_size < GPT_MIN_ENTRY_SIZE then invalid_data ''GPT partition entry shape is invalid''
      else Inr \<lparr>bg_first_usable_lba = first_usable_lba, bg_last_usable_lba = last_usable_lba,
                 bg_entries_lba = entries_lba, bg_entry_count = entry_count, bg_entry_size = entry_size,
                 bg_entry_array_crc32 = entry_array_crc32\<rparr>)))))))))))"

record boot_gpt_entry =
  ge_partno :: nat
  ge_type_guid :: bytes
  ge_first_lba :: u64
  ge_last_lba :: u64

definition ge_is_unused :: "boot_gpt_entry \<Rightarrow> bool" where
  "ge_is_unused e \<longleftrightarrow> list_all (\<lambda>b. b = 0) (ge_type_guid e)"

definition parse_gpt_entry :: "bytes \<Rightarrow> nat \<Rightarrow> boot_gpt_entry io" where
  "parse_gpt_entry raw partno =
     (if length raw < GPT_MIN_ENTRY_SIZE then invalid_data ''GPT partition entry is too short''
      else
      bind_io (read_u64_le raw 32) (\<lambda>first_lba.
      bind_io (read_u64_le raw 40) (\<lambda>last_lba.
      Inr \<lparr>ge_partno = partno, ge_type_guid = take 16 raw, ge_first_lba = first_lba, ge_last_lba = last_lba\<rparr>)))"

definition boot_role_for_guid :: "bytes \<Rightarrow> boot_partition_role option" where
  "boot_role_for_guid guid =
     (if guid = XBOOTLDR_GUID then Some Xbootldr else if guid = ESP_GUID then Some Esp else None)"

definition saturating_mul :: "u64 \<Rightarrow> u64 \<Rightarrow> u64" where
  "saturating_mul a b = (case checked_mul a b of Some c \<Rightarrow> c | None \<Rightarrow> 0xffffffffffffffff)"

text \<open>The body of the loop over the entries of the table.\<close>

definition gpt_boot_slot ::
  "media \<Rightarrow> disk_candidate \<Rightarrow> boot_gpt_header \<Rightarrow> bytes \<Rightarrow> u64 \<Rightarrow> nat \<Rightarrow> partition_candidate list io" where
  "gpt_boot_slot m disk header table blocks index =
     bind_io (ok_or (IoError InvalidData ''GPT partition entry offset overflows'')
                (checked_mul_usize index (unat (bg_entry_size header)))) (\<lambda>offset.
     bind_io (ok_or (IoError InvalidData ''GPT partition entry end overflows'')
                (checked_add_usize offset (unat (bg_entry_size header)))) (\<lambda>e.
     bind_io (ok_or (IoError InvalidData ''GPT partition entry exceeds table'') (slice_get table offset e)) (\<lambda>raw.
     bind_io (parse_gpt_entry raw (index + 1)) (\<lambda>entry.
     if ge_is_unused entry then Inr []
     else if ge_first_lba entry < bg_first_usable_lba header \<or> bg_last_usable_lba header < ge_last_lba entry \<or>
             blocks \<le> ge_last_lba entry \<or> ge_last_lba entry < ge_first_lba entry
     then Inr []
     else (case boot_role_for_guid (ge_type_guid entry) of
             None \<Rightarrow> Inr []
           | Some role \<Rightarrow> disk_partition_candidate m disk (ge_partno entry) role)))))"

definition gpt_boot_partitions :: "media \<Rightarrow> disk_candidate \<Rightarrow> partition_candidate list io" where
  "gpt_boot_partitions m disk =
     (let os = md_os m (dc_dev_path disk); content = md_content m (dc_dev_path disk);
          lbs = dc_logical_block_size disk in
     bind_io (ok_or (IoError InvalidData ''disk byte size overflows'') (checked_mul (dc_sectors_512 disk) 512)) (\<lambda>total.
     if total < saturating_mul lbs 2 then invalid_data ''disk is too small for GPT''
     else if lbs = 0 then Inl RustPanic
     else
     (let blocks = total div lbs in
     if blocks < 2 then invalid_data ''disk has too few GPT LBAs''
     else
     bind_io (map_err_prefix ''open: '' (os_open os)) (\<lambda>_.
     bind_io (validate_protective_mbr os content) (\<lambda>_.
     bind_io (read_lba os content lbs 1) (\<lambda>header_block.
     bind_io (bf_parse_gpt_header header_block blocks) (\<lambda>header.
     bind_io (ok_or (IoError InvalidData ''GPT partition table size overflows'')
                (checked_mul (ucast (bg_entry_count header) :: u64) (ucast (bg_entry_size header)))) (\<lambda>table_len.
     if table_len = 0 \<or> GPT_TABLE_MAX_BYTES < table_len then invalid_data ''GPT partition table size is unsupported''
     else
     bind_io (ok_or (IoError InvalidData ''GPT partition table offset overflows'')
                (checked_mul (bg_entries_lba header) lbs)) (\<lambda>table_offset.
     if total < saturating_add table_offset table_len then invalid_data ''GPT partition table exceeds disk size''
     else
     bind_io (read_exact_at os content (unat table_len) (unat table_offset)) (\<lambda>table.
     if crc32_ieee table \<noteq> bg_entry_array_crc32 header then invalid_data ''GPT partition entry array CRC mismatch''
     else
     bind_io (map_io (gpt_boot_slot m disk header table blocks) [0..<unat (bg_entry_count header)]) (\<lambda>css.
     Inr (concat css))))))))))))"

section \<open>Nested partition tables\<close>

record outer_partition =
  op_disk :: string
  op_partition :: string
  op_partno :: nat
  op_dev_path :: path
  op_size_bytes :: u64
  op_removable :: bool

definition userdata_entry :: "media \<Rightarrow> disk_candidate \<Rightarrow> string \<Rightarrow> outer_partition list io" where
  "userdata_entry m disk name =
     (let fs = md_fs m; sysfs_path = path_join (dc_sysfs_path disk) name; dev_path = path_join DEV name
      in if \<not> fs_exists fs (path_join sysfs_path ''partition'') then Inr []
         else if uevent_value (read_ok fs (path_join sysfs_path ''uevent'')) ''PARTNAME'' \<noteq> Some USERDATA_PARTNAME then Inr []
         else if \<not> fs_exists fs dev_path then Inr []
         else
           (let sectors_512 =
              (case Option.bind (read_trimmed (read_ok fs (path_join sysfs_path ''size''))) (parse_u64 10) of
                 Some v \<Rightarrow> v | None \<Rightarrow> 0)
            in bind_io (ok_or (IoError InvalidData ''partition byte size overflows'') (checked_mul sectors_512 512)) (\<lambda>size_bytes.
               Inr [\<lparr>op_disk = dc_name disk, op_partition = name,
                     op_partno = (case sysfs_partno fs sysfs_path of Some n \<Rightarrow> n | None \<Rightarrow> 0),
                     op_dev_path = dev_path, op_size_bytes = size_bytes, op_removable = dc_removable disk\<rparr>])))"

definition userdata_partitions :: "media \<Rightarrow> disk_candidate \<Rightarrow> outer_partition list io" where
  "userdata_partitions m disk =
     bind_io (fs_read_dir (md_fs m) (dc_sysfs_path disk)) (\<lambda>names.
     bind_io (map_io (\<lambda>r. bind_io r (userdata_entry m disk)) names) (\<lambda>pss.
     Inr (sort_by (\<lambda>p q. cmp (op_partno p) (op_partno q)) (concat pss))))"

definition is_nested_boot_entry :: "mbr_partition \<Rightarrow> bool" where
  "is_nested_boot_entry e \<longleftrightarrow>
     mb_active e \<and> mb_sys e = MBR_LINUX_PARTITION_TYPE \<and> 0 < mb_starting_lba e \<and> 0 < mb_sectors e"

definition mbr_extent :: "u64 \<Rightarrow> nat \<times> mbr_partition \<Rightarrow> (nat \<times> u64 \<times> u64) io" where
  "mbr_extent total_sectors ie =
     (let e = snd ie; start = (ucast (mb_starting_lba e) :: u64) in
      bind_io (ok_or (IoError InvalidData ''nested MBR partition end overflows'')
                 (checked_add start (ucast (mb_sectors e)))) (\<lambda>stop.
      if mb_sectors e = 0 \<or> total_sectors < stop
      then invalid_data ''nested MBR partition exceeds containing partition''
      else Inr (fst ie, start, stop)))"

fun no_overlap :: "(nat \<times> u64 \<times> u64) list \<Rightarrow> unit io" where
  "no_overlap ((li, ls, le) # (ri, rs, re) # rest) =
     (if rs < le then invalid_data ''nested MBR partitions overlap'' else no_overlap ((ri, rs, re) # rest))"
| "no_overlap _ = Inr ()"

definition validate_mbr_extents :: "(nat \<times> mbr_partition) list \<Rightarrow> u64 \<Rightarrow> unit io" where
  "validate_mbr_extents mbr total_sectors =
     bind_io (map_io (mbr_extent total_sectors) (filter (\<lambda>ie. mb_used (snd ie)) mbr)) (\<lambda>extents.
     no_overlap (sort_by (\<lambda>p q. cmp (fst (snd p)) (fst (snd q))) extents))"

definition DEV_LOOP_CONTROL :: path where "DEV_LOOP_CONTROL = ''/dev/loop-control''"
definition LO_FLAGS_READ_ONLY :: u32 where "LO_FLAGS_READ_ONLY = 1"
definition LO_FLAGS_AUTOCLEAR :: u32 where "LO_FLAGS_AUTOCLEAR = 4"
definition LO_NAME_SIZE :: nat where "LO_NAME_SIZE = 64"

text \<open>
  The number of the free loop device is a function of what is mapped (\<open>md_loop_free\<close>). On a machine
  \<open>LOOP_CTL_GET_FREE\<close> gives the first free number, so which of several mappings gets which number
  depends on how the scanner threads interleave; what is proved of the discovery for all orders of
  arrival is proved for one such assignment of numbers.

  The backing path goes in the zeroed name field, cut so that a NUL remains.
\<close>

definition set_loop_file_name :: "loop_info \<Rightarrow> path \<Rightarrow> loop_info" where
  "set_loop_file_name info p =
     (let bs = bytes_of p; len = min (length bs) (length (lo_file_name info) - 1)
      in info\<lparr>lo_file_name := splice (lo_file_name info) 0 (take len bs)\<rparr>)"

definition create_loop_mapping :: "media \<Rightarrow> path \<Rightarrow> u64 \<Rightarrow> u64 \<Rightarrow> path io" where
  "create_loop_mapping m backing_path offset sizelimit =
     bind_io (map_err_prefix ''open /dev/loop-control: '' (md_open m DEV_LOOP_CONTROL)) (\<lambda>_.
     bind_io (md_loop_free m (backing_path, offset, sizelimit)) (\<lambda>number.
     let loop_path = DEV @ ''/loop'' @ decimal_of number in
     bind_io (map_err_prefix ''open: '' (md_open m loop_path)) (\<lambda>_.
     bind_io (map_err_prefix ''open loop backing: '' (md_open m backing_path)) (\<lambda>fd.
     let info = set_loop_file_name
           \<lparr>lo_offset = offset, lo_sizelimit = sizelimit, lo_flags = LO_FLAGS_READ_ONLY OR LO_FLAGS_AUTOCLEAR,
            lo_file_name = replicate LO_NAME_SIZE 0\<rparr> backing_path in
     if fd < 0 then invalid_data ''loop backing fd is negative''
     else
     bind_io (md_loop_configure m loop_path
         \<lparr>lc_fd = nat fd, lc_block_size = ucast DEFAULT_LOGICAL_BLOCK_SIZE, lc_info = info\<rparr>) (\<lambda>_.
     Inr loop_path)))))"

definition nested_candidate :: "media \<Rightarrow> outer_partition \<Rightarrow> nat \<times> mbr_partition \<Rightarrow> partition_candidate list io" where
  "nested_candidate m outer ie =
     (case ie of (index, entry) \<Rightarrow>
        if \<not> is_nested_boot_entry entry then Inr []
        else
        bind_io (ok_or (IoError InvalidData ''nested partition byte offset overflows'')
                   (checked_mul (ucast (mb_starting_lba entry)) DEFAULT_LOGICAL_BLOCK_SIZE)) (\<lambda>offset.
        bind_io (ok_or (IoError InvalidData ''nested partition byte size overflows'')
                   (checked_mul (ucast (mb_sectors entry)) DEFAULT_LOGICAL_BLOCK_SIZE)) (\<lambda>size.
        bind_io (map_err_prefix ''map nested partition: '' (create_loop_mapping m (op_dev_path outer) offset size)) (\<lambda>loop_path.
        Inr [\<lparr>bp_disk = op_disk outer, bp_partition = op_partition outer @ ''p'' @ decimal_of index,
              bp_partno = index, bp_role = Nested, bp_dev_path = loop_path, bp_removable = op_removable outer\<rparr>]))))"

definition nested_partitions_for_outer :: "media \<Rightarrow> outer_partition \<Rightarrow> partition_candidate list io" where
  "nested_partitions_for_outer m outer =
     bind_io (map_err_prefix ''open: '' (os_open (md_os m (op_dev_path outer)))) (\<lambda>_.
     bind_io (map_err_prefix ''read nested MBR: '' (md_nested m (op_dev_path outer))) (\<lambda>mbr.
     bind_io (validate_mbr_extents mbr (op_size_bytes outer div DEFAULT_LOGICAL_BLOCK_SIZE)) (\<lambda>_.
     bind_io (map_io (nested_candidate m outer) (filter (\<lambda>ie. fst ie \<le> MBR_PRIMARY_PARTITIONS) mbr)) (\<lambda>css.
     Inr (concat css)))))"

text \<open>An outer partition that cannot be read has no candidates.\<close>

definition or_empty :: "'a list io \<Rightarrow> 'a list" where
  "or_empty r = (case r of Inl _ \<Rightarrow> [] | Inr xs \<Rightarrow> xs)"

definition nested_boot_partitions :: "media \<Rightarrow> disk_candidate \<Rightarrow> partition_candidate list io" where
  "nested_boot_partitions m disk =
     bind_io (userdata_partitions m disk) (\<lambda>outers.
     Inr (concat (map (\<lambda>outer. or_empty (nested_partitions_for_outer m outer)) outers)))"

definition boot_partitions_for_disk :: "media \<Rightarrow> disk_candidate \<Rightarrow> partition_candidate list" where
  "boot_partitions_for_disk m disk =
     or_empty (gpt_boot_partitions m disk) @ or_empty (mbr_boot_partitions m disk) @
     or_empty (nested_boot_partitions m disk)"

section \<open>Mounting\<close>

definition mount_data_for_fstype :: "string \<Rightarrow> string option" where
  "mount_data_for_fstype fstype = (if fstype \<in> {''ext4'', ''ext2''} then Some ''noload'' else None)"

definition mount_fs :: "media \<Rightarrow> path \<Rightarrow> path \<Rightarrow> string \<Rightarrow> unit io" where
  "mount_fs m source target fstype =
     (if CHR 0x00 \<in> set source then invalid_input ''path contains NUL byte''
      else if CHR 0x00 \<in> set target then invalid_input ''path contains NUL byte''
      else md_mount m source target fstype (mount_data_for_fstype fstype))"

fun try_mounts :: "media \<Rightarrow> path \<Rightarrow> path \<Rightarrow> io_error option \<Rightarrow> string list \<Rightarrow> mounted_partition io" where
  "try_mounts m dev root last_error [] =
     Inl (case last_error of Some e \<Rightarrow> e | None \<Rightarrow> IoError InvalidData ''no filesystem types configured'')"
| "try_mounts m dev root last_error (fstype # rest) =
     (case mount_fs m dev root fstype of
        Inr _ \<Rightarrow> Inr \<lparr>mp_root = root, mp_fstype = fstype\<rparr>
      | Inl e \<Rightarrow> try_mounts m dev root (Some e) rest)"

definition mount_root :: "partition_candidate \<Rightarrow> path" where
  "mount_root c = path_join BOOT_MOUNT_ROOT (role_label (bp_role c) @ ''-'' @ bp_partition c)"

definition mount_partition :: "media \<Rightarrow> partition_candidate \<Rightarrow> mounted_partition io" where
  "mount_partition m c =
     bind_io (md_mkdir m (mount_root c)) (\<lambda>_.
     try_mounts m (bp_dev_path c) (mount_root c) None
       (case bp_role c of Esp \<Rightarrow> [''vfat''] | Xbootldr \<Rightarrow> [''ext4'', ''ext2'', ''vfat''] | Nested \<Rightarrow> [''ext4'', ''ext2'', ''vfat'']))"

section \<open>Extents of a nested table\<close>

text \<open>What the check of the extents decides: no used partition is empty, leaves the outer one or meets another.\<close>

definition extent_start :: "mbr_partition \<Rightarrow> nat" where
  "extent_start e = unat (mb_starting_lba e)"

definition extent_stop :: "mbr_partition \<Rightarrow> nat" where
  "extent_stop e = unat (mb_starting_lba e) + unat (mb_sectors e)"

definition extents_apart :: "mbr_partition \<Rightarrow> mbr_partition \<Rightarrow> bool" where
  "extents_apart d e \<longleftrightarrow> extent_stop d \<le> extent_start e \<or> extent_stop e \<le> extent_start d"

definition mbr_extents_ok :: "(nat \<times> mbr_partition) list \<Rightarrow> u64 \<Rightarrow> bool" where
  "mbr_extents_ok mbr total_sectors \<longleftrightarrow>
     (let used = filter mb_used (map snd mbr)
      in (\<forall>e \<in> set used. extent_start e < extent_stop e \<and> extent_stop e \<le> unat total_sectors) \<and>
         sorted_wrt extents_apart used)"

lemma sorted_wrt_mset:
  assumes sym: "\<And>x y. R x y \<Longrightarrow> R y x" and m: "mset xs = mset ys" and s: "sorted_wrt R xs"
  shows "sorted_wrt R ys"
proof -
  have char: "sorted_wrt R zs \<longleftrightarrow> (\<forall>x \<in># mset zs. \<forall>y \<in># mset zs - {#x#}. R x y)" for zs
  proof (induction zs)
    case (Cons z zs)
    show ?case
    proof
      assume s: "sorted_wrt R (z # zs)"
      show "\<forall>x \<in># mset (z # zs). \<forall>y \<in># mset (z # zs) - {#x#}. R x y"
      proof (intro ballI)
        fix x y
        assume x: "x \<in># mset (z # zs)" and y: "y \<in># mset (z # zs) - {#x#}"
        consider "x = z" "y \<in># mset zs" | "x \<in># mset zs" "y = z" | "x \<in># mset zs" "y \<in># mset zs - {#x#}"
          using x y by (cases "x = z") (auto split: if_splits)
        then show "R x y" using s sym Cons.IH by cases auto
      qed
    next
      assume a: "\<forall>x \<in># mset (z # zs). \<forall>y \<in># mset (z # zs) - {#x#}. R x y"
      have "R x y" if "x \<in># mset zs" "y \<in># mset zs - {#x#}" for x y
      proof -
        have "mset zs - {#x#} \<subseteq># mset (z # zs) - {#x#}" by (auto simp: subseteq_mset_def diff_le_mono)
        then have "y \<in># mset (z # zs) - {#x#}" using that(2) by (rule mset_subset_eqD)
        moreover have "x \<in># mset (z # zs)" using that(1) by simp
        ultimately show ?thesis using a by blast
      qed
      then show "sorted_wrt R (z # zs)" using a Cons.IH by simp
    qed
  qed simp
  show ?thesis using s char [of xs] char [of ys] m by simp
qed

definition extent_of :: "nat \<times> mbr_partition \<Rightarrow> nat \<times> u64 \<times> u64" where
  "extent_of ie = (fst ie, ucast (mb_starting_lba (snd ie)), ucast (mb_starting_lba (snd ie)) + ucast (mb_sectors (snd ie)))"

lemma unat_ucast_u32: "unat (ucast (w::u32) :: u64) = unat w"
proof -
  have "unat w < 2 ^ 64" using unat_less_u32 [of w] by simp
  then show ?thesis by (simp only: unsigned_ucast_eq take_bit_nat_eq_self_iff len_num1 len_bit0 len_bit1) (simp add: take_bit_nat_eq_self)
qed

lemma extent_of_values:
  "unat (fst (snd (extent_of ie))) = extent_start (snd ie)"
  "unat (snd (snd (extent_of ie))) = extent_stop (snd ie)"
proof -
  have "unat (mb_starting_lba (snd ie)) + unat (mb_sectors (snd ie)) < 2 ^ 64"
    using unat_less_u32 [of "mb_starting_lba (snd ie)"] unat_less_u32 [of "mb_sectors (snd ie)"] by simp
  then have "unat (ucast (mb_starting_lba (snd ie)) + ucast (mb_sectors (snd ie)) :: u64) =
      unat (mb_starting_lba (snd ie)) + unat (mb_sectors (snd ie))"
    by (subst unat_add_exact) (simp_all add: unat_ucast_u32)
  then show "unat (snd (snd (extent_of ie))) = extent_stop (snd ie)" by (simp add: extent_of_def extent_stop_def)
  show "unat (fst (snd (extent_of ie))) = extent_start (snd ie)"
    by (simp add: extent_of_def extent_start_def unat_ucast_u32)
qed

lemma mbr_extent_eq:
  "mbr_extent limit ie =
     (if extent_start (snd ie) < extent_stop (snd ie) \<and> extent_stop (snd ie) \<le> unat limit
      then Inr (extent_of ie) else invalid_data ''nested MBR partition exceeds containing partition'')"
proof -
  have c: "checked_add (ucast (mb_starting_lba (snd ie))) (ucast (mb_sectors (snd ie))) = Some (snd (snd (extent_of ie)))"
    using extent_of_values(2) [of ie] by (simp add: unat_ucast_u32 extent_stop_def)
  have z: "mb_sectors (snd ie) = 0 \<longleftrightarrow> \<not> extent_start (snd ie) < extent_stop (snd ie)"
    by (simp add: extent_start_def extent_stop_def unat_eq_0)
  have t: "limit < snd (snd (extent_of ie)) \<longleftrightarrow> unat limit < extent_stop (snd ie)"
    by (simp add: word_less_nat_alt extent_of_values)
  have s: "(fst ie, ucast (mb_starting_lba (snd ie)), snd (snd (extent_of ie))) = extent_of ie"
    by (simp add: extent_of_def)
  show ?thesis by (auto simp: mbr_extent_def Let_def c z t s)
qed

lemma map_io_if:
  "map_io (\<lambda>x. if p x then Inr (f x) else Inl e) xs = (if list_all p xs then Inr (map f xs) else Inl e)"
  by (induction xs) auto

lemma no_overlap_iff:
  assumes "\<forall>x \<in> set xs. fst (snd x) < snd (snd x)"
  shows "no_overlap xs = Inr () \<longleftrightarrow> sorted_wrt (\<lambda>x y. snd (snd x) \<le> fst (snd y)) xs"
  using assms
proof (induction xs rule: no_overlap.induct)
  case (1 li ls le ri rs re rest)
  show ?case
  proof (cases "rs < le")
    case False
    have "le \<le> fst (snd z)" if "sorted_wrt (\<lambda>x y. snd (snd x) \<le> fst (snd y)) ((ri, rs, re) # rest)" "z \<in> set rest" for z
      using that False 1(2) by force
    then show ?thesis using 1 False by auto
  qed auto
qed auto

lemma validate_mbr_extents_iff:
  "validate_mbr_extents mbr limit = Inr () \<longleftrightarrow> mbr_extents_ok mbr limit"
proof -
  let ?used = "filter (\<lambda>ie. mb_used (snd ie)) mbr"
  let ?in = "\<lambda>ie. extent_start (snd ie) < extent_stop (snd ie) \<and> extent_stop (snd ie) \<le> unat limit"
  let ?c = "\<lambda>p q. cmp (fst (snd p)) (fst (snd q)) :: comp"
  let ?ys = "sort_by ?c (map extent_of ?used)"
  have snd_used: "filter mb_used (map snd mbr) = map snd ?used"
    by (simp add: filter_map comp_def)
  have e: "mbr_extent limit = (\<lambda>ie. if ?in ie then Inr (extent_of ie)
      else invalid_data ''nested MBR partition exceeds containing partition'')"
    by (rule ext) (rule mbr_extent_eq)
  have split: "validate_mbr_extents mbr limit = Inr () \<longleftrightarrow> list_all ?in ?used \<and> no_overlap ?ys = Inr ()"
    unfolding validate_mbr_extents_def e map_io_if by simp
  have "no_overlap ?ys = Inr () \<longleftrightarrow> sorted_wrt extents_apart (map snd ?used)" if all: "list_all ?in ?used"
  proof -
    let ?apart = "\<lambda>x y :: nat \<times> u64 \<times> u64. snd (snd x) \<le> fst (snd y) \<or> snd (snd y) \<le> fst (snd x)"
    have set: "set ?ys = set (map extent_of ?used)" by simp
    have pos: "\<forall>x \<in> set ?ys. fst (snd x) < snd (snd x)"
      unfolding set using all by (auto simp: list_all_iff word_less_nat_alt extent_of_values)
    have "sorted_wrt (\<lambda>x y. snd (snd x) \<le> fst (snd y)) ?ys \<longleftrightarrow> sorted_wrt ?apart ?ys"
    proof
      assume "sorted_wrt ?apart ?ys"
      moreover have "sorted_by ?c ?ys"
        by (rule sorted_sort_by) (rule comparator_cmp_of [of "\<lambda>p. fst (snd p)"])
      ultimately have "sorted_wrt (\<lambda>x y. ?apart x y \<and> ?c x y \<noteq> Greater) ?ys"
        by (simp add: sorted_wrt_iff_nth_less)
      then show "sorted_wrt (\<lambda>x y. snd (snd x) \<le> fst (snd y)) ?ys"
      proof (rule sorted_wrt_mono_rel [rotated])
        fix x y
        assume "x \<in> set ?ys" "y \<in> set ?ys" "?apart x y \<and> ?c x y \<noteq> Greater"
        then show "snd (snd x) \<le> fst (snd y)" using pos by force
      qed
    qed (auto elim: sorted_wrt_mono_rel [rotated])
    also have "\<dots> \<longleftrightarrow> sorted_wrt ?apart (map extent_of ?used)"
      by (rule iffI; erule sorted_wrt_mset [rotated 2]) auto
    also have "\<dots> \<longleftrightarrow> sorted_wrt extents_apart (map snd ?used)"
      by (simp add: sorted_wrt_map extents_apart_def word_le_nat_alt extent_of_values)
    finally show ?thesis using no_overlap_iff [OF pos] by simp
  qed
  then show ?thesis
    unfolding split mbr_extents_ok_def Let_def snd_used by (auto simp: list_all_iff)
qed

text \<open>A nested candidate stands for a mapping of bytes inside the outer partition.\<close>

lemma nested_partitions_mapped:
  assumes n: "nested_partitions_for_outer m outer = Inr cs" and c: "c \<in> set cs"
    and honest: "\<And>mbr. md_nested m (op_dev_path outer) = Inr mbr \<Longrightarrow> \<forall>(i, e) \<in> set mbr. mb_sys e \<noteq> 0 \<longrightarrow> mb_used e"
  shows "\<exists>offset size. create_loop_mapping m (op_dev_path outer) offset size = Inr (bp_dev_path c) \<and>
    512 \<le> unat offset \<and> 512 \<le> unat size \<and> unat offset + unat size \<le> unat (op_size_bytes outer)"
proof -
  obtain mbr css where mbr: "md_nested m (op_dev_path outer) = Inr mbr"
    and ok: "mbr_extents_ok mbr (op_size_bytes outer div DEFAULT_LOGICAL_BLOCK_SIZE)"
    and css: "map_io (nested_candidate m outer) (filter (\<lambda>ie. fst ie \<le> MBR_PRIMARY_PARTITIONS) mbr) = Inr css" "cs = concat css"
    using n by (auto simp: nested_partitions_for_outer_def simp flip: validate_mbr_extents_iff)
  obtain d where d: "d \<in> set css" "c \<in> set d" using c css by auto
  have "\<exists>ie \<in> set xs. nested_candidate m outer ie = Inr d" if "map_io (nested_candidate m outer) xs = Inr css" for xs
    using that d(1) by (induction xs arbitrary: css) auto
  then obtain i e where ie: "(i, e) \<in> set mbr" "nested_candidate m outer (i, e) = Inr d" using css(1) by fastforce
  then have boot: "is_nested_boot_entry e" using d(2) by (auto simp: nested_candidate_def split: if_splits)
  then obtain offset size where off: "checked_mul (ucast (mb_starting_lba e)) DEFAULT_LOGICAL_BLOCK_SIZE = Some offset"
      "checked_mul (ucast (mb_sectors e)) DEFAULT_LOGICAL_BLOCK_SIZE = Some size"
      "create_loop_mapping m (op_dev_path outer) offset size = Inr (bp_dev_path c)"
    using ie(2) d(2) by (auto simp: nested_candidate_def simp del: checked_mul_Some)
  have vals: "unat offset = unat (mb_starting_lba e) * 512" "unat size = unat (mb_sectors e) * 512"
    using off(1,2) by (simp_all add: DEFAULT_LOGICAL_BLOCK_SIZE_def unat_ucast_u32)
  have "mb_used e" using honest [OF mbr] ie(1) boot by (auto simp: is_nested_boot_entry_def MBR_LINUX_PARTITION_TYPE_def)
  then have "e \<in> set (filter mb_used (map snd mbr))" using ie(1) by force
  then have "extent_stop e \<le> unat (op_size_bytes outer div 512)"
    using ok by (auto simp: mbr_extents_ok_def Let_def DEFAULT_LOGICAL_BLOCK_SIZE_def)
  then have "extent_stop e * 512 \<le> unat (op_size_bytes outer)"
    by (simp add: unat_div)
  moreover have "0 < unat (mb_starting_lba e)" "0 < unat (mb_sectors e)"
    using boot by (auto simp: is_nested_boot_entry_def word_less_nat_alt)
  ultimately have "512 \<le> unat offset \<and> 512 \<le> unat size \<and> unat offset + unat size \<le> unat (op_size_bytes outer)"
    using vals by (simp add: extent_stop_def algebra_simps)
  then show ?thesis using off(3) by blast
qed

text \<open>A mapping that exists is read-only, and the name of the backing device in it ends in a NUL.\<close>

lemma create_loop_mapping_read_only:
  assumes "create_loop_mapping m backing offset limit = Inr p"
  shows "\<exists>config. md_loop_configure m p config = Inr () \<and> lo_offset (lc_info config) = offset \<and>
    lo_sizelimit (lc_info config) = limit \<and> lo_flags (lc_info config) AND LO_FLAGS_READ_ONLY \<noteq> 0 \<and>
    length (lo_file_name (lc_info config)) = 64 \<and> last (lo_file_name (lc_info config)) = 0"
proof -
  let ?info = "set_loop_file_name \<lparr>lo_offset = offset, lo_sizelimit = limit, lo_flags = LO_FLAGS_READ_ONLY OR LO_FLAGS_AUTOCLEAR,
      lo_file_name = replicate LO_NAME_SIZE 0\<rparr> backing"
  from assms obtain config where c: "md_loop_configure m p config = Inr ()" "lc_info config = ?info"
    unfolding create_loop_mapping_def Let_def by (auto split: if_splits)
  have len: "length (take (min (length (bytes_of backing)) 63) (bytes_of backing)) \<le> 63" by simp
  have name: "lo_file_name ?info = splice (replicate 64 0) 0 (take (min (length (bytes_of backing)) 63) (bytes_of backing))"
    by (simp add: set_loop_file_name_def Let_def LO_NAME_SIZE_def)
  then have l: "length (lo_file_name ?info) = 64" using len by simp
  moreover have "last (lo_file_name ?info) = 0"
    using len unfolding name splice_def by (simp add: last_drop)
  ultimately show ?thesis
    using c by (intro exI [of _ config]) (simp add: set_loop_file_name_def Let_def LO_FLAGS_READ_ONLY_def LO_FLAGS_AUTOCLEAR_def)
qed

section \<open>GPT candidates\<close>

text \<open>The slot of the table a part number stands for, and when it is a usable boot partition.\<close>

definition gpt_slot_bytes :: "boot_gpt_header \<Rightarrow> bytes \<Rightarrow> nat \<Rightarrow> bytes" where
  "gpt_slot_bytes header table index =
     slice table (index * unat (bg_entry_size header)) (index * unat (bg_entry_size header) + unat (bg_entry_size header))"

definition boot_slot_ok :: "boot_gpt_header \<Rightarrow> u64 \<Rightarrow> bytes \<Rightarrow> boot_partition_role \<Rightarrow> bool" where
  "boot_slot_ok header blocks raw role \<longleftrightarrow>
     (\<exists>first last. read_u64_le raw 32 = Inr first \<and> read_u64_le raw 40 = Inr last \<and>
        bg_first_usable_lba header \<le> first \<and> first \<le> last \<and> last \<le> bg_last_usable_lba header \<and> last < blocks \<and>
        boot_role_for_guid (take 16 raw) = Some role)"

definition candidate_of :: "media \<Rightarrow> disk_candidate \<Rightarrow> partition_candidate \<Rightarrow> bool" where
  "candidate_of m disk c \<longleftrightarrow>
     bp_disk c = dc_name disk \<and> bp_removable c = dc_removable disk \<and>
     partition_name_for_partno (md_fs m) (dc_sysfs_path disk) (bp_partno c) = Inr (Some (bp_partition c)) \<and>
     bp_dev_path c = path_join DEV (bp_partition c)"

lemma disk_partition_candidate_elem:
  assumes d: "disk_partition_candidate m disk partno role = Inr cs" and c: "c \<in> set cs"
  shows "candidate_of m disk c \<and> bp_partno c = partno \<and> bp_role c = role \<and> cs = [c]"
proof -
  from d obtain found where f: "partition_name_for_partno (md_fs m) (dc_sysfs_path disk) partno = Inr found"
    and cs: "cs = (case found of None \<Rightarrow> [] | Some name \<Rightarrow>
      [\<lparr>bp_disk = dc_name disk, bp_partition = name, bp_partno = partno, bp_role = role,
        bp_dev_path = path_join DEV name, bp_removable = dc_removable disk\<rparr>])"
    unfolding disk_partition_candidate_def by auto
  show ?thesis using f c unfolding cs candidate_of_def by (cases found) simp_all
qed

lemma gpt_boot_slot_elem:
  assumes s: "gpt_boot_slot m disk header table blocks index = Inr cs" and c: "c \<in> set cs"
  shows "candidate_of m disk c \<and> bp_partno c = index + 1 \<and> cs = [c] \<and>
    boot_slot_ok header blocks (gpt_slot_bytes header table index) (bp_role c) \<and> bp_role c \<noteq> Nested"
proof -
  from s c obtain entry role where
    e: "parse_gpt_entry (gpt_slot_bytes header table index) (index + 1) = Inr entry"
    "\<not> (ge_first_lba entry < bg_first_usable_lba header \<or> bg_last_usable_lba header < ge_last_lba entry \<or>
        blocks \<le> ge_last_lba entry \<or> ge_last_lba entry < ge_first_lba entry)"
    "boot_role_for_guid (ge_type_guid entry) = Some role"
    "disk_partition_candidate m disk (ge_partno entry) role = Inr cs"
    by (auto simp: gpt_boot_slot_def gpt_slot_bytes_def split: if_splits option.splits)
  have "boot_slot_ok header blocks (gpt_slot_bytes header table index) role"
    using e(1-3) by (auto simp: parse_gpt_entry_def boot_slot_ok_def not_less not_le split: if_splits)
  moreover have "ge_partno entry = index + 1" using e(1) by (auto simp: parse_gpt_entry_def split: if_splits)
  moreover have "role \<noteq> Nested" using e(3) by (auto simp: boot_role_for_guid_def split: if_splits)
  ultimately show ?thesis using disk_partition_candidate_elem [OF e(4) c] by simp
qed

text \<open>The fields of a header block by their offsets, and the table a header describes, where it lies on the disk.\<close>

definition boot_header_at :: "bytes \<Rightarrow> boot_gpt_header \<Rightarrow> bool" where
  "boot_header_at block h \<longleftrightarrow> take 8 block = bytes_of ''EFI PART'' \<and> read_u64_le block 24 = Inr 1 \<and>
     read_u64_le block 40 = Inr (bg_first_usable_lba h) \<and> read_u64_le block 48 = Inr (bg_last_usable_lba h) \<and>
     read_u64_le block 72 = Inr (bg_entries_lba h) \<and> read_u32_le block 80 = Inr (bg_entry_count h) \<and>
     read_u32_le block 84 = Inr (bg_entry_size h) \<and> read_u32_le block 88 = Inr (bg_entry_array_crc32 h)"

definition boot_table_at :: "bytes \<Rightarrow> nat \<Rightarrow> boot_gpt_header \<Rightarrow> bytes \<Rightarrow> bool" where
  "boot_table_at content lbs h table \<longleftrightarrow>
     (let start = unat (bg_entries_lba h) * lbs; len = unat (bg_entry_count h) * unat (bg_entry_size h) in
      start + len \<le> length content \<and> table = slice content start (start + len))"

lemma bf_parse_gpt_header_at: "bf_parse_gpt_header block blocks = Inr h \<Longrightarrow> boot_header_at block h"
  by (auto simp: bf_parse_gpt_header_def boot_header_at_def GPT_SIGNATURE_def Let_def split: if_splits)

lemma saturating_add_le:
  assumes "\<not> bound < saturating_add a b" and "unat bound < 2 ^ 64 - 1"
  shows "unat a + unat b \<le> unat bound"
proof (cases "checked_add a b")
  case None
  then have "\<not> bound < 0xffffffffffffffff" using assms(1) by (simp add: saturating_add_def)
  then show ?thesis using assms(2) by (simp add: word_less_nat_alt)
next
  case (Some c)
  then have "unat c = unat a + unat b" by simp
  then show ?thesis using assms(1) Some by (simp add: saturating_add_def word_less_nat_alt not_less)
qed

lemma gpt_boot_partitions_sound:
  assumes "gpt_boot_partitions m disk = Inr cs"
    and os: "os = md_os m (dc_dev_path disk)" and content: "content = md_content m (dc_dev_path disk)"
    and lbs: "lbs = unat (dc_logical_block_size disk)" and sectors: "sectors = unat (dc_sectors_512 disk)"
  shows "\<exists>blocks block header table.
    unat blocks = sectors * 512 div lbs \<and>
    read_exact_at os content lbs lbs = Inr block \<and> bf_parse_gpt_header block blocks = Inr header \<and> boot_header_at block header \<and>
    read_exact_at os content (unat (bg_entry_count header) * unat (bg_entry_size header)) (unat (bg_entries_lba header) * lbs) = Inr table \<and>
    crc32_ieee table = bg_entry_array_crc32 header \<and>
    (os_faithful os \<longrightarrow> length content = sectors * 512 \<longrightarrow>
       block = slice content lbs (2 * lbs) \<and> boot_table_at content lbs header table) \<and>
    (\<forall>c \<in> set cs. candidate_of m disk c \<and> bp_role c \<noteq> Nested \<and>
       1 \<le> bp_partno c \<and> bp_partno c \<le> unat (bg_entry_count header) \<and>
       boot_slot_ok header blocks (gpt_slot_bytes header table (bp_partno c - 1)) (bp_role c))"
proof -
  let ?lbs = "dc_logical_block_size disk"
  from assms(1) obtain total block header table tlen toff css where
    t: "checked_mul (dc_sectors_512 disk) 512 = Some total"
    and b: "read_lba os content ?lbs 1 = Inr block" and two: "\<not> total div ?lbs < 2" and nz: "?lbs \<noteq> 0"
    and h: "bf_parse_gpt_header block (total div ?lbs) = Inr header"
    and tlen: "checked_mul (ucast (bg_entry_count header) :: u64) (ucast (bg_entry_size header)) = Some tlen"
    and toff: "checked_mul (bg_entries_lba header) ?lbs = Some toff"
    and fits: "\<not> total < saturating_add toff tlen" and table: "read_exact_at os content (unat tlen) (unat toff) = Inr table"
    and crc: "crc32_ieee table = bg_entry_array_crc32 header"
    and css: "map_io (gpt_boot_slot m disk header table (total div ?lbs)) [0..<unat (bg_entry_count header)] = Inr css"
    and cs: "cs = concat css"
    by (auto simp: gpt_boot_partitions_def Let_def os content simp del: checked_mul_Some split: if_splits)
  let ?blocks = "total div ?lbs"
  have total: "unat total = sectors * 512" using t sectors by simp
  have blocks: "unat ?blocks = sectors * 512 div lbs" using total lbs by (simp add: unat_div)
  have cand: "candidate_of m disk c \<and> bp_role c \<noteq> Nested \<and> 1 \<le> bp_partno c \<and> bp_partno c \<le> unat (bg_entry_count header) \<and>
      boot_slot_ok header ?blocks (gpt_slot_bytes header table (bp_partno c - 1)) (bp_role c)" if "c \<in> set cs" for c
  proof -
    from that cs obtain ds where "ds \<in> set css" "c \<in> set ds" by auto
    then obtain index where "index < unat (bg_entry_count header)" "gpt_boot_slot m disk header table ?blocks index = Inr ds"
      using map_io_elem [OF css] by fastforce
    then show ?thesis using gpt_boot_slot_elem \<open>c \<in> set ds\<close> by fastforce
  qed
  have block: "read_exact_at os content lbs lbs = Inr block"
    using b lbs unat_less_u64 [of ?lbs] by (simp add: read_lba_def checked_lba_offset_def checked_mul_def)
  have wide: "take_bit 64 (unat w) = unat w" for w :: u32
    using unsigned_less [of w, where ?'a = nat] by (simp add: take_bit_nat_eq_self)
  have len: "unat tlen = unat (bg_entry_count header) * unat (bg_entry_size header)" and off: "unat toff = unat (bg_entries_lba header) * lbs"
    using tlen toff lbs wide by (simp_all add: unsigned_ucast_eq)
  have on_disk: "block = slice content lbs (2 * lbs) \<and> boot_table_at content lbs header table"
    if f: "os_faithful os" and size: "length content = sectors * 512"
  proof -
    have "2 \<le> sectors * 512 div lbs" using two blocks by (simp add: word_less_nat_alt)
    then have "lbs + lbs \<le> length content"
      using size by (metis div_times_less_eq_dividend mult_2 mult_le_mono1 order_trans)
    moreover have "unat total < 2 ^ 64 - 1"
    proof -
      have "sectors * 512 < 2 ^ 64" using total unsigned_less [of total, where ?'a = nat] by simp
      then show ?thesis using total by (simp; presburger)
    qed
    then have "unat toff + unat tlen \<le> length content" using saturating_add_le [OF fits] total size by simp
    ultimately show ?thesis
      using read_exact_at_faithful [OF f _ block] read_exact_at_faithful [OF f _ table]
      by (simp add: boot_table_at_def Let_def len off mult_2)
  qed
  show ?thesis
    using blocks block h bf_parse_gpt_header_at [OF h] table [unfolded len off] crc on_disk cand
    by (intro exI [of _ ?blocks] exI [of _ block] exI [of _ header] exI [of _ table]) blast
qed

lemma mbr_boot_partitions_elem:
  assumes m: "mbr_boot_partitions m disk = Inr cs" and c: "c \<in> set cs"
  shows "candidate_of m disk c \<and> bp_role c = Xbootldr"
proof -
  from m obtain partnos css where css: "map_io (\<lambda>partno. disk_partition_candidate m disk partno Xbootldr) partnos = Inr css" "cs = concat css"
    by (auto simp: mbr_boot_partitions_def Let_def)
  then obtain ds where ds: "ds \<in> set css" "c \<in> set ds" using c by auto
  show ?thesis
    using map_io_elem [OF css(1) ds(1)] disk_partition_candidate_elem ds(2) by blast
qed

end
