(* ===== verification/BootFlow.thy ===== *)
theory BootFlow
  imports Bls Extlinux BootMedia KexecLoad
begin

text \<open>
  Discovery and start of boot entries (\<open>src/bootflow.rs\<close>): the scan of a mounted partition,
  \<open>discover\<close>, which scans the disks and then their partitions in parallel and collects what the
  scanners send, and \<open>BootEntry::load\<close>. The scanners run one per thread; what their threads decide
  is only the order in which the results arrive, which is a parameter: a function that permutes
  the list of results. The file system is the one after the partitions are mounted; every mount
  has a directory of its own.
\<close>

section \<open>Scanning a partition\<close>

text \<open>One file of the entries directory.\<close>

definition bls_dir_entry ::
  "file_system \<Rightarrow> partition_candidate \<Rightarrow> path \<Rightarrow> bls_context \<Rightarrow> path \<Rightarrow> string io \<Rightarrow> boot_entry option" where
  "bls_dir_entry fs part root ctx entries_dir r =
     (case r of Inl _ \<Rightarrow> None
      | Inr name \<Rightarrow>
          (let p = path_join entries_dir name
           in if extension p \<noteq> Some ''conf'' then None
              else kept_entry (parse_bls_file fs part root p ctx)))"

definition scan_bls_entries ::
  "file_system \<Rightarrow> partition_candidate \<Rightarrow> mounted_partition \<Rightarrow> bls_context \<Rightarrow> boot_entry list" where
  "scan_bls_entries fs part mount ctx =
     (case bls_entries_dir ctx (mp_root mount) of
        Inl _ \<Rightarrow> []
      | Inr entries_dir \<Rightarrow>
          (case fs_read_dir fs entries_dir of
             Inl _ \<Rightarrow> []
           | Inr names \<Rightarrow>
               List.map_filter (bls_dir_entry fs part (mp_root mount) ctx entries_dir) names))"

definition EXTLINUX_CONFIG_PATHS :: "path list" where
  "EXTLINUX_CONFIG_PATHS = [''extlinux/extlinux.conf'', ''boot/extlinux/extlinux.conf'']"

definition scan_extlinux_entries ::
  "file_system \<Rightarrow> partition_candidate \<Rightarrow> mounted_partition \<Rightarrow> boot_entry list" where
  "scan_extlinux_entries fs part mount =
     concat (map (\<lambda>config_path.
       let p = path_join (mp_root mount) config_path
       in if \<not> fs_is_file fs p then [] else or_empty (parse_extlinux_file fs part (mp_root mount) p))
       EXTLINUX_CONFIG_PATHS)"

definition scan_boot_partition :: "media \<Rightarrow> partition_candidate \<Rightarrow> boot_entry list" where
  "scan_boot_partition m part =
     (case mount_partition m part of
        Inl _ \<Rightarrow> []
      | Inr mount \<Rightarrow>
          (let ctx = from_boot_root (md_fs m) (mp_root mount)
           in scan_bls_entries (md_fs m) part mount ctx @ scan_extlinux_entries (md_fs m) part mount))"

section \<open>Discovery\<close>

text \<open>\<open>Vec::dedup_by\<close>: an element goes where the last one kept is the same.\<close>

fun dedup_by :: "('a \<Rightarrow> 'a \<Rightarrow> bool) \<Rightarrow> 'a list \<Rightarrow> 'a list" where
  "dedup_by same (x # y # rest) =
     (if same y x then dedup_by same (x # rest) else x # dedup_by same (y # rest))"
| "dedup_by same xs = xs"

definition same_candidate :: "partition_candidate \<Rightarrow> partition_candidate \<Rightarrow> bool" where
  "same_candidate left right \<longleftrightarrow>
     bp_role left = bp_role right \<and> bp_disk left = bp_disk right \<and> bp_partno left = bp_partno right \<and>
     bp_partition left = bp_partition right \<and> components (bp_dev_path left) = components (bp_dev_path right)"

definition discover_boot_partitions ::
  "media \<Rightarrow> (partition_candidate list list \<Rightarrow> partition_candidate list list) \<Rightarrow> partition_candidate list io" where
  "discover_boot_partitions m arrival =
     bind_io (local_disk_candidates m) (\<lambda>disks.
     Inr (concat (arrival (map (boot_partitions_for_disk m) disks))))"

text \<open>The loop that receives the entries: the entries so far, and the lists reported as progress.\<close>

definition receive_entries :: "boot_entry list \<times> boot_entry list list \<Rightarrow> boot_entry list \<Rightarrow> boot_entry list \<times> boot_entry list list" where
  "receive_entries st partition_entries =
     (case st of (found, reports) \<Rightarrow>
        if partition_entries = [] then (found, reports)
        else (let found = sort_by compare_boot_entries (found @ partition_entries) in (found, reports @ [found])))"

definition boot_partitions ::
  "media \<Rightarrow> (partition_candidate list list \<Rightarrow> partition_candidate list list) \<Rightarrow> partition_candidate list io" where
  "boot_partitions m arrival =
     bind_io (discover_boot_partitions m arrival) (\<lambda>partitions.
     Inr (dedup_by same_candidate (sort_by compare_partition_candidates partitions)))"

text \<open>The result of \<open>discover\<close>, and the lists it reports on the way.\<close>

definition discover ::
  "media \<Rightarrow> (partition_candidate list list \<Rightarrow> partition_candidate list list) \<Rightarrow>
   (boot_entry list list \<Rightarrow> boot_entry list list) \<Rightarrow> (boot_entry list \<times> boot_entry list list) io" where
  "discover m arrival1 arrival2 =
     bind_io (boot_partitions m arrival1) (\<lambda>partitions.
     case foldl receive_entries ([], []) (arrival2 (map (scan_boot_partition m) partitions)) of
       (found, reports) \<Rightarrow> Inr (sort_by compare_boot_entries found, reports))"

section \<open>Starting an entry\<close>

text \<open>
  Files for kexec: \<open>pf_open\<close> opens a file, and gives what reading it will return; \<open>pf_create\<close> is
  \<open>create_payload_memfd\<close>; \<open>pf_store\<close> writes bytes to the new memory file and reopens it.
\<close>

record payload_files =
  pf_open :: "path \<Rightarrow> bytes io io"
  pf_create :: "unit io"
  pf_store :: "bytes \<Rightarrow> bytes io io"

definition memfd_payload :: "payload_files \<Rightarrow> bytes \<Rightarrow> bytes io io" where
  "memfd_payload pf contents = bind_io (pf_create pf) (\<lambda>_. pf_store pf contents)"

definition prepare_kernel_payload :: "decoders \<Rightarrow> payload_files \<Rightarrow> bytes io \<Rightarrow> bytes io io" where
  "prepare_kernel_payload dec pf file =
     bind_io file (\<lambda>payload.
     bind_io (prepare_kernel_payload_bytes dec payload) (\<lambda>prepared.
     case prepared of None \<Rightarrow> Inr file | Some p \<Rightarrow> memfd_payload pf p))"

definition open_payload :: "payload_files \<Rightarrow> string \<Rightarrow> path \<Rightarrow> bytes io io" where
  "open_payload pf what p = map_err_prefix (''open '' @ what @ '': '') (pf_open pf p)"

definition append_initrd :: "payload_files \<Rightarrow> bytes \<Rightarrow> path \<Rightarrow> bytes io" where
  "append_initrd pf payload p =
     bind_io (open_payload pf ''initrd'' p) (\<lambda>file.
     bind_io (map_err_prefix ''append initrd: '' file) (\<lambda>bs. Inr (payload @ bs)))"

definition open_initrd_payload :: "payload_files \<Rightarrow> path list \<Rightarrow> bytes io option io" where
  "open_initrd_payload pf initrds =
     (case initrds of
        [] \<Rightarrow> Inr None
      | [p] \<Rightarrow> bind_io (open_payload pf ''initrd'' p) (\<lambda>f. Inr (Some f))
      | paths \<Rightarrow>
          bind_io (pf_create pf) (\<lambda>_.
          bind_io (fold_io (append_initrd pf) [] paths) (\<lambda>payload.
          bind_io (pf_store pf payload) (\<lambda>f. Inr (Some f)))))"

definition boot_entry_load ::
  "decoders \<Rightarrow> payload_files \<Rightarrow> (u64 \<Rightarrow> loaded_segment list \<Rightarrow> unit io) \<Rightarrow> trampoline_symbols \<Rightarrow> string io \<Rightarrow>
   bytes io \<Rightarrow> boot_entry \<Rightarrow> unit io" where
  "boot_entry_load dec pf kexec_load syms iomem firmware_fdt e =
     bind_io (open_payload pf ''kernel'' (be_linux e)) (\<lambda>kern.
     bind_io (prepare_kernel_payload dec pf kern) (\<lambda>kern.
     bind_io (open_initrd_payload pf (be_initrds e)) (\<lambda>initrd.
     bind_io (case be_dtb e of None \<Rightarrow> Inr None
              | Some p \<Rightarrow> bind_io (open_payload pf ''DTB'' p) (\<lambda>f. Inr (Some f))) (\<lambda>dtb.
     bind_io (kexec_image_new kern initrd dtb (be_cmdline e)) (\<lambda>img.
     kexec_image_load kexec_load syms iomem firmware_fdt img)))))"

section \<open>Confinement\<close>

lemma mount_partition_root: "mount_partition m part = Inr mount \<Longrightarrow> mp_root mount = mount_root part"
proof -
  have "try_mounts m dev root e fstypes = Inr mount \<Longrightarrow> mp_root mount = root" for dev root e fstypes
    by (induction fstypes arbitrary: e) (auto split: sum.splits)
  then show "mount_partition m part = Inr mount \<Longrightarrow> mp_root mount = mount_root part"
    by (auto simp: mount_partition_def)
qed

lemma mount_root_absolute: "is_absolute (mount_root part)"
  unfolding mount_root_def by (rule absolute_join) (simp add: BOOT_MOUNT_ROOT_def is_absolute_def slash_def)

lemma or_empty_elem: "x \<in> set (or_empty r) \<longleftrightarrow> (\<exists>xs. r = Inr xs \<and> x \<in> set xs)"
  by (cases r) (auto simp: or_empty_def)

lemma bls_dir_entry_confined:
  assumes "bls_dir_entry fs part root ctx d r = Some e" and "is_absolute root"
  shows "confined fs root e \<and> entry_of part e"
  using assms by (cases r) (auto simp: bls_dir_entry_def Let_def dest: parse_bls_file_confined split: if_splits)

lemma scan_bls_confined:
  assumes e: "e \<in> set (scan_bls_entries fs part mount ctx)" and root: "is_absolute (mp_root mount)"
  shows "confined fs (mp_root mount) e \<and> entry_of part e"
proof (cases "bls_entries_dir ctx (mp_root mount)")
  case (Inr d)
  then show ?thesis
    using e root by (cases "fs_read_dir fs d") (auto simp: scan_bls_entries_def set_map_filter dest: bls_dir_entry_confined)
qed (use e in \<open>simp add: scan_bls_entries_def\<close>)

lemma scan_extlinux_confined:
  assumes e: "e \<in> set (scan_extlinux_entries fs part mount)" and root: "is_absolute (mp_root mount)"
  shows "confined fs (mp_root mount) e \<and> entry_of part e"
proof -
  from e obtain p es where "parse_extlinux_file fs part (mp_root mount) p = Inr es" "e \<in> set es"
    by (auto simp: scan_extlinux_entries_def Let_def or_empty_elem split: if_splits)
  then show ?thesis using parse_extlinux_file_confined [OF _ root] by blast
qed

lemma scan_boot_partition_confined:
  assumes e: "e \<in> set (scan_boot_partition m part)"
  shows "confined (md_fs m) (mount_root part) e \<and> entry_of part e"
proof (cases "mount_partition m part")
  case (Inr mount)
  then show ?thesis
    using e scan_bls_confined [of e "md_fs m" part mount] scan_extlinux_confined [of e "md_fs m" part mount]
      mount_root_absolute [of part] mount_partition_root [OF Inr]
    by (auto simp: scan_boot_partition_def Let_def)
qed (use e in \<open>simp add: scan_boot_partition_def\<close>)

section \<open>Arrival\<close>

lemma receive_entries_step:
  "receive_entries (found, reports) [] = (found, reports)"
  "b \<noteq> [] \<Longrightarrow> receive_entries (found, reports) b =
     (sort_by compare_boot_entries (found @ b), reports @ [sort_by compare_boot_entries (found @ b)])"
  by (simp_all add: receive_entries_def Let_def)

lemma foldl_receive:
  "fst (foldl receive_entries (found, reports) bs) = foldl (\<lambda>f b. if b = [] then f else sort_by compare_boot_entries (f @ b)) found bs"
  by (induction bs arbitrary: found reports) (simp_all add: receive_entries_def Let_def)

lemma receive_sorts:
  "sort_by compare_boot_entries (fst (foldl receive_entries (found, reports) bs)) =
   sort_by compare_boot_entries (found @ concat bs)"
  unfolding foldl_receive
proof (induction bs arbitrary: found)
  case (Cons b bs)
  then show ?case
    using sort_by_absorb [OF entry_order.comparator_axioms, of "found @ b" "concat bs"] by simp
qed simp

lemma discover_eq:
  "discover m arrival1 arrival2 =
     bind_io (boot_partitions m arrival1) (\<lambda>partitions.
     let batches = arrival2 (map (scan_boot_partition m) partitions)
     in Inr (sort_by compare_boot_entries (concat batches), snd (foldl receive_entries ([], []) batches)))"
  unfolding discover_def
  by (rule bind_io_cong [OF refl]) (simp add: Let_def receive_sorts [of "[]" "[]", simplified, symmetric] split: prod.splits)

end
