(* ===== verification/BootOrder.thy ===== *)
theory BootOrder
  imports BootFlow
begin

text \<open>
  The list of boot entries does not depend on the threads (\<open>discover\<close> of \<open>src/bootflow.rs\<close>): under
  any two orders in which the disks and then the partitions report, the result is the same. The
  sorts are stable and no two batches share a class of the comparison: candidates of different
  disks differ in the disk, and after the duplicates are dropped no two candidates have the same
  role, disk and partition name. What the proof needs of the outside world is \<open>listings_ok\<close>.
\<close>

section \<open>The outside world\<close>

text \<open>No directory lists a name twice, and mbrman numbers the partitions of a table.\<close>

definition names_of :: "string io list \<Rightarrow> string list" where
  "names_of rs = List.map_filter (\<lambda>r. case r of Inl _ \<Rightarrow> None | Inr n \<Rightarrow> Some n) rs"

definition listings_ok :: "media \<Rightarrow> bool" where
  "listings_ok m \<longleftrightarrow>
     (\<forall>p rs. fs_read_dir (md_fs m) p = Inr rs \<longrightarrow> distinct (names_of rs)) \<and>
     (\<forall>p mbr. md_nested m p = Inr mbr \<longrightarrow> distinct (map fst mbr))"

lemma names_of_Inr: "names_of (map Inr ns) = ns"
  by (induction ns) (simp_all add: names_of_def map_filter_simps)

lemma map_io_bind: "map_io (\<lambda>r. bind_io r f) rs = Inr ys \<Longrightarrow> \<exists>ns. rs = map Inr ns \<and> map_io f ns = Inr ys"
proof (induction rs arbitrary: ys)
  case (Cons r rs)
  then obtain n y zs where "r = Inr n" "f n = Inr y" "map_io (\<lambda>r. bind_io r f) rs = Inr zs" "ys = y # zs" by auto
  moreover from this obtain ns where "rs = map Inr ns" "map_io f ns = Inr zs" using Cons.IH by blast
  ultimately show ?case by (intro exI [of _ "n # ns"]) simp
qed simp

section \<open>Batches that differ\<close>

lemma separate_map:
  assumes "distinct (map k xs)"
    and "\<And>x a y b. x \<in> set xs \<Longrightarrow> y \<in> set xs \<Longrightarrow> a \<in> set (f x) \<Longrightarrow> b \<in> set (f y) \<Longrightarrow> c a b = Equiv \<Longrightarrow> k x = k y"
  shows "separate c (map f xs)"
  using assms
proof (induction xs)
  case (Cons x xs)
  have "separate c (map f xs)" by (rule Cons.IH) (use Cons.prems in auto)
  moreover have "c a b \<noteq> Equiv" if "a \<in> set (f x)" "y \<in> set xs" "b \<in> set (f y)" for a b y
    using Cons.prems(2) [of x y a b] Cons.prems(1) that by force
  ultimately show ?case by (auto simp: separate_def)
qed (simp add: separate_def)

lemma distinct_concat_map:
  assumes "distinct xs" and "\<And>x. x \<in> set xs \<Longrightarrow> distinct (f x)"
    and "\<And>x y a. x \<in> set xs \<Longrightarrow> y \<in> set xs \<Longrightarrow> a \<in> set (f x) \<Longrightarrow> a \<in> set (f y) \<Longrightarrow> x = y"
  shows "distinct (concat (map f xs))"
  using assms
proof (induction xs)
  case (Cons x xs)
  have "distinct (concat (map f xs))" by (rule Cons.IH) (use Cons.prems in auto)
  moreover have "set (f x) \<inter> set (concat (map f xs)) = {}"
  proof (rule ccontr)
    assume "set (f x) \<inter> set (concat (map f xs)) \<noteq> {}"
    then obtain y a where "y \<in> set xs" "a \<in> set (f x)" "a \<in> set (f y)" by auto
    then show False using Cons.prems(1,3) by auto
  qed
  ultimately show ?case using Cons.prems by simp
qed simp

section \<open>Duplicates\<close>

text \<open>Equal elements stand together.\<close>

primrec grouped :: "'a list \<Rightarrow> bool" where
  "grouped [] = True"
| "grouped (x # xs) = (grouped xs \<and> (x \<in> set xs \<longrightarrow> hd xs = x))"

lemma dedup_by_grouped:
  assumes "grouped xs" and "\<And>x y. x \<in> set xs \<Longrightarrow> y \<in> set xs \<Longrightarrow> same x y \<longleftrightarrow> x = y"
  shows "distinct (dedup_by same xs) \<and> set (dedup_by same xs) = set xs"
  using assms
proof (induction same xs rule: dedup_by.induct)
  case (1 same x y rest)
  show ?case
  proof (cases "same y x")
    case True
    then have "x = y" using 1 by simp
    then show ?thesis using 1 True by simp
  next
    case False
    then have "x \<noteq> y" using 1 by simp
    then show ?thesis using 1 False by auto
  qed
qed auto

lemma grouped_sorted:
  assumes c: "comparator c" and s: "sorted_by c xs" and d: "distinct (filter single xs)"
    and eq: "\<And>x y. x \<in> set xs \<Longrightarrow> y \<in> set xs \<Longrightarrow> \<not> single x \<Longrightarrow> c x y = Equiv \<Longrightarrow> y = x"
  shows "grouped xs"
  using s d eq
proof (induction xs)
  case (Cons x xs)
  have g: "grouped xs" by (rule Cons.IH) (use Cons.prems in \<open>auto split: if_splits\<close>)
  have "hd xs = x" if x: "x \<in> set xs"
  proof -
    obtain y ys where xs: "xs = y # ys" using x by (cases xs) auto
    have "\<not> single x" using Cons.prems(2) x by auto
    moreover have "c x y \<noteq> Greater" using Cons.prems(1) xs by simp
    moreover have "c y x \<noteq> Greater"
      using Cons.prems(1) x xs comparator.refl [OF c, of x] by auto
    ultimately show ?thesis
      using Cons.prems(3) [of x y] comparator.quasisym_not_greater [OF c, of x y] xs by simp
  qed
  then show ?case using g by simp
qed simp

section \<open>Candidates of one disk\<close>

lemma decimal_no_p: "CHR ''p'' \<notin> set (decimal_of n)"
proof (induction n rule: decimal_of.induct)
  case (1 n)
  have "CHR ''p'' \<noteq> char_of (48 + d)" if "d < 10" for d :: nat
  proof
    assume "CHR ''p'' = char_of (48 + d)"
    then have "(of_char (CHR ''p'') :: nat) = of_char (char_of (48 + d) :: char)" by simp
    then show False using that by simp
  qed
  then show ?case using 1 by (subst decimal_of.simps) auto
qed

lemma last_p_unique:
  assumes "xs @ CHR ''p'' # as = ys @ CHR ''p'' # bs" and "CHR ''p'' \<notin> set as" "CHR ''p'' \<notin> set bs"
  shows "xs = ys \<and> as = bs"
  using assms by (auto simp: append_eq_append_conv2 append_eq_Cons_conv Cons_eq_append_conv)

lemma nested_candidate_elem:
  "nested_candidate m outer ie = Inr cs \<Longrightarrow> c \<in> set cs \<Longrightarrow>
   cs = [c] \<and> bp_role c = Nested \<and> bp_disk c = op_disk outer \<and> bp_removable c = op_removable outer \<and>
   bp_partition c = op_partition outer @ CHR ''p'' # decimal_of (fst ie)"
  by (auto simp: nested_candidate_def split: prod.splits if_splits)

lemma nested_partitions_names:
  assumes ok: "listings_ok m" and n: "nested_partitions_for_outer m outer = Inr cs"
  shows "distinct (map bp_partition cs) \<and>
    (\<forall>c \<in> set cs. bp_role c = Nested \<and> bp_disk c = op_disk outer \<and> bp_removable c = op_removable outer \<and>
       (\<exists>i. bp_partition c = op_partition outer @ CHR ''p'' # decimal_of i))"
proof -
  from n obtain mbr css where mbr: "md_nested m (op_dev_path outer) = Inr mbr"
    and css: "map_io (nested_candidate m outer) (filter (\<lambda>ie. fst ie \<le> MBR_PRIMARY_PARTITIONS) mbr) = Inr css"
    and cs: "cs = concat css"
    unfolding nested_partitions_for_outer_def by auto
  have d: "distinct (map fst (filter (\<lambda>ie. fst ie \<le> MBR_PRIMARY_PARTITIONS) mbr))"
    using ok mbr by (simp add: listings_ok_def distinct_map_filter)
  have "distinct (map bp_partition (concat css)) \<and>
      (\<forall>c \<in> set (concat css). \<exists>ie \<in> set xs. bp_partition c = op_partition outer @ CHR ''p'' # decimal_of (fst ie))"
    if "map_io (nested_candidate m outer) xs = Inr css" "distinct (map fst xs)" for xs
    using that
  proof (induction xs arbitrary: css)
    case (Cons ie xs)
    then obtain ds dss where ds: "nested_candidate m outer ie = Inr ds" "map_io (nested_candidate m outer) xs = Inr dss" "css = ds # dss"
      by auto
    have IH: "distinct (map bp_partition (concat dss))"
      "\<forall>c \<in> set (concat dss). \<exists>ie \<in> set xs. bp_partition c = op_partition outer @ CHR ''p'' # decimal_of (fst ie)"
      using Cons.IH [OF ds(2)] Cons.prems(2) by auto
    show ?case
    proof (cases ds)
      case Nil
      then show ?thesis using IH ds(3) by auto
    next
      case (Cons c cs')
      then have c: "ds = [c]" "bp_partition c = op_partition outer @ CHR ''p'' # decimal_of (fst ie)"
        using nested_candidate_elem [OF ds(1), of c] by auto
      have "bp_partition c \<notin> set (map bp_partition (concat dss))"
      proof
        assume "bp_partition c \<in> set (map bp_partition (concat dss))"
        then obtain d where "d \<in> set (concat dss)" "bp_partition d = bp_partition c" by (metis imageE list.set_map)
        then obtain je where "je \<in> set xs" "decimal_of (fst je) = decimal_of (fst ie)" using IH(2) c(2) by fastforce
        then show False using Cons.prems(2) by (simp add: decimal_of_inject) (metis image_eqI)
      qed
      then show ?thesis using IH ds(3) c by auto
    qed
  qed simp
  from this [OF css d] have "distinct (map bp_partition cs)"
    "\<forall>c \<in> set cs. \<exists>i. bp_partition c = op_partition outer @ CHR ''p'' # decimal_of i"
    using cs by blast+
  moreover have "bp_role c = Nested \<and> bp_disk c = op_disk outer \<and> bp_removable c = op_removable outer" if "c \<in> set cs" for c
  proof -
    from that cs obtain ds where "ds \<in> set css" "c \<in> set ds" by auto
    then show ?thesis using map_io_elem [OF css] nested_candidate_elem by blast
  qed
  ultimately show ?thesis by blast
qed

lemma userdata_entry_elem:
  "userdata_entry m disk name = Inr ps \<Longrightarrow>
   ps = [] \<or> (\<exists>p. ps = [p] \<and> op_partition p = name \<and> op_disk p = dc_name disk \<and> op_removable p = dc_removable disk)"
  by (auto simp: userdata_entry_def Let_def split: if_splits)

lemma map_io_names:
  assumes "map_io f xs = Inr yss" and "distinct xs"
    and "\<And>x ys. f x = Inr ys \<Longrightarrow> ys = [] \<or> (\<exists>y. ys = [y] \<and> k y = x)"
  shows "distinct (map k (concat yss)) \<and> set (map k (concat yss)) \<subseteq> set xs"
  using assms(1,2)
proof (induction xs arbitrary: yss)
  case (Cons x xs)
  then obtain ys zss where y: "f x = Inr ys" "map_io f xs = Inr zss" "yss = ys # zss" by auto
  have IH: "distinct (map k (concat zss))" "set (map k (concat zss)) \<subseteq> set xs"
    using Cons.IH [OF y(2)] Cons.prems(2) by simp_all
  consider "ys = []" | z where "ys = [z]" "k z = x" using assms(3) [OF y(1)] by blast
  then show ?case
  proof cases
    case 2
    then have "k z \<notin> set (map k (concat zss))" using IH(2) Cons.prems(2) by auto
    then show ?thesis using IH 2 y(3) by auto
  qed (use IH y(3) in auto)
qed simp

lemma userdata_partitions_names:
  assumes ok: "listings_ok m" and u: "userdata_partitions m disk = Inr ps"
  shows "distinct (map op_partition ps) \<and> (\<forall>p \<in> set ps. op_disk p = dc_name disk \<and> op_removable p = dc_removable disk)"
proof -
  from u obtain rs pss where rs: "fs_read_dir (md_fs m) (dc_sysfs_path disk) = Inr rs"
    and pss: "map_io (\<lambda>r. bind_io r (userdata_entry m disk)) rs = Inr pss"
    and ps: "ps = sort_by (\<lambda>p q. cmp (op_partno p) (op_partno q)) (concat pss)"
    by (auto simp: userdata_partitions_def)
  obtain ns where ns: "rs = map Inr ns" "map_io (userdata_entry m disk) ns = Inr pss"
    using map_io_bind [OF pss] by blast
  have "distinct (names_of rs)" using ok rs unfolding listings_ok_def by blast
  then have "distinct ns" by (simp add: ns(1) names_of_Inr)
  then have "distinct (map op_partition (concat pss))"
    using map_io_names [OF ns(2), of op_partition] userdata_entry_elem by metis
  moreover have "mset (map op_partition ps) = mset (map op_partition (concat pss))" unfolding ps by (simp only: mset_map mset_sort_by)
  ultimately have "distinct (map op_partition ps)" by (metis mset_eq_imp_distinct_iff)
  moreover have "op_disk p = dc_name disk \<and> op_removable p = dc_removable disk" if "p \<in> set ps" for p
  proof -
    from that ps obtain qs where "qs \<in> set pss" "p \<in> set qs" by auto
    then show ?thesis using map_io_elem [OF ns(2)] userdata_entry_elem by fastforce
  qed
  ultimately show ?thesis by blast
qed

lemma nested_boot_names:
  assumes ok: "listings_ok m"
  shows "distinct (map bp_partition (or_empty (nested_boot_partitions m disk))) \<and>
    (\<forall>c \<in> set (or_empty (nested_boot_partitions m disk)).
       bp_role c = Nested \<and> bp_disk c = dc_name disk \<and> bp_removable c = dc_removable disk)"
proof (cases "userdata_partitions m disk")
  case (Inl e)
  then show ?thesis by (simp add: nested_boot_partitions_def or_empty_def)
next
  case (Inr ps)
  let ?f = "\<lambda>outer. or_empty (nested_partitions_for_outer m outer)"
  have cs: "or_empty (nested_boot_partitions m disk) = concat (map ?f ps)"
    using Inr by (simp add: nested_boot_partitions_def or_empty_def)
  have u: "distinct (map op_partition ps)" "\<forall>p \<in> set ps. op_disk p = dc_name disk \<and> op_removable p = dc_removable disk"
    using userdata_partitions_names [OF ok Inr] by auto
  have n: "distinct (map bp_partition (?f outer)) \<and>
    (\<forall>c \<in> set (?f outer). bp_role c = Nested \<and> bp_disk c = op_disk outer \<and> bp_removable c = op_removable outer \<and>
       (\<exists>i. bp_partition c = op_partition outer @ CHR ''p'' # decimal_of i))" for outer
    using nested_partitions_names [OF ok] by (cases "nested_partitions_for_outer m outer") (auto simp: or_empty_def)
  have "distinct (concat (map (\<lambda>outer. map bp_partition (?f outer)) ps))"
  proof (rule distinct_concat_map)
    show "distinct ps" using u(1) by (simp add: distinct_map)
    show "distinct (map bp_partition (?f outer))" for outer using n by blast
    fix x y a
    assume "x \<in> set ps" "y \<in> set ps" and a: "a \<in> set (map bp_partition (?f x))" "a \<in> set (map bp_partition (?f y))"
    obtain i where i: "a = op_partition x @ CHR ''p'' # decimal_of i" using n [of x] a(1) by auto
    obtain j where j: "a = op_partition y @ CHR ''p'' # decimal_of j" using n [of y] a(2) by auto
    have "op_partition x = op_partition y"
      using last_p_unique [OF i [unfolded j, symmetric]] decimal_no_p by blast
    then show "x = y" using u(1) \<open>x \<in> set ps\<close> \<open>y \<in> set ps\<close> by (simp add: distinct_map inj_on_def)
  qed
  then have "distinct (map bp_partition (concat (map ?f ps)))" by (simp add: map_concat comp_def)
  then show ?thesis using n u(2) by (auto simp: cs)
qed

section \<open>Candidates of all disks\<close>

definition nested :: "partition_candidate \<Rightarrow> bool" where
  "nested c \<longleftrightarrow> bp_role c = Nested"

definition place :: "partition_candidate \<Rightarrow> boot_partition_role \<times> string \<times> string" where
  "place c = (bp_role c, bp_disk c, bp_partition c)"

lemma disk_candidates:
  assumes ok: "listings_ok m" and c: "c \<in> set (boot_partitions_for_disk m disk)"
  shows "bp_disk c = dc_name disk" "bp_removable c = dc_removable disk" "\<not> nested c \<Longrightarrow> candidate_of m disk c"
proof -
  consider "c \<in> set (or_empty (gpt_boot_partitions m disk))" | "c \<in> set (or_empty (mbr_boot_partitions m disk))"
    | "c \<in> set (or_empty (nested_boot_partitions m disk))"
    using c by (auto simp: boot_partitions_for_disk_def)
  then have "bp_disk c = dc_name disk \<and> bp_removable c = dc_removable disk \<and> (nested c \<or> candidate_of m disk c)"
  proof cases
    case 1
    then obtain cs where "gpt_boot_partitions m disk = Inr cs" "c \<in> set cs" by (auto simp: or_empty_elem)
    then have "candidate_of m disk c" using gpt_boot_partitions_sound by blast
    then show ?thesis by (simp add: candidate_of_def)
  next
    case 2
    then have "candidate_of m disk c" using mbr_boot_partitions_elem by (auto simp: or_empty_elem)
    then show ?thesis by (simp add: candidate_of_def)
  next
    case 3
    then show ?thesis using nested_boot_names [OF ok] by (simp add: nested_def)
  qed
  then show "bp_disk c = dc_name disk" "bp_removable c = dc_removable disk" "\<not> nested c \<Longrightarrow> candidate_of m disk c"
    by blast+
qed

lemma distinct_filter_none: "\<forall>x \<in> set xs. \<not> p x \<Longrightarrow> filter p xs = []"
  by simp

lemma disk_nested_distinct:
  assumes ok: "listings_ok m"
  shows "distinct (map place (filter nested (boot_partitions_for_disk m disk)))"
proof -
  have "\<not> nested c" if "c \<in> set (or_empty (gpt_boot_partitions m disk))" for c
  proof -
    from that obtain cs where "gpt_boot_partitions m disk = Inr cs" "c \<in> set cs" by (auto simp: or_empty_elem)
    then show ?thesis using gpt_boot_partitions_sound unfolding nested_def by blast
  qed
  then have g: "filter nested (or_empty (gpt_boot_partitions m disk)) = []" by simp
  have "\<not> nested c" if "c \<in> set (or_empty (mbr_boot_partitions m disk))" for c
    using that mbr_boot_partitions_elem [of m disk] by (fastforce simp: or_empty_elem nested_def)
  then have b: "filter nested (or_empty (mbr_boot_partitions m disk)) = []" by simp
  have "distinct (map bp_partition (filter nested (or_empty (nested_boot_partitions m disk))))"
    using nested_boot_names [OF ok] by (simp add: distinct_map_filter)
  then have "distinct (map place (filter nested (or_empty (nested_boot_partitions m disk))))"
    by (auto simp: distinct_map place_def inj_on_def)
  then show ?thesis by (simp add: boot_partitions_for_disk_def g b)
qed

text \<open>A partition name has one number, so a candidate of a table is known by role, disk and name.\<close>

lemma find_partno_name: "find_partno fs sysfs n rs = Inr (Some name) \<Longrightarrow> sysfs_partno fs (path_join sysfs name) = Some n"
  by (induction rs) (auto simp: Let_def split: if_splits)

lemma candidate_of_place:
  assumes "candidate_of m disk c" "candidate_of m disk d" "bp_role c = bp_role d"
    and "bp_partition c = bp_partition d \<or> bp_partno c = bp_partno d"
  shows "c = d"
proof -
  have n: "sysfs_partno (md_fs m) (path_join (dc_sysfs_path disk) (bp_partition x)) = Some (bp_partno x)"
    if "candidate_of m disk x" for x
    using that find_partno_name by (auto simp: candidate_of_def partition_name_for_partno_def)
  have "bp_partno c = bp_partno d" using n [OF assms(1)] n [OF assms(2)] assms(4) by auto
  moreover from this have "bp_partition c = bp_partition d" using assms by (simp add: candidate_of_def)
  ultimately show ?thesis using assms by (simp add: candidate_of_def)
qed

lemma disk_entry_cases: "disk_entry m name = [] \<or> (\<exists>y. disk_entry m name = [y] \<and> dc_name y = name)"
  unfolding disk_entry_def Let_def by (simp cong: if_cong)

lemma local_disks_distinct:
  assumes ok: "listings_ok m" and d: "local_disk_candidates m = Inr disks"
  shows "distinct (map dc_name disks)"
proof -
  from d obtain rs dss where rs: "fs_read_dir (md_fs m) SYS_BLOCK = Inr rs"
    and dss: "map_io (\<lambda>r. bind_io r (\<lambda>name. Inr (disk_entry m name))) rs = Inr dss"
    and disks: "disks = sort_by compare_disks (concat dss)"
    unfolding local_disk_candidates_def bind_io_eq_Inr sum.inject by blast
  from map_io_bind [OF dss] obtain ns where ns: "rs = map Inr ns" "map_io (\<lambda>name. Inr (disk_entry m name)) ns = (Inr dss :: disk_candidate list list io)"
    by blast
  have "distinct (names_of rs)" using ok rs unfolding listings_ok_def by blast
  then have "distinct ns" by (simp add: ns(1) names_of_Inr)
  moreover have "ds = [] \<or> (\<exists>y. ds = [y] \<and> dc_name y = name)" if "Inr (disk_entry m name) = Inr ds" for name ds
    using disk_entry_cases [of m name] that by simp
  ultimately have "distinct (map dc_name (concat dss))" using map_io_names [OF ns(2), of dc_name] by blast
  moreover have "mset (map dc_name disks) = mset (map dc_name (concat dss))" unfolding disks by (simp only: mset_map mset_sort_by)
  ultimately show ?thesis by (metis mset_eq_imp_distinct_iff)
qed

lemma all_candidates:
  assumes ok: "listings_ok m" and d: "local_disk_candidates m = Inr disks"
  defines "cs \<equiv> concat (map (boot_partitions_for_disk m) disks)"
  shows "distinct (map place (filter nested cs))"
    and "\<lbrakk>x \<in> set cs; y \<in> set cs; \<not> nested x; \<not> nested y; place x = place y \<or> compare_partition_candidates x y = Equiv\<rbrakk> \<Longrightarrow> x = y"
    and "separate compare_partition_candidates (map (boot_partitions_for_disk m) disks)"
proof -
  have dn: "distinct (map dc_name disks)" by (rule local_disks_distinct [OF ok d])
  have "distinct (concat (map (\<lambda>disk. map place (filter nested (boot_partitions_for_disk m disk))) disks))"
  proof (rule distinct_concat_map)
    show "distinct disks" using dn by (simp add: distinct_map)
    show "distinct (map place (filter nested (boot_partitions_for_disk m disk)))" for disk
      by (rule disk_nested_distinct [OF ok])
    fix x y a
    assume "x \<in> set disks" "y \<in> set disks"
      "a \<in> set (map place (filter nested (boot_partitions_for_disk m x)))"
      "a \<in> set (map place (filter nested (boot_partitions_for_disk m y)))"
    then have "dc_name x = dc_name y" using disk_candidates(1) [OF ok] by (fastforce simp: place_def)
    then show "x = y" using dn \<open>x \<in> set disks\<close> \<open>y \<in> set disks\<close> by (simp add: distinct_map inj_on_def)
  qed
  then show "distinct (map place (filter nested cs))"
    by (simp add: cs_def filter_concat map_concat comp_def)
  show "separate compare_partition_candidates (map (boot_partitions_for_disk m) disks)"
    by (rule separate_map [OF dn]) (auto simp: compare_partition_candidates_Equiv dest!: disk_candidates(1) [OF ok])
  assume x: "x \<in> set cs" "y \<in> set cs" "\<not> nested x" "\<not> nested y" "place x = place y \<or> compare_partition_candidates x y = Equiv"
  then obtain dx dy where dx: "dx \<in> set disks" "x \<in> set (boot_partitions_for_disk m dx)"
    and dy: "dy \<in> set disks" "y \<in> set (boot_partitions_for_disk m dy)"
    by (auto simp: cs_def)
  have "bp_disk x = bp_disk y" using x(5) by (auto simp: place_def compare_partition_candidates_Equiv)
  then have "dc_name dx = dc_name dy" using disk_candidates(1) [OF ok dx(2)] disk_candidates(1) [OF ok dy(2)] by simp
  then have "dx = dy" using dn dx(1) dy(1) by (simp add: distinct_map inj_on_def)
  then show "x = y"
    using disk_candidates(3) [OF ok dx(2) x(3)] disk_candidates(3) [OF ok dy(2) x(4)] x(5)
    by (intro candidate_of_place) (auto simp: place_def compare_partition_candidates_Equiv)
qed

lemma boot_partitions_eq:
  assumes ok: "listings_ok m" and a: "\<And>xs. mset (arrival xs) = mset xs"
  shows "boot_partitions m arrival =
    bind_io (local_disk_candidates m) (\<lambda>disks.
    Inr (dedup_by same_candidate (sort_by compare_partition_candidates (concat (map (boot_partitions_for_disk m) disks)))))"
proof (cases "local_disk_candidates m")
  case (Inr disks)
  have "sort_by compare_partition_candidates (concat (map (boot_partitions_for_disk m) disks)) =
      sort_by compare_partition_candidates (concat (arrival (map (boot_partitions_for_disk m) disks)))"
    by (rule sort_by_batches [OF partition_order.comparator_axioms all_candidates(3) [OF ok Inr]]) (simp add: a)
  then show ?thesis by (simp add: boot_partitions_def discover_boot_partitions_def Inr)
qed (simp add: boot_partitions_def discover_boot_partitions_def)

lemma boot_partitions_distinct:
  assumes ok: "listings_ok m" and a: "\<And>xs. mset (arrival xs) = mset xs" and ps: "boot_partitions m arrival = Inr ps"
  shows "distinct (map place ps)"
proof -
  obtain disks where d: "local_disk_candidates m = Inr disks"
    using ps by (auto simp: boot_partitions_eq [OF ok a])
  let ?cs = "concat (map (boot_partitions_for_disk m) disks)"
  let ?s = "sort_by compare_partition_candidates ?cs"
  note cand = all_candidates [OF ok d]
  have "distinct (map place (filter nested ?s))"
  proof -
    have "mset (map place (filter nested ?s)) = mset (map place (filter nested ?cs))" by simp
    then show ?thesis using cand(1) by (metis mset_eq_imp_distinct_iff)
  qed
  then have dn: "distinct (filter nested ?s)" and inj: "inj_on place (set (filter nested ?s))"
    by (simp_all add: distinct_map)
  have role: "nested x \<longleftrightarrow> nested y" if "place x = place y \<or> compare_partition_candidates x y = Equiv" for x y
    using that by (auto simp: place_def nested_def compare_partition_candidates_Equiv)
  have place_inj: "x = y" if "x \<in> set ?s" "y \<in> set ?s" "place x = place y" for x y
    using that cand(2) [of x y] role [of x y] inj by (cases "nested x") (auto simp: inj_on_def)
  have "grouped ?s"
  proof (rule grouped_sorted [OF partition_order.comparator_axioms sorted_sort_by [OF partition_order.comparator_axioms] dn])
    show "y = x" if "x \<in> set ?s" "y \<in> set ?s" "\<not> nested x" "compare_partition_candidates x y = Equiv" for x y
      using that cand(2) [of x y] role [of x y] by simp
  qed
  moreover have "same_candidate x y \<longleftrightarrow> x = y" if "x \<in> set ?s" "y \<in> set ?s" for x y
    using that place_inj [of x y] by (auto simp: same_candidate_def place_def)
  ultimately have "distinct (dedup_by same_candidate ?s) \<and> set (dedup_by same_candidate ?s) = set ?s"
    by (rule dedup_by_grouped)
  moreover have "ps = dedup_by same_candidate ?s" using ps by (simp add: boot_partitions_eq [OF ok a] d)
  ultimately show ?thesis using place_inj by (auto simp: distinct_map inj_on_def)
qed

section \<open>The result of the discovery\<close>

lemma scans_separate:
  assumes "distinct (map place ps)"
  shows "separate compare_boot_entries (map (scan_boot_partition m) ps)"
proof (rule separate_map [OF assms])
  fix x a y b
  assume "a \<in> set (scan_boot_partition m x)" "b \<in> set (scan_boot_partition m y)" "compare_boot_entries a b = Equiv"
  then show "place x = place y"
    using scan_boot_partition_confined [of a m x] scan_boot_partition_confined [of b m y]
    by (simp add: entry_of_def place_def compare_boot_entries_Equiv)
qed

lemma discover_result:
  assumes ok: "listings_ok m" and a: "\<And>xs. mset (arrival1 xs) = mset xs" and b: "\<And>xs. mset (arrival2 xs) = mset xs"
  shows "bind_io (discover m arrival1 arrival2) (\<lambda>r. Inr (fst r)) =
    bind_io (boot_partitions m id) (\<lambda>ps. Inr (sort_by compare_boot_entries (concat (map (scan_boot_partition m) ps))))"
proof -
  have eq: "boot_partitions m arrival1 = boot_partitions m id"
    by (simp add: boot_partitions_eq [OF ok a] boot_partitions_eq [OF ok])
  show ?thesis
  proof (cases "boot_partitions m id")
    case (Inr ps)
    have "distinct (map place ps)" by (rule boot_partitions_distinct [OF ok a]) (simp add: eq Inr)
    then have "sort_by compare_boot_entries (concat (map (scan_boot_partition m) ps)) =
        sort_by compare_boot_entries (concat (arrival2 (map (scan_boot_partition m) ps)))"
      by (intro sort_by_batches [OF entry_order.comparator_axioms scans_separate]) (simp_all add: b)
    then show ?thesis by (simp add: discover_eq eq Inr Let_def)
  qed (simp add: discover_eq eq)
qed

end
