(* ===== verification/BootDiscovery.thy ===== *)
theory BootDiscovery
  imports BootOrder
begin

text \<open>
  What the discovery of boot entries guarantees: its result is independent of the order in which
  the scanners finish, every file an entry starts from lies below the mount point of the partition
  it was found on, and the list holds exactly what the scanners found, sorted. Then what starting
  an entry hands to kexec. A small machine with one disk, an MBR boot partition and an extlinux
  configuration is evaluated as the example.
\<close>

section \<open>An example\<close>

definition demo_texts :: "(path \<times> string) list" where
  "demo_texts =
     [(''/sys/block/sda/sda1/partition'', ''1''),
      (''/run/pocketboot/boot/xbootldr-sda1/extlinux/extlinux.conf'',
       ''label a'' @ [newline] @ ''kernel /vmlinuz'' @ [newline] @ ''append quiet'' @ [newline] @
       ''label b'' @ [newline] @ ''kernel ../vmlinuz'' @ [newline])]"

definition demo_dirs :: "(path \<times> string list) list" where
  "demo_dirs = [(''/sys/block'', [''sda'']), (''/sys/block/sda'', [''queue'', ''sda1''])]"

definition demo_fs :: file_system where
  "demo_fs =
     \<lparr>fs_read_to_string = (\<lambda>p. ok_or (IoError NotFound []) (map_of demo_texts p)),
      fs_read = (\<lambda>p. Inl (IoError NotFound [])),
      fs_is_file = (\<lambda>p. p = ''/run/pocketboot/boot/xbootldr-sda1/vmlinuz'' \<or> map_of demo_texts p \<noteq> None),
      fs_is_dir = (\<lambda>p. map_of demo_dirs p \<noteq> None),
      fs_exists = (\<lambda>p. p = ''/dev/sda'' \<or> map_of demo_texts p \<noteq> None),
      fs_canonicalize = (\<lambda>p. Inl (IoError NotFound [])),
      fs_read_dir = (\<lambda>p. ok_or (IoError NotFound []) (map_option (map Inr) (map_of demo_dirs p)))\<rparr>"

definition demo_mbr :: bytes where
  "demo_mbr = replicate 446 0 @ [0, 0, 0, 0, 0xea, 0, 0, 0, 1, 0, 0, 0, 16, 0, 0, 0] @ replicate 48 0 @ [0x55, 0xaa]"

definition demo_media :: media where
  "demo_media =
     \<lparr>md_fs = demo_fs,
      md_os = (\<lambda>p. \<lparr>os_open = Inr (), os_read_at = (\<lambda>c n off. Inr (take n (drop off c))),
                    os_write_at = (\<lambda>c b off. Inl (IoError OtherError [])), os_sync_all = Inr ()\<rparr>),
      md_content = (\<lambda>p. demo_mbr), md_nested = (\<lambda>p. Inl (IoError InvalidData [])),
      md_open = (\<lambda>p. Inr 3), md_loop_free = (\<lambda>p. Inr 0),
      md_loop_configure = (\<lambda>p c. Inr ()), md_mkdir = (\<lambda>p. Inr ()),
      md_mount = (\<lambda>dev root fstype opts. Inr ())\<rparr>"


definition demo_disk :: disk_candidate where
  "demo_disk = \<lparr>dc_name = ''sda'', dc_sysfs_path = ''/sys/block/sda'', dc_dev_path = ''/dev/sda'',
     dc_logical_block_size = 512, dc_sectors_512 = 0, dc_removable = False\<rparr>"
definition demo_candidate :: partition_candidate where
  "demo_candidate = \<lparr>bp_disk = ''sda'', bp_partition = ''sda1'', bp_partno = 1, bp_role = Xbootldr,
     bp_dev_path = ''/dev/sda1'', bp_removable = False\<rparr>"
definition demo_entry :: boot_entry where
  "demo_entry =
     \<lparr>be_id = ''extlinux:a'', be_title = Some ''a'', be_version = None, be_architecture = None,
      be_source = ''/run/pocketboot/boot/xbootldr-sda1/extlinux/extlinux.conf'', be_role = Xbootldr,
      be_disk = ''sda'', be_partition = ''sda1'', be_preferred = False,
      be_linux = ''/run/pocketboot/boot/xbootldr-sda1/vmlinuz'', be_initrds = [], be_dtb = None,
      be_options = [''quiet''], be_boot_order = 1\<rparr>"

lemma demo_disk_entry: "disk_entry demo_media ''sda'' = [demo_disk]"
  by code_simp

lemma demo_mbr_entries: "parse_mbr_boot_entries demo_mbr 0 = Inr [1]"
  by code_simp

lemma demo_partno: "sysfs_partno demo_fs ''/sys/block/sda/sda1'' = Some 1"
  by (simp add: sysfs_partno_def demo_fs_def demo_texts_def read_ok_def path_join_def is_absolute_def slash_def
      read_trimmed_def trim_def trim_start_def trim_end_def is_space_def parse_u32_text_def parse_radix_def digit_value_def)

lemma demo_scan: "scan_boot_partition demo_media demo_candidate = [demo_entry]"
  by code_simp

lemma demo_nested: "or_empty (nested_boot_partitions demo_media demo_disk) = []"
  by code_simp

lemma demo_gpt: "or_empty (gpt_boot_partitions demo_media demo_disk) = []"
  by (simp add: gpt_boot_partitions_def demo_disk_def saturating_mul_def checked_mul_def or_empty_def)

lemma demo_name: "partition_name_for_partno demo_fs ''/sys/block/sda'' 1 = Inr (Some ''sda1'')"
proof -
  have "fs_read_dir demo_fs ''/sys/block/sda'' = Inr [Inr ''queue'', Inr ''sda1'']" by code_simp
  moreover have "path_join ''/sys/block/sda'' ''sda1'' = ''/sys/block/sda/sda1''" by code_simp
  moreover have "\<not> fs_exists demo_fs (path_join (path_join ''/sys/block/sda'' ''queue'') ''partition'')" by code_simp
  moreover have "fs_exists demo_fs (path_join ''/sys/block/sda/sda1'' ''partition'')" by code_simp
  ultimately show ?thesis using demo_partno by (simp add: partition_name_for_partno_def)
qed

lemma demo_mbr_partitions: "mbr_boot_partitions demo_media demo_disk = Inr [demo_candidate]"
proof -
  have "read_exact_at (md_os demo_media ''/dev/sda'') demo_mbr 512 0 = Inr demo_mbr"
    by (simp add: read_exact_at.simps demo_media_def demo_mbr_def)
  moreover have "path_join DEV ''sda1'' = ''/dev/sda1''" by code_simp
  ultimately show ?thesis
    using demo_mbr_entries demo_name
    by (simp add: mbr_boot_partitions_def disk_partition_candidate_def demo_disk_def demo_media_def demo_candidate_def
        map_err_prefix_def)
qed

lemma demo_disks: "local_disk_candidates demo_media = Inr [demo_disk]"
proof -
  have "fs_read_dir (md_fs demo_media) SYS_BLOCK = Inr [Inr ''sda'']" by code_simp
  then show ?thesis by (simp add: local_disk_candidates_def demo_disk_entry sort_by_def)
qed

lemma demo_partitions: "boot_partitions demo_media id = Inr [demo_candidate]"
  by (simp add: boot_partitions_def discover_boot_partitions_def demo_disks boot_partitions_for_disk_def demo_gpt
      demo_mbr_partitions demo_nested or_empty_def [of "Inr _"] sort_by_def)

lemma demo_discover: "discover demo_media id id = Inr ([demo_entry], [[demo_entry]])"
  by (simp add: discover_def demo_partitions demo_scan receive_entries_step sort_by_def)

lemma demo_listings: "listings_ok demo_media"
  by (auto simp: listings_ok_def demo_media_def demo_fs_def demo_dirs_def names_of_def map_filter_simps split: if_splits)

section \<open>Independence of the threads\<close>

text \<open>
  C9: whatever the order in which the disks and then the boot partitions report, the
  discovery returns the same list of entries.
\<close>

theorem discover_arrival_independent:
  assumes "listings_ok m"
    and "\<And>xs. mset (a1 xs) = mset xs" and "\<And>xs. mset (a2 xs) = mset xs"
    and "\<And>xs. mset (b1 xs) = mset xs" and "\<And>xs. mset (b2 xs) = mset xs"
  shows "bind_io (discover m a1 a2) (\<lambda>r. Inr (fst r)) = bind_io (discover m b1 b2) (\<lambda>r. Inr (fst r))"
  by (simp add: discover_result assms)

lemma discover_arrival_independent_witness:
  "bind_io (discover demo_media rev rev) (\<lambda>r. Inr (fst r)) = Inr [demo_entry]"
  using discover_arrival_independent [OF demo_listings, of rev rev id id] by (simp add: demo_discover)

section \<open>Confinement\<close>

lemma scan_confined_payload:
  "e \<in> set (scan_boot_partition m part) \<Longrightarrow> entry_of part e \<and>
   (\<forall>p \<in> set (payload_paths e). below (mount_root part) p \<and> fs_is_file (md_fs m) p)"
  using scan_boot_partition_confined [of e m part] by (simp add: confined_def list_all_iff)

text \<open>
  C8: every entry of the result comes from a discovered partition, and its kernel, its initrds and
  its device tree are files below the mount point of that partition: no text in a boot
  configuration, no GRUB variable and no compatible string leads out of it.
\<close>

theorem discover_confined:
  assumes d: "discover m a1 a2 = Inr (es, reports)" and a2: "\<And>xs. mset (a2 xs) = mset xs" and e: "e \<in> set es"
  shows "\<exists>ps part. boot_partitions m a1 = Inr ps \<and> part \<in> set ps \<and> entry_of part e \<and>
    (\<forall>p \<in> set (payload_paths e). below (mount_root part) p \<and> fs_is_file (md_fs m) p)"
proof -
  from d obtain ps where ps: "boot_partitions m a1 = Inr ps"
    and es: "es = sort_by compare_boot_entries (concat (a2 (map (scan_boot_partition m) ps)))"
    by (auto simp: discover_eq Let_def)
  have "set (a2 (map (scan_boot_partition m) ps)) = scan_boot_partition m ` set ps"
    using a2 [of "map (scan_boot_partition m) ps"] by (metis list.set_map set_mset_mset)
  then obtain part where "part \<in> set ps" "e \<in> set (scan_boot_partition m part)" using e es by auto
  then show ?thesis using ps scan_confined_payload by blast
qed

lemma discover_confined_witness:
  "\<exists>ps part. boot_partitions demo_media id = Inr ps \<and> part \<in> set ps \<and> entry_of part demo_entry \<and>
    (\<forall>p \<in> set (payload_paths demo_entry). below (mount_root part) p \<and> fs_is_file (md_fs demo_media) p)"
  by (rule discover_confined [OF demo_discover]) simp_all

section \<open>The list and the progress reports\<close>

lemma receive_reports:
  assumes "foldl receive_entries ([], []) bs = (found, reports)"
  shows "(\<forall>r \<in> set reports. sorted_by compare_boot_entries r \<and> r \<noteq> []) \<and>
    (if concat bs = [] then found = [] \<and> reports = []
     else reports \<noteq> [] \<and> last reports = found \<and> found = sort_by compare_boot_entries found) \<and>
    mset found = mset (concat bs) \<and> length reports = length (filter (\<lambda>b. b \<noteq> []) bs)"
  using assms
proof (induction bs arbitrary: found reports rule: rev_induct)
  case (snoc b bs)
  obtain f r where fr: "foldl receive_entries ([], []) bs = (f, r)" by fastforce
  note IH = snoc.IH [OF fr]
  show ?case
  proof (cases "b = []")
    case True
    then have "found = f" "reports = r" using snoc.prems fr by (simp_all add: receive_entries_step)
    then show ?thesis using IH True by simp
  next
    case False
    then have "found = sort_by compare_boot_entries (f @ b)" "reports = r @ [found]"
      using snoc.prems fr by (auto simp: receive_entries_step)
    moreover from this have "found \<noteq> []" using False by (metis append_is_Nil_conv mset_sort_by mset_zero_iff)
    ultimately show ?thesis
      using IH False sort_by_idem [OF entry_order.comparator_axioms] sorted_sort_by [OF entry_order.comparator_axioms]
      by (auto split: if_splits)
  qed
qed simp

text \<open>
  C11: the result is sorted by role, preference, disk, partition and boot order, and holds exactly
  the entries of all scanned partitions. Each scanner that found something causes one progress
  report; every report is sorted, and the last one is the result.
\<close>

theorem discover_sorted_complete:
  assumes d: "discover m a1 a2 = Inr (es, reports)" and a2: "\<And>xs. mset (a2 xs) = mset xs"
  shows "\<exists>ps. boot_partitions m a1 = Inr ps \<and> sorted_by compare_boot_entries es \<and>
    mset es = mset (concat (map (scan_boot_partition m) ps)) \<and>
    length reports = length (filter (\<lambda>p. scan_boot_partition m p \<noteq> []) ps) \<and>
    (\<forall>r \<in> set reports. sorted_by compare_boot_entries r) \<and> (reports \<noteq> [] \<longrightarrow> last reports = es)"
proof -
  from d obtain ps where ps: "boot_partitions m a1 = Inr ps" by (auto simp: discover_def)
  let ?scans = "map (scan_boot_partition m) ps"
  obtain found where f: "foldl receive_entries ([], []) (a2 ?scans) = (found, reports)"
    and es: "es = sort_by compare_boot_entries found"
    using d ps by (auto simp: discover_def split: prod.splits)
  note R = receive_reports [OF f]
  have "mset (concat bs) = sum_mset (image_mset mset (mset bs))" for bs :: "boot_entry list list"
    by (simp add: mset_concat sum_mset_sum_list flip: mset_map)
  then have "mset (concat (a2 ?scans)) = mset (concat ?scans)" by (simp only: a2)
  moreover have "length (filter (\<lambda>b. b \<noteq> []) (a2 ?scans)) = length (filter (\<lambda>b. b \<noteq> []) ?scans)"
    using a2 [of ?scans] by (metis mset_filter size_mset)
  ultimately show ?thesis
    using R ps sorted_sort_by [OF entry_order.comparator_axioms]
    by (auto simp: es filter_map comp_def split: if_splits)
qed

lemma discover_sorted_complete_witness:
  "\<exists>ps. boot_partitions demo_media id = Inr ps \<and> sorted_by compare_boot_entries [demo_entry] \<and>
    mset [demo_entry] = mset (concat (map (scan_boot_partition demo_media) ps)) \<and>
    length [[demo_entry]] = length (filter (\<lambda>p. scan_boot_partition demo_media p \<noteq> []) ps) \<and>
    (\<forall>r \<in> set [[demo_entry]]. sorted_by compare_boot_entries r) \<and> ([[demo_entry]] \<noteq> [] \<longrightarrow> last [[demo_entry]] = [demo_entry])"
  by (rule discover_sorted_complete [OF demo_discover]) simp

end
