(* ===== verification/BootTables.thy ===== *)
theory BootTables
  imports BootMedia
begin

text \<open>
  What the partition tables that name boot partitions must satisfy (\<open>src/bootflow.rs\<close>): the
  candidates of a GPT come from checked slots inside the usable range of the disk, and a nested
  table is accepted exactly when its partitions are non-empty, inside the outer one and apart. The
  example is a disk of five blocks with one boot loader partition.
\<close>

section \<open>A sample disk\<close>

definition boot_table :: bytes where
  "boot_table = XBOOTLDR_GUID @ replicate 16 0 @ to_le_bytes 8 (4 :: u64) @ to_le_bytes 8 (4 :: u64) @ replicate 80 0"

definition boot_header_block :: bytes where
  "boot_header_block =
     (let pre = GPT_SIGNATURE @ [0, 0, 1, 0] @ to_le_bytes 4 (92 :: u32);
          post = replicate 4 0 @ to_le_bytes 8 (1 :: u64) @ to_le_bytes 8 (4 :: u64) @ to_le_bytes 8 (4 :: u64) @
                 to_le_bytes 8 (4 :: u64) @ replicate 16 0 @ to_le_bytes 8 (2 :: u64) @ to_le_bytes 4 (1 :: u32) @
                 to_le_bytes 4 (128 :: u32) @ to_le_bytes 4 (crc32_ieee boot_table) @ replicate 420 0
      in pre @ to_le_bytes 4 (crc32_ieee (take 92 (pre @ replicate 4 0 @ post))) @ post)"

definition protective_mbr :: bytes where
  "protective_mbr = replicate 446 0 @ [0, 0, 0, 0, 0xee, 0, 0, 0, 1, 0, 0, 0, 4, 0, 0, 0] @ replicate 48 0 @ [0x55, 0xaa]"

definition boot_disk_content :: bytes where
  "boot_disk_content = protective_mbr @ boot_header_block @ boot_table @ replicate 1408 0"

definition boot_media :: media where
  "boot_media =
     \<lparr>md_fs =
        \<lparr>fs_read_to_string = (\<lambda>p. if p = ''/sys/block/sda/sda1/partition'' then Inr ''1'' else Inl (IoError NotFound [])),
         fs_read = (\<lambda>p. Inl (IoError NotFound [])), fs_is_file = (\<lambda>p. False), fs_is_dir = (\<lambda>p. False),
         fs_exists = (\<lambda>p. p = ''/sys/block/sda/sda1/partition''), fs_canonicalize = (\<lambda>p. Inl (IoError NotFound [])),
         fs_read_dir = (\<lambda>p. Inr [Inr ''sda1''])\<rparr>,
      md_os = (\<lambda>p. slow_os), md_content = (\<lambda>p. boot_disk_content), md_nested = (\<lambda>p. Inl (IoError InvalidData [])),
      md_open = (\<lambda>p. Inr 3), md_loop_free = (\<lambda>p. Inr 0),
      md_loop_configure = (\<lambda>p c. Inr ()), md_mkdir = (\<lambda>p. Inr ()), md_mount = (\<lambda>dev root fstype opts. Inr ())\<rparr>"

definition boot_disk :: disk_candidate where
  "boot_disk = \<lparr>dc_name = ''sda'', dc_sysfs_path = ''/sys/block/sda'', dc_dev_path = ''/dev/sda'',
     dc_logical_block_size = 512, dc_sectors_512 = 5, dc_removable = False\<rparr>"

definition boot_header :: boot_gpt_header where
  "boot_header = \<lparr>bg_first_usable_lba = 4, bg_last_usable_lba = 4, bg_entries_lba = 2, bg_entry_count = 1,
     bg_entry_size = 128, bg_entry_array_crc32 = crc32_ieee boot_table\<rparr>"

definition boot_candidate :: partition_candidate where
  "boot_candidate = \<lparr>bp_disk = ''sda'', bp_partition = ''sda1'', bp_partno = 1, bp_role = Xbootldr,
     bp_dev_path = ''/dev/sda1'', bp_removable = False\<rparr>"

lemma boot_lengths:
  "length boot_table = 128" "length boot_header_block = 512" "length protective_mbr = 512" "length boot_disk_content = 2560"
  by (simp_all add: boot_table_def XBOOTLDR_GUID_def boot_header_block_def GPT_SIGNATURE_def bytes_of_def Let_def
      protective_mbr_def boot_disk_content_def)

lemma boot_header_parses: "bf_parse_gpt_header boot_header_block 5 = Inr boot_header"
proof -
  have sig: "length GPT_SIGNATURE = 8" by (simp add: GPT_SIGNATURE_def bytes_of_def)
  show ?thesis
    unfolding bf_parse_gpt_header_def boot_lengths
    by (simp add: le_field_defs read_field_def boot_lengths gpt_consts Let_def boot_header_block_def sig slice_def splice_def
        le32.dec_enc le64.dec_enc boot_header_def)
qed

lemma boot_reads:
  "off + n \<le> 2560 \<Longrightarrow> read_exact_at slow_os boot_disk_content n off = Inr (slice boot_disk_content off (off + n))"
  by (rule read_exact_at_ok [OF os_ok_reads [OF slow_os_ok]]) (simp add: boot_lengths)

lemma boot_content_parts:
  "slice boot_disk_content 0 512 = protective_mbr" "slice boot_disk_content 512 1024 = boot_header_block"
  "slice boot_disk_content 1024 1152 = boot_table"
  by (simp_all add: boot_disk_content_def slice_def boot_lengths)

lemma boot_protective: "validate_protective_mbr slow_os boot_disk_content = Inr ()"
proof -
  have "slice protective_mbr 510 512 = MBR_SIGNATURE" by code_simp
  moreover have "list_ex (\<lambda>index. mbr_slot protective_mbr index ! 4 = GPT_PROTECTIVE_MBR_TYPE \<and>
      (from_le_bytes (slice (mbr_slot protective_mbr index) 8 12) :: u32) = 1) [0..<MBR_PRIMARY_PARTITIONS]"
    by code_simp
  ultimately show ?thesis
    using boot_reads [of 0 512] by (simp add: validate_protective_mbr_def boot_content_parts)
qed

lemma boot_name: "partition_name_for_partno (md_fs boot_media) ''/sys/block/sda'' 1 = Inr (Some ''sda1'')"
proof -
  have "path_join (path_join ''/sys/block/sda'' ''sda1'') ''partition'' = ''/sys/block/sda/sda1/partition''" by code_simp
  then show ?thesis
    by (simp add: partition_name_for_partno_def sysfs_partno_def boot_media_def read_ok_def
      read_trimmed_def trim_def trim_start_def trim_end_def is_space_def parse_u32_text_def parse_radix_def digit_value_def)
qed

lemma boot_entry_parses:
  "parse_gpt_entry boot_table 1 = Inr \<lparr>ge_partno = 1, ge_type_guid = XBOOTLDR_GUID, ge_first_lba = 4, ge_last_lba = 4\<rparr>"
proof -
  have l: "length XBOOTLDR_GUID = 16" by (simp add: XBOOTLDR_GUID_def)
  show ?thesis
    unfolding parse_gpt_entry_def
    by (simp add: le_field_defs read_field_def boot_lengths gpt_consts)
      (simp add: boot_table_def slice_def l le64.dec_enc)
qed

lemma boot_guid: "boot_role_for_guid XBOOTLDR_GUID = Some Xbootldr" "\<not> list_all (\<lambda>b. b = 0) XBOOTLDR_GUID"
  by code_simp+

lemma boot_slot: "gpt_boot_slot boot_media boot_disk boot_header boot_table 5 0 = Inr [boot_candidate]"
proof -
  have "path_join DEV ''sda1'' = ''/dev/sda1''" by code_simp
  then have c: "disk_partition_candidate boot_media boot_disk (Suc 0) Xbootldr = Inr [boot_candidate]"
    using boot_name by (simp add: disk_partition_candidate_def boot_disk_def boot_candidate_def)
  have s: "slice_get boot_table 0 128 = Some boot_table"
    using boot_lengths(1) by (simp add: slice_def)
  show ?thesis
    using boot_entry_parses
    by (simp add: gpt_boot_slot_def boot_header_def checked_mul_usize_def checked_add_usize_def usize_limit_def s
        ge_is_unused_def boot_guid c del: bind_io_eq_Inr slice_get_Some)
qed

lemma boot_partitions_run: "gpt_boot_partitions boot_media boot_disk = Inr [boot_candidate]"
proof -
  have b: "read_lba slow_os boot_disk_content 512 1 = Inr boot_header_block"
    using boot_reads [of 512 512] by (simp add: read_lba_def checked_lba_offset_def checked_mul_def boot_content_parts)
  have t: "read_exact_at slow_os boot_disk_content 128 1024 = Inr boot_table"
    using boot_reads [of 1024 128] by (simp add: boot_content_parts)
  have m: "md_os boot_media p = slow_os" "md_content boot_media p = boot_disk_content" for p
    by (simp_all add: boot_media_def)
  have d: "dc_dev_path boot_disk = ''/dev/sda''" "dc_logical_block_size boot_disk = 512" "dc_sectors_512 boot_disk = 5"
    by (simp_all add: boot_disk_def)
  have h: "bg_entry_count boot_header = 1" "bg_entry_size boot_header = 128" "bg_entries_lba boot_header = 2"
    "bg_entry_array_crc32 boot_header = crc32_ieee boot_table"
    by (simp_all add: boot_header_def)
  have o: "os_open slow_os = Inr ()" by (simp add: slow_os_def)
  show ?thesis
    unfolding gpt_boot_partitions_def Let_def m d o
    by (simp add: b t h boot_protective boot_header_parses boot_slot saturating_mul_def saturating_add_def checked_mul_def checked_add_def
        GPT_TABLE_MAX_BYTES_def map_err_prefix_def del: bind_io_eq_Inr checked_mul_Some checked_add_Some)
qed

section \<open>Properties\<close>

text \<open>
  C36: every boot partition taken from a GPT is named by a slot of the table on that disk. The header
  is the block after the first, with its fields where the format puts them; the table is read from
  the blocks and with the length that header gives, and its checksum is the one in the header. On a
  device whose reads return what it holds, both are the bytes of the disk at these offsets. The slot
  is entry number \<open>bp_partno\<close> of that table, carries the type of a boot partition and a range of
  blocks that is not empty and lies in the usable range and on the disk. The device is the one the
  kernel numbers so.
\<close>

theorem gpt_candidates_checked:
  assumes "gpt_boot_partitions m disk = Inr cs"
    and "os = md_os m (dc_dev_path disk)" and "content = md_content m (dc_dev_path disk)"
    and "lbs = unat (dc_logical_block_size disk)" and "sectors = unat (dc_sectors_512 disk)"
  shows "\<exists>blocks block header table.
    unat blocks = sectors * 512 div lbs \<and>
    read_exact_at os content lbs lbs = Inr block \<and> bf_parse_gpt_header block blocks = Inr header \<and> boot_header_at block header \<and>
    read_exact_at os content (unat (bg_entry_count header) * unat (bg_entry_size header)) (unat (bg_entries_lba header) * lbs) = Inr table \<and>
    crc32_ieee table = bg_entry_array_crc32 header \<and>
    (os_faithful os \<longrightarrow> length content = sectors * 512 \<longrightarrow>
       block = slice content lbs (2 * lbs) \<and> boot_table_at content lbs header table) \<and>
    (\<forall>c \<in> set cs. candidate_of m disk c \<and> bp_role c \<noteq> Nested \<and>
       1 \<le> bp_partno c \<and> bp_partno c \<le> unat (bg_entry_count header) \<and>
       boot_slot_ok header blocks (gpt_slot_bytes header table (bp_partno c - 1)) (bp_role c))"
  by (rule gpt_boot_partitions_sound [OF assms])

lemma gpt_candidates_checked_witness:
  "\<exists>blocks header table. unat (blocks :: u64) = 5 \<and> bf_parse_gpt_header boot_header_block blocks = Inr header \<and>
     boot_header_at boot_header_block header \<and> boot_table_at boot_disk_content 512 header table \<and>
     crc32_ieee table = bg_entry_array_crc32 header \<and> candidate_of boot_media boot_disk boot_candidate \<and>
     boot_slot_ok header blocks (gpt_slot_bytes header table 0) Xbootldr"
proof -
  have b: "read_exact_at slow_os boot_disk_content 512 512 = Inr boot_header_block"
    using boot_reads [of 512 512] by (simp add: boot_content_parts)
  have m: "slow_os = md_os boot_media (dc_dev_path boot_disk)" "boot_disk_content = md_content boot_media (dc_dev_path boot_disk)"
    "512 = unat (dc_logical_block_size boot_disk)" "5 = unat (dc_sectors_512 boot_disk)"
    by (simp_all add: boot_media_def boot_disk_def)
  have f: "os_faithful slow_os" by (rule os_reads_faithful [OF os_ok_reads [OF slow_os_ok]])
  show ?thesis
    using gpt_candidates_checked [OF boot_partitions_run m] b f boot_lengths(4)
    by (auto simp: boot_candidate_def)
qed

text \<open>
  C37: a nested partition table is accepted exactly when each of its used partitions holds at least
  one sector, ends inside the outer partition, and no two of them overlap; the order of the
  entries does not matter.
\<close>

theorem nested_extents_exact:
  "validate_mbr_extents mbr total_sectors = Inr () \<longleftrightarrow> mbr_extents_ok mbr total_sectors"
  by (rule validate_mbr_extents_iff)

end
