(* ===== verification/BootStart.thy ===== *)
theory BootStart
  imports BootFlow
begin

text \<open>
  What \<open>BootEntry::load\<close> of \<open>src/bootflow.rs\<close> gives to kexec: the plan for the prepared kernel,
  the initrds one after the other, the device tree of the entry or of the firmware, and the
  options of the entry joined with blanks.
\<close>

text \<open>The file system stores a payload as it is: reading the memory file returns what was written.\<close>

definition store_ok :: "payload_files \<Rightarrow> bool" where
  "store_ok pf \<longleftrightarrow> (\<forall>bs f. pf_store pf bs = Inr f \<longrightarrow> f = Inr bs)"

definition file_holds :: "payload_files \<Rightarrow> path \<Rightarrow> bytes \<Rightarrow> bool" where
  "file_holds pf p bs \<longleftrightarrow> pf_open pf p = Inr (Inr bs)"

definition prepared_kernel :: "decoders \<Rightarrow> bytes \<Rightarrow> bytes \<Rightarrow> bool" where
  "prepared_kernel dec payload kern \<longleftrightarrow>
     prepare_kernel_payload_bytes dec payload = Inr None \<and> kern = payload \<or>
     prepare_kernel_payload_bytes dec payload = Inr (Some kern)"

definition entry_dtb :: "payload_files \<Rightarrow> bytes io \<Rightarrow> path option \<Rightarrow> bytes \<Rightarrow> bool" where
  "entry_dtb pf firmware_fdt p dtb =
     (case p of None \<Rightarrow> read_current_dtb firmware_fdt = Inr dtb
      | Some p \<Rightarrow> (\<exists>d. file_holds pf p d \<and> with_live_memory firmware_fdt d = Inr dtb))"

lemma open_payload_Inr [simp]: "open_payload pf what p = Inr f \<longleftrightarrow> pf_open pf p = Inr f"
  by (simp add: open_payload_def)

lemma prepare_kernel_payload_Inr:
  assumes p: "prepare_kernel_payload dec pf file = Inr (Inr kern)" and s: "store_ok pf"
  shows "\<exists>payload. file = Inr payload \<and> prepared_kernel dec payload kern"
proof -
  from p obtain payload prepared where pp: "file = Inr payload" "prepare_kernel_payload_bytes dec payload = Inr prepared"
    "(case prepared of None \<Rightarrow> Inr file | Some p \<Rightarrow> memfd_payload pf p) = Inr (Inr kern)"
    by (auto simp: prepare_kernel_payload_def)
  then show ?thesis
    using s by (cases prepared) (auto simp: memfd_payload_def prepared_kernel_def store_ok_def)
qed

lemma append_initrd_Inr: "append_initrd pf acc p = Inr c \<longleftrightarrow> (\<exists>b. file_holds pf p b \<and> c = acc @ b)"
  by (auto simp: append_initrd_def file_holds_def)

lemma append_initrds_Inr:
  "fold_io (append_initrd pf) acc ps = Inr bs \<Longrightarrow>
   \<exists>bss. list_all2 (file_holds pf) ps bss \<and> bs = acc @ concat bss"
proof (induction ps arbitrary: acc)
  case (Cons p ps)
  then obtain b where b: "file_holds pf p b" "fold_io (append_initrd pf) (acc @ b) ps = Inr bs"
    by (auto simp: append_initrd_Inr)
  then obtain bss where "list_all2 (file_holds pf) ps bss" "bs = (acc @ b) @ concat bss" using Cons.IH by blast
  then show ?case using b by (intro exI [of _ "b # bss"]) simp
qed simp

lemma open_initrd_payload_Inr:
  assumes o: "open_initrd_payload pf ps = Inr f" and s: "store_ok pf"
    and r: "(case f of None \<Rightarrow> Inr None | Some r \<Rightarrow> bind_io r (\<lambda>b. Inr (Some b))) = (Inr initrd :: bytes option io)"
  shows "\<exists>bss. list_all2 (file_holds pf) ps bss \<and> initrd = (if ps = [] then None else Some (concat bss))"
proof -
  consider "ps = []" | p where "ps = [p]" | p q rest where "ps = p # q # rest" by (metis list.exhaust)
  then show ?thesis
  proof cases
    case 1
    then show ?thesis using o r by (simp add: open_initrd_payload_def)
  next
    case 2
    then show ?thesis using o r by (auto simp: open_initrd_payload_def file_holds_def list_all2_Cons1)
  next
    case 3
    then obtain payload g where "fold_io (append_initrd pf) [] ps = Inr payload" "pf_store pf payload = Inr g" "f = Some g"
      using o by (auto simp: open_initrd_payload_def simp del: fold_io.simps)
    then show ?thesis using append_initrds_Inr [of pf "[]" ps payload] r s 3 by (auto simp: store_ok_def)
  qed
qed

text \<open>
  C10: when an entry loads, the system call was made with exactly the plan for the
  prepared kernel, the concatenated initrds, the device tree with the memory and the CPU contract
  of the running kernel, and the command line of the entry.
\<close>

theorem boot_entry_load_plan:
  assumes l: "boot_entry_load dec pf kexec_load syms iomem firmware_fdt e = Inr ()" and s: "store_ok pf"
  shows "\<exists>payload kern initrds dtb entry segments.
    file_holds pf (be_linux e) payload \<and> prepared_kernel dec payload kern \<and>
    list_all2 (file_holds pf) (be_initrds e) initrds \<and>
    entry_dtb pf firmware_fdt (be_dtb e) dtb \<and>
    arm64_plan syms iomem kern (if be_initrds e = [] then None else Some (concat initrds)) dtb (be_cmdline e) =
      Inr (entry, segments) \<and>
    kexec_load entry segments = Inr ()"
proof -
  from l obtain kfile kern_file ifile dfile img where
    k: "pf_open pf (be_linux e) = Inr kfile" "prepare_kernel_payload dec pf kfile = Inr kern_file"
    and i: "open_initrd_payload pf (be_initrds e) = Inr ifile"
    and d: "(case be_dtb e of None \<Rightarrow> Inr None
              | Some p \<Rightarrow> bind_io (open_payload pf ''DTB'' p) (\<lambda>f. Inr (Some f))) = Inr dfile"
    and img: "kexec_image_new kern_file ifile dfile (be_cmdline e) = Inr img"
    and load: "kexec_image_load kexec_load syms iomem firmware_fdt img = Inr ()"
    unfolding boot_entry_load_def by auto
  have img: "img = \<lparr>ki_kernel = kern_file, ki_initrd = ifile, ki_dtb = dfile, ki_cmdline = be_cmdline e\<rparr>"
    using img by (auto simp: kexec_image_new_def split: if_splits)
  obtain kern initrd dtb entry segments where
    kern: "kern_file = Inr kern"
    and initrd: "(case ifile of None \<Rightarrow> Inr None | Some r \<Rightarrow> bind_io r (\<lambda>b. Inr (Some b))) = (Inr initrd :: bytes option io)"
    and dtb: "(case dfile of Some r \<Rightarrow> bind_io r (with_live_memory firmware_fdt) | None \<Rightarrow> read_current_dtb firmware_fdt) = Inr dtb"
    and plan: "arm64_plan syms iomem kern initrd dtb (be_cmdline e) = Inr (entry, segments)" "kexec_load entry segments = Inr ()"
    using load unfolding kexec_image_load_def arm64_load_def img by auto
  obtain payload where p: "kfile = Inr payload" "prepared_kernel dec payload kern"
    using prepare_kernel_payload_Inr [OF _ s] k(2) kern by blast
  obtain bss where bss: "list_all2 (file_holds pf) (be_initrds e) bss" "initrd = (if be_initrds e = [] then None else Some (concat bss))"
    using open_initrd_payload_Inr [OF i s initrd] by blast
  have "entry_dtb pf firmware_fdt (be_dtb e) dtb"
    using d dtb by (auto simp: entry_dtb_def file_holds_def split: option.splits)
  then show ?thesis using k(1) p bss plan unfolding file_holds_def by blast
qed

definition demo_payload_files :: payload_files where
  "demo_payload_files =
     \<lparr>pf_open = (\<lambda>p. if p = ''/boot/Image'' then Inr (Inr demo_kernel)
        else if p = ''/boot/a'' then Inr (Inr [1, 2])
        else if p = ''/boot/b'' then Inr (Inr [3]) else Inl (IoError NotFound [])),
      pf_create = Inr (), pf_store = (\<lambda>bs. Inr (Inr bs))\<rparr>"

definition demo_load_entry :: boot_entry where
  "demo_load_entry =
     \<lparr>be_id = ''a'', be_title = None, be_version = None, be_architecture = None, be_source = ''/boot/a.conf'',
      be_role = Xbootldr, be_disk = ''sda'', be_partition = ''sda1'', be_preferred = True, be_linux = ''/boot/Image'',
      be_initrds = [''/boot/a'', ''/boot/b''], be_dtb = None, be_options = [''quiet''], be_boot_order = 0\<rparr>"

lemma demo_current_dtb: "read_current_dtb (Inr demo_blob) = Inr demo_blob"
proof -
  have "contract_tree demo_blob = Inr (Node [] [] [Node (bytes_of ''chosen'') [] []])" by code_simp
  moreover have "spin_table_contract (Node [] [] [Node (bytes_of ''chosen'') [] []]) = Inr None" by code_simp
  ultimately show ?thesis by (simp add: read_current_dtb_def map_err_prefix_def graft_spin_table_def)
qed

lemma demo_prepare_kernel: "prepare_kernel_payload_bytes demo_decoders demo_kernel = Inr None"
  by code_simp

lemma demo_load: "boot_entry_load demo_decoders demo_payload_files (\<lambda>entry segs. Inr ()) demo_syms (Inr demo_iomem) (Inr demo_blob) demo_load_entry = Inr ()"
proof -
  obtain segs where "arm64_plan demo_syms (Inr demo_iomem) demo_kernel (Some [1, 2, 3]) demo_blob ''quiet'' = Inr (0x80481000, segs)"
    using demo_plan by blast
  moreover have "0 \<notin> set (bytes_of ''quiet'')" by code_simp
  ultimately show ?thesis
    by (simp add: boot_entry_load_def demo_payload_files_def demo_load_entry_def open_payload_def prepare_kernel_payload_def
        demo_prepare_kernel open_initrd_payload_def append_initrd_def kexec_image_new_def kexec_image_load_def demo_current_dtb
        be_cmdline_def join_with_def arm64_load_def map_err_prefix_def)
qed

lemma boot_entry_load_plan_witness:
  "\<exists>payload kern initrds dtb entry segments.
    file_holds demo_payload_files ''/boot/Image'' payload \<and> prepared_kernel demo_decoders payload kern \<and>
    list_all2 (file_holds demo_payload_files) [''/boot/a'', ''/boot/b''] initrds \<and>
    arm64_plan demo_syms (Inr demo_iomem) kern (Some (concat initrds)) dtb ''quiet'' = Inr (entry, segments)"
proof -
  have st: "store_ok demo_payload_files" by (simp add: store_ok_def demo_payload_files_def)
  have e: "be_linux demo_load_entry = ''/boot/Image''" "be_initrds demo_load_entry = [''/boot/a'', ''/boot/b'']"
    "be_cmdline demo_load_entry = ''quiet''"
    by (simp_all add: demo_load_entry_def be_cmdline_def join_with_def)
  show ?thesis using boot_entry_load_plan [OF demo_load st] unfolding e by (simp only: list.distinct if_False) blast
qed

end
