(* ===== verification/StateIo.thy ===== *)
theory StateIo
  imports Bytes
begin

text \<open>
  Fallible operations on a state that stays changed when they fail: a function from the state to
  the state after it and the result. The sources write to files, devices and the USB link, and an
  early return with \<open>?\<close> does not undo the writes before it. The interface \<open>frame\<close> proves once
  that a reflexive and transitive relation kept by every step is kept by their sequence,
  whether it succeeds or fails.
\<close>

type_synonym ('s, 'a) sio = "'s \<Rightarrow> 's \<times> 'a io"

definition ret :: "'a \<Rightarrow> ('s, 'a) sio" where
  "ret x s = (s, Inr x)"

definition lift_io :: "'a io \<Rightarrow> ('s, 'a) sio" where
  "lift_io r s = (s, r)"

definition bind_st :: "('s, 'a) sio \<Rightarrow> ('a \<Rightarrow> ('s, 'b) sio) \<Rightarrow> ('s, 'b) sio" where
  "bind_st m f s = (case m s of (s', Inl e) \<Rightarrow> (s', Inl e) | (s', Inr x) \<Rightarrow> f x s')"

definition get_st :: "('s \<Rightarrow> 'a) \<Rightarrow> ('s, 'a) sio" where
  "get_st f s = (s, Inr (f s))"

definition modify_st :: "('s \<Rightarrow> 's) \<Rightarrow> ('s, unit) sio" where
  "modify_st f s = (f s, Inr ())"

text \<open>\<open>attempt m\<close> hands the result of \<open>m\<close> to the code that matches on it.\<close>

definition attempt :: "('s, 'a) sio \<Rightarrow> ('s, 'a io) sio" where
  "attempt m s = (fst (m s), Inr (snd (m s)))"

abbreviation throw :: "io_error \<Rightarrow> ('s, 'a) sio" where
  "throw e \<equiv> lift_io (Inl e)"

lemma sio_simps [simp]:
  "ret x s = (s, Inr x)"
  "lift_io r s = (s, r)"
  "get_st f s = (s, Inr (f s))"
  "modify_st g s = (g s, Inr ())"
  "attempt m s = (fst (m s), Inr (snd (m s)))"
  by (simp_all add: ret_def lift_io_def get_st_def modify_st_def attempt_def)

lemma bind_st_eq: "m s = (s', Inr x) \<Longrightarrow> bind_st m f s = f x s'"
  "m s = (s', Inl e) \<Longrightarrow> bind_st m f s = (s', Inl e)"
  by (simp_all add: bind_st_def)

lemma bind_st_simps [simp]:
  "bind_st (ret x) f = f x"
  "bind_st (lift_io (Inr x)) f = f x"
  "bind_st (lift_io (Inl e)) f = lift_io (Inl e)"
  by (simp_all add: fun_eq_iff bind_st_def)

lemma bind_st_run [simp]:
  "bind_st (get_st g) f s = f (g s) s"
  "bind_st (modify_st h) f' s = f' () (h s)"
  "bind_st (attempt m) f'' s = f'' (snd (m s)) (fst (m s))"
  by (simp_all add: bind_st_def)

lemma bind_st_assoc: "bind_st (bind_st m f) g = bind_st m (\<lambda>x. bind_st (f x) g)"
  by (auto simp: fun_eq_iff bind_st_def split: prod.splits sum.splits)

lemma bind_st_lift: "bind_st (lift_io r) f = (case r of Inl e \<Rightarrow> throw e | Inr x \<Rightarrow> f x)"
  by (cases r) simp_all

lemma bind_st_Inr:
  "bind_st m f s = (t, Inr y) \<longleftrightarrow> (\<exists>s' x. m s = (s', Inr x) \<and> f x s' = (t, Inr y))"
  by (cases "m s"; cases "snd (m s)") (auto simp: bind_st_def)

lemma lift_io_Inr: "lift_io r s = (t, Inr y) \<longleftrightarrow> t = s \<and> r = Inr y"
  by auto

locale frame =
  fixes related :: "'s \<Rightarrow> 's \<Rightarrow> bool"
  assumes related_refl: "related s s"
    and related_trans: "related s t \<Longrightarrow> related t u \<Longrightarrow> related s u"
begin

definition keeps :: "('s, 'a) sio \<Rightarrow> bool" where
  "keeps m \<longleftrightarrow> (\<forall>s. related s (fst (m s)))"

lemma keeps_run: "keeps m \<Longrightarrow> m s = (t, r) \<Longrightarrow> related s t"
  by (metis fst_conv keeps_def)

lemma keeps_lift [intro, simp]: "keeps (lift_io r)"
  by (simp add: keeps_def related_refl)

lemma keeps_ret [intro, simp]: "keeps (ret x)"
  by (simp add: keeps_def related_refl)

lemma keeps_get [intro, simp]: "keeps (get_st f)"
  by (simp add: keeps_def related_refl)

lemma keeps_attempt [intro]: "keeps m \<Longrightarrow> keeps (attempt m)"
  by (simp add: keeps_def)

text \<open>A sequence, with what the results of the first step are known to satisfy.\<close>

lemma keeps_bind_when:
  assumes "keeps m" and "\<And>s t x. m s = (t, Inr x) \<Longrightarrow> keeps (f x)"
  shows "keeps (bind_st m f)"
  unfolding keeps_def
proof
  fix s
  obtain s' r where m: "m s = (s', r)" by (cases "m s")
  have s': "related s s'" by (rule keeps_run [OF assms(1) m])
  show "related s (fst (bind_st m f s))"
  proof (cases r)
    case (Inl e)
    then show ?thesis using s' m by (simp add: bind_st_eq)
  next
    case (Inr x)
    then have "related s' (fst (f x s'))" using assms(2) m by (simp add: keeps_def)
    then show ?thesis using related_trans [OF s'] m Inr by (simp add: bind_st_eq)
  qed
qed

lemma keeps_bind [intro]: "keeps m \<Longrightarrow> (\<And>x. keeps (f x)) \<Longrightarrow> keeps (bind_st m f)"
  by (rule keeps_bind_when)

lemma keeps_if [intro]: "(b \<Longrightarrow> keeps m) \<Longrightarrow> (\<not> b \<Longrightarrow> keeps n) \<Longrightarrow> keeps (if b then m else n)"
  by simp

end

end
