(* ===== verification/FastbootServer.thy ===== *)
theory FastbootServer
  imports StateIo RustText
begin

unbundle bit_operations_syntax

text \<open>
  The fastboot server (\<open>fastboot/mod.rs\<close>): the packets of the responder, the staging area, reading
  and dispatching commands, download and upload, and the loop over commands with its handling of
  a disconnected host. The USB endpoints, file handles and memory are the operations of a \<open>link\<close>,
  each given a clock that every call advances, so a call may behave differently each time. The
  rest of the machine is the component \<open>world\<close> of the state, which handlers and post-response
  actions change.
\<close>

section \<open>The link and the state\<close>

definition COMMAND_MAX :: nat where "COMMAND_MAX = 64"

definition DOWNLOAD_PREFIX :: string where "DOWNLOAD_PREFIX = ''download:''"

definition MAX_DOWNLOAD_SIZE :: u32 where "MAX_DOWNLOAD_SIZE = 256 * 1024 * 1024"

definition TRANSFER_CHUNK :: nat where "TRANSFER_CHUNK = 1024 * 1024"

definition RESPONSE_MAX :: nat where "RESPONSE_MAX = 64"

definition RESPONSE_STATUS_LEN :: nat where "RESPONSE_STATUS_LEN = 4"

definition RESPONSE_PAYLOAD_MAX :: nat where "RESPONSE_PAYLOAD_MAX = RESPONSE_MAX - RESPONSE_STATUS_LEN"

text \<open>
  \<open>lk_read\<close> is a \<open>read\<close> of the OUT endpoint that was not interrupted; \<open>lk_read_exact\<close> and
  \<open>lk_write\<close> are the timed transfers of the endpoint library; \<open>lk_get_flags\<close>, \<open>lk_set_flags\<close>
  and \<open>lk_write_fd\<close> the system calls on the descriptor of the IN endpoint; \<open>lk_memory\<close> the creation,
  growth and writing of memory files and buffers.
\<close>

record link =
  lk_read :: "nat \<Rightarrow> bytes io"
  lk_read_exact :: "nat \<Rightarrow> nat \<Rightarrow> bytes io"
  lk_write :: "nat \<Rightarrow> bytes \<Rightarrow> unit io"
  lk_get_flags :: "nat \<Rightarrow> u32 io"
  lk_set_flags :: "nat \<Rightarrow> u32 \<Rightarrow> unit io"
  lk_write_fd :: "nat \<Rightarrow> bytes \<Rightarrow> nat io"
  lk_memory :: "nat \<Rightarrow> unit io"

datatype staged_payload =
    MemoryPayload bytes
  | FilePayload bytes u64

record staged_data =
  sd_label :: string
  sd_payload :: staged_payload

text \<open>\<open>sent\<close> holds the buffers handed to the IN endpoint, in order.\<close>

record 'w server =
  clock :: nat
  sent :: "bytes list"
  staged :: "staged_data option"
  world :: 'w

type_synonym ('w, 'a) op = "('w server, 'a) sio"

definition link_op :: "(nat \<Rightarrow> 'a io) \<Rightarrow> ('w, 'a) op" where
  "link_op f s = (s\<lparr>clock := Suc (clock s)\<rparr>, f (clock s))"

definition send_buffer :: "link \<Rightarrow> bytes \<Rightarrow> ('w, unit) op" where
  "send_buffer lk buf s = (s\<lparr>clock := Suc (clock s), sent := sent s @ [buf]\<rparr>, lk_write lk (clock s) buf)"

section \<open>Responses\<close>

definition write_packet :: "link \<Rightarrow> string \<Rightarrow> bytes \<Rightarrow> ('w, unit) op" where
  "write_packet lk status payload =
     (if RESPONSE_PAYLOAD_MAX < length payload then throw (IoError InvalidInput ''fastboot response payload too large'')
      else send_buffer lk (bytes_of status @ payload))"

definition write_packet_truncated :: "link \<Rightarrow> string \<Rightarrow> bytes \<Rightarrow> ('w, unit) op" where
  "write_packet_truncated lk status payload = write_packet lk status (take (min (length payload) RESPONSE_PAYLOAD_MAX) payload)"

text \<open>\<open>slice::chunks\<close>, the last of which may be shorter.\<close>

function chunks_of :: "nat \<Rightarrow> 'a list \<Rightarrow> 'a list list" where
  "chunks_of n xs = (if xs = [] \<or> n = 0 then [] else take n xs # chunks_of n (drop n xs))"
  by pat_completeness auto
termination by (relation "measure (\<lambda>(n, xs). length xs)") auto

declare chunks_of.simps [simp del]

primrec write_info_chunks :: "link \<Rightarrow> bytes list \<Rightarrow> ('w, unit) op" where
  "write_info_chunks lk [] = ret ()"
| "write_info_chunks lk (c # cs) = bind_st (write_packet lk ''INFO'' c) (\<lambda>_. write_info_chunks lk cs)"

definition respond_info :: "link \<Rightarrow> string \<Rightarrow> ('w, unit) op" where
  "respond_info lk message = write_info_chunks lk (chunks_of RESPONSE_PAYLOAD_MAX (bytes_of message))"

definition respond_okay :: "link \<Rightarrow> string \<Rightarrow> ('w, unit) op" where
  "respond_okay lk message = write_packet_truncated lk ''OKAY'' (bytes_of message)"

definition respond_fail :: "link \<Rightarrow> string \<Rightarrow> ('w, unit) op" where
  "respond_fail lk message = write_packet_truncated lk ''FAIL'' (bytes_of message)"

definition respond_data :: "link \<Rightarrow> u32 \<Rightarrow> ('w, unit) op" where
  "respond_data lk len = write_packet lk ''DATA'' (bytes_of (hex_padded 8 (unat len)))"

definition send_payload :: "link \<Rightarrow> bytes \<Rightarrow> ('w, unit) op" where
  "send_payload lk payload = send_buffer lk payload"

definition transfer_buffer :: "link \<Rightarrow> ('w, unit) op" where
  "transfer_buffer lk = link_op (\<lambda>c. map_err_prefix ''allocate transfer buffer: '' (lk_memory lk c))"

text \<open>The loop of \<open>send_payload_from_reader\<close> over a file from a cursor on.\<close>

function send_from :: "link \<Rightarrow> bytes \<Rightarrow> nat \<Rightarrow> nat \<Rightarrow> ('w, unit) op" where
  "send_from lk file pos remaining =
     (if remaining = 0 then ret ()
      else
        (let chunk_len = min remaining TRANSFER_CHUNK
         in if length file < pos + chunk_len then throw (IoError UnexpectedEof ''failed to fill whole buffer'')
            else bind_st (send_payload lk (slice file pos (pos + chunk_len))) (\<lambda>_.
                 send_from lk file (pos + chunk_len) (remaining - chunk_len))))"
  by pat_completeness auto
termination
  by (relation "measure (\<lambda>(lk, file, pos, remaining). remaining)") (auto simp: TRANSFER_CHUNK_def)

declare send_from.simps [simp del]

definition send_payload_from_reader :: "link \<Rightarrow> bytes \<Rightarrow> nat \<Rightarrow> ('w, unit) op" where
  "send_payload_from_reader lk file remaining = bind_st (transfer_buffer lk) (\<lambda>_. send_from lk file 0 remaining)"

text \<open>The OKAY to \<open>continue\<close> is written without blocking; its result is only logged.\<close>

definition O_NONBLOCK :: u32 where "O_NONBLOCK = 0x800"

definition set_nonblocking :: "link \<Rightarrow> ('w, u32) op" where
  "set_nonblocking lk =
     bind_st (link_op (lk_get_flags lk)) (\<lambda>flags.
     if flags AND O_NONBLOCK = 0 then bind_st (link_op (\<lambda>c. lk_set_flags lk c (flags OR O_NONBLOCK))) (\<lambda>_. ret flags)
     else ret flags)"

function write_all_fd :: "link \<Rightarrow> bytes \<Rightarrow> ('w, unit) op" where
  "write_all_fd lk buf s =
     (if buf = [] then (s, Inr ())
      else
        (case lk_write_fd lk (clock s) buf of
           Inl e \<Rightarrow> (s\<lparr>clock := Suc (clock s)\<rparr>, Inl e)
         | Inr written \<Rightarrow>
             if 0 < written then write_all_fd lk (drop written buf) (s\<lparr>clock := Suc (clock s), sent := sent s @ [take written buf]\<rparr>)
             else (s\<lparr>clock := Suc (clock s)\<rparr>, Inl (IoError WriteZero ''short fastboot response write''))))"
  by pat_completeness auto
termination
  by (relation "measure (\<lambda>(lk, buf, s). length buf)") auto

declare write_all_fd.simps [simp del]

definition restore_flags :: "link \<Rightarrow> u32 \<Rightarrow> ('w, unit) op" where
  "restore_flags lk flags = link_op (\<lambda>c. lk_set_flags lk c flags)"

definition write_packet_nonblocking :: "link \<Rightarrow> string \<Rightarrow> bytes \<Rightarrow> ('w, unit) op" where
  "write_packet_nonblocking lk status payload =
     (if RESPONSE_PAYLOAD_MAX < length payload then throw (IoError InvalidInput ''fastboot response payload too large'')
      else
        bind_st (set_nonblocking lk) (\<lambda>flags.
        bind_st (attempt (write_all_fd lk (bytes_of status @ payload))) (\<lambda>result.
        bind_st (attempt (restore_flags lk flags)) (\<lambda>restore_result.
        lift_io (bind_io result (\<lambda>_. restore_result))))))"

definition okay_best_effort :: "link \<Rightarrow> string \<Rightarrow> ('w, unit) op" where
  "okay_best_effort lk message =
     write_packet_nonblocking lk ''OKAY'' (take (min (length message) RESPONSE_PAYLOAD_MAX) (bytes_of message))"

section \<open>The staging area\<close>

definition staged_len_of :: "staged_data \<Rightarrow> nat" where
  "staged_len_of d = (case sd_payload d of MemoryPayload data \<Rightarrow> length data | FilePayload file sz \<Rightarrow> unat sz)"

text \<open>\<open>as_file\<close> gives the contents of a fresh handle, read from its start.\<close>

definition staged_as_file :: "link \<Rightarrow> staged_data \<Rightarrow> ('w, bytes) op" where
  "staged_as_file lk d =
     (case sd_payload d of
        MemoryPayload data \<Rightarrow>
          bind_st (link_op (lk_memory lk)) (\<lambda>_. bind_st (link_op (lk_memory lk)) (\<lambda>_. ret data))
      | FilePayload file sz \<Rightarrow> bind_st (link_op (lk_memory lk)) (\<lambda>_. ret file))"

definition staged_send :: "link \<Rightarrow> staged_data \<Rightarrow> ('w, unit) op" where
  "staged_send lk d =
     (case sd_payload d of
        MemoryPayload data \<Rightarrow> send_payload lk data
      | FilePayload _ _ \<Rightarrow>
          bind_st (staged_as_file lk d) (\<lambda>file. send_payload_from_reader lk file (staged_len_of d)))"

definition stage :: "string \<Rightarrow> bytes \<Rightarrow> ('w, unit) op" where
  "stage n data = modify_st (\<lambda>s. s\<lparr>staged := Some \<lparr>sd_label = n, sd_payload = MemoryPayload data\<rparr>\<rparr>)"

definition stage_file :: "string \<Rightarrow> bytes \<Rightarrow> u64 \<Rightarrow> ('w, unit) op" where
  "stage_file n file sz = modify_st (\<lambda>s. s\<lparr>staged := Some \<lparr>sd_label = n, sd_payload = FilePayload file sz\<rparr>\<rparr>)"

definition clear_staged :: "('w, unit) op" where
  "clear_staged = modify_st (\<lambda>s. s\<lparr>staged := None\<rparr>)"

definition staged_file :: "link \<Rightarrow> ('w, bytes) op" where
  "staged_file lk =
     bind_st (get_st staged) (\<lambda>st.
     bind_st (lift_io (ok_or (IoError NotFound ''no staged data'') st)) (\<lambda>d. staged_as_file lk d))"

definition staged_len :: "('w, nat) op" where
  "staged_len =
     bind_st (get_st staged) (\<lambda>st.
     lift_io (bind_io (ok_or (IoError NotFound ''no staged data'') st) (\<lambda>d. Inr (staged_len_of d))))"

section \<open>Commands\<close>

type_synonym 'w action = "'w \<Rightarrow> 'w \<times> unit io"

datatype command_flow = FlowContinue | FlowExit

record 'w command_result =
  flow :: command_flow
  action :: "'w action option"

definition continue_result :: "'w command_result" where
  "continue_result = \<lparr>flow = FlowContinue, action = None\<rparr>"

definition exit_with :: "'w action option \<Rightarrow> 'w command_result" where
  "exit_with a = \<lparr>flow = FlowExit, action = a\<rparr>"

type_synonym 'w handler = "string \<Rightarrow> ('w, 'w command_result) op"

datatype command_match = MatchExact | MatchPrefix

record 'w command =
  cmd_name :: string
  match_kind :: command_match
  cmd_handler :: "'w handler"

definition command_exact :: "string \<Rightarrow> 'w handler \<Rightarrow> 'w command" where
  "command_exact n h = \<lparr>cmd_name = n, match_kind = MatchExact, cmd_handler = h\<rparr>"

definition command_prefix :: "string \<Rightarrow> 'w handler \<Rightarrow> 'w command" where
  "command_prefix n h = \<lparr>cmd_name = n, match_kind = MatchPrefix, cmd_handler = h\<rparr>"

text \<open>Exact names first, then prefixes, each in the order of the table.\<close>

definition find_command_handler :: "'w command list \<Rightarrow> string \<Rightarrow> 'w handler option" where
  "find_command_handler commands command =
     (case find (\<lambda>c. match_kind c = MatchExact \<and> cmd_name c = command) commands of
        Some c \<Rightarrow> Some (cmd_handler c)
      | None \<Rightarrow> map_option cmd_handler (find (\<lambda>c. match_kind c = MatchPrefix \<and> starts_with (cmd_name c) command) commands))"

definition okay_then_exit :: "link \<Rightarrow> string \<Rightarrow> 'w action \<Rightarrow> ('w, 'w command_result) op" where
  "okay_then_exit lk message a = bind_st (respond_okay lk message) (\<lambda>_. ret (exit_with (Some a)))"

datatype 'w server_step = StepContinue | StepExit "'w action option"

text \<open>The result of an action after \<open>continue\<close> is only logged.\<close>

definition finish_command_result :: "'w command_result \<Rightarrow> ('w, 'w server_step) op" where
  "finish_command_result r =
     (case flow r of
        FlowContinue \<Rightarrow>
          (case action r of
             None \<Rightarrow> ret StepContinue
           | Some a \<Rightarrow> bind_st (modify_st (\<lambda>s. s\<lparr>world := fst (a (world s))\<rparr>)) (\<lambda>_. ret StepContinue))
      | FlowExit \<Rightarrow> ret (StepExit (action r)))"

text \<open>\<open>ESHUTDOWN\<close>, \<open>EPIPE\<close>, \<open>ENODEV\<close>, \<open>ECONNRESET\<close> and \<open>EIO\<close>, or a kind that says the link is gone.\<close>

definition is_usb_disconnect :: "io_error \<Rightarrow> bool" where
  "is_usb_disconnect e =
     (case e of
        IoError k _ \<Rightarrow>
          (case k of OsErrno n \<Rightarrow> n \<in> {108, 32, 19, 104, 5} | _ \<Rightarrow> False) \<or>
          plain_kind k \<in> {BrokenPipe, ConnectionAborted, ConnectionReset, NotConnected}
      | RustPanic \<Rightarrow> False)"

text \<open>\<open>from_str_radix\<close> accepts a plus sign before the digits.\<close>

definition parse_download_command :: "string \<Rightarrow> u32 option io" where
  "parse_download_command command =
     (case strip_prefix DOWNLOAD_PREFIX command of
        None \<Rightarrow> Inr None
      | Some sz \<Rightarrow>
          if length sz \<noteq> 8 then invalid_input ''download size must be 8 hex digits''
          else (case parse_radix 16 (2 ^ 32) sz of
                  Some n \<Rightarrow> Inr (Some (of_nat n))
                | None \<Rightarrow> invalid_input ''invalid download size''))"

text \<open>The text a failing command reports; interpolated values are left out, as everywhere in the model.\<close>

definition error_text :: "io_error \<Rightarrow> string" where
  "error_text e = (case e of IoError _ m \<Rightarrow> m | RustPanic \<Rightarrow> [])"

section \<open>The server\<close>

definition read_command :: "link \<Rightarrow> ('w, bytes) op" where
  "read_command lk =
     bind_st (link_op (lk_read lk)) (\<lambda>packet. ret (takeWhile (\<lambda>b. b \<noteq> 0) (take COMMAND_MAX packet)))"

function receive :: "link \<Rightarrow> nat \<Rightarrow> nat \<Rightarrow> bytes \<Rightarrow> ('w, bytes) op" where
  "receive lk buffer_len remaining file =
     (if remaining = 0 \<or> buffer_len = 0 then ret file
      else
        (let chunk_len = min remaining buffer_len
         in bind_st (link_op (\<lambda>c. lk_read_exact lk c chunk_len)) (\<lambda>chunk.
            bind_st (link_op (lk_memory lk)) (\<lambda>_.
            receive lk buffer_len (remaining - chunk_len) (file @ chunk)))))"
  by pat_completeness auto
termination
  by (relation "measure (\<lambda>(lk, buffer_len, remaining, file). remaining)") auto

declare receive.simps [simp del]

definition download :: "link \<Rightarrow> u32 \<Rightarrow> ('w, unit) op" where
  "download lk len =
     bind_st clear_staged (\<lambda>_.
     if MAX_DOWNLOAD_SIZE < len then throw (IoError InvalidInput ''download size exceeds max-download-size'')
     else
     bind_st (link_op (lk_memory lk)) (\<lambda>_.
     bind_st (link_op (lk_memory lk)) (\<lambda>_.
     bind_st (transfer_buffer lk) (\<lambda>_.
     bind_st (respond_data lk len) (\<lambda>_.
     bind_st (receive lk (min (unat len) TRANSFER_CHUNK) (unat len) []) (\<lambda>file.
     bind_st (stage_file ''download'' file (ucast len)) (\<lambda>_.
     respond_okay lk [])))))))"

definition upload_staged :: "link \<Rightarrow> ('w, unit) op" where
  "upload_staged lk =
     bind_st (get_st staged) (\<lambda>st.
     case st of
       None \<Rightarrow> respond_fail lk ''no staged data''
     | Some d \<Rightarrow>
         if 2 ^ 32 \<le> staged_len_of d then respond_fail lk ''staged data too large''
         else
           bind_st (respond_data lk (of_nat (staged_len_of d))) (\<lambda>_.
           bind_st (staged_send lk d) (\<lambda>_.
           respond_okay lk [])))"

text \<open>What \<open>run_once\<close> does with an error of a download or a handler: a lost host ends the step, the rest is reported.\<close>

definition report_error :: "link \<Rightarrow> io_error \<Rightarrow> ('w, 'w server_step) op" where
  "report_error lk e =
     (if e = RustPanic \<or> is_usb_disconnect e then throw e
      else bind_st (respond_fail lk (error_text e)) (\<lambda>_. ret StepContinue))"

definition run_once :: "link \<Rightarrow> 'w command list \<Rightarrow> ('w, 'w server_step) op" where
  "run_once lk commands =
     bind_st (read_command lk) (\<lambda>packet.
     if \<not> utf8_valid packet then bind_st (respond_fail lk ''unrecognized command'') (\<lambda>_. ret StepContinue)
     else
       (let command = text_of packet
        in if command = ''continue'' then
             bind_st (attempt (okay_best_effort lk [])) (\<lambda>_. ret (StepExit None))
           else if command \<in> {''upload'', ''get_staged''} then
             bind_st (upload_staged lk) (\<lambda>_. ret StepContinue)
           else if starts_with DOWNLOAD_PREFIX command then
             bind_st clear_staged (\<lambda>_.
             case parse_download_command command of
               Inr (Some len) \<Rightarrow>
                 bind_st (attempt (download lk len)) (\<lambda>r.
                 case r of Inr _ \<Rightarrow> ret StepContinue | Inl e \<Rightarrow> report_error lk e)
             | Inr None \<Rightarrow> throw RustPanic
             | Inl e \<Rightarrow> bind_st (respond_fail lk (error_text e)) (\<lambda>_. ret StepContinue))
           else
             (case find_command_handler commands command of
                Some h \<Rightarrow>
                  bind_st (attempt (h command)) (\<lambda>r.
                  case r of Inr result \<Rightarrow> finish_command_result result | Inl e \<Rightarrow> report_error lk e)
              | None \<Rightarrow> bind_st (respond_fail lk ''unsupported command'') (\<lambda>_. ret StepContinue))))"

text \<open>
  The loop of \<open>run\<close>, with whether the host is taken as disconnected. It may run forever, and then
  is None.
\<close>

partial_function (option) run_loop ::
  "link \<Rightarrow> 'w command list \<Rightarrow> bool \<Rightarrow> 'w server \<Rightarrow> ('w server \<times> 'w action option io) option" where
  "run_loop lk commands disconnected s =
     (case run_once lk commands s of
        (s, Inr StepContinue) \<Rightarrow> run_loop lk commands False s
      | (s, Inr (StepExit a)) \<Rightarrow> Some (s, Inr a)
      | (s, Inl e) \<Rightarrow> if is_usb_disconnect e then run_loop lk commands True s else Some (s, Inl e))"

end
