(* ===== verification/FastbootProofs.thy ===== *)
theory FastbootProofs
  imports FastbootServer
begin

unbundle bit_operations_syntax

text \<open>
  What the server promises. Four relations between the states before and after an operation are
  frames: only INFO packets were sent, no buffer longer than a packet was sent, the staging area
  is untouched, and a staged file stays as long as its recorded size. A command answers with INFO
  packets and one last OKAY or FAIL; the locale \<open>command_table\<close> is the contract of a table of
  handlers from which the same is proved of \<open>run_once\<close>.
\<close>

section \<open>Packets\<close>

definition is_info :: "bytes \<Rightarrow> bool" where
  "is_info p \<longleftrightarrow> starts_with (bytes_of ''INFO'') p \<and> length p \<le> RESPONSE_MAX"

definition is_final :: "bytes \<Rightarrow> bool" where
  "is_final p \<longleftrightarrow> (starts_with (bytes_of ''OKAY'') p \<or> starts_with (bytes_of ''FAIL'') p) \<and> length p \<le> RESPONSE_MAX"

definition reply :: "bytes list \<Rightarrow> bool" where
  "reply ps \<longleftrightarrow> (\<exists>infos final. ps = infos @ [final] \<and> list_all is_info infos \<and> is_final final)"

definition infos_sent :: "'w server \<Rightarrow> 'w server \<Rightarrow> bool" where
  "infos_sent s t \<longleftrightarrow> (\<exists>ps. sent t = sent s @ ps \<and> list_all is_info ps)"

definition packets_sent :: "'w server \<Rightarrow> 'w server \<Rightarrow> bool" where
  "packets_sent s t \<longleftrightarrow> (\<exists>ps. sent t = sent s @ ps \<and> list_all (\<lambda>p. length p \<le> RESPONSE_MAX) ps)"

definition replied :: "'w server \<Rightarrow> 'w server \<Rightarrow> bool" where
  "replied s t \<longleftrightarrow> (\<exists>ps. sent t = sent s @ ps \<and> reply ps)"

definition same_staged :: "'w server \<Rightarrow> 'w server \<Rightarrow> bool" where
  "same_staged s t \<longleftrightarrow> staged t = staged s \<and> world t = world s"

definition staged_ok :: "staged_data option \<Rightarrow> bool" where
  "staged_ok st \<longleftrightarrow> (\<forall>d file sz. st = Some d \<longrightarrow> sd_payload d = FilePayload file sz \<longrightarrow> length file = unat sz)"

definition staged_kept :: "'w server \<Rightarrow> 'w server \<Rightarrow> bool" where
  "staged_kept s t \<longleftrightarrow> (staged_ok (staged s) \<longrightarrow> staged_ok (staged t))"

interpretation infos: frame infos_sent
  by unfold_locales (force simp: infos_sent_def)+

interpretation packets: frame packets_sent
  by unfold_locales (force simp: packets_sent_def)+

interpretation quiet: frame same_staged
  by unfold_locales (auto simp: same_staged_def)

interpretation area: frame staged_kept
  by unfold_locales (auto simp: staged_kept_def)

lemma infos_then_reply: "infos_sent s t \<Longrightarrow> replied t u \<Longrightarrow> replied s u"
proof -
  assume "infos_sent s t" "replied t u"
  then obtain ps qs f where p: "sent t = sent s @ ps" "list_all is_info ps" and
    q: "sent u = sent t @ qs @ [f]" "list_all is_info qs" "is_final f"
    unfolding infos_sent_def replied_def reply_def by auto
  have "sent u = sent s @ (ps @ qs) @ [f]" "list_all is_info (ps @ qs)" using p q by simp_all
  then show "replied s u" unfolding replied_def reply_def using q(3) by blast
qed

lemma infos_packets: "infos_sent s t \<Longrightarrow> packets_sent s t"
  by (auto simp: infos_sent_def packets_sent_def is_info_def list_all_iff)

lemma same_staged_kept: "same_staged s t \<Longrightarrow> staged_kept s t"
  by (simp add: same_staged_def staged_kept_def)

lemma quiet_area: "quiet.keeps m \<Longrightarrow> area.keeps m"
  by (simp add: quiet.keeps_def area.keeps_def same_staged_kept)

lemma infos_keep_packets: "infos.keeps m \<Longrightarrow> packets.keeps m"
  by (simp add: infos.keeps_def packets.keeps_def infos_packets)

text \<open>Operations that send nothing.\<close>

definition silent :: "('w, 'a) op \<Rightarrow> bool" where
  "silent m \<longleftrightarrow> (\<forall>s. sent (fst (m s)) = sent s)"

lemma silent_infos: "silent m \<Longrightarrow> infos.keeps m"
  by (simp add: silent_def infos.keeps_def infos_sent_def)

lemma silent_op [simp]: "silent (link_op f)" "silent (stage n d)" "silent (stage_file n d sz)" "silent clear_staged"
  by (simp_all add: silent_def link_op_def stage_def stage_file_def clear_staged_def)

lemma quiet_link_op [simp, intro]: "quiet.keeps (link_op f)"
  by (simp add: quiet.keeps_def link_op_def same_staged_def)

lemma send_buffer_run:
  "fst (send_buffer lk buf s) = s\<lparr>clock := Suc (clock s), sent := sent s @ [buf]\<rparr>"
  by (simp add: send_buffer_def)

lemma quiet_send_buffer [simp, intro]: "quiet.keeps (send_buffer lk buf)"
  by (simp add: quiet.keeps_def send_buffer_def same_staged_def)

lemma packets_send_buffer: "length buf \<le> RESPONSE_MAX \<Longrightarrow> packets.keeps (send_buffer lk buf)"
  by (simp add: packets.keeps_def send_buffer_def packets_sent_def)

lemma infos_send_buffer: "is_info buf \<Longrightarrow> infos.keeps (send_buffer lk buf)"
  by (simp add: infos.keeps_def send_buffer_def infos_sent_def)

lemma payload_max [simp]: "RESPONSE_PAYLOAD_MAX = 60" "RESPONSE_MAX = 64"
  by (simp_all add: RESPONSE_PAYLOAD_MAX_def RESPONSE_MAX_def RESPONSE_STATUS_LEN_def)

lemma quiet_write_packet [simp, intro]: "quiet.keeps (write_packet lk st p)"
  by (simp add: write_packet_def)

lemma packets_write_packet [intro]: "length st = 4 \<Longrightarrow> packets.keeps (write_packet lk st p)"
  by (simp add: write_packet_def packets_send_buffer)

lemma starts_with_append [simp]: "starts_with p (p @ q)"
  by (auto simp: starts_with_iff)

lemma infos_write_packet [intro]: "infos.keeps (write_packet lk ''INFO'' p)"
  by (simp add: write_packet_def infos_send_buffer is_info_def)

lemma write_info_chunks_keeps:
  "infos.keeps (write_info_chunks lk cs)" "quiet.keeps (write_info_chunks lk cs)"
  by (induction cs) (auto intro: infos.keeps_bind quiet.keeps_bind)

lemma respond_keeps [intro]:
  "infos.keeps (respond_info lk m)" "quiet.keeps (respond_info lk m)" "quiet.keeps (respond_okay lk m)"
  "quiet.keeps (respond_fail lk m)" "quiet.keeps (respond_data lk n)" "packets.keeps (respond_okay lk m)"
  "packets.keeps (respond_fail lk m)" "packets.keeps (respond_data lk n)"
  by (simp_all add: respond_info_def respond_okay_def respond_fail_def respond_data_def write_packet_truncated_def
      write_info_chunks_keeps packets_write_packet)

section \<open>Replies over a link that works\<close>

definition link_writes :: "link \<Rightarrow> bool" where
  "link_writes lk \<longleftrightarrow> (\<forall>c buf. lk_write lk c buf = Inr ())"

lemma respond_final:
  assumes "link_writes lk"
  shows "snd (respond_okay lk m s) = Inr ()" "snd (respond_fail lk m s) = Inr ()"
    "replied s (fst (respond_okay lk m s))" "replied s (fst (respond_fail lk m s))"
proof -
  have one: "\<exists>p. sent t = sent s @ [p] \<and> is_final p"
    if "t = s\<lparr>clock := Suc (clock s), sent := sent s @ [bytes_of st @ take 60 (bytes_of m)]\<rparr>" "st = ''OKAY'' \<or> st = ''FAIL''" for t st
    using that by (intro exI [of _ "bytes_of st @ take 60 (bytes_of m)"]) (auto simp: is_final_def)
  have fin: "replied s t"
    if "t = s\<lparr>clock := Suc (clock s), sent := sent s @ [bytes_of st @ take 60 (bytes_of m)]\<rparr>" "st = ''OKAY'' \<or> st = ''FAIL''" for t st
  proof -
    from one [OF that] obtain p where p: "sent t = sent s @ [p]" "is_final p" by blast
    show ?thesis unfolding replied_def reply_def
      using p by (intro exI [of _ "[p]"] conjI exI [of _ "[]"] exI [of _ p]) simp_all
  qed
  have run: "respond_okay lk m s = (s\<lparr>clock := Suc (clock s), sent := sent s @ [bytes_of ''OKAY'' @ take 60 (bytes_of m)]\<rparr>, Inr ())"
    "respond_fail lk m s = (s\<lparr>clock := Suc (clock s), sent := sent s @ [bytes_of ''FAIL'' @ take 60 (bytes_of m)]\<rparr>, Inr ())"
    using assms by (simp_all add: respond_okay_def respond_fail_def write_packet_truncated_def write_packet_def send_buffer_def
        link_writes_def min_def)
  show "snd (respond_okay lk m s) = Inr ()" "snd (respond_fail lk m s) = Inr ()" by (simp_all add: run)
  show "replied s (fst (respond_okay lk m s))" "replied s (fst (respond_fail lk m s))"
    unfolding run fst_conv by (rule fin, simp, simp)+
qed

text \<open>\<open>answers m\<close>: when \<open>m\<close> succeeds it has replied, when it fails it sent only INFO packets.\<close>

definition answers :: "('w, 'a) op \<Rightarrow> bool" where
  "answers m \<longleftrightarrow> (\<forall>s. case m s of (t, Inr _) \<Rightarrow> replied s t | (t, Inl _) \<Rightarrow> infos_sent s t)"

lemma answers_run: "answers m \<Longrightarrow> m s = (t, Inr x) \<Longrightarrow> replied s t"
  "answers m \<Longrightarrow> m s = (t, Inl e) \<Longrightarrow> infos_sent s t"
  by (auto simp: answers_def dest: spec [of _ s])

lemma answers_throw [intro]: "answers (throw e)"
  by (simp add: answers_def infos_sent_def)

lemma answers_respond [intro]:
  "link_writes lk \<Longrightarrow> answers (respond_okay lk m)" "link_writes lk \<Longrightarrow> answers (respond_fail lk m)"
  by (metis (mono_tags, lifting) answers_def respond_final case_prod_unfold old.sum.simps(6))+

lemma answers_then_ret [intro]:
  assumes "answers m" shows "answers (bind_st m (\<lambda>x. ret (f x)))"
  unfolding answers_def
proof
  fix s
  show "case bind_st m (\<lambda>x. ret (f x)) s of (t, Inr _) \<Rightarrow> replied s t | (t, Inl _) \<Rightarrow> infos_sent s t"
    using assms [unfolded answers_def, rule_format, of s]
    by (cases "m s"; cases "snd (m s)") (auto simp: bind_st_def)
qed

lemma answers_bind [intro]:
  assumes "infos.keeps m" "\<And>x. answers (f x)"
  shows "answers (bind_st m f)"
  unfolding answers_def
proof
  fix s
  obtain u q where m: "m s = (u, q)" by fastforce
  have u: "infos_sent s u" by (rule infos.keeps_run [OF assms(1) m])
  show "case bind_st m f s of (t, Inr _) \<Rightarrow> replied s t | (t, Inl _) \<Rightarrow> infos_sent s t"
  proof (cases q)
    case (Inl e)
    then show ?thesis using u m by (simp add: bind_st_eq)
  next
    case (Inr x)
    then show ?thesis
      using assms(2) [of x, unfolded answers_def, rule_format, of u] u m
      by (auto simp: bind_st_eq intro: infos_then_reply infos.related_trans split: sum.splits)
  qed
qed

lemma answers_if [intro]: "(b \<Longrightarrow> answers m) \<Longrightarrow> (\<not> b \<Longrightarrow> answers n) \<Longrightarrow> answers (if b then m else n)"
  by simp

lemma report_error_answers: "link_writes lk \<Longrightarrow> answers (report_error lk e)"
  by (auto simp: report_error_def)

lemma report_error_keeps: "packets.keeps (report_error lk e)" "quiet.keeps (report_error lk e)"
  by (auto simp: report_error_def)

text \<open>\<open>gone e\<close>: the errors that end a step without an answer.\<close>

definition gone :: "io_error \<Rightarrow> bool" where
  "gone e \<longleftrightarrow> e = RustPanic \<or> is_usb_disconnect e"

lemma report_error_run:
  "gone e \<Longrightarrow> report_error lk e s = (s, Inl e)"
  "\<not> gone e \<Longrightarrow> link_writes lk \<Longrightarrow> \<exists>t. report_error lk e s = (t, Inr StepContinue) \<and> replied s t"
proof -
  show "gone e \<Longrightarrow> report_error lk e s = (s, Inl e)" by (simp add: report_error_def gone_def)
  assume e: "\<not> gone e" and lk: "link_writes lk"
  have "snd (respond_fail lk (error_text e) s) = Inr ()" "replied s (fst (respond_fail lk (error_text e) s))"
    using respond_final [OF lk] by blast+
  then obtain t where "respond_fail lk (error_text e) s = (t, Inr ())" "replied s t"
    by (cases "respond_fail lk (error_text e) s") auto
  then show "\<exists>t. report_error lk e s = (t, Inr StepContinue) \<and> replied s t"
    using e by (simp add: report_error_def gone_def bind_st_eq)
qed

text \<open>Running a post-response action changes only the world.\<close>

lemma finish_command_result_run:
  "\<exists>t step. finish_command_result r s = (t, Inr step) \<and> sent t = sent s \<and> staged t = staged s"
  by (cases "flow r"; cases "action r") (simp_all add: finish_command_result_def)

text \<open>The command in a packet, and the commands the server serves itself.\<close>

definition command_in :: "bytes \<Rightarrow> bytes" where
  "command_in packet = takeWhile (\<lambda>b. b \<noteq> 0) (take COMMAND_MAX packet)"

definition built_in :: "string \<Rightarrow> bool" where
  "built_in command \<longleftrightarrow> command \<in> {''continue'', ''upload'', ''get_staged''} \<or> starts_with DOWNLOAD_PREFIX command"

lemma read_command_run:
  "read_command lk s =
     (case lk_read lk (clock s) of Inl e \<Rightarrow> (s\<lparr>clock := Suc (clock s)\<rparr>, Inl e)
      | Inr packet \<Rightarrow> (s\<lparr>clock := Suc (clock s)\<rparr>, Inr (command_in packet)))"
  by (simp add: read_command_def link_op_def bind_st_def command_in_def split: sum.splits)

section \<open>Transfers\<close>

lemma packets_clear [intro]: "silent m \<Longrightarrow> packets.keeps m"
  by (simp add: silent_infos infos_keep_packets)

lemma area_stage [intro]: "area.keeps (stage n data)" "area.keeps clear_staged"
  "length file = unat sz \<Longrightarrow> area.keeps (stage_file n file sz)"
  by (simp_all add: area.keeps_def staged_kept_def staged_ok_def stage_def clear_staged_def stage_file_def)

text \<open>The timed reads of the endpoint library deliver what they are asked for.\<close>

definition link_exact :: "link \<Rightarrow> bool" where
  "link_exact lk \<longleftrightarrow> (\<forall>c n bs. lk_read_exact lk c n = Inr bs \<longrightarrow> length bs = n)"

text \<open>The bytes a download that starts at clock \<open>c\<close> is given: each piece takes a read and a write to the memory file.\<close>

function delivered :: "link \<Rightarrow> nat \<Rightarrow> nat \<Rightarrow> bytes" where
  "delivered lk c n =
     (if n = 0 then []
      else (case lk_read_exact lk c (min n TRANSFER_CHUNK) of
              Inl e \<Rightarrow> [] | Inr bs \<Rightarrow> bs @ delivered lk (c + 2) (n - min n TRANSFER_CHUNK)))"
  by pat_completeness auto
termination by (relation "measure (\<lambda>(lk, c, n). n)") (auto simp: TRANSFER_CHUNK_def)

declare delivered.simps [simp del]

lemma receive_run:
  assumes "link_exact lk"
  shows "receive lk k n acc s = (t, r) \<Longrightarrow> 0 < k \<Longrightarrow> k = TRANSFER_CHUNK \<or> n \<le> k \<and> k \<le> TRANSFER_CHUNK \<Longrightarrow>
    sent t = sent s \<and> staged t = staged s \<and> world t = world s \<and>
    (\<forall>f. r = Inr f \<longrightarrow> f = acc @ delivered lk (clock s) n \<and> length f = length acc + n)"
proof (induction n arbitrary: acc s rule: less_induct)
  case (less n)
  note run = less.prems(1) [unfolded receive.simps [of lk k n]]
  show ?case
  proof (cases "n = 0")
    case True
    then show ?thesis using run by (auto simp: delivered.simps)
  next
    case False
    have m: "min n k = min n TRANSFER_CHUNK" using less.prems(3) by auto
    let ?m = "min n TRANSFER_CHUNK" let ?s1 = "s\<lparr>clock := Suc (clock s)\<rparr>" and ?s2 = "s\<lparr>clock := Suc (Suc (clock s))\<rparr>"
    have m0: "0 < ?m" "?m \<le> n" using False by (simp_all add: TRANSFER_CHUNK_def)
    show ?thesis
    proof (cases "lk_read_exact lk (clock s) ?m")
      case (Inl e)
      then show ?thesis using run False less.prems(2) m by (auto simp: Let_def bind_st_def link_op_def)
    next
      case (Inr bs)
      then have lb: "length bs = ?m" using assms by (auto simp: link_exact_def)
      show ?thesis
      proof (cases "lk_memory lk (Suc (clock s))")
        case (Inl e)
        then show ?thesis using run False less.prems(2) m Inr by (auto simp: Let_def bind_st_def link_op_def)
      next
        case mem: (Inr x)
        have run': "receive lk k (n - ?m) (acc @ bs) ?s2 = (t, r)"
          using run False less.prems(2) m Inr mem by (simp add: Let_def bind_st_def link_op_def)
        have "n - ?m < n" "k = TRANSFER_CHUNK \<or> n - ?m \<le> k \<and> k \<le> TRANSFER_CHUNK" using m0 less.prems(3) by auto
        note ih = less.IH [OF this(1) run' less.prems(2) this(2)]
        have "delivered lk (clock s) n = bs @ delivered lk (Suc (Suc (clock s))) (n - ?m)"
          using False Inr by (subst delivered.simps) simp
        then show ?thesis using ih lb m0 by auto
      qed
    qed
  qed
qed

text \<open>The packet that announces the length of a transfer.\<close>

definition data_packet :: "nat \<Rightarrow> bytes" where
  "data_packet n = bytes_of ''DATA'' @ bytes_of (hex_padded 8 n)"

lemma length_hex_of: "0 < k \<Longrightarrow> n < 16 ^ k \<Longrightarrow> length (hex_of n) \<le> k"
proof (induction n arbitrary: k rule: hex_of.induct)
  case (1 n)
  show ?case
  proof (cases "n < 16")
    case True
    then show ?thesis using "1.prems"(1) by (subst hex_of.simps) simp
  next
    case False
    obtain j where k: "k = Suc j" using "1.prems"(1) by (cases k) simp_all
    have "0 < j" using False "1.prems"(2) k by (cases j) simp_all
    moreover have "n div 16 < 16 ^ j" using "1.prems"(2) by (simp add: k less_mult_imp_div_less)
    ultimately have "length (hex_of (n div 16)) \<le> j" using "1.IH" [OF False] by blast
    then show ?thesis using False k by (subst hex_of.simps) simp
  qed
qed

lemma length_hex_u32: "n < 2 ^ 32 \<Longrightarrow> length (hex_padded 8 n) = 8"
  using length_hex_of [of 8 n] by (simp add: hex_padded_def)

lemma respond_data_run:
  "respond_data lk len s =
     (s\<lparr>clock := Suc (clock s), sent := sent s @ [data_packet (unat len)]\<rparr>, lk_write lk (clock s) (data_packet (unat len)))"
  using length_hex_u32 [OF unat_less_u32 [of len]]
  by (simp add: respond_data_def write_packet_def send_buffer_def data_packet_def)

lemma map_err_prefix_value [simp]: "map_err_prefix msg (Inr x) = Inr x"
  by (simp add: map_err_prefix_def)

text \<open>What a download leaves staged when it gets to the end.\<close>

definition downloaded :: "link \<Rightarrow> nat \<Rightarrow> u32 \<Rightarrow> staged_data" where
  "downloaded lk c len = \<lparr>sd_label = ''download'', sd_payload = FilePayload (delivered lk c (unat len)) (ucast len)\<rparr>"

lemma download_staged:
  assumes "link_exact lk" "download lk len s = (t, r)"
  shows "world t = world s \<and>
    (staged t = None \<and> (\<exists>e. r = Inl e) \<or>
     staged t = Some (downloaded lk (clock s + 4) len) \<and> length (delivered lk (clock s + 4) (unat len)) = unat len \<and>
       \<not> MAX_DOWNLOAD_SIZE < len \<and> (r = Inr () \<longrightarrow> sent t = sent s @ [data_packet (unat len), bytes_of ''OKAY'']))"
proof -
  let ?s = "s\<lparr>staged := None\<rparr>"
  note defs = download_def clear_staged_def link_op_def bind_st_def transfer_buffer_def respond_data_run
  consider (large) "MAX_DOWNLOAD_SIZE < len"
    | (mem1) e where "\<not> MAX_DOWNLOAD_SIZE < len" "lk_memory lk (clock s) = Inl e"
    | (mem2) e where "\<not> MAX_DOWNLOAD_SIZE < len" "lk_memory lk (clock s) = Inr ()" "lk_memory lk (Suc (clock s)) = Inl e"
    | (mem3) e where "\<not> MAX_DOWNLOAD_SIZE < len" "lk_memory lk (clock s) = Inr ()" "lk_memory lk (Suc (clock s)) = Inr ()"
        "lk_memory lk (Suc (Suc (clock s))) = Inl e"
    | (wr) e where "\<not> MAX_DOWNLOAD_SIZE < len" "lk_memory lk (clock s) = Inr ()" "lk_memory lk (Suc (clock s)) = Inr ()"
        "lk_memory lk (Suc (Suc (clock s))) = Inr ()" "lk_write lk (Suc (Suc (Suc (clock s)))) (data_packet (unat len)) = Inl e"
    | (ready) "\<not> MAX_DOWNLOAD_SIZE < len" "lk_memory lk (clock s) = Inr ()" "lk_memory lk (Suc (clock s)) = Inr ()"
        "lk_memory lk (Suc (Suc (clock s))) = Inr ()" "lk_write lk (Suc (Suc (Suc (clock s)))) (data_packet (unat len)) = Inr ()"
    by (metis old.unit.exhaust sum.exhaust)
  then show ?thesis
  proof cases
    case large
    then have "download lk len s = (?s, Inl (IoError InvalidInput ''download size exceeds max-download-size''))"
      by (simp add: download_def clear_staged_def)
    then show ?thesis using assms(2) by simp
  next
    case mem1
    then have "download lk len s = (?s\<lparr>clock := Suc (clock s)\<rparr>, Inl e)" by (simp add: defs)
    then show ?thesis using assms(2) by simp
  next
    case mem2
    then have "download lk len s = (?s\<lparr>clock := Suc (Suc (clock s))\<rparr>, Inl e)" by (simp add: defs)
    then show ?thesis using assms(2) by simp
  next
    case mem3
    then obtain e' where "map_err_prefix ''allocate transfer buffer: '' (lk_memory lk (Suc (Suc (clock s)))) = Inl e'"
      by (cases "map_err_prefix ''allocate transfer buffer: '' (lk_memory lk (Suc (Suc (clock s))))") auto
    then have "download lk len s = (?s\<lparr>clock := Suc (Suc (Suc (clock s)))\<rparr>, Inl e')" using mem3 by (simp add: defs)
    then show ?thesis using assms(2) by simp
  next
    case wr
    then have "download lk len s = (?s\<lparr>clock := Suc (Suc (Suc (Suc (clock s)))), sent := sent s @ [data_packet (unat len)]\<rparr>, Inl e)"
      using wr by (simp add: defs)
    then show ?thesis using assms(2) by simp
  next
    case ready
    let ?u = "?s\<lparr>clock := clock s + 4, sent := sent s @ [data_packet (unat len)]\<rparr>"
    have run: "bind_st (receive lk (min (unat len) TRANSFER_CHUNK) (unat len) []) (\<lambda>acc.
        bind_st (stage_file ''download'' acc (ucast len)) (\<lambda>_. respond_okay lk [])) ?u = (t, r)"
      using ready assms(2) by (simp add: download_def clear_staged_def link_op_def bind_st_eq transfer_buffer_def
          respond_data_run eval_nat_numeral)
    obtain v q where rc: "receive lk (min (unat len) TRANSFER_CHUNK) (unat len) [] ?u = (v, q)" by fastforce
    have got: "sent v = sent s @ [data_packet (unat len)] \<and> staged v = None \<and> world v = world s \<and>
      (\<forall>f. q = Inr f \<longrightarrow> f = delivered lk (clock s + 4) (unat len) \<and> length f = unat len)"
    proof (cases "unat len = 0")
      case True
      then have "v = ?u" "q = Inr []" using rc by (simp_all add: receive.simps)
      then show ?thesis using True by (simp add: delivered.simps)
    next
      case False
      then have "0 < min (unat len) TRANSFER_CHUNK"
        "min (unat len) TRANSFER_CHUNK = TRANSFER_CHUNK \<or> unat len \<le> min (unat len) TRANSFER_CHUNK \<and> min (unat len) TRANSFER_CHUNK \<le> TRANSFER_CHUNK"
        by (auto simp: TRANSFER_CHUNK_def min_def)
      then show ?thesis using receive_run [OF assms(1) rc] by simp
    qed
    show ?thesis
    proof (cases q)
      case (Inl e)
      then have "t = v" "r = Inl e" using run rc by (simp_all add: bind_st_eq)
      then show ?thesis using got by simp
    next
      case (Inr f)
      have "respond_okay lk [] w = (w\<lparr>clock := Suc (clock w), sent := sent w @ [bytes_of ''OKAY'']\<rparr>, lk_write lk (clock w) (bytes_of ''OKAY''))"
        for w :: "'a server"
        by (simp add: respond_okay_def write_packet_truncated_def write_packet_def send_buffer_def bytes_of_def)
      then show ?thesis using run rc got Inr ready(1)
        by (auto simp: bind_st_eq stage_file_def downloaded_def)
    qed
  qed
qed

text \<open>Uploading.\<close>

definition payload_bytes :: "staged_data \<Rightarrow> bytes" where
  "payload_bytes d = (case sd_payload d of MemoryPayload data \<Rightarrow> data | FilePayload acc sz \<Rightarrow> acc)"

lemma send_from_run:
  assumes "link_writes lk"
  shows "pos + n = length acc \<Longrightarrow>
    \<exists>t chunks. send_from lk acc pos n s = (t, Inr ()) \<and> sent t = sent s @ chunks \<and> concat chunks = drop pos acc \<and> same_staged s t"
proof (induction n arbitrary: pos s rule: less_induct)
  case (less n)
  show ?case
  proof (cases "n = 0")
    case True
    then show ?thesis using less.prems
      by (intro exI [of _ s] exI [of _ "[]"]) (simp add: send_from.simps same_staged_def)
  next
    case False
    let ?k = "min n TRANSFER_CHUNK" and ?buf = "slice acc pos (pos + min n TRANSFER_CHUNK)"
    let ?s = "s\<lparr>clock := Suc (clock s), sent := sent s @ [?buf]\<rparr>"
    have k: "0 < ?k" "?k \<le> n" using False by (simp_all add: TRANSFER_CHUNK_def)
    then obtain t chunks where t: "send_from lk acc (pos + ?k) (n - ?k) ?s = (t, Inr ())" "sent t = sent ?s @ chunks"
        "concat chunks = drop (pos + ?k) acc" "same_staged ?s t"
      using less.IH [of "n - ?k" "pos + ?k" ?s] less.prems by auto
    have "?buf @ drop (pos + ?k) acc = drop pos acc"
      by (metis slice_def add_diff_cancel_left' append_take_drop_id drop_drop add.commute)
    moreover have "send_from lk acc pos n s = (t, Inr ())"
      using False k less.prems t(1) assms
      by (subst send_from.simps) (simp add: Let_def send_payload_def send_buffer_def link_writes_def bind_st_def)
    ultimately show ?thesis using t
      by (intro exI [of _ t] exI [of _ "?buf # chunks"]) (simp add: same_staged_def)
  qed
qed

definition memory_ok :: "link \<Rightarrow> bool" where
  "memory_ok lk \<longleftrightarrow> (\<forall>c. lk_memory lk c = Inr ())"

lemma upload_staged_run:
  assumes lk: "link_writes lk" "memory_ok lk" and d: "staged s = Some d" "staged_ok (staged s)" "staged_len_of d < 2 ^ 32"
  shows "\<exists>t chunks. upload_staged lk s = (t, Inr ()) \<and> concat chunks = payload_bytes d \<and> same_staged s t \<and>
    sent t = sent s @ [data_packet (length (payload_bytes d))] @ chunks @ [bytes_of ''OKAY'']"
proof -
  have okay: "respond_okay lk [] w = (w\<lparr>clock := Suc (clock w), sent := sent w @ [bytes_of ''OKAY'']\<rparr>, Inr ())" for w :: "'a server"
    using lk(1) by (simp add: respond_okay_def write_packet_truncated_def write_packet_def send_buffer_def bytes_of_def link_writes_def)
  have data: "respond_data lk (of_nat (staged_len_of d)) w =
      (w\<lparr>clock := Suc (clock w), sent := sent w @ [data_packet (staged_len_of d)]\<rparr>, Inr ())" for w :: "'a server"
    using lk(1) d(3) by (simp add: respond_data_run link_writes_def unat_of_nat_u32)
  let ?s = "s\<lparr>clock := Suc (clock s), sent := sent s @ [data_packet (staged_len_of d)]\<rparr>"
  have len: "staged_len_of d = length (payload_bytes d)"
    using d(1,2) by (auto simp: staged_len_of_def payload_bytes_def staged_ok_def split: staged_payload.splits)
  have "\<exists>t chunks. staged_send lk d ?s = (t, Inr ()) \<and> sent t = sent ?s @ chunks \<and> concat chunks = payload_bytes d \<and> same_staged ?s t"
  proof (cases "sd_payload d")
    case (MemoryPayload data)
    then show ?thesis using lk(1)
      by (intro exI [of _ "fst (send_buffer lk data ?s)"] exI [of _ "[data]"])
        (simp add: staged_send_def send_payload_def send_buffer_def link_writes_def payload_bytes_def same_staged_def)
  next
    case (FilePayload acc sz)
    let ?u = "?s\<lparr>clock := clock s + 3\<rparr>"
    have acc: "payload_bytes d = acc" "staged_len_of d = length acc" using FilePayload len by (simp_all add: payload_bytes_def)
    obtain t chunks where t: "send_from lk acc 0 (length acc) ?u = (t, Inr ())" "sent t = sent ?u @ chunks" "concat chunks = acc"
        "same_staged ?u t"
      using send_from_run [OF lk(1), of 0 "length acc" acc ?u] by auto
    have "staged_send lk d ?s = (t, Inr ())"
      using lk(2) FilePayload t(1) acc
      by (simp add: staged_send_def staged_as_file_def send_payload_from_reader_def transfer_buffer_def link_op_def bind_st_def
          memory_ok_def eval_nat_numeral)
    then show ?thesis using t acc by (intro exI [of _ t] exI [of _ chunks]) (simp add: same_staged_def)
  qed
  then obtain t chunks where t: "staged_send lk d ?s = (t, Inr ())" "sent t = sent ?s @ chunks" "concat chunks = payload_bytes d"
    "same_staged ?s t" by blast
  have "upload_staged lk s = (t\<lparr>clock := Suc (clock t), sent := sent t @ [bytes_of ''OKAY'']\<rparr>, Inr ())"
    using d data [of s] t(1) okay [of t] by (simp add: upload_staged_def bind_st_eq)
  then show ?thesis using t len
    by (intro exI [of _ "t\<lparr>clock := Suc (clock t), sent := sent t @ [bytes_of ''OKAY'']\<rparr>"] exI [of _ chunks])
      (simp add: same_staged_def)
qed

lemma quiet_receive: "quiet.keeps (receive lk k n acc :: ('w, bytes) op)"
proof (induction n arbitrary: acc rule: less_induct)
  case (less n)
  have "quiet.keeps (bind_st (link_op (\<lambda>c. lk_read_exact lk c (min n k))) (\<lambda>chunk. bind_st (link_op (lk_memory lk)) (\<lambda>_.
      receive lk k (n - min n k) (acc @ chunk))) :: ('w, bytes) op)" if "n \<noteq> 0" "k \<noteq> 0"
  proof -
    have "n - min n k < n" using that by auto
    then show ?thesis by (intro quiet.keeps_bind less.IH quiet_link_op)
  qed
  then show ?case by (subst receive.simps) (simp add: Let_def)
qed

text \<open>Everything but the payload of an upload fits a packet, and an upload leaves the staging area alone.\<close>

lemma quiet_send_from: "quiet.keeps (send_from lk acc pos n :: ('w, unit) op)"
proof (induction n arbitrary: pos rule: less_induct)
  case (less n)
  have "quiet.keeps (bind_st (send_payload lk b) (\<lambda>_. send_from lk acc p (n - min n TRANSFER_CHUNK)) :: ('w, unit) op)" if "n \<noteq> 0" for b p
  proof -
    have "n - min n TRANSFER_CHUNK < n" using that by (simp add: TRANSFER_CHUNK_def)
    then show ?thesis by (intro quiet.keeps_bind less.IH) (simp_all add: send_payload_def)
  qed
  then show ?case by (subst send_from.simps) (simp add: Let_def)
qed

lemma quiet_upload: "quiet.keeps (upload_staged lk)"
proof -
  have "quiet.keeps (staged_as_file lk d)" for d
    unfolding staged_as_file_def by (cases "sd_payload d") (auto intro!: quiet.keeps_bind)
  then have "quiet.keeps (staged_send lk d)" for d
    unfolding staged_send_def send_payload_def send_payload_from_reader_def transfer_buffer_def
    by (cases "sd_payload d") (auto intro!: quiet.keeps_bind quiet_send_from)
  then have "quiet.keeps (case st of None \<Rightarrow> respond_fail lk ''no staged data''
     | Some d \<Rightarrow> if 2 ^ 32 \<le> staged_len_of d then respond_fail lk ''staged data too large''
         else bind_st (respond_data lk (of_nat (staged_len_of d))) (\<lambda>_. bind_st (staged_send lk d) (\<lambda>_. respond_okay lk [])))" for st
    by (cases st) (auto intro!: quiet.keeps_bind)
  then show ?thesis unfolding upload_staged_def by (intro quiet.keeps_bind quiet.keeps_get)
qed

lemma write_all_fd_keeps: "length buf \<le> RESPONSE_MAX \<Longrightarrow> packets_sent s (fst (write_all_fd lk buf s)) \<and> same_staged s (fst (write_all_fd lk buf s))"
proof (induction lk buf s rule: write_all_fd.induct)
  case (1 lk buf s)
  show ?case
  proof (cases "buf = []")
    case True
    then show ?thesis by (simp add: write_all_fd.simps packets.related_refl quiet.related_refl)
  next
    case False
    show ?thesis
    proof (cases "lk_write_fd lk (clock s) buf")
      case (Inl e)
      then show ?thesis using False by (subst (1 2) write_all_fd.simps) (simp add: packets_sent_def same_staged_def)
    next
      case (Inr n)
      show ?thesis
      proof (cases "0 < n")
        case True
        let ?u = "s\<lparr>clock := Suc (clock s), sent := sent s @ [take n buf]\<rparr>"
        have "packets_sent s ?u" "same_staged s ?u" using "1.prems" by (simp_all add: packets_sent_def same_staged_def)
        moreover have "packets_sent ?u (fst (write_all_fd lk (drop n buf) ?u)) \<and> same_staged ?u (fst (write_all_fd lk (drop n buf) ?u))"
          using "1.IH" [OF False Inr True] "1.prems" by simp
        ultimately show ?thesis using False Inr True
          by (subst (1 2) write_all_fd.simps) (auto intro: packets.related_trans quiet.related_trans)
      qed (use False Inr in \<open>subst (1 2) write_all_fd.simps, simp add: packets_sent_def same_staged_def\<close>)
    qed
  qed
qed

lemma best_effort_keeps: "packets.keeps (okay_best_effort lk [])" "quiet.keeps (okay_best_effort lk [])"
proof -
  have len: "length (bytes_of ''OKAY'') \<le> RESPONSE_MAX" by simp
  have w: "packets.keeps (write_all_fd lk (bytes_of ''OKAY''))" "quiet.keeps (write_all_fd lk (bytes_of ''OKAY''))"
    unfolding packets.keeps_def quiet.keeps_def by (intro allI write_all_fd_keeps [OF len, THEN conjunct1] write_all_fd_keeps [OF len, THEN conjunct2])+
  have l: "packets.keeps (link_op f)" for f :: "nat \<Rightarrow> 'x io" by (rule packets_clear) simp
  have "packets.keeps (set_nonblocking lk)" "quiet.keeps (set_nonblocking lk)"
    unfolding set_nonblocking_def by (auto intro!: packets.keeps_bind quiet.keeps_bind l)
  then show "packets.keeps (okay_best_effort lk [])" "quiet.keeps (okay_best_effort lk [])"
    unfolding okay_best_effort_def write_packet_nonblocking_def restore_flags_def
    using w by (auto intro!: packets.keeps_bind quiet.keeps_bind packets.keeps_attempt quiet.keeps_attempt l)
qed

lemma unat_ucast_u32_u64_staged: "unat (ucast (w::u32) :: u64) = unat w"
  using unat_less_u32 [of w] by (simp add: unsigned_ucast_eq take_bit_nat_eq_self)

lemma area_download: "link_exact lk \<Longrightarrow> area.keeps (download lk len)"
  unfolding area.keeps_def staged_kept_def staged_ok_def
proof (intro allI impI, goal_cases)
  case (1 s d acc sz)
  then show ?case
    using download_staged [OF 1(1), of len s "fst (download lk len s)" "snd (download lk len s)"]
    by (auto simp: downloaded_def unat_ucast_u32_u64_staged)
qed

lemma report_error_area: "area.keeps (report_error lk e)"
  by (rule quiet_area [OF report_error_keeps(2)])

lemma finish_keeps: "packets.keeps (finish_command_result r)" "area.keeps (finish_command_result r)"
proof -
  have "packets_sent s (fst (finish_command_result r s)) \<and> staged_kept s (fst (finish_command_result r s))" for s
  proof -
    obtain t step where "finish_command_result r s = (t, Inr step)" "sent t = sent s" "staged t = staged s"
      using finish_command_result_run by blast
    then show ?thesis by (simp add: packets_sent_def staged_kept_def)
  qed
  then show "packets.keeps (finish_command_result r)" "area.keeps (finish_command_result r)"
    by (simp_all add: packets.keeps_def area.keeps_def)
qed

section \<open>Tables of commands\<close>

lemma found_command: "find_command_handler commands command = Some h \<Longrightarrow> \<exists>c \<in> set commands. h = cmd_handler c"
  by (auto simp: find_command_handler_def find_Some_iff split: option.splits)

text \<open>The states a server reaches by serving any number of commands.\<close>

inductive serves :: "link \<Rightarrow> 'w command list \<Rightarrow> 'w server \<Rightarrow> 'w server \<Rightarrow> bool"
  for lk :: link and commands :: "'w command list" where
  serves_start: "serves lk commands s s"
| serves_step: "serves lk commands s t \<Longrightarrow> run_once lk commands t = (u, r) \<Longrightarrow> serves lk commands s u"

text \<open>
  The contract of a command table: on a link that works every handler answers, no handler sends
  more than a packet at a time, and a staged file stays as long as its size says.
\<close>

locale command_table =
  fixes lk :: link and commands :: "'w command list"
  assumes handler_answers: "c \<in> set commands \<Longrightarrow> link_writes lk \<Longrightarrow> answers (cmd_handler c command)"
    and handler_packets: "c \<in> set commands \<Longrightarrow> packets.keeps (cmd_handler c command)"
    and handler_area: "c \<in> set commands \<Longrightarrow> area.keeps (cmd_handler c command)"
begin

lemma handler_step_replies:
  assumes "link_writes lk" "find_command_handler commands command = Some h"
    and "bind_st (attempt (h command)) (\<lambda>r. case r of Inr result \<Rightarrow> finish_command_result result | Inl e \<Rightarrow> report_error lk e) s = (t, r)"
  shows "(\<exists>step. r = Inr step \<and> replied s t) \<or> (\<exists>e. r = Inl e \<and> gone e \<and> infos_sent s t \<and> snd (h command s) = Inl e)"
proof -
  obtain c where c: "c \<in> set commands" "h = cmd_handler c" using found_command [OF assms(2)] by blast
  obtain u q where h: "h command s = (u, q)" by fastforce
  have ans: "answers (h command)" using handler_answers [OF c(1) assms(1)] c(2) by simp
  show ?thesis
  proof (cases q)
    case (Inr result)
    then have "replied s u" using answers_run(1) [OF ans] h by blast
    moreover obtain v step where v: "finish_command_result result u = (v, Inr step)" "sent v = sent u"
      using finish_command_result_run [of result u] by blast
    moreover have "t = v" "r = Inr step" using assms(3) h Inr v by simp_all
    ultimately show ?thesis by (simp add: replied_def)
  next
    case (Inl e)
    then have u: "infos_sent s u" using answers_run(2) [OF ans] h by blast
    have run: "report_error lk e u = (t, r)" using assms(3) h Inl by simp
    show ?thesis
    proof (cases "gone e")
      case True
      then have "t = u" "r = Inl e" using run report_error_run(1) [OF True, of lk u] by simp_all
      then show ?thesis using True u h Inl by simp
    next
      case False
      then show ?thesis using run report_error_run(2) [OF False assms(1), of u] infos_then_reply [OF u] by auto
    qed
  qed
qed

lemma run_once_replies:
  assumes lk: "link_writes lk" and packet: "lk_read lk (clock s) = Inr packet"
    and other: "\<not> built_in (text_of (command_in packet))" and run: "run_once lk commands s = (t, r)"
  shows "(\<exists>step. r = Inr step \<and> replied s t) \<or>
    (\<exists>e h. r = Inl e \<and> gone e \<and> infos_sent s t \<and> find_command_handler commands (text_of (command_in packet)) = Some h \<and>
       snd (h (text_of (command_in packet)) (s\<lparr>clock := Suc (clock s)\<rparr>)) = Inl e)"
proof -
  let ?s = "s\<lparr>clock := Suc (clock s)\<rparr>" and ?c = "text_of (command_in packet)"
  have rd: "read_command lk s = (?s, Inr (command_in packet))" by (simp add: read_command_run packet)
  have tick: "\<And>u. replied ?s u \<Longrightarrow> replied s u" "\<And>u. infos_sent ?s u \<Longrightarrow> infos_sent s u"
    by (simp_all add: replied_def infos_sent_def)
  have fail: ?thesis if "bind_st (respond_fail lk m) (\<lambda>_. ret StepContinue) ?s = (t, r)" for m
  proof -
    have "snd (respond_fail lk m ?s) = Inr ()" "replied ?s (fst (respond_fail lk m ?s))"
      using respond_final [OF lk] by blast+
    then obtain u where "respond_fail lk m ?s = (u, Inr ())" "replied ?s u" by (cases "respond_fail lk m ?s") auto
    then have "r = Inr StepContinue" "replied s t" using that tick(1) by (auto simp: bind_st_eq)
    then show ?thesis by blast
  qed
  show ?thesis
  proof (cases "utf8_valid (command_in packet)")
    case False
    then show ?thesis using run rd by (intro fail) (simp add: run_once_def bind_st_eq)
  next
    case True
    show ?thesis
    proof (cases "find_command_handler commands ?c")
      case None
      then show ?thesis
        using run rd True other by (intro fail) (simp add: run_once_def bind_st_eq Let_def built_in_def)
    next
      case (Some h)
      then have "bind_st (attempt (h ?c)) (\<lambda>r. case r of Inr result \<Rightarrow> finish_command_result result | Inl e \<Rightarrow> report_error lk e) ?s = (t, r)"
        using run rd True other by (simp add: run_once_def bind_st_eq Let_def built_in_def)
      from handler_step_replies [OF lk Some this] show ?thesis
      proof (elim disjE exE conjE)
        fix step assume "r = Inr step" "replied ?s t"
        then show ?thesis using tick(1) by blast
      next
        fix e assume "r = Inl e" "gone e" "infos_sent ?s t" "snd (h ?c ?s) = Inl e"
        then show ?thesis using tick(2) Some by blast
      qed
    qed
  qed
qed

lemma handler_step_keeps:
  assumes "find_command_handler commands command = Some h"
  shows "packets.keeps (bind_st (attempt (h command)) (\<lambda>r. case r of Inr result \<Rightarrow> finish_command_result result | Inl e \<Rightarrow> report_error lk e))"
    and "area.keeps (bind_st (attempt (h command)) (\<lambda>r. case r of Inr result \<Rightarrow> finish_command_result result | Inl e \<Rightarrow> report_error lk e))"
proof -
  obtain c where c: "c \<in> set commands" "h = cmd_handler c" using found_command [OF assms] by blast
  have f: "packets.keeps (case r of Inr result \<Rightarrow> finish_command_result result | Inl e \<Rightarrow> report_error lk e)"
    "area.keeps (case r of Inr result \<Rightarrow> finish_command_result result | Inl e \<Rightarrow> report_error lk e)" for r :: "'w command_result io"
    by (cases r; simp add: finish_keeps report_error_keeps report_error_area)+
  show "packets.keeps (bind_st (attempt (h command)) (\<lambda>r. case r of Inr result \<Rightarrow> finish_command_result result | Inl e \<Rightarrow> report_error lk e))"
    using c(2) by (intro packets.keeps_bind packets.keeps_attempt f) (simp add: handler_packets [OF c(1)])
  show "area.keeps (bind_st (attempt (h command)) (\<lambda>r. case r of Inr result \<Rightarrow> finish_command_result result | Inl e \<Rightarrow> report_error lk e))"
    using c(2) by (intro area.keeps_bind area.keeps_attempt f) (simp add: handler_area [OF c(1)])
qed

lemma run_once_area:
  assumes "link_exact lk" shows "area.keeps (run_once lk commands)"
proof -
  have l: "area.keeps (link_op f)" for f :: "nat \<Rightarrow> 'x io" by (rule quiet_area) simp
  have q: "area.keeps (respond_fail lk m)" "area.keeps (okay_best_effort lk [])" "area.keeps (upload_staged lk)" for m
    by (intro quiet_area respond_keeps best_effort_keeps quiet_upload)+
  have d: "area.keeps (case r of Inr u \<Rightarrow> ret StepContinue | Inl e \<Rightarrow> report_error lk e)" for r :: "unit io"
    by (cases r) (simp_all add: report_error_area)
  have dl: "area.keeps (case parse_download_command c of
      Inl e \<Rightarrow> bind_st (respond_fail lk (error_text e)) (\<lambda>_. ret StepContinue)
    | Inr None \<Rightarrow> throw RustPanic
    | Inr (Some len) \<Rightarrow> bind_st (attempt (download lk len)) (\<lambda>r. case r of Inr _ \<Rightarrow> ret StepContinue | Inl e \<Rightarrow> report_error lk e))" for c
    by (cases "parse_download_command c"; cases "projr (parse_download_command c)")
      (auto intro!: area.keeps_bind area.keeps_attempt q d area_download [OF assms])
  have h: "area.keeps (case find_command_handler commands c of
      Some h \<Rightarrow> bind_st (attempt (h c)) (\<lambda>r. case r of Inr result \<Rightarrow> finish_command_result result | Inl e \<Rightarrow> report_error lk e)
    | None \<Rightarrow> bind_st (respond_fail lk ''unsupported command'') (\<lambda>_. ret StepContinue))" for c
    by (cases "find_command_handler commands c") (auto intro!: handler_step_keeps area.keeps_bind q)
  show ?thesis
    unfolding run_once_def read_command_def Let_def
    by (intro area.keeps_bind area.keeps_if area.keeps_ret area.keeps_attempt area_stage l q dl h)
qed

text \<open>The area through any number of steps: however the server got there, a staged file has the length it was staged with.\<close>

lemma serves_staged_ok:
  assumes "link_exact lk" "serves lk commands s t" "staged_ok (staged s)"
  shows "staged_ok (staged t)"
  using assms(2,3)
proof (induction rule: serves.induct)
  case (serves_step s t u r)
  then show ?case using area.keeps_run [OF run_once_area [OF assms(1)]] by (auto simp: staged_kept_def)
qed

lemma run_once_packets:
  assumes packet: "lk_read lk (clock s) = Inr packet" and run: "run_once lk commands s = (t, r)"
    and other: "text_of (command_in packet) \<notin> {''upload'', ''get_staged''}" "\<not> starts_with DOWNLOAD_PREFIX (text_of (command_in packet))"
  shows "packets_sent s t"
proof -
  let ?s = "s\<lparr>clock := Suc (clock s)\<rparr>" and ?c = "text_of (command_in packet)"
  have rd: "read_command lk s = (?s, Inr (command_in packet))" by (simp add: read_command_run packet)
  have tick: "packets_sent ?s t \<Longrightarrow> packets_sent s t" by (simp add: packets_sent_def)
  have fail: "packets.keeps (bind_st (respond_fail lk m) (\<lambda>_. ret StepContinue :: ('w, 'w server_step) op))" for m
    by (intro packets.keeps_bind packets.keeps_ret respond_keeps)
  have cont: "packets.keeps (bind_st (attempt (okay_best_effort lk [])) (\<lambda>_. ret (StepExit None) :: ('w, 'w server_step) op))"
    by (intro packets.keeps_bind packets.keeps_ret packets.keeps_attempt best_effort_keeps)
  let ?m = "if \<not> utf8_valid (command_in packet) then bind_st (respond_fail lk ''unrecognized command'') (\<lambda>_. ret StepContinue)
     else if ?c = ''continue'' then bind_st (attempt (okay_best_effort lk [])) (\<lambda>_. ret (StepExit None))
     else (case find_command_handler commands ?c of
       Some h \<Rightarrow> bind_st (attempt (h ?c)) (\<lambda>r. case r of Inr result \<Rightarrow> finish_command_result result | Inl e \<Rightarrow> report_error lk e)
     | None \<Rightarrow> bind_st (respond_fail lk ''unsupported command'') (\<lambda>_. ret StepContinue))"
  have run': "?m ?s = (t, r)"
    using run rd other by (simp add: run_once_def bind_st_eq Let_def split: if_split_asm)
  have "packets.keeps ?m"
    by (cases "find_command_handler commands ?c") (auto intro: fail cont handler_step_keeps)
  from packets.keeps_run [OF this, of ?s t r] show ?thesis using run' tick by blast
qed

end

section \<open>What commands do to the rest of the machine\<close>

text \<open>
  The contract for the world: a relation on worlds that every handler keeps, where an action that
  runs at once comes with no command. It is kept by any number of commands.
\<close>

definition no_action :: "('w, 'w command_result) op \<Rightarrow> bool" where
  "no_action m \<longleftrightarrow> (\<forall>s t r. m s = (t, Inr r) \<longrightarrow> flow r = FlowContinue \<longrightarrow> action r = None)"

lemma no_action_bind [intro]: "(\<And>x. no_action (f x)) \<Longrightarrow> no_action (bind_st m f)"
  by (auto simp: no_action_def bind_st_Inr)

lemma no_action_simps [simp, intro]:
  "no_action (throw e)" "no_action (ret continue_result)" "no_action (ret (exit_with a))"
  by (simp_all add: no_action_def continue_result_def exit_with_def)

lemma no_action_if [intro]: "(b \<Longrightarrow> no_action m) \<Longrightarrow> (\<not> b \<Longrightarrow> no_action n) \<Longrightarrow> no_action (if b then m else n)"
  by simp

locale world_frame =
  fixes lk :: link and commands :: "'w command list" and kept :: "'w \<Rightarrow> 'w \<Rightarrow> bool"
  assumes kept_refl: "kept w w"
    and kept_trans: "kept v w \<Longrightarrow> kept w x \<Longrightarrow> kept v x"
    and handler_world: "c \<in> set commands \<Longrightarrow> kept (world s) (world (fst (cmd_handler c command s)))"
    and handler_no_action: "c \<in> set commands \<Longrightarrow> no_action (cmd_handler c command)"

sublocale world_frame \<subseteq> served: frame "\<lambda>s t. kept (world s) (world t)"
  by unfold_locales (auto intro: kept_refl kept_trans)

context world_frame
begin

lemma quiet_served: "quiet.keeps m \<Longrightarrow> served.keeps m"
  by (simp add: quiet.keeps_def served.keeps_def same_staged_def kept_refl)

lemma staging_served [intro]: "served.keeps clear_staged" "served.keeps (stage n d)" "served.keeps (stage_file n d sz)"
  by (simp_all add: served.keeps_def clear_staged_def stage_def stage_file_def kept_refl)

lemma download_served: "served.keeps (download lk len)"
  unfolding download_def transfer_buffer_def
  by (intro served.keeps_bind served.keeps_if served.keeps_lift staging_served quiet_served quiet_link_op quiet_receive respond_keeps)

lemma handler_step_served:
  assumes "find_command_handler commands command = Some h"
  shows "served.keeps (bind_st (attempt (h command)) (\<lambda>r. case r of Inr result \<Rightarrow> finish_command_result result | Inl e \<Rightarrow> report_error lk e))"
proof (rule served.keeps_bind_when)
  obtain c where c: "c \<in> set commands" "h = cmd_handler c" using found_command [OF assms] by blast
  show "served.keeps (attempt (h command))"
    using handler_world [OF c(1)] c(2) by (auto simp: served.keeps_def)
  fix s t r assume "attempt (h command) s = (t, Inr r)"
  then have r: "r = snd (h command s)" by simp
  show "served.keeps (case r of Inr result \<Rightarrow> finish_command_result result | Inl e \<Rightarrow> report_error lk e)"
  proof (cases r)
    case (Inr result)
    then have "flow result = FlowContinue \<longrightarrow> action result = None"
      using handler_no_action [OF c(1), of command] c(2) r unfolding no_action_def by (metis prod.collapse)
    then show ?thesis
      using Inr by (cases "flow result") (simp_all add: finish_command_result_def)
  qed (simp add: quiet_served report_error_keeps)
qed

lemma run_once_served: "served.keeps (run_once lk commands)"
proof -
  have l: "served.keeps (link_op f)" for f :: "nat \<Rightarrow> 'x io" by (rule quiet_served) simp
  have q: "served.keeps (respond_fail lk m)" "served.keeps (okay_best_effort lk [])" "served.keeps (upload_staged lk)" for m
    by (intro quiet_served respond_keeps best_effort_keeps quiet_upload)+
  have d: "served.keeps (case r of Inr u \<Rightarrow> ret StepContinue | Inl e \<Rightarrow> report_error lk e)" for r :: "unit io"
    by (cases r) (simp_all add: quiet_served report_error_keeps)
  have dl: "served.keeps (case parse_download_command c of
      Inl e \<Rightarrow> bind_st (respond_fail lk (error_text e)) (\<lambda>_. ret StepContinue)
    | Inr None \<Rightarrow> throw RustPanic
    | Inr (Some len) \<Rightarrow> bind_st (attempt (download lk len)) (\<lambda>r. case r of Inr _ \<Rightarrow> ret StepContinue | Inl e \<Rightarrow> report_error lk e))" for c
    by (cases "parse_download_command c"; cases "projr (parse_download_command c)")
      (auto intro!: served.keeps_bind served.keeps_attempt q d download_served)
  have h: "served.keeps (case find_command_handler commands c of
      Some h \<Rightarrow> bind_st (attempt (h c)) (\<lambda>r. case r of Inr result \<Rightarrow> finish_command_result result | Inl e \<Rightarrow> report_error lk e)
    | None \<Rightarrow> bind_st (respond_fail lk ''unsupported command'') (\<lambda>_. ret StepContinue))" for c
    by (cases "find_command_handler commands c") (auto intro!: handler_step_served served.keeps_bind q)
  show ?thesis
    unfolding run_once_def read_command_def Let_def
    by (intro served.keeps_bind served.keeps_if served.keeps_ret served.keeps_attempt staging_served l q dl h)
qed

lemma serves_world: "serves lk commands s t \<Longrightarrow> kept (world s) (world t)"
proof (induction rule: serves.induct)
  case (serves_step s t u r)
  have "kept (world t) (world u)" using served.keeps_run [OF run_once_served serves_step.hyps(2)] .
  then show ?case by (rule kept_trans [OF serves_step.IH])
qed (rule kept_refl)

end

section \<open>Download, then upload\<close>

lemma run_once_built_in:
  assumes "lk_read lk (clock s) = Inr packet" "utf8_valid (command_in packet)"
  defines "c \<equiv> text_of (command_in packet)" and "u \<equiv> s\<lparr>clock := Suc (clock s)\<rparr>"
  shows "c \<in> {''upload'', ''get_staged''} \<Longrightarrow> run_once lk commands s = bind_st (upload_staged lk) (\<lambda>_. ret StepContinue) u"
    and "starts_with DOWNLOAD_PREFIX c \<Longrightarrow> parse_download_command c = Inr (Some len) \<Longrightarrow> run_once lk commands s =
      bind_st (attempt (download lk len)) (\<lambda>r. case r of Inr _ \<Rightarrow> ret StepContinue | Inl e \<Rightarrow> report_error lk e) (u\<lparr>staged := None\<rparr>)"
    and "starts_with DOWNLOAD_PREFIX c \<Longrightarrow> parse_download_command c = Inl e \<Longrightarrow> run_once lk commands s =
      bind_st (respond_fail lk (error_text e)) (\<lambda>_. ret StepContinue) (u\<lparr>staged := None\<rparr>)"
proof -
  have rd: "read_command lk s = (u, Inr (command_in packet))" by (simp add: read_command_run assms(1) u_def)
  have no: "\<not> starts_with DOWNLOAD_PREFIX ''continue''" "\<not> starts_with DOWNLOAD_PREFIX ''upload''" "\<not> starts_with DOWNLOAD_PREFIX ''get_staged''"
    by code_simp+
  show "c \<in> {''upload'', ''get_staged''} \<Longrightarrow> run_once lk commands s = bind_st (upload_staged lk) (\<lambda>_. ret StepContinue) u"
    using rd assms(2) by (auto simp: run_once_def bind_st_eq c_def)
  show "starts_with DOWNLOAD_PREFIX c \<Longrightarrow> parse_download_command c = Inr (Some len) \<Longrightarrow> run_once lk commands s =
      bind_st (attempt (download lk len)) (\<lambda>r. case r of Inr _ \<Rightarrow> ret StepContinue | Inl e \<Rightarrow> report_error lk e) (u\<lparr>staged := None\<rparr>)"
    using rd assms(2) no by (auto simp: run_once_def bind_st_eq c_def clear_staged_def Let_def)
  show "starts_with DOWNLOAD_PREFIX c \<Longrightarrow> parse_download_command c = Inl e \<Longrightarrow> run_once lk commands s =
      bind_st (respond_fail lk (error_text e)) (\<lambda>_. ret StepContinue) (u\<lparr>staged := None\<rparr>)"
    using rd assms(2) no by (auto simp: run_once_def bind_st_eq c_def clear_staged_def Let_def)
qed

text \<open>A link that delivers every read.\<close>

definition link_reads :: "link \<Rightarrow> bool" where
  "link_reads lk \<longleftrightarrow> link_exact lk \<and> (\<forall>c n. \<exists>bs. lk_read_exact lk c n = Inr bs)"

lemma receive_ok:
  assumes "link_reads lk" "memory_ok lk"
  shows "\<exists>f. snd (receive lk k n acc s) = Inr f"
proof (induction n arbitrary: acc s rule: less_induct)
  case (less n)
  show ?case
  proof (cases "n = 0 \<or> k = 0")
    case True
    then show ?thesis by (subst receive.simps) auto
  next
    case False
    obtain bs where bs: "lk_read_exact lk (clock s) (min n k) = Inr bs" using assms(1) by (auto simp: link_reads_def)
    have "n - min n k < n" using False by auto
    then obtain f where "snd (receive lk k (n - min n k) (acc @ bs) (s\<lparr>clock := Suc (Suc (clock s))\<rparr>)) = Inr f"
      using less.IH by blast
    then show ?thesis
      using False bs assms(2) by (subst receive.simps) (simp add: Let_def bind_st_def link_op_def memory_ok_def)
  qed
qed

text \<open>Time does not go back.\<close>

definition later :: "'w server \<Rightarrow> 'w server \<Rightarrow> bool" where
  "later s t \<longleftrightarrow> clock s \<le> clock t"

interpretation time: frame later
  by unfold_locales (auto simp: later_def)

lemma time_ops [intro]:
  "time.keeps (link_op f)" "time.keeps (send_buffer lk buf)" "time.keeps clear_staged" "time.keeps (stage_file n acc sz)"
  by (simp_all add: time.keeps_def later_def link_op_def send_buffer_def clear_staged_def stage_file_def)

lemma time_receive: "time.keeps (receive lk k n acc :: ('w, bytes) op)"
proof (induction n arbitrary: acc rule: less_induct)
  case (less n)
  have "time.keeps (bind_st (link_op (\<lambda>c. lk_read_exact lk c (min n k))) (\<lambda>chunk. bind_st (link_op (lk_memory lk)) (\<lambda>_.
      receive lk k (n - min n k) (acc @ chunk))) :: ('w, bytes) op)" if "n \<noteq> 0" "k \<noteq> 0"
  proof -
    have "n - min n k < n" using that by auto
    then show ?thesis by (intro time.keeps_bind less.IH time_ops)
  qed
  then show ?case by (subst receive.simps) (simp add: Let_def)
qed

lemma download_clock: "clock s \<le> clock (fst (download lk len (s :: 'w server)))"
proof -
  have "time.keeps (respond_data lk n)" "time.keeps (respond_okay lk [])" for n
    by (auto simp: respond_data_def respond_okay_def write_packet_truncated_def write_packet_def)
  then have "time.keeps (download lk len :: ('w, unit) op)"
    unfolding download_def transfer_buffer_def
    by (intro time.keeps_bind time.keeps_if time.keeps_lift time_ops time_receive)
  then show ?thesis by (simp add: time.keeps_def later_def)
qed

lemma download_ok:
  assumes lk: "link_writes lk" "memory_ok lk" "link_reads lk" and len: "\<not> MAX_DOWNLOAD_SIZE < len"
  shows "snd (download lk len s) = Inr ()"
proof -
  let ?u = "s\<lparr>staged := None, clock := Suc (Suc (Suc (Suc (clock s)))), sent := sent s @ [data_packet (unat len)]\<rparr>"
  obtain f v where "receive lk (min (unat len) TRANSFER_CHUNK) (unat len) [] ?u = (v, Inr f)"
    using receive_ok [OF lk(3,2), of "min (unat len) TRANSFER_CHUNK" "unat len" "[]" ?u]
    by (cases "receive lk (min (unat len) TRANSFER_CHUNK) (unat len) [] ?u") auto
  then show ?thesis
    using lk(1,2) len respond_final(1) [OF lk(1)]
    by (simp add: download_def clear_staged_def link_op_def bind_st_eq transfer_buffer_def respond_data_run memory_ok_def
        link_writes_def stage_file_def)
qed

text \<open>
  What the host downloads is what it gets back: over a link that works, \<open>download:\<close> of \<open>len\<close> bytes
  followed by \<open>upload\<close> returns exactly the bytes the link delivered, announced with their length.
\<close>

lemma download_then_upload:
  assumes lk: "link_writes lk" "memory_ok lk" "link_reads lk"
    and first: "lk_read lk (clock s) = Inr p1" "utf8_valid (command_in p1)" "starts_with DOWNLOAD_PREFIX (text_of (command_in p1))"
      "parse_download_command (text_of (command_in p1)) = Inr (Some len)" "\<not> MAX_DOWNLOAD_SIZE < len"
    and second: "\<And>c. clock s < c \<Longrightarrow> lk_read lk c = Inr p2" "utf8_valid (command_in p2)"
      "text_of (command_in p2) \<in> {''upload'', ''get_staged''}"
  shows "\<exists>t u chunks. run_once lk commands s = (t, Inr StepContinue) \<and> run_once lk commands t = (u, Inr StepContinue) \<and>
    sent t = sent s @ [data_packet (unat len), bytes_of ''OKAY''] \<and>
    sent u = sent t @ [data_packet (unat len)] @ chunks @ [bytes_of ''OKAY''] \<and>
    concat chunks = delivered lk (clock s + 5) (unat len) \<and> length (concat chunks) = unat len"
proof -
  let ?s = "s\<lparr>clock := Suc (clock s), staged := None\<rparr>"
  obtain t where dl: "download lk len ?s = (t, Inr ())"
    using download_ok [OF lk first(5), of ?s] by (cases "download lk len ?s") simp
  have ex: "link_exact lk" using lk(3) by (simp add: link_reads_def)
  let ?d = "downloaded lk (clock s + 5) len"
  have t: "staged t = Some ?d" "length (delivered lk (clock s + 5) (unat len)) = unat len"
    "sent t = sent s @ [data_packet (unat len), bytes_of ''OKAY'']"
    using download_staged [OF ex dl] by (auto simp: add.commute)
  have r1: "run_once lk commands s = (t, Inr StepContinue)"
    using run_once_built_in(2) [OF first(1,2,3,4), of commands] dl by simp
  have ok: "staged_ok (staged t)" "staged_len_of ?d < 2 ^ 32" "payload_bytes ?d = delivered lk (clock s + 5) (unat len)"
    using t(1,2) unat_less_u32 [of len]
    by (simp_all add: staged_ok_def downloaded_def staged_len_of_def payload_bytes_def unat_ucast_u32_u64_staged)
  have later: "clock s < clock t"
  proof -
    have "clock ?s \<le> clock (fst (download lk len ?s))" by (rule download_clock)
    then show ?thesis using dl by simp
  qed
  let ?t = "t\<lparr>clock := Suc (clock t)\<rparr>"
  obtain u chunks where u: "upload_staged lk ?t = (u, Inr ())" "concat chunks = payload_bytes ?d"
      "sent u = sent ?t @ [data_packet (length (payload_bytes ?d))] @ chunks @ [bytes_of ''OKAY'']"
    using upload_staged_run [OF lk(1,2), of ?t ?d] t(1) ok by auto
  have "run_once lk commands t = (u, Inr StepContinue)"
    using run_once_built_in(1) [OF second(1) [OF later] second(2,3), of commands] u(1) by (simp add: bind_st_eq)
  then show ?thesis using r1 t u(2,3) ok(3) by (intro exI [of _ t] exI [of _ u] exI [of _ chunks]) simp
qed

end
