(* ===== verification/FlashPartitions.thy ===== *)
theory FlashPartitions
  imports AbSlots SortBy
begin

text \<open>
  The partitions fastboot commands can name (\<open>fastboot/commands/partitions.rs\<close>): listing the
  partitions of the local flash disks from sysfs and finding one by its partition or kernel name.
  A name that matches two partitions is refused, so a name that resolves names one partition.
\<close>

section \<open>What is read of sysfs\<close>

text \<open>
  An entry of the directory of a disk, with what the code reads below it: whether there is a file
  \<open>partition\<close>, whether the node under \<open>/dev\<close> exists, and the files \<open>dev\<close>, \<open>size\<close>, \<open>ro\<close> and
  \<open>uevent\<close> (None where reading fails).
\<close>

record flash_sys_part =
  fsp_name :: string
  fsp_partition :: bool
  fsp_dev_exists :: bool
  fsp_dev :: "string option"
  fsp_size :: "string option"
  fsp_ro :: "string option"
  fsp_uevent :: "string option"

record flash_sys_disk =
  fsd_name :: string
  fsd_canonical :: "string option"
  fsd_removable :: "string option"
  fsd_ro :: "string option"
  fsd_entries :: "flash_sys_part io list io"

type_synonym flash_sysfs = "flash_sys_disk io list io"

section \<open>Partitions\<close>

record flash_partition =
  kernel_name :: string
  fp_partname :: "string option"
  dev_path :: string
  devnum :: string
  size_bytes :: u64
  read_only :: bool

definition fastboot_name :: "flash_partition \<Rightarrow> string" where
  "fastboot_name p = (case fp_partname p of Some n \<Rightarrow> n | None \<Rightarrow> kernel_name p)"

definition matches_name :: "flash_partition \<Rightarrow> string \<Rightarrow> bool" where
  "matches_name p n \<longleftrightarrow> kernel_name p = n \<or> fp_partname p = Some n"

definition flash_is_local_flash_disk :: "flash_sys_disk \<Rightarrow> bool" where
  "flash_is_local_flash_disk d \<longleftrightarrow>
     \<not> is_excluded_disk_name (fsd_name d) \<and> \<not> is_virtual_block (fsd_canonical d) \<and>
     read_trimmed (fsd_removable d) \<noteq> Some ''1'' \<and> is_local_flash_like_name (fsd_name d)"

definition partition_devnum :: "flash_sys_part \<Rightarrow> string io" where
  "partition_devnum e = ok_or (IoError InvalidData ''partition has no dev'') (read_trimmed (fsp_dev e))"

definition partition_size_bytes :: "flash_sys_part \<Rightarrow> u64 io" where
  "partition_size_bytes e =
     bind_io (ok_or (IoError InvalidData ''partition has no size'') (read_trimmed (fsp_size e))) (\<lambda>v.
     bind_io (ok_or (IoError InvalidData ''partition size is invalid'') (parse_u64 10 v)) (\<lambda>sectors.
     ok_or (IoError InvalidData ''partition size overflows'') (checked_mul sectors 512)))"

definition flash_partition_of :: "bool \<Rightarrow> flash_sys_part \<Rightarrow> flash_partition list io" where
  "flash_partition_of disk_read_only e =
     (if \<not> fsp_partition e then Inr []
      else if \<not> fsp_dev_exists e then Inr []
      else
        bind_io (partition_devnum e) (\<lambda>dn.
        bind_io (partition_size_bytes e) (\<lambda>sz.
        Inr [\<lparr>kernel_name = fsp_name e, fp_partname = uevent_value (fsp_uevent e) ''PARTNAME'',
              dev_path = ''/dev/'' @ fsp_name e, devnum = dn, size_bytes = sz,
              read_only = (disk_read_only \<or> read_trimmed (fsp_ro e) = Some ''1'')\<rparr>])))"

definition partitions_for_disk :: "flash_sys_disk \<Rightarrow> flash_partition list io" where
  "partitions_for_disk d =
     (let disk_read_only = (read_trimmed (fsd_ro d) = Some ''1'')
      in bind_io (fsd_entries d) (\<lambda>es.
         bind_io (map_io (\<lambda>r. bind_io r (flash_partition_of disk_read_only)) es) (\<lambda>pss. Inr (concat pss))))"

definition partition_order :: "flash_partition \<Rightarrow> flash_partition \<Rightarrow> comp" where
  "partition_order l r = then_with (cmp (fastboot_name l) (fastboot_name r)) (cmp (kernel_name l) (kernel_name r))"

definition flash_list :: "flash_sysfs \<Rightarrow> flash_partition list io" where
  "flash_list sysfs =
     bind_io sysfs (\<lambda>ds.
     bind_io (map_io (\<lambda>r. bind_io r (\<lambda>d. if \<not> flash_is_local_flash_disk d then Inr [] else partitions_for_disk d)) ds) (\<lambda>pss.
     Inr (sort_by partition_order (concat pss))))"

definition flash_find :: "flash_sysfs \<Rightarrow> string \<Rightarrow> flash_partition io" where
  "flash_find sysfs n =
     bind_io (flash_list sysfs) (\<lambda>ps.
     case filter (\<lambda>p. matches_name p n) ps of
       [] \<Rightarrow> Inl (IoError NotFound ''partition not found'')
     | [p] \<Rightarrow> Inr p
     | _ \<Rightarrow> invalid_input ''partition is ambiguous'')"

section \<open>What a name resolves to\<close>

text \<open>A name resolves to a partition exactly when one entry of the listing has it.\<close>

lemma flash_find_Inr:
  "flash_find sysfs n = Inr p \<longleftrightarrow> (\<exists>ps. flash_list sysfs = Inr ps \<and> filter (\<lambda>p. matches_name p n) ps = [p])"
proof -
  have pick: "(case qs of [] \<Rightarrow> Inl (IoError NotFound ''partition not found'') | [q] \<Rightarrow> Inr q
      | _ \<Rightarrow> invalid_input ''partition is ambiguous'') = Inr p \<longleftrightarrow> qs = [p]" for qs :: "flash_partition list"
    by (cases qs rule: remdups_adj.cases) simp_all
  show ?thesis unfolding flash_find_def bind_io_eq_Inr pick by blast
qed

text \<open>Everything the listing has comes from a partition entry, with a node under \<open>/dev\<close>, of a local flash disk.\<close>

definition listed_from :: "flash_sysfs \<Rightarrow> flash_partition \<Rightarrow> bool" where
  "listed_from sysfs p \<longleftrightarrow>
     (\<exists>ds d es e. sysfs = Inr ds \<and> Inr d \<in> set ds \<and> flash_is_local_flash_disk d \<and> fsd_entries d = Inr es \<and> Inr e \<in> set es \<and>
        fsp_partition e \<and> fsp_dev_exists e \<and> kernel_name p = fsp_name e \<and> dev_path p = ''/dev/'' @ fsp_name e \<and>
        (read_only p \<longleftrightarrow> read_trimmed (fsd_ro d) = Some ''1'' \<or> read_trimmed (fsp_ro e) = Some ''1''))"

lemma flash_list_from:
  assumes "flash_list sysfs = Inr ps" "p \<in> set ps"
  shows "listed_from sysfs p"
proof -
  obtain ds pss where ds: "sysfs = Inr ds"
      "map_io (\<lambda>r. bind_io r (\<lambda>d. if \<not> flash_is_local_flash_disk d then Inr [] else partitions_for_disk d)) ds = Inr pss"
      "ps = sort_by partition_order (concat pss)"
    using assms(1) unfolding flash_list_def bind_io_eq_Inr sum.inject by blast
  have "p \<in> set (concat pss)" using assms(2) mset_sort_by [of partition_order "concat pss"] unfolding ds(3) by (metis set_mset_mset)
  then obtain qs where qs: "qs \<in> set pss" "p \<in> set qs" by auto
  obtain r where r: "r \<in> set ds" "bind_io r (\<lambda>d. if \<not> flash_is_local_flash_disk d then Inr [] else partitions_for_disk d) = Inr qs"
    using map_io_elem [OF ds(2) qs(1)] by blast
  then obtain d where d: "r = Inr d" "flash_is_local_flash_disk d" "partitions_for_disk d = Inr qs"
    using qs(2) by (auto split: if_split_asm)
  obtain es rss where es: "fsd_entries d = Inr es"
      "map_io (\<lambda>r. bind_io r (flash_partition_of (read_trimmed (fsd_ro d) = Some ''1''))) es = Inr rss" "qs = concat rss"
    using d(3) unfolding partitions_for_disk_def Let_def bind_io_eq_Inr sum.inject by blast
  obtain rs where rs: "rs \<in> set rss" "p \<in> set rs" using qs(2) es(3) by auto
  obtain e where e: "Inr e \<in> set es" "flash_partition_of (read_trimmed (fsd_ro d) = Some ''1'') e = Inr rs"
    using map_io_elem [OF es(2) rs(1)] by auto
  then have "fsp_partition e" "fsp_dev_exists e"
    using rs(2) by (auto simp: flash_partition_of_def split: if_split_asm)
  moreover have "kernel_name p = fsp_name e" "dev_path p = ''/dev/'' @ fsp_name e"
      "read_only p \<longleftrightarrow> read_trimmed (fsd_ro d) = Some ''1'' \<or> read_trimmed (fsp_ro e) = Some ''1''"
    using e(2) rs(2) by (auto simp: flash_partition_of_def split: if_split_asm)
  ultimately show ?thesis
    unfolding listed_from_def using ds(1) r(1) d(1,2) es(1) e(1) by blast
qed

end
