(* ===== verification/FlashSparse.thy ===== *)
theory FlashSparse
  imports StateIo Gpt
begin

unbundle bit_operations_syntax

text \<open>
  Writing a staged payload to a partition (\<open>flash.rs\<close>): Android sparse images, raw payloads and
  erasing. The state is the staged file and its cursor, and the contents of the target block
  device and its cursor. The target is reached through the system calls \<open>os_calls\<close>, which may
  write short or fail. A loop that copies in pieces of \<open>COPY_CHUNK\<close> bytes stops at the first
  failing read or write, and what was written before stays on the device.

  A \<open>u64\<close> that counts down the bytes left is a \<^typ>\<open>nat\<close> here: it only decreases. A length
  that fits 64 bits also fits the \<open>usize\<close> of the aarch64 targets, so the conversions to
  \<open>usize\<close> do not fail.
\<close>

section \<open>Staged file and target device\<close>

record flash_io =
  fi_source :: bytes
  fi_spos :: nat
  fi_target :: bytes
  fi_tpos :: nat

definition COPY_CHUNK :: nat where
  "COPY_CHUNK = 1024 * 1024"

text \<open>\<open>Read::read_exact\<close> on the staged file.\<close>

definition source_read_exact :: "nat \<Rightarrow> (flash_io, bytes) sio" where
  "source_read_exact n s =
     (if fi_spos s + n \<le> length (fi_source s)
      then (s\<lparr>fi_spos := fi_spos s + n\<rparr>, Inr (slice (fi_source s) (fi_spos s) (fi_spos s + n)))
      else (s\<lparr>fi_spos := max (fi_spos s) (length (fi_source s))\<rparr>,
            Inl (IoError UnexpectedEof ''failed to fill whole buffer'')))"

definition source_seek_start :: "nat \<Rightarrow> (flash_io, unit) sio" where
  "source_seek_start n = modify_st (\<lambda>s. s\<lparr>fi_spos := n\<rparr>)"

text \<open>\<open>lseek\<close> relative to the cursor refuses an offset that does not fit \<open>i64\<close>.\<close>

definition source_seek_current :: "nat \<Rightarrow> (flash_io, unit) sio" where
  "source_seek_current n s =
     (if fi_spos s + n < 2 ^ 63 then (s\<lparr>fi_spos := fi_spos s + n\<rparr>, Inr ()) else (s, Inl (IoError (OsErrno 22) '''')))"

text \<open>\<open>Write::write_all\<close> on the target, at its cursor.\<close>

function target_write_all :: "os_calls \<Rightarrow> bytes \<Rightarrow> (flash_io, unit) sio" where
  "target_write_all os buf s =
     (if buf = [] then (s, Inr ())
      else
        (case os_write_at os (fi_target s) buf (fi_tpos s) of
           Inl e \<Rightarrow> (s, Inl e)
         | Inr (n, c) \<Rightarrow>
             if n = 0 then (s\<lparr>fi_target := c\<rparr>, Inl (IoError WriteZero ''failed to write whole buffer''))
             else target_write_all os (drop n buf) (s\<lparr>fi_target := c, fi_tpos := fi_tpos s + n\<rparr>)))"
  by pat_completeness auto
termination
  by (relation "measure (\<lambda>(os, buf, s). length buf)") auto

declare target_write_all.simps [simp del]

text \<open>A block device refuses a cursor beyond its end.\<close>

definition target_seek_start :: "nat \<Rightarrow> (flash_io, unit) sio" where
  "target_seek_start n s =
     (if n \<le> length (fi_target s) \<and> n < 2 ^ 63 then (s\<lparr>fi_tpos := n\<rparr>, Inr ()) else (s, Inl (IoError (OsErrno 22) '''')))"

definition target_open :: "os_calls \<Rightarrow> (flash_io, unit) sio" where
  "target_open os = lift_io (map_err_prefix ''open '' (os_open os))"

definition sparse_read_u16_le :: "(flash_io, u16) sio" where
  "sparse_read_u16_le = bind_st (source_read_exact 2) (\<lambda>bs. ret (from_le_bytes bs))"

definition sparse_read_u32_le :: "(flash_io, u32) sio" where
  "sparse_read_u32_le = bind_st (source_read_exact 4) (\<lambda>bs. ret (from_le_bytes bs))"

definition read_fill :: "(flash_io, bytes) sio" where
  "read_fill = source_read_exact 4"

definition skip_input :: "nat \<Rightarrow> (flash_io, unit) sio" where
  "skip_input n =
     (if 2 ^ 63 \<le> n then throw (IoError InvalidInput ''skip length is too large'') else source_seek_current n)"

section \<open>Copying, filling and zeroing\<close>

function copy_exact :: "os_calls \<Rightarrow> nat \<Rightarrow> (flash_io, unit) sio" where
  "copy_exact os remaining =
     (if remaining = 0 then ret ()
      else
        (let chunk_len = min remaining COPY_CHUNK
         in bind_st (source_read_exact chunk_len) (\<lambda>buf.
            bind_st (target_write_all os buf) (\<lambda>_.
            copy_exact os (remaining - chunk_len)))))"
  by pat_completeness auto
termination
  by (relation "measure (\<lambda>(os, remaining). remaining)") (auto simp: COPY_CHUNK_def)

declare copy_exact.simps [simp del]

text \<open>The buffer of \<open>write_fill\<close> holds the fill value in each of its four-byte chunks.\<close>

definition fill_buffer :: "bytes \<Rightarrow> bytes" where
  "fill_buffer fill = concat (replicate (COPY_CHUNK div 4) fill)"

function write_buffer :: "os_calls \<Rightarrow> bytes \<Rightarrow> nat \<Rightarrow> (flash_io, unit) sio" where
  "write_buffer os buf remaining =
     (if remaining = 0 \<or> buf = [] then ret ()
      else
        (let chunk_len = min remaining (length buf)
         in bind_st (target_write_all os (take chunk_len buf)) (\<lambda>_.
            write_buffer os buf (remaining - chunk_len))))"
  by pat_completeness auto
termination
  by (relation "measure (\<lambda>(os, buf, remaining). remaining)") auto

declare write_buffer.simps [simp del]

definition write_fill :: "os_calls \<Rightarrow> bytes \<Rightarrow> nat \<Rightarrow> (flash_io, unit) sio" where
  "write_fill os fill remaining = write_buffer os (fill_buffer fill) remaining"

definition write_zeroes :: "os_calls \<Rightarrow> nat \<Rightarrow> (flash_io, nat) sio" where
  "write_zeroes os remaining =
     bind_st (write_buffer os (replicate COPY_CHUNK 0) remaining) (\<lambda>_. ret remaining)"

definition flash_raw :: "os_calls \<Rightarrow> nat \<Rightarrow> (flash_io, nat) sio" where
  "flash_raw os remaining =
     bind_st (source_seek_start 0) (\<lambda>_.
     bind_st (target_open os) (\<lambda>_.
     bind_st (target_seek_start 0) (\<lambda>_.
     bind_st (copy_exact os remaining) (\<lambda>_.
     bind_st (lift_io (os_sync_all os)) (\<lambda>_.
     ret remaining)))))"

section \<open>Erasing\<close>

datatype erase_method = EraseDiscard | EraseZeroFill

definition erase_label :: "erase_method \<Rightarrow> string" where
  "erase_label m = (case m of EraseDiscard \<Rightarrow> ''discard'' | EraseZeroFill \<Rightarrow> ''zero-fill'')"

record erase_stats =
  erased_size :: nat
  erase_method_of :: erase_method

text \<open>
  \<open>BLKDISCARD\<close> over a range of the device is a parameter: the contents after it and its result.
\<close>

type_synonym discard_call = "bytes \<Rightarrow> nat \<Rightarrow> nat \<Rightarrow> bytes \<times> unit io"

definition discard_partition :: "discard_call \<Rightarrow> nat \<Rightarrow> (flash_io, unit) sio" where
  "discard_partition discard len s =
     (case discard (fi_target s) 0 len of (c, r) \<Rightarrow> (s\<lparr>fi_target := c\<rparr>, r))"

text \<open>\<open>ENOTTY\<close>, \<open>EOPNOTSUPP\<close>, \<open>EINVAL\<close> and \<open>ENOSYS\<close>.\<close>

definition is_discard_unsupported :: "io_error \<Rightarrow> bool" where
  "is_discard_unsupported e =
     (case e of IoError (OsErrno n) _ \<Rightarrow> n \<in> {25, 95, 22, 38} | _ \<Rightarrow> False)"

definition erase_partition :: "os_calls \<Rightarrow> discard_call \<Rightarrow> nat \<Rightarrow> (flash_io, erase_stats) sio" where
  "erase_partition os discard len =
     bind_st (target_open os) (\<lambda>_.
     bind_st (attempt (discard_partition discard len)) (\<lambda>r.
       case r of
         Inr _ \<Rightarrow>
           bind_st (lift_io (os_sync_all os)) (\<lambda>_. ret \<lparr>erased_size = len, erase_method_of = EraseDiscard\<rparr>)
       | Inl e \<Rightarrow>
           if is_discard_unsupported e then
             bind_st (target_seek_start 0) (\<lambda>_.
             bind_st (write_zeroes os len) (\<lambda>n.
             bind_st (lift_io (os_sync_all os)) (\<lambda>_.
             ret \<lparr>erased_size = n, erase_method_of = EraseZeroFill\<rparr>)))
           else throw e))"

section \<open>Sparse images\<close>

definition ANDROID_SPARSE_MAGIC :: bytes where
  "ANDROID_SPARSE_MAGIC = [0x3a, 0xff, 0x26, 0xed]"

definition ANDROID_SPARSE_MAGIC_LE :: u32 where
  "ANDROID_SPARSE_MAGIC_LE = 0xed26ff3a"

definition SPARSE_HEADER_SIZE :: u16 where
  "SPARSE_HEADER_SIZE = 28"

definition SPARSE_CHUNK_HEADER_SIZE :: u16 where
  "SPARSE_CHUNK_HEADER_SIZE = 12"

definition SPARSE_CHUNK_RAW :: u16 where
  "SPARSE_CHUNK_RAW = 0xcac1"

definition SPARSE_CHUNK_FILL :: u16 where
  "SPARSE_CHUNK_FILL = 0xcac2"

definition SPARSE_CHUNK_DONT_CARE :: u16 where
  "SPARSE_CHUNK_DONT_CARE = 0xcac3"

definition SPARSE_CHUNK_CRC32 :: u16 where
  "SPARSE_CHUNK_CRC32 = 0xcac4"

text \<open>\<open>is_sparse_image\<close> reads at most four bytes from the start and rewinds.\<close>

definition is_sparse_image :: "(flash_io, bool) sio" where
  "is_sparse_image =
     bind_st (source_seek_start 0) (\<lambda>_.
     bind_st (get_st (\<lambda>s. take 4 (fi_source s))) (\<lambda>magic.
     bind_st (source_seek_start 0) (\<lambda>_.
     ret (length magic = length ANDROID_SPARSE_MAGIC \<and> magic = ANDROID_SPARSE_MAGIC))))"

record sparse_header =
  chunk_header_size :: u16
  block_size :: u32
  sh_total_blocks :: u32
  total_chunks :: u32

definition sparse_header_read_from :: "(flash_io, sparse_header) sio" where
  "sparse_header_read_from =
     bind_st sparse_read_u32_le (\<lambda>magic.
     if magic \<noteq> ANDROID_SPARSE_MAGIC_LE then throw (IoError InvalidData ''invalid Android sparse image magic'')
     else
     bind_st sparse_read_u16_le (\<lambda>major.
     bind_st sparse_read_u16_le (\<lambda>minor.
     if (major, minor) \<noteq> (1, 0) then throw (IoError InvalidData ''unsupported Android sparse image version'')
     else
     bind_st sparse_read_u16_le (\<lambda>file_header_size.
     bind_st sparse_read_u16_le (\<lambda>chunk_header_size.
     bind_st sparse_read_u32_le (\<lambda>block_size.
     bind_st sparse_read_u32_le (\<lambda>total_blocks.
     bind_st sparse_read_u32_le (\<lambda>total_chunks.
     bind_st sparse_read_u32_le (\<lambda>_.
     if file_header_size < SPARSE_HEADER_SIZE then throw (IoError InvalidData ''Android sparse file header is too small'')
     else if chunk_header_size < SPARSE_CHUNK_HEADER_SIZE then
       throw (IoError InvalidData ''Android sparse chunk header is too small'')
     else if block_size = 0 \<or> block_size mod 4 \<noteq> 0 then throw (IoError InvalidData ''Android sparse block size is invalid'')
     else
     bind_st (skip_input (unat (file_header_size - SPARSE_HEADER_SIZE))) (\<lambda>_.
     ret \<lparr>chunk_header_size = chunk_header_size, block_size = block_size,
          sh_total_blocks = total_blocks, total_chunks = total_chunks\<rparr>))))))))))"

definition expanded_size :: "sparse_header \<Rightarrow> u64 io" where
  "expanded_size h =
     ok_or (IoError InvalidData ''Android sparse expanded size overflows'')
       (checked_mul (ucast (sh_total_blocks h)) (ucast (block_size h)))"

record sparse_chunk_header =
  chunk_type :: u16
  chunk_blocks :: u32
  data_size :: u64

definition sparse_chunk_header_read_from :: "u16 \<Rightarrow> (flash_io, sparse_chunk_header) sio" where
  "sparse_chunk_header_read_from header_size =
     bind_st sparse_read_u16_le (\<lambda>chunk_type.
     bind_st sparse_read_u16_le (\<lambda>_.
     bind_st sparse_read_u32_le (\<lambda>chunk_blocks.
     bind_st sparse_read_u32_le (\<lambda>total_size.
     if total_size < ucast header_size then throw (IoError InvalidData ''Android sparse chunk total size is smaller than header size'')
     else
     bind_st (skip_input (unat (header_size - SPARSE_CHUNK_HEADER_SIZE))) (\<lambda>_.
     ret \<lparr>chunk_type = chunk_type, chunk_blocks = chunk_blocks, data_size = ucast (total_size - ucast header_size)\<rparr>)))))"

definition output_size :: "sparse_chunk_header \<Rightarrow> u32 \<Rightarrow> u64 io" where
  "output_size ch bs =
     ok_or (IoError InvalidData ''Android sparse chunk output size overflows'')
       (checked_mul (ucast (chunk_blocks ch)) (ucast bs))"

definition checked_add_written :: "u64 \<Rightarrow> u64 \<Rightarrow> u64 io" where
  "checked_add_written left right =
     ok_or (IoError InvalidData ''Android sparse written byte count overflows'') (checked_add left right)"

text \<open>
  The body of the chunk loop: the position in the expanded image and the count of written bytes
  go in and come out.
\<close>

definition flash_chunk_body :: "os_calls \<Rightarrow> sparse_chunk_header \<Rightarrow> u64 \<Rightarrow> u64 \<Rightarrow> u64 \<Rightarrow> (flash_io, u64) sio" where
  "flash_chunk_body os chunk outsize next_position written =
     (if chunk_type chunk = SPARSE_CHUNK_RAW then
        if data_size chunk \<noteq> outsize then throw (IoError InvalidData ''Android sparse raw chunk size is invalid'')
        else bind_st (copy_exact os (unat outsize)) (\<lambda>_. lift_io (checked_add_written written outsize))
      else if chunk_type chunk = SPARSE_CHUNK_FILL then
        if data_size chunk \<noteq> 4 then throw (IoError InvalidData ''Android sparse fill chunk size is invalid'')
        else bind_st read_fill (\<lambda>fill.
             bind_st (write_fill os fill (unat outsize)) (\<lambda>_. lift_io (checked_add_written written outsize)))
      else if chunk_type chunk = SPARSE_CHUNK_DONT_CARE then
        if data_size chunk \<noteq> 0 then throw (IoError InvalidData ''Android sparse don't-care chunk size is invalid'')
        else bind_st (target_seek_start (unat next_position)) (\<lambda>_. ret written)
      else if chunk_type chunk = SPARSE_CHUNK_CRC32 then
        if outsize \<noteq> 0 \<or> data_size chunk \<noteq> 4 then throw (IoError InvalidData ''Android sparse CRC chunk size is invalid'')
        else bind_st (skip_input 4) (\<lambda>_. ret written)
      else throw (IoError InvalidData ''unknown Android sparse chunk type''))"

definition flash_chunk :: "os_calls \<Rightarrow> sparse_header \<Rightarrow> u64 \<Rightarrow> u64 \<Rightarrow> u64 \<Rightarrow> (flash_io, u64 \<times> u64) sio" where
  "flash_chunk os h expanded pos written =
     bind_st (sparse_chunk_header_read_from (chunk_header_size h)) (\<lambda>chunk.
     bind_st (lift_io (output_size chunk (block_size h))) (\<lambda>outsize.
     bind_st (lift_io (ok_or (IoError InvalidData ''Android sparse write position overflows'') (checked_add pos outsize))) (\<lambda>next_position.
     if expanded < next_position then throw (IoError InvalidData ''Android sparse chunks exceed declared expanded size'')
     else
     bind_st (flash_chunk_body os chunk outsize next_position written) (\<lambda>written.
     ret (next_position, written)))))"

primrec flash_chunks :: "os_calls \<Rightarrow> sparse_header \<Rightarrow> u64 \<Rightarrow> nat \<Rightarrow> u64 \<times> u64 \<Rightarrow> (flash_io, u64 \<times> u64) sio" where
  "flash_chunks os h expanded 0 acc = ret acc"
| "flash_chunks os h expanded (Suc n) acc =
     bind_st (flash_chunk os h expanded (fst acc) (snd acc)) (\<lambda>acc. flash_chunks os h expanded n acc)"

record sparse_flash_stats =
  st_expanded_size :: u64
  written_size :: u64
  st_chunks :: u32

definition flash_sparse :: "os_calls \<Rightarrow> u64 \<Rightarrow> u64 \<Rightarrow> (flash_io, sparse_flash_stats) sio" where
  "flash_sparse os partition_size staged_size =
     bind_st (source_seek_start 0) (\<lambda>_.
     bind_st sparse_header_read_from (\<lambda>header.
     bind_st (lift_io (expanded_size header)) (\<lambda>expanded.
     if partition_size < expanded then throw (IoError InvalidInput ''sparse image expands beyond target partition'')
     else
     bind_st (target_open os) (\<lambda>_.
     bind_st (target_seek_start 0) (\<lambda>_.
     bind_st (flash_chunks os header expanded (unat (total_chunks header)) (0, 0)) (\<lambda>acc.
     if fst acc \<noteq> expanded then throw (IoError InvalidData ''Android sparse image ended early'')
     else
     bind_st (get_st fi_spos) (\<lambda>consumed.
     if consumed \<noteq> unat staged_size then throw (IoError InvalidData ''Android sparse image has trailing data'')
     else
     bind_st (lift_io (os_sync_all os)) (\<lambda>_.
     ret \<lparr>st_expanded_size = expanded, written_size = snd acc, st_chunks = total_chunks header\<rparr>))))))))"

end
