(* ===== verification/GadgetUms.thy ===== *)
theory GadgetUms
  imports StateIo RustText
begin

text \<open>
  The state of the USB gadget (\<open>gadget.rs\<close>): which backing files are exported as mass-storage
  LUNs, and the result the gadget thread gives. The eight LUN files of configfs are part of the
  state: a successful write of a \<open>file\<close> attribute changes it and a failing one does not. The
  results of the writes are a parameter. Registration with the gadget library and the UDC is left
  to the caller of \<open>gadget_registered\<close>.
\<close>

definition MAX_UMS_LUNS :: nat where "MAX_UMS_LUNS = 8"

text \<open>\<open>State\<close> with \<open>UmsState\<close> in it; \<open>gd_files\<close> holds the backing each \<open>file\<close> attribute names.\<close>

record gadget =
  gd_registered :: bool
  gd_udc :: bool
  gd_function_dir :: "string option"
  gd_slots :: "string option list"
  gd_files :: "string \<Rightarrow> string option"

type_synonym attribute_write = "string \<Rightarrow> string \<Rightarrow> unit io"

datatype mass_storage_start = UmsStarted nat | UmsAlreadyStarted nat

definition ums_clear :: "gadget \<Rightarrow> gadget" where
  "ums_clear g = g\<lparr>gd_function_dir := None, gd_slots := []\<rparr>"

definition ums_set_function :: "string \<Rightarrow> gadget \<Rightarrow> gadget" where
  "ums_set_function d g = g\<lparr>gd_function_dir := Some d, gd_slots := replicate MAX_UMS_LUNS None\<rparr>"

definition lun_dir :: "string \<Rightarrow> nat \<Rightarrow> string" where
  "lun_dir function_dir i = function_dir @ ''/lun.'' @ decimal_of i"

text \<open>\<open>Iterator::position\<close>.\<close>

fun position_of :: "('a \<Rightarrow> bool) \<Rightarrow> 'a list \<Rightarrow> nat option" where
  "position_of p [] = None"
| "position_of p (x # xs) = (if p x then Some 0 else map_option Suc (position_of p xs))"

definition mass_storage_lun :: "gadget \<Rightarrow> string \<Rightarrow> nat option" where
  "mass_storage_lun g backing = position_of (\<lambda>sl. sl = Some backing) (gd_slots g)"

definition lun_file :: "string \<Rightarrow> nat \<Rightarrow> string" where
  "lun_file function_dir i = lun_dir function_dir i @ ''/file''"

definition attach_mass_storage_lun :: "attribute_write \<Rightarrow> string \<Rightarrow> nat \<Rightarrow> string \<Rightarrow> (gadget, unit) sio" where
  "attach_mass_storage_lun wr d i backing =
     bind_st (lift_io (wr (lun_file d i) backing)) (\<lambda>_.
     modify_st (\<lambda>g. g\<lparr>gd_files := (gd_files g)(lun_file d i := Some backing)\<rparr>))"

definition detach_mass_storage_lun :: "attribute_write \<Rightarrow> string \<Rightarrow> nat \<Rightarrow> (gadget, unit) sio" where
  "detach_mass_storage_lun wr d i =
     bind_st (lift_io (wr (lun_file d i) [newline])) (\<lambda>_.
     modify_st (\<lambda>g. g\<lparr>gd_files := (gd_files g)(lun_file d i := None)\<rparr>))"

definition attach_mass_storage_slot :: "attribute_write \<Rightarrow> string \<Rightarrow> (gadget, nat) sio" where
  "attach_mass_storage_slot wr backing =
     bind_st (get_st gd_function_dir) (\<lambda>fd.
     bind_st (lift_io (ok_or (IoError NotConnected ''UMS function is not registered'') fd)) (\<lambda>d.
     bind_st (get_st gd_slots) (\<lambda>slots.
     bind_st (lift_io (ok_or (IoError OtherError ''no free UMS LUNs; maximum is 8'') (position_of (\<lambda>sl. sl = None) slots))) (\<lambda>lun.
     bind_st (attach_mass_storage_lun wr d lun backing) (\<lambda>_.
     bind_st (modify_st (\<lambda>g. g\<lparr>gd_slots := (gd_slots g)[lun := Some backing]\<rparr>)) (\<lambda>_.
     ret lun))))))"

definition detach_mass_storage_slot :: "attribute_write \<Rightarrow> nat \<Rightarrow> (gadget, unit) sio" where
  "detach_mass_storage_slot wr lun =
     bind_st (get_st gd_function_dir) (\<lambda>fd.
     bind_st (lift_io (ok_or (IoError NotConnected ''UMS function is not registered'') fd)) (\<lambda>d.
     bind_st (get_st gd_slots) (\<lambda>slots.
     bind_st (lift_io (ok_or (IoError NotFound ''UMS LUN is empty'') (if lun < length slots then slots ! lun else None))) (\<lambda>backing.
     bind_st (detach_mass_storage_lun wr d lun) (\<lambda>_.
     modify_st (\<lambda>g. g\<lparr>gd_slots := (gd_slots g)[lun := None]\<rparr>))))))"

definition start_mass_storage :: "attribute_write \<Rightarrow> string \<Rightarrow> (gadget, mass_storage_start) sio" where
  "start_mass_storage wr backing =
     bind_st (get_st (\<lambda>g. mass_storage_lun g backing)) (\<lambda>at.
     case at of
       Some lun \<Rightarrow> ret (UmsAlreadyStarted lun)
     | None \<Rightarrow> bind_st (attach_mass_storage_slot wr backing) (\<lambda>lun. ret (UmsStarted lun)))"

definition stop_mass_storage :: "attribute_write \<Rightarrow> string \<Rightarrow> (gadget, nat) sio" where
  "stop_mass_storage wr backing =
     bind_st (get_st (\<lambda>g. mass_storage_lun g backing)) (\<lambda>at.
     bind_st (lift_io (ok_or (IoError NotFound ''UMS is not started'') at)) (\<lambda>lun.
     bind_st (detach_mass_storage_slot wr lun) (\<lambda>_. ret lun)))"

text \<open>
  The end of \<open>register_and_bind\<close>, once the gadget is bound: a second registration is refused, and
  the slots start out empty. \<open>unbind_and_remove\<close> forgets everything before it unbinds.
\<close>

definition gadget_registered :: "string option \<Rightarrow> (gadget, unit) sio" where
  "gadget_registered function_dir =
     bind_st (get_st gd_registered) (\<lambda>r.
     if r then throw (IoError AlreadyExists ''USB gadget is already registered'')
     else modify_st (\<lambda>g.
       (case function_dir of Some d \<Rightarrow> ums_set_function d (g\<lparr>gd_udc := True\<rparr>) | None \<Rightarrow> ums_clear (g\<lparr>gd_udc := True\<rparr>))
         \<lparr>gd_registered := True\<rparr>))"

definition unbind_and_remove :: "unit io \<Rightarrow> (gadget, unit) sio" where
  "unbind_and_remove unbound =
     bind_st (get_st gd_registered) (\<lambda>r.
     bind_st (modify_st (\<lambda>g. (ums_clear (g\<lparr>gd_udc := False\<rparr>))\<lparr>gd_registered := False\<rparr>)) (\<lambda>_.
     if \<not> r then ret () else lift_io unbound))"

text \<open>An acknowledged action is kept even if the cleanup of the gadget failed.\<close>

definition resolve_fastboot_result :: "'a option io \<Rightarrow> unit io \<Rightarrow> 'a option io" where
  "resolve_fastboot_result server_result unbind_result =
     bind_io server_result (\<lambda>a.
     if a \<noteq> None then Inr a else bind_io unbind_result (\<lambda>_. Inr None))"

section \<open>The exported backings\<close>

text \<open>
  The invariant: slots exist exactly while a function directory is set, no backing has two LUNs,
  and every LUN file names the backing in its slot.
\<close>

definition gadget_ok :: "gadget \<Rightarrow> bool" where
  "gadget_ok g \<longleftrightarrow>
     (case gd_function_dir g of
        None \<Rightarrow> gd_slots g = []
      | Some d \<Rightarrow> length (gd_slots g) = MAX_UMS_LUNS \<and> (\<forall>i < MAX_UMS_LUNS. gd_files g (lun_file d i) = gd_slots g ! i)) \<and>
     (\<forall>i j. i < length (gd_slots g) \<longrightarrow> j < length (gd_slots g) \<longrightarrow> gd_slots g ! i \<noteq> None \<longrightarrow>
        gd_slots g ! i = gd_slots g ! j \<longrightarrow> i = j)"

definition exported :: "gadget \<Rightarrow> nat \<Rightarrow> string option" where
  "exported g i = (if i < length (gd_slots g) then gd_slots g ! i else None)"

lemma position_of_Some: "position_of p xs = Some i \<longleftrightarrow> i < length xs \<and> p (xs ! i) \<and> (\<forall>j < i. \<not> p (xs ! j))"
proof (induction xs arbitrary: i)
  case (Cons x xs)
  show ?case
  proof (cases i)
    case (Suc k)
    then show ?thesis using Cons.IH [of k] by (auto simp: nth_Cons' less_Suc_eq_0_disj)
  qed auto
qed simp

lemma position_of_None: "position_of p xs = None \<longleftrightarrow> (\<forall>x \<in> set xs. \<not> p x)"
  by (induction xs) auto

lemma lun_file_inject: "lun_file d i = lun_file d j \<Longrightarrow> i < MAX_UMS_LUNS \<Longrightarrow> j < MAX_UMS_LUNS \<Longrightarrow> i = j"
  using decimal_of_inject [of i j] by (simp add: lun_file_def lun_dir_def MAX_UMS_LUNS_def)

lemma gadget_ok_start: "gadget_ok \<lparr>gd_registered = False, gd_udc = False, gd_function_dir = None, gd_slots = [], gd_files = f\<rparr>"
  by (simp add: gadget_ok_def)

text \<open>Putting a value into a slot and its LUN file.\<close>

lemma gadget_ok_update:
  assumes ok: "gadget_ok g" and d: "gd_function_dir g = Some d" and i: "i < MAX_UMS_LUNS"
    and fresh: "v \<noteq> None \<Longrightarrow> v \<notin> set (gd_slots g)"
  shows "gadget_ok (g\<lparr>gd_files := (gd_files g)(lun_file d i := v), gd_slots := (gd_slots g)[i := v]\<rparr>)"
proof -
  have len: "length (gd_slots g) = MAX_UMS_LUNS" and files: "\<forall>k < MAX_UMS_LUNS. gd_files g (lun_file d k) = gd_slots g ! k"
    and inj: "\<forall>k j. k < length (gd_slots g) \<longrightarrow> j < length (gd_slots g) \<longrightarrow> gd_slots g ! k \<noteq> None \<longrightarrow> gd_slots g ! k = gd_slots g ! j \<longrightarrow> k = j"
    using ok d unfolding gadget_ok_def by auto
  have fresh': "gd_slots g ! j \<noteq> v" if "v \<noteq> None" "j < MAX_UMS_LUNS" for j
    using fresh [OF that(1)] that(2) len by (metis nth_mem)
  have "\<forall>k < MAX_UMS_LUNS. ((gd_files g)(lun_file d i := v)) (lun_file d k) = (gd_slots g)[i := v] ! k"
    using files i len by (auto simp: nth_list_update dest: lun_file_inject)
  moreover have "k = j"
    if "k < MAX_UMS_LUNS" "j < MAX_UMS_LUNS" "(gd_slots g)[i := v] ! k \<noteq> None" "(gd_slots g)[i := v] ! k = (gd_slots g)[i := v] ! j" for k j
    using that i inj fresh' [of k] fresh' [of j] len by (auto simp: nth_list_update split: if_split_asm)
  ultimately show ?thesis using d len unfolding gadget_ok_def by auto
qed

text \<open>Starting and stopping, on every branch.\<close>

lemma start_mass_storage_run:
  "start_mass_storage wr backing g =
     (case mass_storage_lun g backing of
        Some lun \<Rightarrow> (g, Inr (UmsAlreadyStarted lun))
      | None \<Rightarrow>
          (case gd_function_dir g of
             None \<Rightarrow> (g, Inl (IoError NotConnected ''UMS function is not registered''))
           | Some d \<Rightarrow>
               (case position_of (\<lambda>sl. sl = None) (gd_slots g) of
                  None \<Rightarrow> (g, Inl (IoError OtherError ''no free UMS LUNs; maximum is 8''))
                | Some i \<Rightarrow>
                    (case wr (lun_file d i) backing of
                       Inl e \<Rightarrow> (g, Inl e)
                     | Inr _ \<Rightarrow> (g\<lparr>gd_files := (gd_files g)(lun_file d i := Some backing), gd_slots := (gd_slots g)[i := Some backing]\<rparr>,
                                 Inr (UmsStarted i))))))"
  by (simp add: start_mass_storage_def attach_mass_storage_slot_def attach_mass_storage_lun_def bind_st_def ok_or_def
      split: option.split sum.split)

lemma stop_mass_storage_run:
  "stop_mass_storage wr backing g =
     (case mass_storage_lun g backing of
        None \<Rightarrow> (g, Inl (IoError NotFound ''UMS is not started''))
      | Some i \<Rightarrow>
          (case gd_function_dir g of
             None \<Rightarrow> (g, Inl (IoError NotConnected ''UMS function is not registered''))
           | Some d \<Rightarrow>
               (case wr (lun_file d i) [newline] of
                  Inl e \<Rightarrow> (g, Inl e)
                | Inr _ \<Rightarrow> (g\<lparr>gd_files := (gd_files g)(lun_file d i := None), gd_slots := (gd_slots g)[i := None]\<rparr>, Inr i))))"
proof (cases "mass_storage_lun g backing")
  case (Some i)
  then have "i < length (gd_slots g)" "gd_slots g ! i = Some backing" by (auto simp: mass_storage_lun_def position_of_Some)
  then show ?thesis using Some
    by (simp add: stop_mass_storage_def detach_mass_storage_slot_def detach_mass_storage_lun_def bind_st_def ok_or_def
        split: option.split sum.split)
qed (simp add: stop_mass_storage_def bind_st_def)

lemma mass_storage_lun_Some:
  "gadget_ok g \<Longrightarrow> mass_storage_lun g b = Some i \<longleftrightarrow> exported g i = Some b"
  unfolding mass_storage_lun_def position_of_Some exported_def gadget_ok_def by (metis option.distinct(1) order.strict_trans nat_neq_iff)

lemma mass_storage_lun_None: "mass_storage_lun g b = None \<longleftrightarrow> (\<forall>i. exported g i \<noteq> Some b)"
  unfolding mass_storage_lun_def position_of_None exported_def by (metis in_set_conv_nth option.distinct(1))

text \<open>The invariant is kept, and what is exported changes in at most the one slot the answer names.\<close>

lemma start_mass_storage_ok:
  assumes ok: "gadget_ok g" and run: "start_mass_storage wr b g = (g', r)"
  shows "gadget_ok g'"
    and "r = Inr (UmsStarted i) \<Longrightarrow> (\<forall>k. exported g k \<noteq> Some b) \<and> exported g i = None \<and> exported g' = (exported g)(i := Some b)"
    and "r = Inr (UmsAlreadyStarted i) \<Longrightarrow> g' = g \<and> exported g i = Some b"
    and "r = Inl e \<Longrightarrow> g' = g"
proof -
  have new: "gadget_ok h \<and> exported g i = None \<and> exported h = (exported g)(i := Some b)"
    if "mass_storage_lun g b = None" "gd_function_dir g = Some d" "position_of (\<lambda>sl. sl = None) (gd_slots g) = Some i"
      "h = g\<lparr>gd_files := (gd_files g)(lun_file d i := Some b), gd_slots := (gd_slots g)[i := Some b]\<rparr>" for d i h
  proof -
    have i: "i < length (gd_slots g)" "gd_slots g ! i = None" using that(3) by (auto simp: position_of_Some)
    have len: "length (gd_slots g) = MAX_UMS_LUNS" using ok that(2) by (simp add: gadget_ok_def)
    have "Some b \<notin> set (gd_slots g)" using that(1) by (auto simp: mass_storage_lun_def position_of_None)
    then have "gadget_ok h" using gadget_ok_update [OF ok that(2), of i "Some b"] i len by (simp add: that(4))
    then show ?thesis using i by (auto simp: exported_def that(4) fun_eq_iff nth_list_update)
  qed
  show "gadget_ok g'"
    using run ok new by (auto simp: start_mass_storage_run split: option.splits sum.splits)
  show "(\<forall>k. exported g k \<noteq> Some b) \<and> exported g i = None \<and> exported g' = (exported g)(i := Some b)"
    if "r = Inr (UmsStarted i)"
    using run that new mass_storage_lun_None [of g b] by (auto simp: start_mass_storage_run split: option.splits sum.splits)
  show "g' = g \<and> exported g i = Some b" if "r = Inr (UmsAlreadyStarted i)"
    using run that mass_storage_lun_Some [OF ok] by (auto simp: start_mass_storage_run split: option.splits sum.splits)
  show "g' = g" if "r = Inl e"
    using run that by (auto simp: start_mass_storage_run split: option.splits sum.splits)
qed

lemma stop_mass_storage_ok:
  assumes ok: "gadget_ok g" and run: "stop_mass_storage wr b g = (g', r)"
  shows "gadget_ok g'"
    and "r = Inr i \<Longrightarrow> exported g i = Some b \<and> exported g' = (exported g)(i := None)"
    and "r = Inl e \<Longrightarrow> g' = g"
proof -
  have new: "gadget_ok h \<and> exported g i = Some b \<and> exported h = (exported g)(i := None)"
    if "mass_storage_lun g b = Some i" "gd_function_dir g = Some d"
      "h = g\<lparr>gd_files := (gd_files g)(lun_file d i := None), gd_slots := (gd_slots g)[i := None]\<rparr>" for d i h
  proof -
    have i: "i < length (gd_slots g)" "gd_slots g ! i = Some b" using that(1) by (auto simp: mass_storage_lun_def position_of_Some)
    have len: "length (gd_slots g) = MAX_UMS_LUNS" using ok that(2) by (simp add: gadget_ok_def)
    have "gadget_ok h" using gadget_ok_update [OF ok that(2), of i None] i len by (simp add: that(3))
    then show ?thesis using i by (auto simp: exported_def that(3) fun_eq_iff nth_list_update)
  qed
  show "gadget_ok g'"
    using run ok new by (auto simp: stop_mass_storage_run split: option.splits sum.splits)
  show "exported g i = Some b \<and> exported g' = (exported g)(i := None)" if "r = Inr i"
    using run that new by (auto simp: stop_mass_storage_run split: option.splits sum.splits)
  show "g' = g" if "r = Inl e"
    using run that by (auto simp: stop_mass_storage_run split: option.splits sum.splits)
qed

lemma gadget_registered_ok:
  assumes "gadget_ok g" "\<forall>d i. function_dir = Some d \<longrightarrow> gd_files g (lun_file d i) = None" "gadget_registered function_dir g = (g', r)"
  shows "gadget_ok g'"
  using assms by (auto simp: gadget_registered_def ums_set_function_def ums_clear_def gadget_ok_def split: if_split_asm option.splits)

lemma unbind_and_remove_ok: "unbind_and_remove u g = (g', r) \<Longrightarrow> gadget_ok g' \<and> \<not> gd_registered g'"
  by (auto simp: unbind_and_remove_def ums_clear_def gadget_ok_def split: if_split_asm)

end
