(* ===== verification/Kmsg.thy ===== *)
theory Kmsg
  imports RustText StateIo
begin

text \<open>
  Kernel log records (\<open>src/kmsg.rs\<close>): parsing the header of a record of \<open>/dev/kmsg\<close>, undoing the
  escapes of its text, and rendering it as lines for the log capture and the log forwarder. The
  text is decoded with \<open>String::from_utf8_lossy\<close>, which puts U+FFFD for every maximal ill-formed
  part.
\<close>

section \<open>Lossy decoding\<close>

definition replacement :: bytes where
  "replacement = [0xEF, 0xBF, 0xBD]"

text \<open>Whether the second byte fits a three or four byte lead.\<close>

definition second_ok :: "u8 \<Rightarrow> u8 \<Rightarrow> bool" where
  "second_ok b c \<longleftrightarrow>
     (if b = 0xE0 then 0xA0 \<le> c \<and> c \<le> 0xBF
      else if b = 0xED then 0x80 \<le> c \<and> c \<le> 0x9F
      else if b = 0xF0 then 0x90 \<le> c \<and> c \<le> 0xBF
      else if b = 0xF4 then 0x80 \<le> c \<and> c \<le> 0x8F
      else is_cont c)"

function utf8_lossy :: "bytes \<Rightarrow> bytes" where
  "utf8_lossy bs =
     (case bs of
        [] \<Rightarrow> []
      | b # rest \<Rightarrow>
          if b < 0x80 then b # utf8_lossy rest
          else if 0xC2 \<le> b \<and> b \<le> 0xDF then
            (case rest of
               c1 # cs \<Rightarrow> if is_cont c1 then b # c1 # utf8_lossy cs else replacement @ utf8_lossy rest
             | [] \<Rightarrow> replacement)
          else if 0xE0 \<le> b \<and> b \<le> 0xEF then
            (case rest of
               c1 # cs \<Rightarrow>
                 if second_ok b c1 then
                   (case cs of
                      c2 # ds \<Rightarrow> if is_cont c2 then b # c1 # c2 # utf8_lossy ds else replacement @ utf8_lossy cs
                    | [] \<Rightarrow> replacement)
                 else replacement @ utf8_lossy rest
             | [] \<Rightarrow> replacement)
          else if 0xF0 \<le> b \<and> b \<le> 0xF4 then
            (case rest of
               c1 # cs \<Rightarrow>
                 if second_ok b c1 then
                   (case cs of
                      c2 # ds \<Rightarrow>
                        if is_cont c2 then
                          (case ds of
                             c3 # es \<Rightarrow> if is_cont c3 then b # c1 # c2 # c3 # utf8_lossy es else replacement @ utf8_lossy ds
                           | [] \<Rightarrow> replacement)
                        else replacement @ utf8_lossy cs
                    | [] \<Rightarrow> replacement)
                 else replacement @ utf8_lossy rest
             | [] \<Rightarrow> replacement)
          else replacement @ utf8_lossy rest)"
  by pat_completeness auto
termination by (relation "measure length") auto

declare utf8_lossy.simps [simp del]

definition from_utf8_lossy :: "bytes \<Rightarrow> string" where
  "from_utf8_lossy bs = text_of (utf8_lossy bs)"

lemma utf8_lossy_ascii: "\<forall>b \<in> set bs. b < 0x80 \<Longrightarrow> utf8_lossy bs = bs"
  by (induction bs) (subst utf8_lossy.simps; simp)+

section \<open>Records\<close>

definition is_end_byte :: "u8 \<Rightarrow> bool" where
  "is_end_byte b \<longleftrightarrow> b = 0x0A \<or> b = 0x0D \<or> b = 0"

definition trim_record_end :: "bytes \<Rightarrow> bytes" where
  "trim_record_end v = rev (dropWhile is_end_byte (rev v))"

definition trim_line_end :: "bytes \<Rightarrow> bytes" where
  "trim_line_end v = rev (dropWhile (\<lambda>b. b = 0x0D \<or> b = 0) (rev v))"

definition hex_value :: "u8 \<Rightarrow> u8 option" where
  "hex_value b =
     (if 0x30 \<le> b \<and> b \<le> 0x39 then Some (b - 0x30)
      else if 0x61 \<le> b \<and> b \<le> 0x66 then Some (b - 0x61 + 10)
      else if 0x41 \<le> b \<and> b \<le> 0x46 then Some (b - 0x41 + 10)
      else None)"

definition escape_at :: "bytes \<Rightarrow> (u8 \<times> bytes) option" where
  "escape_at bs =
     (case bs of
        b0 # b1 # b2 # b3 # rest \<Rightarrow>
          if b0 = 0x5C \<and> b1 = 0x78 then
            (case (hex_value b2, hex_value b3) of
               (Some hi, Some lo) \<Rightarrow> Some (push_bit 4 hi OR lo, rest)
             | _ \<Rightarrow> None)
          else None
      | _ \<Rightarrow> None)"

lemma escape_at_shorter: "escape_at bs = Some (v, rest) \<Longrightarrow> length rest < length bs"
  by (auto simp: escape_at_def split: list.splits if_splits option.splits)

function decode_kmsg_bytes :: "bytes \<Rightarrow> bytes" where
  "decode_kmsg_bytes bs =
     (case escape_at bs of
        Some (v, rest) \<Rightarrow> v # decode_kmsg_bytes rest
      | None \<Rightarrow> (case bs of [] \<Rightarrow> [] | b # rest \<Rightarrow> b # decode_kmsg_bytes rest))"
  by pat_completeness auto
termination by (relation "measure length") (auto dest: escape_at_shorter)

declare decode_kmsg_bytes.simps [simp del]

definition decode_kmsg_text :: "bytes \<Rightarrow> string" where
  "decode_kmsg_text input = from_utf8_lossy (decode_kmsg_bytes input)"

definition first_body_line :: "bytes \<Rightarrow> bytes" where
  "first_body_line body = trim_line_end (takeWhile (\<lambda>b. b \<noteq> 0x0A) body)"

record kmsg_record =
  timestamp_us :: u64
  kmsg_text :: bytes

definition kmsg_record_parse :: "bytes \<Rightarrow> kmsg_record option" where
  "kmsg_record_parse raw =
     Option.bind (position (\<lambda>b. b = 0x3B) raw) (\<lambda>separator.
     if \<not> utf8_valid (take separator raw) then None
     else
       (case split_on (CHR '','') (text_of (take separator raw)) of
          _ # _ # ts # _ \<Rightarrow>
            map_option (\<lambda>t. \<lparr>timestamp_us = t, kmsg_text = first_body_line (drop (separator + 1) raw)\<rparr>) (parse_u64 10 ts)
        | _ \<Rightarrow> None))"

definition pad_left :: "char \<Rightarrow> nat \<Rightarrow> string \<Rightarrow> string" where
  "pad_left c width s = replicate (width - length s) c @ s"

definition format_kmsg_time :: "u64 \<Rightarrow> string" where
  "format_kmsg_time ts =
     ''['' @ pad_left (CHR '' '') 5 (decimal_of (unat (ts div 1000000))) @ ''.'' @
     pad_left (CHR ''0'') 6 (decimal_of (unat (ts mod 1000000))) @ '']''"

definition trim_end_matches :: "(char \<Rightarrow> bool) \<Rightarrow> string \<Rightarrow> string" where
  "trim_end_matches p s = rev (dropWhile p (rev s))"

text \<open>The lines \<open>for_each_record_line\<close> hands to \<open>emit\<close>, in order.\<close>

definition record_lines :: "bytes \<Rightarrow> string list" where
  "record_lines raw =
     (let raw = trim_record_end raw
      in if raw = [] then []
         else
           (case kmsg_record_parse raw of
              None \<Rightarrow> (let message = decode_kmsg_text raw in if message \<noteq> [] then [message] else [])
            | Some r \<Rightarrow>
                map (\<lambda>line. format_kmsg_time (timestamp_us r) @ '' '' @ line)
                  (filter (\<lambda>line. line \<noteq> [])
                    (map (trim_end_matches (\<lambda>c. c = CHR 0x0D \<or> c = CHR 0x00)) (text_lines (decode_kmsg_text (kmsg_text r)))))))"

text \<open>\<open>emit\<close> may fail, and then the rest is not handed to it.\<close>

primrec emit_lines :: "(string \<Rightarrow> ('s, unit) sio) \<Rightarrow> string list \<Rightarrow> ('s, unit) sio" where
  "emit_lines emit [] = ret ()"
| "emit_lines emit (l # ls) = bind_st (emit l) (\<lambda>_. emit_lines emit ls)"

definition for_each_record_line :: "bytes \<Rightarrow> (string \<Rightarrow> ('s, unit) sio) \<Rightarrow> ('s, unit) sio" where
  "for_each_record_line raw emit = emit_lines emit (record_lines raw)"

section \<open>Escapes\<close>

text \<open>
  The kernel writes the text of a record with \<open>\xHH\<close> for every byte that is not printable ASCII
  and for the backslash; \<open>decode_kmsg_bytes\<close> undoes that.
\<close>

definition hex_byte :: "nat \<Rightarrow> u8" where
  "hex_byte d = (if d < 10 then of_nat (0x30 + d) else of_nat (0x57 + d))"

definition devkmsg_escape :: "bytes \<Rightarrow> bytes" where
  "devkmsg_escape bs =
     concat (map (\<lambda>b. if b < 0x20 \<or> 0x7F \<le> b \<or> b = 0x5C
                      then [0x5C, 0x78, hex_byte (unat b div 16), hex_byte (unat b mod 16)] else [b]) bs)"

lemma hex_digit_table: "\<forall>d \<in> set [0..<16]. hex_value (hex_byte d) = Some (of_nat d)"
  by code_simp

lemma hex_value_hex_byte: "d < 16 \<Longrightarrow> hex_value (hex_byte d) = Some (of_nat d)"
  using hex_digit_table by simp

lemma nibbles: "push_bit 4 (of_nat (unat b div 16)) OR of_nat (unat b mod 16) = (b :: u8)"
proof -
  have "push_bit 4 (drop_bit 4 b) OR take_bit 4 b = b"
    by (rule bit_eqI) (auto simp: bit_simps)
  moreover have "unat b div 16 < 2 ^ 8" "unat b mod 16 < 2 ^ 8" using unat_less_u8 [of b] by auto
  then have "(of_nat (unat b div 16) :: u8) = drop_bit 4 b" "(of_nat (unat b mod 16) :: u8) = take_bit 4 b"
    by (simp_all add: drop_bit_eq_div take_bit_eq_mod word_unat_eq_iff unat_div unat_mod unsigned_of_nat take_bit_nat_eq_self)
  ultimately show ?thesis by simp
qed

lemma decode_plain: "b \<noteq> 0x5C \<Longrightarrow> decode_kmsg_bytes (b # bs) = b # decode_kmsg_bytes bs"
  by (subst decode_kmsg_bytes.simps) (simp add: escape_at_def split: list.splits)

lemma decode_escape: "decode_kmsg_bytes (devkmsg_escape bs) = bs"
proof (induction bs)
  case Nil
  then show ?case by (simp add: devkmsg_escape_def decode_kmsg_bytes.simps escape_at_def)
next
  case (Cons b bs)
  show ?case
  proof (cases "b < 0x20 \<or> 0x7F \<le> b \<or> b = 0x5C")
    case True
    have "unat b div 16 < 16" "unat b mod 16 < 16" using unat_less_u8 [of b] by auto
    then have "escape_at ([0x5C, 0x78, hex_byte (unat b div 16), hex_byte (unat b mod 16)] @ devkmsg_escape bs) = Some (b, devkmsg_escape bs)"
      by (simp add: escape_at_def hex_value_hex_byte nibbles)
    then show ?thesis using True Cons
      by (subst decode_kmsg_bytes.simps) (simp add: devkmsg_escape_def)
  next
    case False
    then show ?thesis using Cons decode_plain [of b] by (simp add: devkmsg_escape_def)
  qed
qed

section \<open>Lines\<close>

lemma text_lines_no_newline: "l \<in> set (text_lines s) \<Longrightarrow> newline \<notin> set l"
proof -
  assume l: "l \<in> set (text_lines s)"
  have "p \<in> set (split_on newline s) \<Longrightarrow> newline \<notin> set (chomp_cr p)" for p
    using split_on_elem_no_sep [of p newline s] by (auto simp: chomp_cr_def dest: in_set_butlastD)
  moreover have "p \<in> set (split_on newline s) \<Longrightarrow> newline \<notin> set p" for p by (rule split_on_elem_no_sep)
  ultimately show ?thesis
    using l by (auto simp: text_lines_def Let_def dest: in_set_butlastD split: if_split_asm)
qed

text \<open>Every line of a record with a header starts with its time, has text after it and is one line.\<close>

lemma record_lines_shape:
  assumes "kmsg_record_parse (trim_record_end raw) = Some r" "l \<in> set (record_lines raw)"
  shows "\<exists>t. l = format_kmsg_time (timestamp_us r) @ '' '' @ t \<and> t \<noteq> [] \<and> newline \<notin> set t \<and> last t \<noteq> CHR 0x0D \<and> last t \<noteq> CHR 0x00"
proof -
  have ne: "trim_record_end raw \<noteq> []" using assms(1) by (auto simp: kmsg_record_parse_def)
  let ?p = "\<lambda>c. c = CHR 0x0D \<or> c = CHR 0x00"
  obtain k where k: "k \<in> set (text_lines (decode_kmsg_text (kmsg_text r)))" "trim_end_matches ?p k \<noteq> []"
      "l = format_kmsg_time (timestamp_us r) @ '' '' @ trim_end_matches ?p k"
    using assms ne by (auto simp: record_lines_def Let_def)
  have "newline \<notin> set (trim_end_matches ?p k)"
    using text_lines_no_newline [OF k(1)] by (auto simp: trim_end_matches_def dest: set_dropWhileD)
  moreover have "\<not> ?p (last (trim_end_matches ?p k))"
    using k(2) hd_dropWhile [of ?p "rev k"] by (simp add: trim_end_matches_def last_rev)
  ultimately show ?thesis using k(2,3) by blast
qed

text \<open>A record with plain text renders as its time and its text.\<close>

lemma record_lines_render:
  assumes header: "\<forall>b \<in> set hdr. b < 0x80 \<and> b \<noteq> 0x3B" "split_on (CHR '','') (text_of hdr) = p # q # ts # rest"
      "parse_u64 10 ts = Some t"
    and body: "bs \<noteq> []" "\<forall>b \<in> set bs. 0x20 \<le> b \<and> b < 0x7F"
  shows "record_lines (hdr @ 0x3B # devkmsg_escape bs @ [0x0A]) = [format_kmsg_time t @ '' '' @ text_of bs]"
proof -
  let ?e = "devkmsg_escape bs" and ?sep = "0x3B :: u8"
  have table: "list_all (\<lambda>d. 0x20 \<le> hex_byte d \<and> hex_byte d < 0x7F) [0..<16]" by code_simp
  then have hx: "0x20 \<le> hex_byte d" "hex_byte d < 0x7F" if "d < 16" for d using that by (simp_all add: list_all_iff)
  have printable: "0x20 \<le> b \<and> b < 0x7F" if b: "b \<in> set ?e" for b
  proof -
    obtain c where c: "c \<in> set bs" "b \<in> {0x5C, 0x78, hex_byte (unat c div 16), hex_byte (unat c mod 16), c}"
      using b by (auto simp: devkmsg_escape_def split: if_split_asm)
    have "unat c div 16 < 16" "unat c mod 16 < 16" using unat_less_u8 [of c] by auto
    then show ?thesis using c body(2) hx by auto
  qed
  have ne: "?e \<noteq> []" using body(1) by (cases bs) (auto simp: devkmsg_escape_def)
  have last_ok: "\<not> is_end_byte (last ?e)" "last ?e \<noteq> 0x0D" "last ?e \<noteq> 0"
    using printable [OF last_in_set [OF ne]] by (auto simp: is_end_byte_def)
  have tr: "trim_record_end (hdr @ ?sep # ?e @ [0x0A]) = hdr @ ?sep # ?e"
    using ne last_ok(1) by (cases "?e" rule: rev_cases) (simp_all add: trim_record_end_def is_end_byte_def)
  have sep: "position (\<lambda>b. b = ?sep) (hdr @ ?sep # ?e) = Some (length hdr)"
    using header(1) by (intro position_append_first) auto
  have "\<forall>b \<in> set ?e. b \<noteq> 0x0A" using printable by force
  then have tw: "takeWhile (\<lambda>b. b \<noteq> 0x0A) ?e = ?e" by (simp only: takeWhile_eq_all_conv)
  have "trim_line_end ?e = ?e"
    using ne last_ok(2,3) by (cases "?e" rule: rev_cases) (simp_all add: trim_line_end_def)
  then have body1: "first_body_line ?e = ?e" by (simp only: first_body_line_def tw)
  have rec: "kmsg_record_parse (hdr @ ?sep # ?e) = Some \<lparr>timestamp_us = t, kmsg_text = ?e\<rparr>"
    using sep header utf8_valid_ascii [of hdr] body1 by (simp add: kmsg_record_parse_def)
  have "\<forall>b \<in> set bs. b < 0x80"
  proof
    fix b assume "b \<in> set bs"
    then have "b < 0x7F" using body(2) by blast
    then show "b < 0x80" by (rule less_trans) simp
  qed
  then have plain: "decode_kmsg_text ?e = text_of bs"
    by (simp add: decode_kmsg_text_def from_utf8_lossy_def decode_escape utf8_lossy_ascii)
  have low: "c \<notin> set (text_of bs)" if "(of_char c :: nat) < 32" for c
  proof
    assume "c \<in> set (text_of bs)"
    then obtain b where b: "b \<in> set bs" "c = char_of (unat b)" by (auto simp: text_of_def)
    have "32 \<le> unat b" using body(2) b(1) by (force simp: word_le_nat_alt)
    then show False using that b(2) unat_less_u8 [of b] by simp
  qed
  have ch: "newline \<notin> set (text_of bs)" "CHR 0x0D \<notin> set (text_of bs)" "CHR 0x00 \<notin> set (text_of bs)"
    by (simp_all add: low newline_def)
  have tb: "text_of bs \<noteq> []" using body(1) by (simp add: text_of_def)
  have "text_lines (text_of bs) = [text_of bs]"
    using ch tb by (simp add: text_lines_def split_on_no_sep Let_def)
  moreover have "trim_end_matches (\<lambda>c. c = CHR 0x0D \<or> c = CHR 0x00) (text_of bs) = text_of bs"
    using ch tb by (cases "text_of bs" rule: rev_cases) (auto simp: trim_end_matches_def)
  ultimately show ?thesis
    using tb by (simp add: record_lines_def Let_def tr rec plain)
qed

end
