(* ===== verification/FastbootEnv.thy ===== *)
theory FastbootEnv
  imports FastbootProofs FlashPartitions FlashSparse GadgetUms Kmsg BootFlow
begin

text \<open>
  The machine the fastboot handlers (\<open>fastboot/commands\<close>) work on. \<open>fb_world\<close> is what handlers and
  post-response actions change: the contents of the partition nodes and of the disks, the exported
  backings of the gadget, and the calls of \<open>reboot\<close> that were made. \<open>fb_env\<close> holds what they read
  and the results of system calls and of the Android boot image library, most of it given the
  clock of the server, so that no two reads need to agree. A partition node and the disk it lies on
  are separate entries of the world.
\<close>

section \<open>World and environment\<close>

record reboot_call =
  rb_command :: u32
  rb_argument :: "string option"

record fb_world =
  fw_parts :: "string \<Rightarrow> bytes"
  fw_disks :: contents
  fw_gadget :: gadget
  fw_reboots :: "reboot_call list"

text \<open>A Unix \<open>ExitStatus\<close>: the exit code, or the signal that killed the process.\<close>

record exit_status =
  es_code :: "nat option"
  es_signal :: "nat option"

text \<open>The Android boot image header, as far as the code looks into it (\<open>abootimg_oxide\<close>).\<close>

datatype header_versioned = VersionedV0 | VersionedV1 | VersionedV2 u32

datatype header_kind = HeaderV0 header_versioned "nat option" | HeaderV0VendorDt | HeaderV3

record boot_header =
  bh_kind :: header_kind
  bh_cmdline :: bytes
  bh_kernel_position :: nat
  bh_kernel_size :: u32
  bh_ramdisk_position :: nat
  bh_ramdisk_size :: u32
  bh_vendor_dt_position :: "nat option"
  bh_vendor_dt_size :: "u32 option"

datatype file_kind = RegularFile | BlockDevice | OtherFile

text \<open>
  \<open>fe_file_read\<close> is one \<open>read\<close> of the file opened last, empty at its end. \<open>fe_kmsg\<close> has the results of the
  reads of \<open>/dev/kmsg\<close>, up to the one after which the next would block. \<open>fe_qcdt\<close> and \<open>fe_dtbh\<close>
  parse a vendor device tree section and then select its only entry.
\<close>

record fb_env =
  fe_sysfs :: "nat \<Rightarrow> flash_sysfs"
  fe_mountinfo :: "nat \<Rightarrow> string io"
  fe_os :: "nat \<Rightarrow> string \<Rightarrow> os_calls"
  fe_discard :: "nat \<Rightarrow> string \<Rightarrow> discard_call"
  fe_system :: "nat \<Rightarrow> system"
  fe_cmdline :: kernel_command_line
  fe_serialno :: string
  fe_fdt_compatible :: "nat \<Rightarrow> bytes io"
  fe_file_open :: "nat \<Rightarrow> string \<Rightarrow> unit io"
  fe_file_read :: "nat \<Rightarrow> string \<Rightarrow> bytes io"
  fe_kmsg :: "nat \<Rightarrow> bytes io list io"
  fe_kexec_loaded :: "nat \<Rightarrow> string io"
  fe_metadata :: "nat \<Rightarrow> string \<Rightarrow> file_kind io"
  fe_canonicalize :: "nat \<Rightarrow> string \<Rightarrow> string io"
  fe_attribute :: "nat \<Rightarrow> attribute_write"
  fe_reboot_class :: "nat \<Rightarrow> string io io list io"
  fe_reboot :: "reboot_call \<Rightarrow> unit io"
  fe_shell :: "nat \<Rightarrow> string \<Rightarrow> (bytes \<times> exit_status \<times> bool) io"
  fe_boot_header :: "bytes \<Rightarrow> string + boot_header"
  fe_qcdt :: "bytes \<Rightarrow> string + (string + nat \<times> nat)"
  fe_dtbh :: "bytes \<Rightarrow> string + (string + nat \<times> nat)"
  fe_decoders :: decoders
  fe_payloads :: payload_files
  fe_kexec_load :: "nat \<Rightarrow> u64 \<Rightarrow> loaded_segment list \<Rightarrow> unit io"
  fe_trampoline :: trampoline_symbols
  fe_iomem :: "nat \<Rightarrow> string io"
  fe_firmware_fdt :: "nat \<Rightarrow> bytes io"

type_synonym 'a fb = "(fb_world, 'a) op"

type_synonym fb_result = "fb_world command_result"

section \<open>Operations\<close>

definition env_op :: "(nat \<Rightarrow> 'a) \<Rightarrow> 'a fb" where
  "env_op f = link_op (\<lambda>c. Inr (f c))"

text \<open>An operation on the world; what it changed stays changed if it fails.\<close>

definition world_op :: "(nat \<Rightarrow> (fb_world, 'a) sio) \<Rightarrow> 'a fb" where
  "world_op f s = (case f (clock s) (world s) of (w, r) \<Rightarrow> (s\<lparr>clock := Suc (clock s), world := w\<rparr>, r))"

text \<open>A step on the staged file and the node of a partition.\<close>

definition on_partition :: "string \<Rightarrow> bytes \<Rightarrow> (flash_io, 'a) sio \<Rightarrow> (fb_world, 'a) sio" where
  "on_partition path source m w =
     (case m \<lparr>fi_source = source, fi_spos = 0, fi_target = fw_parts w path, fi_tpos = 0\<rparr> of
        (f, r) \<Rightarrow> (w\<lparr>fw_parts := (fw_parts w)(path := fi_target f)\<rparr>, r))"

definition on_disks :: "(contents \<Rightarrow> contents \<times> 'a io) \<Rightarrow> (fb_world, 'a) sio" where
  "on_disks m w = (case m (fw_disks w) of (c, r) \<Rightarrow> (w\<lparr>fw_disks := c\<rparr>, r))"

definition on_gadget :: "(gadget, 'a) sio \<Rightarrow> (fb_world, 'a) sio" where
  "on_gadget m w = (case m (fw_gadget w) of (g, r) \<Rightarrow> (w\<lparr>fw_gadget := g\<rparr>, r))"

text \<open>The last step of most handlers.\<close>

definition okay_continue :: "link \<Rightarrow> string \<Rightarrow> fb_result fb" where
  "okay_continue lk m = bind_st (respond_okay lk m) (\<lambda>_. ret continue_result)"

primrec respond_infos :: "link \<Rightarrow> string list \<Rightarrow> unit fb" where
  "respond_infos lk [] = ret ()"
| "respond_infos lk (m # ms) = bind_st (respond_info lk m) (\<lambda>_. respond_infos lk ms)"

section \<open>Frames\<close>

text \<open>What a whole step on the world leaves alone: the packets sent and the staging area.\<close>

lemma world_op_keeps [simp, intro]:
  "infos.keeps (world_op f)" "packets.keeps (world_op f)" "area.keeps (world_op f)"
  by (simp_all add: infos.keeps_def packets.keeps_def area.keeps_def world_op_def infos_sent_def packets_sent_def
      staged_kept_def split: prod.split)

end
