(* ===== verification/FastbootFlash.thy ===== *)
theory FastbootFlash
  imports FastbootEnv
begin

text \<open>
  The handlers that name partitions and slots: \<open>flash:\<close> and \<open>erase:\<close> (\<open>commands/flash.rs\<close>),
  \<open>set_active:\<close> (\<open>commands/slots.rs\<close>) and \<open>getvar:\<close> (\<open>commands/getvar.rs\<close>).
\<close>

section \<open>Targets\<close>

definition FLASH_COMMAND_PREFIX :: string where "FLASH_COMMAND_PREFIX = ''flash:''"
definition ERASE_COMMAND_PREFIX :: string where "ERASE_COMMAND_PREFIX = ''erase:''"
definition SET_ACTIVE_PREFIX :: string where "SET_ACTIVE_PREFIX = ''set_active:''"
definition GETVAR_PREFIX :: string where "GETVAR_PREFIX = ''getvar:''"

definition ALLOWED_PARTITION_BASES :: "string list" where
  "ALLOWED_PARTITION_BASES = [''boot'', ''recovery'', ''vendor_boot'', ''init_boot'', ''dtbo'', ''dtb'', ''userdata'']"

definition parse_partition :: "string \<Rightarrow> string \<Rightarrow> string \<Rightarrow> string io" where
  "parse_partition command prefix label =
     bind_io (ok_or (IoError InvalidInput (''invalid '' @ label @ '' command'')) (strip_prefix prefix command)) (\<lambda>p.
     if p = [] then invalid_input (label @ '' partition is empty'') else Inr p)"

definition parse_flash_partition :: "string \<Rightarrow> string io" where
  "parse_flash_partition command = parse_partition command FLASH_COMMAND_PREFIX ''flash''"

definition parse_erase_partition :: "string \<Rightarrow> string io" where
  "parse_erase_partition command = parse_partition command ERASE_COMMAND_PREFIX ''erase''"

text \<open>
  \<open>to_lowercase\<close> is that of ASCII letters: the only other character whose lower case is an ASCII
  letter is the Kelvin sign, and no allowed name has a \<open>k\<close>, so the test has the same outcome.
\<close>

definition is_allowed_partition_name :: "string \<Rightarrow> bool" where
  "is_allowed_partition_name n \<longleftrightarrow>
     to_ascii_lowercase
       (case strip_suffix ''_a'' n of
          Some b \<Rightarrow> b
        | None \<Rightarrow> (case strip_suffix ''_b'' n of Some b \<Rightarrow> b | None \<Rightarrow> n)) \<in> set ALLOWED_PARTITION_BASES"

definition is_allowed_partition :: "string \<Rightarrow> flash_partition \<Rightarrow> bool" where
  "is_allowed_partition requested p \<longleftrightarrow>
     is_allowed_partition_name requested \<or>
     (case fp_partname p of Some n \<Rightarrow> is_allowed_partition_name n | None \<Rightarrow> False)"

definition mountinfo_devnum :: "string \<Rightarrow> string option" where
  "mountinfo_devnum line = (let ws = split_whitespace line in if 2 < length ws then Some (ws ! 2) else None)"

definition ensure_not_mounted :: "string io \<Rightarrow> flash_partition \<Rightarrow> unit io" where
  "ensure_not_mounted mountinfo p =
     bind_io mountinfo (\<lambda>contents.
     if \<exists>line \<in> set (text_lines contents). mountinfo_devnum line = Some (devnum p)
     then Inl (IoError ResourceBusy (fastboot_name p @ '' is mounted'')) else Inr ())"

definition validate_target :: "string io \<Rightarrow> string \<Rightarrow> flash_partition \<Rightarrow> string \<Rightarrow> unit io" where
  "validate_target mountinfo requested p verb =
     (if \<not> is_allowed_partition requested p then invalid_input (verb @ '' partition is not allowed'')
      else if read_only p then Inl (IoError PermissionDenied (fastboot_name p @ '' is read-only''))
      else ensure_not_mounted mountinfo p)"

definition writable_target :: "fb_env \<Rightarrow> string \<Rightarrow> string \<Rightarrow> flash_partition fb" where
  "writable_target env requested verb =
     bind_st (link_op (\<lambda>c. flash_find (fe_sysfs env c) requested)) (\<lambda>p.
     bind_st (link_op (\<lambda>c. validate_target (fe_mountinfo env c) requested p verb)) (\<lambda>_.
     ret p))"

section \<open>Flashing and erasing\<close>

definition partition_op :: "fb_env \<Rightarrow> string \<Rightarrow> bytes \<Rightarrow> (os_calls \<Rightarrow> (flash_io, 'a) sio) \<Rightarrow> 'a fb" where
  "partition_op env path source m = world_op (\<lambda>c. on_partition path source (m (fe_os env c path)))"

text \<open>The magic test only reads the staged file, which it leaves at its start.\<close>

definition staged_is_sparse :: "bytes \<Rightarrow> bool fb" where
  "staged_is_sparse source =
     link_op (\<lambda>_. snd (is_sparse_image \<lparr>fi_source = source, fi_spos = 0, fi_target = [], fi_tpos = 0\<rparr>))"

definition flash_sparse_staged :: "fb_env \<Rightarrow> link \<Rightarrow> flash_partition \<Rightarrow> bytes \<Rightarrow> nat \<Rightarrow> fb_result fb" where
  "flash_sparse_staged env lk p source sz =
     bind_st (respond_info lk (''flashing sparse image to '' @ fastboot_name p @ '' ('' @ dev_path p @ '')'')) (\<lambda>_.
     bind_st (partition_op env (dev_path p) source (\<lambda>os. flash_sparse os (size_bytes p) (of_nat sz))) (\<lambda>stats.
     bind_st (respond_info lk (''wrote '' @ decimal_of (unat (written_size stats)) @ '' data bytes from '' @
        decimal_of (unat (st_chunks stats)) @ '' sparse chunks; expanded size '' @ decimal_of (unat (st_expanded_size stats)) @ '' bytes'')) (\<lambda>_.
     okay_continue lk (''flashed '' @ fastboot_name p))))"

definition flash_raw_staged :: "fb_env \<Rightarrow> link \<Rightarrow> flash_partition \<Rightarrow> bytes \<Rightarrow> nat \<Rightarrow> fb_result fb" where
  "flash_raw_staged env lk p source sz =
     bind_st (respond_info lk (''flashing '' @ decimal_of sz @ '' bytes to '' @ fastboot_name p @ '' ('' @ dev_path p @ '')'')) (\<lambda>_.
     bind_st (partition_op env (dev_path p) source (\<lambda>os. flash_raw os sz)) (\<lambda>written.
     bind_st (respond_info lk (''wrote '' @ decimal_of written @ '' bytes'')) (\<lambda>_.
     okay_continue lk (''flashed '' @ fastboot_name p))))"

definition handle_flash :: "fb_env \<Rightarrow> link \<Rightarrow> fb_world handler" where
  "handle_flash env lk command =
     bind_st (lift_io (parse_flash_partition command)) (\<lambda>requested.
     bind_st (writable_target env requested ''flashing'') (\<lambda>p.
     bind_st staged_len (\<lambda>sz.
     if sz = 0 then throw (IoError InvalidInput ''staged flash payload is empty'')
     else
     bind_st (staged_file lk) (\<lambda>source.
     bind_st (staged_is_sparse source) (\<lambda>sparse.
     if sparse then flash_sparse_staged env lk p source sz
     else if unat (size_bytes p) < sz then throw (IoError InvalidInput (''staged payload is larger than '' @ fastboot_name p))
     else flash_raw_staged env lk p source sz)))))"

definition handle_erase :: "fb_env \<Rightarrow> link \<Rightarrow> fb_world handler" where
  "handle_erase env lk command =
     bind_st (lift_io (parse_erase_partition command)) (\<lambda>requested.
     bind_st (writable_target env requested ''erasing'') (\<lambda>p.
     bind_st (respond_info lk (''erasing '' @ fastboot_name p @ '' ('' @ dev_path p @ '')'')) (\<lambda>_.
     bind_st (world_op (\<lambda>c. on_partition (dev_path p) []
        (erase_partition (fe_os env c (dev_path p)) (fe_discard env c (dev_path p)) (unat (size_bytes p))))) (\<lambda>stats.
     bind_st (respond_info lk (''erased '' @ decimal_of (erased_size stats) @ '' bytes using '' @ erase_label (erase_method_of stats))) (\<lambda>_.
     okay_continue lk (''erased '' @ fastboot_name p))))))"

section \<open>Slots\<close>

definition parse_set_active :: "string \<Rightarrow> slot io" where
  "parse_set_active command =
     bind_io (ok_or (IoError InvalidInput ''invalid set_active command'') (strip_prefix SET_ACTIVE_PREFIX command)) (\<lambda>s.
     if s = [] then invalid_input ''set_active slot is empty''
     else ok_or (IoError InvalidInput ''invalid slot'') (slot_parse s))"

definition handle_set_active :: "fb_env \<Rightarrow> link \<Rightarrow> fb_world handler" where
  "handle_set_active env lk command =
     bind_st (lift_io (parse_set_active command)) (\<lambda>slot.
     bind_st (world_op (\<lambda>c. on_disks (set_active_slot (fe_system env c) slot))) (\<lambda>_.
     okay_continue lk (''slot '' @ slot_name slot @ '' is active'')))"

section \<open>Variables\<close>

definition FASTBOOT_VERSION :: string where "FASTBOOT_VERSION = ''0.4''"
definition PRODUCT :: string where "PRODUCT = ''pocketboot''"

definition parse_variable :: "string \<Rightarrow> string io" where
  "parse_variable command =
     bind_io (ok_or (IoError InvalidInput ''invalid getvar command'') (strip_prefix GETVAR_PREFIX command)) (\<lambda>v.
     if v = [] then invalid_input ''getvar variable is empty'' else Inr v)"

definition parse_fdt_base_compatible :: "bytes \<Rightarrow> string option" where
  "parse_fdt_base_compatible bs =
     Option.bind (find (\<lambda>v. v \<noteq> []) (split_on 0 bs)) (\<lambda>v. if utf8_valid v then Some (text_of v) else None)"

definition fixed_variables :: "fb_env \<Rightarrow> bytes io \<Rightarrow> (string \<times> string) list" where
  "fixed_variables env blob =
     [(''version'', FASTBOOT_VERSION), (''version-bootloader'', PRODUCT), (''product'', PRODUCT),
      (''serialno'', fe_serialno env), (''secure'', ''no''), (''unlocked'', ''yes''), (''is-userspace'', ''yes''),
      (''max-download-size'', ''0x'' @ hex_padded 8 (unat MAX_DOWNLOAD_SIZE))] @
     (case blob of
        Inr bs \<Rightarrow> (case parse_fdt_base_compatible bs of Some v \<Rightarrow> [(''compatible'', v)] | None \<Rightarrow> [])
      | Inl _ \<Rightarrow> [])"

definition fixed_value :: "fb_env \<Rightarrow> bytes io \<Rightarrow> string \<Rightarrow> string option" where
  "fixed_value env blob variable = map_of (fixed_variables env blob) variable"

definition slot_variable :: "string \<Rightarrow> string \<Rightarrow> slot option io" where
  "slot_variable variable prefix =
     (case strip_prefix prefix variable of
        None \<Rightarrow> Inr None
      | Some v \<Rightarrow>
          if v = [] then invalid_input ''slot variable slot is empty''
          else bind_io (ok_or (IoError InvalidInput ''invalid slot'') (slot_parse v)) (\<lambda>s. Inr (Some s)))"

definition slot_bool :: "bool option \<Rightarrow> string" where
  "slot_bool v = (case v of Some True \<Rightarrow> ''yes'' | Some False \<Rightarrow> ''no'' | None \<Rightarrow> [])"

definition current_slot_name :: "fb_env \<Rightarrow> system \<Rightarrow> contents \<Rightarrow> string io" where
  "current_slot_name env S c =
     bind_io (current_slot (fe_cmdline env) S c) (\<lambda>s. Inr (case s of Some s \<Rightarrow> slot_name s | None \<Rightarrow> []))"

definition slot_suffixes :: "nat \<Rightarrow> string" where
  "slot_suffixes n = (if 0 < n then ''_a,_b'' else [])"

definition slot_value :: "fb_env \<Rightarrow> string \<Rightarrow> system \<Rightarrow> contents \<Rightarrow> string option io" where
  "slot_value env variable S c =
     (if variable = ''slot-count'' then bind_io (slot_count S) (\<lambda>n. Inr (Some (decimal_of n)))
      else if variable = ''current-slot'' then bind_io (current_slot_name env S c) (\<lambda>n. Inr (Some n))
      else if variable = ''slot-suffixes'' then bind_io (slot_count S) (\<lambda>n. Inr (Some (slot_suffixes n)))
      else
        bind_io (slot_variable variable ''slot-successful:'') (\<lambda>ok.
        case ok of
          Some s \<Rightarrow> bind_io (is_slot_successful S c s) (\<lambda>v. Inr (Some (slot_bool v)))
        | None \<Rightarrow>
            bind_io (slot_variable variable ''slot-unbootable:'') (\<lambda>bad.
            case bad of
              Some s \<Rightarrow> bind_io (is_slot_unbootable S c s) (\<lambda>v. Inr (Some (slot_bool v)))
            | None \<Rightarrow> Inr None)))"

definition slot_variables :: "fb_env \<Rightarrow> system \<Rightarrow> contents \<Rightarrow> (string \<times> string) list io" where
  "slot_variables env S c =
     bind_io (slot_count S) (\<lambda>n.
     bind_io (current_slot_name env S c) (\<lambda>cur.
     bind_io (is_slot_successful S c A) (\<lambda>sa.
     bind_io (is_slot_successful S c B) (\<lambda>sb.
     bind_io (is_slot_unbootable S c A) (\<lambda>ua.
     bind_io (is_slot_unbootable S c B) (\<lambda>ub.
     Inr [(''slot-count'', decimal_of n), (''current-slot'', cur), (''slot-suffixes'', slot_suffixes n),
          (''slot-successful:a'', slot_bool sa), (''slot-successful:b'', slot_bool sb),
          (''slot-unbootable:a'', slot_bool ua), (''slot-unbootable:b'', slot_bool ub)]))))))"

definition find_partition_for_getvar :: "flash_sysfs \<Rightarrow> string \<Rightarrow> flash_partition option io" where
  "find_partition_for_getvar sysfs n =
     (if n = [] then invalid_input ''partition name is empty''
      else (case flash_find sysfs n of
              Inr p \<Rightarrow> Inr (Some p)
            | Inl (IoError k m) \<Rightarrow> if plain_kind k = NotFound then Inr None else Inl (IoError k m)
            | Inl RustPanic \<Rightarrow> Inl RustPanic))"

definition getvar_value :: "fb_env \<Rightarrow> string \<Rightarrow> string option fb" where
  "getvar_value env variable =
     bind_st (env_op (\<lambda>c. fixed_value env (fe_fdt_compatible env c) variable)) (\<lambda>fixed.
     if fixed \<noteq> None then ret fixed
     else
     bind_st (world_op (\<lambda>c. on_disks (\<lambda>disks. (disks, slot_value env variable (fe_system env c) disks)))) (\<lambda>slot.
     if slot \<noteq> None then ret slot
     else
       (case strip_prefix ''partition-size:'' variable of
          Some n \<Rightarrow>
            bind_st (link_op (\<lambda>c. find_partition_for_getvar (fe_sysfs env c) n)) (\<lambda>p.
            ret (map_option (\<lambda>p. ''0x'' @ hex_of (unat (size_bytes p))) p))
        | None \<Rightarrow>
          (case strip_prefix ''partition-type:'' variable of
             Some n \<Rightarrow>
               bind_st (link_op (\<lambda>c. find_partition_for_getvar (fe_sysfs env c) n)) (\<lambda>p.
               ret (map_option (\<lambda>_. ''raw'') p))
           | None \<Rightarrow>
             (case strip_prefix ''has-slot:'' variable of
                Some n \<Rightarrow>
                  if n = [] then throw (IoError InvalidInput ''partition name is empty'')
                  else bind_st (link_op (\<lambda>c. has_slot (fe_system env c) n)) (\<lambda>b. ret (Some (if b then ''yes'' else ''no'')))
              | None \<Rightarrow> ret None)))))"

definition variable_line :: "string \<times> string \<Rightarrow> string" where
  "variable_line v = fst v @ '': '' @ snd v"

definition partition_lines :: "flash_partition \<Rightarrow> string list" where
  "partition_lines p =
     [''partition-size:'' @ fastboot_name p @ '': 0x'' @ hex_of (unat (size_bytes p)),
      ''partition-type:'' @ fastboot_name p @ '': raw'']"

definition send_all :: "fb_env \<Rightarrow> link \<Rightarrow> unit fb" where
  "send_all env lk =
     bind_st (env_op (\<lambda>c. fixed_variables env (fe_fdt_compatible env c))) (\<lambda>fixed.
     bind_st (respond_infos lk (map variable_line fixed)) (\<lambda>_.
     bind_st (world_op (\<lambda>c. on_disks (\<lambda>disks. (disks, slot_variables env (fe_system env c) disks)))) (\<lambda>slots.
     bind_st (respond_infos lk (map variable_line slots)) (\<lambda>_.
     bind_st (link_op (\<lambda>c. flash_list (fe_sysfs env c))) (\<lambda>ps.
     respond_infos lk (concat (map partition_lines ps)))))))"

definition handle_getvar :: "fb_env \<Rightarrow> link \<Rightarrow> fb_world handler" where
  "handle_getvar env lk command =
     bind_st (lift_io (parse_variable command)) (\<lambda>variable.
     if variable = ''all'' then bind_st (send_all env lk) (\<lambda>_. okay_continue lk [])
     else bind_st (getvar_value env variable) (\<lambda>v. okay_continue lk (case v of Some v \<Rightarrow> v | None \<Rightarrow> [])))"

end
