(* ===== verification/FastbootStage.thy ===== *)
theory FastbootStage
  imports FastbootEnv
begin

text \<open>
  The handlers that stage data or use it: \<open>oem cat:\<close> (\<open>commands/cat.rs\<close>), \<open>oem dmesg\<close>
  (\<open>commands/dmesg.rs\<close>), \<open>oem shell:\<close> and \<open>oem shell-staged\<close> (\<open>commands/shell.rs\<close>), \<open>boot\<close> and
  \<open>oem kexec-load\<close> (\<open>commands/boot.rs\<close>). What a shell does and the decoding of boot images are in
  the environment.
\<close>

section \<open>cat\<close>

definition CAT_PREFIX :: string where "CAT_PREFIX = ''oem cat:''"
definition MAX_STAGED_SIZE :: nat where "MAX_STAGED_SIZE = 2 ^ 32 - 1"

definition cat_parse_path :: "string \<Rightarrow> string io" where
  "cat_parse_path command =
     bind_io (ok_or (IoError InvalidInput ''invalid cat command'') (strip_prefix CAT_PREFIX command)) (\<lambda>p.
     if p = [] then invalid_input ''cat path is empty'' else Inr p)"

text \<open>Every turn of the loop that goes on has read at least one byte, and the total is limited.\<close>

function copy_limited :: "fb_env \<Rightarrow> link \<Rightarrow> string \<Rightarrow> bytes \<Rightarrow> bytes fb" where
  "copy_limited env lk path memfile s =
     (case fe_file_read env (clock s) path of
        Inl e \<Rightarrow> (s\<lparr>clock := Suc (clock s)\<rparr>, Inl e)
      | Inr bs \<Rightarrow>
          if bs = [] then (s\<lparr>clock := Suc (clock s)\<rparr>, Inr memfile)
          else if MAX_STAGED_SIZE < length memfile + length bs
          then (s\<lparr>clock := Suc (clock s)\<rparr>, Inl (IoError InvalidInput ''cat file is too large''))
          else
            (case lk_memory lk (Suc (clock s)) of
               Inl e \<Rightarrow> (s\<lparr>clock := Suc (Suc (clock s))\<rparr>, Inl e)
             | Inr _ \<Rightarrow> copy_limited env lk path (memfile @ bs) (s\<lparr>clock := Suc (Suc (clock s))\<rparr>)))"
  by pat_completeness auto
termination
  by (relation "measure (\<lambda>(env, lk, path, memfile, s). Suc MAX_STAGED_SIZE - length memfile)") (auto simp flip: length_greater_0_conv)

declare copy_limited.simps [simp del]

definition cat_stage_file :: "fb_env \<Rightarrow> link \<Rightarrow> string \<Rightarrow> bytes fb" where
  "cat_stage_file env lk path =
     bind_st (link_op (\<lambda>c. map_err_prefix (''open '' @ path @ '': '') (fe_file_open env c path))) (\<lambda>_.
     bind_st (link_op (lk_memory lk)) (\<lambda>_.
     bind_st (attempt (copy_limited env lk path [])) (\<lambda>r.
     bind_st (lift_io (map_err_prefix (''read '' @ path @ '': '') r)) (\<lambda>memfile.
     bind_st (link_op (lk_memory lk)) (\<lambda>_.
     ret memfile)))))"

definition handle_cat :: "fb_env \<Rightarrow> link \<Rightarrow> fb_world handler" where
  "handle_cat env lk command =
     bind_st clear_staged (\<lambda>_.
     bind_st (lift_io (cat_parse_path command)) (\<lambda>path.
     bind_st (cat_stage_file env lk path) (\<lambda>memfile.
     bind_st (stage_file (''cat:'' @ path) memfile (of_nat (length memfile))) (\<lambda>_.
     bind_st (respond_info lk (path @ '' staged ('' @ decimal_of (length memfile) @ '' bytes)'')) (\<lambda>_.
     bind_st (respond_info lk ''run fastboot get_staged /dev/stdout to view'') (\<lambda>_.
     okay_continue lk []))))))"

section \<open>dmesg\<close>

definition DMESG_CAPTURE_MAX_BYTES :: nat where "DMESG_CAPTURE_MAX_BYTES = 4 * 1024 * 1024"
definition DMESG_CAPTURE_MAX_RECORDS :: nat where "DMESG_CAPTURE_MAX_RECORDS = 32 * 1024"

record capture_limits =
  limit_bytes :: nat
  limit_records :: nat

definition CAPTURE_LIMITS :: capture_limits where
  "CAPTURE_LIMITS = \<lparr>limit_bytes = DMESG_CAPTURE_MAX_BYTES, limit_records = DMESG_CAPTURE_MAX_RECORDS\<rparr>"

record dmesg_capture =
  dc_data :: bytes
  dc_records :: nat
  dc_overwritten :: bool

definition append_line :: "bytes \<Rightarrow> string \<Rightarrow> bytes" where
  "append_line out line = out @ bytes_of line @ [0x0A]"

definition append_limited :: "bytes \<Rightarrow> bytes \<Rightarrow> nat \<Rightarrow> bytes io" where
  "append_limited out new limit =
     bind_io (ok_or (IoError InvalidData ''dmesg capture size overflow'') (checked_add_usize (length out) (length new))) (\<lambda>new_len.
     if limit < new_len then invalid_data ''dmesg capture exceeds byte limit'' else Inr (out @ new))"

definition append_line_limited :: "bytes \<Rightarrow> string \<Rightarrow> nat \<Rightarrow> bytes io" where
  "append_line_limited out line limit = append_limited out (append_line [] line) limit"

text \<open>\<open>for_each_record_line\<close> with an \<open>emit\<close> that appends the line.\<close>

definition append_kmsg_record :: "bytes \<Rightarrow> bytes \<Rightarrow> bytes io" where
  "append_kmsg_record out raw =
     (case for_each_record_line raw (\<lambda>line. modify_st (\<lambda>out. append_line out line)) out of (out, r) \<Rightarrow> bind_io r (\<lambda>_. Inr out))"

definition OVERWRITTEN_LINE :: string where "OVERWRITTEN_LINE = ''pocketboot: kmsg records were overwritten''"
definition EMPTY_LINE :: string where "EMPTY_LINE = ''pocketboot: no dmesg records captured''"

text \<open>The loop of \<open>capture_dmesg_from\<close>: a read of no bytes and one that would block end it.\<close>

fun capture_loop :: "capture_limits \<Rightarrow> dmesg_capture \<Rightarrow> bytes io list \<Rightarrow> dmesg_capture io" where
  "capture_loop limits cap [] = Inr cap"
| "capture_loop limits cap (Inr bs # rs) =
     (if bs = [] then Inr cap
      else if limit_records limits \<le> dc_records cap then invalid_data ''dmesg capture exceeds record limit''
      else
        bind_io (append_kmsg_record [] bs) (\<lambda>formatted.
        bind_io (append_limited (dc_data cap) formatted (limit_bytes limits)) (\<lambda>out.
        capture_loop limits (cap\<lparr>dc_data := out, dc_records := dc_records cap + 1\<rparr>) rs)))"
| "capture_loop limits cap (Inl RustPanic # rs) = Inl RustPanic"
| "capture_loop limits cap (Inl (IoError k m) # rs) =
     (if plain_kind k = Interrupted then capture_loop limits cap rs
      else if plain_kind k = WouldBlock then Inr cap
      else if k = OsErrno 32 then
        bind_io (append_line_limited (dc_data cap) OVERWRITTEN_LINE (limit_bytes limits)) (\<lambda>out.
        capture_loop limits (cap\<lparr>dc_data := out, dc_overwritten := True\<rparr>) rs)
      else Inl (IoError k m))"

definition capture_dmesg_from :: "bytes io list \<Rightarrow> capture_limits \<Rightarrow> dmesg_capture io" where
  "capture_dmesg_from kmsg limits =
     bind_io (capture_loop limits \<lparr>dc_data = [], dc_records = 0, dc_overwritten = False\<rparr> kmsg) (\<lambda>cap.
     if dc_data cap = [] then
       bind_io (append_line_limited (dc_data cap) EMPTY_LINE (limit_bytes limits)) (\<lambda>out. Inr (cap\<lparr>dc_data := out\<rparr>))
     else Inr cap)"

definition capture_dmesg :: "fb_env \<Rightarrow> nat \<Rightarrow> dmesg_capture io" where
  "capture_dmesg env c = bind_io (fe_kmsg env c) (\<lambda>kmsg. capture_dmesg_from kmsg CAPTURE_LIMITS)"

definition handle_dmesg :: "fb_env \<Rightarrow> link \<Rightarrow> fb_world handler" where
  "handle_dmesg env lk command =
     bind_st clear_staged (\<lambda>_.
     bind_st (link_op (capture_dmesg env)) (\<lambda>cap.
     bind_st (stage ''dmesg'' (dc_data cap)) (\<lambda>_.
     bind_st (respond_info lk (decimal_of (dc_records cap) @ '' dmesg records staged ('' @ decimal_of (length (dc_data cap)) @ '' bytes)'')) (\<lambda>_.
     bind_st (if dc_overwritten cap then respond_info lk ''some dmesg records were overwritten before capture'' else ret ()) (\<lambda>_.
     bind_st (respond_info lk ''run fastboot get_staged /dev/stdout to view'') (\<lambda>_.
     okay_continue lk []))))))"

section \<open>shell\<close>

definition SHELL_PREFIX :: string where "SHELL_PREFIX = ''oem shell:''"
definition STAGED_SCRIPT_MAX :: nat where "STAGED_SCRIPT_MAX = 64 * 1024"
definition OUTPUT_LIMIT :: nat where "OUTPUT_LIMIT = 4 * 1024 * 1024"
definition SIGXFSZ :: nat where "SIGXFSZ = 25"

record shell_output =
  so_file :: bytes
  so_size :: nat
  so_status :: exit_status
  so_timed_out :: bool

definition shell_success :: "shell_output \<Rightarrow> bool" where
  "shell_success out \<longleftrightarrow> \<not> so_timed_out out \<and> es_code (so_status out) = Some 0"

definition shell_description :: "shell_output \<Rightarrow> string" where
  "shell_description out =
     (if so_timed_out out then ''timed out''
      else if es_signal (so_status out) = Some SIGXFSZ then ''output too large''
      else (case es_code (so_status out) of
              Some code \<Rightarrow> ''exited '' @ decimal_of code
            | None \<Rightarrow> (case es_signal (so_status out) of
                         Some signal \<Rightarrow> ''killed by signal '' @ decimal_of signal
                       | None \<Rightarrow> ''ended without exit status'')))"

definition shell_parse_command :: "string \<Rightarrow> string io" where
  "shell_parse_command command =
     bind_io (ok_or (IoError InvalidInput ''invalid shell command'') (strip_prefix SHELL_PREFIX command)) (\<lambda>c.
     if trim c = [] then invalid_input ''shell command is empty'' else Inr (trim c))"

definition read_staged_command :: "link \<Rightarrow> string fb" where
  "read_staged_command lk =
     bind_st (staged_file lk) (\<lambda>memfile.
     let bs = take (STAGED_SCRIPT_MAX + 1) memfile in
     if \<not> utf8_valid bs then throw (IoError InvalidData ''stream did not contain valid UTF-8'')
     else if STAGED_SCRIPT_MAX < length bs then throw (IoError InvalidInput ''staged shell command is too large'')
     else if trim (text_of bs) = [] then throw (IoError InvalidInput ''staged shell command is empty'')
     else ret (text_of bs))"

text \<open>
  What the command prints and how it ends are the environment's. The file size limit set by the wrapper
  (\<open>ulimit -f\<close>) cuts the output; a command stopped at its deadline gets a last line.
\<close>

definition run_shell :: "fb_env \<Rightarrow> string \<Rightarrow> shell_output fb" where
  "run_shell env command =
     bind_st (link_op (\<lambda>c. fe_shell env c command)) (\<lambda>(out, status, timed_out).
     let kept = take OUTPUT_LIMIT out;
         memfile = (if timed_out then kept @ bytes_of (newline # ''pocketboot: shell command timed out'' @ [newline]) else kept)
     in ret \<lparr>so_file = memfile, so_size = length memfile, so_status = status, so_timed_out = timed_out\<rparr>)"

definition run_and_stage :: "fb_env \<Rightarrow> link \<Rightarrow> string \<Rightarrow> fb_result fb" where
  "run_and_stage env lk command =
     bind_st (run_shell env command) (\<lambda>out.
     bind_st (stage_file ''shell-output'' (so_file out) (of_nat (so_size out))) (\<lambda>_.
     bind_st (respond_info lk (''shell '' @ shell_description out @ ''; '' @ decimal_of (so_size out) @ '' bytes staged'')) (\<lambda>_.
     bind_st (respond_info lk ''run fastboot get_staged /dev/stdout to view'') (\<lambda>_.
     bind_st (if shell_success out then respond_okay lk (shell_description out) else respond_fail lk (shell_description out)) (\<lambda>_.
     ret continue_result)))))"

definition handle_shell :: "fb_env \<Rightarrow> link \<Rightarrow> fb_world handler" where
  "handle_shell env lk command =
     bind_st clear_staged (\<lambda>_.
     bind_st (lift_io (shell_parse_command command)) (\<lambda>c.
     run_and_stage env lk c))"

definition handle_shell_staged :: "fb_env \<Rightarrow> link \<Rightarrow> fb_world handler" where
  "handle_shell_staged env lk command =
     bind_st (attempt (read_staged_command lk)) (\<lambda>r.
     bind_st clear_staged (\<lambda>_.
     bind_st (lift_io r) (\<lambda>c.
     run_and_stage env lk c)))"

section \<open>boot\<close>

definition KEXEC_REBOOT :: u32 where "KEXEC_REBOOT = 0x45584543"

definition android_cmdline :: "bytes \<Rightarrow> string io" where
  "android_cmdline bs =
     (let text = takeWhile (\<lambda>b. b \<noteq> 0) bs in
      if utf8_valid text then Inr (trim_end (text_of text)) else invalid_data ''boot image cmdline is not UTF-8'')"

text \<open>A section is copied to a memory file; only a complete copy is used.\<close>

definition extract_section :: "payload_files \<Rightarrow> bytes \<Rightarrow> string \<Rightarrow> nat \<Rightarrow> u32 \<Rightarrow> bytes io io" where
  "extract_section pf boot_img n pos sz =
     (let copied = take (unat sz) (drop pos boot_img) in
      bind_io (pf_create pf) (\<lambda>_.
      if length copied \<noteq> unat sz then Inl (IoError UnexpectedEof (''boot image '' @ n @ '' section is truncated''))
      else pf_store pf copied))"

definition payload_from_slice :: "payload_files \<Rightarrow> bytes \<Rightarrow> bytes io io" where
  "payload_from_slice pf d = bind_io (pf_create pf) (\<lambda>_. pf_store pf d)"

definition boot_dtb_section :: "boot_header \<Rightarrow> (nat \<times> u32) option" where
  "boot_dtb_section h =
     (case bh_kind h of
        HeaderV0 v dtb_position \<Rightarrow>
          (case v of VersionedV2 dtb_size \<Rightarrow> map_option (\<lambda>p. (p, dtb_size)) dtb_position | _ \<Rightarrow> None)
      | HeaderV0VendorDt \<Rightarrow> None
      | HeaderV3 \<Rightarrow> None)"

definition single_entry :: "string \<Rightarrow> string + (string + nat \<times> nat) \<Rightarrow> (nat \<times> nat) io" where
  "single_entry label r =
     (case r of
        Inl _ \<Rightarrow> invalid_data (''parse boot image '' @ label @ '' vendor-dt'')
      | Inr (Inl _) \<Rightarrow> invalid_data (''select boot image '' @ label @ '' vendor-dt entry'')
      | Inr (Inr rng) \<Rightarrow> Inr rng)"

definition extract_vendor_dt_dtb :: "fb_env \<Rightarrow> bytes \<Rightarrow> boot_header \<Rightarrow> bytes io option io" where
  "extract_vendor_dt_dtb env boot_img h =
     (case bh_vendor_dt_position h of
        None \<Rightarrow> Inr None
      | Some pos \<Rightarrow>
          bind_io (ok_or (IoError InvalidData ''boot image vendor-dt section has no size'') (bh_vendor_dt_size h)) (\<lambda>sz.
          let vendor_dt = take (unat sz) (drop pos boot_img) in
          if length vendor_dt \<noteq> unat sz then Inl (IoError UnexpectedEof ''boot image vendor-dt section is truncated'')
          else
          bind_io (if starts_with (bytes_of ''QCDT'') vendor_dt then single_entry ''QCDT'' (fe_qcdt env vendor_dt)
                   else if starts_with (bytes_of ''DTBH'') vendor_dt then single_entry ''DTBH'' (fe_dtbh env vendor_dt)
                   else invalid_data ''unsupported boot image vendor-dt magic'') (\<lambda>rng.
          bind_io (index_slice vendor_dt (fst rng) (snd rng)) (\<lambda>dtb.
          bind_io (payload_from_slice (fe_payloads env) dtb) (\<lambda>f. Inr (Some f))))))"

definition extract_dtb :: "fb_env \<Rightarrow> bytes \<Rightarrow> boot_header \<Rightarrow> bytes io option io" where
  "extract_dtb env boot_img h =
     (case boot_dtb_section h of
        Some (pos, sz) \<Rightarrow>
          if sz = 0 then Inr None
          else bind_io (extract_section (fe_payloads env) boot_img ''boot-dtb'' pos sz) (\<lambda>f. Inr (Some f))
      | None \<Rightarrow> extract_vendor_dt_dtb env boot_img h)"

definition boot_image_of :: "fb_env \<Rightarrow> bytes \<Rightarrow> kexec_image io" where
  "boot_image_of env boot_img =
     bind_io (case fe_boot_header env boot_img of Inr h \<Rightarrow> Inr h | Inl _ \<Rightarrow> invalid_data ''parse Android boot image'') (\<lambda>h.
     if bh_kernel_size h = 0 then invalid_data ''boot image has no kernel''
     else
     bind_io (android_cmdline (bh_cmdline h)) (\<lambda>cmdline.
     bind_io (extract_section (fe_payloads env) boot_img ''boot-kernel'' (bh_kernel_position h) (bh_kernel_size h)) (\<lambda>k.
     bind_io (prepare_kernel_payload (fe_decoders env) (fe_payloads env) k) (\<lambda>kern.
     bind_io (if bh_ramdisk_size h = 0 then Inr None
              else bind_io (extract_section (fe_payloads env) boot_img ''boot-ramdisk'' (bh_ramdisk_position h) (bh_ramdisk_size h))
                     (\<lambda>f. Inr (Some f))) (\<lambda>initrd.
     bind_io (extract_dtb env boot_img h) (\<lambda>dtb.
     kexec_image_new kern initrd dtb cmdline))))))"

definition prepare_staged_boot_image :: "fb_env \<Rightarrow> link \<Rightarrow> kexec_image fb" where
  "prepare_staged_boot_image env lk =
     bind_st (staged_file lk) (\<lambda>boot_img. lift_io (boot_image_of env boot_img))"

definition load_image :: "fb_env \<Rightarrow> kexec_image \<Rightarrow> unit fb" where
  "load_image env img =
     link_op (\<lambda>c. kexec_image_load (fe_kexec_load env c) (fe_trampoline env) (fe_iomem env c) (fe_firmware_fdt env c) img)"

text \<open>
  \<open>reboot\<close> with a command and its argument: the call goes into the log of the world, and if it
  returns at all that is an error.
\<close>

definition reboot_with :: "fb_env \<Rightarrow> u32 \<Rightarrow> string option \<Rightarrow> string \<Rightarrow> fb_world action" where
  "reboot_with env cmd arg message w =
     (let call = \<lparr>rb_command = cmd, rb_argument = arg\<rparr> in
      (w\<lparr>fw_reboots := fw_reboots w @ [call]\<rparr>,
       bind_io (fe_reboot env call) (\<lambda>_. Inl (IoError OtherError message))))"

definition exec_loaded_image :: "fb_env \<Rightarrow> fb_world action" where
  "exec_loaded_image env = reboot_with env KEXEC_REBOOT None ''reboot(LINUX_REBOOT_CMD_KEXEC) returned unexpectedly''"

definition handle_boot :: "fb_env \<Rightarrow> link \<Rightarrow> fb_world handler" where
  "handle_boot env lk command =
     bind_st (prepare_staged_boot_image env lk) (\<lambda>img.
     bind_st (load_image env img) (\<lambda>_.
     okay_then_exit lk ''booting'' (exec_loaded_image env)))"

definition handle_kexec_load :: "fb_env \<Rightarrow> link \<Rightarrow> fb_world handler" where
  "handle_kexec_load env lk command =
     bind_st (prepare_staged_boot_image env lk) (\<lambda>img.
     bind_st (load_image env img) (\<lambda>_.
     okay_continue lk ''loaded''))"

definition handle_kexec_status :: "fb_env \<Rightarrow> link \<Rightarrow> fb_world handler" where
  "handle_kexec_status env lk command =
     bind_st (link_op (fe_kexec_loaded env)) (\<lambda>status. okay_continue lk (trim status))"

end
