(* ===== verification/FastbootTable.thy ===== *)
theory FastbootTable
  imports FastbootFlash FastbootStage
begin

text \<open>
  The remaining handlers, \<open>reboot\<close> with \<open>src/power.rs\<close> and the mass-storage commands
  (\<open>commands/ums.rs\<close>), and the table \<open>fastboot_commands\<close> the loader serves (\<open>commands/mod.rs\<close>,
  \<open>main.rs\<close>). Then the table is shown to meet the contracts \<open>command_table\<close> and \<open>world_frame\<close>
  of the server, which gives what holds of every command.
\<close>

section \<open>Rebooting\<close>

definition LINUX_REBOOT_CMD_RESTART :: u32 where "LINUX_REBOOT_CMD_RESTART = 0x01234567"
definition LINUX_REBOOT_CMD_RESTART2 :: u32 where "LINUX_REBOOT_CMD_RESTART2 = 0xa1b2c3d4"
definition LINUX_REBOOT_CMD_POWER_OFF :: u32 where "LINUX_REBOOT_CMD_POWER_OFF = 0x4321fedc"
definition BOOTLOADER_REBOOT_MODE :: string where "BOOTLOADER_REBOOT_MODE = ''bootloader''"

definition reboot_command :: "fb_env \<Rightarrow> u32 \<Rightarrow> fb_world action" where
  "reboot_command env cmd = reboot_with env cmd None ''reboot returned unexpectedly''"

definition power_reboot :: "fb_env \<Rightarrow> fb_world action" where
  "power_reboot env = reboot_command env LINUX_REBOOT_CMD_RESTART"

definition power_off :: "fb_env \<Rightarrow> fb_world action" where
  "power_off env = reboot_command env LINUX_REBOOT_CMD_POWER_OFF"

definition reboot_command_with_argument :: "fb_env \<Rightarrow> u32 \<Rightarrow> string \<Rightarrow> fb_world action" where
  "reboot_command_with_argument env cmd arg w =
     (if 0 \<in> set (bytes_of arg) then (w, Inl (IoError InvalidInput ''reboot argument contains NUL''))
      else reboot_with env cmd (Some arg) ''reboot returned unexpectedly'' w)"

definition reboot_to_bootloader :: "fb_env \<Rightarrow> fb_world action" where
  "reboot_to_bootloader env = reboot_command_with_argument env LINUX_REBOOT_CMD_RESTART2 BOOTLOADER_REBOOT_MODE"

text \<open>\<open>split_ascii_whitespace\<close>.\<close>

definition is_ascii_space :: "char \<Rightarrow> bool" where
  "is_ascii_space c \<longleftrightarrow> (of_char c :: nat) \<in> {9, 10, 12, 13, 32}"

definition reboot_modes_contain :: "string \<Rightarrow> string \<Rightarrow> bool" where
  "reboot_modes_contain modes expected \<longleftrightarrow> expected \<in> set (filter (\<lambda>w. w \<noteq> []) (split_by is_ascii_space modes))"

text \<open>The entries of the class with what reading \<open>reboot_modes\<close> gives; the first read error is reported if no driver has the mode.\<close>

fun scan_reboot_modes :: "string \<Rightarrow> io_error option \<Rightarrow> string io io list \<Rightarrow> unit io" where
  "scan_reboot_modes mode first [] =
     (case first of Some e \<Rightarrow> Inl e | None \<Rightarrow> Inl (IoError Unsupported ''reboot mode is not advertised''))"
| "scan_reboot_modes mode first (Inl e # es) = map_err_prefix ''read reboot-mode entry: '' (Inl e)"
| "scan_reboot_modes mode first (Inr (Inr modes) # es) =
     (if reboot_modes_contain modes mode then Inr () else scan_reboot_modes mode first es)"
| "scan_reboot_modes mode first (Inr (Inl e) # es) =
     scan_reboot_modes mode
       (case first of
          None \<Rightarrow> (case map_err_prefix ''read reboot_modes: '' (Inl e :: unit io) of Inl e' \<Rightarrow> Some e' | Inr _ \<Rightarrow> None)
        | Some f \<Rightarrow> Some f) es"

definition require_reboot_mode :: "string io io list io \<Rightarrow> string \<Rightarrow> unit io" where
  "require_reboot_mode drivers mode =
     bind_io (map_err_prefix ''read reboot-mode class: '' drivers) (scan_reboot_modes mode None)"

definition bootloader_reboot_action :: "fb_env \<Rightarrow> fb_world action fb" where
  "bootloader_reboot_action env =
     bind_st (link_op (\<lambda>c. require_reboot_mode (fe_reboot_class env c) BOOTLOADER_REBOOT_MODE)) (\<lambda>_.
     ret (reboot_to_bootloader env))"

definition handle_reboot :: "fb_env \<Rightarrow> link \<Rightarrow> fb_world handler" where
  "handle_reboot env lk command = okay_then_exit lk ''rebooting'' (power_reboot env)"

definition handle_bootloader :: "fb_env \<Rightarrow> link \<Rightarrow> fb_world handler" where
  "handle_bootloader env lk command =
     bind_st (bootloader_reboot_action env) (\<lambda>a. okay_then_exit lk ''rebooting to bootloader'' a)"

section \<open>Mass storage\<close>

definition UMS_START_PREFIX :: string where "UMS_START_PREFIX = ''oem ums-start:''"
definition UMS_STOP_PREFIX :: string where "UMS_STOP_PREFIX = ''oem ums-stop:''"

definition parse_backing :: "string \<Rightarrow> string \<Rightarrow> string io" where
  "parse_backing command prefix =
     bind_io (ok_or (IoError InvalidInput ''invalid UMS command'') (strip_prefix prefix command)) (\<lambda>b.
     if b = [] then invalid_input ''UMS backing path is empty'' else Inr b)"

definition usable_backing_path :: "fb_env \<Rightarrow> string \<Rightarrow> string fb" where
  "usable_backing_path env path =
     bind_st (link_op (\<lambda>c. fe_metadata env c path)) (\<lambda>k.
     if k = OtherFile then throw (IoError InvalidInput (''UMS backing path '' @ path @ '' is not a regular file or block device''))
     else link_op (\<lambda>c. map_err_prefix (''resolve UMS backing path '' @ path @ '': '') (fe_canonicalize env c path)))"

definition is_not_found :: "io_error \<Rightarrow> bool" where
  "is_not_found e = (case e of IoError k _ \<Rightarrow> plain_kind k = NotFound | RustPanic \<Rightarrow> False)"

definition resolve_backing_path :: "fb_env \<Rightarrow> string \<Rightarrow> string \<Rightarrow> string fb" where
  "resolve_backing_path env requested dev_root =
     bind_st (attempt (usable_backing_path env requested)) (\<lambda>r.
     case r of
       Inr p \<Rightarrow> ret p
     | Inl e \<Rightarrow>
         if is_not_found e \<and> \<not> is_absolute requested then
           bind_st (attempt (usable_backing_path env (path_join dev_root requested))) (\<lambda>r.
           case r of
             Inr p \<Rightarrow> ret p
           | Inl e \<Rightarrow>
               if is_not_found e then throw (IoError NotFound ''UMS backing path not found directly or under /dev'') else throw e)
         else throw e)"

definition stop_failure_message :: "string \<Rightarrow> io_error \<Rightarrow> string" where
  "stop_failure_message backing e =
     (if (case e of IoError k _ \<Rightarrow> k = OsErrno 16 | RustPanic \<Rightarrow> False)
      then ''UMS stop failed for '' @ backing @ '': unmount/eject on host first''
      else ''UMS stop failed for '' @ backing @ '': '' @ error_text e)"

definition fail_continue :: "link \<Rightarrow> io_error \<Rightarrow> string \<Rightarrow> fb_result fb" where
  "fail_continue lk e m = (if e = RustPanic then throw e else bind_st (respond_fail lk m) (\<lambda>_. ret continue_result))"

definition handle_ums_start :: "fb_env \<Rightarrow> link \<Rightarrow> fb_world handler" where
  "handle_ums_start env lk command =
     bind_st (lift_io (parse_backing command UMS_START_PREFIX)) (\<lambda>requested.
     bind_st (resolve_backing_path env requested ''/dev'') (\<lambda>backing.
     bind_st (attempt (world_op (\<lambda>c. on_gadget (start_mass_storage (fe_attribute env c) backing)))) (\<lambda>r.
     case r of
       Inr (UmsStarted lun) \<Rightarrow> okay_continue lk (''UMS started for '' @ backing @ '' on LUN '' @ decimal_of lun)
     | Inr (UmsAlreadyStarted lun) \<Rightarrow> okay_continue lk (''UMS already started for '' @ backing @ '' on LUN '' @ decimal_of lun)
     | Inl e \<Rightarrow> fail_continue lk e (''UMS start failed: '' @ error_text e))))"

definition handle_ums_stop :: "fb_env \<Rightarrow> link \<Rightarrow> fb_world handler" where
  "handle_ums_stop env lk command =
     bind_st (lift_io (parse_backing command UMS_STOP_PREFIX)) (\<lambda>requested.
     bind_st (resolve_backing_path env requested ''/dev'') (\<lambda>backing.
     bind_st (attempt (world_op (\<lambda>c. on_gadget (stop_mass_storage (fe_attribute env c) backing)))) (\<lambda>r.
     case r of
       Inr lun \<Rightarrow> okay_continue lk (''UMS stopped for '' @ backing @ '' from LUN '' @ decimal_of lun)
     | Inl e \<Rightarrow> fail_continue lk e (stop_failure_message backing e))))"

section \<open>The table\<close>

definition boot_commands :: "fb_env \<Rightarrow> link \<Rightarrow> fb_world command list" where
  "boot_commands env lk =
     [command_exact ''boot'' (handle_boot env lk),
      command_exact ''oem kexec-load'' (handle_kexec_load env lk),
      command_exact ''oem kexec-status'' (handle_kexec_status env lk)]"

definition diagnostic_commands :: "fb_env \<Rightarrow> link \<Rightarrow> fb_world command list" where
  "diagnostic_commands env lk =
     [command_prefix ''oem cat:'' (handle_cat env lk),
      command_exact ''oem dmesg'' (handle_dmesg env lk),
      command_prefix ''oem shell:'' (handle_shell env lk),
      command_exact ''oem shell-staged'' (handle_shell_staged env lk)]"

definition getvar_commands :: "fb_env \<Rightarrow> link \<Rightarrow> fb_world command list" where
  "getvar_commands env lk = [command_prefix GETVAR_PREFIX (handle_getvar env lk)]"

definition flash_commands :: "fb_env \<Rightarrow> link \<Rightarrow> fb_world command list" where
  "flash_commands env lk =
     [command_prefix ''flash:'' (handle_flash env lk), command_prefix ''erase:'' (handle_erase env lk)]"

definition slot_commands :: "fb_env \<Rightarrow> link \<Rightarrow> fb_world command list" where
  "slot_commands env lk = [command_prefix SET_ACTIVE_PREFIX (handle_set_active env lk)]"

definition reboot_commands :: "fb_env \<Rightarrow> link \<Rightarrow> fb_world command list" where
  "reboot_commands env lk =
     [command_exact ''reboot'' (handle_reboot env lk), command_exact ''reboot-bootloader'' (handle_bootloader env lk)]"

definition ums_commands :: "fb_env \<Rightarrow> link \<Rightarrow> fb_world command list" where
  "ums_commands env lk =
     [command_prefix UMS_START_PREFIX (handle_ums_start env lk), command_prefix UMS_STOP_PREFIX (handle_ums_stop env lk)]"

definition fastboot_commands :: "fb_env \<Rightarrow> link \<Rightarrow> fb_world command list" where
  "fastboot_commands env lk =
     boot_commands env lk @ getvar_commands env lk @ flash_commands env lk @ slot_commands env lk @
     diagnostic_commands env lk @ ums_commands env lk @ reboot_commands env lk"

text \<open>Every handler of the table.\<close>

definition handlers :: "fb_env \<Rightarrow> link \<Rightarrow> fb_world handler set" where
  "handlers env lk =
     {handle_boot env lk, handle_kexec_load env lk, handle_kexec_status env lk, handle_getvar env lk, handle_flash env lk,
      handle_erase env lk, handle_set_active env lk, handle_cat env lk, handle_dmesg env lk, handle_shell env lk,
      handle_shell_staged env lk, handle_ums_start env lk, handle_ums_stop env lk, handle_reboot env lk, handle_bootloader env lk}"

lemma commands_handlers: "c \<in> set (fastboot_commands env lk) \<Longrightarrow> cmd_handler c \<in> handlers env lk"
  by (auto simp: fastboot_commands_def boot_commands_def getvar_commands_def flash_commands_def slot_commands_def
      diagnostic_commands_def ums_commands_def reboot_commands_def command_exact_def command_prefix_def handlers_def)

end
