(* ===== verification/FastbootContract.thy ===== *)
theory FastbootContract
  imports FastbootTable
begin

text \<open>
  The command table of the loader meets the contracts of the server: every handler answers with one
  final packet, sends nothing longer than a packet, keeps the staging area consistent and writes
  only to partitions that passed the checks. The facts of the server follow for this table.
\<close>

section \<open>Operations that only report\<close>

lemma env_op_keeps [simp, intro]: "infos.keeps (env_op f)" "packets.keeps (env_op f)" "quiet.keeps (env_op f)" "area.keeps (env_op f)"
  unfolding env_op_def by (auto intro: quiet_area simp: silent_infos infos_keep_packets)

lemma link_op_keeps [simp, intro]: "infos.keeps (link_op f)" "packets.keeps (link_op f)" "area.keeps (link_op f)"
  by (auto intro: quiet_area simp: silent_infos infos_keep_packets)

lemma staging_infos [simp, intro]: "infos.keeps clear_staged" "infos.keeps (stage n d)" "infos.keeps (stage_file n d sz)"
  by (simp_all add: silent_infos)

lemma respond_area [simp, intro]:
  "area.keeps (respond_info lk m)" "area.keeps (respond_okay lk m)" "area.keeps (respond_fail lk m)"
  by (intro quiet_area respond_keeps)+

lemma respond_packets [simp, intro]: "packets.keeps (respond_info lk m)"
  by (intro infos_keep_packets respond_keeps)

lemma respond_infos_keeps [simp, intro]: "infos.keeps (respond_infos lk ms)" "area.keeps (respond_infos lk ms)"
  by (induction ms) (auto intro: infos.keeps_bind area.keeps_bind)

lemma staged_reads_keep [simp, intro]:
  "infos.keeps (staged_file lk)" "area.keeps (staged_file lk)" "infos.keeps staged_len" "area.keeps staged_len"
proof -
  have "infos.keeps (staged_as_file lk d)" "area.keeps (staged_as_file lk d)" for d
    unfolding staged_as_file_def by (cases "sd_payload d"; auto intro: infos.keeps_bind area.keeps_bind)+
  then show "infos.keeps (staged_file lk)" "area.keeps (staged_file lk)" "infos.keeps staged_len" "area.keeps staged_len"
    unfolding staged_file_def staged_len_def by (auto intro!: infos.keeps_bind area.keeps_bind)
qed

text \<open>An operation that only reports and leaves the staging area consistent.\<close>

definition reports :: "'a fb \<Rightarrow> bool" where
  "reports m \<longleftrightarrow> infos.keeps m \<and> area.keeps m"

lemma reports_bind [intro]: "reports m \<Longrightarrow> (\<And>x. reports (f x)) \<Longrightarrow> reports (bind_st m f)"
  by (auto simp: reports_def intro: infos.keeps_bind area.keeps_bind)

lemma reports_if [intro]: "(b \<Longrightarrow> reports m) \<Longrightarrow> (\<not> b \<Longrightarrow> reports n) \<Longrightarrow> reports (if b then m else n)"
  by simp

lemma reports_attempt [intro]: "reports m \<Longrightarrow> reports (attempt m)"
  by (auto simp: reports_def)

lemma reports_ops [simp, intro]:
  "reports (env_op f)" "reports (link_op g)" "reports (world_op h)" "reports (lift_io r)" "reports (ret x)"
  "reports clear_staged" "reports (stage n d)" "reports (respond_info lk m)" "reports (respond_infos lk ms)"
  "reports (staged_file lk)" "reports staged_len"
  by (simp_all add: reports_def respond_keeps area_stage)

text \<open>
  What a handler is: it answers, it keeps the area, and it comes with no action that runs at once.
  Its packets are those of its answer.
\<close>

definition handler_ok :: "link \<Rightarrow> fb_result fb \<Rightarrow> bool" where
  "handler_ok lk m \<longleftrightarrow> (link_writes lk \<longrightarrow> answers m) \<and> packets.keeps m \<and> area.keeps m \<and> no_action m"

lemma handler_ok_bind [intro]:
  assumes "reports m" and f: "\<And>x. handler_ok lk (f x)"
  shows "handler_ok lk (bind_st m f)"
proof -
  have m: "infos.keeps m" "area.keeps m" using assms(1) by (simp_all add: reports_def)
  show ?thesis
    using f m infos_keep_packets [OF m(1)] unfolding handler_ok_def
    by (intro conjI impI answers_bind packets.keeps_bind area.keeps_bind no_action_bind) blast+
qed

lemma handler_ok_if [intro]: "(b \<Longrightarrow> handler_ok lk m) \<Longrightarrow> (\<not> b \<Longrightarrow> handler_ok lk n) \<Longrightarrow> handler_ok lk (if b then m else n)"
  by simp

lemma handler_ok_final [simp, intro]:
  "handler_ok lk (throw e)" "handler_ok lk (okay_continue lk m)" "handler_ok lk (okay_then_exit lk m a)"
  "handler_ok lk (bind_st (respond_fail lk m) (\<lambda>_. ret continue_result))"
  "handler_ok lk (bind_st (respond_okay lk m) (\<lambda>_. ret continue_result))"
  unfolding handler_ok_def okay_continue_def okay_then_exit_def
  by (intro conjI impI answers_then_ret answers_respond answers_throw packets.keeps_bind area.keeps_bind no_action_bind
      no_action_simps packets.keeps_lift area.keeps_lift packets.keeps_ret area.keeps_ret respond_keeps respond_area; assumption?)+

text \<open>A report whose result is known to satisfy something.\<close>

lemma handler_ok_stage_file:
  assumes "reports m" and "\<And>s t x. m s = (t, Inr x) \<Longrightarrow> length (g x) = unat (n x)" and "\<And>x. handler_ok lk (f x)"
  shows "handler_ok lk (bind_st m (\<lambda>x. bind_st (stage_file (l x) (g x) (n x)) (\<lambda>_. f x)))"
  unfolding handler_ok_def
proof (intro conjI impI)
  have m: "infos.keeps m" "area.keeps m" using assms(1) by (simp_all add: reports_def)
  have s: "infos.keeps (stage_file (l x) (g x) (n x))" for x by simp
  show "area.keeps (bind_st m (\<lambda>x. bind_st (stage_file (l x) (g x) (n x)) (\<lambda>_. f x)))"
    using assms(3) by (intro area.keeps_bind_when [OF m(2)] area.keeps_bind area_stage(3) assms(2)) (auto simp: handler_ok_def)
  show "answers (bind_st m (\<lambda>x. bind_st (stage_file (l x) (g x) (n x)) (\<lambda>_. f x)))" if "link_writes lk"
    using assms(3) that by (intro answers_bind m(1) s) (simp add: handler_ok_def)
  show "packets.keeps (bind_st m (\<lambda>x. bind_st (stage_file (l x) (g x) (n x)) (\<lambda>_. f x)))"
    using assms(3) by (intro packets.keeps_bind infos_keep_packets [OF m(1)] infos_keep_packets [OF s]) (simp add: handler_ok_def)
  show "no_action (bind_st m (\<lambda>x. bind_st (stage_file (l x) (g x) (n x)) (\<lambda>_. f x)))"
    using assms(3) by (intro no_action_bind) (simp add: handler_ok_def)
qed

section \<open>The handlers\<close>

lemma writable_target_reports [simp, intro]: "reports (writable_target env requested verb)"
  unfolding writable_target_def by (intro reports_bind reports_ops)

lemma partition_op_reports [simp, intro]: "reports (partition_op env path source m)"
  by (simp add: partition_op_def)

lemma staged_is_sparse_reports [simp, intro]: "reports (staged_is_sparse source)"
  by (simp add: staged_is_sparse_def)

lemma flash_handlers [intro]: "handler_ok lk (handle_flash env lk c)" "handler_ok lk (handle_erase env lk c)"
  unfolding handle_flash_def handle_erase_def flash_sparse_staged_def flash_raw_staged_def
  by (intro handler_ok_bind handler_ok_if handler_ok_final writable_target_reports partition_op_reports staged_is_sparse_reports reports_ops)+

lemma set_active_handler [intro]: "handler_ok lk (handle_set_active env lk c)"
  unfolding handle_set_active_def by (intro handler_ok_bind handler_ok_final reports_ops)

lemma getvar_handler [intro]: "handler_ok lk (handle_getvar env lk c)"
proof -
  have "reports (getvar_value env v)" for v
    unfolding getvar_value_def
    by (intro reports_bind reports_if reports_ops; simp split: option.split; intro conjI allI impI reports_bind reports_ops)+
  moreover have "reports (send_all env lk)"
    unfolding send_all_def by (intro reports_bind reports_ops)
  ultimately show ?thesis
    unfolding handle_getvar_def by (intro handler_ok_bind handler_ok_if handler_ok_final reports_ops)
qed

lemma cat_handler [intro]: "handler_ok lk (handle_cat env lk c)"
proof -
  have copied: "infos_sent s (fst (copy_limited env lk path acc s)) \<and> staged_kept s (fst (copy_limited env lk path acc s)) \<and>
      (\<forall>out. snd (copy_limited env lk path acc s) = Inr out \<longrightarrow> length out \<le> MAX_STAGED_SIZE)"
    if "length acc \<le> MAX_STAGED_SIZE" for path acc s
    using that
  proof (induction env lk path acc s rule: copy_limited.induct)
    case (1 env lk path acc s)
    show ?case
    proof (cases "fe_file_read env (clock s) path")
      case (Inl e)
      then show ?thesis by (subst (1 2 3) copy_limited.simps) (simp add: infos_sent_def staged_kept_def)
    next
      case (Inr bs)
      consider "bs = [] \<or> MAX_STAGED_SIZE < length acc + length bs \<or> (\<exists>e. lk_memory lk (Suc (clock s)) = Inl e)"
        | "bs \<noteq> []" "\<not> MAX_STAGED_SIZE < length acc + length bs" "lk_memory lk (Suc (clock s)) = Inr ()"
        by (cases "lk_memory lk (Suc (clock s))") auto
      then show ?thesis
      proof cases
        case 1
        then show ?thesis using Inr "1.prems"
          by (subst (1 2 3) copy_limited.simps) (auto simp: infos_sent_def staged_kept_def)
      next
        case 2
        then have "length (acc @ bs) \<le> MAX_STAGED_SIZE" by simp
        note ih = "1.IH" [OF Inr 2 this]
        show ?thesis using ih Inr 2
          by (subst (1 2 3) copy_limited.simps) (simp add: infos_sent_def staged_kept_def)
      qed
    qed
  qed
  have copy: "reports (copy_limited env lk path [])" for path
    using copied [where acc = "[]" and path = path] by (simp add: reports_def infos.keeps_def area.keeps_def)
  have staging: "reports (cat_stage_file env lk path)" for path
    unfolding cat_stage_file_def by (intro reports_bind reports_attempt copy reports_ops)
  have size: "length x \<le> MAX_STAGED_SIZE" if "cat_stage_file env lk path s = (t, Inr x)" for path s t x
  proof -
    from that obtain u where "snd (copy_limited env lk path [] u) = Inr x"
      by (auto simp: cat_stage_file_def bind_st_Inr)
    then show ?thesis using copied [where acc = "[]" and path = path and s = u] by simp
  qed
  have "length x = unat (of_nat (length x) :: u64)" if "cat_stage_file env lk path s = (t, Inr x)" for path s t x
    using size [OF that] by (simp add: unat_of_nat_u64 MAX_STAGED_SIZE_def)
  then show ?thesis
    unfolding handle_cat_def
    by (intro handler_ok_bind handler_ok_stage_file staging handler_ok_final reports_ops)
qed

lemma dmesg_handler [intro]: "handler_ok lk (handle_dmesg env lk c)"
  unfolding handle_dmesg_def by (intro handler_ok_bind reports_if handler_ok_final reports_ops)

lemma run_and_stage_ok: "handler_ok lk (run_and_stage env lk c)"
proof -
  have run: "reports (run_shell env c)"
    unfolding run_shell_def by (intro reports_bind reports_ops; simp add: Let_def split: prod.split)
  have size: "length (so_file x) = unat (of_nat (so_size x) :: u64)" if "run_shell env c s = (t, Inr x)" for s t x
  proof -
    have "so_size x = length (so_file x)" "length (so_file x) \<le> OUTPUT_LIMIT + 100"
      using that by (auto simp: run_shell_def bind_st_Inr Let_def split: prod.splits if_split_asm)
    then show ?thesis by (simp add: unat_of_nat_u64 OUTPUT_LIMIT_def)
  qed
  have last: "handler_ok lk (bind_st (if b then respond_okay lk m else respond_fail lk m) (\<lambda>_. ret continue_result))" for b m
    by (cases b) simp_all
  show ?thesis
    unfolding run_and_stage_def
    by (rule handler_ok_stage_file [OF run size]) (assumption | intro handler_ok_bind last reports_ops)+
qed

lemma shell_handlers [intro]: "handler_ok lk (handle_shell env lk c)" "handler_ok lk (handle_shell_staged env lk c)"
proof -
  have r: "reports (read_staged_command lk)"
    unfolding read_staged_command_def Let_def by (intro reports_bind reports_if reports_ops)
  show "handler_ok lk (handle_shell env lk c)" "handler_ok lk (handle_shell_staged env lk c)"
    unfolding handle_shell_def handle_shell_staged_def
    by (intro handler_ok_bind run_and_stage_ok r reports_attempt reports_ops)+
qed

lemma boot_handlers [intro]:
  "handler_ok lk (handle_boot env lk c)" "handler_ok lk (handle_kexec_load env lk c)" "handler_ok lk (handle_kexec_status env lk c)"
proof -
  have r: "reports (prepare_staged_boot_image env lk)" "reports (load_image env img)" for img
    unfolding prepare_staged_boot_image_def load_image_def by (intro reports_bind reports_ops)+
  show "handler_ok lk (handle_boot env lk c)" "handler_ok lk (handle_kexec_load env lk c)" "handler_ok lk (handle_kexec_status env lk c)"
    unfolding handle_boot_def handle_kexec_load_def handle_kexec_status_def
    by (intro handler_ok_bind r handler_ok_final reports_ops)+
qed

lemma reboot_handlers [intro]: "handler_ok lk (handle_reboot env lk c)" "handler_ok lk (handle_bootloader env lk c)"
  unfolding handle_reboot_def handle_bootloader_def bootloader_reboot_action_def
  by (intro handler_ok_bind reports_bind handler_ok_final reports_ops)+

lemma ums_handlers [intro]: "handler_ok lk (handle_ums_start env lk c)" "handler_ok lk (handle_ums_stop env lk c)"
proof -
  have usable: "reports (usable_backing_path env p)" for p
    unfolding usable_backing_path_def by (intro reports_bind reports_if reports_ops)
  have again: "reports (case r of Inr p \<Rightarrow> ret p | Inl e \<Rightarrow> if is_not_found e then throw f else throw e)" for r :: "string io" and f
    by (cases r) simp_all
  have "reports (case r of Inr p \<Rightarrow> ret p
     | Inl e \<Rightarrow>
         if is_not_found e \<and> \<not> is_absolute q then
           bind_st (attempt (usable_backing_path env (path_join d q))) (\<lambda>r.
           case r of Inr p \<Rightarrow> ret p
           | Inl e \<Rightarrow> if is_not_found e then throw (IoError NotFound ''UMS backing path not found directly or under /dev'') else throw e)
         else throw e)" for r :: "string io" and q d
    by (cases r) (auto intro!: reports_bind reports_attempt usable again)
  then have resolve: "reports (resolve_backing_path env q d)" for q d
    unfolding resolve_backing_path_def by (intro reports_bind reports_attempt usable)
  have fail: "handler_ok lk (fail_continue lk e m)" for e m
    unfolding fail_continue_def by (intro handler_ok_if handler_ok_final)
  have start: "handler_ok lk (case r of Inr (UmsStarted lun) \<Rightarrow> okay_continue lk (f lun)
     | Inr (UmsAlreadyStarted lun) \<Rightarrow> okay_continue lk (g lun) | Inl e \<Rightarrow> fail_continue lk e (h e))" for r f g h
    by (auto intro: fail split: sum.split mass_storage_start.split)
  have stop: "handler_ok lk (case r of Inr lun \<Rightarrow> okay_continue lk (f lun) | Inl e \<Rightarrow> fail_continue lk e (h e))" for r :: "nat io" and f h
    by (cases r) (simp_all add: fail)
  show "handler_ok lk (handle_ums_start env lk c)" "handler_ok lk (handle_ums_stop env lk c)"
    unfolding handle_ums_start_def handle_ums_stop_def
    by (intro handler_ok_bind reports_attempt resolve start stop reports_ops)+
qed

lemma table_handler_ok: "c \<in> set (fastboot_commands env lk) \<Longrightarrow> handler_ok lk (cmd_handler c command)"
  by (drule commands_handlers) (auto simp: handlers_def)

interpretation table: command_table lk "fastboot_commands env lk" for env lk
  by unfold_locales (use table_handler_ok in \<open>auto simp: handler_ok_def\<close>)

end
