(* ===== verification/FlashProofs.thy ===== *)
theory FlashProofs
  imports FlashSparse GptDisk
begin

unbundle bit_operations_syntax

text \<open>
  What flashing does to the target device. On an honest device (\<open>os_sound\<close>: writes may be short
  or fail, but put a prefix of the buffer where they are told) every copying loop leaves the device
  with a prefix of its data written at the cursor (\<open>wrote\<close>). A sparse image is the abstract value
  \<open>sparse_image\<close>, encoded by \<open>encode_image\<close> and laid over the old contents by \<open>overlay\<close>;
  \<open>flash_sparse\<close> accepts exactly the encodings of well-formed images that fit the partition.
\<close>

section \<open>Prefixes written at the cursor\<close>

definition wrote :: "bytes \<Rightarrow> flash_io \<Rightarrow> flash_io \<Rightarrow> bool" where
  "wrote bs s t \<longleftrightarrow>
     fi_tpos s + length bs \<le> length (fi_target s) \<and> fi_source t = fi_source s \<and>
     fi_target t = splice (fi_target s) (fi_tpos s) bs \<and> fi_tpos t = fi_tpos s + length bs"

lemma wrote_Nil: "fi_tpos s \<le> length (fi_target s) \<Longrightarrow> wrote [] s s"
  by (simp add: wrote_def)

lemma wrote_trans: "wrote xs s t \<Longrightarrow> wrote ys t u \<Longrightarrow> wrote (xs @ ys) s u"
  by (auto simp: wrote_def splice_append)

lemma wrote_spos: "wrote bs s t \<Longrightarrow> wrote bs (s\<lparr>fi_spos := p\<rparr>) t"
  "wrote bs s t \<Longrightarrow> wrote bs s (t\<lparr>fi_spos := p\<rparr>)"
  by (simp_all add: wrote_def)

lemma wrote_length: "wrote bs s t \<Longrightarrow> length (fi_target t) = length (fi_target s)"
  by (simp add: wrote_def)

text \<open>
  Within the bounds of the device a write puts a prefix of the buffer where it is told, or fails.
  Both the devices that may fail (\<open>os_honest\<close>) and those that do not (\<open>os_ok\<close>) are such.
\<close>

definition os_sound :: "os_calls \<Rightarrow> bool" where
  "os_sound os \<longleftrightarrow>
     (\<forall>c buf off n c'. buf \<noteq> [] \<longrightarrow> off + length buf \<le> length c \<longrightarrow> os_write_at os c buf off = Inr (n, c') \<longrightarrow>
        n \<le> length buf \<and> c' = splice c off (take n buf))"

lemma os_honest_sound: "os_honest os \<Longrightarrow> os_sound os"
  by (auto simp: os_honest_def os_sound_def)

lemma os_ok_sound: "os_ok os \<Longrightarrow> os_sound os"
  unfolding os_ok_def os_sound_def by fastforce

lemma target_write_all_sound:
  assumes "os_sound os"
  shows "fi_tpos s + length buf \<le> length (fi_target s) \<Longrightarrow> target_write_all os buf s = (t, r) \<Longrightarrow>
    \<exists>k \<le> length buf. wrote (take k buf) s t \<and> fi_spos t = fi_spos s \<and> (r = Inr () \<longrightarrow> k = length buf)"
proof (induction "length buf" arbitrary: buf s rule: less_induct)
  case less
  note run = less.prems(2) [unfolded target_write_all.simps [of os buf s]]
  show ?case
  proof (cases "buf = []")
    case True
    then show ?thesis using run less.prems(1) wrote_Nil [of s] by auto
  next
    case False
    show ?thesis
    proof (cases "os_write_at os (fi_target s) buf (fi_tpos s)")
      case (Inl e)
      then have "t = s" "r = Inl e" using run False by simp_all
      then show ?thesis using less.prems wrote_Nil [of s] by (intro exI [of _ 0]) simp
    next
      case (Inr p)
      then obtain n where p: "os_write_at os (fi_target s) buf (fi_tpos s) = Inr (n, splice (fi_target s) (fi_tpos s) (take n buf))"
          "n \<le> length buf"
        using assms False less.prems(1) by (cases p) (auto simp: os_sound_def)
      show ?thesis
      proof (cases "n = 0")
        case True
        then have "t = s" "\<exists>e. r = Inl e" using run False p less.prems(1) by auto
        then show ?thesis using less.prems wrote_Nil [of s] by (intro exI [of _ 0]) auto
      next
        case nz: False
        let ?u = "s\<lparr>fi_target := splice (fi_target s) (fi_tpos s) (take n buf), fi_tpos := fi_tpos s + n\<rparr>"
        have run': "target_write_all os (drop n buf) ?u = (t, r)"
          using run False p nz by simp
        then obtain k where k: "k \<le> length (drop n buf)" "wrote (take k (drop n buf)) ?u t" "fi_spos t = fi_spos ?u"
            "r = Inr () \<longrightarrow> k = length (drop n buf)"
          using less.hyps [of "drop n buf" ?u, OF _ _ run'] nz False p(2) less.prems(1) by auto
        have "wrote (take n buf) s ?u" using p(2) less.prems(1) by (simp add: wrote_def)
        then have "wrote (take (n + k) buf) s t" using wrote_trans [OF _ k(2)] by (simp add: take_add)
        then show ?thesis
          using k(1,3,4) p(2) by (intro exI [of _ "n + k"]) auto
      qed
    qed
  qed
qed

text \<open>What the source is asked for, and where the cursor is after.\<close>

lemma source_read_exact_Inr:
  "source_read_exact n s = (t, Inr bs) \<longleftrightarrow>
     fi_spos s + n \<le> length (fi_source s) \<and> t = s\<lparr>fi_spos := fi_spos s + n\<rparr> \<and>
     bs = slice (fi_source s) (fi_spos s) (fi_spos s + n)"
  by (auto simp: source_read_exact_def)

lemma copy_exact_sound:
  assumes "os_sound os"
  shows "fi_tpos s + n \<le> length (fi_target s) \<Longrightarrow> copy_exact os n s = (t, r) \<Longrightarrow>
    \<exists>bs. wrote bs s t \<and> length bs \<le> n \<and>
      (r = Inr () \<longrightarrow> bs = slice (fi_source s) (fi_spos s) (fi_spos s + n) \<and> length bs = n \<and> fi_spos t = fi_spos s + n)"
proof (induction n arbitrary: s rule: less_induct)
  case (less n)
  note run = less.prems(2) [unfolded copy_exact.simps [of os n]]
  show ?case
  proof (cases "n = 0")
    case True
    then show ?thesis using run less.prems(1) wrote_Nil [of s] by (auto simp: slice_def)
  next
    case False
    let ?k = "min n COPY_CHUNK"
    have k: "0 < ?k" "?k \<le> n" using False by (simp_all add: COPY_CHUNK_def)
    show ?thesis
    proof (cases "fi_spos s + ?k \<le> length (fi_source s)")
      case short: False
      then have "source_read_exact ?k s = (s\<lparr>fi_spos := max (fi_spos s) (length (fi_source s))\<rparr>, Inl (IoError UnexpectedEof ''failed to fill whole buffer''))"
        by (simp add: source_read_exact_def)
      then have "r = Inl (IoError UnexpectedEof ''failed to fill whole buffer'')" "t = s\<lparr>fi_spos := max (fi_spos s) (length (fi_source s))\<rparr>"
        using run False by (simp_all add: Let_def bind_st_eq)
      then show ?thesis using wrote_Nil [of s] less.prems(1) by (intro exI [of _ "[]"]) (simp add: wrote_spos)
    next
      case enough: True
      let ?bs = "slice (fi_source s) (fi_spos s) (fi_spos s + ?k)" and ?s = "s\<lparr>fi_spos := fi_spos s + ?k\<rparr>"
      have rd: "source_read_exact ?k s = (?s, Inr ?bs)" using enough by (simp add: source_read_exact_Inr)
      have lb: "length ?bs = ?k" using enough by simp
      obtain u q where wr: "target_write_all os ?bs ?s = (u, q)" by (cases "target_write_all os ?bs ?s")
      then obtain j where j: "j \<le> length ?bs" "wrote (take j ?bs) ?s u" "fi_spos u = fi_spos ?s" "q = Inr () \<longrightarrow> j = length ?bs"
        using target_write_all_sound [OF assms, of ?s ?bs u q] less.prems(1) k lb by auto
      have w: "wrote (take j ?bs) s u" using j(2) by (simp add: wrote_def)
      show ?thesis
      proof (cases q)
        case (Inl e)
        then have "t = u" "r = Inl e" using run False rd wr by (simp_all add: Let_def bind_st_eq)
        then show ?thesis using w k lb by (intro exI [of _ "take j ?bs"]) simp
      next
        case (Inr x)
        then have jk: "take j ?bs = ?bs" using j(4) by simp
        have run': "copy_exact os (n - ?k) u = (t, r)" using run False rd wr Inr by (simp add: Let_def bind_st_eq)
        have "fi_tpos u + (n - ?k) \<le> length (fi_target u)"
          using w jk lb less.prems(1) k by (simp add: wrote_def)
        then obtain bs where bs: "wrote bs u t" "length bs \<le> n - ?k"
            "r = Inr () \<longrightarrow> bs = slice (fi_source u) (fi_spos u) (fi_spos u + (n - ?k)) \<and> length bs = n - ?k \<and> fi_spos t = fi_spos u + (n - ?k)"
          using less.IH [of "n - ?k" u, OF _ _ run'] k by auto
        have "wrote (?bs @ bs) s t" using wrote_trans w bs(1) jk by metis
        moreover have "fi_source u = fi_source s" using w by (simp add: wrote_def)
        moreover have "slice (fi_source s) (fi_spos s) (fi_spos s + n) = ?bs @ slice (fi_source s) (fi_spos s + ?k) (fi_spos s + n)"
          using k by (intro slice_split) auto
        ultimately show ?thesis
          using bs(2,3) lb k j(3) by (intro exI [of _ "?bs @ bs"]) auto
      qed
    qed
  qed
qed

text \<open>A buffer written over and over.\<close>

definition repeated :: "bytes \<Rightarrow> nat \<Rightarrow> bytes" where
  "repeated buf n = map (\<lambda>i. buf ! (i mod length buf)) [0..<n]"

lemma length_repeated [simp]: "length (repeated buf n) = n"
  by (simp add: repeated_def)

lemma repeated_short: "n \<le> length buf \<Longrightarrow> repeated buf n = take n buf"
  by (auto simp: repeated_def list_eq_iff_nth_eq)

lemma repeated_step:
  assumes "length buf \<le> n" "buf \<noteq> []"
  shows "repeated buf n = buf @ repeated buf (n - length buf)"
proof (rule nth_equalityI)
  show "length (repeated buf n) = length (buf @ repeated buf (n - length buf))" using assms by simp
  fix i assume "i < length (repeated buf n)"
  then show "repeated buf n ! i = (buf @ repeated buf (n - length buf)) ! i"
    using assms by (cases "i < length buf") (auto simp: repeated_def nth_append le_mod_geq)
qed

lemma write_buffer_sound:
  assumes "os_sound os" "buf \<noteq> []"
  shows "fi_tpos s + n \<le> length (fi_target s) \<Longrightarrow> write_buffer os buf n s = (t, r) \<Longrightarrow>
    \<exists>k \<le> n. wrote (take k (repeated buf n)) s t \<and> fi_spos t = fi_spos s \<and> (r = Inr () \<longrightarrow> k = n)"
proof (induction n arbitrary: s rule: less_induct)
  case (less n)
  note run = less.prems(2) [unfolded write_buffer.simps [of os buf n]]
  show ?case
  proof (cases "n = 0")
    case True
    then show ?thesis using run less.prems(1) wrote_Nil [of s] by (auto simp: repeated_def)
  next
    case False
    let ?k = "min n (length buf)" let ?bs = "take ?k buf"
    have k: "0 < ?k" "?k \<le> n" "length ?bs = ?k" using False assms(2) by simp_all
    have rep: "repeated buf n = ?bs @ repeated buf (n - ?k)"
      using repeated_short [of n buf] repeated_step [of buf n] assms(2) by (cases "n \<le> length buf") (simp_all add: repeated_def [of _ 0])
    obtain u q where wr: "target_write_all os ?bs s = (u, q)" by (cases "target_write_all os ?bs s")
    have room: "fi_tpos s + length ?bs \<le> length (fi_target s)" using less.prems(1) k by simp
    obtain j where j: "j \<le> length ?bs" "wrote (take j ?bs) s u" "fi_spos u = fi_spos s" "q = Inr () \<longrightarrow> j = length ?bs"
      using target_write_all_sound [OF assms(1) room wr] by blast
    show ?thesis
    proof (cases q)
      case (Inl e)
      then have "t = u" "r = Inl e" using run False assms(2) wr by (simp_all add: Let_def bind_st_eq)
      moreover have "take j (repeated buf n) = take j ?bs" using j(1) rep by simp
      ultimately show ?thesis using j(1-3) k by (intro exI [of _ j]) simp
    next
      case (Inr x)
      then have jk: "take j ?bs = ?bs" using j(4) by simp
      have run': "write_buffer os buf (n - ?k) u = (t, r)" using run False assms(2) wr Inr by (simp add: Let_def bind_st_eq)
      have "fi_tpos u + (n - ?k) \<le> length (fi_target u)"
        using j(2) jk k less.prems(1) by (simp add: wrote_def)
      then obtain i where i: "i \<le> n - ?k" "wrote (take i (repeated buf (n - ?k))) u t" "fi_spos t = fi_spos u" "r = Inr () \<longrightarrow> i = n - ?k"
        using less.IH [of "n - ?k" u, OF _ _ run'] k by auto
      have "wrote (?bs @ take i (repeated buf (n - ?k))) s t" using wrote_trans j(2) i(2) jk by metis
      moreover have "take (?k + i) (repeated buf n) = ?bs @ take i (repeated buf (n - ?k))" using rep k by simp
      ultimately show ?thesis using i(1,3,4) j(3) k by (intro exI [of _ "?k + i"]) auto
    qed
  qed
qed

section \<open>Devices that do not fail\<close>

lemma target_write_all_ok:
  assumes "os_ok os"
  shows "fi_tpos s + length buf \<le> length (fi_target s) \<Longrightarrow> snd (target_write_all os buf s) = Inr ()"
proof (induction "length buf" arbitrary: buf s rule: less_induct)
  case less
  show ?case
  proof (cases "buf = []")
    case False
    then obtain n where n: "0 < n" "n \<le> length buf"
        "os_write_at os (fi_target s) buf (fi_tpos s) = Inr (n, splice (fi_target s) (fi_tpos s) (take n buf))"
      using assms less.prems unfolding os_ok_def by blast
    then show ?thesis
      using False less.prems less.hyps [of "drop n buf" "s\<lparr>fi_target := splice (fi_target s) (fi_tpos s) (take n buf), fi_tpos := fi_tpos s + n\<rparr>"]
      by (subst target_write_all.simps) simp
  qed (subst target_write_all.simps, simp)
qed

lemma copy_exact_ok:
  assumes "os_ok os"
  shows "fi_tpos s + n \<le> length (fi_target s) \<Longrightarrow> n = 0 \<or> fi_spos s + n \<le> length (fi_source s) \<Longrightarrow>
    snd (copy_exact os n s) = Inr ()"
proof (induction n arbitrary: s rule: less_induct)
  case (less n)
  show ?case
  proof (cases "n = 0")
    case False
    let ?k = "min n COPY_CHUNK" let ?bs = "slice (fi_source s) (fi_spos s) (fi_spos s + ?k)" and ?s = "s\<lparr>fi_spos := fi_spos s + ?k\<rparr>"
    have k: "0 < ?k" "?k \<le> n" "fi_spos s + ?k \<le> length (fi_source s)" using False less.prems(2) by (auto simp: COPY_CHUNK_def)
    then have rd: "source_read_exact ?k s = (?s, Inr ?bs)" and lb: "length ?bs = ?k" by (simp_all add: source_read_exact_Inr)
    have room: "fi_tpos ?s + length ?bs \<le> length (fi_target ?s)" using less.prems(1) k lb by simp
    obtain u where wr: "target_write_all os ?bs ?s = (u, Inr ())"
      using target_write_all_ok [OF assms room] by (cases "target_write_all os ?bs ?s") simp
    then have u: "wrote ?bs ?s u" "fi_spos u = fi_spos ?s"
      using target_write_all_sound [OF os_ok_sound [OF assms] room wr] by auto
    have "snd (copy_exact os (n - ?k) u) = Inr ()"
      using u k lb less.prems by (intro less.IH) (auto simp: wrote_def)
    then show ?thesis
      using rd wr False by (subst copy_exact.simps) (simp add: Let_def bind_st_eq)
  qed (subst copy_exact.simps, simp)
qed

lemma write_buffer_ok:
  assumes "os_ok os" "buf \<noteq> []"
  shows "fi_tpos s + n \<le> length (fi_target s) \<Longrightarrow> snd (write_buffer os buf n s) = Inr ()"
proof (induction n arbitrary: s rule: less_induct)
  case (less n)
  show ?case
  proof (cases "n = 0")
    case False
    let ?k = "min n (length buf)" let ?bs = "take ?k buf"
    have k: "0 < ?k" "?k \<le> n" "length ?bs = ?k" using False assms(2) by simp_all
    then have room: "fi_tpos s + length ?bs \<le> length (fi_target s)" using less.prems(1) by simp
    obtain u where wr: "target_write_all os ?bs s = (u, Inr ())"
      using target_write_all_ok [OF assms(1) room] by (cases "target_write_all os ?bs s") simp
    then have u: "wrote ?bs s u"
      using target_write_all_sound [OF os_ok_sound [OF assms(1)] room wr] by auto
    have "snd (write_buffer os buf (n - ?k) u) = Inr ()"
      using u k less.prems by (intro less.IH) (auto simp: wrote_def)
    then show ?thesis
      using wr False assms(2) by (subst write_buffer.simps) (simp add: Let_def bind_st_eq)
  qed (subst write_buffer.simps, simp)
qed

section \<open>Raw payloads\<close>

text \<open>
  A raw payload: when \<open>flash_raw\<close> returns, the partition starts with the first \<open>n\<close> bytes of the
  staged file and is otherwise as before; when it fails, nothing beyond byte \<open>n\<close> was touched.
\<close>

lemma flash_raw_sound:
  assumes "os_sound os" "n \<le> length (fi_target s)" "flash_raw os n s = (t, r)"
  shows "\<exists>bs. length bs \<le> n \<and> fi_target t = splice (fi_target s) 0 bs \<and> fi_source t = fi_source s \<and>
    (\<forall>k. r = Inr k \<longrightarrow> k = n \<and> bs = take n (fi_source s) \<and> length bs = n)"
proof -
  let ?s = "s\<lparr>fi_spos := 0\<rparr>" and ?u = "s\<lparr>fi_spos := 0, fi_tpos := 0\<rparr>"
  have trivial: ?thesis if "fi_target t = fi_target s" "fi_source t = fi_source s" "\<exists>e. r = Inl e"
    using that by (intro exI [of _ "[]"]) auto
  show ?thesis
  proof (cases "map_err_prefix ''open '' (os_open os)")
    case (Inl e)
    then show ?thesis using assms(3) trivial by (auto simp: flash_raw_def source_seek_start_def target_open_def)
  next
    case (Inr x)
    obtain u q where cp: "copy_exact os n ?u = (u, q)" by (cases "copy_exact os n ?u")
    then obtain bs where bs: "wrote bs ?u u" "length bs \<le> n" "q = Inr () \<longrightarrow> bs = slice (fi_source s) 0 n \<and> length bs = n"
      using copy_exact_sound [OF assms(1), of ?u n u q] assms(2) by auto
    have "target_seek_start 0 ?s = (?u, Inr ())" by (simp add: target_seek_start_def)
    then have "flash_raw os n s = bind_st (copy_exact os n) (\<lambda>_. bind_st (lift_io (os_sync_all os)) (\<lambda>_. ret n)) ?u"
      using Inr by (simp add: flash_raw_def source_seek_start_def target_open_def bind_st_eq)
    then have eq: "(t, r) = bind_st (copy_exact os n) (\<lambda>_. bind_st (lift_io (os_sync_all os)) (\<lambda>_. ret n)) ?u"
      using assms(3) by simp
    have "t = u \<and> (\<forall>k. r = Inr k \<longrightarrow> k = n \<and> q = Inr ())"
    proof (cases q)
      case (Inl e)
      then show ?thesis using eq cp by (simp add: bind_st_eq)
    next
      case (Inr x)
      then show ?thesis using eq cp by (cases "os_sync_all os") (simp_all add: bind_st_eq)
    qed
    moreover have "length bs \<le> n \<and> fi_target u = splice (fi_target s) 0 bs \<and> fi_source u = fi_source s"
      using bs(1,2) by (simp add: wrote_def)
    moreover have "slice (fi_source s) 0 n = take n (fi_source s)" by (simp add: slice_def)
    ultimately show ?thesis using bs(3) by metis
  qed
qed

end
