(* ===== verification/SparseImage.thy ===== *)
theory SparseImage
  imports FlashProofs
begin

unbundle bit_operations_syntax

text \<open>
  The Android sparse format as abstract values: \<open>encode_image\<close> gives the bytes of an image, \<open>overlay\<close>
  lays its chunks over the old contents of a partition. \<open>flash_sparse\<close> is shown to accept the
  well-formed images that fit, to reject everything else, and never to write beyond the
  expanded size the header declares.
\<close>

section \<open>Images and their bytes\<close>

datatype sparse_body =
    RawBody bytes
  | FillBody bytes
  | DontCareBody
  | CrcBody bytes

record sparse_chunk =
  sc_reserved :: u16
  sc_blocks :: u32
  sc_ext :: bytes
  sc_body :: sparse_body

record sparse_image =
  si_ext :: bytes
  si_chunk_header_size :: u16
  si_block_size :: u32
  si_total_blocks :: u32
  si_checksum :: u32
  si_chunks :: "sparse_chunk list"

fun body_bytes :: "sparse_body \<Rightarrow> bytes" where
  "body_bytes (RawBody d) = d"
| "body_bytes (FillBody f) = f"
| "body_bytes DontCareBody = []"
| "body_bytes (CrcBody c) = c"

fun body_type :: "sparse_body \<Rightarrow> u16" where
  "body_type (RawBody d) = SPARSE_CHUNK_RAW"
| "body_type (FillBody f) = SPARSE_CHUNK_FILL"
| "body_type DontCareBody = SPARSE_CHUNK_DONT_CARE"
| "body_type (CrcBody c) = SPARSE_CHUNK_CRC32"

definition encode_chunk :: "u16 \<Rightarrow> sparse_chunk \<Rightarrow> bytes" where
  "encode_chunk hs c =
     to_le_bytes 2 (body_type (sc_body c)) @ to_le_bytes 2 (sc_reserved c) @ to_le_bytes 4 (sc_blocks c) @
     to_le_bytes 4 (of_nat (unat hs + length (body_bytes (sc_body c))) :: u32) @ sc_ext c @ body_bytes (sc_body c)"

definition encode_image :: "sparse_image \<Rightarrow> bytes" where
  "encode_image im =
     to_le_bytes 4 ANDROID_SPARSE_MAGIC_LE @ to_le_bytes 2 (1 :: u16) @ to_le_bytes 2 (0 :: u16) @
     to_le_bytes 2 (of_nat (28 + length (si_ext im)) :: u16) @ to_le_bytes 2 (si_chunk_header_size im) @
     to_le_bytes 4 (si_block_size im) @ to_le_bytes 4 (si_total_blocks im) @
     to_le_bytes 4 (of_nat (length (si_chunks im)) :: u32) @ to_le_bytes 4 (si_checksum im) @
     si_ext im @ concat (map (encode_chunk (si_chunk_header_size im)) (si_chunks im))"

definition chunk_len :: "u32 \<Rightarrow> sparse_chunk \<Rightarrow> nat" where
  "chunk_len bs c = unat (sc_blocks c) * unat bs"

fun body_ok :: "sparse_body \<Rightarrow> nat \<Rightarrow> bool" where
  "body_ok (RawBody d) len \<longleftrightarrow> length d = len"
| "body_ok (FillBody f) len \<longleftrightarrow> length f = 4"
| "body_ok DontCareBody len \<longleftrightarrow> True"
| "body_ok (CrcBody k) len \<longleftrightarrow> length k = 4 \<and> len = 0"

definition chunk_ok :: "u16 \<Rightarrow> u32 \<Rightarrow> sparse_chunk \<Rightarrow> bool" where
  "chunk_ok hs bs c \<longleftrightarrow>
     length (sc_ext c) + 12 = unat hs \<and> unat hs + length (body_bytes (sc_body c)) < 2 ^ 32 \<and>
     body_ok (sc_body c) (chunk_len bs c)"

definition image_size :: "sparse_image \<Rightarrow> nat" where
  "image_size im = unat (si_total_blocks im) * unat (si_block_size im)"

definition image_ok :: "sparse_image \<Rightarrow> bool" where
  "image_ok im \<longleftrightarrow>
     28 + length (si_ext im) < 2 ^ 16 \<and> 12 \<le> unat (si_chunk_header_size im) \<and>
     si_block_size im \<noteq> 0 \<and> si_block_size im mod 4 = 0 \<and> length (si_chunks im) < 2 ^ 32 \<and>
     list_all (chunk_ok (si_chunk_header_size im) (si_block_size im)) (si_chunks im) \<and>
     sum_list (map (chunk_len (si_block_size im)) (si_chunks im)) = image_size im"

text \<open>The contents after a chunk that covers \<open>len\<close> bytes from \<open>pos\<close> on.\<close>

fun lay_body :: "sparse_body \<Rightarrow> nat \<Rightarrow> nat \<Rightarrow> bytes \<Rightarrow> bytes" where
  "lay_body (RawBody d) pos len c = splice c pos d"
| "lay_body (FillBody f) pos len c = splice c pos (concat (replicate (len div 4) f))"
| "lay_body _ pos len c = c"

primrec overlay :: "u32 \<Rightarrow> sparse_chunk list \<Rightarrow> nat \<Rightarrow> bytes \<Rightarrow> bytes" where
  "overlay bs [] pos c = c"
| "overlay bs (ch # chs) pos c = overlay bs chs (pos + chunk_len bs ch) (lay_body (sc_body ch) pos (chunk_len bs ch) c)"

fun body_data :: "sparse_body \<Rightarrow> nat \<Rightarrow> nat" where
  "body_data (RawBody d) len = len"
| "body_data (FillBody f) len = len"
| "body_data _ len = 0"

text \<open>The number of bytes the chunks of an image write.\<close>

definition data_size_of :: "u32 \<Rightarrow> sparse_chunk list \<Rightarrow> nat" where
  "data_size_of bs chs = sum_list (map (\<lambda>c. body_data (sc_body c) (chunk_len bs c)) chs)"

section \<open>Reading fields off the source\<close>

text \<open>
  \<open>reads bs s t\<close>: from \<open>s\<close> to \<open>t\<close> only the cursor moved, over the bytes \<open>bs\<close> where they lie in
  the file (a skip may go beyond its end).
\<close>

definition reads :: "bytes \<Rightarrow> flash_io \<Rightarrow> flash_io \<Rightarrow> bool" where
  "reads bs s t \<longleftrightarrow>
     t = s\<lparr>fi_spos := fi_spos s + length bs\<rparr> \<and>
     (fi_spos s + length bs \<le> length (fi_source s) \<longrightarrow> slice (fi_source s) (fi_spos s) (fi_spos s + length bs) = bs)"

lemma reads_trans: "reads xs s t \<Longrightarrow> reads ys t u \<Longrightarrow> reads (xs @ ys) s u"
  using slice_split [of "fi_spos s" "fi_spos s + length xs" "fi_spos s + (length xs + length ys)" "fi_source s"]
  by (auto simp: reads_def ac_simps)

lemma source_read_exact_reads: "source_read_exact n s = (t, Inr bs) \<Longrightarrow> reads bs s t \<and> length bs = n"
  by (auto simp: source_read_exact_Inr reads_def)

lemma sparse_read_u16_le_reads: "sparse_read_u16_le s = (t, Inr w) \<Longrightarrow> reads (to_le_bytes 2 w) s t"
  by (auto simp: sparse_read_u16_le_def bind_st_Inr le16.enc_dec dest!: source_read_exact_reads)

lemma sparse_read_u32_le_reads: "sparse_read_u32_le s = (t, Inr w) \<Longrightarrow> reads (to_le_bytes 4 w) s t"
  by (auto simp: sparse_read_u32_le_def bind_st_Inr le32.enc_dec dest!: source_read_exact_reads)

lemma skip_input_reads:
  assumes "skip_input n s = (t, Inr ())"
  shows "\<exists>bs. length bs = n \<and> reads bs s t"
proof -
  have t: "t = s\<lparr>fi_spos := fi_spos s + n\<rparr>"
    using assms by (auto simp: skip_input_def source_seek_current_def split: if_splits)
  show ?thesis
  proof (cases "fi_spos s + n \<le> length (fi_source s)")
    case True
    then show ?thesis using t
      by (intro exI [of _ "slice (fi_source s) (fi_spos s) (fi_spos s + n)"]) (simp add: reads_def)
  next
    case False
    then show ?thesis using t by (intro exI [of _ "replicate n 0"]) (simp add: reads_def)
  qed
qed

text \<open>The other direction: the bytes ahead of the cursor determine what is read.\<close>

definition ahead :: "flash_io \<Rightarrow> bytes" where
  "ahead s = drop (fi_spos s) (fi_source s)"

definition advance :: "nat \<Rightarrow> flash_io \<Rightarrow> flash_io" where
  "advance n s = s\<lparr>fi_spos := fi_spos s + n\<rparr>"

lemma advance_simps [simp]:
  "fi_target (advance n s) = fi_target s" "fi_tpos (advance n s) = fi_tpos s" "fi_source (advance n s) = fi_source s"
  "fi_spos (advance n s) = fi_spos s + n" "advance m (advance n s) = advance (n + m) s"
  by (simp_all add: advance_def ac_simps)

lemma ahead_advance: "ahead s = xs @ ys \<Longrightarrow> length xs = n \<Longrightarrow> ahead (advance n s) = ys"
proof -
  assume a: "ahead s = xs @ ys" "length xs = n"
  have "ahead (advance n s) = drop n (ahead s)" by (simp add: ahead_def add.commute)
  then show ?thesis using a by simp
qed

lemma source_read_exact_ahead:
  assumes "ahead s = bs @ ys" "length bs = n" "0 < n"
  shows "source_read_exact n s = (advance n s, Inr bs)"
proof -
  have "length (ahead s) = length bs + length ys" using assms(1) by simp
  then have b: "fi_spos s + n \<le> length (fi_source s)" using assms(2,3) by (simp add: ahead_def)
  have "slice (fi_source s) (fi_spos s) (fi_spos s + n) = take n (ahead s)" by (simp add: slice_def ahead_def)
  then show ?thesis using b assms(1,2) by (simp add: source_read_exact_Inr advance_def)
qed

lemma sparse_read_u16_le_ahead: "ahead s = to_le_bytes 2 w @ ys \<Longrightarrow> sparse_read_u16_le s = (advance 2 s, Inr w)"
  by (simp add: sparse_read_u16_le_def bind_st_eq source_read_exact_ahead [of s "to_le_bytes 2 w" ys 2] le16.dec_enc)

lemma sparse_read_u32_le_ahead: "ahead s = to_le_bytes 4 w @ ys \<Longrightarrow> sparse_read_u32_le s = (advance 4 s, Inr w)"
  by (simp add: sparse_read_u32_le_def bind_st_eq source_read_exact_ahead [of s "to_le_bytes 4 w" ys 4] le32.dec_enc)

lemma skip_input_ahead: "fi_spos s + n < 2 ^ 63 \<Longrightarrow> skip_input n s = (advance n s, Inr ())"
  by (simp add: skip_input_def source_seek_current_def advance_def)

section \<open>Headers\<close>

definition header_bytes :: "sparse_header \<Rightarrow> bytes \<Rightarrow> u32 \<Rightarrow> bytes" where
  "header_bytes h ext checksum =
     to_le_bytes 4 ANDROID_SPARSE_MAGIC_LE @ to_le_bytes 2 (1 :: u16) @ to_le_bytes 2 (0 :: u16) @
     to_le_bytes 2 (of_nat (28 + length ext) :: u16) @ to_le_bytes 2 (chunk_header_size h) @
     to_le_bytes 4 (block_size h) @ to_le_bytes 4 (sh_total_blocks h) @ to_le_bytes 4 (total_chunks h) @
     to_le_bytes 4 checksum @ ext"

definition header_ok :: "sparse_header \<Rightarrow> bytes \<Rightarrow> bool" where
  "header_ok h ext \<longleftrightarrow>
     28 + length ext < 2 ^ 16 \<and> 12 \<le> unat (chunk_header_size h) \<and> block_size h \<noteq> 0 \<and> block_size h mod 4 = 0"

lemma u16_less_iff: "(a::u16) < b \<longleftrightarrow> unat a < unat b"
  by (rule word_less_nat_alt)

lemma unat_u16_numeral [simp]: "unat SPARSE_HEADER_SIZE = 28" "unat SPARSE_CHUNK_HEADER_SIZE = 12"
  by (simp_all add: SPARSE_HEADER_SIZE_def SPARSE_CHUNK_HEADER_SIZE_def)

lemma unat_minus_exact: "unat b \<le> unat a \<Longrightarrow> unat (a - b :: 'w::len word) = unat a - unat b"
  by (simp add: unat_sub word_le_nat_alt)

lemma sparse_header_reads:
  assumes "sparse_header_read_from s = (t, Inr h)"
  shows "\<exists>ext checksum. header_ok h ext \<and> reads (header_bytes h ext checksum) s t"
proof -
  from assms obtain s1 s2 s3 s4 s5 s6 s7 s8 s9 fhs ck where
    r: "sparse_read_u32_le s = (s1, Inr ANDROID_SPARSE_MAGIC_LE)" "sparse_read_u16_le s1 = (s2, Inr 1)" "sparse_read_u16_le s2 = (s3, Inr 0)"
      "sparse_read_u16_le s3 = (s4, Inr fhs)" "sparse_read_u16_le s4 = (s5, Inr (chunk_header_size h))"
      "sparse_read_u32_le s5 = (s6, Inr (block_size h))" "sparse_read_u32_le s6 = (s7, Inr (sh_total_blocks h))"
      "sparse_read_u32_le s7 = (s8, Inr (total_chunks h))" "sparse_read_u32_le s8 = (s9, Inr ck)"
      "skip_input (unat (fhs - SPARSE_HEADER_SIZE)) s9 = (t, Inr ())"
    and c: "\<not> fhs < SPARSE_HEADER_SIZE" "\<not> chunk_header_size h < SPARSE_CHUNK_HEADER_SIZE" "block_size h \<noteq> 0" "block_size h mod 4 = 0"
    by (auto simp: sparse_header_read_from_def bind_st_Inr split: if_split_asm del: mod_0_imp_dvd)
  obtain ext where ext: "length ext = unat (fhs - SPARSE_HEADER_SIZE)" "reads ext s9 t"
    using skip_input_reads [OF r(10)] by blast
  have fhs: "28 + length ext = unat fhs"
    using c(1) ext(1) by (simp add: u16_less_iff unat_minus_exact not_less)
  then have "(of_nat (28 + length ext) :: u16) = fhs" unfolding fhs by simp
  moreover have "reads (to_le_bytes 4 ANDROID_SPARSE_MAGIC_LE @ to_le_bytes 2 (1 :: u16) @ to_le_bytes 2 (0 :: u16) @
     to_le_bytes 2 fhs @ to_le_bytes 2 (chunk_header_size h) @ to_le_bytes 4 (block_size h) @
     to_le_bytes 4 (sh_total_blocks h) @ to_le_bytes 4 (total_chunks h) @ to_le_bytes 4 ck @ ext) s t"
    using r(1-9) ext(2) by (intro reads_trans [OF sparse_read_u32_le_reads] reads_trans [OF sparse_read_u16_le_reads])
  moreover have "header_ok h ext"
    using c fhs unat_less_u16 [of fhs] by (simp add: header_ok_def u16_less_iff not_less)
  ultimately show ?thesis by (auto simp: header_bytes_def)
qed

lemma sparse_header_ahead:
  assumes "header_ok h ext" "ahead s = header_bytes h ext ck @ ys" "fi_spos s = 0"
  shows "sparse_header_read_from s = (advance (28 + length ext) s, Inr h)"
proof -
  let ?fhs = "of_nat (28 + length ext) :: u16"
  have fhs: "unat ?fhs = 28 + length ext"
    using assms(1) by (intro unat_of_nat_exact) (simp add: header_ok_def)
  then have fc: "\<not> ?fhs < SPARSE_HEADER_SIZE" "unat (?fhs - SPARSE_HEADER_SIZE) = length ext"
    by (simp_all add: u16_less_iff unat_minus_exact del: of_nat_add)
  have hc: "\<not> chunk_header_size h < SPARSE_CHUNK_HEADER_SIZE" "block_size h \<noteq> 0" "block_size h mod 4 = 0"
    using assms(1) by (simp_all add: header_ok_def u16_less_iff)
  note a = assms(2) [unfolded header_bytes_def append_assoc]
  note a1 = ahead_advance [OF a length_to_le_bytes]
  note a2 = ahead_advance [OF a1 length_to_le_bytes]
  note a3 = ahead_advance [OF a2 length_to_le_bytes]
  note a4 = ahead_advance [OF a3 length_to_le_bytes]
  note a5 = ahead_advance [OF a4 length_to_le_bytes]
  note a6 = ahead_advance [OF a5 length_to_le_bytes]
  note a7 = ahead_advance [OF a6 length_to_le_bytes]
  note a8 = ahead_advance [OF a7 length_to_le_bytes]
  note rd = sparse_read_u32_le_ahead [OF a] sparse_read_u16_le_ahead [OF a1] sparse_read_u16_le_ahead [OF a2] sparse_read_u16_le_ahead [OF a3]
    sparse_read_u16_le_ahead [OF a4] sparse_read_u32_le_ahead [OF a5] sparse_read_u32_le_ahead [OF a6] sparse_read_u32_le_ahead [OF a7]
    sparse_read_u32_le_ahead [OF a8]
  have "length ext < 2 ^ 16" using assms(1) by (simp add: header_ok_def)
  then have sk: "skip_input (length ext) (advance 28 s) = (advance (28 + length ext) s, Inr ())"
    using assms(3) by (subst skip_input_ahead) (simp_all add: ac_simps)
  show ?thesis
    using rd sk fc hc
    by (simp add: sparse_header_read_from_def bind_st_eq del: of_nat_add)
qed

definition chunk_header_bytes :: "u16 \<Rightarrow> sparse_chunk_header \<Rightarrow> u16 \<Rightarrow> bytes \<Rightarrow> bytes" where
  "chunk_header_bytes hs ch reserved ext =
     to_le_bytes 2 (chunk_type ch) @ to_le_bytes 2 reserved @ to_le_bytes 4 (chunk_blocks ch) @
     to_le_bytes 4 (of_nat (unat hs + unat (data_size ch)) :: u32) @ ext"

lemma unat_ucast_u32_u64 [simp]: "unat (ucast (w::u32) :: u64) = unat w"
  using unat_less_u32 [of w] by (simp add: unsigned_ucast_eq take_bit_nat_eq_self)

lemma unat_ucast_u16_u32 [simp]: "unat (ucast (w::u16) :: u32) = unat w"
  using unat_less_u16 [of w] by (simp add: unsigned_ucast_eq take_bit_nat_eq_self)

lemma sparse_chunk_header_reads:
  assumes "sparse_chunk_header_read_from hs s = (t, Inr ch)" and hs: "12 \<le> unat hs"
  shows "\<exists>reserved ext. length ext + 12 = unat hs \<and> unat hs + unat (data_size ch) < 2 ^ 32 \<and>
    reads (chunk_header_bytes hs ch reserved ext) s t"
proof -
  from assms(1) obtain s1 s2 s3 s4 res ts where
    r: "sparse_read_u16_le s = (s1, Inr (chunk_type ch))" "sparse_read_u16_le s1 = (s2, Inr res)"
      "sparse_read_u32_le s2 = (s3, Inr (chunk_blocks ch))" "sparse_read_u32_le s3 = (s4, Inr ts)"
      "skip_input (unat (hs - SPARSE_CHUNK_HEADER_SIZE)) s4 = (t, Inr ())"
    and c: "\<not> ts < ucast hs" "data_size ch = ucast (ts - ucast hs)"
    by (auto simp: sparse_chunk_header_read_from_def bind_st_Inr split: if_split_asm)
  obtain ext where ext: "length ext = unat (hs - SPARSE_CHUNK_HEADER_SIZE)" "reads ext s4 t"
    using skip_input_reads [OF r(5)] by blast
  have le: "unat (ucast hs :: u32) \<le> unat ts" using c(1) by (simp only: not_less word_le_nat_alt)
  then have ts: "unat hs + unat (data_size ch) = unat ts"
    using unat_minus_exact [of "ucast hs :: u32" ts] by (simp add: c(2))
  have "reads (to_le_bytes 2 (chunk_type ch) @ to_le_bytes 2 res @ to_le_bytes 4 (chunk_blocks ch) @ to_le_bytes 4 ts @ ext) s t"
    using r(1-4) ext(2) by (intro reads_trans [OF sparse_read_u32_le_reads] reads_trans [OF sparse_read_u16_le_reads])
  moreover have "(of_nat (unat hs + unat (data_size ch)) :: u32) = ts" unfolding ts by simp
  moreover have "length ext + 12 = unat hs" using ext(1) hs by (simp add: unat_minus_exact)
  ultimately show ?thesis using unat_less_u32 [of ts] by (auto simp: chunk_header_bytes_def ts)
qed

lemma sparse_chunk_header_ahead:
  assumes "12 \<le> unat hs" "length ext + 12 = unat hs" "unat hs + unat (data_size ch) < 2 ^ 32"
    "ahead s = chunk_header_bytes hs ch res ext @ ys" "fi_spos s < 2 ^ 62"
  shows "sparse_chunk_header_read_from hs s = (advance (12 + length ext) s, Inr ch)"
proof -
  let ?ts = "of_nat (unat hs + unat (data_size ch)) :: u32"
  have ts: "unat ?ts = unat hs + unat (data_size ch)" using assms(3) by (rule unat_of_nat_u32)
  have le: "unat (ucast hs :: u32) \<le> unat ?ts" by (simp add: ts del: of_nat_add)
  have c: "\<not> ?ts < ucast hs" using le by (simp only: word_less_nat_alt not_less)
  have d: "ucast (?ts - ucast hs) = data_size ch"
    using unat_minus_exact [OF le] ts by (simp add: word_unat_eq_iff del: of_nat_add)
  note a = assms(4) [unfolded chunk_header_bytes_def append_assoc]
  note a1 = ahead_advance [OF a length_to_le_bytes]
  note a2 = ahead_advance [OF a1 length_to_le_bytes]
  note a3 = ahead_advance [OF a2 length_to_le_bytes]
  note rd = sparse_read_u16_le_ahead [OF a] sparse_read_u16_le_ahead [OF a1] sparse_read_u32_le_ahead [OF a2]
    sparse_read_u32_le_ahead [OF a3]
  have "unat (hs - SPARSE_CHUNK_HEADER_SIZE) = length ext" using assms(1,2) by (simp add: unat_minus_exact)
  moreover have "skip_input (length ext) (advance 12 s) = (advance (12 + length ext) s, Inr ())"
    using assms(2,5) unat_less_u16 [of hs] by (subst skip_input_ahead) (simp_all add: ac_simps)
  ultimately show ?thesis
    using rd c d by (simp add: sparse_chunk_header_read_from_def bind_st_eq del: of_nat_add)
qed

section \<open>One chunk\<close>

text \<open>\<open>consumed bs s t\<close>: the source cursor moved over \<open>bs\<close>, whatever happened to the target.\<close>

definition consumed :: "bytes \<Rightarrow> flash_io \<Rightarrow> flash_io \<Rightarrow> bool" where
  "consumed bs s t \<longleftrightarrow>
     fi_source t = fi_source s \<and> fi_spos t = fi_spos s + length bs \<and>
     (fi_spos t \<le> length (fi_source s) \<longrightarrow> slice (fi_source s) (fi_spos s) (fi_spos t) = bs)"

lemma consumed_trans: "consumed xs s t \<Longrightarrow> consumed ys t u \<Longrightarrow> consumed (xs @ ys) s u"
  using slice_split [of "fi_spos s" "fi_spos s + length xs" "fi_spos s + (length xs + length ys)" "fi_source s"]
  by (auto simp: consumed_def ac_simps)

lemma reads_consumed: "reads bs s t \<Longrightarrow> consumed bs s t \<and> fi_target t = fi_target s \<and> fi_tpos t = fi_tpos s"
  by (simp add: reads_def consumed_def)

lemma wrote_consumed: "wrote bs s t \<Longrightarrow> fi_spos t = fi_spos s \<Longrightarrow> consumed [] s t"
  by (simp add: wrote_def consumed_def slice_def)

text \<open>A fill chunk repeats its four bytes over the whole range.\<close>

lemma concat_replicate_nth:
  "i < k * length f \<Longrightarrow> concat (replicate k f) ! i = f ! (i mod length f)"
proof (induction k arbitrary: i)
  case (Suc k)
  then show ?case by (cases "i < length f") (auto simp: nth_append le_mod_geq)
qed simp

lemma length_concat_replicate [simp]: "length (concat (replicate k f)) = k * length f"
  by (induction k) simp_all

lemma fill_repeated:
  assumes "length f = 4" "n mod 4 = 0"
  shows "repeated (fill_buffer f) n = concat (replicate (n div 4) f)"
proof (rule nth_equalityI)
  have nn: "n div 4 * 4 = n" using assms(2) by presburger
  then show "length (repeated (fill_buffer f) n) = length (concat (replicate (n div 4) f))" by (simp add: assms(1))
  fix i assume "i < length (repeated (fill_buffer f) n)"
  then have i: "i < n" by simp
  have len: "length (fill_buffer f) = 1048576" by (simp add: fill_buffer_def COPY_CHUNK_def assms(1))
  have "repeated (fill_buffer f) n ! i = fill_buffer f ! (i mod 1048576)" using i by (simp add: repeated_def len)
  also have "\<dots> = f ! (i mod 1048576 mod 4)"
    unfolding fill_buffer_def by (subst concat_replicate_nth) (simp_all add: assms(1) COPY_CHUNK_def)
  also have "i mod 1048576 mod 4 = i mod 4" by (simp add: mod_mod_cancel)
  also have "f ! (i mod 4) = concat (replicate (n div 4) f) ! i"
    using i nn by (subst concat_replicate_nth) (simp_all add: assms(1))
  finally show "repeated (fill_buffer f) n ! i = concat (replicate (n div 4) f) ! i" .
qed

lemma fill_buffer_not_Nil: "length f = 4 \<Longrightarrow> fill_buffer f \<noteq> []"
  using length_concat_replicate [of "COPY_CHUNK div 4" f] by (auto simp: fill_buffer_def COPY_CHUNK_def)

lemma checked_add_written_Inr: "checked_add_written a b = Inr c \<longleftrightarrow> unat c = unat a + unat b"
  by (simp add: checked_add_written_def)

lemma flash_chunk_body_sound:
  assumes os: "os_sound os"
    and run: "flash_chunk_body os ch out np w s = (t, Inr w')"
    and pos: "unat np = fi_tpos s + unat out" "unat np \<le> length (fi_target s)" "unat out mod 4 = 0"
  shows "\<exists>b. body_type b = chunk_type ch \<and> length (body_bytes b) = unat (data_size ch) \<and> body_ok b (unat out) \<and>
    consumed (body_bytes b) s t \<and> fi_target t = lay_body b (fi_tpos s) (unat out) (fi_target s) \<and>
    fi_tpos t = unat np \<and> unat w' = unat w + body_data b (unat out)"
proof -
  note types = SPARSE_CHUNK_RAW_def SPARSE_CHUNK_FILL_def SPARSE_CHUNK_DONT_CARE_def SPARSE_CHUNK_CRC32_def
  consider (raw) "chunk_type ch = SPARSE_CHUNK_RAW" | (fill) "chunk_type ch = SPARSE_CHUNK_FILL"
    | (skip) "chunk_type ch = SPARSE_CHUNK_DONT_CARE" | (crc) "chunk_type ch = SPARSE_CHUNK_CRC32"
    using run by (auto simp: flash_chunk_body_def split: if_split_asm)
  then show ?thesis
  proof cases
    case raw
    then obtain d: "data_size ch = out" and cp: "copy_exact os (unat out) s = (t, Inr ())" and w: "unat w' = unat w + unat out"
      using run by (auto simp: flash_chunk_body_def bind_st_Inr checked_add_written_Inr split: if_split_asm)
    obtain bs where bs: "wrote bs s t" "bs = slice (fi_source s) (fi_spos s) (fi_spos s + unat out)" "length bs = unat out"
        "fi_spos t = fi_spos s + unat out"
      using copy_exact_sound [OF os _ cp] pos by auto
    have "consumed bs s t" using bs by (simp add: consumed_def wrote_def)
    then show ?thesis using bs(1,3) d w raw pos by (intro exI [of _ "RawBody bs"]) (simp add: wrote_def)
  next
    case fill
    then obtain u f where d: "data_size ch = 4" and rf: "read_fill s = (u, Inr f)"
        and wf: "write_fill os f (unat out) u = (t, Inr ())" and w: "unat w' = unat w + unat out"
      using run by (auto simp: flash_chunk_body_def bind_st_Inr checked_add_written_Inr types split: if_split_asm)
    have f: "reads f s u" "length f = 4" using source_read_exact_reads rf by (auto simp: read_fill_def)
    then have u: "consumed f s u" "fi_target u = fi_target s" "fi_tpos u = fi_tpos s" using reads_consumed by blast+
    have room: "fi_tpos u + unat out \<le> length (fi_target u)" using pos u by simp
    have wr: "wrote (repeated (fill_buffer f) (unat out)) u t" "fi_spos t = fi_spos u"
      using write_buffer_sound [OF os fill_buffer_not_Nil [OF f(2)] room wf [unfolded write_fill_def]] by auto
    have "consumed (f @ []) s t" by (rule consumed_trans [OF u(1) wrote_consumed [OF wr]])
    moreover have "unat out div 4 * 4 = unat out" using pos(3) by presburger
    ultimately show ?thesis using wr(1) u f(2) d w fill pos
      by (intro exI [of _ "FillBody f"]) (simp add: wrote_def fill_repeated)
  next
    case skip
    then have "data_size ch = 0" "target_seek_start (unat np) s = (t, Inr ())" "w' = w"
      using run by (auto simp: flash_chunk_body_def bind_st_Inr types split: if_split_asm)
    then show ?thesis using skip
      by (intro exI [of _ DontCareBody]) (auto simp: target_seek_start_def consumed_def slice_def split: if_split_asm)
  next
    case crc
    then have z: "out = 0" "data_size ch = 4" "skip_input 4 s = (t, Inr ())" "w' = w"
      using run by (auto simp: flash_chunk_body_def bind_st_Inr types split: if_split_asm)
    obtain bs where "length bs = 4" "reads bs s t" using skip_input_reads [OF z(3)] by blast
    then show ?thesis using reads_consumed [of bs s t] z crc pos
      by (intro exI [of _ "CrcBody bs"]) simp
  qed
qed

lemma unat_mod_4: "bs mod 4 = 0 \<Longrightarrow> unat (bs::u32) mod 4 = 0"
  using unat_mod_distrib [of bs 4] by simp

lemma chunk_len_mod_4: "bs mod 4 = 0 \<Longrightarrow> chunk_len bs c mod 4 = 0"
  using unat_mod_4 [of bs] by (simp add: chunk_len_def mod_mult_right_eq [of _ "unat bs" 4, symmetric] del: mod_mult_right_eq)

lemma length_lay_body: "body_ok b len \<Longrightarrow> pos + len \<le> length c \<Longrightarrow> length (lay_body b pos len c) = length c"
  by (cases b) (auto intro!: length_splice)

lemma flash_chunk_sound:
  assumes os: "os_sound os" and hs: "12 \<le> unat (chunk_header_size h)" and bs: "block_size h mod 4 = 0"
    and run: "flash_chunk os h expanded pos w s = (t, Inr (np, w'))"
    and tp: "fi_tpos s = unat pos" and room: "unat expanded \<le> length (fi_target s)"
  shows "\<exists>c. chunk_ok (chunk_header_size h) (block_size h) c \<and> consumed (encode_chunk (chunk_header_size h) c) s t \<and>
    fi_target t = lay_body (sc_body c) (unat pos) (chunk_len (block_size h) c) (fi_target s) \<and> fi_tpos t = unat np \<and>
    unat np = unat pos + chunk_len (block_size h) c \<and> unat np \<le> unat expanded \<and>
    unat w' = unat w + body_data (sc_body c) (chunk_len (block_size h) c)"
proof -
  from run obtain u ch out where
    r: "sparse_chunk_header_read_from (chunk_header_size h) s = (u, Inr ch)"
      "unat out = unat (chunk_blocks ch) * unat (block_size h)" "unat np = unat pos + unat out" "\<not> expanded < np"
      "flash_chunk_body os ch out np w u = (t, Inr w')"
    by (auto simp: flash_chunk_def bind_st_Inr output_size_def split: if_split_asm)
  obtain res ext where hd: "length ext + 12 = unat (chunk_header_size h)"
      "unat (chunk_header_size h) + unat (data_size ch) < 2 ^ 32"
      "reads (chunk_header_bytes (chunk_header_size h) ch res ext) s u"
    using sparse_chunk_header_reads [OF r(1) hs] by blast
  note u = reads_consumed [OF hd(3)]
  have npE: "unat np \<le> unat expanded" using r(4) by (simp add: word_less_nat_alt)
  have out4: "unat out mod 4 = 0"
    using chunk_len_mod_4 [OF bs, of "\<lparr>sc_reserved = res, sc_blocks = chunk_blocks ch, sc_ext = ext, sc_body = DontCareBody\<rparr>"]
    by (simp add: r(2) chunk_len_def)
  obtain b where b: "body_type b = chunk_type ch" "length (body_bytes b) = unat (data_size ch)" "body_ok b (unat out)"
      "consumed (body_bytes b) u t" "fi_target t = lay_body b (fi_tpos u) (unat out) (fi_target u)"
      "fi_tpos t = unat np" "unat w' = unat w + body_data b (unat out)"
    using flash_chunk_body_sound [OF os r(5)] u tp r(3) npE room out4 by auto
  let ?c = "\<lparr>sc_reserved = res, sc_blocks = chunk_blocks ch, sc_ext = ext, sc_body = b\<rparr>"
  have len: "chunk_len (block_size h) ?c = unat out" by (simp add: chunk_len_def r(2))
  have enc: "encode_chunk (chunk_header_size h) ?c = chunk_header_bytes (chunk_header_size h) ch res ext @ body_bytes b"
    by (simp add: encode_chunk_def chunk_header_bytes_def b(1,2))
  show ?thesis
    using b hd(1,2) u tp r(3) npE consumed_trans [of _ s u] by (intro exI [of _ ?c]) (simp add: len enc chunk_ok_def)
qed

lemma flash_chunks_sound:
  assumes os: "os_sound os" and hs: "12 \<le> unat (chunk_header_size h)" and bs: "block_size h mod 4 = 0"
  shows "flash_chunks os h expanded n acc s = (t, Inr acc') \<Longrightarrow> fi_tpos s = unat (fst acc) \<Longrightarrow>
    unat (fst acc) \<le> unat expanded \<Longrightarrow> unat expanded \<le> length (fi_target s) \<Longrightarrow>
    \<exists>cs. length cs = n \<and> list_all (chunk_ok (chunk_header_size h) (block_size h)) cs \<and>
      consumed (concat (map (encode_chunk (chunk_header_size h)) cs)) s t \<and>
      fi_target t = overlay (block_size h) cs (unat (fst acc)) (fi_target s) \<and>
      unat (fst acc') = unat (fst acc) + sum_list (map (chunk_len (block_size h)) cs) \<and>
      unat (snd acc') = unat (snd acc) + data_size_of (block_size h) cs"
proof (induction n arbitrary: acc s)
  case 0
  then show ?case by (intro exI [of _ "[]"]) (simp add: consumed_def slice_def data_size_of_def)
next
  case (Suc n)
  from Suc.prems(1) obtain u np w where
    run: "flash_chunk os h expanded (fst acc) (snd acc) s = (u, Inr (np, w))" "flash_chunks os h expanded n (np, w) u = (t, Inr acc')"
    by (auto simp: bind_st_Inr)
  obtain c where c: "chunk_ok (chunk_header_size h) (block_size h) c" "consumed (encode_chunk (chunk_header_size h) c) s u"
      "fi_target u = lay_body (sc_body c) (unat (fst acc)) (chunk_len (block_size h) c) (fi_target s)" "fi_tpos u = unat np"
      "unat np = unat (fst acc) + chunk_len (block_size h) c" "unat np \<le> unat expanded"
      "unat w = unat (snd acc) + body_data (sc_body c) (chunk_len (block_size h) c)"
    using flash_chunk_sound [OF os hs bs run(1) Suc.prems(2) Suc.prems(4)] by blast
  have "length (fi_target u) = length (fi_target s)"
    using c Suc.prems(4) by (simp add: length_lay_body chunk_ok_def)
  then obtain cs where cs: "length cs = n" "list_all (chunk_ok (chunk_header_size h) (block_size h)) cs"
      "consumed (concat (map (encode_chunk (chunk_header_size h)) cs)) u t"
      "fi_target t = overlay (block_size h) cs (unat np) (fi_target u)"
      "unat (fst acc') = unat np + sum_list (map (chunk_len (block_size h)) cs)"
      "unat (snd acc') = unat w + data_size_of (block_size h) cs"
    using Suc.IH [OF run(2)] c(4,6) Suc.prems(4) by auto
  show ?case using c cs consumed_trans [OF c(2) cs(3)]
    by (intro exI [of _ "c # cs"]) (simp add: data_size_of_def)
qed

section \<open>Well-formed chunks are written\<close>

lemma body_inject: "body_type b = body_type b' \<Longrightarrow> body_bytes b = body_bytes b' \<Longrightarrow> b = b'"
  by (cases b; cases b')
    (auto simp: SPARSE_CHUNK_RAW_def SPARSE_CHUNK_FILL_def SPARSE_CHUNK_DONT_CARE_def SPARSE_CHUNK_CRC32_def)

lemma ahead_bound: "ahead s = bs @ ys \<Longrightarrow> bs \<noteq> [] \<Longrightarrow> fi_spos s + length bs \<le> length (fi_source s)"
proof -
  assume a: "ahead s = bs @ ys" "bs \<noteq> []"
  have "length (ahead s) = length bs + length ys" using a(1) by simp
  moreover have "0 < length bs" using a(2) by simp
  ultimately show ?thesis unfolding ahead_def length_drop by linarith
qed

lemma consumed_ahead:
  assumes "consumed bs s t" "ahead s = cs @ ys" "length bs = length cs"
  shows "bs = cs \<and> ahead t = ys"
proof (cases "cs = []")
  case True
  then show ?thesis using assms by (auto simp: consumed_def ahead_def)
next
  case False
  then have "fi_spos t \<le> length (fi_source s)" using ahead_bound [OF assms(2)] assms(1,3) by (simp add: consumed_def)
  then have "slice (fi_source s) (fi_spos s) (fi_spos t) = bs" using assms(1) by (auto simp: consumed_def)
  then have "bs = take (length cs) (ahead s)"
    using assms(1,3) by (simp add: slice_def ahead_def consumed_def)
  moreover have "ahead t = drop (length cs) (ahead s)"
    using assms(1,3) by (simp add: ahead_def consumed_def add.commute)
  ultimately show ?thesis using assms(2) by simp
qed

lemma checked_add_written_ok: "unat a + unat b < 2 ^ 64 \<Longrightarrow> \<exists>c. checked_add_written a b = Inr c"
  by (simp add: checked_add_written_def checked_add_def)

lemma flash_chunk_body_ok:
  assumes os: "os_ok os" and b: "body_ok b (unat out)" "chunk_type ch = body_type b" "unat (data_size ch) = length (body_bytes b)"
    and src: "ahead s = body_bytes b @ ys" "fi_spos s + length (body_bytes b) < 2 ^ 63"
    and pos: "unat np = fi_tpos s + unat out" "unat np \<le> length (fi_target s)" "unat out mod 4 = 0"
      "length (fi_target s) < 2 ^ 63" "unat w + unat out < 2 ^ 64"
  shows "\<exists>t w'. flash_chunk_body os ch out np w s = (t, Inr w') \<and> ahead t = ys \<and> consumed (body_bytes b) s t \<and>
    fi_target t = lay_body b (fi_tpos s) (unat out) (fi_target s) \<and> fi_tpos t = unat np \<and> unat w' = unat w + body_data b (unat out)"
proof -
  note types = SPARSE_CHUNK_RAW_def SPARSE_CHUNK_FILL_def SPARSE_CHUNK_DONT_CARE_def SPARSE_CHUNK_CRC32_def
  obtain wo where wo: "checked_add_written w out = Inr wo" using checked_add_written_ok [OF pos(5)] by blast
  have "\<exists>t w'. flash_chunk_body os ch out np w s = (t, Inr w')"
  proof (cases b)
    case (RawBody d)
    have "unat out = 0 \<or> fi_spos s + unat out \<le> length (fi_source s)"
      using RawBody b(1) ahead_bound [OF src(1)] by (cases "d = []") auto
    then have "snd (copy_exact os (unat out) s) = Inr ()"
      using pos by (intro copy_exact_ok [OF os]) auto
    then obtain t where "copy_exact os (unat out) s = (t, Inr ())" by (cases "copy_exact os (unat out) s") simp
    moreover have "data_size ch = out" using RawBody b(1,3) by (simp add: word_unat_eq_iff)
    ultimately show ?thesis using RawBody b(2) wo by (simp add: flash_chunk_body_def bind_st_eq)
  next
    case (FillBody f)
    then have f: "length f = 4" using b(1) by simp
    have "read_fill s = (advance 4 s, Inr f)"
      using source_read_exact_ahead [of s f ys 4] src(1) f FillBody by (simp add: read_fill_def)
    moreover obtain t where "write_buffer os (fill_buffer f) (unat out) (advance 4 s) = (t, Inr ())"
      using write_buffer_ok [OF os fill_buffer_not_Nil [OF f], of "advance 4 s" "unat out"] pos
      by (cases "write_buffer os (fill_buffer f) (unat out) (advance 4 s)") simp
    moreover have "data_size ch = 4" using FillBody b(3) f by (simp add: word_unat_eq_iff)
    ultimately show ?thesis using FillBody b(2) wo
      by (simp add: flash_chunk_body_def bind_st_eq write_fill_def types)
  next
    case DontCareBody
    moreover have "data_size ch = 0" using DontCareBody b(3) by (simp add: word_unat_eq_iff)
    ultimately show ?thesis using b(2) pos by (simp add: flash_chunk_body_def types bind_st_eq target_seek_start_def)
  next
    case (CrcBody k)
    then have k: "length k = 4" "unat out = 0" using b(1) by simp_all
    then have "skip_input 4 s = (advance 4 s, Inr ())" using src(2) CrcBody by (intro skip_input_ahead) simp
    moreover have "data_size ch = 4" "out = 0" using CrcBody b(3) k by (simp_all add: word_unat_eq_iff)
    ultimately show ?thesis using CrcBody b(2) by (simp add: flash_chunk_body_def types bind_st_eq)
  qed
  then obtain t w' where run: "flash_chunk_body os ch out np w s = (t, Inr w')" by blast
  then obtain b' where b': "body_type b' = chunk_type ch" "length (body_bytes b') = unat (data_size ch)"
    "consumed (body_bytes b') s t" "fi_target t = lay_body b' (fi_tpos s) (unat out) (fi_target s)"
    "fi_tpos t = unat np" "unat w' = unat w + body_data b' (unat out)"
    using flash_chunk_body_sound [OF os_ok_sound [OF os] run pos(1-3)] by blast
  have "body_bytes b' = body_bytes b \<and> ahead t = ys" using consumed_ahead [OF b'(3) src(1)] b'(2) b(3) by simp
  then show ?thesis using run b' body_inject [of b' b] b(2) by auto
qed

lemma flash_chunk_ok:
  assumes os: "os_ok os" and hs: "12 \<le> unat (chunk_header_size h)" and bs: "block_size h mod 4 = 0"
    and c: "chunk_ok (chunk_header_size h) (block_size h) c"
    and src: "ahead s = encode_chunk (chunk_header_size h) c @ ys" "fi_spos s + length (encode_chunk (chunk_header_size h) c) < 2 ^ 62"
    and pos: "fi_tpos s = unat pos" "unat pos + chunk_len (block_size h) c \<le> unat expanded" "unat expanded \<le> length (fi_target s)"
      "length (fi_target s) < 2 ^ 63" "unat w \<le> unat pos"
  shows "\<exists>t np w'. flash_chunk os h expanded pos w s = (t, Inr (np, w')) \<and> ahead t = ys \<and>
    consumed (encode_chunk (chunk_header_size h) c) s t \<and> fi_tpos t = unat np \<and> unat np = unat pos + chunk_len (block_size h) c \<and>
    fi_target t = lay_body (sc_body c) (unat pos) (chunk_len (block_size h) c) (fi_target s) \<and>
    unat w' = unat w + body_data (sc_body c) (chunk_len (block_size h) c)"
proof -
  let ?hs = "chunk_header_size h" and ?b = "sc_body c"
  let ?ch = "\<lparr>chunk_type = body_type ?b, chunk_blocks = sc_blocks c, data_size = of_nat (length (body_bytes ?b))\<rparr>"
  have small: "length (body_bytes ?b) < 2 ^ 32" "length (sc_ext c) + 12 = unat ?hs" "unat ?hs + length (body_bytes ?b) < 2 ^ 32"
    "body_ok ?b (chunk_len (block_size h) c)"
    using c by (simp_all add: chunk_ok_def)
  then have ds: "unat (data_size ?ch) = length (body_bytes ?b)" by (simp add: unat_of_nat_u64)
  have enc: "encode_chunk ?hs c = chunk_header_bytes ?hs ?ch (sc_reserved c) (sc_ext c) @ body_bytes ?b"
    using ds by (simp add: encode_chunk_def chunk_header_bytes_def)
  have hl: "length (chunk_header_bytes ?hs ?ch (sc_reserved c) (sc_ext c)) = 12 + length (sc_ext c)"
    by (simp add: chunk_header_bytes_def)
  note src' = src(1) [unfolded enc append_assoc]
  let ?u = "advance (12 + length (sc_ext c)) s"
  have hd: "sparse_chunk_header_read_from ?hs s = (?u, Inr ?ch)"
    using sparse_chunk_header_ahead [OF hs small(2) _ src'] src(2) ds small by simp
  have au: "ahead ?u = body_bytes ?b @ ys" by (rule ahead_advance [OF src' hl])
  have cu: "consumed (chunk_header_bytes ?hs ?ch (sc_reserved c) (sc_ext c)) s ?u"
  proof -
    have "fi_spos s + (12 + length (sc_ext c)) \<le> length (fi_source s)"
      using ahead_bound [OF src'] hl by (metis add_is_0 list.size(3) numeral_eq_iff zero_neq_numeral)
    moreover have "take (12 + length (sc_ext c)) (ahead s) = chunk_header_bytes ?hs ?ch (sc_reserved c) (sc_ext c)"
      using src' hl by simp
    ultimately show ?thesis by (simp add: consumed_def hl slice_def ahead_def)
  qed
  have E: "unat expanded < 2 ^ 64" by (rule unat_less_u64)
  obtain out where out: "output_size ?ch (block_size h) = Inr out" "unat out = chunk_len (block_size h) c"
  proof -
    have "unat (sc_blocks c) * unat (block_size h) < 2 ^ 64" using pos(2) E by (simp add: chunk_len_def)
    then have "\<exists>o'. checked_mul (ucast (sc_blocks c)) (ucast (block_size h)) = Some (o' :: u64)"
      by (simp add: checked_mul_def)
    then show thesis using that by (auto simp: output_size_def chunk_len_def)
  qed
  obtain np where np: "checked_add pos out = Some np" "unat np = unat pos + chunk_len (block_size h) c"
  proof -
    have "\<exists>n. checked_add pos out = Some n" using pos(2) E out(2) by (simp add: checked_add_def)
    then show thesis using that out(2) by auto
  qed
  obtain t w' where body: "flash_chunk_body os ?ch out np w ?u = (t, Inr w')" "ahead t = ys" "consumed (body_bytes ?b) ?u t"
      "fi_target t = lay_body ?b (fi_tpos ?u) (unat out) (fi_target ?u)" "fi_tpos t = unat np" "unat w' = unat w + body_data ?b (unat out)"
    using flash_chunk_body_ok [OF os _ _ ds au, of out np w] small out(2) np pos E src(2) chunk_len_mod_4 [OF bs, of c] hl enc
    by auto
  have nE: "\<not> expanded < np" using np(2) pos(2) by (simp add: word_less_nat_alt)
  have "flash_chunk os h expanded pos w s = (t, Inr (np, w'))"
    using hd out(1) np(1) nE body(1) by (simp add: flash_chunk_def bind_st_eq del: checked_add_Some)
  then show ?thesis using body np(2) out(2) pos(1) consumed_trans [OF cu body(3)] enc by auto
qed

lemma body_data_le: "body_data b len \<le> len"
  by (cases b) simp_all

lemma flash_chunks_ok:
  assumes os: "os_ok os" and hs: "12 \<le> unat (chunk_header_size h)" and bs: "block_size h mod 4 = 0"
  shows "list_all (chunk_ok (chunk_header_size h) (block_size h)) cs \<Longrightarrow>
    ahead s = concat (map (encode_chunk (chunk_header_size h)) cs) @ ys \<Longrightarrow>
    fi_spos s + length (concat (map (encode_chunk (chunk_header_size h)) cs)) < 2 ^ 62 \<Longrightarrow>
    fi_tpos s = unat (fst acc) \<Longrightarrow> unat (fst acc) + sum_list (map (chunk_len (block_size h)) cs) \<le> unat expanded \<Longrightarrow>
    unat expanded \<le> length (fi_target s) \<Longrightarrow> length (fi_target s) < 2 ^ 63 \<Longrightarrow> unat (snd acc) \<le> unat (fst acc) \<Longrightarrow>
    \<exists>t acc'. flash_chunks os h expanded (length cs) acc s = (t, Inr acc') \<and>
      fi_target t = overlay (block_size h) cs (unat (fst acc)) (fi_target s) \<and>
      consumed (concat (map (encode_chunk (chunk_header_size h)) cs)) s t \<and>
      unat (fst acc') = unat (fst acc) + sum_list (map (chunk_len (block_size h)) cs) \<and>
      unat (snd acc') = unat (snd acc) + data_size_of (block_size h) cs"
proof (induction cs arbitrary: acc s)
  case Nil
  then show ?case by (simp add: consumed_def slice_def data_size_of_def)
next
  case (Cons c cs)
  let ?rest = "concat (map (encode_chunk (chunk_header_size h)) cs)"
  have src: "ahead s = encode_chunk (chunk_header_size h) c @ (?rest @ ys)"
    "fi_spos s + length (encode_chunk (chunk_header_size h) c) < 2 ^ 62"
    using Cons.prems(2,3) by simp_all
  obtain u np w where u: "flash_chunk os h expanded (fst acc) (snd acc) s = (u, Inr (np, w))" "ahead u = ?rest @ ys"
      "consumed (encode_chunk (chunk_header_size h) c) s u" "fi_tpos u = unat np" "unat np = unat (fst acc) + chunk_len (block_size h) c"
      "fi_target u = lay_body (sc_body c) (unat (fst acc)) (chunk_len (block_size h) c) (fi_target s)"
      "unat w = unat (snd acc) + body_data (sc_body c) (chunk_len (block_size h) c)"
    using flash_chunk_ok [OF os hs bs _ src Cons.prems(4) _ Cons.prems(6-8)] Cons.prems(1,5) by auto
  have len: "length (fi_target u) = length (fi_target s)"
    using u(6) Cons.prems(1,5,6) by (simp add: length_lay_body chunk_ok_def)
  have "fi_spos u = fi_spos s + length (encode_chunk (chunk_header_size h) c)" using u(3) by (simp add: consumed_def)
  then obtain t acc' where t: "flash_chunks os h expanded (length cs) (np, w) u = (t, Inr acc')"
      "fi_target t = overlay (block_size h) cs (unat np) (fi_target u)" "consumed ?rest u t"
      "unat (fst acc') = unat np + sum_list (map (chunk_len (block_size h)) cs)"
      "unat (snd acc') = unat w + data_size_of (block_size h) cs"
    using Cons.IH [of u "(np, w)"] Cons.prems u len body_data_le [of "sc_body c" "chunk_len (block_size h) c"] by auto
  show ?case
    using t u(1,5,6,7) consumed_trans [OF u(3) t(3)]
    by (intro exI [of _ t] exI [of _ acc']) (simp add: bind_st_eq data_size_of_def)
qed

section \<open>Whole images\<close>

definition sparse_header_of :: "sparse_image \<Rightarrow> sparse_header" where
  "sparse_header_of im =
     \<lparr>chunk_header_size = si_chunk_header_size im, block_size = si_block_size im,
      sh_total_blocks = si_total_blocks im, total_chunks = of_nat (length (si_chunks im))\<rparr>"

lemma encode_image_header:
  "encode_image im = header_bytes (sparse_header_of im) (si_ext im) (si_checksum im) @
     concat (map (encode_chunk (si_chunk_header_size im)) (si_chunks im))"
  by (simp add: encode_image_def header_bytes_def sparse_header_of_def)

lemma flash_sparse_sound:
  assumes os: "os_sound os" and target: "length (fi_target s) = unat partition_size"
    and staged: "length (fi_source s) = unat staged_size"
    and run: "flash_sparse os partition_size staged_size s = (t, Inr st)"
  shows "\<exists>im. image_ok im \<and> fi_source s = encode_image im \<and> image_size im \<le> unat partition_size \<and>
    fi_target t = overlay (si_block_size im) (si_chunks im) 0 (fi_target s) \<and>
    unat (st_expanded_size st) = image_size im \<and> unat (st_chunks st) = length (si_chunks im) \<and>
    unat (written_size st) = data_size_of (si_block_size im) (si_chunks im)"
proof -
  let ?s = "s\<lparr>fi_spos := 0\<rparr>"
  from run obtain u h e v acc where
    r: "sparse_header_read_from ?s = (u, Inr h)" "expanded_size h = Inr e" "\<not> partition_size < e"
      "target_seek_start 0 u = (v, Inr ())" "flash_chunks os h e (unat (total_chunks h)) (0, 0) v = (t, Inr acc)"
      "fst acc = e" "fi_spos t = unat staged_size"
      "st = \<lparr>st_expanded_size = e, written_size = snd acc, st_chunks = total_chunks h\<rparr>"
    by (auto simp: flash_sparse_def source_seek_start_def target_open_def bind_st_Inr split: if_split_asm)
  obtain ext ck where hd: "header_ok h ext" "reads (header_bytes h ext ck) ?s u"
    using sparse_header_reads [OF r(1)] by blast
  have v: "v = u\<lparr>fi_tpos := 0\<rparr>" using r(4) by (auto simp: target_seek_start_def split: if_split_asm)
  have hv: "consumed (header_bytes h ext ck) ?s v" "fi_target v = fi_target s"
    using reads_consumed [OF hd(2)] by (auto simp: v consumed_def)
  have e: "unat e = unat (sh_total_blocks h) * unat (block_size h)" using r(2) by (simp add: expanded_size_def)
  have ep: "unat e \<le> unat partition_size" using r(3) by (simp add: word_less_nat_alt)
  obtain cs where cs: "length cs = unat (total_chunks h)" "list_all (chunk_ok (chunk_header_size h) (block_size h)) cs"
      "consumed (concat (map (encode_chunk (chunk_header_size h)) cs)) v t" "fi_target t = overlay (block_size h) cs 0 (fi_target v)"
      "unat (fst acc) = sum_list (map (chunk_len (block_size h)) cs)" "unat (snd acc) = data_size_of (block_size h) cs"
    using flash_chunks_sound [OF os _ _ r(5)] hd(1) v hv(2) ep target by (auto simp: header_ok_def)
  let ?im = "\<lparr>si_ext = ext, si_chunk_header_size = chunk_header_size h, si_block_size = block_size h,
    si_total_blocks = sh_total_blocks h, si_checksum = ck, si_chunks = cs\<rparr>"
  have ih: "sparse_header_of ?im = h" by (simp add: sparse_header_of_def cs(1))
  have "consumed (encode_image ?im) ?s t"
    using consumed_trans [OF hv(1) cs(3)] by (simp add: encode_image_header ih)
  then have "slice (fi_source s) 0 (length (fi_source s)) = encode_image ?im"
    unfolding consumed_def using r(7) staged by auto
  then have "fi_source s = encode_image ?im" by simp
  moreover have "image_ok ?im"
    using hd(1) cs(1,2,5) r(6) e unat_less_u32 [of "total_chunks h"] by (simp add: image_ok_def header_ok_def image_size_def)
  ultimately show ?thesis
    using cs hv(2) r(6,8) e ep by (intro exI [of _ ?im]) (simp add: image_size_def)
qed

lemma flash_sparse_ok:
  assumes os: "os_ok os" and im: "image_ok im" "fi_source s = encode_image im" "length (fi_source s) = unat staged_size"
    and target: "length (fi_target s) = unat partition_size" "image_size im \<le> unat partition_size"
    and small: "unat staged_size < 2 ^ 62" "unat partition_size < 2 ^ 63"
  shows "\<exists>t st. flash_sparse os partition_size staged_size s = (t, Inr st) \<and>
    fi_target t = overlay (si_block_size im) (si_chunks im) 0 (fi_target s) \<and>
    unat (written_size st) = data_size_of (si_block_size im) (si_chunks im)"
proof -
  let ?s = "s\<lparr>fi_spos := 0\<rparr>" and ?h = "sparse_header_of im"
  let ?cs = "concat (map (encode_chunk (si_chunk_header_size im)) (si_chunks im))"
  have hk: "header_ok ?h (si_ext im)" using im(1) by (simp add: header_ok_def image_ok_def sparse_header_of_def)
  have src: "ahead ?s = header_bytes ?h (si_ext im) (si_checksum im) @ ?cs"
    by (simp add: ahead_def im(2) encode_image_header)
  have hb: "length (header_bytes ?h (si_ext im) (si_checksum im)) = 28 + length (si_ext im)"
    by (simp add: header_bytes_def)
  let ?u = "advance (28 + length (si_ext im)) ?s" let ?v = "?u\<lparr>fi_tpos := 0\<rparr>"
  have hd: "sparse_header_read_from ?s = (?u, Inr ?h)" by (rule sparse_header_ahead [OF hk src]) simp
  have "unat (si_total_blocks im) * unat (si_block_size im) < 2 ^ 64"
    using target(2) unat_less_u64 [of partition_size] by (simp add: image_size_def)
  then obtain e where e: "expanded_size ?h = Inr e"
    by (simp add: expanded_size_def sparse_header_of_def checked_mul_def)
  then have ue: "unat e = image_size im" by (simp add: expanded_size_def sparse_header_of_def image_size_def)
  have pe: "\<not> partition_size < e" using ue target(2) by (simp add: word_less_nat_alt)
  have seek: "target_seek_start 0 ?u = (?v, Inr ())" by (simp add: target_seek_start_def)
  have av: "ahead ?v = ?cs" using ahead_advance [OF src hb] by (simp add: ahead_def)
  have n: "unat (total_chunks ?h) = length (si_chunks im)"
    using im(1) by (simp add: sparse_header_of_def image_ok_def unat_of_nat_u32)
  have total: "28 + length (si_ext im) + length ?cs = unat staged_size"
    using im(2,3) hb by (simp add: encode_image_header)
  obtain t acc where run: "flash_chunks os ?h e (length (si_chunks im)) (0, 0) ?v = (t, Inr acc)"
      "fi_target t = overlay (block_size ?h) (si_chunks im) 0 (fi_target ?v)" "consumed ?cs ?v t"
      "unat (fst acc) = sum_list (map (chunk_len (block_size ?h)) (si_chunks im))"
      "unat (snd acc) = data_size_of (block_size ?h) (si_chunks im)"
    using flash_chunks_ok [OF os, of ?h "si_chunks im" ?v "[]" "(0, 0)" e] im(1) av total small target ue
    by (auto simp: sparse_header_of_def image_ok_def)
  have fin: "fst acc = e" "fi_spos t = unat staged_size"
    using run(3,4) im(1) ue total by (simp_all add: word_unat_eq_iff image_ok_def sparse_header_of_def consumed_def)
  have opn: "map_err_prefix ''open '' (os_open os) = Inr ()" and sync: "os_sync_all os = Inr ()"
    using os by (simp_all add: os_ok_def os_reads_def)
  have "flash_sparse os partition_size staged_size s =
      (t, Inr \<lparr>st_expanded_size = e, written_size = snd acc, st_chunks = total_chunks ?h\<rparr>)"
    using hd e pe seek run(1) n fin opn sync
    by (simp add: flash_sparse_def source_seek_start_def target_open_def bind_st_eq)
  then show ?thesis using run by (simp add: sparse_header_of_def)
qed

section \<open>What a failing flash leaves behind\<close>

text \<open>Reading headers leaves the target alone.\<close>

definition same_target :: "flash_io \<Rightarrow> flash_io \<Rightarrow> bool" where
  "same_target s t \<longleftrightarrow> fi_target t = fi_target s \<and> fi_tpos t = fi_tpos s \<and> fi_source t = fi_source s"

interpretation reading: frame same_target
  by unfold_locales (auto simp: same_target_def)

lemma source_keeps [intro]:
  "reading.keeps (source_read_exact n)" "reading.keeps (source_seek_start n)" "reading.keeps (source_seek_current n)"
  by (auto simp: reading.keeps_def same_target_def source_read_exact_def source_seek_start_def source_seek_current_def)

lemma fields_keep [intro]:
  "reading.keeps sparse_read_u16_le" "reading.keeps sparse_read_u32_le" "reading.keeps (skip_input n)" "reading.keeps read_fill"
  by (auto simp: sparse_read_u16_le_def sparse_read_u32_le_def skip_input_def read_fill_def)

lemma headers_keep:
  "reading.keeps sparse_header_read_from" "reading.keeps (sparse_chunk_header_read_from hs)"
  unfolding sparse_header_read_from_def sparse_chunk_header_read_from_def
  by (intro reading.keeps_bind reading.keeps_if reading.keeps_lift reading.keeps_ret fields_keep)+

text \<open>Changes confined to the bytes from \<open>lo\<close> up to \<open>hi\<close>.\<close>

definition confined :: "nat \<Rightarrow> nat \<Rightarrow> flash_io \<Rightarrow> flash_io \<Rightarrow> bool" where
  "confined lo hi s t \<longleftrightarrow>
     fi_source t = fi_source s \<and> length (fi_target t) = length (fi_target s) \<and>
     (\<forall>i < length (fi_target s). i < lo \<or> hi \<le> i \<longrightarrow> fi_target t ! i = fi_target s ! i)"

lemma confined_trans: "confined lo hi s t \<Longrightarrow> confined lo' hi' t u \<Longrightarrow> lo \<le> lo' \<Longrightarrow> hi' \<le> hi \<Longrightarrow> confined lo hi s u"
  by (auto simp: confined_def)

lemma confined_mono: "confined lo hi s t \<Longrightarrow> hi \<le> hi' \<Longrightarrow> confined lo hi' s t"
  by (auto simp: confined_def)

lemma same_target_confined: "same_target s t \<Longrightarrow> confined lo hi s t"
  by (auto simp: same_target_def confined_def)

lemma wrote_confined: "wrote bs s t \<Longrightarrow> fi_tpos s + length bs \<le> hi \<Longrightarrow> confined (fi_tpos s) hi s t"
  by (auto simp: wrote_def confined_def nth_splice)

lemma flash_chunk_body_confined:
  assumes os: "os_sound os" and run: "flash_chunk_body os ch out np w s = (t, r)"
    and room: "fi_tpos s + unat out \<le> length (fi_target s)"
  shows "confined (fi_tpos s) (fi_tpos s + unat out) s t"
proof -
  have stay: "confined (fi_tpos s) (fi_tpos s + unat out) s u" if "same_target s u" for u
    by (rule same_target_confined [OF that])
  have self: "same_target s s" by (simp add: same_target_def)
  have last: "t = fst (m v)" if "bind_st m (\<lambda>_. lift_io x) v = (t, r)" for m :: "(flash_io, unit) sio" and x v
    using that by (cases "m v"; cases "snd (m v)") (auto simp: bind_st_def)
  consider (raw) "bind_st (copy_exact os (unat out)) (\<lambda>_. lift_io (checked_add_written w out)) s = (t, r)"
    | (fill) "bind_st read_fill (\<lambda>fill. bind_st (write_fill os fill (unat out)) (\<lambda>_. lift_io (checked_add_written w out))) s = (t, r)"
    | (seek) "fi_target t = fi_target s" "fi_source t = fi_source s"
    | (skip) "same_target s t"
  proof -
    have "fi_target (fst (bind_st (target_seek_start (unat np)) (\<lambda>_. ret w) s)) = fi_target s"
         "fi_source (fst (bind_st (target_seek_start (unat np)) (\<lambda>_. ret w) s)) = fi_source s"
      by (auto simp: bind_st_def target_seek_start_def)
    moreover have "same_target s (fst (bind_st (skip_input 4) (\<lambda>_. ret w) s))"
    proof -
      have "reading.keeps (bind_st (skip_input 4) (\<lambda>_. ret w))" by (intro reading.keeps_bind fields_keep reading.keeps_ret)
      then show ?thesis by (simp only: reading.keeps_def)
    qed
    ultimately show thesis using that run self
      by (simp add: flash_chunk_body_def split: if_split_asm)
  qed
  then show ?thesis
  proof cases
    case raw
    obtain q where cp: "copy_exact os (unat out) s = (t, q)" using last [of "copy_exact os (unat out)" _ s, OF raw] by (metis prod.collapse)
    then show ?thesis using copy_exact_sound [OF os room cp] wrote_confined by force
  next
    case fill
    obtain u q where rf: "read_fill s = (u, q)" by (cases "read_fill s")
    then have u: "same_target s u" using reading.keeps_run fields_keep(4) by blast
    show ?thesis
    proof (cases q)
      case (Inl e)
      then show ?thesis using fill rf u stay by (simp add: bind_st_eq)
    next
      case (Inr f)
      then have f: "length f = 4" using rf source_read_exact_reads by (auto simp: read_fill_def)
      have "bind_st (write_fill os f (unat out)) (\<lambda>_. lift_io (checked_add_written w out)) u = (t, r)"
        using fill rf Inr by (simp add: bind_st_eq)
      then have "t = fst (write_fill os f (unat out) u)" by (rule last)
      then obtain q' where wf: "write_buffer os (fill_buffer f) (unat out) u = (t, q')"
        by (metis prod.collapse write_fill_def)
      have room': "fi_tpos u + unat out \<le> length (fi_target u)" using room u by (simp add: same_target_def)
      obtain k where "k \<le> unat out" "wrote (take k (repeated (fill_buffer f) (unat out))) u t"
        using write_buffer_sound [OF os fill_buffer_not_Nil [OF f] room' wf] by blast
      then have "confined (fi_tpos u) (fi_tpos u + unat out) u t" by (intro wrote_confined) auto
      then show ?thesis using confined_trans [OF stay [OF u]] u by (simp add: same_target_def)
    qed
  qed (auto simp: confined_def same_target_def)
qed

lemma flash_chunk_confined:
  assumes os: "os_sound os" and run: "flash_chunk os h expanded pos w s = (t, r)"
    and tp: "fi_tpos s = unat pos" and room: "unat expanded \<le> length (fi_target s)"
  shows "confined (unat pos) (unat expanded) s t"
proof -
  obtain u q where hd: "sparse_chunk_header_read_from (chunk_header_size h) s = (u, q)" by fastforce
  have u: "same_target s u" by (rule reading.keeps_run [OF headers_keep(2) hd])
  note stay = same_target_confined [OF u, of "unat pos" "unat expanded"]
  show ?thesis
  proof (cases q)
    case (Inl e)
    then show ?thesis using run hd stay by (simp add: flash_chunk_def bind_st_eq)
  next
    case (Inr ch)
    let ?rest = "\<lambda>outsize. bind_st (lift_io (ok_or (IoError InvalidData ''Android sparse write position overflows'') (checked_add pos outsize)))
      (\<lambda>next_position. if expanded < next_position then throw (IoError InvalidData ''Android sparse chunks exceed declared expanded size'')
        else bind_st (flash_chunk_body os ch outsize next_position w) (\<lambda>w. ret (next_position, w)))"
    have run1: "bind_st (lift_io (output_size ch (block_size h))) ?rest u = (t, r)"
      using run hd Inr by (simp add: flash_chunk_def bind_st_eq del: checked_add_Some)
    show ?thesis
    proof (cases "output_size ch (block_size h)")
      case (Inl e)
      then show ?thesis using run1 stay by simp
    next
      case (Inr out)
      show ?thesis
      proof (cases "checked_add pos out")
        case None
        then show ?thesis using run1 Inr stay by simp
      next
        case (Some np)
        then have np: "unat np = unat pos + unat out" by simp
        show ?thesis
        proof (cases "expanded < np")
          case True
          then show ?thesis using run1 Inr Some stay by (simp del: checked_add_Some)
        next
          case False
          then have le: "unat np \<le> unat expanded" by (simp add: word_less_nat_alt)
          have "bind_st (flash_chunk_body os ch out np w) (\<lambda>w. ret (np, w)) u = (t, r)"
            using run1 Inr Some False by (simp del: checked_add_Some)
          moreover obtain t' q' where body: "flash_chunk_body os ch out np w u = (t', q')" by fastforce
          ultimately have "t = t'" by (cases q') (simp_all add: bind_st_eq)
          moreover have "confined (fi_tpos u) (fi_tpos u + unat out) u t'"
            using u tp np le room by (intro flash_chunk_body_confined [OF os body]) (simp add: same_target_def)
          ultimately show ?thesis
            using confined_trans [OF stay] u tp np le by (simp add: same_target_def)
        qed
      qed
    qed
  qed
qed

lemma flash_chunks_confined:
  assumes os: "os_sound os" and hs: "12 \<le> unat (chunk_header_size h)" and bs: "block_size h mod 4 = 0"
  shows "flash_chunks os h expanded n acc s = (t, r) \<Longrightarrow> fi_tpos s = unat (fst acc) \<Longrightarrow>
    unat expanded \<le> length (fi_target s) \<Longrightarrow> confined 0 (unat expanded) s t"
proof (induction n arbitrary: acc s)
  case 0
  then show ?case by (simp add: confined_def)
next
  case (Suc n)
  obtain u q where hd: "flash_chunk os h expanded (fst acc) (snd acc) s = (u, q)" by fastforce
  have "confined (unat (fst acc)) (unat expanded) s u" by (rule flash_chunk_confined [OF os hd Suc.prems(2,3)])
  then have u: "confined 0 (unat expanded) s u" by (auto simp: confined_def)
  show ?case
  proof (cases q)
    case (Inl e)
    then show ?thesis using Suc.prems(1) hd u by (simp add: bind_st_eq)
  next
    case (Inr acc1)
    then have run: "flash_chunks os h expanded n acc1 u = (t, r)" using Suc.prems(1) hd by (simp add: bind_st_eq)
    have "fi_tpos u = unat (fst acc1)"
      using flash_chunk_sound [OF os hs bs, of expanded "fst acc" "snd acc" s u "fst acc1" "snd acc1"] hd Inr Suc.prems(2,3) by auto
    then have "confined 0 (unat expanded) u t" using Suc.IH [OF run] Suc.prems(3) u by (simp add: confined_def)
    then show ?thesis using confined_trans [OF u] by simp
  qed
qed

text \<open>
  Whatever the payload and wherever the device fails, a sparse flash changes no byte at or beyond
  the expanded size its header declares, and none at all when that exceeds the partition.
\<close>

lemma flash_sparse_confined:
  assumes os: "os_sound os" and target: "length (fi_target s) = unat partition_size"
    and run: "flash_sparse os partition_size staged_size s = (t, r)"
  shows "\<exists>n \<le> unat partition_size. confined 0 n s t \<and>
    (\<forall>h u. sparse_header_read_from (s\<lparr>fi_spos := 0\<rparr>) = (u, Inr h) \<longrightarrow>
       n = (let e = unat (sh_total_blocks h) * unat (block_size h) in if e \<le> unat partition_size then e else 0))"
proof -
  let ?s = "s\<lparr>fi_spos := 0\<rparr>"
  obtain u q where hd: "sparse_header_read_from ?s = (u, q)" by fastforce
  have su: "same_target ?s u" by (rule reading.keeps_run [OF headers_keep(1) hd])
  then have stay: "confined 0 n s u" for n by (auto simp: same_target_def confined_def)
  show ?thesis
  proof (cases q)
    case (Inl e)
    then have "t = u" using run hd by (simp add: flash_sparse_def source_seek_start_def bind_st_eq)
    then show ?thesis using stay Inl hd by (intro exI [of _ 0]) simp
  next
    case (Inr h)
    let ?n = "unat (sh_total_blocks h) * unat (block_size h)"
    note run1 = run [unfolded flash_sparse_def source_seek_start_def bind_st_run]
    have hk: "12 \<le> unat (chunk_header_size h)" "block_size h mod 4 = 0"
      using sparse_header_reads [of ?s u h] hd Inr by (auto simp: header_ok_def)
    have "\<exists>e. expanded_size h = Inr e" 
    proof -
      have "?n < 2 ^ 32 * 2 ^ 32" using unat_less_u32 [of "sh_total_blocks h"] unat_less_u32 [of "block_size h"]
        by (intro mult_strict_mono) auto
      then show ?thesis by (simp add: expanded_size_def checked_mul_def)
    qed
    then obtain e where e: "expanded_size h = Inr e" by blast
    then have ue: "unat e = ?n" by (simp add: expanded_size_def)
    show ?thesis
    proof (cases "partition_size < e")
      case True
      then have "t = u" using run1 hd Inr e by (simp add: bind_st_eq)
      moreover have "\<not> ?n \<le> unat partition_size" using True ue by (simp add: word_less_nat_alt)
      ultimately show ?thesis using stay Inr hd by (intro exI [of _ 0]) auto
    next
      case False
      then have le: "?n \<le> unat partition_size" using ue by (simp add: word_less_nat_alt)
      have "confined 0 ?n s t"
      proof (cases "map_err_prefix ''open '' (os_open os)")
        case (Inl x)
        then have "t = u" using run1 hd Inr e False by (simp add: bind_st_eq target_open_def)
        then show ?thesis using stay by simp
      next
        case opn: (Inr x)
        let ?v = "u\<lparr>fi_tpos := 0\<rparr>"
        have "target_seek_start 0 u = (?v, Inr ())" by (simp add: target_seek_start_def)
        moreover obtain t' q' where ch: "flash_chunks os h e (unat (total_chunks h)) (0, 0) ?v = (t', q')" by fastforce
        ultimately have "t = t'"
          using run1 hd Inr e False opn
          by (cases q') (auto simp: bind_st_eq target_open_def bind_st_def split: if_split_asm sum.split_asm)
        moreover have "confined 0 (unat e) ?v t'"
          using su target le ue by (intro flash_chunks_confined [OF os hk ch]) (simp_all add: same_target_def)
        ultimately show ?thesis using su ue by (simp add: same_target_def confined_def)
      qed
      then show ?thesis using le hd Inr by (intro exI [of _ ?n]) (simp add: Let_def)
    qed
  qed
qed

end
