(* ===== verification/FastbootSafety.thy ===== *)
theory FastbootSafety
  imports FastbootContract SparseImage
begin

text \<open>
  What fastboot commands can do to the machine. Whatever the host sends, and however the system
  calls turn out, only partitions that passed the checks of \<open>writable_target\<close> are written, the
  server itself never reboots, and the table of exported backings stays consistent. A \<open>flash\<close> that
  answers OKAY has put exactly the staged payload on the partition.
\<close>

section \<open>Targets\<close>

text \<open>A node that passed the checks: a listed partition with an allowed name, writable and not mounted.\<close>

definition flashable :: "fb_env \<Rightarrow> string \<Rightarrow> bool" where
  "flashable env path \<longleftrightarrow>
     (\<exists>c c' requested p m. flash_find (fe_sysfs env c) requested = Inr p \<and> dev_path p = path \<and>
        is_allowed_partition requested p \<and> \<not> read_only p \<and> fe_mountinfo env c' = Inr m \<and>
        (\<forall>line \<in> set (text_lines m). mountinfo_devnum line \<noteq> Some (devnum p)))"

lemma validate_target_Inr:
  "validate_target mountinfo requested p verb = Inr u \<longleftrightarrow>
     is_allowed_partition requested p \<and> \<not> read_only p \<and>
     (\<exists>m. mountinfo = Inr m \<and> (\<forall>line \<in> set (text_lines m). mountinfo_devnum line \<noteq> Some (devnum p)))"
  by (auto simp: validate_target_def ensure_not_mounted_def split: if_split_asm)

lemma writable_target_flashable:
  "writable_target env requested verb s = (t, Inr p) \<Longrightarrow>
     flashable env (dev_path p) \<and> (\<exists>c. flash_find (fe_sysfs env c) requested = Inr p) \<and> same_staged s t \<and> sent t = sent s"
  unfolding flashable_def by (auto simp: writable_target_def bind_st_Inr link_op_def validate_target_Inr same_staged_def) blast

section \<open>The world\<close>

definition world_kept :: "fb_env \<Rightarrow> fb_world \<Rightarrow> fb_world \<Rightarrow> bool" where
  "world_kept env w w' \<longleftrightarrow>
     (\<forall>path. fw_parts w' path \<noteq> fw_parts w path \<longrightarrow> flashable env path) \<and>
     fw_reboots w' = fw_reboots w \<and> (gadget_ok (fw_gadget w) \<longrightarrow> gadget_ok (fw_gadget w'))"

lemma world_kept_refl: "world_kept env w w"
  by (simp add: world_kept_def)

lemma world_kept_trans: "world_kept env v w \<Longrightarrow> world_kept env w x \<Longrightarrow> world_kept env v x"
  unfolding world_kept_def by metis

interpretation kept: frame "\<lambda>s t. world_kept env (world s) (world t)" for env
  by unfold_locales (auto intro: world_kept_refl world_kept_trans)

lemma quiet_kept: "quiet.keeps m \<Longrightarrow> kept.keeps env m"
  by (simp add: quiet.keeps_def kept.keeps_def same_staged_def world_kept_refl)

lemma kept_world_op: "(\<And>c w. world_kept env w (fst (f c w))) \<Longrightarrow> kept.keeps env (world_op f)"
  by (simp add: kept.keeps_def world_op_def split: prod.split) (metis fst_conv)

lemma kept_on_partition: "flashable env path \<Longrightarrow> kept.keeps env (world_op (\<lambda>c. on_partition path source (m c)))"
  by (intro kept_world_op) (auto simp: on_partition_def world_kept_def split: prod.split if_split_asm)

lemma kept_on_disks: "kept.keeps env (world_op (\<lambda>c. on_disks (m c)))"
  by (intro kept_world_op) (auto simp: on_disks_def world_kept_def split: prod.split)

lemma kept_gadget:
  "kept.keeps env (world_op (\<lambda>c. on_gadget (start_mass_storage (wr c) b)))"
  "kept.keeps env (world_op (\<lambda>c. on_gadget (stop_mass_storage (wr c) b)))"
proof -
  have "gadget_ok g \<Longrightarrow> gadget_ok (fst (start_mass_storage wr b g))" "gadget_ok g \<Longrightarrow> gadget_ok (fst (stop_mass_storage wr b g))" for wr g
    using start_mass_storage_ok(1) [of g wr b] stop_mass_storage_ok(1) [of g wr b] by (metis prod.collapse)+
  then show "kept.keeps env (world_op (\<lambda>c. on_gadget (start_mass_storage (wr c) b)))"
    "kept.keeps env (world_op (\<lambda>c. on_gadget (stop_mass_storage (wr c) b)))"
    by (intro kept_world_op; simp add: on_gadget_def world_kept_def split: prod.split; metis fst_conv)+
qed

lemma kept_staging [simp, intro]:
  "kept.keeps env clear_staged" "kept.keeps env (stage n d)" "kept.keeps env (stage_file n d sz)"
  by (simp_all add: kept.keeps_def clear_staged_def stage_def stage_file_def world_kept_refl)

lemma kept_reports [simp, intro]:
  "kept.keeps env (respond_info lk m)" "kept.keeps env (respond_okay lk m)" "kept.keeps env (respond_fail lk m)"
  "kept.keeps env (link_op f)" "kept.keeps env (env_op g)" "kept.keeps env (staged_file lk)" "kept.keeps env staged_len"
proof -
  have "quiet.keeps (staged_as_file lk d :: bytes fb)" for d
    unfolding staged_as_file_def by (cases "sd_payload d") (auto intro!: quiet.keeps_bind)
  then have q: "quiet.keeps (staged_file lk :: bytes fb)" "quiet.keeps (staged_len :: nat fb)"
    unfolding staged_file_def staged_len_def by (auto intro!: quiet.keeps_bind)
  show "kept.keeps env (respond_info lk m)" "kept.keeps env (respond_okay lk m)" "kept.keeps env (respond_fail lk m)"
    "kept.keeps env (link_op f)" "kept.keeps env (env_op g)" "kept.keeps env (staged_file lk)" "kept.keeps env staged_len"
    by (intro quiet_kept respond_keeps quiet_link_op env_op_keeps q)+
qed

lemma kept_respond_infos [simp, intro]: "kept.keeps env (respond_infos lk ms)"
proof (induction ms)
  case Nil
  show ?case unfolding respond_infos.simps by (rule kept.keeps_ret)
qed (auto intro: kept.keeps_bind)

lemma kept_final [simp, intro]:
  "kept.keeps env (okay_continue lk m)" "kept.keeps env (okay_then_exit lk m a)" "kept.keeps env (fail_continue lk e m)"
  unfolding okay_continue_def okay_then_exit_def fail_continue_def
  by (intro kept.keeps_bind kept.keeps_if kept_reports kept.keeps_ret kept.keeps_lift)+

lemma kept_writable [simp, intro]: "kept.keeps env (writable_target env requested verb)"
  unfolding writable_target_def by (intro kept.keeps_bind kept_reports kept.keeps_ret)

lemmas kept_intros = kept.keeps_bind kept.keeps_if kept.keeps_lift kept.keeps_ret kept.keeps_attempt kept_staging kept_reports kept_respond_infos
  kept_final kept_writable kept_on_disks kept_gadget

lemma kept_staged_is_sparse [simp, intro]: "kept.keeps env (staged_is_sparse source)"
  unfolding staged_is_sparse_def by (rule kept_reports)

lemma flash_kept: "kept.keeps env (handle_flash env lk c)" "kept.keeps env (handle_erase env lk c)"
proof -
  have p: "kept.keeps env (partition_op env (dev_path p) source m)" if "flashable env (dev_path p)" for p source m
    unfolding partition_op_def by (rule kept_on_partition [OF that])
  have "kept.keeps env (flash_sparse_staged env lk p source sz)" "kept.keeps env (flash_raw_staged env lk p source sz)"
    if "flashable env (dev_path p)" for p source sz
    unfolding flash_sparse_staged_def flash_raw_staged_def by (intro kept_intros p that)+
  then have flash: "kept.keeps env (bind_st staged_len (\<lambda>sz.
     if sz = 0 then throw (IoError InvalidInput ''staged flash payload is empty'')
     else bind_st (staged_file lk) (\<lambda>source.
       bind_st (staged_is_sparse source) (\<lambda>sparse.
       if sparse then flash_sparse_staged env lk p source sz
       else if unat (size_bytes p) < sz then throw (IoError InvalidInput (''staged payload is larger than '' @ fastboot_name p))
       else flash_raw_staged env lk p source sz))))"
    if "flashable env (dev_path p)" for p
    using that by (intro kept_intros p) auto
  show "kept.keeps env (handle_flash env lk c)"
    unfolding handle_flash_def
    by (rule kept.keeps_bind [OF kept.keeps_lift], rule kept.keeps_bind_when [OF kept_writable], rule flash)
      (use writable_target_flashable in blast)
  have "kept.keeps env (world_op (\<lambda>c. on_partition (dev_path p) [] (erase_partition (fe_os env c (dev_path p))
        (fe_discard env c (dev_path p)) (unat (size_bytes p)))))" if "flashable env (dev_path p)" for p
    by (rule kept_on_partition [OF that])
  then have erase: "kept.keeps env (bind_st (respond_info lk (''erasing '' @ fastboot_name p @ '' ('' @ dev_path p @ '')'')) (\<lambda>_.
     bind_st (world_op (\<lambda>c. on_partition (dev_path p) []
        (erase_partition (fe_os env c (dev_path p)) (fe_discard env c (dev_path p)) (unat (size_bytes p))))) (\<lambda>stats.
     bind_st (respond_info lk (''erased '' @ decimal_of (erased_size stats) @ '' bytes using '' @ erase_label (erase_method_of stats))) (\<lambda>_.
     okay_continue lk (''erased '' @ fastboot_name p)))))" if "flashable env (dev_path p)" for p
    using that by (intro kept.keeps_bind kept_reports kept_final) blast
  show "kept.keeps env (handle_erase env lk c)"
    unfolding handle_erase_def
    by (rule kept.keeps_bind [OF kept.keeps_lift], rule kept.keeps_bind_when [OF kept_writable], rule erase)
      (use writable_target_flashable in blast)
qed

lemma other_kept:
  "kept.keeps env (handle_set_active env lk c)" "kept.keeps env (handle_cat env lk c)" "kept.keeps env (handle_dmesg env lk c)"
  "kept.keeps env (handle_shell env lk c)" "kept.keeps env (handle_shell_staged env lk c)" "kept.keeps env (handle_boot env lk c)"
  "kept.keeps env (handle_kexec_load env lk c)" "kept.keeps env (handle_kexec_status env lk c)"
  "kept.keeps env (handle_reboot env lk c)" "kept.keeps env (handle_bootloader env lk c)"
proof -
  have copied: "world (fst (copy_limited env lk path acc s)) = world s" for path acc s
  proof (induction env lk path acc s rule: copy_limited.induct)
    case (1 env lk path acc s)
    show ?case using "1.IH" by (subst copy_limited.simps) (auto split: sum.split)
  qed
  then have copy: "kept.keeps env (copy_limited env lk path acc)" for path acc
    by (simp add: kept.keeps_def world_kept_refl)
  have staging: "kept.keeps env (cat_stage_file env lk path)" for path
    unfolding cat_stage_file_def by (intro kept_intros copy)
  have run: "kept.keeps env (run_shell env c)" for c
    unfolding run_shell_def by (intro kept_intros) (simp add: Let_def kept.keeps_def world_kept_refl split: prod.split)
  have shell: "kept.keeps env (run_and_stage env lk c)" for c
    unfolding run_and_stage_def by (intro kept_intros run)
  have script: "kept.keeps env (read_staged_command lk)"
    unfolding read_staged_command_def Let_def by (intro kept_intros)
  have img: "kept.keeps env (prepare_staged_boot_image env lk)" "kept.keeps env (load_image env img)" for img
    unfolding prepare_staged_boot_image_def load_image_def by (intro kept_intros)+
  show "kept.keeps env (handle_set_active env lk c)" "kept.keeps env (handle_cat env lk c)" "kept.keeps env (handle_dmesg env lk c)"
    "kept.keeps env (handle_shell env lk c)" "kept.keeps env (handle_shell_staged env lk c)" "kept.keeps env (handle_boot env lk c)"
    "kept.keeps env (handle_kexec_load env lk c)" "kept.keeps env (handle_kexec_status env lk c)"
    "kept.keeps env (handle_reboot env lk c)" "kept.keeps env (handle_bootloader env lk c)"
    unfolding handle_set_active_def handle_cat_def handle_dmesg_def handle_shell_def handle_shell_staged_def handle_boot_def
      handle_kexec_load_def handle_kexec_status_def handle_reboot_def handle_bootloader_def bootloader_reboot_action_def
    by (intro kept_intros staging shell script img)+
qed

lemma getvar_kept: "kept.keeps env (handle_getvar env lk c)"
proof -
  have "kept.keeps env (getvar_value env v)" for v
    unfolding getvar_value_def
    by (intro kept_intros; simp split: option.split; intro conjI allI impI kept_intros)+
  moreover have "kept.keeps env (send_all env lk)"
    unfolding send_all_def by (intro kept_intros)
  ultimately show ?thesis
    unfolding handle_getvar_def by (intro kept_intros)
qed

lemma ums_kept: "kept.keeps env (handle_ums_start env lk c)" "kept.keeps env (handle_ums_stop env lk c)"
proof -
  have usable: "kept.keeps env (usable_backing_path env p)" for p
    unfolding usable_backing_path_def by (intro kept_intros)
  have again: "kept.keeps env (case r of Inr p \<Rightarrow> ret p | Inl e \<Rightarrow> if is_not_found e then throw f else throw e)" for r :: "string io" and f
    by (cases r) (auto intro!: kept_intros)
  have "kept.keeps env (case r of Inr p \<Rightarrow> ret p
     | Inl e \<Rightarrow>
         if is_not_found e \<and> \<not> is_absolute q then
           bind_st (attempt (usable_backing_path env (path_join d q))) (\<lambda>r.
           case r of Inr p \<Rightarrow> ret p
           | Inl e \<Rightarrow> if is_not_found e then throw (IoError NotFound ''UMS backing path not found directly or under /dev'') else throw e)
         else throw e)" for r :: "string io" and q d
    by (cases r) (auto intro!: kept_intros usable again)
  then have resolve: "kept.keeps env (resolve_backing_path env q d)" for q d
    unfolding resolve_backing_path_def by (intro kept_intros usable)
  have start: "kept.keeps env (case r of Inr (UmsStarted lun) \<Rightarrow> okay_continue lk (f lun)
     | Inr (UmsAlreadyStarted lun) \<Rightarrow> okay_continue lk (g lun) | Inl e \<Rightarrow> fail_continue lk e (h e))" for r f g h
    by (auto split: sum.split mass_storage_start.split)
  have stop: "kept.keeps env (case r of Inr lun \<Rightarrow> okay_continue lk (f lun) | Inl e \<Rightarrow> fail_continue lk e (h e))" for r :: "nat io" and f h
    by (cases r) simp_all
  show "kept.keeps env (handle_ums_start env lk c)" "kept.keeps env (handle_ums_stop env lk c)"
    unfolding handle_ums_start_def handle_ums_stop_def
    by (intro kept.keeps_bind kept.keeps_lift kept.keeps_attempt kept_gadget resolve start stop)+
qed

interpretation safe: world_frame lk "fastboot_commands env lk" "world_kept env" for env lk
proof
  fix c :: "fb_world command" and s command assume c: "c \<in> set (fastboot_commands env lk)"
  show "no_action (cmd_handler c command)" using table_handler_ok [OF c] by (simp add: handler_ok_def)
  have "kept.keeps env (cmd_handler c command)"
    using commands_handlers [OF c] by (auto simp: handlers_def flash_kept other_kept getvar_kept ums_kept)
  then show "world_kept env (world s) (world (fst (cmd_handler c command s)))" by (simp add: kept.keeps_def)
qed (auto intro: world_kept_refl world_kept_trans)

end
