(* ===== verification/FastbootFacts.thy ===== *)
theory FastbootFacts
  imports FastbootSafety
begin

text \<open>
  The theorems on fastboot: the answers of the server, its staging area, what commands write, what
  an acknowledged \<open>flash\<close> has stored, and that downloads come back unchanged.
\<close>

section \<open>Flashing\<close>

lemma partition_op_Inr:
  "partition_op env path source m s = (t, Inr x) \<longleftrightarrow>
     (\<exists>f. m (fe_os env (clock s) path) \<lparr>fi_source = source, fi_spos = 0, fi_target = fw_parts (world s) path, fi_tpos = 0\<rparr> = (f, Inr x) \<and>
        t = s\<lparr>clock := Suc (clock s), world := (world s)\<lparr>fw_parts := (fw_parts (world s))(path := fi_target f)\<rparr>\<rparr>)"
  by (auto simp: partition_op_def world_op_def on_partition_def split: prod.splits)

lemma is_sparse_image_run:
  "is_sparse_image f = (f\<lparr>fi_spos := 0\<rparr>, Inr (take 4 (fi_source f) = ANDROID_SPARSE_MAGIC))"
proof -
  have "take 4 xs = ANDROID_SPARSE_MAGIC \<Longrightarrow> length (take 4 xs) = length ANDROID_SPARSE_MAGIC" for xs by simp
  then show ?thesis by (auto simp: is_sparse_image_def source_seek_start_def simp del: length_take)
qed

lemma sparse_test:
  "staged_is_sparse source s = (t, Inr x) \<longleftrightarrow>
     x = (take 4 source = ANDROID_SPARSE_MAGIC) \<and> t = s\<lparr>clock := Suc (clock s)\<rparr>"
  by (auto simp: staged_is_sparse_def link_op_def is_sparse_image_run)

lemma quiet_run: "quiet.keeps m \<Longrightarrow> m s = (t, r) \<Longrightarrow> world t = world s \<and> staged t = staged s"
  using quiet.keeps_run [of m s t r] by (simp add: same_staged_def)

lemma okay_continue_run: "okay_continue lk m s = (t, Inr r) \<Longrightarrow> world t = world s"
  using quiet_run [of "respond_okay lk m" s] respond_keeps(3) by (auto simp: okay_continue_def bind_st_Inr)

lemma info_run: "respond_info lk m s = (t, Inr u) \<Longrightarrow> world t = world s \<and> staged t = staged s"
  using quiet_run [of "respond_info lk m" s] respond_keeps(2) by blast

lemma staged_file_Inr:
  "staged_file lk s = (t, Inr source) \<Longrightarrow> staged s = Some d \<Longrightarrow> source = payload_bytes d \<and> world t = world s \<and> staged t = staged s"
  by (cases "sd_payload d") (auto simp: staged_file_def staged_as_file_def bind_st_Inr link_op_def payload_bytes_def)

lemma staged_len_Inr: "staged_len s = (t, Inr n) \<longleftrightarrow> t = s \<and> (\<exists>d. staged s = Some d \<and> n = staged_len_of d)"
  by (auto simp: staged_len_def)

text \<open>The bytes a payload puts on a partition: its raw data, or the data of the sparse image it encodes.\<close>

definition stored :: "bytes \<Rightarrow> bytes \<Rightarrow> bytes \<Rightarrow> bool" where
  "stored payload old new \<longleftrightarrow>
     (if take 4 payload = ANDROID_SPARSE_MAGIC
      then \<exists>im. image_ok im \<and> payload = encode_image im \<and> image_size im \<le> length old \<and>
             new = overlay (si_block_size im) (si_chunks im) 0 old
      else length payload \<le> length old \<and> new = splice old 0 payload)"

lemma flash_sparse_stored:
  assumes run: "flash_sparse_staged env lk p source sz s = (t, Inr r)" and os: "\<And>c. os_sound (fe_os env c (dev_path p))"
    and size: "length (fw_parts (world s) (dev_path p)) = unat (size_bytes p)" "sz = length source" "sz < 2 ^ 64"
    and magic: "take 4 source = ANDROID_SPARSE_MAGIC"
  shows "stored source (fw_parts (world s) (dev_path p)) (fw_parts (world t) (dev_path p)) \<and>
    fw_parts (world t) = (fw_parts (world s))(dev_path p := fw_parts (world t) (dev_path p))"
proof -
  from run obtain u u2 v stats v2 u3 m3 m4 where
    u: "respond_info lk (''flashing sparse image to '' @ fastboot_name p @ '' ('' @ dev_path p @ '')'') s = (u, Inr u2)"
    and st: "partition_op env (dev_path p) source (\<lambda>os. flash_sparse os (size_bytes p) (of_nat sz)) u = (v, Inr stats)"
    and last: "respond_info lk m3 v = (v2, Inr u3)" "okay_continue lk m4 v2 = (t, Inr r)"
    unfolding flash_sparse_staged_def bind_st_Inr by blast
  have wu: "world u = world s" and w: "world t = world v"
    using info_run [OF u] info_run [OF last(1)] okay_continue_run [OF last(2)] by simp_all
  obtain f where f: "flash_sparse (fe_os env (clock u) (dev_path p)) (size_bytes p) (of_nat sz)
      \<lparr>fi_source = source, fi_spos = 0, fi_target = fw_parts (world s) (dev_path p), fi_tpos = 0\<rparr> = (f, Inr stats)"
    and v: "fw_parts (world v) = (fw_parts (world s))(dev_path p := fi_target f)"
    using st wu by (auto simp: partition_op_Inr)
  note snd = flash_sparse_sound [OF os _ _ f]
  have "unat (of_nat sz :: u64) = sz" using size(3) by (simp add: unat_of_nat_u64)
  then show ?thesis using snd size magic v w unfolding stored_def by auto
qed

lemma flash_raw_stored:
  assumes run: "flash_raw_staged env lk p source sz s = (t, Inr r)" and os: "\<And>c. os_sound (fe_os env c (dev_path p))"
    and size: "length (fw_parts (world s) (dev_path p)) = unat (size_bytes p)" "sz = length source" "sz \<le> unat (size_bytes p)"
    and magic: "take 4 source \<noteq> ANDROID_SPARSE_MAGIC"
  shows "stored source (fw_parts (world s) (dev_path p)) (fw_parts (world t) (dev_path p)) \<and>
    fw_parts (world t) = (fw_parts (world s))(dev_path p := fw_parts (world t) (dev_path p))"
proof -
  from run obtain u u2 v n v2 u3 m3 m4 where
    u: "respond_info lk (''flashing '' @ decimal_of sz @ '' bytes to '' @ fastboot_name p @ '' ('' @ dev_path p @ '')'') s = (u, Inr u2)"
    and st: "partition_op env (dev_path p) source (\<lambda>os. flash_raw os sz) u = (v, Inr n)"
    and last: "respond_info lk m3 v = (v2, Inr u3)" "okay_continue lk m4 v2 = (t, Inr r)"
    unfolding flash_raw_staged_def bind_st_Inr by blast
  have wu: "world u = world s" and w: "world t = world v"
    using info_run [OF u] info_run [OF last(1)] okay_continue_run [OF last(2)] by simp_all
  obtain f where f: "flash_raw (fe_os env (clock u) (dev_path p)) sz
      \<lparr>fi_source = source, fi_spos = 0, fi_target = fw_parts (world s) (dev_path p), fi_tpos = 0\<rparr> = (f, Inr n)"
    and v: "fw_parts (world v) = (fw_parts (world s))(dev_path p := fi_target f)"
    using st wu by (auto simp: partition_op_Inr)
  have "fi_target f = splice (fw_parts (world s) (dev_path p)) 0 source"
    using flash_raw_sound [OF os _ f] size by auto
  then show ?thesis using size magic v w unfolding stored_def by auto
qed

lemma handle_flash_stored:
  assumes run: "handle_flash env lk command s = (t, Inr r)" and os: "\<And>c path. os_sound (fe_os env c path)"
    and sizes: "\<And>c requested p. flash_find (fe_sysfs env c) requested = Inr p \<Longrightarrow>
      length (fw_parts (world s) (dev_path p)) = unat (size_bytes p)"
    and d: "staged s = Some d" "staged_ok (staged s)" "length (payload_bytes d) < 2 ^ 64"
  shows "\<exists>requested p c. command = ''flash:'' @ requested \<and> flash_find (fe_sysfs env c) requested = Inr p \<and> flashable env (dev_path p) \<and>
    stored (payload_bytes d) (fw_parts (world s) (dev_path p)) (fw_parts (world t) (dev_path p)) \<and>
    (\<forall>path. path \<noteq> dev_path p \<longrightarrow> fw_parts (world t) path = fw_parts (world s) path)"
proof -
  from run obtain requested p u sz v source sparse where
    req: "parse_flash_partition command = Inr requested"
    and p: "writable_target env requested ''flashing'' s = (u, Inr p)"
    and sz: "staged_len u = (u, Inr sz)" and src: "staged_file lk u = (v, Inr source)"
    and sparse: "sparse = (take 4 source = ANDROID_SPARSE_MAGIC)"
    and last: "(if sparse then flash_sparse_staged env lk p source sz
       else if unat (size_bytes p) < sz then throw (IoError InvalidInput (''staged payload is larger than '' @ fastboot_name p))
       else flash_raw_staged env lk p source sz) (v\<lparr>clock := Suc (clock v)\<rparr>) = (t, Inr r)"
    by (auto simp: handle_flash_def bind_st_Inr sparse_test staged_len_Inr split: if_split_asm)
  obtain c where c: "flashable env (dev_path p)" "flash_find (fe_sysfs env c) requested = Inr p" "same_staged s u"
    using writable_target_flashable [OF p] by blast
  have source: "source = payload_bytes d" "world v = world s"
    using staged_file_Inr [OF src, of d] c(3) d(1) by (simp_all add: same_staged_def)
  have "sz = length source"
    using sz d(1,2) c(3) source by (cases "sd_payload d") (auto simp: staged_len_Inr same_staged_def staged_len_of_def payload_bytes_def staged_ok_def)
  moreover have "command = ''flash:'' @ requested"
    using req by (auto simp: parse_flash_partition_def parse_partition_def FLASH_COMMAND_PREFIX_def split: if_split_asm)
  moreover have "stored source (fw_parts (world s) (dev_path p)) (fw_parts (world t) (dev_path p)) \<and>
    fw_parts (world t) = (fw_parts (world s))(dev_path p := fw_parts (world t) (dev_path p))"
  proof (cases sparse)
    case True
    then show ?thesis
      using flash_sparse_stored [OF _ os, of lk p source sz "v\<lparr>clock := Suc (clock v)\<rparr>" t r] last sparse sizes [OF c(2)] source d(3) \<open>sz = length source\<close> by simp
  next
    case False
    then show ?thesis
      using flash_raw_stored [OF _ os, of lk p source sz "v\<lparr>clock := Suc (clock v)\<rparr>" t r] last sparse sizes [OF c(2)] source \<open>sz = length source\<close>
      by (auto split: if_split_asm)
  qed
  ultimately show ?thesis using c(1,2) source(1) by (metis fun_upd_other)
qed

section \<open>Flashing succeeds\<close>

lemma write_info_chunks_ok:
  assumes "link_writes lk" "\<forall>c \<in> set cs. length c \<le> RESPONSE_PAYLOAD_MAX"
  shows "\<exists>t. write_info_chunks lk cs s = (t, Inr ()) \<and> same_staged s t"
  using assms(2)
proof (induction cs arbitrary: s)
  case (Cons c cs)
  let ?u = "fst (send_buffer lk (bytes_of ''INFO'' @ c) s)"
  have "write_packet lk ''INFO'' c s = (?u, Inr ())"
    using assms(1) Cons.prems by (simp add: write_packet_def send_buffer_def link_writes_def)
  moreover obtain t where "write_info_chunks lk cs ?u = (t, Inr ())" "same_staged ?u t" using Cons by auto
  moreover have "same_staged s ?u" by (simp add: send_buffer_def same_staged_def)
  ultimately show ?case by (auto simp: bind_st_eq intro: quiet.related_trans)
qed (simp add: quiet.related_refl)

lemma chunks_of_length: "0 < n \<Longrightarrow> c \<in> set (chunks_of n xs) \<Longrightarrow> length c \<le> n"
proof (induction n xs rule: chunks_of.induct)
  case (1 n xs)
  then show ?case by (subst (asm) (2) chunks_of.simps) (auto split: if_split_asm)
qed

lemma respond_info_ok: "link_writes lk \<Longrightarrow> \<exists>t. respond_info lk m s = (t, Inr ()) \<and> same_staged s t"
  unfolding respond_info_def by (rule write_info_chunks_ok) (auto intro!: chunks_of_length)

lemma okay_continue_ok: "link_writes lk \<Longrightarrow> \<exists>t. okay_continue lk m s = (t, Inr continue_result)"
  using respond_final(1) [of lk m s] by (cases "respond_okay lk m s") (auto simp: okay_continue_def bind_st_def)

lemma flash_raw_ok:
  assumes os: "os_ok os" and n: "n \<le> length (fi_target s)" "n \<le> length (fi_source s)"
  shows "\<exists>t. flash_raw os n s = (t, Inr n)"
proof -
  let ?s = "s\<lparr>fi_spos := 0\<rparr>" and ?u = "s\<lparr>fi_spos := 0, fi_tpos := 0\<rparr>"
  have "snd (copy_exact os n ?u) = Inr ()" using n by (intro copy_exact_ok [OF os]) auto
  then obtain v where v: "copy_exact os n ?u = (v, Inr ())" by (cases "copy_exact os n ?u") simp
  have seek: "target_seek_start 0 ?s = (?u, Inr ())" by (simp add: target_seek_start_def)
  have sync: "os_open os = Inr ()" "os_sync_all os = Inr ()" using os by (simp_all add: os_ok_def os_reads_def)
  show ?thesis
    using v seek sync by (simp add: flash_raw_def source_seek_start_def target_open_def bind_st_eq map_err_prefix_def)
qed

lemma flash_sparse_staged_ok:
  assumes lk: "link_writes lk" and os: "\<And>c. os_ok (fe_os env c (dev_path p))"
    and im: "image_ok im" "source = encode_image im" "image_size im \<le> unat (size_bytes p)"
    and size: "length (fw_parts (world s) (dev_path p)) = unat (size_bytes p)" "unat (size_bytes p) < 2 ^ 63" "length source < 2 ^ 62"
  shows "\<exists>t. flash_sparse_staged env lk p source (length source) s = (t, Inr continue_result)"
proof -
  obtain u where u: "respond_info lk (''flashing sparse image to '' @ fastboot_name p @ '' ('' @ dev_path p @ '')'') s = (u, Inr ())"
      "same_staged s u" using respond_info_ok [OF lk] by blast
  let ?f = "\<lparr>fi_source = source, fi_spos = 0, fi_target = fw_parts (world u) (dev_path p), fi_tpos = 0\<rparr>"
  have len: "unat (of_nat (length source) :: u64) = length source" using size(3) by (simp add: unat_of_nat_u64)
  obtain f stats where f: "flash_sparse (fe_os env (clock u) (dev_path p)) (size_bytes p) (of_nat (length source)) ?f = (f, Inr stats)"
    using flash_sparse_ok [OF os im(1), of ?f "of_nat (length source)" "size_bytes p" "clock u"] im size u(2) len
    by (auto simp: same_staged_def)
  let ?v = "u\<lparr>clock := Suc (clock u), world := (world u)\<lparr>fw_parts := (fw_parts (world u))(dev_path p := fi_target f)\<rparr>\<rparr>"
  have v: "partition_op env (dev_path p) source (\<lambda>os. flash_sparse os (size_bytes p) (of_nat (length source))) u = (?v, Inr stats)"
    using f by (auto simp: partition_op_Inr)
  let ?m = "''wrote '' @ decimal_of (unat (written_size stats)) @ '' data bytes from '' @ decimal_of (unat (st_chunks stats)) @
    '' sparse chunks; expanded size '' @ decimal_of (unat (st_expanded_size stats)) @ '' bytes''"
  obtain w where w: "respond_info lk ?m ?v = (w, Inr ())" using respond_info_ok [OF lk] by blast
  show ?thesis
    using okay_continue_ok [OF lk] u v w by (simp add: flash_sparse_staged_def bind_st_eq)
qed

lemma flash_raw_staged_ok:
  assumes lk: "link_writes lk" and os: "\<And>c. os_ok (fe_os env c (dev_path p))"
    and size: "length (fw_parts (world s) (dev_path p)) = unat (size_bytes p)" "length source \<le> unat (size_bytes p)"
  shows "\<exists>t. flash_raw_staged env lk p source (length source) s = (t, Inr continue_result)"
proof -
  obtain u where u: "respond_info lk (''flashing '' @ decimal_of (length source) @ '' bytes to '' @ fastboot_name p @ '' ('' @ dev_path p @ '')'') s = (u, Inr ())"
      "same_staged s u" using respond_info_ok [OF lk] by blast
  let ?f = "\<lparr>fi_source = source, fi_spos = 0, fi_target = fw_parts (world u) (dev_path p), fi_tpos = 0\<rparr>"
  obtain f where f: "flash_raw (fe_os env (clock u) (dev_path p)) (length source) ?f = (f, Inr (length source))"
    using flash_raw_ok [OF os, of "length source" ?f "clock u"] size u(2) by (auto simp: same_staged_def)
  let ?v = "u\<lparr>clock := Suc (clock u), world := (world u)\<lparr>fw_parts := (fw_parts (world u))(dev_path p := fi_target f)\<rparr>\<rparr>"
  have v: "partition_op env (dev_path p) source (\<lambda>os. flash_raw os (length source)) u = (?v, Inr (length source))"
    using f by (auto simp: partition_op_Inr)
  obtain w where w: "respond_info lk (''wrote '' @ decimal_of (length source) @ '' bytes'') ?v = (w, Inr ())"
    using respond_info_ok [OF lk] by blast
  show ?thesis
    using okay_continue_ok [OF lk] u v w by (simp add: flash_raw_staged_def bind_st_eq)
qed

text \<open>A payload that fits a partition: raw data, or a well-formed sparse image.\<close>

definition fits_partition :: "bytes \<Rightarrow> nat \<Rightarrow> bool" where
  "fits_partition payload n \<longleftrightarrow>
     payload \<noteq> [] \<and> length payload < 2 ^ 62 \<and>
     (if take 4 payload = ANDROID_SPARSE_MAGIC
      then \<exists>im. image_ok im \<and> payload = encode_image im \<and> image_size im \<le> n
      else length payload \<le> n)"

lemma handle_flash_ok:
  assumes lk: "link_writes lk" "memory_ok lk" and os: "\<And>c. os_ok (fe_os env c (dev_path p))"
    and target: "requested \<noteq> []" "\<And>c. flash_find (fe_sysfs env c) requested = Inr p"
      "\<And>c. validate_target (fe_mountinfo env c) requested p ''flashing'' = Inr ()"
    and size: "length (fw_parts (world s) (dev_path p)) = unat (size_bytes p)" "unat (size_bytes p) < 2 ^ 63"
    and d: "staged s = Some d" "staged_ok (staged s)" "fits_partition (payload_bytes d) (unat (size_bytes p))"
  shows "\<exists>t. handle_flash env lk (''flash:'' @ requested) s = (t, Inr continue_result)"
proof -
  let ?u = "s\<lparr>clock := Suc (Suc (clock s))\<rparr>"
  have u: "writable_target env requested ''flashing'' s = (?u, Inr p)"
    using target by (simp add: writable_target_def link_op_def bind_st_def)
  have len: "staged_len_of d = length (payload_bytes d)"
    using d(1,2) by (cases "sd_payload d") (auto simp: staged_len_of_def payload_bytes_def staged_ok_def)
  obtain v where v: "staged_file lk ?u = (v, Inr (payload_bytes d))"
    using d(1) lk(2) by (cases "sd_payload d")
      (auto simp: staged_file_def staged_as_file_def payload_bytes_def link_op_def bind_st_def memory_ok_def)
  let ?w = "v\<lparr>clock := Suc (clock v)\<rparr>"
  have w: "staged_is_sparse (payload_bytes d) v =
      (?w, Inr (take 4 (payload_bytes d) = ANDROID_SPARSE_MAGIC))" by (simp add: sparse_test)
  have ww: "fw_parts (world ?w) (dev_path p) = fw_parts (world s) (dev_path p)"
    using staged_file_Inr [OF v, of d] d(1) by simp
  have ne: "payload_bytes d \<noteq> []" using d(3) by (simp add: fits_partition_def)
  have "\<exists>t. (if take 4 (payload_bytes d) = ANDROID_SPARSE_MAGIC then flash_sparse_staged env lk p (payload_bytes d) (length (payload_bytes d))
       else if unat (size_bytes p) < length (payload_bytes d)
         then throw (IoError InvalidInput (''staged payload is larger than '' @ fastboot_name p))
         else flash_raw_staged env lk p (payload_bytes d) (length (payload_bytes d))) ?w = (t, Inr continue_result)"
  proof (cases "take 4 (payload_bytes d) = ANDROID_SPARSE_MAGIC")
    case True
    then obtain im where "image_ok im" "payload_bytes d = encode_image im" "image_size im \<le> unat (size_bytes p)"
        "length (payload_bytes d) < 2 ^ 62"
      using d(3) by (auto simp: fits_partition_def)
    then show ?thesis
      using flash_sparse_staged_ok [OF lk(1) os, of im "payload_bytes d" ?w] True size ww by simp
  next
    case False
    then have "length (payload_bytes d) \<le> unat (size_bytes p)" using d(3) by (simp add: fits_partition_def)
    then show ?thesis
      using flash_raw_staged_ok [OF lk(1) os, of ?w "payload_bytes d"] False size ww by simp
  qed
  moreover have "parse_flash_partition (''flash:'' @ requested) = Inr requested"
    using target(1) by (simp add: parse_flash_partition_def parse_partition_def FLASH_COMMAND_PREFIX_def)
  moreover have "staged_len ?u = (?u, Inr (length (payload_bytes d)))"
    using d(1) len by (simp add: staged_len_Inr)
  ultimately show ?thesis
    using u v w ne by (simp add: handle_flash_def bind_st_eq)
qed

end
