(* ===== verification/FastbootResults.thy ===== *)
theory FastbootResults
  imports FastbootFacts
begin

text \<open>
  The properties of fastboot, each on the table of the loader, with a machine they are applied to:
  one flash disk with one partition, devices that take a byte at a time and a link that works.
\<close>

section \<open>A machine\<close>

definition demo_sysfs :: flash_sysfs where
  "demo_sysfs = Inr [Inr \<lparr>fsd_name = ''mmcblk0'', fsd_canonical = None, fsd_removable = None, fsd_ro = None,
     fsd_entries = Inr [Inr \<lparr>fsp_name = ''mmcblk0p1'', fsp_partition = True, fsp_dev_exists = True, fsp_dev = Some ''179:1'',
        fsp_size = Some ''1'', fsp_ro = None, fsp_uevent = Some ''PARTNAME=boot''\<rparr>]\<rparr>]"

definition demo_partition :: flash_partition where
  "demo_partition = \<lparr>kernel_name = ''mmcblk0p1'', fp_partname = Some ''boot'', dev_path = ''/dev/mmcblk0p1'', devnum = ''179:1'',
     size_bytes = 512, read_only = False\<rparr>"

definition demo_env :: "os_calls \<Rightarrow> fb_env" where
  "demo_env os = \<lparr>fe_sysfs = \<lambda>_. demo_sysfs, fe_mountinfo = \<lambda>_. Inr ''24 1 0:22 / /proc rw'', fe_os = \<lambda>_ _. os,
     fe_discard = \<lambda>_ _ c a b. (c, Inr ()), fe_system = \<lambda>_. \<lparr>sys_block = Inr [], sys_os = \<lambda>_. os\<rparr>, fe_cmdline = \<lparr>args = []\<rparr>,
     fe_serialno = ''demo'', fe_fdt_compatible = \<lambda>_. Inl (IoError NotFound []), fe_file_open = \<lambda>_ _. Inl (IoError NotFound []),
     fe_file_read = \<lambda>_ _. Inr [], fe_kmsg = \<lambda>_. Inl (IoError NotFound []), fe_kexec_loaded = \<lambda>_. Inr ''0'',
     fe_metadata = \<lambda>_ _. Inl (IoError NotFound []), fe_canonicalize = \<lambda>_ _. Inl (IoError NotFound []),
     fe_attribute = \<lambda>_ _ _. Inr (), fe_reboot_class = \<lambda>_. Inr [], fe_reboot = \<lambda>_. Inr (),
     fe_shell = \<lambda>_ _. Inl (IoError NotFound []), fe_boot_header = \<lambda>_. Inl [], fe_qcdt = \<lambda>_. Inl [], fe_dtbh = \<lambda>_. Inl [],
     fe_decoders = demo_decoders, fe_payloads = \<lparr>pf_open = \<lambda>_. Inl (IoError NotFound []), pf_create = Inr (), pf_store = \<lambda>bs. Inr (Inr bs)\<rparr>,
     fe_kexec_load = \<lambda>_ _ _. Inr (), fe_trampoline = demo_syms, fe_iomem = \<lambda>_. Inl (IoError NotFound []),
     fe_firmware_fdt = \<lambda>_. Inl (IoError NotFound [])\<rparr>"

definition demo_link :: "(nat \<Rightarrow> string) \<Rightarrow> link" where
  "demo_link packets = \<lparr>lk_read = \<lambda>c. Inr (bytes_of (packets c)), lk_read_exact = \<lambda>c n. Inr (replicate n 7), lk_write = \<lambda>_ _. Inr (),
     lk_get_flags = \<lambda>_. Inr 0, lk_set_flags = \<lambda>_ _. Inr (), lk_write_fd = \<lambda>_ buf. Inr (length buf), lk_memory = \<lambda>_. Inr ()\<rparr>"

definition demo_world :: fb_world where
  "demo_world = \<lparr>fw_parts = (\<lambda>_. replicate 512 0), fw_disks = (\<lambda>_. []),
     fw_gadget = \<lparr>gd_registered = False, gd_udc = False, gd_function_dir = None, gd_slots = [], gd_files = (\<lambda>_. None)\<rparr>, fw_reboots = []\<rparr>"

definition demo_server :: "fb_world server" where
  "demo_server = \<lparr>clock = 0, sent = [], staged = Some \<lparr>sd_label = ''download'', sd_payload = MemoryPayload [1, 2, 3]\<rparr>, world = demo_world\<rparr>"

lemma demo_link_ok: "link_writes (demo_link packets)" "memory_ok (demo_link packets)" "link_reads (demo_link packets)"
    "link_exact (demo_link packets)"
  by (auto simp: link_writes_def memory_ok_def link_reads_def link_exact_def demo_link_def)

lemma demo_machine [simp]:
  "fe_os (demo_env os) c path = os" "dev_path demo_partition = ''/dev/mmcblk0p1''" "size_bytes demo_partition = 512"
  "fw_parts (world demo_server) path = replicate 512 0"
  "staged demo_server = Some \<lparr>sd_label = ''download'', sd_payload = MemoryPayload [1, 2, 3]\<rparr>"
  by (simp_all add: demo_env_def demo_partition_def demo_server_def demo_world_def)

lemma demo_list: "flash_list demo_sysfs = Inr [demo_partition]"
proof -
  have "parse_radix 10 (2 ^ 64) ''1'' = Some 1" by (simp add: parse_radix_def digit_value_def)
  then have size: "parse_u64 10 ''1'' = Some 1" by (simp add: parse_u64_def)
  have mul: "checked_mul (1 :: u64) 512 = Some 512" by (simp del: checked_mul_Some add: checked_mul_def)
  have texts: "read_trimmed (Some ''179:1'') = Some ''179:1''" "read_trimmed (Some ''1'') = Some ''1''"
    "uevent_value (Some ''PARTNAME=boot'') ''PARTNAME'' = Some ''boot''" "read_trimmed None = None" by code_simp+
  have disk: "flash_is_local_flash_disk \<lparr>fsd_name = ''mmcblk0'', fsd_canonical = None, fsd_removable = None, fsd_ro = None, fsd_entries = es\<rparr>" for es
  proof -
    have "\<not> is_excluded_disk_name ''mmcblk0''" "is_local_flash_like_name ''mmcblk0''" by code_simp+
    then show ?thesis by (simp add: flash_is_local_flash_disk_def is_virtual_block_def texts)
  qed
  show ?thesis
    using size mul
    by (simp del: checked_mul_Some add: flash_list_def demo_sysfs_def disk partitions_for_disk_def flash_partition_of_def texts
        partition_devnum_def partition_size_bytes_def demo_partition_def sort_by_def)
qed

lemma demo_find: "flash_find (fe_sysfs (demo_env os) c) ''boot'' = Inr demo_partition"
  by (simp add: flash_find_def demo_env_def demo_list matches_name_def demo_partition_def)

lemma demo_valid: "validate_target (fe_mountinfo (demo_env os) c) ''boot'' demo_partition verb = Inr ()"
proof -
  have "is_allowed_partition_name ''boot''" by code_simp
  moreover have "\<forall>line \<in> set (text_lines ''24 1 0:22 / /proc rw''). mountinfo_devnum line \<noteq> Some ''179:1''" by code_simp
  ultimately show ?thesis
    unfolding validate_target_Inr by (simp add: is_allowed_partition_def demo_partition_def demo_env_def)
qed

section \<open>Answers\<close>

text \<open>
  C15: over a link that works, every command from the host but \<open>continue\<close> and the transfers, which the
  server serves itself, is answered by INFO packets and exactly one final OKAY or FAIL, with two
  exceptions. Both need a handler of the table that was run on the command and itself ended in the
  error: one that is taken for a lost host, or a panic, which ends the loader. The server adds none
  of its own: text that is no command, a command that is not in the table and every other error of
  a handler are answered. Handlers do panic: \<open>boot\<close> and \<open>oem kexec-load\<close> of a staged device tree
  reach \<open>graft_memory\<close>, which panics on one that stops in the padding of a node name
  (\<open>graft_panics_on_unpadded_name\<close> in \<open>FdtMemory\<close>).
\<close>

theorem fastboot_answers:
  assumes "link_writes lk" and "lk_read lk (clock s) = Inr packet" and "command = text_of (command_in packet)"
    and "\<not> built_in command" and "run_once lk (fastboot_commands env lk) s = (t, r)"
  shows "(\<exists>step ps. r = Inr step \<and> sent t = sent s @ ps \<and> reply ps) \<or>
    (\<exists>e ps h. r = Inl e \<and> sent t = sent s @ ps \<and> list_all is_info ps \<and>
       find_command_handler (fastboot_commands env lk) command = Some h \<and>
       snd (h command (s\<lparr>clock := Suc (clock s)\<rparr>)) = Inl e \<and> (is_usb_disconnect e \<or> e = RustPanic))"
  using table.run_once_replies [OF assms(1,2) assms(4) [unfolded assms(3)] assms(5)]
  by (auto simp: replied_def infos_sent_def gone_def assms(3))

lemma fastboot_answers_witness:
  "\<exists>t r. run_once (demo_link (\<lambda>_. ''oem no-such'')) (fastboot_commands (demo_env slow_os) (demo_link (\<lambda>_. ''oem no-such''))) demo_server = (t, r) \<and>
    (\<exists>step ps. r = Inr step \<and> sent t = ps \<and> reply ps)"
proof -
  let ?lk = "demo_link (\<lambda>_. ''oem no-such'')"
  obtain t r where run: "run_once ?lk (fastboot_commands (demo_env slow_os) ?lk) demo_server = (t, r)" by fastforce
  have c: "''oem no-such'' = text_of (command_in (bytes_of ''oem no-such''))" "\<not> built_in ''oem no-such''" by code_simp+
  have "find_command_handler (fastboot_commands (demo_env slow_os) ?lk) ''oem no-such'' = None"
    by (simp add: find_command_handler_def fastboot_commands_def boot_commands_def getvar_commands_def flash_commands_def
        slot_commands_def diagnostic_commands_def ums_commands_def reboot_commands_def command_exact_def command_prefix_def
        starts_with_def GETVAR_PREFIX_def SET_ACTIVE_PREFIX_def UMS_START_PREFIX_def UMS_STOP_PREFIX_def)
  then show ?thesis
    using fastboot_answers [OF demo_link_ok(1) _ c run] run
    by (simp add: demo_link_def demo_server_def)
qed

section \<open>The staging area\<close>

definition demo_packets :: "nat \<Rightarrow> string" where
  "demo_packets c = (if c = 0 then ''download:00000003'' else ''upload'')"

lemma demo_download_command: "parse_download_command ''download:00000003'' = Inr (Some 3)"
proof -
  have "parse_radix 16 (2 ^ 32) ''00000003'' = Some 3" by (simp add: parse_radix_def digit_value_def)
  then show ?thesis by (simp add: parse_download_command_def DOWNLOAD_PREFIX_def)
qed

lemma demo_commands:
  "text_of (command_in (bytes_of ''download:00000003'')) = ''download:00000003''" "utf8_valid (command_in (bytes_of ''download:00000003''))"
  "text_of (command_in (bytes_of ''upload'')) = ''upload''" "utf8_valid (command_in (bytes_of ''upload''))"
  "text_of (command_in (bytes_of ''flash:boot'')) = ''flash:boot''" "utf8_valid (command_in (bytes_of ''flash:boot''))"
  "text_of (command_in (bytes_of ''erase:boot'')) = ''erase:boot''" "utf8_valid (command_in (bytes_of ''erase:boot''))"
  by code_simp+

lemma demo_session:
  "\<exists>t u chunks. run_once (demo_link demo_packets) commands demo_server = (t, Inr StepContinue) \<and>
    run_once (demo_link demo_packets) commands t = (u, Inr StepContinue) \<and> sent t = [data_packet 3, bytes_of ''OKAY''] \<and>
    sent u = sent t @ [data_packet 3] @ chunks @ [bytes_of ''OKAY''] \<and>
    concat chunks = delivered (demo_link demo_packets) 5 3 \<and> length (concat chunks) = 3"
  using download_then_upload [OF demo_link_ok(1,2,3), of demo_packets demo_server "bytes_of ''download:00000003''" 3 "bytes_of ''upload''" commands]
    demo_commands demo_download_command
  by (simp add: demo_link_def demo_packets_def demo_server_def starts_with_def DOWNLOAD_PREFIX_def MAX_DOWNLOAD_SIZE_def)

text \<open>
  C31: however the server got there, a staged file is as long as its recorded size, so that an
  upload announces exactly what it sends.
\<close>

theorem fastboot_staging:
  assumes "link_exact lk" and "serves lk (fastboot_commands env lk) s t" and "staged_ok (staged s)"
  shows "staged_ok (staged t)"
  by (rule table.serves_staged_ok [OF assms])

lemma fastboot_staging_witness:
  "\<exists>t. serves (demo_link demo_packets) (fastboot_commands (demo_env slow_os) (demo_link demo_packets)) demo_server t \<and>
    sent t = [data_packet 3, bytes_of ''OKAY''] \<and> staged_ok (staged t)"
proof -
  obtain t where run: "run_once (demo_link demo_packets) (fastboot_commands (demo_env slow_os) (demo_link demo_packets)) demo_server = (t, Inr StepContinue)"
    and t: "sent t = [data_packet 3, bytes_of ''OKAY'']" using demo_session by blast
  have "staged_ok (staged demo_server)" by (simp add: staged_ok_def demo_server_def)
  then show ?thesis using fastboot_staging [OF demo_link_ok(4) serves_step [OF serves_start run]] serves_step [OF serves_start run] t by blast
qed

text \<open>
  C30: what the host downloads to the device it can get back: over a link that works a
  \<open>download:\<close> of at most the maximal size, followed by \<open>upload\<close> or \<open>get_staged\<close>, returns exactly the
  bytes the link delivered, announced with their length, for any table of commands.
\<close>

theorem fastboot_roundtrip:
  assumes "link_writes lk" "memory_ok lk" "link_reads lk"
    and "lk_read lk (clock s) = Inr p1" "utf8_valid (command_in p1)" "starts_with DOWNLOAD_PREFIX (text_of (command_in p1))"
      "parse_download_command (text_of (command_in p1)) = Inr (Some len)" "\<not> MAX_DOWNLOAD_SIZE < len"
    and "\<And>c. clock s < c \<Longrightarrow> lk_read lk c = Inr p2" "utf8_valid (command_in p2)"
      "text_of (command_in p2) \<in> {''upload'', ''get_staged''}"
  shows "\<exists>t u chunks. run_once lk commands s = (t, Inr StepContinue) \<and> run_once lk commands t = (u, Inr StepContinue) \<and>
    sent t = sent s @ [data_packet (unat len), bytes_of ''OKAY''] \<and>
    sent u = sent t @ [data_packet (unat len)] @ chunks @ [bytes_of ''OKAY''] \<and>
    concat chunks = delivered lk (clock s + 5) (unat len) \<and> length (concat chunks) = unat len"
  by (rule download_then_upload [OF assms])

lemma fastboot_roundtrip_witness:
  "\<exists>t u chunks. run_once (demo_link demo_packets) (fastboot_commands (demo_env slow_os) (demo_link demo_packets)) demo_server = (t, Inr StepContinue) \<and>
    run_once (demo_link demo_packets) (fastboot_commands (demo_env slow_os) (demo_link demo_packets)) t = (u, Inr StepContinue) \<and>
    sent u = sent t @ [data_packet 3] @ chunks @ [bytes_of ''OKAY''] \<and> length (concat chunks) = 3"
  using fastboot_roundtrip [OF demo_link_ok(1,2,3), of demo_packets demo_server "bytes_of ''download:00000003''" 3 "bytes_of ''upload''"
      "fastboot_commands (demo_env slow_os) (demo_link demo_packets)"] demo_commands demo_download_command
  by (simp add: demo_link_def demo_packets_def demo_server_def starts_with_def DOWNLOAD_PREFIX_def MAX_DOWNLOAD_SIZE_def) blast

section \<open>What commands change\<close>

text \<open>
  C13: whatever the host sends and however the system calls turn out, a node under \<open>/dev\<close> is only
  written when it is a listed local flash partition with an allowed name that was found neither read-only nor
  mounted; no \<open>reboot\<close> call is made while commands are served, and the exported backings
  stay consistent.
\<close>

theorem fastboot_confined:
  assumes "serves lk (fastboot_commands env lk) s t"
  shows "fw_reboots (world t) = fw_reboots (world s) \<and>
    (gadget_ok (fw_gadget (world s)) \<longrightarrow> gadget_ok (fw_gadget (world t))) \<and>
    (\<forall>path. fw_parts (world t) path \<noteq> fw_parts (world s) path \<longrightarrow>
       (\<exists>c c' requested p m. flash_find (fe_sysfs env c) requested = Inr p \<and> dev_path p = path \<and> listed_from (fe_sysfs env c) p \<and>
          is_allowed_partition requested p \<and> \<not> read_only p \<and> fe_mountinfo env c' = Inr m \<and>
          (\<forall>line \<in> set (text_lines m). mountinfo_devnum line \<noteq> Some (devnum p))))"
proof -
  have "listed_from sysfs p" if "flash_find sysfs requested = Inr p" for sysfs requested p
    using that flash_list_from unfolding flash_find_Inr by (metis filter_is_subset list.set_intros(1) subsetD)
  then show ?thesis
    using safe.serves_world [OF assms] unfolding world_kept_def flashable_def by metis
qed

lemma find_flash_commands:
  "find_command_handler (fastboot_commands env lk) (''flash:'' @ n) = Some (handle_flash env lk)"
  "find_command_handler (fastboot_commands env lk) (''erase:'' @ n) = Some (handle_erase env lk)"
  by (simp_all add: find_command_handler_def fastboot_commands_def boot_commands_def getvar_commands_def flash_commands_def
      slot_commands_def diagnostic_commands_def ums_commands_def reboot_commands_def command_exact_def command_prefix_def
      starts_with_def GETVAR_PREFIX_def SET_ACTIVE_PREFIX_def UMS_START_PREFIX_def UMS_STOP_PREFIX_def)

lemma run_once_handler:
  assumes "lk_read lk (clock s) = Inr packet" "utf8_valid (command_in packet)" "\<not> built_in (text_of (command_in packet))"
    and "find_command_handler commands (text_of (command_in packet)) = Some h"
  shows "run_once lk commands s =
    bind_st (attempt (h (text_of (command_in packet)))) (\<lambda>r. case r of Inr result \<Rightarrow> finish_command_result result | Inl e \<Rightarrow> report_error lk e)
      (s\<lparr>clock := Suc (clock s)\<rparr>)"
proof -
  have "read_command lk s = (s\<lparr>clock := Suc (clock s)\<rparr>, Inr (command_in packet))" by (simp add: read_command_run assms(1))
  then show ?thesis using assms(2,3,4) by (simp add: run_once_def bind_st_eq Let_def built_in_def)
qed

lemma demo_flash:
  "\<exists>t. handle_flash (demo_env slow_os) (demo_link packets) ''flash:boot'' (demo_server\<lparr>clock := k\<rparr>) = (t, Inr continue_result)"
proof -
  have "fits_partition (payload_bytes \<lparr>sd_label = ''download'', sd_payload = MemoryPayload [1, 2, 3]\<rparr>) 512"
    by (simp add: fits_partition_def payload_bytes_def ANDROID_SPARSE_MAGIC_def)
  then show ?thesis
    using handle_flash_ok [OF demo_link_ok(1,2), of "demo_env slow_os" demo_partition "''boot''" "demo_server\<lparr>clock := k\<rparr>"
        "\<lparr>sd_label = ''download'', sd_payload = MemoryPayload [1, 2, 3]\<rparr>" packets]
    by (simp add: demo_find demo_valid slow_os_ok staged_ok_def)
qed

lemma demo_stored:
  assumes "handle_flash (demo_env slow_os) (demo_link packets) ''flash:boot'' (demo_server\<lparr>clock := k\<rparr>) = (t, Inr r)"
  shows "fw_parts (world t) ''/dev/mmcblk0p1'' = [1, 2, 3] @ replicate 509 0"
proof -
  have found: "flash_find (fe_sysfs (demo_env slow_os) c) n = Inr p \<Longrightarrow> p = demo_partition" for c n p
    by (auto simp: flash_find_def demo_env_def demo_list split: if_split_asm)
  have "replicate 512 (0 :: u8) = replicate 3 0 @ replicate 509 0" by (simp flip: replicate_add)
  then have "splice (replicate 512 0) 0 [1, 2, 3 :: u8] = [1, 2, 3] @ replicate 509 0" by (simp add: splice_def)
  moreover have "stored [1, 2, 3] (replicate 512 0) (fw_parts (world t) ''/dev/mmcblk0p1'')"
  proof -
    let ?d = "\<lparr>sd_label = ''download'', sd_payload = MemoryPayload [1, 2, 3]\<rparr>"
    have "length (fw_parts (world (demo_server\<lparr>clock := k\<rparr>)) (dev_path p)) = unat (size_bytes p)"
      if "flash_find (fe_sysfs (demo_env slow_os) c) n = Inr p" for c n p
      using found [OF that] by simp
    then obtain n p c where p: "flash_find (fe_sysfs (demo_env slow_os) c) n = Inr p"
        "stored (payload_bytes ?d) (replicate 512 0) (fw_parts (world t) (dev_path p))"
      using handle_flash_stored [OF assms, of ?d] os_ok_sound [OF slow_os_ok] by (auto simp: staged_ok_def payload_bytes_def)
    then show ?thesis using found [OF p(1)] by (simp add: payload_bytes_def)
  qed
  ultimately show ?thesis by (simp add: stored_def ANDROID_SPARSE_MAGIC_def)
qed

lemma fastboot_confined_witness:
  "\<exists>t. serves (demo_link (\<lambda>_. ''flash:boot'')) (fastboot_commands (demo_env slow_os) (demo_link (\<lambda>_. ''flash:boot''))) demo_server t \<and>
    fw_parts (world t) ''/dev/mmcblk0p1'' \<noteq> fw_parts (world demo_server) ''/dev/mmcblk0p1'' \<and> fw_reboots (world t) = [] \<and>
    (\<exists>c requested p. flash_find (fe_sysfs (demo_env slow_os) c) requested = Inr p \<and> dev_path p = ''/dev/mmcblk0p1'' \<and>
       is_allowed_partition requested p \<and> \<not> read_only p)"
proof -
  let ?lk = "demo_link (\<lambda>_. ''flash:boot'')" let ?cs = "fastboot_commands (demo_env slow_os) ?lk"
  obtain t where t: "handle_flash (demo_env slow_os) ?lk ''flash:boot'' (demo_server\<lparr>clock := 1\<rparr>) = (t, Inr continue_result)"
    using demo_flash by blast
  have nb: "\<not> built_in ''flash:boot''" by code_simp
  have "lk_read ?lk (clock demo_server) = Inr (bytes_of ''flash:boot'')" "Suc (clock demo_server) = 1"
    by (simp_all add: demo_link_def demo_server_def)
  then have run: "run_once ?lk ?cs demo_server = (t, Inr StepContinue)"
    using run_once_handler [of ?lk demo_server "bytes_of ''flash:boot''" ?cs "handle_flash (demo_env slow_os) ?lk"] nb t
      find_flash_commands(1) [of "demo_env slow_os" ?lk "''boot''"]
    by (simp add: demo_commands finish_command_result_def continue_result_def)
  have serves: "serves ?lk ?cs demo_server t" by (rule serves_step [OF serves_start run])
  have diff: "fw_parts (world t) ''/dev/mmcblk0p1'' \<noteq> fw_parts (world demo_server) ''/dev/mmcblk0p1''"
  proof
    assume "fw_parts (world t) ''/dev/mmcblk0p1'' = fw_parts (world demo_server) ''/dev/mmcblk0p1''"
    then have "([1, 2, 3] @ replicate 509 (0 :: u8)) ! 0 = replicate 512 0 ! 0" using demo_stored [OF t] by simp
    then show False by simp
  qed
  have "fw_reboots (world t) = []"
    using fastboot_confined [OF serves] by (simp add: demo_server_def demo_world_def)
  moreover have "\<exists>c c' requested p m. flash_find (fe_sysfs (demo_env slow_os) c) requested = Inr p \<and> dev_path p = ''/dev/mmcblk0p1'' \<and>
      listed_from (fe_sysfs (demo_env slow_os) c) p \<and> is_allowed_partition requested p \<and> \<not> read_only p \<and>
      fe_mountinfo (demo_env slow_os) c' = Inr m \<and> (\<forall>line \<in> set (text_lines m). mountinfo_devnum line \<noteq> Some (devnum p))"
    using fastboot_confined [OF serves] diff by blast
  ultimately show ?thesis using serves diff by blast
qed

section \<open>Acknowledged and successful flashes\<close>

text \<open>
  C14: a \<open>flash\<close> that succeeds has put exactly the staged payload on the partition its name
  resolves to, raw or as the data of the sparse image it is the encoding of, and has written
  nothing else; the devices may write short or fail but put what they write where it belongs.
\<close>

theorem fastboot_flash_stored:
  assumes "handle_flash env lk command s = (t, Inr r)" and "\<And>c path. os_sound (fe_os env c path)"
    and "\<And>c requested p. flash_find (fe_sysfs env c) requested = Inr p \<Longrightarrow>
      length (fw_parts (world s) (dev_path p)) = unat (size_bytes p)"
    and "staged s = Some d" "staged_ok (staged s)" "length (payload_bytes d) < 2 ^ 64"
  shows "\<exists>requested p c. command = ''flash:'' @ requested \<and> flash_find (fe_sysfs env c) requested = Inr p \<and> flashable env (dev_path p) \<and>
    (let payload = payload_bytes d; old = fw_parts (world s) (dev_path p); new = fw_parts (world t) (dev_path p) in
     if take 4 payload = ANDROID_SPARSE_MAGIC
     then \<exists>im. image_ok im \<and> payload = encode_image im \<and> image_size im \<le> length old \<and>
            new = overlay (si_block_size im) (si_chunks im) 0 old
     else length payload \<le> length old \<and> new = splice old 0 payload) \<and>
    (\<forall>path. path \<noteq> dev_path p \<longrightarrow> fw_parts (world t) path = fw_parts (world s) path)"
proof -
  have "\<exists>requested p c. command = ''flash:'' @ requested \<and> flash_find (fe_sysfs env c) requested = Inr p \<and> flashable env (dev_path p) \<and>
    stored (payload_bytes d) (fw_parts (world s) (dev_path p)) (fw_parts (world t) (dev_path p)) \<and>
    (\<forall>path. path \<noteq> dev_path p \<longrightarrow> fw_parts (world t) path = fw_parts (world s) path)"
    by (rule handle_flash_stored [OF assms(1,2) _ assms(4-6)]) (rule assms(3))
  then show ?thesis unfolding stored_def Let_def by blast
qed

lemma fastboot_flash_stored_witness:
  "\<exists>t n (p :: flash_partition). handle_flash (demo_env slow_os) (demo_link (\<lambda>_. [])) ''flash:boot'' demo_server = (t, Inr continue_result) \<and>
     ''flash:boot'' = ''flash:'' @ n \<and> fw_parts (world t) (dev_path p) = splice (replicate 512 0) 0 [1, 2, 3]"
proof -
  let ?d = "\<lparr>sd_label = ''download'', sd_payload = MemoryPayload [1, 2, 3]\<rparr>"
  obtain t where t: "handle_flash (demo_env slow_os) (demo_link (\<lambda>_. [])) ''flash:boot'' demo_server = (t, Inr continue_result)"
    using demo_flash [of "\<lambda>_. []" "clock demo_server"] by auto
  have found: "length (fw_parts (world demo_server) (dev_path p)) = unat (size_bytes p)"
    if "flash_find (fe_sysfs (demo_env slow_os) c) n = Inr p" for c n p
    using that by (auto simp: flash_find_def demo_env_def demo_list split: if_split_asm)
  have pay: "payload_bytes ?d = [1, 2, 3]" "staged_ok (staged demo_server)" "take 4 [1, 2, 3] \<noteq> ANDROID_SPARSE_MAGIC"
    by (simp_all add: payload_bytes_def staged_ok_def ANDROID_SPARSE_MAGIC_def)
  have "\<exists>requested p c. ''flash:boot'' = ''flash:'' @ requested \<and> flash_find (fe_sysfs (demo_env slow_os) c) requested = Inr p \<and>
    flashable (demo_env slow_os) (dev_path p) \<and>
    (let payload = payload_bytes ?d; old = fw_parts (world demo_server) (dev_path p); new = fw_parts (world t) (dev_path p) in
     if take 4 payload = ANDROID_SPARSE_MAGIC
     then \<exists>im. image_ok im \<and> payload = encode_image im \<and> image_size im \<le> length old \<and>
            new = overlay (si_block_size im) (si_chunks im) 0 old
     else length payload \<le> length old \<and> new = splice old 0 payload) \<and>
    (\<forall>path. path \<noteq> dev_path p \<longrightarrow> fw_parts (world t) path = fw_parts (world demo_server) path)"
    by (rule fastboot_flash_stored [OF t]) (use os_ok_sound [OF slow_os_ok] found pay in simp_all)
  then obtain n and p :: flash_partition where n: "''flash:boot'' = ''flash:'' @ n"
    and p: "fw_parts (world t) (dev_path p) = splice (fw_parts (world demo_server) (dev_path p)) 0 [1, 2, 3]"
    unfolding Let_def pay(1) if_not_P [OF pay(3)] by (elim exE conjE) (rule that, assumption+)
  have "fw_parts (world t) (dev_path p) = splice (replicate 512 0) 0 [1, 2, 3]" using p by (simp only: demo_machine)
  then show ?thesis using t n by (intro exI conjI)
qed

text \<open>
  C16: a staged payload that fits, raw or a well-formed sparse image, is flashed successfully when
  the name resolves to a partition that may be written, the device works, however short its
  writes, and so does the link.
\<close>

theorem fastboot_flash_succeeds:
  assumes "link_writes lk" "memory_ok lk" and "\<And>c. os_ok (fe_os env c (dev_path p))"
    and "requested \<noteq> []" "\<And>c. flash_find (fe_sysfs env c) requested = Inr p"
      "\<And>c. validate_target (fe_mountinfo env c) requested p ''flashing'' = Inr ()"
    and "length (fw_parts (world s) (dev_path p)) = unat (size_bytes p)" "unat (size_bytes p) < 2 ^ 63"
    and "staged s = Some d" "staged_ok (staged s)" "fits_partition (payload_bytes d) (unat (size_bytes p))"
  shows "\<exists>t. handle_flash env lk (''flash:'' @ requested) s = (t, Inr continue_result)"
  by (rule handle_flash_ok [OF assms])

definition demo_sparse :: sparse_image where
  "demo_sparse = \<lparr>si_ext = [], si_chunk_header_size = 12, si_block_size = 4, si_total_blocks = 3, si_checksum = 0,
     si_chunks = [\<lparr>sc_reserved = 0, sc_blocks = 1, sc_ext = [], sc_body = RawBody [1, 2, 3, 4]\<rparr>,
                  \<lparr>sc_reserved = 0, sc_blocks = 1, sc_ext = [], sc_body = DontCareBody\<rparr>,
                  \<lparr>sc_reserved = 0, sc_blocks = 1, sc_ext = [], sc_body = FillBody [5, 6, 7, 8]\<rparr>]\<rparr>"

lemma demo_sparse_ok: "image_ok demo_sparse" "image_size demo_sparse = 12"
  by (simp_all add: image_ok_def demo_sparse_def chunk_ok_def chunk_len_def image_size_def)

lemma fastboot_flash_succeeds_witness:
  "\<exists>t. handle_flash (demo_env slow_os) (demo_link (\<lambda>_. [])) ''flash:boot''
     (demo_server\<lparr>staged := Some \<lparr>sd_label = ''download'', sd_payload = MemoryPayload (encode_image demo_sparse)\<rparr>\<rparr>) = (t, Inr continue_result)"
proof -
  have e: "take 4 (encode_image demo_sparse) = ANDROID_SPARSE_MAGIC" "length (encode_image demo_sparse) = 72" by code_simp+
  then have "encode_image demo_sparse \<noteq> []" by (metis list.size(3) zero_neq_numeral)
  then have "fits_partition (payload_bytes \<lparr>sd_label = ''download'', sd_payload = MemoryPayload (encode_image demo_sparse)\<rparr>) 512"
    unfolding fits_partition_def payload_bytes_def staged_data.simps staged_payload.simps
    using e(2) demo_sparse_ok by (simp only: e(1) refl if_True) (intro conjI exI [of _ demo_sparse]; simp)
  then show ?thesis
    using fastboot_flash_succeeds [OF demo_link_ok(1,2), of "demo_env slow_os" demo_partition "''boot''"
        "demo_server\<lparr>staged := Some \<lparr>sd_label = ''download'', sd_payload = MemoryPayload (encode_image demo_sparse)\<rparr>\<rparr>"
        "\<lparr>sd_label = ''download'', sd_payload = MemoryPayload (encode_image demo_sparse)\<rparr>" "\<lambda>_. []"]
    by (simp add: demo_find demo_valid slow_os_ok staged_ok_def)
qed

text \<open>
  C32: a sparse image writes nothing at or beyond its declared expanded size, also when it is
  malformed or a write fails on the way.
\<close>

theorem sparse_flash_confined:
  assumes "os_sound os" and "length (fi_target s) = unat partition_size"
    and "flash_sparse os partition_size staged_size s = (t, r)"
    and "sparse_header_read_from (s\<lparr>fi_spos := 0\<rparr>) = (u, Inr h)"
  shows "length (fi_target t) = length (fi_target s) \<and>
    (\<forall>i < length (fi_target s). unat (sh_total_blocks h) * unat (block_size h) \<le> i \<longrightarrow> fi_target t ! i = fi_target s ! i)"
proof -
  let ?e = "unat (sh_total_blocks h) * unat (block_size h)"
  obtain n where n: "n \<le> unat partition_size" "confined 0 n s t" "n = (if ?e \<le> unat partition_size then ?e else 0)"
    using flash_sparse_confined [OF assms(1,2,3)] assms(4) by (auto simp: Let_def)
  have "n \<le> ?e" using n(3) by simp
  then show ?thesis using n(2) by (auto simp: confined_def)
qed

definition demo_staged :: flash_io where
  "demo_staged = \<lparr>fi_source = encode_image demo_sparse, fi_spos = 0, fi_target = replicate 512 0, fi_tpos = 0\<rparr>"

lemma sparse_flash_confined_witness:
  "\<exists>t r. flash_sparse slow_os 512 72 demo_staged = (t, r) \<and> length (fi_target t) = 512 \<and> (\<forall>i < 512. 12 \<le> i \<longrightarrow> fi_target t ! i = 0)"
proof -
  let ?h = "sparse_header_of demo_sparse" let ?s = "demo_staged\<lparr>fi_spos := 0\<rparr>"
  obtain t r where run: "flash_sparse slow_os 512 72 demo_staged = (t, r)" by fastforce
  have ext: "si_ext demo_sparse = []" by (simp add: demo_sparse_def)
  have hk: "header_ok ?h []" using demo_sparse_ok(1) ext by (simp add: header_ok_def image_ok_def sparse_header_of_def)
  have src: "ahead ?s = header_bytes ?h [] (si_checksum demo_sparse) @ concat (map (encode_chunk (si_chunk_header_size demo_sparse)) (si_chunks demo_sparse))"
    by (simp add: ahead_def demo_staged_def encode_image_header ext)
  have hd: "sparse_header_read_from ?s = (advance 28 ?s, Inr ?h)"
    using sparse_header_ahead [OF hk src] by (simp add: demo_staged_def)
  have size: "unat (sh_total_blocks ?h) * unat (block_size ?h) = 12" by (simp add: sparse_header_of_def demo_sparse_def)
  have len: "length (fi_target demo_staged) = unat (512 :: u64)" "length (fi_target demo_staged) = 512" by (simp_all add: demo_staged_def)
  have nth: "\<And>i. i < 512 \<Longrightarrow> fi_target demo_staged ! i = 0" by (simp add: demo_staged_def)
  show ?thesis
    using sparse_flash_confined [OF os_ok_sound [OF slow_os_ok] len(1) run hd] run size len(2) nth by simp
qed

section \<open>Device errors\<close>

text \<open>
  C33: when the device reports an I/O error at the end of an \<open>erase\<close>, the host gets no
  final answer: the error number is taken for that of a lost host.
\<close>

theorem erase_io_error_unanswered:
  assumes "link_writes lk" "lk_read lk (clock s) = Inr packet" "utf8_valid (command_in packet)"
    and "text_of (command_in packet) = ''erase:'' @ requested" "requested \<noteq> []"
    and "\<And>c. flash_find (fe_sysfs env c) requested = Inr p"
      "\<And>c. validate_target (fe_mountinfo env c) requested p ''erasing'' = Inr ()"
    and "\<And>c. os_open (fe_os env c (dev_path p)) = Inr ()" "\<And>c d a b. \<exists>d'. fe_discard env c (dev_path p) d a b = (d', Inr ())"
      "\<And>c. os_sync_all (fe_os env c (dev_path p)) = Inl (IoError (OsErrno 5) m)"
  shows "\<exists>t ps. run_once lk (fastboot_commands env lk) s = (t, Inl (IoError (OsErrno 5) m)) \<and> is_usb_disconnect (IoError (OsErrno 5) m) \<and>
    sent t = sent s @ ps \<and> list_all is_info ps"
proof -
  let ?s = "s\<lparr>clock := Suc (clock s)\<rparr>" and ?u = "s\<lparr>clock := Suc (Suc (Suc (clock s)))\<rparr>"
  have parse: "parse_erase_partition (''erase:'' @ requested) = Inr requested"
    using assms(5) by (simp add: parse_erase_partition_def parse_partition_def ERASE_COMMAND_PREFIX_def)
  have u: "writable_target env requested ''erasing'' ?s = (?u, Inr p)"
    using assms(6,7) by (simp add: writable_target_def link_op_def bind_st_def)
  obtain v where v: "respond_info lk (''erasing '' @ fastboot_name p @ '' ('' @ dev_path p @ '')'') ?u = (v, Inr ())"
    using respond_info_ok [OF assms(1)] by blast
  have info: "infos_sent ?u v" using infos.keeps_run [OF respond_keeps(1) v] .
  obtain f where f: "on_partition (dev_path p) [] (erase_partition (fe_os env (clock v) (dev_path p))
      (fe_discard env (clock v) (dev_path p)) (unat (size_bytes p))) (world v) = (f, Inl (IoError (OsErrno 5) m))"
  proof -
    obtain d where "fe_discard env (clock v) (dev_path p) (fw_parts (world v) (dev_path p)) 0 (unat (size_bytes p)) = (d, Inr ())"
      using assms(9) by blast
    then show thesis
      using assms(8,10) by (intro that) (simp add: on_partition_def erase_partition_def target_open_def map_err_prefix_def discard_partition_def)
  qed
  let ?t = "v\<lparr>clock := Suc (clock v), world := f\<rparr>"
  have h: "handle_erase env lk (''erase:'' @ requested) ?s = (?t, Inl (IoError (OsErrno 5) m))"
    using parse u v f by (simp add: handle_erase_def bind_st_eq world_op_def)
  have gone: "is_usb_disconnect (IoError (OsErrno 5) m)" by (simp add: is_usb_disconnect_def)
  have "\<not> built_in (''erase:'' @ requested)" by (simp add: built_in_def starts_with_def DOWNLOAD_PREFIX_def)
  then have "run_once lk (fastboot_commands env lk) s = (?t, Inl (IoError (OsErrno 5) m))"
    using run_once_handler [OF assms(2,3), of "fastboot_commands env lk" "handle_erase env lk"] assms(4) find_flash_commands(2) h gone
    by (simp add: report_error_def)
  moreover have "\<exists>ps. sent ?t = sent s @ ps \<and> list_all is_info ps" using info by (simp add: infos_sent_def)
  ultimately show ?thesis using gone by blast
qed

lemma erase_io_error_unanswered_witness:
  "\<exists>t ps. run_once (demo_link (\<lambda>_. ''erase:boot'')) (fastboot_commands (demo_env (slow_os\<lparr>os_sync_all := Inl (IoError (OsErrno 5) [])\<rparr>))
     (demo_link (\<lambda>_. ''erase:boot''))) demo_server = (t, Inl (IoError (OsErrno 5) [])) \<and> sent t = ps \<and> list_all is_info ps"
proof -
  let ?os = "slow_os\<lparr>os_sync_all := Inl (IoError (OsErrno 5) [])\<rparr>"
  have d: "\<And>c d a b. \<exists>d'. fe_discard (demo_env ?os) c (dev_path demo_partition) d a b = (d', Inr ())" by (simp add: demo_env_def)
  show ?thesis
    using erase_io_error_unanswered [OF demo_link_ok(1), of "\<lambda>_. ''erase:boot''" demo_server "bytes_of ''erase:boot''" "''boot''"
        "demo_env ?os" demo_partition "[]"] d demo_commands demo_find demo_valid
    by (simp add: demo_link_def demo_server_def slow_os_def) blast
qed

end
