(* ===== verification/PreFdt.thy ===== *)
theory PreFdt
  imports FdtTokens
begin

text \<open>
  The device tree reader and writer of the preboot stage (\<open>pocketpreboot/src/fdt.rs\<close>). It shares
  the format with \<open>src/kexec.rs\<close> but neither code nor errors; indices that are out of range panic
  here too and are the value \<open>FdtPanic\<close>. A \<open>Reader\<close> is the bytes of the blob, cut to its total size,
  with its header and its address.
\<close>

unbundle bit_operations_syntax

datatype fdt_error =
    FdtBadMagic
  | FdtBadOffset
  | FdtBadToken
  | FdtBadValue
  | FdtBufferTooSmall
  | FdtNotFound
  | FdtTooDeep
  | FdtUnterminated
  | FdtPanic

type_synonym 'a fdt = "fdt_error + 'a"

definition HEADER_SIZE :: nat where "HEADER_SIZE = 40"
definition MAX_DEPTH :: nat where "MAX_DEPTH = 32"

section \<open>Bytes\<close>

definition pre_read_be32 :: "bytes \<Rightarrow> nat \<Rightarrow> u32 fdt" where
  "pre_read_be32 data offset =
     bind_io (ok_or FdtBadOffset (checked_add_usize offset 4)) (\<lambda>e.
     if length data < e then Inl FdtBadOffset else Inr (from_be_bytes (slice data offset e)))"

definition read_cells :: "bytes \<Rightarrow> nat \<Rightarrow> nat \<Rightarrow> u64 fdt" where
  "read_cells data offset cells =
     (if cells = 0 \<or> 2 < cells then Inl FdtBadValue
      else fold_io (\<lambda>v i. bind_io (pre_read_be32 data (offset + i * 4)) (\<lambda>c. Inr (push_bit 32 v OR ucast c))) (0 :: u64) [0..<cells])"

definition cstr :: "bytes \<Rightarrow> bytes option" where
  "cstr v = map_option (\<lambda>len. take len v) (position (\<lambda>b. b = 0) v)"

function stringlist_contains :: "bytes \<Rightarrow> bytes \<Rightarrow> bool" where
  "stringlist_contains v needle =
     (if v = [] then False
      else (case position (\<lambda>b. b = 0) v of
              None \<Rightarrow> False
            | Some e \<Rightarrow> take e v = needle \<or> stringlist_contains (drop (e + 1) v) needle))"
  by pat_completeness auto
termination by (relation "measure (\<lambda>(v, needle). length v)") auto

declare stringlist_contains.simps [simp del]

definition pre_checked_slice :: "bytes \<Rightarrow> nat \<Rightarrow> nat \<Rightarrow> bytes fdt" where
  "pre_checked_slice data offset len =
     bind_io (ok_or FdtBadOffset (checked_add_usize offset len)) (\<lambda>e.
     if length data < e then Inl FdtBadOffset else Inr (slice data offset e))"

definition pre_find_nul :: "bytes \<Rightarrow> nat \<Rightarrow> nat fdt" where
  "pre_find_nul data start =
     (if length data < start then Inl FdtBadOffset
      else ok_or FdtUnterminated (map_option (\<lambda>pos. start + pos) (position (\<lambda>b. b = 0) (drop start data))))"

text \<open>\<open>value & !(align - 1)\<close> rounds down to a multiple of \<open>align\<close>, a power of two.\<close>

definition pre_align :: "nat \<Rightarrow> nat \<Rightarrow> nat fdt" where
  "pre_align v align =
     (if align = 0 \<or> align AND (align - 1) \<noteq> 0 then Inl FdtBadValue
      else bind_io (ok_or FdtBadOffset (checked_add_usize v (align - 1))) (\<lambda>w. Inr (w div align * align)))"

definition u32_len :: "nat \<Rightarrow> u32 fdt" where
  "u32_len v = (if v < 2 ^ 32 then Inr (of_nat v) else Inl FdtBadValue)"

definition pre_write_be32_at :: "bytes \<Rightarrow> nat \<Rightarrow> u32 \<Rightarrow> bytes fdt" where
  "pre_write_be32_at data offset v =
     bind_io (ok_or FdtBadOffset (checked_add_usize offset 4)) (\<lambda>e.
     if length data < e then Inl FdtBadOffset else Inr (splice data offset (to_be_bytes 4 v)))"

definition pre_string_at :: "bytes \<Rightarrow> u32 \<Rightarrow> bytes option" where
  "pre_string_at strings offset =
     (let start = unat offset in
      if length strings \<le> start then None
      else map_option (\<lambda>e. slice strings start (start + e)) (position (\<lambda>b. b = 0) (drop start strings)))"

function find_string_from :: "bytes \<Rightarrow> bytes \<Rightarrow> nat \<Rightarrow> u32 option" where
  "find_string_from strings needle cursor =
     (if cursor < length strings then
        (case position (\<lambda>b. b = 0) (drop cursor strings) of
           None \<Rightarrow> None
         | Some relative_end \<Rightarrow>
             if slice strings cursor (cursor + relative_end) = needle
             then (if cursor < 2 ^ 32 then Some (of_nat cursor) else None)
             else find_string_from strings needle (cursor + relative_end + 1))
      else None)"
  by pat_completeness auto
termination
  by (relation "measure (\<lambda>(strings, needle, cursor). length strings - cursor)") auto

declare find_string_from.simps [simp del]

definition find_string :: "bytes \<Rightarrow> bytes \<Rightarrow> u32 option" where
  "find_string strings needle = find_string_from strings needle 0"

definition basename_eq :: "bytes \<Rightarrow> bytes \<Rightarrow> bool" where
  "basename_eq name basename \<longleftrightarrow> takeWhile (\<lambda>b. b \<noteq> 0x40) name = basename"

section \<open>The structure block\<close>

record pre_parts =
  pp_nameoff :: u32
  pp_value_start :: nat
  pp_value_end :: nat
  pp_next :: nat

definition pre_property_parts :: "bytes \<Rightarrow> nat \<Rightarrow> pre_parts fdt" where
  "pre_property_parts structure cursor =
     bind_io (pre_read_be32 structure cursor) (\<lambda>len.
     bind_io (pre_read_be32 structure (cursor + 4)) (\<lambda>nameoff.
     bind_io (ok_or FdtBadOffset (checked_add_usize cursor 8)) (\<lambda>value_start.
     bind_io (ok_or FdtBadOffset (checked_add_usize value_start (unat len))) (\<lambda>value_end.
     bind_io (pre_align value_end 4) (\<lambda>next.
     if length structure < next then Inl FdtBadOffset
     else Inr \<lparr>pp_nameoff = nameoff, pp_value_start = value_start, pp_value_end = value_end, pp_next = next\<rparr>)))))"

datatype pre_token =
    PreBegin bytes
  | PreEndNode
  | PreProp pre_parts
  | PreNop
  | PreEnd

text \<open>The prologue of the walkers that read every token in full, with the position after the token.\<close>

definition pre_next_token :: "bytes \<Rightarrow> nat \<Rightarrow> (pre_token \<times> nat) fdt" where
  "pre_next_token structure cursor0 =
     bind_io (pre_read_be32 structure cursor0) (\<lambda>token.
     let cursor = cursor0 + 4 in
     if token = FDT_BEGIN_NODE then
       bind_io (pre_find_nul structure cursor) (\<lambda>name_end.
       bind_io (pre_align (name_end + 1) 4) (\<lambda>next.
       Inr (PreBegin (slice structure cursor name_end), next)))
     else if token = FDT_END_NODE then Inr (PreEndNode, cursor)
     else if token = FDT_PROP then
       bind_io (pre_property_parts structure cursor) (\<lambda>parts. Inr (PreProp parts, pp_next parts))
     else if token = FDT_NOP then Inr (PreNop, cursor)
     else if token = FDT_END then Inr (PreEnd, cursor)
     else Inl FdtBadToken)"

definition pre_node_name :: "bytes \<Rightarrow> nat \<Rightarrow> bytes fdt" where
  "pre_node_name structure node_offset =
     bind_io (pre_read_be32 structure node_offset) (\<lambda>token.
     if token \<noteq> FDT_BEGIN_NODE then Inl FdtBadToken
     else
     bind_io (ok_or FdtBadOffset (checked_add_usize node_offset 4)) (\<lambda>name_start.
     bind_io (pre_find_nul structure name_start) (\<lambda>name_end.
     Inr (slice structure name_start name_end))))"

definition node_content_start :: "bytes \<Rightarrow> nat \<Rightarrow> nat fdt" where
  "node_content_start structure node_offset =
     bind_io (pre_read_be32 structure node_offset) (\<lambda>token.
     if token \<noteq> FDT_BEGIN_NODE then Inl FdtBadToken
     else
     bind_io (ok_or FdtBadOffset (checked_add_usize node_offset 4)) (\<lambda>name_start.
     bind_io (pre_find_nul structure name_start) (\<lambda>name_end.
     pre_align (name_end + 1) 4)))"

section \<open>How the two decoders compare\<close>

text \<open>On a successful read both sources see the same tokens, so the facts on chunks carry over.\<close>

fun pre_token_of :: "fdt_token \<Rightarrow> pre_token" where
  "pre_token_of (TokBegin name) = PreBegin name"
| "pre_token_of TokEndNode = PreEndNode"
| "pre_token_of (TokProp p) =
     PreProp \<lparr>pp_nameoff = p_nameoff p, pp_value_start = p_value_start p, pp_value_end = p_value_end p, pp_next = p_next p\<rparr>"
| "pre_token_of TokNop = PreNop"
| "pre_token_of TokEnd = PreEnd"

lemma pre_read_be32_Inr [simp]:
  "pre_read_be32 data off = Inr v \<longleftrightarrow>
     off + 4 < usize_limit \<and> off + 4 \<le> length data \<and> v = from_be_bytes (slice data off (off + 4))"
  by (auto simp: pre_read_be32_def)

lemma read_be32_pre: "read_be32 data off = Inr v \<Longrightarrow> pre_read_be32 data off = Inr v"
  by simp

lemma pre_find_nul_Inr: "pre_find_nul data s = Inr e \<longleftrightarrow> find_nul data s = Inr e"
  by (auto simp: pre_find_nul_def find_nul_def)

lemma pre_align_4: "pre_align v 4 = Inr w \<longleftrightarrow> align_usize v 4 = Inr w"
proof -
  have "(4 :: nat) AND 3 = 0" by (simp add: and_nat_unfold)
  then show ?thesis by (auto simp: pre_align_def)
qed

lemma pre_checked_slice_Inr [simp]:
  "pre_checked_slice data off len = Inr bs \<longleftrightarrow>
     off + len < usize_limit \<and> off + len \<le> length data \<and> bs = slice data off (off + len)"
  by (auto simp: pre_checked_slice_def)

lemma pre_write_be32_at_Inr [simp]:
  "pre_write_be32_at out off v = Inr out' \<longleftrightarrow>
     off + 4 < usize_limit \<and> off + 4 \<le> length out \<and> out' = splice out off (to_be_bytes 4 v)"
  by (auto simp: pre_write_be32_at_def)

lemma u32_len_Inr [simp]: "u32_len v = Inr w \<longleftrightarrow> v < 2 ^ 32 \<and> w = of_nat v"
  by (auto simp: u32_len_def)

lemma pre_string_at_eq: "pre_string_at = string_at"
  by (simp add: fun_eq_iff pre_string_at_def string_at_def)

lemma pre_property_parts_Inr:
  assumes "fdt_property_parts data c = Inr p"
  shows "pre_property_parts data c =
    Inr \<lparr>pp_nameoff = p_nameoff p, pp_value_start = p_value_start p, pp_value_end = p_value_end p, pp_next = p_next p\<rparr>"
  using assms
  by (auto simp: fdt_property_parts_def pre_property_parts_def pre_align_4 [unfolded align_usize_Inr] not_less split: if_split_asm)

lemma pre_next_token_Inr:
  assumes "next_token data c = Inr (t, n)"
  shows "pre_next_token data c = Inr (pre_token_of t, n)"
proof -
  from assms obtain tok where tok: "read_be32 data c = Inr tok"
    and run: "(let cursor = c + 4 in
     if tok = FDT_BEGIN_NODE then
       bind_io (find_nul data cursor) (\<lambda>name_end.
       bind_io (align_usize (name_end + 1) 4) (\<lambda>next.
       Inr (TokBegin (slice data cursor name_end), next)))
     else if tok = FDT_END_NODE then Inr (TokEndNode, cursor)
     else if tok = FDT_PROP then
       bind_io (fdt_property_parts data cursor) (\<lambda>parts. Inr (TokProp parts, p_next parts))
     else if tok = FDT_NOP then Inr (TokNop, cursor)
     else if tok = FDT_END then Inr (TokEnd, cursor)
     else invalid_data ''DTB has unknown structure token'') = Inr (t, n)"
    unfolding next_token_def bind_io_eq_Inr by blast
  have "pre_read_be32 data c = Inr tok" by (rule read_be32_pre [OF tok])
  then show ?thesis
    using run
    by (auto simp: pre_next_token_def Let_def pre_find_nul_Inr pre_align_4 pre_property_parts_Inr
        simp del: pre_read_be32_Inr align_usize_Inr split: if_split_asm)
qed

lemma pre_next_token_chunk:
  assumes "chunk w e" and "4 dvd length pre" and "length pre + length w + 8 < usize_limit"
  shows "pre_next_token (pre @ w @ post) (length pre) = Inr (pre_token_of (token_of (length pre) e), length pre + length w)"
  by (rule pre_next_token_Inr [OF next_token_chunk [OF assms]])

lemma pre_next_token_progress:
  assumes "pre_next_token data c = Inr (t, n)"
  shows "c + 4 \<le> n" and "c + 4 \<le> length data"
proof -
  show "c + 4 \<le> length data"
    using assms by (auto simp: pre_next_token_def)
  show "c + 4 \<le> n"
    using assms round_up4_ge
    by (auto simp: pre_next_token_def Let_def pre_property_parts_def pre_find_nul_Inr pre_align_4 find_nul_Inr split: if_splits)
qed

lemma pre_next_token_measure: "pre_next_token data c = Inr (t, n) \<Longrightarrow> length data - n < length data - c"
  using pre_next_token_progress [of data c t n] by simp

end
