(* ===== verification/PreReader.thy ===== *)
theory PreReader
  imports PreFdt
begin

text \<open>
  \<open>Header\<close>, \<open>Reader\<close> and \<open>Writer\<close> of \<open>pocketpreboot/src/fdt.rs\<close>. A \<open>Node\<close> is its offset in the
  structure block. The iterators \<open>Props\<close> and \<open>Subnodes\<close> are \<open>next_prop\<close> and \<open>next_subnode\<close>, which give the
  item at a cursor and the cursor after it; the \<open>for\<close> loops of the callers, left at the first
  error, are \<open>find_prop\<close> and \<open>for_subnodes\<close>.
\<close>

section \<open>Header and reader\<close>

record pre_reader =
  rd_addr :: nat
  rd_data :: bytes
  rd_header :: fdt_header

definition pre_header_parse :: "bytes \<Rightarrow> fdt_header fdt" where
  "pre_header_parse data =
     (if length data < HEADER_SIZE then Inl FdtBadOffset
      else
      bind_io (pre_read_be32 data 0) (\<lambda>magic.
      if magic \<noteq> FDT_MAGIC then Inl FdtBadMagic
      else
      bind_io (pre_read_be32 data 4) (\<lambda>tot.
      bind_io (pre_read_be32 data 8) (\<lambda>off_struct.
      bind_io (pre_read_be32 data 12) (\<lambda>off_strings.
      bind_io (pre_read_be32 data 16) (\<lambda>off_rsvmap.
      bind_io (pre_read_be32 data 20) (\<lambda>ver.
      bind_io (pre_read_be32 data 24) (\<lambda>last_comp.
      bind_io (pre_read_be32 data 28) (\<lambda>cpuid.
      bind_io (pre_read_be32 data 32) (\<lambda>size_strings.
      bind_io (pre_read_be32 data 36) (\<lambda>size_struct.
      let h = \<lparr>totalsize = unat tot, off_dt_struct = unat off_struct, off_dt_strings = unat off_strings,
            off_mem_rsvmap = unat off_rsvmap, version = ver, last_comp_version = last_comp, boot_cpuid_phys = cpuid,
            size_dt_strings = unat size_strings, size_dt_struct = unat size_struct\<rparr>
      in if totalsize h < HEADER_SIZE \<or> length data < totalsize h then Inl FdtBadOffset
         else
         (let data = take (totalsize h) data in
          bind_io (pre_checked_slice data (off_dt_struct h) (size_dt_struct h)) (\<lambda>_.
          bind_io (pre_checked_slice data (off_dt_strings h) (size_dt_strings h)) (\<lambda>_.
          if version h < 17 \<or> 17 < last_comp_version h \<or> off_dt_struct h < HEADER_SIZE \<or> off_dt_struct h mod 4 \<noteq> 0 \<or>
             off_dt_strings h < HEADER_SIZE \<or> off_mem_rsvmap h < HEADER_SIZE \<or> off_mem_rsvmap h mod 8 \<noteq> 0 \<or>
             totalsize h \<le> off_mem_rsvmap h
          then Inl FdtBadOffset else Inr h))))))))))))))"

definition reader_new :: "nat \<Rightarrow> bytes \<Rightarrow> pre_reader fdt" where
  "reader_new addr data =
     bind_io (pre_header_parse data) (\<lambda>h. Inr \<lparr>rd_addr = addr, rd_data = take (totalsize h) data, rd_header = h\<rparr>)"

definition mem_slice :: "(nat \<Rightarrow> u8) \<Rightarrow> nat \<Rightarrow> nat \<Rightarrow> bytes" where
  "mem_slice mem p n = map mem [p..<p + n]"

definition reader_from_ptr :: "(nat \<Rightarrow> u8) \<Rightarrow> nat \<Rightarrow> pre_reader fdt" where
  "reader_from_ptr mem p =
     (if p = 0 then Inl FdtBadOffset
      else
        (let header = mem_slice mem p HEADER_SIZE in
         bind_io (pre_read_be32 header 0) (\<lambda>magic.
         if magic \<noteq> FDT_MAGIC then Inl FdtBadMagic
         else
         bind_io (pre_read_be32 header 4) (\<lambda>tot.
         if \<not> (HEADER_SIZE \<le> unat tot \<and> unat tot \<le> 512 * 1024) then Inl FdtBadOffset
         else
         bind_io (ok_or FdtBadOffset (checked_add_usize p (unat tot))) (\<lambda>_.
         reader_new p (mem_slice mem p (unat tot)))))))"

definition reader_struct_block :: "pre_reader \<Rightarrow> bytes fdt" where
  "reader_struct_block r = pre_checked_slice (rd_data r) (off_dt_struct (rd_header r)) (size_dt_struct (rd_header r))"

definition reader_strings :: "pre_reader \<Rightarrow> bytes fdt" where
  "reader_strings r = pre_checked_slice (rd_data r) (off_dt_strings (rd_header r)) (size_dt_strings (rd_header r))"

function pre_reserve_loop :: "bytes \<Rightarrow> nat \<Rightarrow> nat \<Rightarrow> bytes fdt" where
  "pre_reserve_loop data start cursor =
     bind_io (pre_checked_slice data cursor 16) (\<lambda>entry.
     bind_io (ok_or FdtBadOffset (checked_add_usize cursor 16)) (\<lambda>next.
     if (from_be_bytes (slice entry 0 8) :: u64) = 0 \<and> (from_be_bytes (slice entry 8 16) :: u64) = 0
     then pre_checked_slice data start (next - start)
     else pre_reserve_loop data start next))"
  by pat_completeness auto
termination
  by (relation "measure (\<lambda>(data, start, cursor). length data - cursor)") auto

declare pre_reserve_loop.simps [simp del]

definition reader_reserve_map :: "pre_reader \<Rightarrow> bytes fdt" where
  "reader_reserve_map r = pre_reserve_loop (rd_data r) (off_mem_rsvmap (rd_header r)) (off_mem_rsvmap (rd_header r))"

definition reader_root :: "pre_reader \<Rightarrow> nat fdt" where
  "reader_root r =
     bind_io (reader_struct_block r) (\<lambda>sb.
     bind_io (pre_read_be32 sb 0) (\<lambda>token. if token \<noteq> FDT_BEGIN_NODE then Inl FdtBadToken else Inr 0))"

section \<open>Properties\<close>

function next_prop :: "bytes \<Rightarrow> bytes \<Rightarrow> nat \<Rightarrow> ((bytes \<times> bytes) \<times> nat) option fdt" where
  "next_prop sb st cursor =
     bind_io (pre_read_be32 sb cursor) (\<lambda>token.
     if token = FDT_PROP then
       bind_io (pre_property_parts sb (cursor + 4)) (\<lambda>parts.
       bind_io (ok_or FdtBadOffset (pre_string_at st (pp_nameoff parts))) (\<lambda>name.
       Inr (Some ((name, slice sb (pp_value_start parts) (pp_value_end parts)), pp_next parts))))
     else if token = FDT_BEGIN_NODE \<or> token = FDT_END_NODE \<or> token = FDT_END then Inr None
     else if token = FDT_NOP then next_prop sb st (cursor + 4)
     else Inl FdtBadToken)"
  by pat_completeness auto
termination
  by (relation "measure (\<lambda>(sb, st, cursor). length sb - cursor)") auto

declare next_prop.simps [simp del]

lemma pre_property_parts_next: "pre_property_parts sb c = Inr p \<Longrightarrow> c + 8 \<le> pp_next p \<and> pp_next p \<le> length sb"
  using round_up4_ge
  by (auto simp: pre_property_parts_def pre_align_4 not_less split: if_split_asm)

lemma next_prop_measure: "next_prop sb st c = Inr (Some (p, n)) \<Longrightarrow> c < n \<and> n \<le> length sb"
proof (induction sb st c rule: next_prop.induct)
  case (1 sb st c)
  obtain token where tk: "pre_read_be32 sb c = Inr token"
    using "1.prems" by (subst (asm) next_prop.simps) (simp del: pre_read_be32_Inr, blast)
  note run = "1.prems" [unfolded next_prop.simps [of sb st c] tk bind_io_simps]
  have le: "c + 4 \<le> length sb" using tk by simp
  show ?case
  proof (cases "token = FDT_PROP")
    case True
    then show ?thesis using run by (auto dest!: pre_property_parts_next)
  next
    case False
    then have nop: "\<not> (token = FDT_BEGIN_NODE \<or> token = FDT_END_NODE \<or> token = FDT_END)" "token = FDT_NOP"
      using run by (auto split: if_split_asm)
    then show ?thesis using run False "1.IH" [OF tk False nop] by auto
  qed
qed

function find_prop :: "bytes \<Rightarrow> bytes \<Rightarrow> bytes \<Rightarrow> nat \<Rightarrow> bytes fdt" where
  "find_prop sb st name cursor =
     bind_io (next_prop sb st cursor) (\<lambda>r.
     case r of
       None \<Rightarrow> Inl FdtNotFound
     | Some ((k, v), next) \<Rightarrow> if k = name then Inr v else find_prop sb st name next)"
  by pat_completeness auto
termination
  by (relation "measure (\<lambda>(sb, st, name, cursor). length sb - cursor)") (auto dest!: next_prop_measure)

declare find_prop.simps [simp del]

definition reader_prop :: "pre_reader \<Rightarrow> nat \<Rightarrow> bytes \<Rightarrow> bytes fdt" where
  "reader_prop r node name =
     bind_io (reader_struct_block r) (\<lambda>sb.
     bind_io (node_content_start sb node) (\<lambda>cursor.
     bind_io (reader_strings r) (\<lambda>st.
     find_prop sb st name cursor)))"

definition prop_str :: "pre_reader \<Rightarrow> nat \<Rightarrow> bytes \<Rightarrow> bytes fdt" where
  "prop_str r node name = bind_io (reader_prop r node name) (\<lambda>v. ok_or FdtBadValue (cstr v))"

definition prop_u32 :: "pre_reader \<Rightarrow> nat \<Rightarrow> bytes \<Rightarrow> u32 fdt" where
  "prop_u32 r node name = bind_io (reader_prop r node name) (\<lambda>v. pre_read_be32 v 0)"

text \<open>\<open>Result::or_else\<close> with a closure that ignores the error.\<close>

definition or_try :: "'e + 'a \<Rightarrow> 'e + 'a \<Rightarrow> 'e + 'a" where
  "or_try a b = (case a of Inr x \<Rightarrow> Inr x | Inl _ \<Rightarrow> b)"

definition node_phandle :: "pre_reader \<Rightarrow> nat \<Rightarrow> u32 fdt" where
  "node_phandle r node = or_try (prop_u32 r node (bytes_of ''phandle'')) (prop_u32 r node (bytes_of ''linux,phandle''))"

definition reader_node_name :: "pre_reader \<Rightarrow> nat \<Rightarrow> bytes fdt" where
  "reader_node_name r node = bind_io (reader_struct_block r) (\<lambda>sb. pre_node_name sb node)"

section \<open>Subnodes\<close>

function skip_from :: "bytes \<Rightarrow> nat \<Rightarrow> nat \<Rightarrow> nat fdt" where
  "skip_from sb depth cursor =
     bind_io (pre_next_token sb cursor) (\<lambda>tn.
     case tn of (tok, next) \<Rightarrow>
     (case tok of
        PreBegin _ \<Rightarrow> skip_from sb (depth + 1) next
      | PreEndNode \<Rightarrow>
          if depth = 0 then Inl FdtBadToken
          else if depth - 1 = 0 then Inr next
          else skip_from sb (depth - 1) next
      | PreProp _ \<Rightarrow> skip_from sb depth next
      | PreNop \<Rightarrow> skip_from sb depth next
      | PreEnd \<Rightarrow> Inl FdtUnterminated))"
  by pat_completeness auto
termination
  by (relation "measure (\<lambda>(sb, depth, cursor). length sb - cursor)") (auto dest!: pre_next_token_measure)

declare skip_from.simps [simp del]

definition pre_skip_node_subtree :: "bytes \<Rightarrow> nat \<Rightarrow> nat fdt" where
  "pre_skip_node_subtree sb start = skip_from sb 0 start"

lemma skip_from_measure: "skip_from sb depth c = Inr n \<Longrightarrow> c < n \<and> n \<le> length sb"
proof (induction sb depth c rule: skip_from.induct)
  case (1 sb depth c)
  obtain tok nx where tn: "pre_next_token sb c = Inr (tok, nx)"
    using "1.prems" by (subst (asm) skip_from.simps) auto
  have p: "c + 4 \<le> nx" "c + 4 \<le> length sb" using pre_next_token_progress [OF tn] by simp_all
  note run = "1.prems" [unfolded skip_from.simps [of sb depth c] tn bind_io_simps prod.case]
  show ?case
  proof (cases tok)
    case PreEndNode
    then have "nx = c + 4" using tn by (auto simp: pre_next_token_def Let_def split: if_split_asm)
    then show ?thesis using run PreEndNode p "1.IH"(2) [OF tn refl PreEndNode] by (auto split: if_split_asm)
  qed (use run p "1.IH" [OF tn refl] in \<open>auto dest!: less_imp_le\<close>)
qed

function next_subnode :: "bytes \<Rightarrow> nat \<Rightarrow> (nat \<times> nat) option fdt" where
  "next_subnode sb cursor =
     bind_io (pre_read_be32 sb cursor) (\<lambda>token.
     if token = FDT_BEGIN_NODE then
       bind_io (pre_skip_node_subtree sb cursor) (\<lambda>next. Inr (Some (cursor, next)))
     else if token = FDT_END_NODE \<or> token = FDT_END then Inr None
     else if token = FDT_PROP then
       bind_io (pre_property_parts sb (cursor + 4)) (\<lambda>parts. next_subnode sb (pp_next parts))
     else if token = FDT_NOP then next_subnode sb (cursor + 4)
     else Inl FdtBadToken)"
  by pat_completeness auto
termination
  by (relation "measure (\<lambda>(sb, cursor). length sb - cursor)") (auto dest!: pre_property_parts_next)

declare next_subnode.simps [simp del]

lemma next_subnode_measure: "next_subnode sb c = Inr (Some (o', n)) \<Longrightarrow> c < n \<and> n \<le> length sb"
proof (induction sb c rule: next_subnode.induct)
  case (1 sb c)
  obtain token where tk: "pre_read_be32 sb c = Inr token"
    using "1.prems" by (subst (asm) next_subnode.simps) (simp del: pre_read_be32_Inr, blast)
  note run = "1.prems" [unfolded next_subnode.simps [of sb c] tk bind_io_simps]
  show ?case
  proof (cases "token = FDT_BEGIN_NODE")
    case True
    then show ?thesis using run by (auto simp: pre_skip_node_subtree_def dest!: skip_from_measure)
  next
    case notbegin: False
    then have inner: "\<not> (token = FDT_END_NODE \<or> token = FDT_END)" using run by auto
    show ?thesis
    proof (cases "token = FDT_PROP")
      case True
      then obtain parts where p: "pre_property_parts sb (c + 4) = Inr parts" "next_subnode sb (pp_next parts) = Inr (Some (o', n))"
        using run notbegin inner by (auto split: if_split_asm)
      then show ?thesis using "1.IH"(1) [OF tk notbegin inner True p] pre_property_parts_next [OF p(1)] by simp
    next
      case False
      then have "token = FDT_NOP" "next_subnode sb (c + 4) = Inr (Some (o', n))"
        using run notbegin inner by (auto split: if_split_asm)
      then show ?thesis using "1.IH"(2) [OF tk notbegin inner False] by simp
    qed
  qed
qed

text \<open>The errors of the reader are turned into those of the caller by \<open>conv\<close>.\<close>

function for_subnodes :: "(fdt_error \<Rightarrow> 'e) \<Rightarrow> bytes \<Rightarrow> (nat \<Rightarrow> 'a \<Rightarrow> 'e + 'a) \<Rightarrow> nat \<Rightarrow> 'a \<Rightarrow> 'e + 'a" where
  "for_subnodes conv sb f cursor acc =
     (case next_subnode sb cursor of
        Inl e \<Rightarrow> Inl (conv e)
      | Inr None \<Rightarrow> Inr acc
      | Inr (Some (child, next)) \<Rightarrow> bind_io (f child acc) (\<lambda>acc. for_subnodes conv sb f next acc))"
  by pat_completeness auto
termination
  by (relation "measure (\<lambda>(conv, sb, f, cursor, acc). length sb - cursor)") (auto dest!: next_subnode_measure)

declare for_subnodes.simps [simp del]

definition convert :: "(fdt_error \<Rightarrow> 'e) \<Rightarrow> 'a fdt \<Rightarrow> 'e + 'a" where
  "convert conv r = (case r of Inl e \<Rightarrow> Inl (conv e) | Inr x \<Rightarrow> Inr x)"

definition each_subnode :: "(fdt_error \<Rightarrow> 'e) \<Rightarrow> pre_reader \<Rightarrow> nat \<Rightarrow> (nat \<Rightarrow> 'a \<Rightarrow> 'e + 'a) \<Rightarrow> 'a \<Rightarrow> 'e + 'a" where
  "each_subnode conv r node f acc =
     bind_io (convert conv (bind_io (reader_struct_block r) (\<lambda>sb. bind_io (node_content_start sb node) (\<lambda>c. Inr (sb, c))))) (\<lambda>(sb, cursor).
     for_subnodes conv sb f cursor acc)"

section \<open>Paths and phandles\<close>

abbreviation slash_byte :: u8 where "slash_byte \<equiv> 0x2F"

text \<open>Both run on the path after its first slash.\<close>

function count_path_components :: "bytes \<Rightarrow> nat fdt" where
  "count_path_components p =
     (if p = [] then Inr 0
      else if hd p = slash_byte then Inl FdtBadValue
      else bind_io (count_path_components (drop 1 (dropWhile (\<lambda>b. b \<noteq> slash_byte) p))) (\<lambda>n. Inr (n + 1)))"
  by pat_completeness auto
termination
  by (relation "measure length") (auto simp: less_Suc_eq_le neq_Nil_conv intro: le_trans [OF diff_le_self length_dropWhile_le])

declare count_path_components.simps [simp del]

function component_at :: "bytes \<Rightarrow> nat \<Rightarrow> bytes option" where
  "component_at p i =
     (if p = [] then None
      else if i = 0 then Some (takeWhile (\<lambda>b. b \<noteq> slash_byte) p)
      else component_at (drop 1 (dropWhile (\<lambda>b. b \<noteq> slash_byte) p)) (i - 1))"
  by pat_completeness auto
termination by (relation "measure (\<lambda>(p, i). i)") auto

declare component_at.simps [simp del]

function find_path_loop :: "bytes \<Rightarrow> bytes \<Rightarrow> nat \<Rightarrow> nat \<Rightarrow> nat \<Rightarrow> bool list \<Rightarrow> nat fdt" where
  "find_path_loop sb path target cursor depth matches =
     bind_io (pre_next_token sb cursor) (\<lambda>tn.
     case tn of (tok, next) \<Rightarrow>
     (case tok of
        PreBegin name \<Rightarrow>
          (let new_depth = depth + 1 in
           if MAX_DEPTH < new_depth then Inl FdtTooDeep
           else
             (let is_match = (if new_depth = 1 then name = []
                              else if matches ! (depth - 1) then component_at path (new_depth - 2) = Some name
                              else False);
                  matches = matches[new_depth - 1 := is_match] in
              if is_match \<and> target = new_depth - 1 then Inr cursor
              else find_path_loop sb path target next new_depth matches))
      | PreEndNode \<Rightarrow>
          if depth = 0 then Inl FdtBadToken else find_path_loop sb path target next (depth - 1) matches
      | PreProp _ \<Rightarrow> find_path_loop sb path target next depth matches
      | PreNop \<Rightarrow> find_path_loop sb path target next depth matches
      | PreEnd \<Rightarrow> Inl FdtNotFound))"
  by pat_completeness auto
termination
  by (relation "measure (\<lambda>(sb, path, target, cursor, depth, matches). length sb - cursor)") (auto dest!: pre_next_token_measure)

declare find_path_loop.simps [simp del]

definition reader_find_path :: "pre_reader \<Rightarrow> bytes \<Rightarrow> nat fdt" where
  "reader_find_path r path =
     (if path = [slash_byte] then reader_root r
      else if \<not> starts_with [slash_byte] path then Inl FdtBadValue
      else
        bind_io (reader_struct_block r) (\<lambda>sb.
        bind_io (count_path_components (drop 1 path)) (\<lambda>target.
        find_path_loop sb (drop 1 path) target 0 0 (replicate MAX_DEPTH False))))"

function find_phandle_loop :: "pre_reader \<Rightarrow> bytes \<Rightarrow> u32 \<Rightarrow> nat \<Rightarrow> nat fdt" where
  "find_phandle_loop r sb phandle cursor =
     bind_io (pre_next_token sb cursor) (\<lambda>tn.
     case tn of (tok, next) \<Rightarrow>
     (case tok of
        PreBegin _ \<Rightarrow>
          if node_phandle r cursor = Inr phandle then Inr cursor else find_phandle_loop r sb phandle next
      | PreEndNode \<Rightarrow> find_phandle_loop r sb phandle next
      | PreProp _ \<Rightarrow> find_phandle_loop r sb phandle next
      | PreNop \<Rightarrow> find_phandle_loop r sb phandle next
      | PreEnd \<Rightarrow> Inl FdtNotFound))"
  by pat_completeness auto
termination
  by (relation "measure (\<lambda>(r, sb, phandle, cursor). length sb - cursor)") (auto dest!: pre_next_token_measure)

declare find_phandle_loop.simps [simp del]

definition reader_find_phandle :: "pre_reader \<Rightarrow> u32 \<Rightarrow> nat fdt" where
  "reader_find_phandle r phandle = bind_io (reader_struct_block r) (\<lambda>sb. find_phandle_loop r sb phandle 0)"

section \<open>Writer\<close>

record fdt_writer =
  w_output :: bytes
  w_pos :: nat

definition writer_new :: "bytes \<Rightarrow> fdt_writer" where
  "writer_new output = \<lparr>w_output = output, w_pos = 0\<rparr>"

definition writer_write :: "fdt_writer \<Rightarrow> bytes \<Rightarrow> fdt_writer fdt" where
  "writer_write w bs =
     bind_io (ok_or FdtBufferTooSmall (checked_add_usize (w_pos w) (length bs))) (\<lambda>e.
     if length (w_output w) < e then Inl FdtBufferTooSmall
     else Inr \<lparr>w_output = splice (w_output w) (w_pos w) bs, w_pos = e\<rparr>)"

definition writer_write_zeros :: "fdt_writer \<Rightarrow> nat \<Rightarrow> fdt_writer fdt" where
  "writer_write_zeros w len =
     bind_io (ok_or FdtBufferTooSmall (checked_add_usize (w_pos w) len)) (\<lambda>e.
     if length (w_output w) < e then Inl FdtBufferTooSmall
     else Inr \<lparr>w_output = splice (w_output w) (w_pos w) (replicate len 0), w_pos = e\<rparr>)"

definition writer_reserve :: "fdt_writer \<Rightarrow> nat \<Rightarrow> fdt_writer fdt" where
  "writer_reserve w len = writer_write_zeros w len"

definition writer_write_be32 :: "fdt_writer \<Rightarrow> u32 \<Rightarrow> fdt_writer fdt" where
  "writer_write_be32 w v = writer_write w (to_be_bytes 4 v)"

definition writer_pad_to :: "fdt_writer \<Rightarrow> nat \<Rightarrow> fdt_writer fdt" where
  "writer_pad_to w align = bind_io (pre_align (w_pos w) align) (\<lambda>padded. writer_write_zeros w (padded - w_pos w))"

definition writer_finish :: "fdt_writer \<Rightarrow> bytes" where
  "writer_finish w = take (w_pos w) (w_output w)"

definition pre_write_prop :: "fdt_writer \<Rightarrow> u32 \<Rightarrow> bytes \<Rightarrow> fdt_writer fdt" where
  "pre_write_prop w nameoff v =
     bind_io (writer_write_be32 w FDT_PROP) (\<lambda>w.
     bind_io (writer_write_be32 w (of_nat (length v))) (\<lambda>w.
     bind_io (writer_write_be32 w nameoff) (\<lambda>w.
     bind_io (writer_write w v) (\<lambda>w.
     writer_pad_to w 4))))"

definition pre_write_header :: "fdt_writer \<Rightarrow> fdt_header \<Rightarrow> nat \<Rightarrow> nat \<Rightarrow> nat \<Rightarrow> nat \<Rightarrow> nat \<Rightarrow> fdt_writer fdt" where
  "pre_write_header w h tot off_struct off_strings size_struct size_strings =
     bind_io (pre_write_be32_at (w_output w) 0 FDT_MAGIC) (\<lambda>o'.
     bind_io (bind_io (u32_len tot) (pre_write_be32_at o' 4)) (\<lambda>o'.
     bind_io (bind_io (u32_len off_struct) (pre_write_be32_at o' 8)) (\<lambda>o'.
     bind_io (bind_io (u32_len off_strings) (pre_write_be32_at o' 12)) (\<lambda>o'.
     bind_io (pre_write_be32_at o' 16 (of_nat HEADER_SIZE)) (\<lambda>o'.
     bind_io (pre_write_be32_at o' 20 (version h)) (\<lambda>o'.
     bind_io (pre_write_be32_at o' 24 (last_comp_version h)) (\<lambda>o'.
     bind_io (pre_write_be32_at o' 28 (boot_cpuid_phys h)) (\<lambda>o'.
     bind_io (bind_io (u32_len size_strings) (pre_write_be32_at o' 32)) (\<lambda>o'.
     bind_io (bind_io (u32_len size_struct) (pre_write_be32_at o' 36)) (\<lambda>o'.
     Inr (w\<lparr>w_output := o'\<rparr>)))))))))))"

end
