(* ===== verification/MsmPage.thy ===== *)
theory MsmPage
  imports PreReader ContractTree
begin

text \<open>
  What \<open>pocketpreboot/src/msm8916.rs\<close> reads from the firmware's device tree before it touches the
  hardware: the console, the page reserved for the resident code, the check that the page is RAM
  nobody else uses, and the four CPUs with their power controllers. The address of the linked
  image, \<open>_start\<close>, is a parameter.
\<close>

section \<open>Constants and errors\<close>

definition PRE_SPIN_COMPATIBLE :: bytes where "PRE_SPIN_COMPATIBLE = bytes_of ''pocketboot,spin-table-v1''"
definition PRE_SPIN_SIZE :: u64 where "PRE_SPIN_SIZE = 4096"
definition SPIN_ENTRY_OFFSET :: u64 where "SPIN_ENTRY_OFFSET = 0x100"
definition SPIN_SLOTS_OFFSET :: u64 where "SPIN_SLOTS_OFFSET = 0x400"
definition SPIN_SLOT_STRIDE :: u64 where "SPIN_SLOT_STRIDE = 0x80"
definition SPIN_REQUEST_OFFSET :: u64 where "SPIN_REQUEST_OFFSET = 8"
definition SPIN_ACK_OFFSET :: u64 where "SPIN_ACK_OFFSET = 0x40"
definition SPIN_ENTRY_EL_OFFSET :: u64 where "SPIN_ENTRY_EL_OFFSET = 0x48"
definition SPIN_CPUECTLR_OFFSET :: u64 where "SPIN_CPUECTLR_OFFSET = 0x50"
definition MAX_CPUS :: nat where "MAX_CPUS = 4"

lemmas spin_defs = PRE_SPIN_SIZE_def SPIN_ENTRY_OFFSET_def SPIN_SLOTS_OFFSET_def SPIN_SLOT_STRIDE_def
  SPIN_REQUEST_OFFSET_def SPIN_ACK_OFFSET_def SPIN_ENTRY_EL_OFFSET_def SPIN_CPUECTLR_OFFSET_def MAX_CPUS_def

text \<open>\<open>MsmPanic\<close> is the value of a panic, which is no \<open>Error\<close> of the source.\<close>

datatype msm_error =
    MsmFdt
  | MissingUart
  | MissingSpinTable
  | BadSpinTable
  | MissingCpu
  | TooManyCpus
  | MsmScm
  | EntryState
  | OccupiedSpinTable
  | UnparkedResident
  | MsmCoherency
  | StartupTimeout
  | MsmPanic

definition msm_message :: "msm_error \<Rightarrow> string" where
  "msm_message e =
     (case e of
        MsmFdt \<Rightarrow> ''bad fdt''
      | MissingUart \<Rightarrow> ''missing uart''
      | MissingSpinTable \<Rightarrow> ''missing spin-table reserved memory''
      | BadSpinTable \<Rightarrow> ''bad spin-table reserved memory''
      | MissingCpu \<Rightarrow> ''missing cpu data''
      | TooManyCpus \<Rightarrow> ''too many cpus''
      | MsmScm \<Rightarrow> ''scm call failed or unsupported convention''
      | EntryState \<Rightarrow> ''requires CPU0 at EL1/EL2 with MMU and D-cache off''
      | OccupiedSpinTable \<Rightarrow> ''spin-table occupied while a secondary is out of reset; refusing to overwrite resident code''
      | UnparkedResident \<Rightarrow> ''resident CPUs have not acknowledged a safe handoff''
      | MsmCoherency \<Rightarrow> ''firmware did not enable Cortex-A53 SMPEN coherency''
      | StartupTimeout \<Rightarrow> ''secondary did not acknowledge resident parking''
      | MsmPanic \<Rightarrow> '''')"

text \<open>\<open>From<fdt::Error>\<close>, applied by \<open>?\<close>. A panic stays one.\<close>

definition from_fdt :: "fdt_error \<Rightarrow> msm_error" where "from_fdt e = (if e = FdtPanic then MsmPanic else MsmFdt)"

abbreviation fdt_q :: "'a fdt \<Rightarrow> msm_error + 'a" where "fdt_q r \<equiv> convert from_fdt r"

section \<open>Data\<close>

record pre_spin_table =
  pst_addr :: u64

definition code_addr :: "pre_spin_table \<Rightarrow> u64" where
  "code_addr t = pst_addr t + SPIN_ENTRY_OFFSET"

definition slot_addr :: "pre_spin_table \<Rightarrow> u32 \<Rightarrow> u64" where
  "slot_addr t cpu = pst_addr t + SPIN_SLOTS_OFFSET + ucast cpu * SPIN_SLOT_STRIDE"

definition ack_addr :: "pre_spin_table \<Rightarrow> u32 \<Rightarrow> u64" where
  "ack_addr t cpu = slot_addr t cpu + SPIN_ACK_OFFSET"

record cpu_info =
  ci_reg :: u32
  ci_acc_base :: u64

datatype boot_mode = Cold | Resident

text \<open>The array and its length are one list.\<close>

record cpu_list =
  cl_cpus :: "cpu_info list"
  cl_mode :: boot_mode

definition cpu_list_new :: cpu_list where
  "cpu_list_new = \<lparr>cl_cpus = [], cl_mode = Cold\<rparr>"

definition cpu_list_push :: "cpu_list \<Rightarrow> cpu_info \<Rightarrow> msm_error + cpu_list" where
  "cpu_list_push l c =
     (if MAX_CPUS \<le> length (cl_cpus l) then Inl TooManyCpus else Inr (l\<lparr>cl_cpus := cl_cpus l @ [c]\<rparr>))"

section \<open>The console\<close>

definition stdout_target :: "bytes \<Rightarrow> bytes option" where
  "stdout_target stdout =
     (let e = (case position (\<lambda>b. b = 0x3A) stdout of Some i \<Rightarrow> i | None \<Rightarrow> length stdout)
      in if e \<noteq> 0 then Some (take e stdout) else None)"

definition find_uart_base :: "pre_reader \<Rightarrow> msm_error + u64" where
  "find_uart_base r =
     bind_io (fdt_q (reader_find_path r (bytes_of ''/chosen''))) (\<lambda>chosen.
     bind_io (fdt_q (or_try (prop_str r chosen (bytes_of ''stdout-path'')) (prop_str r chosen (bytes_of ''linux,stdout-path'')))) (\<lambda>stdout.
     bind_io (ok_or MissingUart (stdout_target stdout)) (\<lambda>target.
     bind_io
       (if starts_with [slash_byte] target then Inr target
        else
          bind_io (fdt_q (reader_find_path r (bytes_of ''/aliases''))) (\<lambda>aliases.
          fdt_q (prop_str r aliases target))) (\<lambda>path.
     bind_io (fdt_q (reader_find_path r path)) (\<lambda>uart.
     bind_io (fdt_q (reader_prop r uart (bytes_of ''compatible''))) (\<lambda>compat.
     if \<not> stringlist_contains compat (bytes_of ''qcom,msm-uartdm-v1.4'') then Inl MissingUart
     else
     bind_io (fdt_q (reader_prop r uart (bytes_of ''reg''))) (\<lambda>reg.
     if length reg \<noteq> 8 then Inl MissingUart
     else
     bind_io (fdt_q (read_cells reg 4 1)) (\<lambda>size.
     if size < 0x140 then Inl MissingUart
     else fdt_q (read_cells reg 0 1)))))))))"

section \<open>The resident page\<close>

definition bad_status :: "pre_reader \<Rightarrow> nat \<Rightarrow> bool" where
  "bad_status r node =
     (case prop_str r node (bytes_of ''status'') of
        Inr s \<Rightarrow> s \<noteq> bytes_of ''okay'' \<and> s \<noteq> bytes_of ''ok'' | Inl _ \<Rightarrow> False)"

text \<open>The body of the loop over the children of \<open>/reserved-memory\<close>, which starts with \<open>None\<close>.\<close>

definition spin_table_step :: "pre_reader \<Rightarrow> nat \<Rightarrow> pre_spin_table option \<Rightarrow> msm_error + pre_spin_table option" where
  "spin_table_step r node found =
     bind_io (fdt_q (reader_node_name r node)) (\<lambda>name.
     let compat = (case reader_prop r node (bytes_of ''compatible'') of Inr v \<Rightarrow> v | Inl _ \<Rightarrow> []) in
     if \<not> basename_eq name (bytes_of ''spin-table'') \<and> \<not> stringlist_contains compat PRE_SPIN_COMPATIBLE then Inr found
     else if found \<noteq> None \<or> \<not> stringlist_contains compat PRE_SPIN_COMPATIBLE then Inl BadSpinTable
     else
     bind_io (fdt_q (reader_prop r node (bytes_of ''no-map''))) (\<lambda>nomap.
     if nomap \<noteq> [] \<or> \<not> isl (reader_prop r node (bytes_of ''reusable'')) \<or> bad_status r node then Inl BadSpinTable
     else
     bind_io (fdt_q (reader_prop r node (bytes_of ''reg''))) (\<lambda>reg.
     bind_io (fdt_q (read_cells reg 0 2)) (\<lambda>addr.
     bind_io (fdt_q (read_cells reg 8 2)) (\<lambda>size.
     if length reg \<noteq> 16 \<or> addr = 0 \<or> size \<noteq> PRE_SPIN_SIZE \<or> addr mod PRE_SPIN_SIZE \<noteq> 0 \<or>
        (case checked_add addr size of None \<Rightarrow> True | Some e \<Rightarrow> 0x100000000 < e)
     then Inl BadSpinTable
     else Inr (Some \<lparr>pst_addr = addr\<rparr>))))))"

definition find_spin_table :: "pre_reader \<Rightarrow> msm_error + pre_spin_table" where
  "find_spin_table r =
     bind_io (fdt_q (reader_find_path r (bytes_of ''/reserved-memory''))) (\<lambda>reserved.
     bind_io (fdt_q (prop_u32 r reserved PROP_ADDRESS_CELLS)) (\<lambda>ac.
     if ac \<noteq> 2 then Inl BadSpinTable
     else
     bind_io (fdt_q (prop_u32 r reserved PROP_SIZE_CELLS)) (\<lambda>sc.
     if sc \<noteq> 2 then Inl BadSpinTable
     else
     bind_io (fdt_q (reader_prop r reserved (bytes_of ''ranges''))) (\<lambda>ranges.
     if ranges \<noteq> [] then Inl BadSpinTable
     else
     bind_io (each_subnode from_fdt r reserved (spin_table_step r) None) (\<lambda>found.
     ok_or MissingSpinTable found)))))"

section \<open>The page is free memory\<close>

definition pre_overlaps :: "u64 \<Rightarrow> u64 \<Rightarrow> u64 \<Rightarrow> u64 \<Rightarrow> bool" where
  "pre_overlaps start len other other_len \<longleftrightarrow>
     (if len = 0 \<or> other_len = 0 then False
      else
        (case checked_add start len of
           None \<Rightarrow> True
         | Some e \<Rightarrow>
             (case checked_add other other_len of
                None \<Rightarrow> True
              | Some other_end \<Rightarrow> start < other_end \<and> other < e)))"

abbreviation page_overlaps :: "pre_spin_table \<Rightarrow> u64 \<Rightarrow> u64 \<Rightarrow> bool" where
  "page_overlaps t \<equiv> pre_overlaps (pst_addr t) PRE_SPIN_SIZE"

definition reserve_entry_step :: "pre_spin_table \<Rightarrow> unit \<Rightarrow> bytes \<Rightarrow> msm_error + unit" where
  "reserve_entry_step t u entry =
     bind_io (fdt_q (read_cells entry 0 2)) (\<lambda>addr.
     bind_io (fdt_q (read_cells entry 8 2)) (\<lambda>size.
     if page_overlaps t addr size \<and> (addr \<noteq> pst_addr t \<or> size \<noteq> PRE_SPIN_SIZE) then Inl BadSpinTable else Inr ()))"

definition memory_tuple_step :: "pre_spin_table \<Rightarrow> bool \<Rightarrow> bytes \<Rightarrow> msm_error + bool" where
  "memory_tuple_step t in_ram tuple =
     bind_io (fdt_q (read_cells tuple 0 2)) (\<lambda>addr.
     bind_io (fdt_q (read_cells tuple 8 2)) (\<lambda>size.
     Inr (if addr \<le> pst_addr t \<and>
             (case checked_add addr size of None \<Rightarrow> False | Some e \<Rightarrow> pst_addr t + PRE_SPIN_SIZE \<le> e)
          then True else in_ram)))"

definition memory_step :: "pre_reader \<Rightarrow> pre_spin_table \<Rightarrow> nat \<Rightarrow> bool \<Rightarrow> msm_error + bool" where
  "memory_step r t node in_ram =
     (if prop_str r node (bytes_of ''device_type'') \<noteq> Inr (bytes_of ''memory'') then Inr in_ram
      else
        bind_io (fdt_q (reader_prop r node (bytes_of ''reg''))) (\<lambda>reg.
        if length reg mod 16 \<noteq> 0 then Inl BadSpinTable
        else fold_io (memory_tuple_step t) in_ram (chunks_exact 16 reg)))"

definition carveout_tuple_step :: "pre_spin_table \<Rightarrow> unit \<Rightarrow> bytes \<Rightarrow> msm_error + unit" where
  "carveout_tuple_step t u tuple =
     bind_io (fdt_q (read_cells tuple 0 2)) (\<lambda>addr.
     bind_io (fdt_q (read_cells tuple 8 2)) (\<lambda>size.
     if page_overlaps t addr size then Inl BadSpinTable else Inr ()))"

definition carveout_step :: "pre_reader \<Rightarrow> pre_spin_table \<Rightarrow> nat \<Rightarrow> unit \<Rightarrow> msm_error + unit" where
  "carveout_step r t node u =
     (if (case reader_prop r node (bytes_of ''compatible'') of
            Inr v \<Rightarrow> stringlist_contains v PRE_SPIN_COMPATIBLE | Inl _ \<Rightarrow> False) then Inr ()
      else
        (case reader_prop r node (bytes_of ''reg'') of
           Inl _ \<Rightarrow> Inr ()
         | Inr reg \<Rightarrow>
             if length reg mod 16 \<noteq> 0 then Inl BadSpinTable
             else fold_io (carveout_tuple_step t) () (chunks_exact 16 reg)))"

definition validate_memory :: "u64 \<Rightarrow> pre_reader \<Rightarrow> pre_spin_table \<Rightarrow> u64 \<Rightarrow> u64 \<Rightarrow> msm_error + unit" where
  "validate_memory image_start r t payload payload_size =
     bind_io (fdt_q (reader_root r)) (\<lambda>root.
     bind_io (fdt_q (prop_u32 r root PROP_ADDRESS_CELLS)) (\<lambda>ac.
     if ac \<noteq> 2 then Inl BadSpinTable
     else
     bind_io (fdt_q (prop_u32 r root PROP_SIZE_CELLS)) (\<lambda>sc.
     if sc \<noteq> 2 \<or> payload_size = 0 \<or> page_overlaps t payload payload_size then Inl BadSpinTable
     else if payload \<le> image_start \<or> page_overlaps t image_start (payload - image_start) then Inl BadSpinTable
     else if page_overlaps t (of_nat (rd_addr r)) (of_nat (totalsize (rd_header r))) then Inl BadSpinTable
     else
     bind_io (fdt_q (reader_reserve_map r)) (\<lambda>rsv.
     bind_io (fold_io (reserve_entry_step t) () (chunks_exact 16 rsv)) (\<lambda>_.
     bind_io (each_subnode from_fdt r root (memory_step r t) False) (\<lambda>in_ram.
     if \<not> in_ram then Inl BadSpinTable
     else
     bind_io (fdt_q (reader_find_path r (bytes_of ''/reserved-memory''))) (\<lambda>reserved.
     each_subnode from_fdt r reserved (carveout_step r t) ())))))))"

section \<open>The CPUs\<close>

definition cpu_mode_of :: "bytes \<Rightarrow> boot_mode option" where
  "cpu_mode_of meth =
     (if meth = bytes_of ''spin-table'' then Some Resident
      else if meth = bytes_of ''psci'' \<or> meth = bytes_of ''pocketboot,msm8916-acc'' then Some Cold
      else None)"

definition resident_acc :: "pre_reader \<Rightarrow> nat \<Rightarrow> u32 \<Rightarrow> msm_error + u64" where
  "resident_acc r node reg =
     bind_io (fdt_q (reader_prop r node (bytes_of ''cpu-release-addr''))) (\<lambda>release.
     if length release \<noteq> 8 then Inl BadSpinTable
     else
     bind_io (fdt_q (read_cells release 0 2)) (\<lambda>a.
     bind_io (find_spin_table r) (\<lambda>t.
     if a \<noteq> slot_addr t reg then Inl BadSpinTable else Inr 0)))"

definition cold_acc :: "pre_reader \<Rightarrow> nat \<Rightarrow> u32 \<Rightarrow> msm_error + u64" where
  "cold_acc r node reg =
     bind_io (fdt_q (prop_u32 r node (bytes_of ''qcom,acc''))) (\<lambda>acc_phandle.
     bind_io (fdt_q (reader_find_phandle r acc_phandle)) (\<lambda>acc.
     bind_io (fdt_q (reader_prop r acc (bytes_of ''reg''))) (\<lambda>acc_reg.
     bind_io (fdt_q (read_cells acc_reg 0 1)) (\<lambda>base.
     if length acc_reg \<noteq> 8 then Inl MissingCpu
     else
     bind_io (fdt_q (read_cells acc_reg 4 1)) (\<lambda>size.
     if size < 0x18 \<or> base \<noteq> 0x0b088000 + ucast reg * 0x10000 then Inl MissingCpu
     else
     bind_io (fdt_q (reader_prop r acc (bytes_of ''compatible''))) (\<lambda>compat.
     if \<not> stringlist_contains compat (bytes_of ''qcom,msm8916-acc'') then Inl MissingCpu
     else Inr base))))))"

definition pre_cpu_step :: "pre_reader \<Rightarrow> nat \<Rightarrow> cpu_list \<Rightarrow> msm_error + cpu_list" where
  "pre_cpu_step r node cpus =
     bind_io (fdt_q (reader_node_name r node)) (\<lambda>name.
     if \<not> basename_eq name (bytes_of ''cpu'') then Inr cpus
     else
     bind_io (fdt_q (prop_str r node (bytes_of ''device_type''))) (\<lambda>dt.
     if dt \<noteq> bytes_of ''cpu'' then Inr cpus
     else
     bind_io (fdt_q (reader_prop r node (bytes_of ''compatible''))) (\<lambda>compat.
     if \<not> stringlist_contains compat (bytes_of ''arm,cortex-a53'') then Inl MissingCpu
     else
     bind_io (fdt_q (reader_prop r node (bytes_of ''reg''))) (\<lambda>regv.
     if length regv \<noteq> 4 then Inl MissingCpu
     else
     bind_io (fdt_q (prop_u32 r node (bytes_of ''reg''))) (\<lambda>reg.
     bind_io (fdt_q (prop_str r node (bytes_of ''enable-method''))) (\<lambda>meth.
     bind_io (ok_or MissingCpu (cpu_mode_of meth)) (\<lambda>mode.
     if cl_cpus cpus \<noteq> [] \<and> cl_mode cpus \<noteq> mode then Inl OccupiedSpinTable
     else
     (let cpus = cpus\<lparr>cl_mode := mode\<rparr> in
     if of_nat MAX_CPUS \<le> reg \<or> reg \<in> ci_reg ` set (cl_cpus cpus) \<or> bad_status r node then Inl MissingCpu
     else
     bind_io (if mode = Resident then resident_acc r node reg else cold_acc r node reg) (\<lambda>acc_base.
     cpu_list_push cpus \<lparr>ci_reg = reg, ci_acc_base = acc_base\<rparr>)))))))))"

definition collect_cpus :: "pre_reader \<Rightarrow> msm_error + cpu_list" where
  "collect_cpus r =
     bind_io (fdt_q (reader_find_path r (bytes_of ''/cpus''))) (\<lambda>cpus_node.
     bind_io (fdt_q (prop_u32 r cpus_node PROP_ADDRESS_CELLS)) (\<lambda>ac.
     if ac \<noteq> 1 then Inl MissingCpu
     else
     bind_io (fdt_q (prop_u32 r cpus_node PROP_SIZE_CELLS)) (\<lambda>sc.
     if sc \<noteq> 0 then Inl MissingCpu
     else
     bind_io (each_subnode from_fdt r cpus_node (pre_cpu_step r) cpu_list_new) (\<lambda>cpus.
     if length (cl_cpus cpus) \<noteq> MAX_CPUS then Inl MissingCpu else Inr cpus))))"

end
