(* ===== verification/MsmPatch.thy ===== *)
theory MsmPatch
  imports MsmPage
begin

text \<open>
  \<open>patch_fdt\<close> of \<open>pocketpreboot/src/msm8916.rs\<close>: the device tree handed to the kernel is the
  firmware's, copied token by token, with the CPUs switched to the resident page, the power domains
  of PSCI removed from them, and PSCI and the idle states disabled.
\<close>

section \<open>Power domains\<close>

definition is_psci_node :: "pre_reader \<Rightarrow> nat \<Rightarrow> bool" where
  "is_psci_node r node =
     (case reader_prop r node (bytes_of ''compatible'') of
        Inl _ \<Rightarrow> False
      | Inr l \<Rightarrow>
          list_ex (stringlist_contains l) [bytes_of ''arm,psci'', bytes_of ''arm,psci-0.2'', bytes_of ''arm,psci-1.0''])"

record power_provider =
  pw_phandle :: u32
  pw_cells :: nat
  pw_psci :: bool

definition MAX_PROVIDERS :: nat where "MAX_PROVIDERS = 64"

definition add_provider :: "pre_reader \<Rightarrow> nat \<Rightarrow> bool \<Rightarrow> power_provider list \<Rightarrow> msm_error + power_provider list" where
  "add_provider r node psci out =
     (case reader_prop r node (bytes_of ''#power-domain-cells'') of
        Inl _ \<Rightarrow> Inr out
      | Inr pcells \<Rightarrow>
          if length pcells \<noteq> 4 then Inl MsmFdt
          else
            (case node_phandle r node of
               Inl _ \<Rightarrow> Inr out
             | Inr phandle \<Rightarrow>
                 if phandle = 0 \<or> phandle = 0xffffffff \<or> length out = MAX_PROVIDERS \<or> phandle \<in> pw_phandle ` set out
                 then Inl MsmFdt
                 else
                   bind_io (fdt_q (pre_read_be32 pcells 0)) (\<lambda>c.
                   Inr (out @ [\<lparr>pw_phandle = phandle, pw_cells = unat c, pw_psci = psci\<rparr>]))))"

text \<open>\<open>visit\<close> at depth \<open>MAX_DEPTH - fuel\<close>: the depth check of the source is the fuel.\<close>

primrec visit_power :: "nat \<Rightarrow> pre_reader \<Rightarrow> nat \<Rightarrow> bool \<Rightarrow> power_provider list \<Rightarrow> msm_error + power_provider list" where
  "visit_power 0 r node parent_psci out = Inl MsmFdt"
| "visit_power (Suc fuel) r node parent_psci out =
     (let psci = parent_psci \<or> is_psci_node r node in
      bind_io (add_provider r node psci out) (\<lambda>out.
      each_subnode from_fdt r node (\<lambda>child out. visit_power fuel r child psci out) out))"

definition pre_power_domain_providers :: "pre_reader \<Rightarrow> msm_error + power_provider list" where
  "pre_power_domain_providers r =
     bind_io (fdt_q (reader_root r)) (\<lambda>root. visit_power MAX_DEPTH r root False [])"

definition DOMAINS_SIZE :: nat where "DOMAINS_SIZE = 256"
definition NAMES_SIZE :: nat where "NAMES_SIZE = 512"

text \<open>The buffers of \<open>FilteredDomains\<close> are the two lists of the bytes in use.\<close>

function filter_domains_loop ::
  "power_provider list \<Rightarrow> bytes \<Rightarrow> bytes option \<Rightarrow> nat \<Rightarrow> nat \<Rightarrow> bytes \<Rightarrow> bytes \<Rightarrow> msm_error + bytes \<times> bytes" where
  "filter_domains_loop providers domains names offset name_offset out_domains out_names =
     (if offset < length domains then
        bind_io (fdt_q (pre_read_be32 domains offset)) (\<lambda>phandle.
        bind_io (ok_or MsmFdt (find (\<lambda>p. pw_phandle p = phandle) providers)) (\<lambda>provider.
        bind_io (ok_or MsmFdt (Option.bind (checked_add_usize (pw_cells provider) 1) (\<lambda>c. checked_mul_usize c 4))) (\<lambda>nbytes.
        bind_io (ok_or MsmFdt (checked_add_usize offset nbytes)) (\<lambda>e.
        if length domains < e then Inl MsmFdt
        else
        bind_io
          (case names of
             Some names \<Rightarrow> bind_io (fdt_q (pre_find_nul names name_offset)) (\<lambda>n. ok_or MsmFdt (checked_add_usize n 1))
           | None \<Rightarrow> Inr 0) (\<lambda>name_end.
        bind_io
          (if pw_psci provider then Inr (out_domains, out_names)
           else
             bind_io (ok_or MsmFdt (checked_add_usize (length out_domains) nbytes)) (\<lambda>out_end.
             if DOMAINS_SIZE < out_end then Inl MsmFdt
             else
               (case names of
                  None \<Rightarrow> Inr (out_domains @ slice domains offset e, out_names)
                | Some names \<Rightarrow>
                    bind_io (ok_or MsmFdt (checked_add_usize (length out_names) (name_end - name_offset))) (\<lambda>name_out_end.
                    if NAMES_SIZE < name_out_end then Inl MsmFdt
                    else Inr (out_domains @ slice domains offset e, out_names @ slice names name_offset name_end))))) (\<lambda>(out_domains, out_names).
        filter_domains_loop providers domains names e name_end out_domains out_names))))))
      else if (case names of Some names \<Rightarrow> name_offset \<noteq> length names | None \<Rightarrow> False) then Inl MsmFdt
      else Inr (out_domains, out_names))"
  by pat_completeness auto
termination
  by (relation "measure (\<lambda>(providers, domains, names, offset, _). length domains - offset)")
    (auto simp: convert_def split: Option.bind_splits sum.splits)

declare filter_domains_loop.simps [simp del]

definition filtered_power_domains :: "pre_reader \<Rightarrow> nat \<Rightarrow> power_provider list \<Rightarrow> msm_error + bytes \<times> bytes" where
  "filtered_power_domains r node providers =
     (let names = (case reader_prop r node (bytes_of ''power-domain-names'') of Inr v \<Rightarrow> Some v | Inl _ \<Rightarrow> None) in
      case reader_prop r node (bytes_of ''power-domains'') of
        Inl _ \<Rightarrow> if names \<noteq> None then Inl MsmFdt else Inr ([], [])
      | Inr domains \<Rightarrow>
          if length domains mod 4 \<noteq> 0 then Inl MsmFdt
          else filter_domains_loop providers domains names 0 0 [] [])"

section \<open>The strings of the added properties\<close>

definition PATCH_NAMES :: "bytes list" where
  "PATCH_NAMES =
     [bytes_of ''enable-method'', bytes_of ''cpu-release-addr'', bytes_of ''status'',
      bytes_of ''power-domains'', bytes_of ''power-domain-names'']"

definition NAME_ENABLE_METHOD :: nat where "NAME_ENABLE_METHOD = 0"
definition NAME_CPU_RELEASE_ADDR :: nat where "NAME_CPU_RELEASE_ADDR = 1"
definition NAME_STATUS :: nat where "NAME_STATUS = 2"
definition NAME_POWER_DOMAINS :: nat where "NAME_POWER_DOMAINS = 3"
definition NAME_POWER_DOMAIN_NAMES :: nat where "NAME_POWER_DOMAIN_NAMES = 4"

record patch_strings =
  pst_offsets :: "u32 list"
  pst_append :: "bool list"
  pst_size :: nat

definition patch_strings_step :: "bytes \<Rightarrow> patch_strings \<Rightarrow> bytes \<Rightarrow> msm_error + patch_strings" where
  "patch_strings_step strings p name =
     (case find_string strings name of
        Some offset \<Rightarrow> Inr (p\<lparr>pst_offsets := pst_offsets p @ [offset], pst_append := pst_append p @ [False]\<rparr>)
      | None \<Rightarrow>
          bind_io (fdt_q (u32_len (pst_size p))) (\<lambda>offset.
          bind_io (ok_or MsmFdt (checked_add_usize (pst_size p) (length name + 1))) (\<lambda>size.
          Inr \<lparr>pst_offsets = pst_offsets p @ [offset], pst_append = pst_append p @ [True], pst_size = size\<rparr>)))"

definition patch_strings_new :: "bytes \<Rightarrow> msm_error + patch_strings" where
  "patch_strings_new strings =
     fold_io (patch_strings_step strings) \<lparr>pst_offsets = [], pst_append = [], pst_size = length strings\<rparr> PATCH_NAMES"

definition patch_offset :: "patch_strings \<Rightarrow> nat \<Rightarrow> u32" where
  "patch_offset p i = pst_offsets p ! i"

definition patch_strings_write :: "patch_strings \<Rightarrow> fdt_writer \<Rightarrow> bytes \<Rightarrow> msm_error + fdt_writer" where
  "patch_strings_write p w old_strings =
     bind_io (fdt_q (writer_write w old_strings)) (\<lambda>w.
     fold_io (\<lambda>w (append, name).
        if append then bind_io (fdt_q (writer_write w name)) (\<lambda>w. fdt_q (writer_write w [0])) else Inr w)
       w (zip (pst_append p) PATCH_NAMES))"

section \<open>The structure block\<close>

datatype patch_kind = KindRoot | KindCpus | KindCpu | KindIdleStates | KindIdleState | KindOther

record patch_context =
  pc_kind :: patch_kind
  pc_disable :: bool

definition OTHER_CONTEXT :: patch_context where "OTHER_CONTEXT = \<lparr>pc_kind = KindOther, pc_disable = False\<rparr>"

definition node_kind :: "nat \<Rightarrow> patch_kind \<Rightarrow> bytes \<Rightarrow> patch_kind" where
  "node_kind depth parent name =
     (if depth = 0 then (if name = [] then KindRoot else KindOther)
      else if parent = KindRoot \<and> name = bytes_of ''cpus'' then KindCpus
      else if parent = KindCpus \<and> basename_eq name (bytes_of ''cpu'') then KindCpu
      else if parent = KindCpus \<and> name = bytes_of ''idle-states'' then KindIdleStates
      else if parent = KindIdleStates then KindIdleState
      else KindOther)"

definition should_skip_prop :: "patch_context \<Rightarrow> bytes \<Rightarrow> bool" where
  "should_skip_prop ctx name \<longleftrightarrow>
     pc_disable ctx \<and> name = bytes_of ''status'' \<or>
     (case pc_kind ctx of
        KindCpu \<Rightarrow>
          name \<in> set [bytes_of ''enable-method'', bytes_of ''cpu-release-addr'', bytes_of ''power-domains'',
            bytes_of ''power-domain-names'', bytes_of ''cpu-idle-states'']
      | KindIdleStates \<Rightarrow> name = bytes_of ''entry-method''
      | _ \<Rightarrow> False)"

definition fdt_index_slice :: "bytes \<Rightarrow> nat \<Rightarrow> nat \<Rightarrow> bytes fdt" where
  "fdt_index_slice xs a b = (if a \<le> b \<and> b \<le> length xs then Inr (slice xs a b) else Inl FdtPanic)"

text \<open>The properties added after the name of a CPU.\<close>

definition write_cpu_props ::
  "pre_reader \<Rightarrow> patch_strings \<Rightarrow> pre_spin_table \<Rightarrow> power_provider list \<Rightarrow> nat \<Rightarrow> fdt_writer \<Rightarrow> msm_error + fdt_writer" where
  "write_cpu_props r ps t providers node w =
     bind_io (filtered_power_domains r node providers) (\<lambda>(domains, names).
     bind_io
       (if domains = [] then Inr w
        else
          bind_io (fdt_q (pre_write_prop w (patch_offset ps NAME_POWER_DOMAINS) domains)) (\<lambda>w.
          if names = [] then Inr w else fdt_q (pre_write_prop w (patch_offset ps NAME_POWER_DOMAIN_NAMES) names))) (\<lambda>w.
     bind_io (fdt_q (pre_write_prop w (patch_offset ps NAME_ENABLE_METHOD) (bytes_of ''spin-table'' @ [0]))) (\<lambda>w.
     bind_io (fdt_q (prop_u32 r node (bytes_of ''reg''))) (\<lambda>reg.
     fdt_q (pre_write_prop w (patch_offset ps NAME_CPU_RELEASE_ADDR) (to_be_bytes 8 (slot_addr t reg)))))))"

text \<open>The stack is the array and \<open>depth\<close> together, innermost first. The end of the name's padding is not
  checked before the copy, which may panic.\<close>

function patch_structure ::
  "pre_reader \<Rightarrow> bytes \<Rightarrow> bytes \<Rightarrow> patch_strings \<Rightarrow> pre_spin_table \<Rightarrow> power_provider list \<Rightarrow> nat \<Rightarrow> patch_context list \<Rightarrow>
   fdt_writer \<Rightarrow> msm_error + fdt_writer" where
  "patch_structure r sb st ps t providers cursor stack w =
     bind_io (fdt_q (pre_next_token sb cursor)) (\<lambda>(tok, next).
     let ctx = (case stack of [] \<Rightarrow> OTHER_CONTEXT | c # _ \<Rightarrow> c) in
     case tok of
       PreBegin name \<Rightarrow>
         if MAX_DEPTH \<le> length stack then Inl MsmFdt
         else
           (let kind = node_kind (length stack) (pc_kind ctx) name;
                disable = pc_disable ctx \<or> is_psci_node r cursor \<or> kind = KindIdleState in
            bind_io (fdt_q (bind_io (fdt_index_slice sb cursor next) (writer_write w))) (\<lambda>w.
            bind_io (if kind = KindCpu then write_cpu_props r ps t providers cursor w else Inr w) (\<lambda>w.
            bind_io
              (if disable then fdt_q (pre_write_prop w (patch_offset ps NAME_STATUS) (bytes_of ''disabled'' @ [0])) else Inr w) (\<lambda>w.
            patch_structure r sb st ps t providers next (\<lparr>pc_kind = kind, pc_disable = disable\<rparr> # stack) w))))
     | PreEndNode \<Rightarrow>
         (case stack of
            [] \<Rightarrow> Inl MsmFdt
          | _ # up \<Rightarrow>
              bind_io (fdt_q (writer_write w (slice sb cursor next))) (\<lambda>w.
              patch_structure r sb st ps t providers next up w))
     | PreProp parts \<Rightarrow>
         bind_io (ok_or MsmFdt (pre_string_at st (pp_nameoff parts))) (\<lambda>name.
         bind_io (if should_skip_prop ctx name then Inr w else fdt_q (writer_write w (slice sb cursor next))) (\<lambda>w.
         patch_structure r sb st ps t providers next stack w))
     | PreNop \<Rightarrow>
         bind_io (fdt_q (writer_write w (slice sb cursor next))) (\<lambda>w.
         patch_structure r sb st ps t providers next stack w)
     | PreEnd \<Rightarrow>
         if stack \<noteq> [] then Inl MsmFdt else fdt_q (writer_write w (slice sb cursor next)))"
  by pat_completeness auto
termination
  by (relation "measure (\<lambda>(r, sb, st, ps, t, providers, cursor, stack, w). length sb - cursor)")
    (auto simp: convert_def split: sum.splits dest!: pre_next_token_measure)

declare patch_structure.simps [simp del]

definition patch_fdt :: "pre_reader \<Rightarrow> bytes \<Rightarrow> pre_spin_table \<Rightarrow> msm_error + bytes" where
  "patch_fdt r output t =
     bind_io (fdt_q (reader_reserve_map r)) (\<lambda>rsv.
     bind_io (fdt_q (reader_struct_block r)) (\<lambda>sb.
     bind_io (fdt_q (reader_strings r)) (\<lambda>st.
     bind_io (patch_strings_new st) (\<lambda>ps.
     bind_io (pre_power_domain_providers r) (\<lambda>providers.
     bind_io (fdt_q (writer_reserve (writer_new output) 40)) (\<lambda>w.
     bind_io (fdt_q (writer_write w rsv)) (\<lambda>w.
     bind_io (fdt_q (writer_pad_to w 4)) (\<lambda>w.
     let off_struct = w_pos w in
     bind_io (patch_structure r sb st ps t providers 0 [] w) (\<lambda>w.
     let size_struct = w_pos w - off_struct; off_strings = w_pos w in
     bind_io (patch_strings_write ps w st) (\<lambda>w.
     let size_strings = w_pos w - off_strings in
     if size_strings \<noteq> pst_size ps then Inl MsmFdt
     else
     bind_io (fdt_q (pre_write_header w (rd_header r) (w_pos w) off_struct off_strings size_struct size_strings)) (\<lambda>w.
     Inr (writer_finish w))))))))))))"

end
