(* ===== verification/MsmHandoff.thy ===== *)
theory MsmHandoff
  imports MsmPatch
begin

text \<open>
  The hardware side of \<open>pocketpreboot/src/msm8916.rs\<close>: the resident page, the secure monitor
  (\<open>mod scm\<close>), the power sequence of a Cortex-A53 and \<open>prepare_fdt\<close>. What the code does to the machine
  is a list of events in program order, and what it reads is a function of the events before: the
  registers, the memory and the firmware are arbitrary. Two effects are not events: messages on the
  UART, which are left out, and the stores that build the new blob in \<open>DTB_SCRATCH\<close>, a static buffer of
  the program itself; that blob is the result, and the cleaning of its cache lines is an event.
\<close>

section \<open>The machine\<close>

datatype hw_event =
    HwRead32 u64
  | HwRead64 u64
  | HwReadBytes u64 nat
  | HwWrite32 u64 u32
  | HwWrite64 u64 u64
  | HwWriteBytes u64 bytes
  | HwCleanDcache u64 nat
  | HwInvalidateIcache u64 nat
  | HwBarrier
  | HwDelay nat
  | HwSmc "u64 list"

text \<open>
  System registers, the linked resident code (\<open>spin_table.S\<close>), the addresses of the statics
  \<open>EXT_ARGS\<close> and \<open>DTB_SCRATCH\<close> and of \<open>_start\<close>, the memory the device tree is in, and the answers to reads and
  to monitor calls: \<open>x0\<close>, \<open>x1\<close> and \<open>x6\<close> after the call.
\<close>

record machine =
  mc_mpidr_el1 :: u64
  mc_current_el :: u64
  mc_sctlr :: u64
  mc_cntfrq :: u64
  mc_cpuectlr :: u64
  mc_resident_image :: bytes
  mc_ext_args :: u64
  mc_scratch :: u64
  mc_image_start :: u64
  mc_memory :: "nat \<Rightarrow> u8"
  mc_read32 :: "hw_event list \<Rightarrow> u64 \<Rightarrow> u32"
  mc_read64 :: "hw_event list \<Rightarrow> u64 \<Rightarrow> u64"
  mc_read_bytes :: "hw_event list \<Rightarrow> u64 \<Rightarrow> nat \<Rightarrow> bytes"
  mc_smc :: "hw_event list \<Rightarrow> u64 list \<Rightarrow> u64 \<times> u64 \<times> u64"

type_synonym 'a hw = "hw_event list \<Rightarrow> hw_event list \<times> (msm_error + 'a)"

definition hw_ret :: "'a \<Rightarrow> 'a hw" where
  "hw_ret x log = (log, Inr x)"

definition hw_lift :: "msm_error + 'a \<Rightarrow> 'a hw" where
  "hw_lift r log = (log, r)"

definition hw_bind :: "'a hw \<Rightarrow> ('a \<Rightarrow> 'b hw) \<Rightarrow> 'b hw" where
  "hw_bind m f log = (case m log of (log', Inl e) \<Rightarrow> (log', Inl e) | (log', Inr x) \<Rightarrow> f x log')"

definition hw_emit :: "hw_event list \<Rightarrow> unit hw" where
  "hw_emit es log = (log @ es, Inr ())"

definition read32 :: "machine \<Rightarrow> u64 \<Rightarrow> u32 hw" where
  "read32 m a log = (log @ [HwRead32 a], Inr (mc_read32 m log a))"

definition read64 :: "machine \<Rightarrow> u64 \<Rightarrow> u64 hw" where
  "read64 m a log = (log @ [HwRead64 a], Inr (mc_read64 m log a))"

definition read_memory :: "machine \<Rightarrow> u64 \<Rightarrow> nat \<Rightarrow> bytes hw" where
  "read_memory m a n log = (log @ [HwReadBytes a n], Inr (take n (mc_read_bytes m log a n)))"

definition read_mpidr :: "machine \<Rightarrow> u32" where
  "read_mpidr m = ucast ((mc_mpidr_el1 m AND 0xffffff) OR (drop_bit 8 (mc_mpidr_el1 m) AND 0xff000000))"

definition cache_mmu_off :: "machine \<Rightarrow> bool" where
  "cache_mmu_off m \<longleftrightarrow> (mc_current_el m = 4 \<or> mc_current_el m = 8) \<and> mc_sctlr m AND (push_bit 2 1 OR 1) = 0"

section \<open>The resident page\<close>

definition occupied_prefix :: "bytes \<Rightarrow> bool" where
  "occupied_prefix prefix \<longleftrightarrow>
     slice_get prefix 0x80 0x88 = Some (bytes_of ''spin-tab'') \<or> slice_get prefix 0x90 0x96 = Some (bytes_of ''PBSPIN'')"

definition validate_resident_descriptor :: "bytes \<Rightarrow> msm_error + unit" where
  "validate_resident_descriptor prefix =
     (if slice_get prefix 0 4 \<noteq> Some (to_le_bytes 4 (0x14000040 :: u32)) \<or>
         slice_get prefix 0x80 0x88 \<noteq> Some (bytes_of ''spin-tab'') \<or>
         slice_get prefix 0x88 0x90 \<noteq> Some (replicate 8 0) \<or>
         slice_get prefix 0x90 0x98 \<noteq> Some (bytes_of ''PBSPIN01'')
      then Inl BadSpinTable
      else
        fold_io (\<lambda>_ (index, v :: u32).
          let offset = 0x98 + index * 4 in
          if slice_get prefix offset (offset + 4) \<noteq> Some (to_le_bytes 4 v) then Inl BadSpinTable else Inr ())
          () (zip [0..<6] [1, 4096, 0x100, 0x400, 0x80, 4]))"

definition has_coherency_diagnostics :: "bytes \<Rightarrow> bool" where
  "has_coherency_diagnostics prefix \<longleftrightarrow> slice_get prefix 0xb0 (0xb0 + 8) = Some (bytes_of ''PBSDIAG1'')"

definition CPUECTLR_SMPEN :: u64 where "CPUECTLR_SMPEN = push_bit 6 1"

definition require_coherency :: "u64 \<Rightarrow> msm_error + unit" where
  "require_coherency cpuectlr = (if cpuectlr AND CPUECTLR_SMPEN \<noteq> 0 then Inr () else Inl MsmCoherency)"

definition report_secondary_coherency :: "machine \<Rightarrow> pre_spin_table \<Rightarrow> u32 \<Rightarrow> unit hw" where
  "report_secondary_coherency m t cpu =
     hw_bind (read64 m (slot_addr t cpu + SPIN_CPUECTLR_OFFSET)) (\<lambda>v. hw_lift (require_coherency v))"

text \<open>The disjunction stops at the first test that fails the slot.\<close>

definition require :: "bool \<Rightarrow> unit hw" where
  "require b = hw_lift (if b then Inr () else Inl UnparkedResident)"

definition validate_slot :: "machine \<Rightarrow> pre_spin_table \<Rightarrow> u64 \<Rightarrow> u32 \<Rightarrow> unit hw" where
  "validate_slot m t entry_el cpu =
     (let slot = slot_addr t cpu in
      hw_bind (read64 m (slot + SPIN_REQUEST_OFFSET)) (\<lambda>request.
      hw_bind (require (request \<noteq> 0)) (\<lambda>_.
      hw_bind (read64 m slot) (\<lambda>release.
      hw_bind (require (release = 0)) (\<lambda>_.
      hw_bind (read64 m (slot + SPIN_ACK_OFFSET)) (\<lambda>ack.
      hw_bind (require (ack = request)) (\<lambda>_.
      hw_bind (read64 m (slot + SPIN_ENTRY_EL_OFFSET)) (\<lambda>el.
      hw_bind (require (el = entry_el)) (\<lambda>_.
      hw_bind (read64 m (slot + SPIN_REQUEST_OFFSET)) (\<lambda>again.
      hw_bind (require (again = request)) (\<lambda>_.
      hw_bind (read64 m slot) (\<lambda>release.
      require (release = 0)))))))))))))"

primrec hw_each :: "('a \<Rightarrow> unit hw) \<Rightarrow> 'a list \<Rightarrow> unit hw" where
  "hw_each f [] = hw_ret ()"
| "hw_each f (x # xs) = hw_bind (f x) (\<lambda>_. hw_each f xs)"

definition validate_parked_slots :: "machine \<Rightarrow> pre_spin_table \<Rightarrow> u64 \<Rightarrow> unit hw" where
  "validate_parked_slots m t entry_el =
     (if \<not> (entry_el = 4 \<or> entry_el = 8) then hw_lift (Inl UnparkedResident)
      else
        hw_bind (read64 m (slot_addr t 0)) (\<lambda>v.
        hw_bind (require (v = 0)) (\<lambda>_.
        hw_bind (hw_each (validate_slot m t entry_el) [1, 2, 3]) (\<lambda>_.
        hw_emit [HwBarrier]))))"

section \<open>Power\<close>

definition APCS_CPU_PWR_CTL :: u64 where "APCS_CPU_PWR_CTL = 0x04"
definition APC_PWR_GATE_CTL :: u64 where "APC_PWR_GATE_CTL = 0x14"
definition CORE_PWRD_UP :: u32 where "CORE_PWRD_UP = push_bit 7 1"
definition COREPOR_RST :: u32 where "COREPOR_RST = push_bit 5 1"
definition CORE_RST :: u32 where "CORE_RST = push_bit 4 1"
definition CORE_MEM_HS :: u32 where "CORE_MEM_HS = push_bit 3 1"
definition CORE_MEM_CLAMP :: u32 where "CORE_MEM_CLAMP = push_bit 1 1"
definition CLAMP :: u32 where "CLAMP = push_bit 0 1"

definition held_in_reset :: "u32 \<Rightarrow> bool" where
  "held_in_reset ctl \<longleftrightarrow> ctl AND (CORE_RST OR COREPOR_RST) \<noteq> 0 \<and> ctl AND CORE_PWRD_UP = 0"

primrec secondaries_held_in_reset :: "machine \<Rightarrow> cpu_info list \<Rightarrow> bool hw" where
  "secondaries_held_in_reset m [] = hw_ret True"
| "secondaries_held_in_reset m (c # cs) =
     (if ci_reg c = 0 then secondaries_held_in_reset m cs
      else if ci_acc_base c = 0 then hw_ret False
      else
        hw_bind (read32 m (ci_acc_base c + APCS_CPU_PWR_CTL)) (\<lambda>ctl.
        if held_in_reset ctl then secondaries_held_in_reset m cs else hw_ret False))"

definition report_secondary_power :: "machine \<Rightarrow> cpu_info list \<Rightarrow> unit hw" where
  "report_secondary_power m cpus =
     hw_each (\<lambda>c. hw_bind (read32 m (ci_acc_base c + APCS_CPU_PWR_CTL)) (\<lambda>_. hw_ret ())) (filter (\<lambda>c. ci_reg c \<noteq> 0) cpus)"

definition init_spin_table :: "machine \<Rightarrow> pre_spin_table \<Rightarrow> cpu_list \<Rightarrow> unit hw" where
  "init_spin_table m t cpus =
     hw_bind (read_memory m (pst_addr t) 0xb0) (\<lambda>prefix.
     hw_bind
       (if occupied_prefix prefix then
          hw_bind (report_secondary_power m (cl_cpus cpus)) (\<lambda>_.
          hw_bind (secondaries_held_in_reset m (cl_cpus cpus)) (\<lambda>held.
          hw_lift (if held then Inr () else Inl OccupiedSpinTable)))
        else hw_ret ()) (\<lambda>_.
     let image = mc_resident_image m in
     if length image < unat SPIN_ENTRY_OFFSET \<or> unat SPIN_SLOTS_OFFSET < length image then hw_lift (Inl BadSpinTable)
     else
       hw_emit
         ([HwWriteBytes (pst_addr t) (replicate (unat PRE_SPIN_SIZE) 0), HwWriteBytes (pst_addr t) image] @
          map (\<lambda>cpu. HwWrite64 (slot_addr t cpu + SPIN_REQUEST_OFFSET) 1) [1, 2, 3] @
          [HwCleanDcache (pst_addr t) (unat PRE_SPIN_SIZE), HwInvalidateIcache (pst_addr t) (length image)])))"

definition boot_cortex_a53 :: "u64 \<Rightarrow> unit hw" where
  "boot_cortex_a53 acc_base =
     (let ctl = (\<lambda>v. [HwWrite32 (acc_base + APCS_CPU_PWR_CTL) v, HwBarrier]);
          r0 = CORE_RST OR COREPOR_RST OR CLAMP OR CORE_MEM_CLAMP;
          r1 = r0 AND NOT CORE_MEM_CLAMP;
          r2 = r1 OR CORE_MEM_HS;
          r3 = r2 AND NOT CLAMP;
          r4 = r3 AND NOT (CORE_RST OR COREPOR_RST);
          r5 = r4 OR CORE_PWRD_UP in
      hw_emit
        (ctl r0 @
         [HwWrite32 (acc_base + APC_PWR_GATE_CTL) (push_bit 0 1 OR push_bit 24 0x10), HwBarrier, HwDelay 2] @
         ctl r1 @
         ctl r2 @ [HwDelay 2] @
         ctl r3 @ [HwDelay 2] @
         ctl r4 @
         ctl r5))"

section \<open>The secure monitor\<close>

definition BOOT_MC_FLAG_AARCH64 :: u32 where "BOOT_MC_FLAG_AARCH64 = push_bit 0 1"
definition BOOT_MC_FLAG_COLDBOOT :: u32 where "BOOT_MC_FLAG_COLDBOOT = push_bit 1 1"
definition SVC_BOOT :: u32 where "SVC_BOOT = 0x01"
definition BOOT_SET_ADDR_MC :: u32 where "BOOT_SET_ADDR_MC = 0x11"
definition SVC_INFO :: u32 where "SVC_INFO = 0x06"
definition INFO_IS_CALL_AVAIL :: u32 where "INFO_IS_CALL_AVAIL = 0x01"
definition OWNER_SIP :: u32 where "OWNER_SIP = 2"
definition SCM_INTERRUPTED :: u32 where "SCM_INTERRUPTED = 1"
definition SCM_EBUSY :: u32 where "SCM_EBUSY = - 12"
definition MAX_ARGS :: nat where "MAX_ARGS = 10"
definition N_EXT_ARGS :: nat where "N_EXT_ARGS = 7"

datatype convention = Smc32 | Smc64

definition scm_function :: "convention \<Rightarrow> u32 \<Rightarrow> u32 \<Rightarrow> bool \<Rightarrow> u32" where
  "scm_function conv svc cmd fast =
     push_bit 31 (of_bool fast) OR push_bit 30 (of_bool (conv = Smc64)) OR push_bit 24 OWNER_SIP OR
     push_bit 8 (svc AND 0xff) OR (cmd AND 0xff)"

definition pack_ext :: "convention \<Rightarrow> u64 list \<Rightarrow> bytes" where
  "pack_ext conv args =
     foldl (\<lambda>output (index, v).
        case conv of
          Smc32 \<Rightarrow> splice output (index * 4) (to_le_bytes 4 (ucast v :: u32))
        | Smc64 \<Rightarrow> splice output (index * 8) (to_le_bytes 8 v))
       (replicate (N_EXT_ARGS * 8) 0) (enumerate 0 (drop 3 args))"

definition smc_insn :: "machine \<Rightarrow> u64 list \<Rightarrow> (u64 \<times> u64 \<times> u64) hw" where
  "smc_insn m xs log = (log @ [HwSmc xs], Inr (mc_smc m log xs))"

text \<open>\<open>smc_do\<close>: at most 1024 calls; the cookie is kept in \<open>x6\<close>.\<close>

primrec smc_loop :: "nat \<Rightarrow> machine \<Rightarrow> u64 list \<Rightarrow> u64 \<Rightarrow> u64 \<Rightarrow> (u64 \<times> u64) hw" where
  "smc_loop 0 m args call_x0 cookie = hw_lift (Inl MsmScm)"
| "smc_loop (Suc n) m args call_x0 cookie =
     hw_bind (smc_insn m (args[0 := call_x0, 6 := cookie])) (\<lambda>(x0, x1, cookie).
     if (ucast x0 :: u32) \<noteq> SCM_INTERRUPTED then hw_ret (x0, x1)
     else smc_loop n m args (ucast SCM_INTERRUPTED) cookie)"

definition smc_do :: "machine \<Rightarrow> u64 list \<Rightarrow> (u64 \<times> u64) hw" where
  "smc_do m args = smc_loop 1024 m args (args ! 0) 0"

text \<open>The attempts that are left, 21 at first.\<close>

primrec scm_attempts :: "nat \<Rightarrow> machine \<Rightarrow> u64 list \<Rightarrow> (u64 \<times> u64) hw" where
  "scm_attempts 0 m smc_args = hw_lift (Inl MsmScm)"
| "scm_attempts (Suc n) m smc_args =
     hw_bind (smc_do m smc_args) (\<lambda>(a0, a1).
     let status = (ucast a0 :: u32) in
     if status = SCM_EBUSY \<and> 0 < n then hw_bind (hw_emit [HwDelay 30000]) (\<lambda>_. scm_attempts n m smc_args)
     else if status \<noteq> 0 then hw_lift (Inl MsmScm)
     else hw_ret (a0, a1))"

definition scm_call :: "machine \<Rightarrow> convention \<Rightarrow> u32 \<Rightarrow> u32 \<Rightarrow> nat \<Rightarrow> u64 list \<Rightarrow> bool \<Rightarrow> (u64 \<times> u64) hw" where
  "scm_call m conv svc cmd arglen args fast =
     (if MAX_ARGS < arglen then hw_lift (Inl MsmScm)
      else
        (let smc_args = [ucast (scm_function conv svc cmd fast), of_nat arglen] @ take 4 args @ [0, 0];
             ext = mc_ext_args m;
             smc_args = (if 4 < arglen then smc_args[5 := ext] else smc_args) in
         hw_bind
           (if 4 < arglen then
              hw_bind (hw_emit [HwWriteBytes ext (pack_ext conv args)]) (\<lambda>_.
              if conv = Smc32 \<and> 0xffffffff < ext then hw_lift (Inl MsmScm)
              else hw_emit [HwCleanDcache ext (N_EXT_ARGS * 8)])
            else hw_ret ()) (\<lambda>_.
         let smc_args =
           (if conv = Smc32
            then take 2 smc_args @ map (\<lambda>v. ucast (ucast v :: u32)) (slice smc_args 2 6) @ drop 6 smc_args
            else smc_args) in
         scm_attempts 21 m smc_args)))"

definition is_call_available :: "machine \<Rightarrow> convention \<Rightarrow> u32 \<Rightarrow> u32 \<Rightarrow> bool \<Rightarrow> bool hw" where
  "is_call_available m conv svc cmd fast =
     (let args = (replicate MAX_ARGS 0)[0 := ucast (push_bit 24 OWNER_SIP OR push_bit 8 (svc AND 0xff) OR (cmd AND 0xff))] in
      hw_bind (scm_call m conv SVC_INFO INFO_IS_CALL_AVAIL 1 args fast) (\<lambda>(a0, a1). hw_ret (a1 = 1)))"

text \<open>A failed probe is not an error of the loop, whose list is \<open>[Smc64, Smc32]\<close>.\<close>

primrec probe_loop :: "machine \<Rightarrow> convention list \<Rightarrow> convention hw" where
  "probe_loop m [] = hw_lift (Inl MsmScm)"
| "probe_loop m (c # cs) =
     (\<lambda>log. case is_call_available m c SVC_INFO INFO_IS_CALL_AVAIL True log of
        (log', r) \<Rightarrow> if r = Inr True then (log', Inr c) else probe_loop m cs log')"

definition probe_convention :: "machine \<Rightarrow> convention hw" where
  "probe_convention m = probe_loop m [Smc64, Smc32]"

definition set_boot_addr_mc :: "machine \<Rightarrow> u64 \<Rightarrow> u32 \<Rightarrow> unit hw" where
  "set_boot_addr_mc m entry flags =
     hw_bind (probe_convention m) (\<lambda>conv.
     hw_bind (is_call_available m conv SVC_BOOT BOOT_SET_ADDR_MC False) (\<lambda>avail.
     if \<not> avail then hw_lift (Inl MsmScm)
     else if conv = Smc32 \<and> 0xffffffff < entry then hw_lift (Inl MsmScm)
     else
       hw_bind (scm_call m conv SVC_BOOT BOOT_SET_ADDR_MC 6 ([entry, - 1, - 1, - 1, - 1, ucast flags] @ replicate 4 0) False) (\<lambda>_.
       hw_ret ())))"

section \<open>Preparing the kernel's device tree\<close>

definition STARTUP_TIMEOUT_US :: nat where "STARTUP_TIMEOUT_US = 1000000"

primrec wait_ack :: "nat \<Rightarrow> machine \<Rightarrow> u64 \<Rightarrow> bool hw" where
  "wait_ack 0 m ack = hw_ret False"
| "wait_ack (Suc n) m ack =
     hw_bind (read64 m ack) (\<lambda>v.
     if v = 1 then hw_ret True else hw_bind (hw_emit [HwDelay 10]) (\<lambda>_. wait_ack n m ack))"

definition boot_secondary :: "machine \<Rightarrow> pre_spin_table \<Rightarrow> cpu_info \<Rightarrow> unit hw" where
  "boot_secondary m t cpu =
     (if ci_reg cpu = 0 then hw_ret ()
      else
        hw_bind (boot_cortex_a53 (ci_acc_base cpu)) (\<lambda>_.
        hw_bind (wait_ack (STARTUP_TIMEOUT_US div 10) m (ack_addr t (ci_reg cpu))) (\<lambda>acknowledged.
        if \<not> acknowledged then hw_lift (Inl StartupTimeout)
        else
        hw_bind (read64 m (slot_addr t (ci_reg cpu) + SPIN_ENTRY_EL_OFFSET)) (\<lambda>entry_el.
        if entry_el \<noteq> mc_current_el m then hw_lift (Inl EntryState)
        else report_secondary_coherency m t (ci_reg cpu)))))"

definition PRE_MAX_DTB_SIZE :: nat where "PRE_MAX_DTB_SIZE = 512 * 1024"

text \<open>The result is the blob, which is at the address \<open>mc_scratch\<close> that the source returns; the
  buffer \<open>DTB_SCRATCH\<close> is filled by \<open>patch_fdt\<close> and is no part of the log.\<close>

definition prepare_fdt_inner :: "machine \<Rightarrow> nat \<Rightarrow> u64 \<Rightarrow> u64 \<Rightarrow> bytes hw" where
  "prepare_fdt_inner m fdt payload payload_size =
     (if read_mpidr m \<noteq> 0 \<or> \<not> cache_mmu_off m \<or> mc_cntfrq m = 0 then hw_lift (Inl EntryState)
      else
      hw_bind (hw_lift (require_coherency (mc_cpuectlr m))) (\<lambda>_.
      hw_bind (hw_lift (fdt_q (reader_from_ptr (mc_memory m) fdt))) (\<lambda>r.
      hw_bind (hw_lift (find_spin_table r)) (\<lambda>t.
      hw_bind (hw_lift (validate_memory (mc_image_start m) r t payload payload_size)) (\<lambda>_.
      hw_bind (hw_lift (collect_cpus r)) (\<lambda>cpus.
      hw_bind (hw_lift (patch_fdt r (replicate PRE_MAX_DTB_SIZE 0) t)) (\<lambda>patched.
      hw_bind (hw_emit [HwCleanDcache (mc_scratch m) (length patched)]) (\<lambda>_.
      if cl_mode cpus = Resident then
        hw_bind (read_memory m (pst_addr t) 0xb8) (\<lambda>prefix.
        hw_bind (hw_lift (validate_resident_descriptor prefix)) (\<lambda>_.
        hw_bind (validate_parked_slots m t (mc_current_el m)) (\<lambda>_.
        hw_bind (if has_coherency_diagnostics prefix then hw_each (report_secondary_coherency m t) [1, 2, 3] else hw_ret ()) (\<lambda>_.
        hw_ret patched))))
      else
        hw_bind (init_spin_table m t cpus) (\<lambda>_.
        hw_bind (set_boot_addr_mc m (code_addr t) (BOOT_MC_FLAG_AARCH64 OR BOOT_MC_FLAG_COLDBOOT)) (\<lambda>_.
        hw_bind (hw_each (boot_secondary m t) (cl_cpus cpus)) (\<lambda>_.
        hw_ret patched)))))))))))"

definition prepare_fdt :: "machine \<Rightarrow> nat \<Rightarrow> u64 \<Rightarrow> u64 \<Rightarrow> hw_event list \<times> bytes option" where
  "prepare_fdt m fdt payload payload_size =
     (case prepare_fdt_inner m fdt payload payload_size [] of
        (log, Inl _) \<Rightarrow> (log, None) | (log, Inr b) \<Rightarrow> (log, Some b))"

end
