(* ===== verification/PreTree.thy ===== *)
theory PreTree
  imports PreReader SpinTable
begin

text \<open>
  What the preboot reader computes, on the trees of the kexec loader's grammar: at the offset of a
  node the property lookup is the lookup in its property list, the subnode iterator visits its
  children in order, and the searches by path and by phandle find nodes of the tree. The interface
  \<open>fdt_view\<close> states this for clients that only see offsets.
\<close>

section \<open>Bytes at a position\<close>

definition bytes_at :: "bytes \<Rightarrow> nat \<Rightarrow> bytes \<Rightarrow> bool" where
  "bytes_at sb c w \<longleftrightarrow> (\<exists>pre post. sb = pre @ w @ post \<and> length pre = c)"

lemma bytes_at_append: "bytes_at sb c (u @ w) \<longleftrightarrow> bytes_at sb c u \<and> bytes_at sb (c + length u) w"
proof
  assume "bytes_at sb c (u @ w)"
  then obtain pre post where "sb = pre @ u @ w @ post" "length pre = c" by (auto simp: bytes_at_def)
  then show "bytes_at sb c u \<and> bytes_at sb (c + length u) w"
    unfolding bytes_at_def by (metis append_assoc length_append)
next
  assume "bytes_at sb c u \<and> bytes_at sb (c + length u) w"
  then obtain pre post pre' post' where s: "sb = pre @ u @ post" "length pre = c" "sb = pre' @ w @ post'" "length pre' = c + length u"
    unfolding bytes_at_def by blast
  then have "(pre @ u) @ post = pre' @ w @ post'" "length (pre @ u) = length pre'" by simp_all
  then have "post = w @ post'" by (metis append_eq_append_conv)
  then show "bytes_at sb c (u @ w)" using s unfolding bytes_at_def by (metis append_assoc)
qed

lemma bytes_at_length: "bytes_at sb c w \<Longrightarrow> c + length w \<le> length sb"
  by (auto simp: bytes_at_def)

lemma pre_token_at:
  assumes "bytes_at sb c w" and "chunk w e" and "4 dvd c" and "length sb + 8 < usize_limit"
  shows "pre_next_token sb c = Inr (pre_token_of (token_of c e), c + length w)"
proof -
  obtain pre post where "sb = pre @ w @ post" "length pre = c" using assms(1) by (auto simp: bytes_at_def)
  then show ?thesis using pre_next_token_chunk [OF assms(2), of pre post] assms(3,4) by simp
qed

lemma pre_value_at: "bytes_at sb c w \<Longrightarrow> chunk w (EvProp off v) \<Longrightarrow> slice sb (c + 12) (c + 12 + length v) = v"
  by (auto simp: bytes_at_def chunk_value)

text \<open>What each kind of token says about the reads behind it.\<close>

lemma pre_token_inversion:
  "pre_next_token sb c = Inr (PreBegin name, n) \<Longrightarrow>
     pre_read_be32 sb c = Inr FDT_BEGIN_NODE \<and>
     (\<exists>e. pre_find_nul sb (c + 4) = Inr e \<and> pre_align (e + 1) 4 = Inr n \<and> name = slice sb (c + 4) e)"
  "pre_next_token sb c = Inr (PreEndNode, n) \<Longrightarrow> pre_read_be32 sb c = Inr FDT_END_NODE \<and> n = c + 4"
  "pre_next_token sb c = Inr (PreProp parts, n) \<Longrightarrow>
     pre_read_be32 sb c = Inr FDT_PROP \<and> pre_property_parts sb (c + 4) = Inr parts \<and> n = pp_next parts"
  "pre_next_token sb c = Inr (PreNop, n) \<Longrightarrow> pre_read_be32 sb c = Inr FDT_NOP \<and> n = c + 4"
  "pre_next_token sb c = Inr (PreEnd, n) \<Longrightarrow> pre_read_be32 sb c = Inr FDT_END \<and> n = c + 4"
  by (auto simp: pre_next_token_def Let_def split: if_split_asm)

lemma token_codes [simp]:
  "FDT_BEGIN_NODE \<noteq> FDT_END_NODE" "FDT_BEGIN_NODE \<noteq> FDT_PROP" "FDT_BEGIN_NODE \<noteq> FDT_NOP" "FDT_BEGIN_NODE \<noteq> FDT_END"
  "FDT_END_NODE \<noteq> FDT_BEGIN_NODE" "FDT_END_NODE \<noteq> FDT_PROP" "FDT_END_NODE \<noteq> FDT_NOP" "FDT_END_NODE \<noteq> FDT_END"
  "FDT_PROP \<noteq> FDT_BEGIN_NODE" "FDT_PROP \<noteq> FDT_END_NODE" "FDT_PROP \<noteq> FDT_NOP" "FDT_PROP \<noteq> FDT_END"
  "FDT_NOP \<noteq> FDT_BEGIN_NODE" "FDT_NOP \<noteq> FDT_END_NODE" "FDT_NOP \<noteq> FDT_PROP" "FDT_NOP \<noteq> FDT_END"
  "FDT_END \<noteq> FDT_BEGIN_NODE" "FDT_END \<noteq> FDT_END_NODE" "FDT_END \<noteq> FDT_PROP" "FDT_END \<noteq> FDT_NOP"
  by (simp_all add: fdt_consts)

section \<open>Nodes at an offset\<close>

definition node_at :: "bytes \<Rightarrow> bytes \<Rightarrow> nat \<Rightarrow> node \<Rightarrow> bool" where
  "node_at sb st o' n \<longleftrightarrow> 4 dvd o' \<and> (\<exists>w. bytes_at sb o' w \<and> node_bytes st n w)"

text \<open>One token, read where a chunk stands.\<close>

lemma nop_at:
  assumes "bytes_at sb c (nop_bytes @ w)" and "4 dvd c" and "length sb + 8 < usize_limit"
  shows "pre_next_token sb c = Inr (PreNop, c + 4)" and "bytes_at sb (c + 4) w" and "4 dvd c + 4"
  using pre_token_at [of sb c nop_bytes EvNop] assms by (simp_all add: bytes_at_append)

lemma end_node_at:
  assumes "bytes_at sb c (end_node_bytes @ w)" and "4 dvd c" and "length sb + 8 < usize_limit"
  shows "pre_next_token sb c = Inr (PreEndNode, c + 4)" and "bytes_at sb (c + 4) w"
  using pre_token_at [of sb c end_node_bytes EvEndNode] assms by (simp_all add: bytes_at_append)

lemma prop_at:
  assumes "bytes_at sb c (b @ w)" and "chunk b (EvProp off v)" and "4 dvd c" and "length sb + 8 < usize_limit"
  obtains parts where "pre_next_token sb c = Inr (PreProp parts, c + length b)" and "pp_nameoff parts = off"
    and "slice sb (pp_value_start parts) (pp_value_end parts) = v" and "pp_next parts = c + length b"
    and "bytes_at sb (c + length b) w" and "4 dvd c + length b"
proof -
  have b: "bytes_at sb c b" "bytes_at sb (c + length b) w" using assms(1) by (simp_all add: bytes_at_append)
  note tok = pre_token_at [OF b(1) assms(2,3,4)]
  show ?thesis
    using that tok pre_token_inversion(3) [of sb c _ "c + length b"] pre_value_at [OF b(1) assms(2)] b(2) assms(3)
      chunk_dvd4 [OF assms(2)] by (fastforce simp: dvd_add)
qed

lemma begin_at:
  assumes "bytes_at sb c (b @ w)" and "chunk b (EvBegin name)" and "4 dvd c" and "length sb + 8 < usize_limit"
  shows "pre_next_token sb c = Inr (PreBegin name, c + length b)"
    and "bytes_at sb (c + length b) w" and "4 dvd c + length b"
  using assms pre_token_at [of sb c b "EvBegin name"] chunk_dvd4 [OF assms(2)] by (simp_all add: bytes_at_append dvd_add)

lemma begin_at_start:
  assumes "pre_next_token sb c = Inr (PreBegin name, n)"
  shows "node_content_start sb c = Inr n" and "pre_node_name sb c = Inr name"
proof -
  obtain e where rd: "pre_read_be32 sb c = Inr FDT_BEGIN_NODE"
    and e: "pre_find_nul sb (c + 4) = Inr e" "pre_align (e + 1) 4 = Inr n" "name = slice sb (c + 4) e"
    using pre_token_inversion(1) [OF assms] by blast
  have "c + 4 < usize_limit" using rd by simp
  then show "node_content_start sb c = Inr n" and "pre_node_name sb c = Inr name"
    using rd e by (simp_all add: node_content_start_def pre_node_name_def checked_add_usize_def del: pre_read_be32_Inr)
qed

section \<open>Properties of a node\<close>

lemma next_prop_nop:
  "pre_next_token sb c = Inr (PreNop, n) \<Longrightarrow> next_prop sb st c = next_prop sb st n"
  using pre_token_inversion(4) [of sb c n] by (subst next_prop.simps) (simp del: pre_read_be32_Inr)

lemma find_prop_nop:
  "pre_next_token sb c = Inr (PreNop, n) \<Longrightarrow> find_prop sb st name c = find_prop sb st name n"
  by (subst (1 2) find_prop.simps) (simp add: next_prop_nop)

lemma find_prop_props:
  assumes "props_bytes st ps u" and "bytes_at sb c (u @ w)" and "4 dvd c" and "length sb + 8 < usize_limit"
  shows "find_prop sb st name c =
    (case map_of ps name of Some v \<Rightarrow> Inr v | None \<Rightarrow> find_prop sb st name (c + length u))"
  using assms
proof (induction arbitrary: c rule: props_bytes.induct)
  case (props_Nop ps u)
  note nop = nop_at [of sb c "u @ w"]
  show ?case
    using props_Nop nop find_prop_nop [of sb c "c + 4" st name] by (simp add: add.assoc split: option.split)
next
  case (props_Cons b off v k ps u)
  obtain parts where tok: "pre_next_token sb c = Inr (PreProp parts, c + length b)" and parts: "pp_nameoff parts = off"
      "slice sb (pp_value_start parts) (pp_value_end parts) = v" "pp_next parts = c + length b"
      "bytes_at sb (c + length b) (u @ w)" "4 dvd c + length b"
    using prop_at [of sb c b "u @ w" off v] props_Cons by (metis append_assoc)
  have "next_prop sb st c = Inr (Some ((k, v), c + length b))"
    using pre_token_inversion(3) [OF tok] parts props_Cons.hyps(2)
    by (subst next_prop.simps) (simp add: pre_string_at_eq del: pre_read_be32_Inr)
  then have "find_prop sb st name c = (if k = name then Inr v else find_prop sb st name (c + length b))"
    by (subst find_prop.simps) simp
  then show ?case using props_Cons.IH [OF parts(4,5) props_Cons.prems(3)] by (simp add: add.assoc split: option.split)
qed simp

lemma next_prop_nodes:
  "node_bytes st n w \<Longrightarrow> True"
  "nodes_bytes st cs w \<Longrightarrow> bytes_at sb c (w @ end_node_bytes @ z) \<Longrightarrow> 4 dvd c \<Longrightarrow> length sb + 8 < usize_limit \<Longrightarrow>
   next_prop sb st c = Inr None"
proof (induction arbitrary: and c z rule: node_bytes_nodes_bytes.inducts)
  case nodes_Nil
  have "pre_next_token sb c = Inr (PreEndNode, c + 4)" using nodes_Nil by (intro end_node_at) simp_all
  then show ?case
    by (subst next_prop.simps) (simp add: pre_token_inversion(2) del: pre_read_be32_Inr)
next
  case (nodes_Nop cs w)
  then show ?case using nop_at [of sb c "w @ end_node_bytes @ z"] next_prop_nop by simp
next
  case (nodes_Cons n u cs w)
  obtain b name x where u: "u = b @ x" "chunk b (EvBegin name)"
    using nodes_Cons(1) by (auto elim: node_bytes.cases)
  have "pre_next_token sb c = Inr (PreBegin name, c + length b)"
    using begin_at [of sb c b "x @ w @ end_node_bytes @ z" name] nodes_Cons.prems u by simp
  then show ?case
    using pre_token_inversion(1) by (subst next_prop.simps) (simp del: pre_read_be32_Inr)
qed simp

lemma node_at_parts:
  assumes "node_at sb st o' n" and "length sb + 8 < usize_limit"
  obtains c u w where "pre_next_token sb o' = Inr (PreBegin (nname n), c)" and "4 dvd c"
    and "bytes_at sb c (u @ w @ end_node_bytes)"
    and "props_bytes st (nprops n) u" and "nodes_bytes st (nchildren n) w"
proof -
  obtain x where x: "4 dvd o'" "bytes_at sb o' x" "node_bytes st n x" using assms(1) by (auto simp: node_at_def)
  obtain b u w where w: "x = b @ u @ w @ end_node_bytes" "chunk b (EvBegin (nname n))"
      "props_bytes st (nprops n) u" "nodes_bytes st (nchildren n) w"
    using x(3) by (auto elim!: node_bytes.cases)
  show ?thesis
    by (rule that [of "o' + length b" u w]) (use begin_at [of sb o' b "u @ w @ end_node_bytes" "nname n"] x w assms(2) in simp_all)
qed

lemma find_prop_at:
  assumes "node_at sb st o' n" and "length sb + 8 < usize_limit"
  shows "bind_io (node_content_start sb o') (find_prop sb st name) = ok_or FdtNotFound (get_prop n name)"
    and "pre_node_name sb o' = Inr (nname n)"
proof -
  obtain c u w where tok: "pre_next_token sb o' = Inr (PreBegin (nname n), c)"
      and at: "4 dvd c" "bytes_at sb (c) (u @ w @ end_node_bytes)"
      and g: "props_bytes st (nprops n) u" "nodes_bytes st (nchildren n) w"
    using node_at_parts [OF assms] .
  have after: "bytes_at sb (c + length u) (w @ end_node_bytes @ [])" "4 dvd c + length u"
    using at g props_bytes_dvd4 by (auto simp: bytes_at_append intro: dvd_add)
  have "find_prop sb st name (c + length u) = Inl FdtNotFound"
    using next_prop_nodes(2) [OF g(2) after assms(2)] by (subst find_prop.simps) simp
  then show "bind_io (node_content_start sb o') (find_prop sb st name) = ok_or FdtNotFound (get_prop n name)"
    using find_prop_props [OF g(1) at(2,1) assms(2), of name] begin_at_start [OF tok]
    by (simp add: get_prop_def split: option.splits)
  show "pre_node_name sb o' = Inr (nname n)" using begin_at_start [OF tok] by simp
qed

section \<open>Subnodes of a node\<close>

lemma skip_from_token:
  assumes "pre_next_token sb c = Inr (tok, n)" and "tok = PreNop \<or> (\<exists>p. tok = PreProp p)"
  shows "skip_from sb d c = skip_from sb d n"
  using assms by (subst skip_from.simps) auto

lemma skip_from_props:
  assumes "props_bytes st ps u" and "bytes_at sb c (u @ w)" and "4 dvd c" and "length sb + 8 < usize_limit"
  shows "skip_from sb d c = skip_from sb d (c + length u)"
  using assms
proof (induction arbitrary: c rule: props_bytes.induct)
  case (props_Nop ps u)
  then show ?case using nop_at [of sb c "u @ w"] skip_from_token [of sb c PreNop "c + 4" d] by (simp add: add.assoc)
next
  case (props_Cons b off v k ps u)
  obtain parts where "pre_next_token sb c = Inr (PreProp parts, c + length b)"
      "bytes_at sb (c + length b) (u @ w)" "4 dvd c + length b"
    using prop_at [of sb c b "u @ w" off v] props_Cons by (metis append_assoc)
  then show ?case using props_Cons.IH [of "c + length b"] props_Cons.prems skip_from_token by (simp add: add.assoc)
qed simp

lemma skip_from_nodes:
  "node_bytes st n w \<Longrightarrow> bytes_at sb c w \<Longrightarrow> 4 dvd c \<Longrightarrow> length sb + 8 < usize_limit \<Longrightarrow>
   skip_from sb d c = (if d = 0 then Inr (c + length w) else skip_from sb d (c + length w))"
  "nodes_bytes st cs w \<Longrightarrow> bytes_at sb c w \<Longrightarrow> 4 dvd c \<Longrightarrow> length sb + 8 < usize_limit \<Longrightarrow> 0 < d \<Longrightarrow>
   skip_from sb d c = skip_from sb d (c + length w)"
proof (induction arbitrary: c d and c d rule: node_bytes_nodes_bytes.inducts)
  case (node_Node b name ps u cs w)
  note start = begin_at [OF _ node_Node(1), of sb c "u @ w @ end_node_bytes"]
  have at: "bytes_at sb (c + length b) (u @ w @ end_node_bytes)" "4 dvd c + length b"
    using start node_Node.prems by simp_all
  have at2: "bytes_at sb (c + length b + length u) w" "4 dvd c + length b + length u"
    and at3: "bytes_at sb (c + length b + length u + length w) (end_node_bytes @ [])"
      "4 dvd c + length b + length u + length w"
    using at props_bytes_dvd4 [OF node_Node(2)] node_bytes_dvd4(2) [OF node_Node(3)]
    by (simp_all add: bytes_at_append dvd_add)
  have "skip_from sb d c = skip_from sb (d + 1) (c + length b)"
    using start(1) node_Node.prems by (subst skip_from.simps) simp
  also have "\<dots> = skip_from sb (d + 1) (c + length b + length u)"
    by (rule skip_from_props [OF node_Node(2) at node_Node.prems(3)])
  also have "\<dots> = skip_from sb (d + 1) (c + length b + length u + length w)"
    by (rule node_Node.IH(3) [OF at2 node_Node.prems(3)]) simp
  also have "\<dots> = (if d = 0 then Inr (c + length b + length u + length w + 4)
      else skip_from sb d (c + length b + length u + length w + 4))"
    using end_node_at(1) [OF at3 node_Node.prems(3)] by (subst skip_from.simps) simp
  finally show ?case by (simp add: add.assoc)
next
  case (nodes_Nop cs w)
  then show ?case using nop_at [of sb c w] skip_from_token [of sb c PreNop "c + 4" d] by (simp add: add.assoc)
next
  case (nodes_Cons n u cs w)
  have "4 dvd c + length u" using nodes_Cons.prems node_bytes_dvd4(1) [OF nodes_Cons(1)] by (simp add: dvd_add)
  then show ?case
    using nodes_Cons.IH(2) [of c d] nodes_Cons.IH(4) [of "c + length u" d] nodes_Cons.prems
    by (simp add: bytes_at_append add.assoc)
qed simp

lemma next_subnode_skip:
  assumes "pre_next_token sb c = Inr (tok, n)" and "tok = PreNop \<or> (\<exists>p. tok = PreProp p)"
  shows "next_subnode sb c = next_subnode sb n"
  using assms
  by (subst next_subnode.simps) (auto dest!: pre_token_inversion(3,4) simp del: pre_read_be32_Inr)

text \<open>The offsets the iterator yields before it ends or fails.\<close>

function child_offsets :: "bytes \<Rightarrow> nat \<Rightarrow> nat list" where
  "child_offsets sb c = (case next_subnode sb c of Inr (Some (o', n)) \<Rightarrow> o' # child_offsets sb n | _ \<Rightarrow> [])"
  by pat_completeness auto
termination
  by (relation "measure (\<lambda>(sb, c). length sb - c)") (auto dest!: next_subnode_measure)

declare child_offsets.simps [simp del]

lemma for_subnodes_skip:
  assumes "pre_next_token sb c = Inr (tok, n)" and "tok = PreNop \<or> (\<exists>p. tok = PreProp p)"
  shows "for_subnodes conv sb f c acc = for_subnodes conv sb f n acc" and "child_offsets sb c = child_offsets sb n"
  by (subst (1 2) for_subnodes.simps child_offsets.simps, simp add: next_subnode_skip [OF assms])+

lemma for_subnodes_props:
  assumes "props_bytes st ps u" and "bytes_at sb c (u @ w)" and "4 dvd c" and "length sb + 8 < usize_limit"
  shows "for_subnodes conv sb f c acc = for_subnodes conv sb f (c + length u) acc \<and>
    child_offsets sb c = child_offsets sb (c + length u)"
  using assms
proof (induction arbitrary: c rule: props_bytes.induct)
  case (props_Nop ps u)
  then show ?case
    using nop_at [of sb c "u @ w"] by (simp add: for_subnodes_skip [of sb c PreNop "c + 4"] add.assoc)
next
  case (props_Cons b off v k ps u)
  obtain parts where tok: "pre_next_token sb c = Inr (PreProp parts, c + length b)"
      "bytes_at sb (c + length b) (u @ w)" "4 dvd c + length b"
    using prop_at [of sb c b "u @ w" off v] props_Cons by (metis append_assoc)
  then show ?case
    using props_Cons.IH [of "c + length b"] props_Cons.prems by (simp add: for_subnodes_skip [OF tok(1)] add.assoc)
qed simp

text \<open>The loop runs its body on the offsets of the children, in order.\<close>

lemma for_subnodes_nodes:
  "node_bytes st n w \<Longrightarrow> True"
  "nodes_bytes st cs w \<Longrightarrow> bytes_at sb c (w @ end_node_bytes) \<Longrightarrow> 4 dvd c \<Longrightarrow> length sb + 8 < usize_limit \<Longrightarrow>
   list_all2 (node_at sb st) (child_offsets sb c) cs \<and>
   for_subnodes conv sb f c acc = fold_io (\<lambda>acc o'. f o' acc) acc (child_offsets sb c)"
proof (induction arbitrary: and c acc rule: node_bytes_nodes_bytes.inducts)
  case nodes_Nil
  have "pre_next_token sb c = Inr (PreEndNode, c + 4)" using nodes_Nil end_node_at(1) [of sb c "[]"] by simp
  then have "next_subnode sb c = Inr None"
    by (subst next_subnode.simps) (simp add: pre_token_inversion(2) del: pre_read_be32_Inr)
  then show ?case by (simp add: for_subnodes.simps [of conv sb f c] child_offsets.simps [of sb c])
next
  case (nodes_Nop cs w)
  have nop: "pre_next_token sb c = Inr (PreNop, c + 4)" "bytes_at sb (c + 4) (w @ end_node_bytes)" "4 dvd c + 4"
    using nop_at [of sb c "w @ end_node_bytes"] nodes_Nop.prems by simp_all
  show ?case using nodes_Nop.IH(2) [OF nop(2,3) nodes_Nop.prems(3)] by (simp add: for_subnodes_skip [OF nop(1)])
next
  case (nodes_Cons n u cs w)
  have at: "bytes_at sb c u" "bytes_at sb (c + length u) (w @ end_node_bytes)" "4 dvd c + length u"
    using nodes_Cons.prems node_bytes_dvd4(1) [OF nodes_Cons(1)] by (simp_all add: bytes_at_append dvd_add)
  obtain b name x where u: "u = b @ x" "chunk b (EvBegin name)"
    using nodes_Cons(1) by (auto elim: node_bytes.cases)
  have tok: "pre_next_token sb c = Inr (PreBegin name, c + length b)"
    using begin_at [of sb c b x name] at(1) nodes_Cons.prems u by simp
  have "next_subnode sb c = Inr (Some (c, c + length u))"
    using pre_token_inversion(1) [OF tok] skip_from_nodes(1) [OF nodes_Cons(1) at(1) nodes_Cons.prems(2,3), of 0]
    by (subst next_subnode.simps) (simp add: pre_skip_node_subtree_def del: pre_read_be32_Inr)
  then have step: "for_subnodes conv sb f c acc = bind_io (f c acc) (for_subnodes conv sb f (c + length u))"
      "child_offsets sb c = c # child_offsets sb (c + length u)"
    by (simp_all add: for_subnodes.simps [of conv sb f c] child_offsets.simps [of sb c])
  have "for_subnodes conv sb f (c + length u) = (\<lambda>acc. fold_io (\<lambda>acc o'. f o' acc) acc (child_offsets sb (c + length u)))"
    using nodes_Cons.IH(4) [OF at(2,3) nodes_Cons.prems(3)] by (simp add: fun_eq_iff)
  moreover have "node_at sb st c n" using at(1) nodes_Cons.prems(2) nodes_Cons(1) by (auto simp: node_at_def)
  ultimately show ?case
    using step nodes_Cons.IH(4) [OF at(2,3) nodes_Cons.prems(3)] by simp
qed simp

section \<open>Paths\<close>

fun node_height :: "node \<Rightarrow> nat" where
  "node_height (Node name ps cs) = Suc (foldr max (map node_height cs) 0)"

lemma node_height_child: "c \<in> set cs \<Longrightarrow> node_height c \<le> foldr max (map node_height cs) 0"
  by (induction cs) auto

primrec first_some :: "('a \<Rightarrow> 'b option) \<Rightarrow> 'a list \<Rightarrow> 'b option" where
  "first_some f [] = None"
| "first_some f (x # xs) = (case f x of Some y \<Rightarrow> Some y | None \<Rightarrow> first_some f xs)"

lemma first_some_cong [fundef_cong]: "xs = ys \<Longrightarrow> (\<And>x. x \<in> set ys \<Longrightarrow> f x = g x) \<Longrightarrow> first_some f xs = first_some g ys"
  by (induction ys arbitrary: xs) (auto split: option.split)

lemma first_some_None: "first_some f xs = None \<longleftrightarrow> (\<forall>x \<in> set xs. f x = None)"
  by (induction xs) (auto split: option.split)

text \<open>The search of \<open>find_path\<close>: \<open>up\<close> says whether the path matched down to the parent.\<close>

fun path_search :: "bytes \<Rightarrow> nat \<Rightarrow> nat \<Rightarrow> bool \<Rightarrow> node \<Rightarrow> node option" where
  "path_search p t d up (Node name ps cs) =
     (let m = (if d = 0 then name = [] else up \<and> component_at p (d - 1) = Some name) in
      if m \<and> t = d then Some (Node name ps cs) else first_some (path_search p t (Suc d) m) cs)"

declare path_search.simps [simp del]

function path_components :: "bytes \<Rightarrow> bytes list" where
  "path_components p =
     (if p = [] then []
      else takeWhile (\<lambda>b. b \<noteq> slash_byte) p # path_components (drop 1 (dropWhile (\<lambda>b. b \<noteq> slash_byte) p)))"
  by pat_completeness auto
termination
  by (relation "measure length") (auto simp: less_Suc_eq_le neq_Nil_conv intro: le_trans [OF diff_le_self length_dropWhile_le])

declare path_components.simps [simp del]

primrec walk :: "node \<Rightarrow> bytes list \<Rightarrow> node option" where
  "walk n [] = Some n"
| "walk n (c # cs) = Option.bind (child n c) (\<lambda>m. walk m cs)"

lemma count_path_components_Inr: "count_path_components p = Inr t \<Longrightarrow> length (path_components p) = t"
proof (induction p arbitrary: t rule: count_path_components.induct)
  case (1 p)
  show ?case
  proof (cases "p = []")
    case True
    then show ?thesis using "1.prems" by (simp add: count_path_components.simps path_components.simps)
  next
    case False
    then obtain k where k: "hd p \<noteq> slash_byte" "count_path_components (drop 1 (dropWhile (\<lambda>b. b \<noteq> slash_byte) p)) = Inr k" "t = k + 1"
      using "1.prems" by (subst (asm) count_path_components.simps) (auto split: if_split_asm)
    then show ?thesis using "1.IH" [OF False k(1,2)] False by (subst path_components.simps) simp
  qed
qed

lemma component_at_nth: "component_at p i = (if i < length (path_components p) then Some (path_components p ! i) else None)"
proof (induction p i rule: component_at.induct)
  case (1 p i)
  show ?case
  proof (cases "p = []")
    case True
    then show ?thesis by (simp add: component_at.simps [of "[]"] path_components.simps [of "[]"])
  next
    case False
    then show ?thesis
      using "1.IH" by (cases i) (simp_all add: component_at.simps [of p] path_components.simps [of p])
  qed
qed

lemma path_search_unmatched: "0 < d \<Longrightarrow> path_search p t d False n = None"
proof (induction n arbitrary: d)
  case (Node name ps cs)
  then show ?case by (simp add: path_search.simps first_some_None)
qed

lemma child_Cons: "child (Node name ps (c # cs)) k = (if nname c = k then Some c else child (Node name ps cs) k)"
  by (simp add: child_def)

lemma first_some_child:
  assumes "distinct (map nname cs)" and "\<And>c. c \<in> set cs \<Longrightarrow> nname c \<noteq> k \<Longrightarrow> f c = None"
  shows "first_some f cs = Option.bind (child (Node name ps cs) k) f"
  using assms
proof (induction cs)
  case (Cons c cs)
  show ?case
  proof (cases "nname c = k")
    case True
    then have "\<forall>x \<in> set cs. nname x \<noteq> k" using Cons.prems(1) by (metis distinct.simps(2) image_eqI list.set_map list.simps(9))
    then have "\<forall>x \<in> set cs. f x = None" using Cons.prems(2) by simp
    then have "first_some f cs = None" by (simp only: first_some_None)
    then show ?thesis using True by (simp add: child_Cons split: option.split)
  qed (use Cons in \<open>simp add: child_Cons\<close>)
qed (simp add: child_def)

lemma path_search_walk:
  assumes "node_wf e n" and "d \<le> t" and "t = length (path_components p)"
    and "if d = 0 then nname n = [] else up \<and> component_at p (d - 1) = Some (nname n)"
  shows "path_search p t d up n = walk n (drop d (path_components p))"
  using assms
proof (induction n arbitrary: d e up)
  case (Node name ps cs)
  note m = Node.prems(4)
  show ?case
  proof (cases "t = d")
    case True
    then show ?thesis using m Node.prems(3) by (auto simp: path_search.simps Let_def)
  next
    case False
    then have lt: "d < length (path_components p)" using Node.prems(2,3) by simp
    let ?k = "path_components p ! d"
    have other: "path_search p t (Suc d) True c = None" if "nname c \<noteq> ?k" for c
      using that lt by (cases c) (simp add: path_search.simps component_at_nth first_some_None path_search_unmatched)
    have "path_search p t d up (Node name ps cs) = first_some (path_search p t (Suc d) True) cs"
      using m False by (auto simp: path_search.simps Let_def)
    also have "\<dots> = Option.bind (child (Node name ps cs) ?k) (path_search p t (Suc d) True)"
      using Node.prems(1) other by (intro first_some_child) auto
    also have "\<dots> = Option.bind (child (Node name ps cs) ?k) (\<lambda>c. walk c (drop (Suc d) (path_components p)))"
    proof (cases "child (Node name ps cs) ?k")
      case (Some c)
      then have c: "c \<in> set cs" "nname c = ?k" using child_Some [OF Some] by simp_all
      show ?thesis
        using Node.IH [OF c(1), of "Suc e" "Suc d" True] Node.prems(1,3) lt c Some by (simp add: component_at_nth)
    qed simp
    finally show ?thesis using lt by (simp add: Cons_nth_drop_Suc [symmetric])
  qed
qed

text \<open>The loop of \<open>find_path\<close> over a node: too deep, found, or past it with the outer matches kept.\<close>

definition find_path_result ::
  "bytes \<Rightarrow> bytes \<Rightarrow> bytes \<Rightarrow> nat \<Rightarrow> nat \<Rightarrow> nat \<Rightarrow> bool list \<Rightarrow> nat \<Rightarrow> node option \<Rightarrow> bool" where
  "find_path_result sb st p t c d ms c' found \<longleftrightarrow>
     (case found of
        Some n' \<Rightarrow> \<exists>o'. node_at sb st o' n' \<and> find_path_loop sb p t c d ms = Inr o'
      | None \<Rightarrow> \<exists>ms'. length ms' = 32 \<and> take d ms' = take d ms \<and>
                     find_path_loop sb p t c d ms = find_path_loop sb p t c' d ms')"

lemma find_path_result_after:
  assumes "find_path_loop sb p t c d ms = find_path_loop sb p t c1 d ms1" and "take d ms1 = take d ms"
    and "find_path_result sb st p t c1 d ms1 c' found"
  shows "find_path_result sb st p t c d ms c' found"
  using assms by (simp add: find_path_result_def split: option.splits)

lemma find_path_token:
  assumes "pre_next_token sb c = Inr (tok, n)" and "tok = PreNop \<or> (\<exists>p. tok = PreProp p)"
  shows "find_path_loop sb p t c d ms = find_path_loop sb p t n d ms"
  using assms by (subst find_path_loop.simps) auto

lemma find_path_props:
  assumes "props_bytes st ps u" and "bytes_at sb c (u @ w)" and "4 dvd c" and "length sb + 8 < usize_limit"
  shows "find_path_loop sb p t c d ms = find_path_loop sb p t (c + length u) d ms"
  using assms
proof (induction arbitrary: c rule: props_bytes.induct)
  case (props_Nop ps u)
  then show ?case using nop_at [of sb c "u @ w"] find_path_token [of sb c PreNop "c + 4" p t d ms] by (simp add: add.assoc)
next
  case (props_Cons b off v k ps u)
  obtain parts where "pre_next_token sb c = Inr (PreProp parts, c + length b)"
      "bytes_at sb (c + length b) (u @ w)" "4 dvd c + length b"
    using prop_at [of sb c b "u @ w" off v] props_Cons by (metis append_assoc)
  then show ?case using props_Cons.IH [of "c + length b"] props_Cons.prems find_path_token by (simp add: add.assoc)
qed simp

lemma take_nth_same: "take d xs = take d ys \<Longrightarrow> i < d \<Longrightarrow> xs ! i = ys ! i"
  by (metis nth_take)

lemma find_path_nodes:
  "node_bytes st n w \<Longrightarrow> bytes_at sb c w \<Longrightarrow> 4 dvd c \<Longrightarrow> length sb + 8 < usize_limit \<Longrightarrow> length ms = 32 \<Longrightarrow> d \<le> 32 \<Longrightarrow>
   32 < d + node_height n \<and> find_path_loop sb p t c d ms = Inl FdtTooDeep \<or>
   find_path_result sb st p t c d ms (c + length w) (path_search p t d (ms ! (d - 1)) n)"
  "nodes_bytes st cs w \<Longrightarrow> bytes_at sb c w \<Longrightarrow> 4 dvd c \<Longrightarrow> length sb + 8 < usize_limit \<Longrightarrow> length ms = 32 \<Longrightarrow> d \<le> 32 \<Longrightarrow> 0 < d \<Longrightarrow>
   32 < d + foldr max (map node_height cs) 0 \<and> find_path_loop sb p t c d ms = Inl FdtTooDeep \<or>
   find_path_result sb st p t c d ms (c + length w) (first_some (path_search p t d (ms ! (d - 1))) cs)"
proof (induction arbitrary: c d ms and c d ms rule: node_bytes_nodes_bytes.inducts)
  case (node_Node b name ps u cs w)
  let ?n = "Node name ps cs"
  note start = begin_at [OF _ node_Node(1), of sb c "u @ w @ end_node_bytes"]
  have tok: "pre_next_token sb c = Inr (PreBegin name, c + length b)"
    and at: "bytes_at sb (c + length b) (u @ w @ end_node_bytes)" "4 dvd c + length b"
    using start node_Node.prems by simp_all
  have at2: "bytes_at sb (c + length b + length u) w" "4 dvd c + length b + length u"
    and at3: "bytes_at sb (c + length b + length u + length w) (end_node_bytes @ [])"
      "4 dvd c + length b + length u + length w"
    using at props_bytes_dvd4 [OF node_Node(2)] node_bytes_dvd4(2) [OF node_Node(3)]
    by (simp_all add: bytes_at_append dvd_add)
  have here: "node_at sb st c ?n"
    using node_Node.prems(1,2) node_Node(1,2,3) unfolding node_at_def by (blast intro: node_bytes_nodes_bytes.intros)
  define m where "m = (if d = 0 then name = [] else ms ! (d - 1) \<and> component_at p (d - 1) = Some name)"
  define ms1 where "ms1 = ms[d := m]"
  show ?case
  proof (cases "d < 32")
    case False
    then have "find_path_loop sb p t c d ms = Inl FdtTooDeep"
      using tok by (subst find_path_loop.simps) (simp add: MAX_DEPTH_def)
    then show ?thesis using False by simp
  next
    case True
    have loop: "find_path_loop sb p t c d ms =
        (if m \<and> t = d then Inr c else find_path_loop sb p t (c + length b) (Suc d) ms1)"
      using True tok by (subst find_path_loop.simps) (simp add: MAX_DEPTH_def Let_def m_def ms1_def)
    have search: "path_search p t d (ms ! (d - 1)) ?n =
        (if m \<and> t = d then Some ?n else first_some (path_search p t (Suc d) m) cs)"
      unfolding path_search.simps Let_def m_def [symmetric] by simp
    show ?thesis
    proof (cases "m \<and> t = d")
      case True
      then show ?thesis using loop search here by (auto simp: find_path_result_def)
    next
      case False
      have ms1: "length ms1 = 32" "ms1 ! d = m" "take d ms1 = take d ms"
        using True node_Node.prems(4) by (simp_all add: ms1_def)
      have loop2: "find_path_loop sb p t c d ms = find_path_loop sb p t (c + length b + length u) (Suc d) ms1"
        using loop False find_path_props [OF node_Node(2) at node_Node.prems(3), of p t "Suc d" ms1] by simp
      have ih: "32 < Suc d + foldr max (map node_height cs) 0 \<and>
            find_path_loop sb p t (c + length b + length u) (Suc d) ms1 = Inl FdtTooDeep \<or>
          find_path_result sb st p t (c + length b + length u) (Suc d) ms1 (c + length b + length u + length w)
            (first_some (path_search p t (Suc d) m) cs)"
        using node_Node.IH(3) [OF at2 node_Node.prems(3) ms1(1), of "Suc d"] True ms1(2) by simp
      then show ?thesis
      proof
        assume r: "find_path_result sb st p t (c + length b + length u) (Suc d) ms1 (c + length b + length u + length w)
            (first_some (path_search p t (Suc d) m) cs)"
        show ?thesis
        proof (cases "first_some (path_search p t (Suc d) m) cs")
          case (Some n')
          then show ?thesis using r loop2 search False by (simp add: find_path_result_def)
        next
          case None
          then obtain ms' where ms': "length ms' = 32" "take (Suc d) ms' = take (Suc d) ms1"
            "find_path_loop sb p t (c + length b + length u) (Suc d) ms1 =
               find_path_loop sb p t (c + length b + length u + length w) (Suc d) ms'"
            using r by (auto simp: find_path_result_def)
          have "find_path_loop sb p t (c + length b + length u + length w) (Suc d) ms' =
              find_path_loop sb p t (c + length b + length u + length w + 4) d ms'"
            using end_node_at(1) [OF at3 node_Node.prems(3)] by (subst find_path_loop.simps) simp
          moreover have "take d ms' = take d ms" using ms'(2) ms1(3) by (metis take_take min.absorb1 le_SucI order_refl)
          ultimately show ?thesis using ms'(1,3) loop2 None search False by (auto simp: find_path_result_def add.assoc)
        qed
      qed (use loop2 in simp)
    qed
  qed
next
  case nodes_Nil
  then show ?case by (auto simp: find_path_result_def)
next
  case (nodes_Nop cs w)
  have "find_path_loop sb p t c d ms = find_path_loop sb p t (c + 4) d ms"
    using nop_at [of sb c w] nodes_Nop.prems find_path_token [of sb c PreNop "c + 4"] by simp
  then show ?case
    using nodes_Nop.IH(2) [of "c + 4" ms d] nop_at [of sb c w] nodes_Nop.prems by (simp add: find_path_result_def add.assoc split: option.splits)
next
  case (nodes_Cons n u cs w)
  have at: "bytes_at sb c u" "bytes_at sb (c + length u) w" "4 dvd c + length u"
    using nodes_Cons.prems node_bytes_dvd4(1) [OF nodes_Cons(1)] by (simp_all add: bytes_at_append dvd_add)
  note ih = nodes_Cons.IH(2) [OF at(1) nodes_Cons.prems(2-5)]
  show ?case
  proof (cases "32 < d + node_height n \<and> find_path_loop sb p t c d ms = Inl FdtTooDeep")
    case False
    then have r: "find_path_result sb st p t c d ms (c + length u) (path_search p t d (ms ! (d - 1)) n)" using ih by blast
    show ?thesis
    proof (cases "path_search p t d (ms ! (d - 1)) n")
      case (Some n')
      then show ?thesis using r by (simp add: find_path_result_def)
    next
      case None
      then obtain ms' where ms': "length ms' = 32" "take d ms' = take d ms"
        "find_path_loop sb p t c d ms = find_path_loop sb p t (c + length u) d ms'"
        using r by (auto simp: find_path_result_def)
      have "ms' ! (d - 1) = ms ! (d - 1)" using take_nth_same [OF ms'(2)] nodes_Cons.prems(6) by simp
      then show ?thesis
        using nodes_Cons.IH(4) [OF at(2,3) nodes_Cons.prems(3) ms'(1) nodes_Cons.prems(5,6)] None
          find_path_result_after [OF ms'(3,2)] by (auto simp: ms'(3) add.assoc)
    qed
  qed auto
qed

end
