(* ===== verification/PreView.thy ===== *)
theory PreView
  imports PreTree
begin

text \<open>
  The preboot reader as an interface. \<open>node_view r n'\<close> relates an offset and the node it stands
  for; lookups, names and iteration at the offset are those of the node. \<open>reader_tree r root\<close>: the
  reader's structure block is the tree \<open>root\<close>; the searches by path and phandle return nodes of it.
\<close>

definition node_view :: "pre_reader \<Rightarrow> nat \<Rightarrow> node \<Rightarrow> bool" where
  "node_view r o' n \<longleftrightarrow>
     (\<exists>sb st. reader_struct_block r = Inr sb \<and> reader_strings r = Inr st \<and> length sb + 8 < usize_limit \<and> node_at sb st o' n)"

definition reader_tree :: "pre_reader \<Rightarrow> node \<Rightarrow> bool" where
  "reader_tree r root \<longleftrightarrow>
     (\<exists>sb st. reader_struct_block r = Inr sb \<and> reader_strings r = Inr st \<and> length sb + 8 < usize_limit \<and> tree_block st root sb)"

definition subnode_offsets :: "pre_reader \<Rightarrow> nat \<Rightarrow> nat list" where
  "subnode_offsets r o' =
     (case bind_io (reader_struct_block r) (\<lambda>sb. bind_io (node_content_start sb o') (\<lambda>c. Inr (child_offsets sb c))) of
        Inr os \<Rightarrow> os | Inl _ \<Rightarrow> [])"

section \<open>The interface\<close>

locale fdt_view =
  fixes view :: "'r \<Rightarrow> nat \<Rightarrow> node \<Rightarrow> bool"
    and lookup :: "'r \<Rightarrow> nat \<Rightarrow> bytes \<Rightarrow> bytes fdt"
    and name_at :: "'r \<Rightarrow> nat \<Rightarrow> bytes fdt"
    and offsets :: "'r \<Rightarrow> nat \<Rightarrow> nat list"
  assumes lookup_view: "view r o' n \<Longrightarrow> lookup r o' k = ok_or FdtNotFound (get_prop n k)"
    and name_view: "view r o' n \<Longrightarrow> name_at r o' = Inr (nname n)"
    and offsets_view: "view r o' n \<Longrightarrow> list_all2 (view r) (offsets r o') (nchildren n)"
begin

lemma lookup_Inr: "view r o' n \<Longrightarrow> lookup r o' k = Inr v \<longleftrightarrow> get_prop n k = Some v"
  by (simp add: lookup_view)

lemma lookup_case:
  "view r o' n \<Longrightarrow> (case lookup r o' k of Inl e \<Rightarrow> a | Inr v \<Rightarrow> f v) = (case get_prop n k of None \<Rightarrow> a | Some v \<Rightarrow> f v)"
  by (simp add: lookup_view ok_or_def split: option.split)

text \<open>A loop over the offsets is the loop over the children when the bodies agree.\<close>

lemma fold_children:
  assumes "view r o' n" and "\<And>i c acc. view r i c \<Longrightarrow> c \<in> set (nchildren n) \<Longrightarrow> f acc i = g acc c"
  shows "fold_io f acc (offsets r o') = fold_io g acc (nchildren n)"
proof -
  have "fold_io f acc os = fold_io g acc cs" if "list_all2 (view r) os cs" "set cs \<subseteq> set (nchildren n)" for os cs acc
    using that
  proof (induction arbitrary: acc rule: list_all2_induct)
    case (Cons i os c cs)
    then show ?case using assms(2) [of i c] by (simp cong: bind_io_cong)
  qed simp
  then show ?thesis using offsets_view [OF assms(1)] by blast
qed

text \<open>The invariant rule: what holds of no child and is kept by each step holds of all children.\<close>

lemma fold_invariant:
  assumes "view r o' n" and "fold_io f acc (offsets r o') = Inr res" and "P [] acc"
    and "\<And>i c cs a a'. view r i c \<Longrightarrow> f a i = Inr a' \<Longrightarrow> P cs a \<Longrightarrow> P (cs @ [c]) a'"
  shows "P (nchildren n) res"
proof -
  have "P (ds @ cs) res" if "list_all2 (view r) os cs" "fold_io f a os = Inr res" "P ds a" for os cs a ds
    using that
  proof (induction arbitrary: a ds rule: list_all2_induct)
    case (Cons i os c cs)
    obtain a' where "f a i = Inr a'" "fold_io f a' os = Inr res" using Cons.prems(1) by auto
    then show ?case using Cons.IH [of a' "ds @ [c]"] assms(4) [OF Cons.hyps(1)] Cons.prems(2) by simp
  qed simp
  from this [OF offsets_view [OF assms(1)] assms(2,3)] show ?thesis by simp
qed

end

lemma each_subnode_at:
  assumes "node_view r o' n"
  shows "list_all2 (node_view r) (subnode_offsets r o') (nchildren n)"
    and "each_subnode conv r o' f acc = fold_io (\<lambda>acc i. f i acc) acc (subnode_offsets r o')"
proof -
  obtain sb st where r: "reader_struct_block r = Inr sb" "reader_strings r = Inr st" "length sb + 8 < usize_limit"
      and n: "node_at sb st o' n"
    using assms by (auto simp: node_view_def)
  obtain c u w where tok: "pre_next_token sb o' = Inr (PreBegin (nname n), c)" and at: "4 dvd c"
      "bytes_at sb c (u @ w @ end_node_bytes)" and g: "props_bytes st (nprops n) u" "nodes_bytes st (nchildren n) w"
    using node_at_parts [OF n r(3)] .
  have at2: "bytes_at sb (c + length u) (w @ end_node_bytes)" "4 dvd c + length u"
    using at props_bytes_dvd4 [OF g(1)] by (simp_all add: bytes_at_append dvd_add)
  have offs: "subnode_offsets r o' = child_offsets sb (c + length u)"
    using for_subnodes_props [OF g(1) at(2,1) r(3), THEN conjunct2] begin_at_start(1) [OF tok] r(1)
    by (simp add: subnode_offsets_def)
  have "list_all2 (node_at sb st) (subnode_offsets r o') (nchildren n)"
    using for_subnodes_nodes(2) [OF g(2) at2 r(3), THEN conjunct1] unfolding offs .
  then show "list_all2 (node_view r) (subnode_offsets r o') (nchildren n)"
    by (rule list_all2_mono) (auto simp: node_view_def r)
  show "each_subnode conv r o' f acc = fold_io (\<lambda>acc i. f i acc) acc (subnode_offsets r o')"
    using for_subnodes_props [OF g(1) at(2,1) r(3), of conv f acc] begin_at_start(1) [OF tok] r(1)
      for_subnodes_nodes(2) [OF g(2) at2 r(3), of conv f acc] offs
    by (simp add: each_subnode_def convert_def)
qed

interpretation rd: fdt_view node_view reader_prop reader_node_name subnode_offsets
proof unfold_locales
  fix r o' n k
  assume v: "node_view r o' n"
  then obtain sb st where r: "reader_struct_block r = Inr sb" "reader_strings r = Inr st" "length sb + 8 < usize_limit"
      and n: "node_at sb st o' n"
    by (auto simp: node_view_def)
  have "reader_prop r o' k = bind_io (node_content_start sb o') (find_prop sb st k)"
    using r by (simp add: reader_prop_def)
  then show "reader_prop r o' k = ok_or FdtNotFound (get_prop n k)"
    using find_prop_at(1) [OF n r(3)] by simp
  show "reader_node_name r o' = Inr (nname n)"
    using find_prop_at(2) [OF n r(3)] r by (simp add: reader_node_name_def)
  show "list_all2 (node_view r) (subnode_offsets r o') (nchildren n)" by (rule each_subnode_at(1) [OF v])
qed

lemma each_subnode_children:
  assumes "node_view r o' n" and "\<And>i c acc. node_view r i c \<Longrightarrow> c \<in> set (nchildren n) \<Longrightarrow> f i acc = g acc c"
  shows "each_subnode conv r o' f acc = fold_io g acc (nchildren n)"
  unfolding each_subnode_at(2) [OF assms(1)] using assms by (intro rd.fold_children) auto

lemma each_subnode_invariant:
  assumes "node_view r o' n" and "each_subnode conv r o' f acc = Inr res" and "P [] acc"
    and "\<And>i c cs a a'. node_view r i c \<Longrightarrow> f i a = Inr a' \<Longrightarrow> P cs a \<Longrightarrow> P (cs @ [c]) a'"
  shows "P (nchildren n) res"
  using rd.fold_invariant [OF assms(1), of "\<lambda>acc i. f i acc" acc res P] assms(2-) each_subnode_at(2) [OF assms(1), of conv f acc]
  by simp

section \<open>The accessors on trees\<close>

definition tree_u32 :: "node \<Rightarrow> bytes \<Rightarrow> u32 fdt" where
  "tree_u32 n k = bind_io (ok_or FdtNotFound (get_prop n k)) (\<lambda>v. pre_read_be32 v 0)"

definition tree_str :: "node \<Rightarrow> bytes \<Rightarrow> bytes fdt" where
  "tree_str n k = bind_io (ok_or FdtNotFound (get_prop n k)) (\<lambda>v. ok_or FdtBadValue (cstr v))"

definition tree_phandle :: "node \<Rightarrow> u32 fdt" where
  "tree_phandle n = or_try (tree_u32 n (bytes_of ''phandle'')) (tree_u32 n (bytes_of ''linux,phandle''))"

lemma view_accessors:
  assumes "node_view r o' n"
  shows "reader_prop r o' k = ok_or FdtNotFound (get_prop n k)" and "prop_u32 r o' k = tree_u32 n k"
    and "prop_str r o' k = tree_str n k" and "node_phandle r o' = tree_phandle n" and "reader_node_name r o' = Inr (nname n)"
  using rd.lookup_view [OF assms] rd.name_view [OF assms]
  by (simp_all add: prop_u32_def prop_str_def node_phandle_def tree_u32_def tree_str_def tree_phandle_def)

section \<open>The root and the searches\<close>

lemma reader_treeE:
  assumes "reader_tree r root"
  obtains sb st u w v where "reader_struct_block r = Inr sb" and "reader_strings r = Inr st" and "length sb + 8 < usize_limit"
    and "bytes_at sb 0 (u @ w @ v @ end_bytes)" and "nops u" and "node_bytes st root w" and "nops v"
    and "node_wf 0 root" and "nname root = []"
proof -
  obtain sb st where r: "reader_struct_block r = Inr sb" "reader_strings r = Inr st" "length sb + 8 < usize_limit"
      and t: "tree_block st root sb"
    using assms by (auto simp: reader_tree_def)
  obtain u w v rest where "sb = u @ w @ v @ end_bytes @ rest" "nops u" "node_bytes st root w" "nops v"
      "node_wf 0 root" "nname root = []"
    using t by (auto simp: tree_block_def)
  then show ?thesis using that [OF r, of u w v] by (auto simp: bytes_at_def)
qed

lemma end_at:
  assumes "bytes_at sb c end_bytes" and "4 dvd c" and "length sb + 8 < usize_limit"
  shows "pre_next_token sb c = Inr (PreEnd, c + 4)"
  using pre_token_at [of sb c end_bytes EvEnd] assms by simp

lemma reader_root_view:
  assumes "reader_tree r root" and "reader_root r = Inr o'"
  shows "o' = 0 \<and> node_view r 0 root"
proof -
  obtain sb st u w v where r: "reader_struct_block r = Inr sb" "reader_strings r = Inr st" "length sb + 8 < usize_limit"
      and at: "bytes_at sb 0 (u @ w @ v @ end_bytes)" "nops u" "node_bytes st root w" "nops v"
    using reader_treeE [OF assms(1)] .
  have o': "o' = 0" and tok: "pre_read_be32 sb 0 = Inr FDT_BEGIN_NODE"
    using assms(2) r(1) by (auto simp: reader_root_def simp del: pre_read_be32_Inr split: if_split_asm)
  have "u = []"
  proof (rule ccontr)
    assume "u \<noteq> []"
    then obtain u' where "u = nop_bytes @ u'" using at(2) by (auto elim: nops.cases)
    then have "pre_next_token sb 0 = Inr (PreNop, 4)" using at(1) nop_at(1) [of sb 0 "u' @ w @ v @ end_bytes"] r(3) by simp
    then show False using tok pre_token_inversion(4) [of sb 0 4] by (simp del: pre_read_be32_Inr)
  qed
  then have "node_at sb st 0 root" using at(1,3) by (auto simp: node_at_def bytes_at_append)
  then show ?thesis using o' r by (auto simp: node_view_def)
qed

lemma find_path_nops:
  "nops u \<Longrightarrow> bytes_at sb c (u @ w) \<Longrightarrow> 4 dvd c \<Longrightarrow> length sb + 8 < usize_limit \<Longrightarrow>
   find_path_loop sb p t c d ms = find_path_loop sb p t (c + length u) d ms"
proof (induction arbitrary: c rule: nops.induct)
  case (nops_Cons u)
  then show ?case using nop_at [of sb c "u @ w"] find_path_token [of sb c PreNop "c + 4" p t d ms] by (simp add: add.assoc)
qed simp

lemma find_path_end:
  assumes "bytes_at sb c (v @ end_bytes)" and "nops v" and "4 dvd c" and "length sb + 8 < usize_limit"
  shows "find_path_loop sb p t c d ms = Inl FdtNotFound"
proof -
  have "pre_next_token sb (c + length v) = Inr (PreEnd, c + length v + 4)"
    using assms nops_dvd4 [OF assms(2)] by (intro end_at) (simp_all add: bytes_at_append dvd_add)
  then have "find_path_loop sb p t (c + length v) d ms = Inl FdtNotFound" by (subst find_path_loop.simps) simp
  then show ?thesis using find_path_nops [OF assms(2,1,3,4)] by simp
qed

theorem reader_find_path_walk:
  assumes "reader_tree r root" and "p \<noteq> []" and "count_path_components p = Inr t"
  shows "32 < node_height root \<and> reader_find_path r (slash_byte # p) = Inl FdtTooDeep \<or>
    (case walk root (path_components p) of
       Some n \<Rightarrow> \<exists>o'. node_view r o' n \<and> reader_find_path r (slash_byte # p) = Inr o'
     | None \<Rightarrow> reader_find_path r (slash_byte # p) = Inl FdtNotFound)"
proof -
  obtain sb st u w v where r: "reader_struct_block r = Inr sb" "reader_strings r = Inr st" "length sb + 8 < usize_limit"
      and at: "bytes_at sb 0 (u @ w @ v @ end_bytes)" "nops u" "node_bytes st root w" "nops v"
      and wf: "node_wf 0 root" "nname root = []"
    using reader_treeE [OF assms(1)] .
  have al: "4 dvd length u" "4 dvd length u + length w"
    using nops_dvd4 [OF at(2)] node_bytes_dvd4(1) [OF at(3)] by (simp_all add: dvd_add)
  have pos: "bytes_at sb (length u) w" "bytes_at sb (length u + length w) (v @ end_bytes)"
    using at(1) by (simp_all add: bytes_at_append)
  have run: "reader_find_path r (slash_byte # p) = find_path_loop sb p t (length u) 0 (replicate 32 False)"
    using assms(2,3) r(1) find_path_nops [OF at(2,1), of p t 0 "replicate 32 False"] r(3)
    by (simp add: reader_find_path_def starts_with_def MAX_DEPTH_def)
  have "path_search p t 0 up root = walk root (drop 0 (path_components p))" for up
    by (rule path_search_walk [OF wf(1)]) (use wf(2) count_path_components_Inr [OF assms(3)] in simp_all)
  then have search: "path_search p t 0 up root = walk root (path_components p)" for up by simp
  have "32 < node_height root \<and> find_path_loop sb p t (length u) 0 (replicate 32 False) = Inl FdtTooDeep \<or>
      find_path_result sb st p t (length u) 0 (replicate 32 False) (length u + length w) (walk root (path_components p))"
    using find_path_nodes(1) [OF at(3) pos(1) al(1) r(3), of "replicate 32 False" 0 p t] unfolding search by simp
  then show ?thesis
  proof
    assume res: "find_path_result sb st p t (length u) 0 (replicate 32 False) (length u + length w) (walk root (path_components p))"
    show ?thesis
    proof (cases "walk root (path_components p)")
      case None
      then show ?thesis
        using res run find_path_end [OF pos(2) at(4) al(2) r(3)] by (auto simp: find_path_result_def)
    next
      case (Some n)
      then show ?thesis using res run r by (auto simp: find_path_result_def node_view_def)
    qed
  qed (use run in simp)
qed

fun preorder :: "node \<Rightarrow> node list" where
  "preorder (Node name ps cs) = Node name ps cs # concat (map preorder cs)"

definition find_phandle_result :: "pre_reader \<Rightarrow> bytes \<Rightarrow> u32 \<Rightarrow> nat \<Rightarrow> nat \<Rightarrow> node list \<Rightarrow> bool" where
  "find_phandle_result r sb ph c c' ns \<longleftrightarrow>
     (case find (\<lambda>m. tree_phandle m = Inr ph) ns of
        Some m \<Rightarrow> \<exists>o'. node_view r o' m \<and> find_phandle_loop r sb ph c = Inr o'
      | None \<Rightarrow> find_phandle_loop r sb ph c = find_phandle_loop r sb ph c')"

lemma find_append: "find P (xs @ ys) = (case find P xs of Some x \<Rightarrow> Some x | None \<Rightarrow> find P ys)"
  by (induction xs) auto

lemma find_phandle_result_append:
  "find_phandle_result r sb ph c c1 xs \<Longrightarrow> find_phandle_result r sb ph c1 c2 ys \<Longrightarrow> find_phandle_result r sb ph c c2 (xs @ ys)"
  by (auto simp: find_phandle_result_def find_append split: option.splits)

lemma find_phandle_skip:
  assumes "pre_next_token sb c = Inr (tok, n)" and "tok = PreNop \<or> (\<exists>p. tok = PreProp p) \<or> tok = PreEndNode"
  shows "find_phandle_loop r sb ph c = find_phandle_loop r sb ph n"
  using assms by (subst find_phandle_loop.simps) auto

lemma find_phandle_props:
  assumes "props_bytes st ps u" and "bytes_at sb c (u @ w)" and "4 dvd c" and "length sb + 8 < usize_limit"
  shows "find_phandle_loop r sb ph c = find_phandle_loop r sb ph (c + length u)"
  using assms
proof (induction arbitrary: c rule: props_bytes.induct)
  case (props_Nop ps u)
  then show ?case using nop_at [of sb c "u @ w"] find_phandle_skip [of sb c PreNop "c + 4" r ph] by (simp add: add.assoc)
next
  case (props_Cons b off v k ps u)
  obtain parts where "pre_next_token sb c = Inr (PreProp parts, c + length b)"
      "bytes_at sb (c + length b) (u @ w)" "4 dvd c + length b"
    using prop_at [of sb c b "u @ w" off v] props_Cons by (metis append_assoc)
  then show ?case using props_Cons.IH [of "c + length b"] props_Cons.prems find_phandle_skip by (simp add: add.assoc)
qed simp

lemma find_phandle_nops:
  "nops u \<Longrightarrow> bytes_at sb c (u @ w) \<Longrightarrow> 4 dvd c \<Longrightarrow> length sb + 8 < usize_limit \<Longrightarrow>
   find_phandle_loop r sb ph c = find_phandle_loop r sb ph (c + length u)"
proof (induction arbitrary: c rule: nops.induct)
  case (nops_Cons u)
  then show ?case using nop_at [of sb c "u @ w"] find_phandle_skip [of sb c PreNop "c + 4" r ph] by (simp add: add.assoc)
qed simp

lemma find_phandle_nodes:
  assumes "reader_struct_block r = Inr sb" and "reader_strings r = Inr st" and "length sb + 8 < usize_limit"
  shows "node_bytes st n w \<Longrightarrow> bytes_at sb c w \<Longrightarrow> 4 dvd c \<Longrightarrow> find_phandle_result r sb ph c (c + length w) (preorder n)"
    and "nodes_bytes st cs w \<Longrightarrow> bytes_at sb c w \<Longrightarrow> 4 dvd c \<Longrightarrow>
      find_phandle_result r sb ph c (c + length w) (concat (map preorder cs))"
proof (induction arbitrary: c and c rule: node_bytes_nodes_bytes.inducts)
  case (node_Node b name ps u cs w)
  let ?n = "Node name ps cs"
  have tok: "pre_next_token sb c = Inr (PreBegin name, c + length b)"
    and at: "bytes_at sb (c + length b) (u @ w @ end_node_bytes)" "4 dvd c + length b"
    using begin_at [OF _ node_Node(1), of sb c "u @ w @ end_node_bytes"] node_Node.prems assms(3) by simp_all
  have at2: "bytes_at sb (c + length b + length u) w" "4 dvd c + length b + length u"
    and at3: "bytes_at sb (c + length b + length u + length w) (end_node_bytes @ [])"
      "4 dvd c + length b + length u + length w"
    using at props_bytes_dvd4 [OF node_Node(2)] node_bytes_dvd4(2) [OF node_Node(3)]
    by (simp_all add: bytes_at_append dvd_add)
  have "node_at sb st c ?n"
    using node_Node.prems(1,2) node_Node(1,2,3) unfolding node_at_def by (blast intro: node_bytes_nodes_bytes.intros)
  then have here: "node_view r c ?n" using assms by (auto simp: node_view_def)
  have step: "find_phandle_loop r sb ph c =
      (if tree_phandle ?n = Inr ph then Inr c else find_phandle_loop r sb ph (c + length b + length u))"
    using tok find_phandle_props [OF node_Node(2) at assms(3)] view_accessors(4) [OF here]
    by (subst find_phandle_loop.simps) simp
  have done': "find_phandle_loop r sb ph (c + length b + length u + length w) = find_phandle_loop r sb ph (c + length (b @ u @ w @ end_node_bytes))"
    using find_phandle_skip [OF end_node_at(1) [OF at3 assms(3)]] by (simp add: add.assoc)
  show ?case
  proof (cases "tree_phandle ?n = Inr ph")
    case True
    then show ?thesis using here step by (auto simp: find_phandle_result_def)
  next
    case False
    then show ?thesis
      using node_Node.IH(3) [OF at2] step done' by (simp add: find_phandle_result_def split: option.splits)
  qed
next
  case (nodes_Nop cs w)
  then show ?case
    using nodes_Nop.IH(2) [of "c + 4"] nop_at [of sb c w] assms(3) find_phandle_skip [of sb c PreNop "c + 4" r ph]
    by (simp add: find_phandle_result_def add.assoc split: option.splits)
next
  case (nodes_Cons n u cs w)
  have at: "bytes_at sb c u" "bytes_at sb (c + length u) w" "4 dvd c + length u"
    using nodes_Cons.prems node_bytes_dvd4(1) [OF nodes_Cons(1)] by (simp_all add: bytes_at_append dvd_add)
  show ?case
    using find_phandle_result_append [OF nodes_Cons.IH(2) [OF at(1) nodes_Cons.prems(2)] nodes_Cons.IH(4) [OF at(2,3)]]
    by (simp add: add.assoc)
qed (simp add: find_phandle_result_def)

theorem reader_find_phandle_preorder:
  assumes "reader_tree r root"
  shows "case find (\<lambda>m. tree_phandle m = Inr ph) (preorder root) of
      Some m \<Rightarrow> \<exists>o'. node_view r o' m \<and> reader_find_phandle r ph = Inr o'
    | None \<Rightarrow> reader_find_phandle r ph = Inl FdtNotFound"
proof -
  obtain sb st u w v where r: "reader_struct_block r = Inr sb" "reader_strings r = Inr st" "length sb + 8 < usize_limit"
      and at: "bytes_at sb 0 (u @ w @ v @ end_bytes)" "nops u" "node_bytes st root w" "nops v"
    using reader_treeE [OF assms(1)] .
  have al: "4 dvd length u" "4 dvd length u + length w" "4 dvd length u + length w + length v"
    using nops_dvd4 at(2,4) node_bytes_dvd4(1) [OF at(3)] by (simp_all add: dvd_add)
  have pos: "bytes_at sb (length u) w" "bytes_at sb (length u + length w) (v @ end_bytes)"
    "bytes_at sb (length u + length w + length v) end_bytes"
    using at(1) by (simp_all add: bytes_at_append add.assoc)
  have "find_phandle_loop r sb ph (length u + length w + length v) = Inl FdtNotFound"
    using end_at [OF pos(3) al(3) r(3)] by (subst find_phandle_loop.simps) simp
  then have "find_phandle_loop r sb ph (length u + length w) = Inl FdtNotFound"
    using find_phandle_nops [OF at(4) pos(2) al(2) r(3)] by simp
  then show ?thesis
    using find_phandle_nodes(1) [OF r at(3) pos(1) al(1), of ph] find_phandle_nops [OF at(2,1) _ r(3), of r ph] r(1)
    by (simp add: find_phandle_result_def reader_find_phandle_def split: option.splits)
qed

end
