(* ===== verification/MsmChecks.thy ===== *)
theory MsmChecks
  imports MsmPage PreView
begin

text \<open>
  What the checks of the preboot stage establish about the firmware's tree: the one page claimed
  for the resident code, that it is RAM and free, and the four CPUs with their release addresses
  or power controllers.
\<close>

section \<open>Cells, strings and paths\<close>

lemma convert_Inr [simp]: "convert f x = Inr y \<longleftrightarrow> x = Inr y"
  by (cases x) (simp_all add: convert_def)

lemma ucast_be: "length w = 4 \<Longrightarrow> (ucast (from_be_bytes w :: u32) :: u64) = from_be_bytes w"
  using from_be_bytes_append4 [of w "[]"] by (simp add: from_be_bytes_def)

lemma read_cells_one:
  assumes "read_cells data off 1 = Inr v"
  shows "off + 4 \<le> length data" and "v = from_be_bytes (slice data off (off + 4))"
  using assms by (auto simp: read_cells_def ucast_be)

lemma read_cells_two:
  assumes "read_cells data off 2 = Inr v"
  shows "off + 8 \<le> length data" and "v = from_be_bytes (slice data off (off + 8))"
proof -
  have two: "[0..<2] = [0, 1 :: nat]" by (simp add: upt_rec)
  show le: "off + 8 \<le> length data" using assms by (auto simp: read_cells_def two)
  let ?a = "slice data off (off + 4)" and ?b = "slice data (off + 4) (off + 8)"
  have "v = push_bit 32 (ucast (from_be_bytes ?a :: u32)) OR ucast (from_be_bytes ?b :: u32)"
    using assms by (auto simp: read_cells_def two add.commute)
  also have "\<dots> = from_be_bytes (?a @ ?b)"
    using from_be_bytes_append4 [of ?b ?a] le by (simp add: ucast_be)
  also have "?a @ ?b = slice data off (off + 8)" using slice_split [of off "off + 4" "off + 8" data] by simp
  finally show "v = from_be_bytes (slice data off (off + 8))" .
qed

lemma two_cells_exact:
  assumes "read_cells v 0 2 = Inr a" and "read_cells v 8 2 = Inr b" and "length v = 16"
  shows "v = to_be_bytes 8 a @ to_be_bytes 8 b"
proof -
  have "v = slice v 0 8 @ slice v 8 16" using slice_split [of 0 8 16 v] assms(3) by (simp add: slice_def)
  moreover have "slice v 0 8 = to_be_bytes 8 a" "slice v 8 16 = to_be_bytes 8 b"
    using read_cells_two(2) [OF assms(1)] read_cells_two(2) [OF assms(2)] assms(3) by (simp_all add: be64.enc_dec)
  ultimately show ?thesis by simp
qed

lemma find_path_child:
  assumes "reader_tree r root" and "p \<noteq> []" and "slash_byte \<notin> set p" and "reader_find_path r (slash_byte # p) = Inr o'"
  shows "\<exists>n. child root p = Some n \<and> node_view r o' n"
proof -
  have "\<forall>b \<in> set p. b \<noteq> slash_byte" using assms(3) by blast
  then have "dropWhile (\<lambda>b. b \<noteq> slash_byte) p = []" by (simp only: dropWhile_eq_Nil_conv)
  then have rest: "drop 1 (dropWhile (\<lambda>b. b \<noteq> slash_byte) p) = []" by (simp only: drop_Nil)
  have rest2: "takeWhile (\<lambda>b. b \<noteq> slash_byte) p = p" "hd p \<noteq> slash_byte"
    using assms(2,3) by (auto simp: takeWhile_eq_all_conv dest: hd_in_set)
  have comps: "path_components p = [p]"
    using assms(2) rest rest2 by (simp add: path_components.simps [of p] path_components.simps [of "[]"])
  have count: "count_path_components p = Inr 1"
    using assms(2) rest rest2 by (simp add: count_path_components.simps [of p] count_path_components.simps [of "[]"])
  show ?thesis
    using reader_find_path_walk [OF assms(1,2) count] assms(4)
    by (auto simp: comps split: option.splits bind_splits)
qed

lemma path_bytes: "bytes_of ''/reserved-memory'' = slash_byte # reserved_name" "bytes_of ''/cpus'' = slash_byte # bytes_of ''cpus''"
  "slash_byte \<notin> set reserved_name" "slash_byte \<notin> set (bytes_of ''cpus'')"
  by (simp_all add: bytes_of_def)

lemma isl_ok_or [simp]: "isl (ok_or e m) \<longleftrightarrow> m = None"
  by (cases m) simp_all

section \<open>The page\<close>

definition names_page :: "node \<Rightarrow> bool" where
  "names_page n \<longleftrightarrow>
     (case get_prop n (bytes_of ''compatible'') of Some v \<Rightarrow> stringlist_contains v PRE_SPIN_COMPATIBLE | None \<Rightarrow> False)"

definition claims_page :: "node \<Rightarrow> bool" where
  "claims_page n \<longleftrightarrow> basename_eq (nname n) (bytes_of ''spin-table'') \<or> names_page n"

definition status_ok :: "node \<Rightarrow> bool" where
  "status_ok n \<longleftrightarrow>
     (\<forall>s. tree_str n PROP_STATUS = Inr s \<longrightarrow> s = bytes_of ''okay'' \<or> s = bytes_of ''ok'')"

definition page_aligned :: "pre_spin_table \<Rightarrow> bool" where
  "page_aligned t \<longleftrightarrow> pst_addr t \<noteq> 0 \<and> PRE_SPIN_SIZE dvd pst_addr t \<and> unat (pst_addr t) + 4096 \<le> 2 ^ 32"

definition page_node :: "pre_spin_table \<Rightarrow> node \<Rightarrow> bool" where
  "page_node t n \<longleftrightarrow>
     names_page n \<and> get_prop n (bytes_of ''no-map'') = Some [] \<and> get_prop n (bytes_of ''reusable'') = None \<and> status_ok n \<and>
     get_prop n PROP_REG = Some (to_be_bytes 8 (pst_addr t) @ to_be_bytes 8 PRE_SPIN_SIZE) \<and> page_aligned t"

definition reserved_holds_page :: "pre_spin_table \<Rightarrow> node \<Rightarrow> bool" where
  "reserved_holds_page t reserved \<longleftrightarrow>
     tree_u32 reserved PROP_ADDRESS_CELLS = Inr 2 \<and> tree_u32 reserved PROP_SIZE_CELLS = Inr 2 \<and>
     get_prop reserved (bytes_of ''ranges'') = Some [] \<and>
     (\<exists>n. filter claims_page (nchildren reserved) = [n] \<and> page_node t n)"

lemma bad_status_view: "node_view r o' n \<Longrightarrow> bad_status r o' \<longleftrightarrow> \<not> status_ok n"
  by (auto simp: bad_status_def status_ok_def view_accessors split: sum.splits)

lemma stringlist_contains_Nil [simp]: "stringlist_contains [] s = False"
  by (simp add: stringlist_contains.simps)

lemma spin_table_step_Inr:
  assumes "node_view r o' n" and "spin_table_step r o' found = Inr found'"
  shows "\<not> claims_page n \<and> found' = found \<or>
    claims_page n \<and> found = None \<and> (\<exists>t. found' = Some t \<and> page_node t n)"
proof -
  have names: "stringlist_contains (case ok_or FdtNotFound (get_prop n (bytes_of ''compatible'')) of Inr v \<Rightarrow> v | Inl _ \<Rightarrow> []) PRE_SPIN_COMPATIBLE \<longleftrightarrow> names_page n"
    by (simp add: names_page_def ok_or_def split: option.splits)
  show ?thesis
  proof (cases "claims_page n")
    case False
    then show ?thesis using assms(2) by (auto simp: spin_table_step_def view_accessors [OF assms(1)] names claims_page_def Let_def)
  next
    case True
    then obtain nomap reg addr sz where ok: "found = None" "names_page n"
        "get_prop n (bytes_of ''no-map'') = Some []" "get_prop n (bytes_of ''reusable'') = None" "status_ok n"
        "get_prop n PROP_REG = Some reg" "read_cells reg 0 2 = Inr addr" "read_cells reg 8 2 = Inr sz"
        "length reg = 16" "addr \<noteq> 0" "sz = PRE_SPIN_SIZE" "PRE_SPIN_SIZE dvd addr"
        "(case checked_add addr sz of None \<Rightarrow> True | Some e \<Rightarrow> 0x100000000 < e) = False" "found' = Some \<lparr>pst_addr = addr\<rparr>"
      using assms(2) unfolding spin_table_step_def
      by (auto simp: view_accessors [OF assms(1)] bad_status_view [OF assms(1)] names claims_page_def Let_def split: if_split_asm)
    have "unat addr + 4096 \<le> 2 ^ 32"
      using ok(11,13) by (auto simp: word_less_nat_alt PRE_SPIN_SIZE_def split: option.split_asm)
    then have "page_node \<lparr>pst_addr = addr\<rparr> n"
      using ok two_cells_exact [OF ok(7,8,9)] by (simp add: page_node_def page_aligned_def)
    then show ?thesis using True ok(1,14) by blast
  qed
qed

theorem find_spin_table_sound:
  assumes "reader_tree r root" and "find_spin_table r = Inr t"
  shows "\<exists>reserved. child root reserved_name = Some reserved \<and> reserved_holds_page t reserved"
proof -
  obtain o' where path: "reader_find_path r (slash_byte # reserved_name) = Inr o'"
      and run: "prop_u32 r o' PROP_ADDRESS_CELLS = Inr 2" "prop_u32 r o' PROP_SIZE_CELLS = Inr 2"
        "reader_prop r o' (bytes_of ''ranges'') = Inr []"
        "each_subnode from_fdt r o' (spin_table_step r) None = Inr (Some t)"
    using assms(2) unfolding find_spin_table_def path_bytes by (auto split: if_split_asm)
  obtain n where n: "child root reserved_name = Some n" "node_view r o' n"
    using find_path_child [OF assms(1) _ path_bytes(3) path] by auto
  define P where "P cs found \<longleftrightarrow>
     (case found of None \<Rightarrow> filter claims_page cs = [] | Some t \<Rightarrow> \<exists>n. filter claims_page cs = [n] \<and> page_node t n)" for cs found
  have "P (nchildren n) (Some t)"
  proof (rule each_subnode_invariant [OF n(2) run(4)])
    show "P [] None" by (simp add: P_def)
    show "P (cs @ [c]) a'" if "node_view r i c" "spin_table_step r i a = Inr a'" "P cs a" for i c cs a a'
      using spin_table_step_Inr [OF that(1,2)] that(3) by (auto simp: P_def split: option.splits)
  qed
  then show ?thesis
    using n run(1-3) by (simp add: reserved_holds_page_def P_def view_accessors)
qed

section \<open>The page is free RAM\<close>

definition span :: "u64 \<Rightarrow> u64 \<Rightarrow> nat set" where
  "span a l = {unat a..<unat a + unat l}"

abbreviation page_span :: "pre_spin_table \<Rightarrow> nat set" where
  "page_span t \<equiv> span (pst_addr t) PRE_SPIN_SIZE"

definition reg_tuples :: "bytes \<Rightarrow> (u64 \<times> u64) list" where
  "reg_tuples v = map (\<lambda>c. (from_be_bytes (slice c 0 8), from_be_bytes (slice c 8 16))) (chunks_exact 16 v)"

lemma pre_overlaps_span: "\<not> pre_overlaps a l b k \<Longrightarrow> span a l \<inter> span b k = {}"
  by (auto simp: pre_overlaps_def span_def word_less_nat_alt split: option.split_asm if_split_asm)

lemma tuple_cells: "read_cells c 0 2 = Inr a \<Longrightarrow> read_cells c 8 2 = Inr l \<Longrightarrow>
  (from_be_bytes (slice c 0 8), from_be_bytes (slice c 8 16)) = (a, l)"
  using read_cells_two(2) [of c 0 a] read_cells_two(2) [of c 8 l] by simp

lemma fold_io_unit: "fold_io f () xs = Inr u \<Longrightarrow> x \<in> set xs \<Longrightarrow> f () x = Inr ()"
proof (induction xs)
  case (Cons y ys)
  then obtain v where "f () y = Inr v" "fold_io f v ys = Inr u" by auto
  then show ?case using Cons by auto
qed simp

lemma memory_tuple_step_Inr:
  assumes "memory_tuple_step t b c = Inr b'" and "b' \<noteq> b" and "page_aligned t"
  shows "page_span t \<subseteq> span (from_be_bytes (slice c 0 8)) (from_be_bytes (slice c 8 16))"
proof -
  obtain a l where al: "read_cells c 0 2 = Inr a" "read_cells c 8 2 = Inr l"
      "a \<le> pst_addr t \<and> (case checked_add a l of None \<Rightarrow> False | Some e \<Rightarrow> pst_addr t + PRE_SPIN_SIZE \<le> e)"
    using assms(1,2) by (auto simp: memory_tuple_step_def split: if_split_asm)
  have "unat (pst_addr t + PRE_SPIN_SIZE) = unat (pst_addr t) + 4096"
    using assms(3) unat_add_exact [of "pst_addr t" PRE_SPIN_SIZE] by (simp add: page_aligned_def PRE_SPIN_SIZE_def)
  then have "page_span t \<subseteq> span a l"
    using al(3) by (auto simp: span_def PRE_SPIN_SIZE_def word_le_nat_alt split: option.split_asm)
  then show ?thesis using tuple_cells [OF al(1,2)] by simp
qed

lemma memory_tuples:
  assumes "fold_io (memory_tuple_step t) b cs = Inr True" and "\<not> b" and "page_aligned t"
  shows "\<exists>c \<in> set cs. page_span t \<subseteq> span (from_be_bytes (slice c 0 8)) (from_be_bytes (slice c 8 16))"
  using assms
proof (induction cs arbitrary: b)
  case (Cons c cs)
  then obtain b' where b': "memory_tuple_step t b c = Inr b'" "fold_io (memory_tuple_step t) b' cs = Inr True" by auto
  show ?case
  proof (cases b')
    case True
    then show ?thesis using memory_tuple_step_Inr [OF b'(1) _ Cons.prems(3)] Cons.prems(2) by auto
  qed (use Cons.IH [OF b'(2) _ Cons.prems(3)] in auto)
qed simp

definition is_ram_for :: "pre_spin_table \<Rightarrow> node \<Rightarrow> bool" where
  "is_ram_for t n \<longleftrightarrow>
     tree_str n (bytes_of ''device_type'') = Inr (bytes_of ''memory'') \<and>
     (\<exists>reg. get_prop n PROP_REG = Some reg \<and> (\<exists>(a, l) \<in> set (reg_tuples reg). page_span t \<subseteq> span a l))"

definition avoids_page :: "pre_spin_table \<Rightarrow> node \<Rightarrow> bool" where
  "avoids_page t n \<longleftrightarrow>
     (\<forall>reg. get_prop n PROP_REG = Some reg \<longrightarrow> (\<forall>(a, l) \<in> set (reg_tuples reg). page_span t \<inter> span a l = {}))"

lemma memory_step_Inr:
  assumes "node_view r o' n" and "memory_step r t o' b = Inr b'" and "page_aligned t"
  shows "b' \<longrightarrow> b \<or> is_ram_for t n"
proof (cases "tree_str n (bytes_of ''device_type'') = Inr (bytes_of ''memory'')")
  case True
  then obtain reg where reg: "get_prop n PROP_REG = Some reg" "fold_io (memory_tuple_step t) b (chunks_exact 16 reg) = Inr b'"
    using assms(2) by (auto simp: memory_step_def view_accessors [OF assms(1)] split: if_split_asm)
  show ?thesis
  proof (intro impI)
    assume b'
    then show "b \<or> is_ram_for t n"
      using memory_tuples [of t b "chunks_exact 16 reg"] reg True assms(3)
      by (cases b) (auto simp: is_ram_for_def reg_tuples_def)
  qed
qed (use assms in \<open>simp add: memory_step_def view_accessors\<close>)

lemma carveout_step_Inr:
  assumes "node_view r o' n" and "carveout_step r t o' u = Inr u'"
  shows "names_page n \<or> avoids_page t n"
proof (cases "names_page n \<or> get_prop n PROP_REG = None")
  case False
  then obtain reg where reg: "get_prop n PROP_REG = Some reg" "fold_io (carveout_tuple_step t) () (chunks_exact 16 reg) = Inr u'"
    using assms(2)
    by (auto simp: carveout_step_def view_accessors [OF assms(1)] names_page_def ok_or_def split: if_split_asm option.split_asm)
  have "page_span t \<inter> span (from_be_bytes (slice c 0 8)) (from_be_bytes (slice c 8 16)) = {}"
    if c: "c \<in> set (chunks_exact 16 reg)" for c
  proof -
    obtain a l where "read_cells c 0 2 = Inr a" "read_cells c 8 2 = Inr l" "\<not> page_overlaps t a l"
      using fold_io_unit [OF reg(2) c] by (auto simp: carveout_tuple_step_def split: if_split_asm)
    then show ?thesis using pre_overlaps_span tuple_cells by simp
  qed
  then show ?thesis using reg(1) by (auto simp: avoids_page_def reg_tuples_def)
qed (auto simp: avoids_page_def)

lemma reserve_entries_Inr:
  assumes "fold_io (reserve_entry_step t) () (chunks_exact 16 rsv) = Inr u" and "(a, l) \<in> set (reg_tuples rsv)"
  shows "(a, l) = (pst_addr t, PRE_SPIN_SIZE) \<or> page_span t \<inter> span a l = {}"
proof -
  obtain c where c: "c \<in> set (chunks_exact 16 rsv)" "a = from_be_bytes (slice c 0 8)" "l = from_be_bytes (slice c 8 16)"
    using assms(2) by (auto simp: reg_tuples_def)
  obtain a' l' where cells: "read_cells c 0 2 = Inr a'" "read_cells c 8 2 = Inr l'"
      "\<not> (page_overlaps t a' l' \<and> (a' \<noteq> pst_addr t \<or> l' \<noteq> PRE_SPIN_SIZE))"
    using fold_io_unit [OF assms(1) c(1)] by (auto simp: reserve_entry_step_def split: if_split_asm)
  have "a = a'" "l = l'" using tuple_cells [OF cells(1,2)] c(2,3) by simp_all
  then show ?thesis using cells(3) pre_overlaps_span [of "pst_addr t" PRE_SPIN_SIZE a' l'] by blast
qed

theorem validate_memory_sound:
  assumes "reader_tree r root" and "validate_memory image_start r t payload payload_size = Inr ()" and "page_aligned t"
    and "rd_addr r + totalsize (rd_header r) < 2 ^ 64"
  shows "page_span t \<inter> span payload payload_size = {}"
    and "page_span t \<inter> {unat image_start..<unat payload} = {}"
    and "page_span t \<inter> {rd_addr r..<rd_addr r + totalsize (rd_header r)} = {}"
    and "\<exists>rsv. reader_reserve_map r = Inr rsv \<and>
      (\<forall>(a, l) \<in> set (reg_tuples rsv). (a, l) = (pst_addr t, PRE_SPIN_SIZE) \<or> page_span t \<inter> span a l = {})"
    and "\<exists>n \<in> set (nchildren root). is_ram_for t n"
    and "\<exists>reserved. child root reserved_name = Some reserved \<and> (\<forall>n \<in> set (nchildren reserved). names_page n \<or> avoids_page t n)"
    and "tree_u32 root PROP_ADDRESS_CELLS = Inr 2" and "tree_u32 root PROP_SIZE_CELLS = Inr 2"
proof -
  obtain o1 rsv o2 where root: "reader_root r = Inr o1" "prop_u32 r o1 PROP_ADDRESS_CELLS = Inr 2" "prop_u32 r o1 PROP_SIZE_CELLS = Inr 2"
      and pay: "\<not> page_overlaps t payload payload_size" "\<not> payload \<le> image_start"
        "\<not> page_overlaps t image_start (payload - image_start)"
        "\<not> page_overlaps t (of_nat (rd_addr r)) (of_nat (totalsize (rd_header r)))"
      and rsv: "reader_reserve_map r = Inr rsv" "fold_io (reserve_entry_step t) () (chunks_exact 16 rsv) = Inr ()"
      and mem: "each_subnode from_fdt r o1 (memory_step r t) False = Inr True"
      and path: "reader_find_path r (slash_byte # reserved_name) = Inr o2"
      and carve: "each_subnode from_fdt r o2 (carveout_step r t) () = Inr ()"
    using assms(2) unfolding validate_memory_def path_bytes by (auto split: if_split_asm)
  have v: "node_view r o1 root" using reader_root_view [OF assms(1) root(1)] by simp
  obtain reserved where n: "child root reserved_name = Some reserved" "node_view r o2 reserved"
    using find_path_child [OF assms(1) _ path_bytes(3) path] by auto
  show "page_span t \<inter> span payload payload_size = {}" by (rule pre_overlaps_span [OF pay(1)])
  have "span image_start (payload - image_start) = {unat image_start..<unat payload}"
    using pay(2) unat_sub [of image_start payload] by (auto simp: span_def word_le_nat_alt)
  then show "page_span t \<inter> {unat image_start..<unat payload} = {}" using pre_overlaps_span [OF pay(3)] by simp
  have "span (of_nat (rd_addr r)) (of_nat (totalsize (rd_header r))) = {rd_addr r..<rd_addr r + totalsize (rd_header r)}"
    using assms(4) by (simp add: span_def unat_of_nat_u64)
  then show "page_span t \<inter> {rd_addr r..<rd_addr r + totalsize (rd_header r)} = {}" using pre_overlaps_span [OF pay(4)] by simp
  show "\<exists>rsv. reader_reserve_map r = Inr rsv \<and>
      (\<forall>(a, l) \<in> set (reg_tuples rsv). (a, l) = (pst_addr t, PRE_SPIN_SIZE) \<or> page_span t \<inter> span a l = {})"
    using rsv reserve_entries_Inr by (intro exI [of _ rsv]) blast
  define P where "P cs b \<longleftrightarrow> (b \<longrightarrow> (\<exists>n \<in> set cs. is_ram_for t n))" for cs b
  have "P (nchildren root) True"
  proof (rule each_subnode_invariant [OF v mem])
    show "P (cs @ [c]) a'" if "node_view r i c" "memory_step r t i a = Inr a'" "P cs a" for i c cs a a'
      using memory_step_Inr [OF that(1,2) assms(3)] that(3) by (auto simp: P_def)
  qed (simp add: P_def)
  then show "\<exists>n \<in> set (nchildren root). is_ram_for t n" by (simp add: P_def)
  have "\<forall>n \<in> set (nchildren reserved). names_page n \<or> avoids_page t n"
    by (rule each_subnode_invariant [OF n(2) carve, where P = "\<lambda>cs _. \<forall>n \<in> set cs. names_page n \<or> avoids_page t n"])
      (use carveout_step_Inr in \<open>auto\<close>)
  then show "\<exists>reserved. child root reserved_name = Some reserved \<and> (\<forall>n \<in> set (nchildren reserved). names_page n \<or> avoids_page t n)"
    using n(1) by blast
  show "tree_u32 root PROP_ADDRESS_CELLS = Inr 2" "tree_u32 root PROP_SIZE_CELLS = Inr 2"
    using root(2,3) by (simp_all add: view_accessors [OF v])
qed

section \<open>The CPUs\<close>

definition is_cpu_node :: "node \<Rightarrow> bool" where
  "is_cpu_node n \<longleftrightarrow> basename_eq (nname n) (bytes_of ''cpu'') \<and> tree_str n (bytes_of ''device_type'') = Inr (bytes_of ''cpu'')"

definition has_compatible :: "node \<Rightarrow> bytes \<Rightarrow> bool" where
  "has_compatible n s \<longleftrightarrow> (\<exists>v. get_prop n (bytes_of ''compatible'') = Some v \<and> stringlist_contains v s)"

text \<open>The power controller of a CPU to start, or the release address of one that is parked.\<close>

definition acc_of :: "node \<Rightarrow> node \<Rightarrow> u32 \<Rightarrow> u64 \<Rightarrow> bool" where
  "acc_of root n reg base \<longleftrightarrow>
     base = 0x0b088000 + ucast reg * 0x10000 \<and>
     (\<exists>m \<in> set (preorder root). tree_phandle m = tree_u32 n (bytes_of ''qcom,acc'') \<and>
        has_compatible m (bytes_of ''qcom,msm8916-acc'') \<and>
        (\<exists>v. get_prop m PROP_REG = Some v \<and> length v = 8 \<and> from_be_bytes (slice v 0 4) = base \<and> 0x18 \<le> (from_be_bytes (slice v 4 8) :: u64)))"

definition describes_cpu :: "pre_reader \<Rightarrow> node \<Rightarrow> boot_mode \<Rightarrow> node \<Rightarrow> cpu_info \<Rightarrow> bool" where
  "describes_cpu r root mode n c \<longleftrightarrow>
     has_compatible n (bytes_of ''arm,cortex-a53'') \<and> status_ok n \<and>
     get_prop n PROP_REG = Some (to_be_bytes 4 (ci_reg c)) \<and>
     (\<exists>meth. tree_str n (bytes_of ''enable-method'') = Inr meth \<and> cpu_mode_of meth = Some mode) \<and>
     (case mode of
        Resident \<Rightarrow>
          ci_acc_base c = 0 \<and>
          (\<exists>t. find_spin_table r = Inr t \<and> get_prop n (bytes_of ''cpu-release-addr'') = Some (to_be_bytes 8 (slot_addr t (ci_reg c))))
      | Cold \<Rightarrow> acc_of root n (ci_reg c) (ci_acc_base c))"

definition cpus_described :: "pre_reader \<Rightarrow> node \<Rightarrow> node list \<Rightarrow> cpu_list \<Rightarrow> bool" where
  "cpus_described r root cs l \<longleftrightarrow>
     list_all2 (describes_cpu r root (cl_mode l)) (filter is_cpu_node cs) (cl_cpus l) \<and>
     distinct (map ci_reg (cl_cpus l)) \<and> (\<forall>c \<in> set (cl_cpus l). ci_reg c < 4)"

lemma resident_acc_Inr:
  assumes "node_view r o' n" and "resident_acc r o' reg = Inr base"
  shows "base = 0 \<and> (\<exists>t. find_spin_table r = Inr t \<and>
    get_prop n (bytes_of ''cpu-release-addr'') = Some (to_be_bytes 8 (slot_addr t reg)))"
proof -
  obtain v a t where v: "get_prop n (bytes_of ''cpu-release-addr'') = Some v" "length v = 8" "read_cells v 0 2 = Inr a"
      "find_spin_table r = Inr t" "a = slot_addr t reg" "base = 0"
    using assms(2) by (auto simp: resident_acc_def view_accessors [OF assms(1)] split: if_split_asm)
  have "v = to_be_bytes 8 a" using read_cells_two(2) [OF v(3)] v(2) by (simp add: be64.enc_dec slice_def)
  then show ?thesis using v by auto
qed

lemma cold_acc_Inr:
  assumes "reader_tree r root" and "node_view r o' n" and "cold_acc r o' reg = Inr base"
  shows "acc_of root n reg base"
proof -
  obtain ph acc v l sz where run: "tree_u32 n (bytes_of ''qcom,acc'') = Inr ph" "reader_find_phandle r ph = Inr acc"
      "reader_prop r acc PROP_REG = Inr v" "read_cells v 0 1 = Inr base" "length v = 8" "read_cells v 4 1 = Inr sz"
      "\<not> sz < 0x18" "base = 0x0b088000 + ucast reg * 0x10000" "reader_prop r acc (bytes_of ''compatible'') = Inr l"
      "stringlist_contains l (bytes_of ''qcom,msm8916-acc'')"
    using assms(3) by (auto simp: cold_acc_def view_accessors(2) [OF assms(2)] split: if_split_asm)
  obtain m where m: "m \<in> set (preorder root)" "tree_phandle m = Inr ph" "node_view r acc m"
    using reader_find_phandle_preorder [OF assms(1), of ph] run(2) by (auto simp: find_Some_iff in_set_conv_nth split: option.splits)
  have "get_prop m PROP_REG = Some v" "get_prop m (bytes_of ''compatible'') = Some l"
    using run(3,9) by (simp_all add: view_accessors [OF m(3)])
  then show ?thesis
    unfolding acc_of_def has_compatible_def
    using m(1,2) run(1,5,7,8,10) read_cells_one(2) [OF run(4)] read_cells_one(2) [OF run(6)] by (auto intro!: bexI [OF _ m(1)])
qed

lemma four_bytes: "tree_u32 n k = Inr x \<Longrightarrow> get_prop n k = Some v \<Longrightarrow> length v = 4 \<Longrightarrow> v = to_be_bytes 4 x"
  by (auto simp: tree_u32_def slice_def be32.enc_dec)

lemma pre_cpu_step_Inr:
  assumes "reader_tree r root" and "node_view r o' n" and "pre_cpu_step r o' l = Inr l'" and "cpus_described r root cs l"
  shows "cpus_described r root (cs @ [n]) l'"
proof (cases "is_cpu_node n")
  case False
  then have "l' = l" using assms(3) by (auto simp: pre_cpu_step_def view_accessors [OF assms(2)] is_cpu_node_def split: if_split_asm)
  then show ?thesis using False assms(4) by (simp add: cpus_described_def)
next
  case True
  obtain compat regv reg meth mode base where run: "get_prop n (bytes_of ''compatible'') = Some compat"
      "stringlist_contains compat (bytes_of ''arm,cortex-a53'')" "get_prop n PROP_REG = Some regv" "length regv = 4"
      "tree_u32 n PROP_REG = Inr reg" "tree_str n (bytes_of ''enable-method'') = Inr meth" "cpu_mode_of meth = Some mode"
      "cl_cpus l = [] \<or> cl_mode l = mode" "\<not> 4 \<le> reg" "reg \<notin> ci_reg ` set (cl_cpus l)" "status_ok n"
      "(if mode = Resident then resident_acc r o' reg else cold_acc r o' reg) = Inr base"
      "l' = \<lparr>cl_cpus = cl_cpus l @ [\<lparr>ci_reg = reg, ci_acc_base = base\<rparr>], cl_mode = mode\<rparr>"
    using assms(3) True
    by (auto simp: pre_cpu_step_def view_accessors [OF assms(2)] bad_status_view [OF assms(2)] is_cpu_node_def cpu_list_push_def
        MAX_CPUS_def Let_def split: if_split_asm)
  have "describes_cpu r root mode n \<lparr>ci_reg = reg, ci_acc_base = base\<rparr>"
    using run(1,2,6,7,11,12) four_bytes [OF run(5,3,4)] run(3) resident_acc_Inr [OF assms(2), of reg base] cold_acc_Inr [OF assms(1,2), of reg base]
    by (auto simp: describes_cpu_def has_compatible_def split: boot_mode.splits if_split_asm)
  moreover have "list_all2 (describes_cpu r root mode) (filter is_cpu_node cs) (cl_cpus l)"
    using assms(4) run(8) by (auto simp: cpus_described_def)
  ultimately show ?thesis
    using True run(9,10,13) assms(4) by (auto simp: cpus_described_def list_all2_append list_all2_lengthD)
qed

text \<open>Four CPUs with distinct numbers below 4, whatever the reader holds.\<close>

lemma four_regs:
  assumes "distinct (map ci_reg cs)" and "\<forall>c \<in> set cs. ci_reg c < 4" and "length cs = 4"
  shows "ci_reg ` set cs = {0, 1, 2, 3}"
proof (rule card_subset_eq)
  show "ci_reg ` set cs \<subseteq> {0, 1, 2, 3}"
  proof
    fix x assume "x \<in> ci_reg ` set cs"
    then have "unat x < 4" using assms(2) by (auto simp: word_less_nat_alt)
    then have "unat x = 0 \<or> unat x = 1 \<or> unat x = 2 \<or> unat x = 3" by linarith
    then show "x \<in> {0, 1, 2, 3}" by (auto simp: word_unat_eq_iff)
  qed
  show "card (ci_reg ` set cs) = card {0, 1, 2, 3 :: u32}" using distinct_card [OF assms(1)] assms(3) by simp
qed simp

lemma for_subnodes_invariant:
  "for_subnodes conv sb f c acc = Inr res \<Longrightarrow> P acc \<Longrightarrow> (\<And>i a a'. f i a = Inr a' \<Longrightarrow> P a \<Longrightarrow> P a') \<Longrightarrow> P res"
proof (induction conv sb f c acc rule: for_subnodes.induct)
  case (1 conv sb f c acc)
  show ?case
    using "1.prems" "1.IH" by (subst (asm) for_subnodes.simps) (auto split: sum.split_asm option.split_asm)
qed

lemma collect_cpus_regs:
  assumes "collect_cpus r = Inr l"
  shows "ci_reg ` set (cl_cpus l) = {0, 1, 2, 3}" and "distinct (map ci_reg (cl_cpus l))"
proof -
  obtain o' where run: "each_subnode from_fdt r o' (pre_cpu_step r) cpu_list_new = Inr l" "length (cl_cpus l) = 4"
    using assms unfolding collect_cpus_def by (auto simp: MAX_CPUS_def split: if_split_asm)
  obtain sb c where loop: "for_subnodes from_fdt sb (pre_cpu_step r) c cpu_list_new = Inr l"
    using run(1) by (auto simp: each_subnode_def convert_def split: sum.split_asm)
  have "distinct (map ci_reg (cl_cpus l)) \<and> (\<forall>c \<in> set (cl_cpus l). ci_reg c < 4)"
  proof (rule for_subnodes_invariant [OF loop])
    show "distinct (map ci_reg (cl_cpus cpu_list_new)) \<and> (\<forall>c \<in> set (cl_cpus cpu_list_new). ci_reg c < 4)"
      by (simp add: cpu_list_new_def)
    fix i a a'
    assume "pre_cpu_step r i a = Inr a'" and "distinct (map ci_reg (cl_cpus a)) \<and> (\<forall>c \<in> set (cl_cpus a). ci_reg c < 4)"
    then show "distinct (map ci_reg (cl_cpus a')) \<and> (\<forall>c \<in> set (cl_cpus a'). ci_reg c < 4)"
      by (auto simp: pre_cpu_step_def cpu_list_push_def MAX_CPUS_def Let_def not_le split: if_split_asm)
  qed
  then show "ci_reg ` set (cl_cpus l) = {0, 1, 2, 3}" and "distinct (map ci_reg (cl_cpus l))"
    using four_regs run(2) by blast+
qed

theorem collect_cpus_sound:
  assumes "reader_tree r root" and "collect_cpus r = Inr l"
  shows "\<exists>cpus. child root (bytes_of ''cpus'') = Some cpus \<and>
      tree_u32 cpus PROP_ADDRESS_CELLS = Inr 1 \<and> tree_u32 cpus PROP_SIZE_CELLS = Inr 0 \<and>
      list_all2 (describes_cpu r root (cl_mode l)) (filter is_cpu_node (nchildren cpus)) (cl_cpus l)"
    and "distinct (map ci_reg (cl_cpus l))" and "ci_reg ` set (cl_cpus l) = {0, 1, 2, 3}"
proof -
  obtain o' where path: "reader_find_path r (slash_byte # bytes_of ''cpus'') = Inr o'"
      and run: "prop_u32 r o' PROP_ADDRESS_CELLS = Inr 1" "prop_u32 r o' PROP_SIZE_CELLS = Inr 0"
        "each_subnode from_fdt r o' (pre_cpu_step r) cpu_list_new = Inr l" "length (cl_cpus l) = 4"
    using assms(2) unfolding collect_cpus_def path_bytes by (auto simp: MAX_CPUS_def split: if_split_asm)
  obtain n where n: "child root (bytes_of ''cpus'') = Some n" "node_view r o' n"
    using find_path_child [OF assms(1) _ path_bytes(4) path] by auto
  have d: "cpus_described r root (nchildren n) l"
  proof (rule each_subnode_invariant [OF n(2) run(3)])
    show "cpus_described r root [] cpu_list_new" by (simp add: cpus_described_def cpu_list_new_def)
  qed (rule pre_cpu_step_Inr [OF assms(1)])
  then show "\<exists>cpus. child root (bytes_of ''cpus'') = Some cpus \<and>
      tree_u32 cpus PROP_ADDRESS_CELLS = Inr 1 \<and> tree_u32 cpus PROP_SIZE_CELLS = Inr 0 \<and>
      list_all2 (describes_cpu r root (cl_mode l)) (filter is_cpu_node (nchildren cpus)) (cl_cpus l)"
    using n run(1,2) by (auto simp: cpus_described_def view_accessors [OF n(2)])
  show "distinct (map ci_reg (cl_cpus l))" and "ci_reg ` set (cl_cpus l) = {0, 1, 2, 3}"
    using collect_cpus_regs [OF assms(2)] by simp_all
qed

end
