(* ===== verification/MsmRefine.thy ===== *)
theory MsmRefine
  imports MsmPatch MsmChecks
begin

text \<open>
  \<open>patch_fdt\<close> refines an edit of the tree: \<open>msm_patch\<close> adds and removes properties node by node, and
  the blob that the token copier writes is the blob of the edited tree, with the same reserve map.
\<close>

section \<open>The writer\<close>

definition written :: "fdt_writer \<Rightarrow> bytes" where
  "written w = take (w_pos w) (w_output w)"

definition writer_ok :: "nat \<Rightarrow> fdt_writer \<Rightarrow> bool" where
  "writer_ok cap w \<longleftrightarrow> w_pos w \<le> cap \<and> length (w_output w) = cap"

definition emitted :: "nat \<Rightarrow> bytes \<Rightarrow> fdt_writer \<Rightarrow> fdt_writer \<Rightarrow> bool" where
  "emitted cap x w w' \<longleftrightarrow> writer_ok cap w' \<and> written w' = written w @ x \<and> w_pos w' = w_pos w + length x"

lemma emitted_ok: "emitted cap x w w' \<Longrightarrow> writer_ok cap w'"
  by (simp add: emitted_def)

lemma emitted_Nil [simp]: "emitted cap [] w w \<longleftrightarrow> writer_ok cap w"
  by (simp add: emitted_def)

lemma emitted_trans: "emitted cap x w w1 \<Longrightarrow> emitted cap y w1 w2 \<Longrightarrow> emitted cap (x @ y) w w2"
  by (simp add: emitted_def)

lemma emitted_length: "emitted cap x w w' \<Longrightarrow> w_pos w + length x \<le> cap"
  by (simp add: emitted_def writer_ok_def)

lemma emitted_dvd4: "emitted cap x w w' \<Longrightarrow> 4 dvd w_pos w \<Longrightarrow> 4 dvd length x \<Longrightarrow> 4 dvd w_pos w'"
  by (simp add: emitted_def dvd_add)

lemma written_splice:
  assumes "w_pos w + length bs \<le> length (w_output w)"
  shows "take (w_pos w + length bs) (splice (w_output w) (w_pos w) bs) = written w @ bs"
  using assms by (simp add: splice_def written_def)

lemma writer_write_wrote:
  assumes "writer_write w bs = Inr w'" and "writer_ok cap w"
  shows "emitted cap bs w w'"
  using assms written_splice [of w bs]
  by (auto simp: writer_write_def emitted_def writer_ok_def written_def not_less split: if_split_asm)

lemma writer_zeros_wrote:
  assumes "writer_write_zeros w n = Inr w'" and "writer_ok cap w"
  shows "emitted cap (replicate n 0) w w'"
proof -
  have "writer_write w (replicate n 0) = Inr w'"
    using assms(1) by (simp add: writer_write_zeros_def writer_write_def)
  then show ?thesis using assms(2) by (rule writer_write_wrote)
qed

lemma writer_pad_wrote:
  assumes "writer_pad_to w 4 = Inr w'" and "writer_ok cap w"
  shows "emitted cap (replicate ((w_pos w + 3) div 4 * 4 - w_pos w) 0) w w'"
  using assms writer_zeros_wrote by (auto simp: writer_pad_to_def pre_align_4)

lemma padding_after: "4 dvd p \<Longrightarrow> replicate ((p + n + 3) div 4 * 4 - (p + n)) 0 = padding4 n"
  using round_up4_add [of p n] by (simp add: padding4_def)

lemma pre_write_prop_wrote:
  assumes "pre_write_prop w off v = Inr w'" and "writer_ok cap w" and "4 dvd w_pos w"
  shows "emitted cap (enc_event (EvProp off v)) w w'"
proof -
  obtain w1 w2 w3 w4 where run: "writer_write w (to_be_bytes 4 FDT_PROP) = Inr w1"
      "writer_write w1 (to_be_bytes 4 (of_nat (length v) :: u32)) = Inr w2" "writer_write w2 (to_be_bytes 4 off) = Inr w3"
      "writer_write w3 v = Inr w4" "writer_pad_to w4 4 = Inr w'"
    using assms(1) by (auto simp: pre_write_prop_def writer_write_be32_def)
  note a = writer_write_wrote [OF run(1) assms(2)]
  note b = writer_write_wrote [OF run(2) emitted_ok [OF a]]
  note c = writer_write_wrote [OF run(3) emitted_ok [OF b]]
  note d = writer_write_wrote [OF run(4) emitted_ok [OF c]]
  note e = writer_pad_wrote [OF run(5) emitted_ok [OF d]]
  have pos: "w_pos w4 = w_pos w + 12 + length v"
    using a b c d by (simp add: emitted_def)
  have "replicate ((w_pos w4 + 3) div 4 * 4 - w_pos w4) (0 :: u8) = padding4 (length v)"
    unfolding pos using padding_after [of "w_pos w + 12" "length v"] assms(3) by (simp add: add.assoc)
  then show ?thesis
    using emitted_trans [OF emitted_trans [OF emitted_trans [OF emitted_trans [OF a b] c] d] e] by simp
qed

section \<open>The strings block\<close>

lemma find_string_from_Some:
  "find_string_from st s c = Some off \<Longrightarrow> string_at st off = Some s"
proof (induction st s c rule: find_string_from.induct)
  case (1 st s c)
  obtain e where e: "c < length st" "position (\<lambda>b. b = 0) (drop c st) = Some e"
    using "1.prems" by (subst (asm) find_string_from.simps) (auto split: if_split_asm option.split_asm)
  have step: "find_string_from st s c =
      (if slice st c (c + e) = s then (if c < 2 ^ 32 then Some (of_nat c) else None) else find_string_from st s (c + e + 1))"
    using e by (subst find_string_from.simps) simp
  show ?case
  proof (cases "slice st c (c + e) = s")
    case True
    then have "off = of_nat c" "c < 2 ^ 32" using "1.prems" step by (simp_all split: if_split_asm)
    then show ?thesis using e True by (simp add: string_at_def Let_def unat_of_nat_u32)
  next
    case False
    then show ?thesis using "1.IH" [OF e False] "1.prems" step by simp
  qed
qed

definition appended :: "bool list \<Rightarrow> bytes list \<Rightarrow> bytes" where
  "appended as names = concat (map (\<lambda>(a, n). if a then n @ [0] else []) (zip as names))"

lemma appended_snoc: "length as = length ns \<Longrightarrow> appended (as @ [a]) (ns @ [n]) = appended as ns @ (if a then n @ [0] else [])"
  by (simp add: appended_def)

definition strings_ready :: "bytes \<Rightarrow> bytes list \<Rightarrow> patch_strings \<Rightarrow> bool" where
  "strings_ready st ns p \<longleftrightarrow>
     length (pst_offsets p) = length ns \<and> length (pst_append p) = length ns \<and>
     pst_size p = length (st @ appended (pst_append p) ns) \<and>
     (\<forall>i < length ns. string_at (st @ appended (pst_append p) ns) (pst_offsets p ! i) = Some (ns ! i))"

lemma patch_strings_step_ready:
  assumes "strings_ready st ns p" and "patch_strings_step st p n = Inr p'" and "0 \<notin> set n"
  shows "strings_ready st (ns @ [n]) p'"
proof -
  obtain off a sz where p': "p' = \<lparr>pst_offsets = pst_offsets p @ [off], pst_append = pst_append p @ [a], pst_size = sz\<rparr>"
      and at: "string_at (st @ appended (pst_append p) ns @ (if a then n @ [0] else [])) off = Some n"
      and sz: "sz = pst_size p + (if a then length n + 1 else 0)"
  proof (cases "find_string st n")
    case None
    then have small: "pst_size p < 2 ^ 32"
      and p': "p' = \<lparr>pst_offsets = pst_offsets p @ [of_nat (pst_size p)], pst_append = pst_append p @ [True], pst_size = pst_size p + (length n + 1)\<rparr>"
      using assms(2) by (auto simp: patch_strings_step_def)
    have "string_at (st @ appended (pst_append p) ns @ n @ [0]) (of_nat (pst_size p)) = Some n"
      unfolding string_at_Some
    proof (intro exI conjI)
      show "length (st @ appended (pst_append p) ns) = unat (of_nat (pst_size p) :: u32)"
        using assms(1) unat_of_nat_u32 [OF small] by (simp only: strings_ready_def)
      show "st @ appended (pst_append p) ns @ n @ [0] = (st @ appended (pst_append p) ns) @ n @ 0 # []" by simp
    qed (rule assms(3))
    then show ?thesis using that [OF p'] by simp
  next
    case (Some off)
    have "string_at st off = Some n" using find_string_from_Some Some by (simp add: find_string_def)
    then have at: "string_at (st @ appended (pst_append p) ns) off = Some n" by (rule string_at_append)
    have "p' = \<lparr>pst_offsets = pst_offsets p @ [off], pst_append = pst_append p @ [False], pst_size = pst_size p\<rparr>"
      using assms(2) Some by (cases p) (auto simp: patch_strings_step_def)
    from that [OF this] at show ?thesis by simp
  qed
  have old: "string_at (st @ appended (pst_append p) ns @ x) (pst_offsets p ! i) = Some (ns ! i)" if "i < length ns" for i x
    using assms(1) that string_at_append [of "st @ appended (pst_append p) ns"] by (simp add: strings_ready_def)
  show ?thesis
    using assms(1) old at sz
    by (auto simp: strings_ready_def p' appended_snoc nth_append less_Suc_eq)
qed

lemma patch_names_no_nul: "\<forall>n \<in> set PATCH_NAMES. 0 \<notin> set n"
  by (simp add: PATCH_NAMES_def bytes_of_def)

lemma patch_strings_ready:
  assumes "patch_strings_new st = Inr p"
  shows "strings_ready st PATCH_NAMES p"
proof -
  have "strings_ready st (ms @ ns) p'"
    if "fold_io (patch_strings_step st) q ns = Inr p'" "strings_ready st ms q" "\<forall>n \<in> set ns. 0 \<notin> set n" for ms ns q p'
    using that
  proof (induction ns arbitrary: ms q)
    case (Cons n ns)
    then obtain q' where "patch_strings_step st q n = Inr q'" "fold_io (patch_strings_step st) q' ns = Inr p'" by auto
    then show ?case using Cons.IH [of q' "ms @ [n]"] patch_strings_step_ready [of st ms q n q'] Cons.prems by simp
  qed simp
  from this [where ms = "[]"] show ?thesis
    using assms patch_names_no_nul by (simp add: patch_strings_new_def strings_ready_def appended_def)
qed

definition patched_strings :: "patch_strings \<Rightarrow> bytes \<Rightarrow> bytes" where
  "patched_strings p st = st @ appended (pst_append p) PATCH_NAMES"

lemma patch_strings_at:
  assumes "patch_strings_new st = Inr p" and "i < 5"
  shows "string_at (patched_strings p st) (patch_offset p i) = Some (PATCH_NAMES ! i)"
  using patch_strings_ready [OF assms(1)] assms(2) by (simp add: strings_ready_def patched_strings_def patch_offset_def PATCH_NAMES_def)

lemma patch_strings_write_wrote:
  assumes "patch_strings_write p w st = Inr w'" and "writer_ok cap w"
  shows "emitted cap (patched_strings p st) w w'"
proof -
  obtain w1 where w1: "writer_write w st = Inr w1" and rest: "fold_io (\<lambda>w (append, name).
        if append then bind_io (fdt_q (writer_write w name)) (\<lambda>w. fdt_q (writer_write w [0])) else Inr w) w1
        (zip (pst_append p) PATCH_NAMES) = Inr w'"
    using assms(1) by (auto simp: patch_strings_write_def)
  have "emitted cap (concat (map (\<lambda>(a, n). if a then n @ [0] else []) zs)) u u'"
    if "fold_io (\<lambda>w (append, name).
        if append then bind_io (fdt_q (writer_write w name)) (\<lambda>w. fdt_q (writer_write w [0])) else Inr w) u zs = Inr u'"
      "writer_ok cap u" for zs u u'
    using that
  proof (induction zs arbitrary: u)
    case (Cons z zs)
    obtain a n where z: "z = (a, n)" by (cases z)
    show ?case
    proof (cases a)
      case True
      then obtain v v' where v: "writer_write u n = Inr v" "writer_write v [0] = Inr v'"
        "fold_io (\<lambda>w (append, name).
          if append then bind_io (fdt_q (writer_write w name)) (\<lambda>w. fdt_q (writer_write w [0])) else Inr w) v' zs = Inr u'"
        using Cons.prems(1) z by auto
      note a = writer_write_wrote [OF v(1) Cons.prems(2)]
      note b = writer_write_wrote [OF v(2) emitted_ok [OF a]]
      show ?thesis using emitted_trans [OF emitted_trans [OF a b] Cons.IH [OF v(3) emitted_ok [OF b]]] z True by simp
    qed (use Cons z in simp)
  qed simp
  from emitted_trans [OF writer_write_wrote [OF w1 assms(2)] this [OF rest]] show ?thesis
    using emitted_ok [OF writer_write_wrote [OF w1 assms(2)]] by (simp add: patched_strings_def appended_def)
qed

section \<open>The edit of the tree\<close>

definition tree_is_psci :: "node \<Rightarrow> bool" where
  "tree_is_psci n \<longleftrightarrow> list_ex (has_compatible n) [bytes_of ''arm,psci'', bytes_of ''arm,psci-0.2'', bytes_of ''arm,psci-1.0'']"

definition tree_domains :: "power_provider list \<Rightarrow> node \<Rightarrow> msm_error + bytes \<times> bytes" where
  "tree_domains providers n =
     (let names = get_prop n (bytes_of ''power-domain-names'') in
      case get_prop n (bytes_of ''power-domains'') of
        None \<Rightarrow> if names \<noteq> None then Inl MsmFdt else Inr ([], [])
      | Some domains \<Rightarrow>
          if length domains mod 4 \<noteq> 0 then Inl MsmFdt
          else filter_domains_loop providers domains names 0 0 [] [])"

definition tree_add_provider :: "node \<Rightarrow> bool \<Rightarrow> power_provider list \<Rightarrow> msm_error + power_provider list" where
  "tree_add_provider n psci out =
     (case get_prop n (bytes_of ''#power-domain-cells'') of
        None \<Rightarrow> Inr out
      | Some pcells \<Rightarrow>
          if length pcells \<noteq> 4 then Inl MsmFdt
          else
            (case tree_phandle n of
               Inl _ \<Rightarrow> Inr out
             | Inr phandle \<Rightarrow>
                 if phandle = 0 \<or> phandle = 0xffffffff \<or> length out = MAX_PROVIDERS \<or> phandle \<in> pw_phandle ` set out
                 then Inl MsmFdt
                 else
                   bind_io (fdt_q (pre_read_be32 pcells 0)) (\<lambda>c.
                   Inr (out @ [\<lparr>pw_phandle = phandle, pw_cells = unat c, pw_psci = psci\<rparr>]))))"

primrec tree_providers :: "nat \<Rightarrow> node \<Rightarrow> bool \<Rightarrow> power_provider list \<Rightarrow> msm_error + power_provider list" where
  "tree_providers 0 n parent_psci out = Inl MsmFdt"
| "tree_providers (Suc fuel) n parent_psci out =
     (let psci = parent_psci \<or> tree_is_psci n in
      bind_io (tree_add_provider n psci out) (\<lambda>out. fold_io (\<lambda>out c. tree_providers fuel c psci out) out (nchildren n)))"

definition cpu_props :: "pre_spin_table \<Rightarrow> power_provider list \<Rightarrow> node \<Rightarrow> msm_error + (bytes \<times> bytes) list" where
  "cpu_props t providers n =
     bind_io (tree_domains providers n) (\<lambda>(domains, names).
     bind_io (fdt_q (tree_u32 n PROP_REG)) (\<lambda>reg.
     Inr ((if domains = [] then []
           else (bytes_of ''power-domains'', domains) # (if names = [] then [] else [(bytes_of ''power-domain-names'', names)])) @
          [(bytes_of ''enable-method'', zstr ''spin-table''), (bytes_of ''cpu-release-addr'', to_be_bytes 8 (slot_addr t reg))])))"

fun msm_patch :: "pre_spin_table \<Rightarrow> power_provider list \<Rightarrow> nat \<Rightarrow> patch_context \<Rightarrow> node \<Rightarrow> msm_error + node" where
  "msm_patch t providers d ctx (Node name ps cs) =
     (let kind = node_kind d (pc_kind ctx) name;
          disable = pc_disable ctx \<or> tree_is_psci (Node name ps cs) \<or> kind = KindIdleState;
          here = \<lparr>pc_kind = kind, pc_disable = disable\<rparr> in
      if MAX_DEPTH \<le> d then Inl MsmFdt
      else
        bind_io (if kind = KindCpu then cpu_props t providers (Node name ps cs) else Inr []) (\<lambda>new.
        bind_io (map_io (msm_patch t providers (Suc d) here) cs) (\<lambda>cs'.
        Inr (Node name
              (new @ (if disable then [(PROP_STATUS, zstr ''disabled'')] else []) @
               filter (\<lambda>(k, _). \<not> should_skip_prop here k) ps)
              cs'))))"

declare msm_patch.simps [simp del]

definition msm_edit :: "pre_spin_table \<Rightarrow> node \<Rightarrow> msm_error + node" where
  "msm_edit t root =
     bind_io (tree_providers MAX_DEPTH root False []) (\<lambda>providers. msm_patch t providers 0 OTHER_CONTEXT root)"

lemma is_psci_view: "node_view r o' n \<Longrightarrow> is_psci_node r o' \<longleftrightarrow> tree_is_psci n"
  by (auto simp: is_psci_node_def tree_is_psci_def has_compatible_def view_accessors ok_or_def split: option.split)

lemma providers_view: "node_view r o' n \<Longrightarrow> visit_power fuel r o' psci out = tree_providers fuel n psci out"
proof (induction fuel arbitrary: o' n psci out)
  case (Suc fuel)
  have add: "add_provider r o' p out = tree_add_provider n p out" for p
    by (simp add: add_provider_def tree_add_provider_def view_accessors [OF Suc.prems] ok_or_def split: option.split)
  show ?case
    unfolding visit_power.simps tree_providers.simps is_psci_view [OF Suc.prems] Let_def add
    by (rule bind_io_cong [OF refl]) (rule each_subnode_children [OF Suc.prems Suc.IH])
qed simp

lemma power_domain_providers_view:
  "reader_tree r root \<Longrightarrow> pre_power_domain_providers r = Inr providers \<Longrightarrow> tree_providers MAX_DEPTH root False [] = Inr providers"
  using reader_root_view [of r root] providers_view [of r 0 root]
  by (auto simp: pre_power_domain_providers_def)

lemma domains_view: "node_view r o' n \<Longrightarrow> filtered_power_domains r o' providers = tree_domains providers n"
  by (auto simp: filtered_power_domains_def tree_domains_def view_accessors ok_or_def Let_def split: option.split)

section \<open>Copying the structure block\<close>

definition wrote_props :: "nat \<Rightarrow> bytes \<Rightarrow> (bytes \<times> bytes) list \<Rightarrow> fdt_writer \<Rightarrow> fdt_writer \<Rightarrow> bool" where
  "wrote_props cap st ps w w' \<longleftrightarrow> (\<exists>x. emitted cap x w w' \<and> props_bytes st ps x)"

lemma wrote_props_Nil: "writer_ok cap w \<Longrightarrow> wrote_props cap st [] w w"
  unfolding wrote_props_def using props_Nil emitted_Nil by blast

lemma wrote_props_trans:
  "wrote_props cap st ps w w1 \<Longrightarrow> wrote_props cap st qs w1 w2 \<Longrightarrow> wrote_props cap st (ps @ qs) w w2"
  unfolding wrote_props_def using emitted_trans props_bytes_join by blast

lemma wrote_props_ok: "wrote_props cap st ps w w' \<Longrightarrow> writer_ok cap w' \<and> (4 dvd w_pos w \<longrightarrow> 4 dvd w_pos w')"
  unfolding wrote_props_def using emitted_ok emitted_dvd4 props_bytes_dvd4 by blast

lemma pre_write_prop_props:
  assumes "pre_write_prop w off v = Inr w'" and "writer_ok cap w" and "4 dvd w_pos w" and "cap < 2 ^ 32"
    and "string_at st off = Some k"
  shows "wrote_props cap st [(k, v)] w w'"
proof -
  have w: "emitted cap (enc_event (EvProp off v)) w w'" by (rule pre_write_prop_wrote [OF assms(1-3)])
  have "length v < 2 ^ 32" using emitted_length [OF w] assms(4) by simp
  then have "props_bytes st [(k, v)] (enc_event (EvProp off v) @ [])"
    by (intro props_Cons [OF chunk_enc_event assms(5)] props_Nil) simp
  then show ?thesis unfolding wrote_props_def using w by (metis append_Nil2)
qed

lemma slice_at: "bytes_at sb c w \<Longrightarrow> slice sb c (c + length w) = w"
  by (auto simp: bytes_at_def intro: slice_exact)

text \<open>A copy in progress: the reader's blocks, the strings of the output and its capacity.\<close>

definition copying :: "pre_reader \<Rightarrow> bytes \<Rightarrow> bytes \<Rightarrow> patch_strings \<Rightarrow> bytes \<Rightarrow> nat \<Rightarrow> bool" where
  "copying r sb st ps out_st cap \<longleftrightarrow>
     reader_struct_block r = Inr sb \<and> reader_strings r = Inr st \<and> length sb + 8 < usize_limit \<and> cap < 2 ^ 32 \<and>
     (\<exists>suf. out_st = st @ suf) \<and> (\<forall>i < 5. string_at out_st (patch_offset ps i) = Some (PATCH_NAMES ! i))"

lemma copying_at:
  assumes "copying r sb st ps out_st cap"
  shows "length sb + 8 < usize_limit" and "cap < 2 ^ 32" and "string_at st off = Some k \<Longrightarrow> string_at out_st off = Some k"
    and "node_at sb st o' n \<Longrightarrow> node_view r o' n"
    and "string_at out_st (patch_offset ps NAME_ENABLE_METHOD) = Some (bytes_of ''enable-method'')"
    and "string_at out_st (patch_offset ps NAME_CPU_RELEASE_ADDR) = Some (bytes_of ''cpu-release-addr'')"
    and "string_at out_st (patch_offset ps NAME_STATUS) = Some PROP_STATUS"
    and "string_at out_st (patch_offset ps NAME_POWER_DOMAINS) = Some (bytes_of ''power-domains'')"
    and "string_at out_st (patch_offset ps NAME_POWER_DOMAIN_NAMES) = Some (bytes_of ''power-domain-names'')"
proof -
  have i: "string_at out_st (patch_offset ps i) = Some (PATCH_NAMES ! i)" if "i < 5" for i
    using assms that by (simp add: copying_def)
  show "string_at out_st (patch_offset ps NAME_ENABLE_METHOD) = Some (bytes_of ''enable-method'')"
    "string_at out_st (patch_offset ps NAME_CPU_RELEASE_ADDR) = Some (bytes_of ''cpu-release-addr'')"
    "string_at out_st (patch_offset ps NAME_STATUS) = Some PROP_STATUS"
    "string_at out_st (patch_offset ps NAME_POWER_DOMAINS) = Some (bytes_of ''power-domains'')"
    "string_at out_st (patch_offset ps NAME_POWER_DOMAIN_NAMES) = Some (bytes_of ''power-domain-names'')"
    using i [of 0] i [of 1] i [of 2] i [of 3] i [of 4]
    by (simp_all add: NAME_ENABLE_METHOD_def NAME_CPU_RELEASE_ADDR_def NAME_STATUS_def NAME_POWER_DOMAINS_def
        NAME_POWER_DOMAIN_NAMES_def PATCH_NAMES_def)
qed (use assms string_at_append in \<open>auto simp: copying_def node_view_def\<close>)

lemma write_cpu_props_wrote:
  assumes "copying r sb st ps out_st cap" and "node_view r o' n" and "write_cpu_props r ps t providers o' w = Inr w'"
    and "writer_ok cap w" and "4 dvd w_pos w"
  shows "\<exists>new. cpu_props t providers n = Inr new \<and> wrote_props cap out_st new w w'"
proof -
  note c = copying_at [OF assms(1)]
  obtain domains names w1 w2 reg where run: "tree_domains providers n = Inr (domains, names)"
      "(if domains = [] then Inr w
        else
          bind_io (fdt_q (pre_write_prop w (patch_offset ps NAME_POWER_DOMAINS) domains)) (\<lambda>w.
          if names = [] then Inr w else fdt_q (pre_write_prop w (patch_offset ps NAME_POWER_DOMAIN_NAMES) names))) = Inr w1"
      "pre_write_prop w1 (patch_offset ps NAME_ENABLE_METHOD) (zstr ''spin-table'') = Inr w2"
      "tree_u32 n PROP_REG = Inr reg"
      "pre_write_prop w2 (patch_offset ps NAME_CPU_RELEASE_ADDR) (to_be_bytes 8 (slot_addr t reg)) = Inr w'"
    using assms(3) by (auto simp: write_cpu_props_def domains_view [OF assms(2)] view_accessors [OF assms(2)])
  let ?ds = "if domains = [] then []
      else (bytes_of ''power-domains'', domains) # (if names = [] then [] else [(bytes_of ''power-domain-names'', names)])"
  have ds: "wrote_props cap out_st ?ds w w1"
  proof (cases "domains = []")
    case True
    then show ?thesis using run(2) wrote_props_Nil [OF assms(4)] by simp
  next
    case False
    then obtain u where u: "pre_write_prop w (patch_offset ps NAME_POWER_DOMAINS) domains = Inr u"
      "(if names = [] then Inr u else fdt_q (pre_write_prop u (patch_offset ps NAME_POWER_DOMAIN_NAMES) names)) = Inr w1"
      using run(2) by auto
    note a = pre_write_prop_props [OF u(1) assms(4,5) c(2) c(8)]
    show ?thesis
    proof (cases "names = []")
      case True
      then show ?thesis using a u(2) False by simp
    next
      case no: False
      then have "pre_write_prop u (patch_offset ps NAME_POWER_DOMAIN_NAMES) names = Inr w1" using u(2) by simp
      from wrote_props_trans [OF a pre_write_prop_props [OF this _ _ c(2) c(9)]] show ?thesis
        using wrote_props_ok [OF a] assms(5) no False by simp
    qed
  qed
  have ok1: "writer_ok cap w1" "4 dvd w_pos w1" using wrote_props_ok [OF ds] assms(5) by simp_all
  note e = pre_write_prop_props [OF run(3) ok1 c(2) c(5)]
  have ok2: "writer_ok cap w2" "4 dvd w_pos w2" using wrote_props_ok [OF e] ok1 by simp_all
  note f = pre_write_prop_props [OF run(5) ok2 c(2) c(6)]
  show ?thesis
    using run(1,4) wrote_props_trans [OF ds wrote_props_trans [OF e f]] by (simp add: cpu_props_def)
qed

text \<open>Each kind of token, where the walker stands on it.\<close>

definition stack_context :: "patch_context list \<Rightarrow> patch_context" where
  "stack_context stack = (case stack of [] \<Rightarrow> OTHER_CONTEXT | c # _ \<Rightarrow> c)"

lemma copy_chunk:
  assumes "bytes_at sb c (b @ w)" and "n = c + length b" and "writer_write w0 (slice sb c n) = Inr w1" and "writer_ok cap w0"
  shows "emitted cap b w0 w1"
proof -
  have "slice sb c n = b" using slice_at [of sb c b] assms(1,2) by (simp add: bytes_at_append)
  then show ?thesis using writer_write_wrote [OF assms(3,4)] by simp
qed

lemma patch_nop:
  assumes "copying r sb st ps out_st cap" and "bytes_at sb c (nop_bytes @ w)" and "4 dvd c"
    and "patch_structure r sb st ps t providers c stack w0 = Inr wz" and "writer_ok cap w0"
  shows "\<exists>w1. emitted cap nop_bytes w0 w1 \<and> patch_structure r sb st ps t providers (c + 4) stack w1 = Inr wz"
proof -
  note nop = nop_at [OF assms(2,3) copying_at(1) [OF assms(1)]]
  obtain w1 where "writer_write w0 (slice sb c (c + 4)) = Inr w1" "patch_structure r sb st ps t providers (c + 4) stack w1 = Inr wz"
    using assms(4) nop(1) by (subst (asm) patch_structure.simps) (auto simp: convert_def split: sum.splits)
  then show ?thesis using copy_chunk [OF assms(2) _ _ assms(5), of "c + 4"] by auto
qed

lemma patch_props:
  assumes "copying r sb st ps out_st cap"
  shows "props_bytes st qs u \<Longrightarrow> bytes_at sb c (u @ w) \<Longrightarrow> 4 dvd c \<Longrightarrow>
    patch_structure r sb st ps t providers c (ctx # up) w0 = Inr wz \<Longrightarrow> writer_ok cap w0 \<Longrightarrow>
    \<exists>w1. wrote_props cap out_st (filter (\<lambda>(k, _). \<not> should_skip_prop ctx k) qs) w0 w1 \<and>
         patch_structure r sb st ps t providers (c + length u) (ctx # up) w1 = Inr wz"
proof (induction arbitrary: c w0 rule: props_bytes.induct)
  case props_Nil
  then show ?case using wrote_props_Nil by auto
next
  case (props_Nop qs u)
  have at: "bytes_at sb (c + 4) (u @ w)" "4 dvd c + 4" using props_Nop.prems(1,2) by (simp_all add: bytes_at_append)
  obtain w1 where w1: "emitted cap nop_bytes w0 w1" "patch_structure r sb st ps t providers (c + 4) (ctx # up) w1 = Inr wz"
    using patch_nop [OF assms _ props_Nop.prems(2-4), of "u @ w"] props_Nop.prems(1) by auto
  obtain w2 where w2: "wrote_props cap out_st (filter (\<lambda>(k, _). \<not> should_skip_prop ctx k) qs) w1 w2"
      "patch_structure r sb st ps t providers (c + 4 + length u) (ctx # up) w2 = Inr wz"
    using props_Nop.IH [OF at w1(2) emitted_ok [OF w1(1)]] by auto
  have "wrote_props cap out_st ([] @ filter (\<lambda>(k, _). \<not> should_skip_prop ctx k) qs) w0 w2"
    by (rule wrote_props_trans [OF _ w2(1)])
      (use w1(1) tree_bytes_intros(2) [OF props_Nil] in \<open>auto simp: wrote_props_def\<close>)
  then show ?case using w2(2) by (auto simp: add.assoc)
next
  case (props_Cons b off v k qs u)
  note lim = copying_at(1) [OF assms]
  obtain parts where tok: "pre_next_token sb c = Inr (PreProp parts, c + length b)" and parts: "pp_nameoff parts = off"
      and at: "bytes_at sb (c + length b) (u @ w)" "4 dvd c + length b"
    using prop_at [of sb c b "u @ w" off v] props_Cons lim by (metis append_assoc)
  let ?f = "filter (\<lambda>(k, _). \<not> should_skip_prop ctx k)"
  obtain w1 where w1: "(if should_skip_prop ctx k then Inr w0 else writer_write w0 (slice sb c (c + length b))) = Inr w1"
      "patch_structure r sb st ps t providers (c + length b) (ctx # up) w1 = Inr wz"
    using props_Cons.prems(3) tok props_Cons(2) parts
    by (subst (asm) patch_structure.simps) (auto simp: pre_string_at_eq split: if_split_asm)
  have one: "wrote_props cap out_st (?f [(k, v)]) w0 w1"
  proof (cases "should_skip_prop ctx k")
    case True
    then show ?thesis using w1(1) wrote_props_Nil [OF props_Cons.prems(4)] by simp
  next
    case False
    then have "emitted cap b w0 w1"
      using copy_chunk [of sb c b "u @ w" "c + length b"] w1(1) props_Cons.prems(1,4) by simp
    moreover have "props_bytes out_st [(k, v)] (b @ [])"
      using props_Cons(1) copying_at(3) [OF assms props_Cons(2)] by (intro props_bytes.intros)
    ultimately show ?thesis using False by (auto simp: wrote_props_def)
  qed
  obtain w2 where w2: "wrote_props cap out_st (?f qs) w1 w2"
      "patch_structure r sb st ps t providers (c + length b + length u) (ctx # up) w2 = Inr wz"
    using props_Cons.IH [OF at w1(2)] wrote_props_ok [OF one] by auto
  have "?f ((k, v) # qs) = ?f [(k, v)] @ ?f qs" by simp
  then have "wrote_props cap out_st (?f ((k, v) # qs)) w0 w2" using wrote_props_trans [OF one w2(1)] by simp
  then show ?case using w2(2) by (intro exI [of _ w2]) (simp add: add.assoc)
qed

lemma convert_simps: "convert f (Inr x) = Inr x" "convert f (Inl e) = Inl (f e)"
  by (simp_all add: convert_def)

lemma patch_begin:
  assumes "pre_next_token sb c = Inr (PreBegin name, n)" and "is_psci_node r c = psci"
    and "patch_structure r sb st ps t providers c stack w0 = Inr wz"
    and "kind = node_kind (length stack) (pc_kind (stack_context stack)) name"
    and "disable = (pc_disable (stack_context stack) \<or> psci \<or> kind = KindIdleState)"
  shows "\<exists>wa wb wc. \<not> MAX_DEPTH \<le> length stack \<and> writer_write w0 (slice sb c n) = Inr wa \<and>
      (if kind = KindCpu then write_cpu_props r ps t providers c wa else Inr wa) = Inr wb \<and>
      (if disable then fdt_q (pre_write_prop wb (patch_offset ps NAME_STATUS) (zstr ''disabled'')) else Inr wb) = Inr wc \<and>
      patch_structure r sb st ps t providers n (\<lparr>pc_kind = kind, pc_disable = disable\<rparr> # stack) wc = Inr wz"
proof -
  have run: "(if MAX_DEPTH \<le> length stack then Inl MsmFdt
      else
        bind_io (fdt_q (bind_io (fdt_index_slice sb c n) (writer_write w0))) (\<lambda>w.
        bind_io (if kind = KindCpu then write_cpu_props r ps t providers c w else Inr w) (\<lambda>w.
        bind_io (if disable then fdt_q (pre_write_prop w (patch_offset ps NAME_STATUS) (zstr ''disabled'')) else Inr w) (\<lambda>w.
        patch_structure r sb st ps t providers n (\<lparr>pc_kind = kind, pc_disable = disable\<rparr> # stack) w)))) = Inr wz"
    using assms(3)
    unfolding patch_structure.simps [of r sb st ps t providers c stack w0] assms(1,2,4,5) stack_context_def convert_simps
      bind_io_simps prod.case pre_token.case Let_def .
  then have deep: "\<not> MAX_DEPTH \<le> length stack" by (simp split: if_split_asm)
  have copied: "s = slice sb c n" if "fdt_index_slice sb c n = Inr s" for s
    using that by (auto simp: fdt_index_slice_def split: if_split_asm)
  show ?thesis
    using run deep copied unfolding if_not_P [OF deep] bind_io_eq_Inr convert_Inr by blast
qed

lemma patch_nodes:
  assumes "copying r sb st ps out_st cap"
  shows "node_bytes st n w \<Longrightarrow> bytes_at sb c w \<Longrightarrow> 4 dvd c \<Longrightarrow>
      patch_structure r sb st ps t providers c stack w0 = Inr wz \<Longrightarrow> writer_ok cap w0 \<Longrightarrow> 4 dvd w_pos w0 \<Longrightarrow>
      \<exists>n' x w1. msm_patch t providers (length stack) (stack_context stack) n = Inr n' \<and> emitted cap x w0 w1 \<and>
        node_bytes out_st n' x \<and> patch_structure r sb st ps t providers (c + length w) stack w1 = Inr wz"
    and "nodes_bytes st cs w \<Longrightarrow> bytes_at sb c w \<Longrightarrow> 4 dvd c \<Longrightarrow>
      patch_structure r sb st ps t providers c stack w0 = Inr wz \<Longrightarrow> writer_ok cap w0 \<Longrightarrow> 4 dvd w_pos w0 \<Longrightarrow>
      \<exists>cs' x w1. map_io (msm_patch t providers (length stack) (stack_context stack)) cs = Inr cs' \<and> emitted cap x w0 w1 \<and>
        nodes_bytes out_st cs' x \<and> patch_structure r sb st ps t providers (c + length w) stack w1 = Inr wz"
proof (induction arbitrary: c stack w0 and c stack w0 rule: node_bytes_nodes_bytes.inducts)
  case (node_Node b name ps' u cs w)
  let ?n = "Node name ps' cs"
  let ?ctx = "stack_context stack"
  note lim = copying_at(1) [OF assms]
  have tok: "pre_next_token sb c = Inr (PreBegin name, c + length b)"
    and at: "bytes_at sb (c + length b) (u @ w @ end_node_bytes)" "4 dvd c + length b"
    using begin_at [OF _ node_Node(1), of sb c "u @ w @ end_node_bytes"] node_Node.prems lim by simp_all
  have at2: "bytes_at sb (c + length b + length u) w" "4 dvd c + length b + length u"
    and at3: "bytes_at sb (c + length b + length u + length w) (end_node_bytes @ [])"
      "4 dvd c + length b + length u + length w"
    using at props_bytes_dvd4 [OF node_Node(2)] node_bytes_dvd4(2) [OF node_Node(3)]
    by (simp_all add: bytes_at_append dvd_add)
  have "node_at sb st c ?n"
    using node_Node.prems(1,2) node_Node(1,2,3) unfolding node_at_def by (blast intro: node_bytes_nodes_bytes.intros)
  then have view: "node_view r c ?n" by (rule copying_at(4) [OF assms])
  define kind where "kind = node_kind (length stack) (pc_kind ?ctx) name"
  define disable where "disable = (pc_disable ?ctx \<or> tree_is_psci ?n \<or> kind = KindIdleState)"
  define here where "here = \<lparr>pc_kind = kind, pc_disable = disable\<rparr>"
  obtain wa wb wc where run: "\<not> MAX_DEPTH \<le> length stack" "writer_write w0 (slice sb c (c + length b)) = Inr wa"
      "(if kind = KindCpu then write_cpu_props r ps t providers c wa else Inr wa) = Inr wb"
      "(if disable then fdt_q (pre_write_prop wb (patch_offset ps NAME_STATUS) (zstr ''disabled'')) else Inr wb) = Inr wc"
      "patch_structure r sb st ps t providers (c + length b) (here # stack) wc = Inr wz"
    using patch_begin [OF tok is_psci_view [OF view] node_Node.prems(3) kind_def disable_def] unfolding here_def by blast
  have a: "emitted cap b w0 wa"
    using copy_chunk [of sb c b "u @ w @ end_node_bytes"] node_Node.prems(1,4) run(2) by simp
  have oka: "writer_ok cap wa" "4 dvd w_pos wa"
    using emitted_ok [OF a] emitted_dvd4 [OF a node_Node.prems(5) chunk_dvd4 [OF node_Node(1)]] by simp_all
  obtain new where new: "(if kind = KindCpu then cpu_props t providers ?n else Inr []) = Inr new" "wrote_props cap out_st new wa wb"
  proof (cases "kind = KindCpu")
    case True
    then have "write_cpu_props r ps t providers c wa = Inr wb" using run(3) by simp
    from write_cpu_props_wrote [OF assms view this oka] show ?thesis using that True by auto
  next
    case False
    then show ?thesis using that run(3) wrote_props_Nil [OF oka(1)] by simp
  qed
  have okb: "writer_ok cap wb" "4 dvd w_pos wb" using wrote_props_ok [OF new(2)] oka by simp_all
  have status: "wrote_props cap out_st (if disable then [(PROP_STATUS, zstr ''disabled'')] else []) wb wc"
    using run(4) wrote_props_Nil [OF okb(1)] pre_write_prop_props [OF _ okb copying_at(2,7) [OF assms]]
    by (auto split: if_split_asm)
  have okc: "writer_ok cap wc" "4 dvd w_pos wc" using wrote_props_ok [OF status] okb by simp_all
  obtain wd where kept: "wrote_props cap out_st (filter (\<lambda>(k, _). \<not> should_skip_prop here k) ps') wc wd"
      "patch_structure r sb st ps t providers (c + length b + length u) (here # stack) wd = Inr wz"
    using patch_props [OF assms node_Node(2) at run(5) okc(1)] by auto
  have okd: "writer_ok cap wd" "4 dvd w_pos wd" using wrote_props_ok [OF kept(1)] okc by simp_all
  obtain cs' y we where cs': "map_io (msm_patch t providers (Suc (length stack)) here) cs = Inr cs'" "emitted cap y wd we"
      "nodes_bytes out_st cs' y" "patch_structure r sb st ps t providers (c + length b + length u + length w) (here # stack) we = Inr wz"
    using node_Node.IH(3) [OF at2 kept(2) okd] by (auto simp: stack_context_def)
  note fin = end_node_at(1) [OF at3 lim]
  obtain wg where wg: "writer_write we (slice sb (c + length b + length u + length w) (c + length b + length u + length w + 4)) = Inr wg"
      "patch_structure r sb st ps t providers (c + length b + length u + length w + 4) stack wg = Inr wz"
    using cs'(4) fin by (subst (asm) patch_structure.simps) auto
  have g: "emitted cap end_node_bytes we wg" by (rule copy_chunk [OF at3(1) _ wg(1) emitted_ok [OF cs'(2)]]) simp
  let ?ps = "new @ (if disable then [(PROP_STATUS, zstr ''disabled'')] else []) @ filter (\<lambda>(k, _). \<not> should_skip_prop here k) ps'"
  obtain z where z: "emitted cap z wa wd" "props_bytes out_st ?ps z"
    using wrote_props_trans [OF new(2) wrote_props_trans [OF status kept(1)]] by (auto simp: wrote_props_def)
  have "emitted cap (b @ z @ y @ end_node_bytes) w0 wg"
    using emitted_trans [OF a emitted_trans [OF z(1) emitted_trans [OF cs'(2) g]]] by simp
  moreover have "node_bytes out_st (Node name ?ps cs') (b @ z @ y @ end_node_bytes)"
    by (rule node_bytes_nodes_bytes.intros(1) [OF node_Node(1) z(2) cs'(3)])
  moreover have "msm_patch t providers (length stack) ?ctx ?n = Inr (Node name ?ps cs')"
    using run(1) new(1) cs'(1) unfolding msm_patch.simps Let_def kind_def [symmetric] disable_def [symmetric] here_def [symmetric]
    by simp
  moreover have "patch_structure r sb st ps t providers (c + length (b @ u @ w @ end_node_bytes)) stack wg = Inr wz"
    using wg(2) by (simp add: add.assoc)
  ultimately show ?case by blast
next
  case nodes_Nil
  have "map_io (msm_patch t providers (length stack) (stack_context stack)) [] = Inr [] \<and> emitted cap [] w0 w0 \<and>
      nodes_bytes out_st [] [] \<and> patch_structure r sb st ps t providers (c + length []) stack w0 = Inr wz"
    using nodes_Nil by (simp add: node_bytes_nodes_bytes.intros)
  then show ?case by blast
next
  case (nodes_Nop cs w)
  have at: "bytes_at sb (c + 4) w" "4 dvd c + 4" using nodes_Nop.prems(1,2) by (simp_all add: bytes_at_append)
  obtain w1 where w1: "emitted cap nop_bytes w0 w1" "patch_structure r sb st ps t providers (c + 4) stack w1 = Inr wz"
    using patch_nop [OF assms nodes_Nop.prems(1-4)] by auto
  have "4 dvd w_pos w1" using emitted_dvd4 [OF w1(1) nodes_Nop.prems(5)] by simp
  then obtain cs' x w2 where "map_io (msm_patch t providers (length stack) (stack_context stack)) cs = Inr cs'" "emitted cap x w1 w2"
      "nodes_bytes out_st cs' x" "patch_structure r sb st ps t providers (c + 4 + length w) stack w2 = Inr wz"
    using nodes_Nop.IH(2) [OF at w1(2) emitted_ok [OF w1(1)]] by auto
  moreover from this have "nodes_bytes out_st cs' (nop_bytes @ x)" by (intro node_bytes_nodes_bytes.intros)
  ultimately show ?case using emitted_trans [OF w1(1)] by (auto simp: add.assoc)
next
  case (nodes_Cons n u cs w)
  have at: "bytes_at sb c u" "bytes_at sb (c + length u) w" "4 dvd c + length u"
    using nodes_Cons.prems node_bytes_dvd4(1) [OF nodes_Cons(1)] by (simp_all add: bytes_at_append dvd_add)
  obtain n' x w1 where one: "msm_patch t providers (length stack) (stack_context stack) n = Inr n'" "emitted cap x w0 w1"
      "node_bytes out_st n' x" "patch_structure r sb st ps t providers (c + length u) stack w1 = Inr wz"
    using nodes_Cons.IH(2) [OF at(1) nodes_Cons.prems(2-5)] by auto
  have "4 dvd w_pos w1" using emitted_dvd4 [OF one(2) nodes_Cons.prems(5)] node_bytes_dvd4(1) [OF one(3)] by simp
  then obtain cs' y w2 where "map_io (msm_patch t providers (length stack) (stack_context stack)) cs = Inr cs'" "emitted cap y w1 w2"
      "nodes_bytes out_st cs' y" "patch_structure r sb st ps t providers (c + length u + length w) stack w2 = Inr wz"
    using nodes_Cons.IH(4) [OF at(2,3) one(4) emitted_ok [OF one(2)]] by auto
  moreover from this have "nodes_bytes out_st (n' # cs') (x @ y)" using one(3) by (intro node_bytes_nodes_bytes.intros)
  ultimately show ?case using one(1) emitted_trans [OF one(2)] by (auto simp: add.assoc)
qed

section \<open>The edited tree is well formed\<close>

lemma if_Inl_Inr: "(if b then Inl e else x) = Inr y \<longleftrightarrow> \<not> b \<and> x = Inr y"
  by simp

lemma filter_domains_bound:
  "filter_domains_loop providers domains names off noff od on = Inr (d, m) \<Longrightarrow> length od \<le> DOMAINS_SIZE \<Longrightarrow> length on \<le> NAMES_SIZE \<Longrightarrow>
   length d \<le> DOMAINS_SIZE \<and> length m \<le> NAMES_SIZE"
proof (induction providers domains names off noff od on rule: filter_domains_loop.induct)
  case (1 providers domains names off noff od on)
  show ?case
  proof (cases "off < length domains")
    case False
    then show ?thesis using "1.prems" by (subst (asm) filter_domains_loop.simps) (auto split: if_split_asm)
  next
    case True
    obtain ph provider nb e ne od' on' where run: "fdt_q (pre_read_be32 domains off) = Inr ph"
        "ok_or MsmFdt (find (\<lambda>p. pw_phandle p = ph) providers) = Inr provider"
        "ok_or MsmFdt (Option.bind (checked_add_usize (pw_cells provider) 1) (\<lambda>c. checked_mul_usize c 4)) = Inr nb"
        "ok_or MsmFdt (checked_add_usize off nb) = Inr e" "\<not> length domains < e"
        "(case names of
            Some names \<Rightarrow> bind_io (fdt_q (pre_find_nul names noff)) (\<lambda>n. ok_or MsmFdt (checked_add_usize n 1))
          | None \<Rightarrow> Inr 0) = Inr ne"
        "(if pw_psci provider then Inr (od, on)
           else
             bind_io (ok_or MsmFdt (checked_add_usize (length od) nb)) (\<lambda>out_end.
             if DOMAINS_SIZE < out_end then Inl MsmFdt
             else
               (case names of
                  None \<Rightarrow> Inr (od @ slice domains off e, on)
                | Some names \<Rightarrow>
                    bind_io (ok_or MsmFdt (checked_add_usize (length on) (ne - noff))) (\<lambda>name_out_end.
                    if NAMES_SIZE < name_out_end then Inl MsmFdt
                    else Inr (od @ slice domains off e, on @ slice names noff ne))))) = Inr (od', on')"
        "filter_domains_loop providers domains names e ne od' on' = Inr (d, m)"
      using "1.prems"(1)
      unfolding filter_domains_loop.simps [of providers domains names off noff od on] if_P [OF True] bind_io_eq_Inr if_Inl_Inr
        split_paired_Ex prod.case by blast
    have e: "e = off + nb" "e \<le> length domains" using run(4,5) by auto
    have "length od' \<le> DOMAINS_SIZE \<and> length on' \<le> NAMES_SIZE"
      using run(7) "1.prems"(2,3) e
      by (auto simp: slice_def split: if_split_asm option.split_asm)
    then show ?thesis using "1.IH" [OF True run(1-4) run(5) run(6) run(7)] run(8) by auto
  qed
qed

lemma tree_domains_bound: "tree_domains providers n = Inr (d, m) \<Longrightarrow> length d \<le> 256 \<and> length m \<le> 512"
  using filter_domains_bound [of providers _ _ 0 0 "[]" "[]" d m]
  by (auto simp: tree_domains_def Let_def DOMAINS_SIZE_def NAMES_SIZE_def split: option.split_asm if_split_asm)

lemma cpu_props_keys:
  assumes "cpu_props t providers n = Inr new"
  shows "distinct (map fst new)" and "\<forall>(k, v) \<in> set new. 0 \<notin> set k \<and> length v < 2 ^ 32"
    and "fst ` set new \<subseteq> {bytes_of ''power-domains'', bytes_of ''power-domain-names'', bytes_of ''enable-method'', bytes_of ''cpu-release-addr''}"
proof -
  obtain d m reg where "tree_domains providers n = Inr (d, m)" and new: "new =
      (if d = [] then [] else (bytes_of ''power-domains'', d) # (if m = [] then [] else [(bytes_of ''power-domain-names'', m)])) @
      [(bytes_of ''enable-method'', zstr ''spin-table''), (bytes_of ''cpu-release-addr'', to_be_bytes 8 (slot_addr t reg))]"
    using assms by (auto simp: cpu_props_def)
  then have b: "length d \<le> 256" "length m \<le> 512" using tree_domains_bound by blast+
  show "distinct (map fst new)" by (simp add: new bytes_of_inject)
  show "\<forall>(k, v) \<in> set new. 0 \<notin> set k \<and> length v < 2 ^ 32" using b by (auto simp: new bytes_of_def)
  show "fst ` set new \<subseteq> {bytes_of ''power-domains'', bytes_of ''power-domain-names'', bytes_of ''enable-method'', bytes_of ''cpu-release-addr''}"
    by (auto simp: new)
qed

lemma map_fst_filter: "map fst (filter (\<lambda>(k, _). P k) ps) = filter P (map fst ps)"
  by (induction ps) auto

lemma msm_patch_wf:
  "node_wf e n \<Longrightarrow> msm_patch t providers d ctx n = Inr n' \<Longrightarrow> node_wf e n' \<and> nname n' = nname n"
proof (induction n arbitrary: e d ctx n')
  case (Node name ps cs)
  define kind where "kind = node_kind d (pc_kind ctx) name"
  define disable where "disable = (pc_disable ctx \<or> tree_is_psci (Node name ps cs) \<or> kind = KindIdleState)"
  define here where "here = \<lparr>pc_kind = kind, pc_disable = disable\<rparr>"
  obtain new cs' where new: "(if kind = KindCpu then cpu_props t providers (Node name ps cs) else Inr []) = Inr new"
      and cs': "map_io (msm_patch t providers (Suc d) here) cs = Inr cs'"
      and n': "n' = Node name
              (new @ (if disable then [(PROP_STATUS, zstr ''disabled'')] else []) @
               filter (\<lambda>(k, _). \<not> should_skip_prop here k) ps)
              cs'"
    using Node.prems(2) unfolding msm_patch.simps Let_def kind_def [symmetric] disable_def [symmetric] here_def [symmetric]
    by (auto split: if_split_asm)
  have each: "list_all2 (\<lambda>c c'. msm_patch t providers (Suc d) here c = Inr c') cs cs'"
    using cs' by (induction cs arbitrary: cs') auto
  have kids: "list_all2 (\<lambda>c c'. node_wf (Suc e) c' \<and> nname c' = nname c) cs cs'"
  proof (rule list.rel_mono_strong [OF each])
    fix c c' assume c: "c \<in> set cs" "msm_patch t providers (Suc d) here c = Inr c'"
    have "node_wf (Suc e) c" using Node.prems(1) c(1) by simp
    then show "node_wf (Suc e) c' \<and> nname c' = nname c" by (rule Node.IH [OF c(1) _ c(2)])
  qed
  then have names: "map nname cs' = map nname cs" by (induction rule: list_all2_induct) auto
  have newk: "distinct (map fst new)" "\<forall>(k, v) \<in> set new. 0 \<notin> set k \<and> length v < 2 ^ 32"
      "fst ` set new \<subseteq> {k. should_skip_prop here k} - {PROP_STATUS}"
    using new cpu_props_keys [of t providers "Node name ps cs" new]
    by (auto simp: should_skip_prop_def here_def bytes_of_inject split: if_split_asm)
  let ?ps = "new @ (if disable then [(PROP_STATUS, zstr ''disabled'')] else []) @ filter (\<lambda>(k, _). \<not> should_skip_prop here k) ps"
  have "distinct (map fst ?ps)"
    using newk(1,3) Node.prems(1) by (auto simp: map_fst_filter should_skip_prop_def here_def)
  moreover have "\<forall>(k, v) \<in> set ?ps. 0 \<notin> set k \<and> length v < 2 ^ 32"
    using newk(2) Node.prems(1) by (auto simp: bytes_of_def)
  moreover have "\<forall>c \<in> set cs'. node_wf (Suc e) c" using kids by (auto simp: list_all2_conv_all_nth in_set_conv_nth)
  ultimately show ?case using Node.prems(1) names unfolding n' by simp
qed

end
