(* ===== verification/MsmBlob.thy ===== *)
theory MsmBlob
  imports MsmRefine
begin

text \<open>
  The blob that \<open>patch_fdt\<close> writes: header, reserve map, structure and strings are laid out as the
  kexec loader's \<open>build_dtb\<close> lays them out, so the loader parses it to the edited tree.
\<close>

section \<open>The header\<close>

lemma pre_write_be32_at_eq: "write_be32_at out off v = Inr out' \<Longrightarrow> pre_write_be32_at out off v = Inr out'"
  by simp

lemma write_words:
  assumes "4 * (length ws + length vs) + length rest < usize_limit"
  shows "fold_io (\<lambda>out (i, v). pre_write_be32_at out (4 * i) v) (enc_words ws @ replicate (4 * length vs) 0 @ rest)
      (enumerate (length ws) vs) = Inr (enc_words (ws @ vs) @ rest)"
  using assms
proof (induction vs arbitrary: ws)
  case (Cons v vs)
  have "write_be32_at (enc_words ws @ replicate (4 * length (v # vs)) 0 @ rest) (4 * length ws) v =
      Inr (enc_words (ws @ [v]) @ replicate (4 * (length (v # vs) - 1)) 0 @ rest)"
    by (rule write_next_word [where n = "length ws + length (v # vs)"]) (use Cons.prems in simp_all)
  from pre_write_be32_at_eq [OF this]
  have "pre_write_be32_at (enc_words ws @ replicate (4 * length (v # vs)) 0 @ rest) (4 * length ws) v =
      Inr (enc_words (ws @ [v]) @ replicate (4 * length vs) 0 @ rest)" by simp
  then show ?case using Cons.IH [of "ws @ [v]"] Cons.prems by simp
qed simp

lemma pre_write_header_words:
  assumes "pre_write_header w h tot os ost ss sst = Inr w'"
  shows "tot < 2 ^ 32 \<and> os < 2 ^ 32 \<and> ost < 2 ^ 32 \<and> ss < 2 ^ 32 \<and> sst < 2 ^ 32 \<and> w_pos w' = w_pos w \<and>
    fold_io (\<lambda>out (i, v). pre_write_be32_at out (4 * i) v) (w_output w)
      (enumerate 0 [FDT_MAGIC, of_nat tot, of_nat os, of_nat ost, 40, version h, last_comp_version h, boot_cpuid_phys h,
        of_nat sst, of_nat ss]) = Inr (w_output w')"
proof -
  obtain b0 b1 b2 b3 b4 b5 b6 b7 b8 b9 where small: "tot < 2 ^ 32" "os < 2 ^ 32" "ost < 2 ^ 32" "ss < 2 ^ 32" "sst < 2 ^ 32"
    and steps: "pre_write_be32_at (w_output w) 0 FDT_MAGIC = Inr b0" "pre_write_be32_at b0 4 (of_nat tot) = Inr b1"
      "pre_write_be32_at b1 8 (of_nat os) = Inr b2" "pre_write_be32_at b2 12 (of_nat ost) = Inr b3"
      "pre_write_be32_at b3 16 40 = Inr b4" "pre_write_be32_at b4 20 (version h) = Inr b5"
      "pre_write_be32_at b5 24 (last_comp_version h) = Inr b6" "pre_write_be32_at b6 28 (boot_cpuid_phys h) = Inr b7"
      "pre_write_be32_at b7 32 (of_nat sst) = Inr b8" "pre_write_be32_at b8 36 (of_nat ss) = Inr b9"
    and w': "w' = w\<lparr>w_output := b9\<rparr>"
  proof -
    have "of_nat HEADER_SIZE = (40 :: u32)" by (simp add: HEADER_SIZE_def)
    then show ?thesis
      using assms that unfolding pre_write_header_def bind_io_eq_Inr u32_len_Inr by (auto simp del: pre_write_be32_at_Inr)
  qed
  show ?thesis
    using small by (simp add: steps w' del: pre_write_be32_at_Inr)
qed

section \<open>The structure block\<close>

lemma patch_leading_nops:
  assumes "copying r sb st ps out_st cap"
  shows "nops u \<Longrightarrow> bytes_at sb c (u @ w) \<Longrightarrow> 4 dvd c \<Longrightarrow> patch_structure r sb st ps t providers c stack w0 = Inr wz \<Longrightarrow>
    writer_ok cap w0 \<Longrightarrow> \<exists>w1. emitted cap u w0 w1 \<and> patch_structure r sb st ps t providers (c + length u) stack w1 = Inr wz"
proof (induction arbitrary: c w0 rule: nops.induct)
  case nops_Nil
  then show ?case by (intro exI [of _ w0]) simp
next
  case (nops_Cons u)
  have at: "bytes_at sb (c + 4) (u @ w)" "4 dvd c + 4" using nops_Cons.prems(1,2) by (simp_all add: bytes_at_append)
  obtain w1 where w1: "emitted cap nop_bytes w0 w1" "patch_structure r sb st ps t providers (c + 4) stack w1 = Inr wz"
    using patch_nop [OF assms _ nops_Cons.prems(2-4), of "u @ w"] nops_Cons.prems(1) by auto
  obtain w2 where "emitted cap u w1 w2" "patch_structure r sb st ps t providers (c + 4 + length u) stack w2 = Inr wz"
    using nops_Cons.IH [OF at w1(2) emitted_ok [OF w1(1)]] by auto
  then show ?case using emitted_trans [OF w1(1)] by (auto simp: add.assoc)
qed

lemma patch_block:
  assumes "copying r sb st ps out_st cap" and "bytes_at sb 0 (u @ x @ v @ end_bytes)" and "nops u" and "node_bytes st root x"
    and "nops v" and "node_wf 0 root" and "nname root = []"
    and "patch_structure r sb st ps t providers 0 [] w0 = Inr wz" and "writer_ok cap w0" and "4 dvd w_pos w0"
  shows "\<exists>root' sb'. msm_patch t providers 0 OTHER_CONTEXT root = Inr root' \<and> emitted cap sb' w0 wz \<and> tree_block out_st root' sb'"
proof -
  have al: "4 dvd length u" "4 dvd length u + length x" "4 dvd length u + length x + length v"
    using nops_dvd4 assms(3,5) node_bytes_dvd4(1) [OF assms(4)] by (simp_all add: dvd_add)
  have pos: "bytes_at sb (length u) x" "bytes_at sb (length u + length x) (v @ end_bytes)"
    "bytes_at sb (length u + length x + length v) end_bytes"
    using assms(2) by (simp_all add: bytes_at_append add.assoc)
  obtain w1 where w1: "emitted cap u w0 w1" "patch_structure r sb st ps t providers (length u) [] w1 = Inr wz"
    using patch_leading_nops [OF assms(1,3,2) _ assms(8,9)] by auto
  have ok1: "writer_ok cap w1" "4 dvd w_pos w1" using emitted_ok [OF w1(1)] emitted_dvd4 [OF w1(1) assms(10) al(1)] by simp_all
  obtain root' y w2 where w2: "msm_patch t providers 0 OTHER_CONTEXT root = Inr root'" "emitted cap y w1 w2"
      "node_bytes out_st root' y" "patch_structure r sb st ps t providers (length u + length x) [] w2 = Inr wz"
    using patch_nodes(1) [OF assms(1,4) pos(1) al(1) w1(2) ok1] by (auto simp: stack_context_def)
  obtain w3 where w3: "emitted cap v w2 w3" "patch_structure r sb st ps t providers (length u + length x + length v) [] w3 = Inr wz"
    using patch_leading_nops [OF assms(1,5) pos(2) al(2) w2(4) emitted_ok [OF w2(2)]] by auto
  have "writer_write w3 (slice sb (length u + length x + length v) (length u + length x + length v + 4)) = Inr wz"
    using w3(2) end_at [OF pos(3) al(3) copying_at(1) [OF assms(1)]] by (subst (asm) patch_structure.simps) simp
  from copy_chunk [of sb "length u + length x + length v" end_bytes "[]", OF _ _ this emitted_ok [OF w3(1)]]
  have w4: "emitted cap end_bytes w3 wz" using pos(3) by simp
  have "emitted cap (u @ y @ v @ end_bytes) w0 wz"
    using emitted_trans [OF w1(1) emitted_trans [OF w2(2) emitted_trans [OF w3(1) w4]]] by simp
  moreover have "tree_block out_st root' (u @ y @ v @ end_bytes)"
    using msm_patch_wf [OF assms(6) w2(1)] assms(3,5,7) w2(3) unfolding tree_block_def by (metis append_Nil2)
  ultimately show ?thesis using w2(1) by blast
qed

section \<open>The whole blob\<close>

theorem patch_fdt_builds:
  assumes "reader_tree r root" and "patch_fdt r out0 t = Inr patched" and "length out0 < 2 ^ 32"
  shows "\<exists>root' rm sb st. msm_edit t root = Inr root' \<and> reader_reserve_map r = Inr rm \<and>
    tree_block st root' sb \<and> build_dtb (rd_header r) rm sb st = Inr patched"
proof -
  obtain sb st u x v where r: "reader_struct_block r = Inr sb" "reader_strings r = Inr st" "length sb + 8 < usize_limit"
      and at: "bytes_at sb 0 (u @ x @ v @ end_bytes)" "nops u" "node_bytes st root x" "nops v"
      and root: "node_wf 0 root" "nname root = []"
    using reader_treeE [OF assms(1)] .
  obtain rm ps providers wa wb wc wd we wf' where rm: "reader_reserve_map r = Inr rm"
      and ps: "patch_strings_new st = Inr ps" and pv: "pre_power_domain_providers r = Inr providers"
      and a: "writer_write_zeros (writer_new out0) 40 = Inr wa" and b: "writer_write wa rm = Inr wb"
      and c: "writer_pad_to wb 4 = Inr wc" and d: "patch_structure r sb st ps t providers 0 [] wc = Inr wd"
      and e: "patch_strings_write ps wd st = Inr we"
      and f: "pre_write_header we (rd_header r) (w_pos we) (w_pos wc) (w_pos wd) (w_pos wd - w_pos wc) (w_pos we - w_pos wd) = Inr wf'"
      and fin: "patched = writer_finish wf'"
    using assms(2) r(1,2) by (auto simp: patch_fdt_def writer_reserve_def Let_def split: if_split_asm)
  define cap where "cap = length out0"
  define out_st where "out_st = patched_strings ps st"
  have cp: "copying r sb st ps out_st cap"
    using r assms(3) patch_strings_at [OF ps] by (auto simp: copying_def cap_def out_st_def patched_strings_def)
  have ok0: "writer_ok cap (writer_new out0)" "written (writer_new out0) = []" "w_pos (writer_new out0) = 0"
    by (simp_all add: writer_ok_def writer_new_def cap_def written_def)
  note wa = writer_zeros_wrote [OF a ok0(1)]
  note wb = writer_write_wrote [OF b emitted_ok [OF wa]]
  have posb: "w_pos wb = 40 + length rm" using wa wb ok0(3) by (simp add: emitted_def)
  have wc: "emitted cap (padding4 (length rm)) wb wc"
    using writer_pad_wrote [OF c emitted_ok [OF wb]] padding_after [of 40 "length rm"] unfolding posb by simp
  have posc: "w_pos wc = 40 + length rm + length (padding4 (length rm))" using posb wc by (simp add: emitted_def)
  then have alc: "4 dvd w_pos wc"
    using round_up4_minus [of "length rm"] by (simp add: add.assoc)
  obtain root' sb' where new: "msm_patch t providers 0 OTHER_CONTEXT root = Inr root'" "emitted cap sb' wc wd" "tree_block out_st root' sb'"
    using patch_block [OF cp at(1-4) root d emitted_ok [OF wc] alc] by blast
  have we: "emitted cap out_st wd we"
    unfolding out_st_def by (rule patch_strings_write_wrote [OF e emitted_ok [OF new(2)]])
  have all: "emitted cap (replicate 40 0 @ rm @ padding4 (length rm) @ sb' @ out_st) (writer_new out0) we"
    by (rule emitted_trans [OF wa emitted_trans [OF wb emitted_trans [OF wc emitted_trans [OF new(2) we]]]])
  let ?h = "built_header (rd_header r) rm sb' out_st"
  let ?rest = "rm @ padding4 (length rm) @ sb' @ out_st"
  have off: "40 + length rm + length (padding4 (length rm)) = (40 + length rm + 3) div 4 * 4"
    using round_up4_minus [of "length rm"] round_up4_add [of 40 "length rm"] by simp
  have h: "w_pos we = totalsize ?h" "w_pos wc = off_dt_struct ?h" "w_pos wd = off_dt_strings ?h"
      "w_pos wd - w_pos wc = size_dt_struct ?h" "w_pos we - w_pos wd = size_dt_strings ?h"
  proof -
    have p: "w_pos wc = (40 + length rm + 3) div 4 * 4" using posc off by (simp only:)
    have q: "w_pos wd = w_pos wc + length sb'" "w_pos we = w_pos wd + length out_st"
      using new(2) we by (simp_all only: emitted_def)
    show "w_pos we = totalsize ?h" "w_pos wc = off_dt_struct ?h" "w_pos wd = off_dt_strings ?h"
      "w_pos wd - w_pos wc = size_dt_struct ?h" "w_pos we - w_pos wd = size_dt_strings ?h"
      using p unfolding q by (simp_all add: built_header_def Let_def)
  qed
  have out: "w_output we = enc_words [] @ replicate 40 0 @ (?rest @ drop (w_pos we) (w_output we))"
  proof -
    have wr: "written we = replicate 40 0 @ ?rest" using all ok0(2) by (simp only: emitted_def append_Nil)
    have "w_output we = written we @ drop (w_pos we) (w_output we)"
      unfolding written_def by (rule append_take_drop_id [symmetric])
    then show ?thesis unfolding wr by (simp only: enc_words_simps append_Nil append_assoc)
  qed
  have lim: "40 + length (?rest @ drop (w_pos we) (w_output we)) = cap"
  proof -
    have "length (w_output we) = cap" using all by (simp add: emitted_def writer_ok_def)
    then show ?thesis by (subst (asm) out) simp
  qed
  note hdr = pre_write_header_words [OF f]
  have words: "[FDT_MAGIC, of_nat (w_pos we), of_nat (w_pos wc), of_nat (w_pos wd), 40, version (rd_header r),
      last_comp_version (rd_header r), boot_cpuid_phys (rd_header r), of_nat (w_pos we - w_pos wd), of_nat (w_pos wd - w_pos wc)] =
      header_words ?h"
    unfolding h by (simp add: header_words_def built_header_def Let_def)
  have "fold_io (\<lambda>out (i, v). pre_write_be32_at out (4 * i) v) (w_output we) (enumerate 0 (header_words ?h)) =
      Inr (enc_words (header_words ?h) @ ?rest @ drop (w_pos we) (w_output we))"
    using write_words [of "[]" "header_words ?h" "?rest @ drop (w_pos we) (w_output we)"] lim assms(3)
    by (subst out) (simp add: cap_def usize_limit_def)
  then have wout: "w_output wf' = enc_words (header_words ?h) @ ?rest @ drop (w_pos we) (w_output we)"
    using hdr unfolding words by simp
  have "w_pos wf' = length (enc_words (header_words ?h) @ ?rest)"
    using hdr h(1) length_built [of "rd_header r" rm sb' out_st] by simp
  then have "patched = enc_words (header_words ?h) @ ?rest"
    unfolding fin writer_finish_def wout by simp
  moreover have "totalsize ?h < 2 ^ 32" using hdr h(1) by simp
  ultimately have "build_dtb (rd_header r) rm sb' out_st = Inr patched" by (simp add: build_dtb_Inr)
  moreover have "msm_edit t root = Inr root'"
    using power_domain_providers_view [OF assms(1) pv] new(1) by (simp add: msm_edit_def)
  ultimately show ?thesis using rm new(3) by blast
qed

section \<open>Both parsers on one blob\<close>

lemma pre_header_same:
  assumes "pre_header_parse data = Inr h"
  shows "fdt_header_parse data = Inr h"
proof -
  have rd: "read_be32 data off = Inr v" if "pre_read_be32 data off = Inr v" for off v using that by simp
  obtain m tot os ost rsv ver last cpu ss sst where
      reads: "pre_read_be32 data 0 = Inr m" "pre_read_be32 data 4 = Inr tot" "pre_read_be32 data 8 = Inr os"
        "pre_read_be32 data 12 = Inr ost" "pre_read_be32 data 16 = Inr rsv" "pre_read_be32 data 20 = Inr ver"
        "pre_read_be32 data 24 = Inr last" "pre_read_be32 data 28 = Inr cpu" "pre_read_be32 data 32 = Inr ss"
        "pre_read_be32 data 36 = Inr sst"
      and chk: "\<not> length data < HEADER_SIZE" "m = FDT_MAGIC" "\<not> (totalsize h < HEADER_SIZE \<or> length data < totalsize h)"
        "off_dt_struct h + size_dt_struct h < usize_limit" "off_dt_struct h + size_dt_struct h \<le> totalsize h"
        "off_dt_strings h + size_dt_strings h < usize_limit" "off_dt_strings h + size_dt_strings h \<le> totalsize h"
        "\<not> totalsize h \<le> off_mem_rsvmap h"
      and h: "h = \<lparr>totalsize = unat tot, off_dt_struct = unat os, off_dt_strings = unat ost,
            off_mem_rsvmap = unat rsv, version = ver, last_comp_version = last, boot_cpuid_phys = cpu,
            size_dt_strings = unat ss, size_dt_struct = unat sst\<rparr>"
    using assms unfolding pre_header_parse_def Let_def if_Inl_Inr bind_io_eq_Inr
    by (auto simp del: pre_read_be32_Inr)
  have sl: "fdt_checked_slice (take (totalsize h) data) a n msg = Inr (slice (take (totalsize h) data) a (a + n))"
    if "a + n < usize_limit" "a + n \<le> totalsize h" for a n msg
    using that chk(3) by simp
  show ?thesis
    using chk reads [THEN rd] sl [OF chk(4,5)] sl [OF chk(6,7)] unfolding fdt_header_parse_def Let_def
    by (simp add: HEADER_SIZE_def h del: read_be32_Inr fdt_checked_slice_Inr)
qed

lemma pre_reserve_same:
  "pre_reserve_loop data start c = Inr rm \<Longrightarrow> start \<le> c \<Longrightarrow>
   reserve_map_loop data (length data) c (slice data start c) = Inr rm"
proof (induction data start c rule: pre_reserve_loop.induct)
  case (1 data start c)
  let ?e = "slice data c (c + 16)"
  have ok: "c + 16 < usize_limit" "c + 16 \<le> length data"
    using "1.prems"(1) by (subst (asm) pre_reserve_loop.simps, auto)+
  have acc: "slice data start c @ ?e = slice data start (c + 16)" using slice_split [of start c "c + 16" data] "1.prems"(2) by simp
  have run: "(if (from_be_bytes (slice ?e 0 8) :: u64) = 0 \<and> (from_be_bytes (slice ?e 8 16) :: u64) = 0
     then pre_checked_slice data start (c + 16 - start) else pre_reserve_loop data start (c + 16)) = Inr rm"
    using "1.prems"(1) ok by (subst (asm) pre_reserve_loop.simps) (simp add: checked_add_usize_def pre_checked_slice_def)
  show ?case
  proof (cases "(from_be_bytes (slice ?e 0 8) :: u64) = 0 \<and> (from_be_bytes (slice ?e 8 16) :: u64) = 0")
    case True
    then have "rm = slice data start (c + 16)" using run "1.prems"(2) by simp
    then show ?thesis using ok acc True by (subst reserve_map_loop.simps) (simp add: Let_def)
  next
    case False
    then have "reserve_map_loop data (length data) (c + 16) (slice data start (c + 16)) = Inr rm"
      using "1.IH" [of ?e "c + 16"] run ok "1.prems"(2) by (auto simp: checked_add_usize_def)
    then show ?thesis using ok acc False by (subst reserve_map_loop.simps) (auto simp: Let_def)
  qed
qed

lemma reserve_map_loop_take:
  "tot \<le> length dtb \<Longrightarrow> reserve_map_loop (take tot dtb) tot c acc = reserve_map_loop dtb tot c acc"
proof (induction dtb tot c acc rule: reserve_map_loop.induct)
  case (1 dtb tot c acc)
  have "slice (take tot dtb) c (c + 16) = slice dtb c (c + 16)" if "c + 16 \<le> tot"
    using slice_append_left [of "c + 16" "take tot dtb" "drop tot dtb" c] that "1.prems" by simp
  then show ?case
    using "1.IH" "1.prems" by (subst (1 2) reserve_map_loop.simps) (auto simp: Let_def)
qed

lemma slice_take: "b \<le> n \<Longrightarrow> slice (take n xs) a b = slice xs a b"
  by (simp add: slice_def drop_take min_def)

lemma reader_of_contract_tree:
  assumes "reader_new addr dtb = Inr r" and "contract_tree dtb = Inr root"
  shows "reader_tree r root" and "fdt_header_parse dtb = Inr (rd_header r)"
    and "reader_reserve_map r = Inr rm \<Longrightarrow> reserve_map dtb (rd_header r) = Inr rm"
proof -
  obtain h where h: "pre_header_parse dtb = Inr h" "r = \<lparr>rd_addr = addr, rd_data = take (totalsize h) dtb, rd_header = h\<rparr>"
    using assms(1) by (auto simp: reader_new_def)
  note kh = pre_header_same [OF h(1)]
  note b = fdt_header_parse_bounds [OF kh]
  show "fdt_header_parse dtb = Inr (rd_header r)" using kh h(2) by simp
  obtain h' sb st where k: "fdt_header_parse dtb = Inr h'"
      "\<And>m. fdt_checked_slice dtb (off_dt_struct h') (size_dt_struct h') m = Inr sb"
      "\<And>m. fdt_checked_slice dtb (off_dt_strings h') (size_dt_strings h') m = Inr st"
      "tree_block st root sb" "length sb < 2 ^ 32"
    using contract_tree_block [OF assms(2)] by metis
  have h': "h' = h" using k(1) kh by simp
  have "reader_struct_block r = Inr sb" "reader_strings r = Inr st"
    using k(2,3) b(1,4,5,6) unfolding h' by (auto simp: reader_struct_block_def reader_strings_def h(2) slice_take)
  then show "reader_tree r root" using k(4,5) by (auto simp: reader_tree_def usize_limit_def)
  assume "reader_reserve_map r = Inr rm"
  then have "reserve_map_loop (take (totalsize h) dtb) (totalsize h) (off_mem_rsvmap h) [] = Inr rm"
    using pre_reserve_same [of "take (totalsize h) dtb" "off_mem_rsvmap h" "off_mem_rsvmap h" rm] b(1)
    by (simp add: reader_reserve_map_def h(2) slice_def)
  then show "reserve_map dtb (rd_header r) = Inr rm"
    using reserve_map_loop_take [OF b(1)] by (simp add: reserve_map_def h(2))
qed

theorem patched_contract_tree:
  assumes "reader_new addr dtb = Inr r" and "contract_tree dtb = Inr root" and "patch_fdt r out0 t = Inr patched"
    and "length out0 < 2 ^ 32"
  shows "\<exists>root' rm h. msm_edit t root = Inr root' \<and> contract_tree patched = Inr root' \<and>
    reserve_map dtb (rd_header r) = Inr rm \<and> fdt_header_parse patched = Inr h \<and> reserve_map patched h = Inr rm"
proof -
  note o' = reader_of_contract_tree [OF assms(1,2)]
  obtain root' rm sb st where p: "msm_edit t root = Inr root'" "reader_reserve_map r = Inr rm"
      "tree_block st root' sb" "build_dtb (rd_header r) rm sb st = Inr patched"
    using patch_fdt_builds [OF o'(1) assms(3,4)] by blast
  note rm = o'(3) [OF p(2)]
  note keep = build_dtb_keeps_reserve_map [OF o'(2) rm p(4)]
  show ?thesis using p(1) rm keep(1) contract_tree_of_block [OF p(4) keep(2) p(3)] by blast
qed

end
