(* ===== verification/MsmContract.thy ===== *)
theory MsmContract
  imports MsmBlob
begin

text \<open>
  The two ends of the spin-table contract. The preboot stage parks the CPUs and edits the firmware's
  tree; the kexec loader of the running system later reads the tree back with \<open>spin_table_contract\<close>
  before it boots another kernel. Where the loader finds a contract in the edited tree, it is that of
  the same page; on a tree that uses the bindings in their usual form, it does find it.
\<close>

section \<open>Edited nodes\<close>

lemma map_of_filter_keys: "map_of (filter (\<lambda>(k, _). P k) ps) k = (if P k then map_of ps k else None)"
  by (induction ps) auto

lemma msm_patch_shape:
  assumes "msm_patch t providers d ctx n = Inr n'" and "kind = node_kind d (pc_kind ctx) (nname n)"
    and "disable = (pc_disable ctx \<or> tree_is_psci n \<or> kind = KindIdleState)"
  shows "nname n' = nname n \<and> d < 32 \<and>
    (\<exists>new. (if kind = KindCpu then cpu_props t providers n else Inr []) = Inr new \<and>
      nprops n' = new @ (if disable then [(PROP_STATUS, zstr ''disabled'')] else []) @
        filter (\<lambda>(k, _). \<not> should_skip_prop \<lparr>pc_kind = kind, pc_disable = disable\<rparr> k) (nprops n)) \<and>
    list_all2 (\<lambda>c c'. msm_patch t providers (Suc d) \<lparr>pc_kind = kind, pc_disable = disable\<rparr> c = Inr c' \<and> nname c' = nname c)
      (nchildren n) (nchildren n')"
proof -
  obtain name ps cs where n: "n = Node name ps cs" by (cases n)
  have k: "kind = node_kind d (pc_kind ctx) name" using assms(2) n by simp
  obtain new cs' where new: "(if kind = KindCpu then cpu_props t providers n else Inr []) = Inr new"
      and cs': "map_io (msm_patch t providers (Suc d) \<lparr>pc_kind = kind, pc_disable = disable\<rparr>) cs = Inr cs'"
      and n': "n' = Node name
              (new @ (if disable then [(PROP_STATUS, zstr ''disabled'')] else []) @
               filter (\<lambda>(k, _). \<not> should_skip_prop \<lparr>pc_kind = kind, pc_disable = disable\<rparr> k) ps)
              cs'"
      and d: "d < 32"
    using assms(1) unfolding n msm_patch.simps Let_def assms(3) [unfolded n, symmetric] k [symmetric]
    by (auto simp: MAX_DEPTH_def split: if_split_asm)
  have same_name: "msm_patch t providers e c m = Inr m' \<Longrightarrow> nname m' = nname m" for e c m m'
    by (cases m) (auto simp: msm_patch.simps Let_def split: if_split_asm)
  have "list_all2 (\<lambda>c c'. msm_patch t providers (Suc d) \<lparr>pc_kind = kind, pc_disable = disable\<rparr> c = Inr c' \<and> nname c' = nname c) cs cs'"
    using cs' same_name by (induction cs arbitrary: cs') auto
  then show ?thesis using new n' d n by auto
qed

text \<open>Properties the edit does not touch, and a node it leaves alone.\<close>

lemma patched_get:
  assumes "nprops n' = new @ (if disable then [(PROP_STATUS, v)] else []) @ filter (\<lambda>(k, _). \<not> should_skip_prop here k) ps"
    and "k \<notin> fst ` set new" and "disable \<longrightarrow> k \<noteq> PROP_STATUS" and "\<not> should_skip_prop here k"
  shows "get_prop n' k = map_of ps k"
proof -
  have "map_of new k = None" using assms(2) by (simp add: map_of_eq_None_iff)
  then show ?thesis
    using assms(3,4) by (auto simp: get_prop_def assms(1) map_of_filter_keys map_add_def split: option.split)
qed

lemma new_keys:
  assumes "(if kind = KindCpu then cpu_props t providers n else Inr []) = Inr new"
  shows "fst ` set new \<subseteq> {bytes_of ''power-domains'', bytes_of ''power-domain-names'', bytes_of ''enable-method'', bytes_of ''cpu-release-addr''}"
  using assms cpu_props_keys(3) [of t providers n new] by (auto split: if_split_asm)

lemma untouched:
  assumes "msm_patch t providers d ctx n = Inr n'"
    and "k \<notin> set [bytes_of ''power-domains'', bytes_of ''power-domain-names'', bytes_of ''enable-method'', bytes_of ''cpu-release-addr'',
      bytes_of ''cpu-idle-states'', bytes_of ''entry-method'']"
    and "k = PROP_STATUS \<longrightarrow> \<not> pc_disable ctx \<and> \<not> tree_is_psci n \<and> pc_kind ctx \<noteq> KindIdleStates"
  shows "get_prop n' k = get_prop n k"
proof -
  define kind where "kind = node_kind d (pc_kind ctx) (nname n)"
  define disable where "disable = (pc_disable ctx \<or> tree_is_psci n \<or> kind = KindIdleState)"
  obtain new where new: "(if kind = KindCpu then cpu_props t providers n else Inr []) = Inr new"
      "nprops n' = new @ (if disable then [(PROP_STATUS, zstr ''disabled'')] else []) @
        filter (\<lambda>(k, _). \<not> should_skip_prop \<lparr>pc_kind = kind, pc_disable = disable\<rparr> k) (nprops n)"
    using msm_patch_shape [OF assms(1) kind_def disable_def] by auto
  have "disable \<longrightarrow> k \<noteq> PROP_STATUS" using assms(3) by (auto simp: disable_def kind_def node_kind_def split: if_split_asm)
  moreover have "\<not> should_skip_prop \<lparr>pc_kind = kind, pc_disable = disable\<rparr> k"
    using assms(2) \<open>disable \<longrightarrow> k \<noteq> PROP_STATUS\<close> by (auto simp: should_skip_prop_def split: patch_kind.splits)
  moreover have "k \<notin> fst ` set new" using new_keys [OF new(1)] assms(2) by auto
  ultimately show ?thesis using patched_get [OF new(2)] by (simp add: get_prop_def)
qed

lemma child_patched:
  assumes "list_all2 (\<lambda>c c'. P c c' \<and> nname c' = nname c) (nchildren n) (nchildren n')" and "child n k = Some c"
  shows "\<exists>c'. child n' k = Some c' \<and> P c c'"
proof -
  have "\<exists>c'. find (\<lambda>c. nname c = k) ds' = Some c' \<and> P c c'"
    if "list_all2 (\<lambda>c c'. P c c' \<and> nname c' = nname c) ds ds'" "find (\<lambda>c. nname c = k) ds = Some c" for ds ds'
    using that by (induction rule: list_all2_induct) (auto split: if_split_asm)
  then show ?thesis using assms by (auto simp: child_def)
qed

lemma filter_patched:
  assumes "list_all2 R cs cs'" and "\<And>c c'. R c c' \<Longrightarrow> f c' \<longleftrightarrow> g c"
  shows "list_all2 R (filter g cs) (filter f cs')"
  using assms(1) by (induction rule: list_all2_induct) (auto simp: assms(2))

section \<open>Bindings in their usual form\<close>

text \<open>
  What neither side checks but both assume of the firmware's tree: the page's node is the only one
  of the contract, in whatever version, the nodes involved are enabled and none of them is PSCI's,
  cell counts are one cell, and \<open>device_type\<close> marks exactly the CPU nodes.
\<close>

definition one_cells :: "node \<Rightarrow> bool" where
  "one_cells n \<longleftrightarrow> (\<forall>k \<in> {PROP_ADDRESS_CELLS, PROP_SIZE_CELLS}. \<forall>v. get_prop n k = Some v \<longrightarrow> length v = 4)"

definition usual_reserved :: "node \<Rightarrow> bool" where
  "usual_reserved reserved \<longleftrightarrow>
     enabled reserved \<and> \<not> tree_is_psci reserved \<and> one_cells reserved \<and>
     (\<forall>n \<in> set (nchildren reserved). (is_contract_node n \<longleftrightarrow> names_page n) \<and> (names_page n \<longrightarrow> enabled n \<and> \<not> tree_is_psci n))"

definition usual_cpus :: "node \<Rightarrow> bool" where
  "usual_cpus cpus \<longleftrightarrow>
     \<not> tree_is_psci cpus \<and> one_cells cpus \<and>
     (\<forall>n \<in> set (nchildren cpus). (get_prop n (bytes_of ''device_type'') = Some (zstr ''cpu'') \<longleftrightarrow> is_cpu_node n) \<and>
        (is_cpu_node n \<longrightarrow> enabled n \<and> \<not> tree_is_psci n))"

definition usual_tree :: "node \<Rightarrow> bool" where
  "usual_tree root \<longleftrightarrow>
     \<not> tree_is_psci root \<and> one_cells root \<and>
     (\<forall>reserved. child root reserved_name = Some reserved \<longrightarrow> usual_reserved reserved) \<and>
     (\<forall>cpus. child root (bytes_of ''cpus'') = Some cpus \<longrightarrow> usual_cpus cpus)"

lemma contains_split_on: "stringlist_contains v s \<Longrightarrow> s \<in> set (split_on 0 v)"
proof (induction v s rule: stringlist_contains.induct)
  case (1 v s)
  obtain e where e: "v \<noteq> []" "position (\<lambda>b. b = 0) v = Some e" "take e v = s \<or> stringlist_contains (drop (e + 1) v) s"
    using "1.prems" by (subst (asm) stringlist_contains.simps) (auto split: if_split_asm option.split_asm)
  have p: "e < length v" "v ! e = 0" "\<forall>j < e. v ! j \<noteq> 0" using e(2) by (auto simp: position_Some)
  have "v = take e v @ 0 # drop (e + 1) v" using p(1,2) id_take_nth_drop [of e v] by simp
  moreover have "0 \<notin> set (take e v)" using p by (auto simp: in_set_conv_nth)
  ultimately have "split_on 0 v = take e v # split_on 0 (drop (e + 1) v)" by (metis split_on_append_sep)
  then show ?case using e "1.IH" [OF e(1,2)] by auto
qed

section \<open>The CPUs of the edited tree\<close>

definition cpu_key :: "node \<Rightarrow> u64" where
  "cpu_key n = (case get_prop n PROP_REG of Some reg \<Rightarrow> decode_cells reg | None \<Rightarrow> 0)"

lemma distinct_insort_keys:
  "distinct (map fst (insort_key fst x xs)) \<longleftrightarrow> fst x \<notin> fst ` set xs \<and> distinct (map fst xs)"
  by (induction xs) (auto simp: set_insort_key)

lemma cpu_steps_run:
  assumes "\<forall>(i, n) \<in> set ins. is_cpu n \<longrightarrow> (\<exists>reg. get_prop n PROP_REG = Some reg \<and> length reg = 4 \<and> cpu_key n AND NOT 0xff00ffffff = 0)"
    and "distinct (map fst acc @ map (\<lambda>(i, n). cpu_key n) (filter (\<lambda>(i, n). is_cpu n) ins))"
  shows "fold_io (cpu_step 1) acc ins =
    Inr (foldl (\<lambda>acc x. insort_key fst x acc) acc (map (\<lambda>(i, n). (cpu_key n, i)) (filter (\<lambda>(i, n). is_cpu n) ins)))"
  using assms
proof (induction ins arbitrary: acc)
  case (Cons x ins)
  obtain i n where x: "x = (i, n)" by (cases x)
  show ?case
  proof (cases "is_cpu n")
    case False
    then have "cpu_step 1 acc (i, n) = Inr acc" by (auto simp: cpu_step_def is_cpu_def)
    then show ?thesis using Cons False x by simp
  next
    case True
    then obtain reg where reg: "get_prop n PROP_REG = Some reg" "length reg = 4" "cpu_key n AND NOT 0xff00ffffff = 0"
      using Cons.prems(1) x by auto
    have key: "cpu_key n = decode_cells reg" using reg(1) by (simp add: cpu_key_def)
    have fresh: "cpu_key n \<notin> fst ` set acc" using Cons.prems(2) x True by auto
    have step: "cpu_step 1 acc (i, n) = Inr (insort_key fst (cpu_key n, i) acc)"
      using True reg fresh by (simp add: cpu_step_def is_cpu_def key Let_def)
    have "distinct (map fst (insort_key fst (cpu_key n, i) acc) @ map (\<lambda>(i, n). cpu_key n) (filter (\<lambda>(i, n). is_cpu n) ins))"
      using Cons.prems(2) x True fresh by (auto simp: distinct_insort_keys set_insort_key)
    then show ?thesis using Cons.IH [of "insort_key fst (cpu_key n, i) acc"] Cons.prems(1) step x True by simp
  qed
qed simp

lemma foldl_insort:
  "sorted (map fst acc) \<Longrightarrow>
   sorted (map fst (foldl (\<lambda>acc x. insort_key fst x acc) acc xs)) \<and>
   set (foldl (\<lambda>acc x. insort_key fst x acc) acc xs) = set acc \<union> set xs"
  by (induction xs arbitrary: acc) (auto simp: sorted_insort_key set_insort_key)

lemma foldl_insort_distinct:
  "distinct (map fst acc @ map fst xs) \<Longrightarrow> distinct (map fst (foldl (\<lambda>acc x. insort_key fst x acc) acc xs))"
  by (induction xs arbitrary: acc) (auto simp: distinct_insort_keys set_insort_key)

lemma filter_enumerate: "map (\<lambda>(i, n). f n) (filter (\<lambda>(i, n). P n) (enumerate k ns)) = map f (filter P ns)"
  by (induction ns arbitrary: k) auto

lemma in_filter_enumerate:
  "(i, n) \<in> set (filter (\<lambda>(i, n). P n) (enumerate 0 ns)) \<longleftrightarrow> i < length ns \<and> n = ns ! i \<and> P n"
  by (auto simp: in_set_enumerate_eq)

text \<open>A CPU after the edit: still a CPU, with its number, the method and the release address.\<close>

definition parked_cpu :: "pre_spin_table \<Rightarrow> node \<Rightarrow> u32 \<Rightarrow> bool" where
  "parked_cpu t n reg \<longleftrightarrow>
     get_prop n PROP_REG = Some (to_be_bytes 4 reg) \<and>
     get_prop n (bytes_of ''enable-method'') = Some (zstr ''spin-table'') \<and>
     get_prop n (bytes_of ''cpu-release-addr'') = Some (to_be_bytes 8 (slot_addr t reg))"

lemma patched_cpu:
  assumes "msm_patch t providers 2 \<lparr>pc_kind = KindCpus, pc_disable = False\<rparr> n = Inr n'" and "is_cpu_node n"
    and "\<not> tree_is_psci n" and "get_prop n PROP_REG = Some (to_be_bytes 4 reg)"
  shows "parked_cpu t n' reg"
proof -
  have kind: "KindCpu = node_kind 2 (pc_kind \<lparr>pc_kind = KindCpus, pc_disable = False\<rparr>) (nname n)"
    using assms(2) by (simp add: node_kind_def is_cpu_node_def)
  have dis: "False = (pc_disable \<lparr>pc_kind = KindCpus, pc_disable = False\<rparr> \<or> tree_is_psci n \<or> KindCpu = KindIdleState)"
    using assms(3) by simp
  obtain new where new: "cpu_props t providers n = Inr new"
      "nprops n' = new @ filter (\<lambda>(k, _). \<not> should_skip_prop \<lparr>pc_kind = KindCpu, pc_disable = False\<rparr> k) (nprops n)"
    using msm_patch_shape [OF assms(1) kind dis] by auto
  have u: "tree_u32 n PROP_REG = Inr reg"
    using assms(4) by (simp add: tree_u32_def slice_def usize_limit_def be32.dec_enc)
  obtain ds where ds: "new = ds @ [(bytes_of ''enable-method'', zstr ''spin-table''), (bytes_of ''cpu-release-addr'', to_be_bytes 8 (slot_addr t reg))]"
      "fst ` set ds \<subseteq> {bytes_of ''power-domains'', bytes_of ''power-domain-names''}"
    using new(1) u by (auto simp: cpu_props_def split: if_split_asm)
  have "map_of ds (bytes_of ''enable-method'') = None" "map_of ds (bytes_of ''cpu-release-addr'') = None"
    using ds(2) by (auto simp: map_of_eq_None_iff bytes_of_inject)
  then have "map_of new (bytes_of ''enable-method'') = Some (zstr ''spin-table'')"
      "map_of new (bytes_of ''cpu-release-addr'') = Some (to_be_bytes 8 (slot_addr t reg))"
    by (simp_all add: ds(1) map_add_def bytes_of_inject)
  moreover have "get_prop n' PROP_REG = get_prop n PROP_REG"
    by (rule untouched [OF assms(1)]) (simp_all add: bytes_of_inject)
  ultimately show ?thesis using assms(4) by (simp add: parked_cpu_def get_prop_def new(2) map_add_def)
qed

lemma cells_one: "one_cells n \<Longrightarrow> tree_u32 n k = Inr v \<Longrightarrow> k = PROP_ADDRESS_CELLS \<or> k = PROP_SIZE_CELLS \<Longrightarrow> cells n k dflt = Inr v"
  by (auto simp: one_cells_def tree_u32_def cells_def property_u32_def slice_def)

lemma cells_cong: "get_prop n' k = get_prop n k \<Longrightarrow> cells n' k dflt = cells n k dflt"
  by (simp add: cells_def)

section \<open>The page's node\<close>

lemma page_reg_range:
  assumes "page_aligned t"
  shows "decode_reg_ranges (to_be_bytes 8 (pst_addr t) @ to_be_bytes 8 PRE_SPIN_SIZE) 2 2 = Inr [(pst_addr t, pst_addr t + PRE_SPIN_SIZE)]"
proof -
  have four: "checked_add (2 :: u32) 2 = Some 4" by (simp add: checked_add_def)
  have bytes: "checked_mul_usize (unat (4 :: u32)) 4 = Some 16" by (simp add: checked_mul_usize_def usize_limit_def)
  have sum: "checked_add (pst_addr t) PRE_SPIN_SIZE = Some (pst_addr t + PRE_SPIN_SIZE)"
    using assms by (simp add: checked_add_def page_aligned_def PRE_SPIN_SIZE_def)
  have chunks: "chunks_exact 16 (to_be_bytes 8 (pst_addr t) @ to_be_bytes 8 PRE_SPIN_SIZE) =
      [to_be_bytes 8 (pst_addr t) @ to_be_bytes 8 PRE_SPIN_SIZE]"
    using chunks_exact_append [of "to_be_bytes 8 (pst_addr t) @ to_be_bytes 8 PRE_SPIN_SIZE" 16 "[]"] by simp
  have nz: "PRE_SPIN_SIZE \<noteq> 0" by (simp add: PRE_SPIN_SIZE_def)
  show ?thesis
    unfolding decode_reg_ranges_def four ok_or_simps bind_io_simps bytes
    by (simp add: chunks decode_reg_tuple_def Let_def decode_cells_two be64.dec_enc sum nz del: bind_io_eq_Inr checked_add_Some)
qed

text \<open>\<open>/reserved-memory\<close> of the edited tree has one node of the contract, and it is the page's.\<close>

definition reserved_contract :: "pre_spin_table \<Rightarrow> node \<Rightarrow> node \<Rightarrow> bool" where
  "reserved_contract t root reserved \<longleftrightarrow>
     reserved_cells root reserved = Inr (2, 2) \<and>
     (\<exists>owned. filter is_contract_node (nchildren reserved) = [owned] \<and> compatible owned SPIN_TABLE_COMPAT \<and> enabled owned \<and>
        get_prop owned (bytes_of ''no-map'') = Some [] \<and> get_prop owned (bytes_of ''reusable'') = None \<and>
        get_prop owned PROP_REG = Some (to_be_bytes 8 (pst_addr t) @ to_be_bytes 8 PRE_SPIN_SIZE))"

lemma patched_reserved:
  assumes "msm_patch t providers 0 OTHER_CONTEXT root = Inr root'" and "nname root = []" and "usual_tree root"
    and "child root reserved_name = Some reserved" and "reserved_holds_page t reserved"
    and "tree_u32 root PROP_ADDRESS_CELLS = Inr 2" and "tree_u32 root PROP_SIZE_CELLS = Inr 2"
  shows "\<exists>reserved'. child root' reserved_name = Some reserved' \<and> reserved_contract t root' reserved'"
proof -
  have ur: "usual_reserved reserved" "\<not> tree_is_psci root" "one_cells root" using assms(3,4) by (auto simp: usual_tree_def)
  have k0: "KindRoot = node_kind 0 (pc_kind OTHER_CONTEXT) (nname root)" by (simp add: node_kind_def assms(2))
  have d0: "False = (pc_disable OTHER_CONTEXT \<or> tree_is_psci root \<or> KindRoot = KindIdleState)"
    using ur(2) by (simp add: OTHER_CONTEXT_def)
  let ?c0 = "\<lparr>pc_kind = KindRoot, pc_disable = False\<rparr>" and ?c1 = "\<lparr>pc_kind = KindOther, pc_disable = False\<rparr>"
  have kids0: "list_all2 (\<lambda>c c'. msm_patch t providers (Suc 0) ?c0 c = Inr c' \<and> nname c' = nname c) (nchildren root) (nchildren root')"
    using msm_patch_shape [OF assms(1) k0 d0] by blast
  obtain reserved' where r': "child root' reserved_name = Some reserved'" "msm_patch t providers (Suc 0) ?c0 reserved = Inr reserved'"
    using child_patched [OF kids0 assms(4)] by blast
  have k1: "KindOther = node_kind (Suc 0) (pc_kind ?c0) (nname reserved)"
    using child_Some [OF assms(4)] by (simp add: node_kind_def bytes_of_inject)
  have d1: "False = (pc_disable ?c0 \<or> tree_is_psci reserved \<or> KindOther = KindIdleState)" using ur(1) by (simp add: usual_reserved_def)
  have kids1: "list_all2 (\<lambda>c c'. msm_patch t providers (Suc (Suc 0)) ?c1 c = Inr c' \<and> nname c' = nname c) (nchildren reserved) (nchildren reserved')"
    using msm_patch_shape [OF r'(2) k1 d1] by blast
  have same0: "get_prop root' k = get_prop root k" if "k \<in> {PROP_ADDRESS_CELLS, PROP_SIZE_CELLS}" for k
    by (rule untouched [OF assms(1)]) (use that in \<open>auto simp: bytes_of_inject\<close>)
  have same1: "get_prop reserved' k = get_prop reserved k"
    if "k \<in> {PROP_ADDRESS_CELLS, PROP_SIZE_CELLS, PROP_STATUS, bytes_of ''ranges''}" for k
    by (rule untouched [OF r'(2)]) (use that ur(1) in \<open>auto simp: bytes_of_inject usual_reserved_def\<close>)
  have en: "enabled reserved'" using ur(1) same1 [of PROP_STATUS] by (simp add: usual_reserved_def enabled_def)
  have cells: "cells reserved' PROP_ADDRESS_CELLS d = Inr 2" "cells reserved' PROP_SIZE_CELLS d = Inr 2"
      "cells root' PROP_ADDRESS_CELLS d = Inr 2" "cells root' PROP_SIZE_CELLS d = Inr 2" for d
    using assms(5-7) ur cells_one [of reserved] cells_one [of root] same0 same1
    by (simp_all add: reserved_holds_page_def usual_reserved_def cells_cong [of reserved' _ reserved] cells_cong [of root' _ root])
  have "get_prop reserved' (bytes_of ''ranges'') = Some []" using same1 assms(5) by (simp add: reserved_holds_page_def)
  then have rc: "reserved_cells root' reserved' = Inr (2, 2)"
    by (simp add: reserved_cells_def en cells Let_def)
  obtain owned where owned: "filter claims_page (nchildren reserved) = [owned]" "page_node t owned"
    using assms(5) by (auto simp: reserved_holds_page_def)
  have "filter is_contract_node (nchildren reserved) = filter names_page (nchildren reserved)"
    using ur(1) by (intro filter_cong) (auto simp: usual_reserved_def)
  also have "\<dots> = filter names_page (filter claims_page (nchildren reserved))"
    by (simp add: claims_page_def conj_commute cong: conj_cong)
  also have "\<dots> = [owned]" using owned by (simp add: page_node_def)
  finally have one: "filter is_contract_node (nchildren reserved) = [owned]" .
  have "owned \<in> set (filter claims_page (nchildren reserved))" unfolding owned(1) by simp
  then have in': "owned \<in> set (nchildren reserved)" by simp
  have compat: "get_prop c' (bytes_of ''compatible'') = get_prop c (bytes_of ''compatible'')"
    if "msm_patch t providers (Suc (Suc 0)) ?c1 c = Inr c'" for c c'
    by (rule untouched [OF that]) (simp_all add: bytes_of_inject)
  have "list_all2 (\<lambda>c c'. msm_patch t providers (Suc (Suc 0)) ?c1 c = Inr c' \<and> nname c' = nname c)
      (filter is_contract_node (nchildren reserved)) (filter is_contract_node (nchildren reserved'))"
    by (rule filter_patched [OF kids1]) (use compat in \<open>auto simp: is_contract_node_def\<close>)
  then obtain owned' where o': "filter is_contract_node (nchildren reserved') = [owned']"
      "msm_patch t providers (Suc (Suc 0)) ?c1 owned = Inr owned'"
    unfolding one by (auto simp: list_all2_Cons1)
  have uo: "enabled owned" "\<not> tree_is_psci owned" using ur(1) in' owned(2) by (auto simp: usual_reserved_def page_node_def)
  have same: "get_prop owned' k = get_prop owned k"
    if "k \<in> {PROP_STATUS, PROP_REG, bytes_of ''compatible'', bytes_of ''no-map'', bytes_of ''reusable''}" for k
    by (rule untouched [OF o'(2)]) (use that uo(2) in \<open>auto simp: bytes_of_inject\<close>)
  have "compatible owned' SPIN_TABLE_COMPAT"
    using owned(2) same contains_split_on
    by (auto simp: page_node_def names_page_def compatible_def PRE_SPIN_COMPATIBLE_def SPIN_TABLE_COMPAT_def split: option.splits)
  moreover have "enabled owned'" using uo(1) same [of PROP_STATUS] by (simp add: enabled_def)
  ultimately have "reserved_contract t root' reserved'"
    using rc o'(1) same owned(2) by (simp add: reserved_contract_def page_node_def)
  then show ?thesis using r'(1) by blast
qed

section \<open>The CPUs' nodes\<close>

text \<open>\<open>/cpus\<close> of the edited tree: the CPUs by number are the four, each parked.\<close>

definition cpus_contract :: "pre_spin_table \<Rightarrow> node \<Rightarrow> node \<Rightarrow> bool" where
  "cpus_contract t root cpus \<longleftrightarrow>
     (\<exists>res. cpu_nodes root = Inr res \<and> map fst res = [0, 1, 2, 3] \<and>
        (\<forall>(m, i) \<in> set res. i < length (nchildren cpus) \<and> is_cpu (nchildren cpus ! i) \<and>
           (\<exists>reg. m = ucast reg \<and> parked_cpu t (nchildren cpus ! i) reg)))"

lemma small_reg: "(reg :: u32) \<in> {0, 1, 2, 3} \<Longrightarrow> (ucast reg :: u64) AND NOT 0xff00ffffff = 0 \<and> (ucast reg :: u64) \<in> {0, 1, 2, 3}"
  by auto

lemma inj_ucast_u32: "(ucast (a :: u32) :: u64) = ucast b \<longleftrightarrow> a = b"
proof -
  have "unat (ucast x :: u64) = unat x" for x :: u32
    using unat_less_u32 [of x] by (simp add: unsigned_ucast_eq take_bit_nat_eq_self)
  then show ?thesis by (metis word_unat_eq_iff)
qed

lemma parked_key: "parked_cpu t n reg \<Longrightarrow> cpu_key n = ucast reg \<and> (\<exists>v. get_prop n PROP_REG = Some v \<and> length v = 4)"
  by (simp add: parked_cpu_def cpu_key_def decode_cells_one be32.dec_enc)

lemma cpus_by_number:
  assumes "list_all2 (\<lambda>n c. parked_cpu t n (ci_reg c)) (filter is_cpu ns) l" and "distinct (map ci_reg l)"
    and "ci_reg ` set l = {0, 1, 2, 3}"
  obtains res where "fold_io (cpu_step 1) [] (enumerate 0 ns) = Inr res" and "map fst res = [0, 1, 2, 3]"
    and "\<And>m i. (m, i) \<in> set res \<Longrightarrow> i < length ns \<and> is_cpu (ns ! i) \<and> (\<exists>reg. m = ucast reg \<and> parked_cpu t (ns ! i) reg)"
proof -
  let ?xs = "filter (\<lambda>(i, n). is_cpu n) (enumerate 0 ns)"
  have keys: "map cpu_key (filter is_cpu ns) = map (\<lambda>c. ucast (ci_reg c)) l"
    using assms(1) by (induction rule: list_all2_induct) (auto simp: parked_key)
  have each: "\<exists>c \<in> set l. parked_cpu t n (ci_reg c)" if "n \<in> set ns" "is_cpu n" for n
  proof -
    have "n \<in> set (filter is_cpu ns)" using that by simp
    then obtain k where "k < length (filter is_cpu ns)" "filter is_cpu ns ! k = n" by (auto simp only: in_set_conv_nth)
    then show ?thesis using assms(1) unfolding list_all2_conv_all_nth by (metis nth_mem)
  qed
  have klist: "map (\<lambda>(i, n). cpu_key n) ?xs = map (\<lambda>c. ucast (ci_reg c)) l"
    using filter_enumerate [of cpu_key is_cpu 0 ns] keys by simp
  have dist: "distinct (map (\<lambda>(i, n). cpu_key n) ?xs)"
    unfolding klist using assms(2) by (auto simp: distinct_map inj_on_def inj_ucast_u32)
  have good: "\<forall>(i, n) \<in> set (enumerate 0 ns). is_cpu n \<longrightarrow>
      (\<exists>reg. get_prop n PROP_REG = Some reg \<and> length reg = 4 \<and> cpu_key n AND NOT 0xff00ffffff = 0)"
  proof (clarify)
    fix i n assume n: "(i, n) \<in> set (enumerate 0 ns)" "is_cpu n"
    then have "n \<in> set ns" by (auto simp: in_set_enumerate_eq)
    then obtain c where c: "c \<in> set l" "parked_cpu t n (ci_reg c)" using each n(2) by blast
    then have "ci_reg c \<in> {0, 1, 2, 3}" using assms(3) by blast
    then show "\<exists>reg. get_prop n PROP_REG = Some reg \<and> length reg = 4 \<and> cpu_key n AND NOT 0xff00ffffff = 0"
      using parked_key [OF c(2)] small_reg by auto
  qed
  define res where "res = foldl (\<lambda>acc x. insort_key fst x acc) [] (map (\<lambda>(i, n). (cpu_key n, i)) ?xs)"
  have run: "fold_io (cpu_step 1) [] (enumerate 0 ns) = Inr res"
    using cpu_steps_run [OF good, of "[]"] dist by (simp add: res_def)
  have sr: "sorted (map fst res)" "set res = set (map (\<lambda>(i, n). (cpu_key n, i)) ?xs)"
    using foldl_insort [of "[]" "map (\<lambda>(i, n). (cpu_key n, i)) ?xs", folded res_def]
    by (simp_all only: list.map sorted0 list.set Un_empty_left simp_thms)
  have fsts: "map fst (map (\<lambda>(i, n). (cpu_key n, i)) ?xs) = map (\<lambda>(i, n). cpu_key n) ?xs" by auto
  have "distinct (map fst res)"
    unfolding res_def by (rule foldl_insort_distinct) (simp only: fsts dist list.map append_Nil)
  moreover have "set (map fst res) = set [0, 1, 2, 3]"
  proof -
    have "set (map fst res) = fst ` set (map (\<lambda>(i, n). (cpu_key n, i)) ?xs)" using sr(2) by simp
    also have "\<dots> = set (map (\<lambda>(i, n). cpu_key n) ?xs)" unfolding fsts [symmetric] set_map ..
    also have "\<dots> = ucast ` ci_reg ` set l" unfolding klist by auto
    finally show ?thesis using assms(3) by auto
  qed
  ultimately have ids: "map fst res = [0, 1, 2, 3]"
    using sr(1) by (intro sorted_distinct_set_unique) simp_all
  show ?thesis
  proof (rule that [OF run ids])
    fix m i assume "(m, i) \<in> set res"
    then obtain n where n: "(i, n) \<in> set ?xs" "m = cpu_key n" using sr(2) by auto
    then have i: "i < length ns" "n = ns ! i" "is_cpu n" using in_filter_enumerate [of i n is_cpu ns] by blast+
    then have "is_cpu (ns ! i)" by simp
    then obtain c where c: "c \<in> set l" "parked_cpu t (ns ! i) (ci_reg c)" using each [OF nth_mem [OF i(1)]] by blast
    then have "m = ucast (ci_reg c)" using parked_key [OF c(2)] i(2) n(2) by simp
    then show "i < length ns \<and> is_cpu (ns ! i) \<and> (\<exists>reg. m = ucast reg \<and> parked_cpu t (ns ! i) reg)"
      using i c by blast
  qed
qed

lemma parked_cpus:
  assumes "list_all2 (\<lambda>n n'. n \<in> set (nchildren cpus) \<and>
      msm_patch t providers 2 \<lparr>pc_kind = KindCpus, pc_disable = False\<rparr> n = Inr n') (filter is_cpu_node (nchildren cpus)) ns"
    and "list_all2 (describes_cpu r root mode) (filter is_cpu_node (nchildren cpus)) l" and "usual_cpus cpus"
  shows "list_all2 (\<lambda>n c. parked_cpu t n (ci_reg c)) ns l"
  unfolding list_all2_conv_all_nth
proof (intro conjI allI impI)
  let ?cs = "filter is_cpu_node (nchildren cpus)"
  show "length ns = length l" using list_all2_lengthD [OF assms(1)] list_all2_lengthD [OF assms(2)] by simp
  fix i assume "i < length ns"
  then have i: "i < length ?cs" using list_all2_lengthD [OF assms(1)] by simp
  have n: "?cs ! i \<in> set (nchildren cpus)" "is_cpu_node (?cs ! i)" using nth_mem [OF i] by simp_all
  have "msm_patch t providers 2 \<lparr>pc_kind = KindCpus, pc_disable = False\<rparr> (?cs ! i) = Inr (ns ! i)"
    using list_all2_nthD [OF assms(1) i] by simp
  moreover have "\<not> tree_is_psci (?cs ! i)" using assms(3) n by (auto simp: usual_cpus_def)
  moreover have "get_prop (?cs ! i) PROP_REG = Some (to_be_bytes 4 (ci_reg (l ! i)))"
    using list_all2_nthD [OF assms(2) i] by (simp add: describes_cpu_def)
  ultimately show "parked_cpu t (ns ! i) (ci_reg (l ! i))" using patched_cpu n(2) by blast
qed

lemma patched_cpus:
  assumes "msm_patch t providers 0 OTHER_CONTEXT root = Inr root'" and "nname root = []" and "usual_tree root"
    and "child root (bytes_of ''cpus'') = Some cpus" and "tree_u32 cpus PROP_ADDRESS_CELLS = Inr 1" and "tree_u32 cpus PROP_SIZE_CELLS = Inr 0"
    and "list_all2 (describes_cpu r root mode) (filter is_cpu_node (nchildren cpus)) l" and "distinct (map ci_reg l)"
    and "ci_reg ` set l = {0, 1, 2, 3}"
  shows "\<exists>cpus'. child root' (bytes_of ''cpus'') = Some cpus' \<and> cpus_contract t root' cpus'"
proof -
  have uc: "usual_cpus cpus" "\<not> tree_is_psci root" using assms(3,4) by (auto simp: usual_tree_def)
  have k0: "KindRoot = node_kind 0 (pc_kind OTHER_CONTEXT) (nname root)" by (simp add: node_kind_def assms(2))
  have d0: "False = (pc_disable OTHER_CONTEXT \<or> tree_is_psci root \<or> KindRoot = KindIdleState)"
    using uc(2) by (simp add: OTHER_CONTEXT_def)
  let ?c0 = "\<lparr>pc_kind = KindRoot, pc_disable = False\<rparr>" and ?c1 = "\<lparr>pc_kind = KindCpus, pc_disable = False\<rparr>"
  have kids0: "list_all2 (\<lambda>c c'. msm_patch t providers (Suc 0) ?c0 c = Inr c' \<and> nname c' = nname c) (nchildren root) (nchildren root')"
    using msm_patch_shape [OF assms(1) k0 d0] by blast
  obtain cpus' where c': "child root' (bytes_of ''cpus'') = Some cpus'" "msm_patch t providers (Suc 0) ?c0 cpus = Inr cpus'"
    using child_patched [OF kids0 assms(4)] by blast
  have k1: "KindCpus = node_kind (Suc 0) (pc_kind ?c0) (nname cpus)"
    using child_Some [OF assms(4)] by (simp add: node_kind_def)
  have d1: "False = (pc_disable ?c0 \<or> tree_is_psci cpus \<or> KindCpus = KindIdleState)" using uc(1) by (simp add: usual_cpus_def)
  have "list_all2 (\<lambda>c c'. msm_patch t providers (Suc (Suc 0)) ?c1 c = Inr c' \<and> nname c' = nname c) (nchildren cpus) (nchildren cpus')"
    using msm_patch_shape [OF c'(2) k1 d1] by blast
  then have kids1: "list_all2 (\<lambda>c c'. c \<in> set (nchildren cpus) \<and> msm_patch t providers 2 ?c1 c = Inr c') (nchildren cpus) (nchildren cpus')"
    by (rule list.rel_mono_strong) (simp add: numeral_2_eq_2)
  have same: "get_prop cpus' k = get_prop cpus k" if "k \<in> {PROP_ADDRESS_CELLS, PROP_SIZE_CELLS}" for k
    by (rule untouched [OF c'(2)]) (use that in \<open>auto simp: bytes_of_inject\<close>)
  have cells: "cells cpus' PROP_ADDRESS_CELLS d = Inr 1" "cells cpus' PROP_SIZE_CELLS d = Inr 0" for d
    using assms(5,6) uc(1) cells_one [of cpus] same by (simp_all add: usual_cpus_def cells_cong [of cpus' _ cpus])
  have iscpu: "is_cpu n' \<longleftrightarrow> is_cpu_node n" if n: "n \<in> set (nchildren cpus) \<and> msm_patch t providers 2 ?c1 n = Inr n'" for n n'
  proof -
    have dt: "get_prop n' (bytes_of ''device_type'') = get_prop n (bytes_of ''device_type'')"
      by (rule untouched [OF conjunct2 [OF n]]) (simp_all add: bytes_of_inject)
    have u: "get_prop n (bytes_of ''device_type'') = Some (zstr ''cpu'') \<longleftrightarrow> is_cpu_node n" "is_cpu_node n \<longrightarrow> enabled n \<and> \<not> tree_is_psci n"
      using uc(1) n by (auto simp: usual_cpus_def)
    have "is_cpu_node n \<Longrightarrow> get_prop n' PROP_STATUS = get_prop n PROP_STATUS"
      by (rule untouched [OF conjunct2 [OF n]]) (use u(2) in \<open>simp_all add: bytes_of_inject\<close>)
    then show ?thesis using dt u by (auto simp: is_cpu_def enabled_def)
  qed
  have "list_all2 (\<lambda>n n'. n \<in> set (nchildren cpus) \<and> msm_patch t providers 2 ?c1 n = Inr n')
      (filter is_cpu_node (nchildren cpus)) (filter is_cpu (nchildren cpus'))"
    by (rule filter_patched [OF kids1 iscpu])
  then have "list_all2 (\<lambda>n c. parked_cpu t n (ci_reg c)) (filter is_cpu (nchildren cpus')) l"
    by (rule parked_cpus [OF _ assms(7) uc(1)])
  then obtain res where "fold_io (cpu_step 1) [] (enumerate 0 (nchildren cpus')) = Inr res" "map fst res = [0, 1, 2, 3]"
      "\<And>m i. (m, i) \<in> set res \<Longrightarrow> i < length (nchildren cpus') \<and> is_cpu (nchildren cpus' ! i) \<and>
         (\<exists>reg. m = ucast reg \<and> parked_cpu t (nchildren cpus' ! i) reg)"
    using cpus_by_number [OF _ assms(8,9)] by metis
  then have "cpus_contract t root' cpus'"
    using c'(1) cells by (auto simp: cpus_contract_def cpu_nodes_def)
  then show ?thesis using c'(1) by blast
qed

section \<open>Both ends agree\<close>

lemma page_multiple:
  assumes "PRE_SPIN_SIZE dvd (x :: u64)"
  shows "x mod SPIN_TABLE_BYTES = 0"
proof -
  obtain k where "x = 0x1000 * k" using assms by (auto simp: PRE_SPIN_SIZE_def elim: dvdE)
  then have "unat x = 0x1000 * unat k mod 2 ^ 64" by (simp add: unat_word_ariths)
  then have "unat x mod 0x1000 = 0" by (simp add: mod_mod_cancel)
  then show ?thesis by (simp add: word_unat_eq_iff unat_mod SPIN_TABLE_BYTES_def)
qed

lemma contract_found:
  assumes "child root reserved_name = Some reserved" and "reserved_contract t root reserved" and "page_aligned t"
    and "child root (bytes_of ''cpus'') = Some cpus" and "cpus_contract t root cpus"
  shows "spin_table_contract root = Inr (Some \<lparr>st_base = pst_addr t\<rparr>)"
proof -
  obtain owned where owned: "filter is_contract_node (nchildren reserved) = [owned]" "compatible owned SPIN_TABLE_COMPAT"
      "enabled owned" "get_prop owned (bytes_of ''no-map'') = Some []" "get_prop owned (bytes_of ''reusable'') = None"
      "get_prop owned PROP_REG = Some (to_be_bytes 8 (pst_addr t) @ to_be_bytes 8 PRE_SPIN_SIZE)"
      and rc: "reserved_cells root reserved = Inr (2, 2)"
    using assms(2) by (auto simp: reserved_contract_def)
  obtain res where res: "cpu_nodes root = Inr res" "map fst res = [0, 1, 2, 3]"
      "\<And>m i. (m, i) \<in> set res \<Longrightarrow> i < length (nchildren cpus) \<and> is_cpu (nchildren cpus ! i) \<and>
        (\<exists>reg. m = ucast reg \<and> parked_cpu t (nchildren cpus ! i) reg)"
    using assms(5) by (fastforce simp: cpus_contract_def)
  have parked: "get_prop (nchildren cpus ! i) (bytes_of ''enable-method'') = Some (zstr ''spin-table'') \<and>
      get_prop (nchildren cpus ! i) (bytes_of ''cpu-release-addr'') = Some (release_addr \<lparr>st_base = pst_addr t\<rparr> m)"
    if "(m, i) \<in> set res" for m i
    using res(3) [OF that] by (auto simp: parked_cpu_def release_addr_def slot_addr_def spin_table_consts SPIN_SLOTS_OFFSET_def SPIN_SLOT_STRIDE_def)
  obtain i0 where "(0, i0) \<in> set res" using res(2) by (cases res) auto
  then have some: "list_ex is_spin_table_cpu (nchildren cpus)"
    using res(3) [of 0 i0] parked [of 0 i0]
    by (auto simp: list_ex_iff is_spin_table_cpu_def is_cpu_def intro!: bexI [of _ "nchildren cpus ! i0"])
  have all: "\<not> list_ex (\<lambda>(mpidr, index).
      get_prop (nchildren cpus ! index) (bytes_of ''enable-method'') \<noteq> Some (zstr ''spin-table'') \<or>
      get_prop (nchildren cpus ! index) (bytes_of ''cpu-release-addr'') \<noteq> Some (release_addr \<lparr>st_base = pst_addr t\<rparr> mpidr)) res"
    using parked by (auto simp: list_ex_iff)
  have size: "SPIN_TABLE_BYTES = PRE_SPIN_SIZE" by (simp add: PRE_SPIN_SIZE_def SPIN_TABLE_BYTES_def)
  have aligned: "pst_addr t \<noteq> 0" "pst_addr t mod PRE_SPIN_SIZE = 0"
    using assms(3) page_multiple by (simp_all add: page_aligned_def size)
  have bytes: "length (to_be_bytes 8 (pst_addr t) @ to_be_bytes 8 PRE_SPIN_SIZE) = unat (2 + 2 :: u32) * 4" by simp
  show ?thesis
    unfolding spin_table_contract_def assms(1,4) option.case owned(1) list.case
    using some all aligned bytes
    by (simp add: owned(2-6) rc res(1,2) page_reg_range [OF assms(3)] size ok_or_def del: bind_io_eq_Inr)
qed

text \<open>
  Whatever else the tree holds, the loader never takes another page for that of the contract: the
  page's node is one of the nodes of the contract, and the loader insists on there being one.
\<close>

lemma cells_four:
  assumes "1 \<le> (ac :: u32)" "ac \<le> 2" "1 \<le> (sc :: u32)" "sc \<le> 2" "unat (ac + sc) = 4"
  shows "ac = 2 \<and> sc = 2"
proof -
  have a: "unat ac = 1 \<or> unat ac = 2" and b: "unat sc = 1 \<or> unat sc = 2"
    using assms(1-4) by (auto simp: word_le_nat_alt)
  have "unat ac + unat sc = 4" using assms(5) a b by (auto simp: unat_word_ariths)
  then have "unat ac = unat (2 :: u32)" "unat sc = unat (2 :: u32)" using a b by auto
  then show ?thesis by (simp only: word_unat_eq_iff)
qed

lemma contract_on_tree:
  assumes "spin_table_contract root = Inr (Some k)"
  shows "\<exists>reserved owned ac sc reg e. child root reserved_name = Some reserved \<and> filter is_contract_node (nchildren reserved) = [owned] \<and>
    reserved_cells root reserved = Inr (ac, sc) \<and> get_prop owned PROP_REG = Some reg \<and>
    decode_reg_ranges reg ac sc = Inr [(st_base k, e)] \<and> length reg = unat (ac + sc) * 4"
proof -
  obtain reserved owned where r: "child root reserved_name = Some reserved" "filter is_contract_node (nchildren reserved) = [owned]"
    using assms unfolding spin_table_contract_def
    by (cases "child root reserved_name") (auto split: if_split_asm list.split_asm)
  note run = assms [unfolded spin_table_contract_def r(1) option.case r(2) list.case option.sel]
  then obtain ac sc reg ranges where c: "reserved_cells root reserved = Inr (ac, sc)" "get_prop owned PROP_REG = Some reg"
      "decode_reg_ranges reg ac sc = Inr ranges" "length ranges = 1" "length reg = unat (ac + sc) * 4" "st_base k = fst (hd ranges)"
    by (auto simp: case_prod_beta' Let_def split: if_split_asm)
  then obtain b e where "ranges = [(b, e)]" by (cases ranges) auto
  then show ?thesis using r c by auto
qed

lemma contract_is_page:
  assumes patch: "msm_patch t providers 0 OTHER_CONTEXT root = Inr root'" and name: "nname root = []"
    and reserved: "child root reserved_name = Some reserved" "reserved_holds_page t reserved"
    and found: "spin_table_contract root' = Inr (Some k)"
  shows "st_base k = pst_addr t"
proof -
  have k0: "KindRoot = node_kind 0 (pc_kind OTHER_CONTEXT) (nname root)" by (simp add: node_kind_def name)
  define d0 where "d0 = (pc_disable OTHER_CONTEXT \<or> tree_is_psci root \<or> KindRoot = KindIdleState)"
  let ?c0 = "\<lparr>pc_kind = KindRoot, pc_disable = d0\<rparr>"
  have kids0: "list_all2 (\<lambda>c c'. msm_patch t providers (Suc 0) ?c0 c = Inr c' \<and> nname c' = nname c) (nchildren root) (nchildren root')"
    using msm_patch_shape [OF patch k0 d0_def] by blast
  obtain reserved' where r': "child root' reserved_name = Some reserved'" "msm_patch t providers (Suc 0) ?c0 reserved = Inr reserved'"
    using child_patched [OF kids0 reserved(1)] by blast
  define k1 where "k1 = node_kind (Suc 0) (pc_kind ?c0) (nname reserved)"
  define d1 where "d1 = (pc_disable ?c0 \<or> tree_is_psci reserved \<or> k1 = KindIdleState)"
  let ?c1 = "\<lparr>pc_kind = k1, pc_disable = d1\<rparr>"
  have kids1: "list_all2 (\<lambda>c c'. msm_patch t providers (Suc (Suc 0)) ?c1 c = Inr c' \<and> nname c' = nname c) (nchildren reserved) (nchildren reserved')"
    using msm_patch_shape [OF r'(2) k1_def d1_def] by blast
  obtain owned where owned: "filter claims_page (nchildren reserved) = [owned]" "page_node t owned"
    using reserved(2) by (auto simp: reserved_holds_page_def)
  then have "owned \<in> set (filter claims_page (nchildren reserved))" by simp
  then have "owned \<in> set (nchildren reserved)" by simp
  then obtain o' where o': "o' \<in> set (nchildren reserved')" "msm_patch t providers (Suc (Suc 0)) ?c1 owned = Inr o'"
    using kids1 unfolding list_all2_conv_all_nth in_set_conv_nth by metis
  have same: "get_prop o' key = get_prop owned key" if "key \<in> {PROP_REG, bytes_of ''compatible''}" for key
    by (rule untouched [OF o'(2)]) (use that in \<open>auto simp: bytes_of_inject\<close>)
  obtain v where v: "get_prop owned (bytes_of ''compatible'') = Some v" "PRE_SPIN_COMPATIBLE \<in> set (split_on 0 v)"
    using owned(2) contains_split_on by (auto simp: page_node_def names_page_def split: option.splits)
  have "starts_with (bytes_of ''pocketboot,spin-table-'') PRE_SPIN_COMPATIBLE" by code_simp
  then have "is_contract_node o'" using v same by (auto simp: is_contract_node_def list_ex_iff)
  moreover obtain c ac sc reg e where c: "filter is_contract_node (nchildren reserved') = [c]"
      "reserved_cells root' reserved' = Inr (ac, sc)" "get_prop c PROP_REG = Some reg"
      "decode_reg_ranges reg ac sc = Inr [(st_base k, e)]" "length reg = unat (ac + sc) * 4"
    using contract_on_tree [OF found] r'(1) by auto
  ultimately have "o' \<in> set [c]" using o'(1) by (simp only: c(1) [symmetric] set_filter mem_Collect_eq)
  then have "c = o'" by simp
  then have reg: "reg = to_be_bytes 8 (pst_addr t) @ to_be_bytes 8 PRE_SPIN_SIZE" and page: "page_aligned t"
    using c(3) same owned(2) by (simp_all add: page_node_def)
  have "1 \<le> ac" "ac \<le> 2" "1 \<le> sc" "sc \<le> 2"
    using c(2) by (auto simp: reserved_cells_def Let_def split: if_split_asm)
  moreover have "unat (ac + sc) = 4" using c(5) by (simp add: reg)
  ultimately have "ac = 2" "sc = 2" using cells_four by blast+
  then show ?thesis using c(4) page_reg_range [OF page] by (simp add: reg)
qed

theorem handover_contract:
  assumes "reader_new addr dtb = Inr r" and "contract_tree dtb = Inr root"
    and "find_spin_table r = Inr t" and "validate_memory image_start r t payload payload_size = Inr ()"
    and "collect_cpus r = Inr cpus" and "patch_fdt r out0 t = Inr patched" and "length out0 < 2 ^ 32"
    and "addr + length dtb < 2 ^ 64"
  shows "\<exists>root'. contract_tree patched = Inr root' \<and>
    (\<forall>k. spin_table_contract root' = Inr (Some k) \<longrightarrow> st_base k = pst_addr t) \<and>
    (usual_tree root \<longrightarrow> spin_table_contract root' = Inr (Some \<lparr>st_base = pst_addr t\<rparr>))"
proof -
  note tree = reader_of_contract_tree(1) [OF assms(1,2)]
  obtain providers root' where root': "msm_patch t providers 0 OTHER_CONTEXT root = Inr root'" "contract_tree patched = Inr root'"
    using patched_contract_tree [OF assms(1,2,6,7)] by (auto simp: msm_edit_def)
  have name: "nname root = []" using tree by (rule reader_treeE)
  obtain reserved where reserved: "child root reserved_name = Some reserved" "reserved_holds_page t reserved"
    using find_spin_table_sound [OF tree assms(3)] by blast
  have page: "page_aligned t" using reserved(2) by (auto simp: reserved_holds_page_def page_node_def)
  have "rd_addr r + totalsize (rd_header r) < 2 ^ 64"
    using assms(1,8) fdt_header_parse_bounds [OF reader_of_contract_tree(2) [OF assms(1,2)]]
    by (auto simp: reader_new_def)
  then have two: "tree_u32 root PROP_ADDRESS_CELLS = Inr 2" "tree_u32 root PROP_SIZE_CELLS = Inr 2"
    using validate_memory_sound(7,8) [OF tree assms(4) page] by blast+
  obtain cs where cs: "child root (bytes_of ''cpus'') = Some cs" "tree_u32 cs PROP_ADDRESS_CELLS = Inr 1"
      "tree_u32 cs PROP_SIZE_CELLS = Inr 0"
      "list_all2 (describes_cpu r root (cl_mode cpus)) (filter is_cpu_node (nchildren cs)) (cl_cpus cpus)"
    using collect_cpus_sound(1) [OF tree assms(5)] by blast
  have "spin_table_contract root' = Inr (Some \<lparr>st_base = pst_addr t\<rparr>)" if usual: "usual_tree root"
  proof -
    obtain reserved' where "child root' reserved_name = Some reserved'" "reserved_contract t root' reserved'"
      using patched_reserved [OF root'(1) name usual reserved two] by blast
    moreover obtain cs' where "child root' (bytes_of ''cpus'') = Some cs'" "cpus_contract t root' cs'"
      using patched_cpus [OF root'(1) name usual cs collect_cpus_sound(2,3) [OF tree assms(5)]] by blast
    ultimately show ?thesis using contract_found page by blast
  qed
  then show ?thesis using root'(2) contract_is_page [OF root'(1) name reserved] by blast
qed

end
