(* ===== verification/MsmSafety.thy ===== *)
theory MsmSafety
  imports MsmHandoff MsmContract
begin

text \<open>
  What \<open>prepare_fdt\<close> does to the machine. Nothing is changed before all checks have passed, and a page
  that may hold running code is overwritten only when every secondary was seen in reset; when a
  blob is returned, every secondary has acknowledged that it is parked, and the blob describes the
  page it is parked on.
\<close>

section \<open>Runs of operations\<close>

lemma hw_bind_simps:
  "hw_bind (hw_lift (Inr x)) f log = f x log" "hw_bind (hw_lift (Inl e)) f log = (log, Inl e)"
  "hw_bind (hw_ret x) f log = f x log" "hw_bind (hw_emit es) i log = i () (log @ es)"
  "hw_bind (read32 m a) g log = g (mc_read32 m log a) (log @ [HwRead32 a])"
  "hw_bind (read64 m a) h log = h (mc_read64 m log a) (log @ [HwRead64 a])"
  "hw_bind (read_memory m a n) k log = k (take n (mc_read_bytes m log a n)) (log @ [HwReadBytes a n])"
  by (simp_all add: hw_bind_def hw_lift_def hw_ret_def hw_emit_def read32_def read64_def read_memory_def)

lemma hw_run_simps:
  "hw_ret x log = (log, Inr x)" "hw_lift r log = (log, r)" "hw_emit es log = (log @ es, Inr ())"
  by (simp_all add: hw_ret_def hw_lift_def hw_emit_def)

lemma hw_bind_run: "m log = (l, Inr x) \<Longrightarrow> hw_bind m f log = f x l"
  by (simp add: hw_bind_def)

lemma hw_bind_Inr: "hw_bind m f log = (log', Inr y) \<longleftrightarrow> (\<exists>l x. m log = (l, Inr x) \<and> f x l = (log', Inr y))"
  by (auto simp: hw_bind_def split: prod.splits sum.splits)

lemma require_bind: "hw_bind (require b) f log = (if b then f () log else (log, Inl UnparkedResident))"
  by (simp add: require_def hw_bind_simps)

lemma require_run: "require b log = (log, if b then Inr () else Inl UnparkedResident)"
  by (simp add: require_def hw_run_simps)

lemmas hw_simps = hw_bind_simps hw_run_simps require_bind require_run

text \<open>The events an operation adds all satisfy \<open>P\<close>, however it ends.\<close>

definition causes :: "(hw_event \<Rightarrow> bool) \<Rightarrow> 'a hw \<Rightarrow> bool" where
  "causes P m \<longleftrightarrow> (\<forall>log. \<exists>es. fst (m log) = log @ es \<and> list_all P es)"

lemma causes_run: "causes P m \<Longrightarrow> m log = (log', r) \<Longrightarrow> \<exists>es. log' = log @ es \<and> list_all P es"
  unfolding causes_def by (metis fst_conv)

lemma causes_bind:
  assumes "causes P m" and "\<And>x. causes P (f x)"
  shows "causes P (hw_bind m f)"
  unfolding causes_def
proof
  fix log
  obtain l r where m: "m log = (l, r)" by (cases "m log")
  obtain es where es: "l = log @ es" "list_all P es" using causes_run [OF assms(1) m] by blast
  show "\<exists>es. fst (hw_bind m f log) = log @ es \<and> list_all P es"
  proof (cases r)
    case (Inl e)
    then show ?thesis using m es by (auto simp: hw_bind_def)
  next
    case (Inr x)
    obtain es' where "fst (f x l) = l @ es'" "list_all P es'" using assms(2) unfolding causes_def by blast
    then show ?thesis using m es Inr by (intro exI [of _ "es @ es'"]) (simp add: hw_bind_def)
  qed
qed

lemma causes_simps [simp]:
  "causes P (hw_ret x)" "causes P (hw_lift r)" "list_all P es \<Longrightarrow> causes P (hw_emit es)"
  "P (HwRead32 a) \<Longrightarrow> causes P (read32 m a)" "P (HwRead64 a) \<Longrightarrow> causes P (read64 m a)"
  "P (HwReadBytes a n) \<Longrightarrow> causes P (read_memory m a n)" "causes P (require b)"
  by (auto simp: causes_def read32_def read64_def read_memory_def hw_run_simps require_def)

lemma causes_if: "causes P m \<Longrightarrow> causes P n \<Longrightarrow> causes P (if b then m else n)"
  by simp

lemma causes_each: "(\<And>x. causes P (f x)) \<Longrightarrow> causes P (hw_each f xs)"
  by (induction xs) (auto intro: causes_bind)

lemmas causes_intros = causes_bind causes_if causes_each

section \<open>Observers\<close>

text \<open>Operations that only look at the machine cause what reads and barriers are.\<close>

locale hw_observer =
  fixes ok :: "hw_event \<Rightarrow> bool"
  assumes ok_read: "ok (HwRead32 a)" "ok (HwRead64 a)" "ok (HwReadBytes a n)" and ok_barrier: "ok HwBarrier"
begin

lemma observes:
  "causes ok (report_secondary_coherency m t cpu)" "causes ok (validate_slot m t el cpu)"
  "causes ok (validate_parked_slots m t el)" "causes ok (report_secondary_power m cs)"
  unfolding report_secondary_coherency_def validate_slot_def validate_parked_slots_def report_secondary_power_def Let_def
  by (auto intro!: causes_intros simp: ok_read ok_barrier)

lemma observes_reset: "causes ok (secondaries_held_in_reset m cs)"
  by (induction cs) (auto intro!: causes_intros simp: ok_read)

end

fun changes_machine :: "hw_event \<Rightarrow> bool" where
  "changes_machine (HwWrite32 a v) = True"
| "changes_machine (HwWrite64 a v) = True"
| "changes_machine (HwWriteBytes a bs) = True"
| "changes_machine (HwSmc xs) = True"
| "changes_machine e = False"

interpretation quiet_hw: hw_observer "\<lambda>e. \<not> changes_machine e"
  by unfold_locales simp_all

interpretation any_hw: hw_observer "\<lambda>e. True"
  by unfold_locales simp_all

section \<open>What was read\<close>

text \<open>In the course of a run a read of an address gave a value.\<close>

definition seen32 :: "machine \<Rightarrow> hw_event list \<Rightarrow> u64 \<Rightarrow> u32 \<Rightarrow> bool" where
  "seen32 m log a v \<longleftrightarrow> (\<exists>pre post. log = pre @ HwRead32 a # post \<and> mc_read32 m pre a = v)"

definition seen64 :: "machine \<Rightarrow> hw_event list \<Rightarrow> u64 \<Rightarrow> u64 \<Rightarrow> bool" where
  "seen64 m log a v \<longleftrightarrow> (\<exists>pre post. log = pre @ HwRead64 a # post \<and> mc_read64 m pre a = v)"

definition seen_bytes :: "machine \<Rightarrow> hw_event list \<Rightarrow> u64 \<Rightarrow> nat \<Rightarrow> bytes \<Rightarrow> bool" where
  "seen_bytes m log a n bs \<longleftrightarrow> (\<exists>pre post. log = pre @ HwReadBytes a n # post \<and> take n (mc_read_bytes m pre a n) = bs)"

lemma seen_append:
  "seen32 m log a v \<Longrightarrow> seen32 m (log @ es) a v" "seen64 m log a w \<Longrightarrow> seen64 m (log @ es) a w"
  "seen_bytes m log a n bs \<Longrightarrow> seen_bytes m (log @ es) a n bs"
  unfolding seen32_def seen64_def seen_bytes_def by force+

lemma seen_now:
  "seen32 m (log @ HwRead32 a # es) a (mc_read32 m log a)" "seen64 m (log @ HwRead64 a # es) a (mc_read64 m log a)"
  "seen_bytes m (log @ HwReadBytes a n # es) a n (take n (mc_read_bytes m log a n))"
  unfolding seen32_def seen64_def seen_bytes_def by blast+

lemma secondaries_held_seen:
  assumes "secondaries_held_in_reset m cs log = (log', Inr True)" and "c \<in> set cs" and "ci_reg c \<noteq> 0"
  shows "ci_acc_base c \<noteq> 0 \<and> (\<exists>ctl. seen32 m log' (ci_acc_base c + APCS_CPU_PWR_CTL) ctl \<and> held_in_reset ctl)"
  using assms
proof (induction cs arbitrary: log)
  case (Cons d cs)
  show ?case
  proof (cases "ci_reg d = 0")
    case True
    then show ?thesis using Cons by auto
  next
    case False
    let ?a = "ci_acc_base d + APCS_CPU_PWR_CTL"
    have run: "ci_acc_base d \<noteq> 0" "held_in_reset (mc_read32 m log ?a)"
      "secondaries_held_in_reset m cs (log @ [HwRead32 ?a]) = (log', Inr True)"
      using Cons.prems(1) False by (auto simp: hw_simps split: if_split_asm)
    obtain es where "log' = (log @ [HwRead32 ?a]) @ es" using causes_run [OF any_hw.observes_reset run(3)] by blast
    then have "seen32 m log' ?a (mc_read32 m log ?a)" using seen_now(1) [of m log ?a es] by simp
    then show ?thesis using run Cons.IH [OF run(3)] Cons.prems(2,3) by auto
  qed
qed simp

section \<open>The first change\<close>

text \<open>Before the page is cleared it was not occupied, or every secondary was held in reset.\<close>

definition page_reclaimable :: "machine \<Rightarrow> pre_spin_table \<Rightarrow> cpu_list \<Rightarrow> hw_event list \<Rightarrow> bool" where
  "page_reclaimable m t cpus log \<longleftrightarrow>
     (\<exists>prefix. seen_bytes m log (pst_addr t) 0xb0 prefix \<and>
        (occupied_prefix prefix \<longrightarrow>
         (\<forall>c \<in> set (cl_cpus cpus). ci_reg c \<noteq> 0 \<longrightarrow>
            ci_acc_base c \<noteq> 0 \<and> (\<exists>ctl. seen32 m log (ci_acc_base c + APCS_CPU_PWR_CTL) ctl \<and> held_in_reset ctl))))"

definition clear_page :: "pre_spin_table \<Rightarrow> hw_event" where
  "clear_page t = HwWriteBytes (pst_addr t) (replicate (unat PRE_SPIN_SIZE) 0)"

lemma init_spin_table_guard:
  assumes "init_spin_table m t cpus log = (log', r)"
  obtains es where "log' = log @ es" and "list_all (\<lambda>e. \<not> changes_machine e) es" and "\<exists>e. r = Inl e"
  | es ws where "log' = log @ es @ clear_page t # ws" and "list_all (\<lambda>e. \<not> changes_machine e) es"
    and "page_reclaimable m t cpus (log @ es)" and "r = Inr ()"
proof -
  let ?l0 = "log @ [HwReadBytes (pst_addr t) 0xb0]" and ?prefix = "take 0xb0 (mc_read_bytes m log (pst_addr t) 0xb0)"
  define guard :: "unit hw" where "guard = (if occupied_prefix ?prefix then
          hw_bind (report_secondary_power m (cl_cpus cpus)) (\<lambda>_.
          hw_bind (secondaries_held_in_reset m (cl_cpus cpus)) (\<lambda>held.
          hw_lift (if held then Inr () else Inl OccupiedSpinTable)))
        else hw_ret ())"
  obtain l1 g where g: "guard ?l0 = (l1, g)" by (cases "guard ?l0")
  have "causes (\<lambda>e. \<not> changes_machine e) guard"
    unfolding guard_def
    by (auto intro!: causes_intros quiet_hw.observes quiet_hw.observes_reset)
  then obtain es where es: "l1 = ?l0 @ es" "list_all (\<lambda>e. \<not> changes_machine e) es" using causes_run g by blast
  let ?es = "HwReadBytes (pst_addr t) 0xb0 # es"
  have l1: "l1 = log @ ?es" "list_all (\<lambda>e. \<not> changes_machine e) ?es" using es by simp_all
  have run: "init_spin_table m t cpus log = hw_bind guard (\<lambda>_.
     let image = mc_resident_image m in
     if length image < unat SPIN_ENTRY_OFFSET \<or> unat SPIN_SLOTS_OFFSET < length image then hw_lift (Inl BadSpinTable)
     else
       hw_emit
         ([clear_page t, HwWriteBytes (pst_addr t) image] @
          map (\<lambda>cpu. HwWrite64 (slot_addr t cpu + SPIN_REQUEST_OFFSET) 1) [1, 2, 3] @
          [HwCleanDcache (pst_addr t) (unat PRE_SPIN_SIZE), HwInvalidateIcache (pst_addr t) (length image)])) ?l0"
    unfolding init_spin_table_def clear_page_def hw_bind_simps(7) guard_def ..
  show ?thesis
  proof (cases g)
    case (Inl e)
    then have "log' = l1" "r = Inl e" using assms run g by (simp_all add: hw_bind_def)
    then show ?thesis using that(1) l1 by blast
  next
    case (Inr u)
    have rest: "(log', r) = (let image = mc_resident_image m in
     if length image < unat SPIN_ENTRY_OFFSET \<or> unat SPIN_SLOTS_OFFSET < length image then hw_lift (Inl BadSpinTable)
     else
       hw_emit
         ([clear_page t, HwWriteBytes (pst_addr t) image] @
          map (\<lambda>cpu. HwWrite64 (slot_addr t cpu + SPIN_REQUEST_OFFSET) 1) [1, 2, 3] @
          [HwCleanDcache (pst_addr t) (unat PRE_SPIN_SIZE), HwInvalidateIcache (pst_addr t) (length image)])) l1"
      using assms run g Inr by (simp add: hw_bind_def)
    have "page_reclaimable m t cpus l1"
      unfolding page_reclaimable_def
    proof (rule exI [of _ ?prefix], intro conjI impI ballI)
      show "seen_bytes m l1 (pst_addr t) 0xb0 ?prefix" unfolding l1 by (rule seen_now)
      fix c
      assume occ: "occupied_prefix ?prefix" and c: "c \<in> set (cl_cpus cpus)" "ci_reg c \<noteq> 0"
      then obtain l where "secondaries_held_in_reset m (cl_cpus cpus) l = (l1, Inr True)"
        using g Inr by (auto simp: guard_def hw_bind_Inr hw_simps split: if_split_asm)
      then show "ci_acc_base c \<noteq> 0" "\<exists>ctl. seen32 m l1 (ci_acc_base c + APCS_CPU_PWR_CTL) ctl \<and> held_in_reset ctl"
        using secondaries_held_seen [OF _ c] by blast+
    qed
    note page = this [unfolded l1(1)]
    show ?thesis
    proof (cases "length (mc_resident_image m) < unat SPIN_ENTRY_OFFSET \<or> unat SPIN_SLOTS_OFFSET < length (mc_resident_image m)")
      case True
      then have "log' = l1" "r = Inl BadSpinTable" using rest by (simp_all add: Let_def hw_simps)
      then show ?thesis using that(1) [of ?es] l1 by blast
    next
      case False
      then have "r = Inr ()" "\<exists>ws. log' = l1 @ clear_page t # ws" using rest by (simp_all add: Let_def hw_simps)
      then show ?thesis using that(2) [OF _ l1(2) page] l1(1) by auto
    qed
  qed
qed

section \<open>The stages of \<open>prepare_fdt\<close>\<close>

text \<open>All that can be refused without the hardware has been checked; \<open>patched\<close> is the blob.\<close>

definition checks_passed :: "machine \<Rightarrow> nat \<Rightarrow> u64 \<Rightarrow> u64 \<Rightarrow> pre_reader \<Rightarrow> pre_spin_table \<Rightarrow> cpu_list \<Rightarrow> bytes \<Rightarrow> bool" where
  "checks_passed m fdt payload payload_size r t cpus patched \<longleftrightarrow>
     read_mpidr m = 0 \<and> cache_mmu_off m \<and> mc_cntfrq m \<noteq> 0 \<and> mc_cpuectlr m AND CPUECTLR_SMPEN \<noteq> 0 \<and>
     reader_from_ptr (mc_memory m) fdt = Inr r \<and> find_spin_table r = Inr t \<and>
     validate_memory (mc_image_start m) r t payload payload_size = Inr () \<and> collect_cpus r = Inr cpus \<and>
     patch_fdt r (replicate PRE_MAX_DTB_SIZE 0) t = Inr patched"

definition resident_handoff :: "machine \<Rightarrow> pre_spin_table \<Rightarrow> bytes \<Rightarrow> bytes hw" where
  "resident_handoff m t patched =
     hw_bind (read_memory m (pst_addr t) 0xb8) (\<lambda>prefix.
     hw_bind (hw_lift (validate_resident_descriptor prefix)) (\<lambda>_.
     hw_bind (validate_parked_slots m t (mc_current_el m)) (\<lambda>_.
     hw_bind (if has_coherency_diagnostics prefix then hw_each (report_secondary_coherency m t) [1, 2, 3] else hw_ret ()) (\<lambda>_.
     hw_ret patched))))"

definition cold_handoff :: "machine \<Rightarrow> pre_spin_table \<Rightarrow> cpu_list \<Rightarrow> bytes \<Rightarrow> bytes hw" where
  "cold_handoff m t cpus patched =
     hw_bind (init_spin_table m t cpus) (\<lambda>_.
     hw_bind (set_boot_addr_mc m (code_addr t) (BOOT_MC_FLAG_AARCH64 OR BOOT_MC_FLAG_COLDBOOT)) (\<lambda>_.
     hw_bind (hw_each (boot_secondary m t) (cl_cpus cpus)) (\<lambda>_.
     hw_ret patched)))"

lemma hw_bind_lift: "hw_bind (hw_lift x) f log = (case x of Inl e \<Rightarrow> (log, Inl e) | Inr v \<Rightarrow> f v log)"
  by (cases x) (simp_all add: hw_bind_simps)

lemma require_coherency_Inr: "require_coherency v = Inr u \<longleftrightarrow> v AND CPUECTLR_SMPEN \<noteq> 0"
  by (simp add: require_coherency_def)

lemma prepare_stages:
  assumes "prepare_fdt_inner m fdt payload payload_size [] = (log, res)"
  shows "(log = [] \<and> (\<exists>e. res = Inl e)) \<or>
    (\<exists>r t cpus patched. checks_passed m fdt payload payload_size r t cpus patched \<and>
       (if cl_mode cpus = Resident then resident_handoff m t patched else cold_handoff m t cpus patched)
         [HwCleanDcache (mc_scratch m) (length patched)] = (log, res))"
proof -
  have start: "(if read_mpidr m \<noteq> 0 \<or> \<not> cache_mmu_off m \<or> mc_cntfrq m = 0 then hw_lift (Inl EntryState)
      else
      hw_bind (hw_lift (require_coherency (mc_cpuectlr m))) (\<lambda>_.
      hw_bind (hw_lift (fdt_q (reader_from_ptr (mc_memory m) fdt))) (\<lambda>r.
      hw_bind (hw_lift (find_spin_table r)) (\<lambda>t.
      hw_bind (hw_lift (validate_memory (mc_image_start m) r t payload payload_size)) (\<lambda>_.
      hw_bind (hw_lift (collect_cpus r)) (\<lambda>cpus.
      hw_bind (hw_lift (patch_fdt r (replicate PRE_MAX_DTB_SIZE 0) t)) (\<lambda>patched.
      hw_bind (hw_emit [HwCleanDcache (mc_scratch m) (length patched)]) (\<lambda>_.
      if cl_mode cpus = Resident then resident_handoff m t patched else cold_handoff m t cpus patched)))))))) [] = (log, res)"
    using assms unfolding prepare_fdt_inner_def resident_handoff_def cold_handoff_def .
  show ?thesis
  proof (cases "read_mpidr m \<noteq> 0 \<or> \<not> cache_mmu_off m \<or> mc_cntfrq m = 0")
    case True
    then show ?thesis using start by (auto simp: hw_simps)
  next
    case False
    then show ?thesis
      using start unfolding if_not_P [OF False] hw_bind_lift checks_passed_def
      by (auto simp: require_coherency_Inr convert_def hw_bind_simps(4) dest: sym [of "Inl _"] split: sum.split_asm if_split_asm)
  qed
qed

text \<open>The rest of a cold start only adds events.\<close>

lemma smc_adds: "causes (\<lambda>e. True) (smc_loop n m args x0 cookie)" "causes (\<lambda>e. True) (scm_attempts k m args)"
proof -
  have insn: "causes (\<lambda>e. True) (smc_insn m xs)" for xs by (auto simp: causes_def smc_insn_def)
  show loop: "causes (\<lambda>e. True) (smc_loop n m args x0 cookie)" for n x0 cookie args
    by (induction n arbitrary: x0 cookie) (auto intro!: causes_intros insn)
  show "causes (\<lambda>e. True) (scm_attempts k m args)"
    by (induction k) (auto intro!: causes_intros loop simp: smc_do_def Let_def)
qed

lemma set_boot_addr_adds: "causes (\<lambda>e. True) (set_boot_addr_mc m entry flags)"
proof -
  have call: "causes (\<lambda>e. True) (scm_call m conv svc cmd n args fast)" for conv svc cmd n args fast
    unfolding scm_call_def Let_def by (auto intro!: causes_intros smc_adds)
  have avail: "causes (\<lambda>e. True) (is_call_available m conv svc cmd fast)" for conv svc cmd fast
    unfolding is_call_available_def Let_def by (auto intro!: causes_intros call)
  have probe: "causes (\<lambda>e. True) (probe_loop m cs)" for cs
  proof (induction cs)
    case (Cons c cs)
    show ?case
      unfolding causes_def
    proof
      fix log
      obtain l r where run: "is_call_available m c SVC_INFO INFO_IS_CALL_AVAIL True log = (l, r)" by fastforce
      obtain es where es: "l = log @ es" using causes_run [OF avail run] by blast
      obtain es' where "fst (probe_loop m cs l) = l @ es'" using Cons unfolding causes_def by blast
      then show "\<exists>es. fst (probe_loop m (c # cs) log) = log @ es \<and> list_all (\<lambda>e. True) es"
        using run es by (auto simp: list_all_iff)
    qed
  qed simp
  show ?thesis
    unfolding set_boot_addr_mc_def probe_convention_def by (auto intro!: causes_intros call avail probe simp del: probe_loop.simps)
qed

lemma boot_secondary_adds: "causes (\<lambda>e. True) (boot_secondary m t cpu)"
proof -
  have wait: "causes (\<lambda>e. True) (wait_ack n m a)" for n a
    by (induction n) (auto intro!: causes_intros)
  have "causes (\<lambda>e. True) (boot_cortex_a53 b)" for b
    unfolding boot_cortex_a53_def Let_def by (rule causes_simps) (simp add: list_all_iff)
  then show ?thesis
    unfolding boot_secondary_def by (auto intro!: causes_intros wait any_hw.observes)
qed

lemma first_split:
  "xs @ x # ys = us @ u # vs \<Longrightarrow> P x \<Longrightarrow> P u \<Longrightarrow> \<forall>z \<in> set xs. \<not> P z \<Longrightarrow> \<forall>z \<in> set us. \<not> P z \<Longrightarrow> xs = us \<and> x = u"
proof (induction xs arbitrary: us)
  case Nil
  then show ?case by (cases us) auto
next
  case (Cons z xs)
  then show ?case by (cases us) auto
qed

lemma prepare_fdt_run: "prepare_fdt m fdt payload payload_size = (log, out) \<longleftrightarrow>
  (\<exists>res. prepare_fdt_inner m fdt payload payload_size [] = (log, res) \<and> out = (case res of Inl _ \<Rightarrow> None | Inr b \<Rightarrow> Some b))"
  by (auto simp: prepare_fdt_def split: prod.splits sum.splits)

lemma first_change:
  assumes "prepare_fdt m fdt payload payload_size = (log, out)" and "log = before @ e # after" and "changes_machine e"
    and "\<forall>x \<in> set before. \<not> changes_machine x"
  shows "\<exists>r t cpus patched. checks_passed m fdt payload payload_size r t cpus patched \<and> cl_mode cpus = Cold \<and>
    e = clear_page t \<and> page_reclaimable m t cpus before"
proof -
  obtain res where res: "prepare_fdt_inner m fdt payload payload_size [] = (log, res)" using assms(1) by (auto simp: prepare_fdt_run)
  obtain r t cpus patched where ok: "checks_passed m fdt payload payload_size r t cpus patched"
      and tail: "(if cl_mode cpus = Resident then resident_handoff m t patched else cold_handoff m t cpus patched)
        [HwCleanDcache (mc_scratch m) (length patched)] = (log, res)"
    using prepare_stages [OF res] assms(2) by auto
  let ?l0 = "[HwCleanDcache (mc_scratch m) (length patched)]"
  have cold: "cl_mode cpus = Cold"
  proof (rule ccontr)
    assume "cl_mode cpus \<noteq> Cold"
    then have run: "resident_handoff m t patched ?l0 = (log, res)" using tail by (cases "cl_mode cpus") auto
    have "causes (\<lambda>e. \<not> changes_machine e) (resident_handoff m t patched)"
      unfolding resident_handoff_def by (auto intro!: causes_intros quiet_hw.observes)
    then obtain es where "log = ?l0 @ es" "list_all (\<lambda>e. \<not> changes_machine e) es" using causes_run run by blast
    then have "\<forall>x \<in> set log. \<not> changes_machine x" by (auto simp: list_all_iff)
    then show False using assms(2,3) by auto
  qed
  obtain l1 g where g: "init_spin_table m t cpus ?l0 = (l1, g)" by fastforce
  have cleared: "\<exists>es rest. log = (?l0 @ es) @ clear_page t # rest \<and> list_all (\<lambda>e. \<not> changes_machine e) es \<and>
      page_reclaimable m t cpus (?l0 @ es)"
  proof (rule init_spin_table_guard [OF g])
    fix es
    assume es: "l1 = ?l0 @ es" "list_all (\<lambda>e. \<not> changes_machine e) es" "\<exists>e. g = Inl e"
    then have "log = l1" using tail cold g by (auto simp: cold_handoff_def hw_bind_def)
    then have "\<forall>x \<in> set log. \<not> changes_machine x" using es by (auto simp: list_all_iff)
    then show ?thesis using assms(2,3) by auto
  next
    fix es ws
    assume es: "l1 = ?l0 @ es @ clear_page t # ws" "list_all (\<lambda>e. \<not> changes_machine e) es"
      "page_reclaimable m t cpus (?l0 @ es)" "g = Inr ()"
    define later where "later = hw_bind (set_boot_addr_mc m (code_addr t) (BOOT_MC_FLAG_AARCH64 OR BOOT_MC_FLAG_COLDBOOT)) (\<lambda>_.
        hw_bind (hw_each (boot_secondary m t) (cl_cpus cpus)) (\<lambda>_. hw_ret patched))"
    have run: "later l1 = (log, res)" using tail cold g es(4) by (simp add: cold_handoff_def later_def hw_bind_run)
    have "causes (\<lambda>e. True) later"
      unfolding later_def by (intro causes_intros set_boot_addr_adds boot_secondary_adds causes_simps)
    then obtain rest where "log = l1 @ rest" using causes_run run by blast
    then have "log = (?l0 @ es) @ clear_page t # ws @ rest" using es(1) by simp
    then show ?thesis using es(2,3) by blast
  qed
  then obtain es rest where es: "log = (?l0 @ es) @ clear_page t # rest" "list_all (\<lambda>e. \<not> changes_machine e) es"
      "page_reclaimable m t cpus (?l0 @ es)" by blast
  have "before = ?l0 @ es \<and> e = clear_page t"
    by (rule first_split [where P = changes_machine, OF _ assms(3) _ assms(4)])
      (use es(1,2) assms(2) in \<open>auto simp: clear_page_def list_all_iff\<close>)
  then show ?thesis using ok cold es(3) by blast
qed

section \<open>The secondaries are parked\<close>

text \<open>
  What was read of a secondary: it acknowledged the request it was given and entered at the
  exception level of the primary; after a cold start its caches are coherent, and one that was
  already resident has no release address.
\<close>

definition secondary_parked :: "machine \<Rightarrow> pre_spin_table \<Rightarrow> boot_mode \<Rightarrow> hw_event list \<Rightarrow> u32 \<Rightarrow> bool" where
  "secondary_parked m t mode log cpu \<longleftrightarrow>
     (\<exists>request. request \<noteq> 0 \<and> seen64 m log (ack_addr t cpu) request \<and>
        (case mode of
           Cold \<Rightarrow> request = 1 \<and> (\<exists>v. seen64 m log (slot_addr t cpu + SPIN_CPUECTLR_OFFSET) v \<and> v AND CPUECTLR_SMPEN \<noteq> 0)
         | Resident \<Rightarrow> seen64 m log (slot_addr t cpu + SPIN_REQUEST_OFFSET) request \<and> seen64 m log (slot_addr t cpu) 0)) \<and>
     seen64 m log (slot_addr t cpu + SPIN_ENTRY_EL_OFFSET) (mc_current_el m)"

lemma secondary_parked_append: "secondary_parked m t mode log cpu \<Longrightarrow> secondary_parked m t mode (log @ es) cpu"
  unfolding secondary_parked_def by (cases mode) (auto dest: seen_append(2) [of _ _ _ _ es])

lemma hw_each_ran:
  assumes "hw_each f xs log = (log', Inr ())" and "\<And>x. causes (\<lambda>e. True) (f x)" and "x \<in> set xs"
  shows "\<exists>l l' es. f x l = (l', Inr ()) \<and> log' = l' @ es"
  using assms(1,3)
proof (induction xs arbitrary: log)
  case (Cons y ys)
  obtain l1 where l1: "f y log = (l1, Inr ())" "hw_each f ys l1 = (log', Inr ())" using Cons.prems(1) by (auto simp: hw_bind_Inr)
  have "causes (\<lambda>e. True) (hw_each f ys)" by (intro causes_each assms(2))
  then obtain es where "log' = l1 @ es" using causes_run l1(2) by blast
  then show ?case using Cons.IH [OF l1(2)] Cons.prems(2) l1(1) by auto
qed simp

lemma seen64_at: "log = pre @ HwRead64 a # post \<Longrightarrow> mc_read64 m pre a = v \<Longrightarrow> seen64 m log a v"
  by (auto simp: seen64_def)

lemma validate_slot_parked:
  assumes "validate_slot m t (mc_current_el m) cpu log = (log', Inr ())"
  shows "secondary_parked m t Resident log' cpu"
proof -
  let ?s = "slot_addr t cpu"
  let ?r = "mc_read64 m log (?s + SPIN_REQUEST_OFFSET)"
  let ?l1 = "log @ [HwRead64 (?s + SPIN_REQUEST_OFFSET)]"
  let ?l2 = "?l1 @ [HwRead64 ?s]"
  let ?l3 = "?l2 @ [HwRead64 (?s + SPIN_ACK_OFFSET)]"
  let ?l4 = "?l3 @ [HwRead64 (?s + SPIN_ENTRY_EL_OFFSET)]"
  let ?l5 = "?l4 @ [HwRead64 (?s + SPIN_REQUEST_OFFSET)]"
  have run: "?r \<noteq> 0" "mc_read64 m ?l1 ?s = 0" "mc_read64 m ?l2 (?s + SPIN_ACK_OFFSET) = ?r"
      "mc_read64 m ?l3 (?s + SPIN_ENTRY_EL_OFFSET) = mc_current_el m" and log': "log' = ?l5 @ [HwRead64 ?s]"
    using assms by (auto simp: validate_slot_def Let_def hw_simps split: if_split_asm)
  have "seen64 m log' (?s + SPIN_REQUEST_OFFSET) ?r" by (rule seen64_at [where pre = log]) (auto simp: log')
  moreover have "seen64 m log' ?s 0" by (rule seen64_at [where pre = ?l1, OF _ run(2)]) (auto simp: log')
  moreover have "seen64 m log' (?s + SPIN_ACK_OFFSET) ?r" by (rule seen64_at [where pre = ?l2, OF _ run(3)]) (auto simp: log')
  moreover have "seen64 m log' (?s + SPIN_ENTRY_EL_OFFSET) (mc_current_el m)"
    by (rule seen64_at [where pre = ?l3, OF _ run(4)]) (auto simp: log')
  ultimately show ?thesis using run(1) unfolding secondary_parked_def ack_addr_def by auto
qed

lemma wait_ack_seen: "wait_ack n m a log = (log', Inr True) \<Longrightarrow> seen64 m log' a 1"
proof (induction n arbitrary: log)
  case (Suc n)
  show ?case
  proof (cases "mc_read64 m log a = 1")
    case True
    then show ?thesis using Suc.prems seen_now(2) [of m log a "[]"] by (simp add: hw_simps)
  next
    case False
    then show ?thesis using Suc.IH Suc.prems by (simp add: hw_simps)
  qed
qed (simp add: hw_simps)

lemma boot_secondary_parked:
  assumes "boot_secondary m t cpu log = (log', Inr ())" and "ci_reg cpu \<noteq> 0"
  shows "secondary_parked m t Cold log' (ci_reg cpu)"
proof -
  let ?s = "slot_addr t (ci_reg cpu)"
  obtain l0 l1 where run: "boot_cortex_a53 (ci_acc_base cpu) log = (l0, Inr ())"
      "wait_ack (STARTUP_TIMEOUT_US div 10) m (ack_addr t (ci_reg cpu)) l0 = (l1, Inr True)"
      "mc_read64 m l1 (?s + SPIN_ENTRY_EL_OFFSET) = mc_current_el m"
      "report_secondary_coherency m t (ci_reg cpu) (l1 @ [HwRead64 (?s + SPIN_ENTRY_EL_OFFSET)]) = (log', Inr ())"
    using assms by (auto simp: boot_secondary_def hw_bind_Inr hw_simps split: if_split_asm)
  let ?l2 = "l1 @ [HwRead64 (?s + SPIN_ENTRY_EL_OFFSET)]"
  have coh: "mc_read64 m ?l2 (?s + SPIN_CPUECTLR_OFFSET) AND CPUECTLR_SMPEN \<noteq> 0" and log': "log' = ?l2 @ [HwRead64 (?s + SPIN_CPUECTLR_OFFSET)]"
    using run(4) by (auto simp: report_secondary_coherency_def hw_simps require_coherency_Inr)
  have "seen64 m log' (ack_addr t (ci_reg cpu)) 1" using seen_append(2) [OF wait_ack_seen [OF run(2)]] by (simp add: log')
  moreover have "seen64 m log' (?s + SPIN_ENTRY_EL_OFFSET) (mc_current_el m)"
    by (rule seen64_at [where pre = l1, OF _ run(3)]) (simp add: log')
  moreover have "seen64 m log' (?s + SPIN_CPUECTLR_OFFSET) (mc_read64 m ?l2 (?s + SPIN_CPUECTLR_OFFSET))"
    by (rule seen64_at [where pre = ?l2, OF _ refl]) (simp add: log')
  ultimately show ?thesis using coh unfolding secondary_parked_def by auto
qed

section \<open>The blob in memory\<close>

lemma slice_mem_slice: "b \<le> n \<Longrightarrow> slice (mem_slice mem p n) a b = map mem [p + a..<p + b]"
  by (cases "a \<le> b") (simp_all add: mem_slice_def slice_def take_map drop_map take_upt drop_upt)

lemma pre_header_total: "pre_header_parse data = Inr h \<Longrightarrow> totalsize h = unat (from_be_bytes (slice data 4 8) :: u32)"
  unfolding pre_header_parse_def by (auto simp: Let_def split: if_split_asm)

lemma reader_from_ptr_data:
  assumes "reader_from_ptr mem p = Inr r"
  shows "reader_new p (rd_data r) = Inr r \<and> p + length (rd_data r) < 2 ^ 64 \<and> length (rd_data r) \<le> 512 * 1024"
proof -
  let ?h = "mem_slice mem p HEADER_SIZE"
  obtain tot where tot: "pre_read_be32 ?h 4 = Inr tot" "HEADER_SIZE \<le> unat tot" "unat tot \<le> 512 * 1024"
      "p + unat tot < usize_limit" and new: "reader_new p (mem_slice mem p (unat tot)) = Inr r"
    using assms unfolding reader_from_ptr_def Let_def by (auto simp del: pre_read_be32_Inr split: if_split_asm)
  let ?d = "mem_slice mem p (unat tot)"
  obtain h where h: "pre_header_parse ?d = Inr h" "r = \<lparr>rd_addr = p, rd_data = take (totalsize h) ?d, rd_header = h\<rparr>"
    using new by (auto simp: reader_new_def)
  have "slice ?h 4 8 = slice ?d 4 8" using tot(2) by (simp add: slice_mem_slice HEADER_SIZE_def)
  then have "totalsize h = unat tot" using pre_header_total [OF h(1)] tot(1) by simp
  then have "rd_data r = ?d" using h(2) by (simp add: mem_slice_def)
  then show ?thesis using new tot(3,4) by (simp add: mem_slice_def usize_limit_def)
qed

lemma checked_contract:
  assumes "checks_passed m fdt payload payload_size r t cpus patched" and "contract_tree (rd_data r) = Inr root"
  shows "\<exists>root'. contract_tree patched = Inr root' \<and>
    (\<forall>k. spin_table_contract root' = Inr (Some k) \<longrightarrow> st_base k = pst_addr t) \<and>
    (usual_tree root \<longrightarrow> spin_table_contract root' = Inr (Some \<lparr>st_base = pst_addr t\<rparr>))"
proof -
  note ok = assms(1) [unfolded checks_passed_def]
  then have "reader_from_ptr (mc_memory m) fdt = Inr r" by simp
  note d = reader_from_ptr_data [OF this]
  show ?thesis
    by (rule handover_contract [OF _ assms(2)]) (use ok d in \<open>auto simp: PRE_MAX_DTB_SIZE_def\<close>)
qed

section \<open>The hand-over\<close>

lemma handed_over_parked:
  assumes "prepare_fdt m fdt payload payload_size = (log, Some patched)"
  shows "\<exists>r t cpus. checks_passed m fdt payload payload_size r t cpus patched \<and>
    (\<forall>cpu \<in> {1, 2, 3}. secondary_parked m t (cl_mode cpus) log cpu)"
proof -
  have "prepare_fdt_inner m fdt payload payload_size [] = (log, Inr patched)"
    using assms by (auto simp: prepare_fdt_def split: prod.split_asm sum.split_asm)
  then obtain r t cpus b where ok: "checks_passed m fdt payload payload_size r t cpus b"
      and tail: "(if cl_mode cpus = Resident then resident_handoff m t b else cold_handoff m t cpus b)
        [HwCleanDcache (mc_scratch m) (length b)] = (log, Inr patched)"
    using prepare_stages [of m fdt payload payload_size log "Inr patched"] by blast
  have "b = patched \<and> (\<forall>cpu \<in> {1, 2, 3}. secondary_parked m t (cl_mode cpus) log cpu)"
  proof (cases "cl_mode cpus")
    case Resident
    let ?prefix = "take 0xb8 (mc_read_bytes m [HwCleanDcache (mc_scratch m) (length b)] (pst_addr t) 0xb8)"
    obtain l1 l2 where l1: "validate_parked_slots m t (mc_current_el m)
          [HwCleanDcache (mc_scratch m) (length b), HwReadBytes (pst_addr t) 0xb8] = (l1, Inr ())"
        and l2: "(if has_coherency_diagnostics ?prefix then hw_each (report_secondary_coherency m t) [1, 2, 3] else hw_ret ()) l1 = (l2, Inr ())"
        and fin: "log = l2" "b = patched"
      using tail Resident by (auto simp: resident_handoff_def hw_bind_Inr hw_simps)
    have parked: "secondary_parked m t Resident l1 cpu" if cpu: "cpu \<in> {1, 2, 3}" for cpu
    proof -
      obtain k k' where k: "hw_each (validate_slot m t (mc_current_el m)) [1, 2, 3] k = (k', Inr ())" "l1 = k' @ [HwBarrier]"
        using l1 by (auto simp: validate_parked_slots_def hw_bind_Inr hw_simps split: if_split_asm)
      obtain j j' es where "validate_slot m t (mc_current_el m) cpu j = (j', Inr ())" "k' = j' @ es"
        using hw_each_ran [OF k(1) any_hw.observes(2), of cpu] cpu by auto
      then have "secondary_parked m t Resident (j' @ es @ [HwBarrier]) cpu" by (intro secondary_parked_append validate_slot_parked)
      then show ?thesis using k(2) \<open>k' = j' @ es\<close> by simp
    qed
    have "causes (\<lambda>e. True) (if has_coherency_diagnostics ?prefix then hw_each (report_secondary_coherency m t) [1, 2, 3] else hw_ret ())"
      by (intro causes_intros any_hw.observes causes_simps)
    then obtain es where "l2 = l1 @ es" using causes_run l2 by blast
    then show ?thesis using parked secondary_parked_append fin Resident by auto
  next
    case Cold
    obtain l1 l2 where l2: "hw_each (boot_secondary m t) (cl_cpus cpus) l1 = (l2, Inr ())" and fin: "log = l2" "b = patched"
      using tail Cold by (auto simp: cold_handoff_def hw_bind_Inr hw_simps)
    have "secondary_parked m t Cold l2 cpu" if cpu: "cpu \<in> {1, 2, 3}" for cpu
    proof -
      have "cpu \<in> ci_reg ` set (cl_cpus cpus)" using collect_cpus_regs(1) [of r cpus] ok cpu by (auto simp: checks_passed_def)
      then obtain c where c: "c \<in> set (cl_cpus cpus)" "ci_reg c = cpu" by auto
      obtain j j' es where j: "boot_secondary m t c j = (j', Inr ())" "l2 = j' @ es"
        using hw_each_ran [OF l2 boot_secondary_adds c(1)] by blast
      have "cpu \<noteq> 0" using cpu by auto
      then show ?thesis using boot_secondary_parked [OF j(1)] secondary_parked_append c(2) j(2) by blast
    qed
    then show ?thesis using fin Cold by auto
  qed
  then show ?thesis using ok by blast
qed

end
