(* ===== verification/MsmTotal.thy ===== *)
theory MsmTotal
  imports MsmBlob
begin

text \<open>
  \<open>patch_fdt\<close> returns a blob: where the tree can be edited and the buffer has room for the old blob
  and 1000 bytes more per node, the copy fails nowhere. What a tree needs for that is stated over
  the tree, the power domain providers included.
\<close>

section \<open>Room in the buffer\<close>

definition reached :: "nat \<Rightarrow> nat \<Rightarrow> fdt_writer \<Rightarrow> fdt_writer \<Rightarrow> bool" where
  "reached cap k w w' \<longleftrightarrow> writer_ok cap w' \<and> w_pos w' \<le> w_pos w + k"

lemma reached_trans: "reached cap k w w1 \<Longrightarrow> reached cap l w1 w2 \<Longrightarrow> k + l \<le> m \<Longrightarrow> reached cap m w w2"
  by (simp add: reached_def)

lemma reached_refl: "writer_ok cap w \<Longrightarrow> reached cap 0 w w"
  by (simp add: reached_def)

lemma reached_ok: "reached cap k w w' \<Longrightarrow> writer_ok cap w' \<and> w_pos w' \<le> w_pos w + k"
  by (simp add: reached_def)

lemma writer_write_room:
  assumes "writer_ok cap w" and "w_pos w + length bs \<le> cap" and "cap < 2 ^ 32"
  shows "\<exists>w'. writer_write w bs = Inr w' \<and> reached cap (length bs) w w'"
proof -
  have "checked_add_usize (w_pos w) (length bs) = Some (w_pos w + length bs)"
    using assms by (simp add: checked_add_usize_def usize_limit_def)
  then obtain w' where w': "writer_write w bs = Inr w'"
    using assms(1,2) by (simp add: writer_write_def writer_ok_def)
  then show ?thesis using writer_write_wrote [OF w' assms(1)] by (auto simp: reached_def emitted_def)
qed

lemma writer_pad_room:
  assumes "writer_ok cap w" and "w_pos w + 3 \<le> cap" and "cap < 2 ^ 32"
  shows "\<exists>w'. writer_pad_to w 4 = Inr w' \<and> reached cap 3 w w'"
proof -
  let ?k = "(w_pos w + 3) div 4 * 4"
  have k: "w_pos w \<le> ?k" "?k \<le> w_pos w + 3" by simp_all
  have al: "pre_align (w_pos w) 4 = Inr ?k"
    using assms by (auto simp: pre_align_4 usize_limit_def)
  obtain w' where "writer_write w (replicate (?k - w_pos w) 0) = Inr w'" "reached cap (?k - w_pos w) w w'"
    using writer_write_room [OF assms(1) _ assms(3), of "replicate (?k - w_pos w) 0"] k assms(2) by auto
  then show ?thesis
    using k(1) order_trans [OF _ k(2), of "w_pos w'"]
    by (intro exI [of _ w']) (simp add: writer_pad_to_def al writer_write_zeros_def writer_write_def reached_def)
qed

lemma pre_write_prop_room:
  assumes "writer_ok cap w" and "w_pos w + 15 + length v \<le> cap" and "cap < 2 ^ 32"
  shows "\<exists>w'. pre_write_prop w off v = Inr w' \<and> reached cap (15 + length v) w w'"
proof -
  note room = writer_write_room [OF _ _ assms(3)]
  obtain w1 where w1: "writer_write w (to_be_bytes 4 FDT_PROP) = Inr w1" "reached cap 4 w w1"
    using room [OF assms(1), of "to_be_bytes 4 FDT_PROP"] assms(2) by auto
  obtain w2 where w2: "writer_write w1 (to_be_bytes 4 (of_nat (length v) :: u32)) = Inr w2" "reached cap 4 w1 w2"
    using room [of w1 "to_be_bytes 4 (of_nat (length v) :: u32)"] reached_ok [OF w1(2)] assms(2) by auto
  obtain w3 where w3: "writer_write w2 (to_be_bytes 4 off) = Inr w3" "reached cap 4 w2 w3"
    using room [of w2 "to_be_bytes 4 off"] reached_ok [OF w1(2)] reached_ok [OF w2(2)] assms(2) by auto
  obtain w4 where w4: "writer_write w3 v = Inr w4" "reached cap (length v) w3 w4"
    using room [of w3 v] reached_ok [OF w1(2)] reached_ok [OF w2(2)] reached_ok [OF w3(2)] assms(2) by auto
  have pos: "w_pos w4 + 3 \<le> cap" "w_pos w4 \<le> w_pos w + 12 + length v"
    using reached_ok [OF w1(2)] reached_ok [OF w2(2)] reached_ok [OF w3(2)] reached_ok [OF w4(2)] assms(2) by auto
  obtain w5 where "writer_pad_to w4 4 = Inr w5" "reached cap 3 w4 w5"
    using writer_pad_room [OF _ pos(1) assms(3)] reached_ok [OF w4(2)] by auto
  then show ?thesis
    using pos(2) w1(1) w2(1) w3(1) w4(1)
    by (intro exI [of _ w5]) (simp add: pre_write_prop_def writer_write_be32_def reached_def)
qed

section \<open>Every token is copied\<close>

lemma step_nop:
  assumes "copying r sb st ps out_st cap" and "bytes_at sb c (nop_bytes @ w)" and "4 dvd c" and "writer_ok cap w0" and "w_pos w0 + 4 \<le> cap"
  shows "\<exists>w1. reached cap 4 w0 w1 \<and>
    patch_structure r sb st ps t providers c stack w0 = patch_structure r sb st ps t providers (c + 4) stack w1"
proof -
  note nop = nop_at [OF assms(2,3) copying_at(1) [OF assms(1)]]
  have len: "length (slice sb c (c + 4)) \<le> 4" by (simp add: slice_def)
  obtain w1 where "writer_write w0 (slice sb c (c + 4)) = Inr w1" "reached cap (length (slice sb c (c + 4))) w0 w1"
    using writer_write_room [OF assms(4) _ copying_at(2) [OF assms(1)], of "slice sb c (c + 4)"] assms(5) len by auto
  then show ?thesis
    using nop(1) len by (intro exI [of _ w1]) (subst patch_structure.simps, auto simp: reached_def convert_simps)
qed

lemma step_props:
  assumes "copying r sb st ps out_st cap"
  shows "props_bytes st qs u \<Longrightarrow> bytes_at sb c (u @ w) \<Longrightarrow> 4 dvd c \<Longrightarrow> writer_ok cap w0 \<Longrightarrow> w_pos w0 + length u \<le> cap \<Longrightarrow>
    \<exists>w1. reached cap (length u) w0 w1 \<and>
      patch_structure r sb st ps t providers c (ctx # up) w0 = patch_structure r sb st ps t providers (c + length u) (ctx # up) w1"
proof (induction arbitrary: c w0 rule: props_bytes.induct)
  case props_Nil
  then show ?case using reached_refl by (intro exI [of _ w0]) simp
next
  case (props_Nop qs u)
  have at: "bytes_at sb (c + 4) (u @ w)" "4 dvd c + 4" using props_Nop.prems(1,2) by (simp_all add: bytes_at_append)
  obtain w1 where w1: "reached cap 4 w0 w1"
      "patch_structure r sb st ps t providers c (ctx # up) w0 = patch_structure r sb st ps t providers (c + 4) (ctx # up) w1"
    using step_nop [OF assms _ props_Nop.prems(2,3), of "u @ w" t providers "ctx # up"] props_Nop.prems(1,4) by auto
  obtain w2 where "reached cap (length u) w1 w2"
      "patch_structure r sb st ps t providers (c + 4) (ctx # up) w1 = patch_structure r sb st ps t providers (c + 4 + length u) (ctx # up) w2"
    using props_Nop.IH [OF at, of w1] reached_ok [OF w1(1)] props_Nop.prems(4) by auto
  then show ?case using w1 reached_trans [OF w1(1)] by (auto simp: add.assoc)
next
  case (props_Cons b off v k qs u)
  note lim = copying_at(1) [OF assms]
  obtain parts where tok: "pre_next_token sb c = Inr (PreProp parts, c + length b)" and parts: "pp_nameoff parts = off"
      and at: "bytes_at sb (c + length b) (u @ w)" "4 dvd c + length b"
    using prop_at [of sb c b "u @ w" off v] props_Cons lim by (metis append_assoc)
  have sl: "slice sb c (c + length b) = b" using slice_at [of sb c b] props_Cons.prems(1) by (simp add: bytes_at_append)
  obtain w1 where w1: "(if should_skip_prop ctx k then Inr w0 else writer_write w0 b) = Inr w1" "reached cap (length b) w0 w1"
    using writer_write_room [OF props_Cons.prems(3) _ copying_at(2) [OF assms], of b] props_Cons.prems(3,4)
    by (cases "should_skip_prop ctx k") (auto simp: reached_def)
  have step: "patch_structure r sb st ps t providers c (ctx # up) w0 = patch_structure r sb st ps t providers (c + length b) (ctx # up) w1"
    using tok props_Cons(2) parts w1(1) sl
    by (subst patch_structure.simps) (auto simp: pre_string_at_eq convert_simps split: if_split_asm)
  obtain w2 where "reached cap (length u) w1 w2"
      "patch_structure r sb st ps t providers (c + length b) (ctx # up) w1 = patch_structure r sb st ps t providers (c + length b + length u) (ctx # up) w2"
    using props_Cons.IH [OF at, of w1] reached_ok [OF w1(2)] props_Cons.prems(4) by auto
  then show ?case using step reached_trans [OF w1(2)] by (auto simp: add.assoc)
qed

lemma step_cpu_props:
  assumes "copying r sb st ps out_st cap" and "node_view r o' n" and "cpu_props t providers n = Inr new"
    and "writer_ok cap w" and "w_pos w + 900 \<le> cap"
  shows "\<exists>w'. write_cpu_props r ps t providers o' w = Inr w' \<and> reached cap 900 w w'"
proof -
  note room = pre_write_prop_room [OF _ _ copying_at(2) [OF assms(1)]]
  obtain domains names reg where run: "tree_domains providers n = Inr (domains, names)" "tree_u32 n PROP_REG = Inr reg"
    using assms(3) by (auto simp: cpu_props_def)
  have len: "length domains \<le> 256" "length names \<le> 512" using tree_domains_bound [OF run(1)] by auto
  obtain w1 where w1: "(if domains = [] then Inr w
        else
          bind_io (fdt_q (pre_write_prop w (patch_offset ps NAME_POWER_DOMAINS) domains)) (\<lambda>w.
          if names = [] then Inr w else fdt_q (pre_write_prop w (patch_offset ps NAME_POWER_DOMAIN_NAMES) names))) = Inr w1"
      "reached cap 798 w w1"
  proof (cases "domains = []")
    case True
    then show ?thesis using that [of w] assms(4) by (simp add: reached_def)
  next
    case False
    obtain u where u: "pre_write_prop w (patch_offset ps NAME_POWER_DOMAINS) domains = Inr u" "reached cap (15 + length domains) w u"
      using room [OF assms(4), of domains] assms(5) len by auto
    obtain v where v: "pre_write_prop u (patch_offset ps NAME_POWER_DOMAIN_NAMES) names = Inr v" "reached cap (15 + length names) u v"
      using room [of u names] reached_ok [OF u(2)] assms(5) len by auto
    have "reached cap 798 w v" "reached cap 798 w u" using u(2) v(2) len by (auto simp: reached_def)
    then show ?thesis using that [of u] that [of v] u(1) v(1) False by (cases "names = []") (simp_all add: convert_simps)
  qed
  obtain w2 where w2: "pre_write_prop w1 (patch_offset ps NAME_ENABLE_METHOD) (zstr ''spin-table'') = Inr w2" "reached cap 26 w1 w2"
    using room [of w1 "zstr ''spin-table''"] reached_ok [OF w1(2)] assms(5) by auto
  obtain w3 where w3: "pre_write_prop w2 (patch_offset ps NAME_CPU_RELEASE_ADDR) (to_be_bytes 8 (slot_addr t reg)) = Inr w3" "reached cap 23 w2 w3"
    using room [of w2 "to_be_bytes 8 (slot_addr t reg)"] reached_ok [OF w1(2)] reached_ok [OF w2(2)] assms(5) by auto
  have "write_cpu_props r ps t providers o' w = Inr w3"
    using run w1(1) w2(1) w3(1)
    by (simp add: write_cpu_props_def domains_view [OF assms(2)] view_accessors [OF assms(2)] convert_simps)
  moreover have "reached cap 900 w w3" using w1(2) w2(2) w3(2) by (simp add: reached_def)
  ultimately show ?thesis by blast
qed

fun node_count :: "node \<Rightarrow> nat" where
  "node_count (Node name ps cs) = Suc (sum_list (map node_count cs))"

lemma map_io_ConsD: "map_io f (x # xs) = Inr ys \<Longrightarrow> \<exists>y zs. f x = Inr y \<and> map_io f xs = Inr zs \<and> ys = y # zs"
  by auto

lemma step_begin:
  assumes "copying r sb st ps out_st cap" and "bytes_at sb c (b @ z)" and "chunk b (EvBegin name)" and "4 dvd c"
    and "node_view r c n" and "nname n = name" and "\<not> MAX_DEPTH \<le> length stack" and "writer_ok cap w0"
    and "w_pos w0 + length b + 1000 \<le> cap"
    and "kind = node_kind (length stack) (pc_kind (stack_context stack)) name"
    and "disable = (pc_disable (stack_context stack) \<or> tree_is_psci n \<or> kind = KindIdleState)"
    and "(if kind = KindCpu then cpu_props t providers n else Inr []) = Inr new"
  shows "\<exists>w1. reached cap (length b + 1000) w0 w1 \<and>
    patch_structure r sb st ps t providers c stack w0 =
    patch_structure r sb st ps t providers (c + length b) (\<lparr>pc_kind = kind, pc_disable = disable\<rparr> # stack) w1"
proof -
  note tok = begin_at(1) [OF assms(2,3,4) copying_at(1) [OF assms(1)]]
  have at: "bytes_at sb c b" using assms(2) by (simp add: bytes_at_append)
  have sl: "fdt_index_slice sb c (c + length b) = Inr b"
    using slice_at [OF at] bytes_at_length [OF at] by (simp add: fdt_index_slice_def)
  obtain wa where wa: "writer_write w0 b = Inr wa" "reached cap (length b) w0 wa"
    using writer_write_room [OF assms(8) _ copying_at(2) [OF assms(1)], of b] assms(9) by auto
  obtain wb where wb: "(if kind = KindCpu then write_cpu_props r ps t providers c wa else Inr wa) = Inr wb" "reached cap 900 wa wb"
    using step_cpu_props [OF assms(1,5), of t providers new wa] reached_ok [OF wa(2)] assms(9,12)
    by (cases "kind = KindCpu") (auto simp: reached_def)
  obtain wc where wc: "(if disable then fdt_q (pre_write_prop wb (patch_offset ps NAME_STATUS) (zstr ''disabled'')) else Inr wb) = Inr wc"
      "reached cap 24 wb wc"
    using pre_write_prop_room [OF _ _ copying_at(2) [OF assms(1)], of wb "zstr ''disabled''" "patch_offset ps NAME_STATUS"]
      reached_ok [OF wa(2)] reached_ok [OF wb(2)] assms(9)
    by (cases disable) (auto simp: convert_simps reached_def)
  have "patch_structure r sb st ps t providers c stack w0 =
      patch_structure r sb st ps t providers (c + length b) (\<lparr>pc_kind = kind, pc_disable = disable\<rparr> # stack) wc"
    unfolding patch_structure.simps [of r sb st ps t providers c stack w0] tok convert_simps bind_io_simps prod.case pre_token.case
      Let_def stack_context_def [symmetric] is_psci_view [OF assms(5)] assms(10,11) [symmetric] if_not_P [OF assms(7)] sl wa(1) wb(1) wc(1)
    ..
  moreover have "reached cap (length b + 1000) w0 wc" using wa(2) wb(2) wc(2) by (simp add: reached_def)
  ultimately show ?thesis by blast
qed

lemma step_nodes:
  assumes "copying r sb st ps out_st cap"
  shows "node_bytes st n w \<Longrightarrow> bytes_at sb c w \<Longrightarrow> 4 dvd c \<Longrightarrow>
      msm_patch t providers (length stack) (stack_context stack) n = Inr n' \<Longrightarrow> writer_ok cap w0 \<Longrightarrow>
      w_pos w0 + length w + 1000 * node_count n \<le> cap \<Longrightarrow>
      \<exists>w1. reached cap (length w + 1000 * node_count n) w0 w1 \<and>
        patch_structure r sb st ps t providers c stack w0 = patch_structure r sb st ps t providers (c + length w) stack w1"
    and "nodes_bytes st cs w \<Longrightarrow> bytes_at sb c w \<Longrightarrow> 4 dvd c \<Longrightarrow>
      map_io (msm_patch t providers (length stack) (stack_context stack)) cs = Inr cs' \<Longrightarrow> writer_ok cap w0 \<Longrightarrow>
      w_pos w0 + length w + 1000 * sum_list (map node_count cs) \<le> cap \<Longrightarrow>
      \<exists>w1. reached cap (length w + 1000 * sum_list (map node_count cs)) w0 w1 \<and>
        patch_structure r sb st ps t providers c stack w0 = patch_structure r sb st ps t providers (c + length w) stack w1"
proof (induction arbitrary: c stack w0 n' and c stack w0 cs' rule: node_bytes_nodes_bytes.inducts)
  case (node_Node b name ps' u cs w)
  let ?n = "Node name ps' cs"
  let ?ctx = "stack_context stack"
  note lim = copying_at(1) [OF assms]
  have at: "bytes_at sb (c + length b) (u @ w @ end_node_bytes)" "4 dvd c + length b"
    using begin_at [OF _ node_Node(1), of sb c "u @ w @ end_node_bytes"] node_Node.prems lim by simp_all
  have at2: "bytes_at sb (c + length b + length u) w" "4 dvd c + length b + length u"
    and at3: "bytes_at sb (c + length b + length u + length w) (end_node_bytes @ [])"
      "4 dvd c + length b + length u + length w"
    using at props_bytes_dvd4 [OF node_Node(2)] node_bytes_dvd4(2) [OF node_Node(3)]
    by (simp_all add: bytes_at_append dvd_add)
  have "node_at sb st c ?n"
    using node_Node.prems(1,2) node_Node(1,2,3) unfolding node_at_def by (blast intro: node_bytes_nodes_bytes.intros)
  then have view: "node_view r c ?n" by (rule copying_at(4) [OF assms])
  define kind where "kind = node_kind (length stack) (pc_kind ?ctx) name"
  define disable where "disable = (pc_disable ?ctx \<or> tree_is_psci ?n \<or> kind = KindIdleState)"
  define here where "here = \<lparr>pc_kind = kind, pc_disable = disable\<rparr>"
  have deep: "\<not> MAX_DEPTH \<le> length stack"
    using node_Node.prems(3) unfolding msm_patch.simps Let_def by (auto split: if_split_asm)
  obtain new cs' where new: "(if kind = KindCpu then cpu_props t providers ?n else Inr []) = Inr new"
      and cs': "map_io (msm_patch t providers (length (here # stack)) (stack_context (here # stack))) cs = Inr cs'"
    using node_Node.prems(3) deep unfolding msm_patch.simps Let_def kind_def [symmetric] disable_def [symmetric] here_def [symmetric]
    by (auto simp: stack_context_def split: if_split_asm)
  have room: "w_pos w0 + (length b + length u + length w + 4) + 1000 + 1000 * sum_list (map node_count cs) \<le> cap"
    using node_Node.prems(5) by simp
  obtain wa where wa: "reached cap (length b + 1000) w0 wa"
      "patch_structure r sb st ps t providers c stack w0 = patch_structure r sb st ps t providers (c + length b) (here # stack) wa"
    using step_begin [OF assms _ node_Node(1) node_Node.prems(2) view _ deep node_Node.prems(4) _ kind_def disable_def new, of "u @ w @ end_node_bytes"]
      node_Node.prems(1) room unfolding here_def by auto
  have wa': "writer_ok cap wa" "w_pos wa \<le> w_pos w0 + length b + 1000" using reached_ok [OF wa(1)] by auto
  obtain wb where wb: "reached cap (length u) wa wb"
      "patch_structure r sb st ps t providers (c + length b) (here # stack) wa = patch_structure r sb st ps t providers (c + length b + length u) (here # stack) wb"
    using step_props [OF assms node_Node(2) at wa'(1), of t providers here stack] wa'(2) room by auto
  have wb': "writer_ok cap wb" "w_pos wb \<le> w_pos w0 + length b + 1000 + length u" using reached_ok [OF wb(1)] wa' by auto
  obtain wc where wc: "reached cap (length w + 1000 * sum_list (map node_count cs)) wb wc"
      "patch_structure r sb st ps t providers (c + length b + length u) (here # stack) wb =
        patch_structure r sb st ps t providers (c + length b + length u + length w) (here # stack) wc"
    using node_Node.IH(3) [OF at2 cs' wb'(1)] wb'(2) room by auto
  have wc': "writer_ok cap wc" "w_pos wc + 4 \<le> cap" using reached_ok [OF wc(1)] wb' room by auto
  have sl: "slice sb (c + length b + length u + length w) (c + length b + length u + length w + 4) = end_node_bytes"
    using slice_at [of sb "c + length b + length u + length w" end_node_bytes] at3(1) by simp
  obtain wd where wd: "writer_write wc end_node_bytes = Inr wd" "reached cap 4 wc wd"
    using writer_write_room [OF wc'(1) _ copying_at(2) [OF assms], of end_node_bytes] wc'(2) by auto
  have "patch_structure r sb st ps t providers (c + length b + length u + length w) (here # stack) wc =
      patch_structure r sb st ps t providers (c + length b + length u + length w + 4) stack wd"
    using end_node_at(1) [OF at3 lim] wd(1) sl by (subst patch_structure.simps) (simp add: convert_simps)
  then have "patch_structure r sb st ps t providers c stack w0 =
      patch_structure r sb st ps t providers (c + length (b @ u @ w @ end_node_bytes)) stack wd"
    using wa(2) wb(2) wc(2) by (simp add: add.assoc)
  moreover have "reached cap (length (b @ u @ w @ end_node_bytes) + 1000 * node_count ?n) w0 wd"
    using wa(1) wb(1) wc(1) wd(2) by (simp add: reached_def)
  ultimately show ?case by blast
next
  case nodes_Nil
  then show ?case using reached_refl by (intro exI [of _ w0]) simp
next
  case (nodes_Nop cs w)
  have at: "bytes_at sb (c + 4) w" "4 dvd c + 4" using nodes_Nop.prems(1,2) by (simp_all add: bytes_at_append)
  obtain w1 where w1: "reached cap 4 w0 w1"
      "patch_structure r sb st ps t providers c stack w0 = patch_structure r sb st ps t providers (c + 4) stack w1"
    using step_nop [OF assms nodes_Nop.prems(1,2,4), of t providers stack] nodes_Nop.prems(5) by auto
  obtain w2 where "reached cap (length w + 1000 * sum_list (map node_count cs)) w1 w2"
      "patch_structure r sb st ps t providers (c + 4) stack w1 = patch_structure r sb st ps t providers (c + 4 + length w) stack w2"
    using nodes_Nop.IH(2) [OF at nodes_Nop.prems(3), of w1] reached_ok [OF w1(1)] nodes_Nop.prems(5) by auto
  then show ?case using w1(2) reached_trans [OF w1(1)] by (auto simp: add.assoc)
next
  case (nodes_Cons n u cs w)
  obtain m ms where m: "msm_patch t providers (length stack) (stack_context stack) n = Inr m"
      "map_io (msm_patch t providers (length stack) (stack_context stack)) cs = Inr ms"
    using map_io_ConsD [OF nodes_Cons.prems(3)] by blast
  have at: "bytes_at sb c u" "bytes_at sb (c + length u) w" "4 dvd c + length u"
    using nodes_Cons.prems node_bytes_dvd4(1) [OF nodes_Cons(1)] by (simp_all add: bytes_at_append dvd_add)
  have room: "w_pos w0 + length u + 1000 * node_count n + (length w + 1000 * sum_list (map node_count cs)) \<le> cap"
    using nodes_Cons.prems(5) by simp
  obtain w1 where w1: "reached cap (length u + 1000 * node_count n) w0 w1"
      "patch_structure r sb st ps t providers c stack w0 = patch_structure r sb st ps t providers (c + length u) stack w1"
    using nodes_Cons.IH(2) [OF at(1) nodes_Cons.prems(2) m(1) nodes_Cons.prems(4)] room by auto
  obtain w2 where w2: "reached cap (length w + 1000 * sum_list (map node_count cs)) w1 w2"
      "patch_structure r sb st ps t providers (c + length u) stack w1 = patch_structure r sb st ps t providers (c + length u + length w) stack w2"
    using nodes_Cons.IH(4) [OF at(2,3) m(2), of w1] reached_ok [OF w1(1)] room by auto
  have "reached cap (length (u @ w) + 1000 * sum_list (map node_count (n # cs))) w0 w2"
    using w1(1) w2(1) by (simp add: reached_def)
  then show ?case using w1(2) w2(2) by (intro exI [of _ w2]) (simp add: add.assoc)
qed

section \<open>The whole blob\<close>

lemma step_nops:
  assumes "copying r sb st ps out_st cap"
  shows "nops u \<Longrightarrow> bytes_at sb c (u @ w) \<Longrightarrow> 4 dvd c \<Longrightarrow> writer_ok cap w0 \<Longrightarrow> w_pos w0 + length u \<le> cap \<Longrightarrow>
    \<exists>w1. reached cap (length u) w0 w1 \<and>
      patch_structure r sb st ps t providers c stack w0 = patch_structure r sb st ps t providers (c + length u) stack w1"
proof (induction arbitrary: c w0 rule: nops.induct)
  case nops_Nil
  then show ?case using reached_refl by (intro exI [of _ w0]) simp
next
  case (nops_Cons u)
  have at: "bytes_at sb (c + 4) (u @ w)" "4 dvd c + 4" using nops_Cons.prems(1,2) by (simp_all add: bytes_at_append)
  obtain w1 where w1: "reached cap 4 w0 w1"
      "patch_structure r sb st ps t providers c stack w0 = patch_structure r sb st ps t providers (c + 4) stack w1"
    using step_nop [OF assms _ nops_Cons.prems(2,3), of "u @ w" t providers stack] nops_Cons.prems(1,4) by auto
  obtain w2 where "reached cap (length u) w1 w2"
      "patch_structure r sb st ps t providers (c + 4) stack w1 = patch_structure r sb st ps t providers (c + 4 + length u) stack w2"
    using nops_Cons.IH [OF at, of w1] reached_ok [OF w1(1)] nops_Cons.prems(4) by auto
  then show ?case using w1(2) reached_trans [OF w1(1)] by (auto simp: add.assoc)
qed

lemma step_block:
  assumes "copying r sb st ps out_st cap" and "bytes_at sb 0 (u @ x @ v @ end_bytes)" and "nops u" and "node_bytes st root x" and "nops v"
    and "msm_patch t providers 0 OTHER_CONTEXT root = Inr root'" and "writer_ok cap w0"
    and "w_pos w0 + length sb + 1000 * node_count root \<le> cap"
  shows "\<exists>w1. reached cap (length sb + 1000 * node_count root) w0 w1 \<and> patch_structure r sb st ps t providers 0 [] w0 = Inr w1"
proof -
  have al: "4 dvd length u" "4 dvd length u + length x" "4 dvd length u + length x + length v"
    using nops_dvd4 assms(3,5) node_bytes_dvd4(1) [OF assms(4)] by (simp_all add: dvd_add)
  have pos: "bytes_at sb (length u) x" "bytes_at sb (length u + length x) (v @ end_bytes)"
    "bytes_at sb (length u + length x + length v) end_bytes"
    using assms(2) by (simp_all add: bytes_at_append add.assoc)
  have len: "length u + length x + length v + 4 \<le> length sb" using bytes_at_length [OF assms(2)] by simp
  have top: "msm_patch t providers (length []) (stack_context []) root = Inr root'" using assms(6) by (simp add: stack_context_def)
  obtain wa where wa: "reached cap (length u) w0 wa"
      "patch_structure r sb st ps t providers 0 [] w0 = patch_structure r sb st ps t providers (length u) [] wa"
    using step_nops [OF assms(1,3,2) _ assms(7), of t providers "[]"] assms(8) len by auto
  obtain wb where wb: "reached cap (length x + 1000 * node_count root) wa wb"
      "patch_structure r sb st ps t providers (length u) [] wa = patch_structure r sb st ps t providers (length u + length x) [] wb"
    using step_nodes(1) [OF assms(1,4) pos(1) al(1) top, of wa] reached_ok [OF wa(1)] assms(8) len by auto
  obtain wc where wc: "reached cap (length v) wb wc"
      "patch_structure r sb st ps t providers (length u + length x) [] wb = patch_structure r sb st ps t providers (length u + length x + length v) [] wc"
    using step_nops [OF assms(1,5) pos(2) al(2), of wb t providers "[]"] reached_ok [OF wa(1)] reached_ok [OF wb(1)] assms(8) len by auto
  have sl: "slice sb (length u + length x + length v) (length u + length x + length v + 4) = end_bytes"
    using slice_at [OF pos(3)] by simp
  obtain wd where wd: "writer_write wc end_bytes = Inr wd" "reached cap 4 wc wd"
    using writer_write_room [OF _ _ copying_at(2) [OF assms(1)], of wc end_bytes] reached_ok [OF wa(1)] reached_ok [OF wb(1)]
      reached_ok [OF wc(1)] assms(8) len by auto
  have "patch_structure r sb st ps t providers (length u + length x + length v) [] wc = Inr wd"
    using end_at [OF pos(3) al(3) copying_at(1) [OF assms(1)]] wd(1) sl by (subst patch_structure.simps) (simp add: convert_simps)
  then have "patch_structure r sb st ps t providers 0 [] w0 = Inr wd" using wa(2) wb(2) wc(2) by simp
  moreover have "reached cap (length sb + 1000 * node_count root) w0 wd"
    using wa(1) wb(1) wc(1) wd(2) len by (simp add: reached_def)
  ultimately show ?thesis by blast
qed

lemma patch_strings_total:
  assumes "length st + 80 < 2 ^ 32"
  shows "\<exists>ps. patch_strings_new st = Inr ps \<and> length (patched_strings ps st) = pst_size ps \<and> pst_size ps \<le> length st + 80"
proof -
  have one: "\<exists>p'. patch_strings_step st p n = Inr p' \<and> pst_size p' \<le> pst_size p + length n + 1" if "pst_size p + length n + 1 < 2 ^ 32" for p n
    using that by (auto simp: patch_strings_step_def checked_add_usize_def usize_limit_def convert_simps u32_len_def split: option.split)
  have "\<exists>p'. fold_io (patch_strings_step st) p ns = Inr p' \<and> pst_size p' \<le> pst_size p + sum_list (map (\<lambda>n. length n + 1) ns)"
    if "pst_size p + sum_list (map (\<lambda>n. length n + 1) ns) < 2 ^ 32" for p ns
    using that
  proof (induction ns arbitrary: p)
    case (Cons n ns)
    obtain p1 where p1: "patch_strings_step st p n = Inr p1" "pst_size p1 \<le> pst_size p + length n + 1" using one [of p n] Cons.prems by auto
    obtain p2 where "fold_io (patch_strings_step st) p1 ns = Inr p2" "pst_size p2 \<le> pst_size p1 + sum_list (map (\<lambda>n. length n + 1) ns)"
      using Cons.IH [of p1] Cons.prems p1(2) by auto
    then show ?case using p1 by (intro exI [of _ p2]) simp
  qed simp
  from this [of "\<lparr>pst_offsets = [], pst_append = [], pst_size = length st\<rparr>" PATCH_NAMES]
  obtain ps where "patch_strings_new st = Inr ps" "pst_size ps \<le> length st + 80"
    using assms by (auto simp: patch_strings_new_def PATCH_NAMES_def)
  then show ?thesis using patch_strings_ready by (intro exI [of _ ps]) (simp add: strings_ready_def patched_strings_def)
qed

lemma patch_strings_write_room:
  assumes "writer_ok cap w" and "w_pos w + length (patched_strings ps st) \<le> cap" and "cap < 2 ^ 32"
  shows "\<exists>w'. patch_strings_write ps w st = Inr w' \<and> reached cap (length (patched_strings ps st)) w w'"
proof -
  let ?f = "\<lambda>w (append, name). if append then bind_io (fdt_q (writer_write w name)) (\<lambda>w. fdt_q (writer_write w [0])) else Inr w"
  have zs: "\<exists>u'. fold_io ?f u zs = Inr u' \<and> reached cap (length (concat (map (\<lambda>(a, n). if a then n @ [0] else []) zs))) u u'"
    if "writer_ok cap u" "w_pos u + length (concat (map (\<lambda>(a, n). if a then n @ [0 :: u8] else []) zs)) \<le> cap" for u zs
    using that
  proof (induction zs arbitrary: u)
    case Nil
    then show ?case using reached_refl by (intro exI [of _ u]) simp
  next
    case (Cons z zs)
    obtain a n where z: "z = (a, n)" by (cases z)
    let ?k = "if a then length n + 1 else 0"
    have room: "w_pos u + ?k + length (concat (map (\<lambda>(a, n). if a then n @ [0 :: u8] else []) zs)) \<le> cap"
      using Cons.prems(2) z by (cases a) simp_all
    obtain v where v: "?f u z = Inr v" "reached cap ?k u v"
    proof (cases a)
      case True
      obtain u1 where u1: "writer_write u n = Inr u1" "reached cap (length n) u u1"
        using writer_write_room [OF Cons.prems(1) _ assms(3), of n] room True by auto
      obtain u2 where u2: "writer_write u1 [0] = Inr u2" "reached cap 1 u1 u2"
        using writer_write_room [OF _ _ assms(3), of u1 "[0]"] reached_ok [OF u1(2)] room True by auto
      show ?thesis using that [of u2] u1(1) u2(1) reached_trans [OF u1(2) u2(2)] True z by (simp add: convert_simps)
    next
      case False
      then show ?thesis using that [of u] reached_refl [OF Cons.prems(1)] z by simp
    qed
    obtain v' where v': "fold_io ?f v zs = Inr v'" "reached cap (length (concat (map (\<lambda>(a, n). if a then n @ [0 :: u8] else []) zs))) v v'"
      using Cons.IH [of v] reached_ok [OF v(2)] room by auto
    have "fold_io ?f u (z # zs) = Inr v'" using v(1) v'(1) by (simp only: fold_io.simps bind_io_simps)
    moreover have "reached cap (length (concat (map (\<lambda>(a, n). if a then n @ [0 :: u8] else []) (z # zs)))) u v'"
      using reached_trans [OF v(2) v'(2)] z by simp
    ultimately show ?case by blast
  qed
  have len: "length (patched_strings ps st) = length st + length (concat (map (\<lambda>(a, n). if a then n @ [0 :: u8] else []) (zip (pst_append ps) PATCH_NAMES)))"
    by (simp only: patched_strings_def appended_def length_append)
  obtain w1 where w1: "writer_write w st = Inr w1" "reached cap (length st) w w1"
    using writer_write_room [OF assms(1) _ assms(3), of st] assms(2) len by auto
  obtain w2 where w2: "fold_io ?f w1 (zip (pst_append ps) PATCH_NAMES) = Inr w2"
      "reached cap (length (concat (map (\<lambda>(a, n). if a then n @ [0 :: u8] else []) (zip (pst_append ps) PATCH_NAMES)))) w1 w2"
    using zs [of w1 "zip (pst_append ps) PATCH_NAMES"] reached_ok [OF w1(2)] assms(2) len by auto
  then show ?thesis
    using w1(1) reached_trans [OF w1(2) w2(2)] len by (intro exI [of _ w2]) (simp add: patch_strings_write_def convert_simps)
qed

lemma pre_write_header_room:
  assumes "40 \<le> length (w_output w)" and "tot < 2 ^ 32" and "os < 2 ^ 32" and "ost < 2 ^ 32" and "ss < 2 ^ 32" and "sst < 2 ^ 32"
  shows "\<exists>w'. pre_write_header w h tot os ost ss sst = Inr w'"
proof -
  have step: "\<exists>b'. pre_write_be32_at b off v = Inr b' \<and> length b' = length b" if "off + 4 \<le> 40" "40 \<le> length b" for b off v
    using that by (auto simp: usize_limit_def)
  have len: "u32_len n = Inr (of_nat n)" if "n < 2 ^ 32" for n using that by simp
  let ?P = "\<lambda>b b'. length (b' :: bytes) = length b"
  obtain b0 where b0: "pre_write_be32_at (w_output w) 0 FDT_MAGIC = Inr b0" "?P (w_output w) b0" using step [of 0 "w_output w"] assms(1) by auto
  obtain b1 where b1: "pre_write_be32_at b0 4 (of_nat tot) = Inr b1" "?P b0 b1" using step [of 4 b0] assms(1) b0(2) by auto
  obtain b2 where b2: "pre_write_be32_at b1 8 (of_nat os) = Inr b2" "?P b1 b2" using step [of 8 b1] assms(1) b0(2) b1(2) by auto
  obtain b3 where b3: "pre_write_be32_at b2 12 (of_nat ost) = Inr b3" "?P b2 b3" using step [of 12 b2] assms(1) b0(2) b1(2) b2(2) by auto
  have "40 \<le> length b3" using assms(1) b0(2) b1(2) b2(2) b3(2) by simp
  then obtain b4 where b4: "pre_write_be32_at b3 16 (of_nat HEADER_SIZE) = Inr b4" "40 \<le> length b4" using step [of 16 b3] by fastforce
  obtain b5 where b5: "pre_write_be32_at b4 20 (version h) = Inr b5" "40 \<le> length b5" using step [of 20 b4] b4(2) by fastforce
  obtain b6 where b6: "pre_write_be32_at b5 24 (last_comp_version h) = Inr b6" "40 \<le> length b6" using step [of 24 b5] b5(2) by fastforce
  obtain b7 where b7: "pre_write_be32_at b6 28 (boot_cpuid_phys h) = Inr b7" "40 \<le> length b7" using step [of 28 b6] b6(2) by fastforce
  obtain b8 where b8: "pre_write_be32_at b7 32 (of_nat sst) = Inr b8" "40 \<le> length b8" using step [of 32 b7] b7(2) by fastforce
  obtain b9 where b9: "pre_write_be32_at b8 36 (of_nat ss) = Inr b9" using step [of 36 b8] b8(2) by fastforce
  show ?thesis
    unfolding pre_write_header_def len [OF assms(2)] len [OF assms(3)] len [OF assms(4)] len [OF assms(5)] len [OF assms(6)]
      b0(1) b1(1) b2(1) b3(1) b4(1) b5(1) b6(1) b7(1) b8(1) b9 bind_io_simps by blast
qed

theorem patch_fdt_total:
  assumes "reader_tree r root" and "reader_reserve_map r = Inr rm" and "reader_struct_block r = Inr sb" and "reader_strings r = Inr st"
    and "reader_root r = Inr 0" and "msm_edit t root = Inr root'"
    and "length rm + length sb + length st + 1000 * node_count root + 200 \<le> length out0" and "length out0 < 2 ^ 32"
  shows "\<exists>patched. patch_fdt r out0 t = Inr patched"
proof -
  obtain u x v where at: "bytes_at sb 0 (u @ x @ v @ end_bytes)" "nops u" "node_bytes st root x" "nops v" "length sb + 8 < usize_limit"
    using reader_treeE [OF assms(1)] assms(3,4) by (metis Inr_inject)
  obtain providers where edit: "tree_providers MAX_DEPTH root False [] = Inr providers" "msm_patch t providers 0 OTHER_CONTEXT root = Inr root'"
    using assms(6) by (auto simp: msm_edit_def)
  have pv: "pre_power_domain_providers r = Inr providers"
    using providers_view [of r 0 root] reader_root_view [OF assms(1,5)] edit(1) by (simp add: pre_power_domain_providers_def assms(5) convert_simps)
  define cap where "cap = length out0"
  note small = assms(8) [folded cap_def] and room = assms(7) [folded cap_def]
  obtain ps where ps: "patch_strings_new st = Inr ps" "length (patched_strings ps st) = pst_size ps" "pst_size ps \<le> length st + 80"
    using patch_strings_total [of st] room small by auto
  have cp: "copying r sb st ps (patched_strings ps st) cap"
    using assms(3,4) at(5) small patch_strings_at [OF ps(1)] by (auto simp: copying_def patched_strings_def)
  have ok0: "writer_ok cap (writer_new out0)" "w_pos (writer_new out0) = 0" by (simp_all add: writer_ok_def writer_new_def cap_def)
  obtain wa where wa: "writer_reserve (writer_new out0) 40 = Inr wa" "reached cap 40 (writer_new out0) wa"
    using writer_write_room [OF ok0(1) _ small, of "replicate 40 0"] ok0(2) room
    by (auto simp: writer_reserve_def writer_write_zeros_def writer_write_def)
  obtain wb where wb: "writer_write wa rm = Inr wb" "reached cap (length rm) wa wb"
    using writer_write_room [OF _ _ small, of wa rm] reached_ok [OF wa(2)] ok0(2) room by auto
  obtain wc where wc: "writer_pad_to wb 4 = Inr wc" "reached cap 3 wb wc"
    using writer_pad_room [OF _ _ small, of wb] reached_ok [OF wa(2)] reached_ok [OF wb(2)] ok0(2) room by auto
  have posc: "writer_ok cap wc" "w_pos wc \<le> 43 + length rm"
    using reached_ok [OF wa(2)] reached_ok [OF wb(2)] reached_ok [OF wc(2)] ok0(2) by auto
  obtain wd where wd: "patch_structure r sb st ps t providers 0 [] wc = Inr wd" "reached cap (length sb + 1000 * node_count root) wc wd"
    using step_block [OF cp at(1-4) edit(2) posc(1)] posc(2) room by auto
  have posd: "writer_ok cap wd" "w_pos wd + length (patched_strings ps st) \<le> cap"
    using reached_ok [OF wd(2)] posc(2) ps(2,3) room by auto
  obtain we where we: "patch_strings_write ps wd st = Inr we" using patch_strings_write_room [OF posd small] by auto
  note e = patch_strings_write_wrote [OF we posd(1)]
  have pose: "w_pos we = w_pos wd + pst_size ps" "w_pos we \<le> cap" "length (w_output we) = cap"
    using e ps(2) by (simp_all add: emitted_def writer_ok_def)
  have szs: "w_pos we < 2 ^ 32" "w_pos wc < 2 ^ 32" "w_pos wd < 2 ^ 32" "w_pos wd - w_pos wc < 2 ^ 32" "w_pos we - w_pos wd < 2 ^ 32"
    using pose posd posc small room by (auto simp: writer_ok_def)
  obtain wf' where "pre_write_header we (rd_header r) (w_pos we) (w_pos wc) (w_pos wd) (w_pos wd - w_pos wc) (w_pos we - w_pos wd) = Inr wf'"
    using pre_write_header_room [OF _ szs(1,2,3,4,5), of we "rd_header r"] pose(3) room by auto
  then have "patch_fdt r out0 t = Inr (writer_finish wf')"
    using pose(1)
    by (simp add: patch_fdt_def assms(2-4) pv ps(1) wa(1) wb(1) wc(1) wd(1) we convert_simps Let_def del: bind_io_eq_Inr)
  then show ?thesis by blast
qed

end
