(* ===== verification/MsmAccept.thy ===== *)
theory MsmAccept
  imports MsmTotal
begin

text \<open>
  The preboot reader on blobs of the kexec loader. A tree that the loader wrote is accepted by
  \<open>Reader::new\<close> and \<open>Reader::from_ptr\<close> and read back as the same tree with the same reserve map, so the two
  programs can follow each other on one machine.
\<close>

section \<open>Header and reserve map\<close>

lemma pre_header_of:
  assumes "fdt_header_parse data = Inr h" and "17 \<le> version h" and "last_comp_version h \<le> 17"
    and "40 \<le> off_dt_struct h" and "off_dt_struct h mod 4 = 0" and "40 \<le> off_dt_strings h"
    and "40 \<le> off_mem_rsvmap h" and "off_mem_rsvmap h mod 8 = 0"
  shows "pre_header_parse data = Inr h"
proof -
  have rd: "pre_read_be32 data off = Inr v" if "read_be32 data off = Inr v" for off v using that by simp
  obtain tot os ost rsv ver last cpu ss sst where
      reads: "read_be32 data 0 = Inr FDT_MAGIC" "read_be32 data 4 = Inr tot" "read_be32 data 8 = Inr os"
        "read_be32 data 12 = Inr ost" "read_be32 data 16 = Inr rsv" "read_be32 data 20 = Inr ver"
        "read_be32 data 24 = Inr last" "read_be32 data 28 = Inr cpu" "read_be32 data 32 = Inr ss"
        "read_be32 data 36 = Inr sst"
      and chk: "40 \<le> length data" "40 \<le> totalsize h" "totalsize h \<le> length data"
        "off_dt_struct h + size_dt_struct h < usize_limit" "off_dt_struct h + size_dt_struct h \<le> totalsize h"
        "off_dt_strings h + size_dt_strings h < usize_limit" "off_dt_strings h + size_dt_strings h \<le> totalsize h"
        "\<not> totalsize h \<le> off_mem_rsvmap h"
      and h: "h = \<lparr>totalsize = unat tot, off_dt_struct = unat os, off_dt_strings = unat ost,
            off_mem_rsvmap = unat rsv, version = ver, last_comp_version = last, boot_cpuid_phys = cpu,
            size_dt_strings = unat ss, size_dt_struct = unat sst\<rparr>"
    using assms(1) unfolding fdt_header_parse_def Let_def if_Inl_Inr bind_io_eq_Inr
    by (auto simp del: read_be32_Inr split: if_split_asm)
  have sl: "pre_checked_slice (take (totalsize h) data) a n = Inr (slice (take (totalsize h) data) a (a + n))"
    if "a + n < usize_limit" "a + n \<le> totalsize h" for a n
    using that chk(3) by simp
  show ?thesis
    using chk assms(2-) reads [THEN rd] sl [OF chk(4,5)] sl [OF chk(6,7)] unfolding pre_header_parse_def Let_def
    by (simp add: HEADER_SIZE_def h not_less del: pre_read_be32_Inr pre_checked_slice_Inr)
qed

lemma pre_reserve_of:
  "reserve_map_loop data tot c acc = Inr rm \<Longrightarrow> acc = slice data start c \<Longrightarrow> tot = length data \<Longrightarrow> start \<le> c \<Longrightarrow>
   pre_reserve_loop data start c = Inr rm"
proof (induction data tot c acc rule: reserve_map_loop.induct)
  case (1 data tot c acc)
  let ?e = "slice data c (c + 16)"
  have ok: "c + 16 < usize_limit" "c + 16 \<le> length data"
    using "1.prems"(1,3) by (subst (asm) reserve_map_loop.simps, auto split: if_split_asm)+
  have acc: "acc @ ?e = slice data start (c + 16)" using slice_split [of start c "c + 16" data] "1.prems"(2,4) by simp
  have run: "(if (from_be_bytes (slice ?e 0 8) :: u64) = 0 \<and> (from_be_bytes (slice ?e 8 16) :: u64) = 0
      then Inr (acc @ ?e) else reserve_map_loop data tot (c + 16) (acc @ ?e)) = Inr rm"
    using "1.prems"(1,3) ok by (subst (asm) reserve_map_loop.simps) (simp add: Let_def)
  show ?case
  proof (cases "(from_be_bytes (slice ?e 0 8) :: u64) = 0 \<and> (from_be_bytes (slice ?e 8 16) :: u64) = 0")
    case True
    then have "rm = slice data start (c + 16)" using run acc by simp
    then show ?thesis
      using ok True "1.prems"(4) by (subst pre_reserve_loop.simps) (simp add: checked_add_usize_def pre_checked_slice_def)
  next
    case False
    have "reserve_map_loop data tot (c + 16) (slice data start (c + 16)) = Inr rm"
      using run unfolding if_not_P [OF False] acc .
    then have "pre_reserve_loop data start (c + 16) = Inr rm"
      using "1.IH" [OF _ refl refl refl refl] False acc ok "1.prems"(3,4) by simp
    then show ?thesis
      using ok False by (subst pre_reserve_loop.simps) (auto simp: checked_add_usize_def pre_checked_slice_def)
  qed
qed

section \<open>The reader of a built blob\<close>

theorem reader_accepts_built:
  assumes "build_contract_tree dtb root (enc_rsv es) = Inr out" and "node_wf 0 root" and "nname root = []"
    and "\<forall>e \<in> set es. e \<noteq> (0, 0)" and "fdt_header_parse dtb = Inr h" and "17 \<le> version h" and "last_comp_version h \<le> 17"
  shows "\<exists>r sb st. reader_new addr out = Inr r \<and> rd_addr r = addr \<and> rd_data r = out \<and> totalsize (rd_header r) = length out \<and>
    reader_tree r root \<and> reader_root r = Inr 0 \<and> reader_reserve_map r = Inr (enc_rsv es) \<and>
    reader_struct_block r = Inr sb \<and> reader_strings r = Inr st \<and> length sb + length st \<le> length out"
proof -
  obtain sb st where sb: "write_node root ([], []) = Inr (sb, st)"
    and out: "build_dtb h (enc_rsv es) (write_be32 sb FDT_END) st = Inr out"
    using assms(1,5) by (auto simp: build_contract_tree_def)
  let ?sb = "write_be32 sb FDT_END"
  have bytes: "node_bytes st root sb" using write_node_bytes(1) [OF sb assms(2)] by auto
  then have block: "tree_block st root ?sb"
    using assms(2,3) nops_Nil unfolding tree_block_def write_be32_def by (metis append_Nil append_Nil2)
  obtain h' where h': "fdt_header_parse out = Inr h'" "h' = built_header h (enc_rsv es) ?sb st"
    "length ?sb + length st < 2 ^ 32"
    using header_of_built [OF out] by auto
  note blocks = built_blocks [OF out h'(2)]
  have len: "totalsize h' = length out" using length_built [of h "enc_rsv es" ?sb st] out h'(2) by (simp add: build_dtb_Inr)
  have "(40 + length (enc_rsv es) + 3) div 4 * 4 mod 4 = 0" by simp
  then have "pre_header_parse out = Inr h'"
    using pre_header_of [OF h'(1)] round_up4_ge [of "40 + length (enc_rsv es)"] assms(6,7)
    by (simp add: h'(2) built_header_def Let_def)
  then have r: "reader_new addr out = Inr \<lparr>rd_addr = addr, rd_data = out, rd_header = h'\<rparr>" (is "_ = Inr ?r")
    by (simp add: reader_new_def len)
  have rb: "reader_struct_block ?r = Inr ?sb" "reader_strings ?r = Inr st"
    using blocks(1,2) by (auto simp: reader_struct_block_def reader_strings_def)
  have lim: "length ?sb + 8 < usize_limit" using h'(3) by (simp add: usize_limit_def)
  have "reader_tree ?r root" using rb block lim by (auto simp: reader_tree_def)
  moreover have "reader_root ?r = Inr 0"
  proof -
    obtain name ps cs where n: "root = Node name ps cs" by (cases root)
    obtain b u where b: "sb = b @ u" "chunk b (EvBegin name)" using bytes unfolding n by (auto elim: node_bytes_NodeE)
    have "pre_next_token ?sb 0 = Inr (PreBegin name, 0 + length b)"
      by (rule begin_at(1) [of ?sb 0 b "u @ end_bytes"]) (use b lim in \<open>auto simp: bytes_at_def write_be32_def\<close>)
    then have "pre_read_be32 ?sb 0 = Inr FDT_BEGIN_NODE" using pre_token_inversion(1) by blast
    then show ?thesis by (simp add: reader_root_def rb(1) del: pre_read_be32_Inr)
  qed
  moreover have "reader_reserve_map ?r = Inr (enc_rsv es)"
    using pre_reserve_of [of out "length out" _ "[]"] blocks(3) [OF refl assms(4)] len
    by (simp add: reader_reserve_map_def reserve_map_def slice_def)
  moreover have "length ?sb + length st \<le> length out" using len h'(2) by (simp add: built_header_def Let_def)
  ultimately show ?thesis using r rb len by auto
qed

end
