(* ===== verification/MsmBoard.thy ===== *)
theory MsmBoard
  imports MsmSafety MsmAccept
begin

text \<open>
  The preboot stage on a board: four CPUs that wait for PSCI with their power controllers, one
  gigabyte of RAM and a page at its start, on a machine whose firmware and CPUs answer at once.
  Every check passes, the blob is patched and the secondaries are started.
\<close>

section \<open>Values of a tree\<close>

lemma pre_read_be32_enc: "pre_read_be32 (to_be_bytes 4 (v :: u32)) 0 = Inr v" "pre_read_be32 (to_be_bytes 4 v @ w) 0 = Inr v"
  "pre_read_be32 (to_be_bytes 4 u @ to_be_bytes 4 v) 4 = Inr v"
  by (simp_all add: slice_def usize_limit_def be32.dec_enc)

lemma read_cells_ok:
  "off + 4 \<le> length data \<Longrightarrow> off + 4 < usize_limit \<Longrightarrow> read_cells data off 1 = Inr (ucast (from_be_bytes (slice data off (off + 4)) :: u32))"
  "off + 8 \<le> length data \<Longrightarrow> off + 8 < usize_limit \<Longrightarrow> read_cells data off 2 = Inr (from_be_bytes (slice data off (off + 8)))"
proof -
  have two: "[0..<2] = [0, 1 :: nat]" by (simp add: upt_rec)
  show "read_cells data off 1 = Inr (ucast (from_be_bytes (slice data off (off + 4)) :: u32))"
    if "off + 4 \<le> length data" "off + 4 < usize_limit"
    using that by (simp add: read_cells_def)
  show "read_cells data off 2 = Inr (from_be_bytes (slice data off (off + 8)))"
    if "off + 8 \<le> length data" "off + 8 < usize_limit"
  proof -
    have "\<exists>v. read_cells data off 2 = Inr v" using that by (simp add: read_cells_def two)
    then show ?thesis using read_cells_two(2) by blast
  qed
qed

lemma read_cells_enc: "read_cells (to_be_bytes 4 (a :: u32) @ w) 0 1 = Inr (ucast a)"
  "read_cells (to_be_bytes 4 (e :: u32) @ to_be_bytes 4 (b :: u32)) 4 1 = Inr (ucast b)"
  "read_cells (to_be_bytes 8 (c :: u64) @ w) 0 2 = Inr c" "read_cells (to_be_bytes 8 c) 0 2 = Inr c"
  "read_cells (to_be_bytes 8 c @ to_be_bytes 8 (d :: u64)) 8 2 = Inr d"
  by (simp_all add: read_cells_ok usize_limit_def slice_def be32.dec_enc be64.dec_enc del: One_nat_def)

lemma zstr_end: "CHR 0x00 \<notin> set s \<Longrightarrow> position (\<lambda>b. b = 0) (zstr s) = Some (length s)"
  using position_append_first [of "bytes_of s" "\<lambda>b. b = 0" 0 "[]"] bytes_of_no_nul [of s] by auto

lemma cstr_zstr: "CHR 0x00 \<notin> set s \<Longrightarrow> cstr (zstr s) = Some (bytes_of s)"
  by (simp add: cstr_def zstr_end)

lemma stringlist_zstr: "CHR 0x00 \<notin> set s \<Longrightarrow> stringlist_contains (zstr s) (bytes_of u) \<longleftrightarrow> s = u"
  by (subst stringlist_contains.simps) (simp add: zstr_end bytes_of_inject)

section \<open>A board\<close>

definition board_cpu :: "char \<Rightarrow> u32 \<Rightarrow> node" where
  "board_cpu c i =
     Node (bytes_of (''cpu@'' @ [c]))
       [(bytes_of ''device_type'', zstr ''cpu''), (bytes_of ''compatible'', zstr ''arm,cortex-a53''), (PROP_REG, to_be_bytes 4 i),
        (bytes_of ''enable-method'', zstr ''psci''), (bytes_of ''qcom,acc'', to_be_bytes 4 (i + 1))] []"

definition board_acc :: "char \<Rightarrow> u32 \<Rightarrow> node" where
  "board_acc c i =
     Node (bytes_of (''power-manager@'' @ [c]))
       [(bytes_of ''compatible'', zstr ''qcom,msm8916-acc''), (PROP_REG, to_be_bytes 4 (0x0b088000 + i * 0x10000) @ to_be_bytes 4 (0x1000 :: u32)),
        (bytes_of ''phandle'', to_be_bytes 4 (i + 1))] []"

definition board_page :: node where
  "board_page =
     Node (bytes_of ''spin-table@80000000'')
       [(bytes_of ''compatible'', zstr ''pocketboot,spin-table-v1''), (bytes_of ''no-map'', []),
        (PROP_REG, to_be_bytes 8 (0x80000000 :: u64) @ to_be_bytes 8 (0x1000 :: u64))] []"

definition board_reserved :: node where
  "board_reserved = Node reserved_name [(PROP_ADDRESS_CELLS, to_be_bytes 4 (2 :: u32)), (PROP_SIZE_CELLS, to_be_bytes 4 (2 :: u32)), (bytes_of ''ranges'', [])] [board_page]"

definition board_memory :: node where
  "board_memory =
     Node (bytes_of ''memory@80000000'')
       [(bytes_of ''device_type'', zstr ''memory''), (PROP_REG, to_be_bytes 8 (0x80000000 :: u64) @ to_be_bytes 8 (0x40000000 :: u64))] []"

definition board_cpus :: node where
  "board_cpus =
     Node (bytes_of ''cpus'') [(PROP_ADDRESS_CELLS, to_be_bytes 4 (1 :: u32)), (PROP_SIZE_CELLS, to_be_bytes 4 (0 :: u32))]
       [board_cpu CHR ''0'' 0, board_cpu CHR ''1'' 1, board_cpu CHR ''2'' 2, board_cpu CHR ''3'' 3]"

definition board :: node where
  "board =
     Node [] [(PROP_ADDRESS_CELLS, to_be_bytes 4 (2 :: u32)), (PROP_SIZE_CELLS, to_be_bytes 4 (2 :: u32))]
       [board_reserved, board_memory, board_cpus, board_acc CHR ''0'' 0, board_acc CHR ''1'' 1, board_acc CHR ''2'' 2, board_acc CHR ''3'' 3]"

lemmas board_nodes = board_cpu_def board_acc_def board_page_def board_reserved_def board_memory_def board_cpus_def board_def

lemma board_wf: "node_wf 0 board" "nname board = []" "tree_bound board < 5000" "node_count board = 13"
  by (simp_all add: board_nodes bytes_of_inject bytes_of_no_nul props_bound_def)

text \<open>Accessors at a node of the board.\<close>

lemmas tree_values = tree_u32_def tree_str_def tree_phandle_def get_prop_def bytes_of_inject pre_read_be32_enc read_cells_enc cstr_zstr
  stringlist_zstr or_try_def

lemma has_compatible_case: "has_compatible n s \<longleftrightarrow> (case get_prop n (bytes_of ''compatible'') of None \<Rightarrow> False | Some v \<Rightarrow> stringlist_contains v s)"
  by (simp add: has_compatible_def split: option.split)

lemma basename_bytes_of: "basename_eq (bytes_of s) (bytes_of u) \<longleftrightarrow> takeWhile (\<lambda>c. c \<noteq> CHR ''@'') s = u"
proof -
  have at: "(of_char c = (0x40 :: u8)) = (c = CHR ''@'')" for c
    using of_char_inject [of c "CHR ''@''"] by simp
  have "takeWhile (\<lambda>b. b \<noteq> 0x40) (bytes_of s) = bytes_of (takeWhile (\<lambda>c. c \<noteq> CHR ''@'') s)"
    by (simp add: bytes_of_def takeWhile_map o_def at)
  then show ?thesis by (simp add: basename_eq_def bytes_of_inject)
qed

lemma tree_is_psci_case: "tree_is_psci n \<longleftrightarrow>
  (case get_prop n (bytes_of ''compatible'') of
     None \<Rightarrow> False | Some v \<Rightarrow> list_ex (stringlist_contains v) [bytes_of ''arm,psci'', bytes_of ''arm,psci-0.2'', bytes_of ''arm,psci-1.0''])"
  by (simp add: tree_is_psci_def has_compatible_case split: option.split)

lemma board_not_psci:
  "\<not> tree_is_psci board" "\<not> tree_is_psci board_reserved" "\<not> tree_is_psci board_page" "\<not> tree_is_psci board_memory"
  "\<not> tree_is_psci board_cpus" "\<not> tree_is_psci (board_cpu c i)" "\<not> tree_is_psci (board_acc c i)"
  by (simp_all add: tree_is_psci_case board_nodes tree_values)

lemma board_page_named: "names_page board_page" "is_contract_node board_page" "claims_page board_page" "status_ok board_page" "enabled board_page"
proof -
  have "starts_with (bytes_of ''pocketboot,spin-table-'') (bytes_of ''pocketboot,spin-table-v1'')"
    unfolding starts_with_bytes_of by (simp add: starts_with_def)
  then show "is_contract_node board_page" by (simp add: is_contract_node_def board_page_def tree_values split_on_zstr)
qed (simp_all add: names_page_def claims_page_def status_ok_def enabled_def board_page_def tree_values PRE_SPIN_COMPATIBLE_def)

lemma board_cpu_named:
  "is_cpu_node (board_cpu c i)" "enabled (board_cpu c i)" "get_prop (board_cpu c i) (bytes_of ''device_type'') = Some (zstr ''cpu'')"
  by (simp_all add: is_cpu_node_def enabled_def board_cpu_def tree_values basename_bytes_of)

lemma board_one_cells: "one_cells board" "one_cells board_reserved" "one_cells board_cpus"
  by (simp_all add: one_cells_def board_def board_reserved_def board_cpus_def tree_values)

lemma board_children:
  "child board reserved_name = Some board_reserved" "child board (bytes_of ''cpus'') = Some board_cpus"
  "nchildren board_reserved = [board_page]"
  "nchildren board_cpus = [board_cpu CHR ''0'' 0, board_cpu CHR ''1'' 1, board_cpu CHR ''2'' 2, board_cpu CHR ''3'' 3]"
  "nchildren board = [board_reserved, board_memory, board_cpus, board_acc CHR ''0'' 0, board_acc CHR ''1'' 1, board_acc CHR ''2'' 2, board_acc CHR ''3'' 3]"
  by (simp_all add: child_def board_def board_reserved_def board_memory_def board_cpus_def bytes_of_inject)

lemma board_usual: "usual_tree board"
proof -
  have "enabled board_reserved" by (simp add: enabled_def board_reserved_def tree_values)
  then show ?thesis
    by (simp add: usual_tree_def usual_reserved_def usual_cpus_def board_children board_not_psci board_one_cells board_page_named board_cpu_named)
qed

section \<open>The checks pass\<close>

lemma find_path_child_ok:
  assumes "reader_tree r root" and "p \<noteq> []" and "slash_byte \<notin> set p" and "child root p = Some n" and "node_height root \<le> 32"
  shows "\<exists>o'. node_view r o' n \<and> reader_find_path r (slash_byte # p) = Inr o'"
proof -
  have "\<forall>b \<in> set p. b \<noteq> slash_byte" using assms(3) by blast
  then have "dropWhile (\<lambda>b. b \<noteq> slash_byte) p = []" by (simp only: dropWhile_eq_Nil_conv)
  then have rest: "drop 1 (dropWhile (\<lambda>b. b \<noteq> slash_byte) p) = []" by (simp only: drop_Nil)
  have rest2: "takeWhile (\<lambda>b. b \<noteq> slash_byte) p = p" "hd p \<noteq> slash_byte"
    using assms(2,3) by (auto simp: takeWhile_eq_all_conv dest: hd_in_set)
  have comps: "path_components p = [p]"
    using assms(2) rest rest2 by (simp add: path_components.simps [of p] path_components.simps [of "[]"])
  have count: "count_path_components p = Inr 1"
    using assms(2) rest rest2 by (simp add: count_path_components.simps [of p] count_path_components.simps [of "[]"])
  show ?thesis using reader_find_path_walk [OF assms(1,2) count] assms(4,5) by (auto simp: comps)
qed

lemma board_height: "node_height board \<le> 32"
  by (simp add: board_nodes)

lemma board_find:
  assumes "reader_tree r board"
  obtains o1 o2 where "node_view r o1 board_reserved" and "reader_find_path r (bytes_of ''/reserved-memory'') = Inr o1"
    and "node_view r o2 board_cpus" and "reader_find_path r (bytes_of ''/cpus'') = Inr o2"
  using find_path_child_ok [OF assms _ path_bytes(3) board_children(1) board_height]
    find_path_child_ok [OF assms _ path_bytes(4) board_children(2) board_height]
  unfolding path_bytes by auto

definition board_table :: pre_spin_table where
  "board_table = \<lparr>pst_addr = 0x80000000\<rparr>"

lemma board_values:
  "tree_u32 board_reserved PROP_ADDRESS_CELLS = Inr 2" "tree_u32 board_reserved PROP_SIZE_CELLS = Inr 2"
  "get_prop board_reserved (bytes_of ''ranges'') = Some []"
  "tree_u32 board PROP_ADDRESS_CELLS = Inr 2" "tree_u32 board PROP_SIZE_CELLS = Inr 2"
  "tree_u32 board_cpus PROP_ADDRESS_CELLS = Inr 1" "tree_u32 board_cpus PROP_SIZE_CELLS = Inr 0"
  by (simp_all add: board_reserved_def board_def board_cpus_def tree_values)

lemma board_page_props:
  "get_prop board_page (bytes_of ''compatible'') = Some (zstr ''pocketboot,spin-table-v1'')"
  "get_prop board_page (bytes_of ''no-map'') = Some []" "get_prop board_page (bytes_of ''reusable'') = None"
  "get_prop board_page PROP_REG = Some (to_be_bytes 8 (0x80000000 :: u64) @ to_be_bytes 8 (0x1000 :: u64))"
  by (simp_all add: board_page_def tree_values)

lemma page_compatible: "stringlist_contains (zstr ''pocketboot,spin-table-v1'') PRE_SPIN_COMPATIBLE"
  by (simp add: PRE_SPIN_COMPATIBLE_def stringlist_zstr)

lemma board_find_spin_table:
  assumes "reader_tree r board"
  shows "find_spin_table r = Inr board_table"
proof -
  obtain o1 where o1: "node_view r o1 board_reserved" "reader_find_path r (bytes_of ''/reserved-memory'') = Inr o1"
    using board_find [OF assms] by blast
  obtain i where i: "subnode_offsets r o1 = [i]" "node_view r i board_page"
    using each_subnode_at(1) [OF o1(1)] by (auto simp: board_children list_all2_Cons2)
  have "spin_table_step r i None = Inr (Some board_table)"
    by (simp add: spin_table_step_def view_accessors [OF i(2)] bad_status_view [OF i(2)] board_page_named board_page_props page_compatible
        Let_def read_cells_enc checked_add_def PRE_SPIN_SIZE_def board_table_def)
  then show ?thesis
    by (simp add: find_spin_table_def o1(2) view_accessors [OF o1(1)] board_values each_subnode_at(2) [OF o1(1)] i(1))
qed

lemma board_device_types:
  "tree_str board_reserved (bytes_of ''device_type'') = Inl FdtNotFound" "tree_str board_cpus (bytes_of ''device_type'') = Inl FdtNotFound"
  "tree_str (board_acc c i) (bytes_of ''device_type'') = Inl FdtNotFound" "tree_str board_memory (bytes_of ''device_type'') = Inr (bytes_of ''memory'')"
  "get_prop board_memory PROP_REG = Some (to_be_bytes 8 (0x80000000 :: u64) @ to_be_bytes 8 (0x40000000 :: u64))"
  by (simp_all add: board_reserved_def board_cpus_def board_acc_def board_memory_def tree_values)

lemma chunks_one: "length v = n \<Longrightarrow> 0 < n \<Longrightarrow> chunks_exact n v = [v]"
  by (simp add: chunks_exact.simps [of n v] chunks_exact.simps [of n "[]"])

lemma enc_rsv_Nil: "enc_rsv [] = to_be_bytes 8 (0 :: u64) @ to_be_bytes 8 (0 :: u64)"
  by code_simp

lemma board_validate_memory:
  assumes "reader_tree r board" and "reader_root r = Inr 0" and "reader_reserve_map r = Inr (enc_rsv [])"
    and "rd_addr r = 0x88000000" and "totalsize (rd_header r) \<le> 0x80000"
  shows "validate_memory 0x8f000000 r board_table 0x90000000 0x1000000 = Inr ()"
proof -
  have v: "node_view r 0 board" using reader_root_view [OF assms(1,2)] by simp
  obtain o1 where o1: "node_view r o1 board_reserved" "reader_find_path r (bytes_of ''/reserved-memory'') = Inr o1"
    using board_find [OF assms(1)] by blast
  obtain i where i: "subnode_offsets r o1 = [i]" "node_view r i board_page"
    using each_subnode_at(1) [OF o1(1)] by (auto simp: board_children list_all2_Cons2)
  obtain a b c d e f g where os: "subnode_offsets r 0 = [a, b, c, d, e, f, g]" "node_view r a board_reserved" "node_view r b board_memory"
      "node_view r c board_cpus" "node_view r d (board_acc CHR ''0'' 0)" "node_view r e (board_acc CHR ''1'' 1)"
      "node_view r f (board_acc CHR ''2'' 2)" "node_view r g (board_acc CHR ''3'' 3)"
    using each_subnode_at(1) [OF v] by (auto simp: board_children(5) list_all2_Cons2)
  have ram: "memory_step r board_table b False = Inr True"
    by (auto simp: memory_step_def view_accessors [OF os(3)] board_device_types chunks_one memory_tuple_step_def read_cells_enc
        board_table_def checked_add_def PRE_SPIN_SIZE_def)
  have other: "memory_step r board_table i x = Inr x"
    if "node_view r i n" "tree_str n (bytes_of ''device_type'') = Inl FdtNotFound" for i n x
    using that by (simp add: memory_step_def view_accessors [OF that(1)])
  have mem: "each_subnode from_fdt r 0 (memory_step r board_table) False = Inr True"
    by (simp add: each_subnode_at(2) [OF v] os(1) other [OF os(2)] ram other [OF os(4)] other [OF os(5)] other [OF os(6)]
        other [OF os(7)] other [OF os(8)] board_device_types)
  have carve: "each_subnode from_fdt r o1 (carveout_step r board_table) () = Inr ()"
    by (simp add: each_subnode_at(2) [OF o1(1)] i(1) carveout_step_def view_accessors [OF i(2)] board_page_props page_compatible)
  have dtb: "\<not> page_overlaps board_table (of_nat (rd_addr r)) (of_nat (totalsize (rd_header r)))"
    using assms(4,5) by (simp add: pre_overlaps_def checked_add_def board_table_def PRE_SPIN_SIZE_def unat_of_nat_u64)
  have gap: "\<not> page_overlaps board_table 0x90000000 0x1000000" "\<not> page_overlaps board_table 0x8f000000 0x1000000"
    by (simp_all add: pre_overlaps_def checked_add_def board_table_def PRE_SPIN_SIZE_def)
  have rsv: "fold_io (reserve_entry_step board_table) () (chunks_exact 16 (enc_rsv [])) = Inr ()"
    by (simp add: enc_rsv_Nil chunks_one reserve_entry_step_def read_cells_enc pre_overlaps_def)
  show ?thesis
    using gap dtb rsv mem carve o1(2)
    by (simp add: validate_memory_def assms(2,3) view_accessors [OF v] board_values)
qed

definition board_acc_base :: "u32 \<Rightarrow> u64" where
  "board_acc_base i = 0x0b088000 + ucast i * 0x10000"

lemma board_acc_props:
  "get_prop (board_acc c i) (bytes_of ''compatible'') = Some (zstr ''qcom,msm8916-acc'')"
  "get_prop (board_acc c i) PROP_REG = Some (to_be_bytes 4 (0x0b088000 + i * 0x10000) @ to_be_bytes 4 (0x1000 :: u32))"
  "tree_phandle (board_acc c i) = Inr (i + 1)"
  by (simp_all add: board_acc_def tree_values)

lemma board_no_phandle:
  "tree_phandle board = Inl FdtNotFound" "tree_phandle board_reserved = Inl FdtNotFound" "tree_phandle board_page = Inl FdtNotFound"
  "tree_phandle board_memory = Inl FdtNotFound" "tree_phandle board_cpus = Inl FdtNotFound" "tree_phandle (board_cpu c i) = Inl FdtNotFound"
  by (simp_all add: board_nodes tree_values)

lemma board_cpu_props:
  "tree_str (board_cpu c i) (bytes_of ''device_type'') = Inr (bytes_of ''cpu'')"
  "get_prop (board_cpu c i) (bytes_of ''compatible'') = Some (zstr ''arm,cortex-a53'')"
  "get_prop (board_cpu c i) PROP_REG = Some (to_be_bytes 4 i)" "tree_u32 (board_cpu c i) PROP_REG = Inr i"
  "tree_str (board_cpu c i) (bytes_of ''enable-method'') = Inr (bytes_of ''psci'')"
  "tree_u32 (board_cpu c i) (bytes_of ''qcom,acc'') = Inr (i + 1)" "status_ok (board_cpu c i)"
  "basename_eq (nname (board_cpu c i)) (bytes_of ''cpu'')"
  by (simp_all add: board_cpu_def tree_values status_ok_def basename_bytes_of)

lemma board_preorder:
  "preorder board = [board, board_reserved, board_page, board_memory, board_cpus, board_cpu CHR ''0'' 0, board_cpu CHR ''1'' 1,
     board_cpu CHR ''2'' 2, board_cpu CHR ''3'' 3, board_acc CHR ''0'' 0, board_acc CHR ''1'' 1, board_acc CHR ''2'' 2, board_acc CHR ''3'' 3]"
  by (simp add: board_nodes)

lemma board_find_phandle:
  assumes "reader_tree r board"
  obtains p0 p1 p2 p3 where "reader_find_phandle r 1 = Inr p0" and "node_view r p0 (board_acc CHR ''0'' 0)"
    and "reader_find_phandle r 2 = Inr p1" and "node_view r p1 (board_acc CHR ''1'' 1)"
    and "reader_find_phandle r 3 = Inr p2" and "node_view r p2 (board_acc CHR ''2'' 2)"
    and "reader_find_phandle r 4 = Inr p3" and "node_view r p3 (board_acc CHR ''3'' 3)"
  using reader_find_phandle_preorder [OF assms, of 1] reader_find_phandle_preorder [OF assms, of 2]
    reader_find_phandle_preorder [OF assms, of 3] reader_find_phandle_preorder [OF assms, of 4]
  unfolding board_preorder by (auto simp: board_no_phandle board_acc_props)

lemma board_cpu_step:
  assumes "node_view r o' (board_cpu c i)" and "reader_find_phandle r (i + 1) = Inr p" and "node_view r p (board_acc d i)" and "i < 4"
    and "i \<notin> ci_reg ` set cs" and "length cs < 4"
  shows "pre_cpu_step r o' \<lparr>cl_cpus = cs, cl_mode = Cold\<rparr> =
    Inr \<lparr>cl_cpus = cs @ [\<lparr>ci_reg = i, ci_acc_base = board_acc_base i\<rparr>], cl_mode = Cold\<rparr>"
proof -
  have "unat i = 0 \<or> unat i = 1 \<or> unat i = 2 \<or> unat i = 3" using assms(4) by (simp add: word_less_nat_alt) linarith
  then have i: "i = 0 \<or> i = 1 \<or> i = 2 \<or> i = 3" by (auto simp: word_unat_eq_iff)
  have acc: "cold_acc r o' i = Inr (board_acc_base i)"
    using i by (auto simp: cold_acc_def view_accessors [OF assms(1)] view_accessors [OF assms(3)] assms(2) board_cpu_props board_acc_props
        read_cells_enc stringlist_zstr board_acc_base_def simp del: One_nat_def)
  show ?thesis
    using assms(4-6)
    by (simp add: pre_cpu_step_def view_accessors [OF assms(1)] bad_status_view [OF assms(1)] board_cpu_props stringlist_zstr
        cpu_mode_of_def bytes_of_inject acc cpu_list_push_def MAX_CPUS_def Let_def not_le)
qed

definition board_cpu_list :: cpu_list where
  "board_cpu_list =
     \<lparr>cl_cpus = map (\<lambda>i. \<lparr>ci_reg = i, ci_acc_base = board_acc_base i\<rparr>) [0, 1, 2, 3], cl_mode = Cold\<rparr>"

lemma board_collect_cpus:
  assumes "reader_tree r board"
  shows "collect_cpus r = Inr board_cpu_list"
proof -
  obtain o2 where o2: "node_view r o2 board_cpus" "reader_find_path r (bytes_of ''/cpus'') = Inr o2"
    using board_find [OF assms] by blast
  obtain a b c d where os: "subnode_offsets r o2 = [a, b, c, d]" "node_view r a (board_cpu CHR ''0'' 0)" "node_view r b (board_cpu CHR ''1'' 1)"
      "node_view r c (board_cpu CHR ''2'' 2)" "node_view r d (board_cpu CHR ''3'' 3)"
    using each_subnode_at(1) [OF o2(1)] by (auto simp: board_children list_all2_Cons2)
  obtain p0 p1 p2 p3 where p: "reader_find_phandle r 1 = Inr p0" "node_view r p0 (board_acc CHR ''0'' 0)"
      "reader_find_phandle r 2 = Inr p1" "node_view r p1 (board_acc CHR ''1'' 1)"
      "reader_find_phandle r 3 = Inr p2" "node_view r p2 (board_acc CHR ''2'' 2)"
      "reader_find_phandle r 4 = Inr p3" "node_view r p3 (board_acc CHR ''3'' 3)"
    using board_find_phandle [OF assms] .
  have "each_subnode from_fdt r o2 (pre_cpu_step r) cpu_list_new = Inr board_cpu_list"
    using p by (simp add: each_subnode_at(2) [OF o2(1)] os(1) cpu_list_new_def board_cpu_list_def
        board_cpu_step [OF os(2), of p0 "CHR ''0''"] board_cpu_step [OF os(3), of p1 "CHR ''1''"] board_cpu_step [OF os(4), of p2 "CHR ''2''"]
        board_cpu_step [OF os(5), of p3 "CHR ''3''"])
  then show ?thesis
    by (simp add: collect_cpus_def o2(2) view_accessors [OF o2(1)] board_values board_cpu_list_def MAX_CPUS_def)
qed

section \<open>The blob\<close>

lemma board_providers: "tree_providers MAX_DEPTH board False [] = Inr []"
proof -
  have deep: "MAX_DEPTH = Suc (Suc (Suc (Suc (MAX_DEPTH - 4))))" by (simp add: MAX_DEPTH_def)
  have none: "tree_add_provider n p [] = Inr []" if "get_prop n (bytes_of ''#power-domain-cells'') = None" for n p
    using that by (simp add: tree_add_provider_def)
  show ?thesis
    by (subst deep) (simp add: none board_nodes tree_values tree_is_psci_case del: tree_providers.simps(1))
qed

lemma board_edit: "\<exists>root'. msm_edit board_table board = Inr root'"
  unfolding msm_edit_def board_providers bind_io_simps
  by (simp add: msm_patch.simps board_nodes tree_is_psci_case tree_values node_kind_def MAX_DEPTH_def
      OTHER_CONTEXT_def basename_bytes_of cpu_props_def tree_domains_def Let_def)

lemma built_length_bound:
  assumes "build_contract_tree dtb root rm = Inr out" and "tree_bound root + length rm + 48 < 2 ^ 32"
  shows "length out \<le> tree_bound root + length rm + 47"
proof -
  obtain h where h: "fdt_header_parse dtb = Inr h" using assms(1) by (auto simp: build_contract_tree_def)
  obtain sb st where ss: "write_node root ([], []) = Inr (sb, st)" "length sb + length st \<le> tree_bound root"
    using write_node_total(1) [of "([], [])" root] assms(2) by auto
  have "build_dtb h rm (write_be32 sb FDT_END) st = Inr out"
    using assms(1) h ss(1) by (simp add: build_contract_tree_def)
  then have "length out = totalsize (built_header h rm (write_be32 sb FDT_END) st)"
    using length_built [of h rm "write_be32 sb FDT_END" st] by (simp add: build_dtb_Inr)
  moreover have "(40 + length rm + 3) div 4 * 4 \<le> 43 + length rm" by simp
  ultimately show ?thesis using ss(2) by (simp add: built_header_def Let_def write_be32_def)
qed

lemma reader_from_memory:
  assumes "reader_new p data = Inr r" and "mem_slice mem p (length data) = data" and "totalsize (rd_header r) = length data"
    and "length data \<le> 512 * 1024" and "p + length data < usize_limit" and "p \<noteq> 0"
  shows "reader_from_ptr mem p = Inr r"
proof -
  obtain h where h: "pre_header_parse data = Inr h" "r = \<lparr>rd_addr = p, rd_data = take (totalsize h) data, rd_header = h\<rparr>"
    using assms(1) by (auto simp: reader_new_def)
  have tot: "unat (from_be_bytes (slice data 4 8) :: u32) = length data" using pre_header_total [OF h(1)] h(2) assms(3) by simp
  have head: "40 \<le> length data" "from_be_bytes (slice data 0 4) = FDT_MAGIC"
    using h(1) by (auto simp: pre_header_parse_def HEADER_SIZE_def split: if_split_asm)
  have same: "slice (mem_slice mem p 40) a b = slice data a b" if "b \<le> 40" for a b
    using slice_mem_slice [of b 40 mem p a] slice_mem_slice [of b "length data" mem p a] that head(1) assms(2) by simp
  have "pre_read_be32 (mem_slice mem p 40) 0 = Inr FDT_MAGIC" "pre_read_be32 (mem_slice mem p 40) 4 = Inr (from_be_bytes (slice data 4 8))"
    by (simp_all add: same head(2) usize_limit_def) (simp_all add: mem_slice_def)
  then show ?thesis
    using tot assms head(1) by (simp add: reader_from_ptr_def HEADER_SIZE_def checked_add_usize_def del: pre_read_be32_Inr)
qed

section \<open>The machine answers\<close>

definition board_machine :: "bytes \<Rightarrow> machine" where
  "board_machine blob =
     \<lparr>mc_mpidr_el1 = 0x80000000, mc_current_el = 8, mc_sctlr = 0, mc_cntfrq = 19200000, mc_cpuectlr = 0x40,
      mc_resident_image = replicate 0x100 0, mc_ext_args = 0x8f200000, mc_scratch = 0x8f100000, mc_image_start = 0x8f000000,
      mc_memory = (\<lambda>a. if a < 0x88000000 \<or> length blob \<le> a - 0x88000000 then 0 else blob ! (a - 0x88000000)),
      mc_read32 = (\<lambda>log a. 0),
      mc_read64 = (\<lambda>log a. if a AND 0x7f = 0x40 then 1 else if a AND 0x7f = 0x48 then 8 else if a AND 0x7f = 0x50 then 0x40 else 0),
      mc_read_bytes = (\<lambda>log a n. replicate n 0), mc_smc = (\<lambda>log xs. (0, 1, 0))\<rparr>"

lemma board_memory_blob: "mem_slice (mc_memory (board_machine blob)) 0x88000000 (length blob) = blob"
  by (rule nth_equalityI) (simp_all add: mem_slice_def board_machine_def)

text \<open>An operation that succeeds with \<open>x\<close> after every run.\<close>

definition gives :: "'a hw \<Rightarrow> 'a \<Rightarrow> bool" where
  "gives op x \<longleftrightarrow> (\<forall>log. snd (op log) = Inr x)"

lemma gives_run: "gives op x \<Longrightarrow> \<exists>log'. op log = (log', Inr x)"
  unfolding gives_def by (metis prod.collapse)

lemma gives_bind: "gives op x \<Longrightarrow> gives (f x) y \<Longrightarrow> gives (hw_bind op f) y"
  unfolding gives_def
proof
  fix log
  assume a: "\<forall>log. snd (op log) = Inr x" "\<forall>log. snd (f x log) = Inr y"
  obtain l where "op log = (l, Inr x)" using a(1) by (metis prod.collapse)
  then show "snd (hw_bind op f log) = Inr y" using a(2) by (simp add: hw_bind_def)
qed

lemma gives_simps:
  "gives (hw_ret x) y \<longleftrightarrow> y = x" "gives (hw_lift r) y \<longleftrightarrow> r = Inr y" "gives (hw_emit es) ()" "gives (smc_insn m xs) (0, 1, 0) \<longleftrightarrow> (\<forall>log. mc_smc m log xs = (0, 1, 0))"
  by (auto simp: gives_def hw_run_simps smc_insn_def)

lemma gives_each: "(\<And>x. x \<in> set xs \<Longrightarrow> gives (f x) ()) \<Longrightarrow> gives (hw_each f xs) ()"
  by (induction xs) (auto simp: gives_simps intro!: gives_bind)

lemma board_reads: "gives (read64 (board_machine blob) a)
    (if a AND 0x7f = 0x40 then 1 else if a AND 0x7f = 0x48 then 8 else if a AND 0x7f = 0x50 then 0x40 else 0)"
  by (simp add: gives_def read64_def board_machine_def)

lemma board_scm_call: "arglen \<le> 10 \<Longrightarrow> gives (scm_call (board_machine blob) conv svc cmd arglen args fast) (0, 1)"
proof -
  assume "arglen \<le> 10"
  have smc: "gives (smc_insn (board_machine blob) xs) (0, 1, 0)" for xs
    by (simp add: gives_simps board_machine_def)
  have do': "gives (smc_do (board_machine blob) xs) (0, 1)" for xs
    unfolding smc_do_def numeral_eq_Suc pred_numeral_simps smc_loop.simps
    by (rule gives_bind [OF smc]) (simp add: SCM_INTERRUPTED_def gives_simps)
  have at: "gives (scm_attempts 21 (board_machine blob) xs) (0, 1)" for xs
    unfolding numeral_eq_Suc pred_numeral_simps scm_attempts.simps
    by (rule gives_bind [OF do']) (simp add: SCM_EBUSY_def gives_simps)
  have ext: "gives (if 4 < arglen then
        hw_bind (hw_emit [HwWriteBytes (mc_ext_args (board_machine blob)) (pack_ext conv args)]) (\<lambda>_.
        if conv = Smc32 \<and> 0xffffffff < mc_ext_args (board_machine blob) then hw_lift (Inl MsmScm)
        else hw_emit [HwCleanDcache (mc_ext_args (board_machine blob)) (N_EXT_ARGS * 8)])
      else hw_ret ()) ()"
    by (auto simp: gives_simps board_machine_def intro!: gives_bind)
  have few: "\<not> MAX_ARGS < arglen" using \<open>arglen \<le> 10\<close> by (simp add: MAX_ARGS_def)
  show ?thesis unfolding scm_call_def Let_def if_not_P [OF few] by (rule gives_bind [OF ext at])
qed

lemma board_set_boot_addr:
  assumes "entry \<le> 0xffffffff"
  shows "gives (set_boot_addr_mc (board_machine blob) entry flags) ()"
proof -
  have avail: "gives (is_call_available (board_machine blob) conv svc cmd fast) True" for conv svc cmd fast
    unfolding is_call_available_def Let_def by (rule gives_bind [OF board_scm_call]) (simp_all add: gives_simps)
  have probe: "gives (probe_convention (board_machine blob)) Smc64"
    unfolding gives_def
  proof
    fix log
    obtain l where "is_call_available (board_machine blob) Smc64 SVC_INFO INFO_IS_CALL_AVAIL True log = (l, Inr True)"
      using gives_run [OF avail] by blast
    then show "snd (probe_convention (board_machine blob) log) = Inr Smc64" by (simp add: probe_convention_def)
  qed
  show ?thesis
    unfolding set_boot_addr_mc_def using assms
    by (auto simp: gives_simps intro!: gives_bind [OF probe] gives_bind [OF avail] gives_bind [OF board_scm_call])
qed

lemma board_boot_secondary: "i < 4 \<Longrightarrow> gives (boot_secondary (board_machine blob) board_table \<lparr>ci_reg = i, ci_acc_base = base\<rparr>) ()"
proof -
  assume "i < 4"
  then have "unat i = 0 \<or> unat i = 1 \<or> unat i = 2 \<or> unat i = 3" by (simp add: word_less_nat_alt) linarith
  then have i: "i = 0 \<or> i = 1 \<or> i = 2 \<or> i = 3" by (auto simp: word_unat_eq_iff)
  have a: "ack_addr board_table i AND 0x7f = 0x40" "(slot_addr board_table i + SPIN_ENTRY_EL_OFFSET) AND 0x7f = 0x48"
    "(slot_addr board_table i + SPIN_CPUECTLR_OFFSET) AND 0x7f = 0x50"
    using i by (auto simp: ack_addr_def slot_addr_def board_table_def SPIN_ACK_OFFSET_def SPIN_SLOTS_OFFSET_def SPIN_SLOT_STRIDE_def
        SPIN_ENTRY_EL_OFFSET_def SPIN_CPUECTLR_OFFSET_def)
  have ack: "gives (read64 (board_machine blob) (ack_addr board_table i)) 1" using board_reads [of blob "ack_addr board_table i"] a by simp
  have el: "gives (read64 (board_machine blob) (slot_addr board_table i + SPIN_ENTRY_EL_OFFSET)) 8"
    using board_reads [of blob "slot_addr board_table i + SPIN_ENTRY_EL_OFFSET"] a by simp
  have ect: "gives (read64 (board_machine blob) (slot_addr board_table i + SPIN_CPUECTLR_OFFSET)) 0x40"
    using board_reads [of blob "slot_addr board_table i + SPIN_CPUECTLR_OFFSET"] a by simp
  have power: "gives (boot_cortex_a53 base) ()" by (simp add: boot_cortex_a53_def Let_def gives_simps)
  have "STARTUP_TIMEOUT_US div 10 = Suc 99999" by (simp add: STARTUP_TIMEOUT_US_def)
  then have wait: "gives (wait_ack (STARTUP_TIMEOUT_US div 10) (board_machine blob) (ack_addr board_table i)) True"
    by (simp only: wait_ack.simps) (rule gives_bind [OF ack], simp add: gives_simps)
  have coh: "gives (report_secondary_coherency (board_machine blob) board_table i) ()"
    unfolding report_secondary_coherency_def
    by (rule gives_bind [OF ect]) (simp add: gives_simps require_coherency_def CPUECTLR_SMPEN_def)
  have here: "mc_current_el (board_machine blob) = 8" by (simp add: board_machine_def)
  show ?thesis
    unfolding boot_secondary_def
    by (auto simp: gives_simps here coh intro!: gives_bind [OF power] gives_bind [OF wait] gives_bind [OF el])
qed

lemma board_init: "gives (init_spin_table (board_machine blob) board_table cpus) ()"
proof -
  have read: "gives (read_memory (board_machine blob) a n) (replicate n 0)" for a n
    by (simp add: gives_def read_memory_def board_machine_def)
  have "\<not> occupied_prefix (replicate 0xb0 0)" by code_simp
  moreover have "mc_resident_image (board_machine blob) = replicate 0x100 0" by (simp add: board_machine_def)
  ultimately show ?thesis
    unfolding init_spin_table_def Let_def
    by (auto simp: gives_simps SPIN_ENTRY_OFFSET_def SPIN_SLOTS_OFFSET_def intro!: gives_bind [OF read] gives_bind)
qed

section \<open>The run\<close>

lemma checked_run:
  assumes "checks_passed m fdt payload payload_size r t cpus patched"
  shows "prepare_fdt_inner m fdt payload payload_size [] =
    (if cl_mode cpus = Resident then resident_handoff m t patched else cold_handoff m t cpus patched)
      [HwCleanDcache (mc_scratch m) (length patched)]"
proof -
  note ok = assms [unfolded checks_passed_def]
  have "\<not> (read_mpidr m \<noteq> 0 \<or> \<not> cache_mmu_off m \<or> mc_cntfrq m = 0)" "require_coherency (mc_cpuectlr m) = Inr ()"
    "fdt_q (reader_from_ptr (mc_memory m) fdt) = Inr r"
    using ok by (simp_all add: require_coherency_def)
  then show ?thesis
    unfolding prepare_fdt_inner_def resident_handoff_def cold_handoff_def using ok by (simp only: if_False hw_bind_lift sum.case) (simp add: hw_bind_simps(4))
qed

lemma board_reader:
  obtains blob r sb st where "build_contract_tree demo_blob board (enc_rsv []) = Inr blob" and "reader_new 0x88000000 blob = Inr r"
    and "rd_addr r = 0x88000000" and "rd_data r = blob" and "totalsize (rd_header r) = length blob" and "reader_tree r board"
    and "reader_root r = Inr 0" and "reader_reserve_map r = Inr (enc_rsv [])" and "reader_struct_block r = Inr sb"
    and "reader_strings r = Inr st" and "length sb + length st \<le> length blob" and "contract_tree blob = Inr board" and "length blob < 6000"
proof -
  have "\<not> isl (fdt_header_parse demo_blob)" by code_simp
  then obtain h where h: "fdt_header_parse demo_blob = Inr h" by (cases "fdt_header_parse demo_blob") auto
  have vs: "(case fdt_header_parse demo_blob of Inr h \<Rightarrow> version h = 17 \<and> last_comp_version h = 16 | Inl _ \<Rightarrow> False)" by code_simp
  obtain blob where blob: "build_contract_tree demo_blob board (enc_rsv []) = Inr blob"
    using build_contract_tree_fits [OF h, of board "enc_rsv []"] board_wf(3) by (auto simp: length_enc_rsv)
  have len: "length blob < 6000"
    using built_length_bound [OF blob] board_wf(3) by (simp add: length_enc_rsv)
  obtain r sb st where r: "reader_new 0x88000000 blob = Inr r" "rd_addr r = 0x88000000" "rd_data r = blob"
      "totalsize (rd_header r) = length blob" "reader_tree r board" "reader_root r = Inr 0" "reader_reserve_map r = Inr (enc_rsv [])"
      "reader_struct_block r = Inr sb" "reader_strings r = Inr st" "length sb + length st \<le> length blob"
    using reader_accepts_built [OF blob board_wf(1,2) _ h, where addr = "0x88000000"] vs h by auto
  have tree: "contract_tree blob = Inr board" using build_contract_tree_parses [OF blob board_wf(1,2)] by simp
  show ?thesis by (rule that [OF blob r tree len])
qed

lemma board_hand_over:
  obtains blob r log patched where "contract_tree blob = Inr board" and "reader_from_ptr (mc_memory (board_machine blob)) 0x88000000 = Inr r"
    and "rd_data r = blob" and "reader_tree r board"
    and "checks_passed (board_machine blob) 0x88000000 0x90000000 0x1000000 r board_table board_cpu_list patched"
    and "prepare_fdt (board_machine blob) 0x88000000 0x90000000 0x1000000 = (log, Some patched)"
    and "\<exists>before after. log = before @ clear_page board_table # after \<and> (\<forall>x \<in> set before. \<not> changes_machine x)"
proof -
  obtain blob r sb st where blob: "build_contract_tree demo_blob board (enc_rsv []) = Inr blob" and r: "reader_new 0x88000000 blob = Inr r"
      "rd_addr r = 0x88000000" "rd_data r = blob" "totalsize (rd_header r) = length blob" "reader_tree r board"
      "reader_root r = Inr 0" "reader_reserve_map r = Inr (enc_rsv [])" "reader_struct_block r = Inr sb" "reader_strings r = Inr st"
      "length sb + length st \<le> length blob" and tree: "contract_tree blob = Inr board" and len: "length blob < 6000"
    using board_reader .
  let ?m = "board_machine blob"
  have ptr: "reader_from_ptr (mc_memory ?m) 0x88000000 = Inr r"
    using reader_from_memory [OF r(1) board_memory_blob r(4)] len by (simp add: usize_limit_def)
  obtain root' where "msm_edit board_table board = Inr root'" using board_edit by blast
  then obtain patched where patched: "patch_fdt r (replicate PRE_MAX_DTB_SIZE 0) board_table = Inr patched"
    using patch_fdt_total [OF r(5,7,8,9,6), of board_table root' "replicate PRE_MAX_DTB_SIZE 0"] r(10) len board_wf(4)
      by (auto simp: length_enc_rsv PRE_MAX_DTB_SIZE_def)
  have ok: "checks_passed ?m 0x88000000 0x90000000 0x1000000 r board_table board_cpu_list patched"
    unfolding checks_passed_def
  proof (intro conjI)
    show "read_mpidr ?m = 0" "cache_mmu_off ?m" "mc_cntfrq ?m \<noteq> 0" "mc_cpuectlr ?m AND CPUECTLR_SMPEN \<noteq> 0"
      by (simp_all add: read_mpidr_def cache_mmu_off_def board_machine_def CPUECTLR_SMPEN_def)
    show "validate_memory (mc_image_start ?m) r board_table 0x90000000 0x1000000 = Inr ()"
      using board_validate_memory [OF r(5,6,7,2)] r(4) len by (simp add: board_machine_def)
  qed (fact ptr patched board_find_spin_table [OF r(5)] board_collect_cpus [OF r(5)])+
  define tail where "tail = hw_bind (set_boot_addr_mc ?m (code_addr board_table) (BOOT_MC_FLAG_AARCH64 OR BOOT_MC_FLAG_COLDBOOT)) (\<lambda>_.
     hw_bind (hw_each (boot_secondary ?m board_table) (cl_cpus board_cpu_list)) (\<lambda>_. hw_ret patched))"
  have low: "code_addr board_table \<le> 0xffffffff" by (simp add: code_addr_def board_table_def SPIN_ENTRY_OFFSET_def)
  have booted: "gives (hw_each (boot_secondary ?m board_table) (cl_cpus board_cpu_list)) ()"
    by (rule gives_each) (use board_boot_secondary in \<open>auto simp: board_cpu_list_def\<close>)
  have tail: "gives tail patched"
    unfolding tail_def by (intro gives_bind [OF board_set_boot_addr [OF low]] gives_bind [OF booted]) (simp add: gives_simps)
  let ?l0 = "[HwCleanDcache (mc_scratch ?m) (length patched)]"
  obtain l1 where l1: "init_spin_table ?m board_table board_cpu_list ?l0 = (l1, Inr ())" using gives_run [OF board_init] by blast
  obtain es ws where es: "l1 = ?l0 @ es @ clear_page board_table # ws" "list_all (\<lambda>e. \<not> changes_machine e) es"
    by (rule init_spin_table_guard [OF l1]) auto
  obtain log where log: "tail l1 = (log, Inr patched)" using gives_run [OF tail] by blast
  have run: "prepare_fdt_inner ?m 0x88000000 0x90000000 0x1000000 [] = (log, Inr patched)"
    using checked_run [OF ok] l1 log
    by (simp add: board_cpu_list_def cold_handoff_def tail_def [unfolded board_cpu_list_def, simplified, symmetric] hw_bind_run)
  have "causes (\<lambda>e. True) tail"
    unfolding tail_def by (intro causes_intros set_boot_addr_adds boot_secondary_adds causes_simps)
  then obtain rest where "log = l1 @ rest" using causes_run log by blast
  then have split: "log = (?l0 @ es) @ clear_page board_table # ws @ rest" "\<forall>x \<in> set (?l0 @ es). \<not> changes_machine x"
    using es by (auto simp: list_all_iff)
  have "prepare_fdt ?m 0x88000000 0x90000000 0x1000000 = (log, Some patched)" using run by (simp add: prepare_fdt_def)
  then show ?thesis by (rule that [OF tree ptr r(3,5) ok]) (use split in blast)
qed

end
