(* ===== verification/MsmResults.thy ===== *)
theory MsmResults
  imports MsmBoard
begin

text \<open>
  The properties of the preboot stage, each with a run on the board of \<open>MsmBoard\<close>.
\<close>

text \<open>The copy slices up to the padded end of a node name, which may lie behind the structure block.\<close>

lemma patch_panics_on_unpadded_name: "patch_structure r [0, 0, 0, 1, 0] st ps t providers 0 [] w = Inl MsmPanic"
proof -
  have "pre_next_token [0, 0, 0, 1, 0] 0 = Inr (PreBegin [], 8)" by code_simp
  moreover have "fdt_index_slice [0, 0, 0, 1, 0] 0 8 = Inl FdtPanic" by code_simp
  ultimately show ?thesis
    by (subst patch_structure.simps) (simp add: Let_def convert_def from_fdt_def MAX_DEPTH_def)
qed

text \<open>C6: A device tree is only handed on when the secondaries are parked, and what it says of them is right: if \<open>prepare_fdt\<close>
  returns a blob, then the tree it was given passed the checks and each secondary acknowledged its request at the exception level of the
  primary (after a cold start with coherent caches, when resident with no release address set). If the kexec loader can read the
  tree it was given, it can read the blob, and a spin-table contract it finds there is that of exactly this page; and it does find
  one where the tree is \<open>usual_tree\<close>. That is a condition neither program checks: the page's node is the only one of the
  contract and enabled, \<open>device_type\<close> marks exactly the CPU nodes, these are enabled, cell counts are of one cell, and PSCI is
  described by none of these nodes. On another tree the loader may refuse the contract, and then it refuses to boot a second kernel.\<close>

theorem prepare_fdt_hands_over:
  assumes "prepare_fdt m fdt payload payload_size = (log, Some patched)"
  shows "\<exists>r t cpus. reader_from_ptr (mc_memory m) fdt = Inr r \<and> find_spin_table r = Inr t \<and> collect_cpus r = Inr cpus \<and>
    (\<forall>cpu \<in> {1, 2, 3}. secondary_parked m t (cl_mode cpus) log cpu) \<and>
    (\<forall>root. contract_tree (rd_data r) = Inr root \<longrightarrow>
       (\<exists>root'. contract_tree patched = Inr root' \<and>
          (\<forall>k. spin_table_contract root' = Inr (Some k) \<longrightarrow> st_base k = pst_addr t) \<and>
          (usual_tree root \<longrightarrow> spin_table_contract root' = Inr (Some \<lparr>st_base = pst_addr t\<rparr>))))"
proof -
  obtain r t cpus where ok: "checks_passed m fdt payload payload_size r t cpus patched"
      and parked: "\<forall>cpu \<in> {1, 2, 3}. secondary_parked m t (cl_mode cpus) log cpu"
    using handed_over_parked [OF assms] by blast
  then show ?thesis
    using checked_contract [OF ok] by (intro exI [of _ r] exI [of _ t] exI [of _ cpus]) (simp add: checks_passed_def)
qed

lemma prepare_fdt_hands_over_witness:
  "\<exists>blob r log patched t cpus root'.
     prepare_fdt (board_machine blob) 0x88000000 0x90000000 0x1000000 = (log, Some patched) \<and>
     reader_from_ptr (mc_memory (board_machine blob)) 0x88000000 = Inr r \<and> contract_tree (rd_data r) = Inr board \<and> usual_tree board \<and>
     find_spin_table r = Inr t \<and> collect_cpus r = Inr cpus \<and> contract_tree patched = Inr root' \<and>
     spin_table_contract root' = Inr (Some \<lparr>st_base = pst_addr t\<rparr>)"
proof -
  obtain blob r log patched where run: "contract_tree blob = Inr board"
      "reader_from_ptr (mc_memory (board_machine blob)) 0x88000000 = Inr r" "rd_data r = blob"
      "prepare_fdt (board_machine blob) 0x88000000 0x90000000 0x1000000 = (log, Some patched)"
    using board_hand_over by metis
  have tree: "contract_tree (rd_data r) = Inr board" using run(1,3) by simp
  from prepare_fdt_hands_over [OF run(4)] run(2) tree board_usual
  obtain t cpus root' where "find_spin_table r = Inr t" "collect_cpus r = Inr cpus" "contract_tree patched = Inr root'"
      "spin_table_contract root' = Inr (Some \<lparr>st_base = pst_addr t\<rparr>)"
    by auto
  then show ?thesis using run(2,4) tree board_usual by blast
qed

text \<open>C7: Nothing on the machine is changed on suspicion: the first write or monitor call of a run of \<open>prepare_fdt\<close>, if any, is the
  clearing of the page; before it every check of the tree, the payload and the CPUs has passed, the CPUs are
  to be started cold, and a page that looked occupied is only cleared when each secondary was seen held in reset.\<close>

theorem prepare_fdt_first_change:
  assumes "prepare_fdt m fdt payload payload_size = (log, out)" and "log = before @ e # after" and "changes_machine e"
    and "\<forall>x \<in> set before. \<not> changes_machine x"
  shows "\<exists>r t cpus patched. checks_passed m fdt payload payload_size r t cpus patched \<and> cl_mode cpus = Cold \<and>
    e = clear_page t \<and> page_reclaimable m t cpus before"
  by (rule first_change [OF assms])

lemma prepare_fdt_first_change_witness:
  "\<exists>blob log patched before after.
     prepare_fdt (board_machine blob) 0x88000000 0x90000000 0x1000000 = (log, Some patched) \<and>
     log = before @ clear_page board_table # after \<and> (\<forall>x \<in> set before. \<not> changes_machine x) \<and>
     (\<exists>t cpus. clear_page board_table = clear_page t \<and> page_reclaimable (board_machine blob) t cpus before)"
proof -
  obtain blob log patched before after where run:
      "prepare_fdt (board_machine blob) 0x88000000 0x90000000 0x1000000 = (log, Some patched)"
      "log = before @ clear_page board_table # after" "\<forall>x \<in> set before. \<not> changes_machine x"
    using board_hand_over by metis
  have "changes_machine (clear_page board_table)" by (simp add: clear_page_def)
  from prepare_fdt_first_change [OF run(1,2) this run(3)] show ?thesis using run by blast
qed

text \<open>C17: \<open>patch_fdt\<close> is exactly the edit of the tree: with room for the old blob and 1000 bytes more per node it returns a blob if and
  only if the tree can be edited, and the blob then parses to the edited tree and carries the old memory reserve map.\<close>

theorem patch_fdt_edits:
  assumes "reader_new addr dtb = Inr r" and "contract_tree dtb = Inr root" and "reader_root r = Inr 0"
    and "reader_reserve_map r = Inr rm" and "reader_struct_block r = Inr sb" and "reader_strings r = Inr st"
    and "length rm + length sb + length st + 1000 * node_count root + 200 \<le> length out0" and "length out0 < 2 ^ 32"
  shows "case msm_edit t root of
      Inr root' \<Rightarrow> \<exists>patched h. patch_fdt r out0 t = Inr patched \<and> contract_tree patched = Inr root' \<and>
        fdt_header_parse patched = Inr h \<and> reserve_map patched h = Inr rm
    | Inl _ \<Rightarrow> \<exists>e. patch_fdt r out0 t = Inl e"
proof (cases "msm_edit t root")
  case (Inl e)
  have "patch_fdt r out0 t \<noteq> Inr b" for b using patched_contract_tree [OF assms(1,2) _ assms(8), of t b] Inl by auto
  then show ?thesis using Inl by (cases "patch_fdt r out0 t") auto
next
  case (Inr root')
  note tree = reader_of_contract_tree [OF assms(1,2)]
  obtain patched where "patch_fdt r out0 t = Inr patched"
    using patch_fdt_total [OF tree(1) assms(4,5,6,3) Inr assms(7,8)] by blast
  then show ?thesis
    using patched_contract_tree [OF assms(1,2) _ assms(8)] tree(3) [OF assms(4)] Inr by fastforce
qed

lemma patch_fdt_edits_witness:
  "\<exists>dtb r root' patched. reader_new 0x88000000 dtb = Inr r \<and> contract_tree dtb = Inr board \<and> msm_edit board_table board = Inr root' \<and>
     patch_fdt r (replicate 0x80000 0) board_table = Inr patched \<and> contract_tree patched = Inr root'"
proof -
  obtain blob r sb st where r: "reader_new 0x88000000 blob = Inr r" "contract_tree blob = Inr board" "reader_root r = Inr 0"
      "reader_reserve_map r = Inr (enc_rsv [])" "reader_struct_block r = Inr sb" "reader_strings r = Inr st"
      "length sb + length st \<le> length blob" "length blob < 6000"
    using board_reader by metis
  obtain root' where root': "msm_edit board_table board = Inr root'" using board_edit by blast
  have room: "length (enc_rsv []) + length sb + length st + 1000 * node_count board + 200 \<le> length (replicate 0x80000 (0 :: u8))"
    "length (replicate 0x80000 (0 :: u8)) < 2 ^ 32"
    using r(7,8) board_wf(4) by simp_all
  from patch_fdt_edits [OF r(1-6) room, of board_table] show ?thesis using root' r(1,2) by auto
qed

text \<open>C18: The page for the resident code is free RAM: if the memory check passes for the page of the tree, the page
  does not meet the payload, the preboot image, the device tree, any other entry of the reserve map or any other node of
  \<open>/reserved-memory\<close>, and it lies within one range of a memory node.\<close>

theorem validate_memory_free_ram:
  assumes "reader_new addr dtb = Inr r" and "contract_tree dtb = Inr root" and "find_spin_table r = Inr t"
    and "validate_memory image_start r t payload payload_size = Inr ()" and "addr + length dtb < 2 ^ 64"
  shows "page_span t \<inter> (span payload payload_size \<union> {unat image_start..<unat payload} \<union> {addr..<addr + totalsize (rd_header r)}) = {} \<and>
    (\<exists>rsv. reader_reserve_map r = Inr rsv \<and>
       (\<forall>(a, l) \<in> set (reg_tuples rsv). (a, l) = (pst_addr t, PRE_SPIN_SIZE) \<or> page_span t \<inter> span a l = {})) \<and>
    (\<exists>n \<in> set (nchildren root). is_ram_for t n) \<and>
    (\<exists>reserved. child root reserved_name = Some reserved \<and> (\<forall>n \<in> set (nchildren reserved). names_page n \<or> avoids_page t n))"
proof -
  note tree = reader_of_contract_tree [OF assms(1,2)]
  have page: "page_aligned t" using find_spin_table_sound [OF tree(1) assms(3)] by (auto simp: reserved_holds_page_def page_node_def)
  have addr: "rd_addr r = addr" using assms(1) by (auto simp: reader_new_def)
  have "totalsize (rd_header r) \<le> length dtb" using fdt_header_parse_bounds(1) [OF tree(2)] .
  then have "rd_addr r + totalsize (rd_header r) < 2 ^ 64" using assms(5) addr by simp
  note sound = validate_memory_sound [OF tree(1) assms(4) page this]
  show ?thesis using sound(1-3) [unfolded addr] sound(4-6) by (simp add: Int_Un_distrib)
qed

lemma validate_memory_free_ram_witness:
  "\<exists>dtb r. reader_new 0x88000000 dtb = Inr r \<and> contract_tree dtb = Inr board \<and>
     validate_memory 0x8f000000 r board_table 0x90000000 0x1000000 = Inr () \<and> (\<exists>n \<in> set (nchildren board). is_ram_for board_table n)"
proof -
  obtain blob r where r: "reader_new 0x88000000 blob = Inr r" "contract_tree blob = Inr board" "reader_tree r board" "reader_root r = Inr 0"
      "reader_reserve_map r = Inr (enc_rsv [])" "rd_addr r = 0x88000000" "totalsize (rd_header r) = length blob" "length blob < 6000"
    using board_reader by metis
  have mem: "validate_memory 0x8f000000 r board_table 0x90000000 0x1000000 = Inr ()"
    using board_validate_memory [OF r(3,4,5,6)] r(7,8) by simp
  show ?thesis
    using validate_memory_free_ram [OF r(1,2) board_find_spin_table [OF r(3)] mem] r(1,2,8) mem by fastforce
qed



end
