(* ===== verification/Spec2Isabelle.thy ===== *)
theory Spec2Isabelle
  imports KexecLoad AbSwitch Settle BootDiscovery BootTables BootStart FastbootResults MsmResults
begin

text \<open>
  Verification development for pocketboot, a boot loader that runs as \<open>/init\<close> of a small Linux
  kernel on an arm64 phone or tablet, finds an operating system and starts it with kexec.

  \<^bold>\<open>The program and its parts.\<close> The loader waits for the local flash to appear
  (\<open>src/settle.rs\<close>), takes a boot entry from disk or over fastboot (\<open>src/bootflow.rs\<close>,
  \<open>src/fastboot\<close>), and starts it (\<open>src/kexec.rs\<close>): the kernel payload is unpacked to a raw arm64
  Image, the device tree of the entry gets the memory nodes and the CPU hand-over contract of the
  running kernel, a place is found for each segment, the device tree gets its boot properties, and
  the plan is given to \<open>kexec_load\<close>. Fastboot also reads and switches A/B slots in the GUID
  partition tables of the disks (\<open>src/ab_slots.rs\<close>, \<open>src/cmdline.rs\<close>). The theories model these
  parts; functions have the names of the source, with a prefix where two modules use one name.

  \<^bold>\<open>Common ground.\<close> \<open>Prelude\<close> has the machine words \<open>u8\<close> to \<open>u64\<close>, \<open>io\<close> results as sums
  (\<open>Inl\<close> an error with its kind and message, or \<open>RustPanic\<close>), checked arithmetic and slices;
  \<open>usize\<close> values are naturals below \<open>usize_limit\<close> where they are computed with checks. Messages are
  the literal texts of the source; values formatted into a message are left out unless a caller
  uses them. \<open>Bytes\<close> has the big and little endian codecs behind the interface \<open>byte_codec\<close> and
  the bounds-checked accessors, \<open>RustText\<close> the parts of \<open>str\<close> the sources call.

  \<^bold>\<open>Placement (\<open>src/kexec.rs\<close>, module \<open>aarch64\<close>).\<close> \<open>PhysMem\<close>: \<open>PhysRange\<close>, \<open>parse_iomem\<close>,
  \<open>add_range\<close>, \<open>subtract_range\<close>; a range list is refined to its set of addresses through the
  interface \<open>address_ranges\<close>. \<open>Placement\<close>: \<open>find_region\<close>, sound, complete and first-fit, behind the
  interface \<open>region_search\<close>.

  \<^bold>\<open>Kernel payloads.\<close> \<open>Pe\<close> (\<open>src/pe.rs\<close>), \<open>Zboot\<close> (\<open>src/zboot.rs\<close>) and \<open>KernelImage\<close>
  (\<open>prepare_kernel_payload_bytes\<close>). The PE parser is compared with a description of the format by
  offsets (\<open>is_pe_file\<close>). The decompressors are parameters (record \<open>decoders\<close>); what is proved holds
  for every result they may give.

  \<^bold>\<open>Device trees (\<open>src/kexec.rs\<close>, module \<open>fdt\<close>).\<close> \<open>Fdt\<close>, \<open>FdtStrings\<close> and \<open>FdtBuild\<close> model the
  header, the reserve map, the strings block and \<open>build_dtb\<close>; \<open>FdtTokens\<close> the structure tokens, as
  the code decodes them in each of its walkers; \<open>ContractTree\<close> the owned tree with its parser and
  writer, which is the reference the walkers are compared with: \<open>FdtPatch\<close> (\<open>patch_chosen\<close>),
  \<open>FdtMemory\<close> (\<open>graft_memory\<close>) and \<open>FdtReserved\<close> (\<open>reserved_ranges\<close>) prove that a pass over the
  flat structure does to the parsed tree what a function on trees says. The walkers recurse on a
  cursor that every token moves on; the measure is what is left of the block, so no fuel is needed.

  \<^bold>\<open>CPU hand-over.\<close> \<open>SpinTable\<close>: \<open>graft_spin_table\<close> with the recognition of the contract, the
  parking reservation, the release addresses, and the removal of PSCI.

  \<^bold>\<open>Loading.\<close> \<open>KexecLoad\<close>: \<open>KexecImage\<close>, the Image header and \<open>arm64::load\<close>. The plan is the value of
  \<open>arm64_plan\<close>; the system call is the parameter of \<open>arm64_load\<close>. The trampoline is run on a small
  model of the six instructions of the assembly in the source; where the linker puts its two
  literals is the record \<open>trampoline_symbols\<close>.

  \<^bold>\<open>Slots.\<close> \<open>Cmdline\<close>: the kernel command line. \<open>Gpt\<close>, \<open>GptTable\<close> and \<open>GptDisk\<close>: the GPT half of
  \<open>src/ab_slots.rs\<close>. A device is its contents and the record \<open>os_calls\<close> of the system calls the
  code makes on it: \<open>os_faithful\<close> says that a read which succeeds returns what is there, \<open>os_reads\<close> and \<open>os_ok\<close>
  that transfers succeed but may be short, \<open>os_honest\<close> that writes may fail at any point but put
  nothing else anywhere else. What a switch may change is \<open>disk_switched\<close> (of the tables, type GUIDs
  and flag bytes of the entries of the switched pairs; of the headers, the checksums) and
  \<open>rest_kept\<close> (nothing of the device outside the four regions). \<open>open\<close> errors carry their
  message already. The entry array is accessed through the interface \<open>indexed_table\<close>. \<open>AbSlots\<close> and
  \<open>AbSwitch\<close>: the rest of the file; what the code reads under \<open>/sys/block\<close> is the record \<open>system\<close>, and
  the contents of the devices are the state that \<open>set_active_slot\<close> passes on, also where it fails.
  That the four regions a commit writes do not overlap, and that a header says where it is, is not
  checked by the code and is the hypothesis \<open>layout_ok\<close>. Over all disks it is part of \<open>system_sound\<close>
  (with \<open>os_faithful\<close> and \<open>os_honest\<close>), under which a switch may stop with any error, and of
  \<open>system_ready\<close>, which adds that reads do not fail.

  \<^bold>\<open>Settling.\<close> \<open>Settle\<close>: the wait keeps the clock, which a pass moves by its delays and by the
  sleep at its end, and runs on the list of what its passes take from outside (\<open>pass_input\<close>: delays,
  \<open>recv\<close> results, \<open>/sys/block\<close>); a wait that has not returned within the list is None. \<open>wait_returns\<close>
  gives the number of passes after which it has, and the time that takes, where the socket runs dry
  at each pass (\<open>drains\<close>).

  \<^bold>\<open>Boot entries (\<open>src/bootflow.rs\<close>).\<close> \<open>SortBy\<close>: comparisons and the stable sort. \<open>BootPath\<close>: paths,
  the record \<open>file_system\<close> of what the code reads, and \<open>resolve_boot_path\<close>. \<open>GrubVars\<close>, \<open>Bls\<close>,
  \<open>ConfigText\<close> and \<open>Extlinux\<close>: the configuration files, with writers for the round trips; the
  expansion of GRUB variables is substitution in the only cut of a text into tokens (\<open>well_cut\<close>). \<open>BootMedia\<close>
  and \<open>BootTables\<close>: disks, partition tables, loop devices and mounts; the record \<open>media\<close> has what is
  outside the source. \<open>BootFlow\<close> and \<open>BootOrder\<close>: the discovery; the scanner threads appear as two
  functions that permute the lists of results, so that a theorem over all of them covers every
  order of arrival. The number of a free loop device is a function of the mapping; on a machine it
  depends on the schedule too. \<open>BootDiscovery\<close> has the theorems on the discovery and \<open>BootStart\<close> the one on starting an
  entry, which joins it to the kexec plan. Mounted files are read through one \<open>file_system\<close>, the one
  after the mounts; symbolic links in it are not resolved.

  \<^bold>\<open>Fastboot (\<open>src/fastboot\<close>).\<close> \<open>StateIo\<close>: state passing with errors, where what a failing operation
  changed stays changed, and the interface \<open>frame\<close> for relations every operation keeps.
  \<open>FastbootServer\<close> (\<open>mod.rs\<close>): responses, staging area, command table and \<open>run_once\<close>, for any world
  the handlers change; the USB link is the record \<open>link\<close>, its results given the clock of the server,
  which every call moves. \<open>FastbootProofs\<close> has its lemmas and the interface \<open>command_table\<close> that a table of
  handlers promises. \<open>FlashSparse\<close> and \<open>FlashProofs\<close> (\<open>flash.rs\<close>): raw and sparse images and erasing;
  \<open>SparseImage\<close> has a writer of sparse images and what they mean for the partition. \<open>FlashPartitions\<close>
  (\<open>partitions.rs\<close>), \<open>Kmsg\<close> (\<open>kmsg.rs\<close>) and \<open>GadgetUms\<close> (the mass-storage slots of \<open>gadget.rs\<close>).
  \<open>FastbootEnv\<close>: the world and the environment of the handlers; \<open>FastbootFlash\<close>, \<open>FastbootStage\<close> and
  \<open>FastbootTable\<close>: the handlers of \<open>fastboot/commands\<close>, \<open>power.rs\<close>, and the table \<open>main.rs\<close> registers.
  \<open>FastbootContract\<close>, \<open>FastbootSafety\<close> and \<open>FastbootFacts\<close> interpret the interfaces on that table;
  \<open>FastbootResults\<close> has the properties.

  \<^bold>\<open>Preboot stage (\<open>pocketpreboot/src\<close>).\<close> A program that runs before the kernel, on the bare board.
  \<open>PreFdt\<close> and \<open>PreReader\<close> are its device tree reader and writer (\<open>fdt.rs\<close>), which share the format but
  no code with \<open>kexec.rs\<close>; \<open>PreTree\<close> and \<open>PreView\<close> relate node offsets to nodes of the owned tree, through
  the interface \<open>fdt_view\<close>. \<open>MsmPage\<close>, \<open>MsmPatch\<close> and \<open>MsmHandoff\<close> are \<open>msm8916.rs\<close>: the checks of the
  resident page and the CPUs, the edit of the tree, and what is done to the hardware, as a log of
  events in program order whose answers are the record \<open>machine\<close>; the stores into \<open>DTB_SCRATCH\<close>, a buffer of
  the program itself, and console messages are not events. \<open>MsmChecks\<close> states what the checks
  establish; \<open>MsmRefine\<close>, \<open>MsmBlob\<close> and \<open>MsmTotal\<close> that the edit of the bytes is the edit \<open>msm_edit\<close> of the tree, and
  that it fails nowhere where the buffer has room for the old blob and 1000 bytes per node; \<open>MsmContract\<close> that the
  kexec loader finds no other contract in the edited tree than that of the page, and finds that one where the
  tree is \<open>usual_tree\<close>, which neither program checks; \<open>MsmAccept\<close> that the preboot reader
  accepts what the loader writes, and searches it right down to 32 levels (the loader writes 64); \<open>MsmSafety\<close>, with the interface \<open>hw_observer\<close>, what is done to the machine and when.
  \<open>MsmBoard\<close> is a board on which all of it runs, and \<open>MsmResults\<close> has the properties.
  The fuel of \<open>visit_power\<close> is the depth limit of the source; that of the hardware loops is the number
  of their rounds.

  \<^bold>\<open>What the lemmas show.\<close> For each parser: bounds and well-formedness of what it accepts. For each
  pass over a device tree: refinement of a function on trees, and round trips with the writer. For
  the plan: safety of the placement and the boot protocol. For slots: what a switch does, that it
  survives a reload and changes nothing else, and that no failure loses both copies of a table. For boot entries: that no
  configuration leads out of its partition, and that the threads do not show in the result. For the
  wait: that it returns, and what its report means. For fastboot: that every command is answered
  unless its handler ends in an error taken for a lost host or in a panic, what staging and flashing do, and which partitions can be written at all. For the preboot stage: that
  nothing is changed before all checks passed, and that a tree is handed on only when the CPUs are
  parked and what it says of them is true.

  \<^bold>\<open>Not modelled.\<close> The user interface (\<open>ui.rs\<close>) draws through a library. \<open>adb.rs\<close>, \<open>qemu.rs\<close>,
  \<open>main.rs\<close>, \<open>getty.rs\<close>, \<open>reaper.rs\<close>, \<open>runtime.rs\<close>, \<open>battery.rs\<close>, \<open>kmsg-forwarder.rs\<close> and the
  configfs part of \<open>gadget.rs\<close> are system calls and threads around little data, and so is the shell
  that \<open>oem shell\<close> runs; \<open>boot_state.rs\<close> mirrors results of the other parts to the screen. Of
  \<open>pocketpreboot\<close> the entry code, the Exynos board and the console are left out. \<open>xtask\<close> runs compilers and downloads on
  the build machine. Reading a file into memory, opening devices, tracing and the mount of file
  systems are parameters or left out throughout.
\<close>

end
